(* ===== verification/Prelude.thy ===== *)
theory Prelude
  imports Main "HOL-Library.Word" "HOL-Library.List_Lexorder" "HOL-Library.Char_ord"
    "HOL-Library.Option_ord" "HOL-Library.Product_Lexorder"
begin

text \<open>
  Shared vocabulary of the development: machine integers, the result type of every
  fallible operation, Rust strings as UTF-8 byte lists, big-endian integers, ordered
  maps (\<open>BTreeMap\<close>) and sets (\<open>BTreeSet\<close>), unordered maps (\<open>HashMap\<close>), and the generic
  lemmas about them. Nothing here models a file of the repository; the definitions are the
  parts of the Rust standard library that the repository uses.
\<close>

named_theorems res_simps \<open>equations that compute with results\<close>
named_theorems bmap_simps \<open>lookup and membership in ordered maps\<close>

section \<open>Machine integers\<close>

type_synonym u8 = "8 word"
type_synonym u16 = "16 word"
type_synonym u32 = "32 word"
type_synonym u64 = "64 word"

text \<open>A \<open>usize\<close> is a \<open>nat\<close>; where its width matters the bound is written out (64-bit target).\<close>

definition usize_bound :: nat where
  "usize_bound = 2 ^ 64"

definition isize_max :: nat where
  "isize_max = 2 ^ 63 - 1"

definition checked_add_usize :: "nat \<Rightarrow> nat \<Rightarrow> nat option" where
  "checked_add_usize a b = (if a + b < usize_bound then Some (a + b) else None)"

definition checked_add_u64 :: "u64 \<Rightarrow> u64 \<Rightarrow> u64 option" where
  "checked_add_u64 a b = (if unat a + unat b < 2 ^ 64 then Some (a + b) else None)"

lemma checked_add_u64_Some:
  "checked_add_u64 a b = Some c \<longleftrightarrow> unat a + unat b < 2 ^ 64 \<and> c = a + b"
  by (auto simp: checked_add_u64_def)

lemma checked_add_u64_unat: "checked_add_u64 a b = Some c \<Longrightarrow> unat c = unat a + unat b"
  by (auto simp: checked_add_u64_Some unat_word_ariths)

lemma unat_u8_bound: "unat (b :: u8) < 256"
  using unsigned_less [of b] by simp

lemma unat_u32_bound: "unat (x :: u32) < 256 ^ 4"
  using unsigned_less [of x] by simp

lemma unat_u64_bound: "unat (x :: u64) < 256 ^ 8"
  using unsigned_less [of x] by simp

section \<open>Results: a value, an error value, or a panic\<close>

datatype ('e, 'a) res = Ok 'a | Err 'e | Panic string

fun res_bind :: "('e, 'a) res \<Rightarrow> ('a \<Rightarrow> ('e, 'b) res) \<Rightarrow> ('e, 'b) res" where
  "res_bind (Ok x) f = f x"
| "res_bind (Err e) f = Err e"
| "res_bind (Panic m) f = Panic m"

text \<open>\<open>Option::ok_or\<close>, \<open>Option::expect\<close>, \<open>Result::map_err\<close>.\<close>

fun ok_or :: "'a option \<Rightarrow> 'e \<Rightarrow> ('e, 'a) res" where
  "ok_or (Some x) e = Ok x"
| "ok_or None e = Err e"

fun opt_expect :: "'a option \<Rightarrow> string \<Rightarrow> ('e, 'a) res" where
  "opt_expect (Some x) m = Ok x"
| "opt_expect None m = Panic m"

fun map_err :: "('e \<Rightarrow> 'f) \<Rightarrow> ('e, 'a) res \<Rightarrow> ('f, 'a) res" where
  "map_err g (Ok x) = Ok x"
| "map_err g (Err e) = Err (g e)"
| "map_err g (Panic m) = Panic m"

text \<open>\<open>Result::expect\<close>: an error becomes a panic.\<close>

fun res_expect :: "('e, 'a) res \<Rightarrow> string \<Rightarrow> ('e, 'a) res" where
  "res_expect (Ok x) m = Ok x"
| "res_expect (Err e) m = Panic m"
| "res_expect (Panic p) m = Panic p"

fun is_ok :: "('e, 'a) res \<Rightarrow> bool" where
  "is_ok (Ok x) = True"
| "is_ok (Err e) = False"
| "is_ok (Panic m) = False"

fun is_panic :: "('e, 'a) res \<Rightarrow> bool" where
  "is_panic (Ok x) = False"
| "is_panic (Err e) = False"
| "is_panic (Panic m) = True"

text \<open>A \<open>for\<close> loop whose body may leave with \<open>?\<close>: the first failure stops it.\<close>

fun res_fold :: "('a \<Rightarrow> 's \<Rightarrow> ('e, 's) res) \<Rightarrow> 'a list \<Rightarrow> 's \<Rightarrow> ('e, 's) res" where
  "res_fold f [] s = Ok s"
| "res_fold f (x # xs) s = res_bind (f x s) (res_fold f xs)"

text \<open>\<open>map(..).collect::<Result<Vec<_>, _>>()\<close>.\<close>

fun res_map :: "('a \<Rightarrow> ('e, 'b) res) \<Rightarrow> 'a list \<Rightarrow> ('e, 'b list) res" where
  "res_map f [] = Ok []"
| "res_map f (x # xs) = res_bind (f x) (\<lambda>y. res_bind (res_map f xs) (\<lambda>ys. Ok (y # ys)))"

lemma res_bind_Ok [res_simps]:
  "res_bind m f = Ok y \<longleftrightarrow> (\<exists>x. m = Ok x \<and> f x = Ok y)"
  by (cases m) auto

lemma res_bind_Err [res_simps]:
  "res_bind m f = Err e \<longleftrightarrow> m = Err e \<or> (\<exists>x. m = Ok x \<and> f x = Err e)"
  by (cases m) auto

lemma res_bind_Panic [res_simps]:
  "res_bind m f = Panic p \<longleftrightarrow> m = Panic p \<or> (\<exists>x. m = Ok x \<and> f x = Panic p)"
  by (cases m) auto

lemma res_bind_assoc: "res_bind (res_bind m f) g = res_bind m (\<lambda>x. res_bind (f x) g)"
  by (cases m) auto

lemma res_bind_cong [fundef_cong]:
  "m = m' \<Longrightarrow> (\<And>x. m' = Ok x \<Longrightarrow> f x = f' x) \<Longrightarrow> res_bind m f = res_bind m' f'"
  by (cases m') auto

lemma ok_or_Ok [res_simps]: "ok_or m e = Ok x \<longleftrightarrow> m = Some x"
  by (cases m) auto

lemma ok_or_Err [res_simps]: "ok_or m e = Err e' \<longleftrightarrow> m = None \<and> e' = e"
  by (cases m) auto

lemma ok_or_Panic [res_simps]: "ok_or m e \<noteq> Panic p"
  by (cases m) auto

lemma opt_expect_Ok [res_simps]: "opt_expect m p = Ok x \<longleftrightarrow> m = Some x"
  by (cases m) auto

lemma opt_expect_Err [res_simps]: "opt_expect m p \<noteq> Err e"
  by (cases m) auto

lemma map_err_Ok [res_simps]: "map_err g m = Ok x \<longleftrightarrow> m = Ok x"
  by (cases m) auto

lemma res_expect_Ok [res_simps]: "res_expect m p = Ok x \<longleftrightarrow> m = Ok x"
  by (cases m) auto

lemma is_ok_iff: "is_ok m \<longleftrightarrow> (\<exists>x. m = Ok x)"
  by (cases m) auto

lemma not_is_panic_iff: "\<not> is_panic m \<longleftrightarrow> (\<forall>p. m \<noteq> Panic p)"
  by (cases m) auto

lemma res_map_Ok: "res_map f xs = Ok ys \<longleftrightarrow> list_all2 (\<lambda>x y. f x = Ok y) xs ys"
  by (induction xs arbitrary: ys) (auto simp: res_simps list_all2_Cons1)

lemma res_map_length: "res_map f xs = Ok ys \<Longrightarrow> length ys = length xs"
  by (simp add: res_map_Ok list_all2_lengthD)

lemma res_map_all_Ok: "(\<And>x. x \<in> set xs \<Longrightarrow> f x = Ok (g x)) \<Longrightarrow> res_map f xs = Ok (map g xs)"
  by (induction xs) auto

lemma res_fold_append:
  "res_fold f (xs @ ys) s = res_bind (res_fold f xs s) (res_fold f ys)"
proof (induction xs arbitrary: s)
  case (Cons x xs)
  then show ?case by (cases "f x s") auto
qed simp

text \<open>An invariant of the loop body is an invariant of the loop.\<close>

lemma res_fold_invariant:
  assumes "res_fold f xs s = Ok t" and "I s"
    and "\<And>x s t. x \<in> set xs \<Longrightarrow> f x s = Ok t \<Longrightarrow> I s \<Longrightarrow> I t"
  shows "I t"
  using assms
proof (induction xs arbitrary: s)
  case Nil
  then show ?case by simp
next
  case (Cons x xs)
  from Cons.prems(1) obtain u where u: "f x s = Ok u" "res_fold f xs u = Ok t"
    by (auto simp: res_simps)
  have "I u"
    by (rule Cons.prems(3) [OF _ u(1) Cons.prems(2)]) simp
  show ?case
    by (rule Cons.IH [OF u(2) \<open>I u\<close>]) (rule Cons.prems(3), simp_all)
qed

text \<open>\<open>fails_only e r\<close>: \<open>r\<close> is a value or the error \<open>e\<close>, never another error and never a panic.\<close>

fun fails_only :: "'e \<Rightarrow> ('e, 'a) res \<Rightarrow> bool" where
  "fails_only e (Ok x) = True"
| "fails_only e (Err e') = (e' = e)"
| "fails_only e (Panic m) = False"

lemma fails_only_bind [intro]:
  "fails_only e m \<Longrightarrow> (\<And>x. m = Ok x \<Longrightarrow> fails_only e (f x)) \<Longrightarrow> fails_only e (res_bind m f)"
  by (cases m) auto

lemma fails_only_ok_or [simp]: "fails_only e (ok_or m e)"
  by (cases m) auto

lemma fails_only_res_map: "(\<And>x. x \<in> set xs \<Longrightarrow> fails_only e (f x)) \<Longrightarrow> fails_only e (res_map f xs)"
  by (induction xs) (auto intro!: fails_only_bind)

section \<open>Operations on a state\<close>

text \<open>
  An operation takes the state and returns the state it leaves behind with its result; \<open>?\<close> stops at
  the first failure and keeps the state reached so far.
\<close>

type_synonym ('s, 'e, 'a) op = "'s \<Rightarrow> 's \<times> ('e, 'a) res"

definition op_return :: "'a \<Rightarrow> ('s, 'e, 'a) op" where
  "op_return x s = (s, Ok x)"

definition op_fail :: "'e \<Rightarrow> ('s, 'e, 'a) op" where
  "op_fail e s = (s, Err e)"

definition op_res :: "('e, 'a) res \<Rightarrow> ('s, 'e, 'a) op" where
  "op_res r s = (s, r)"

definition op_read :: "('s \<Rightarrow> ('e, 'a) res) \<Rightarrow> ('s, 'e, 'a) op" where
  "op_read f s = (s, f s)"

definition op_bind :: "('s, 'e, 'a) op \<Rightarrow> ('a \<Rightarrow> ('s, 'e, 'b) op) \<Rightarrow> ('s, 'e, 'b) op" where
  "op_bind m f s =
     (case m s of (s', Ok x) \<Rightarrow> f x s' | (s', Err e) \<Rightarrow> (s', Err e) | (s', Panic p) \<Rightarrow> (s', Panic p))"

fun op_each :: "('a \<Rightarrow> ('s, 'e, unit) op) \<Rightarrow> 'a list \<Rightarrow> ('s, 'e, unit) op" where
  "op_each f [] = op_return ()"
| "op_each f (x # xs) = op_bind (f x) (\<lambda>_. op_each f xs)"

named_theorems op_simps \<open>how the operations run\<close>

lemma op_run [op_simps]:
  "op_return x s = (s, Ok x)" "op_fail e s = (s, Err e)" "op_res r s = (s, r)" "op_read f s = (s, f s)"
  by (simp_all add: op_return_def op_fail_def op_res_def op_read_def)

lemma op_bind_Ok:
  "op_bind m f s = (t, Ok y) \<longleftrightarrow> (\<exists>u x. m s = (u, Ok x) \<and> f x u = (t, Ok y))"
  by (auto simp: op_bind_def split: prod.splits res.splits)

text \<open>When a sequence of steps succeeds.\<close>

lemma op_run_Ok:
  "op_res r s = (t, Ok x) \<longleftrightarrow> t = s \<and> r = Ok x"
  "op_read f s = (t, Ok x) \<longleftrightarrow> t = s \<and> f s = Ok x"
  "op_return y s = (t, Ok x) \<longleftrightarrow> t = s \<and> x = y"
  "op_fail e s = (t, Ok x) \<longleftrightarrow> False"
  "(if b then op_fail e else m) s = (t, Ok x) \<longleftrightarrow> \<not> b \<and> m s = (t, Ok x)"
  by (auto simp: op_simps)

lemmas op_Ok = op_bind_Ok op_run_Ok

text \<open>A property of the transitions of the parts is a property of the transition of the whole.\<close>

definition op_keeps :: "('s \<Rightarrow> 's \<Rightarrow> bool) \<Rightarrow> ('s, 'e, 'a) op \<Rightarrow> bool" where
  "op_keeps R m \<longleftrightarrow> (\<forall>s. R s (fst (m s)))"

lemma op_keepsD: "op_keeps R m \<Longrightarrow> m s = (s', r) \<Longrightarrow> R s s'"
  unfolding op_keeps_def by (metis fst_conv)

lemma op_keeps_pure [intro]:
  assumes "reflp R"
  shows "op_keeps R (op_return x)" "op_keeps R (op_fail e)" "op_keeps R (op_res r)" "op_keeps R (op_read f)"
  using assms by (simp_all add: op_keeps_def op_simps reflpD)

lemma op_keeps_bind [intro]:
  assumes "transp R" and "op_keeps R m" and "\<And>x. op_keeps R (f x)"
  shows "op_keeps R (op_bind m f)"
proof -
  have "R s (fst (op_bind m f s))" for s
  proof (cases "m s")
    case (Pair s' r)
    then have R: "R s s'" by (rule op_keepsD [OF assms(2)])
    show ?thesis
    proof (cases r)
      case (Ok x)
      have "R s' (fst (f x s'))" using assms(3) by (simp add: op_keeps_def)
      then show ?thesis using R assms(1) Pair Ok by (auto simp: op_bind_def elim: transpE)
    qed (use R Pair in \<open>simp_all add: op_bind_def\<close>)
  qed
  then show ?thesis by (simp add: op_keeps_def)
qed

lemma op_keeps_each [intro]:
  assumes "reflp R" "transp R" "\<And>x. op_keeps R (f x)"
  shows "op_keeps R (op_each f xs)"
  by (induction xs) (simp_all add: op_keeps_pure op_keeps_bind assms)

lemma op_keeps_cases:
  "op_keeps R m \<Longrightarrow> op_keeps R n \<Longrightarrow> op_keeps R (if b then m else n)"
  "(\<And>a b. op_keeps R (f a b)) \<Longrightarrow> op_keeps R (case p of (a, b) \<Rightarrow> f a b)"
  "op_keeps R m \<Longrightarrow> (\<And>a. op_keeps R (g a)) \<Longrightarrow> op_keeps R (case x of None \<Rightarrow> m | Some a \<Rightarrow> g a)"
  by (simp_all split: prod.split option.split)

section \<open>Strings and bytes\<close>

text \<open>
  A Rust \<open>String\<close> is the list of its UTF-8 bytes, one \<^typ>\<open>char\<close> per byte;
  \<open>as_bytes\<close> and the conversion back only change the element type.
\<close>

definition byte_of_char :: "char \<Rightarrow> u8" where
  "byte_of_char c = word_of_nat (of_char c)"

definition char_of_byte :: "u8 \<Rightarrow> char" where
  "char_of_byte b = char_of (unat b)"

definition as_bytes :: "string \<Rightarrow> u8 list" where
  "as_bytes s = map byte_of_char s"

definition from_bytes :: "u8 list \<Rightarrow> string" where
  "from_bytes bs = map char_of_byte bs"

lemma unat_byte_of_char: "unat (byte_of_char c) = of_char c"
proof -
  have "(of_char c :: nat) < 256" by simp
  then show ?thesis
    by (simp add: byte_of_char_def unat_of_nat)
qed

lemma char_of_byte_of_char [simp]: "char_of_byte (byte_of_char c) = c"
  by (simp add: char_of_byte_def unat_byte_of_char)

lemma byte_of_char_of_byte [simp]: "byte_of_char (char_of_byte b) = b"
proof -
  have "unat b < 256" by (rule unat_u8_bound)
  then show ?thesis
    by (simp add: byte_of_char_def char_of_byte_def)
qed

lemma from_bytes_as_bytes [simp]: "from_bytes (as_bytes s) = s"
  by (simp add: from_bytes_def as_bytes_def comp_def)

lemma as_bytes_from_bytes [simp]: "as_bytes (from_bytes bs) = bs"
  by (simp add: from_bytes_def as_bytes_def comp_def)

lemma length_as_bytes [simp]: "length (as_bytes s) = length s"
  by (simp add: as_bytes_def)

lemma as_bytes_inj: "as_bytes s = as_bytes t \<longleftrightarrow> s = t"
  by (metis from_bytes_as_bytes)

lemma as_bytes_append [simp]: "as_bytes (s @ t) = as_bytes s @ as_bytes t"
  by (simp add: as_bytes_def)

text \<open>The UTF-8 check of \<open>std::str::from_utf8\<close>.\<close>

definition cont_byte :: "u8 \<Rightarrow> bool" where
  "cont_byte b \<longleftrightarrow> 128 \<le> b \<and> b \<le> 191"

fun utf8_ok :: "u8 list \<Rightarrow> bool" where
  "utf8_ok [] = True"
| "utf8_ok (a # r) =
     (if a < 128 then utf8_ok r
      else if 194 \<le> a \<and> a \<le> 223 then
        (case r of b # r1 \<Rightarrow> cont_byte b \<and> utf8_ok r1 | [] \<Rightarrow> False)
      else if 224 \<le> a \<and> a \<le> 239 then
        (case r of b # c # r2 \<Rightarrow>
           cont_byte b \<and> (a = 224 \<longrightarrow> 160 \<le> b) \<and> (a = 237 \<longrightarrow> b \<le> 159) \<and> cont_byte c \<and> utf8_ok r2
         | _ \<Rightarrow> False)
      else if 240 \<le> a \<and> a \<le> 244 then
        (case r of b # c # d # r3 \<Rightarrow>
           cont_byte b \<and> (a = 240 \<longrightarrow> 144 \<le> b) \<and> (a = 244 \<longrightarrow> b \<le> 143) \<and> cont_byte c \<and>
           cont_byte d \<and> utf8_ok r3
         | _ \<Rightarrow> False)
      else False)"

definition from_utf8 :: "u8 list \<Rightarrow> string option" where
  "from_utf8 bs = (if utf8_ok bs then Some (from_bytes bs) else None)"

text \<open>The invariant of every Rust string.\<close>

definition str_ok :: "string \<Rightarrow> bool" where
  "str_ok s \<longleftrightarrow> utf8_ok (as_bytes s)"

lemma from_utf8_as_bytes: "str_ok s \<Longrightarrow> from_utf8 (as_bytes s) = Some s"
  by (simp add: from_utf8_def str_ok_def)

lemma from_utf8_str_ok: "from_utf8 bs = Some s \<Longrightarrow> str_ok s \<and> as_bytes s = bs"
  by (auto simp: from_utf8_def str_ok_def split: if_splits)

lemma utf8_ok_ascii: "\<forall>b\<in>set bs. b < 128 \<Longrightarrow> utf8_ok bs"
  by (induction bs) auto

lemma str_ok_ascii: "\<forall>c\<in>set s. (of_char c :: nat) < 128 \<Longrightarrow> str_ok s"
  unfolding str_ok_def as_bytes_def
  by (rule utf8_ok_ascii) (auto simp: word_less_nat_alt unat_byte_of_char)

section \<open>Big-endian integers\<close>

fun be_nat :: "nat \<Rightarrow> nat \<Rightarrow> u8 list" where
  "be_nat 0 x = []"
| "be_nat (Suc n) x = be_nat n (x div 256) @ [word_of_nat (x mod 256)]"

definition nat_be :: "u8 list \<Rightarrow> nat" where
  "nat_be bs = foldl (\<lambda>a b. a * 256 + unat b) 0 bs"

lemma length_be_nat [simp]: "length (be_nat n x) = n"
  by (induction n arbitrary: x) auto

lemma nat_be_append1: "nat_be (bs @ [b]) = nat_be bs * 256 + unat b"
  by (simp add: nat_be_def)

lemma nat_be_be_nat: "nat_be (be_nat n x) = x mod 256 ^ n"
proof (induction n arbitrary: x)
  case 0
  then show ?case by (simp add: nat_be_def)
next
  case (Suc n)
  have "unat (word_of_nat (x mod 256) :: u8) = x mod 256"
    by (simp add: unat_of_nat)
  then have "nat_be (be_nat (Suc n) x) = (x div 256) mod 256 ^ n * 256 + x mod 256"
    by (simp add: nat_be_append1 Suc)
  also have "\<dots> = x mod (256 * 256 ^ n)"
    by (simp add: mod_mult2_eq)
  finally show ?case by simp
qed

lemma nat_be_bound: "nat_be bs < 256 ^ length bs"
proof (induction bs rule: rev_induct)
  case Nil
  then show ?case by (simp add: nat_be_def)
next
  case (snoc b bs)
  have "unat b < 256" by (rule unat_u8_bound)
  with snoc show ?case by (simp add: nat_be_append1)
qed

definition u64_to_be :: "u64 \<Rightarrow> u8 list" where
  "u64_to_be x = be_nat 8 (unat x)"

definition u64_from_be :: "u8 list \<Rightarrow> u64" where
  "u64_from_be bs = word_of_nat (nat_be bs)"

definition u32_to_be :: "u32 \<Rightarrow> u8 list" where
  "u32_to_be x = be_nat 4 (unat x)"

definition u32_from_be :: "u8 list \<Rightarrow> u32" where
  "u32_from_be bs = word_of_nat (nat_be bs)"

lemma u64_from_to_be [simp]: "u64_from_be (u64_to_be x) = x"
  unfolding u64_from_be_def u64_to_be_def nat_be_be_nat
  using mod_less [OF unat_u64_bound [of x]] by simp

lemma u32_from_to_be [simp]: "u32_from_be (u32_to_be x) = x"
  unfolding u32_from_be_def u32_to_be_def nat_be_be_nat
  using mod_less [OF unat_u32_bound [of x]] by simp

lemma length_u64_to_be [simp]: "length (u64_to_be x) = 8"
  by (simp add: u64_to_be_def)

lemma length_u32_to_be [simp]: "length (u32_to_be x) = 4"
  by (simp add: u32_to_be_def)

end
