(* ===== verification/Std_Collections.thy ===== *)
theory Std_Collections
  imports Prelude
begin

text \<open>
  The standard-library collections the repository keeps its state in. A \<open>BTreeMap\<close> is an
  association list ordered by strictly increasing keys, so that iteration order is the list
  order; a \<open>BTreeSet\<close> is a strictly increasing list; a \<open>HashMap\<close> is an association list with
  distinct keys in an arbitrary order. Look-up laws hold for every list; the facts about
  iteration order need \<open>bsorted\<close>, which every operation keeps.
\<close>

section \<open>Ordered maps\<close>

type_synonym ('k, 'v) btree_map = "('k \<times> 'v) list"

definition bget :: "('k, 'v) btree_map \<Rightarrow> 'k \<Rightarrow> 'v option" where
  "bget m k = map_of m k"

definition bcontains :: "('k, 'v) btree_map \<Rightarrow> 'k \<Rightarrow> bool" where
  "bcontains m k \<longleftrightarrow> bget m k \<noteq> None"

fun binsert :: "'k::linorder \<Rightarrow> 'v \<Rightarrow> ('k, 'v) btree_map \<Rightarrow> ('k, 'v) btree_map" where
  "binsert k v [] = [(k, v)]"
| "binsert k v ((k', v') # m) =
     (if k < k' then (k, v) # (k', v') # m
      else if k = k' then (k, v) # m
      else (k', v') # binsert k v m)"

definition bremove :: "'k \<Rightarrow> ('k, 'v) btree_map \<Rightarrow> ('k, 'v) btree_map" where
  "bremove k m = filter (\<lambda>(k', v). k' \<noteq> k) m"

definition bretain :: "('k \<Rightarrow> 'v \<Rightarrow> bool) \<Rightarrow> ('k, 'v) btree_map \<Rightarrow> ('k, 'v) btree_map" where
  "bretain p m = filter (\<lambda>(k, v). p k v) m"

definition bkeys :: "('k, 'v) btree_map \<Rightarrow> 'k list" where
  "bkeys m = map fst m"

definition bvalues :: "('k, 'v) btree_map \<Rightarrow> 'v list" where
  "bvalues m = map snd m"

definition blast :: "('k, 'v) btree_map \<Rightarrow> ('k \<times> 'v) option" where
  "blast m = (if m = [] then None else Some (last m))"

text \<open>\<open>entry(k).or_insert(v)\<close> and \<open>collect\<close> into a map (a later pair overwrites).\<close>

definition bor_insert :: "'k::linorder \<Rightarrow> 'v \<Rightarrow> ('k, 'v) btree_map \<Rightarrow> ('k, 'v) btree_map" where
  "bor_insert k v m = (if bcontains m k then m else binsert k v m)"

definition bcollect :: "('k::linorder \<times> 'v) list \<Rightarrow> ('k, 'v) btree_map" where
  "bcollect kvs = foldl (\<lambda>m (k, v). binsert k v m) [] kvs"

definition bsorted :: "('k::linorder, 'v) btree_map \<Rightarrow> bool" where
  "bsorted m \<longleftrightarrow> sorted_wrt (<) (map fst m)"

subsection \<open>Look-up laws\<close>

lemma bget_Nil [bmap_simps, simp]: "bget [] k = None"
  by (simp add: bget_def)

lemma bget_binsert [bmap_simps, simp]:
  "bget (binsert k v m) k' = (if k' = k then Some v else bget m k')"
  by (induction m) (auto simp: bget_def)

lemma bget_bremove [bmap_simps, simp]:
  "bget (bremove k m) k' = (if k' = k then None else bget m k')"
  by (induction m) (auto simp: bget_def bremove_def)

lemma bcontains_binsert [bmap_simps, simp]:
  "bcontains (binsert k v m) k' \<longleftrightarrow> k' = k \<or> bcontains m k'"
  by (simp add: bcontains_def)

lemma bcontains_bremove [bmap_simps, simp]:
  "bcontains (bremove k m) k' \<longleftrightarrow> k' \<noteq> k \<and> bcontains m k'"
  by (simp add: bcontains_def)

lemma bcontains_Nil [bmap_simps, simp]: "\<not> bcontains [] k"
  by (simp add: bcontains_def)

lemma bget_bor_insert [bmap_simps, simp]:
  "bget (bor_insert k v m) k' =
     (if k' = k \<and> bget m k = None then Some v else bget m k')"
  by (auto simp: bor_insert_def bcontains_def)

lemma bget_Some_mem: "bget m k = Some v \<Longrightarrow> (k, v) \<in> set m"
  by (simp add: bget_def map_of_SomeD)

lemma bcontains_iff: "bcontains m k \<longleftrightarrow> k \<in> set (bkeys m)"
  by (auto simp: bcontains_def bget_def bkeys_def map_of_eq_None_iff)

lemma bget_None_iff: "bget m k = None \<longleftrightarrow> k \<notin> set (bkeys m)"
  by (simp add: bget_def bkeys_def map_of_eq_None_iff)

subsection \<open>Order and iteration\<close>

lemma bsorted_Nil [simp]: "bsorted []"
  by (simp add: bsorted_def)

lemma bsorted_Cons: "bsorted ((k, v) # m) \<longleftrightarrow> (\<forall>k'\<in>set (bkeys m). k < k') \<and> bsorted m"
  by (simp add: bsorted_def bkeys_def)

lemma bkeys_Nil [simp]: "bkeys [] = []"
  by (simp add: bkeys_def)

lemma bkeys_Cons [simp]: "bkeys ((k, v) # m) = k # bkeys m"
  by (simp add: bkeys_def)

lemma set_bkeys_binsert [simp]: "set (bkeys (binsert k v m)) = insert k (set (bkeys m))"
  by (induction m) (auto split: if_splits)

lemma bsorted_binsert [simp, intro]: "bsorted m \<Longrightarrow> bsorted (binsert k v m)"
  by (induction m) (auto simp: bsorted_Cons not_less_iff_gr_or_eq, metis less_trans)

lemma bsorted_filter: "bsorted m \<Longrightarrow> bsorted (filter p m)"
  by (induction m) (auto simp: bsorted_Cons bkeys_def)

lemma bsorted_bremove [simp, intro]: "bsorted m \<Longrightarrow> bsorted (bremove k m)"
  by (simp add: bremove_def bsorted_filter)

lemma bsorted_bretain [simp, intro]: "bsorted m \<Longrightarrow> bsorted (bretain p m)"
  by (simp add: bretain_def bsorted_filter)

lemma bsorted_bor_insert [simp, intro]: "bsorted m \<Longrightarrow> bsorted (bor_insert k v m)"
  by (simp add: bor_insert_def bsorted_binsert)

lemma bsorted_distinct: "bsorted m \<Longrightarrow> distinct (map fst m)"
  by (simp add: bsorted_def strict_sorted_iff)

lemma bget_mem: "bsorted m \<Longrightarrow> (k, v) \<in> set m \<longleftrightarrow> bget m k = Some v"
  by (simp add: bget_def bsorted_distinct)

lemma bget_bretain:
  "bsorted m \<Longrightarrow> bget (bretain p m) k =
     (case bget m k of None \<Rightarrow> None | Some v \<Rightarrow> if p k v then Some v else None)"
proof (induction m)
  case Nil
  then show ?case by (simp add: bretain_def)
next
  case (Cons kv m)
  obtain k' v' where kv: "kv = (k', v')" by (cases kv)
  with Cons.prems have above: "\<forall>x\<in>set (bkeys m). k' < x" and "bsorted m"
    by (simp_all add: bsorted_Cons)
  then have "bget m k' = None" by (auto simp: bget_None_iff)
  with Cons.IH [OF \<open>bsorted m\<close>] kv show ?case
    by (auto simp: bretain_def bget_def split: option.splits)
qed

lemma binsert_above: "\<forall>k'\<in>set (bkeys m). k' < k \<Longrightarrow> binsert k v m = m @ [(k, v)]"
  by (induction m) auto

lemma foldl_binsert_bsorted:
  "bsorted m \<Longrightarrow> bsorted (foldl (\<lambda>m (k, v). binsert k v m) m kvs)"
  by (induction kvs arbitrary: m) (auto split: prod.splits)

lemma bsorted_bcollect [simp, intro]: "bsorted (bcollect kvs)"
  by (simp add: bcollect_def foldl_binsert_bsorted)

lemma foldl_binsert_bget:
  "bget (foldl (\<lambda>m (k, v). binsert k v m) m kvs) k =
     (case map_of (rev kvs) k of Some v \<Rightarrow> Some v | None \<Rightarrow> bget m k)"
  by (induction kvs arbitrary: m) (auto simp: map_add_def split: option.splits)

lemma bget_bcollect: "bget (bcollect kvs) k = map_of (rev kvs) k"
  by (simp add: bcollect_def foldl_binsert_bget split: option.splits)

text \<open>Two ordered maps with the same look-ups are the same map.\<close>

lemma bsorted_ext:
  assumes "bsorted m" and "bsorted m'" and "\<And>k. bget m k = bget m' k"
  shows "m = m'"
proof -
  have "set m = set m'"
    using assms by (auto simp: bget_mem set_eq_iff)
  moreover have "sorted (map fst m)" "distinct (map fst m)"
      "sorted (map fst m')" "distinct (map fst m')"
    using assms(1,2) by (simp_all add: bsorted_def strict_sorted_iff)
  ultimately show ?thesis
    by (metis map_sorted_distinct_set_unique distinct_map inj_on_Un sup.idem)
qed

section \<open>Ordered sets\<close>

fun sinsert :: "'k::linorder \<Rightarrow> 'k list \<Rightarrow> 'k list" where
  "sinsert k [] = [k]"
| "sinsert k (x # xs) = (if k < x then k # x # xs else if k = x then x # xs else x # sinsert k xs)"

definition scollect :: "'k::linorder list \<Rightarrow> 'k list" where
  "scollect ks = foldl (\<lambda>s k. sinsert k s) [] ks"

definition ssorted :: "'k::linorder list \<Rightarrow> bool" where
  "ssorted s \<longleftrightarrow> sorted_wrt (<) s"

lemma set_sinsert [simp]: "set (sinsert k s) = insert k (set s)"
  by (induction s) auto

lemma ssorted_sinsert [simp, intro]: "ssorted s \<Longrightarrow> ssorted (sinsert k s)"
  by (induction s) (auto simp: ssorted_def not_less_iff_gr_or_eq)

lemma foldl_sinsert: "set (foldl (\<lambda>s k. sinsert k s) s ks) = set s \<union> set ks"
  by (induction ks arbitrary: s) auto

lemma foldl_sinsert_ssorted: "ssorted s \<Longrightarrow> ssorted (foldl (\<lambda>s k. sinsert k s) s ks)"
  by (induction ks arbitrary: s) auto

lemma set_scollect [simp]: "set (scollect ks) = set ks"
  by (simp add: scollect_def foldl_sinsert)

lemma ssorted_scollect [simp, intro]: "ssorted (scollect ks)"
  unfolding scollect_def by (rule foldl_sinsert_ssorted) (simp add: ssorted_def)

lemma ssorted_distinct: "ssorted s \<Longrightarrow> distinct s"
  by (simp add: ssorted_def strict_sorted_iff)

lemma ssorted_unique: "ssorted s \<Longrightarrow> ssorted t \<Longrightarrow> set s = set t \<Longrightarrow> s = t"
  by (simp add: ssorted_def strict_sorted_equal)

end
