(* ===== verification/Kernel_Iface.thy ===== *)
theory Kernel_Iface
  imports Std_Collections
begin

text \<open>
  The interface of the external crate \<open>sim_kernel\<close> (and \<open>sha2\<close>) that the repository uses. The
  data types carry exactly the constructors and fields the repository's own code matches on and
  builds (\<open>Symbol { namespace, name }\<close>, \<open>ContentId { algorithm, bytes }\<close>, the arms of \<open>Datum\<close> in
  \<open>sim-lib-journal/src/datum_codec.rs\<close>). The functions are parameters, collected in the record
  \<open>kernel\<close>; what the repository relies on is stated as named predicates over that record and
  appears as a hypothesis where it is used. The kernel orders its ids by some linear order that is
  not in this repository; the instances below fix the order \<open>derive(Ord)\<close> gives for the visible
  fields, and only the order of enumeration depends on it.
\<close>

section \<open>Symbols\<close>

datatype symbol = Symbol (sym_ns: "string option") (sym_name: string)

abbreviation sym_new :: "string \<Rightarrow> symbol" where
  "sym_new n \<equiv> Symbol None n"

abbreviation sym_qualified :: "string \<Rightarrow> string \<Rightarrow> symbol" where
  "sym_qualified ns n \<equiv> Symbol (Some ns) n"

instantiation symbol :: linorder
begin

definition less_eq_symbol :: "symbol \<Rightarrow> symbol \<Rightarrow> bool" where
  "less_eq_symbol s t \<longleftrightarrow> (sym_ns s, sym_name s) \<le> (sym_ns t, sym_name t)"

definition less_symbol :: "symbol \<Rightarrow> symbol \<Rightarrow> bool" where
  "less_symbol s t \<longleftrightarrow> (sym_ns s, sym_name s) < (sym_ns t, sym_name t)"

instance
proof
  fix x y z :: symbol
  show "(x < y) = (x \<le> y \<and> \<not> y \<le> x)"
    unfolding less_eq_symbol_def less_symbol_def by (rule less_le_not_le)
  show "x \<le> x"
    unfolding less_eq_symbol_def by (rule order_refl)
  show "x \<le> y \<Longrightarrow> y \<le> z \<Longrightarrow> x \<le> z"
    unfolding less_eq_symbol_def by (rule order_trans)
  show "x \<le> y \<Longrightarrow> y \<le> x \<Longrightarrow> x = y"
    unfolding less_eq_symbol_def using order_antisym by (blast intro: symbol.expand)
  show "x \<le> y \<or> y \<le> x"
    unfolding less_eq_symbol_def by (rule linear)
qed

end

text \<open>The invariant of a Rust symbol: its strings are UTF-8.\<close>

definition symbol_ok :: "symbol \<Rightarrow> bool" where
  "symbol_ok s \<longleftrightarrow> (case sym_ns s of None \<Rightarrow> True | Some ns \<Rightarrow> str_ok ns) \<and> str_ok (sym_name s)"

section \<open>Content ids\<close>

datatype cid = Cid (cid_alg: symbol) (cid_bytes: "u8 list")

instantiation cid :: linorder
begin

definition less_eq_cid :: "cid \<Rightarrow> cid \<Rightarrow> bool" where
  "less_eq_cid a b \<longleftrightarrow> (cid_alg a, cid_bytes a) \<le> (cid_alg b, cid_bytes b)"

definition less_cid :: "cid \<Rightarrow> cid \<Rightarrow> bool" where
  "less_cid a b \<longleftrightarrow> (cid_alg a, cid_bytes a) < (cid_alg b, cid_bytes b)"

instance
proof
  fix x y z :: cid
  show "(x < y) = (x \<le> y \<and> \<not> y \<le> x)"
    unfolding less_eq_cid_def less_cid_def by (rule less_le_not_le)
  show "x \<le> x"
    unfolding less_eq_cid_def by (rule order_refl)
  show "x \<le> y \<Longrightarrow> y \<le> z \<Longrightarrow> x \<le> z"
    unfolding less_eq_cid_def by (rule order_trans)
  show "x \<le> y \<Longrightarrow> y \<le> x \<Longrightarrow> x = y"
    unfolding less_eq_cid_def using order_antisym by (blast intro: cid.expand)
  show "x \<le> y \<or> y \<le> x"
    unfolding less_eq_cid_def by (rule linear)
qed

end

text \<open>The digest of a content id is a \<open>[u8; 32]\<close>.\<close>

definition cid_ok :: "cid \<Rightarrow> bool" where
  "cid_ok c \<longleftrightarrow> length (cid_bytes c) = 32 \<and> symbol_ok (cid_alg c)"

section \<open>Datums\<close>

datatype datum =
    DNil
  | DBool bool
  | DNumber symbol string
  | DSymbol symbol
  | DString string
  | DBytes "u8 list"
  | DList "datum list"
  | DVector "datum list"
  | DMap "(datum \<times> datum) list"
  | DSet "datum list"
  | DNode symbol "(symbol \<times> datum) list"

section \<open>The kernel's functions\<close>

record kernel =
  content_id :: "datum \<Rightarrow> cid option"
  canonical_bytes :: "datum \<Rightarrow> u8 list option"
  as_qualified_str :: "symbol \<Rightarrow> string"
  symbol_checked :: "string \<Rightarrow> symbol option"
  sha256 :: "u8 list \<Rightarrow> u8 list"
  size_of_pair :: nat
  size_of_field :: nat
  size_of_cid :: nat

text \<open>
  The laws. A datum has a content id exactly when it has canonical bytes (the id is the digest of
  those bytes); SHA-256 and content ids are 32 bytes; a symbol prints as \<open>namespace/name\<close>.
\<close>

definition kernel_content_law :: "kernel \<Rightarrow> bool" where
  "kernel_content_law K \<longleftrightarrow> (\<forall>d. content_id K d \<noteq> None \<longleftrightarrow> canonical_bytes K d \<noteq> None)"

definition kernel_digest_law :: "kernel \<Rightarrow> bool" where
  "kernel_digest_law K \<longleftrightarrow>
     (\<forall>bs. length (sha256 K bs) = 32) \<and> (\<forall>d c. content_id K d = Some c \<longrightarrow> cid_ok c)"

definition qualified_str :: "symbol \<Rightarrow> string" where
  "qualified_str s = (case sym_ns s of None \<Rightarrow> sym_name s | Some ns \<Rightarrow> ns @ ''/'' @ sym_name s)"

definition kernel_symbol_law :: "kernel \<Rightarrow> bool" where
  "kernel_symbol_law K \<longleftrightarrow>
     (\<forall>s. as_qualified_str K s = qualified_str s) \<and>
     (\<forall>t s. symbol_checked K t = Some s \<longrightarrow> s = sym_new t)"

lemma kernel_content_lawD:
  "kernel_content_law K \<Longrightarrow> content_id K d = Some c \<Longrightarrow> \<exists>b. canonical_bytes K d = Some b"
  unfolding kernel_content_law_def by (metis not_None_eq)

lemma kernel_content_lawE:
  "kernel_content_law K \<Longrightarrow> canonical_bytes K d = Some b \<Longrightarrow> \<exists>c. content_id K d = Some c"
  unfolding kernel_content_law_def by (metis not_None_eq)

section \<open>A sample kernel\<close>

text \<open>
  A computable kernel for the witnesses: its canonical form is a byte per node of the datum with
  the leaf texts, the members of unordered collections in order, its digest the byte sum. It satisfies every law above; no theorem depends on it.
\<close>

fun sample_sym :: "symbol \<Rightarrow> u8 list" where
  "sample_sym (Symbol None n) = as_bytes n"
| "sample_sym (Symbol (Some s) n) = as_bytes s @ 47 # as_bytes n"

fun sample_bytes :: "datum \<Rightarrow> u8 list" where
  "sample_bytes DNil = [0]"
| "sample_bytes (DBool b) = [if b then 2 else 1]"
| "sample_bytes (DNumber s t) = 3 # sample_sym s @ as_bytes t"
| "sample_bytes (DSymbol s) = 4 # sample_sym s"
| "sample_bytes (DString t) = 5 # as_bytes t"
| "sample_bytes (DBytes bs) = 6 # bs"
| "sample_bytes (DList ds) = 7 # concat (map sample_bytes ds)"
| "sample_bytes (DVector ds) = 8 # concat (map sample_bytes ds)"
| "sample_bytes (DMap es) = 9 # concat (map (\<lambda>(k, v). k @ v) (sort (map (\<lambda>(k, v). (sample_bytes k, sample_bytes v)) es)))"
| "sample_bytes (DSet ds) = 10 # concat (sort (map sample_bytes ds))"
| "sample_bytes (DNode t fs) = 11 # sample_sym t @ concat (map (\<lambda>(n, v). sample_sym n @ v) (sort (map (\<lambda>(n, v). (n, sample_bytes v)) fs)))"

definition sample_digest :: "u8 list \<Rightarrow> u8 list" where
  "sample_digest bs = be_nat 32 (foldl (\<lambda>a b. a * 3 + unat b) 7 bs)"

definition sample_kernel :: kernel where
  "sample_kernel =
     \<lparr>content_id = (\<lambda>d. Some (Cid (sym_qualified ''core'' ''sample'') (sample_digest (sample_bytes d)))),
      canonical_bytes = (\<lambda>d. Some (sample_bytes d)),
      as_qualified_str = qualified_str,
      symbol_checked = (\<lambda>t. Some (sym_new t)),
      sha256 = sample_digest,
      size_of_pair = 64,
      size_of_field = 72,
      size_of_cid = 64\<rparr>"

lemma sample_kernel_laws:
  "kernel_content_law sample_kernel" "kernel_digest_law sample_kernel" "kernel_symbol_law sample_kernel"
  by (auto simp: kernel_content_law_def kernel_digest_law_def kernel_symbol_law_def sample_kernel_def
      sample_digest_def cid_ok_def symbol_ok_def intro!: str_ok_ascii)

end
