(* ===== verification/Journal_Types.thy ===== *)
theory Journal_Types
  imports Kernel_Iface
begin

text \<open>
  The plain data of \<open>crates/sim-lib-journal/src\<close>: the error enumeration of \<open>verify.rs\<close>, the head of
  \<open>head.rs\<close>, the writer lease of \<open>lease.rs\<close>, and the byte cursor that both codecs of the crate read
  with, together with the rule that lets decoders be verified piece by piece.
\<close>

section \<open>Errors, heads and leases\<close>

datatype journal_error =
    EmptyBatch
  | WrongHead
  | StaleLease
  | SequenceGap
  | WrongPrevious
  | CorruptEntry
  | CorruptObject cid
  | MissingPayload cid
  | ConflictingObject
  | NonCanonicalDatum
  | MissingSemanticObject cid
  | ConflictingDelivery
  | CorruptState string
  | Backend string
  | WriteRefused string
  | WorkBoundExceeded
  | InjectedCrash string

record journal_head =
  head_sequence :: u64
  head_entry :: cid

record lease =
  lease_fence :: u64

definition fence_of :: "lease \<Rightarrow> u64" where
  "fence_of l = lease_fence l"

section \<open>Cursors\<close>

record cursor =
  cur_bytes :: "u8 list"
  cur_at :: nat

definition new_cursor :: "u8 list \<Rightarrow> cursor" where
  "new_cursor bs = \<lparr>cur_bytes = bs, cur_at = 0\<rparr>"

text \<open>\<open>slice.get(a..b)\<close>.\<close>

definition slice_get :: "'a list \<Rightarrow> nat \<Rightarrow> nat \<Rightarrow> 'a list option" where
  "slice_get xs a b = (if a \<le> b \<and> b \<le> length xs then Some (take (b - a) (drop a xs)) else None)"

text \<open>\<open>Cursor::take\<close>, with the two messages that differ between the codecs.\<close>

definition cursor_take :: "string \<Rightarrow> string \<Rightarrow> nat \<Rightarrow> cursor \<Rightarrow> (journal_error, u8 list \<times> cursor) res" where
  "cursor_take m_len m_trunc len c =
     res_bind (ok_or (checked_add_usize (cur_at c) len) (CorruptState m_len)) (\<lambda>e.
     res_bind (ok_or (slice_get (cur_bytes c) (cur_at c) e) (CorruptState m_trunc)) (\<lambda>v.
     Ok (v, c\<lparr>cur_at := e\<rparr>)))"

text \<open>\<open>Vec::with_capacity(n)\<close> panics when the buffer would exceed \<open>isize::MAX\<close> bytes.\<close>

definition vec_with_capacity :: "nat \<Rightarrow> nat \<Rightarrow> ('e, unit) res" where
  "vec_with_capacity elem n = (if n * elem \<le> isize_max then Ok () else Panic ''capacity overflow'')"

section \<open>Readers\<close>

text \<open>
  \<open>reads p e v\<close>: wherever the bytes \<open>e\<close> stand in a buffer, the reader \<open>p\<close> placed at their start
  returns \<open>v\<close> and stops right behind them.
\<close>

definition reads :: "(cursor \<Rightarrow> (journal_error, 'a \<times> cursor) res) \<Rightarrow> u8 list \<Rightarrow> 'a \<Rightarrow> bool" where
  "reads p e v \<longleftrightarrow>
     (\<forall>pre post. length (pre @ e @ post) < usize_bound \<longrightarrow>
        p \<lparr>cur_bytes = pre @ e @ post, cur_at = length pre\<rparr> =
          Ok (v, \<lparr>cur_bytes = pre @ e @ post, cur_at = length pre + length e\<rparr>))"

text \<open>\<open>advances p\<close>: a successful read stays inside the buffer and never moves back.\<close>

definition cursor_step :: "cursor \<Rightarrow> cursor \<Rightarrow> bool" where
  "cursor_step c c' \<longleftrightarrow>
     cur_bytes c' = cur_bytes c \<and> cur_at c \<le> cur_at c' \<and> cur_at c' \<le> length (cur_bytes c)"

definition advances :: "(cursor \<Rightarrow> (journal_error, 'a \<times> cursor) res) \<Rightarrow> bool" where
  "advances p \<longleftrightarrow> (\<forall>c v c'. cur_at c \<le> length (cur_bytes c) \<longrightarrow> p c = Ok (v, c') \<longrightarrow> cursor_step c c')"

lemma readsI:
  "(\<And>pre post. length (pre @ e @ post) < usize_bound \<Longrightarrow>
      p \<lparr>cur_bytes = pre @ e @ post, cur_at = length pre\<rparr> =
        Ok (v, \<lparr>cur_bytes = pre @ e @ post, cur_at = length pre + length e\<rparr>)) \<Longrightarrow> reads p e v"
  by (simp add: reads_def)

lemma reads_return: "reads (\<lambda>c. Ok (v, c)) [] v"
  by (simp add: reads_def)

lemma reads_bind:
  assumes p: "reads p e1 v" and q: "reads (q v) e2 w"
  shows "reads (\<lambda>c. res_bind (p c) (\<lambda>(v, c'). q v c')) (e1 @ e2) w"
proof (rule readsI)
  fix pre post :: "u8 list"
  assume len: "length (pre @ (e1 @ e2) @ post) < usize_bound"
  have 1: "p \<lparr>cur_bytes = pre @ (e1 @ e2) @ post, cur_at = length pre\<rparr> =
      Ok (v, \<lparr>cur_bytes = pre @ (e1 @ e2) @ post, cur_at = length pre + length e1\<rparr>)"
    using p [unfolded reads_def, rule_format, of pre "e2 @ post"] len by simp
  have 2: "q v \<lparr>cur_bytes = pre @ (e1 @ e2) @ post, cur_at = length pre + length e1\<rparr> =
      Ok (w, \<lparr>cur_bytes = pre @ (e1 @ e2) @ post, cur_at = length pre + length e1 + length e2\<rparr>)"
    using q [unfolded reads_def, rule_format, of "pre @ e1" post] len by simp
  show "res_bind (p \<lparr>cur_bytes = pre @ (e1 @ e2) @ post, cur_at = length pre\<rparr>) (\<lambda>(v, c'). q v c') =
      Ok (w, \<lparr>cur_bytes = pre @ (e1 @ e2) @ post, cur_at = length pre + length (e1 @ e2)\<rparr>)"
    by (simp add: 1 [simplified] 2 [simplified] add.assoc)
qed

text \<open>The last step of a reader only builds the value.\<close>

lemma reads_map:
  "reads p e v \<Longrightarrow> f v = w \<Longrightarrow> reads (\<lambda>c. res_bind (p c) (\<lambda>(v, c'). Ok (f v, c'))) e w"
  by (simp add: reads_def)

lemma reads_cong: "reads p e v \<Longrightarrow> (\<And>c. p c = q c) \<Longrightarrow> reads q e v"
  by (simp add: reads_def)

lemma slice_get_mid: "slice_get (pre @ e @ post) (length pre) (length pre + length e) = Some e"
  by (simp add: slice_get_def)

lemma reads_take: "n = length e \<Longrightarrow> reads (cursor_take a b n) e e"
  by (simp add: reads_def cursor_take_def checked_add_usize_def slice_get_mid)

lemma cursor_take_step:
  "cursor_take a b n c = Ok (v, c') \<Longrightarrow> cursor_step c c' \<and> cur_at c' = cur_at c + n \<and> length v = n"
  by (auto simp: cursor_take_def res_simps checked_add_usize_def slice_get_def cursor_step_def split: if_splits)

lemma cursor_take_no_panic: "cursor_take a b n c \<noteq> Panic m"
  by (auto simp: cursor_take_def res_simps)

lemma cursor_step_trans: "cursor_step c c' \<Longrightarrow> cursor_step c' c'' \<Longrightarrow> cursor_step c c''"
  by (auto simp: cursor_step_def)

end
