(* ===== verification/Datum_Codec.thy ===== *)
theory Datum_Codec
  imports Journal_Types "HOL-Library.Multiset"
begin

text \<open>
  The byte codec of semantic values, \<open>crates/sim-lib-journal/src/datum_codec.rs\<close>: the writer
  (\<open>put_*\<close>, threading the output buffer), the reader (\<open>dc_*\<close>, threading the cursor) and the two entry
  points. The reader's recursion is bounded by fuel; twice the number of remaining bytes plus one is
  enough on every input, because each value consumes its tag byte.
\<close>

section \<open>Writer\<close>

definition put_len :: "nat \<Rightarrow> u8 list \<Rightarrow> (journal_error, u8 list) res" where
  "put_len len out = (if len < 2 ^ 64 then Ok (out @ be_nat 8 len) else Err WorkBoundExceeded)"

definition put_bytes :: "u8 list \<Rightarrow> u8 list \<Rightarrow> (journal_error, u8 list) res" where
  "put_bytes bytes out = res_bind (put_len (length bytes) out) (\<lambda>out. Ok (out @ bytes))"

definition put_symbol :: "symbol \<Rightarrow> u8 list \<Rightarrow> (journal_error, u8 list) res" where
  "put_symbol s out =
     res_bind
       (case sym_ns s of
          Some ns \<Rightarrow> res_expect (put_bytes (as_bytes ns) (out @ [1])) ''symbol length fits u64''
        | None \<Rightarrow> Ok (out @ [0]))
       (\<lambda>out. res_expect (put_bytes (as_bytes (sym_name s)) out) ''symbol length fits u64'')"

definition canon_key :: "kernel \<Rightarrow> datum \<Rightarrow> u8 list" where
  "canon_key K d = (case canonical_bytes K d of Some b \<Rightarrow> b | None \<Rightarrow> [])"

definition symbol_key :: "symbol \<Rightarrow> string option \<times> string" where
  "symbol_key s = (sym_ns s, sym_name s)"

text \<open>\<open>sort_by_key\<close> on the three unordered collections.\<close>

definition sort_entries :: "kernel \<Rightarrow> (datum \<times> datum) list \<Rightarrow> (datum \<times> datum) list" where
  "sort_entries K es = sort_key (\<lambda>(k, v). canon_key K k) es"

definition sort_items :: "kernel \<Rightarrow> datum list \<Rightarrow> datum list" where
  "sort_items K ds = sort_key (canon_key K) ds"

definition sort_fields :: "(symbol \<times> datum) list \<Rightarrow> (symbol \<times> datum) list" where
  "sort_fields fs = sort_key (\<lambda>(n, v). symbol_key n) fs"

lemma size_list_insort_key: "size_list g (insort_key f x xs) = size_list g (x # xs)"
  by (induction xs) auto

lemma size_list_sort_key: "size_list g (sort_key f xs) = size_list g xs"
  by (induction xs) (auto simp: sort_key_def size_list_insort_key)

function put_datum :: "kernel \<Rightarrow> datum \<Rightarrow> u8 list \<Rightarrow> (journal_error, u8 list) res"
  and put_all :: "kernel \<Rightarrow> datum list \<Rightarrow> u8 list \<Rightarrow> (journal_error, u8 list) res"
  and put_pairs :: "kernel \<Rightarrow> (datum \<times> datum) list \<Rightarrow> u8 list \<Rightarrow> (journal_error, u8 list) res"
  and put_fields :: "kernel \<Rightarrow> (symbol \<times> datum) list \<Rightarrow> u8 list \<Rightarrow> (journal_error, u8 list) res"
  where
  "put_datum K DNil out = Ok (out @ [0])"
| "put_datum K (DBool b) out = Ok (out @ [if b then 2 else 1])"
| "put_datum K (DNumber domain canon) out =
     res_bind (put_symbol domain (out @ [3])) (put_bytes (as_bytes canon))"
| "put_datum K (DSymbol s) out = put_symbol s (out @ [4])"
| "put_datum K (DString t) out = put_bytes (as_bytes t) (out @ [5])"
| "put_datum K (DBytes bs) out = put_bytes bs (out @ [6])"
| "put_datum K (DList ds) out = res_bind (put_len (length ds) (out @ [7])) (put_all K ds)"
| "put_datum K (DVector ds) out = res_bind (put_len (length ds) (out @ [8])) (put_all K ds)"
| "put_datum K (DMap es) out =
     res_bind (put_len (length (sort_entries K es)) (out @ [9])) (put_pairs K (sort_entries K es))"
| "put_datum K (DSet ds) out =
     res_bind (put_len (length (sort_items K ds)) (out @ [10])) (put_all K (sort_items K ds))"
| "put_datum K (DNode tag fs) out =
     res_bind (put_symbol tag (out @ [11])) (\<lambda>out.
     res_bind (put_len (length (sort_fields fs)) out) (put_fields K (sort_fields fs)))"
| "put_all K [] out = Ok out"
| "put_all K (d # ds) out = res_bind (put_datum K d out) (put_all K ds)"
| "put_pairs K [] out = Ok out"
| "put_pairs K ((k, v) # es) out =
     res_bind (put_datum K k out) (\<lambda>out. res_bind (put_datum K v out) (put_pairs K es))"
| "put_fields K [] out = Ok out"
| "put_fields K ((n, v) # fs) out =
     res_bind (put_symbol n out) (\<lambda>out. res_bind (put_datum K v out) (put_fields K fs))"
  by pat_completeness auto

termination
  by (relation "measure (\<lambda>x. case x of
        Inl (Inl (K, d, out)) \<Rightarrow> 2 * size d
      | Inl (Inr (K, ds, out)) \<Rightarrow> 2 * size_list size ds + 1
      | Inr (Inl (K, es, out)) \<Rightarrow> 2 * size_list (size_prod size size) es + 1
      | Inr (Inr (K, fs, out)) \<Rightarrow> 2 * size_list (size_prod (\<lambda>_. 0) size) fs + 1)")
    (auto simp: sort_entries_def sort_items_def sort_fields_def size_list_sort_key)

definition encode :: "kernel \<Rightarrow> datum \<Rightarrow> (journal_error, u8 list) res" where
  "encode K value =
     res_bind (ok_or (canonical_bytes K value) NonCanonicalDatum) (\<lambda>_.
     put_datum K value (as_bytes ''SIMJDATUM1''))"

section \<open>Reader\<close>

abbreviation dc_take :: "nat \<Rightarrow> cursor \<Rightarrow> (journal_error, u8 list \<times> cursor) res" where
  "dc_take \<equiv> cursor_take ''datum length'' ''truncated datum''"

definition dc_byte :: "cursor \<Rightarrow> (journal_error, u8 \<times> cursor) res" where
  "dc_byte c = res_bind (dc_take 1 c) (\<lambda>(v, c). Ok (hd v, c))"

definition dc_len :: "cursor \<Rightarrow> (journal_error, nat \<times> cursor) res" where
  "dc_len c = res_bind (dc_take 8 c) (\<lambda>(v, c). Ok (nat_be v, c))"

definition dc_bytes :: "cursor \<Rightarrow> (journal_error, u8 list \<times> cursor) res" where
  "dc_bytes c = res_bind (dc_len c) (\<lambda>(len, c). dc_take len c)"

definition dc_text :: "cursor \<Rightarrow> (journal_error, string \<times> cursor) res" where
  "dc_text c = res_bind (dc_bytes c) (\<lambda>(bs, c).
     res_bind (ok_or (from_utf8 bs) (CorruptState ''datum utf8'')) (\<lambda>t. Ok (t, c)))"

definition dc_namespace :: "cursor \<Rightarrow> (journal_error, string option \<times> cursor) res" where
  "dc_namespace c = res_bind (dc_byte c) (\<lambda>(b, c).
     if b = 0 then Ok (None, c)
     else if b = 1 then res_bind (dc_text c) (\<lambda>(t, c). Ok (Some t, c))
     else Err (CorruptState ''datum symbol''))"

definition dc_symbol :: "cursor \<Rightarrow> (journal_error, symbol \<times> cursor) res" where
  "dc_symbol c = res_bind (dc_namespace c) (\<lambda>(ns, c).
     res_bind (dc_text c) (\<lambda>(name, c). Ok (Symbol ns name, c)))"

fun dc_datum :: "kernel \<Rightarrow> nat \<Rightarrow> cursor \<Rightarrow> (journal_error, datum \<times> cursor) res"
  and dc_items :: "kernel \<Rightarrow> nat \<Rightarrow> nat \<Rightarrow> cursor \<Rightarrow> (journal_error, datum list \<times> cursor) res"
  and dc_pairs :: "kernel \<Rightarrow> nat \<Rightarrow> nat \<Rightarrow> cursor \<Rightarrow> (journal_error, (datum \<times> datum) list \<times> cursor) res"
  and dc_fields :: "kernel \<Rightarrow> nat \<Rightarrow> nat \<Rightarrow> cursor \<Rightarrow> (journal_error, (symbol \<times> datum) list \<times> cursor) res"
  where
  "dc_datum K 0 c = Panic ''fuel''"
| "dc_datum K (Suc f) c = res_bind (dc_byte c) (\<lambda>(tag, c).
     if tag = 0 then Ok (DNil, c)
     else if tag = 1 then Ok (DBool False, c)
     else if tag = 2 then Ok (DBool True, c)
     else if tag = 3 then res_bind (dc_symbol c) (\<lambda>(s, c). res_bind (dc_text c) (\<lambda>(t, c). Ok (DNumber s t, c)))
     else if tag = 4 then res_bind (dc_symbol c) (\<lambda>(s, c). Ok (DSymbol s, c))
     else if tag = 5 then res_bind (dc_text c) (\<lambda>(t, c). Ok (DString t, c))
     else if tag = 6 then res_bind (dc_bytes c) (\<lambda>(bs, c). Ok (DBytes bs, c))
     else if tag = 7 then res_bind (dc_len c) (\<lambda>(n, c). res_bind (dc_items K f n c) (\<lambda>(ds, c). Ok (DList ds, c)))
     else if tag = 8 then res_bind (dc_len c) (\<lambda>(n, c). res_bind (dc_items K f n c) (\<lambda>(ds, c). Ok (DVector ds, c)))
     else if tag = 9 then res_bind (dc_len c) (\<lambda>(n, c).
       res_bind (vec_with_capacity (size_of_pair K) n) (\<lambda>_.
       res_bind (dc_pairs K f n c) (\<lambda>(es, c). Ok (DMap es, c))))
     else if tag = 10 then res_bind (dc_len c) (\<lambda>(n, c). res_bind (dc_items K f n c) (\<lambda>(ds, c). Ok (DSet ds, c)))
     else if tag = 11 then res_bind (dc_symbol c) (\<lambda>(s, c). res_bind (dc_len c) (\<lambda>(n, c).
       res_bind (vec_with_capacity (size_of_field K) n) (\<lambda>_.
       res_bind (dc_fields K f n c) (\<lambda>(fs, c). Ok (DNode s fs, c)))))
     else Err (CorruptState ''datum tag''))"
| "dc_items K 0 n c = (if n = 0 then Ok ([], c) else Panic ''fuel'')"
| "dc_items K (Suc f) n c =
     (if n = 0 then Ok ([], c)
      else res_bind (dc_datum K f c) (\<lambda>(d, c). res_bind (dc_items K f (n - 1) c) (\<lambda>(ds, c). Ok (d # ds, c))))"
| "dc_pairs K 0 n c = (if n = 0 then Ok ([], c) else Panic ''fuel'')"
| "dc_pairs K (Suc f) n c =
     (if n = 0 then Ok ([], c)
      else res_bind (dc_datum K f c) (\<lambda>(k, c). res_bind (dc_datum K f c) (\<lambda>(v, c).
        res_bind (dc_pairs K f (n - 1) c) (\<lambda>(es, c). Ok ((k, v) # es, c)))))"
| "dc_fields K 0 n c = (if n = 0 then Ok ([], c) else Panic ''fuel'')"
| "dc_fields K (Suc f) n c =
     (if n = 0 then Ok ([], c)
      else res_bind (dc_symbol c) (\<lambda>(s, c). res_bind (dc_datum K f c) (\<lambda>(v, c).
        res_bind (dc_fields K f (n - 1) c) (\<lambda>(fs, c). Ok ((s, v) # fs, c)))))"

definition dc_end :: "cursor \<Rightarrow> (journal_error, unit) res" where
  "dc_end c = (if cur_at c = length (cur_bytes c) then Ok () else Err (CorruptState ''trailing datum bytes''))"

definition dc_fuel :: "u8 list \<Rightarrow> nat" where
  "dc_fuel bs = 2 * length bs + 1"

definition decode :: "kernel \<Rightarrow> u8 list \<Rightarrow> (journal_error, datum) res" where
  "decode K bytes =
     res_bind (dc_take 10 (new_cursor bytes)) (\<lambda>(magic, c).
     if magic \<noteq> as_bytes ''SIMJDATUM1'' then Err (CorruptState ''datum format'')
     else res_bind (dc_datum K (dc_fuel bytes) c) (\<lambda>(value, c).
          res_bind (dc_end c) (\<lambda>_.
          res_bind (ok_or (canonical_bytes K value) NonCanonicalDatum) (\<lambda>_. Ok value))))"

section \<open>What a value turns into\<close>

text \<open>The writer orders maps, sets and node fields; reading back gives the ordered value.\<close>

lemma size_pair_mem:
  "(k, v) \<in> set es \<Longrightarrow> size k < Suc (size_list (size_prod size size) es)"
  "(k, v) \<in> set es \<Longrightarrow> size v < Suc (size_list (size_prod size size) es)"
  by (induction es) auto

lemma size_field_mem:
  "(n, v) \<in> set fs \<Longrightarrow> size v < Suc (size_list (size_prod (\<lambda>_. 0) size) fs)"
  by (induction fs) auto

function norm_datum :: "kernel \<Rightarrow> datum \<Rightarrow> datum" where
  "norm_datum K DNil = DNil"
| "norm_datum K (DBool b) = DBool b"
| "norm_datum K (DNumber s t) = DNumber s t"
| "norm_datum K (DSymbol s) = DSymbol s"
| "norm_datum K (DString t) = DString t"
| "norm_datum K (DBytes bs) = DBytes bs"
| "norm_datum K (DList ds) = DList (map (norm_datum K) ds)"
| "norm_datum K (DVector ds) = DVector (map (norm_datum K) ds)"
| "norm_datum K (DMap es) = DMap (map (\<lambda>(k, v). (norm_datum K k, norm_datum K v)) (sort_entries K es))"
| "norm_datum K (DSet ds) = DSet (map (norm_datum K) (sort_items K ds))"
| "norm_datum K (DNode tag fs) = DNode tag (map (\<lambda>(n, v). (n, norm_datum K v)) (sort_fields fs))"
  by pat_completeness auto

termination
  by (relation "measure (\<lambda>(K, d). size d)")
    (auto simp: sort_entries_def sort_items_def sort_fields_def less_Suc_eq_le
      dest: size_pair_mem size_field_mem intro: size_list_estimation')

text \<open>The invariants of a Rust datum: UTF-8 texts, and vectors that fit in memory.\<close>

fun datum_ok :: "kernel \<Rightarrow> datum \<Rightarrow> bool" where
  "datum_ok K DNil = True"
| "datum_ok K (DBool b) = True"
| "datum_ok K (DNumber s t) = (symbol_ok s \<and> str_ok t)"
| "datum_ok K (DSymbol s) = symbol_ok s"
| "datum_ok K (DString t) = str_ok t"
| "datum_ok K (DBytes bs) = True"
| "datum_ok K (DList ds) = list_all (datum_ok K) ds"
| "datum_ok K (DVector ds) = list_all (datum_ok K) ds"
| "datum_ok K (DMap es) =
     (length es * size_of_pair K \<le> isize_max \<and> list_all (\<lambda>(k, v). datum_ok K k \<and> datum_ok K v) es)"
| "datum_ok K (DSet ds) = list_all (datum_ok K) ds"
| "datum_ok K (DNode tag fs) =
     (symbol_ok tag \<and> length fs * size_of_field K \<le> isize_max \<and>
      list_all (\<lambda>(n, v). symbol_ok n \<and> datum_ok K v) fs)"

section \<open>Round trip of the parts\<close>

named_theorems reader_intros \<open>what each reader accepts\<close>

lemma put_len_Ok [res_simps]: "put_len n out = Ok out' \<longleftrightarrow> n < 2 ^ 64 \<and> out' = out @ be_nat 8 n"
  by (auto simp: put_len_def)

lemma put_bytes_Ok [res_simps]:
  "put_bytes bs out = Ok out' \<longleftrightarrow> length bs < 2 ^ 64 \<and> out' = out @ be_nat 8 (length bs) @ bs"
  by (auto simp: put_bytes_def res_simps)

lemma reads_dc_byte [reader_intros]: "reads dc_byte [b] b"
proof -
  have "reads (\<lambda>c. res_bind (dc_take 1 c) (\<lambda>(v, c). Ok (hd v, c))) [b] b"
    by (rule reads_map [OF reads_take]) simp_all
  then show ?thesis by (rule reads_cong) (simp add: dc_byte_def)
qed

lemma reads_dc_len [reader_intros]: "n < 2 ^ 64 \<Longrightarrow> reads dc_len (be_nat 8 n) n"
proof -
  assume "n < 2 ^ 64"
  then have "nat_be (be_nat 8 n) = n" by (simp add: nat_be_be_nat)
  then have "reads (\<lambda>c. res_bind (dc_take 8 c) (\<lambda>(v, c). Ok (nat_be v, c))) (be_nat 8 n) n"
    by (intro reads_map [OF reads_take]) simp_all
  then show ?thesis by (rule reads_cong) (simp add: dc_len_def)
qed

lemma reads_dc_bytes [reader_intros]:
  "length bs < 2 ^ 64 \<Longrightarrow> reads dc_bytes (be_nat 8 (length bs) @ bs) bs"
  unfolding dc_bytes_def [abs_def] by (rule reads_bind [OF reads_dc_len reads_take]) simp_all

lemma reads_dc_text [reader_intros]:
  assumes "length t < 2 ^ 64" and "str_ok t"
  shows "reads dc_text (be_nat 8 (length t) @ as_bytes t) t"
proof -
  have "reads dc_bytes (be_nat 8 (length t) @ as_bytes t) (as_bytes t)"
    using reads_dc_bytes [of "as_bytes t"] assms(1) by simp
  then show ?thesis
    by (auto simp: reads_def dc_text_def from_utf8_as_bytes [OF assms(2)])
qed

lemma reads_dc_namespace:
  "reads dc_namespace [0] None"
  "length t < 2 ^ 64 \<Longrightarrow> str_ok t \<Longrightarrow>
     reads dc_namespace ([1] @ be_nat 8 (length t) @ as_bytes t) (Some t)"
proof -
  have "reads dc_namespace ([0] @ []) None"
    unfolding dc_namespace_def [abs_def]
    by (rule reads_bind [OF reads_dc_byte]) (simp add: reads_return)
  then show "reads dc_namespace [0] None" by simp
  show "reads dc_namespace ([1] @ be_nat 8 (length t) @ as_bytes t) (Some t)"
    if "length t < 2 ^ 64" "str_ok t"
    unfolding dc_namespace_def [abs_def]
    by (rule reads_bind [OF reads_dc_byte]) (simp add: reads_map [OF reads_dc_text [OF that]])
qed

text \<open>A symbol is written as a tag, the optional namespace and the name, and read back.\<close>

lemma put_symbol_reads:
  assumes "put_symbol s out = Ok out'" and "symbol_ok s"
  shows "\<exists>e. out' = out @ e \<and> reads dc_symbol e s"
proof -
  obtain ns name where s: "s = Symbol ns name" by (cases s)
  have tail: "reads (\<lambda>c. res_bind (dc_text c) (\<lambda>(name, c). Ok (Symbol ns name, c)))
      (be_nat 8 (length name) @ as_bytes name) s" if "length name < 2 ^ 64"
    using that assms(2) s by (intro reads_map [OF reads_dc_text]) (simp_all add: symbol_ok_def)
  show ?thesis
  proof (cases ns)
    case None
    from assms(1) s None have len: "length name < 2 ^ 64"
      and out': "out' = out @ [0] @ be_nat 8 (length name) @ as_bytes name"
      by (auto simp: put_symbol_def res_simps)
    have "reads dc_symbol ([0] @ be_nat 8 (length name) @ as_bytes name) s"
      unfolding dc_symbol_def [abs_def]
      by (rule reads_bind [OF reads_dc_namespace(1)]) (use tail [OF len] None in simp)
    with out' show ?thesis by blast
  next
    case (Some t)
    from assms(1) s Some have len: "length name < 2 ^ 64" "length t < 2 ^ 64"
      and out': "out' = out @ ([1] @ be_nat 8 (length t) @ as_bytes t) @ be_nat 8 (length name) @ as_bytes name"
      by (auto simp: put_symbol_def res_simps)
    have "str_ok t" using assms(2) s Some by (simp add: symbol_ok_def)
    then have "reads dc_symbol (([1] @ be_nat 8 (length t) @ as_bytes t) @ be_nat 8 (length name) @ as_bytes name) s"
      unfolding dc_symbol_def [abs_def]
      by (intro reads_bind [OF reads_dc_namespace(2)]) (use tail len Some in simp_all)
    with out' show ?thesis by blast
  qed
qed

section \<open>Round trip of values\<close>

text \<open>
  \<open>written p out out' v m\<close>: what the writer appended to \<open>out\<close> is read back as \<open>v\<close> by \<open>p f\<close>, for every
  fuel \<open>f\<close> that is at least twice the number of bytes plus \<open>m\<close>.
\<close>

definition written ::
    "(nat \<Rightarrow> cursor \<Rightarrow> (journal_error, 'a \<times> cursor) res) \<Rightarrow> nat \<Rightarrow> u8 list \<Rightarrow> u8 list \<Rightarrow> 'a \<Rightarrow> bool" where
  "written p m out out' v \<longleftrightarrow>
     (\<exists>e. out' = out @ e \<and> 1 \<le> length e + m \<and> (\<forall>f\<ge>2 * length e + m. reads (p f) e v))"

lemma sort_entries_simps [simp]:
  "length (sort_entries K es) = length es"
  "list_all p (sort_entries K es) = list_all p es"
  by (simp_all add: sort_entries_def list_all_iff)

lemma sort_items_simps [simp]:
  "length (sort_items K ds) = length ds"
  "list_all p (sort_items K ds) = list_all p ds"
  by (simp_all add: sort_items_def list_all_iff)

lemma sort_fields_simps [simp]:
  "length (sort_fields fs) = length fs"
  "list_all p (sort_fields fs) = list_all p fs"
  by (simp_all add: sort_fields_def list_all_iff)

text \<open>The reader dispatches on the tag byte.\<close>

lemma reads_tag:
  assumes "\<And>c. p c = res_bind (dc_byte c) (\<lambda>(t, c). body t c)" and "reads (body b) e v"
  shows "reads p (b # e) v"
proof -
  have "reads (\<lambda>c. res_bind (dc_byte c) (\<lambda>(t, c). body t c)) ([b] @ e) v"
    by (rule reads_bind [where q = body, OF reads_dc_byte assms(2)])
  then show ?thesis by (simp add: assms(1) [abs_def])
qed

lemma written_tag:
  assumes "out' = out @ b # e" and "\<And>f. 2 * length e + 1 \<le> f \<Longrightarrow> reads (body f b) e v"
    and "\<And>f c. dc_datum K (Suc f) c = res_bind (dc_byte c) (\<lambda>(t, c). body f t c)"
  shows "written (dc_datum K) 0 out out' v"
  unfolding written_def
proof (intro exI [of _ "b # e"] conjI allI impI)
  fix f assume "2 * length (b # e) + 0 \<le> f"
  then obtain g where f: "f = Suc g" and g: "2 * length e + 1 \<le> g"
    by (cases f) auto
  show "reads (dc_datum K f) (b # e) v"
    unfolding f by (rule reads_tag [OF assms(3) assms(2) [OF g]])
qed (use assms(1) in simp_all)

lemmas written_datum = written_tag [OF _ _ dc_datum.simps(2)]

lemma written_items_Nil: "written (\<lambda>f. dc_items K f 0) 1 out out []"
  unfolding written_def
proof (intro exI [of _ "[]"] conjI allI impI)
  show "reads (dc_items K f 0) [] []" for f
    by (cases f) (simp_all add: reads_def)
qed simp_all

lemma written_items_Cons:
  assumes "written (dc_datum K) 0 out out1 d" and "written (\<lambda>f. dc_items K f (length xs)) 1 out1 out2 ds"
  shows "written (\<lambda>f. dc_items K f (Suc (length xs))) 1 out out2 (d # ds)"
proof -
  obtain e1 e2 where e: "out1 = out @ e1" "1 \<le> length e1" "out2 = out1 @ e2"
    and r1: "\<And>f. 2 * length e1 \<le> f \<Longrightarrow> reads (dc_datum K f) e1 d"
    and r2: "\<And>f. 2 * length e2 + 1 \<le> f \<Longrightarrow> reads (dc_items K f (length xs)) e2 ds"
    using assms by (auto simp: written_def)
  show ?thesis
    unfolding written_def
  proof (intro exI [of _ "e1 @ e2"] conjI allI impI)
    fix f assume "2 * length (e1 @ e2) + 1 \<le> f"
    then obtain g where f: "f = Suc g" and g: "2 * length e1 \<le> g" "2 * length e2 + 1 \<le> g"
      using e(2) by (cases f) auto
    have "reads (\<lambda>c. res_bind (dc_datum K g c) (\<lambda>(d, c).
        res_bind (dc_items K g (length xs) c) (\<lambda>(ds, c). Ok (d # ds, c)))) (e1 @ e2) (d # ds)"
      by (rule reads_bind [OF r1 [OF g(1)]]) (rule reads_map [OF r2 [OF g(2)]], rule refl)
    then show "reads (dc_items K f (Suc (length xs))) (e1 @ e2) (d # ds)"
      unfolding f by (rule reads_cong) simp
  qed (use e in simp_all)
qed

lemma written_pairs_Nil: "written (\<lambda>f. dc_pairs K f 0) 1 out out []"
  unfolding written_def
proof (intro exI [of _ "[]"] conjI allI impI)
  show "reads (dc_pairs K f 0) [] []" for f
    by (cases f) (simp_all add: reads_def)
qed simp_all

lemma written_pairs_Cons:
  assumes "written (dc_datum K) 0 out out1 k" and "written (dc_datum K) 0 out1 out2 v"
    and "written (\<lambda>f. dc_pairs K f (length xs)) 1 out2 out3 es"
  shows "written (\<lambda>f. dc_pairs K f (Suc (length xs))) 1 out out3 ((k, v) # es)"
proof -
  obtain e1 e2 e3 where e: "out1 = out @ e1" "1 \<le> length e1" "out2 = out1 @ e2" "1 \<le> length e2"
      "out3 = out2 @ e3"
    and r1: "\<And>f. 2 * length e1 \<le> f \<Longrightarrow> reads (dc_datum K f) e1 k"
    and r2: "\<And>f. 2 * length e2 \<le> f \<Longrightarrow> reads (dc_datum K f) e2 v"
    and r3: "\<And>f. 2 * length e3 + 1 \<le> f \<Longrightarrow> reads (dc_pairs K f (length xs)) e3 es"
    using assms by (auto simp: written_def)
  show ?thesis
    unfolding written_def
  proof (intro exI [of _ "e1 @ e2 @ e3"] conjI allI impI)
    fix f assume "2 * length (e1 @ e2 @ e3) + 1 \<le> f"
    then obtain g where f: "f = Suc g"
      and g: "2 * length e1 \<le> g" "2 * length e2 \<le> g" "2 * length e3 + 1 \<le> g"
      using e(2) by (cases f) auto
    have "reads (\<lambda>c. res_bind (dc_datum K g c) (\<lambda>(k, c). res_bind (dc_datum K g c) (\<lambda>(v, c).
        res_bind (dc_pairs K g (length xs) c) (\<lambda>(es, c). Ok ((k, v) # es, c))))) (e1 @ e2 @ e3) ((k, v) # es)"
      by (rule reads_bind [OF r1 [OF g(1)]], rule reads_bind [OF r2 [OF g(2)]],
          rule reads_map [OF r3 [OF g(3)]], rule refl)
    then show "reads (dc_pairs K f (Suc (length xs))) (e1 @ e2 @ e3) ((k, v) # es)"
      unfolding f by (rule reads_cong) simp
  qed (use e in simp_all)
qed

lemma written_fields_Nil: "written (\<lambda>f. dc_fields K f 0) 1 out out []"
  unfolding written_def
proof (intro exI [of _ "[]"] conjI allI impI)
  show "reads (dc_fields K f 0) [] []" for f
    by (cases f) (simp_all add: reads_def)
qed simp_all

lemma written_fields_Cons:
  assumes "out1 = out @ e1" and r1: "reads dc_symbol e1 s" and "written (dc_datum K) 0 out1 out2 v"
    and "written (\<lambda>f. dc_fields K f (length xs)) 1 out2 out3 fs"
  shows "written (\<lambda>f. dc_fields K f (Suc (length xs))) 1 out out3 ((s, v) # fs)"
proof -
  obtain e2 e3 where e: "out2 = out1 @ e2" "1 \<le> length e2" "out3 = out2 @ e3"
    and r2: "\<And>f. 2 * length e2 \<le> f \<Longrightarrow> reads (dc_datum K f) e2 v"
    and r3: "\<And>f. 2 * length e3 + 1 \<le> f \<Longrightarrow> reads (dc_fields K f (length xs)) e3 fs"
    using assms by (auto simp: written_def)
  show ?thesis
    unfolding written_def
  proof (intro exI [of _ "e1 @ e2 @ e3"] conjI allI impI)
    fix f assume "2 * length (e1 @ e2 @ e3) + 1 \<le> f"
    then obtain g where f: "f = Suc g"
      and g: "2 * length e2 \<le> g" "2 * length e3 + 1 \<le> g"
      using e(2) by (cases f) auto
    have "reads (\<lambda>c. res_bind (dc_symbol c) (\<lambda>(s, c). res_bind (dc_datum K g c) (\<lambda>(v, c).
        res_bind (dc_fields K g (length xs) c) (\<lambda>(fs, c). Ok ((s, v) # fs, c))))) (e1 @ e2 @ e3) ((s, v) # fs)"
      by (rule reads_bind [OF r1], rule reads_bind [OF r2 [OF g(1)]],
          rule reads_map [OF r3 [OF g(2)]], rule refl)
    then show "reads (dc_fields K f (Suc (length xs))) (e1 @ e2 @ e3) ((s, v) # fs)"
      unfolding f by (rule reads_cong) simp
  qed (use e assms(1) in simp_all)
qed

lemma written_counted:
  assumes "written (\<lambda>f. it f n) 1 (out @ t # be_nat 8 n) out' xs" and "n < 2 ^ 64"
    and "\<And>f c. dc_datum K (Suc f) c = res_bind (dc_byte c) (\<lambda>(t, c). body f t c)"
    and "\<And>f. body f t = (\<lambda>c. res_bind (dc_len c) (\<lambda>(n, c). res_bind (it f n c) (\<lambda>(xs, c). Ok (h xs, c))))"
  shows "written (dc_datum K) 0 out out' (h xs)"
proof -
  obtain e where e: "out' = (out @ t # be_nat 8 n) @ e"
    and r: "\<And>f. 2 * length e + 1 \<le> f \<Longrightarrow> reads (it f n) e xs"
    using assms(1) by (auto simp: written_def)
  show ?thesis
  proof (rule written_tag [OF _ _ assms(3)])
    show "out' = out @ t # be_nat 8 n @ e" using e by simp
    fix f assume "2 * length (be_nat 8 n @ e) + 1 \<le> f"
    then have "reads (it f n) e xs" by (intro r) simp
    then show "reads (body f t) (be_nat 8 n @ e) (h xs)"
      unfolding assms(4) by (intro reads_bind [OF reads_dc_len [OF assms(2)]] reads_map) simp_all
  qed
qed

lemma written_counted_cap:
  assumes "written (\<lambda>f. it f n) 1 (out @ t # be_nat 8 n) out' xs" and "n < 2 ^ 64"
    and "n * elem \<le> isize_max"
    and "\<And>f c. dc_datum K (Suc f) c = res_bind (dc_byte c) (\<lambda>(t, c). body f t c)"
    and "\<And>f. body f t = (\<lambda>c. res_bind (dc_len c) (\<lambda>(n, c). res_bind (vec_with_capacity elem n) (\<lambda>_.
           res_bind (it f n c) (\<lambda>(xs, c). Ok (h xs, c)))))"
  shows "written (dc_datum K) 0 out out' (h xs)"
proof -
  obtain e where e: "out' = (out @ t # be_nat 8 n) @ e"
    and r: "\<And>f. 2 * length e + 1 \<le> f \<Longrightarrow> reads (it f n) e xs"
    using assms(1) by (auto simp: written_def)
  show ?thesis
  proof (rule written_tag [OF _ _ assms(4)])
    show "out' = out @ t # be_nat 8 n @ e" using e by simp
    fix f assume "2 * length (be_nat 8 n @ e) + 1 \<le> f"
    then have "reads (it f n) e xs" by (intro r) simp
    then show "reads (body f t) (be_nat 8 n @ e) (h xs)"
      unfolding assms(5) using assms(3)
      by (intro reads_bind [OF reads_dc_len [OF assms(2)]]) (simp add: vec_with_capacity_def reads_map)
  qed
qed

lemma written_node:
  assumes "written (\<lambda>f. dc_fields K f n) 1 ((out @ [11]) @ e @ be_nat 8 n) out' xs" and "n < 2 ^ 64"
    and "n * size_of_field K \<le> isize_max" and "reads dc_symbol e tag"
  shows "written (dc_datum K) 0 out out' (DNode tag xs)"
proof -
  obtain e' where e': "out' = ((out @ [11]) @ e @ be_nat 8 n) @ e'"
    and r: "\<And>f. 2 * length e' + 1 \<le> f \<Longrightarrow> reads (dc_fields K f n) e' xs"
    using assms(1) by (auto simp: written_def)
  have body: "reads (\<lambda>c. res_bind (dc_symbol c) (\<lambda>(s, c). res_bind (dc_len c) (\<lambda>(n, c).
       res_bind (vec_with_capacity (size_of_field K) n) (\<lambda>_.
       res_bind (dc_fields K f n c) (\<lambda>(fs, c). Ok (DNode s fs, c)))))) (e @ be_nat 8 n @ e') (DNode tag xs)"
    if "2 * length (e @ be_nat 8 n @ e') + 1 \<le> f" for f
    using assms(3) that
    by (intro reads_bind [OF assms(4)] reads_bind [OF reads_dc_len [OF assms(2)]])
      (simp add: vec_with_capacity_def reads_map [OF r])
  show ?thesis
    by (rule written_datum [where b = 11 and e = "e @ be_nat 8 n @ e'"]) (use body e' in simp_all)
qed

theorem put_datum_written:
  "put_datum K d out = Ok out' \<Longrightarrow> datum_ok K d \<Longrightarrow> written (dc_datum K) 0 out out' (norm_datum K d)"
  "put_all K ds out = Ok out' \<Longrightarrow> list_all (datum_ok K) ds \<Longrightarrow>
     written (\<lambda>f. dc_items K f (length ds)) 1 out out' (map (norm_datum K) ds)"
  "put_pairs K es out = Ok out' \<Longrightarrow> list_all (\<lambda>(k, v). datum_ok K k \<and> datum_ok K v) es \<Longrightarrow>
     written (\<lambda>f. dc_pairs K f (length es)) 1 out out' (map (\<lambda>(k, v). (norm_datum K k, norm_datum K v)) es)"
  "put_fields K fs out = Ok out' \<Longrightarrow> list_all (\<lambda>(n, v). symbol_ok n \<and> datum_ok K v) fs \<Longrightarrow>
     written (\<lambda>f. dc_fields K f (length fs)) 1 out out' (map (\<lambda>(n, v). (n, norm_datum K v)) fs)"
proof (induction K d out and K ds out and K es out and K fs out arbitrary: out' and out' and out' and out'
    rule: put_datum_put_all_put_pairs_put_fields.induct)
  case (1 K out)
  then show ?case by (intro written_datum [where e = "[]" and b = 0]) (simp_all add: reads_return)
next
  case (2 K b out)
  then show ?case 
    by (intro written_datum [where e = "[]" and b = "if b then 2 else 1"]) (auto simp: reads_return)
next
  case (3 K domain canon out)
  then obtain out1 where 1: "put_symbol domain (out @ [3]) = Ok out1"
    and 2: "out' = out1 @ be_nat 8 (length canon) @ as_bytes canon" "length canon < 2 ^ 64"
    by (auto simp: res_simps)
  obtain e where e: "out1 = (out @ [3]) @ e" "reads dc_symbol e domain"
    using put_symbol_reads [OF 1] 3 by auto
  show ?case
    using 3 2 e by (intro written_datum [where e = "e @ be_nat 8 (length canon) @ as_bytes canon" and b = 3])
      (simp_all add: reads_bind [OF e(2) reads_map [OF reads_dc_text]])
next
  case (4 K s out)
  then obtain e where e: "out' = (out @ [4]) @ e" "reads dc_symbol e s"
    using put_symbol_reads [of s "out @ [4]"] by auto
  then show ?case
    by (intro written_datum [where e = e and b = 4]) (simp_all add: reads_map)
next
  case (5 K t out)
  then show ?case
    by (intro written_datum [where e = "be_nat 8 (length t) @ as_bytes t" and b = 5])
      (simp_all add: res_simps reads_map [OF reads_dc_text])
next
  case (6 K bs out)
  then show ?case
    by (intro written_datum [where e = "be_nat 8 (length bs) @ bs" and b = 6])
      (simp_all add: res_simps reads_map [OF reads_dc_bytes])
next
  case (7 K ds out)
  then show ?case
    by (auto simp: res_simps intro!: written_counted [where t = 7 and it = "dc_items K" and h = DList, OF _ _ dc_datum.simps(2)])
next
  case (8 K ds out)
  then show ?case
    by (auto simp: res_simps intro!: written_counted [where t = 8 and it = "dc_items K" and h = DVector, OF _ _ dc_datum.simps(2)])
next
  case (9 K es out)
  then show ?case
    by (auto simp: res_simps
        intro!: written_counted_cap [where t = 9 and it = "dc_pairs K" and h = DMap, OF _ _ _ dc_datum.simps(2)])
next
  case (10 K ds out)
  then show ?case
    by (auto simp: res_simps intro!: written_counted [where t = 10 and it = "dc_items K" and h = DSet, OF _ _ dc_datum.simps(2)])
next
  case (11 K tag fs out)
  then obtain out1 where 1: "put_symbol tag (out @ [11]) = Ok out1"
    and 2: "length fs < 2 ^ 64" "put_fields K (sort_fields fs) (out1 @ be_nat 8 (length fs)) = Ok out'"
    by (auto simp: res_simps)
  obtain e where e: "out1 = (out @ [11]) @ e" "reads dc_symbol e tag"
    using put_symbol_reads [OF 1] 11 by auto
  have "written (\<lambda>f. dc_fields K f (length (sort_fields fs))) 1 (out1 @ be_nat 8 (length fs)) out'
      (map (\<lambda>(n, v). (n, norm_datum K v)) (sort_fields fs))"
    using 11(1) [OF 1] 11(3) 2 by (auto simp: res_simps)
  then show ?case
    using 11(3) 2(1) e(2) by (auto intro!: written_node simp: e(1))
next
  case (13 K d ds out)
  then show ?case by (auto simp: res_simps simp del: One_nat_def intro: written_items_Cons)
next
  case (15 K k v es out)
  then show ?case by (auto simp: res_simps simp del: One_nat_def) (blast intro: written_pairs_Cons)
next
  case (17 K n v fs out)
  then obtain out1 where 1: "put_symbol n out = Ok out1" by (auto simp: res_simps)
  obtain e where e: "out1 = out @ e" "reads dc_symbol e n"
    using put_symbol_reads [OF 1] 17 by auto
  with 17 1 show ?case by (auto simp: res_simps simp del: One_nat_def) (blast intro: written_fields_Cons)
qed (auto simp: written_items_Nil written_pairs_Nil written_fields_Nil simp del: One_nat_def)

section \<open>Every read makes progress and the fuel suffices\<close>

text \<open>\<open>takes p n\<close>: a successful \<open>p\<close> moves the cursor on by at least \<open>n\<close>.\<close>

definition takes :: "(cursor \<Rightarrow> (journal_error, 'a \<times> cursor) res) \<Rightarrow> nat \<Rightarrow> bool" where
  "takes p n \<longleftrightarrow> (\<forall>c v c'. p c = Ok (v, c') \<longrightarrow> cur_bytes c' = cur_bytes c \<and>
     cur_at c + n \<le> cur_at c' \<and> cur_at c' \<le> max (cur_at c) (length (cur_bytes c)))"

lemma takes_take: "takes (cursor_take a b n) n"
  using cursor_take_step by (fastforce simp: takes_def cursor_step_def)

lemma takes_return: "takes (\<lambda>c. Ok (v, c)) 0"
  by (simp add: takes_def)

lemma takes_bind:
  assumes "takes p n" and "\<And>v. takes (q v) 0"
  shows "takes (\<lambda>c. res_bind (p c) (\<lambda>(v, c'). q v c')) n"
  using assms unfolding takes_def by (fastforce simp: res_simps)

lemma takes_check: "(\<And>x. r = Ok x \<Longrightarrow> takes (\<lambda>c. q x c) n) \<Longrightarrow> takes (\<lambda>c. res_bind r (\<lambda>x. q x c)) n"
  by (auto simp: takes_def res_simps)

lemma takes_Err: "takes (\<lambda>c. Err e) n"
  by (simp add: takes_def)

lemma takes_less: "takes p n \<Longrightarrow> m \<le> n \<Longrightarrow> takes p m"
  unfolding takes_def by fastforce

lemma takes_if: "takes p n \<Longrightarrow> takes q n \<Longrightarrow> takes (\<lambda>c. if b then p c else q c) n"
  by (cases b) simp_all

lemma takes_dc_byte: "takes dc_byte 1"
  unfolding dc_byte_def [abs_def] by (rule takes_bind [OF takes_take takes_return])

lemma takes_dc_len: "takes dc_len 0"
  unfolding dc_len_def [abs_def] by (rule takes_less [OF takes_bind [OF takes_take takes_return]]) simp

lemma takes_dc_bytes: "takes dc_bytes 0"
  unfolding dc_bytes_def [abs_def] by (rule takes_bind [OF takes_dc_len]) (rule takes_less [OF takes_take], simp)

lemma takes_dc_text: "takes dc_text 0"
  unfolding dc_text_def [abs_def] by (intro takes_bind [OF takes_dc_bytes] takes_check takes_return)

lemma takes_dc_symbol: "takes dc_symbol 1"
proof -
  have "takes (\<lambda>c. if b = 0 then Ok (None, c) else if b = 1 then res_bind (dc_text c) (\<lambda>(t, c). Ok (Some t, c))
      else Err (CorruptState ''datum symbol'')) 0" for b :: u8
    by (intro takes_if takes_return takes_Err takes_bind [OF takes_dc_text])
  then have "takes dc_namespace 1"
    unfolding dc_namespace_def [abs_def] by (rule takes_bind [OF takes_dc_byte])
  then show ?thesis
    unfolding dc_symbol_def [abs_def]
    by (rule takes_bind) (rule takes_bind [OF takes_dc_text takes_return])
qed

lemmas takes_basic = takes_return takes_Err takes_dc_len takes_dc_bytes takes_dc_text
  takes_dc_symbol [THEN takes_less [where m = 0], simplified] takes_bind takes_check

lemma takes_dc:
  "takes (dc_datum K f) 1" "takes (dc_items K f n) 0" "takes (dc_pairs K f n) 0" "takes (dc_fields K f n) 0"
proof -
  have "takes (dc_datum K f) 1 \<and> (\<forall>n. takes (dc_items K f n) 0 \<and> takes (dc_pairs K f n) 0 \<and> takes (dc_fields K f n) 0)"
  proof (induction f)
    case 0
    then show ?case by (simp add: takes_def)
  next
    case (Suc f)
    then have IH: "takes (dc_datum K f) 0" "takes (dc_items K f n) 0" "takes (dc_pairs K f n) 0"
        "takes (dc_fields K f n) 0" for n
      by (auto intro: takes_less)
    have "takes (dc_datum K (Suc f)) 1"
      unfolding dc_datum.simps(2) [abs_def]
      by (rule takes_bind [OF takes_dc_byte]) (intro takes_if takes_basic IH)
    moreover have "takes (dc_items K (Suc f) n) 0" "takes (dc_pairs K (Suc f) n) 0"
        "takes (dc_fields K (Suc f) n) 0" for n
      unfolding dc_items.simps(2) [abs_def] dc_pairs.simps(2) [abs_def] dc_fields.simps(2) [abs_def]
      by (intro takes_if takes_basic IH)+
    ultimately show ?case by blast
  qed
  then show "takes (dc_datum K f) 1" "takes (dc_items K f n) 0" "takes (dc_pairs K f n) 0"
    "takes (dc_fields K f n) 0" by simp_all
qed

text \<open>\<open>fuel_ok p n\<close>: with fewer than \<open>n\<close> bytes left, \<open>p\<close> fails only as the code fails.\<close>

definition fuel_ok :: "(cursor \<Rightarrow> (journal_error, 'a \<times> cursor) res) \<Rightarrow> nat \<Rightarrow> bool" where
  "fuel_ok p n \<longleftrightarrow> (\<forall>c m. p c = Panic m \<longrightarrow> length (cur_bytes c) - cur_at c < n \<longrightarrow> m = ''capacity overflow'')"

lemma fuel_okI: "(\<And>c m. p c \<noteq> Panic m) \<Longrightarrow> fuel_ok p n"
  by (simp add: fuel_ok_def)

lemma fuel_ok_bind:
  assumes "fuel_ok p n" and "takes p k" and "\<And>v. fuel_ok (q v) (n - k)"
  shows "fuel_ok (\<lambda>c. res_bind (p c) (\<lambda>(v, c'). q v c')) n"
  unfolding fuel_ok_def
proof (intro allI impI)
  fix c m
  assume p: "res_bind (p c) (\<lambda>(v, c'). q v c') = Panic m" and n: "length (cur_bytes c) - cur_at c < n"
  show "m = ''capacity overflow''"
  proof (cases "p c")
    case (Ok r)
    obtain v c' where r: "r = (v, c')" by (cases r)
    have "length (cur_bytes c') - cur_at c' < n - k"
      using assms(2) [unfolded takes_def, rule_format, OF Ok [unfolded r]] n by auto
    then show ?thesis using p Ok r assms(3) by (auto simp: fuel_ok_def)
  qed (use p n assms(1) in \<open>auto simp: fuel_ok_def\<close>)
qed

lemma fuel_ok_check: "(\<And>x. fuel_ok (q x) n) \<Longrightarrow> (\<And>m. r = Panic m \<Longrightarrow> m = ''capacity overflow'') \<Longrightarrow>
    fuel_ok (\<lambda>c. res_bind r (\<lambda>x. q x c)) n"
  by (auto simp: fuel_ok_def res_simps)

lemma fuel_ok_if: "fuel_ok p n \<Longrightarrow> fuel_ok q n \<Longrightarrow> fuel_ok (\<lambda>c. if b then p c else q c) n"
  by (cases b) simp_all

lemma no_panic_basic:
  "dc_byte c \<noteq> Panic m" "dc_len c \<noteq> Panic m" "dc_bytes c \<noteq> Panic m" "dc_text c \<noteq> Panic m"
  "dc_symbol c \<noteq> Panic m"
  by (auto simp: dc_byte_def dc_len_def dc_bytes_def dc_text_def dc_namespace_def dc_symbol_def res_simps
      cursor_take_no_panic split: if_splits)

lemma vec_with_capacity_Panic: "vec_with_capacity e n = Panic m \<Longrightarrow> m = ''capacity overflow''"
  by (auto simp: vec_with_capacity_def split: if_splits)

lemmas fuel_ok_basic = fuel_okI [OF no_panic_basic(1)] fuel_okI [OF no_panic_basic(2)]
  fuel_okI [OF no_panic_basic(3)] fuel_okI [OF no_panic_basic(4)] fuel_okI [OF no_panic_basic(5)]

lemma fuel_ok_return: "fuel_ok (\<lambda>c. Ok (h c)) n" "fuel_ok (\<lambda>c. Err e) n"
  by (simp_all add: fuel_ok_def)

lemma fuel_ok_mono: "fuel_ok p n \<Longrightarrow> k \<le> n \<Longrightarrow> fuel_ok p k"
  by (auto simp: fuel_ok_def)

lemma dc_fuel_ok:
  "2 * n \<le> f + 1 \<Longrightarrow> fuel_ok (dc_datum K f) n"
  "2 * n \<le> f \<Longrightarrow> fuel_ok (dc_items K f i) n"
  "2 * n \<le> f \<Longrightarrow> fuel_ok (dc_pairs K f i) n"
  "2 * n \<le> f \<Longrightarrow> fuel_ok (dc_fields K f i) n"
proof (induction f arbitrary: n i)
  case 0
  { case 1 then show ?case by (simp add: fuel_ok_def)
  next
    case 2 then show ?case by (simp add: fuel_ok_def)
  next
    case 3 then show ?case by (simp add: fuel_ok_def)
  next
    case 4 then show ?case by (simp add: fuel_ok_def)
  }
next
  case (Suc f)
  note bind = fuel_ok_bind [OF _ takes_dc(1) [of K f]] fuel_ok_bind [OF _ takes_dc(2) [of K f]]
    fuel_ok_bind [OF _ takes_dc(3) [of K f]] fuel_ok_bind [OF _ takes_dc(4) [of K f]]
    fuel_ok_bind [OF _ takes_dc_byte] fuel_ok_bind [OF _ takes_dc_len] fuel_ok_bind [OF _ takes_dc_bytes]
    fuel_ok_bind [OF _ takes_dc_text] fuel_ok_bind [OF _ takes_dc_symbol]
  note step = bind fuel_ok_if fuel_ok_return fuel_ok_basic fuel_ok_check Suc.IH
  { case 1
    then show ?case unfolding dc_datum.simps(2) [abs_def]
      by (intro step) (auto dest: vec_with_capacity_Panic)
  next
    case 2
    then show ?case unfolding dc_items.simps(2) [abs_def] by (intro step) auto
  next
    case 3
    then show ?case unfolding dc_pairs.simps(2) [abs_def] by (intro step) auto
  next
    case 4
    then show ?case unfolding dc_fields.simps(2) [abs_def] by (intro step) auto
  }
qed

section \<open>The ordered form is canonical\<close>

text \<open>
  Maps, sets and node fields are unordered: the kernel's canonical form and the content id do not
  depend on the order in which their members stand.
\<close>

definition kernel_order_law :: "kernel \<Rightarrow> bool" where
  "kernel_order_law K \<longleftrightarrow> (\<forall>d. canonical_bytes K (norm_datum K d) = canonical_bytes K d \<and>
     content_id K (norm_datum K d) = content_id K d)"

lemma mset_sort_entries [simp]: "mset (sort_entries K es) = mset es"
  and mset_sort_items [simp]: "mset (sort_items K ds) = mset ds"
  and mset_sort_fields [simp]: "mset (sort_fields fs) = mset fs"
  by (simp_all add: sort_entries_def sort_items_def sort_fields_def)

lemma set_sort_entries [simp]: "set (sort_entries K es) = set es"
  and set_sort_items [simp]: "set (sort_items K ds) = set ds"
  and set_sort_fields [simp]: "set (sort_fields fs) = set fs"
  by (simp_all add: sort_entries_def sort_items_def sort_fields_def)

lemma sort_mset_cong: "mset xs = mset ys \<Longrightarrow> sort xs = sort ys"
  by (metis mset_sort properties_for_sort sorted_sort)

lemma sample_bytes_norm: "sample_bytes (norm_datum K d) = sample_bytes d"
proof (induction K d rule: norm_datum.induct)
  case (9 K es)
  have "map (\<lambda>(k, v). (sample_bytes k, sample_bytes v)) (map (\<lambda>(k, v). (norm_datum K k, norm_datum K v)) (sort_entries K es))
      = map (\<lambda>(k, v). (sample_bytes k, sample_bytes v)) (sort_entries K es)"
    using 9 by auto
  moreover have "sort (map (\<lambda>(k, v). (sample_bytes k, sample_bytes v)) (sort_entries K es))
      = sort (map (\<lambda>(k, v). (sample_bytes k, sample_bytes v)) es)"
    by (rule sort_mset_cong) simp
  ultimately show ?case by (simp only: norm_datum.simps sample_bytes.simps)
next
  case (10 K ds)
  have "map sample_bytes (map (norm_datum K) (sort_items K ds)) = map sample_bytes (sort_items K ds)"
    using 10 by auto
  moreover have "sort (map sample_bytes (sort_items K ds)) = sort (map sample_bytes ds)"
    by (rule sort_mset_cong) simp
  ultimately show ?case by (simp only: norm_datum.simps sample_bytes.simps)
next
  case (11 K tag fs)
  have "map (\<lambda>(n, v). (n, sample_bytes v)) (map (\<lambda>(n, v). (n, norm_datum K v)) (sort_fields fs))
      = map (\<lambda>(n, v). (n, sample_bytes v)) (sort_fields fs)"
    using 11 by auto
  moreover have "sort (map (\<lambda>(n, v). (n, sample_bytes v)) (sort_fields fs)) = sort (map (\<lambda>(n, v). (n, sample_bytes v)) fs)"
    by (rule sort_mset_cong) simp
  ultimately show ?case by (simp only: norm_datum.simps sample_bytes.simps)
qed (auto simp: comp_def intro!: arg_cong [where f = concat])

lemma sample_kernel_order_law: "kernel_order_law sample_kernel"
  by (simp add: kernel_order_law_def sample_bytes_norm) (simp add: sample_kernel_def sample_bytes_norm)

lemma canon_key_norm: "kernel_order_law K \<Longrightarrow> canon_key K (norm_datum K d) = canon_key K d"
  by (simp add: canon_key_def kernel_order_law_def)

lemma sort_key_map_same:
  assumes "\<And>x. x \<in> set xs \<Longrightarrow> k (h x) = k x"
  shows "sort_key k (map h (sort_key k xs)) = map h (sort_key k xs)"
proof (rule sort_key_id_if_sorted)
  have "map k (map h (sort_key k xs)) = map k (sort_key k xs)"
    using assms by simp
  then show "sorted (map k (map h (sort_key k xs)))" by (simp only: sorted_sort_key)
qed

lemma put_datum_norm:
  assumes K: "kernel_order_law K"
  shows "put_datum K (norm_datum K d) out = put_datum K d out"
    "put_all K (map (norm_datum K) ds) out = put_all K ds out"
    "put_pairs K (map (\<lambda>(k, v). (norm_datum K k, norm_datum K v)) es) out = put_pairs K es out"
    "put_fields K (map (\<lambda>(n, v). (n, norm_datum K v)) fs) out = put_fields K fs out"
  using K
proof (induction K d out and K ds out and K es out and K fs out
    rule: put_datum_put_all_put_pairs_put_fields.induct)
  case (9 K es out)
  have "sort_entries K (map (\<lambda>(k, v). (norm_datum K k, norm_datum K v)) (sort_entries K es)) =
      map (\<lambda>(k, v). (norm_datum K k, norm_datum K v)) (sort_entries K es)"
    unfolding sort_entries_def by (rule sort_key_map_same) (auto simp: canon_key_norm 9)
  then show ?case using 9 by (simp cong: res_bind_cong)
next
  case (10 K ds out)
  have "sort_items K (map (norm_datum K) (sort_items K ds)) = map (norm_datum K) (sort_items K ds)"
    unfolding sort_items_def by (rule sort_key_map_same) (simp add: canon_key_norm 10)
  then show ?case using 10 by (simp cong: res_bind_cong)
next
  case (11 K tag fs out)
  have "sort_fields (map (\<lambda>(n, v). (n, norm_datum K v)) (sort_fields fs)) =
      map (\<lambda>(n, v). (n, norm_datum K v)) (sort_fields fs)"
    unfolding sort_fields_def by (rule sort_key_map_same) auto
  then show ?case using 11 by (simp cong: res_bind_cong)
qed (simp_all cong: res_bind_cong)

lemma encode_norm: "kernel_order_law K \<Longrightarrow> encode K (norm_datum K d) = encode K d"
  by (simp add: encode_def put_datum_norm kernel_order_law_def)

section \<open>Properties\<close>

lemma length_datum_magic: "length (as_bytes ''SIMJDATUM1'') = 10"
  by simp

lemma reads_at:
  assumes "reads p e v" and "length pre = n" and "n + length e = m" and "length (pre @ e @ post) < usize_bound"
  shows "p \<lparr>cur_bytes = pre @ e @ post, cur_at = n\<rparr> = Ok (v, \<lparr>cur_bytes = pre @ e @ post, cur_at = m\<rparr>)"
  using assms by (auto simp: reads_def)

lemma take_prefix:
  "n = length a \<Longrightarrow> length (a @ b) < usize_bound \<Longrightarrow> cursor_take l t n (new_cursor (a @ b)) =
     Ok (a, \<lparr>cur_bytes = a @ b, cur_at = n\<rparr>)"
  by (simp add: cursor_take_def new_cursor_def checked_add_usize_def slice_get_def)

text \<open>What was encoded decodes to the ordered form.\<close>

lemma decode_norm_enc:
  assumes "encode K d = Ok bs" and "datum_ok K d" and "length bs < usize_bound"
    and "canonical_bytes K (norm_datum K d) \<noteq> None"
  shows "decode K bs = Ok (norm_datum K d)"
proof -
  obtain e where bs: "bs = as_bytes ''SIMJDATUM1'' @ e"
    and r: "\<And>f. 2 * length e \<le> f \<Longrightarrow> reads (dc_datum K f) e (norm_datum K d)"
    using assms(1) put_datum_written(1) [OF _ assms(2)]
    unfolding encode_def written_def by (fastforce simp: res_simps)
  have 1: "dc_take 10 (new_cursor bs) = Ok (as_bytes ''SIMJDATUM1'', \<lparr>cur_bytes = bs, cur_at = 10\<rparr>)"
    unfolding bs by (rule take_prefix) (use assms(3) bs in simp_all)
  have "reads (dc_datum K (dc_fuel bs)) e (norm_datum K d)"
    by (rule r) (simp add: dc_fuel_def bs)
  then have 2: "dc_datum K (dc_fuel bs) \<lparr>cur_bytes = bs, cur_at = 10\<rparr> =
      Ok (norm_datum K d, \<lparr>cur_bytes = bs, cur_at = length bs\<rparr>)"
    using reads_at [of _ e _ "as_bytes ''SIMJDATUM1''" 10 "length bs" "[]"] assms(3) bs by simp
  show ?thesis
    using assms(4) by (auto simp: decode_def 1 2 dc_end_def)
qed

text \<open>C7: a datum that was encoded decodes to its ordered form, for every datum whose texts are UTF-8
  and whose collections fit in memory, and the ordered form encodes to the same bytes.\<close>

theorem decode_encode:
  assumes "encode K d = Ok bs" and "datum_ok K d" and "length bs < usize_bound" and "kernel_order_law K"
  shows "decode K bs = Ok (norm_datum K d) \<and> encode K (norm_datum K d) = Ok bs"
proof
  have "canonical_bytes K (norm_datum K d) \<noteq> None"
    using assms(1,4) by (auto simp: encode_def res_simps kernel_order_law_def)
  then show "decode K bs = Ok (norm_datum K d)"
    by (rule decode_norm_enc [OF assms(1-3)])
  show "encode K (norm_datum K d) = Ok bs"
    using assms(1,4) by (simp add: encode_norm)
qed

theorem decode_encode_witness:
  "decode sample_kernel (as_bytes ''SIMJDATUM1'' @ [10] @ be_nat 8 2 @ [0, 2]) = Ok (DSet [DNil, DBool True])"
proof -
  have "encode sample_kernel (DSet [DBool True, DNil]) =
      Ok (as_bytes ''SIMJDATUM1'' @ [10] @ be_nat 8 2 @ [0, 2])"
    by (simp add: encode_def sample_kernel_def sort_items_def canon_key_def put_len_def flip: numeral_2_eq_2)
  moreover have "norm_datum sample_kernel (DSet [DBool True, DNil]) = DSet [DNil, DBool True]"
    by (simp add: sample_kernel_def sort_items_def canon_key_def)
  ultimately show ?thesis
    using decode_encode [of sample_kernel "DSet [DBool True, DNil]"] sample_kernel_order_law
    by (simp add: usize_bound_def)
qed

text \<open>
  The buffer of a map is allocated before its entries are read, so a short input with a large count
  stops the decoder instead of being reported as corrupt.
\<close>

lemma decode_capacity_panic:
  assumes "n < 2 ^ 64" and "isize_max < n * size_of_pair K"
  shows "decode K (as_bytes ''SIMJDATUM1'' @ 9 # be_nat 8 n) = Panic ''capacity overflow''"
proof -
  let ?bs = "as_bytes ''SIMJDATUM1'' @ 9 # be_nat 8 n"
  let ?c = "\<lambda>at. \<lparr>cur_bytes = ?bs, cur_at = at\<rparr>"
  have 1: "dc_take 10 (new_cursor ?bs) = Ok (as_bytes ''SIMJDATUM1'', ?c 10)"
    by (rule take_prefix) (simp_all add: usize_bound_def)
  have 2: "dc_byte (?c 10) = Ok (9, ?c 11)"
    using reads_at [OF reads_dc_byte [of 9], of "as_bytes ''SIMJDATUM1''" 10 11 "be_nat 8 n"]
    by (simp add: usize_bound_def)
  have 3: "dc_len (?c 11) = Ok (n, ?c 19)"
    using reads_at [OF reads_dc_len [OF assms(1)], of "as_bytes ''SIMJDATUM1'' @ [9]" 11 19 "[]"]
    by (simp add: usize_bound_def)
  have "(vec_with_capacity (size_of_pair K) n :: (journal_error, unit) res) = Panic ''capacity overflow''"
    using assms(2) by (simp add: vec_with_capacity_def)
  then have "dc_datum K (Suc f) (?c 10) = Panic ''capacity overflow''" for f
    using 2 3 by simp
  then have "dc_datum K (dc_fuel ?bs) (?c 10) = Panic ''capacity overflow''"
    by (simp only: dc_fuel_def Suc_eq_plus1 [symmetric])
  then show ?thesis using 1 unfolding decode_def by simp
qed

text \<open>C8: on every input the decoder returns a datum or a typed error, or it stops at the buffer that
  \<open>Vec::with_capacity\<close> refuses to allocate; no other panic and no missing fuel of the model.\<close>

theorem decode_total:
  assumes p: "decode K bs = Panic m"
  shows "m = ''capacity overflow''"
proof -
  from p obtain magic c where t: "dc_take 10 (new_cursor bs) = Ok (magic, c)"
    and d: "dc_datum K (dc_fuel bs) c = Panic m"
    by (auto simp: decode_def res_simps cursor_take_no_panic dc_end_def split: if_splits)
  have "cursor_step (new_cursor bs) c" "cur_at c = 10"
    using cursor_take_step [OF t] by (simp_all add: new_cursor_def)
  then have "length (cur_bytes c) - cur_at c < length bs"
    by (auto simp: cursor_step_def new_cursor_def)
  then show ?thesis
    using dc_fuel_ok(1) [of "length bs" "dc_fuel bs" K] d by (auto simp: fuel_ok_def dc_fuel_def)
qed

theorem decode_total_witness:
  "decode sample_kernel (as_bytes ''SIMJDATUM1'' @ 9 # be_nat 8 (2 ^ 58)) = Panic ''capacity overflow''"
proof -
  have p: "decode sample_kernel (as_bytes ''SIMJDATUM1'' @ 9 # be_nat 8 (2 ^ 58)) = Panic ''capacity overflow''"
    by (rule decode_capacity_panic) (simp_all add: isize_max_def sample_kernel_def)
  from decode_total [OF this] p show ?thesis by blast
qed

end
