(* ===== verification/Std_Text.thy ===== *)
theory Std_Text
  imports Prelude
begin

text \<open>
  The text operations of the Rust standard library that the repository uses: decimal printing and
  parsing of unsigned integers and splitting.
\<close>

section \<open>Decimal numbers\<close>

definition digit_char :: "nat \<Rightarrow> char" where
  "digit_char d = char_of (48 + d)"

definition is_digit_char :: "char \<Rightarrow> bool" where
  "is_digit_char c \<longleftrightarrow> 48 \<le> (of_char c :: nat) \<and> (of_char c :: nat) \<le> 57"

definition digit_val :: "char \<Rightarrow> nat" where
  "digit_val c = of_char c - 48"

text \<open>\<open>to_string\<close> of an unsigned integer.\<close>

fun nat_to_string :: "nat \<Rightarrow> string" where
  "nat_to_string n = (if n < 10 then [digit_char n] else nat_to_string (n div 10) @ [digit_char (n mod 10)])"

declare nat_to_string.simps [simp del]

definition u64_to_string :: "u64 \<Rightarrow> string" where
  "u64_to_string x = nat_to_string (unat x)"

definition digits_val :: "string \<Rightarrow> nat" where
  "digits_val t = foldl (\<lambda>a c. a * 10 + digit_val c) 0 t"

text \<open>\<open>parse\<close> of an unsigned integer below a bound: a single leading \<open>+\<close> is accepted.\<close>

definition parse_unsigned :: "nat \<Rightarrow> string \<Rightarrow> nat option" where
  "parse_unsigned bound t =
     (let ds = (case t of c # r \<Rightarrow> if c = CHR ''+'' \<and> r \<noteq> [] then r else t | [] \<Rightarrow> [])
      in if ds \<noteq> [] \<and> list_all is_digit_char ds \<and> digits_val ds < bound then Some (digits_val ds) else None)"

definition parse_u64 :: "string \<Rightarrow> u64 option" where
  "parse_u64 t = map_option word_of_nat (parse_unsigned (2 ^ 64) t)"

lemma digit_char_props [simp]:
  assumes "d < 10"
  shows "is_digit_char (digit_char d)" "digit_val (digit_char d) = d" "digit_char d \<noteq> CHR ''+''"
proof -
  have v: "(of_char (digit_char d) :: nat) = 48 + d"
    using assms by (simp add: digit_char_def)
  then show "is_digit_char (digit_char d)" "digit_val (digit_char d) = d"
    using assms by (simp_all add: is_digit_char_def digit_val_def)
  show "digit_char d \<noteq> CHR ''+''"
  proof
    assume "digit_char d = CHR ''+''"
    then have "(of_char (digit_char d) :: nat) = 43" by simp
    with v show False by simp
  qed
qed

lemma nat_to_string_digits: "list_all is_digit_char (nat_to_string n)"
  by (induction n rule: nat_to_string.induct) (subst nat_to_string.simps, simp)

lemma nat_to_string_ne [simp]: "nat_to_string n \<noteq> []"
  by (subst nat_to_string.simps) simp

lemma digits_val_snoc: "digits_val (t @ [c]) = digits_val t * 10 + digit_val c"
  by (simp add: digits_val_def)

lemma digits_val_nat_to_string: "digits_val (nat_to_string n) = n"
proof (induction n rule: nat_to_string.induct)
  case (1 n)
  show ?case
  proof (cases "n < 10")
    case True
    then show ?thesis by (subst nat_to_string.simps) (simp add: digits_val_def)
  next
    case False
    then show ?thesis using 1 by (subst nat_to_string.simps) (simp add: digits_val_snoc)
  qed
qed

lemma not_digit_plus: "\<not> is_digit_char (CHR ''+'')"
  by (simp add: is_digit_char_def)

lemma parse_unsigned_to_string:
  assumes "n < bound"
  shows "parse_unsigned bound (nat_to_string n) = Some n"
proof -
  obtain c r where t: "nat_to_string n = c # r"
    by (cases "nat_to_string n") auto
  then have "c \<noteq> CHR ''+''"
    using nat_to_string_digits [of n] not_digit_plus by auto
  then show ?thesis
    using assms nat_to_string_digits [of n] digits_val_nat_to_string [of n] t
    by (auto simp: parse_unsigned_def)
qed

lemma parse_u64_to_string [simp]: "parse_u64 (u64_to_string x) = Some x"
proof -
  have "unat x < 2 ^ 64" using unsigned_less [of x] by simp
  then show ?thesis by (simp add: parse_u64_def u64_to_string_def parse_unsigned_to_string)
qed

lemma u64_to_string_inj: "u64_to_string x = u64_to_string y \<longleftrightarrow> x = y"
  by (metis option.inject parse_u64_to_string)

lemma str_ok_digits: "list_all is_digit_char t \<Longrightarrow> str_ok t"
  by (rule str_ok_ascii) (auto simp: list_all_iff is_digit_char_def)

lemma str_ok_u64_to_string [simp]: "str_ok (u64_to_string x)"
  by (simp add: u64_to_string_def str_ok_digits nat_to_string_digits)

section \<open>Hexadecimal\<close>

definition hex_digit :: "nat \<Rightarrow> char" where
  "hex_digit d = char_of (if d < 10 then 48 + d else 87 + d)"

text \<open>\<open>char::to_digit(16)\<close>.\<close>

definition to_digit16 :: "char \<Rightarrow> nat option" where
  "to_digit16 c =
     (let n = of_char c in
      if 48 \<le> n \<and> n \<le> 57 then Some (n - 48)
      else if 97 \<le> n \<and> n \<le> 102 then Some (n - 87)
      else if 65 \<le> n \<and> n \<le> 70 then Some (n - 55)
      else None)"

lemma to_digit16_hex_digit: "d < 16 \<Longrightarrow> to_digit16 (hex_digit d) = Some d"
  by (auto simp: to_digit16_def hex_digit_def Let_def)

definition hex_byte :: "u8 \<Rightarrow> string" where
  "hex_byte b = [hex_digit (unat b div 16), hex_digit (unat b mod 16)]"

section \<open>Splitting\<close>

text \<open>\<open>str::split_once\<close> at a one-byte separator.\<close>

fun split_once :: "char \<Rightarrow> string \<Rightarrow> (string \<times> string) option" where
  "split_once c [] = None"
| "split_once c (x # xs) =
     (if x = c then Some ([], xs) else map_option (\<lambda>(a, b). (x # a, b)) (split_once c xs))"

lemma split_once_append: "c \<notin> set a \<Longrightarrow> split_once c (a @ c # b) = Some (a, b)"
  by (induction a) auto

lemma split_once_None: "split_once c t = None \<longleftrightarrow> c \<notin> set t"
  by (induction t) auto

lemma split_once_Some: "split_once c t = Some (a, b) \<Longrightarrow> t = a @ c # b \<and> c \<notin> set a"
  by (induction t arbitrary: a) (auto split: if_splits)

text \<open>\<open>str::split\<close> and \<open>str::split_inclusive\<close> at a one-byte separator.\<close>

fun split_on :: "char \<Rightarrow> string \<Rightarrow> string list" where
  "split_on c [] = [[]]"
| "split_on c (x # xs) =
     (if x = c then [] # split_on c xs
      else (case split_on c xs of [] \<Rightarrow> [[x]] | l # ls \<Rightarrow> (x # l) # ls))"

fun split_inclusive :: "char \<Rightarrow> string \<Rightarrow> string list" where
  "split_inclusive c [] = []"
| "split_inclusive c (x # xs) =
     (if x = c then [x] # split_inclusive c xs
      else (case split_inclusive c xs of [] \<Rightarrow> [[x]] | l # ls \<Rightarrow> (x # l) # ls))"

lemma concat_split_inclusive [simp]: "concat (split_inclusive c t) = t"
  by (induction t) (auto split: list.split)

text \<open>\<open>str::strip_prefix\<close> and \<open>str::starts_with\<close>.\<close>

definition strip_prefix :: "string \<Rightarrow> string \<Rightarrow> string option" where
  "strip_prefix p t = (if take (length p) t = p then Some (drop (length p) t) else None)"

definition starts_with :: "string \<Rightarrow> string \<Rightarrow> bool" where
  "starts_with p t \<longleftrightarrow> strip_prefix p t \<noteq> None"

lemma strip_prefix_Some: "strip_prefix p t = Some r \<longleftrightarrow> t = p @ r"
  by (auto simp: strip_prefix_def) (metis append_take_drop_id)

lemma starts_with_iff: "starts_with p t \<longleftrightarrow> (\<exists>r. t = p @ r)"
  unfolding starts_with_def by (metis not_None_eq strip_prefix_Some)

text \<open>\<open>chars().any(char::is_control)\<close> on UTF-8: the bytes below 32, the byte 127, and the two-byte
  forms of U+0080 to U+009F.\<close>

fun has_control :: "string \<Rightarrow> bool" where
  "has_control [] \<longleftrightarrow> False"
| "has_control (c # r) \<longleftrightarrow>
     (of_char c :: nat) < 32 \<or> (of_char c :: nat) = 127 \<or>
     ((of_char c :: nat) = 194 \<and> (case r of d # _ \<Rightarrow> 128 \<le> (of_char d :: nat) \<and> (of_char d :: nat) \<le> 159 | [] \<Rightarrow> False)) \<or>
     has_control r"

end
