(* ===== verification/Journal_Object.thy ===== *)
theory Journal_Object
  imports Datum_Codec Std_Text
begin

text \<open>
  Journal entries and journal objects, \<open>crates/sim-lib-journal/src/entry.rs\<close> and \<open>object.rs\<close>: the
  semantic value whose content id is an entry's id, the byte projection of an object, the check that
  id, bytes and value agree, and the stored form of an object.
\<close>

section \<open>Entries\<close>

record journal_entry =
  en_id :: cid
  en_sequence :: u64
  en_previous :: "cid option"
  en_kind :: symbol
  en_payloads :: "cid list"

definition id_datum :: "cid \<Rightarrow> datum" where
  "id_datum i =
     DNode (sym_qualified ''journal'' ''content-id-v1'')
       [(sym_new ''algorithm'', DSymbol (cid_alg i)), (sym_new ''digest'', DBytes (cid_bytes i))]"

definition canonical_datum :: "journal_entry \<Rightarrow> datum" where
  "canonical_datum e =
     DNode (sym_qualified ''journal'' ''entry-v2'')
       [(sym_new ''sequence'', DNumber (sym_qualified ''numbers'' ''u64'') (u64_to_string (en_sequence e))),
        (sym_new ''previous'', case en_previous e of None \<Rightarrow> DNil | Some p \<Rightarrow> id_datum p),
        (sym_new ''kind'', DSymbol (en_kind e)),
        (sym_new ''payloads'', DVector (map id_datum (en_payloads e)))]"

definition canonical_id :: "kernel \<Rightarrow> journal_entry \<Rightarrow> (journal_error, cid) res" where
  "canonical_id K e = ok_or (content_id K (canonical_datum e)) CorruptEntry"

definition journal_entry_new ::
    "kernel \<Rightarrow> u64 \<Rightarrow> cid option \<Rightarrow> symbol \<Rightarrow> cid list \<Rightarrow> (journal_error, journal_entry) res" where
  "journal_entry_new K sequence previous kind payloads =
     (let value = \<lparr>en_id = Cid (sym_new ''unset'') (replicate 32 0), en_sequence = sequence,
                   en_previous = previous, en_kind = kind, en_payloads = payloads\<rparr>
      in res_bind (opt_expect (content_id K (canonical_datum value)) ''journal entry construction is canonical'')
           (\<lambda>i. Ok (value\<lparr>en_id := i\<rparr>)))"

section \<open>Objects\<close>

record journal_object =
  jo_id :: cid
  jo_bytes :: "u8 list"
  jo_datum :: datum

definition exact_bytes :: "datum \<Rightarrow> u8 list option" where
  "exact_bytes d =
     (case d of
        DNode tag fs \<Rightarrow>
          if tag \<noteq> sym_qualified ''journal'' ''exact-bytes-v1'' \<or> length fs \<noteq> 1 then None
          else (case hd fs of
                  (name, DBytes bytes) \<Rightarrow> if name = sym_new ''bytes'' then Some bytes else None
                | _ \<Rightarrow> None)
      | _ \<Rightarrow> None)"

definition object_from_bytes :: "kernel \<Rightarrow> u8 list \<Rightarrow> (journal_error, journal_object) res" where
  "object_from_bytes K bytes =
     (let datum = DNode (sym_qualified ''journal'' ''exact-bytes-v1'') [(sym_new ''bytes'', DBytes bytes)]
      in res_bind (opt_expect (content_id K datum) ''exact byte payload is a canonical datum'')
           (\<lambda>i. Ok \<lparr>jo_id = i, jo_bytes = bytes, jo_datum = datum\<rparr>))"

definition object_from_datum :: "kernel \<Rightarrow> datum \<Rightarrow> (journal_error, journal_object) res" where
  "object_from_datum K datum =
     res_bind (ok_or (content_id K datum) NonCanonicalDatum) (\<lambda>i.
     res_bind (encode K datum) (\<lambda>encoded.
     Ok \<lparr>jo_id = i,
         jo_bytes = (case exact_bytes datum of Some b \<Rightarrow> b | None \<Rightarrow> encoded),
         jo_datum = datum\<rparr>))"

definition object_verify :: "kernel \<Rightarrow> journal_object \<Rightarrow> (journal_error, unit) res" where
  "object_verify K ob =
     res_bind (ok_or (content_id K (jo_datum ob)) NonCanonicalDatum) (\<lambda>i.
     if i \<noteq> jo_id ob then Err (CorruptObject (jo_id ob))
     else (case exact_bytes (jo_datum ob) of
             Some exact \<Rightarrow> if exact \<noteq> jo_bytes ob then Err (CorruptObject (jo_id ob)) else Ok ()
           | None \<Rightarrow> res_bind (encode K (jo_datum ob)) (\<lambda>encoded.
               if encoded \<noteq> jo_bytes ob then Err (CorruptObject (jo_id ob)) else Ok ())))"

definition storage_bytes :: "kernel \<Rightarrow> journal_object \<Rightarrow> (journal_error, u8 list) res" where
  "storage_bytes K ob =
     res_bind (encode K (jo_datum ob)) (\<lambda>encoded.
     Ok (as_bytes ''SIMJOBJECT2'' @ u64_to_be (word_of_nat (length encoded)) @ encoded))"

definition from_storage_bytes :: "kernel \<Rightarrow> u8 list \<Rightarrow> (journal_error, journal_object) res" where
  "from_storage_bytes K bytes =
     (if length bytes < 19 \<or> take 11 bytes \<noteq> as_bytes ''SIMJOBJECT2'' then Err (CorruptState ''object format'')
      else
        let len = unat (u64_from_be (take 8 (drop 11 bytes))); tail = drop 19 bytes in
        if length tail \<noteq> len then Err (CorruptState ''object length'')
        else
          res_bind (decode K tail) (\<lambda>datum.
          res_bind (object_from_datum K datum) (\<lambda>ob.
          let ob = (case exact_bytes (jo_datum ob) of Some exact \<Rightarrow> ob\<lparr>jo_bytes := exact\<rparr> | None \<Rightarrow> ob) in
          res_bind (object_verify K ob) (\<lambda>_. Ok ob))))"

text \<open>The locator of stored bytes.\<close>

definition storage_id :: "kernel \<Rightarrow> u8 list \<Rightarrow> cid" where
  "storage_id K bytes = Cid (sym_qualified ''journal'' ''sha256-storage-v1'') (sha256 K bytes)"

section \<open>What the constructors and the check guarantee\<close>

text \<open>The byte projection an object must have.\<close>

definition object_bytes :: "kernel \<Rightarrow> datum \<Rightarrow> (journal_error, u8 list) res" where
  "object_bytes K d = (case exact_bytes d of Some b \<Rightarrow> Ok b | None \<Rightarrow> encode K d)"

lemma object_verify_Ok:
  "object_verify K ob = Ok u \<longleftrightarrow>
     content_id K (jo_datum ob) = Some (jo_id ob) \<and> object_bytes K (jo_datum ob) = Ok (jo_bytes ob)"
  by (auto simp: object_verify_def object_bytes_def res_simps split: option.splits if_splits)

lemma object_from_datum_Ok:
  "object_from_datum K d = Ok ob \<longleftrightarrow>
     content_id K d = Some (jo_id ob) \<and> object_bytes K d = Ok (jo_bytes ob) \<and> is_ok (encode K d) \<and> jo_datum ob = d"
  by (auto simp: object_from_datum_def object_bytes_def res_simps is_ok_iff split: option.splits)

lemma object_from_datum_verify: "object_from_datum K d = Ok ob \<Longrightarrow> object_verify K ob = Ok ()"
  by (simp add: object_verify_Ok object_from_datum_Ok)

lemma object_from_bytes_Ok:
  "object_from_bytes K bs = Ok ob \<Longrightarrow> object_verify K ob = Ok () \<and> jo_bytes ob = bs"
  by (auto simp: object_from_bytes_def object_verify_Ok object_bytes_def exact_bytes_def Let_def res_simps)

text \<open>A verified object is what \<open>from_datum\<close> rebuilds from its value, when the value can be encoded.\<close>

lemma object_verify_rebuild:
  "object_verify K ob = Ok () \<Longrightarrow> is_ok (encode K (jo_datum ob)) \<Longrightarrow> object_from_datum K (jo_datum ob) = Ok ob"
  by (simp add: object_verify_Ok object_from_datum_Ok)

lemma exact_bytes_norm: "exact_bytes (norm_datum K d) = exact_bytes d"
proof (cases d)
  case (DNode tag fs)
  show ?thesis
  proof (cases "length fs = 1")
    case True
    then obtain n v where "fs = [(n, v)]" by (auto simp: length_Suc_conv)
    then show ?thesis using DNode
      by (cases v) (simp_all add: exact_bytes_def sort_fields_def)
  qed (simp add: DNode exact_bytes_def)
qed (simp_all add: exact_bytes_def)

lemma object_from_datum_norm:
  assumes "kernel_order_law K"
  shows "object_from_datum K (norm_datum K d) =
    res_bind (object_from_datum K d) (\<lambda>ob. Ok (ob\<lparr>jo_datum := norm_datum K d\<rparr>))"
  using assms
  by (auto simp: object_from_datum_def exact_bytes_norm encode_norm kernel_order_law_def res_bind_assoc
      intro!: res_bind_cong)

lemma word_of_nat_length: "n < 2 ^ 64 \<Longrightarrow> unat (word_of_nat n :: u64) = n"
  by (simp add: unat_of_nat)

lemma canonical_datum_fields:
  "canonical_datum e = canonical_datum f \<longleftrightarrow>
     en_sequence e = en_sequence f \<and> en_previous e = en_previous f \<and> en_kind e = en_kind f \<and>
     en_payloads e = en_payloads f"
proof -
  have id: "id_datum i = id_datum j \<longleftrightarrow> i = j" for i j
    by (cases i; cases j) (auto simp: id_datum_def)
  have "inj id_datum" by (rule injI) (simp add: id)
  then have "map id_datum xs = map id_datum ys \<longleftrightarrow> xs = ys" for xs ys
    by (simp add: inj_map_eq_map)
  moreover have "id_datum i \<noteq> DNil" "DNil \<noteq> id_datum i" for i by (simp_all add: id_datum_def)
  ultimately show ?thesis
    by (auto simp: canonical_datum_def u64_to_string_inj id split: option.splits)
qed

section \<open>Properties\<close>

lemma stored_object_back:
  assumes stored: "storage_bytes K ob = Ok bs" and verified: "object_verify K ob = Ok ()"
    and wf: "datum_ok K (jo_datum ob)" "length bs < usize_bound" and K: "kernel_order_law K"
  shows "from_storage_bytes K bs = Ok (ob\<lparr>jo_datum := norm_datum K (jo_datum ob)\<rparr>)"
proof -
  obtain enc where enc: "encode K (jo_datum ob) = Ok enc"
    and bs: "bs = as_bytes ''SIMJOBJECT2'' @ u64_to_be (word_of_nat (length enc)) @ enc"
    using stored by (auto simp: storage_bytes_def res_simps)
  have len: "length enc < 2 ^ 64" using wf(2) bs by (simp add: usize_bound_def)
  have "canonical_bytes K (norm_datum K (jo_datum ob)) \<noteq> None"
    using enc K by (auto simp: encode_def res_simps kernel_order_law_def)
  then have dec: "decode K enc = Ok (norm_datum K (jo_datum ob))"
    using decode_norm_enc [OF enc wf(1)] len by (simp add: usize_bound_def)
  let ?ob = "ob\<lparr>jo_datum := norm_datum K (jo_datum ob)\<rparr>"
  have "object_from_datum K (jo_datum ob) = Ok ob"
    using verified enc by (simp add: object_verify_rebuild)
  then have rebuilt: "object_from_datum K (norm_datum K (jo_datum ob)) = Ok ?ob"
    by (simp add: object_from_datum_norm [OF K])
  moreover have "object_verify K ?ob = Ok ()"
    by (rule object_from_datum_verify [OF rebuilt])
  moreover have "(case exact_bytes (jo_datum ?ob) of Some exact \<Rightarrow> ?ob\<lparr>jo_bytes := exact\<rparr> | None \<Rightarrow> ?ob) = ?ob"
    using rebuilt by (auto simp: object_from_datum_Ok object_bytes_def split: option.splits)
  moreover have "take 11 bs = as_bytes ''SIMJOBJECT2''" "19 \<le> length bs" "drop 19 bs = enc"
      "take 8 (drop 11 bs) = u64_to_be (word_of_nat (length enc))"
    by (simp_all add: bs)
  ultimately show ?thesis
    using dec by (simp add: from_storage_bytes_def Let_def word_of_nat_length [OF len])
qed

text \<open>C9: an object that passes its check and is stored comes back with the same id and bytes and the
  ordered form of its value.\<close>

theorem storage_roundtrip:
  assumes stored: "storage_bytes K ob = Ok bs" and verified: "object_verify K ob = Ok ()"
    and wf: "datum_ok K (jo_datum ob)" "length bs < usize_bound" and K: "kernel_order_law K"
  shows "from_storage_bytes K bs = Ok (ob\<lparr>jo_datum := norm_datum K (jo_datum ob)\<rparr>)"
  by (rule stored_object_back [OF assms])

theorem storage_roundtrip_witness:
  "\<exists>ob bs. object_from_datum sample_kernel (DSet [DBool True, DNil]) = Ok ob \<and>
     storage_bytes sample_kernel ob = Ok bs \<and>
     from_storage_bytes sample_kernel bs = Ok (ob\<lparr>jo_datum := DSet [DNil, DBool True]\<rparr>)"
proof -
  let ?d = "DSet [DBool True, DNil]"
  have enc: "encode sample_kernel ?d = Ok (as_bytes ''SIMJDATUM1'' @ [10] @ be_nat 8 2 @ [0, 2])"
    by (simp add: encode_def sample_kernel_def sort_items_def canon_key_def put_len_def flip: numeral_2_eq_2)
  have norm: "norm_datum sample_kernel ?d = DSet [DNil, DBool True]"
    by (simp add: sample_kernel_def sort_items_def canon_key_def)
  obtain i where "content_id sample_kernel ?d = Some i" by (simp add: sample_kernel_def)
  then obtain ob where ob: "object_from_datum sample_kernel ?d = Ok ob" and d: "jo_datum ob = ?d"
    using enc by (simp add: object_from_datum_def)
  obtain bs where bs: "storage_bytes sample_kernel ob = Ok bs" and len: "length bs < usize_bound"
    using enc d by (simp add: storage_bytes_def usize_bound_def)
  have "from_storage_bytes sample_kernel bs = Ok (ob\<lparr>jo_datum := norm_datum sample_kernel (jo_datum ob)\<rparr>)"
    by (rule storage_roundtrip [OF bs object_from_datum_verify [OF ob] _ len sample_kernel_order_law])
      (simp add: d)
  with ob bs norm d show ?thesis by auto
qed

text \<open>the id of an entry commits to every field: two entries have the same semantic value exactly
  when sequence, predecessor, kind and payloads agree.\<close>

theorem canonical_datum_inj:
  "canonical_datum e = canonical_datum f \<longleftrightarrow>
     en_sequence e = en_sequence f \<and> en_previous e = en_previous f \<and> en_kind e = en_kind f \<and>
     en_payloads e = en_payloads f"
  by (rule canonical_datum_fields)

end
