(* ===== verification/Journal_Verify.thy ===== *)
theory Journal_Verify
  imports Journal_Object
begin

text \<open>
  The stored state of a journal (\<open>StoredState\<close> of \<open>crates/sim-lib-journal/src/backend.rs\<close>) and the two
  checks of \<open>verify.rs\<close>: \<open>verify_batch\<close> for what a caller wants to append and \<open>verify_state\<close> for what
  a backend holds. Both are characterised by the same predicate, \<open>entry_chain\<close>.
\<close>

record stored_state =
  st_objects :: "(cid, u8 list) btree_map"
  st_datums :: "(cid, datum) btree_map"
  st_entries :: "(u64, journal_entry) btree_map"
  st_head :: "journal_head option"

definition empty_state :: stored_state where
  "empty_state = \<lparr>st_objects = [], st_datums = [], st_entries = [], st_head = None\<rparr>"

record verification =
  vf_head :: "journal_head option"
  vf_entries :: "journal_entry list"
  vf_object_ids :: "cid list"

section \<open>Checking a batch\<close>

text \<open>The loop over the objects, threading the map of available payloads.\<close>

definition batch_object ::
    "kernel \<Rightarrow> journal_object \<Rightarrow> (cid, u8 list) btree_map \<Rightarrow> (journal_error, (cid, u8 list) btree_map) res" where
  "batch_object K ob available =
     res_bind (object_verify K ob) (\<lambda>_.
     case bget available (jo_id ob) of
       Some bytes \<Rightarrow> if bytes \<noteq> jo_bytes ob then Err ConflictingObject
                     else Ok (binsert (jo_id ob) (jo_bytes ob) available)
     | None \<Rightarrow> Ok (binsert (jo_id ob) (jo_bytes ob) available))"

text \<open>The loop over the entries; the sequence counts in \<open>u64\<close>.\<close>

fun batch_entries ::
    "kernel \<Rightarrow> stored_state \<Rightarrow> (cid, u8 list) btree_map \<Rightarrow> u64 \<Rightarrow> cid option \<Rightarrow> journal_entry list \<Rightarrow>
     (journal_error, unit) res" where
  "batch_entries K s available sequence previous [] = Ok ()"
| "batch_entries K s available sequence previous (e # es) =
     res_bind (canonical_id K e) (\<lambda>i.
     if i \<noteq> en_id e then Err CorruptEntry
     else if en_sequence e \<noteq> sequence then Err SequenceGap
     else if en_previous e \<noteq> previous then Err WrongPrevious
     else
       res_bind (res_fold (\<lambda>p _. if bcontains available p then Ok () else Err (MissingPayload p)) (en_payloads e) ()) (\<lambda>_.
       case bget (st_entries s) (en_sequence e) of
         Some existing \<Rightarrow>
           if existing \<noteq> e then Err ConflictingDelivery
           else batch_entries K s available (sequence + 1) (Some (en_id e)) es
       | None \<Rightarrow> batch_entries K s available (sequence + 1) (Some (en_id e)) es))"

definition verify_batch ::
    "kernel \<Rightarrow> stored_state \<Rightarrow> journal_head option \<Rightarrow> journal_object list \<Rightarrow> journal_entry list \<Rightarrow>
     (journal_error, unit) res" where
  "verify_batch K s expected objects entries =
     res_bind (res_fold (batch_object K) objects (st_objects s)) (\<lambda>available.
     let first_sequence = (case expected of None \<Rightarrow> 0 | Some h \<Rightarrow> head_sequence h + 1);
         previous = map_option head_entry expected
     in batch_entries K s available first_sequence previous entries)"

section \<open>Checking a state\<close>

definition state_payload :: "kernel \<Rightarrow> stored_state \<Rightarrow> cid \<Rightarrow> cid list \<Rightarrow> (journal_error, cid list) res" where
  "state_payload K s p object_ids =
     (let object_ids = sinsert p object_ids in
      res_bind (ok_or (bget (st_objects s) p) (MissingPayload p)) (\<lambda>bytes.
      res_bind (ok_or (bget (st_datums s) p) (MissingSemanticObject p)) (\<lambda>datum.
      res_bind (object_from_datum K datum) (\<lambda>ob.
      if jo_id ob \<noteq> p \<or> jo_bytes ob \<noteq> bytes then Err (CorruptObject p) else Ok object_ids))))"

fun state_entries ::
    "kernel \<Rightarrow> stored_state \<Rightarrow> nat \<Rightarrow> cid option \<Rightarrow> cid list \<Rightarrow> journal_entry list \<Rightarrow> (journal_error, cid list) res" where
  "state_entries K s i prior object_ids [] = Ok object_ids"
| "state_entries K s i prior object_ids (e # es) =
     (if en_sequence e \<noteq> word_of_nat i then Err (CorruptState ''sequence gap'')
      else if en_previous e \<noteq> prior then Err (CorruptState ''previous id'')
      else
        res_bind (canonical_id K e) (\<lambda>c.
        if c \<noteq> en_id e then Err CorruptEntry
        else
          res_bind (res_fold (state_payload K s) (en_payloads e) object_ids) (\<lambda>object_ids.
          state_entries K s (Suc i) (Some (en_id e)) object_ids es)))"

definition head_of :: "journal_entry \<Rightarrow> journal_head" where
  "head_of e = \<lparr>head_sequence = en_sequence e, head_entry = en_id e\<rparr>"

definition computed_head :: "stored_state \<Rightarrow> journal_head option" where
  "computed_head s = map_option (\<lambda>(_, e). head_of e) (blast (st_entries s))"

definition verify_state :: "kernel \<Rightarrow> stored_state \<Rightarrow> (journal_error, verification) res" where
  "verify_state K s =
     res_bind (state_entries K s 0 None [] (bvalues (st_entries s))) (\<lambda>object_ids.
     if computed_head s \<noteq> st_head s then Err (CorruptState ''head'')
     else Ok \<lparr>vf_head = computed_head s, vf_entries = bvalues (st_entries s), vf_object_ids = object_ids\<rparr>)"

section \<open>Chains of entries\<close>

text \<open>
  \<open>entry_chain K P n prev es\<close>: the entries are numbered from \<open>n\<close>, each names its predecessor (the
  first names \<open>prev\<close>), carries its own canonical id and refers to payloads that satisfy \<open>P\<close>.
\<close>

fun entry_chain :: "kernel \<Rightarrow> (cid \<Rightarrow> bool) \<Rightarrow> nat \<Rightarrow> cid option \<Rightarrow> journal_entry list \<Rightarrow> bool" where
  "entry_chain K P n prev [] = True"
| "entry_chain K P n prev (e # es) =
     (en_sequence e = word_of_nat n \<and> en_previous e = prev \<and> canonical_id K e = Ok (en_id e) \<and>
      list_all P (en_payloads e) \<and> entry_chain K P (Suc n) (Some (en_id e)) es)"

definition chain_end :: "cid option \<Rightarrow> journal_entry list \<Rightarrow> cid option" where
  "chain_end prev es = (if es = [] then prev else Some (en_id (last es)))"

lemma chain_end_Cons: "chain_end prev (e # es) = chain_end (Some (en_id e)) es"
  by (simp add: chain_end_def)

lemma entry_chain_append:
  "entry_chain K P n prev (xs @ ys) \<longleftrightarrow>
     entry_chain K P n prev xs \<and> entry_chain K P (n + length xs) (chain_end prev xs) ys"
  by (induction xs arbitrary: n prev) (auto simp: chain_end_Cons, simp_all add: chain_end_def)

lemma entry_chain_mono:
  "entry_chain K P n prev es \<Longrightarrow> (\<And>p. P p \<Longrightarrow> Q p) \<Longrightarrow> entry_chain K Q n prev es"
  by (induction es arbitrary: n prev) (auto elim: list.pred_mono_strong)

lemma entry_chain_nth:
  "entry_chain K P n prev es \<Longrightarrow> i < length es \<Longrightarrow> en_sequence (es ! i) = word_of_nat (n + i)"
  by (induction es arbitrary: n prev i) (auto simp: nth_Cons less_Suc_eq_0_disj split: nat.splits)

lemma entry_chain_payloads:
  "entry_chain K P n prev es \<Longrightarrow> e \<in> set es \<Longrightarrow> p \<in> set (en_payloads e) \<Longrightarrow> P p"
  by (induction es arbitrary: n prev) (auto simp: list_all_iff)

lemma entry_chain_sequences:
  "entry_chain K P n prev es \<Longrightarrow> map en_sequence es = map word_of_nat [n ..< n + length es]"
  by (rule nth_equalityI) (auto simp: entry_chain_nth)

text \<open>The payload loops.\<close>

lemma batch_payloads_Ok:
  "res_fold (\<lambda>p _. if bcontains a p then Ok () else Err (MissingPayload p)) ps u = Ok v \<longleftrightarrow>
     list_all (bcontains a) ps"
  by (induction ps arbitrary: u) auto

definition payload_ok :: "kernel \<Rightarrow> stored_state \<Rightarrow> cid \<Rightarrow> bool" where
  "payload_ok K s p \<longleftrightarrow>
     (\<exists>d ob. bget (st_datums s) p = Some d \<and> object_from_datum K d = Ok ob \<and> jo_id ob = p \<and>
        bget (st_objects s) p = Some (jo_bytes ob))"

lemma state_payload_Ok:
  "state_payload K s p ids = Ok ids' \<longleftrightarrow> payload_ok K s p \<and> ids' = sinsert p ids"
  by (auto simp: state_payload_def payload_ok_def Let_def res_simps split: if_splits)

lemma state_payloads_Ok:
  "res_fold (state_payload K s) ps ids = Ok ids' \<longleftrightarrow>
     list_all (payload_ok K s) ps \<and> ids' = foldl (\<lambda>s k. sinsert k s) ids ps"
  by (induction ps arbitrary: ids) (auto simp: res_simps state_payload_Ok)

lemma state_entries_Ok:
  "state_entries K s n prior ids es = Ok ids' \<longleftrightarrow>
     entry_chain K (payload_ok K s) n prior es \<and>
     ids' = foldl (\<lambda>s k. sinsert k s) ids (concat (map en_payloads es))"
  by (induction es arbitrary: n prior ids) (auto simp: res_simps state_payloads_Ok split: if_splits)

lemma batch_entries_Ok:
  "batch_entries K s a (word_of_nat n) prev es = Ok u \<longleftrightarrow>
     entry_chain K (bcontains a) n prev es \<and>
     (\<forall>e\<in>set es. bget (st_entries s) (en_sequence e) \<in> {None, Some e})"
proof (induction es arbitrary: n prev)
  case (Cons e es)
  have "word_of_nat n + (1 :: u64) = word_of_nat (Suc n)" by simp
  then show ?case
    using Cons.IH [of "Suc n" "Some (en_id e)"]
    by (auto simp: res_simps batch_payloads_Ok simp del: of_nat_Suc split: if_splits option.splits)
qed simp

lemma batch_object_Ok:
  "batch_object K ob a = Ok a' \<longleftrightarrow>
     object_verify K ob = Ok () \<and> bget a (jo_id ob) \<in> {None, Some (jo_bytes ob)} \<and>
     a' = binsert (jo_id ob) (jo_bytes ob) a"
  by (auto simp: batch_object_def res_simps split: option.splits if_splits)

lemma batch_objects_Ok:
  assumes "res_fold (batch_object K) obs a = Ok a'"
  shows "\<forall>ob\<in>set obs. object_verify K ob = Ok () \<and> bget a' (jo_id ob) = Some (jo_bytes ob)"
    and "bget a k = Some v \<Longrightarrow> bget a' k = Some v"
    and "bcontains a' k \<longleftrightarrow> bcontains a k \<or> k \<in> jo_id ` set obs"
proof -
  have "(\<forall>ob\<in>set obs. object_verify K ob = Ok () \<and> bget a' (jo_id ob) = Some (jo_bytes ob)) \<and>
      (\<forall>k v. bget a k = Some v \<longrightarrow> bget a' k = Some v) \<and>
      (\<forall>k. bcontains a' k \<longleftrightarrow> bcontains a k \<or> k \<in> jo_id ` set obs)"
    using assms
  proof (induction obs arbitrary: a)
    case (Cons ob obs)
    then obtain a1 where 1: "batch_object K ob a = Ok a1" "res_fold (batch_object K) obs a1 = Ok a'"
      by (auto simp: res_simps)
    from 1(1) have a1: "a1 = binsert (jo_id ob) (jo_bytes ob) a" "object_verify K ob = Ok ()"
        "bget a (jo_id ob) \<in> {None, Some (jo_bytes ob)}"
      by (auto simp: batch_object_Ok)
    note IH = Cons.IH [OF 1(2)]
    have "bget a' k = Some v" if "bget a k = Some v" for k v
      using that IH a1 by (cases "k = jo_id ob") auto
    moreover have "bget a' (jo_id ob) = Some (jo_bytes ob)" using IH a1(1) by simp
    ultimately show ?case using IH a1(1,2) by auto
  qed simp
  then show "\<forall>ob\<in>set obs. object_verify K ob = Ok () \<and> bget a' (jo_id ob) = Some (jo_bytes ob)"
    "bget a k = Some v \<Longrightarrow> bget a' k = Some v"
    "bcontains a' k \<longleftrightarrow> bcontains a k \<or> k \<in> jo_id ` set obs"
    by blast+
qed

section \<open>Properties\<close>

lemma verify_state_Ok:
  "verify_state K s = Ok v \<longleftrightarrow>
     entry_chain K (payload_ok K s) 0 None (bvalues (st_entries s)) \<and> st_head s = computed_head s \<and>
     v = \<lparr>vf_head = computed_head s, vf_entries = bvalues (st_entries s),
          vf_object_ids = scollect (concat (map en_payloads (bvalues (st_entries s))))\<rparr>"
  by (auto simp: verify_state_def res_simps state_entries_Ok scollect_def)

text \<open>C11: \<open>verify_state\<close> accepts exactly the states whose entries form a gapless hash chain from sequence 0
  with every payload stored, verified and semantic, and whose head is the last entry; the result
  lists the entries in order and the set of retained objects.\<close>

theorem verify_state_iff:
  "verify_state K s = Ok v \<longleftrightarrow>
     entry_chain K (payload_ok K s) 0 None (bvalues (st_entries s)) \<and> st_head s = computed_head s \<and>
     v = \<lparr>vf_head = computed_head s, vf_entries = bvalues (st_entries s),
          vf_object_ids = scollect (concat (map en_payloads (bvalues (st_entries s))))\<rparr>"
  by (rule verify_state_Ok)

lemma canonical_id_same_datum:
  assumes "canonical_id K e = Ok i" and "canonical_id K f = Ok i"
    and "content_id K (canonical_datum e) = content_id K (canonical_datum f) \<Longrightarrow> canonical_datum e = canonical_datum f"
  shows "canonical_datum e = canonical_datum f"
  using assms by (auto simp: canonical_id_def res_simps)

lemma same_entry:
  "canonical_datum e = canonical_datum f \<Longrightarrow> en_id e = en_id f \<Longrightarrow> (e :: journal_entry) = f"
  using canonical_datum_fields by (metis (full_types) journal_entry.equality old.unit.exhaust)

text \<open>Two chains with the same end are the same chain, when no two of their entries collide.\<close>

lemma entry_chain_unique:
  assumes "entry_chain K P 0 None xs" and "entry_chain K Q 0 None ys" and "chain_end None xs = chain_end None ys"
    and "\<And>e f. e \<in> set xs \<Longrightarrow> f \<in> set ys \<Longrightarrow> content_id K (canonical_datum e) = content_id K (canonical_datum f)
          \<Longrightarrow> canonical_datum e = canonical_datum f"
  shows "xs = ys"
  using assms
proof (induction xs arbitrary: ys rule: rev_induct)
  case Nil
  then show ?case by (simp add: chain_end_def split: if_splits)
next
  case (snoc e xs)
  from snoc.prems(3) obtain zs f where ys: "ys = zs @ [f]"
    by (cases ys rule: rev_cases) (auto simp: chain_end_def)
  from snoc.prems ys have ids: "en_id e = en_id f" "canonical_id K e = Ok (en_id e)" "canonical_id K f = Ok (en_id e)"
    by (auto simp: entry_chain_append chain_end_def)
  have "canonical_datum e = canonical_datum f"
    by (rule canonical_id_same_datum [OF ids(2,3)]) (use snoc.prems(4) ys in simp)
  then have "e = f" using ids(1) by (rule same_entry)
  have "xs = zs"
  proof (rule snoc.IH)
    show "chain_end None xs = chain_end None zs"
      using snoc.prems(1,2) ys \<open>e = f\<close> by (auto simp: entry_chain_append)
  qed (use snoc.prems ys in \<open>auto simp: entry_chain_append\<close>)
  with ys \<open>e = f\<close> show ?case by simp
qed

lemma computed_head_chain_end:
  "map_option head_entry (computed_head s) = chain_end None (bvalues (st_entries s))"
  by (auto simp: computed_head_def chain_end_def blast_def bvalues_def head_of_def last_map split: prod.split)

text \<open>C10: the head pins the whole history: two states that verify and have the same head entry hold the
  same entries, when no two of their entries collide under the kernel's content id.\<close>

theorem verified_history_unique:
  assumes "verify_state K s = Ok v" and "verify_state K t = Ok w"
    and "map_option head_entry (st_head s) = map_option head_entry (st_head t)"
    and "\<forall>e\<in>set (vf_entries v). \<forall>f\<in>set (vf_entries w).
           content_id K (canonical_datum e) = content_id K (canonical_datum f) \<longrightarrow> canonical_datum e = canonical_datum f"
  shows "vf_entries v = vf_entries w"
proof (rule entry_chain_unique)
  show "entry_chain K (payload_ok K s) 0 None (vf_entries v)" "entry_chain K (payload_ok K t) 0 None (vf_entries w)"
    "chain_end None (vf_entries v) = chain_end None (vf_entries w)"
    using assms(1-3) by (simp_all add: verify_state_Ok computed_head_chain_end)
qed (use assms(4) in blast)

definition sample_entry :: journal_entry where
  "sample_entry =
     (let e = \<lparr>en_id = Cid (sym_new ''unset'') [], en_sequence = 0, en_previous = None,
               en_kind = sym_new ''note'', en_payloads = []\<rparr>
      in e\<lparr>en_id := the (content_id sample_kernel (canonical_datum e))\<rparr>)"

definition sample_state :: stored_state where
  "sample_state = \<lparr>st_objects = [], st_datums = [], st_entries = [(0, sample_entry)],
     st_head = Some (head_of sample_entry)\<rparr>"

lemma sample_state_ok:
  "verify_state sample_kernel sample_state =
     Ok \<lparr>vf_head = Some (head_of sample_entry), vf_entries = [sample_entry], vf_object_ids = []\<rparr>"
  "verify_state sample_kernel (sample_state\<lparr>st_objects := [(Cid (sym_new ''a'') [1], [7])]\<rparr>) =
     Ok \<lparr>vf_head = Some (head_of sample_entry), vf_entries = [sample_entry], vf_object_ids = []\<rparr>"
  by (simp_all add: verify_state_Ok sample_state_def sample_entry_def Let_def bvalues_def computed_head_def
      blast_def canonical_id_def sample_kernel_def canonical_datum_def scollect_def)

theorem verified_history_unique_witness:
  "\<exists>v w. verify_state sample_kernel sample_state = Ok v \<and>
     verify_state sample_kernel (sample_state\<lparr>st_objects := [(Cid (sym_new ''a'') [1], [7])]\<rparr>) = Ok w \<and>
     vf_entries v = vf_entries w \<and> vf_entries w = [sample_entry]"
  using verified_history_unique [OF sample_state_ok(1) sample_state_ok(2)] sample_state_ok
  by (simp add: sample_state_def)

end
