(* ===== verification/Journal_Backend.thy ===== *)
theory Journal_Backend
  imports Journal_Verify
begin

text \<open>
  The storage seam of the journal, \<open>crates/sim-lib-journal/src/backend.rs\<close> and the result types of
  \<open>admission.rs\<close> and \<open>persistent.rs\<close>. The trait \<open>JournalBackend\<close> is a record of operations over a
  backend state \<open>'s\<close>; the \<open>CommitAction\<close> passed to \<open>admit_then\<close> is a function on a caller's world
  \<open>'w\<close>, so that every invocation of it is visible. The locale \<open>journal_backend\<close> states what the
  journal expects of a backend.
\<close>

section \<open>Types\<close>

record admission =
  ad_fence :: u64
  ad_expected :: "journal_head option"
  ad_objects :: "journal_object list"
  ad_entries :: "journal_entry list"

datatype admission_disposition = CommittedActionInvoked | AlreadyCommittedActionNotInvoked

record guarded_admission =
  ga_head :: journal_head
  ga_disposition :: admission_disposition

record stored_datum_ref =
  sr_meaning :: cid
  sr_storage :: cid

record ('s, 'w) backend =
  be_acquire_lease :: "'s \<Rightarrow> 's \<times> (journal_error, lease) res"
  be_read_state :: "'s \<Rightarrow> (journal_error, stored_state) res"
  be_admit :: "admission \<Rightarrow> 's \<Rightarrow> 's \<times> (journal_error, journal_head) res"
  be_admit_then :: "admission \<Rightarrow> ('w \<Rightarrow> 'w) \<Rightarrow> 's \<times> 'w \<Rightarrow> ('s \<times> 'w) \<times> (journal_error, guarded_admission) res"
  be_put_datum :: "journal_object \<Rightarrow> 's \<Rightarrow> 's \<times> (journal_error, stored_datum_ref) res"
  be_get_datum :: "cid \<Rightarrow> 's \<Rightarrow> (journal_error, datum) res"
  be_rebuild_datum_index :: "'s \<Rightarrow> (journal_error, stored_datum_ref list) res"

text \<open>The provided method of the trait: a backend without guarded admission refuses before committing.\<close>

definition default_admit_then ::
    "admission \<Rightarrow> ('w \<Rightarrow> 'w) \<Rightarrow> 's \<times> 'w \<Rightarrow> ('s \<times> 'w) \<times> (journal_error, guarded_admission) res" where
  "default_admit_then ad act sw = (sw, Err (WriteRefused ''guarded admission unsupported''))"

section \<open>The invariant of a stored state\<close>

definition objects_inv :: "kernel \<Rightarrow> stored_state \<Rightarrow> bool" where
  "objects_inv K s \<longleftrightarrow>
     bsorted (st_objects s) \<and> bsorted (st_datums s) \<and>
     (\<forall>p. bcontains (st_objects s) p \<longleftrightarrow> bcontains (st_datums s) p) \<and>
     (\<forall>p. bcontains (st_objects s) p \<longrightarrow> payload_ok K s p)"

definition state_inv :: "kernel \<Rightarrow> stored_state \<Rightarrow> bool" where
  "state_inv K s \<longleftrightarrow>
     objects_inv K s \<and>
     st_entries s = map (\<lambda>e. (en_sequence e, e)) (bvalues (st_entries s)) \<and>
     length (st_entries s) \<le> 2 ^ 64 \<and>
     entry_chain K (bcontains (st_objects s)) 0 None (bvalues (st_entries s)) \<and>
     st_head s = computed_head s"

definition state_verification :: "stored_state \<Rightarrow> verification" where
  "state_verification s =
     \<lparr>vf_head = st_head s, vf_entries = bvalues (st_entries s),
      vf_object_ids = scollect (concat (map en_payloads (bvalues (st_entries s))))\<rparr>"

lemma state_inv_verified: "state_inv K s \<Longrightarrow> verify_state K s = Ok (state_verification s)"
  by (auto simp: state_inv_def objects_inv_def verify_state_Ok state_verification_def elim: entry_chain_mono)

lemma state_inv_empty: "state_inv K empty_state"
  by (simp add: state_inv_def objects_inv_def empty_state_def bvalues_def computed_head_def blast_def)

text \<open>The sequences of the entries are their positions, so a new sequence is a new last key.\<close>

lemma state_inv_keys:
  assumes "state_inv K s"
  shows "bkeys (st_entries s) = map word_of_nat [0 ..< length (st_entries s)]"
proof -
  have "bkeys (st_entries s) = map en_sequence (bvalues (st_entries s))"
  proof -
    have "st_entries s = map (\<lambda>e. (en_sequence e, e)) (bvalues (st_entries s))"
      using assms by (simp add: state_inv_def)
    then have "bkeys (st_entries s) = map fst (map (\<lambda>e. (en_sequence e, e)) (bvalues (st_entries s)))"
      by (metis bkeys_def)
    then show ?thesis by (simp add: comp_def)
  qed
  also have "\<dots> = map word_of_nat [0 ..< length (st_entries s)]"
    using assms entry_chain_sequences [of K "bcontains (st_objects s)" 0 None "bvalues (st_entries s)"]
    by (simp add: state_inv_def bvalues_def)
  finally show ?thesis .
qed

lemma word_of_nat_less: "i < j \<Longrightarrow> j < 2 ^ 64 \<Longrightarrow> (word_of_nat i :: u64) < word_of_nat j"
  by (simp add: word_less_nat_alt unat_of_nat)

lemma word_of_nat_inj:
  assumes "(word_of_nat i :: u64) = word_of_nat j" and "i < 2 ^ 64" and "j < 2 ^ 64"
  shows "i = j"
  using assms by (metis word_of_nat_length)

lemma state_inv_bget:
  assumes "state_inv K s" and "n < 2 ^ 64"
  shows "bget (st_entries s) (word_of_nat n) =
    (if n < length (st_entries s) then Some (bvalues (st_entries s) ! n) else None)"
proof (cases "n < length (st_entries s)")
  case True
  have "distinct (bkeys (st_entries s))"
    unfolding state_inv_keys [OF assms(1)] distinct_map
    using assms(1) by (auto simp: state_inv_def inj_on_def dest: word_of_nat_inj)
  moreover have "(word_of_nat n, bvalues (st_entries s) ! n) = st_entries s ! n"
    using True state_inv_keys [OF assms(1)]
    by (metis (no_types, lifting) bkeys_def bvalues_def length_map nth_map nth_upt add_0 prod.collapse length_upt diff_zero)
  ultimately show ?thesis
    using True by (simp add: bget_def bkeys_def)
next
  case False
  have "word_of_nat n \<notin> set (bkeys (st_entries s))"
  proof
    assume "word_of_nat n \<in> set (bkeys (st_entries s))"
    then obtain i where i: "i < length (st_entries s)" "word_of_nat n = (word_of_nat i :: u64)"
      using state_inv_keys [OF assms(1)] by auto
    have "i < 2 ^ 64" using i(1) False assms(2) by simp
    with word_of_nat_inj [OF i(2) assms(2)] i(1) False show False by simp
  qed
  then show ?thesis using False by (simp add: bget_None_iff)
qed

text \<open>Appending a chain at the end of a state that satisfies the invariant.\<close>

definition next_sequence :: "journal_head option \<Rightarrow> u64" where
  "next_sequence h = (case h of None \<Rightarrow> 0 | Some h \<Rightarrow> head_sequence h + 1)"

lemma state_inv_next:
  assumes "state_inv K s"
  shows "next_sequence (st_head s) = word_of_nat (length (st_entries s))"
    and "map_option head_entry (st_head s) = chain_end None (bvalues (st_entries s))"
proof -
  have head: "st_head s = computed_head s"
    and chain: "entry_chain K (bcontains (st_objects s)) 0 None (bvalues (st_entries s))"
    using assms by (simp_all add: state_inv_def)
  show "map_option head_entry (st_head s) = chain_end None (bvalues (st_entries s))"
    by (simp add: head computed_head_chain_end)
  show "next_sequence (st_head s) = word_of_nat (length (st_entries s))"
  proof (cases "st_entries s" rule: rev_cases)
    case Nil
    then show ?thesis by (simp add: next_sequence_def head computed_head_def blast_def)
  next
    case (snoc xs x)
    then show ?thesis
      using entry_chain_nth [OF chain, of "length xs"]
      by (cases x) (simp add: next_sequence_def head computed_head_def blast_def bvalues_def head_of_def nth_append)
  qed
qed

lemma state_inv_append:
  assumes inv: "state_inv K s" and objs: "objects_inv K s'" "\<And>p. bcontains (st_objects s) p \<Longrightarrow> bcontains (st_objects s') p"
    and entries: "st_entries s' = st_entries s @ map (\<lambda>e. (en_sequence e, e)) es" and "es \<noteq> []"
    and head: "st_head s' = Some (head_of (last es))"
    and fits: "length (st_entries s) + length es \<le> 2 ^ 64"
    and chain: "entry_chain K (bcontains (st_objects s')) (length (st_entries s)) (map_option head_entry (st_head s)) es"
  shows "state_inv K s'"
proof -
  have vals: "bvalues (st_entries s') = bvalues (st_entries s) @ es"
    by (simp add: entries bvalues_def comp_def)
  have "st_entries s = map (\<lambda>e. (en_sequence e, e)) (bvalues (st_entries s))"
    and "entry_chain K (bcontains (st_objects s')) 0 None (bvalues (st_entries s))"
    using inv objs(2) by (auto simp: state_inv_def elim: entry_chain_mono)
  moreover have "length (bvalues (st_entries s)) = length (st_entries s)"
    by (simp add: bvalues_def)
  moreover have "computed_head s' = st_head s'"
    using \<open>es \<noteq> []\<close> by (simp add: computed_head_def blast_def entries head last_map)
  ultimately show ?thesis
    using objs(1) fits chain state_inv_next(2) [OF inv]
    unfolding state_inv_def vals by (simp add: entries entry_chain_append)
qed

text \<open>Inserting a verified object.\<close>

definition object_sound :: "kernel \<Rightarrow> journal_object \<Rightarrow> bool" where
  "object_sound K ob \<longleftrightarrow> object_verify K ob = Ok () \<and> is_ok (encode K (jo_datum ob))"

lemma payload_ok_insert:
  assumes "object_sound K ob" and "\<And>p. p \<noteq> jo_id ob \<Longrightarrow> bget (st_objects s') p = bget (st_objects s) p"
    and "\<And>p. p \<noteq> jo_id ob \<Longrightarrow> bget (st_datums s') p = bget (st_datums s) p"
    and "bget (st_objects s') (jo_id ob) = Some (jo_bytes ob)" and "bget (st_datums s') (jo_id ob) = Some (jo_datum ob)"
    and "p = jo_id ob \<or> payload_ok K s p"
  shows "payload_ok K s' p"
  using assms object_verify_rebuild [of K ob]
  by (cases "p = jo_id ob") (auto simp: payload_ok_def object_sound_def)

lemma objects_inv_insert:
  assumes "objects_inv K s" and "object_sound K ob"
  shows "objects_inv K (s\<lparr>st_objects := binsert (jo_id ob) (jo_bytes ob) (st_objects s),
                         st_datums := binsert (jo_id ob) (jo_datum ob) (st_datums s)\<rparr>)"
  using assms by (auto simp: objects_inv_def intro: payload_ok_insert [where s = s])

text \<open>
  An object that passed its check can be encoded: the check itself encodes it, or it is an
  exact-bytes object of a size a buffer can have.
\<close>

lemma object_sound_of_verify:
  assumes "kernel_content_law K" and "object_verify K ob = Ok ()" and "length (jo_bytes ob) < usize_bound"
  shows "object_sound K ob"
proof (cases "exact_bytes (jo_datum ob)")
  case None
  then show ?thesis
    using assms(2) by (simp add: object_sound_def object_verify_Ok object_bytes_def is_ok_iff)
next
  case (Some b)
  then have d: "jo_datum ob = DNode (sym_qualified ''journal'' ''exact-bytes-v1'') [(sym_new ''bytes'', DBytes b)]"
    by (auto simp: exact_bytes_def length_Suc_conv split: datum.splits if_splits)
  have "b = jo_bytes ob"
    using assms(2) Some by (simp add: object_verify_Ok object_bytes_def)
  moreover obtain cb where "canonical_bytes K (jo_datum ob) = Some cb"
    using assms(2) kernel_content_lawD [OF assms(1)] unfolding object_verify_Ok by blast
  ultimately show ?thesis
    using assms(2,3) by (simp add: object_sound_def encode_def d sort_fields_def put_symbol_def put_bytes_def
        put_len_def usize_bound_def)
qed

section \<open>What the journal expects of a backend\<close>

text \<open>An admission the journal has checked against a state whose objects are all still there.\<close>

definition admissible :: "kernel \<Rightarrow> stored_state \<Rightarrow> admission \<Rightarrow> bool" where
  "admissible K s ad \<longleftrightarrow>
     ad_entries ad \<noteq> [] \<and> list_all (object_sound K) (ad_objects ad) \<and>
     entry_chain K (\<lambda>p. bcontains (st_objects s) p \<or> p \<in> jo_id ` set (ad_objects ad))
       (unat (next_sequence (ad_expected ad))) (map_option head_entry (ad_expected ad)) (ad_entries ad)"

definition objects_kept :: "stored_state \<Rightarrow> stored_state \<Rightarrow> bool" where
  "objects_kept s s' \<longleftrightarrow> (\<forall>p b. bget (st_objects s) p = Some b \<longrightarrow> bget (st_objects s') p = Some b)"

definition log_kept :: "stored_state \<Rightarrow> stored_state \<Rightarrow> bool" where
  "log_kept s s' \<longleftrightarrow> st_entries s' = st_entries s \<and> st_head s' = st_head s"

text \<open>There are at most \<open>2 ^ 64\<close> sequence numbers.\<close>

definition sequences_left :: "stored_state \<Rightarrow> admission \<Rightarrow> bool" where
  "sequences_left s ad \<longleftrightarrow> length (st_entries s) + length (ad_entries ad) \<le> 2 ^ 64"

text \<open>The three outcomes of an admission, as state before, state after and disposition.\<close>

fun admitted :: "admission \<Rightarrow> stored_state \<Rightarrow> stored_state \<Rightarrow> journal_head \<Rightarrow> admission_disposition \<Rightarrow> bool" where
  "admitted ad s s' h CommittedActionInvoked \<longleftrightarrow>
     st_head s = ad_expected ad \<and> bvalues (st_entries s') = bvalues (st_entries s) @ ad_entries ad \<and>
     st_head s' = Some h \<and> h = head_of (last (ad_entries ad))"
| "admitted ad s s' h AlreadyCommittedActionNotInvoked \<longleftrightarrow>
     s' = s \<and> st_head s = Some h \<and> set (ad_entries ad) \<subseteq> set (bvalues (st_entries s))"

lemma objects_kept_contains: "objects_kept s s' \<Longrightarrow> bcontains (st_objects s) p \<Longrightarrow> bcontains (st_objects s') p"
  by (auto simp: objects_kept_def bcontains_def)

lemma objects_kept_trans: "objects_kept a b \<Longrightarrow> objects_kept b c \<Longrightarrow> objects_kept a c"
  by (auto simp: objects_kept_def)

lemma objects_kept_refl [simp]: "objects_kept s s"
  by (simp add: objects_kept_def)

lemma log_kept_refl [simp]: "log_kept s s"
  by (simp add: log_kept_def)

text \<open>
  A log: reads return a verified state, leases do not change it, an admission either appends its
  entries (running the continuation at most once) or leaves the log alone. An error after the commit
  point is allowed, so a failed admission may have appended. \<open>room\<close> is what a backend needs to be
  able to hold the admission.
\<close>

definition contained :: "stored_state \<Rightarrow> stored_state \<Rightarrow> bool" where
  "contained s s' \<longleftrightarrow> (\<forall>p. bcontains (st_objects s) p \<longrightarrow> bcontains (st_objects s') p)"

lemma contained_refl [simp]: "contained s s"
  by (simp add: contained_def)

lemma contained_trans: "contained a b \<Longrightarrow> contained b c \<Longrightarrow> contained a c"
  by (simp add: contained_def)

lemma objects_kept_contained: "objects_kept s s' \<Longrightarrow> contained s s'"
  by (simp add: contained_def objects_kept_contains)

lemma admissible_mono: "admissible K s ad \<Longrightarrow> contained s s' \<Longrightarrow> admissible K s' ad"
  by (auto simp: admissible_def contained_def elim!: entry_chain_mono)

definition appended :: "admission \<Rightarrow> stored_state \<Rightarrow> stored_state \<Rightarrow> bool" where
  "appended ad s s' \<longleftrightarrow> (\<exists>h. admitted ad s s' h CommittedActionInvoked)"

locale journal_log =
  fixes K :: kernel
    and B :: "('s, 'w) backend"
    and inv :: "'s \<Rightarrow> bool"
    and view :: "'s \<Rightarrow> stored_state"
    and room :: "'s \<Rightarrow> admission \<Rightarrow> bool"
  assumes read: "inv s \<Longrightarrow> be_read_state B s = Ok (view s)"
    and view_inv: "inv s \<Longrightarrow> state_inv K (view s)"
    and acquire: "inv s \<Longrightarrow> be_acquire_lease B s = (s', rl) \<Longrightarrow> inv s' \<and> view s' = view s"
    and admit_then_inv: "inv s \<Longrightarrow> admissible K (view s) ad \<Longrightarrow> room s ad \<Longrightarrow>
          be_admit_then B ad act (s, w) = ((s', w'), rg) \<Longrightarrow> inv s' \<and> contained (view s) (view s')"
    and admit_then_Ok: "inv s \<Longrightarrow> admissible K (view s) ad \<Longrightarrow> room s ad \<Longrightarrow>
          be_admit_then B ad act (s, w) = ((s', w'), Ok g) \<Longrightarrow>
          admitted ad (view s) (view s') (ga_head g) (ga_disposition g) \<and>
          w' = (if ga_disposition g = CommittedActionInvoked then act w else w)"
    and admit_then_fail: "inv s \<Longrightarrow> admissible K (view s) ad \<Longrightarrow> room s ad \<Longrightarrow>
          be_admit_then B ad act (s, w) = ((s', w'), rg) \<Longrightarrow> \<not> is_ok rg \<Longrightarrow>
          (log_kept (view s) (view s') \<and> w' = w) \<or> (appended ad (view s) (view s') \<and> (w' = w \<or> w' = act w))"
    and admit_inv: "inv s \<Longrightarrow> admissible K (view s) ad \<Longrightarrow> room s ad \<Longrightarrow>
          be_admit B ad s = (s', rh) \<Longrightarrow> inv s' \<and> contained (view s) (view s')"
    and admit_Ok: "inv s \<Longrightarrow> admissible K (view s) ad \<Longrightarrow> room s ad \<Longrightarrow>
          be_admit B ad s = (s', Ok h) \<Longrightarrow> \<exists>d. admitted ad (view s) (view s') h d"
    and admit_fail: "inv s \<Longrightarrow> admissible K (view s) ad \<Longrightarrow> room s ad \<Longrightarrow>
          be_admit B ad s = (s', rh) \<Longrightarrow> \<not> is_ok rh \<Longrightarrow>
          log_kept (view s) (view s') \<or> appended ad (view s) (view s')"
    and put_datum: "inv s \<Longrightarrow> be_put_datum B ob s = (s', rp) \<Longrightarrow>
          inv s' \<and> contained (view s) (view s') \<and> log_kept (view s) (view s')"

text \<open>A backend whose commit point is its last step, with a semantic store in the same state.\<close>

locale journal_backend = journal_log +
  assumes admit_then_clean: "inv s \<Longrightarrow> admissible K (view s) ad \<Longrightarrow> room s ad \<Longrightarrow>
          be_admit_then B ad act (s, w) = ((s', w'), rg) \<Longrightarrow> \<not> is_ok rg \<Longrightarrow> log_kept (view s) (view s') \<and> w' = w"
    and admit_clean: "inv s \<Longrightarrow> admissible K (view s) ad \<Longrightarrow> room s ad \<Longrightarrow>
          be_admit B ad s = (s', rh) \<Longrightarrow> \<not> is_ok rh \<Longrightarrow> log_kept (view s) (view s')"
    and put_datum_Ok: "inv s \<Longrightarrow> be_put_datum B ob s = (s', Ok ref) \<Longrightarrow>
          sr_meaning ref = jo_id ob \<and> bget (st_objects (view s')) (jo_id ob) = Some (jo_bytes ob)"
    and get_datum: "inv s \<Longrightarrow> be_get_datum B p s = ok_or (bget (st_datums (view s)) p) (MissingSemanticObject p)"

end
