(* ===== verification/Journal.thy ===== *)
theory Journal
  imports Journal_Backend "HOL-Library.Sublist"
begin

text \<open>
  The journal over any backend: \<open>Journal\<close> of \<open>crates/sim-lib-journal/src/lib.rs\<close> with the verified
  admission of \<open>admission.rs\<close>, and what is built on a verified read: \<open>replay.rs\<close>, \<open>snapshot.rs\<close>,
  \<open>projection.rs\<close>, and the semantic object store of \<open>persistent.rs\<close>.
\<close>

section \<open>Operations\<close>

definition verified_admission ::
    "kernel \<Rightarrow> ('s, 'w) backend \<Rightarrow> lease \<Rightarrow> journal_head option \<Rightarrow> journal_object list \<Rightarrow> journal_entry list \<Rightarrow> 's \<Rightarrow>
     (journal_error, admission) res" where
  "verified_admission K B l expected objects entries s =
     (if entries = [] then Err EmptyBatch
      else
        res_bind (be_read_state B s) (\<lambda>before.
        res_bind (verify_state K before) (\<lambda>_.
        res_bind (verify_batch K before expected objects entries) (\<lambda>_.
        Ok \<lparr>ad_fence = lease_fence l, ad_expected = expected, ad_objects = objects, ad_entries = entries\<rparr>))))"

definition publish ::
    "kernel \<Rightarrow> ('s, 'w) backend \<Rightarrow> lease \<Rightarrow> journal_head option \<Rightarrow> journal_object list \<Rightarrow> journal_entry list \<Rightarrow> 's \<Rightarrow>
     's \<times> (journal_error, journal_head) res" where
  "publish K B l expected objects entries s =
     (case verified_admission K B l expected objects entries s of
        Ok ad \<Rightarrow> be_admit B ad s
      | Err e \<Rightarrow> (s, Err e)
      | Panic m \<Rightarrow> (s, Panic m))"

definition publish_then ::
    "kernel \<Rightarrow> ('s, 'w) backend \<Rightarrow> lease \<Rightarrow> journal_head option \<Rightarrow> journal_object list \<Rightarrow> journal_entry list \<Rightarrow>
     ('w \<Rightarrow> 'w) \<Rightarrow> 's \<times> 'w \<Rightarrow> ('s \<times> 'w) \<times> (journal_error, guarded_admission) res" where
  "publish_then K B l expected objects entries act sw =
     (case verified_admission K B l expected objects entries (fst sw) of
        Ok ad \<Rightarrow> be_admit_then B ad act sw
      | Err e \<Rightarrow> (sw, Err e)
      | Panic m \<Rightarrow> (sw, Panic m))"

definition journal_acquire_lease :: "('s, 'w) backend \<Rightarrow> 's \<Rightarrow> 's \<times> (journal_error, lease) res" where
  "journal_acquire_lease B s = be_acquire_lease B s"

definition journal_head_op :: "kernel \<Rightarrow> ('s, 'w) backend \<Rightarrow> 's \<Rightarrow> (journal_error, journal_head option) res" where
  "journal_head_op K B s =
     res_bind (be_read_state B s) (\<lambda>st. res_bind (verify_state K st) (\<lambda>v. Ok (vf_head v)))"

definition journal_verify :: "kernel \<Rightarrow> ('s, 'w) backend \<Rightarrow> 's \<Rightarrow> (journal_error, verification) res" where
  "journal_verify K B s = res_bind (be_read_state B s) (verify_state K)"

section \<open>Replay\<close>

record replay =
  rp_entries :: "journal_entry list"
  rp_cursor :: nat

definition replay_of :: "kernel \<Rightarrow> stored_state \<Rightarrow> (journal_error, replay) res" where
  "replay_of K st = res_bind (verify_state K st) (\<lambda>v. Ok \<lparr>rp_entries = vf_entries v, rp_cursor = 0\<rparr>)"

definition replay_next :: "replay \<Rightarrow> replay \<times> journal_entry option" where
  "replay_next r =
     (let item = (if rp_cursor r < length (rp_entries r) then Some (rp_entries r ! rp_cursor r) else None)
      in (r\<lparr>rp_cursor := rp_cursor r + (if item = None then 0 else 1)\<rparr>, item))"

definition journal_replay :: "kernel \<Rightarrow> ('s, 'w) backend \<Rightarrow> 's \<Rightarrow> (journal_error, replay) res" where
  "journal_replay K B s = res_bind (be_read_state B s) (replay_of K)"

text \<open>Running the iterator until it returns \<open>None\<close>, at most \<open>n\<close> times.\<close>

fun replay_take :: "nat \<Rightarrow> replay \<Rightarrow> journal_entry list" where
  "replay_take 0 r = []"
| "replay_take (Suc n) r =
     (case replay_next r of (r', None) \<Rightarrow> [] | (r', Some e) \<Rightarrow> e # replay_take n r')"

section \<open>Snapshots and projections\<close>

record snapshot =
  sn_head :: "journal_head option"
  sn_entries :: "journal_entry list"
  sn_datums :: "(cid, datum) btree_map"

definition snapshot_from_state :: "kernel \<Rightarrow> stored_state \<Rightarrow> (journal_error, snapshot) res" where
  "snapshot_from_state K st =
     res_bind (verify_state K st) (\<lambda>v.
     res_bind (res_map (\<lambda>i. res_bind (ok_or (bget (st_datums st) i) (MissingSemanticObject i)) (\<lambda>d. Ok (i, d)))
                 (vf_object_ids v)) (\<lambda>datums.
     Ok \<lparr>sn_head = vf_head v, sn_entries = vf_entries v, sn_datums = bcollect datums\<rparr>))"

definition verified_snapshot :: "kernel \<Rightarrow> ('s, 'w) backend \<Rightarrow> 's \<Rightarrow> (journal_error, snapshot) res" where
  "verified_snapshot K B s = res_bind (be_read_state B s) (snapshot_from_state K)"

definition snapshot_datum :: "snapshot \<Rightarrow> cid \<Rightarrow> datum option" where
  "snapshot_datum sn i = bget (sn_datums sn) i"

datatype projection_row =
    RowHead u64 cid
  | RowEntry journal_entry
  | RowObject cid

definition projection_rows :: "verification \<Rightarrow> projection_row list" where
  "projection_rows v =
     (case vf_head v of None \<Rightarrow> [] | Some h \<Rightarrow> [RowHead (head_sequence h) (head_entry h)]) @
     map RowEntry (vf_entries v) @ map RowObject (vf_object_ids v)"

fun is_row_object :: "projection_row \<Rightarrow> bool" where
  "is_row_object (RowObject i) = True"
| "is_row_object _ = False"

record dir_projection =
  dp_journal :: "projection_row list"
  dp_objects :: "projection_row list"

definition dir_projection_of :: "verification \<Rightarrow> dir_projection" where
  "dir_projection_of v =
     (let (objects, journal) = List.partition is_row_object (projection_rows v)
      in \<lparr>dp_journal = journal, dp_objects = objects\<rparr>)"

definition table_projection :: "kernel \<Rightarrow> ('s, 'w) backend \<Rightarrow> 's \<Rightarrow> (journal_error, projection_row list) res" where
  "table_projection K B s = res_bind (journal_verify K B s) (\<lambda>v. Ok (projection_rows v))"

definition journal_dir_projection :: "kernel \<Rightarrow> ('s, 'w) backend \<Rightarrow> 's \<Rightarrow> (journal_error, dir_projection) res" where
  "journal_dir_projection K B s = res_bind (journal_verify K B s) (\<lambda>v. Ok (dir_projection_of v))"

section \<open>The semantic object store\<close>

text \<open>\<open>PersistentObjectStore\<close>; its error type only wraps the journal's.\<close>

definition object_store_open :: "('s, 'w) backend \<Rightarrow> 's \<Rightarrow> (journal_error, unit) res" where
  "object_store_open B s = res_bind (be_rebuild_datum_index B s) (\<lambda>_. Ok ())"

definition object_store_put ::
    "kernel \<Rightarrow> ('s, 'w) backend \<Rightarrow> datum \<Rightarrow> 's \<Rightarrow> 's \<times> (journal_error, stored_datum_ref) res" where
  "object_store_put K B d s =
     (case object_from_datum K d of
        Ok ob \<Rightarrow> be_put_datum B ob s
      | Err e \<Rightarrow> (s, Err e)
      | Panic m \<Rightarrow> (s, Panic m))"

definition object_store_get :: "kernel \<Rightarrow> ('s, 'w) backend \<Rightarrow> cid \<Rightarrow> 's \<Rightarrow> (journal_error, datum) res" where
  "object_store_get K B meaning s =
     res_bind (be_get_datum B meaning s) (\<lambda>d.
     res_bind (ok_or (content_id K d) NonCanonicalDatum) (\<lambda>i.
     if i \<noteq> meaning then Err (CorruptObject meaning) else Ok d))"

definition object_store_rebuild_index :: "('s, 'w) backend \<Rightarrow> 's \<Rightarrow> (journal_error, stored_datum_ref list) res" where
  "object_store_rebuild_index B s = be_rebuild_datum_index B s"

section \<open>Facts about the operations over any backend\<close>

lemma replay_take_all:
  "rp_cursor r \<le> length (rp_entries r) \<Longrightarrow> length (rp_entries r) - rp_cursor r < n \<Longrightarrow>
     replay_take n r = drop (rp_cursor r) (rp_entries r)"
proof (induction n arbitrary: r)
  case (Suc n)
  show ?case
  proof (cases "rp_cursor r < length (rp_entries r)")
    case True
    then show ?thesis
      using Suc.IH [of "r\<lparr>rp_cursor := Suc (rp_cursor r)\<rparr>"] Suc.prems
      by (simp add: replay_next_def Cons_nth_drop_Suc)
  next
    case False
    then show ?thesis using Suc.prems by (simp add: replay_next_def)
  qed
qed simp

lemma next_sequence_unat: "word_of_nat (unat (next_sequence h)) = next_sequence h"
  by simp

text \<open>A verified admission is admissible in the state it was checked against.\<close>

lemma verified_admission_admissible:
  assumes ad: "verified_admission K B l expected objects entries s = Ok ad"
    and read: "be_read_state B s = Ok st" and K: "kernel_content_law K"
    and size: "list_all (\<lambda>ob. length (jo_bytes ob) < usize_bound) objects"
  shows "admissible K st ad \<and> ad_entries ad = entries \<and> ad_expected ad = expected \<and> ad_fence ad = lease_fence l"
proof -
  from ad read have ad_def: "ad = \<lparr>ad_fence = lease_fence l, ad_expected = expected, ad_objects = objects, ad_entries = entries\<rparr>"
    and ne: "entries \<noteq> []" and batch: "verify_batch K st expected objects entries = Ok ()"
    by (auto simp: verified_admission_def res_simps split: if_splits)
  from batch obtain a where a: "res_fold (batch_object K) objects (st_objects st) = Ok a"
    and es: "batch_entries K st a (next_sequence expected) (map_option head_entry expected) entries = Ok ()"
    by (auto simp: verify_batch_def res_simps next_sequence_def Let_def)
  have "entry_chain K (bcontains a) (unat (next_sequence expected)) (map_option head_entry expected) entries"
    using es batch_entries_Ok [of K st a "unat (next_sequence expected)"] by simp
  then have "entry_chain K (\<lambda>p. bcontains (st_objects st) p \<or> p \<in> jo_id ` set objects)
      (unat (next_sequence expected)) (map_option head_entry expected) entries"
    by (rule entry_chain_mono) (use batch_objects_Ok(3) [OF a] in blast)
  moreover have "list_all (object_sound K) objects"
    using batch_objects_Ok(1) [OF a] size object_sound_of_verify [OF K] by (auto simp: list_all_iff)
  ultimately show ?thesis using ne by (simp add: admissible_def ad_def)
qed

section \<open>Writers interleaved\<close>

text \<open>
  A configuration is a backend state, the world the actions work on and the admissions that writers
  have verified and not forgotten. A writer may verify against any state, commit an admission at any
  later time, and commit it again (redelivery after a lost acknowledgement). The side conditions are
  bounds of the machine: buffers fit in memory, and the backend has room for the admission.
\<close>

inductive journal_step ::
    "kernel \<Rightarrow> ('s, 'w) backend \<Rightarrow> ('s \<Rightarrow> admission \<Rightarrow> bool) \<Rightarrow>
     's \<times> 'w \<times> admission list \<Rightarrow> 's \<times> 'w \<times> admission list \<Rightarrow> bool"
  for K B room where
  js_lease: "be_acquire_lease B s = (s', r) \<Longrightarrow> journal_step K B room (s, w, P) (s', w, P)"
| js_prepare: "verified_admission K B l expected objects entries s = Ok ad \<Longrightarrow>
     list_all (\<lambda>ob. length (jo_bytes ob) < usize_bound) objects \<Longrightarrow>
     journal_step K B room (s, w, P) (s, w, ad # P)"
| js_commit: "ad \<in> set P \<Longrightarrow> room s ad \<Longrightarrow> be_admit B ad s = (s', rh) \<Longrightarrow>
     journal_step K B room (s, w, P) (s', w, P)"
| js_commit_then: "ad \<in> set P \<Longrightarrow> room s ad \<Longrightarrow>
     be_admit_then B ad act (s, w) = ((s', w'), rg) \<Longrightarrow> journal_step K B room (s, w, P) (s', w', P)"
| js_put: "be_put_datum B ob s = (s', rp) \<Longrightarrow> journal_step K B room (s, w, P) (s', w, P)"

inductive_cases journal_stepE: "journal_step K B room (s, w, P) c"

context journal_log
begin

lemma verify_correct: "inv s \<Longrightarrow> journal_verify K B s = Ok (state_verification (view s))"
  by (simp add: journal_verify_def read view_inv state_inv_verified)

lemma head_correct: "inv s \<Longrightarrow> journal_head_op K B s = Ok (st_head (view s))"
  by (simp add: journal_head_op_def read view_inv state_inv_verified state_verification_def)

lemma replay_correct:
  assumes "inv s"
  shows "\<exists>r. journal_replay K B s = Ok r \<and> replay_take (Suc (length (st_entries (view s)))) r = bvalues (st_entries (view s))"
proof -
  let ?r = "\<lparr>rp_entries = bvalues (st_entries (view s)), rp_cursor = 0\<rparr>"
  have "journal_replay K B s = Ok ?r"
    using assms by (simp add: journal_replay_def replay_of_def read view_inv state_inv_verified state_verification_def)
  moreover have "replay_take (Suc (length (st_entries (view s)))) ?r = bvalues (st_entries (view s))"
    by (subst replay_take_all) (simp_all add: bvalues_def)
  ultimately show ?thesis by blast
qed

lemma publish_admits:
  assumes "inv s" and "kernel_content_law K" and "list_all (\<lambda>ob. length (jo_bytes ob) < usize_bound) objects"
    and "verified_admission K B l expected objects entries s = Ok ad"
  shows "admissible K (view s) ad" "ad_entries ad = entries"
  using verified_admission_admissible [OF assms(4) read [OF assms(1)] assms(2,3)] by simp_all

text \<open>A snapshot resolves exactly the payloads its entries retain, each to a value with that id.\<close>

lemma snapshot_correct:
  assumes "inv s"
  shows "\<exists>sn. verified_snapshot K B s = Ok sn \<and> sn_head sn = st_head (view s) \<and>
    sn_entries sn = bvalues (st_entries (view s)) \<and>
    (\<forall>i. snapshot_datum sn i =
       (if i \<in> (\<Union>e\<in>set (sn_entries sn). set (en_payloads e)) then bget (st_datums (view s)) i else None)) \<and>
    (\<forall>e\<in>set (sn_entries sn). \<forall>i\<in>set (en_payloads e). \<exists>d. snapshot_datum sn i = Some d \<and> content_id K d = Some i)"
proof -
  let ?v = "state_verification (view s)" and ?d = "st_datums (view s)"
  have st: "state_inv K (view s)" by (rule view_inv [OF assms])
  have ids: "set (vf_object_ids ?v) = (\<Union>e\<in>set (bvalues (st_entries (view s))). set (en_payloads e))"
    by (simp add: state_verification_def)
  have pay: "\<exists>d. bget ?d i = Some d \<and> content_id K d = Some i" if "i \<in> set (vf_object_ids ?v)" for i
  proof -
    have "bcontains (st_objects (view s)) i"
      using that st entry_chain_payloads [of K "bcontains (st_objects (view s))"]
      unfolding ids state_inv_def by blast
    then have "payload_ok K (view s) i" using st by (simp add: state_inv_def objects_inv_def)
    then show ?thesis by (auto simp: payload_ok_def object_from_datum_Ok)
  qed
  let ?sn = "\<lparr>sn_head = vf_head ?v, sn_entries = vf_entries ?v,
      sn_datums = bcollect (map (\<lambda>i. (i, the (bget ?d i))) (vf_object_ids ?v))\<rparr>"
  have "res_map (\<lambda>i. res_bind (ok_or (bget ?d i) (MissingSemanticObject i)) (\<lambda>d. Ok (i, d))) (vf_object_ids ?v) =
      Ok (map (\<lambda>i. (i, the (bget ?d i))) (vf_object_ids ?v))"
    by (rule res_map_all_Ok) (use pay in fastforce)
  then have sn: "verified_snapshot K B s = Ok ?sn"
    using assms st by (simp add: verified_snapshot_def snapshot_from_state_def read state_inv_verified)
  have look: "snapshot_datum ?sn i = (if i \<in> set (vf_object_ids ?v) then bget ?d i else None)" for i
  proof -
    have "map_of (rev (map (\<lambda>i. (i, the (bget ?d i))) (vf_object_ids ?v))) i =
        (if i \<in> set (vf_object_ids ?v) then Some (the (bget ?d i)) else None)"
      by (simp add: rev_map map_of_map_restrict restrict_map_def)
    then show ?thesis using pay [of i] by (auto simp: snapshot_datum_def bget_bcollect)
  qed
  have "sn_entries ?sn = bvalues (st_entries (view s))" "sn_head ?sn = st_head (view s)"
    by (simp_all add: state_verification_def)
  then show ?thesis using sn look pay unfolding ids by (intro exI [of _ ?sn]) auto
qed

text \<open>Every interleaving keeps the invariant, and history only grows.\<close>

definition config_inv :: "'s \<times> 'w \<times> admission list \<Rightarrow> bool" where
  "config_inv c \<longleftrightarrow> inv (fst c) \<and> list_all (admissible K (view (fst c))) (snd (snd c))"

lemma step_inv:
  assumes "journal_step K B room c c'" and "config_inv c" and "kernel_content_law K"
  shows "config_inv c' \<and> prefix (bvalues (st_entries (view (fst c)))) (bvalues (st_entries (view (fst c')))) \<and>
     contained (view (fst c)) (view (fst c'))"
  using assms(1)
proof cases
  case (js_lease s s' r w P)
  then show ?thesis using assms(2) acquire by (fastforce simp: config_inv_def)
next
  case (js_prepare l expected objects entries s ad w P)
  then show ?thesis using assms(2) publish_admits(1) [OF _ assms(3)] by (auto simp: config_inv_def)
next
  case (js_commit ad P s s' rh w)
  then have s: "inv s" "admissible K (view s) ad" "room s ad"
    using assms(2) by (auto simp: config_inv_def list_all_iff)
  note step = admit_inv [OF s js_commit(5)]
  have "prefix (bvalues (st_entries (view s))) (bvalues (st_entries (view s')))"
  proof (cases rh)
    case (Ok h)
    then obtain d where "admitted ad (view s) (view s') h d" using admit_Ok [OF s] js_commit(5) by blast
    then show ?thesis by (cases d) simp_all
  qed (use admit_fail [OF s js_commit(5)] in \<open>auto simp: log_kept_def appended_def\<close>)
  then show ?thesis
    using js_commit step assms(2) admissible_mono by (auto simp: config_inv_def list_all_iff)
next
  case (js_commit_then ad P s act w s' w' rg)
  then have s: "inv s" "admissible K (view s) ad" "room s ad"
    using assms(2) by (auto simp: config_inv_def list_all_iff)
  note step = admit_then_inv [OF s js_commit_then(5)]
  have "prefix (bvalues (st_entries (view s))) (bvalues (st_entries (view s')))"
  proof (cases rg)
    case (Ok g)
    then show ?thesis
      using admit_then_Ok [OF s js_commit_then(5) [unfolded Ok]] by (cases "ga_disposition g") auto
  qed (use admit_then_fail [OF s js_commit_then(5)] in \<open>auto simp: log_kept_def appended_def\<close>)
  then show ?thesis
    using js_commit_then step assms(2) admissible_mono by (auto simp: config_inv_def list_all_iff)
next
  case (js_put ob s s' rp w P)
  then show ?thesis using assms(2) put_datum [of s ob s' rp] admissible_mono
    by (auto simp: config_inv_def list_all_iff log_kept_def)
qed

lemma reach_inv:
  assumes "(journal_step K B room)\<^sup>*\<^sup>* c c'" and "config_inv c" and "kernel_content_law K"
  shows "config_inv c' \<and> prefix (bvalues (st_entries (view (fst c)))) (bvalues (st_entries (view (fst c')))) \<and>
     contained (view (fst c)) (view (fst c'))"
  using assms
proof (induction rule: rtranclp_induct)
  case (step y z)
  then show ?case
    using step_inv [OF step.hyps(2)] by (meson contained_trans prefix_order.trans)
qed simp

end

text \<open>Over a backend whose commit point is its last step.\<close>

context journal_backend
begin

lemma publish_inv:
  assumes "inv s" and "kernel_content_law K" and "list_all (\<lambda>ob. length (jo_bytes ob) < usize_bound) objects"
    and "\<And>ad. ad_entries ad = entries \<Longrightarrow> room s ad"
    and pub: "publish K B l expected objects entries s = (s', r)"
  shows "inv s' \<and> contained (view s) (view s') \<and>
     (case r of Ok h \<Rightarrow> st_head (view s') = Some h \<and> set entries \<subseteq> set (bvalues (st_entries (view s'))) \<and>
                        prefix (bvalues (st_entries (view s))) (bvalues (st_entries (view s')))
              | _ \<Rightarrow> log_kept (view s) (view s'))"
proof (cases "verified_admission K B l expected objects entries s")
  case (Ok ad)
  note ad = publish_admits [OF assms(1-3) Ok]
  have left: "room s ad" by (rule assms(4) [OF ad(2)])
  have admit: "be_admit B ad s = (s', r)" using pub Ok by (simp add: publish_def)
  show ?thesis
  proof (cases r)
    case (Ok h)
    obtain d where "admitted ad (view s) (view s') h d"
      using admit_Ok [OF assms(1) ad(1) left] admit Ok by blast
    then show ?thesis
      using admit_inv [OF assms(1) ad(1) left admit] ad(2) Ok by (cases d) (auto simp: prefix_def)
  qed (use admit_inv [OF assms(1) ad(1) left admit] admit_clean [OF assms(1) ad(1) left admit] in auto)
qed (use pub assms(1) in \<open>auto simp: publish_def\<close>)

text \<open>The action runs exactly when the batch is new, and at most once per delivery.\<close>

lemma publish_then_action:
  assumes "inv s" and "kernel_content_law K" and "list_all (\<lambda>ob. length (jo_bytes ob) < usize_bound) objects"
    and "\<And>ad. ad_entries ad = entries \<Longrightarrow> room s ad"
    and pub: "publish_then K B l expected objects entries act (s, w) = ((s', w'), r)"
  shows "(w' = act w \<and> bvalues (st_entries (view s')) = bvalues (st_entries (view s)) @ entries \<and>
           st_head (view s) = expected \<and> (\<exists>g. r = Ok g \<and> st_head (view s') = Some (ga_head g) \<and> ga_disposition g = CommittedActionInvoked))
       \<or> (w' = w \<and> log_kept (view s) (view s') \<and>
           (\<forall>g. r = Ok g \<longrightarrow> ga_disposition g = AlreadyCommittedActionNotInvoked \<and> view s' = view s \<and>
              set entries \<subseteq> set (bvalues (st_entries (view s)))))"
proof (cases "verified_admission K B l expected objects entries s")
  case (Ok ad)
  note ad = publish_admits [OF assms(1-3) Ok]
  have expd: "ad_expected ad = expected"
    using verified_admission_admissible [OF Ok read [OF assms(1)] assms(2,3)] by simp
  have left: "room s ad" by (rule assms(4) [OF ad(2)])
  have admit: "be_admit_then B ad act (s, w) = ((s', w'), r)" using pub Ok by (simp add: publish_then_def)
  show ?thesis
  proof (cases r)
    case (Ok g)
    then show ?thesis
      using admit_then_Ok [OF assms(1) ad(1) left admit [unfolded Ok]] ad(2) expd
      by (cases "ga_disposition g") auto
  qed (use admit_then_clean [OF assms(1) ad(1) left admit] in auto)
qed (use pub assms(1) in \<open>auto simp: publish_then_def\<close>)

text \<open>What the semantic object store puts, it gets back: a value with the same id and bytes.\<close>

lemma object_store_roundtrip:
  assumes "inv s" and put: "object_store_put K B d s = (s', Ok ref)"
  shows "content_id K d = Some (sr_meaning ref) \<and>
    (\<exists>d'. object_store_get K B (sr_meaning ref) s' = Ok d' \<and> content_id K d' = content_id K d \<and>
          object_bytes K d' = object_bytes K d)"
proof -
  obtain ob where ob: "object_from_datum K d = Ok ob" and p: "be_put_datum B ob s = (s', Ok ref)"
    using put by (auto simp: object_store_put_def split: res.splits)
  have s': "inv s'" using put_datum [OF assms(1) p] by simp
  have stored: "sr_meaning ref = jo_id ob" "bget (st_objects (view s')) (jo_id ob) = Some (jo_bytes ob)"
    using put_datum_Ok [OF assms(1) p] by simp_all
  then have "payload_ok K (view s') (jo_id ob)"
    using view_inv [OF s'] by (auto simp: state_inv_def objects_inv_def bcontains_def)
  with stored ob show ?thesis
    by (auto simp: payload_ok_def object_store_get_def get_datum [OF s'] object_from_datum_Ok)
qed

end

end
