(* ===== verification/Journal_Memory.thy ===== *)
theory Journal_Memory
  imports Journal
begin

text \<open>
  The law-reference backend, \<open>crates/sim-lib-journal/src/memory.rs\<close>. The two mutexes make every
  operation one step on the inner state; a poisoned lock (a panic inside an action) is not modelled.
  Where the code leaves a loop with an error the state keeps what was inserted before, so every
  operation returns the state it leaves behind together with its result.
\<close>

record mem_inner =
  mem_fence :: u64
  mem_state :: stored_state

definition mem_new :: mem_inner where
  "mem_new = \<lparr>mem_fence = 0, mem_state = empty_state\<rparr>"

section \<open>Operations\<close>

fun mem_insert_objects :: "journal_object list \<Rightarrow> stored_state \<Rightarrow> stored_state \<times> (journal_error, unit) res" where
  "mem_insert_objects [] s = (s, Ok ())"
| "mem_insert_objects (ob # obs) s =
     (case bget (st_objects s) (jo_id ob) of
        Some bytes \<Rightarrow>
          if bytes \<noteq> jo_bytes ob then (s, Err ConflictingObject) else mem_insert_objects obs s
      | None \<Rightarrow>
          mem_insert_objects obs
            (s\<lparr>st_objects := binsert (jo_id ob) (jo_bytes ob) (st_objects s),
               st_datums := binsert (jo_id ob) (jo_datum ob) (st_datums s)\<rparr>))"

fun mem_insert_entries :: "journal_entry list \<Rightarrow> stored_state \<Rightarrow> stored_state \<times> (journal_error, unit) res" where
  "mem_insert_entries [] s = (s, Ok ())"
| "mem_insert_entries (e # es) s =
     (case bget (st_entries s) (en_sequence e) of
        Some existing \<Rightarrow> if existing = e then mem_insert_entries es s else (s, Err ConflictingDelivery)
      | None \<Rightarrow> mem_insert_entries es (s\<lparr>st_entries := binsert (en_sequence e) e (st_entries s)\<rparr>))"

definition commit_admission :: "admission \<Rightarrow> mem_inner \<Rightarrow> mem_inner \<times> (journal_error, guarded_admission) res" where
  "commit_admission ad m =
     (let s = mem_state m in
      if ad_fence ad \<noteq> mem_fence m then (m, Err StaleLease)
      else if ad_expected ad \<noteq> st_head s then
        (if list_all (\<lambda>e. bget (st_entries s) (en_sequence e) = Some e) (ad_entries ad) \<and> ad_entries ad \<noteq> [] then
           (m, res_bind (ok_or (st_head s) WrongHead) (\<lambda>h.
                 Ok \<lparr>ga_head = h, ga_disposition = AlreadyCommittedActionNotInvoked\<rparr>))
         else if list_ex (\<lambda>e. bcontains (st_entries s) (en_sequence e)) (ad_entries ad) then
           (m, Err ConflictingDelivery)
         else (m, Err WrongHead))
      else
        (case mem_insert_objects (ad_objects ad) s of
           (s1, Ok _) \<Rightarrow>
             (case mem_insert_entries (ad_entries ad) s1 of
                (s2, Ok _) \<Rightarrow>
                  (case blast (st_entries s2) of
                     None \<Rightarrow> (m\<lparr>mem_state := s2\<rparr>, Err EmptyBatch)
                   | Some (_, e) \<Rightarrow>
                       (m\<lparr>mem_state := s2\<lparr>st_head := Some (head_of e)\<rparr>\<rparr>,
                        Ok \<lparr>ga_head = head_of e, ga_disposition = CommittedActionInvoked\<rparr>))
              | (s2, Err e) \<Rightarrow> (m\<lparr>mem_state := s2\<rparr>, Err e)
              | (s2, Panic p) \<Rightarrow> (m\<lparr>mem_state := s2\<rparr>, Panic p))
         | (s1, Err e) \<Rightarrow> (m\<lparr>mem_state := s1\<rparr>, Err e)
         | (s1, Panic p) \<Rightarrow> (m\<lparr>mem_state := s1\<rparr>, Panic p)))"

definition mem_acquire_lease :: "mem_inner \<Rightarrow> mem_inner \<times> (journal_error, lease) res" where
  "mem_acquire_lease m =
     (case checked_add_u64 (mem_fence m) 1 of
        None \<Rightarrow> (m, Err (Backend ''fence exhausted''))
      | Some f \<Rightarrow> (m\<lparr>mem_fence := f\<rparr>, Ok \<lparr>lease_fence = f\<rparr>))"

definition mem_read_state :: "mem_inner \<Rightarrow> (journal_error, stored_state) res" where
  "mem_read_state m = Ok (mem_state m)"

definition mem_admit_then ::
    "admission \<Rightarrow> ('w \<Rightarrow> 'w) \<Rightarrow> mem_inner \<times> 'w \<Rightarrow> (mem_inner \<times> 'w) \<times> (journal_error, guarded_admission) res" where
  "mem_admit_then ad act mw =
     (case mw of (m, w) \<Rightarrow>
        (case commit_admission ad m of
           (m', Ok g) \<Rightarrow> ((m', if ga_disposition g = CommittedActionInvoked then act w else w), Ok g)
         | (m', Err e) \<Rightarrow> ((m', w), Err e)
         | (m', Panic p) \<Rightarrow> ((m', w), Panic p)))"

definition mem_admit :: "admission \<Rightarrow> mem_inner \<Rightarrow> mem_inner \<times> (journal_error, journal_head) res" where
  "mem_admit ad m =
     (case mem_admit_then ad (\<lambda>u. u) (m, ()) of
        ((m', _), r) \<Rightarrow> (m', res_bind r (\<lambda>g. Ok (ga_head g))))"

definition mem_put_datum :: "kernel \<Rightarrow> journal_object \<Rightarrow> mem_inner \<Rightarrow> mem_inner \<times> (journal_error, stored_datum_ref) res" where
  "mem_put_datum K ob m =
     (case res_bind (object_verify K ob) (\<lambda>_. storage_bytes K ob) of
        Err e \<Rightarrow> (m, Err e)
      | Panic p \<Rightarrow> (m, Panic p)
      | Ok bytes \<Rightarrow>
          let reference = \<lparr>sr_meaning = jo_id ob, sr_storage = storage_id K bytes\<rparr>; s = mem_state m in
          (case bget (st_datums s) (jo_id ob) of
             Some value \<Rightarrow>
               (m, res_bind (object_from_datum K value) (\<lambda>existing.
                     if jo_id existing \<noteq> jo_id ob \<or> jo_bytes existing \<noteq> jo_bytes ob then Err ConflictingObject
                     else Ok reference))
           | None \<Rightarrow>
               (m\<lparr>mem_state := s\<lparr>st_objects := binsert (jo_id ob) (jo_bytes ob) (st_objects s),
                                 st_datums := binsert (jo_id ob) (jo_datum ob) (st_datums s)\<rparr>\<rparr>,
                Ok reference)))"

definition mem_get_datum :: "cid \<Rightarrow> mem_inner \<Rightarrow> (journal_error, datum) res" where
  "mem_get_datum meaning m = ok_or (bget (st_datums (mem_state m)) meaning) (MissingSemanticObject meaning)"

definition mem_rebuild_datum_index :: "kernel \<Rightarrow> mem_inner \<Rightarrow> (journal_error, stored_datum_ref list) res" where
  "mem_rebuild_datum_index K m =
     res_map (\<lambda>(meaning, d).
       res_bind (object_from_datum K d) (\<lambda>ob.
       res_bind (storage_bytes K ob) (\<lambda>bytes.
       Ok \<lparr>sr_meaning = meaning, sr_storage = storage_id K bytes\<rparr>))) (st_datums (mem_state m))"

definition memory_backend :: "kernel \<Rightarrow> (mem_inner, 'w) backend" where
  "memory_backend K =
     \<lparr>be_acquire_lease = mem_acquire_lease, be_read_state = mem_read_state, be_admit = mem_admit,
      be_admit_then = mem_admit_then, be_put_datum = mem_put_datum K, be_get_datum = mem_get_datum,
      be_rebuild_datum_index = mem_rebuild_datum_index K\<rparr>"

lemma memory_backend_sel [simp]:
  "be_acquire_lease (memory_backend K) = mem_acquire_lease" "be_read_state (memory_backend K) = mem_read_state"
  "be_admit (memory_backend K) = mem_admit" "be_admit_then (memory_backend K) = mem_admit_then"
  "be_put_datum (memory_backend K) = mem_put_datum K" "be_get_datum (memory_backend K) = mem_get_datum"
  "be_rebuild_datum_index (memory_backend K) = mem_rebuild_datum_index K"
  by (simp_all add: memory_backend_def)

section \<open>The loops of a commit\<close>

lemma mem_insert_objects_inv:
  assumes "mem_insert_objects obs s = (s', r)" and "objects_inv K s" and "list_all (object_sound K) obs"
  shows "objects_inv K s' \<and> objects_kept s s' \<and> log_kept s s' \<and>
     (is_ok r \<longrightarrow> (\<forall>ob\<in>set obs. bget (st_objects s') (jo_id ob) = Some (jo_bytes ob)))"
  using assms
proof (induction obs s rule: mem_insert_objects.induct)
  case (1 s)
  then show ?case by simp
next
  case (2 ob obs s)
  show ?case
  proof (cases "bget (st_objects s) (jo_id ob)")
    case None
    let ?s = "s\<lparr>st_objects := binsert (jo_id ob) (jo_bytes ob) (st_objects s),
               st_datums := binsert (jo_id ob) (jo_datum ob) (st_datums s)\<rparr>"
    have IH: "objects_inv K s' \<and> objects_kept ?s s' \<and> log_kept ?s s' \<and>
        (is_ok r \<longrightarrow> (\<forall>ob\<in>set obs. bget (st_objects s') (jo_id ob) = Some (jo_bytes ob)))"
      using 2(1) [OF None] None 2(3-5) objects_inv_insert by simp
    then have "bget (st_objects s') (jo_id ob) = Some (jo_bytes ob)"
      by (simp add: objects_kept_def)
    moreover have "objects_kept s ?s"
      using None by (auto simp: objects_kept_def)
    then have "objects_kept s s'"
      using IH objects_kept_trans by blast
    ultimately show ?thesis using IH by (auto simp: log_kept_def)
  next
    case (Some bytes)
    show ?thesis
    proof (cases "bytes = jo_bytes ob")
      case True
      have IH: "objects_inv K s' \<and> objects_kept s s' \<and> log_kept s s' \<and>
          (is_ok r \<longrightarrow> (\<forall>ob\<in>set obs. bget (st_objects s') (jo_id ob) = Some (jo_bytes ob)))"
        using 2(2) [OF Some] True Some 2(3-5) by simp
      then have "bget (st_objects s') (jo_id ob) = Some bytes"
        using Some by (simp add: objects_kept_def)
      with IH True show ?thesis by auto
    next
      case False
      then show ?thesis using Some 2(3-5) by auto
    qed
  qed
qed

lemma mem_insert_entries_append:
  assumes "entry_chain K P n prev es" and "n + length es \<le> 2 ^ 64" and "bkeys (st_entries s) = map word_of_nat [0 ..< n]"
  shows "mem_insert_entries es s =
     (s\<lparr>st_entries := st_entries s @ map (\<lambda>e. (en_sequence e, e)) es\<rparr>, Ok ())"
  using assms
proof (induction es arbitrary: s n prev)
  case (Cons e es)
  then have n: "n < 2 ^ 64" and e: "en_sequence e = word_of_nat n" by auto
  have above: "\<forall>k\<in>set (bkeys (st_entries s)). k < en_sequence e"
    using Cons.prems(3) n word_of_nat_less by (auto simp: e)
  then have ins: "binsert (en_sequence e) e (st_entries s) = st_entries s @ [(en_sequence e, e)]"
    by (rule binsert_above)
  have "bget (st_entries s) (en_sequence e) = None"
    using above by (auto simp: bget_None_iff)
  moreover have "bkeys (st_entries s @ [(en_sequence e, e)]) = map word_of_nat [0 ..< Suc n]"
    using Cons.prems(3) by (simp add: bkeys_def e)
  ultimately show ?case
    using Cons.IH [of "Suc n" "Some (en_id e)" "s\<lparr>st_entries := st_entries s @ [(en_sequence e, e)]\<rparr>"] Cons.prems(1,2)
    by (simp add: ins [unfolded e] e)
qed simp

section \<open>The memory backend keeps the contract\<close>

definition mem_inv :: "kernel \<Rightarrow> mem_inner \<Rightarrow> bool" where
  "mem_inv K m \<longleftrightarrow> state_inv K (mem_state m)"

lemma entry_chain_same_start:
  "entry_chain K P n prev es \<Longrightarrow> (word_of_nat n :: u64) = word_of_nat m \<Longrightarrow> entry_chain K P m prev es"
  by (induction es arbitrary: n m prev) auto

lemma commit_at_head:
  assumes inv: "state_inv K (mem_state m)" and ad: "admissible K (mem_state m) ad" "sequences_left (mem_state m) ad"
    and fence: "ad_fence ad = mem_fence m" and head: "ad_expected ad = st_head (mem_state m)"
    and commit: "commit_admission ad m = (m', r)"
  shows "state_inv K (mem_state m') \<and> objects_kept (mem_state m) (mem_state m') \<and>
    (case r of Ok g \<Rightarrow> ga_disposition g = CommittedActionInvoked \<and>
                       admitted ad (mem_state m) (mem_state m') (ga_head g) CommittedActionInvoked
             | _ \<Rightarrow> log_kept (mem_state m) (mem_state m'))"
proof -
  let ?s = "mem_state m"
  obtain s1 r1 where ins: "mem_insert_objects (ad_objects ad) ?s = (s1, r1)" by (cases "mem_insert_objects (ad_objects ad) ?s")
  have "objects_inv K ?s" using inv by (simp add: state_inv_def)
  moreover have "list_all (object_sound K) (ad_objects ad)" using ad(1) by (simp add: admissible_def)
  ultimately have s1: "objects_inv K s1" "objects_kept ?s s1" "log_kept ?s s1"
      "is_ok r1 \<Longrightarrow> \<forall>ob\<in>set (ad_objects ad). bget (st_objects s1) (jo_id ob) = Some (jo_bytes ob)"
    using mem_insert_objects_inv [OF ins] by simp_all
  have inv1: "state_inv K s1"
    using inv s1(1-3) by (auto simp: state_inv_def log_kept_def computed_head_def elim!: entry_chain_mono dest: objects_kept_contains)
  show ?thesis
  proof (cases r1)
    case (Ok u)
    let ?n = "length (st_entries ?s)"
    have chain: "entry_chain K (bcontains (st_objects s1)) ?n (map_option head_entry (st_head ?s)) (ad_entries ad)"
    proof (rule entry_chain_same_start [OF entry_chain_mono])
      show "entry_chain K (\<lambda>p. bcontains (st_objects ?s) p \<or> p \<in> jo_id ` set (ad_objects ad))
          (unat (next_sequence (st_head ?s))) (map_option head_entry (st_head ?s)) (ad_entries ad)"
        using ad(1) head by (simp add: admissible_def)
    qed (use s1(2,4) Ok state_inv_next(1) [OF inv] in \<open>auto simp: bcontains_def dest: objects_kept_contains [unfolded bcontains_def]\<close>)
    let ?s2 = "s1\<lparr>st_entries := st_entries s1 @ map (\<lambda>e. (en_sequence e, e)) (ad_entries ad)\<rparr>"
    let ?s3 = "?s2\<lparr>st_head := Some (head_of (last (ad_entries ad)))\<rparr>"
    have len: "?n + length (ad_entries ad) \<le> 2 ^ 64" using ad(2) by (simp add: sequences_left_def)
    have es: "mem_insert_entries (ad_entries ad) s1 = (?s2, Ok ())"
      by (rule mem_insert_entries_append [OF chain len])
        (use state_inv_keys [OF inv1] s1(3) in \<open>simp add: log_kept_def\<close>)
    have ne: "ad_entries ad \<noteq> []" using ad(1) by (simp add: admissible_def)
    have m': "m' = m\<lparr>mem_state := ?s3\<rparr>" "r = Ok \<lparr>ga_head = head_of (last (ad_entries ad)), ga_disposition = CommittedActionInvoked\<rparr>"
      using commit fence head ins Ok es ne by (simp_all add: commit_admission_def blast_def last_map Let_def)
    have "state_inv K ?s3"
      using s1(3) ne len chain
      by (intro state_inv_append [OF inv1, of _ "ad_entries ad"])
        (use s1(1) in \<open>simp_all add: log_kept_def objects_inv_def payload_ok_def\<close>)
    then show ?thesis
      using m' s1(2,3) head by (simp add: objects_kept_def log_kept_def bvalues_def comp_def)
  qed (use commit fence head ins s1 inv1 in \<open>auto simp: commit_admission_def Let_def log_kept_def\<close>)
qed

lemma commit_off_head:
  assumes "ad_fence ad \<noteq> mem_fence m \<or> ad_expected ad \<noteq> st_head (mem_state m)"
    and "commit_admission ad m = (m', r)" and inv: "state_inv K (mem_state m)"
  shows "m' = m \<and> (\<forall>g. r = Ok g \<longrightarrow> ga_disposition g = AlreadyCommittedActionNotInvoked \<and>
     admitted ad (mem_state m) (mem_state m) (ga_head g) AlreadyCommittedActionNotInvoked)"
proof -
  have "e \<in> set (bvalues (st_entries (mem_state m)))"
    if "bget (st_entries (mem_state m)) (en_sequence e) = Some e" for e
    using bget_Some_mem [OF that] by (force simp: bvalues_def)
  then show ?thesis
    using assms(1,2)
    by (auto simp: commit_admission_def Let_def res_simps list_all_iff split: if_splits)
qed

lemma commit_contract:
  assumes "state_inv K (mem_state m)" "admissible K (mem_state m) ad" "sequences_left (mem_state m) ad"
    and "commit_admission ad m = (m', r)"
  shows "state_inv K (mem_state m') \<and> objects_kept (mem_state m) (mem_state m') \<and>
    (\<forall>g. r = Ok g \<longrightarrow> admitted ad (mem_state m) (mem_state m') (ga_head g) (ga_disposition g)) \<and>
    (\<not> is_ok r \<longrightarrow> log_kept (mem_state m) (mem_state m'))"
proof (cases "ad_fence ad = mem_fence m \<and> ad_expected ad = st_head (mem_state m)")
  case True
  then show ?thesis using commit_at_head [OF assms(1-3) _ _ assms(4)] by (cases r) auto
next
  case False
  then show ?thesis using commit_off_head [OF _ assms(4,1)] assms(1) by auto
qed

lemma mem_admit_then_commit:
  "mem_admit_then ad act (m, w) = ((m', w'), r) \<longleftrightarrow>
     commit_admission ad m = (m', r) \<and>
     w' = (case r of Ok g \<Rightarrow> if ga_disposition g = CommittedActionInvoked then act w else w | _ \<Rightarrow> w)"
  by (auto simp: mem_admit_then_def split: prod.splits res.splits)

lemma mem_admit_commit:
  "mem_admit ad m = (m', r) \<longleftrightarrow> (\<exists>g. commit_admission ad m = (m', g) \<and> r = res_bind g (\<lambda>g. Ok (ga_head g)))"
  by (auto simp: mem_admit_def mem_admit_then_def split: prod.splits res.splits)

lemma mem_acquire_lease_state: "mem_acquire_lease m = (m', r) \<Longrightarrow> mem_state m' = mem_state m"
  by (auto simp: mem_acquire_lease_def split: option.splits)

lemma mem_put_datum_contract:
  assumes inv: "state_inv K (mem_state m)" and put: "mem_put_datum K ob m = (m', r)"
  shows "state_inv K (mem_state m') \<and> objects_kept (mem_state m) (mem_state m') \<and> log_kept (mem_state m) (mem_state m') \<and>
    (\<forall>ref. r = Ok ref \<longrightarrow> sr_meaning ref = jo_id ob \<and> bget (st_objects (mem_state m')) (jo_id ob) = Some (jo_bytes ob))"
proof (cases "res_bind (object_verify K ob) (\<lambda>_. storage_bytes K ob)")
  case (Ok bytes)
  then have sound: "object_sound K ob"
    by (auto simp: object_sound_def storage_bytes_def res_simps is_ok_iff)
  have objs: "objects_inv K (mem_state m)" using inv by (simp add: state_inv_def)
  show ?thesis
  proof (cases "bget (st_datums (mem_state m)) (jo_id ob)")
    case None
    then have "bget (st_objects (mem_state m)) (jo_id ob) = None"
      using objs unfolding objects_inv_def bcontains_def by metis
    then have kept: "objects_kept (mem_state m) (mem_state m')" "log_kept (mem_state m) (mem_state m')"
      using put Ok None by (auto simp: mem_put_datum_def Let_def objects_kept_def log_kept_def)
    have "objects_inv K (mem_state m')"
      using put Ok None objects_inv_insert [OF objs sound] by (auto simp: mem_put_datum_def Let_def)
    then have "state_inv K (mem_state m')"
      using inv kept by (auto simp: state_inv_def log_kept_def computed_head_def elim!: entry_chain_mono dest: objects_kept_contains)
    then show ?thesis using kept put Ok None by (auto simp: mem_put_datum_def Let_def)
  next
    case (Some d)
    then have "payload_ok K (mem_state m) (jo_id ob)"
      using objs by (auto simp: objects_inv_def bcontains_def)
    then show ?thesis
      using put Ok Some inv by (auto simp: mem_put_datum_def Let_def payload_ok_def res_simps split: if_splits)
  qed
qed (use put inv in \<open>auto simp: mem_put_datum_def\<close>)

lemma mem_admit_then_contract:
  assumes "state_inv K (mem_state s)" "admissible K (mem_state s) ad" "sequences_left (mem_state s) ad"
    and "mem_admit_then ad act (s, w) = ((s', w'), rg)"
  shows "state_inv K (mem_state s') \<and> objects_kept (mem_state s) (mem_state s') \<and>
    (\<forall>g. rg = Ok g \<longrightarrow> admitted ad (mem_state s) (mem_state s') (ga_head g) (ga_disposition g) \<and>
       w' = (if ga_disposition g = CommittedActionInvoked then act w else w)) \<and>
    (\<not> is_ok rg \<longrightarrow> log_kept (mem_state s) (mem_state s') \<and> w' = w)"
  using commit_contract [OF assms(1-3), of s' rg] assms(4)
  by (cases rg) (auto simp: mem_admit_then_commit)

lemma mem_admit_contract:
  assumes "state_inv K (mem_state s)" "admissible K (mem_state s) ad" "sequences_left (mem_state s) ad"
    and admit: "mem_admit ad s = (s', rh)"
  shows "state_inv K (mem_state s') \<and> objects_kept (mem_state s) (mem_state s') \<and>
    (\<forall>h. rh = Ok h \<longrightarrow> (\<exists>d. admitted ad (mem_state s) (mem_state s') h d)) \<and>
    (\<not> is_ok rh \<longrightarrow> log_kept (mem_state s) (mem_state s'))"
proof -
  obtain g where "commit_admission ad s = (s', g)" "rh = res_bind g (\<lambda>g. Ok (ga_head g))"
    using admit by (auto simp: mem_admit_commit)
  then show ?thesis
    using commit_contract [OF assms(1-3), of s' g] by (cases g) auto
qed

lemmas mem_contracts = mem_acquire_lease_state mem_admit_then_contract mem_admit_contract mem_put_datum_contract

definition mem_room :: "mem_inner \<Rightarrow> admission \<Rightarrow> bool" where
  "mem_room m ad \<longleftrightarrow> sequences_left (mem_state m) ad"

lemma mem_roomI: "length (st_entries (mem_state m)) + length entries \<le> 2 ^ 64 \<Longrightarrow> ad_entries ad = entries \<Longrightarrow> mem_room m ad"
  by (simp add: mem_room_def sequences_left_def)

interpretation mem: journal_backend K "memory_backend K" "mem_inv K" mem_state mem_room for K
  by unfold_locales
    (auto simp: mem_read_state_def mem_inv_def mem_get_datum_def mem_room_def dest: mem_contracts intro: objects_kept_contained)

section \<open>Redelivery\<close>

lemma state_inv_bget_entry:
  assumes "state_inv K s" and "e \<in> set (bvalues (st_entries s))"
  shows "bget (st_entries s) (en_sequence e) = Some e"
proof -
  obtain i where i: "i < length (bvalues (st_entries s))" "e = bvalues (st_entries s) ! i"
    using assms(2) by (auto simp: in_set_conv_nth)
  have len: "length (bvalues (st_entries s)) = length (st_entries s)" by (simp add: bvalues_def)
  have "i < 2 ^ 64"
    using i(1) len assms(1) by (simp add: state_inv_def)
  moreover have "en_sequence e = word_of_nat i"
    using assms(1) entry_chain_nth [of K "bcontains (st_objects s)" 0 None "bvalues (st_entries s)" i] i
    by (simp add: state_inv_def)
  ultimately show ?thesis
    using state_inv_bget [OF assms(1), of i] i len by simp
qed

lemma mem_insert_entries_objects: "st_objects (fst (mem_insert_entries es s)) = st_objects s"
  by (induction es s rule: mem_insert_entries.induct) (auto split: option.splits)

lemma state_inv_head_sequence:
  assumes "state_inv K s" and "st_head s = Some h"
  shows "st_entries s \<noteq> [] \<and> head_sequence h = word_of_nat (length (st_entries s) - 1)"
proof (cases "st_entries s" rule: rev_cases)
  case Nil
  then show ?thesis using assms by (simp add: state_inv_def computed_head_def blast_def)
next
  case (snoc xs x)
  then show ?thesis
    using assms entry_chain_nth [of K "bcontains (st_objects s)" 0 None "bvalues (st_entries s)" "length xs"]
    by (cases x) (auto simp: state_inv_def computed_head_def blast_def bvalues_def head_of_def nth_append)
qed

lemma batch_objects_again:
  "\<forall>ob\<in>set obs. object_verify K ob = Ok () \<and> bget a (jo_id ob) = Some (jo_bytes ob) \<Longrightarrow>
     \<exists>a'. res_fold (batch_object K) obs a = Ok a' \<and> (\<forall>k. bget a' k = bget a k)"
proof (induction obs arbitrary: a)
  case (Cons ob obs)
  let ?a = "binsert (jo_id ob) (jo_bytes ob) a"
  have step: "batch_object K ob a = Ok ?a" using Cons.prems by (simp add: batch_object_Ok)
  have same: "bget ?a k = bget a k" for k using Cons.prems by auto
  then obtain a' where "res_fold (batch_object K) obs ?a = Ok a'" "\<forall>k. bget a' k = bget ?a k"
    using Cons.IH [of ?a] Cons.prems by auto
  then show ?case using step same by auto
qed simp

text \<open>What was admitted passes the check again in the state it produced.\<close>

lemma commit_again:
  assumes inv: "state_inv K (mem_state m)" and ad: "admissible K (mem_state m) ad" "sequences_left (mem_state m) ad"
    and commit: "commit_admission ad m = (m', Ok g)" and new: "ga_disposition g = CommittedActionInvoked"
  shows "verify_batch K (mem_state m') (ad_expected ad) (ad_objects ad) (ad_entries ad) = Ok ()"
    and "commit_admission ad m' = (m', Ok \<lparr>ga_head = ga_head g, ga_disposition = AlreadyCommittedActionNotInvoked\<rparr>)"
proof -
  have at: "ad_fence ad = mem_fence m" "ad_expected ad = st_head (mem_state m)"
    using commit_off_head [OF _ commit inv] new by auto
  have post: "state_inv K (mem_state m')" "admitted ad (mem_state m) (mem_state m') (ga_head g) CommittedActionInvoked"
    "objects_kept (mem_state m) (mem_state m')"
    using commit_at_head [OF inv ad at commit] by simp_all
  have fence: "mem_fence m' = mem_fence m" and objs: "\<forall>ob\<in>set (ad_objects ad). bget (st_objects (mem_state m')) (jo_id ob) = Some (jo_bytes ob)"
  proof -
    obtain s1 r1 where ins: "mem_insert_objects (ad_objects ad) (mem_state m) = (s1, r1)"
      by (cases "mem_insert_objects (ad_objects ad) (mem_state m)")
    obtain s2 r2 where es: "mem_insert_entries (ad_entries ad) s1 = (s2, r2)"
      by (cases "mem_insert_entries (ad_entries ad) s1")
    have "list_all (object_sound K) (ad_objects ad)" "objects_inv K (mem_state m)"
      using ad(1) inv by (simp_all add: admissible_def state_inv_def)
    note obs = mem_insert_objects_inv [OF ins this(2,1)]
    have "st_objects s2 = st_objects s1"
      using mem_insert_entries_objects [of "ad_entries ad" s1] es by simp
    then show "\<forall>ob\<in>set (ad_objects ad). bget (st_objects (mem_state m')) (jo_id ob) = Some (jo_bytes ob)"
      using obs commit at ins es by (auto simp: commit_admission_def Let_def split: res.splits option.splits)
    show "mem_fence m' = mem_fence m"
      using commit at by (auto simp: commit_admission_def Let_def split: res.splits option.splits prod.splits if_splits)
  qed
  have entries: "\<forall>e\<in>set (ad_entries ad). bget (st_entries (mem_state m')) (en_sequence e) = Some e"
    using post by (auto intro: state_inv_bget_entry)
  show "verify_batch K (mem_state m') (ad_expected ad) (ad_objects ad) (ad_entries ad) = Ok ()"
  proof -
    obtain a where a: "res_fold (batch_object K) (ad_objects ad) (st_objects (mem_state m')) = Ok a"
      and same: "\<And>k. bget a k = bget (st_objects (mem_state m')) k"
      using batch_objects_again [of "ad_objects ad" K "st_objects (mem_state m')"] objs ad(1)
      by (auto simp: admissible_def list_all_iff object_sound_def)
    have "entry_chain K (\<lambda>p. bcontains (st_objects (mem_state m)) p \<or> p \<in> jo_id ` set (ad_objects ad))
        (unat (next_sequence (ad_expected ad))) (map_option head_entry (ad_expected ad)) (ad_entries ad)"
      using ad(1) by (simp add: admissible_def)
    then have "entry_chain K (bcontains a) (unat (next_sequence (ad_expected ad)))
        (map_option head_entry (ad_expected ad)) (ad_entries ad)"
      by (rule entry_chain_mono) (use objs post(3) in \<open>auto simp: bcontains_def same dest: objects_kept_contains [unfolded bcontains_def]\<close>)
    then have "batch_entries K (mem_state m') a (word_of_nat (unat (next_sequence (ad_expected ad))))
        (map_option head_entry (ad_expected ad)) (ad_entries ad) = Ok ()"
      using entries by (simp only: batch_entries_Ok) simp
    with a show ?thesis
      by (simp add: verify_batch_def Let_def next_sequence_def)
  qed
  have "ad_expected ad \<noteq> st_head (mem_state m')"
  proof
    assume eq: "ad_expected ad = st_head (mem_state m')"
    let ?n = "length (st_entries (mem_state m))" and ?n' = "length (st_entries (mem_state m'))"
    have n': "?n' = ?n + length (ad_entries ad)" "ad_entries ad \<noteq> []" "?n' \<le> 2 ^ 64"
    proof -
      have "bvalues (st_entries (mem_state m')) = bvalues (st_entries (mem_state m)) @ ad_entries ad"
        using post(2) by simp
      from arg_cong [where f = length, OF this] show "?n' = ?n + length (ad_entries ad)"
        by (simp add: bvalues_def)
      show "ad_entries ad \<noteq> []" using ad(1) by (simp add: admissible_def)
      show "?n' \<le> 2 ^ 64" using post(1) by (simp add: state_inv_def)
    qed
    have m: "head_sequence (ga_head g) = word_of_nat (?n - 1)" "?n \<noteq> 0"
      using state_inv_head_sequence [OF inv] eq at(2) post(2) by simp_all
    have m': "head_sequence (ga_head g) = word_of_nat (?n' - 1)"
      using state_inv_head_sequence [OF post(1)] post(2) by simp
    have bounds: "?n - 1 < 2 ^ 64" "?n' - 1 < 2 ^ 64" using n' m(2) by simp_all
    have "?n - 1 = ?n' - 1"
      by (rule word_of_nat_inj [OF trans [OF m(1) [symmetric] m'] bounds])
    moreover have "length (ad_entries ad) \<noteq> 0" using n'(2) by simp
    ultimately show False using n'(1) m(2) by linarith
  qed
  then show "commit_admission ad m' = (m', Ok \<lparr>ga_head = ga_head g, ga_disposition = AlreadyCommittedActionNotInvoked\<rparr>)"
    using at(1) fence entries ad(1) post(2) by (auto simp: commit_admission_def Let_def list_all_iff admissible_def)
qed

section \<open>Properties\<close>

text \<open>
  \<open>mem_reachable K m w P\<close>: the memory backend reaches \<open>m\<close> under some interleaving of writers, with
  world \<open>w\<close> and verified admissions \<open>P\<close>.
\<close>

definition mem_reachable :: "kernel \<Rightarrow> mem_inner \<Rightarrow> 'w \<Rightarrow> admission list \<Rightarrow> bool" where
  "mem_reachable K m w P \<longleftrightarrow> (\<exists>w0. (journal_step K (memory_backend K) mem_room)\<^sup>*\<^sup>* (mem_new, w0, []) (m, w, P))"

lemma mem_new_inv: "mem_inv K mem_new"
  by (simp add: mem_inv_def mem_new_def state_inv_empty)

lemma mem_reachable_config:
  "mem_reachable K m w P \<Longrightarrow> kernel_content_law K \<Longrightarrow> mem.config_inv K (m, w, P)"
  using mem.reach_inv mem_new_inv unfolding mem_reachable_def mem.config_inv_def
  by (metis fst_conv list.pred_inject(1) snd_conv)

lemma mem_reachable_inv: "mem_reachable K m w P \<Longrightarrow> kernel_content_law K \<Longrightarrow> mem_inv K m"
  using mem_reachable_config by (fastforce simp: mem.config_inv_def)

lemma mem_reachable_new: "mem_reachable K mem_new w []"
  by (auto simp: mem_reachable_def)

text \<open>A sample run: a lease, then one entry without payloads.\<close>

definition sample_mem1 :: mem_inner where
  "sample_mem1 = \<lparr>mem_fence = 1, mem_state = empty_state\<rparr>"

definition sample_mem2 :: mem_inner where
  "sample_mem2 = \<lparr>mem_fence = 1, mem_state = sample_state\<rparr>"

definition sample_admission :: admission where
  "sample_admission = \<lparr>ad_fence = 1, ad_expected = None, ad_objects = [], ad_entries = [sample_entry]\<rparr>"

abbreviation sample_backend :: "(mem_inner, nat) backend" where
  "sample_backend \<equiv> memory_backend sample_kernel"

lemma sample_lease: "mem_acquire_lease mem_new = (sample_mem1, Ok \<lparr>lease_fence = 1\<rparr>)"
  by (simp add: mem_acquire_lease_def mem_new_def sample_mem1_def checked_add_u64_def)

lemma sample_entry_id: "canonical_id sample_kernel sample_entry = Ok (en_id sample_entry)"
  and sample_entry_fields: "en_sequence sample_entry = 0" "en_previous sample_entry = None" "en_payloads sample_entry = []"
  by (simp_all add: sample_entry_def Let_def canonical_id_def sample_kernel_def canonical_datum_def)

lemma sample_admitted:
  "verified_admission sample_kernel sample_backend \<lparr>lease_fence = 1\<rparr> None [] [sample_entry] sample_mem1 = Ok sample_admission"
  by (simp add: verified_admission_def mem_read_state_def sample_mem1_def state_inv_verified state_inv_empty
      verify_batch_def Let_def sample_entry_id sample_entry_fields empty_state_def [symmetric] sample_admission_def)
    (simp add: empty_state_def)

lemma sample_commit:
  "commit_admission sample_admission sample_mem1 =
     (sample_mem2, Ok \<lparr>ga_head = head_of sample_entry, ga_disposition = CommittedActionInvoked\<rparr>)"
  by (simp add: commit_admission_def sample_admission_def sample_mem1_def sample_mem2_def empty_state_def
      sample_state_def sample_entry_fields blast_def)

lemma sample_publish_then:
  "publish_then sample_kernel (memory_backend sample_kernel) \<lparr>lease_fence = 1\<rparr> None [] [sample_entry] Suc (sample_mem1, 5) =
     ((sample_mem2, 6), Ok \<lparr>ga_head = head_of sample_entry, ga_disposition = CommittedActionInvoked\<rparr>)"
  by (simp add: publish_then_def sample_admitted mem_admit_then_def sample_commit)

lemma sample_publish:
  "publish sample_kernel sample_backend \<lparr>lease_fence = 1\<rparr> None [] [sample_entry] sample_mem1 =
     (sample_mem2, Ok (head_of sample_entry))"
  by (simp add: publish_def sample_admitted mem_admit_def mem_admit_then_def sample_commit)

lemma sample_reachable: "mem_reachable sample_kernel sample_mem1 (5 :: nat) []"
  unfolding mem_reachable_def
  by (rule exI, rule r_into_rtranclp, rule js_lease) (simp add: sample_lease)

lemma sample_steps:
  "(journal_step sample_kernel sample_backend mem_room)\<^sup>*\<^sup>* (sample_mem1, 5, []) (sample_mem2, 5, [sample_admission])"
proof -
  have "journal_step sample_kernel sample_backend mem_room (sample_mem1, 5, []) (sample_mem1, 5, [sample_admission])"
    by (rule js_prepare [OF sample_admitted]) simp
  moreover have "journal_step sample_kernel sample_backend mem_room (sample_mem1, 5, [sample_admission]) (sample_mem2, 5, [sample_admission])"
    by (rule js_commit [where ad = sample_admission and rh = "Ok (head_of sample_entry)"])
      (simp_all add: mem_room_def sample_mem1_def sequences_left_def empty_state_def sample_admission_def
        mem_admit_def mem_admit_then_def
        sample_commit [unfolded sample_mem1_def empty_state_def sample_admission_def])
  ultimately show ?thesis by simp
qed

text \<open>C5: under every interleaving of writers over the memory backend the stored journal verifies, and
  every later read extends every earlier one; a batch verified against an old state can do no harm.\<close>

theorem memory_journal_safe:
  assumes "mem_reachable K m w P" and "(journal_step K (memory_backend K) mem_room)\<^sup>*\<^sup>* (m, w, P) (m', w', P')"
    and "kernel_content_law K"
  shows "\<exists>v v'. journal_verify K (memory_backend K :: (mem_inner, 'w) backend) m = Ok v \<and>
     journal_verify K (memory_backend K :: (mem_inner, 'w) backend) m' = Ok v' \<and>
     prefix (vf_entries v) (vf_entries v')"
proof -
  note c = mem_reachable_config [OF assms(1,3)]
  note r = mem.reach_inv [OF assms(2) c assms(3)]
  have "mem_inv K m" "mem_inv K m'" using c r by (simp_all add: mem.config_inv_def)
  then show ?thesis using r by (simp add: mem.verify_correct state_verification_def)
qed

theorem memory_journal_safe_witness:
  "\<exists>v v'. journal_verify sample_kernel sample_backend sample_mem1 = Ok v \<and>
     journal_verify sample_kernel sample_backend sample_mem2 = Ok v' \<and>
     prefix (vf_entries v) (vf_entries v')"
  by (rule memory_journal_safe [OF sample_reachable sample_steps sample_kernel_laws(1)])

text \<open>a publication over the memory backend is atomic: it returns the new head and the entries are in
  the log, or it fails and neither log nor head has changed.\<close>

theorem memory_publish_atomic:
  assumes "mem_reachable K m w P" and "kernel_content_law K"
    and "list_all (\<lambda>ob. length (jo_bytes ob) < usize_bound) objects"
    and "length (st_entries (mem_state m)) + length entries \<le> 2 ^ 64"
    and "publish K (memory_backend K :: (mem_inner, 'w) backend) l expected objects entries m = (m', r)"
  shows "case r of
      Ok h \<Rightarrow> journal_head_op K (memory_backend K :: (mem_inner, 'w) backend) m' = Ok (Some h) \<and>
              set entries \<subseteq> set (bvalues (st_entries (mem_state m'))) \<and>
              prefix (bvalues (st_entries (mem_state m))) (bvalues (st_entries (mem_state m')))
    | _ \<Rightarrow> st_entries (mem_state m') = st_entries (mem_state m) \<and> st_head (mem_state m') = st_head (mem_state m)"
proof -
  note inv = mem_reachable_inv [OF assms(1,2)]
  note pub = mem.publish_inv [OF inv assms(2,3) mem_roomI [OF assms(4)] assms(5)]
  show ?thesis
    using pub by (cases r) (auto simp: log_kept_def mem.head_correct)
qed

theorem memory_publish_atomic_witness:
  "journal_head_op sample_kernel sample_backend sample_mem2 = Ok (Some (head_of sample_entry)) \<and>
   sample_entry \<in> set (bvalues (st_entries (mem_state sample_mem2)))"
  using memory_publish_atomic [OF sample_reachable sample_kernel_laws(1) _ _ sample_publish]
  by (simp add: sample_mem1_def empty_state_def)

text \<open>C6: the continuation of a guarded publication runs exactly when this call committed a new batch on
  the expected head; on redelivery and on every error it does not run and the log is unchanged.\<close>

theorem memory_action_iff_committed:
  assumes "mem_reachable K m w P" and "kernel_content_law K"
    and "list_all (\<lambda>ob. length (jo_bytes ob) < usize_bound) objects"
    and "length (st_entries (mem_state m)) + length entries \<le> 2 ^ 64"
    and "publish_then K (memory_backend K) l expected objects entries (\<lambda>n :: nat. Suc n) (m, n) = ((m', n'), r)"
  shows "n' = (if (\<exists>g. r = Ok g \<and> ga_disposition g = CommittedActionInvoked) then Suc n else n) \<and>
     bvalues (st_entries (mem_state m')) = bvalues (st_entries (mem_state m)) @ (if n' = Suc n then entries else []) \<and>
     (n' = Suc n \<longrightarrow> st_head (mem_state m) = expected)"
  using mem.publish_then_action [OF mem_reachable_inv [OF assms(1,2)] assms(2,3) mem_roomI [OF assms(4)] assms(5)]
  by (auto simp: log_kept_def)

theorem memory_action_iff_committed_witness:
  "bvalues (st_entries (mem_state sample_mem2)) = bvalues (st_entries (mem_state sample_mem1)) @ [sample_entry]"
  using memory_action_iff_committed [OF sample_reachable sample_kernel_laws(1) _ _ sample_publish_then]
  by (simp add: sample_mem1_def empty_state_def)

text \<open>a caller that lost the acknowledgement and delivers the same batch again gets the same head,
  changes nothing and does not run the continuation a second time.\<close>

theorem memory_redelivery:
  assumes "mem_reachable K m w0 P" and "kernel_content_law K"
    and "list_all (\<lambda>ob. length (jo_bytes ob) < usize_bound) objects"
    and "length (st_entries (mem_state m)) + length entries \<le> 2 ^ 64"
    and pub: "publish_then K (memory_backend K) l expected objects entries (act :: 'w \<Rightarrow> 'w) (m, w) = ((m', w'), Ok g)"
  shows "publish_then K (memory_backend K) l expected objects entries act (m', w') =
     ((m', w'), Ok \<lparr>ga_head = ga_head g, ga_disposition = AlreadyCommittedActionNotInvoked\<rparr>)"
proof -
  note inv = mem_reachable_inv [OF assms(1,2)]
  have st: "state_inv K (mem_state m)" using inv by (simp add: mem_inv_def)
  obtain ad where ad: "verified_admission K (memory_backend K :: (mem_inner, 'w) backend) l expected objects entries m = Ok ad"
    using pub by (auto simp: publish_then_def split: res.splits)
  note adm = mem.publish_admits [OF inv assms(2,3) ad]
  have ad_def: "ad = \<lparr>ad_fence = lease_fence l, ad_expected = expected, ad_objects = objects, ad_entries = entries\<rparr>"
    and ne: "entries \<noteq> []"
    using ad by (auto simp: verified_admission_def res_simps split: if_splits)
  have left: "sequences_left (mem_state m) ad" using assms(4) adm(2) by (simp add: sequences_left_def)
  have commit: "commit_admission ad m = (m', Ok g)"
    and w': "w' = (if ga_disposition g = CommittedActionInvoked then act w else w)"
    using pub ad by (auto simp: publish_then_def mem_admit_then_commit)
  show ?thesis
  proof (cases "ga_disposition g")
    case CommittedActionInvoked
    note again = commit_again [OF st adm(1) left commit CommittedActionInvoked]
    have "state_inv K (mem_state m')"
      using commit_contract [OF st adm(1) left commit] by simp
    then have "verified_admission K (memory_backend K :: (mem_inner, 'w) backend) l expected objects entries m' = Ok ad"
      using again(1) ne by (simp add: verified_admission_def mem_read_state_def state_inv_verified ad_def)
    then show ?thesis
      using again(2) by (simp add: publish_then_def mem_admit_then_def)
  next
    case AlreadyCommittedActionNotInvoked
    have "m' = m"
      using commit_off_head [OF _ commit st] commit_at_head [OF st adm(1) left _ _ commit] AlreadyCommittedActionNotInvoked
      by fastforce
    then show ?thesis
      using pub w' AlreadyCommittedActionNotInvoked by (cases g) simp
  qed
qed

theorem memory_redelivery_witness:
  "publish_then sample_kernel (memory_backend sample_kernel) \<lparr>lease_fence = 1\<rparr> None [] [sample_entry] Suc (sample_mem2, 6) =
     ((sample_mem2, 6), Ok \<lparr>ga_head = head_of sample_entry, ga_disposition = AlreadyCommittedActionNotInvoked\<rparr>)"
  using memory_redelivery [OF sample_reachable sample_kernel_laws(1) _ _ sample_publish_then]
  by (simp add: sample_mem1_def empty_state_def)

text \<open>acquiring a lease fences off every older one: a holder of another fence can neither publish nor
  run a guarded action, and its attempt leaves the backend as it was.\<close>

theorem stale_lease_refused:
  assumes "mem_acquire_lease m = (m1, Ok l1)" and "lease_fence l \<noteq> lease_fence l1"
    and "publish_then K (memory_backend K) l expected objects entries (act :: 'w \<Rightarrow> 'w) (m1, w) = ((m2, w2), r)"
  shows "m2 = m1 \<and> w2 = w \<and> \<not> is_ok r"
proof -
  have f: "mem_fence m1 = lease_fence l1"
    using assms(1) by (auto simp: mem_acquire_lease_def split: option.splits)
  have "commit_admission ad m1 = (m1, Err StaleLease)"
    if "verified_admission K (memory_backend K :: (mem_inner, 'w) backend) l expected objects entries m1 = Ok ad" for ad
  proof -
    have "ad_fence ad = lease_fence l"
      using that by (auto simp: verified_admission_def res_simps split: if_splits)
    with f assms(2) show ?thesis by (simp add: commit_admission_def Let_def)
  qed
  then show ?thesis
    using assms(3)
    by (cases "verified_admission K (memory_backend K :: (mem_inner, 'w) backend) l expected objects entries m1")
      (auto simp: publish_then_def mem_admit_then_def)
qed

theorem stale_lease_refused_witness:
  "\<exists>m2 w2 r. publish_then sample_kernel (memory_backend sample_kernel) \<lparr>lease_fence = 0\<rparr> None [] [sample_entry] Suc
       (sample_mem1, 5) = ((m2, w2), r) \<and> m2 = sample_mem1 \<and> w2 = 5 \<and> \<not> is_ok r"
proof -
  obtain m2 w2 r where p: "publish_then sample_kernel (memory_backend sample_kernel) \<lparr>lease_fence = 0\<rparr> None []
      [sample_entry] Suc (sample_mem1, 5) = ((m2, w2), r)"
    by (metis prod.exhaust)
  from stale_lease_refused [OF sample_lease _ p] p show ?thesis by simp
qed

text \<open>a value put into the semantic store over the memory backend is returned by its meaning, with
  the same content id and the same byte projection.\<close>

theorem object_store_put_get:
  assumes "mem_reachable K m w P" and "kernel_content_law K"
    and "object_store_put K (memory_backend K :: (mem_inner, 'w) backend) d m = (m', Ok ref)"
  shows "content_id K d = Some (sr_meaning ref) \<and>
    (\<exists>d'. object_store_get K (memory_backend K :: (mem_inner, 'w) backend) (sr_meaning ref) m' = Ok d' \<and>
          content_id K d' = content_id K d \<and> object_bytes K d' = object_bytes K d)"
  by (rule mem.object_store_roundtrip [OF mem_reachable_inv [OF assms(1,2)] assms(3)])

theorem object_store_put_get_witness:
  "\<exists>m' ref d'. object_store_put sample_kernel sample_backend (DBool True) sample_mem1 = (m', Ok ref) \<and>
     object_store_get sample_kernel sample_backend (sr_meaning ref) m' = Ok d' \<and>
     content_id sample_kernel d' = content_id sample_kernel (DBool True)"
proof -
  obtain m' ref where p: "object_store_put sample_kernel sample_backend (DBool True) sample_mem1 = (m', Ok ref)"
    by (simp add: object_store_put_def object_from_datum_def sample_kernel_def encode_def mem_put_datum_def
        object_verify_def storage_bytes_def exact_bytes_def sample_mem1_def empty_state_def Let_def)
  from object_store_put_get [OF sample_reachable sample_kernel_laws(1) p] p show ?thesis by blast
qed

text \<open>a snapshot of a reachable journal resolves exactly the payloads that its entries retain, each
  to a stored value with that very content id.\<close>

theorem snapshot_closed:
  assumes "mem_reachable K m w P" and "kernel_content_law K"
  shows "\<exists>sn. verified_snapshot K (memory_backend K :: (mem_inner, 'w) backend) m = Ok sn \<and>
    sn_head sn = st_head (mem_state m) \<and> sn_entries sn = bvalues (st_entries (mem_state m)) \<and>
    (\<forall>i. snapshot_datum sn i =
       (if i \<in> (\<Union>e\<in>set (sn_entries sn). set (en_payloads e)) then bget (st_datums (mem_state m)) i else None)) \<and>
    (\<forall>e\<in>set (sn_entries sn). \<forall>i\<in>set (en_payloads e). \<exists>d. snapshot_datum sn i = Some d \<and> content_id K d = Some i)"
  by (rule mem.snapshot_correct [OF mem_reachable_inv [OF assms]])

theorem snapshot_closed_witness:
  "\<exists>sn. verified_snapshot sample_kernel sample_backend sample_mem1 = Ok sn \<and> sn_entries sn = []"
  using snapshot_closed [OF sample_reachable sample_kernel_laws(1)]
  by (auto simp: sample_mem1_def empty_state_def bvalues_def)

end
