(* ===== verification/Native_Codec.thy ===== *)
theory Native_Codec
  imports Journal_Backend
begin

text \<open>
  The physical format of the durable journal, \<open>crates/sim-lib-journal/src/native_codec.rs\<close>: the state
  envelope, the descriptor of the retained version 1 prefix, entry leaves, the version 1 forms, the
  keys and paths of the leaves. Writers thread the output buffer (\<open>put_*\<close>); readers thread the
  cursor (\<open>nc_*\<close>).
\<close>

section \<open>Types\<close>

record backend_capabilities =
  bc_linearizable_cas :: bool
  bc_durable_publish :: bool

datatype native_format_id = V1 | V2

datatype entry_namespace = EntryNamespace (ns_text: string)

record entry_location =
  el_namespace :: entry_namespace
  el_sequence :: u64
  el_entry :: cid
  el_storage :: cid

record native_prefix_ref =
  pr_entries :: u64
  pr_physical_head :: journal_head
  pr_canonical_head :: journal_head
  pr_descriptor :: cid

record native_envelope =
  ev_format :: native_format_id
  ev_fence :: u64
  ev_namespace :: entry_namespace
  ev_prefix :: "native_prefix_ref option"
  ev_head :: "journal_head option"
  ev_head_location :: "entry_location option"

datatype failpoint =
    BeforePrefixDescriptor
  | AfterPrefixDescriptor
  | AfterNamespaceReservation
  | BeforeFormatCas
  | AfterFormatCas
  | BeforeObjectPublish
  | AfterObjectPublish
  | AfterDurabilityReceipt
  | BeforeCas
  | AfterCas
  | BeforeAcknowledgement

fun failpoint_label :: "failpoint \<Rightarrow> string" where
  "failpoint_label BeforePrefixDescriptor = ''before-prefix-descriptor''"
| "failpoint_label AfterPrefixDescriptor = ''after-prefix-descriptor''"
| "failpoint_label AfterNamespaceReservation = ''after-namespace-reservation''"
| "failpoint_label BeforeFormatCas = ''before-format-cas''"
| "failpoint_label AfterFormatCas = ''after-format-cas''"
| "failpoint_label BeforeObjectPublish = ''before-object-publish''"
| "failpoint_label AfterObjectPublish = ''after-object-publish''"
| "failpoint_label AfterDurabilityReceipt = ''after-durability-receipt''"
| "failpoint_label BeforeCas = ''before-cas''"
| "failpoint_label AfterCas = ''after-cas''"
| "failpoint_label BeforeAcknowledgement = ''before-acknowledgement''"

record physical_entry =
  pe_entry :: journal_entry
  pe_previous_location :: "entry_location option"
  pe_payloads :: "stored_datum_ref list"

record v1_entry =
  v1_id :: cid
  v1_sequence :: u64
  v1_previous :: "cid option"
  v1_kind :: symbol
  v1_payloads :: "cid list"

section \<open>Writers\<close>

text \<open>The length of a text is written with \<open>as u32\<close>, which keeps the low 32 bits.\<close>

definition put_text :: "u8 list \<Rightarrow> string \<Rightarrow> u8 list" where
  "put_text out t = out @ u32_to_be (word_of_nat (length t)) @ as_bytes t"

definition put_id :: "kernel \<Rightarrow> u8 list \<Rightarrow> cid \<Rightarrow> u8 list" where
  "put_id K out i = put_text out (as_qualified_str K (cid_alg i)) @ cid_bytes i"

definition put_head :: "kernel \<Rightarrow> u8 list \<Rightarrow> journal_head \<Rightarrow> u8 list" where
  "put_head K out h = put_id K (out @ u64_to_be (head_sequence h)) (head_entry h)"

definition put_optional_head :: "kernel \<Rightarrow> u8 list \<Rightarrow> journal_head option \<Rightarrow> u8 list" where
  "put_optional_head K out h = (case h of Some h \<Rightarrow> put_head K (out @ [1]) h | None \<Rightarrow> out @ [0])"

definition put_optional_location :: "kernel \<Rightarrow> u8 list \<Rightarrow> entry_location option \<Rightarrow> u8 list" where
  "put_optional_location K out l =
     (case l of
        Some l \<Rightarrow>
          let out = put_text (out @ [1]) (ns_text (el_namespace l)) @ u64_to_be (el_sequence l);
              out = put_id K out (el_entry l)
          in put_id K out (el_storage l)
      | None \<Rightarrow> out @ [0])"

definition encode_envelope :: "kernel \<Rightarrow> native_envelope \<Rightarrow> u8 list" where
  "encode_envelope K v =
     (let out = as_bytes ''SIMJSTATE2'' @ u64_to_be (ev_fence v);
          out = put_text out (ns_text (ev_namespace v));
          out = (case ev_prefix v of
                   Some p \<Rightarrow>
                     let out = put_head K (out @ [1] @ u64_to_be (pr_entries p)) (pr_physical_head p);
                         out = put_head K out (pr_canonical_head p)
                     in put_id K out (pr_descriptor p)
                 | None \<Rightarrow> out @ [0]);
          out = put_optional_head K out (ev_head v)
      in put_optional_location K out (ev_head_location v))"

definition encode_descriptor :: "kernel \<Rightarrow> u8 list \<Rightarrow> journal_head \<Rightarrow> u8 list" where
  "encode_descriptor K old_state canonical_head =
     put_head K (as_bytes ''SIMJPREFIX1'' @ u64_to_be (word_of_nat (length old_state)) @ old_state) canonical_head"

fun put_references :: "kernel \<Rightarrow> u8 list \<Rightarrow> stored_datum_ref list \<Rightarrow> u8 list" where
  "put_references K out [] = out"
| "put_references K out (r # rs) = put_references K (put_id K (put_id K out (sr_meaning r)) (sr_storage r)) rs"

definition encode_v2_entry :: "kernel \<Rightarrow> physical_entry \<Rightarrow> (journal_error, u8 list) res" where
  "encode_v2_entry K v =
     res_bind (res_expect (encode K (canonical_datum (pe_entry v))) ''canonical entry datum encodes'') (\<lambda>datum.
     let out = as_bytes ''SIMJENTRY2'' @ u64_to_be (word_of_nat (length datum)) @ datum;
         out = put_optional_location K out (pe_previous_location v) @ u64_to_be (word_of_nat (length (pe_payloads v)))
     in Ok (put_references K out (pe_payloads v)))"

section \<open>Readers\<close>

definition parse_symbol :: "kernel \<Rightarrow> string \<Rightarrow> (journal_error, symbol) res" where
  "parse_symbol K t =
     (case split_once (CHR ''/'') t of
        Some (ns, name) \<Rightarrow>
          if ns \<noteq> [] \<and> name \<noteq> [] then Ok (sym_qualified ns name) else Err (CorruptState ''symbol'')
      | None \<Rightarrow> ok_or (symbol_checked K t) (CorruptState ''symbol''))"

abbreviation nc_take :: "nat \<Rightarrow> cursor \<Rightarrow> (journal_error, u8 list \<times> cursor) res" where
  "nc_take \<equiv> cursor_take ''length'' ''truncated''"

definition nc_byte :: "cursor \<Rightarrow> (journal_error, u8 \<times> cursor) res" where
  "nc_byte c = res_bind (nc_take 1 c) (\<lambda>(v, c). Ok (hd v, c))"

definition nc_u32 :: "cursor \<Rightarrow> (journal_error, u32 \<times> cursor) res" where
  "nc_u32 c = res_bind (nc_take 4 c) (\<lambda>(v, c). Ok (u32_from_be v, c))"

definition nc_u64 :: "cursor \<Rightarrow> (journal_error, u64 \<times> cursor) res" where
  "nc_u64 c = res_bind (nc_take 8 c) (\<lambda>(v, c). Ok (u64_from_be v, c))"

definition nc_text :: "cursor \<Rightarrow> (journal_error, string \<times> cursor) res" where
  "nc_text c = res_bind (nc_u32 c) (\<lambda>(len, c). res_bind (nc_take (unat len) c) (\<lambda>(bs, c).
     res_bind (ok_or (from_utf8 bs) (CorruptState ''utf8'')) (\<lambda>t. Ok (t, c))))"

definition nc_id :: "kernel \<Rightarrow> cursor \<Rightarrow> (journal_error, cid \<times> cursor) res" where
  "nc_id K c = res_bind (nc_text c) (\<lambda>(t, c). res_bind (parse_symbol K t) (\<lambda>algorithm.
     res_bind (nc_take 32 c) (\<lambda>(bytes, c). Ok (Cid algorithm bytes, c))))"

definition nc_head :: "kernel \<Rightarrow> cursor \<Rightarrow> (journal_error, journal_head \<times> cursor) res" where
  "nc_head K c = res_bind (nc_u64 c) (\<lambda>(sequence, c). res_bind (nc_id K c) (\<lambda>(entry, c).
     Ok (\<lparr>head_sequence = sequence, head_entry = entry\<rparr>, c)))"

definition nc_optional_head :: "kernel \<Rightarrow> cursor \<Rightarrow> (journal_error, journal_head option \<times> cursor) res" where
  "nc_optional_head K c = res_bind (nc_byte c) (\<lambda>(b, c).
     if b = 0 then Ok (None, c)
     else if b = 1 then res_bind (nc_head K c) (\<lambda>(h, c). Ok (Some h, c))
     else Err (CorruptState ''head tag''))"

definition nc_location :: "kernel \<Rightarrow> cursor \<Rightarrow> (journal_error, entry_location \<times> cursor) res" where
  "nc_location K c = res_bind (nc_text c) (\<lambda>(ns, c). res_bind (nc_u64 c) (\<lambda>(sequence, c).
     res_bind (nc_id K c) (\<lambda>(entry, c). res_bind (nc_id K c) (\<lambda>(storage, c).
     Ok (\<lparr>el_namespace = EntryNamespace ns, el_sequence = sequence, el_entry = entry, el_storage = storage\<rparr>, c)))))"

definition nc_optional_location :: "kernel \<Rightarrow> cursor \<Rightarrow> (journal_error, entry_location option \<times> cursor) res" where
  "nc_optional_location K c = res_bind (nc_byte c) (\<lambda>(b, c).
     if b = 0 then Ok (None, c)
     else if b = 1 then res_bind (nc_location K c) (\<lambda>(l, c). Ok (Some l, c))
     else Err (CorruptState ''location tag''))"

definition nc_end :: "cursor \<Rightarrow> (journal_error, unit) res" where
  "nc_end c = (if cur_at c = length (cur_bytes c) then Ok () else Err (CorruptState ''trailing bytes''))"

text \<open>\<open>Cursor::new\<close> and the magic at the start of every file.\<close>

definition nc_open :: "string \<Rightarrow> string \<Rightarrow> u8 list \<Rightarrow> (journal_error, cursor) res" where
  "nc_open magic message bytes =
     res_bind (nc_take (length magic) (new_cursor bytes)) (\<lambda>(v, c).
     if v \<noteq> as_bytes magic then Err (CorruptState message) else Ok c)"

definition nc_prefix :: "kernel \<Rightarrow> cursor \<Rightarrow> (journal_error, native_prefix_ref option \<times> cursor) res" where
  "nc_prefix K c = res_bind (nc_byte c) (\<lambda>(b, c).
     if b = 0 then Ok (None, c)
     else if b = 1 then
       res_bind (nc_u64 c) (\<lambda>(entries, c). res_bind (nc_head K c) (\<lambda>(ph, c). res_bind (nc_head K c) (\<lambda>(ch, c).
       res_bind (nc_id K c) (\<lambda>(d, c).
       Ok (Some \<lparr>pr_entries = entries, pr_physical_head = ph, pr_canonical_head = ch, pr_descriptor = d\<rparr>, c)))))
     else Err (CorruptState ''prefix tag''))"

definition nc_envelope :: "kernel \<Rightarrow> cursor \<Rightarrow> (journal_error, native_envelope \<times> cursor) res" where
  "nc_envelope K c = res_bind (nc_u64 c) (\<lambda>(fence, c). res_bind (nc_text c) (\<lambda>(ns, c).
     res_bind (nc_prefix K c) (\<lambda>(prefix, c). res_bind (nc_optional_head K c) (\<lambda>(head, c).
     res_bind (nc_optional_location K c) (\<lambda>(location, c).
     Ok (\<lparr>ev_format = V2, ev_fence = fence, ev_namespace = EntryNamespace ns, ev_prefix = prefix,
          ev_head = head, ev_head_location = location\<rparr>, c))))))"

definition decode_envelope :: "kernel \<Rightarrow> u8 list \<Rightarrow> (journal_error, native_envelope) res" where
  "decode_envelope K bytes =
     res_bind (nc_open ''SIMJSTATE2'' ''state format'' bytes) (\<lambda>c.
     res_bind (nc_envelope K c) (\<lambda>(v, c).
     res_bind (nc_end c) (\<lambda>_.
     if ev_prefix v = None \<and> ev_head v \<noteq> None \<and> ev_head_location v = None
     then Err (CorruptState ''head without locator'') else Ok v)))"

definition decode_descriptor :: "kernel \<Rightarrow> u8 list \<Rightarrow> (journal_error, u8 list \<times> journal_head) res" where
  "decode_descriptor K bytes =
     res_bind (nc_open ''SIMJPREFIX1'' ''prefix descriptor'' bytes) (\<lambda>c.
     res_bind (nc_u64 c) (\<lambda>(len, c). res_bind (nc_take (unat len) c) (\<lambda>(state, c).
     res_bind (nc_head K c) (\<lambda>(canonical_head, c).
     res_bind (nc_end c) (\<lambda>_. Ok (state, canonical_head))))))"

section \<open>Entries from their semantic value\<close>

definition node_field :: "(symbol \<times> datum) list \<Rightarrow> string \<Rightarrow> datum option" where
  "node_field fs name = map_option snd (find (\<lambda>(n, _). n = sym_new name) fs)"

definition id_from_datum :: "datum \<Rightarrow> (journal_error, cid) res" where
  "id_from_datum value =
     (case value of
        DNode tag fs \<Rightarrow>
          if tag \<noteq> sym_qualified ''journal'' ''content-id-v1'' \<or> length fs \<noteq> 2 then Err CorruptEntry
          else (case (node_field fs ''algorithm'', node_field fs ''digest'') of
                  (Some (DSymbol algorithm), Some (DBytes bytes)) \<Rightarrow>
                    if length bytes = 32 then Ok (Cid algorithm bytes) else Err CorruptEntry
                | _ \<Rightarrow> Err CorruptEntry)
      | _ \<Rightarrow> Err CorruptEntry)"

definition sequence_from_datum :: "datum \<Rightarrow> (journal_error, u64) res" where
  "sequence_from_datum value =
     (case value of
        DNumber domain canonical \<Rightarrow>
          if domain = sym_qualified ''numbers'' ''u64'' \<and>
             (case parse_u64 canonical of Some v \<Rightarrow> u64_to_string v = canonical | None \<Rightarrow> False)
          then ok_or (parse_u64 canonical) CorruptEntry else Err CorruptEntry
      | _ \<Rightarrow> Err CorruptEntry)"

definition entry_from_datum :: "kernel \<Rightarrow> datum \<Rightarrow> (journal_error, journal_entry) res" where
  "entry_from_datum K datum =
     res_bind (ok_or (content_id K datum) CorruptEntry) (\<lambda>i.
     case datum of
       DNode tag fs \<Rightarrow>
         if tag \<noteq> sym_qualified ''journal'' ''entry-v2'' \<or> length fs \<noteq> 4 then Err CorruptEntry
         else
           let field = (\<lambda>name. ok_or (node_field fs name) CorruptEntry) in
           res_bind (res_bind (field ''sequence'') sequence_from_datum) (\<lambda>sequence.
           res_bind (res_bind (field ''previous'') (\<lambda>v.
             case v of DNil \<Rightarrow> Ok None | _ \<Rightarrow> res_bind (id_from_datum v) (\<lambda>p. Ok (Some p)))) (\<lambda>previous.
           res_bind (res_bind (field ''kind'') (\<lambda>v. case v of DSymbol kind \<Rightarrow> Ok kind | _ \<Rightarrow> Err CorruptEntry)) (\<lambda>kind.
           res_bind (res_bind (field ''payloads'') (\<lambda>v.
             case v of DVector values \<Rightarrow> res_map id_from_datum values | _ \<Rightarrow> Err CorruptEntry)) (\<lambda>payloads.
           let entry = \<lparr>en_id = i, en_sequence = sequence, en_previous = previous, en_kind = kind,
                        en_payloads = payloads\<rparr> in
           res_bind (canonical_id K entry) (\<lambda>c. if c \<noteq> en_id entry then Err CorruptEntry else Ok entry)))))
     | _ \<Rightarrow> Err CorruptEntry)"

fun nc_references :: "kernel \<Rightarrow> nat \<Rightarrow> cursor \<Rightarrow> (journal_error, stored_datum_ref list \<times> cursor) res" where
  "nc_references K 0 c = Ok ([], c)"
| "nc_references K (Suc n) c =
     res_bind (nc_id K c) (\<lambda>(meaning, c). res_bind (nc_id K c) (\<lambda>(storage, c).
     res_bind (nc_references K n c) (\<lambda>(rs, c). Ok (\<lparr>sr_meaning = meaning, sr_storage = storage\<rparr> # rs, c))))"

definition decode_v2_entry :: "kernel \<Rightarrow> u8 list \<Rightarrow> (journal_error, physical_entry) res" where
  "decode_v2_entry K bytes =
     res_bind (nc_open ''SIMJENTRY2'' ''entry format'' bytes) (\<lambda>c.
     res_bind (nc_u64 c) (\<lambda>(datum_len, c). res_bind (nc_take (unat datum_len) c) (\<lambda>(encoded, c).
     res_bind (decode K encoded) (\<lambda>datum. res_bind (entry_from_datum K datum) (\<lambda>entry.
     res_bind (nc_optional_location K c) (\<lambda>(previous_location, c).
     res_bind (nc_u64 c) (\<lambda>(count, c).
     res_bind (vec_with_capacity (2 * size_of_cid K) (unat count)) (\<lambda>_.
     res_bind (nc_references K (unat count) c) (\<lambda>(payloads, c).
     res_bind (nc_end c) (\<lambda>_.
     Ok \<lparr>pe_entry = entry, pe_previous_location = previous_location, pe_payloads = payloads\<rparr>))))))))))"

section \<open>Version 1\<close>

definition decode_v1_state :: "kernel \<Rightarrow> u8 list \<Rightarrow> (journal_error, u64 \<times> journal_head option) res" where
  "decode_v1_state K bytes =
     res_bind (nc_open ''SIMJSTATE1'' ''state format'' bytes) (\<lambda>c.
     res_bind (nc_u64 c) (\<lambda>(fence, c). res_bind (nc_optional_head K c) (\<lambda>(head, c).
     res_bind (nc_end c) (\<lambda>_. Ok (fence, head)))))"

fun nc_ids :: "kernel \<Rightarrow> nat \<Rightarrow> cursor \<Rightarrow> (journal_error, cid list \<times> cursor) res" where
  "nc_ids K 0 c = Ok ([], c)"
| "nc_ids K (Suc n) c =
     res_bind (nc_id K c) (\<lambda>(i, c). res_bind (nc_ids K n c) (\<lambda>(is, c). Ok (i # is, c)))"

definition nc_optional_id :: "kernel \<Rightarrow> cursor \<Rightarrow> (journal_error, cid option \<times> cursor) res" where
  "nc_optional_id K c = res_bind (nc_byte c) (\<lambda>(b, c).
     if b = 0 then Ok (None, c)
     else if b = 1 then res_bind (nc_id K c) (\<lambda>(i, c). Ok (Some i, c))
     else Err (CorruptState ''entry tag''))"

definition decode_v1_entry :: "kernel \<Rightarrow> u8 list \<Rightarrow> (journal_error, v1_entry) res" where
  "decode_v1_entry K bytes =
     res_bind (nc_open ''SIMJENTRY1'' ''entry format'' bytes) (\<lambda>c.
     res_bind (nc_id K c) (\<lambda>(i, c). res_bind (nc_u64 c) (\<lambda>(sequence, c).
     res_bind (nc_optional_id K c) (\<lambda>(previous, c).
     res_bind (nc_text c) (\<lambda>(t, c). res_bind (parse_symbol K t) (\<lambda>kind.
     res_bind (nc_u32 c) (\<lambda>(count, c).
     res_bind (vec_with_capacity (size_of_cid K) (unat count)) (\<lambda>_.
     res_bind (nc_ids K (unat count) c) (\<lambda>(payloads, c).
     res_bind (nc_end c) (\<lambda>_.
     Ok \<lparr>v1_id = i, v1_sequence = sequence, v1_previous = previous, v1_kind = kind, v1_payloads = payloads\<rparr>))))))))))"

text \<open>The hash input of a version 1 entry; updating the hasher appends to the input.\<close>

definition put_v1_symbol_hash :: "kernel \<Rightarrow> u8 list \<Rightarrow> symbol \<Rightarrow> u8 list" where
  "put_v1_symbol_hash K h s =
     (let t = as_qualified_str K s in h @ u64_to_be (word_of_nat (length t)) @ as_bytes t)"

definition put_v1_id_hash :: "kernel \<Rightarrow> u8 list \<Rightarrow> cid \<Rightarrow> u8 list" where
  "put_v1_id_hash K h i = put_v1_symbol_hash K h (cid_alg i) @ cid_bytes i"

definition put_v1_optional_id_hash :: "kernel \<Rightarrow> u8 list \<Rightarrow> cid option \<Rightarrow> u8 list" where
  "put_v1_optional_id_hash K h i = (case i of Some i \<Rightarrow> put_v1_id_hash K (h @ [1]) i | None \<Rightarrow> h @ [0])"

definition v1_hash_input :: "kernel \<Rightarrow> v1_entry \<Rightarrow> u8 list" where
  "v1_hash_input K e =
     (let h = as_bytes ''sim-journal-entry-v1'' @ [0] @ u64_to_be (v1_sequence e);
          h = put_v1_symbol_hash K (put_v1_optional_id_hash K h (v1_previous e)) (v1_kind e);
          h = h @ u64_to_be (word_of_nat (length (v1_payloads e)))
      in foldl (put_v1_id_hash K) h (v1_payloads e))"

definition v1_canonical_id :: "kernel \<Rightarrow> v1_entry \<Rightarrow> cid" where
  "v1_canonical_id K e = Cid (sym_qualified ''journal'' ''sha256-entry-v1'') (sha256 K (v1_hash_input K e))"

definition v1_object_id :: "kernel \<Rightarrow> u8 list \<Rightarrow> cid" where
  "v1_object_id K bytes = Cid (sym_qualified ''journal'' ''sha256-bytes-v1'') (sha256 K bytes)"

section \<open>Keys and paths\<close>

definition hex :: "u8 list \<Rightarrow> string" where
  "hex bs = concat (map hex_byte bs)"

fun unhex_pairs :: "string \<Rightarrow> (journal_error, u8 list) res" where
  "unhex_pairs (a # b # r) =
     res_bind (ok_or (to_digit16 a) (CorruptState ''hex path'')) (\<lambda>high.
     res_bind (ok_or (to_digit16 b) (CorruptState ''hex path'')) (\<lambda>low.
     res_bind (unhex_pairs r) (\<lambda>bs. Ok (word_of_nat (high * 16 + low) # bs))))"
| "unhex_pairs _ = Ok []"

definition unhex :: "string \<Rightarrow> (journal_error, u8 list) res" where
  "unhex t = (if length t mod 2 \<noteq> 0 then Err (CorruptState ''hex path'') else unhex_pairs t)"

definition id_key :: "kernel \<Rightarrow> cid \<Rightarrow> string" where
  "id_key K i = hex (as_bytes (as_qualified_str K (cid_alg i))) @ ''-'' @ hex (cid_bytes i)"

definition parse_id_key :: "kernel \<Rightarrow> string \<Rightarrow> (journal_error, cid) res" where
  "parse_id_key K t =
     res_bind (ok_or (split_once (CHR ''-'') t) (CorruptState ''id path'')) (\<lambda>(algorithm, digest).
     res_bind (unhex algorithm) (\<lambda>bs.
     res_bind (ok_or (from_utf8 bs) (CorruptState ''id path utf8'')) (\<lambda>algorithm.
     res_bind (unhex digest) (\<lambda>bytes.
     if length bytes \<noteq> 32 then Err (CorruptState ''id path digest'')
     else res_bind (parse_symbol K algorithm) (\<lambda>s. Ok (Cid s bytes))))))"

text \<open>\<open>format!("{:016x}")\<close> of a \<open>u64\<close>: the hexadecimal digits of its eight bytes.\<close>

definition hex16 :: "u64 \<Rightarrow> string" where
  "hex16 x = hex (u64_to_be x)"

definition namespace_root :: "entry_namespace \<Rightarrow> string list" where
  "namespace_root ns = [''namespaces-v2'', ns_text ns]"

definition entry_path :: "kernel \<Rightarrow> entry_location \<Rightarrow> string list" where
  "entry_path K l =
     [''namespaces-v2'', ns_text (el_namespace l), ''entries'', hex16 (el_sequence l),
      id_key K (el_entry l), id_key K (el_storage l)]"

definition object_path :: "kernel \<Rightarrow> stored_datum_ref \<Rightarrow> string list" where
  "object_path K r = [''objects-v2'', id_key K (sr_meaning r), id_key K (sr_storage r)]"

definition descriptor_path :: "kernel \<Rightarrow> cid \<Rightarrow> string list" where
  "descriptor_path K i = [''compat-v1'', id_key K i]"

definition v1_entry_path :: "u64 \<Rightarrow> string list" where
  "v1_entry_path sequence = [''entries'', hex16 sequence]"

definition v1_object_path :: "cid \<Rightarrow> string list" where
  "v1_object_path i = [''objects'', hex (cid_bytes i)]"

section \<open>Round trip of the parts\<close>

text \<open>What the format can represent: texts below \<open>2 ^ 32\<close> bytes, symbols that parse back, 32-byte digests.\<close>

definition text_fits :: "string \<Rightarrow> bool" where
  "text_fits t \<longleftrightarrow> length t < 2 ^ 32 \<and> str_ok t"

definition native_symbol_ok :: "kernel \<Rightarrow> symbol \<Rightarrow> bool" where
  "native_symbol_ok K s \<longleftrightarrow> text_fits (as_qualified_str K s) \<and> parse_symbol K (as_qualified_str K s) = Ok s"

definition native_cid_ok :: "kernel \<Rightarrow> cid \<Rightarrow> bool" where
  "native_cid_ok K i \<longleftrightarrow> native_symbol_ok K (cid_alg i) \<and> length (cid_bytes i) = 32"

definition native_head_ok :: "kernel \<Rightarrow> journal_head \<Rightarrow> bool" where
  "native_head_ok K h \<longleftrightarrow> native_cid_ok K (head_entry h)"

definition native_location_ok :: "kernel \<Rightarrow> entry_location \<Rightarrow> bool" where
  "native_location_ok K l \<longleftrightarrow>
     text_fits (ns_text (el_namespace l)) \<and> native_cid_ok K (el_entry l) \<and> native_cid_ok K (el_storage l)"

definition native_prefix_ok :: "kernel \<Rightarrow> native_prefix_ref \<Rightarrow> bool" where
  "native_prefix_ok K p \<longleftrightarrow>
     native_head_ok K (pr_physical_head p) \<and> native_head_ok K (pr_canonical_head p) \<and> native_cid_ok K (pr_descriptor p)"

definition envelope_ok :: "kernel \<Rightarrow> native_envelope \<Rightarrow> bool" where
  "envelope_ok K v \<longleftrightarrow>
     ev_format v = V2 \<and> text_fits (ns_text (ev_namespace v)) \<and>
     pred_option (native_prefix_ok K) (ev_prefix v) \<and> pred_option (native_head_ok K) (ev_head v) \<and>
     pred_option (native_location_ok K) (ev_head_location v) \<and>
     \<not> (ev_prefix v = None \<and> ev_head v \<noteq> None \<and> ev_head_location v = None)"

text \<open>The symbols whose printed form is read back.\<close>

lemma native_symbol_okI:
  assumes "kernel_symbol_law K" and "text_fits (qualified_str s)"
    and "case sym_ns s of
           Some ns \<Rightarrow> ns \<noteq> [] \<and> CHR ''/'' \<notin> set ns \<and> sym_name s \<noteq> []
         | None \<Rightarrow> CHR ''/'' \<notin> set (sym_name s) \<and> symbol_checked K (sym_name s) \<noteq> None"
  shows "native_symbol_ok K s"
proof (cases s)
  have q: "as_qualified_str K s = qualified_str s"
    using assms(1) by (simp add: kernel_symbol_law_def)
  case (Symbol ns name)
  show ?thesis
  proof (cases ns)
    case None
    then obtain u where u: "symbol_checked K name = Some u" and "CHR ''/'' \<notin> set name"
      using assms(3) Symbol by auto
    then have "split_once (CHR ''/'') name = None" by (simp add: split_once_None)
    moreover have "u = sym_new name" using u assms(1) unfolding kernel_symbol_law_def by blast
    ultimately show ?thesis
      using q assms(2) Symbol None u by (simp add: native_symbol_ok_def qualified_str_def parse_symbol_def)
  next
    case (Some n)
    then show ?thesis
      using q assms(2,3) Symbol split_once_append [of "CHR ''/''" n name]
      by (simp add: native_symbol_ok_def qualified_str_def parse_symbol_def)
  qed
qed

text \<open>What each writer appends, and that the matching reader reads it back.\<close>

named_theorems put_eqs \<open>what the writers append\<close>

definition text_bytes :: "string \<Rightarrow> u8 list" where
  "text_bytes t = u32_to_be (word_of_nat (length t)) @ as_bytes t"

definition id_bytes :: "kernel \<Rightarrow> cid \<Rightarrow> u8 list" where
  "id_bytes K i = text_bytes (as_qualified_str K (cid_alg i)) @ cid_bytes i"

definition head_bytes :: "kernel \<Rightarrow> journal_head \<Rightarrow> u8 list" where
  "head_bytes K h = u64_to_be (head_sequence h) @ id_bytes K (head_entry h)"

definition location_bytes :: "kernel \<Rightarrow> entry_location \<Rightarrow> u8 list" where
  "location_bytes K l = text_bytes (ns_text (el_namespace l)) @ u64_to_be (el_sequence l) @
     id_bytes K (el_entry l) @ id_bytes K (el_storage l)"

definition option_bytes :: "('a \<Rightarrow> u8 list) \<Rightarrow> 'a option \<Rightarrow> u8 list" where
  "option_bytes f x = (case x of None \<Rightarrow> [0] | Some x \<Rightarrow> [1] @ f x)"

definition prefix_bytes :: "kernel \<Rightarrow> native_prefix_ref \<Rightarrow> u8 list" where
  "prefix_bytes K p = u64_to_be (pr_entries p) @ head_bytes K (pr_physical_head p) @
     head_bytes K (pr_canonical_head p) @ id_bytes K (pr_descriptor p)"

lemma put_text_eq [put_eqs]: "put_text out t = out @ text_bytes t"
  by (simp add: put_text_def text_bytes_def)

lemma put_id_eq [put_eqs]: "put_id K out i = out @ id_bytes K i"
  by (simp add: put_id_def id_bytes_def put_text_eq)

lemma put_head_eq [put_eqs]: "put_head K out h = out @ head_bytes K h"
  by (simp add: put_head_def head_bytes_def put_id_eq)

lemma put_optional_head_eq [put_eqs]: "put_optional_head K out h = out @ option_bytes (head_bytes K) h"
  by (simp add: put_optional_head_def option_bytes_def put_head_eq split: option.split)

lemma put_optional_location_eq [put_eqs]: "put_optional_location K out l = out @ option_bytes (location_bytes K) l"
  by (simp add: put_optional_location_def option_bytes_def location_bytes_def put_text_eq put_id_eq Let_def split: option.split)

lemma put_references_eq [put_eqs]:
  "put_references K out rs = out @ concat (map (\<lambda>r. id_bytes K (sr_meaning r) @ id_bytes K (sr_storage r)) rs)"
  by (induction rs arbitrary: out) (simp_all add: put_id_eq)

lemma encode_envelope_eq:
  "encode_envelope K v = as_bytes ''SIMJSTATE2'' @ u64_to_be (ev_fence v) @ text_bytes (ns_text (ev_namespace v)) @
     option_bytes (prefix_bytes K) (ev_prefix v) @ option_bytes (head_bytes K) (ev_head v) @
     option_bytes (location_bytes K) (ev_head_location v)"
  by (simp add: encode_envelope_def put_eqs Let_def option_bytes_def [of "prefix_bytes K"] prefix_bytes_def split: option.split)

named_theorems native_reads \<open>readers of the native format\<close>

lemma reads_nc_byte: "reads nc_byte [b] b"
  by (rule reads_cong [OF reads_map [OF reads_take]]) (simp_all add: nc_byte_def)

lemma reads_nc_u32: "reads nc_u32 (u32_to_be x) x"
  by (rule reads_cong [OF reads_map [OF reads_take]]) (simp_all add: nc_u32_def)

lemma reads_nc_u64 [native_reads]: "reads nc_u64 (u64_to_be x) x"
  by (rule reads_cong [OF reads_map [OF reads_take]]) (simp_all add: nc_u64_def)

lemma reads_check: "r = Ok x \<Longrightarrow> reads (q x) e v \<Longrightarrow> reads (\<lambda>c. res_bind r (\<lambda>x. q x c)) e v"
  by (simp add: reads_def)

lemma reads_last: "reads p e v \<Longrightarrow> q v = w \<Longrightarrow> reads (\<lambda>c. res_bind (p c) (\<lambda>(v, c). Ok (q v, c))) e w"
  by (rule reads_map)

lemma reads_nc_text [native_reads]:
  assumes "text_fits t"
  shows "reads nc_text (text_bytes t) t"
proof -
  have len: "unat (word_of_nat (length t) :: u32) = length t"
    using assms by (simp add: text_fits_def unat_of_nat)
  have "reads (\<lambda>c. res_bind (nc_take (length t) c) (\<lambda>(bs, c).
      res_bind (ok_or (from_utf8 bs) (CorruptState ''utf8'')) (\<lambda>t. Ok (t, c)))) (as_bytes t @ []) t"
    using assms by (intro reads_bind [OF reads_take] reads_check [where x = t])
      (simp_all add: text_fits_def from_utf8_as_bytes reads_return)
  then show ?thesis
    unfolding nc_text_def [abs_def] text_bytes_def
    by (intro reads_bind [OF reads_nc_u32]) (simp add: len)
qed

lemma reads_nc_id [native_reads]:
  assumes "native_cid_ok K i"
  shows "reads (nc_id K) (id_bytes K i) i"
  unfolding nc_id_def [abs_def] id_bytes_def
  using assms
  by (intro reads_bind [OF reads_nc_text] reads_check [where x = "cid_alg i"] reads_map [OF reads_take])
    (simp_all add: native_cid_ok_def native_symbol_ok_def)

lemma reads_nc_head [native_reads]:
  "native_head_ok K h \<Longrightarrow> reads (nc_head K) (head_bytes K h) h"
  unfolding nc_head_def [abs_def] head_bytes_def
  by (intro reads_bind [OF reads_nc_u64] reads_map [OF reads_nc_id]) (simp_all add: native_head_ok_def)

lemma reads_nc_location [native_reads]:
  "native_location_ok K l \<Longrightarrow> reads (nc_location K) (location_bytes K l) l"
  unfolding nc_location_def [abs_def] location_bytes_def
  by (intro reads_bind [OF reads_nc_text] reads_bind [OF reads_nc_u64] reads_bind [OF reads_nc_id] reads_map [OF reads_nc_id])
    (simp_all add: native_location_ok_def)

text \<open>The three optional fields have the same tagged form.\<close>

lemma reads_option:
  assumes "\<And>c. p c = res_bind (nc_byte c) (\<lambda>(b, c). if b = 0 then Ok (None, c)
      else if b = 1 then res_bind (q c) (\<lambda>(x, c). Ok (Some x, c)) else Err e)"
    and "\<And>y. x = Some y \<Longrightarrow> reads q (f y) y"
  shows "reads p (option_bytes f x) x"
proof (cases x)
  case None
  have "reads (\<lambda>c. res_bind (nc_byte c) (\<lambda>(b, c). if b = 0 then Ok (None, c)
      else if b = 1 then res_bind (q c) (\<lambda>(x, c). Ok (Some x, c)) else Err e)) ([0] @ []) x"
    unfolding None by (rule reads_bind [OF reads_nc_byte]) (simp add: reads_return)
  then show ?thesis using None by (intro reads_cong [OF _ assms(1) [symmetric]]) (simp add: option_bytes_def)
next
  case (Some y)
  have "reads (\<lambda>c. res_bind (nc_byte c) (\<lambda>(b, c). if b = 0 then Ok (None, c)
      else if b = 1 then res_bind (q c) (\<lambda>(x, c). Ok (Some x, c)) else Err e)) ([1] @ f y) x"
    unfolding Some by (rule reads_bind [OF reads_nc_byte]) (simp add: reads_map [OF assms(2) [OF Some]])
  then show ?thesis using Some by (intro reads_cong [OF _ assms(1) [symmetric]]) (simp add: option_bytes_def)
qed

lemma reads_nc_optional_head [native_reads]:
  "pred_option (native_head_ok K) h \<Longrightarrow> reads (nc_optional_head K) (option_bytes (head_bytes K) h) h"
  by (rule reads_option [OF nc_optional_head_def]) (simp add: reads_nc_head)

lemma reads_nc_optional_location [native_reads]:
  "pred_option (native_location_ok K) l \<Longrightarrow> reads (nc_optional_location K) (option_bytes (location_bytes K) l) l"
  by (rule reads_option [OF nc_optional_location_def]) (simp add: reads_nc_location)

lemma reads_nc_prefix_ref:
  "native_prefix_ok K p \<Longrightarrow> reads (\<lambda>c. res_bind (nc_u64 c) (\<lambda>(entries, c). res_bind (nc_head K c) (\<lambda>(ph, c).
     res_bind (nc_head K c) (\<lambda>(ch, c). res_bind (nc_id K c) (\<lambda>(d, c).
       Ok (\<lparr>pr_entries = entries, pr_physical_head = ph, pr_canonical_head = ch, pr_descriptor = d\<rparr>, c))))))
     (prefix_bytes K p) p"
  unfolding prefix_bytes_def
  by (intro reads_bind [OF reads_nc_u64] reads_bind [OF reads_nc_head] reads_map [OF reads_nc_id])
    (simp_all add: native_prefix_ok_def)

lemma reads_nc_prefix [native_reads]:
  assumes "pred_option (native_prefix_ok K) p"
  shows "reads (nc_prefix K) (option_bytes (prefix_bytes K) p) p"
proof (rule reads_option [where e = "CorruptState ''prefix tag''"])
  show "reads (\<lambda>c. res_bind (nc_u64 c) (\<lambda>(entries, c). res_bind (nc_head K c) (\<lambda>(ph, c).
     res_bind (nc_head K c) (\<lambda>(ch, c). res_bind (nc_id K c) (\<lambda>(d, c).
       Ok (\<lparr>pr_entries = entries, pr_physical_head = ph, pr_canonical_head = ch, pr_descriptor = d\<rparr>, c))))))
     (prefix_bytes K y) y" if "p = Some y" for y
    using assms that by (simp add: reads_nc_prefix_ref)
qed (simp add: nc_prefix_def res_bind_assoc case_prod_unfold cong: if_cong)

lemma reads_nc_envelope:
  "envelope_ok K v \<Longrightarrow> reads (nc_envelope K)
     (u64_to_be (ev_fence v) @ text_bytes (ns_text (ev_namespace v)) @ option_bytes (prefix_bytes K) (ev_prefix v) @
      option_bytes (head_bytes K) (ev_head v) @ option_bytes (location_bytes K) (ev_head_location v)) v"
  unfolding nc_envelope_def [abs_def]
  by (intro reads_bind [OF reads_nc_u64] reads_bind [OF reads_nc_text] reads_bind [OF reads_nc_prefix]
      reads_bind [OF reads_nc_optional_head] reads_map [OF reads_nc_optional_location])
    (simp_all add: envelope_ok_def)

lemma nc_open_Ok:
  "length (as_bytes magic @ e) < usize_bound \<Longrightarrow>
     nc_open magic m (as_bytes magic @ e) = Ok \<lparr>cur_bytes = as_bytes magic @ e, cur_at = length magic\<rparr>"
  by (simp add: nc_open_def take_prefix)

lemma reads_rest:
  "reads p e v \<Longrightarrow> length (as_bytes magic @ e) < usize_bound \<Longrightarrow>
     p \<lparr>cur_bytes = as_bytes magic @ e, cur_at = length magic\<rparr> =
       Ok (v, \<lparr>cur_bytes = as_bytes magic @ e, cur_at = length (as_bytes magic @ e)\<rparr>)"
  using reads_at [of p e v "as_bytes magic" "length magic" "length (as_bytes magic @ e)" "[]"] by simp

text \<open>A decoder of one whole file: the magic, a reader, and the end of the buffer.\<close>

lemma whole_file:
  assumes "reads p e v" and "bytes = as_bytes magic @ e" and "length bytes < usize_bound"
  shows "res_bind (nc_open magic m bytes) (\<lambda>c. res_bind (p c) (\<lambda>(v, c). res_bind (nc_end c) (\<lambda>_. q v))) = q v"
  using nc_open_Ok [of magic e m] reads_rest [OF assms(1), of magic] assms(2,3) by (simp add: nc_end_def)

lemma decode_encode_descriptor:
  assumes "native_head_ok K h" and "length (encode_descriptor K st h) < usize_bound"
  shows "decode_descriptor K (encode_descriptor K st h) = Ok (st, h)"
proof -
  let ?p = "\<lambda>c. res_bind (nc_u64 c) (\<lambda>(len, c). res_bind (nc_take (unat len) c) (\<lambda>(state, c).
     res_bind (nc_head K c) (\<lambda>(h, c). Ok ((state, h), c))))"
  have eq: "encode_descriptor K st h =
      as_bytes ''SIMJPREFIX1'' @ u64_to_be (word_of_nat (length st)) @ st @ head_bytes K h"
    by (simp add: encode_descriptor_def put_eqs)
  have len: "unat (word_of_nat (length st) :: u64) = length st"
    using assms(2) by (intro word_of_nat_length) (simp add: eq usize_bound_def)
  have "reads ?p (u64_to_be (word_of_nat (length st)) @ st @ head_bytes K h) (st, h)"
    by (intro reads_bind [OF reads_nc_u64] reads_bind [OF reads_take] reads_map [OF reads_nc_head] assms(1))
      (simp_all add: len)
  from whole_file [OF this eq assms(2), where q = Ok and m = "''prefix descriptor''"] show ?thesis
    by (simp add: decode_descriptor_def res_bind_assoc case_prod_unfold)
qed

section \<open>Round trip of entries\<close>

lemma node_field_sort:
  assumes "distinct (map fst fs)" and "mset gs = mset fs"
  shows "node_field gs name = map_of fs (sym_new name)"
proof -
  have find: "map_option snd (find (\<lambda>(n, _). n = k) xs) = map_of xs k" for xs :: "(symbol \<times> datum) list" and k
    by (induction xs) auto
  have "distinct (map fst gs)"
    using assms by (metis mset_eq_imp_distinct_iff mset_map)
  then have "map_of gs = map_of fs"
    using assms by (metis map_of_eqI map_of_is_SomeI mset_eq_setD option.exhaust map_of_SomeD map_of_eq_None_iff set_map)
  then show ?thesis by (simp add: node_field_def find)
qed

lemma norm_id_datum [simp]: "norm_datum K (id_datum i) = id_datum i"
  by (simp add: id_datum_def sort_fields_def symbol_key_def)

lemma case_id_datum: "(case id_datum i of DNil \<Rightarrow> a | _ \<Rightarrow> b) = b"
  by (simp add: id_datum_def)

lemma id_from_id_datum: "length (cid_bytes i) = 32 \<Longrightarrow> id_from_datum (id_datum i) = Ok i"
  by (cases i) (simp add: id_from_datum_def id_datum_def node_field_def)

definition entry_ids_ok :: "journal_entry \<Rightarrow> bool" where
  "entry_ids_ok e \<longleftrightarrow> pred_option (\<lambda>i. length (cid_bytes i) = 32) (en_previous e) \<and>
     list_all (\<lambda>i. length (cid_bytes i) = 32) (en_payloads e)"

text \<open>An entry is rebuilt from any order of its fields.\<close>

lemma entry_from_canonical:
  assumes id: "canonical_id K e = Ok (en_id e)" and ids: "entry_ids_ok e" and K: "kernel_order_law K"
  shows "entry_from_datum K (norm_datum K (canonical_datum e)) = Ok e"
proof -
  obtain fs where fs: "canonical_datum e = DNode (sym_qualified ''journal'' ''entry-v2'') fs" "length fs = 4"
    and f: "fs = [(sym_new ''sequence'', DNumber (sym_qualified ''numbers'' ''u64'') (u64_to_string (en_sequence e))),
        (sym_new ''previous'', case en_previous e of None \<Rightarrow> DNil | Some p \<Rightarrow> id_datum p),
        (sym_new ''kind'', DSymbol (en_kind e)),
        (sym_new ''payloads'', DVector (map id_datum (en_payloads e)))]"
    by (simp add: canonical_datum_def)
  let ?h = "\<lambda>(n, v). (n, norm_datum K v)"
  let ?gs = "map ?h (sort_fields fs)"
  have fields: "node_field ?gs name = map_of (map ?h fs) (sym_new name)" for name
    by (rule node_field_sort) (simp_all add: f)
  have prev: "norm_datum K (case en_previous e of None \<Rightarrow> DNil | Some p \<Rightarrow> id_datum p) =
      (case en_previous e of None \<Rightarrow> DNil | Some p \<Rightarrow> id_datum p)"
    by (simp split: option.split)
  have pay: "res_map id_from_datum (map id_datum (en_payloads e)) = Ok (en_payloads e)"
    using ids by (induction "en_payloads e" arbitrary: e)
      (auto simp: res_map_Ok list_all2_conv_all_nth list_all_length id_from_id_datum entry_ids_ok_def)
  have parsed: "sequence_from_datum (DNumber (sym_qualified ''numbers'' ''u64'') (u64_to_string (en_sequence e))) = Ok (en_sequence e)"
      "(case (case en_previous e of None \<Rightarrow> DNil | Some p \<Rightarrow> id_datum p) of DNil \<Rightarrow> Ok None
        | _ \<Rightarrow> res_bind (id_from_datum (case en_previous e of None \<Rightarrow> DNil | Some p \<Rightarrow> id_datum p)) (\<lambda>p. Ok (Some p))) = Ok (en_previous e)"
    using ids by (auto simp: sequence_from_datum_def entry_ids_ok_def id_from_id_datum
        case_id_datum split: option.split)
  have "content_id K (norm_datum K (canonical_datum e)) = Some (en_id e)"
    using id K by (simp add: canonical_id_def kernel_order_law_def res_simps)
  moreover have same: "\<lparr>en_id = en_id e, en_sequence = en_sequence e, en_previous = en_previous e,
      en_kind = en_kind e, en_payloads = en_payloads e\<rparr> = e"
    by simp
  ultimately show ?thesis
    unfolding fs(1) norm_datum.simps entry_from_datum_def
    using id pay ids fs(2)
    by (simp add: fields Let_def) (simp add: f prev parsed comp_def same)
qed

text \<open>What a decoder accepts is self-verifying.\<close>

lemma entry_from_datum_sound:
  "entry_from_datum K d = Ok e \<Longrightarrow> content_id K d = Some (en_id e) \<and> canonical_id K e = Ok (en_id e)"
  by (cases d) (auto simp: entry_from_datum_def res_bind_Ok ok_or_Ok Let_def split: if_splits)

lemma reads_nc_references:
  "\<forall>r\<in>set rs. native_cid_ok K (sr_meaning r) \<and> native_cid_ok K (sr_storage r) \<Longrightarrow>
     reads (nc_references K (length rs)) (concat (map (\<lambda>r. id_bytes K (sr_meaning r) @ id_bytes K (sr_storage r)) rs)) rs"
proof (induction rs)
  case Nil
  then show ?case by (simp add: reads_def)
next
  case (Cons r rs)
  have "reads (nc_references K (length (r # rs)))
      (id_bytes K (sr_meaning r) @ id_bytes K (sr_storage r) @
        concat (map (\<lambda>r. id_bytes K (sr_meaning r) @ id_bytes K (sr_storage r)) rs)) (r # rs)"
    unfolding length_Cons nc_references.simps(2) [abs_def]
    using Cons by (intro reads_bind [OF reads_nc_id] reads_map [OF Cons.IH]) simp_all
  then show ?case by (simp only: list.map concat.simps append_assoc)
qed

definition physical_ok :: "kernel \<Rightarrow> physical_entry \<Rightarrow> bool" where
  "physical_ok K v \<longleftrightarrow>
     datum_ok K (canonical_datum (pe_entry v)) \<and> canonical_id K (pe_entry v) = Ok (en_id (pe_entry v)) \<and>
     entry_ids_ok (pe_entry v) \<and> pred_option (native_location_ok K) (pe_previous_location v) \<and>
     (\<forall>r\<in>set (pe_payloads v). native_cid_ok K (sr_meaning r) \<and> native_cid_ok K (sr_storage r)) \<and>
     length (pe_payloads v) * (2 * size_of_cid K) \<le> isize_max"

lemma decode_encode_v2_entry:
  assumes enc: "encode_v2_entry K v = Ok bytes" and ok: "physical_ok K v" and K: "kernel_order_law K"
    and len: "length bytes < usize_bound" "length (pe_payloads v) < 2 ^ 64"
  shows "decode_v2_entry K bytes = Ok v"
proof -
  obtain datum where datum: "encode K (canonical_datum (pe_entry v)) = Ok datum"
    and bytes: "bytes = as_bytes ''SIMJENTRY2'' @ u64_to_be (word_of_nat (length datum)) @ datum @
      option_bytes (location_bytes K) (pe_previous_location v) @ u64_to_be (word_of_nat (length (pe_payloads v))) @
      concat (map (\<lambda>r. id_bytes K (sr_meaning r) @ id_bytes K (sr_storage r)) (pe_payloads v))"
    using enc by (auto simp: encode_v2_entry_def res_simps put_eqs)
  have lens: "unat (word_of_nat (length datum) :: u64) = length datum"
      "unat (word_of_nat (length (pe_payloads v)) :: u64) = length (pe_payloads v)"
    using len by (simp_all add: word_of_nat_length bytes usize_bound_def)
  have "canonical_bytes K (norm_datum K (canonical_datum (pe_entry v))) \<noteq> None"
    using datum K by (auto simp: encode_def res_simps kernel_order_law_def)
  then have dec: "decode K datum = Ok (norm_datum K (canonical_datum (pe_entry v)))"
    using ok len by (intro decode_norm_enc [OF datum]) (simp_all add: physical_ok_def bytes)
  have entry: "entry_from_datum K (norm_datum K (canonical_datum (pe_entry v))) = Ok (pe_entry v)"
    using ok by (intro entry_from_canonical [OF _ _ K]) (simp_all add: physical_ok_def)
  have cap: "vec_with_capacity (2 * size_of_cid K) (length (pe_payloads v)) = (Ok () :: (journal_error, unit) res)"
    using ok by (simp add: physical_ok_def vec_with_capacity_def)
  let ?p = "\<lambda>c. res_bind (nc_u64 c) (\<lambda>(datum_len, c). res_bind (nc_take (unat datum_len) c) (\<lambda>(encoded, c).
     res_bind (decode K encoded) (\<lambda>datum. res_bind (entry_from_datum K datum) (\<lambda>entry.
     res_bind (nc_optional_location K c) (\<lambda>(previous_location, c). res_bind (nc_u64 c) (\<lambda>(count, c).
     res_bind (vec_with_capacity (2 * size_of_cid K) (unat count)) (\<lambda>_.
     res_bind (nc_references K (unat count) c) (\<lambda>(payloads, c).
     Ok (\<lparr>pe_entry = entry, pe_previous_location = previous_location, pe_payloads = payloads\<rparr>, c)))))))))"
  have "reads ?p (u64_to_be (word_of_nat (length datum)) @ datum @
      option_bytes (location_bytes K) (pe_previous_location v) @ u64_to_be (word_of_nat (length (pe_payloads v))) @
      concat (map (\<lambda>r. id_bytes K (sr_meaning r) @ id_bytes K (sr_storage r)) (pe_payloads v))) v"
    using ok
    by (intro reads_bind [OF reads_nc_u64] reads_bind [OF reads_take] reads_check [OF dec] reads_check [OF entry]
        reads_bind [OF reads_nc_optional_location] reads_check [where x = "()"])
      (simp_all add: lens cap physical_ok_def reads_map [OF reads_nc_references])
  from whole_file [OF this bytes len(1), where q = Ok and m = "''entry format''"] show ?thesis
    by (simp add: decode_v2_entry_def res_bind_assoc case_prod_unfold)
qed

section \<open>Keys\<close>

lemma hex_Cons: "hex (b # bs) = hex_digit (unat b div 16) # hex_digit (unat b mod 16) # hex bs"
  by (simp add: hex_def hex_byte_def)

lemma length_hex: "length (hex bs) = 2 * length bs"
  by (induction bs) (simp_all add: hex_def hex_byte_def)

lemma unhex_pairs_hex: "unhex_pairs (hex bs) = Ok bs"
proof (induction bs)
  case Nil
  then show ?case by (simp add: hex_def)
next
  case (Cons b bs)
  have "unat b < 256" by (rule unat_u8_bound)
  then have "unat b div 16 < 16" by (simp add: div_less_iff_less_mult)
  moreover have "word_of_nat (unat b div 16 * 16 + unat b mod 16) = b" by simp
  ultimately show ?case
    using Cons by (simp add: hex_Cons to_digit16_hex_digit del: of_nat_add of_nat_mult)
qed

lemma unhex_hex: "unhex (hex bs) = Ok bs"
  by (simp add: unhex_def length_hex unhex_pairs_hex)

lemma hex_inj: "hex as = hex bs \<longleftrightarrow> as = bs"
  by (metis res.inject(1) unhex_hex)

lemma hex_digit_not_dash: "d < 16 \<Longrightarrow> hex_digit d \<noteq> CHR ''-''"
proof
  assume "d < 16" and "hex_digit d = CHR ''-''"
  then have "to_digit16 (CHR ''-'') = Some d" by (metis to_digit16_hex_digit)
  then show False by (simp add: to_digit16_def)
qed

lemma hex_no_dash: "CHR ''-'' \<notin> set (hex bs)"
proof (induction bs)
  case Nil
  then show ?case by (simp add: hex_def)
next
  case (Cons b bs)
  have "unat b < 256" by (rule unat_u8_bound)
  then have "unat b div 16 < 16" by (simp add: div_less_iff_less_mult)
  then show ?case
    using Cons hex_digit_not_dash [of "unat b div 16"] hex_digit_not_dash [of "unat b mod 16"] by (auto simp: hex_Cons)
qed

lemma parse_id_key_of_id_key:
  assumes "native_cid_ok K i"
  shows "parse_id_key K (id_key K i) = Ok i"
proof -
  have "split_once (CHR ''-'') (id_key K i) = Some (hex (as_bytes (as_qualified_str K (cid_alg i))), hex (cid_bytes i))"
    by (simp add: id_key_def split_once_append hex_no_dash)
  then show ?thesis
    using assms by (simp add: parse_id_key_def unhex_hex native_cid_ok_def native_symbol_ok_def text_fits_def from_utf8_as_bytes)
qed

lemma id_key_inj: "native_cid_ok K i \<Longrightarrow> native_cid_ok K j \<Longrightarrow> id_key K i = id_key K j \<longleftrightarrow> i = j"
  by (metis parse_id_key_of_id_key res.inject(1))

lemma hex16_inj: "hex16 x = hex16 y \<longleftrightarrow> x = y"
  by (metis hex16_def hex_inj u64_from_to_be)

lemma decode_encode_envelope:
  assumes "envelope_ok K v" and "length (encode_envelope K v) < usize_bound"
  shows "decode_envelope K (encode_envelope K v) = Ok v"
proof -
  have "decode_envelope K (encode_envelope K v) =
      (if ev_prefix v = None \<and> ev_head v \<noteq> None \<and> ev_head_location v = None
       then Err (CorruptState ''head without locator'') else Ok v)"
    unfolding decode_envelope_def
    by (rule whole_file [OF reads_nc_envelope [OF assms(1)] _ assms(2)]) (simp add: encode_envelope_eq)
  then show ?thesis using assms(1) by (auto simp: envelope_ok_def)
qed

section \<open>Properties\<close>

text \<open>C12: a native state envelope survives its byte form: every field is read back, and nothing of the
  file is left over.\<close>

theorem envelope_roundtrip:
  assumes "envelope_ok K v" and "length (encode_envelope K v) < usize_bound"
  shows "decode_envelope K (encode_envelope K v) = Ok v"
  by (rule decode_encode_envelope [OF assms])

definition sample_cid :: cid where
  "sample_cid = Cid (sym_qualified ''core'' ''sample'') (replicate 32 7)"

lemma sample_cid_ok: "native_cid_ok sample_kernel sample_cid"
proof -
  have "native_symbol_ok sample_kernel (sym_qualified ''core'' ''sample'')"
    by (rule native_symbol_okI [OF sample_kernel_laws(3)])
      (simp_all add: text_fits_def qualified_str_def str_ok_ascii)
  then show ?thesis by (simp add: native_cid_ok_def sample_cid_def)
qed

definition sample_envelope :: native_envelope where
  "sample_envelope = \<lparr>ev_format = V2, ev_fence = 3, ev_namespace = EntryNamespace ''n1'', ev_prefix = None,
     ev_head = Some \<lparr>head_sequence = 4, head_entry = sample_cid\<rparr>,
     ev_head_location = Some \<lparr>el_namespace = EntryNamespace ''n1'', el_sequence = 4, el_entry = sample_cid,
       el_storage = sample_cid\<rparr>\<rparr>"

theorem envelope_roundtrip_witness:
  "decode_envelope sample_kernel (encode_envelope sample_kernel sample_envelope) = Ok sample_envelope"
proof (rule envelope_roundtrip)
  show "envelope_ok sample_kernel sample_envelope"
    by (simp add: envelope_ok_def sample_envelope_def text_fits_def str_ok_ascii native_head_ok_def
        native_location_ok_def sample_cid_ok)
  show "length (encode_envelope sample_kernel sample_envelope) < usize_bound"
    by (simp add: encode_envelope_eq sample_envelope_def option_bytes_def text_bytes_def head_bytes_def
        location_bytes_def id_bytes_def sample_cid_def sample_kernel_def qualified_str_def usize_bound_def)
qed

text \<open>an entry leaf survives its byte form: the semantic entry is rebuilt from its value, and the
  predecessor's locator and the payload references are read back.\<close>

theorem v2_entry_roundtrip:
  assumes "encode_v2_entry K v = Ok bytes" and "physical_ok K v" and "kernel_order_law K"
    and "length bytes < usize_bound" and "length (pe_payloads v) < 2 ^ 64"
  shows "decode_v2_entry K bytes = Ok v"
  by (rule decode_encode_v2_entry [OF assms])

definition sample_physical :: physical_entry where
  "sample_physical = \<lparr>pe_entry = sample_entry, pe_previous_location = None,
     pe_payloads = [\<lparr>sr_meaning = sample_cid, sr_storage = sample_cid\<rparr>]\<rparr>"

lemma sample_physical_ok: "physical_ok sample_kernel sample_physical"
  by (simp add: physical_ok_def sample_physical_def sample_entry_def Let_def canonical_datum_def canonical_id_def
      entry_ids_ok_def sample_cid_ok symbol_ok_def str_ok_ascii isize_max_def)
    (simp add: sample_kernel_def)

theorem v2_entry_roundtrip_witness:
  "\<exists>bytes. encode_v2_entry sample_kernel sample_physical = Ok bytes \<and> decode_v2_entry sample_kernel bytes = Ok sample_physical"
proof -
  obtain datum where datum: "encode sample_kernel (canonical_datum sample_entry) = Ok datum" "length datum < 2 ^ 32"
    by (simp add: encode_def sample_kernel_def canonical_datum_def sample_entry_def Let_def put_symbol_def
        put_bytes_def put_len_def sort_fields_def symbol_key_def u64_to_string_def nat_to_string.simps)
  then obtain bytes where bytes: "encode_v2_entry sample_kernel sample_physical = Ok bytes" "length bytes < usize_bound"
    by (simp add: encode_v2_entry_def sample_physical_def put_eqs Let_def option_bytes_def id_bytes_def text_bytes_def
        sample_cid_def sample_kernel_def qualified_str_def usize_bound_def)
  then show ?thesis
    using v2_entry_roundtrip [OF bytes(1) sample_physical_ok sample_kernel_order_law bytes(2)]
    by (simp add: sample_physical_def)
qed

text \<open>the locator of an entry leaf determines its path and the path its locator, so two leaves never
  share a file.\<close>

theorem entry_path_inj:
  assumes "native_location_ok K l" and "native_location_ok K l'"
  shows "entry_path K l = entry_path K l' \<longleftrightarrow> l = l'"
  using assms
  by (cases l; cases l'; cases "el_namespace l"; cases "el_namespace l'")
    (auto simp: entry_path_def native_location_ok_def id_key_inj hex16_inj)

theorem entry_path_inj_witness:
  "entry_path sample_kernel \<lparr>el_namespace = EntryNamespace ''n'', el_sequence = 4, el_entry = sample_cid, el_storage = sample_cid\<rparr>
   \<noteq> entry_path sample_kernel \<lparr>el_namespace = EntryNamespace ''n'', el_sequence = 5, el_entry = sample_cid, el_storage = sample_cid\<rparr>"
  by (subst entry_path_inj) (simp_all add: native_location_ok_def text_fits_def str_ok_ascii sample_cid_ok)

lemma id_from_datum_fails: "fails_only CorruptEntry (id_from_datum v)"
  by (auto simp: id_from_datum_def split: datum.split option.split)

lemma sequence_from_datum_fails: "fails_only CorruptEntry (sequence_from_datum v)"
  by (auto simp: sequence_from_datum_def split: datum.split)

lemma entry_from_datum_fails: "fails_only CorruptEntry (entry_from_datum K d)"
proof (cases d)
  case (DNode tag fs)
  show ?thesis
    unfolding entry_from_datum_def DNode Let_def
    by (auto simp: sequence_from_datum_fails id_from_datum_fails canonical_id_def split: datum.split
        intro!: fails_only_bind fails_only_res_map)
qed (auto simp: entry_from_datum_def)

text \<open>an entry is accepted from a semantic value only under that value's own content id, and only if
  its fields reproduce the id.\<close>

theorem entry_from_datum_verified:
  "case entry_from_datum K d of
     Ok e \<Rightarrow> content_id K d = Some (en_id e) \<and> content_id K (canonical_datum e) = Some (en_id e)
   | Err err \<Rightarrow> err = CorruptEntry
   | Panic m \<Rightarrow> False"
proof (cases "entry_from_datum K d")
  case (Ok e)
  then show ?thesis using entry_from_datum_sound [OF Ok] by (simp add: canonical_id_def res_simps)
qed (use entry_from_datum_fails [of K d] in simp_all)

end
