(* ===== verification/Facet.thy ===== *)
theory Facet
  imports Kernel_Iface Std_Text
begin

text \<open>
  Artifact facets, \<open>crates/sim-artifact-facet/src\<close>: semantic ids (\<open>identity.rs\<close>), portable images, regions,
  merge policies and checked role images (\<open>image.rs\<close>). The Rust role parameters are compile-time
  only: an id of every role is a \<open>facet_id\<close>, made under the domain tag of its role.
\<close>

unbundle bit_operations_syntax

section \<open>Errors and ids\<close>

datatype facet_error =
    InvalidImage
  | InvalidMode
  | InvalidRegion
  | OutOfRegion
  | InvalidMergePolicy
  | WrongOwner
  | WrongFacet
  | NoncanonicalIdentity
  | BoundExceeded string

datatype facet_id = FacetId (fid_raw: cid)

text \<open>The domain tags of the roles.\<close>

definition artifact_domain :: string where "artifact_domain = ''artifact/facet-artifact-v1''"
definition owner_domain :: string where "owner_domain = ''artifact/facet-owner-v1''"
definition region_domain :: string where "region_domain = ''artifact/facet-region-v1''"
definition projection_domain :: string where "projection_domain = ''artifact/facet-projection-v1''"
definition merge_policy_domain :: string where "merge_policy_domain = ''artifact/facet-merge-policy-v1''"
definition disclosure_domain :: string where "disclosure_domain = ''artifact/facet-disclosure-v1''"
definition facet_domain :: string where "facet_domain = ''artifact/facet-v1''"
definition image_domain :: string where "image_domain = ''artifact/image-v1''"
definition base_image_domain :: string where "base_image_domain = ''artifact/base-image-v1''"
definition observed_image_domain :: string where "observed_image_domain = ''artifact/observed-image-v1''"
definition intended_image_domain :: string where "intended_image_domain = ''artifact/intended-image-v1''"
definition postimage_domain :: string where "postimage_domain = ''artifact/checked-postimage-v1''"

definition domain_symbol :: "string \<Rightarrow> (facet_error, symbol) res" where
  "domain_symbol d =
     res_bind (ok_or (split_once (CHR ''/'') d) NoncanonicalIdentity) (\<lambda>(namespace, name).
     if CHR ''/'' \<in> set name \<or> namespace = [] \<or> name = [] then Err NoncanonicalIdentity
     else Ok (sym_qualified namespace name))"

definition facet_field :: "kernel \<Rightarrow> string \<Rightarrow> datum \<Rightarrow> (facet_error, symbol \<times> datum) res" where
  "facet_field K name value =
     res_bind (ok_or (symbol_checked K name) NoncanonicalIdentity) (\<lambda>s.
     Ok (sym_qualified ''artifact'' (sym_name s), value))"

definition facet_number :: "u64 \<Rightarrow> datum" where
  "facet_number v = DNumber (sym_qualified ''numbers'' ''u64'') (u64_to_string v)"

definition content_id_datum :: "cid \<Rightarrow> datum" where
  "content_id_datum i =
     DNode (sym_qualified ''artifact'' ''content-id-v1'')
       [(sym_qualified ''artifact'' ''algorithm'', DSymbol (cid_alg i)),
        (sym_qualified ''artifact'' ''digest'', DBytes (cid_bytes i))]"

definition facet_id_datum :: "facet_id \<Rightarrow> datum" where
  "facet_id_datum i = content_id_datum (fid_raw i)"

text \<open>The scan for a repeated name stops at the first one.\<close>

fun repeats_name :: "symbol list \<Rightarrow> (symbol \<times> datum) list \<Rightarrow> bool" where
  "repeats_name seen [] = False"
| "repeats_name seen ((name, v) # fs) = (name \<in> set seen \<or> repeats_name (name # seen) fs)"

definition from_fields :: "kernel \<Rightarrow> string \<Rightarrow> (symbol \<times> datum) list \<Rightarrow> (facet_error, facet_id) res" where
  "from_fields K role_domain fs =
     (if repeats_name [] fs then Err NoncanonicalIdentity
      else
        res_bind (domain_symbol role_domain) (\<lambda>tag.
        res_bind (ok_or (content_id K (DNode tag fs)) NoncanonicalIdentity) (\<lambda>raw. Ok (FacetId raw))))"

text \<open>Several \<open>field(..)?\<close> in one \<open>vec!\<close>.\<close>

definition facet_fields :: "kernel \<Rightarrow> (string \<times> datum) list \<Rightarrow> (facet_error, (symbol \<times> datum) list) res" where
  "facet_fields K nvs = res_map (\<lambda>(n, v). facet_field K n v) nvs"

definition from_text :: "kernel \<Rightarrow> string \<Rightarrow> string \<Rightarrow> (facet_error, facet_id) res" where
  "from_text K role_domain value =
     (if value = [] \<or> 4096 < length value \<or> has_control value then Err (BoundExceeded ''id text'')
      else res_bind (facet_fields K [(''value'', DString value)]) (from_fields K role_domain))"

section \<open>Images\<close>

record portable_image =
  im_bytes :: "u8 list option"
  im_mode :: "u32 option"

definition image_absent :: portable_image where
  "image_absent = \<lparr>im_bytes = None, im_mode = None\<rparr>"

definition image_validate :: "portable_image \<Rightarrow> (facet_error, unit) res" where
  "image_validate im =
     (if (im_bytes im \<noteq> None) \<noteq> (im_mode im \<noteq> None) then Err InvalidImage
      else if (case im_mode im of Some mode \<Rightarrow> mode AND NOT 511 \<noteq> 0 | None \<Rightarrow> False) then Err InvalidMode
      else Ok ())"

definition image_file :: "u8 list \<Rightarrow> u32 \<Rightarrow> (facet_error, portable_image) res" where
  "image_file bytes mode =
     (let value = \<lparr>im_bytes = Some bytes, im_mode = Some mode\<rparr>
      in res_bind (image_validate value) (\<lambda>_. Ok value))"

definition image_id :: "kernel \<Rightarrow> portable_image \<Rightarrow> (facet_error, facet_id) res" where
  "image_id K im =
     res_bind (image_validate im) (\<lambda>_.
     let (present, mode, bytes) =
       (case (im_bytes im, im_mode im) of
          (Some bytes, Some mode) \<Rightarrow> (True, facet_number (ucast mode), DBytes bytes)
        | _ \<Rightarrow> (False, DNil, DNil))
     in res_bind (facet_fields K [(''present'', DBool present), (''mode'', mode), (''bytes'', bytes)])
          (from_fields K image_domain))"

section \<open>Regions and policies\<close>

datatype region_selector =
    ExactPath string
  | LineRange string u32 u32

definition validate_path :: "string \<Rightarrow> (facet_error, unit) res" where
  "validate_path p =
     (if p = [] \<or> 4096 < length p \<or> hd p = CHR ''/'' \<or> CHR 0x5C \<in> set p \<or>
         list_ex (\<lambda>part. part = [] \<or> part = ''.'' \<or> part = ''..'') (split_on (CHR ''/'') p)
      then Err InvalidRegion else Ok ())"

definition region_id :: "kernel \<Rightarrow> region_selector \<Rightarrow> (facet_error, facet_id) res" where
  "region_id K r =
     res_bind
       (case r of
          ExactPath path \<Rightarrow> Ok (path, DNil, DNil)
        | LineRange path start stop \<Rightarrow>
            if start < stop then Ok (path, facet_number (ucast start), facet_number (ucast stop)) else Err InvalidRegion)
       (\<lambda>(path, start, stop).
     res_bind (validate_path path) (\<lambda>_.
     res_bind (facet_fields K [(''path'', DString path), (''start'', start), (''end'', stop)])
       (from_fields K region_domain)))"

datatype merge_policy =
    Exact
  | Linewise u32 u64

definition merge_policy_id :: "kernel \<Rightarrow> merge_policy \<Rightarrow> (facet_error, facet_id) res" where
  "merge_policy_id K p =
     res_bind
       (case p of
          Exact \<Rightarrow> Ok (''exact'', DNil, DNil)
        | Linewise max_lines max_cells \<Rightarrow>
            if 0 < max_lines \<and> 0 < max_cells
            then Ok (''linewise'', facet_number (ucast max_lines), facet_number max_cells) else Err InvalidMergePolicy)
       (\<lambda>(kind, ls, cells).
     res_bind (facet_fields K [(''kind'', DString kind), (''max-lines'', ls), (''max-cells'', cells)])
       (from_fields K merge_policy_domain))"

datatype region_ownership = Authored | Generated facet_id

section \<open>Facets and role images\<close>

record artifact_facet =
  af_id :: facet_id
  af_artifact :: facet_id
  af_owner :: facet_id
  af_region :: region_selector
  af_projection :: facet_id
  af_merge :: merge_policy
  af_disclosure :: facet_id
  af_ownership :: region_ownership

definition artifact_facet_new ::
    "kernel \<Rightarrow> facet_id \<Rightarrow> facet_id \<Rightarrow> region_selector \<Rightarrow> facet_id \<Rightarrow> merge_policy \<Rightarrow> facet_id \<Rightarrow> region_ownership \<Rightarrow>
     (facet_error, artifact_facet) res" where
  "artifact_facet_new K artifact owner region projection merge disclosure ownership =
     (if (case ownership of Generated generator \<Rightarrow> generator \<noteq> owner | Authored \<Rightarrow> False) then Err WrongOwner
      else
        res_bind (region_id K region) (\<lambda>rid.
        res_bind (merge_policy_id K merge) (\<lambda>mid.
        let ownership_value = (case ownership of Authored \<Rightarrow> DString ''authored'' | Generated generator \<Rightarrow> facet_id_datum generator) in
        res_bind (res_bind (facet_fields K
            [(''artifact'', facet_id_datum artifact), (''owner'', facet_id_datum owner),
             (''region'', facet_id_datum rid), (''projection'', facet_id_datum projection),
             (''merge'', facet_id_datum mid), (''disclosure'', facet_id_datum disclosure),
             (''ownership'', ownership_value)]) (from_fields K facet_domain)) (\<lambda>i.
        Ok \<lparr>af_id = i, af_artifact = artifact, af_owner = owner, af_region = region, af_projection = projection,
            af_merge = merge, af_disclosure = disclosure, af_ownership = ownership\<rparr>))))"

record role_image =
  ri_id :: facet_id
  ri_facet :: facet_id
  ri_image :: portable_image

text \<open>\<open>RoleImage::new\<close> under the domain of its role, and the three \<open>check\<close>s.\<close>

definition role_image_new :: "kernel \<Rightarrow> string \<Rightarrow> artifact_facet \<Rightarrow> portable_image \<Rightarrow> (facet_error, role_image) res" where
  "role_image_new K role_domain spec im =
     res_bind (image_validate im) (\<lambda>_.
     res_bind (image_id K im) (\<lambda>iid.
     res_bind (res_bind (facet_fields K [(''facet'', facet_id_datum (af_id spec)), (''image'', facet_id_datum iid)])
       (from_fields K role_domain)) (\<lambda>i.
     Ok \<lparr>ri_id = i, ri_facet = af_id spec, ri_image = im\<rparr>)))"

definition base_check :: "kernel \<Rightarrow> artifact_facet \<Rightarrow> portable_image \<Rightarrow> (facet_error, role_image) res" where
  "base_check K = role_image_new K base_image_domain"

definition observed_check :: "kernel \<Rightarrow> artifact_facet \<Rightarrow> portable_image \<Rightarrow> (facet_error, role_image) res" where
  "observed_check K = role_image_new K observed_image_domain"

definition intended_check :: "kernel \<Rightarrow> artifact_facet \<Rightarrow> portable_image \<Rightarrow> (facet_error, role_image) res" where
  "intended_check K = role_image_new K intended_image_domain"

record checked_postimage =
  cp_id :: facet_id
  cp_image :: portable_image

definition postimage_new :: "kernel \<Rightarrow> artifact_facet \<Rightarrow> portable_image \<Rightarrow> (facet_error, checked_postimage) res" where
  "postimage_new K spec im =
     res_bind (image_id K im) (\<lambda>iid.
     res_bind (res_bind (facet_fields K [(''facet'', facet_id_datum (af_id spec)), (''image'', facet_id_datum iid)])
       (from_fields K postimage_domain)) (\<lambda>i.
     Ok \<lparr>cp_id = i, cp_image = im\<rparr>))"

end
