(* ===== verification/Facet_Merge.thy ===== *)
theory Facet_Merge
  imports Facet "HOL-Library.Multiset"
begin

text \<open>
  The three-way merge law of artifact facets, \<open>crates/sim-artifact-facet/src/merge.rs\<close>: the exact
  comparison, the region check, the bounded line comparison with its table, and the combination of
  two change lists. Every slice of the code is a slice here, with its panic; the theorems show that
  none is reached.
\<close>

section \<open>Outcomes\<close>

datatype transition_state = TsUnchanged | TsBase | TsIntended | TsForeign

datatype conflict_reason = BothChanged | Presence | Mode | NonText | WorkBound | Overlap

datatype merge_outcome =
    AlreadyTrue
  | Unchanged facet_id
  | Apply checked_postimage
  | Merged checked_postimage
  | Conflict conflict_reason

definition classify_transition ::
    "portable_image \<Rightarrow> portable_image \<Rightarrow> portable_image \<Rightarrow> (facet_error, transition_state) res" where
  "classify_transition base intended observed =
     res_bind (image_validate base) (\<lambda>_. res_bind (image_validate intended) (\<lambda>_.
     res_bind (image_validate observed) (\<lambda>_.
     Ok (if base = intended then TsUnchanged
         else if observed = intended then TsIntended
         else if observed = base then TsBase
         else TsForeign))))"

section \<open>Lines and slices\<close>

definition text_lines :: "string \<Rightarrow> string list" where
  "text_lines t = (if t = [] then [] else split_inclusive (CHR 0x0A) t)"

text \<open>\<open>&xs[a..b]\<close>.\<close>

definition slice :: "'a list \<Rightarrow> nat \<Rightarrow> nat \<Rightarrow> (facet_error, 'a list) res" where
  "slice xs a b = (if a \<le> b \<and> b \<le> length xs then Ok (take (b - a) (drop a xs)) else Panic ''slice index'')"

definition verify_intended_region :: "artifact_facet \<Rightarrow> portable_image \<Rightarrow> portable_image \<Rightarrow> (facet_error, unit) res" where
  "verify_intended_region spec base intended =
     (case af_region spec of
        ExactPath p \<Rightarrow> Ok ()
      | LineRange p start stop \<Rightarrow>
          (case (im_bytes base, im_bytes intended) of
             (Some base_bytes, Some intended_bytes) \<Rightarrow>
               if im_mode base \<noteq> im_mode intended then Err OutOfRegion
               else
                 res_bind (ok_or (from_utf8 base_bytes) OutOfRegion) (\<lambda>base_text.
                 res_bind (ok_or (from_utf8 intended_bytes) OutOfRegion) (\<lambda>intended_text.
                 let base_lines = text_lines base_text; intended_lines = text_lines intended_text;
                     start = unat start; stop = unat stop in
                 if length base_lines < stop then Err OutOfRegion
                 else
                   let suffix_len = length base_lines - stop in
                   if length intended_lines < start + suffix_len then Err OutOfRegion
                   else
                     res_bind (slice intended_lines 0 start) (\<lambda>ip. res_bind (slice base_lines 0 start) (\<lambda>bp.
                     if ip \<noteq> bp then Err OutOfRegion
                     else
                       res_bind (slice intended_lines (length intended_lines - suffix_len) (length intended_lines)) (\<lambda>is.
                       res_bind (slice base_lines stop (length base_lines)) (\<lambda>bs.
                       if is \<noteq> bs then Err OutOfRegion else Ok ()))))))
           | _ \<Rightarrow> Err OutOfRegion))"

definition merge_mode :: "u32 \<Rightarrow> u32 \<Rightarrow> u32 \<Rightarrow> u32 option" where
  "merge_mode base observed intended =
     (if observed = intended then Some observed
      else if observed = base then Some intended
      else if intended = base then Some observed
      else None)"

section \<open>Changes between two line lists\<close>

record change =
  ch_start :: nat
  ch_end :: nat
  ch_replacement :: "string list"

text \<open>The table of the comparison, one flat list, filled from the last row and column back.\<close>

definition table_at :: "nat \<Rightarrow> nat \<Rightarrow> nat \<Rightarrow> nat" where
  "table_at columns row column = row * columns + column"

definition fill_cell :: "string list \<Rightarrow> string list \<Rightarrow> nat \<Rightarrow> nat \<Rightarrow> u32 list \<Rightarrow> u32 list" where
  "fill_cell base side row column lengths =
     (let at = table_at (length side + 1) in
      lengths [at row column :=
        (if base ! row = side ! column then lengths ! at (row + 1) (column + 1) + 1
         else max (lengths ! at (row + 1) column) (lengths ! at row (column + 1)))])"

definition fill_table :: "string list \<Rightarrow> string list \<Rightarrow> u32 list" where
  "fill_table base side =
     fold (\<lambda>row. fold (fill_cell base side row) (rev [0 ..< length side])) (rev [0 ..< length base])
       (replicate ((length base + 1) * (length side + 1)) 0)"

text \<open>The walk through the table that collects the matched lines.\<close>

function walk_matches :: "string list \<Rightarrow> string list \<Rightarrow> u32 list \<Rightarrow> nat \<Rightarrow> nat \<Rightarrow> (nat \<times> nat) list" where
  "walk_matches base side lengths row column =
     (if row < length base \<and> column < length side then
        (if base ! row = side ! column then (row, column) # walk_matches base side lengths (row + 1) (column + 1)
         else if lengths ! table_at (length side + 1) (row + 1) column \<ge> lengths ! table_at (length side + 1) row (column + 1)
         then walk_matches base side lengths (row + 1) column
         else walk_matches base side lengths row (column + 1))
      else [])"
  by pat_completeness auto

termination
  by (relation "measure (\<lambda>(base, side, lengths, row, column). (length base - row) + (length side - column))") auto

declare walk_matches.simps [simp del]

fun collect_changes ::
    "nat \<Rightarrow> string list \<Rightarrow> nat \<Rightarrow> nat \<Rightarrow> (nat \<times> nat) list \<Rightarrow> (facet_error, change list) res" where
  "collect_changes base_len side base_cursor side_cursor [] = Ok []"
| "collect_changes base_len side base_cursor side_cursor ((base_match, side_match) # ms) =
     res_bind
       (if base_cursor \<noteq> base_match \<or> side_cursor \<noteq> side_match
        then res_bind (slice side side_cursor side_match) (\<lambda>r.
               Ok [\<lparr>ch_start = base_cursor, ch_end = base_match, ch_replacement = r\<rparr>])
        else Ok []) (\<lambda>cs.
     res_bind (collect_changes base_len side (min (base_match + 1) base_len) (min (side_match + 1) (length side)) ms) (\<lambda>rest.
     Ok (cs @ rest)))"

definition changes :: "string list \<Rightarrow> string list \<Rightarrow> u64 \<Rightarrow> (facet_error, change list option) res" where
  "changes base side max_cells =
     (if usize_bound \<le> length base + 1 \<or> usize_bound \<le> length side + 1 then Ok None
      else if 2 ^ 64 \<le> (length base + 1) * (length side + 1) then Ok None
      else if unat max_cells < (length base + 1) * (length side + 1) then Ok None
      else
        let ms = walk_matches base side (fill_table base side) 0 0 @ [(length base, length side)]
        in res_bind (collect_changes (length base) side 0 0 ms) (\<lambda>cs. Ok (Some cs)))"

fun overlaps :: "change \<Rightarrow> change \<Rightarrow> bool" where
  "overlaps l r =
     (case (ch_start l = ch_end l, ch_start r = ch_end r) of
        (True, True) \<Rightarrow> ch_start l = ch_start r
      | (True, False) \<Rightarrow> ch_start l \<ge> ch_start r \<and> ch_start l \<le> ch_end r
      | (False, True) \<Rightarrow> ch_start r \<ge> ch_start l \<and> ch_start r \<le> ch_end l
      | (False, False) \<Rightarrow> ch_start l < ch_end r \<and> ch_start r < ch_end l)"

fun add_changes :: "change list \<Rightarrow> change list \<Rightarrow> change list option" where
  "add_changes left [] = Some left"
| "add_changes left (c # cs) =
     (if list_ex (\<lambda>l. ch_start l = ch_start c \<and> ch_end l = ch_end c \<and> ch_replacement l = ch_replacement c) left
      then add_changes left cs
      else if list_ex (\<lambda>l. overlaps l c) left then None
      else add_changes (left @ [c]) cs)"

definition combine_changes :: "change list \<Rightarrow> change list \<Rightarrow> change list option" where
  "combine_changes left right = map_option (sort_key (\<lambda>c. (ch_start c, ch_end c))) (add_changes left right)"

text \<open>The loop that builds the merged lines, and the lines behind the last change.\<close>

fun apply_from :: "string list \<Rightarrow> nat \<Rightarrow> change list \<Rightarrow> (facet_error, string list) res" where
  "apply_from base cursor [] = slice base cursor (length base)"
| "apply_from base cursor (c # cs) =
     res_bind (slice base cursor (ch_start c)) (\<lambda>pre.
     res_bind (apply_from base (ch_end c) cs) (\<lambda>rest. Ok (pre @ ch_replacement c @ rest)))"

definition merge_lines ::
    "kernel \<Rightarrow> artifact_facet \<Rightarrow> string list \<Rightarrow> string list \<Rightarrow> string list \<Rightarrow> u32 \<Rightarrow> u32 \<Rightarrow> u64 \<Rightarrow>
     (facet_error, merge_outcome) res" where
  "merge_lines K spec base_lines observed_lines intended_lines mode max_lines max_cells =
     (if list_ex (\<lambda>n. unat max_lines < n) [length base_lines, length observed_lines, length intended_lines]
      then Ok (Conflict WorkBound)
      else
        res_bind (changes base_lines observed_lines max_cells) (\<lambda>oc.
        case oc of None \<Rightarrow> Ok (Conflict WorkBound) | Some observed_changes \<Rightarrow>
        res_bind (changes base_lines intended_lines max_cells) (\<lambda>ic.
        case ic of None \<Rightarrow> Ok (Conflict WorkBound) | Some intended_changes \<Rightarrow>
        (case combine_changes observed_changes intended_changes of
           None \<Rightarrow> Ok (Conflict Overlap)
         | Some cs \<Rightarrow>
             res_bind (apply_from base_lines 0 cs) (\<lambda>merged.
             res_bind (image_file (as_bytes (concat merged)) mode) (\<lambda>im.
             res_bind (postimage_new K spec im) (\<lambda>post. Ok (Merged post))))))))"

definition merge_linewise ::
    "kernel \<Rightarrow> artifact_facet \<Rightarrow> portable_image \<Rightarrow> portable_image \<Rightarrow> portable_image \<Rightarrow> u32 \<Rightarrow> u64 \<Rightarrow>
     (facet_error, merge_outcome) res" where
  "merge_linewise K spec base observed intended max_lines max_cells =
     (case (im_bytes base, im_bytes observed, im_bytes intended) of
        (Some base_bytes, Some observed_bytes, Some intended_bytes) \<Rightarrow>
          res_bind (opt_expect (im_mode base) ''validated present image'') (\<lambda>bm.
          res_bind (opt_expect (im_mode observed) ''validated present image'') (\<lambda>om.
          res_bind (opt_expect (im_mode intended) ''validated present image'') (\<lambda>imode.
          case merge_mode bm om imode of
            None \<Rightarrow> Ok (Conflict Mode)
          | Some mode \<Rightarrow>
            (case (from_utf8 base_bytes, from_utf8 observed_bytes, from_utf8 intended_bytes) of
               (Some base_text, Some observed_text, Some intended_text) \<Rightarrow>
                 merge_lines K spec (text_lines base_text) (text_lines observed_text) (text_lines intended_text)
                   mode max_lines max_cells
             | _ \<Rightarrow> Ok (Conflict NonText)))))
      | _ \<Rightarrow> Ok (Conflict Presence))"

definition merge_facet ::
    "kernel \<Rightarrow> artifact_facet \<Rightarrow> role_image \<Rightarrow> role_image \<Rightarrow> role_image \<Rightarrow> (facet_error, merge_outcome) res" where
  "merge_facet K spec base observed intended =
     (if ri_facet base \<noteq> af_id spec \<or> ri_facet observed \<noteq> af_id spec \<or> ri_facet intended \<noteq> af_id spec
      then Err WrongFacet
      else
        res_bind (verify_intended_region spec (ri_image base) (ri_image intended)) (\<lambda>_.
        res_bind (classify_transition (ri_image base) (ri_image intended) (ri_image observed)) (\<lambda>t.
        case t of
          TsIntended \<Rightarrow> Ok AlreadyTrue
        | TsUnchanged \<Rightarrow> Ok (Unchanged (ri_id observed))
        | TsBase \<Rightarrow> res_bind (postimage_new K spec (ri_image intended)) (\<lambda>post. Ok (Apply post))
        | TsForeign \<Rightarrow>
            (case af_merge spec of
               Exact \<Rightarrow> Ok (Conflict BothChanged)
             | Linewise max_lines max_cells \<Rightarrow>
                 merge_linewise K spec (ri_image base) (ri_image observed) (ri_image intended) max_lines max_cells))))"

section \<open>The change list of one side\<close>

text \<open>\<open>matched base side row col ms\<close>: the matches rise in both lists, from \<open>row\<close> and \<open>col\<close> on, and pair
  equal lines.\<close>

fun matched :: "string list \<Rightarrow> string list \<Rightarrow> nat \<Rightarrow> nat \<Rightarrow> (nat \<times> nat) list \<Rightarrow> bool" where
  "matched base side row col [] = True"
| "matched base side row col ((r, c) # ms) =
     (row \<le> r \<and> col \<le> c \<and> r < length base \<and> c < length side \<and> base ! r = side ! c \<and>
      matched base side (Suc r) (Suc c) ms)"

lemma matched_weaken: "matched base side row col ms \<Longrightarrow> row' \<le> row \<Longrightarrow> col' \<le> col \<Longrightarrow> matched base side row' col' ms"
  by (cases ms) auto

lemma walk_matches_matched: "matched base side row col (walk_matches base side lengths row col)"
proof (induction base side lengths row col rule: walk_matches.induct)
  case (1 base side lengths row col)
  show ?case
    using 1 by (subst walk_matches.simps) (auto intro: matched_weaken)
qed

text \<open>The changes of one side lie apart: at least one matched line stands between two of them.\<close>

definition change_ok :: "change \<Rightarrow> bool" where
  "change_ok c \<longleftrightarrow> ch_start c \<le> ch_end c"

fun apart_from :: "nat \<Rightarrow> nat \<Rightarrow> change list \<Rightarrow> bool" where
  "apart_from n len [] = True"
| "apart_from n len (c # cs) =
     (n \<le> ch_start c \<and> ch_start c \<le> ch_end c \<and> ch_end c \<le> len \<and> apart_from (Suc (ch_end c)) len cs)"

lemma apart_from_weaken: "apart_from n len cs \<Longrightarrow> m \<le> n \<Longrightarrow> apart_from m len cs"
  by (cases cs) auto

lemma slice_Ok [simp]: "a \<le> b \<Longrightarrow> b \<le> length xs \<Longrightarrow> slice xs a b = Ok (take (b - a) (drop a xs))"
  by (simp add: slice_def)

lemma apply_from_step:
  assumes "apply_from base (Suc r) cs = Ok xs" and "apart_from (Suc r) (length base) cs" and "r < length base"
  shows "apply_from base r cs = Ok (base ! r # xs)"
proof (cases cs)
  case Nil
  then show ?thesis using assms by (auto simp: slice_def Cons_nth_drop_Suc)
next
  case (Cons c cs')
  have "take (ch_start c - r) (drop r base) = base ! r # take (ch_start c - Suc r) (drop (Suc r) base)"
    using assms(2,3) Cons by (simp add: Cons_nth_drop_Suc [symmetric] take_Cons' Suc_diff_Suc)
  then show ?thesis using assms Cons by (auto simp: res_simps)
qed

lemma collect_changes_correct:
  assumes "matched base side bc sc ms" and "bc \<le> length base" and "sc \<le> length side"
  shows "\<exists>cs. collect_changes (length base) side bc sc (ms @ [(length base, length side)]) = Ok cs \<and>
     apart_from bc (length base) cs \<and> apply_from base bc cs = Ok (drop sc side)"
  using assms
proof (induction ms arbitrary: bc sc)
  case Nil
  then show ?case by auto
next
  case (Cons m ms)
  obtain r c where m: "m = (r, c)" by (cases m)
  have b: "bc \<le> r" "sc \<le> c" "r < length base" "c < length side" "base ! r = side ! c"
    and ms: "matched base side (Suc r) (Suc c) ms"
    using Cons.prems(1) m by auto
  obtain cs where cs: "collect_changes (length base) side (Suc r) (Suc c) (ms @ [(length base, length side)]) = Ok cs"
    "apart_from (Suc r) (length base) cs" "apply_from base (Suc r) cs = Ok (drop (Suc c) side)"
    using Cons.IH [OF ms] b by auto
  have here: "apply_from base r cs = Ok (drop c side)"
    using apply_from_step [OF cs(3,2) b(3)] b by (simp add: Cons_nth_drop_Suc)
  have mins: "min (r + 1) (length base) = Suc r" "min (c + 1) (length side) = Suc c" using b by simp_all
  show ?case
  proof (cases "bc \<noteq> r \<or> sc \<noteq> c")
    case True
    have "take (c - sc) (drop sc side) @ drop c side = drop sc side"
      using b by (metis append_take_drop_id drop_drop le_add_diff_inverse2)
    then show ?thesis
      using True m b cs mins here by (auto intro: apart_from_weaken)
  next
    case False
    then show ?thesis using m b cs mins here by (auto intro: apart_from_weaken)
  qed
qed

lemma changes_Some:
  assumes "changes base side max_cells = Ok (Some cs)"
  shows "apart_from 0 (length base) cs" and "apply_from base 0 cs = Ok side"
proof -
  obtain cs' where "collect_changes (length base) side 0 0
      (walk_matches base side (fill_table base side) 0 0 @ [(length base, length side)]) = Ok cs'"
    "apart_from 0 (length base) cs'" "apply_from base 0 cs' = Ok (drop 0 side)"
    using collect_changes_correct [OF walk_matches_matched, of 0 base 0 side] by blast
  moreover from this have "cs' = cs"
    using assms by (auto simp: changes_def Let_def split: if_splits)
  ultimately show "apart_from 0 (length base) cs" "apply_from base 0 cs = Ok side" by simp_all
qed

lemma changes_total: "\<exists>r. changes base side max_cells = Ok r"
proof -
  obtain cs where "collect_changes (length base) side 0 0
      (walk_matches base side (fill_table base side) 0 0 @ [(length base, length side)]) = Ok cs"
    using collect_changes_correct [OF walk_matches_matched, of 0 base 0 side] by blast
  then show ?thesis by (auto simp: changes_def Let_def)
qed

section \<open>Combining the changes of two sides\<close>

lemma apart_from_mem: "apart_from n len cs \<Longrightarrow> c \<in> set cs \<Longrightarrow> n \<le> ch_start c \<and> ch_start c \<le> ch_end c \<and> ch_end c \<le> len"
  by (induction cs arbitrary: n) force+

lemma apart_from_sorted: "apart_from n len cs \<Longrightarrow> sorted_wrt (\<lambda>a b. ch_end a < ch_start b) cs"
proof (induction cs arbitrary: n)
  case (Cons c cs)
  then show ?case using apart_from_mem [of "Suc (ch_end c)" len cs] by (auto simp: Suc_le_eq)
qed simp

lemma overlaps_sym: "overlaps l r \<longleftrightarrow> overlaps r l"
  by (auto split: bool.splits)

lemma sorted_wrt_pair: "sorted_wrt P xs \<Longrightarrow> a \<in> set xs \<Longrightarrow> b \<in> set xs \<Longrightarrow> a = b \<or> P a b \<or> P b a"
  by (induction xs) auto

lemma apart_no_overlap:
  assumes "apart_from n len cs" and "a \<in> set cs" and "b \<in> set cs" and "a \<noteq> b"
  shows "\<not> overlaps a b"
proof -
  have "ch_end a < ch_start b \<or> ch_end b < ch_start a"
    using sorted_wrt_pair [OF apart_from_sorted [OF assms(1)] assms(2,3)] assms(4) by blast
  moreover have "ch_start a \<le> ch_end a" "ch_start b \<le> ch_end b"
    using apart_from_mem [OF assms(1)] assms(2,3) by simp_all
  ultimately show ?thesis by (auto split: bool.splits)
qed

lemma apart_distinct: "apart_from n len cs \<Longrightarrow> distinct cs"
proof (induction cs arbitrary: n)
  case (Cons c cs)
  then show ?case using apart_from_mem [of "Suc (ch_end c)" len cs c] by auto
qed simp

lemma same_change:
  fixes c :: change
  shows "list_ex (\<lambda>l. ch_start l = ch_start c \<and> ch_end l = ch_end c \<and> ch_replacement l = ch_replacement c) left \<longleftrightarrow> c \<in> set left"
proof -
  have "(ch_start l = ch_start c \<and> ch_end l = ch_end c \<and> ch_replacement l = ch_replacement c) = (l = c)" for l
    by (cases l; cases c) auto
  then show ?thesis by (auto simp: list_ex_iff)
qed

definition pairwise_apart :: "change list \<Rightarrow> bool" where
  "pairwise_apart cs \<longleftrightarrow> distinct cs \<and> (\<forall>a\<in>set cs. change_ok a) \<and> (\<forall>a\<in>set cs. \<forall>b\<in>set cs. a \<noteq> b \<longrightarrow> \<not> overlaps a b)"

lemma apart_pairwise: "apart_from n len cs \<Longrightarrow> pairwise_apart cs"
  unfolding pairwise_apart_def change_ok_def using apart_distinct apart_no_overlap apart_from_mem by blast

definition compatible :: "change list \<Rightarrow> change list \<Rightarrow> bool" where
  "compatible left right \<longleftrightarrow> (\<forall>l\<in>set left. \<forall>r\<in>set right. r \<in> set left \<or> \<not> overlaps l r)"

lemma add_changes_Some:
  assumes "pairwise_apart right"
  shows "add_changes left right =
    (if compatible left right then Some (left @ filter (\<lambda>c. c \<notin> set left) right) else None)"
  using assms
proof (induction right arbitrary: left)
  case Nil
  then show ?case by (simp add: compatible_def)
next
  case (Cons c cs)
  then have cs: "pairwise_apart cs" "c \<notin> set cs" and apart: "\<And>d. d \<in> set cs \<Longrightarrow> \<not> overlaps c d"
    by (auto simp: pairwise_apart_def)
  show ?case
  proof (cases "c \<in> set left")
    case True
    then show ?thesis using Cons.IH [OF cs(1)] by (simp add: same_change compatible_def)
  next
    case False
    show ?thesis
    proof (cases "list_ex (\<lambda>l. overlaps l c) left")
      case True
      then show ?thesis using False by (auto simp: same_change compatible_def list_ex_iff simp del: overlaps.simps)
    next
      case False
      have "compatible (left @ [c]) cs \<longleftrightarrow> compatible left (c # cs)"
        using False cs(2) apart \<open>c \<notin> set left\<close>
        by (auto simp: compatible_def list_ex_iff simp del: overlaps.simps)
      moreover have "filter (\<lambda>d. d \<notin> set (left @ [c])) cs = filter (\<lambda>d. d \<notin> set left) cs"
        using cs(2) by (auto intro: filter_cong)
      ultimately show ?thesis
        using Cons.IH [OF cs(1), of "left @ [c]"] False \<open>c \<notin> set left\<close>
        by (simp add: same_change del: overlaps.simps)
    qed
  qed
qed

lemma compatible_sym:
  assumes "pairwise_apart left" and "pairwise_apart right"
  shows "compatible left right \<longleftrightarrow> compatible right left"
proof -
  have "compatible b a" if "compatible a b" "pairwise_apart a" for a b
    unfolding compatible_def
  proof (intro ballI)
    fix r l assume "r \<in> set b" "l \<in> set a"
    then show "l \<in> set b \<or> \<not> overlaps r l"
      using that overlaps_sym [of r l] unfolding compatible_def pairwise_apart_def by (metis (full_types))
  qed
  then show ?thesis using assms by blast
qed

abbreviation change_key :: "change \<Rightarrow> nat \<times> nat" where
  "change_key c \<equiv> (ch_start c, ch_end c)"

lemma pairwise_apart_keys: "pairwise_apart cs \<Longrightarrow> inj_on change_key (set cs)"
proof (rule inj_onI)
  fix a b assume cs: "pairwise_apart cs" "a \<in> set cs" "b \<in> set cs" and k: "change_key a = change_key b"
  have "overlaps a b"
    using cs k by (auto simp: pairwise_apart_def change_ok_def split: bool.split)
  then show "a = b" using cs unfolding pairwise_apart_def by blast
qed

lemma merged_apart:
  assumes "pairwise_apart left" and "pairwise_apart right" and "compatible left right"
  shows "pairwise_apart (left @ filter (\<lambda>c. c \<notin> set left) right)"
proof -
  let ?m = "left @ filter (\<lambda>c. c \<notin> set left) right"
  have "\<not> overlaps a b" if ab: "a \<in> set ?m" "b \<in> set ?m" "a \<noteq> b" for a b
  proof (cases "a \<in> set left"; cases "b \<in> set left")
    assume "a \<in> set left" "b \<in> set left"
    then show ?thesis using assms(1) ab(3) unfolding pairwise_apart_def by blast
  next
    assume "a \<in> set left" "b \<notin> set left"
    then show ?thesis using assms(3) ab(2) unfolding compatible_def by auto
  next
    assume "a \<notin> set left" "b \<in> set left"
    then show ?thesis using assms(3) ab(1) overlaps_sym [of a b] unfolding compatible_def by auto
  next
    assume "a \<notin> set left" "b \<notin> set left"
    then show ?thesis using assms(2) ab unfolding pairwise_apart_def by auto
  qed
  moreover have "distinct ?m" "\<forall>a\<in>set ?m. change_ok a"
    using assms(1,2) unfolding pairwise_apart_def by auto
  ultimately show ?thesis unfolding pairwise_apart_def by blast
qed

text \<open>Sorting changes with different keys depends only on the set of the changes.\<close>

lemma sort_key_set_unique:
  assumes "distinct xs" and "distinct ys" and "set xs = set ys" and "inj_on k (set xs)"
  shows "sort_key k xs = sort_key k ys"
proof (rule map_inj_on)
  have ms: "mset xs = mset ys" using assms(1-3) by (simp add: set_eq_iff_mset_eq_distinct)
  have "sort (map k xs) = map k (sort_key k xs)" by (rule properties_for_sort) simp_all
  moreover have "sort (map k xs) = map k (sort_key k ys)"
    by (rule properties_for_sort) (simp_all add: ms)
  ultimately show "map k (sort_key k xs) = map k (sort_key k ys)" by simp
  show "inj_on k (set (sort_key k xs) \<union> set (sort_key k ys))"
    using assms(3,4) by simp
qed

lemma combine_changes_sym:
  assumes "pairwise_apart left" and "pairwise_apart right"
  shows "combine_changes left right = combine_changes right left"
proof (cases "compatible left right")
  case True
  then have "compatible right left" using compatible_sym [OF assms] by simp
  note l = merged_apart [OF assms True] and r = merged_apart [OF assms(2,1) \<open>compatible right left\<close>]
  have "sort_key change_key (left @ filter (\<lambda>c. c \<notin> set left) right) =
      sort_key change_key (right @ filter (\<lambda>c. c \<notin> set right) left)"
    by (rule sort_key_set_unique)
      (use l r pairwise_apart_keys [OF l] in \<open>auto simp: pairwise_apart_def\<close>)
  then show ?thesis
    using True \<open>compatible right left\<close> assms by (simp add: combine_changes_def add_changes_Some)
next
  case False
  then show ?thesis
    using compatible_sym [OF assms] assms by (simp add: combine_changes_def add_changes_Some)
qed

lemma combine_changes_Some:
  assumes "pairwise_apart left" and "pairwise_apart right" and "combine_changes left right = Some cs"
  shows "set cs = set left \<union> set right \<and> pairwise_apart cs \<and> sorted (map change_key cs)"
proof -
  have c: "compatible left right"
    and cs: "cs = sort_key change_key (left @ filter (\<lambda>c. c \<notin> set left) right)"
    using assms by (auto simp: combine_changes_def add_changes_Some split: if_splits)
  have "pairwise_apart cs"
    using merged_apart [OF assms(1,2) c] unfolding cs pairwise_apart_def by auto
  then show ?thesis by (auto simp: cs)
qed

text \<open>Changes in order that do not overlap can be applied: no slice of the merge is out of range.\<close>

lemma sorted_apart_apply:
  assumes "sorted (map change_key cs)" and "pairwise_apart cs" and "\<forall>c\<in>set cs. ch_end c \<le> length base"
    and "\<forall>c\<in>set cs. n \<le> ch_start c" and "n \<le> length base"
  shows "\<exists>ls. apply_from base n cs = Ok ls"
  using assms
proof (induction cs arbitrary: n)
  case Nil
  then show ?case by simp
next
  case (Cons c cs)
  have ok: "ch_start c \<le> ch_end c" "ch_end c \<le> length base" "n \<le> ch_start c"
    using Cons.prems(2-4) by (auto simp: pairwise_apart_def change_ok_def)
  have "ch_end c \<le> ch_start d" if d: "d \<in> set cs" for d
  proof -
    have "\<not> overlaps c d" "c \<noteq> d" "change_ok d"
      using Cons.prems(2) d unfolding pairwise_apart_def by auto
    moreover have "(ch_start c, ch_end c) \<le> (ch_start d, ch_end d)"
      using Cons.prems(1) d by auto
    ultimately show ?thesis using ok(1) by (auto simp: change_ok_def split: bool.splits)
  qed
  then have "\<exists>ls. apply_from base (ch_end c) cs = Ok ls"
    using Cons.prems ok by (intro Cons.IH) (auto simp: pairwise_apart_def)
  then show ?case using ok by auto
qed

lemma merged_apply:
  assumes "apart_from 0 (length base) left" and "apart_from 0 (length base) right"
    and "combine_changes left right = Some cs"
  shows "\<exists>ls. apply_from base 0 cs = Ok ls"
proof -
  note m = combine_changes_Some [OF apart_pairwise [OF assms(1)] apart_pairwise [OF assms(2)] assms(3)]
  show ?thesis
    by (rule sorted_apart_apply)
      (use m apart_from_mem [OF assms(1)] apart_from_mem [OF assms(2)] in auto)
qed

section \<open>No panic\<close>

lemma from_fields_no_panic: "from_fields K d fs \<noteq> Panic m"
  by (auto simp: from_fields_def domain_symbol_def res_simps split: if_splits)

lemma facet_fields_no_panic: "facet_fields K nvs \<noteq> Panic m"
proof -
  have "facet_field K n v \<noteq> Panic m" for n v
    by (auto simp: facet_field_def res_simps)
  then show ?thesis
    unfolding facet_fields_def by (induction nvs) (auto simp: res_simps)
qed

lemma image_validate_no_panic: "image_validate im \<noteq> Panic m"
  by (simp add: image_validate_def)

lemma image_id_no_panic: "image_id K im \<noteq> Panic m"
  by (auto simp: image_id_def res_simps Let_def image_validate_no_panic facet_fields_no_panic from_fields_no_panic
      split: option.splits prod.splits)

lemma postimage_new_no_panic: "postimage_new K spec im \<noteq> Panic m"
  by (auto simp: postimage_new_def res_simps image_id_no_panic facet_fields_no_panic from_fields_no_panic)

lemma image_validate_Ok: "image_validate im = Ok u \<Longrightarrow> im_bytes im = Some b \<Longrightarrow> \<exists>mode. im_mode im = Some mode"
  by (auto simp: image_validate_def split: if_splits)

lemma merge_lines_no_panic: "merge_lines K spec bl ul vl mode max_lines max_cells \<noteq> Panic m"
proof
  assume p: "merge_lines K spec bl ul vl mode max_lines max_cells = Panic m"
  obtain l r where lr: "changes bl ul max_cells = Ok l" "changes bl vl max_cells = Ok r"
    using changes_total by metis
  have nf: "image_file x y \<noteq> Panic m" for x y
    by (auto simp: image_file_def Let_def res_simps image_validate_no_panic)
  from p obtain a b cs where ab: "l = Some a" "r = Some b" and comb: "combine_changes a b = Some cs"
    and ap: "apply_from bl 0 cs = Panic m"
    by (auto simp: merge_lines_def lr res_simps nf postimage_new_no_panic split: option.splits if_splits)
  show False
    using merged_apply [OF changes_Some(1) [OF lr(1) [unfolded ab]] changes_Some(1) [OF lr(2) [unfolded ab]] comb] ap
    by simp
qed

lemma merge_linewise_no_panic:
  assumes "image_validate base = Ok ()" "image_validate observed = Ok ()" "image_validate intended = Ok ()"
  shows "merge_linewise K spec base observed intended max_lines max_cells \<noteq> Panic m"
proof
  assume p: "merge_linewise K spec base observed intended max_lines max_cells = Panic m"
  obtain bb ob ib where bytes: "im_bytes base = Some bb" "im_bytes observed = Some ob" "im_bytes intended = Some ib"
    using p by (auto simp: merge_linewise_def split: option.splits)
  then obtain bm om imode where modes: "im_mode base = Some bm" "im_mode observed = Some om" "im_mode intended = Some imode"
    using assms image_validate_Ok by metis
  from p bytes modes show False
    by (auto simp: merge_linewise_def merge_lines_no_panic split: option.splits)
qed

lemma merge_lines_sym:
  "merge_lines K spec bl ul vl mode max_lines max_cells = merge_lines K spec bl vl ul mode max_lines max_cells"
proof -
  obtain l r where lr: "changes bl ul max_cells = Ok l" "changes bl vl max_cells = Ok r"
    using changes_total by metis
  have comb: "combine_changes a b = combine_changes b a" if "l = Some a" "r = Some b" for a b
    by (rule combine_changes_sym)
      (use changes_Some(1) [OF lr(1) [unfolded that]] changes_Some(1) [OF lr(2) [unfolded that]] apart_pairwise in blast)+
  show ?thesis
  proof (cases "l = None \<or> r = None")
    case True
    then show ?thesis by (cases l; cases r) (auto simp: merge_lines_def lr)
  next
    case False
    then obtain a b where ab: "l = Some a" "r = Some b" by auto
    show ?thesis by (auto simp: merge_lines_def lr ab comb [OF ab])
  qed
qed

definition region_wf :: "region_selector \<Rightarrow> bool" where
  "region_wf r \<longleftrightarrow> (case r of ExactPath p \<Rightarrow> True | LineRange p start stop \<Rightarrow> start < stop)"

lemma verify_region_no_panic:
  assumes "region_wf (af_region spec)"
  shows "verify_intended_region spec base intended \<noteq> Panic m"
proof (cases "af_region spec")
  case (LineRange p start stop)
  then have "unat start < unat stop"
    using assms by (simp add: region_wf_def word_less_nat_alt)
  then show ?thesis
    using LineRange
    by (auto simp: verify_intended_region_def res_simps Let_def slice_def split: option.splits if_splits)
qed (simp add: verify_intended_region_def)

lemma artifact_facet_new_region:
  "artifact_facet_new K a ow region p mp d os = Ok spec \<Longrightarrow> region_wf (af_region spec) \<and> af_region spec = region"
  by (auto simp: artifact_facet_new_def region_id_def region_wf_def res_simps Let_def split: if_splits region_selector.splits)

lemma classify_no_panic: "classify_transition b i ob \<noteq> Panic m"
  by (auto simp: classify_transition_def res_simps image_validate_no_panic)

section \<open>Properties\<close>

text \<open>the change list computed for a side turns the base into exactly that side, whatever the table of
  the comparison holds; the changes are in order and a matched line stands between any two.\<close>

theorem changes_exact:
  assumes "changes base side max_cells = Ok (Some cs)"
  shows "apply_from base 0 cs = Ok side \<and> sorted_wrt (\<lambda>a b. ch_end a < ch_start b) cs"
  using changes_Some [OF assms] apart_from_sorted by blast

theorem changes_exact_witness:
  "\<exists>cs. changes [''a'', ''b''] [''a'', ''c'', ''b''] 100 = Ok (Some cs) \<and>
     apply_from [''a'', ''b''] 0 cs = Ok [''a'', ''c'', ''b'']"
proof -
  obtain r where r: "changes [''a'', ''b''] [''a'', ''c'', ''b''] 100 = Ok r"
    using changes_total by blast
  moreover have "r \<noteq> None"
    using r by (auto simp: changes_def usize_bound_def Let_def res_simps)
  ultimately show ?thesis using changes_exact [of "[''a'', ''b'']" "[''a'', ''c'', ''b'']" 100] by auto
qed

text \<open>C13: a merge keeps the edits of both sides: the combined list holds exactly the changes that turn the
  base into the observed and into the intended text, no two of them touch, and it applies to the base.\<close>

theorem merge_keeps_both_sides:
  assumes "changes base observed max_cells = Ok (Some left)" and "changes base intended max_cells = Ok (Some right)"
    and "combine_changes left right = Some cs"
  shows "set cs = set left \<union> set right \<and> pairwise_apart cs \<and>
     apply_from base 0 left = Ok observed \<and> apply_from base 0 right = Ok intended \<and>
     (\<exists>merged. apply_from base 0 cs = Ok merged)"
proof -
  note l = changes_Some [OF assms(1)] and r = changes_Some [OF assms(2)]
  show ?thesis
    using l r merged_apply [OF l(1) r(1) assms(3)]
      combine_changes_Some [OF apart_pairwise [OF l(1)] apart_pairwise [OF r(1)] assms(3)] by blast
qed

lemma sample_changes:
  "changes [''a'', ''b''] [''x'', ''b''] 100 = Ok (Some [\<lparr>ch_start = 0, ch_end = 1, ch_replacement = [''x'']\<rparr>])"
  "changes [''a'', ''b''] [''a'', ''y''] 100 = Ok (Some [\<lparr>ch_start = 1, ch_end = 2, ch_replacement = [''y'']\<rparr>])"
proof -
  have c: "collect_changes 2 [''x'', ''b''] 0 0 (walk_matches [''a'', ''b''] [''x'', ''b'']
        (fill_table [''a'', ''b''] [''x'', ''b'']) 0 0 @ [(2, 2)]) = Ok [\<lparr>ch_start = 0, ch_end = 1, ch_replacement = [''x'']\<rparr>]"
    "collect_changes 2 [''a'', ''y''] 0 0 (walk_matches [''a'', ''b''] [''a'', ''y'']
        (fill_table [''a'', ''b''] [''a'', ''y'']) 0 0 @ [(2, 2)]) = Ok [\<lparr>ch_start = 1, ch_end = 2, ch_replacement = [''y'']\<rparr>]"
    by code_simp+
  have two: "length [''a'', ''b''] = 2" "length [''x'', ''b''] = 2" "length [''a'', ''y''] = 2" by simp_all
  show "changes [''a'', ''b''] [''x'', ''b''] 100 = Ok (Some [\<lparr>ch_start = 0, ch_end = 1, ch_replacement = [''x'']\<rparr>])"
    unfolding changes_def two Let_def c by (simp add: usize_bound_def)
  show "changes [''a'', ''b''] [''a'', ''y''] 100 = Ok (Some [\<lparr>ch_start = 1, ch_end = 2, ch_replacement = [''y'']\<rparr>])"
    unfolding changes_def two Let_def c by (simp add: usize_bound_def)
qed

theorem merge_keeps_both_sides_witness:
  "\<exists>cs. combine_changes [\<lparr>ch_start = 0, ch_end = 1, ch_replacement = [''x'']\<rparr>]
      [\<lparr>ch_start = 1, ch_end = 2, ch_replacement = [''y'']\<rparr>] = Some cs \<and> length cs = 2 \<and>
     (\<exists>merged. apply_from [''a'', ''b''] 0 cs = Ok merged)"
proof -
  have c: "combine_changes [\<lparr>ch_start = 0, ch_end = 1, ch_replacement = [''x'']\<rparr>]
      [\<lparr>ch_start = 1, ch_end = 2, ch_replacement = [''y'']\<rparr>] =
      Some [\<lparr>ch_start = 0, ch_end = 1, ch_replacement = [''x'']\<rparr>, \<lparr>ch_start = 1, ch_end = 2, ch_replacement = [''y'']\<rparr>]"
    by (simp add: combine_changes_def)
  show ?thesis
    using merge_keeps_both_sides [OF sample_changes c] c by auto
qed

text \<open>the line merge does not depend on which side is called observed and which intended.\<close>

theorem merge_symmetric:
  "merge_linewise K spec base x y max_lines max_cells = merge_linewise K spec base y x max_lines max_cells"
proof -
  have mode: "merge_mode b u v = merge_mode b v u" for b u v
    by (simp add: merge_mode_def)
  show ?thesis
    by (cases "im_bytes base"; cases "im_bytes x"; cases "im_bytes y"; cases "im_mode base"; cases "im_mode x";
        cases "im_mode y"; simp add: merge_linewise_def mode merge_lines_sym split: option.split)
qed

text \<open>for a facet that was admitted, the merge of any three images returns an outcome or a typed error;
  no slice, no \<open>expect\<close> and no table access of the code fails.\<close>

theorem merge_facet_no_panic:
  assumes "artifact_facet_new K artifact owner region projection merge disclosure ownership = Ok spec"
  shows "\<not> is_panic (merge_facet K spec base observed intended)"
proof -
  have region: "region_wf (af_region spec)" using artifact_facet_new_region [OF assms] by blast
  have "merge_facet K spec base observed intended \<noteq> Panic m" for m
  proof
    assume "merge_facet K spec base observed intended = Panic m"
    then obtain t where t: "classify_transition (ri_image base) (ri_image intended) (ri_image observed) = Ok t"
      and p: "(case t of
          TsIntended \<Rightarrow> Ok AlreadyTrue
        | TsUnchanged \<Rightarrow> Ok (Unchanged (ri_id observed))
        | TsBase \<Rightarrow> res_bind (postimage_new K spec (ri_image intended)) (\<lambda>post. Ok (Apply post))
        | TsForeign \<Rightarrow>
            (case af_merge spec of
               Exact \<Rightarrow> Ok (Conflict BothChanged)
             | Linewise max_lines max_cells \<Rightarrow>
                 merge_linewise K spec (ri_image base) (ri_image observed) (ri_image intended) max_lines max_cells)) = Panic m"
      by (auto simp: merge_facet_def res_bind_Panic verify_region_no_panic [OF region] classify_no_panic split: if_splits)
    have "image_validate (ri_image base) = Ok ()" "image_validate (ri_image intended) = Ok ()"
      "image_validate (ri_image observed) = Ok ()"
      using t by (auto simp: classify_transition_def res_simps)
    then show False
      using p merge_linewise_no_panic
      by (auto simp: res_simps postimage_new_no_panic split: transition_state.splits merge_policy.splits)
  qed
  then show ?thesis by (cases "merge_facet K spec base observed intended") auto
qed

definition sample_facet :: "(facet_error, artifact_facet) res" where
  "sample_facet = artifact_facet_new sample_kernel (FacetId (Cid (sym_new ''a'') [])) (FacetId (Cid (sym_new ''o'') []))
     (LineRange ''src/x'' 0 1) (FacetId (Cid (sym_new ''p'') [])) (Linewise 10 100)
     (FacetId (Cid (sym_new ''d'') [])) Authored"

lemma sample_facet_Ok: "is_ok sample_facet"
  by (simp add: sample_facet_def artifact_facet_new_def region_id_def merge_policy_id_def validate_path_def
      facet_fields_def facet_field_def from_fields_def domain_symbol_def sample_kernel_def region_domain_def
      merge_policy_domain_def facet_domain_def Let_def split: res.splits)

theorem merge_facet_no_panic_witness:
  "\<exists>spec. sample_facet = Ok spec \<and>
     \<not> is_panic (merge_facet sample_kernel spec \<lparr>ri_id = af_id spec, ri_facet = af_id spec, ri_image = image_absent\<rparr>
        \<lparr>ri_id = af_id spec, ri_facet = af_id spec, ri_image = image_absent\<rparr>
        \<lparr>ri_id = af_id spec, ri_facet = af_id spec, ri_image = image_absent\<rparr>)"
proof -
  obtain spec where spec: "sample_facet = Ok spec"
    using sample_facet_Ok by (auto simp: is_ok_iff)
  from merge_facet_no_panic [OF spec [unfolded sample_facet_def]] spec show ?thesis by blast
qed

text \<open>C14: content accepted for a line range agrees with the base outside the range: the lines before it
  and behind it are those of the base.\<close>

theorem intended_inside_region:
  assumes "verify_intended_region spec base intended = Ok ()" and "af_region spec = LineRange path start stop"
    and "start < stop"
  shows "\<exists>bb ib bt it mid. im_bytes base = Some bb \<and> im_bytes intended = Some ib \<and> im_mode base = im_mode intended \<and>
     from_utf8 bb = Some bt \<and> from_utf8 ib = Some it \<and>
     text_lines it = take (unat start) (text_lines bt) @ mid @ drop (unat stop) (text_lines bt)"
proof -
  obtain bb ib bt it where tx: "im_bytes base = Some bb" "im_bytes intended = Some ib" "im_mode base = im_mode intended"
      "from_utf8 bb = Some bt" "from_utf8 ib = Some it"
    using assms(1,2) by (auto simp: verify_intended_region_def res_simps split: option.splits if_splits)
  let ?b = "text_lines bt" and ?i = "text_lines it" and ?s = "unat start" and ?e = "unat stop"
  let ?k = "length ?b - ?e"
  have se: "?s < ?e" using assms(3) by (simp add: word_less_nat_alt)
  from assms(1,2) tx have len: "?e \<le> length ?b" "?s + ?k \<le> length ?i"
    and pre: "take ?s ?i = take ?s ?b" and post: "drop (length ?i - ?k) ?i = drop ?e ?b"
    by (auto simp: verify_intended_region_def Let_def slice_def res_simps split: if_splits)
  have "?i = take ?s ?i @ drop ?s (take (length ?i - ?k) ?i) @ drop (length ?i - ?k) ?i"
    using len(2) by (metis append.assoc append_take_drop_id le_add_diff_inverse2 min_def add_le_imp_le_diff take_take)
  then have "?i = take ?s ?b @ drop ?s (take (length ?i - ?k) ?i) @ drop ?e ?b"
    using pre post by simp
  with tx show ?thesis by blast
qed

definition sample_text :: "string \<Rightarrow> portable_image" where
  "sample_text t = \<lparr>im_bytes = Some (as_bytes t), im_mode = Some 420\<rparr>"

text \<open>The second line of three: one line becomes two, the first and the last line are the base's.\<close>

definition sample_middle :: "(facet_error, artifact_facet) res" where
  "sample_middle = artifact_facet_new sample_kernel (FacetId (Cid (sym_new ''a'') [])) (FacetId (Cid (sym_new ''o'') []))
     (LineRange ''src/x'' 1 2) (FacetId (Cid (sym_new ''p'') [])) (Linewise 10 100)
     (FacetId (Cid (sym_new ''d'') [])) Authored"

definition sample_base_text :: string where
  "sample_base_text = ''a'' @ [CHR 0x0A] @ ''b'' @ [CHR 0x0A] @ ''d''"

definition sample_intended_text :: string where
  "sample_intended_text = ''a'' @ [CHR 0x0A] @ ''c'' @ [CHR 0x0A] @ ''e'' @ [CHR 0x0A] @ ''d''"

lemma sample_middle_Ok: "is_ok sample_middle"
  by (simp add: sample_middle_def artifact_facet_new_def region_id_def merge_policy_id_def validate_path_def
      facet_fields_def facet_field_def from_fields_def domain_symbol_def sample_kernel_def region_domain_def
      merge_policy_domain_def facet_domain_def Let_def split: res.splits)

lemma sample_middle_lines:
  "from_utf8 (as_bytes sample_base_text) = Some sample_base_text"
  "from_utf8 (as_bytes sample_intended_text) = Some sample_intended_text"
  "text_lines sample_base_text = [''a'' @ [CHR 0x0A], ''b'' @ [CHR 0x0A], ''d'']"
  "text_lines sample_intended_text = [''a'' @ [CHR 0x0A], ''c'' @ [CHR 0x0A], ''e'' @ [CHR 0x0A], ''d'']"
  by (simp_all add: from_utf8_as_bytes str_ok_ascii sample_base_text_def sample_intended_text_def text_lines_def)

theorem intended_inside_region_witness:
  "\<exists>spec mid. sample_middle = Ok spec \<and>
     verify_intended_region spec (sample_text sample_base_text) (sample_text sample_intended_text) = Ok () \<and>
     text_lines sample_intended_text = [''a'' @ [CHR 0x0A]] @ mid @ [''d''] \<and> length mid = 2"
proof -
  obtain spec where spec: "sample_middle = Ok spec"
    using sample_middle_Ok by (auto simp: is_ok_iff)
  then have r: "af_region spec = LineRange ''src/x'' 1 2"
    using artifact_facet_new_region unfolding sample_middle_def by blast
  have v: "verify_intended_region spec (sample_text sample_base_text) (sample_text sample_intended_text) = Ok ()"
    by (simp add: verify_intended_region_def r sample_text_def sample_middle_lines slice_def)
  from intended_inside_region [OF v r] obtain mid where
    "text_lines sample_intended_text = take 1 (text_lines sample_base_text) @ mid @ drop 2 (text_lines sample_base_text)"
    by (auto simp: sample_text_def sample_middle_lines(1,2))
  then have mid: "text_lines sample_intended_text = [''a'' @ [CHR 0x0A]] @ mid @ [''d'']" by (simp add: sample_middle_lines(3))
  then have "length (text_lines sample_intended_text) = length mid + 2" by simp
  then have "length mid = 2" by (simp add: sample_middle_lines(4))
  then show ?thesis using spec v mid by blast
qed

end
