(* ===== verification/Porch.thy ===== *)
theory Porch
  imports Kernel_Iface "HOL-Library.Sublist"
begin

text \<open>
  The mutual projection porch, \<open>crates/sim-mutual-projection/src\<close>: offers, acceptances and copied facts
  (\<open>model.rs\<close>) and the coordinator (\<open>porch.rs\<close>). The key verifier is a function parameter; every call
  of the clock is an argument, in the order of the calls. The mutex makes each operation one step.
\<close>

section \<open>Data and identities\<close>

definition push_bytes :: "u8 list \<Rightarrow> u8 list \<Rightarrow> u8 list" where
  "push_bytes out bytes = out @ u64_to_be (word_of_nat (length bytes)) @ bytes"

definition push_id :: "kernel \<Rightarrow> u8 list \<Rightarrow> cid \<Rightarrow> u8 list" where
  "push_id K out i = push_bytes out (as_bytes (as_qualified_str K (cid_alg i))) @ cid_bytes i"

definition mutual_id :: "kernel \<Rightarrow> string \<Rightarrow> u8 list \<Rightarrow> cid" where
  "mutual_id K label bytes = Cid (sym_qualified ''mutual'' ''sha256-v1'') (sha256 K (as_bytes label @ bytes))"

type_synonym fact_fields = "(string, u8 list) btree_map"

definition encode_fields :: "fact_fields \<Rightarrow> u8 list" where
  "encode_fields fs = foldl (\<lambda>out (name, value). push_bytes (push_bytes out (as_bytes name)) value) [] fs"

record provenance_link =
  pl_relation :: string
  pl_content :: cid

record fact =
  fa_id :: cid
  fa_fields :: fact_fields
  fa_provenance :: "provenance_link list"

definition fact_synthetic :: "kernel \<Rightarrow> fact_fields \<Rightarrow> provenance_link list \<Rightarrow> fact" where
  "fact_synthetic K fs prov =
     \<lparr>fa_id = mutual_id K ''sim-mutual-fact-v1'' (encode_fields fs), fa_fields = fs, fa_provenance = prov\<rparr>"

datatype field_shape = FieldShape (shape_fields: "string list")

definition field_shape_new :: "string list \<Rightarrow> (string, field_shape) res" where
  "field_shape_new names =
     (let fs = scollect names in
      if fs = [] \<or> list_ex (\<lambda>f. f = []) fs then Err ''a projection requires non-empty field names''
      else Ok (FieldShape fs))"

record offer =
  of_id :: cid
  of_inviter :: string
  of_recipient :: string
  of_inviter_key :: string
  of_recipient_key :: string
  of_fact :: cid
  of_shape :: field_shape
  of_expires_at :: u64

definition offer_bytes :: "kernel \<Rightarrow> string \<Rightarrow> string \<Rightarrow> string \<Rightarrow> string \<Rightarrow> cid \<Rightarrow> field_shape \<Rightarrow> u64 \<Rightarrow> u8 list" where
  "offer_bytes K inviter recipient inviter_key recipient_key fct shape expires_at =
     (let bytes = foldl (\<lambda>out v. push_bytes out (as_bytes v)) [] [inviter, recipient, inviter_key, recipient_key];
          bytes = push_id K bytes fct;
          bytes = foldl (\<lambda>out f. push_bytes out (as_bytes f)) bytes (shape_fields shape)
      in bytes @ u64_to_be expires_at)"

definition offer_new ::
    "kernel \<Rightarrow> string \<Rightarrow> string \<Rightarrow> string \<Rightarrow> string \<Rightarrow> cid \<Rightarrow> field_shape \<Rightarrow> u64 \<Rightarrow> offer" where
  "offer_new K inviter recipient inviter_key recipient_key fct shape expires_at =
     \<lparr>of_id = mutual_id K ''sim-mutual-offer-v1''
        (offer_bytes K inviter recipient inviter_key recipient_key fct shape expires_at),
      of_inviter = inviter, of_recipient = recipient, of_inviter_key = inviter_key,
      of_recipient_key = recipient_key, of_fact = fct, of_shape = shape, of_expires_at = expires_at\<rparr>"

definition acceptance_message :: "kernel \<Rightarrow> offer \<Rightarrow> u8 list" where
  "acceptance_message K f = push_id K (as_bytes ''sim-mutual-accept-v1'' @ [0]) (of_id f)"

record acceptance =
  ac_offer :: cid
  ac_party :: string
  ac_key :: string
  ac_proof :: "u8 list"

record copied_fact =
  cf_source :: cid
  cf_fields :: fact_fields
  cf_provenance :: "provenance_link list"

record receipt =
  rc_id :: cid
  rc_offer :: cid
  rc_copied :: cid
  rc_admitted_at :: u64

record tombstone =
  ts_offer :: cid
  ts_receipt :: "cid option"
  ts_ended_at :: u64
  ts_reason :: string

datatype audit_event =
    Offered cid
  | Refused cid
  | Copied receipt
  | Ended tombstone

definition copied_bytes :: "kernel \<Rightarrow> copied_fact \<Rightarrow> u8 list" where
  "copied_bytes K c =
     foldl (\<lambda>out l. push_id K (push_bytes out (as_bytes (pl_relation l))) (pl_content l))
       (encode_fields (cf_fields c)) (cf_provenance c)"

definition copied_id :: "kernel \<Rightarrow> copied_fact \<Rightarrow> cid" where
  "copied_id K c = mutual_id K ''sim-mutual-copy-v1'' (copied_bytes K c)"

definition receipt_id :: "kernel \<Rightarrow> cid \<Rightarrow> cid \<Rightarrow> u64 \<Rightarrow> cid" where
  "receipt_id K f copied at =
     mutual_id K ''sim-mutual-receipt-v1'' (push_id K (push_id K [] f) copied @ u64_to_be at)"

section \<open>The porch\<close>

datatype porch_error =
    UnknownOffer
  | Inactive
  | WrongAcceptance
  | InvalidProof
  | MissingAcceptance
  | WrongFact
  | MissingField string
  | DeliveryFailed

record porch =
  po_offers :: "(cid, offer) btree_map"
  po_acceptances :: "(cid \<times> string, acceptance) btree_map"
  po_copies :: "(cid, copied_fact) btree_map"
  po_receipts :: "(cid, receipt) btree_map"
  po_ended :: "(cid, tombstone) btree_map"
  po_audit :: "audit_event list"

definition porch_new :: porch where
  "porch_new = \<lparr>po_offers = [], po_acceptances = [], po_copies = [], po_receipts = [], po_ended = [], po_audit = []\<rparr>"

type_synonym verifier = "string \<Rightarrow> u8 list \<Rightarrow> u8 list \<Rightarrow> bool"

definition ensure_active :: "u64 \<Rightarrow> porch \<Rightarrow> offer \<Rightarrow> (porch_error, unit) res" where
  "ensure_active now s f =
     (if of_expires_at f \<le> now \<or> bcontains (po_ended s) (of_id f) then Err Inactive else Ok ())"

definition end_offer :: "cid \<Rightarrow> u64 \<Rightarrow> string \<Rightarrow> porch \<Rightarrow> porch" where
  "end_offer i at reason s =
     (if bcontains (po_ended s) i then s
      else
        let t = \<lparr>ts_offer = i, ts_receipt = map_option rc_id (bget (po_receipts s) i), ts_ended_at = at, ts_reason = reason\<rparr>
        in s\<lparr>po_copies := bremove i (po_copies s),
             po_acceptances := bretain (\<lambda>(i', p) a. i' \<noteq> i) (po_acceptances s),
             po_ended := binsert i t (po_ended s),
             po_audit := po_audit s @ [Ended t]\<rparr>)"

definition porch_invite :: "offer \<Rightarrow> porch \<Rightarrow> porch \<times> (porch_error, cid) res" where
  "porch_invite f s =
     (if of_inviter f = of_recipient f \<or> of_inviter_key f = of_recipient_key f then (s, Err MissingAcceptance)
      else
        (s\<lparr>po_offers := bor_insert (of_id f) f (po_offers s),
           po_audit := po_audit s @ (if Offered (of_id f) \<in> set (po_audit s) then [] else [Offered (of_id f)])\<rparr>,
         Ok (of_id f)))"

definition porch_accept :: "kernel \<Rightarrow> verifier \<Rightarrow> u64 \<Rightarrow> acceptance \<Rightarrow> porch \<Rightarrow> porch \<times> (porch_error, unit) res" where
  "porch_accept K verify now a s =
     (case bget (po_offers s) (ac_offer a) of
        None \<Rightarrow> (s, Err UnknownOffer)
      | Some f \<Rightarrow>
          (case ensure_active now s f of
             Err e \<Rightarrow> (s, Err e)
           | Panic m \<Rightarrow> (s, Panic m)
           | Ok _ \<Rightarrow>
               (let expected =
                  (if ac_party a = of_inviter f then Some (of_inviter_key f)
                   else if ac_party a = of_recipient f then Some (of_recipient_key f)
                   else None)
                in case expected of
                     None \<Rightarrow> (s, Err WrongAcceptance)
                   | Some expected_key \<Rightarrow>
                       if ac_key a \<noteq> expected_key then (s, Err WrongAcceptance)
                       else if \<not> verify expected_key (acceptance_message K f) (ac_proof a) then (s, Err InvalidProof)
                       else (s\<lparr>po_acceptances := bor_insert (of_id f, ac_party a) a (po_acceptances s)\<rparr>, Ok ()))))"

definition porch_refuse :: "u64 \<Rightarrow> cid \<Rightarrow> string \<Rightarrow> porch \<Rightarrow> porch \<times> (porch_error, unit) res" where
  "porch_refuse now i party s =
     (case bget (po_offers s) i of
        None \<Rightarrow> (s, Err UnknownOffer)
      | Some f \<Rightarrow>
          if party \<noteq> of_inviter f \<and> party \<noteq> of_recipient f then (s, Err WrongAcceptance)
          else
            let s = (if bcontains (po_ended s) i then s else s\<lparr>po_audit := po_audit s @ [Refused i]\<rparr>)
            in (end_offer i now ''refused'' s, Ok ()))"

text \<open>The loop over the offered fields.\<close>

fun copy_fields :: "fact_fields \<Rightarrow> string list \<Rightarrow> fact_fields \<Rightarrow> (porch_error, fact_fields) res" where
  "copy_fields source [] flds = Ok flds"
| "copy_fields source (name # names) flds =
     res_bind (ok_or (bget source name) (MissingField name)) (\<lambda>v. copy_fields source names (binsert name v flds))"

definition deliver_inner ::
    "kernel \<Rightarrow> u64 \<Rightarrow> u64 \<Rightarrow> cid \<Rightarrow> fact \<Rightarrow> bool \<Rightarrow> porch \<Rightarrow> porch \<times> (porch_error, receipt) res" where
  "deliver_inner K now1 now2 i fa fail s =
     (case bget (po_receipts s) i of
        Some r \<Rightarrow> (s, Ok r)
      | None \<Rightarrow>
          (case (res_bind (ok_or (bget (po_offers s) i) UnknownOffer) (\<lambda>f.
                 res_bind (ensure_active now1 s f) (\<lambda>_.
                 if list_ex (\<lambda>p. \<not> bcontains (po_acceptances s) (of_id f, p)) [of_inviter f, of_recipient f]
                 then Err MissingAcceptance
                 else if fa_id fa \<noteq> of_fact f then Err WrongFact
                 else
                   res_bind (copy_fields (fa_fields fa) (shape_fields (of_shape f)) []) (\<lambda>flds.
                   if fail then Err DeliveryFailed else Ok (f, flds))))) of
             Err e \<Rightarrow> (s, Err e)
           | Panic m \<Rightarrow> (s, Panic m)
           | Ok (f, flds) \<Rightarrow>
               let copy = \<lparr>cf_source = fa_id fa, cf_fields = flds, cf_provenance = fa_provenance fa\<rparr>;
                   copied = copied_id K copy;
                   r = \<lparr>rc_id = receipt_id K (of_id f) copied now2, rc_offer = of_id f, rc_copied = copied,
                        rc_admitted_at = now2\<rparr>
               in (s\<lparr>po_copies := binsert (of_id f) copy (po_copies s),
                     po_receipts := binsert (of_id f) r (po_receipts s),
                     po_audit := po_audit s @ [Copied r]\<rparr>, Ok r)))"

definition porch_deliver :: "kernel \<Rightarrow> u64 \<Rightarrow> u64 \<Rightarrow> cid \<Rightarrow> fact \<Rightarrow> porch \<Rightarrow> porch \<times> (porch_error, receipt) res" where
  "porch_deliver K now1 now2 i fa s = deliver_inner K now1 now2 i fa False s"

definition porch_read :: "u64 \<Rightarrow> u64 \<Rightarrow> cid \<Rightarrow> porch \<Rightarrow> porch \<times> (porch_error, copied_fact) res" where
  "porch_read now1 now2 i s =
     (case bget (po_offers s) i of
        None \<Rightarrow> (s, Err UnknownOffer)
      | Some f \<Rightarrow>
          if of_expires_at f \<le> now1 then (end_offer i now2 ''expired'' s, Err Inactive)
          else if bcontains (po_ended s) i then (s, Err Inactive)
          else (s, ok_or (bget (po_copies s) i) MissingAcceptance))"

definition porch_revoke :: "u64 \<Rightarrow> cid \<Rightarrow> string \<Rightarrow> porch \<Rightarrow> porch \<times> (porch_error, tombstone) res" where
  "porch_revoke now i party s =
     (case bget (po_offers s) i of
        None \<Rightarrow> (s, Err UnknownOffer)
      | Some f \<Rightarrow>
          if party \<noteq> of_inviter f \<and> party \<noteq> of_recipient f then (s, Err WrongAcceptance)
          else let s = end_offer i now ''revoked'' s in (s, opt_expect (bget (po_ended s) i) ''just ended''))"

definition porch_audit :: "porch \<Rightarrow> audit_event list" where
  "porch_audit s = po_audit s"

section \<open>Histories of a porch\<close>

inductive porch_step :: "kernel \<Rightarrow> verifier \<Rightarrow> porch \<Rightarrow> porch \<Rightarrow> bool" for K verify where
  ps_invite: "porch_step K verify s (fst (porch_invite f s))"
| ps_accept: "porch_step K verify s (fst (porch_accept K verify now a s))"
| ps_refuse: "porch_step K verify s (fst (porch_refuse now i party s))"
| ps_deliver: "porch_step K verify s (fst (deliver_inner K now1 now2 i fa fail s))"
| ps_read: "porch_step K verify s (fst (porch_read now1 now2 i s))"
| ps_revoke: "porch_step K verify s (fst (porch_revoke now i party s))"

abbreviation porch_steps :: "kernel \<Rightarrow> verifier \<Rightarrow> porch \<Rightarrow> porch \<Rightarrow> bool" where
  "porch_steps K verify \<equiv> (porch_step K verify)\<^sup>*\<^sup>*"

definition porch_reachable :: "kernel \<Rightarrow> verifier \<Rightarrow> porch \<Rightarrow> bool" where
  "porch_reachable K verify s \<longleftrightarrow> porch_steps K verify porch_new s"

text \<open>
  Every operation changes the state in one of six ways; an invariant of these is an invariant of
  the porch.
\<close>

definition record_copy :: "cid \<Rightarrow> copied_fact \<Rightarrow> receipt \<Rightarrow> porch \<Rightarrow> porch" where
  "record_copy i c r s =
     s\<lparr>po_copies := binsert i c (po_copies s), po_receipts := binsert i r (po_receipts s),
       po_audit := po_audit s @ [Copied r]\<rparr>"

definition key_of :: "offer \<Rightarrow> string \<Rightarrow> string option" where
  "key_of f p =
     (if p = of_inviter f then Some (of_inviter_key f)
      else if p = of_recipient f then Some (of_recipient_key f) else None)"

definition accepted_by :: "kernel \<Rightarrow> verifier \<Rightarrow> offer \<Rightarrow> string \<Rightarrow> acceptance \<Rightarrow> bool" where
  "accepted_by K verify f p a \<longleftrightarrow>
     ac_offer a = of_id f \<and> ac_party a = p \<and> key_of f p = Some (ac_key a) \<and>
     verify (ac_key a) (acceptance_message K f) (ac_proof a)"

definition copy_matches :: "kernel \<Rightarrow> offer \<Rightarrow> copied_fact \<Rightarrow> receipt \<Rightarrow> bool" where
  "copy_matches K f c r \<longleftrightarrow>
     cf_source c = of_fact f \<and> set (bkeys (cf_fields c)) = set (shape_fields (of_shape f)) \<and>
     rc_offer r = of_id f \<and> rc_copied r = copied_id K c \<and>
     rc_id r = receipt_id K (of_id f) (copied_id K c) (rc_admitted_at r)"

definition may_deliver :: "porch \<Rightarrow> cid \<Rightarrow> offer \<Rightarrow> bool" where
  "may_deliver s i f \<longleftrightarrow>
     bget (po_offers s) i = Some f \<and> \<not> bcontains (po_ended s) (of_id f) \<and>
     bget (po_receipts s) i = None \<and>
     bcontains (po_acceptances s) (of_id f, of_inviter f) \<and>
     bcontains (po_acceptances s) (of_id f, of_recipient f)"

lemma copy_fields_Ok:
  "copy_fields source names flds = Ok out \<Longrightarrow>
     (\<forall>n. bget out n = (if n \<in> set names then bget source n else bget flds n)) \<and>
     (\<forall>n\<in>set names. bget source n \<noteq> None)"
proof (induction source names flds rule: copy_fields.induct)
  case (2 source name names flds)
  from "2.prems" obtain v where v: "bget source name = Some v"
      and rest: "copy_fields source names (binsert name v flds) = Ok out"
    by (auto simp: res_simps)
  from "2.IH" [OF _ rest] v show ?case by auto
qed auto

lemma copy_fields_present:
  "\<forall>n\<in>set names. bget source n \<noteq> None \<Longrightarrow> \<exists>out. copy_fields source names flds = Ok out"
  by (induction source names flds rule: copy_fields.induct) auto

lemma copy_fields_bsorted: "copy_fields source names flds = Ok out \<Longrightarrow> bsorted flds \<Longrightarrow> bsorted out"
  by (induction source names flds rule: copy_fields.induct) (auto simp: res_simps)

lemma copy_fields_keys:
  assumes "copy_fields source names [] = Ok out"
  shows "set (bkeys out) = set names"
proof -
  have "k \<in> set (bkeys out) \<longleftrightarrow> k \<in> set names" for k
    using copy_fields_Ok [OF assms] bget_None_iff [of out k] by (auto split: if_splits)
  then show ?thesis by blast
qed

lemma ensure_active_Ok:
  "ensure_active now s f = Ok u \<longleftrightarrow> \<not> of_expires_at f \<le> now \<and> \<not> bcontains (po_ended s) (of_id f)"
  by (simp add: ensure_active_def)

lemma ensure_active_cases: "ensure_active now s f = Ok () \<or> ensure_active now s f = Err Inactive"
  by (simp add: ensure_active_def)

text \<open>The whole of a delivery.\<close>

definition delivery_of :: "kernel \<Rightarrow> u64 \<Rightarrow> offer \<Rightarrow> fact \<Rightarrow> fact_fields \<Rightarrow> copied_fact \<times> receipt" where
  "delivery_of K at f fa flds =
     (let c = \<lparr>cf_source = fa_id fa, cf_fields = flds, cf_provenance = fa_provenance fa\<rparr>
      in (c, \<lparr>rc_id = receipt_id K (of_id f) (copied_id K c) at, rc_offer = of_id f, rc_copied = copied_id K c,
              rc_admitted_at = at\<rparr>))"

lemma deliver_inner_receipt:
  "bget (po_receipts s) i = Some r \<Longrightarrow> deliver_inner K now1 now2 i fa fail s = (s, Ok r)"
  by (simp add: deliver_inner_def)

lemma deliver_inner_new:
  assumes "deliver_inner K now1 now2 i fa fail s = (s', res)" and "bget (po_receipts s) i = None"
  shows "(s' = s \<and> \<not> is_ok res) \<or>
     (\<exists>f flds c r. may_deliver s i f \<and> \<not> of_expires_at f \<le> now1 \<and> fa_id fa = of_fact f \<and> \<not> fail \<and>
        copy_fields (fa_fields fa) (shape_fields (of_shape f)) [] = Ok flds \<and>
        (c, r) = delivery_of K now2 f fa flds \<and> s' = record_copy (of_id f) c r s \<and> res = Ok r)"
  using assms
  by (auto simp: deliver_inner_def may_deliver_def delivery_of_def record_copy_def res_simps Let_def
      ensure_active_Ok split: res.splits if_splits option.splits)

lemma delivery_of_matches:
  "(c, r) = delivery_of K now2 f fa flds \<Longrightarrow> fa_id fa = of_fact f \<Longrightarrow>
   copy_fields (fa_fields fa) (shape_fields (of_shape f)) [] = Ok flds \<Longrightarrow> copy_matches K f c r"
  by (simp add: delivery_of_def copy_matches_def Let_def copy_fields_keys)

lemma porch_accept_cases:
  assumes "porch_accept K verify now a s = (s', res)"
  shows "(s' = s \<and> \<not> is_ok res) \<or>
     (\<exists>f. bget (po_offers s) (ac_offer a) = Some f \<and> \<not> bcontains (po_ended s) (of_id f) \<and>
        \<not> of_expires_at f \<le> now \<and> key_of f (ac_party a) = Some (ac_key a) \<and>
        verify (ac_key a) (acceptance_message K f) (ac_proof a) \<and>
        s' = s\<lparr>po_acceptances := bor_insert (of_id f, ac_party a) a (po_acceptances s)\<rparr> \<and> res = Ok ())"
proof (cases "bget (po_offers s) (ac_offer a)")
  case None
  then show ?thesis using assms by (auto simp: porch_accept_def)
next
  case (Some f)
  have eq: "porch_accept K verify now a s =
      (case ensure_active now s f of
         Err e \<Rightarrow> (s, Err e)
       | Panic m \<Rightarrow> (s, Panic m)
       | Ok _ \<Rightarrow>
           (case key_of f (ac_party a) of
              None \<Rightarrow> (s, Err WrongAcceptance)
            | Some k \<Rightarrow>
                if ac_key a \<noteq> k then (s, Err WrongAcceptance)
                else if \<not> verify k (acceptance_message K f) (ac_proof a) then (s, Err InvalidProof)
                else (s\<lparr>po_acceptances := bor_insert (of_id f, ac_party a) a (po_acceptances s)\<rparr>, Ok ())))"
    unfolding porch_accept_def Some key_of_def Let_def by (simp only: option.case)
  show ?thesis
    using assms Some unfolding eq
    by (cases "key_of f (ac_party a)") (auto simp: ensure_active_def split: if_splits)
qed

lemma porch_steps_invariant:
  assumes steps: "porch_steps K verify s s'" and start: "P s"
    and invite: "\<And>s f. P s \<Longrightarrow> of_inviter f \<noteq> of_recipient f \<Longrightarrow> of_inviter_key f \<noteq> of_recipient_key f \<Longrightarrow>
       P (s\<lparr>po_offers := bor_insert (of_id f) f (po_offers s),
            po_audit := po_audit s @ (if Offered (of_id f) \<in> set (po_audit s) then [] else [Offered (of_id f)])\<rparr>)"
    and accept: "\<And>s f a. P s \<Longrightarrow> bget (po_offers s) (ac_offer a) = Some f \<Longrightarrow> \<not> bcontains (po_ended s) (of_id f) \<Longrightarrow>
       key_of f (ac_party a) = Some (ac_key a) \<Longrightarrow> verify (ac_key a) (acceptance_message K f) (ac_proof a) \<Longrightarrow>
       P (s\<lparr>po_acceptances := bor_insert (of_id f, ac_party a) a (po_acceptances s)\<rparr>)"
    and refused: "\<And>s i f now. P s \<Longrightarrow> bget (po_offers s) i = Some f \<Longrightarrow> \<not> bcontains (po_ended s) i \<Longrightarrow>
       P (end_offer i now ''refused'' (s\<lparr>po_audit := po_audit s @ [Refused i]\<rparr>))"
    and ended: "\<And>s i f now reason. P s \<Longrightarrow> bget (po_offers s) i = Some f \<Longrightarrow> \<not> bcontains (po_ended s) i \<Longrightarrow>
       P (end_offer i now reason s)"
    and copy: "\<And>s i f c r. P s \<Longrightarrow> may_deliver s i f \<Longrightarrow> copy_matches K f c r \<Longrightarrow> P (record_copy (of_id f) c r s)"
  shows "P s'"
  using steps
proof (induction rule: rtranclp_induct)
  case base
  show ?case by (rule start)
next
  case (step s s')
  have nop: "end_offer i now reason s = s" if "bcontains (po_ended s) i" for i now reason
    using that by (simp add: end_offer_def)
  note P = \<open>P s\<close>
  from step.hyps(2) show ?case
  proof cases
    case (ps_invite f)
    then show ?thesis using P invite [OF P, of f] by (simp add: porch_invite_def)
  next
    case (ps_accept now a)
    then have "porch_accept K verify now a s = (s', snd (porch_accept K verify now a s))" by simp
    from porch_accept_cases [OF this] show ?thesis using P accept [OF P] by blast
  next
    case (ps_refuse now i party)
    then show ?thesis using P refused [OF P, of i] nop
      by (auto simp: porch_refuse_def Let_def split: option.splits if_splits)
  next
    case (ps_deliver now1 now2 i fa fail)
    then have run: "deliver_inner K now1 now2 i fa fail s = (s', snd (deliver_inner K now1 now2 i fa fail s))"
      by simp
    show ?thesis
    proof (cases "bget (po_receipts s) i")
      case None
      from deliver_inner_new [OF run None] show ?thesis
        using P copy [OF P] delivery_of_matches by metis
    next
      case (Some r)
      then show ?thesis using run P by (simp add: deliver_inner_receipt)
    qed
  next
    case (ps_read now1 now2 i)
    then show ?thesis using P ended [OF P, of i] nop
      by (cases "bcontains (po_ended s) i") (auto simp: porch_read_def split: option.splits if_splits)
  next
    case (ps_revoke now i party)
    then show ?thesis using P ended [OF P, of i] nop
      by (cases "bcontains (po_ended s) i") (auto simp: porch_revoke_def Let_def split: option.splits if_splits)
  qed
qed

section \<open>The invariant\<close>

definition porch_offers_inv :: "porch \<Rightarrow> bool" where
  "porch_offers_inv s \<longleftrightarrow>
     (\<forall>i f. bget (po_offers s) i = Some f \<longrightarrow>
        of_id f = i \<and> of_inviter f \<noteq> of_recipient f \<and> of_inviter_key f \<noteq> of_recipient_key f)"

definition porch_acceptances_inv :: "kernel \<Rightarrow> verifier \<Rightarrow> porch \<Rightarrow> bool" where
  "porch_acceptances_inv K verify s \<longleftrightarrow>
     bsorted (po_acceptances s) \<and>
     (\<forall>i p a. bget (po_acceptances s) (i, p) = Some a \<longrightarrow>
        \<not> bcontains (po_ended s) i \<and> (\<exists>f. bget (po_offers s) i = Some f \<and> accepted_by K verify f p a))"

definition porch_copies_inv :: "kernel \<Rightarrow> porch \<Rightarrow> bool" where
  "porch_copies_inv K s \<longleftrightarrow>
     (\<forall>i c. bget (po_copies s) i = Some c \<longrightarrow>
        \<not> bcontains (po_ended s) i \<and>
        (\<exists>f r. bget (po_offers s) i = Some f \<and> bget (po_receipts s) i = Some r \<and> copy_matches K f c r \<and>
           bcontains (po_acceptances s) (i, of_inviter f) \<and> bcontains (po_acceptances s) (i, of_recipient f)))"

definition porch_receipts_inv :: "porch \<Rightarrow> bool" where
  "porch_receipts_inv s \<longleftrightarrow>
     (\<forall>i r. bget (po_receipts s) i = Some r \<longrightarrow>
        rc_offer r = i \<and> bcontains (po_offers s) i \<and> (bcontains (po_ended s) i \<or> bcontains (po_copies s) i)) \<and>
     (\<forall>i t. bget (po_ended s) i = Some t \<longrightarrow>
        ts_offer t = i \<and> bcontains (po_offers s) i \<and> ts_receipt t = map_option rc_id (bget (po_receipts s) i))"

definition porch_inv :: "kernel \<Rightarrow> verifier \<Rightarrow> porch \<Rightarrow> bool" where
  "porch_inv K verify s \<longleftrightarrow>
     porch_offers_inv s \<and> porch_acceptances_inv K verify s \<and> porch_copies_inv K s \<and> porch_receipts_inv s"

lemma porch_inv_new: "porch_inv K verify porch_new"
  by (simp add: porch_inv_def porch_offers_inv_def porch_acceptances_inv_def porch_copies_inv_def
      porch_receipts_inv_def porch_new_def)

lemmas porch_inv_defs =
  porch_inv_def porch_offers_inv_def porch_acceptances_inv_def porch_copies_inv_def porch_receipts_inv_def

lemma porch_inv_invite:
  assumes "porch_inv K verify s" "of_inviter f \<noteq> of_recipient f" "of_inviter_key f \<noteq> of_recipient_key f"
  shows "porch_inv K verify (s\<lparr>po_offers := bor_insert (of_id f) f (po_offers s), po_audit := A\<rparr>)"
proof -
  have keep: "bget (bor_insert (of_id f) f (po_offers s)) i = Some g" if "bget (po_offers s) i = Some g" for i g
    using that by auto
  have known: "bcontains (bor_insert (of_id f) f (po_offers s)) i" if "bcontains (po_offers s) i" for i
    using that by (auto simp: bcontains_def)
  have "porch_offers_inv (s\<lparr>po_offers := bor_insert (of_id f) f (po_offers s), po_audit := A\<rparr>)"
    using assms by (auto simp: porch_inv_def porch_offers_inv_def split: if_splits)
  moreover have "porch_acceptances_inv K verify (s\<lparr>po_offers := bor_insert (of_id f) f (po_offers s), po_audit := A\<rparr>)"
    using assms(1) keep unfolding porch_inv_def porch_acceptances_inv_def by (simp del: bget_bor_insert) blast
  moreover have "porch_copies_inv K (s\<lparr>po_offers := bor_insert (of_id f) f (po_offers s), po_audit := A\<rparr>)"
    using assms(1) keep unfolding porch_inv_def porch_copies_inv_def by (simp del: bget_bor_insert) blast
  moreover have "porch_receipts_inv (s\<lparr>po_offers := bor_insert (of_id f) f (po_offers s), po_audit := A\<rparr>)"
    using assms(1) known unfolding porch_inv_def porch_receipts_inv_def by simp
  ultimately show ?thesis by (simp add: porch_inv_def)
qed

lemma porch_inv_accept:
  assumes inv: "porch_inv K verify s" and f: "bget (po_offers s) (ac_offer a) = Some f"
    and "\<not> bcontains (po_ended s) (of_id f)" "key_of f (ac_party a) = Some (ac_key a)"
      "verify (ac_key a) (acceptance_message K f) (ac_proof a)"
  shows "porch_inv K verify (s\<lparr>po_acceptances := bor_insert (of_id f, ac_party a) a (po_acceptances s)\<rparr>)"
proof -
  from inv f have i: "of_id f = ac_offer a" by (auto simp: porch_inv_def porch_offers_inv_def)
  with assms have "accepted_by K verify f (ac_party a) a" by (simp add: accepted_by_def)
  then have "porch_acceptances_inv K verify (s\<lparr>po_acceptances := bor_insert (of_id f, ac_party a) a (po_acceptances s)\<rparr>)"
    using inv f assms(3) i unfolding porch_inv_def porch_acceptances_inv_def by (auto split: if_splits)
  moreover have "porch_copies_inv K (s\<lparr>po_acceptances := bor_insert (of_id f, ac_party a) a (po_acceptances s)\<rparr>)"
    using inv unfolding porch_inv_def porch_copies_inv_def by (fastforce simp: bcontains_def)
  ultimately show ?thesis using inv by (simp add: porch_inv_def porch_offers_inv_def porch_receipts_inv_def)
qed

lemma porch_inv_end:
  assumes inv: "porch_inv K verify s" and f: "bget (po_offers s) i = Some f" and "\<not> bcontains (po_ended s) i"
  shows "porch_inv K verify (end_offer i now reason (s\<lparr>po_audit := A\<rparr>))"
proof -
  have acc: "bget (bretain (\<lambda>(i', p) a. i' \<noteq> i) (po_acceptances s)) (j, p) =
      (if j = i then None else bget (po_acceptances s) (j, p))" for j p
    using inv by (auto simp: porch_inv_def porch_acceptances_inv_def bget_bretain split: option.splits)
  let ?s = "end_offer i now reason (s\<lparr>po_audit := A\<rparr>)"
  have "porch_offers_inv ?s"
    using inv by (auto simp: porch_inv_def porch_offers_inv_def end_offer_def Let_def)
  moreover have "porch_acceptances_inv K verify ?s"
    using inv assms(3) unfolding porch_inv_def porch_acceptances_inv_def
    by (auto simp: end_offer_def Let_def acc split: if_splits)
  moreover have "porch_copies_inv K ?s"
    using inv assms(3) unfolding porch_inv_def porch_copies_inv_def
    by (auto simp: end_offer_def Let_def acc bcontains_def split: if_splits)
  moreover have "porch_receipts_inv ?s"
    using inv assms(2,3) unfolding porch_inv_def porch_receipts_inv_def
    by (auto simp: end_offer_def Let_def bcontains_def split: if_splits)
  ultimately show ?thesis by (simp add: porch_inv_def)
qed

lemma porch_inv_copy:
  assumes inv: "porch_inv K verify s" and may: "may_deliver s i f" and match: "copy_matches K f c r"
  shows "porch_inv K verify (record_copy (of_id f) c r s)"
proof -
  from inv may have i: "of_id f = i" by (auto simp: may_deliver_def porch_inv_def porch_offers_inv_def)
  from match have r: "rc_offer r = of_id f" by (simp add: copy_matches_def)
  have "porch_acceptances_inv K verify (record_copy (of_id f) c r s)"
    using inv by (simp add: porch_inv_def porch_acceptances_inv_def record_copy_def)
  moreover have "porch_copies_inv K (record_copy (of_id f) c r s)"
    using inv may match i unfolding porch_inv_def porch_copies_inv_def may_deliver_def
    by (auto simp: record_copy_def split: if_splits)
  moreover have "porch_receipts_inv (record_copy (of_id f) c r s)"
    using inv may i r unfolding porch_inv_def porch_receipts_inv_def may_deliver_def
    by (auto simp: record_copy_def bcontains_def split: if_splits)
  ultimately show ?thesis using inv by (simp add: porch_inv_def porch_offers_inv_def record_copy_def)
qed

lemma porch_inv_steps:
  assumes "porch_steps K verify s s'" and "porch_inv K verify s"
  shows "porch_inv K verify s'"
proof (rule porch_steps_invariant [where P = "porch_inv K verify", OF assms])
  fix s i f now reason
  assume s: "porch_inv K verify s" "bget (po_offers s) i = Some f" "\<not> bcontains (po_ended s) i"
  show "porch_inv K verify (end_offer i now reason s)"
    using porch_inv_end [OF s, of now reason "po_audit s"] by simp
  show "porch_inv K verify (end_offer i now ''refused'' (s\<lparr>po_audit := po_audit s @ [Refused i]\<rparr>))"
    by (rule porch_inv_end [OF s])
qed (rule porch_inv_invite porch_inv_accept porch_inv_copy; assumption)+

lemma porch_reachable_inv: "porch_reachable K verify s \<Longrightarrow> porch_inv K verify s"
  unfolding porch_reachable_def by (erule porch_inv_steps) (rule porch_inv_new)

text \<open>The same rule with the invariant at hand in every case.\<close>

lemma porch_steps_invariant_inv:
  assumes steps: "porch_steps K verify s s'" and inv: "porch_inv K verify s" and start: "P s"
    and invite: "\<And>s f. P s \<Longrightarrow>
       P (s\<lparr>po_offers := bor_insert (of_id f) f (po_offers s),
            po_audit := po_audit s @ (if Offered (of_id f) \<in> set (po_audit s) then [] else [Offered (of_id f)])\<rparr>)"
    and accept: "\<And>s B. P s \<Longrightarrow> P (s\<lparr>po_acceptances := B\<rparr>)"
    and refused: "\<And>s i now. P s \<Longrightarrow> \<not> bcontains (po_ended s) i \<Longrightarrow>
       P (end_offer i now ''refused'' (s\<lparr>po_audit := po_audit s @ [Refused i]\<rparr>))"
    and ended: "\<And>s i now reason. P s \<Longrightarrow> \<not> bcontains (po_ended s) i \<Longrightarrow> P (end_offer i now reason s)"
    and copy: "\<And>s i c r. P s \<Longrightarrow> bget (po_receipts s) i = None \<Longrightarrow> rc_offer r = i \<Longrightarrow> P (record_copy i c r s)"
  shows "P s'"
proof -
  have "porch_inv K verify s' \<and> P s'"
  proof (rule porch_steps_invariant [where P = "\<lambda>t. porch_inv K verify t \<and> P t", OF steps])
    show "porch_inv K verify s \<and> P s" using inv start by blast
  next
    fix t and f :: offer
    assume "porch_inv K verify t \<and> P t" "of_inviter f \<noteq> of_recipient f" "of_inviter_key f \<noteq> of_recipient_key f"
    then show "porch_inv K verify (t\<lparr>po_offers := bor_insert (of_id f) f (po_offers t),
            po_audit := po_audit t @ (if Offered (of_id f) \<in> set (po_audit t) then [] else [Offered (of_id f)])\<rparr>) \<and>
        P (t\<lparr>po_offers := bor_insert (of_id f) f (po_offers t),
            po_audit := po_audit t @ (if Offered (of_id f) \<in> set (po_audit t) then [] else [Offered (of_id f)])\<rparr>)"
      using porch_inv_invite invite by blast
  next
    fix t f and a :: acceptance
    assume "porch_inv K verify t \<and> P t" "bget (po_offers t) (ac_offer a) = Some f"
      "\<not> bcontains (po_ended t) (of_id f)" "key_of f (ac_party a) = Some (ac_key a)"
      "verify (ac_key a) (acceptance_message K f) (ac_proof a)"
    then show "porch_inv K verify (t\<lparr>po_acceptances := bor_insert (of_id f, ac_party a) a (po_acceptances t)\<rparr>) \<and>
        P (t\<lparr>po_acceptances := bor_insert (of_id f, ac_party a) a (po_acceptances t)\<rparr>)"
      using porch_inv_accept accept by blast
  next
    fix t i f now reason
    assume t: "porch_inv K verify t \<and> P t" "bget (po_offers t) i = Some f" "\<not> bcontains (po_ended t) i"
    show "porch_inv K verify (end_offer i now ''refused'' (t\<lparr>po_audit := po_audit t @ [Refused i]\<rparr>)) \<and>
        P (end_offer i now ''refused'' (t\<lparr>po_audit := po_audit t @ [Refused i]\<rparr>))"
      using t porch_inv_end [OF _ t(2,3)] refused by blast
    show "porch_inv K verify (end_offer i now reason t) \<and> P (end_offer i now reason t)"
      using t porch_inv_end [OF _ t(2,3), of K verify now reason "po_audit t"] ended by simp
  next
    fix t i c and f :: offer and r :: receipt
    assume t: "porch_inv K verify t \<and> P t" "may_deliver t i f" "copy_matches K f c r"
    then have "bget (po_receipts t) (of_id f) = None" "rc_offer r = of_id f"
      by (auto simp: may_deliver_def porch_inv_def porch_offers_inv_def copy_matches_def)
    then show "porch_inv K verify (record_copy (of_id f) c r t) \<and> P (record_copy (of_id f) c r t)"
      using t porch_inv_copy copy by blast
  qed
  then show ?thesis by simp
qed

section \<open>What later operations keep\<close>

definition porch_extends :: "porch \<Rightarrow> porch \<Rightarrow> bool" where
  "porch_extends s t \<longleftrightarrow>
     (\<forall>i f. bget (po_offers s) i = Some f \<longrightarrow> bget (po_offers t) i = Some f) \<and>
     (\<forall>i r. bget (po_receipts s) i = Some r \<longrightarrow> bget (po_receipts t) i = Some r) \<and>
     (\<forall>i d. bget (po_ended s) i = Some d \<longrightarrow> bget (po_ended t) i = Some d) \<and>
     prefix (po_audit s) (po_audit t)"

lemma porch_extends_refl: "porch_extends s s"
  by (simp add: porch_extends_def)

lemma porch_extends_trans: "porch_extends s t \<Longrightarrow> porch_extends t u \<Longrightarrow> porch_extends s u"
  unfolding porch_extends_def by (meson prefix_order.trans)

lemma porch_extends_updates:
  "porch_extends s (s\<lparr>po_offers := bor_insert (of_id f) f (po_offers s), po_audit := po_audit s @ A\<rparr>)"
  "porch_extends s (s\<lparr>po_acceptances := B\<rparr>)"
  "porch_extends s (s\<lparr>po_audit := po_audit s @ A\<rparr>)"
  "\<not> bcontains (po_ended s) i \<Longrightarrow> porch_extends s (end_offer i now reason s)"
  "bget (po_receipts s) i = None \<Longrightarrow> porch_extends s (record_copy i c r s)"
  by (auto simp: porch_extends_def end_offer_def Let_def record_copy_def bcontains_def)

lemma porch_steps_extend:
  assumes "porch_steps K verify s s'" and "porch_inv K verify s"
  shows "porch_extends s s'"
proof (rule porch_steps_invariant_inv [where P = "porch_extends s", OF assms porch_extends_refl])
  fix t i now
  assume t: "porch_extends s t" "\<not> bcontains (po_ended t) i"
  have "porch_extends (t\<lparr>po_audit := po_audit t @ [Refused i]\<rparr>)
      (end_offer i now ''refused'' (t\<lparr>po_audit := po_audit t @ [Refused i]\<rparr>))"
    using t(2) by (intro porch_extends_updates(4)) simp
  then show "porch_extends s (end_offer i now ''refused'' (t\<lparr>po_audit := po_audit t @ [Refused i]\<rparr>))"
    using t(1) porch_extends_updates(3) porch_extends_trans by blast
qed (use porch_extends_updates porch_extends_trans in blast)+

text \<open>The audit log names exactly what happened, each event once.\<close>

definition porch_audit_inv :: "porch \<Rightarrow> bool" where
  "porch_audit_inv s \<longleftrightarrow>
     distinct (po_audit s) \<and>
     (\<forall>i. Offered i \<in> set (po_audit s) \<longleftrightarrow> bcontains (po_offers s) i) \<and>
     (\<forall>i. Refused i \<in> set (po_audit s) \<longrightarrow> bcontains (po_ended s) i) \<and>
     (\<forall>r. Copied r \<in> set (po_audit s) \<longleftrightarrow> bget (po_receipts s) (rc_offer r) = Some r) \<and>
     (\<forall>t. Ended t \<in> set (po_audit s) \<longleftrightarrow> bget (po_ended s) (ts_offer t) = Some t)"

lemma porch_audit_inv_end:
  assumes "porch_audit_inv s" and "\<not> bcontains (po_ended s) i"
  shows "porch_audit_inv (end_offer i now reason s)"
    "porch_audit_inv (end_offer i now reason (s\<lparr>po_audit := po_audit s @ [Refused i]\<rparr>))"
  using assms by (auto simp: porch_audit_inv_def end_offer_def Let_def bcontains_def)

lemma porch_audit_inv_invite:
  "porch_audit_inv s \<Longrightarrow>
     porch_audit_inv (s\<lparr>po_offers := bor_insert (of_id f) f (po_offers s),
       po_audit := po_audit s @ (if Offered (of_id f) \<in> set (po_audit s) then [] else [Offered (of_id f)])\<rparr>)"
  by (auto simp: porch_audit_inv_def bcontains_def)

lemma porch_audit_inv_copy:
  assumes "porch_audit_inv s" "bget (po_receipts s) i = None" "rc_offer r = i"
  shows "porch_audit_inv (record_copy i c r s)"
  using assms by (auto simp: porch_audit_inv_def record_copy_def)

lemma porch_audit_inv_steps:
  assumes "porch_steps K verify s s'" and "porch_inv K verify s" and "porch_audit_inv s"
  shows "porch_audit_inv s'"
proof (rule porch_steps_invariant_inv [where P = porch_audit_inv, OF assms])
  show "porch_audit_inv t \<Longrightarrow> porch_audit_inv (t\<lparr>po_acceptances := B\<rparr>)" for t B
    by (simp add: porch_audit_inv_def)
qed (rule porch_audit_inv_invite porch_audit_inv_end porch_audit_inv_copy; assumption)+

lemma porch_audit_inv_new: "porch_audit_inv porch_new"
  by (simp add: porch_audit_inv_def porch_new_def)

lemma porch_reachable_audit: "porch_reachable K verify s \<Longrightarrow> porch_audit_inv s"
  unfolding porch_reachable_def by (rule porch_audit_inv_steps [OF _ porch_inv_new porch_audit_inv_new])

lemma porch_reachable_offer_id: "porch_reachable K verify s \<Longrightarrow> bget (po_offers s) i = Some f \<Longrightarrow> of_id f = i"
  by (drule porch_reachable_inv) (simp add: porch_inv_def porch_offers_inv_def)

lemma porch_reachable_steps: "porch_reachable K verify s \<Longrightarrow> porch_steps K verify s t \<Longrightarrow> porch_reachable K verify t"
  unfolding porch_reachable_def by (rule rtranclp_trans)

lemma read_copy:
  "snd (porch_read now1 now2 i s) = Ok c \<Longrightarrow>
     \<exists>f. bget (po_offers s) i = Some f \<and> now1 < of_expires_at f \<and> bget (po_copies s) i = Some c"
  by (auto simp: porch_read_def res_simps split: option.splits if_splits)

lemma read_ended:
  assumes "bcontains (po_offers s) i" and "bcontains (po_ended s) i"
  shows "porch_read now1 now2 i s = (s, Err Inactive)"
  using assms by (auto simp: porch_read_def end_offer_def bcontains_def)

lemma accept_ended:
  assumes "bcontains (po_offers s) (ac_offer a)" "bcontains (po_ended s) (ac_offer a)" "porch_offers_inv s"
  shows "porch_accept K verify now a s = (s, Err Inactive)"
  using assms by (auto simp: porch_accept_def ensure_active_def bcontains_def porch_offers_inv_def split: option.splits)

lemma end_offer_ended: "bcontains (po_ended (end_offer i now reason s)) i"
  by (simp add: end_offer_def Let_def)

lemma end_offer_offers [simp]: "po_offers (end_offer i now reason s) = po_offers s"
  by (simp add: end_offer_def Let_def)

lemma porch_revoke_ended:
  "snd (porch_revoke now i party s) = Ok t \<Longrightarrow>
     bcontains (po_offers (fst (porch_revoke now i party s))) i \<and> bcontains (po_ended (fst (porch_revoke now i party s))) i"
  by (auto simp: porch_revoke_def Let_def bcontains_def res_simps split: option.splits if_splits)

lemma porch_refuse_ended:
  "snd (porch_refuse now i party s) = Ok t \<Longrightarrow>
     bcontains (po_offers (fst (porch_refuse now i party s))) i \<and> bcontains (po_ended (fst (porch_refuse now i party s))) i"
  by (auto simp: porch_refuse_def Let_def end_offer_ended bcontains_def [of "po_offers _"] split: option.splits if_splits)

lemma porch_read_expired:
  "bget (po_offers s) i = Some f \<Longrightarrow> of_expires_at f \<le> now1 \<Longrightarrow>
     bcontains (po_offers (fst (porch_read now1 now2 i s))) i \<and> bcontains (po_ended (fst (porch_read now1 now2 i s))) i"
  by (simp add: porch_read_def end_offer_ended bcontains_def [of "po_offers _"])

end
