(* ===== verification/Porch_Consent.thy ===== *)
theory Porch_Consent
  imports Porch
begin

text \<open>
  What the porch promises: a run of it for the witnesses, consent before any copy, finality of
  revocation, exactness and idempotence of delivery, the audit log, and what the ids bind.
\<close>

section \<open>A run of the porch\<close>

text \<open>Two parties, a fact of two fields of which one is offered; a proof is the bytes of the key.\<close>

definition sample_verify :: verifier where
  "sample_verify key message proof' = (proof' = as_bytes key)"

definition sample_fact :: fact where
  "sample_fact = fact_synthetic sample_kernel [(''name'', [1, 2]), (''secret'', [3])] []"

definition sample_offer :: offer where
  "sample_offer = offer_new sample_kernel ''ann'' ''bob'' ''ka'' ''kb'' (fa_id sample_fact) (FieldShape [''name'']) 100"

definition sample_acceptance :: "string \<Rightarrow> string \<Rightarrow> acceptance" where
  "sample_acceptance party key = \<lparr>ac_offer = of_id sample_offer, ac_party = party, ac_key = key, ac_proof = as_bytes key\<rparr>"

definition sample_invited :: porch where
  "sample_invited = fst (porch_invite sample_offer porch_new)"

definition sample_accepted :: porch where
  "sample_accepted =
     fst (porch_accept sample_kernel sample_verify 2 (sample_acceptance ''bob'' ''kb'')
       (fst (porch_accept sample_kernel sample_verify 2 (sample_acceptance ''ann'' ''ka'') sample_invited)))"

definition sample_delivered :: porch where
  "sample_delivered = fst (porch_deliver sample_kernel 3 4 (of_id sample_offer) sample_fact sample_accepted)"

definition sample_copy :: copied_fact where
  "sample_copy = \<lparr>cf_source = fa_id sample_fact, cf_fields = [(''name'', [1, 2])], cf_provenance = []\<rparr>"

lemma sample_offer_sels [simp]:
  "of_inviter sample_offer = ''ann''" "of_recipient sample_offer = ''bob''"
  "of_inviter_key sample_offer = ''ka''" "of_recipient_key sample_offer = ''kb''"
  "of_fact sample_offer = fa_id sample_fact" "of_shape sample_offer = FieldShape [''name'']"
  "of_expires_at sample_offer = 100"
  by (simp_all add: sample_offer_def offer_new_def)

lemma sample_fact_sels [simp]:
  "fa_fields sample_fact = [(''name'', [1, 2]), (''secret'', [3])]" "fa_provenance sample_fact = []"
  by (simp_all add: sample_fact_def fact_synthetic_def)

lemma sample_invited_eq:
  "sample_invited = porch_new\<lparr>po_offers := [(of_id sample_offer, sample_offer)], po_audit := [Offered (of_id sample_offer)]\<rparr>"
  by (simp add: sample_invited_def porch_invite_def porch_new_def bor_insert_def)

lemma sample_accepted_eq:
  "sample_accepted = sample_invited\<lparr>po_acceptances :=
     [((of_id sample_offer, ''ann''), sample_acceptance ''ann'' ''ka''),
      ((of_id sample_offer, ''bob''), sample_acceptance ''bob'' ''kb'')]\<rparr>"
  by (simp add: sample_accepted_def porch_accept_def sample_invited_eq porch_new_def bget_def ensure_active_def
      sample_acceptance_def sample_verify_def bor_insert_def bcontains_def)

lemma sample_delivered_run:
  "porch_deliver sample_kernel 3 4 (of_id sample_offer) sample_fact sample_accepted = (sample_delivered, Ok (snd (delivery_of sample_kernel 4 sample_offer sample_fact [(''name'', [1, 2])])))"
  "sample_delivered = record_copy (of_id sample_offer) sample_copy
     (snd (delivery_of sample_kernel 4 sample_offer sample_fact [(''name'', [1, 2])])) sample_accepted"
  by (simp_all add: sample_delivered_def porch_deliver_def deliver_inner_def sample_accepted_eq sample_invited_eq porch_new_def
      bget_def bcontains_def ensure_active_def record_copy_def delivery_of_def sample_copy_def Let_def)

lemma porch_sample_reachable:
  "porch_reachable sample_kernel sample_verify sample_invited"
  "porch_reachable sample_kernel sample_verify sample_accepted"
  "porch_reachable sample_kernel sample_verify sample_delivered"
proof -
  show i: "porch_reachable sample_kernel sample_verify sample_invited"
    unfolding porch_reachable_def sample_invited_def by (rule r_into_rtranclp) (rule ps_invite)
  then show a: "porch_reachable sample_kernel sample_verify sample_accepted"
    unfolding sample_accepted_def porch_reachable_def by (meson ps_accept rtranclp.rtrancl_into_rtrancl)
  then show "porch_reachable sample_kernel sample_verify sample_delivered"
    unfolding sample_delivered_def porch_reachable_def porch_deliver_def
    by (meson ps_deliver rtranclp.rtrancl_into_rtrancl)
qed

lemma porch_sample_read: "snd (porch_read 5 6 (of_id sample_offer) sample_delivered) = Ok sample_copy"
  by (simp add: porch_read_def sample_delivered_run(2) record_copy_def sample_accepted_eq sample_invited_eq
      porch_new_def bget_def)

section \<open>Properties\<close>

text \<open>C15: a copy can be read only if its offer names two different parties with two different keys, each
  of whom accepted that offer with a proof its own key verifies; the copy was taken from the offered
  fact, has exactly the offered fields, is named by the recorded receipt, and the offer has not expired.\<close>

theorem porch_copy_consented:
  assumes "porch_reachable K verify s" and "snd (porch_read now1 now2 i s) = Ok c"
  shows "\<exists>f r a b. bget (po_offers s) i = Some f \<and> now1 < of_expires_at f \<and>
     of_inviter f \<noteq> of_recipient f \<and> ac_key a \<noteq> ac_key b \<and>
     accepted_by K verify f (of_inviter f) a \<and> accepted_by K verify f (of_recipient f) b \<and>
     bget (po_receipts s) i = Some r \<and> copy_matches K f c r"
proof -
  note inv = porch_reachable_inv [OF assms(1)]
  from read_copy [OF assms(2)] obtain f where f: "bget (po_offers s) i = Some f" "now1 < of_expires_at f"
      "bget (po_copies s) i = Some c" by blast
  with inv obtain r where r: "bget (po_receipts s) i = Some r" "copy_matches K f c r"
      "bcontains (po_acceptances s) (i, of_inviter f)" "bcontains (po_acceptances s) (i, of_recipient f)"
    unfolding porch_inv_def porch_copies_inv_def by fastforce
  from inv f r(3,4) obtain a b where "accepted_by K verify f (of_inviter f) a" "accepted_by K verify f (of_recipient f) b"
    unfolding porch_inv_def porch_acceptances_inv_def bcontains_def by fastforce
  moreover have "of_inviter f \<noteq> of_recipient f" "of_inviter_key f \<noteq> of_recipient_key f"
    using inv f(1) by (simp_all add: porch_inv_def porch_offers_inv_def)
  ultimately show ?thesis using f r
    by (intro exI [of _ f] exI [of _ r] exI [of _ a] exI [of _ b]) (auto simp: accepted_by_def key_of_def)
qed

theorem porch_copy_consented_witness:
  "\<exists>f r a b. bget (po_offers sample_delivered) (of_id sample_offer) = Some f \<and> 5 < of_expires_at f \<and>
     of_inviter f \<noteq> of_recipient f \<and> ac_key a \<noteq> ac_key b \<and>
     accepted_by sample_kernel sample_verify f (of_inviter f) a \<and>
     accepted_by sample_kernel sample_verify f (of_recipient f) b \<and>
     bget (po_receipts sample_delivered) (of_id sample_offer) = Some r \<and> copy_matches sample_kernel f sample_copy r"
  by (rule porch_copy_consented [OF porch_sample_reachable(3) porch_sample_read])

lemma ended_for_good:
  assumes "porch_reachable K verify s"
    and "(snd (porch_revoke now i party s) = Ok t \<and> s1 = fst (porch_revoke now i party s)) \<or>
         (snd (porch_refuse now i party s) = Ok () \<and> s1 = fst (porch_refuse now i party s)) \<or>
         (bget (po_offers s) i = Some f \<and> of_expires_at f \<le> now \<and> s1 = fst (porch_read now now' i s))"
    and "porch_steps K verify s1 s2"
  shows "porch_read n1 n2 i s2 = (s2, Err Inactive)"
    and "ac_offer a = i \<Longrightarrow> porch_accept K verify n a s2 = (s2, Err Inactive)"
    and "bget (po_copies s2) i = None"
proof -
  have "bcontains (po_offers s1) i \<and> bcontains (po_ended s1) i"
    using assms(2) porch_revoke_ended porch_refuse_ended porch_read_expired by metis
  moreover have step: "porch_steps K verify s s1"
    using assms(2) ps_revoke ps_refuse ps_read by blast
  ultimately have e: "bcontains (po_offers s2) i" "bcontains (po_ended s2) i"
    using porch_steps_extend [OF assms(3)] porch_reachable_inv porch_reachable_steps [OF assms(1)]
    unfolding porch_extends_def bcontains_def by fastforce+
  show "porch_read n1 n2 i s2 = (s2, Err Inactive)" by (rule read_ended [OF e])
  have inv: "porch_inv K verify s2"
    using porch_reachable_inv porch_reachable_steps [OF porch_reachable_steps [OF assms(1) step] assms(3)] by blast
  then show "ac_offer a = i \<Longrightarrow> porch_accept K verify n a s2 = (s2, Err Inactive)"
    using accept_ended e unfolding porch_inv_def by blast
  show "bget (po_copies s2) i = None"
    using inv e(2) unfolding porch_inv_def porch_copies_inv_def by (cases "bget (po_copies s2) i") auto
qed

text \<open>once an offer is revoked, refused or read after its expiry, no later operation brings its copy
  back: every later read and every later acceptance answers that the offer is inactive, and changes nothing.\<close>

theorem porch_end_final:
  assumes "porch_reachable K verify s"
    and "(snd (porch_revoke now i party s) = Ok t \<and> s1 = fst (porch_revoke now i party s)) \<or>
         (snd (porch_refuse now i party s) = Ok () \<and> s1 = fst (porch_refuse now i party s)) \<or>
         (bget (po_offers s) i = Some f \<and> of_expires_at f \<le> now \<and> s1 = fst (porch_read now now' i s))"
    and "porch_steps K verify s1 s2"
  shows "porch_read n1 n2 i s2 = (s2, Err Inactive) \<and> bget (po_copies s2) i = None \<and>
    (\<forall>a n. ac_offer a = i \<longrightarrow> porch_accept K verify n a s2 = (s2, Err Inactive))"
  using ended_for_good [OF assms] by blast

theorem porch_end_final_witness:
  "porch_read 7 8 (of_id sample_offer)
     (fst (porch_deliver sample_kernel 9 9 (of_id sample_offer) sample_fact (fst (porch_revoke 6 (of_id sample_offer) ''bob'' sample_delivered)))) =
   (fst (porch_deliver sample_kernel 9 9 (of_id sample_offer) sample_fact (fst (porch_revoke 6 (of_id sample_offer) ''bob'' sample_delivered))), Err Inactive)"
proof -
  obtain t where t: "snd (porch_revoke 6 (of_id sample_offer) ''bob'' sample_delivered) = Ok t"
    by (auto simp: porch_revoke_def sample_delivered_run(2) record_copy_def sample_accepted_eq sample_invited_eq
        porch_new_def bget_def end_offer_def bcontains_def Let_def)
  have "porch_steps sample_kernel sample_verify (fst (porch_revoke 6 (of_id sample_offer) ''bob'' sample_delivered))
      (fst (porch_deliver sample_kernel 9 9 (of_id sample_offer) sample_fact (fst (porch_revoke 6 (of_id sample_offer) ''bob'' sample_delivered))))"
    unfolding porch_deliver_def by (rule r_into_rtranclp) (rule ps_deliver)
  with t porch_end_final [OF porch_sample_reachable(3), of 6 "of_id sample_offer" "''bob''" t] show ?thesis by blast
qed

lemma deliver_facts:
  assumes "porch_reachable K verify s" and "bget (po_receipts s) i = None"
    and "porch_deliver K now1 now2 i fa s = (s', res)"
  shows "is_ok res \<longleftrightarrow>
      (\<exists>f. bget (po_offers s) i = Some f \<and> now1 < of_expires_at f \<and> \<not> bcontains (po_ended s) i \<and>
         bcontains (po_acceptances s) (i, of_inviter f) \<and> bcontains (po_acceptances s) (i, of_recipient f) \<and>
         fa_id fa = of_fact f \<and> (\<forall>n\<in>set (shape_fields (of_shape f)). bcontains (fa_fields fa) n))"
    and "\<not> is_ok res \<Longrightarrow> s' = s"
    and "is_ok res \<Longrightarrow> bget (po_offers s) i = Some f \<Longrightarrow>
      \<exists>c. bget (po_copies s') i = Some c \<and> bsorted (cf_fields c) \<and> cf_provenance c = fa_provenance fa \<and>
        (\<forall>n. bget (cf_fields c) n = (if n \<in> set (shape_fields (of_shape f)) then bget (fa_fields fa) n else None))"
proof -
  note run = deliver_inner_new [OF assms(3) [unfolded porch_deliver_def] assms(2)]
  show "\<not> is_ok res \<Longrightarrow> s' = s" using run by auto
  show "is_ok res \<longleftrightarrow>
      (\<exists>f. bget (po_offers s) i = Some f \<and> now1 < of_expires_at f \<and> \<not> bcontains (po_ended s) i \<and>
         bcontains (po_acceptances s) (i, of_inviter f) \<and> bcontains (po_acceptances s) (i, of_recipient f) \<and>
         fa_id fa = of_fact f \<and> (\<forall>n\<in>set (shape_fields (of_shape f)). bcontains (fa_fields fa) n))" (is "_ \<longleftrightarrow> ?rhs")
  proof
    assume "is_ok res"
    with run obtain f flds where f: "may_deliver s i f" "\<not> of_expires_at f \<le> now1" "fa_id fa = of_fact f"
        "copy_fields (fa_fields fa) (shape_fields (of_shape f)) [] = Ok flds" by auto
    with porch_reachable_offer_id [OF assms(1)] copy_fields_Ok [OF f(4)] show ?rhs
      by (auto simp: may_deliver_def bcontains_def)
  next
    assume ?rhs
    then obtain f where f: "bget (po_offers s) i = Some f" "now1 < of_expires_at f" "\<not> bcontains (po_ended s) i"
        "bcontains (po_acceptances s) (i, of_inviter f)" "bcontains (po_acceptances s) (i, of_recipient f)"
        "fa_id fa = of_fact f" "\<forall>n\<in>set (shape_fields (of_shape f)). bcontains (fa_fields fa) n" by blast
    moreover obtain flds where "copy_fields (fa_fields fa) (shape_fields (of_shape f)) [] = Ok flds"
      using copy_fields_present f(7) unfolding bcontains_def by blast
    moreover have "of_id f = i" by (rule porch_reachable_offer_id [OF assms(1) f(1)])
    moreover have "ensure_active now1 s f = Ok ()"
      using f(2,3) \<open>of_id f = i\<close> by (simp add: ensure_active_def not_le [symmetric])
    ultimately show "is_ok res"
      using assms(2,3) by (auto simp: porch_deliver_def deliver_inner_def Let_def)
  qed
  assume "is_ok res" and f: "bget (po_offers s) i = Some f"
  with run obtain flds c r where c: "copy_fields (fa_fields fa) (shape_fields (of_shape f)) [] = Ok flds"
      "(c, r) = delivery_of K now2 f fa flds" "s' = record_copy (of_id f) c r s"
    by (auto simp: may_deliver_def)
  then show "\<exists>c. bget (po_copies s') i = Some c \<and> bsorted (cf_fields c) \<and> cf_provenance c = fa_provenance fa \<and>
        (\<forall>n. bget (cf_fields c) n = (if n \<in> set (shape_fields (of_shape f)) then bget (fa_fields fa) n else None))"
    using copy_fields_Ok [OF c(1)] copy_fields_bsorted [OF c(1)] porch_reachable_offer_id [OF assms(1) f]
    by (simp add: record_copy_def delivery_of_def Let_def)
qed

text \<open>C16: a delivery succeeds exactly when the offer is active, both parties have accepted, the fact is the
  offered one and has every offered field; it then publishes the offered fields of that fact and no
  others, and a delivery that fails changes nothing.\<close>

theorem porch_deliver_exact:
  assumes "porch_reachable K verify s" and "bget (po_receipts s) i = None"
    and "porch_deliver K now1 now2 i fa s = (s', res)"
  shows "(is_ok res \<longleftrightarrow>
      (\<exists>f. bget (po_offers s) i = Some f \<and> now1 < of_expires_at f \<and> \<not> bcontains (po_ended s) i \<and>
         bcontains (po_acceptances s) (i, of_inviter f) \<and> bcontains (po_acceptances s) (i, of_recipient f) \<and>
         fa_id fa = of_fact f \<and> (\<forall>n\<in>set (shape_fields (of_shape f)). bcontains (fa_fields fa) n))) \<and>
    (\<not> is_ok res \<longrightarrow> s' = s) \<and>
    (\<forall>f. is_ok res \<longrightarrow> bget (po_offers s) i = Some f \<longrightarrow>
      (\<exists>c. bget (po_copies s') i = Some c \<and> bsorted (cf_fields c) \<and> cf_provenance c = fa_provenance fa \<and>
        (\<forall>n. bget (cf_fields c) n = (if n \<in> set (shape_fields (of_shape f)) then bget (fa_fields fa) n else None))))"
  using deliver_facts [OF assms] by blast

theorem porch_deliver_exact_witness:
  "\<exists>c. bget (po_copies sample_delivered) (of_id sample_offer) = Some c \<and> bsorted (cf_fields c) \<and>
     cf_provenance c = fa_provenance sample_fact \<and>
     (\<forall>n. bget (cf_fields c) n =
        (if n \<in> set (shape_fields (of_shape sample_offer)) then bget (fa_fields sample_fact) n else None))"
proof -
  have "bget (po_receipts sample_accepted) (of_id sample_offer) = None"
      "bget (po_offers sample_accepted) (of_id sample_offer) = Some sample_offer"
    by (simp_all add: sample_accepted_eq sample_invited_eq porch_new_def bget_def)
  with porch_deliver_exact [OF porch_sample_reachable(2) _ sample_delivered_run(1)] show ?thesis by auto
qed

text \<open>C17: delivery is idempotent for ever: after a delivery returned a receipt, every later delivery of the
  same offer, whatever fact it is given and whatever happened in between, returns that receipt and
  changes nothing.\<close>

theorem porch_deliver_once:
  assumes "porch_reachable K verify s" and "snd (porch_deliver K now1 now2 i fa s) = Ok r"
    and "porch_steps K verify (fst (porch_deliver K now1 now2 i fa s)) s'"
  shows "porch_deliver K n1 n2 i fa' s' = (s', Ok r)"
proof -
  let ?d = "porch_deliver K now1 now2 i fa s"
  have "bget (po_receipts (fst ?d)) i = Some r"
  proof (cases "bget (po_receipts s) i")
    case None
    have "deliver_inner K now1 now2 i fa False s = (fst ?d, Ok r)"
      using assms(2) by (simp add: porch_deliver_def prod_eq_iff)
    from deliver_inner_new [OF this None] porch_reachable_offer_id [OF assms(1)] show ?thesis
      by (auto simp: record_copy_def may_deliver_def)
  next
    case (Some q)
    then show ?thesis using assms(2) by (simp add: porch_deliver_def deliver_inner_receipt)
  qed
  moreover have "porch_reachable K verify (fst ?d)"
    using porch_reachable_steps [OF assms(1)] ps_deliver unfolding porch_deliver_def by blast
  ultimately have "bget (po_receipts s') i = Some r"
    using porch_steps_extend [OF assms(3)] porch_reachable_inv unfolding porch_extends_def by blast
  then show ?thesis by (simp add: porch_deliver_def deliver_inner_receipt)
qed

theorem porch_deliver_once_witness:
  "\<exists>r. porch_deliver sample_kernel 50 51 (of_id sample_offer) (fact_synthetic sample_kernel [] []) sample_delivered =
     (sample_delivered, Ok r)"
  using porch_deliver_once [OF porch_sample_reachable(2)] sample_delivered_run(1)
  by (metis fst_conv rtranclp.rtrancl_refl snd_conv)

text \<open>the audit log is append-only and exact: no event occurs twice, an offer, a receipt and a tombstone
  are in the log precisely when they are in the porch's maps, a refusal only of an ended offer, and
  later operations only append.\<close>

theorem porch_audit_faithful:
  assumes "porch_reachable K verify s" and "porch_steps K verify s s'"
  shows "porch_audit_inv s' \<and> prefix (porch_audit s) (porch_audit s')"
  using porch_reachable_audit [OF porch_reachable_steps [OF assms]] porch_steps_extend [OF assms(2) porch_reachable_inv [OF assms(1)]]
  by (simp_all add: porch_extends_def porch_audit_def)

theorem porch_audit_faithful_witness:
  "prefix [Offered (of_id sample_offer)] (porch_audit sample_delivered)"
proof -
  have "porch_steps sample_kernel sample_verify sample_invited sample_delivered"
    unfolding sample_delivered_def sample_accepted_def porch_deliver_def
    by (meson ps_accept ps_deliver r_into_rtranclp rtranclp_trans)
  from porch_audit_faithful [OF porch_sample_reachable(1) this] show ?thesis
    by (simp add: porch_audit_def sample_invited_eq)
qed

section \<open>What an id binds\<close>

lemma u64_to_be_inj: "u64_to_be x = u64_to_be y \<longleftrightarrow> x = y"
  by (metis u64_from_to_be)

lemma push_bytes_split:
  "length a < 2 ^ 64 \<Longrightarrow> length b < 2 ^ 64 \<Longrightarrow>
   u64_to_be (word_of_nat (length a)) @ a @ x = u64_to_be (word_of_nat (length b)) @ b @ y \<longleftrightarrow> a = b \<and> x = y"
  by (auto simp: u64_to_be_inj word_of_nat_eq_iff take_bit_nat_eq_self)

definition sized :: "string \<Rightarrow> bool" where
  "sized t \<longleftrightarrow> length t < 2 ^ 64"

lemma push_bytes_flat: "push_bytes out bytes = out @ push_bytes [] bytes"
  by (simp add: push_bytes_def)

definition str_bytes :: "string \<Rightarrow> u8 list" where
  "str_bytes t = push_bytes [] (as_bytes t)"

lemma str_bytes_split: "sized a \<Longrightarrow> sized b \<Longrightarrow> str_bytes a @ x = str_bytes b @ y \<longleftrightarrow> a = b \<and> x = y"
  using push_bytes_split [of "as_bytes a" "as_bytes b" x y]
  by (simp add: str_bytes_def push_bytes_def sized_def as_bytes_inj)

lemma foldl_str_bytes:
  "foldl (\<lambda>out v. push_bytes out (as_bytes v)) out vs = out @ concat (map str_bytes vs)"
proof (induction vs arbitrary: out)
  case (Cons v vs)
  then show ?case
    using push_bytes_flat [of out "as_bytes v"] by (simp add: str_bytes_def)
qed simp

lemma push_id_flat: "push_id K out i = out @ str_bytes (as_qualified_str K (cid_alg i)) @ cid_bytes i"
  using push_bytes_flat [of out] by (simp add: push_id_def str_bytes_def)

text \<open>The list of field names has no count; the eight bytes of the expiry that follow it end it, because a
  field takes more than eight bytes and is followed by eight more.\<close>

lemma str_bytes_length: "length (str_bytes t) = 8 + length t"
  by (simp add: str_bytes_def push_bytes_def)

lemma names_then_u64:
  assumes "\<forall>t\<in>set vs. sized t" and "\<forall>t\<in>set ws. sized t"
    and "concat (map str_bytes vs) @ u64_to_be x = concat (map str_bytes ws) @ u64_to_be y"
  shows "vs = ws \<and> x = y"
  using assms
proof (induction vs arbitrary: ws)
  case Nil
  show ?case
  proof (cases ws)
    case Nil
    then show ?thesis using Nil.prems(3) by (simp add: u64_to_be_inj)
  next
    case (Cons w ws')
    then show ?thesis using Nil.prems(3) [THEN arg_cong [of _ _ length]] by (simp add: str_bytes_length)
  qed
next
  case (Cons v vs)
  show ?case
  proof (cases ws)
    case Nil
    then show ?thesis using Cons.prems(3) [THEN arg_cong [of _ _ length]] by (simp add: str_bytes_length)
  next
    fix w ws'
    assume ws: "ws = w # ws'"
    with Cons.prems have "str_bytes v @ (concat (map str_bytes vs) @ u64_to_be x)
        = str_bytes w @ (concat (map str_bytes ws') @ u64_to_be y)" "sized v" "sized w" by auto
    then have "v = w" "concat (map str_bytes vs) @ u64_to_be x = concat (map str_bytes ws') @ u64_to_be y"
      by (simp_all add: str_bytes_split)
    with Cons.IH [of ws'] Cons.prems ws show ?thesis by simp
  qed
qed

text \<open>the bytes hashed into an offer's id determine every term of the offer: both parties, both keys, the
  fact's digest and algorithm text, the exact list of offered fields and the expiry.\<close>

theorem offer_preimage_binds:
  assumes "offer_bytes K p q kp kq c (FieldShape ns) e = offer_bytes K p' q' kp' kq' c' (FieldShape ns') e'"
    and "\<forall>t\<in>set ([p, q, kp, kq, p', q', kp', kq', as_qualified_str K (cid_alg c), as_qualified_str K (cid_alg c')] @ ns @ ns'). sized t"
    and "length (cid_bytes c) = 32" and "length (cid_bytes c') = 32"
  shows "p = p' \<and> q = q' \<and> kp = kp' \<and> kq = kq' \<and> as_qualified_str K (cid_alg c) = as_qualified_str K (cid_alg c') \<and>
    cid_bytes c = cid_bytes c' \<and> ns = ns' \<and> e = e'"
proof -
  have "str_bytes p @ str_bytes q @ str_bytes kp @ str_bytes kq @ str_bytes (as_qualified_str K (cid_alg c)) @
      cid_bytes c @ concat (map str_bytes ns) @ u64_to_be e =
    str_bytes p' @ str_bytes q' @ str_bytes kp' @ str_bytes kq' @ str_bytes (as_qualified_str K (cid_alg c')) @
      cid_bytes c' @ concat (map str_bytes ns') @ u64_to_be e'"
    using assms(1) by (simp add: offer_bytes_def foldl_str_bytes push_id_flat)
  then have "p = p' \<and> q = q' \<and> kp = kp' \<and> kq = kq' \<and>
      as_qualified_str K (cid_alg c) = as_qualified_str K (cid_alg c') \<and>
      cid_bytes c @ (concat (map str_bytes ns) @ u64_to_be e) = cid_bytes c' @ (concat (map str_bytes ns') @ u64_to_be e')"
    using assms(2) by (simp add: str_bytes_split)
  moreover from this have "cid_bytes c = cid_bytes c' \<and>
      concat (map str_bytes ns) @ u64_to_be e = concat (map str_bytes ns') @ u64_to_be e'"
    using assms(3,4) by simp
  ultimately show ?thesis using names_then_u64 [of ns ns' e e'] assms(2) by simp
qed

theorem offer_preimage_binds_witness:
  "offer_bytes sample_kernel ''ann'' ''bob'' ''ka'' ''kb'' (Cid (sym_new ''t'') (replicate 32 0)) (FieldShape [''n'']) 1 \<noteq>
   offer_bytes sample_kernel ''ann'' ''bob'' ''ka'' ''kb'' (Cid (sym_new ''t'') (replicate 32 0)) (FieldShape [''n'', ''m'']) 1"
proof
  let ?c = "Cid (sym_new ''t'') (replicate 32 0)"
  assume same: "offer_bytes sample_kernel ''ann'' ''bob'' ''ka'' ''kb'' ?c (FieldShape [''n'']) 1 =
    offer_bytes sample_kernel ''ann'' ''bob'' ''ka'' ''kb'' ?c (FieldShape [''n'', ''m'']) 1"
  have "\<forall>t\<in>set ([''ann'', ''bob'', ''ka'', ''kb'', ''ann'', ''bob'', ''ka'', ''kb'',
      as_qualified_str sample_kernel (cid_alg ?c), as_qualified_str sample_kernel (cid_alg ?c)] @ [''n''] @ [''n'', ''m'']). sized t"
    by (simp add: sized_def sample_kernel_def qualified_str_def)
  from offer_preimage_binds [OF same this] show False by simp
qed

text \<open>the bytes hashed into a copy's id do not separate the copied fields from the provenance: for every
  fifteen-byte value there are two copies of the same fact, both with a non-empty projection, that differ
  in fields and provenance and have the same copy id, hence the same receipt.\<close>

theorem copied_id_ambiguous:
  fixes v15 :: "u8 list"
  assumes "length v15 = 15"
  shows "\<exists>c d. cf_source c = src \<and> cf_source d = src \<and>
    set (bkeys (cf_fields c)) = {''a'', ''b'', ''c''} \<and> set (bkeys (cf_fields d)) = {''a''} \<and>
    cf_provenance c = [] \<and> map (length \<circ> cid_bytes \<circ> pl_content) (cf_provenance d) = [32] \<and>
    copied_id K c = copied_id K d \<and> receipt_id K f (copied_id K c) at = receipt_id K f (copied_id K d) at"
proof -
  define alg where "alg = sym_qualified ''core'' ''datum''"
  let ?c = "\<lparr>cf_source = src, cf_fields = [(''a'', []), (''b'', as_bytes (as_qualified_str K alg)), (''c'', v15)],
      cf_provenance = []\<rparr>"
  let ?d = "\<lparr>cf_source = src, cf_fields = [(''a'', [])],
      cf_provenance = [\<lparr>pl_relation = ''b'', pl_content = Cid alg (push_bytes (str_bytes ''c'') v15)\<rparr>]\<rparr>"
  have same: "copied_id K ?c = copied_id K ?d"
    by (simp add: copied_id_def copied_bytes_def encode_fields_def push_id_def push_bytes_def str_bytes_def)
  show ?thesis
    by (rule exI [of _ ?c], rule exI [of _ ?d]) (auto simp: same assms push_bytes_def str_bytes_length)
qed

theorem copied_id_ambiguous_witness:
  "\<exists>c d. cf_fields c \<noteq> cf_fields d \<and> copied_id sample_kernel c = copied_id sample_kernel d"
proof -
  obtain c d where "set (bkeys (cf_fields c)) = {''a'', ''b'', ''c''}" "set (bkeys (cf_fields d)) = {''a''}"
      "copied_id sample_kernel c = copied_id sample_kernel d"
    using copied_id_ambiguous [of "replicate 15 (0 :: u8)" "Cid (sym_new ''t'') []" sample_kernel] by force
  moreover have "{''a'', ''b'', ''c''} \<noteq> {''a'' :: string}" by auto
  ultimately show ?thesis by metis
qed

end
