(* ===== verification/Host_Port.thy ===== *)
theory Host_Port
  imports Kernel_Iface
begin

text \<open>
  The storage port, \<open>crates/sim-storage-port/src\<close>: error categories, directory entries, the outcome of a
  compare-exchange and the port itself as a record of operations over a port state. Adapters are not
  in the repository; what its code relies on is the locale \<open>host_port\<close>, the documented contract of the
  trait, and \<open>TestPort\<close>, the in-memory adapter of \<open>crates/sim-lib-journal/src/tests.rs\<close>, is an instance.
\<close>

section \<open>Types\<close>

datatype host_error_kind =
    NotFound
  | AlreadyExists
  | Escape
  | SpecialFile
  | Malformed
  | QuotaExceeded
  | Cancelled
  | NotEmpty
  | Native
  | Unsupported

record host_dir_error =
  he_kind :: host_error_kind
  he_message :: string

definition host_error_new :: "host_error_kind \<Rightarrow> string \<Rightarrow> host_dir_error" where
  "host_error_new kind message = \<lparr>he_kind = kind, he_message = message\<rparr>"

text \<open>\<open>Display\<close> writes the message.\<close>

definition host_error_text :: "host_dir_error \<Rightarrow> string" where
  "host_error_text e = he_message e"

datatype host_entry_kind = HostFile | HostDirectory

record host_entry =
  hn_name :: string
  hn_kind :: host_entry_kind
  hn_len :: u64

record host_exchange =
  hx_exchanged :: bool
  hx_observed :: "u8 list option"

type_synonym path = "string list"

text \<open>The cancellation probe is its answer; \<open>NeverCancel\<close> answers no.\<close>

type_synonym cancellation = bool

definition never_cancel :: cancellation where
  "never_cancel = False"

text \<open>
  The port; \<open>'w\<close> is what a commit action works on. Reading leaves the port state alone, writing returns
  the new one. The method \<open>child\<close>, which opens another port, has no caller among the modelled parts.
\<close>

record ('p, 'w) host_port =
  hp_label :: string
  hp_list :: "path \<Rightarrow> 'p \<Rightarrow> (host_dir_error, host_entry list) res"
  hp_metadata :: "path \<Rightarrow> 'p \<Rightarrow> (host_dir_error, host_entry option) res"
  hp_read :: "path \<Rightarrow> 'p \<Rightarrow> (host_dir_error, u8 list) res"
  hp_replace :: "path \<Rightarrow> u8 list \<Rightarrow> cancellation \<Rightarrow> ('p, host_dir_error, unit) op"
  hp_compare_exchange ::
    "path \<Rightarrow> u8 list option \<Rightarrow> u8 list option \<Rightarrow> cancellation \<Rightarrow> ('p, host_dir_error, host_exchange) op"
  hp_supports_guarded :: bool
  hp_compare_exchange_then ::
    "path \<Rightarrow> u8 list option \<Rightarrow> u8 list option \<Rightarrow> cancellation \<Rightarrow> ('w \<Rightarrow> 'w) \<Rightarrow> ('p \<times> 'w, host_dir_error, host_exchange) op"
  hp_remove_file :: "path \<Rightarrow> ('p, host_dir_error, unit) op"
  hp_create_dir :: "path \<Rightarrow> ('p, host_dir_error, unit) op"
  hp_remove_dir_all :: "path \<Rightarrow> ('p, host_dir_error, unit) op"

text \<open>The provided methods: an adapter that does not implement them refuses and changes nothing.\<close>

definition default_compare_exchange ::
    "path \<Rightarrow> u8 list option \<Rightarrow> u8 list option \<Rightarrow> cancellation \<Rightarrow> ('p, host_dir_error, host_exchange) op" where
  "default_compare_exchange path expected replacement cancel =
     op_fail (host_error_new Unsupported ''host directory compare-exchange unsupported'')"

definition default_supports_guarded :: bool where
  "default_supports_guarded = False"

definition default_compare_exchange_then ::
    "path \<Rightarrow> u8 list option \<Rightarrow> u8 list option \<Rightarrow> cancellation \<Rightarrow> ('w \<Rightarrow> 'w) \<Rightarrow> ('p \<times> 'w, host_dir_error, host_exchange) op" where
  "default_compare_exchange_then path expected replacement cancel act =
     op_fail (host_error_new Unsupported ''guarded host directory compare-exchange unsupported'')"

definition default_list_bounded :: "path \<Rightarrow> nat \<Rightarrow> 'p \<Rightarrow> (host_dir_error, host_entry list) res" where
  "default_list_bounded path max_entries p =
     Err (host_error_new Unsupported ''bounded directory observation is unavailable'')"

section \<open>The contract\<close>

text \<open>
  \<open>files p\<close> is what regular files the port holds. A compare-exchange that reports an error may have
  happened or not; the action of a guarded exchange runs once on a match and never on a miss.
\<close>

definition file_update :: "(path \<Rightarrow> u8 list option) \<Rightarrow> path \<Rightarrow> u8 list option \<Rightarrow> path \<Rightarrow> u8 list option" where
  "file_update f path v = f(path := v)"

locale host_port =
  fixes P :: "('p, 'w) host_port"
    and files :: "'p \<Rightarrow> path \<Rightarrow> u8 list option"
  assumes read_file: "files p path = Some b \<Longrightarrow> hp_read P path p = Ok b"
    and read_absent: "files p path = None \<Longrightarrow> \<exists>e. hp_read P path p = Err e \<and> he_kind e = NotFound"
    and list_files: "hp_list P dir p = Ok es \<Longrightarrow>
          distinct (map hn_name es) \<and>
          hn_name ` {e \<in> set es. hn_kind e = HostFile} = {n. files p (dir @ [n]) \<noteq> None}"
    and list_no_panic: "hp_list P dir p \<noteq> Panic m"
    and create_dir: "hp_create_dir P path p = (p', ru) \<Longrightarrow> files p' = files p \<and> \<not> is_panic ru"
    and exchange_Ok: "hp_compare_exchange P path expected replacement never_cancel p = (p', Ok x) \<Longrightarrow>
          hx_observed x = files p path \<and> hx_exchanged x = (files p path = expected) \<and>
          files p' = (if files p path = expected then file_update (files p) path replacement else files p)"
    and exchange_fail: "hp_compare_exchange P path expected replacement never_cancel p = (p', r) \<Longrightarrow> \<not> is_ok r \<Longrightarrow>
          \<not> is_panic r \<and>
          (files p' = files p \<or> (files p path = expected \<and> files p' = file_update (files p) path replacement))"
    and guarded_Ok: "hp_compare_exchange_then P path expected replacement never_cancel act (p, w) = ((p', w'), Ok x) \<Longrightarrow>
          hx_observed x = files p path \<and> hx_exchanged x = (files p path = expected) \<and>
          files p' = (if files p path = expected then file_update (files p) path replacement else files p) \<and>
          w' = (if files p path = expected then act w else w)"
    and guarded_fail: "hp_compare_exchange_then P path expected replacement never_cancel act (p, w) = ((p', w'), r) \<Longrightarrow>
          \<not> is_ok r \<Longrightarrow> \<not> is_panic r \<and>
          ((files p' = files p \<and> w' = w) \<or>
           (files p path = expected \<and> files p' = file_update (files p) path replacement \<and> (w' = w \<or> w' = act w)))"

section \<open>The test adapter\<close>

record test_port =
  tp_files :: "(path, u8 list) btree_map"
  tp_dirs :: "path list"

definition test_port_empty :: test_port where
  "test_port_empty = \<lparr>tp_files = [], tp_dirs = []\<rparr>"

text \<open>\<open>path.len() == dir.len() + 1 && path.starts_with(dir)\<close>, and the last component.\<close>

definition child_of :: "path \<Rightarrow> path \<Rightarrow> bool" where
  "child_of dir path \<longleftrightarrow> length path = length dir + 1 \<and> take (length dir) path = dir"

definition tp_list :: "path \<Rightarrow> test_port \<Rightarrow> (host_dir_error, host_entry list) res" where
  "tp_list dir p =
     (let rows = foldl (\<lambda>rows path. if child_of dir path
            then binsert (last path) \<lparr>hn_name = last path, hn_kind = HostDirectory, hn_len = 0\<rparr> rows else rows) [] (tp_dirs p);
          rows = foldl (\<lambda>rows (path, bytes). if child_of dir path
            then binsert (last path) \<lparr>hn_name = last path, hn_kind = HostFile, hn_len = word_of_nat (length bytes)\<rparr> rows
            else rows) rows (tp_files p)
      in Ok (bvalues rows))"

definition tp_metadata :: "path \<Rightarrow> test_port \<Rightarrow> (host_dir_error, host_entry option) res" where
  "tp_metadata path p =
     Ok (map_option (\<lambda>v. \<lparr>hn_name = last path, hn_kind = HostFile, hn_len = word_of_nat (length v)\<rparr>) (bget (tp_files p) path))"

definition tp_read :: "path \<Rightarrow> test_port \<Rightarrow> (host_dir_error, u8 list) res" where
  "tp_read path p = ok_or (bget (tp_files p) path) (host_error_new NotFound ''absent'')"

definition tp_replace :: "path \<Rightarrow> u8 list \<Rightarrow> cancellation \<Rightarrow> (test_port, host_dir_error, unit) op" where
  "tp_replace path bytes cancel p = (p\<lparr>tp_files := binsert path bytes (tp_files p)\<rparr>, Ok ())"

definition tp_exchange ::
    "path \<Rightarrow> u8 list option \<Rightarrow> u8 list option \<Rightarrow> cancellation \<Rightarrow> (test_port, host_dir_error, host_exchange) op" where
  "tp_exchange path expected replacement cancel p =
     (let observed = bget (tp_files p) path;
          exchanged = (observed = expected);
          p' = (if exchanged then
                  (case replacement of
                     Some v \<Rightarrow> p\<lparr>tp_files := binsert path v (tp_files p)\<rparr>
                   | None \<Rightarrow> p\<lparr>tp_files := bremove path (tp_files p)\<rparr>)
                else p)
      in (p', Ok \<lparr>hx_exchanged = exchanged, hx_observed = observed\<rparr>))"

definition tp_exchange_then ::
    "bool \<Rightarrow> path \<Rightarrow> u8 list option \<Rightarrow> u8 list option \<Rightarrow> cancellation \<Rightarrow> ('w \<Rightarrow> 'w) \<Rightarrow>
     (test_port \<times> 'w, host_dir_error, host_exchange) op" where
  "tp_exchange_then guarded path expected replacement cancel act pw =
     (case pw of (p, w) \<Rightarrow>
        if \<not> guarded then ((p, w), Err (host_error_new Unsupported ''not supported''))
        else
          (case tp_exchange path expected replacement cancel p of
             (p', Ok x) \<Rightarrow> ((p', if hx_exchanged x then act w else w), Ok x)
           | (p', Err e) \<Rightarrow> ((p', w), Err e)
           | (p', Panic m) \<Rightarrow> ((p', w), Panic m)))"

definition tp_remove_file :: "path \<Rightarrow> (test_port, host_dir_error, unit) op" where
  "tp_remove_file path p = (p\<lparr>tp_files := bremove path (tp_files p)\<rparr>, Ok ())"

definition tp_create_dir :: "path \<Rightarrow> (test_port, host_dir_error, unit) op" where
  "tp_create_dir path p = (p\<lparr>tp_dirs := sinsert path (tp_dirs p)\<rparr>, Ok ())"

definition tp_remove_dir_all :: "path \<Rightarrow> (test_port, host_dir_error, unit) op" where
  "tp_remove_dir_all path p = (p, Ok ())"

definition test_port_ops :: "bool \<Rightarrow> (test_port, 'w) host_port" where
  "test_port_ops guarded =
     \<lparr>hp_label = ''test'', hp_list = tp_list, hp_metadata = tp_metadata, hp_read = tp_read, hp_replace = tp_replace,
      hp_compare_exchange = tp_exchange, hp_supports_guarded = guarded,
      hp_compare_exchange_then = tp_exchange_then guarded, hp_remove_file = tp_remove_file,
      hp_create_dir = tp_create_dir, hp_remove_dir_all = tp_remove_dir_all\<rparr>"

subsection \<open>It keeps the contract\<close>

definition tp_file_map :: "test_port \<Rightarrow> path \<Rightarrow> u8 list option" where
  "tp_file_map p = bget (tp_files p)"

text \<open>The rows of a listing: keyed by their names, and a file row exactly for the files seen so far.\<close>

definition rows_ok :: "string set \<Rightarrow> (string, host_entry) btree_map \<Rightarrow> bool" where
  "rows_ok F rows \<longleftrightarrow> bsorted rows \<and> (\<forall>k e. bget rows k = Some e \<longrightarrow> hn_name e = k \<and> (hn_kind e = HostFile \<longleftrightarrow> k \<in> F)) \<and>
     (\<forall>k\<in>F. bget rows k \<noteq> None)"

lemma rows_ok_insert:
  assumes "rows_ok F rows" and "F' = (if hn_kind e = HostFile then insert (hn_name e) F else F - {hn_name e})"
  shows "rows_ok F' (binsert (hn_name e) e rows)"
  using assms unfolding rows_ok_def by (cases "hn_kind e = HostFile") auto

lemma rows_ok_dirs:
  "rows_ok {} rows \<Longrightarrow> rows_ok {} (foldl (\<lambda>rows path. if child_of dir path
     then binsert (last path) \<lparr>hn_name = last path, hn_kind = HostDirectory, hn_len = 0\<rparr> rows else rows) rows ds)"
proof (induction ds arbitrary: rows)
  case (Cons d ds)
  have "rows_ok {} (binsert (last d) \<lparr>hn_name = last d, hn_kind = HostDirectory, hn_len = 0\<rparr> rows)"
    using rows_ok_insert [OF Cons.prems, of "{}" "\<lparr>hn_name = last d, hn_kind = HostDirectory, hn_len = 0\<rparr>"] by simp
  then show ?case using Cons by simp
qed simp

lemma rows_ok_files:
  "rows_ok F rows \<Longrightarrow> rows_ok (F \<union> last ` {path \<in> set (map fst fs). child_of dir path})
     (foldl (\<lambda>rows (path, bytes). if child_of dir path
        then binsert (last path) \<lparr>hn_name = last path, hn_kind = HostFile, hn_len = word_of_nat (length bytes)\<rparr> rows
        else rows) rows fs)"
proof (induction fs arbitrary: F rows)
  case (Cons pb fs)
  obtain path bytes where pb: "pb = (path, bytes)" by (cases pb)
  show ?case
  proof (cases "child_of dir path")
    case True
    have "rows_ok (insert (last path) F)
        (binsert (last path) \<lparr>hn_name = last path, hn_kind = HostFile, hn_len = word_of_nat (length bytes)\<rparr> rows)"
      using rows_ok_insert [OF Cons.prems, of _ "\<lparr>hn_name = last path, hn_kind = HostFile, hn_len = word_of_nat (length bytes)\<rparr>"]
      by simp
    note Cons.IH [OF this]
    moreover have "F \<union> last ` {p \<in> set (map fst (pb # fs)). child_of dir p} =
        insert (last path) F \<union> last ` {p \<in> set (map fst fs). child_of dir p}"
      using True pb by auto
    ultimately show ?thesis using True pb by (simp only: foldl_Cons prod.case if_True)
  next
    case False
    then have "{p \<in> set (map fst (pb # fs)). child_of dir p} = {p \<in> set (map fst fs). child_of dir p}"
      using pb by auto
    then show ?thesis using Cons False pb by simp
  qed
qed simp

lemma child_of_iff: "child_of dir path \<longleftrightarrow> (\<exists>n. path = dir @ [n])"
proof
  assume "child_of dir path"
  then have l: "length path = length dir + 1" "take (length dir) path = dir" by (auto simp: child_of_def)
  then have "path = dir @ drop (length dir) path" by (metis append_take_drop_id)
  moreover obtain n where "drop (length dir) path = [n]"
    using l(1) by (cases "drop (length dir) path") (auto dest!: arg_cong [where f = length])
  ultimately show "\<exists>n. path = dir @ [n]" by metis
qed (auto simp: child_of_def)

lemma file_children:
  "last ` {path \<in> set (map fst fs). child_of dir path} = {n. bget fs (dir @ [n]) \<noteq> None}"
proof -
  have "n \<in> last ` {path \<in> set (map fst fs). child_of dir path} \<longleftrightarrow> dir @ [n] \<in> set (map fst fs)" for n
  proof
    assume "n \<in> last ` {path \<in> set (map fst fs). child_of dir path}"
    then obtain path where "path \<in> set (map fst fs)" "child_of dir path" "n = last path" by blast
    then show "dir @ [n] \<in> set (map fst fs)" by (auto simp: child_of_iff simp del: set_map)
  next
    assume "dir @ [n] \<in> set (map fst fs)"
    moreover have "child_of dir (dir @ [n])" by (simp add: child_of_iff)
    ultimately show "n \<in> last ` {path \<in> set (map fst fs). child_of dir path}" by force
  qed
  then show ?thesis by (auto simp only: bget_None_iff bkeys_def)
qed

lemma tp_list_rows:
  "\<exists>rows. tp_list dir p = Ok (bvalues rows) \<and> rows_ok {n. tp_file_map p (dir @ [n]) \<noteq> None} rows"
proof -
  have "rows_ok {} ([] :: (string, host_entry) btree_map)" by (simp add: rows_ok_def)
  note rows_ok_files [OF rows_ok_dirs [OF this, where dir = dir and ds = "tp_dirs p"], where dir = dir and fs = "tp_files p"]
  then show ?thesis unfolding file_children tp_list_def Let_def tp_file_map_def by (simp only: Un_empty_left) blast
qed

lemma rows_ok_values:
  assumes "rows_ok F rows"
  shows "distinct (map hn_name (bvalues rows))" "hn_name ` {e \<in> set (bvalues rows). hn_kind e = HostFile} = F"
proof -
  have sorted: "bsorted rows"
    and rows: "\<And>k e. bget rows k = Some e \<Longrightarrow> hn_name e = k \<and> (hn_kind e = HostFile \<longleftrightarrow> k \<in> F)"
    and F: "\<And>k. k \<in> F \<Longrightarrow> \<exists>e. bget rows k = Some e"
    using assms by (auto simp: rows_ok_def)
  note mem = bget_mem [OF sorted]
  have "map hn_name (bvalues rows) = map fst rows"
    using rows mem by (auto simp: bvalues_def)
  then show "distinct (map hn_name (bvalues rows))" using bsorted_distinct [OF sorted] by simp
  show "hn_name ` {e \<in> set (bvalues rows). hn_kind e = HostFile} = F"
  proof (intro equalityI subsetI)
    fix k
    assume "k \<in> hn_name ` {e \<in> set (bvalues rows). hn_kind e = HostFile}"
    then obtain k' e where "(k', e) \<in> set rows" "hn_kind e = HostFile" "k = hn_name e" by (auto simp: bvalues_def)
    then show "k \<in> F" using rows mem by blast
  next
    fix k
    assume k: "k \<in> F"
    then obtain e where e: "bget rows k = Some e" using F by blast
    then have "e \<in> set (bvalues rows)" using mem by (force simp: bvalues_def)
    then show "k \<in> hn_name ` {e \<in> set (bvalues rows). hn_kind e = HostFile}" using rows [OF e] k by blast
  qed
qed

lemma tp_laws:
  "tp_file_map p path = Some b \<Longrightarrow> tp_read path p = Ok b"
  "tp_file_map p path = None \<Longrightarrow> \<exists>e. tp_read path p = Err e \<and> he_kind e = NotFound"
  "tp_list dir p \<noteq> Panic m"
  "tp_create_dir path p = (p', ru) \<Longrightarrow> tp_file_map p' = tp_file_map p \<and> \<not> is_panic ru"
  by (auto simp: tp_read_def tp_file_map_def host_error_new_def tp_list_def tp_create_dir_def Let_def)

lemma tp_exchange_run:
  "\<exists>p'. tp_exchange path expected replacement cancel p =
      (p', Ok \<lparr>hx_exchanged = (tp_file_map p path = expected), hx_observed = tp_file_map p path\<rparr>) \<and>
    tp_file_map p' = (if tp_file_map p path = expected then file_update (tp_file_map p) path replacement else tp_file_map p)"
  by (cases replacement) (auto simp: tp_exchange_def tp_file_map_def file_update_def Let_def fun_eq_iff)

lemma tp_exchange_laws:
  "tp_exchange path expected replacement cancel p = (p', Ok x) \<Longrightarrow>
     hx_observed x = tp_file_map p path \<and> hx_exchanged x = (tp_file_map p path = expected) \<and>
     tp_file_map p' = (if tp_file_map p path = expected then file_update (tp_file_map p) path replacement else tp_file_map p)"
  "tp_exchange path expected replacement cancel p = (p', rx) \<Longrightarrow> is_ok rx"
  using tp_exchange_run [of path expected replacement cancel p] by auto

lemma tp_exchange_then_laws:
  "tp_exchange_then guarded path expected replacement cancel act (p, w) = ((p', w'), Ok x) \<Longrightarrow>
     hx_observed x = tp_file_map p path \<and> hx_exchanged x = (tp_file_map p path = expected) \<and>
     tp_file_map p' = (if tp_file_map p path = expected then file_update (tp_file_map p) path replacement else tp_file_map p) \<and>
     w' = (if tp_file_map p path = expected then act w else w)"
  "tp_exchange_then guarded path expected replacement cancel act (p, w) = ((p', w'), rg) \<Longrightarrow> \<not> is_ok rg \<Longrightarrow>
     \<not> is_panic rg \<and> p' = p \<and> w' = w"
  using tp_exchange_run [of path expected replacement cancel p]
  by (auto simp: tp_exchange_then_def split: if_splits)

interpretation test_port: host_port "test_port_ops guarded :: (test_port, 'w) host_port" tp_file_map for guarded
proof unfold_locales
  fix p dir es
  assume es: "hp_list (test_port_ops guarded :: (test_port, 'w) host_port) dir p = Ok es"
  obtain rows where rows: "tp_list dir p = Ok (bvalues rows)" "rows_ok {n. tp_file_map p (dir @ [n]) \<noteq> None} rows"
    using tp_list_rows by blast
  have "es = bvalues rows" using es rows(1) by (simp add: test_port_ops_def)
  then show "distinct (map hn_name es) \<and>
      hn_name ` {e \<in> set es. hn_kind e = HostFile} = {n. tp_file_map p (dir @ [n]) \<noteq> None}"
    using rows_ok_values [OF rows(2)] by simp
qed (unfold test_port_ops_def host_port.select_convs,
    (use tp_laws tp_exchange_laws tp_exchange_then_laws in \<open>blast | metis\<close>)+)

end
