(* ===== verification/Journal_Host.thy ===== *)
theory Journal_Host
  imports Native_Codec Host_Port
begin

text \<open>
  The durable backend over a storage port: \<open>HostDirJournalBackend\<close> of
  \<open>crates/sim-lib-journal/src/host.rs\<close>, guarded admission of \<open>host/admission.rs\<close> and the conformance
  hooks of \<open>host/failpoint.rs\<close>. Readers work on the port state; writers are operations on the host
  state, which adds the namespace counter (a process-wide atomic in the code). The clock and the
  process id are members of the backend: the time read for an attempt is a function of the nonce the
  attempt drew, since no two attempts draw the same one. A hook answers as a function of its arguments.
\<close>

section \<open>The backend\<close>

record ('p, 'w) host_backend =
  hb_port :: "('p, 'w) host_port"
  hb_capabilities :: backend_capabilities
  hb_work_bound :: nat
  hb_fail :: "(failpoint \<Rightarrow> bool) option"
  hb_admission_fail :: "(failpoint \<Rightarrow> admission \<Rightarrow> bool) option"
  hb_pid :: u32
  hb_clock :: "u64 \<Rightarrow> 128 word option"

record 'p host_state =
  hs_port :: 'p
  hs_nonce :: u64

type_synonym ('p, 'a) host_op = "('p host_state, journal_error, 'a) op"

definition port_error :: "host_dir_error \<Rightarrow> journal_error" where
  "port_error e = Backend (host_error_text e)"

text \<open>A call of the port with \<open>map_err(port_error)\<close>.\<close>

definition on_port :: "('p, host_dir_error, 'a) op \<Rightarrow> ('p, 'a) host_op" where
  "on_port m s = (case m (hs_port s) of (p, r) \<Rightarrow> (s\<lparr>hs_port := p\<rparr>, map_err port_error r))"

definition host_dir :: "('p, 'w) host_backend \<Rightarrow> path \<Rightarrow> ('p, unit) host_op" where
  "host_dir C path = on_port (hp_create_dir (hb_port C) path)"

definition host_cas :: "('p, 'w) host_backend \<Rightarrow> path \<Rightarrow> u8 list option \<Rightarrow> u8 list option \<Rightarrow> ('p, host_exchange) host_op" where
  "host_cas C path expected replacement = on_port (hp_compare_exchange (hb_port C) path expected replacement never_cancel)"

definition host_load :: "('p, 'w) host_backend \<Rightarrow> path \<Rightarrow> 'p \<Rightarrow> (journal_error, u8 list) res" where
  "host_load C path p = map_err port_error (hp_read (hb_port C) path p)"

definition state_path :: path where
  "state_path = [''state'']"

section \<open>Hooks\<close>

definition trip :: "('p, 'w) host_backend \<Rightarrow> failpoint \<Rightarrow> (journal_error, unit) res" where
  "trip C point =
     (if (case hb_fail C of Some hook \<Rightarrow> hook point | None \<Rightarrow> False) then Err (InjectedCrash (failpoint_label point))
      else Ok ())"

definition trip_admission :: "('p, 'w) host_backend \<Rightarrow> failpoint \<Rightarrow> admission \<Rightarrow> (journal_error, unit) res" where
  "trip_admission C point ad =
     res_bind (trip C point) (\<lambda>_.
     if (case hb_admission_fail C of Some hook \<Rightarrow> hook point ad | None \<Rightarrow> False)
     then Err (InjectedCrash (failpoint_label point)) else Ok ())"

section \<open>Parts\<close>

definition write_capable :: "('p, 'w) host_backend \<Rightarrow> (journal_error, unit) res" where
  "write_capable C =
     (if \<not> bc_linearizable_cas (hb_capabilities C) then Err (WriteRefused ''linearizable table/cas unavailable'')
      else if \<not> bc_durable_publish (hb_capabilities C) then Err (WriteRefused ''storage durability receipt unavailable'')
      else Ok ())"

definition ensure_layout :: "('p, 'w) host_backend \<Rightarrow> ('p, unit) host_op" where
  "ensure_layout C = op_each (host_dir C) [[''objects-v2''], [''namespaces-v2''], [''compat-v1''], [''temporary'']]"

definition state_bytes :: "('p, 'w) host_backend \<Rightarrow> 'p \<Rightarrow> (journal_error, u8 list option) res" where
  "state_bytes C p =
     (case hp_read (hb_port C) state_path p of
        Ok bytes \<Rightarrow> Ok (Some bytes)
      | Err e \<Rightarrow> if he_kind e = NotFound then Ok None else Err (port_error e)
      | Panic m \<Rightarrow> Panic m)"

definition is_v1 :: "u8 list \<Rightarrow> bool" where
  "is_v1 bytes \<longleftrightarrow> take 10 bytes = as_bytes ''SIMJSTATE1''"

definition state_envelope :: "kernel \<Rightarrow> ('p, 'w) host_backend \<Rightarrow> 'p \<Rightarrow> (journal_error, native_envelope option) res" where
  "state_envelope K C p =
     res_bind (state_bytes C p) (\<lambda>b.
     case b of
       None \<Rightarrow> Ok None
     | Some bytes \<Rightarrow>
         if is_v1 bytes then Ok None else res_bind (decode_envelope K bytes) (\<lambda>v. Ok (Some v)))"

definition put_immutable :: "('p, 'w) host_backend \<Rightarrow> path \<Rightarrow> u8 list \<Rightarrow> ('p, unit) host_op" where
  "put_immutable C path bytes =
     op_bind (host_cas C path None (Some bytes)) (\<lambda>outcome.
     if hx_exchanged outcome \<or> hx_observed outcome = Some bytes then op_return () else op_fail ConflictingObject)"

definition ensure_entry_dirs :: "kernel \<Rightarrow> ('p, 'w) host_backend \<Rightarrow> entry_location \<Rightarrow> ('p, unit) host_op" where
  "ensure_entry_dirs K C l =
     (let root = namespace_root (el_namespace l) @ [''entries''];
          sequence = root @ [hex16 (el_sequence l)]
      in op_bind (host_dir C sequence) (\<lambda>_. host_dir C (sequence @ [id_key K (el_entry l)])))"

text \<open>\<open>NAMESPACE_COUNTER.fetch_add(1)\<close>, and the token of a nonce.\<close>

definition next_nonce :: "('p, u64) host_op" where
  "next_nonce s = (s\<lparr>hs_nonce := hs_nonce s + 1\<rparr>, Ok (hs_nonce s))"

definition namespace_token :: "kernel \<Rightarrow> ('p, 'w) host_backend \<Rightarrow> u8 list \<Rightarrow> 128 word \<Rightarrow> u64 \<Rightarrow> string" where
  "namespace_token K C seed now nonce =
     hex (sha256 K (as_bytes ''sim-journal-namespace-v2'' @ [0] @ seed @ u32_to_be (hb_pid C) @ be_nat 16 (unat now) @
       u64_to_be nonce))"

fun reserve_attempts :: "kernel \<Rightarrow> ('p, 'w) host_backend \<Rightarrow> u8 list \<Rightarrow> nat \<Rightarrow> ('p, entry_namespace) host_op" where
  "reserve_attempts K C seed 0 = op_fail (Backend ''could not reserve a fresh journal namespace'')"
| "reserve_attempts K C seed (Suc n) =
     op_bind next_nonce (\<lambda>nonce.
     op_bind (op_res (ok_or (hb_clock C nonce) (Backend ''system time before epoch''))) (\<lambda>now.
     let namespace = EntryNamespace (namespace_token K C seed now nonce); root = namespace_root namespace in
     op_bind (host_dir C root) (\<lambda>_.
     op_bind (host_cas C (root @ [''format'']) None (Some (as_bytes ''SIMJNAMESPACE2''))) (\<lambda>result.
     if hx_exchanged result then op_bind (host_dir C (root @ [''entries''])) (\<lambda>_. op_return namespace)
     else reserve_attempts K C seed n))))"

definition reserve_namespace :: "kernel \<Rightarrow> ('p, 'w) host_backend \<Rightarrow> u8 list \<Rightarrow> ('p, entry_namespace) host_op" where
  "reserve_namespace K C seed = reserve_attempts K C seed 128"

definition put_object :: "kernel \<Rightarrow> ('p, 'w) host_backend \<Rightarrow> journal_object \<Rightarrow> ('p, stored_datum_ref) host_op" where
  "put_object K C ob =
     op_bind (op_res (object_verify K ob)) (\<lambda>_.
     op_bind (op_res (storage_bytes K ob)) (\<lambda>bytes.
     let storage = storage_id K bytes; meaning_dir = [''objects-v2'', id_key K (jo_id ob)] in
     op_bind (host_dir C meaning_dir) (\<lambda>_.
     op_bind (put_immutable C (meaning_dir @ [id_key K storage]) bytes) (\<lambda>_.
     op_return \<lparr>sr_meaning = jo_id ob, sr_storage = storage\<rparr>))))"

definition find_object ::
    "kernel \<Rightarrow> ('p, 'w) host_backend \<Rightarrow> cid \<Rightarrow> 'p \<Rightarrow> (journal_error, stored_datum_ref \<times> journal_object) res" where
  "find_object K C meaning p =
     (let dir = [''objects-v2'', id_key K meaning] in
      res_bind (map_err port_error (hp_list (hb_port C) dir p)) (\<lambda>entries.
      let fs = filter (\<lambda>e. hn_kind e = HostFile) entries in
      if fs = [] then Err (MissingSemanticObject meaning)
      else if length fs \<noteq> 1 then Err (CorruptState ''ambiguous semantic object'')
      else
        res_bind (parse_id_key K (hn_name (hd fs))) (\<lambda>storage.
        res_bind (host_load C (dir @ [hn_name (hd fs)]) p) (\<lambda>bytes.
        if storage_id K bytes \<noteq> storage then Err (CorruptState ''object storage id'')
        else
          res_bind (from_storage_bytes K bytes) (\<lambda>ob.
          if jo_id ob \<noteq> meaning then Err (CorruptObject meaning)
          else Ok (\<lparr>sr_meaning = meaning, sr_storage = storage\<rparr>, ob))))))"

definition load_object_ref ::
    "kernel \<Rightarrow> ('p, 'w) host_backend \<Rightarrow> stored_datum_ref \<Rightarrow> 'p \<Rightarrow> (journal_error, journal_object) res" where
  "load_object_ref K C r p =
     res_bind (host_load C (object_path K r) p) (\<lambda>bytes.
     if storage_id K bytes \<noteq> sr_storage r then Err (CorruptState ''object storage id'')
     else
       res_bind (from_storage_bytes K bytes) (\<lambda>ob.
       if jo_id ob \<noteq> sr_meaning r then Err (CorruptObject (sr_meaning r)) else Ok ob))"

section \<open>Reading version 1\<close>

record v1_walk =
  vw_state :: stored_state
  vw_physical :: "cid option"
  vw_canonical :: "cid option"

definition insert_object :: "journal_object \<Rightarrow> stored_state \<Rightarrow> stored_state" where
  "insert_object ob st =
     st\<lparr>st_objects := binsert (jo_id ob) (jo_bytes ob) (st_objects st),
        st_datums := binsert (jo_id ob) (jo_datum ob) (st_datums st)\<rparr>"

definition v1_payload ::
    "kernel \<Rightarrow> ('p, 'w) host_backend \<Rightarrow> 'p \<Rightarrow> cid \<Rightarrow> cid list \<times> stored_state \<Rightarrow> (journal_error, cid list \<times> stored_state) res" where
  "v1_payload K C p old_id acc =
     res_bind (host_load C (v1_object_path old_id) p) (\<lambda>payload.
     if v1_object_id K payload \<noteq> old_id then Err (CorruptObject old_id)
     else
       res_bind (object_from_bytes K payload) (\<lambda>ob.
       Ok (fst acc @ [jo_id ob], insert_object ob (snd acc))))"

definition v1_step ::
    "kernel \<Rightarrow> ('p, 'w) host_backend \<Rightarrow> 'p \<Rightarrow> nat \<Rightarrow> v1_walk \<Rightarrow> (journal_error, v1_walk) res" where
  "v1_step K C p n w =
     (let sequence = word_of_nat n in
      res_bind (host_load C (v1_entry_path sequence) p) (\<lambda>bytes.
      res_bind (decode_v1_entry K bytes) (\<lambda>old.
      if v1_sequence old \<noteq> sequence \<or> v1_previous old \<noteq> vw_physical w then Err (CorruptState ''v1 chain'')
      else if v1_id old \<noteq> v1_canonical_id K old then Err CorruptEntry
      else
        res_bind (res_fold (v1_payload K C p) (v1_payloads old) ([], vw_state w)) (\<lambda>(payloads, st).
        res_bind (journal_entry_new K sequence (vw_canonical w) (v1_kind old) payloads) (\<lambda>entry.
        Ok \<lparr>vw_state = st\<lparr>st_entries := binsert sequence entry (st_entries st)\<rparr>,
            vw_physical = Some (v1_id old), vw_canonical = Some (en_id entry)\<rparr>)))))"

definition read_v1 ::
    "kernel \<Rightarrow> ('p, 'w) host_backend \<Rightarrow> u8 list \<Rightarrow> 'p \<Rightarrow> (journal_error, stored_state \<times> journal_head) res" where
  "read_v1 K C bytes p =
     res_bind (decode_v1_state K bytes) (\<lambda>(_, head).
     res_bind (ok_or head (CorruptState ''empty v1 prefix'')) (\<lambda>physical_head.
     res_bind (ok_or (checked_add_usize (unat (head_sequence physical_head)) 1) WorkBoundExceeded) (\<lambda>needed.
     if needed > hb_work_bound C then Err WorkBoundExceeded
     else
       res_bind (res_fold (v1_step K C p) [0 ..< Suc (unat (head_sequence physical_head))]
         \<lparr>vw_state = empty_state, vw_physical = None, vw_canonical = None\<rparr>) (\<lambda>w.
       if vw_physical w \<noteq> Some (head_entry physical_head) then Err (CorruptState ''v1 head'')
       else
         res_bind (ok_or (map_option (\<lambda>(_, e). head_of e) (blast (st_entries (vw_state w)))) (CorruptState ''empty v1 prefix'')) (\<lambda>canonical_head.
         let st = (vw_state w)\<lparr>st_head := Some canonical_head\<rparr> in
         res_bind (verify_state K st) (\<lambda>_. Ok (st, canonical_head)))))))"

text \<open>\<open>saturating_add(1)\<close>.\<close>

definition saturating_succ :: "u64 \<Rightarrow> u64" where
  "saturating_succ x = (if x = - 1 then x else x + 1)"

definition read_prefix :: "kernel \<Rightarrow> ('p, 'w) host_backend \<Rightarrow> native_prefix_ref \<Rightarrow> 'p \<Rightarrow> (journal_error, stored_state) res" where
  "read_prefix K C pr p =
     res_bind (host_load C (descriptor_path K (pr_descriptor pr)) p) (\<lambda>bytes.
     if storage_id K bytes \<noteq> pr_descriptor pr then Err (CorruptState ''prefix descriptor id'')
     else
       res_bind (decode_descriptor K bytes) (\<lambda>(old_state, described_canonical_head).
       res_bind (decode_v1_state K old_state) (\<lambda>(_, physical).
       if physical \<noteq> Some (pr_physical_head pr) then Err (CorruptState ''prefix physical head'')
       else
         res_bind (read_v1 K C old_state p) (\<lambda>(st, canonical).
         if described_canonical_head \<noteq> pr_canonical_head pr \<or> canonical \<noteq> pr_canonical_head pr \<or>
            pr_entries pr \<noteq> saturating_succ (head_sequence canonical)
         then Err (CorruptState ''prefix canonical head'') else Ok st))))"

section \<open>Reading version 2\<close>

text \<open>One payload of a leaf: its reference must name the entry's payload.\<close>

definition v2_payload ::
    "kernel \<Rightarrow> ('p, 'w) host_backend \<Rightarrow> 'p \<Rightarrow> cid \<times> stored_datum_ref \<Rightarrow> stored_state \<Rightarrow> (journal_error, stored_state) res" where
  "v2_payload K C p mr st =
     (case mr of (meaning, r) \<Rightarrow>
        if meaning \<noteq> sr_meaning r then Err (CorruptState ''payload locator'')
        else res_bind (load_object_ref K C r p) (\<lambda>ob. Ok (insert_object ob st)))"

text \<open>One leaf of the chain.\<close>

definition v2_leaf ::
    "kernel \<Rightarrow> ('p, 'w) host_backend \<Rightarrow> 'p \<Rightarrow> entry_location \<Rightarrow> stored_state \<Rightarrow> (journal_error, physical_entry \<times> stored_state) res" where
  "v2_leaf K C p current st =
     res_bind (host_load C (entry_path K current) p) (\<lambda>bytes.
     if storage_id K bytes \<noteq> el_storage current then Err (CorruptState ''entry storage id'')
     else
       res_bind (decode_v2_entry K bytes) (\<lambda>physical.
       if en_id (pe_entry physical) \<noteq> el_entry current \<or> en_sequence (pe_entry physical) \<noteq> el_sequence current
       then Err CorruptEntry
       else
         res_bind (canonical_id K (pe_entry physical)) (\<lambda>c.
         if c \<noteq> en_id (pe_entry physical) then Err CorruptEntry
         else
           res_bind (res_fold (v2_payload K C p) (zip (en_payloads (pe_entry physical)) (pe_payloads physical)) st) (\<lambda>st.
           if length (en_payloads (pe_entry physical)) \<noteq> length (pe_payloads physical)
           then Err (CorruptState ''payload locator count'')
           else Ok (physical, st)))))"

text \<open>
  The walk back along the chain. Every leaf visited counts against the work bound, so the walk ends
  on every chain, cyclic ones included.
\<close>

function v2_walk ::
    "kernel \<Rightarrow> ('p, 'w) host_backend \<Rightarrow> 'p \<Rightarrow> entry_namespace \<Rightarrow> nat \<Rightarrow> entry_location option \<Rightarrow> entry_location list \<Rightarrow>
     physical_entry list \<Rightarrow> stored_state \<Rightarrow> (journal_error, physical_entry list \<times> stored_state) res" where
  "v2_walk K C p ns prefix_len None seen suffix st = Ok (suffix, st)"
| "v2_walk K C p ns prefix_len (Some current) seen suffix st =
     (if el_namespace current \<noteq> ns \<or> current \<in> set seen then Err (CorruptState ''entry locator chain'')
      else if prefix_len + length suffix \<ge> hb_work_bound C then Err WorkBoundExceeded
      else
        res_bind (v2_leaf K C p current st) (\<lambda>(physical, st).
        v2_walk K C p ns prefix_len (pe_previous_location physical) (current # seen) (suffix @ [physical]) st))"
  by pat_completeness auto

termination
  by (relation "measure (\<lambda>(K, C, p, ns, prefix_len, location, seen, suffix, st).
      hb_work_bound C - (prefix_len + length suffix))") auto

definition v2_entry_insert :: "physical_entry \<Rightarrow> stored_state \<Rightarrow> (journal_error, stored_state) res" where
  "v2_entry_insert physical st =
     (let e = pe_entry physical in
      if bcontains (st_entries st) (en_sequence e) then Err (CorruptState ''overlapping suffix'')
      else Ok (st\<lparr>st_entries := binsert (en_sequence e) e (st_entries st)\<rparr>))"

definition read_v2 :: "kernel \<Rightarrow> ('p, 'w) host_backend \<Rightarrow> native_envelope \<Rightarrow> 'p \<Rightarrow> (journal_error, stored_state) res" where
  "read_v2 K C v p =
     (if ev_format v \<noteq> V2 then Err (CorruptState ''native format'')
      else
        res_bind (host_load C (namespace_root (ev_namespace v) @ [''format'']) p) (\<lambda>marker.
        if marker \<noteq> as_bytes ''SIMJNAMESPACE2'' then Err (CorruptState ''namespace format'')
        else
          res_bind (case ev_prefix v of Some pr \<Rightarrow> read_prefix K C pr p | None \<Rightarrow> Ok empty_state) (\<lambda>st0.
          let prefix_len = length (st_entries st0) in
          res_bind (v2_walk K C p (ev_namespace v) prefix_len (ev_head_location v) [] [] st0) (\<lambda>(suffix, st).
          res_bind (res_fold v2_entry_insert (rev suffix) st) (\<lambda>st.
          let st = st\<lparr>st_head := ev_head v\<rparr> in
          res_bind (verify_state K st) (\<lambda>_.
          if (length (st_entries st) > prefix_len) \<noteq> (ev_head_location v \<noteq> None)
          then Err (CorruptState ''head locator'') else Ok st))))))"

definition host_read_state :: "kernel \<Rightarrow> ('p, 'w) host_backend \<Rightarrow> 'p \<Rightarrow> (journal_error, stored_state) res" where
  "host_read_state K C p =
     res_bind (state_bytes C p) (\<lambda>b.
     case b of
       None \<Rightarrow> Ok empty_state
     | Some bytes \<Rightarrow>
         if is_v1 bytes then
           res_bind (decode_v1_state K bytes) (\<lambda>(_, head).
           case head of
             Some _ \<Rightarrow> res_bind (read_v1 K C bytes p) (\<lambda>(st, _). Ok st)
           | None \<Rightarrow> Ok empty_state)
         else res_bind (decode_envelope K bytes) (\<lambda>v. read_v2 K C v p))"

text \<open>\<open>open\<close> checks the bound and verifies the committed closure.\<close>

definition host_open ::
    "kernel \<Rightarrow> ('p, 'w) host_port \<Rightarrow> backend_capabilities \<Rightarrow> nat \<Rightarrow> u32 \<Rightarrow> (u64 \<Rightarrow> 128 word option) \<Rightarrow> 'p \<Rightarrow>
     (journal_error, ('p, 'w) host_backend) res" where
  "host_open K P capabilities work_bound pid clock p =
     (if work_bound = 0 then Err WorkBoundExceeded
      else
        let backend = \<lparr>hb_port = P, hb_capabilities = capabilities, hb_work_bound = work_bound, hb_fail = None,
                       hb_admission_fail = None, hb_pid = pid, hb_clock = clock\<rparr>
        in res_bind (host_read_state K backend p) (\<lambda>_. Ok backend))"

section \<open>Leases\<close>

text \<open>The prefix that a version 1 state contributes: its fence, the prefix reference and the head.\<close>

definition install_prefix ::
    "kernel \<Rightarrow> ('p, 'w) host_backend \<Rightarrow> u8 list option \<Rightarrow>
     ('p, u64 \<times> native_prefix_ref option \<times> journal_head option) host_op" where
  "install_prefix K C observed =
     (case observed of
        None \<Rightarrow> op_return (0, None, None)
      | Some bytes \<Rightarrow>
          op_bind (op_res (decode_v1_state K bytes)) (\<lambda>(fence, head).
          case head of
            None \<Rightarrow> op_return (fence, None, None)
          | Some physical_head \<Rightarrow>
              op_bind (op_read (\<lambda>s. read_v1 K C bytes (hs_port s))) (\<lambda>(_, canonical_head).
              op_bind (op_res (trip C BeforePrefixDescriptor)) (\<lambda>_.
              let descriptor_bytes = encode_descriptor K bytes canonical_head;
                  descriptor = storage_id K descriptor_bytes in
              op_bind (put_immutable C (descriptor_path K descriptor) descriptor_bytes) (\<lambda>_.
              op_bind (op_res (trip C AfterPrefixDescriptor)) (\<lambda>_.
              op_return (fence,
                Some \<lparr>pr_entries = head_sequence canonical_head + 1, pr_physical_head = physical_head,
                      pr_canonical_head = canonical_head, pr_descriptor = descriptor\<rparr>,
                Some canonical_head)))))))"

definition install_v2 :: "kernel \<Rightarrow> ('p, 'w) host_backend \<Rightarrow> u8 list option \<Rightarrow> ('p, lease option) host_op" where
  "install_v2 K C observed =
     op_bind (install_prefix K C observed) (\<lambda>(old_fence, prefix, canonical_head).
     op_bind (op_res (ok_or (checked_add_u64 old_fence 1) (Backend ''fence exhausted''))) (\<lambda>fence.
     op_bind (reserve_namespace K C (case observed of Some b \<Rightarrow> b | None \<Rightarrow> [])) (\<lambda>namespace.
     op_bind (op_res (trip C AfterNamespaceReservation)) (\<lambda>_.
     let envelope = \<lparr>ev_format = V2, ev_fence = fence, ev_namespace = namespace, ev_prefix = prefix,
                     ev_head = canonical_head, ev_head_location = None\<rparr> in
     op_bind (op_res (trip C BeforeFormatCas)) (\<lambda>_.
     op_bind (host_cas C state_path observed (Some (encode_envelope K envelope))) (\<lambda>result.
     if \<not> hx_exchanged result then op_return None
     else op_bind (op_res (trip C AfterFormatCas)) (\<lambda>_. op_return (Some \<lparr>lease_fence = fence\<rparr>))))))))"

text \<open>One round of the loop of \<open>acquire_lease\<close>: a lease, or \<open>None\<close> when another writer got in between.\<close>

definition acquire_round :: "kernel \<Rightarrow> ('p, 'w) host_backend \<Rightarrow> ('p, lease option) host_op" where
  "acquire_round K C =
     op_bind (op_read (\<lambda>s. state_bytes C (hs_port s))) (\<lambda>observed.
     case observed of
       None \<Rightarrow> install_v2 K C None
     | Some bytes \<Rightarrow>
         if is_v1 bytes then install_v2 K C (Some bytes)
         else
           op_bind (op_res (decode_envelope K bytes)) (\<lambda>envelope.
           op_bind (op_read (\<lambda>s. read_v2 K C envelope (hs_port s))) (\<lambda>_.
           op_bind (op_res (ok_or (checked_add_u64 (ev_fence envelope) 1) (Backend ''fence exhausted''))) (\<lambda>fence.
           op_bind (host_cas C state_path (Some bytes) (Some (encode_envelope K (envelope\<lparr>ev_fence := fence\<rparr>)))) (\<lambda>result.
           op_return (if hx_exchanged result then Some \<lparr>lease_fence = fence\<rparr> else None))))))"

text \<open>The loop, for at most \<open>fuel\<close> rounds.\<close>

fun acquire_rounds :: "kernel \<Rightarrow> ('p, 'w) host_backend \<Rightarrow> nat \<Rightarrow> ('p, lease) host_op" where
  "acquire_rounds K C 0 = op_res (Panic ''fuel'')"
| "acquire_rounds K C (Suc fuel) =
     op_bind (acquire_round K C) (\<lambda>l. case l of Some l \<Rightarrow> op_return l | None \<Rightarrow> acquire_rounds K C fuel)"

definition host_acquire_lease :: "kernel \<Rightarrow> ('p, 'w) host_backend \<Rightarrow> nat \<Rightarrow> ('p, lease) host_op" where
  "host_acquire_lease K C fuel =
     op_bind (op_res (write_capable C)) (\<lambda>_. op_bind (ensure_layout C) (\<lambda>_. acquire_rounds K C fuel))"

section \<open>Admission\<close>

text \<open>The loop that publishes the objects and collects their references.\<close>

fun publish_objects ::
    "kernel \<Rightarrow> ('p, 'w) host_backend \<Rightarrow> journal_object list \<Rightarrow> (cid, stored_datum_ref) btree_map \<Rightarrow>
     ('p, (cid, stored_datum_ref) btree_map) host_op" where
  "publish_objects K C [] references = op_return references"
| "publish_objects K C (ob # obs) references =
     op_bind (put_object K C ob) (\<lambda>r. publish_objects K C obs (binsert (sr_meaning r) r references))"

definition resolve_payload ::
    "kernel \<Rightarrow> ('p, 'w) host_backend \<Rightarrow> (cid, stored_datum_ref) btree_map \<Rightarrow> 'p \<Rightarrow> cid \<Rightarrow> (journal_error, stored_datum_ref) res" where
  "resolve_payload K C references p meaning =
     (case bget references meaning of
        Some r \<Rightarrow> Ok r
      | None \<Rightarrow> res_bind (find_object K C meaning p) (\<lambda>(r, _). Ok r))"

text \<open>The loop that publishes the entry leaves; it returns the location of the last one.\<close>

fun publish_entries ::
    "kernel \<Rightarrow> ('p, 'w) host_backend \<Rightarrow> entry_namespace \<Rightarrow> (cid, stored_datum_ref) btree_map \<Rightarrow> journal_entry list \<Rightarrow>
     entry_location option \<Rightarrow> entry_location option \<Rightarrow> ('p, entry_location option) host_op" where
  "publish_entries K C ns references [] previous_location last_location = op_return last_location"
| "publish_entries K C ns references (e # es) previous_location last_location =
     op_bind (op_read (\<lambda>s. res_map (resolve_payload K C references (hs_port s)) (en_payloads e))) (\<lambda>payloads.
     op_bind (op_res (encode_v2_entry K
       \<lparr>pe_entry = e, pe_previous_location = previous_location, pe_payloads = payloads\<rparr>)) (\<lambda>bytes.
     let location = \<lparr>el_namespace = ns, el_sequence = en_sequence e, el_entry = en_id e,
                     el_storage = storage_id K bytes\<rparr> in
     op_bind (ensure_entry_dirs K C location) (\<lambda>_.
     op_bind (put_immutable C (entry_path K location) bytes) (\<lambda>_.
     publish_entries K C ns references es (Some location) (Some location)))))"

datatype prepared =
    Redelivered guarded_admission
  | Prepared (prep_observed: "u8 list") (prep_replacement: "u8 list") (prep_head: journal_head)

text \<open>Redelivery: every entry is committed, and the envelope is confirmed unchanged.\<close>

definition confirm_redelivery ::
    "kernel \<Rightarrow> ('p, 'w) host_backend \<Rightarrow> admission \<Rightarrow> u8 list \<Rightarrow> native_envelope \<Rightarrow> ('p, prepared) host_op" where
  "confirm_redelivery K C ad observed envelope =
     op_bind (op_read (\<lambda>s. read_v2 K C envelope (hs_port s))) (\<lambda>st.
     if ad_entries ad = [] \<or> \<not> list_all (\<lambda>e. bget (st_entries st) (en_sequence e) = Some e) (ad_entries ad)
     then op_fail WrongHead
     else
       op_bind (host_cas C state_path (Some observed) (Some observed)) (\<lambda>confirmation.
       if \<not> hx_exchanged confirmation then op_fail WrongHead
       else
         op_bind (op_res (ok_or (ev_head envelope) WrongHead)) (\<lambda>h.
         op_return (Redelivered \<lparr>ga_head = h, ga_disposition = AlreadyCommittedActionNotInvoked\<rparr>))))"

text \<open>Everything before the exchange that moves the head.\<close>

definition prepare_admission :: "kernel \<Rightarrow> ('p, 'w) host_backend \<Rightarrow> bool \<Rightarrow> admission \<Rightarrow> ('p, prepared) host_op" where
  "prepare_admission K C guarded ad =
     (if guarded \<and> \<not> hp_supports_guarded (hb_port C) then op_fail (WriteRefused ''guarded host admission unsupported'')
      else
        op_bind (op_res (write_capable C)) (\<lambda>_.
        op_bind (ensure_layout C) (\<lambda>_.
        op_bind (op_read (\<lambda>s. state_bytes C (hs_port s))) (\<lambda>observed.
        op_bind (op_res (ok_or observed (WriteRefused ''acquire a v2 lease before append''))) (\<lambda>observed.
        if is_v1 observed then op_fail (WriteRefused ''acquire a v2 lease before append'')
        else
          op_bind (op_res (decode_envelope K observed)) (\<lambda>envelope.
          if ev_fence envelope \<noteq> ad_fence ad then op_fail StaleLease
          else if ev_head envelope \<noteq> ad_expected ad then confirm_redelivery K C ad observed envelope
          else
            op_bind (op_res (trip_admission C BeforeObjectPublish ad)) (\<lambda>_.
            op_bind (publish_objects K C (ad_objects ad) []) (\<lambda>references.
            op_bind (op_res (trip_admission C AfterObjectPublish ad)) (\<lambda>_.
            op_bind (publish_entries K C (ev_namespace envelope) references (ad_entries ad) (ev_head_location envelope) None) (\<lambda>last_location.
            op_bind (op_res (trip_admission C AfterDurabilityReceipt ad)) (\<lambda>_.
            if ad_entries ad = [] then op_fail EmptyBatch
            else
              let new_head = head_of (last (ad_entries ad)) in
              op_bind (op_res (trip_admission C BeforeCas ad)) (\<lambda>_.
              op_return (Prepared observed
                (encode_envelope K (envelope\<lparr>ev_head := Some new_head, ev_head_location := last_location\<rparr>)) new_head)))))))))))))"

text \<open>The continuation handed to the port: the caller's action behind the \<open>AfterCas\<close> hook, at most once.\<close>

definition continuation ::
    "('p, 'w \<times> bool \<times> journal_error option) host_backend \<Rightarrow> admission \<Rightarrow> ('w \<Rightarrow> 'w) \<Rightarrow>
     'w \<times> bool \<times> journal_error option \<Rightarrow> 'w \<times> bool \<times> journal_error option" where
  "continuation C ad act x =
     (case x of (w, called, post_commit_error) \<Rightarrow>
        if called then (w, called, post_commit_error)
        else
          (case trip_admission C AfterCas ad of
             Err e \<Rightarrow> (w, True, Some e)
           | _ \<Rightarrow> (act w, True, None)))"

text \<open>The exchange that moves the head, with the action of a guarded admission.\<close>

definition commit_prepared ::
    "('p, 'w \<times> bool \<times> journal_error option) host_backend \<Rightarrow> admission \<Rightarrow> ('w \<Rightarrow> 'w) option \<Rightarrow> u8 list \<Rightarrow> u8 list \<Rightarrow>
     ('p host_state \<times> 'w, journal_error, bool \<times> journal_error option) op" where
  "commit_prepared C ad act observed replacement sw =
     (case sw of (s, w) \<Rightarrow>
        (case act of
           Some act \<Rightarrow>
             (case hp_compare_exchange_then (hb_port C) state_path (Some observed) (Some replacement) never_cancel
                     (continuation C ad act) (hs_port s, (w, False, None)) of
                ((p, (w, called, post_commit_error)), r) \<Rightarrow>
                  ((s\<lparr>hs_port := p\<rparr>, w),
                   res_bind (map_err port_error r) (\<lambda>result.
                   if hx_exchanged result \<and> \<not> called
                   then Err (WriteRefused ''guarded commit acknowledgement is incomplete'')
                   else Ok (hx_exchanged result, post_commit_error))))
         | None \<Rightarrow>
             (case host_cas C state_path (Some observed) (Some replacement) s of
                (s, r) \<Rightarrow>
                  ((s, w),
                   res_bind r (\<lambda>result.
                   res_bind (if hx_exchanged result then trip_admission C AfterCas ad else Ok ()) (\<lambda>_.
                   Ok (hx_exchanged result, None)))))))"

definition admit_with_action ::
    "kernel \<Rightarrow> ('p, 'w \<times> bool \<times> journal_error option) host_backend \<Rightarrow> admission \<Rightarrow> ('w \<Rightarrow> 'w) option \<Rightarrow>
     ('p host_state \<times> 'w, journal_error, guarded_admission) op" where
  "admit_with_action K C ad act sw =
     (case sw of (s, w) \<Rightarrow>
        (case prepare_admission K C (act \<noteq> None) ad s of
           (s, Err e) \<Rightarrow> ((s, w), Err e)
         | (s, Panic m) \<Rightarrow> ((s, w), Panic m)
         | (s, Ok (Redelivered g)) \<Rightarrow> ((s, w), Ok g)
         | (s, Ok (Prepared observed replacement new_head)) \<Rightarrow>
             op_bind (commit_prepared C ad act observed replacement) (\<lambda>(exchanged, post_commit_error).
             if \<not> exchanged then op_fail WrongHead
             else
               (case post_commit_error of
                  Some e \<Rightarrow> op_fail e
                | None \<Rightarrow>
                    op_bind (op_res (trip_admission C BeforeAcknowledgement ad)) (\<lambda>_.
                    op_return \<lparr>ga_head = new_head, ga_disposition = CommittedActionInvoked\<rparr>))) (s, w)))"

definition host_admit_then ::
    "kernel \<Rightarrow> ('p, 'w \<times> bool \<times> journal_error option) host_backend \<Rightarrow> admission \<Rightarrow> ('w \<Rightarrow> 'w) \<Rightarrow>
     ('p host_state \<times> 'w, journal_error, guarded_admission) op" where
  "host_admit_then K C ad act = admit_with_action K C ad (Some act)"

definition host_admit ::
    "kernel \<Rightarrow> ('p, 'w \<times> bool \<times> journal_error option) host_backend \<Rightarrow> 'w \<Rightarrow> admission \<Rightarrow> ('p, journal_head) host_op" where
  "host_admit K C w ad s =
     (case admit_with_action K C ad None (s, w) of
        ((s', _), r) \<Rightarrow> (s', res_bind r (\<lambda>g. Ok (ga_head g))))"

section \<open>The semantic store\<close>

definition host_put_datum :: "kernel \<Rightarrow> ('p, 'w) host_backend \<Rightarrow> journal_object \<Rightarrow> ('p, stored_datum_ref) host_op" where
  "host_put_datum K C ob =
     op_bind (op_res (write_capable C)) (\<lambda>_. op_bind (ensure_layout C) (\<lambda>_. put_object K C ob))"

definition host_get_datum :: "kernel \<Rightarrow> ('p, 'w) host_backend \<Rightarrow> cid \<Rightarrow> 'p \<Rightarrow> (journal_error, datum) res" where
  "host_get_datum K C meaning p = res_bind (find_object K C meaning p) (\<lambda>(_, ob). Ok (jo_datum ob))"

definition index_entry ::
    "kernel \<Rightarrow> ('p, 'w) host_backend \<Rightarrow> 'p \<Rightarrow> host_entry \<Rightarrow> stored_datum_ref list \<Rightarrow> (journal_error, stored_datum_ref list) res" where
  "index_entry K C p entry rebuilt =
     (if hn_kind entry \<noteq> HostDirectory then Err (CorruptState ''object index entry'')
      else if length rebuilt \<ge> hb_work_bound C then Err WorkBoundExceeded
      else
        res_bind (parse_id_key K (hn_name entry)) (\<lambda>meaning.
        res_bind (find_object K C meaning p) (\<lambda>(r, _). Ok (rebuilt @ [r]))))"

definition host_rebuild_datum_index ::
    "kernel \<Rightarrow> ('p, 'w) host_backend \<Rightarrow> 'p \<Rightarrow> (journal_error, stored_datum_ref list) res" where
  "host_rebuild_datum_index K C p =
     (case hp_list (hb_port C) [''objects-v2''] p of
        Err e \<Rightarrow> if he_kind e = NotFound then Ok [] else Err (port_error e)
      | Panic m \<Rightarrow> Panic m
      | Ok entries \<Rightarrow>
          res_bind (res_fold (index_entry K C p) entries []) (\<lambda>rebuilt. Ok (sort_key sr_meaning rebuilt)))"

text \<open>The trait implementation. \<open>admit\<close> has no action, so it may run in any world.\<close>

definition host_journal ::
    "kernel \<Rightarrow> ('p, 'w \<times> bool \<times> journal_error option) host_backend \<Rightarrow> nat \<Rightarrow> 'w \<Rightarrow> ('p host_state, 'w) backend" where
  "host_journal K C fuel w =
     \<lparr>be_acquire_lease = host_acquire_lease K C fuel, be_read_state = (\<lambda>s. host_read_state K C (hs_port s)),
      be_admit = host_admit K C w, be_admit_then = host_admit_then K C,
      be_put_datum = host_put_datum K C, be_get_datum = (\<lambda>i s. host_get_datum K C i (hs_port s)),
      be_rebuild_datum_index = (\<lambda>s. host_rebuild_datum_index K C (hs_port s))\<rparr>"

end
