(* ===== verification/Journal_Host_Read.thy ===== *)
theory Journal_Host_Read
  imports Journal_Host
begin

text \<open>
  What the readers of the durable backend guarantee: whatever bytes a port returns, a state that is
  accepted satisfies the invariant of a journal (no contract of the port is needed for that), and
  accepted leaves stay accepted when files are only added.
\<close>

section \<open>Loops\<close>

lemma res_fold_upt_invariant:
  assumes "res_fold f [a ..< b] s = Ok t" and "I a s" and "a \<le> b"
    and "\<And>n s t. a \<le> n \<Longrightarrow> n < b \<Longrightarrow> f n s = Ok t \<Longrightarrow> I n s \<Longrightarrow> I (Suc n) t"
  shows "I b t"
  using assms
proof (induction "b - a" arbitrary: a s)
  case 0
  then show ?case by simp
next
  case (Suc d)
  then have "[a ..< b] = a # [Suc a ..< b]" by (simp add: upt_conv_Cons)
  with Suc.prems(1) obtain u where u: "f a s = Ok u" "res_fold f [Suc a ..< b] u = Ok t"
    by (auto simp: res_simps)
  show ?case
  proof (rule Suc.hyps(1) [OF _ u(2)])
    show "I (Suc a) u" using Suc.prems(4) [OF _ _ u(1) Suc.prems(2)] Suc.hyps(2) by simp
  qed (use Suc in auto)
qed

section \<open>The shape of a state under construction\<close>

text \<open>Objects and values are inserted together, entries under their own sequence, and every object is a
  payload of an entry or of one still to be inserted.\<close>

definition read_shape :: "cid set \<Rightarrow> stored_state \<Rightarrow> bool" where
  "read_shape X st \<longleftrightarrow>
     bsorted (st_objects st) \<and> bsorted (st_datums st) \<and> bsorted (st_entries st) \<and>
     (\<forall>p. bcontains (st_objects st) p \<longleftrightarrow> bcontains (st_datums st) p) \<and>
     st_entries st = map (\<lambda>e. (en_sequence e, e)) (bvalues (st_entries st)) \<and>
     (\<forall>p. bcontains (st_objects st) p \<longrightarrow> p \<in> X \<or> (\<exists>e\<in>set (bvalues (st_entries st)). p \<in> set (en_payloads e)))"

lemma read_shape_empty: "read_shape {} empty_state"
  by (simp add: read_shape_def empty_state_def bvalues_def)

lemma read_shape_insert_object: "read_shape X st \<Longrightarrow> read_shape (insert (jo_id ob) X) (insert_object ob st)"
  by (auto simp: read_shape_def insert_object_def)

lemma read_shape_mono: "read_shape X st \<Longrightarrow> X \<subseteq> Y \<Longrightarrow> read_shape Y st"
  by (auto simp: read_shape_def)

lemma read_shape_head [simp]: "read_shape X (st\<lparr>st_head := h\<rparr>) = read_shape X st"
  by (simp add: read_shape_def)

lemma binsert_keyed:
  "m = map (\<lambda>e. (k e, e)) (bvalues m) \<Longrightarrow> bget m (k e) = None \<Longrightarrow>
     binsert (k e) e m = map (\<lambda>e. (k e, e)) (bvalues (binsert (k e) e m)) \<and>
     set (bvalues (binsert (k e) e m)) = insert e (set (bvalues m))"
proof (induction m)
  case (Cons x m)
  then show ?case by (cases x) (auto simp: bvalues_def bget_def split: if_splits)
qed (simp add: bvalues_def)

lemma read_shape_insert_entry:
  assumes "read_shape X st" and "bget (st_entries st) (en_sequence e) = None" and "X \<subseteq> set (en_payloads e) \<union> Y"
  shows "read_shape Y (st\<lparr>st_entries := binsert (en_sequence e) e (st_entries st)\<rparr>)"
  using assms binsert_keyed [of "st_entries st" en_sequence e] unfolding read_shape_def by auto

lemma state_inv_of_shape:
  assumes shape: "read_shape {} st" and verified: "verify_state K st = Ok v"
  shows "state_inv K st"
proof -
  have chain: "entry_chain K (payload_ok K st) 0 None (bvalues (st_entries st))" and head: "computed_head st = st_head st"
    using verified by (simp_all add: verify_state_Ok)
  have ok: "payload_ok K st p" if "bcontains (st_objects st) p" for p
    using shape that entry_chain_payloads [OF chain] unfolding read_shape_def by blast
  have "length (st_entries st) \<le> 2 ^ 64"
  proof -
    have "length (st_entries st) = card (set (bkeys (st_entries st)))"
      using shape bsorted_distinct [of "st_entries st"] distinct_card [of "map fst (st_entries st)"]
      by (simp add: read_shape_def bkeys_def)
    also have "\<dots> \<le> card (UNIV :: u64 set)" by (rule card_mono) simp_all
    finally show ?thesis by (simp add: card_word)
  qed
  moreover have "entry_chain K (bcontains (st_objects st)) 0 None (bvalues (st_entries st))"
    using chain by (rule entry_chain_mono) (auto simp: payload_ok_def bcontains_def)
  ultimately show ?thesis
    using shape ok head unfolding state_inv_def objects_inv_def read_shape_def by simp
qed

section \<open>Version 1\<close>

lemma v1_payloads_shape:
  assumes "res_fold (v1_payload K C p) ids acc = Ok acc'" and "read_shape (set (fst acc)) (snd acc)"
  shows "read_shape (set (fst acc')) (snd acc') \<and> st_entries (snd acc') = st_entries (snd acc)"
proof (rule res_fold_invariant [OF assms(1), where I = "\<lambda>a. read_shape (set (fst a)) (snd a) \<and> st_entries (snd a) = st_entries (snd acc)"])
  show "read_shape (set (fst acc)) (snd acc) \<and> st_entries (snd acc) = st_entries (snd acc)" using assms(2) by simp
next
  fix i s t
  assume "v1_payload K C p i s = Ok t" "read_shape (set (fst s)) (snd s) \<and> st_entries (snd s) = st_entries (snd acc)"
  then show "read_shape (set (fst t)) (snd t) \<and> st_entries (snd t) = st_entries (snd acc)"
    using read_shape_insert_object [of "set (fst s)" "snd s"]
    by (auto simp: v1_payload_def res_simps insert_object_def split: if_splits)
qed

lemma journal_entry_new_Ok:
  "journal_entry_new K sequence previous kind payloads = Ok e \<Longrightarrow>
     en_sequence e = sequence \<and> en_payloads e = payloads \<and> en_previous e = previous \<and> en_kind e = kind"
  by (auto simp: journal_entry_new_def Let_def res_simps)

lemma v1_step_shape:
  assumes "v1_step K C p n w = Ok w'" and "n < 2 ^ 64"
    and "read_shape {} (vw_state w) \<and> bkeys (st_entries (vw_state w)) = map word_of_nat [0 ..< n]"
  shows "read_shape {} (vw_state w') \<and> bkeys (st_entries (vw_state w')) = map word_of_nat [0 ..< Suc n]"
proof -
  obtain old :: v1_entry and payloads st and entry :: journal_entry where fold: "res_fold (v1_payload K C p) (v1_payloads old) ([], vw_state w) = Ok (payloads, st)"
    and entry: "journal_entry_new K (word_of_nat n) (vw_canonical w) (v1_kind old) payloads = Ok entry"
    and w': "vw_state w' = st\<lparr>st_entries := binsert (word_of_nat n) entry (st_entries st)\<rparr>"
    using assms(1) by (auto simp: v1_step_def Let_def res_simps split: if_splits)
  have st: "read_shape (set payloads) st" "st_entries st = st_entries (vw_state w)"
    using v1_payloads_shape [OF fold] assms(3) by simp_all
  note e = journal_entry_new_Ok [OF entry]
  have keys: "bkeys (st_entries st) = map word_of_nat [0 ..< n]" using assms(3) st(2) by simp
  have above: "\<forall>k\<in>set (bkeys (st_entries st)). k < word_of_nat n"
    using assms(2) word_of_nat_less by (auto simp: keys)
  then have "bget (st_entries st) (en_sequence entry) = None"
    using e by (auto simp: bget_None_iff)
  then have "read_shape {} (vw_state w')"
    using read_shape_insert_entry [OF st(1), of entry "{}"] e by (simp add: w')
  moreover have "bkeys (st_entries (vw_state w')) = map word_of_nat [0 ..< Suc n]"
    using binsert_above [OF above] keys by (simp add: w' bkeys_def)
  ultimately show ?thesis by simp
qed

lemma read_v1_inv:
  assumes "read_v1 K C bytes p = Ok (st, h)"
  shows "state_inv K st" "st_head st = Some h" "read_shape {} st" "st_entries st \<noteq> []" "length (st_entries st) \<le> hb_work_bound C"
    "length (st_entries st) < 2 ^ 64"
proof -
  obtain ph :: journal_head and needed w where ph: "checked_add_usize (unat (head_sequence ph)) 1 = Some needed" "needed \<le> hb_work_bound C"
    and fold: "res_fold (v1_step K C p) [0 ..< Suc (unat (head_sequence ph))]
         \<lparr>vw_state = empty_state, vw_physical = None, vw_canonical = None\<rparr> = Ok w"
    and h: "map_option (\<lambda>(_, e). head_of e) (blast (st_entries (vw_state w))) = Some h"
    and st: "st = (vw_state w)\<lparr>st_head := Some h\<rparr>" and v: "is_ok (verify_state K st)"
    using assms by (auto simp: read_v1_def Let_def res_simps is_ok_iff not_less simp del: upt_Suc split: if_splits)
  have bound: "Suc (unat (head_sequence ph)) \<le> 2 ^ 64"
    using unat_u64_bound [of "head_sequence ph"] by simp
  let ?I = "\<lambda>n w. read_shape {} (vw_state w) \<and> bkeys (st_entries (vw_state w)) = map word_of_nat [0 ..< n]"
  have inv: "?I (Suc (unat (head_sequence ph))) w"
  proof (rule res_fold_upt_invariant [OF fold, where I = ?I])
    show "?I 0 \<lparr>vw_state = empty_state, vw_physical = None, vw_canonical = None\<rparr>"
      using read_shape_empty by (simp add: empty_state_def)
  next
    fix n u t
    assume n: "n < Suc (unat (head_sequence ph))" and step: "v1_step K C p n u = Ok t" and I: "?I n u"
    from n bound have "n < 2 ^ 64" by linarith
    from v1_step_shape [OF step this I] show "?I (Suc n) t" .
  qed simp
  then show "read_shape {} st" by (simp add: st)
  with v show "state_inv K st" by (auto simp: is_ok_iff intro: state_inv_of_shape)
  show "st_head st = Some h" by (simp add: st)
  have "length (bkeys (st_entries (vw_state w))) = Suc (unat (head_sequence ph))" using inv by simp
  then have len: "length (st_entries st) = Suc (unat (head_sequence ph))" by (simp add: st bkeys_def)
  then show "st_entries st \<noteq> []" by auto
  show "length (st_entries st) \<le> hb_work_bound C" "length (st_entries st) < 2 ^ 64"
    using ph len by (auto simp: checked_add_usize_def usize_bound_def split: if_splits)
qed

section \<open>Chains of leaves\<close>

text \<open>What one accepted leaf is: its bytes, the entry they hold, and the objects its payloads resolve to.\<close>

definition leaf_ok ::
    "kernel \<Rightarrow> ('p, 'w) host_backend \<Rightarrow> 'p \<Rightarrow> entry_location \<Rightarrow> physical_entry \<Rightarrow> journal_object list \<Rightarrow> bool" where
  "leaf_ok K C p l ph obs \<longleftrightarrow>
     (\<exists>bytes. host_load C (entry_path K l) p = Ok bytes \<and> storage_id K bytes = el_storage l \<and>
        decode_v2_entry K bytes = Ok ph) \<and>
     en_id (pe_entry ph) = el_entry l \<and> en_sequence (pe_entry ph) = el_sequence l \<and>
     canonical_id K (pe_entry ph) = Ok (en_id (pe_entry ph)) \<and>
     en_payloads (pe_entry ph) = map sr_meaning (pe_payloads ph) \<and>
     list_all2 (\<lambda>r ob. load_object_ref K C r p = Ok ob) (pe_payloads ph) obs"

definition insert_objects :: "journal_object list \<Rightarrow> stored_state \<Rightarrow> stored_state" where
  "insert_objects obs st = foldl (\<lambda>st ob. insert_object ob st) st obs"

type_synonym leaf = "entry_location \<times> physical_entry \<times> journal_object list"

abbreviation leaf_entry :: "leaf \<Rightarrow> journal_entry" where
  "leaf_entry x \<equiv> pe_entry (fst (snd x))"

fun leaf_chain ::
    "kernel \<Rightarrow> ('p, 'w) host_backend \<Rightarrow> 'p \<Rightarrow> entry_namespace \<Rightarrow> entry_location option \<Rightarrow> leaf list \<Rightarrow> bool" where
  "leaf_chain K C p ns loc [] \<longleftrightarrow> loc = None"
| "leaf_chain K C p ns loc ((l, ph, obs) # xs) \<longleftrightarrow>
     loc = Some l \<and> el_namespace l = ns \<and> leaf_ok K C p l ph obs \<and> leaf_chain K C p ns (pe_previous_location ph) xs"

lemma insert_objects_simps [simp]:
  "insert_objects [] st = st" "insert_objects (ob # obs) st = insert_objects obs (insert_object ob st)"
  "insert_objects (xs @ ys) st = insert_objects ys (insert_objects xs st)"
  by (simp_all add: insert_objects_def)

lemma v2_payload_Ok:
  "v2_payload K C p (m, r) st = Ok st' \<longleftrightarrow>
     m = sr_meaning r \<and> (\<exists>ob. load_object_ref K C r p = Ok ob \<and> st' = insert_object ob st)"
  by (auto simp: v2_payload_def res_simps)

lemma v2_payloads_Ok:
  assumes "length ms = length rs"
  shows "res_fold (v2_payload K C p) (zip ms rs) st = Ok st' \<longleftrightarrow>
     ms = map sr_meaning rs \<and>
     (\<exists>obs. list_all2 (\<lambda>r ob. load_object_ref K C r p = Ok ob) rs obs \<and> st' = insert_objects obs st)"
  using assms
proof (induction ms rs arbitrary: st rule: list_induct2)
  case Nil
  then show ?case by auto
next
  case (Cons m ms r rs)
  have "(\<exists>obs. list_all2 (\<lambda>r ob. load_object_ref K C r p = Ok ob) (r # rs) obs \<and> st' = insert_objects obs st) \<longleftrightarrow>
      (\<exists>ob. load_object_ref K C r p = Ok ob \<and>
        (\<exists>obs. list_all2 (\<lambda>r ob. load_object_ref K C r p = Ok ob) rs obs \<and> st' = insert_objects obs (insert_object ob st)))"
    by (simp only: list_all2_Cons1) (metis insert_objects_simps(2))
  with Cons show ?case by (auto simp: v2_payload_Ok res_simps)
qed

lemma v2_leaf_Ok:
  "v2_leaf K C p l st = Ok (ph, st') \<longleftrightarrow> (\<exists>obs. leaf_ok K C p l ph obs \<and> st' = insert_objects obs st)"
proof
  assume "v2_leaf K C p l st = Ok (ph, st')"
  then have l: "\<exists>bytes. host_load C (entry_path K l) p = Ok bytes \<and> storage_id K bytes = el_storage l \<and> decode_v2_entry K bytes = Ok ph"
      "en_id (pe_entry ph) = el_entry l" "en_sequence (pe_entry ph) = el_sequence l"
      "canonical_id K (pe_entry ph) = Ok (en_id (pe_entry ph))"
    and f: "res_fold (v2_payload K C p) (zip (en_payloads (pe_entry ph)) (pe_payloads ph)) st = Ok st'"
      "length (en_payloads (pe_entry ph)) = length (pe_payloads ph)"
    by (auto simp: v2_leaf_def res_simps split: if_splits)
  then show "\<exists>obs. leaf_ok K C p l ph obs \<and> st' = insert_objects obs st"
    using iffD1 [OF v2_payloads_Ok [OF f(2)] f(1)] by (simp add: leaf_ok_def)
next
  assume "\<exists>obs. leaf_ok K C p l ph obs \<and> st' = insert_objects obs st"
  then obtain obs where obs: "leaf_ok K C p l ph obs" "st' = insert_objects obs st" by blast
  then have "length (en_payloads (pe_entry ph)) = length (pe_payloads ph)" by (simp add: leaf_ok_def)
  with obs v2_payloads_Ok [OF this, of K C p st st'] show "v2_leaf K C p l st = Ok (ph, st')"
    by (auto simp: v2_leaf_def leaf_ok_def)
qed

lemma v2_walk_Ok:
  "v2_walk K C p ns n loc seen suffix st = Ok (suffix', st') \<longleftrightarrow>
     (\<exists>xs. leaf_chain K C p ns loc xs \<and> distinct (map fst xs) \<and> set (map fst xs) \<inter> set seen = {} \<and>
        (xs = [] \<or> n + length suffix + length xs \<le> hb_work_bound C) \<and>
        suffix' = suffix @ map (fst \<circ> snd) xs \<and> st' = insert_objects (concat (map (snd \<circ> snd) xs)) st)"
  (is "?walk loc seen suffix st \<longleftrightarrow> (\<exists>xs. ?chain loc seen suffix st xs)")
proof (induction K C p ns n loc seen suffix st arbitrary: rule: v2_walk.induct)
  case (1 K C p ns n seen suffix st)
  have "leaf_chain K C p ns None xs \<longleftrightarrow> xs = []" for xs
    by (cases xs) auto
  then show ?case by auto
next
  case (2 K C p ns n l seen suffix st)
  show ?case (is "?lhs \<longleftrightarrow> (\<exists>xs. ?rhs xs)")
  proof
    assume ?lhs
    then have ok: "el_namespace l = ns" "l \<notin> set seen" "\<not> n + length suffix \<ge> hb_work_bound C"
      by (auto split: if_splits)
    with \<open>?lhs\<close> obtain ph st1 where leaf: "v2_leaf K C p l st = Ok (ph, st1)"
      and rest: "v2_walk K C p ns n (pe_previous_location ph) (l # seen) (suffix @ [ph]) st1 = Ok (suffix', st')"
      by (auto simp: res_simps)
    from leaf obtain obs where obs: "leaf_ok K C p l ph obs" "st1 = insert_objects obs st"
      by (auto simp: v2_leaf_Ok)
    have g: "\<not> (el_namespace l \<noteq> ns \<or> l \<in> set seen)" using ok by simp
    from "2.IH" [OF g ok(3) leaf refl] rest obtain xs where
      "leaf_chain K C p ns (pe_previous_location ph) xs" "distinct (map fst xs)" "set (map fst xs) \<inter> set (l # seen) = {}"
      "xs = [] \<or> n + length (suffix @ [ph]) + length xs \<le> hb_work_bound C"
      "suffix' = (suffix @ [ph]) @ map (fst \<circ> snd) xs" "st' = insert_objects (concat (map (snd \<circ> snd) xs)) st1"
      by blast
    then have "?rhs ((l, ph, obs) # xs)" using ok obs by (auto simp: comp_def)
    then show "\<exists>xs. ?rhs xs" by blast
  next
    assume "\<exists>xs. ?rhs xs"
    then obtain xs where xs: "?rhs xs" by blast
    then obtain ph obs ys where ys: "xs = (l, ph, obs) # ys" by (cases xs) auto
    have ok: "el_namespace l = ns" "l \<notin> set seen" "\<not> n + length suffix \<ge> hb_work_bound C"
      using xs ys by auto
    have leaf: "v2_leaf K C p l st = Ok (ph, insert_objects obs st)"
      using xs ys by (auto simp: v2_leaf_Ok)
    have g: "\<not> (el_namespace l \<noteq> ns \<or> l \<in> set seen)" using ok by simp
    have "v2_walk K C p ns n (pe_previous_location ph) (l # seen) (suffix @ [ph]) (insert_objects obs st) = Ok (suffix', st')"
      unfolding "2.IH" [OF g ok(3) leaf refl] by (rule exI [of _ ys]) (use xs ys in \<open>auto simp: comp_def\<close>)
    then show ?lhs using ok leaf by simp
  qed
qed

section \<open>The whole read\<close>

lemma check_Ok: "(if b then Err e else m) = Ok x \<longleftrightarrow> \<not> b \<and> m = Ok x"
  by simp

lemma insert_objects_log [simp]:
  "st_entries (insert_objects obs st) = st_entries st" "st_head (insert_objects obs st) = st_head st"
  by (induction obs arbitrary: st) (simp_all add: insert_object_def)

lemma read_shape_insert_objects:
  "read_shape X st \<Longrightarrow> read_shape (jo_id ` set obs \<union> X) (insert_objects obs st)"
proof (induction obs arbitrary: X st)
  case (Cons ob obs)
  from Cons.IH [OF read_shape_insert_object [OF Cons.prems, of ob]] show ?case by simp
qed simp

fun entry_map :: "physical_entry list \<Rightarrow> (u64, journal_entry) btree_map \<Rightarrow> (u64, journal_entry) btree_map option" where
  "entry_map [] m = Some m"
| "entry_map (ph # phs) m =
     (if bcontains m (en_sequence (pe_entry ph)) then None
      else entry_map phs (binsert (en_sequence (pe_entry ph)) (pe_entry ph) m))"

lemma v2_entries_Ok:
  "res_fold v2_entry_insert phs st = Ok st' \<longleftrightarrow>
     (\<exists>m. entry_map phs (st_entries st) = Some m \<and> st' = st\<lparr>st_entries := m\<rparr>)"
proof (induction phs arbitrary: st)
  case (Cons ph phs)
  then show ?case by (simp add: v2_entry_insert_def Let_def)
qed auto

lemma entry_map_append: "entry_map (xs @ ys) m = Option.bind (entry_map xs m) (entry_map ys)"
  by (induction xs arbitrary: m) auto

lemma entry_map_shape:
  "entry_map phs (st_entries st) = Some m \<Longrightarrow> read_shape X st \<Longrightarrow>
     X \<subseteq> (\<Union>ph\<in>set phs. set (en_payloads (pe_entry ph))) \<union> Y \<Longrightarrow>
     read_shape Y (st\<lparr>st_entries := m\<rparr>) \<and> set (bvalues m) = set (bvalues (st_entries st)) \<union> pe_entry ` set phs"
proof (induction phs arbitrary: st X)
  case Nil
  then show ?case by (auto intro: read_shape_mono)
next
  case (Cons ph phs)
  let ?e = "pe_entry ph"
  let ?m = "binsert (en_sequence ?e) ?e (st_entries st)"
  have fresh: "bget (st_entries st) (en_sequence ?e) = None" and rest: "entry_map phs ?m = Some m"
    using Cons.prems(1) by (auto simp: bcontains_def split: if_splits)
  let ?Z = "(\<Union>ph\<in>set phs. set (en_payloads (pe_entry ph))) \<union> Y"
  have "read_shape ?Z (st\<lparr>st_entries := ?m\<rparr>)"
    by (rule read_shape_insert_entry [OF Cons.prems(2) fresh]) (use Cons.prems(3) in auto)
  moreover have "set (bvalues ?m) = insert ?e (set (bvalues (st_entries st)))"
    using binsert_keyed [of "st_entries st" en_sequence ?e] Cons.prems(2) fresh by (simp add: read_shape_def)
  ultimately show ?case
    using Cons.IH [of "st\<lparr>st_entries := ?m\<rparr>" ?Z] rest by auto
qed

definition v2_base :: "kernel \<Rightarrow> ('p, 'w) host_backend \<Rightarrow> native_envelope \<Rightarrow> 'p \<Rightarrow> (journal_error, stored_state) res" where
  "v2_base K C v p = (case ev_prefix v of Some pr \<Rightarrow> read_prefix K C pr p | None \<Rightarrow> Ok empty_state)"

definition chain_objects :: "leaf list \<Rightarrow> journal_object list" where
  "chain_objects xs = concat (map (snd \<circ> snd) xs)"

definition chain_entries :: "leaf list \<Rightarrow> physical_entry list" where
  "chain_entries xs = rev (map (fst \<circ> snd) xs)"

lemma chain_simps [simp]:
  "chain_objects [] = []" "chain_entries [] = []"
  "chain_objects ((l, ph, obs) # xs) = obs @ chain_objects xs" "chain_entries ((l, ph, obs) # xs) = chain_entries xs @ [ph]"
  "chain_objects (xs @ ys) = chain_objects xs @ chain_objects ys" "chain_entries (xs @ ys) = chain_entries ys @ chain_entries xs"
  by (simp_all add: chain_objects_def chain_entries_def)

definition chain_state :: "leaf list \<Rightarrow> (u64, journal_entry) btree_map \<Rightarrow> journal_head option \<Rightarrow> stored_state \<Rightarrow> stored_state" where
  "chain_state xs m h st0 = (insert_objects (chain_objects xs) st0)\<lparr>st_entries := m, st_head := h\<rparr>"

text \<open>What a read of version 2 accepts, and what it returns.\<close>

definition v2_accepts ::
    "kernel \<Rightarrow> ('p, 'w) host_backend \<Rightarrow> native_envelope \<Rightarrow> 'p \<Rightarrow> stored_state \<Rightarrow> leaf list \<Rightarrow>
     (u64, journal_entry) btree_map \<Rightarrow> bool" where
  "v2_accepts K C v p st0 xs m \<longleftrightarrow>
     ev_format v = V2 \<and> host_load C (namespace_root (ev_namespace v) @ [''format'']) p = Ok (as_bytes ''SIMJNAMESPACE2'') \<and>
     v2_base K C v p = Ok st0 \<and> leaf_chain K C p (ev_namespace v) (ev_head_location v) xs \<and> distinct (map fst xs) \<and>
     (xs = [] \<or> length (st_entries st0) + length xs \<le> hb_work_bound C) \<and>
     entry_map (chain_entries xs) (st_entries st0) = Some m \<and>
     is_ok (verify_state K (chain_state xs m (ev_head v) st0)) \<and>
     (length m > length (st_entries st0)) = (ev_head_location v \<noteq> None)"

lemma read_v2_Ok:
  "read_v2 K C v p = Ok st \<longleftrightarrow> (\<exists>st0 xs m. v2_accepts K C v p st0 xs m \<and> st = chain_state xs m (ev_head v) st0)"
  (is "?lhs \<longleftrightarrow> ?rhs")
proof
  assume ?lhs
  then obtain st0 suffix st1 st2 where r: "ev_format v = V2"
      "host_load C (namespace_root (ev_namespace v) @ [''format'']) p = Ok (as_bytes ''SIMJNAMESPACE2'')"
      "v2_base K C v p = Ok st0"
      "v2_walk K C p (ev_namespace v) (length (st_entries st0)) (ev_head_location v) [] [] st0 = Ok (suffix, st1)"
      "res_fold v2_entry_insert (rev suffix) st1 = Ok st2"
      "is_ok (verify_state K (st2\<lparr>st_head := ev_head v\<rparr>))" "st = st2\<lparr>st_head := ev_head v\<rparr>"
      "(length (st_entries st2) > length (st_entries st0)) = (ev_head_location v \<noteq> None)"
    by (simp add: read_v2_def v2_base_def [symmetric] Let_def res_bind_Ok check_Ok is_ok_iff) (elim exE conjE; rule that; simp)
  from r(4) obtain xs where xs: "leaf_chain K C p (ev_namespace v) (ev_head_location v) xs" "distinct (map fst xs)"
      "xs = [] \<or> length (st_entries st0) + length xs \<le> hb_work_bound C" "suffix = map (fst \<circ> snd) xs"
      "st1 = insert_objects (concat (map (snd \<circ> snd) xs)) st0"
    by (auto simp: v2_walk_Ok)
  from r(5) obtain m where m: "entry_map (rev suffix) (st_entries st1) = Some m" "st2 = st1\<lparr>st_entries := m\<rparr>"
    by (auto simp: v2_entries_Ok)
  have st: "st = chain_state xs m (ev_head v) st0"
    using r(7) m(2) xs(5) by (simp add: chain_state_def chain_objects_def)
  moreover have "v2_accepts K C v p st0 xs m"
    using r xs m st unfolding v2_accepts_def chain_entries_def by simp
  ultimately show ?rhs by blast
next
  assume ?rhs
  then obtain st0 xs m where a: "v2_accepts K C v p st0 xs m" and st: "st = chain_state xs m (ev_head v) st0" by blast
  have walk: "v2_walk K C p (ev_namespace v) (length (st_entries st0)) (ev_head_location v) [] [] st0 =
      Ok (map (fst \<circ> snd) xs, insert_objects (chain_objects xs) st0)"
    unfolding v2_walk_Ok by (rule exI [of _ xs]) (use a in \<open>simp add: v2_accepts_def chain_objects_def\<close>)
  have "res_fold v2_entry_insert (rev (map (fst \<circ> snd) xs)) (insert_objects (chain_objects xs) st0) =
      Ok ((insert_objects (chain_objects xs) st0)\<lparr>st_entries := m\<rparr>)"
    unfolding v2_entries_Ok by (rule exI [of _ m]) (use a in \<open>simp add: v2_accepts_def chain_entries_def\<close>)
  with walk a st show ?lhs
    by (auto simp: read_v2_def v2_base_def [symmetric] v2_accepts_def chain_state_def is_ok_iff Let_def)
qed

lemma load_object_ref_Ok:
  "load_object_ref K C r p = Ok ob \<Longrightarrow> jo_id ob = sr_meaning r \<and> object_sound K ob"
  by (auto simp: load_object_ref_def from_storage_bytes_def Let_def res_simps object_sound_def object_from_datum_Ok
      is_ok_iff split: if_splits option.splits)

lemma leaf_ok_objects: "leaf_ok K C p l ph obs \<Longrightarrow> map jo_id obs = en_payloads (pe_entry ph)"
  unfolding leaf_ok_def by (auto simp: list_all2_conv_all_nth load_object_ref_Ok intro!: nth_equalityI)

lemma leaf_chain_objects:
  "leaf_chain K C p ns loc xs \<Longrightarrow>
     jo_id ` set (chain_objects xs) = (\<Union>ph\<in>set (chain_entries xs). set (en_payloads (pe_entry ph)))"
proof (induction xs arbitrary: loc)
  case (Cons x xs)
  obtain l ph obs where x: "x = (l, ph, obs)" by (cases x)
  have "jo_id ` set obs = set (en_payloads (pe_entry ph))"
    using leaf_ok_objects Cons.prems unfolding x by (metis image_set leaf_chain.simps(2))
  moreover have "jo_id ` set (chain_objects xs) = (\<Union>ph\<in>set (chain_entries xs). set (en_payloads (pe_entry ph)))"
    by (rule Cons.IH) (use Cons.prems x in auto)
  ultimately show ?case using x by (simp add: image_Un)
qed simp

lemma read_prefix_inv:
  "read_prefix K C pr p = Ok st \<Longrightarrow> state_inv K st \<and> read_shape {} st \<and> st_head st = Some (pr_canonical_head pr)"
  by (auto simp: read_prefix_def res_simps split: if_splits dest: read_v1_inv)

lemma v2_base_inv: "v2_base K C v p = Ok st0 \<Longrightarrow> state_inv K st0 \<and> read_shape {} st0"
  using read_prefix_inv state_inv_empty read_shape_empty by (fastforce simp: v2_base_def split: option.splits)

lemma v2_accepts_inv:
  assumes "v2_accepts K C v p st0 xs m"
  shows "state_inv K (chain_state xs m (ev_head v) st0)" "read_shape {} (chain_state xs m (ev_head v) st0)"
    "set (bvalues m) = set (bvalues (st_entries st0)) \<union> pe_entry ` set (chain_entries xs)"
proof -
  have base: "read_shape {} st0" using assms v2_base_inv [of K C v p st0] by (simp add: v2_accepts_def)
  have chain: "leaf_chain K C p (ev_namespace v) (ev_head_location v) xs" and m: "entry_map (chain_entries xs) (st_entries st0) = Some m"
    using assms by (simp_all add: v2_accepts_def)
  have "read_shape (jo_id ` set (chain_objects xs)) (insert_objects (chain_objects xs) st0)"
    using read_shape_insert_objects [OF base] by simp
  from entry_map_shape [OF _ this, of "chain_entries xs" m "{}"] m leaf_chain_objects [OF chain]
  have shape: "read_shape {} ((insert_objects (chain_objects xs) st0)\<lparr>st_entries := m\<rparr>)"
    and vals: "set (bvalues m) = set (bvalues (st_entries st0)) \<union> pe_entry ` set (chain_entries xs)" by simp_all
  then show "read_shape {} (chain_state xs m (ev_head v) st0)" by (simp add: chain_state_def)
  then show "state_inv K (chain_state xs m (ev_head v) st0)"
    using assms by (auto simp: v2_accepts_def is_ok_iff intro: state_inv_of_shape)
  show "set (bvalues m) = set (bvalues (st_entries st0)) \<union> pe_entry ` set (chain_entries xs)" by (rule vals)
qed

lemma read_v2_inv: "read_v2 K C v p = Ok st \<Longrightarrow> state_inv K st"
  by (auto simp: read_v2_Ok intro: v2_accepts_inv(1))

lemma host_read_state_inv:
  assumes "host_read_state K C p = Ok st"
  shows "state_inv K st"
  using assms state_inv_empty read_v1_inv(1) read_v2_inv
  by (fastforce simp: host_read_state_def res_simps split: option.splits if_splits)

end
