(* ===== verification/Journal_Host_Log.thy ===== *)
theory Journal_Host_Log
  imports Journal_Host_Read
begin

text \<open>
  The durable backend over a port that keeps its contract: readers are monotone in the set of leaves,
  writers only add leaves, and the exchange of the state file is the only step that changes what a
  read returns. The result is that the backend is a journal log.
\<close>

definition kernel_native_law :: "kernel \<Rightarrow> bool" where
  "kernel_native_law K \<longleftrightarrow> (\<forall>d c. content_id K d = Some c \<longrightarrow> native_cid_ok K c)"

text \<open>\<open>ok_le m m'\<close>: whatever \<open>m\<close> accepts, \<open>m'\<close> accepts with the same value.\<close>

definition ok_le :: "('e, 'a) res \<Rightarrow> ('e, 'a) res \<Rightarrow> bool" where
  "ok_le m m' \<longleftrightarrow> (\<forall>x. m = Ok x \<longrightarrow> m' = Ok x)"

lemma ok_leD: "ok_le m m' \<Longrightarrow> m = Ok x \<Longrightarrow> m' = Ok x"
  by (simp add: ok_le_def)

lemma ok_le_refl: "ok_le m m"
  by (simp add: ok_le_def)

lemma ok_le_bind: "ok_le m m' \<Longrightarrow> (\<And>x. ok_le (f x) (f' x)) \<Longrightarrow> ok_le (res_bind m f) (res_bind m' f')"
  by (cases m) (auto simp: ok_le_def)

lemma ok_le_if: "ok_le m m' \<Longrightarrow> ok_le n n' \<Longrightarrow> ok_le (if b then m else n) (if b then m' else n')"
  by simp

lemma ok_le_prod: "(\<And>a b. ok_le (f a b) (f' a b)) \<Longrightarrow> ok_le (case x of (a, b) \<Rightarrow> f a b) (case x of (a, b) \<Rightarrow> f' a b)"
  by (simp add: case_prod_beta)

lemma ok_le_option:
  "ok_le m m' \<Longrightarrow> (\<And>a. ok_le (f a) (f' a)) \<Longrightarrow>
     ok_le (case x of None \<Rightarrow> m | Some a \<Rightarrow> f a) (case x of None \<Rightarrow> m' | Some a \<Rightarrow> f' a)"
  by (cases x) simp_all

lemma ok_le_fold: "(\<And>x s. ok_le (f x s) (g x s)) \<Longrightarrow> ok_le (res_fold f xs s) (res_fold g xs s)"
  by (induction xs arbitrary: s) (simp_all add: ok_le_refl ok_le_bind)

lemmas ok_le_intros = ok_le_refl ok_le_bind ok_le_if ok_le_prod ok_le_option ok_le_fold

locale journal_on_port = host_port P files
  for P :: "('p, 'w) host_port" and files :: "'p \<Rightarrow> path \<Rightarrow> u8 list option" +
  fixes K :: kernel and C :: "('p, 'w) host_backend"
  assumes port: "hb_port C = P"
    and content_law: "kernel_content_law K"
    and digest_law: "kernel_digest_law K"
    and symbol_law: "kernel_symbol_law K"
    and order_law: "kernel_order_law K"
    and native_law: "kernel_native_law K"
begin

section \<open>Readers see only more\<close>

definition leaves_kept :: "'p \<Rightarrow> 'p \<Rightarrow> bool" where
  "leaves_kept p p' \<longleftrightarrow> (\<forall>path b. path \<noteq> state_path \<longrightarrow> files p path = Some b \<longrightarrow> files p' path = Some b)"

lemma leaves_kept_refl: "leaves_kept p p"
  by (simp add: leaves_kept_def)

lemma leaves_kept_trans: "leaves_kept p q \<Longrightarrow> leaves_kept q r \<Longrightarrow> leaves_kept p r"
  by (simp add: leaves_kept_def)

lemma load_Ok: "host_load C path p = Ok b \<longleftrightarrow> files p path = Some b"
proof (cases "files p path")
  case None
  from read_absent [OF this] obtain e where "hp_read P path p = Err e" by blast
  then show ?thesis by (simp add: host_load_def port None)
next
  case (Some c)
  show ?thesis by (simp add: host_load_def port Some read_file [OF Some])
qed

lemma load_mono: "leaves_kept p p' \<Longrightarrow> path \<noteq> state_path \<Longrightarrow> ok_le (host_load C path p) (host_load C path p')"
  by (simp add: ok_le_def load_Ok leaves_kept_def)

lemma state_bytes_eq: "state_bytes C p = Ok (files p state_path)"
proof (cases "files p state_path")
  case None
  from read_absent [OF this] obtain e where "hp_read P state_path p = Err e" "he_kind e = NotFound" by blast
  then show ?thesis by (simp add: state_bytes_def port None)
next
  case (Some c)
  show ?thesis by (simp add: state_bytes_def port Some read_file [OF Some])
qed

lemma leaf_paths:
  "object_path K r \<noteq> state_path" "entry_path K l \<noteq> state_path" "descriptor_path K i \<noteq> state_path"
  "v1_entry_path n \<noteq> state_path" "v1_object_path i \<noteq> state_path" "namespace_root ns @ [''format''] \<noteq> state_path"
  by (simp_all add: object_path_def entry_path_def descriptor_path_def v1_entry_path_def v1_object_path_def
      namespace_root_def state_path_def)

lemma load_object_ref_mono: "leaves_kept p p' \<Longrightarrow> ok_le (load_object_ref K C r p) (load_object_ref K C r p')"
  unfolding load_object_ref_def by (intro ok_le_intros load_mono leaf_paths)

lemma leaf_ok_mono:
  assumes "leaf_ok K C p l ph obs" and kept: "leaves_kept p p'"
  shows "leaf_ok K C p' l ph obs"
proof -
  obtain bytes where b: "host_load C (entry_path K l) p = Ok bytes" "storage_id K bytes = el_storage l" "decode_v2_entry K bytes = Ok ph"
    using assms(1) by (auto simp: leaf_ok_def)
  have "host_load C (entry_path K l) p' = Ok bytes"
    by (rule ok_leD [OF load_mono [OF kept leaf_paths(2)] b(1)])
  moreover have "list_all2 (\<lambda>r ob. load_object_ref K C r p' = Ok ob) (pe_payloads ph) obs"
    by (rule list_all2_mono [of "\<lambda>r ob. load_object_ref K C r p = Ok ob"])
      (use assms(1) ok_leD [OF load_object_ref_mono [OF kept]] in \<open>simp_all add: leaf_ok_def\<close>)
  ultimately show ?thesis using assms(1) b by (simp add: leaf_ok_def)
qed

lemma leaf_chain_mono: "leaf_chain K C p ns loc xs \<Longrightarrow> leaves_kept p p' \<Longrightarrow> leaf_chain K C p' ns loc xs"
proof (induction xs arbitrary: loc)
  case (Cons x xs)
  then show ?case using leaf_ok_mono by (cases x) auto
qed simp

lemma v1_payload_mono: "leaves_kept p p' \<Longrightarrow> ok_le (v1_payload K C p i a) (v1_payload K C p' i a)"
  unfolding v1_payload_def by (intro ok_le_intros load_mono leaf_paths)

lemma v1_step_mono: "leaves_kept p p' \<Longrightarrow> ok_le (v1_step K C p n w) (v1_step K C p' n w)"
  unfolding v1_step_def Let_def by (intro ok_le_intros load_mono leaf_paths v1_payload_mono)

lemma read_v1_mono: "leaves_kept p p' \<Longrightarrow> ok_le (read_v1 K C bytes p) (read_v1 K C bytes p')"
  unfolding read_v1_def Let_def by (intro ok_le_intros v1_step_mono)

lemma read_prefix_mono: "leaves_kept p p' \<Longrightarrow> ok_le (read_prefix K C pr p) (read_prefix K C pr p')"
  unfolding read_prefix_def by (intro ok_le_intros load_mono leaf_paths read_v1_mono)

lemma v2_base_mono: "leaves_kept p p' \<Longrightarrow> ok_le (v2_base K C v p) (v2_base K C v p')"
  unfolding v2_base_def by (intro ok_le_intros read_prefix_mono)

lemma v2_accepts_mono:
  assumes "v2_accepts K C v p st0 xs m" and "leaves_kept p p'"
  shows "v2_accepts K C v p' st0 xs m"
  using assms ok_leD [OF load_mono [OF assms(2) leaf_paths(6)]] ok_leD [OF v2_base_mono [OF assms(2)]]
    leaf_chain_mono [OF _ assms(2)]
  unfolding v2_accepts_def by blast

lemma read_v2_mono: "leaves_kept p p' \<Longrightarrow> ok_le (read_v2 K C v p) (read_v2 K C v p')"
  using v2_accepts_mono unfolding read_v2_Ok ok_le_def by blast

lemma read_state_eq:
  "host_read_state K C p =
     (case files p state_path of
        None \<Rightarrow> Ok empty_state
      | Some bytes \<Rightarrow>
          if is_v1 bytes then
            res_bind (decode_v1_state K bytes) (\<lambda>(_, head).
            case head of
              Some _ \<Rightarrow> res_bind (read_v1 K C bytes p) (\<lambda>(st, _). Ok st)
            | None \<Rightarrow> Ok empty_state)
          else res_bind (decode_envelope K bytes) (\<lambda>v. read_v2 K C v p))"
  by (simp add: host_read_state_def state_bytes_eq)

lemma read_state_mono:
  assumes "leaves_kept p p'" and "files p' state_path = files p state_path"
  shows "ok_le (host_read_state K C p) (host_read_state K C p')"
  unfolding read_state_eq assms(2) by (intro ok_le_intros read_v1_mono read_v2_mono assms(1))

end

end
