(* ===== verification/Native_Bounds.thy ===== *)
theory Native_Bounds
  imports Native_Codec
begin

text \<open>
  What the readers of the native format promise of an accepted file: every id has the form the writers
  can write again, and the file is not longer than its fields allow. With these bounds an accepted
  envelope, changed the way the backend changes it, is read back.
\<close>

text \<open>\<open>gets p P n\<close>: a value read by \<open>p\<close> satisfies \<open>P\<close> and took at most \<open>n\<close> bytes.\<close>

definition gets :: "(cursor \<Rightarrow> (journal_error, 'a \<times> cursor) res) \<Rightarrow> ('a \<Rightarrow> bool) \<Rightarrow> nat \<Rightarrow> bool" where
  "gets p P n \<longleftrightarrow>
     (\<forall>c v c'. p c = Ok (v, c') \<longrightarrow> P v \<and> cur_bytes c' = cur_bytes c \<and> cur_at c' \<le> cur_at c + n)"

lemma getsD: "gets p P n \<Longrightarrow> p c = Ok (v, c') \<Longrightarrow> P v \<and> cur_bytes c' = cur_bytes c \<and> cur_at c' \<le> cur_at c + n"
  by (simp add: gets_def)

lemma gets_return: "P v \<Longrightarrow> gets (\<lambda>c. Ok (v, c)) P n"
  by (simp add: gets_def)

lemma gets_fail: "gets (\<lambda>c. Err e) P n"
  by (simp add: gets_def)

lemma gets_if: "gets p P n \<Longrightarrow> gets q P n \<Longrightarrow> gets (\<lambda>c. if b then p c else q c) P n"
  by (cases b) simp_all

lemma gets_bind:
  assumes p: "gets p Q n" and q: "\<And>v. Q v \<Longrightarrow> gets (q v) P (k - n)" and k: "n \<le> k"
  shows "gets (\<lambda>c. res_bind (p c) (\<lambda>(v, c). q v c)) P k"
proof -
  have "P w \<and> cur_bytes c'' = cur_bytes c \<and> cur_at c'' \<le> cur_at c + k"
    if r: "res_bind (p c) (\<lambda>(v, c). q v c) = Ok (w, c'')" for c w c''
  proof -
    obtain v c' where pc: "p c = Ok (v, c')" and qc: "q v c' = Ok (w, c'')"
      using r by (auto simp: res_bind_Ok)
    show ?thesis using getsD [OF p pc] getsD [OF q qc] k by auto
  qed
  then show ?thesis by (simp add: gets_def)
qed

lemma gets_mono: "gets p P n \<Longrightarrow> n \<le> k \<Longrightarrow> gets p P k"
  unfolding gets_def using add_left_mono order_trans by meson

lemma gets_check: "(\<And>x. r = Ok x \<Longrightarrow> gets (q x) P n) \<Longrightarrow> gets (\<lambda>c. res_bind r (\<lambda>x. q x c)) P n"
  by (cases r) (simp_all add: gets_def)

lemma gets_take: "gets (nc_take n) (\<lambda>v. length v = n) n"
  using cursor_take_step unfolding gets_def cursor_step_def by fastforce

lemma gets_nc_byte: "gets nc_byte (\<lambda>_. True) 1"
  unfolding nc_byte_def [abs_def] by (rule gets_bind [OF gets_take gets_return]) simp_all

lemma gets_nc_u32: "gets nc_u32 (\<lambda>_. True) 4"
  unfolding nc_u32_def [abs_def] by (rule gets_bind [OF gets_take gets_return]) simp_all

lemma gets_nc_u64: "gets nc_u64 (\<lambda>_. True) 8"
  unfolding nc_u64_def [abs_def] by (rule gets_bind [OF gets_take gets_return]) simp_all

lemma gets_text_of:
  assumes "length bs < 2 ^ 32"
  shows "gets (\<lambda>c. res_bind (ok_or (from_utf8 bs) (CorruptState ''utf8'')) (\<lambda>t. Ok (t, c))) text_fits n"
proof (intro gets_check gets_return)
  fix t
  assume "ok_or (from_utf8 bs) (CorruptState ''utf8'') = Ok t"
  then have "str_ok t \<and> as_bytes t = bs" using from_utf8_str_ok by (simp add: ok_or_Ok)
  then show "text_fits t" using assms length_as_bytes [of t] by (simp add: text_fits_def)
qed

lemma gets_nc_text: "gets nc_text text_fits (2 ^ 32 + 4)"
  unfolding nc_text_def [abs_def]
proof (intro gets_bind [OF gets_nc_u32] gets_bind [OF gets_take] gets_text_of)
  fix len :: u32 and bs :: "u8 list"
  have len: "unat len < 2 ^ 32" using unat_u32_bound [of len] by simp
  then show "unat len \<le> 2 ^ 32 + 4 - 4" by simp
  show "length bs = unat len \<Longrightarrow> length bs < 2 ^ 32" using len by simp
qed simp

lemma parse_symbol_native:
  assumes "kernel_symbol_law K" and "parse_symbol K t = Ok s" and "text_fits t"
  shows "native_symbol_ok K s"
proof -
  have q: "as_qualified_str K s = qualified_str s" using assms(1) by (simp add: kernel_symbol_law_def)
  have "qualified_str s = t"
  proof (cases "split_once (CHR ''/'') t")
    case None
    then have "symbol_checked K t = Some s" using assms(2) by (simp add: parse_symbol_def ok_or_Ok)
    then have "s = sym_new t" using assms(1) unfolding kernel_symbol_law_def by blast
    then show ?thesis by (simp add: qualified_str_def)
  next
    case (Some x)
    then obtain a b where x: "split_once (CHR ''/'') t = Some (a, b)" by (cases x) auto
    then have "s = sym_qualified a b" using assms(2) by (simp add: parse_symbol_def split: if_splits)
    then show ?thesis using split_once_Some [OF x] by (simp add: qualified_str_def)
  qed
  then show ?thesis using q assms(2,3) by (simp add: native_symbol_ok_def)
qed

abbreviation id_room :: nat where
  "id_room \<equiv> 2 ^ 33"

lemma gets_nc_id:
  assumes "kernel_symbol_law K"
  shows "gets (nc_id K) (native_cid_ok K) id_room"
  unfolding nc_id_def [abs_def]
  by (intro gets_bind [OF gets_nc_text] gets_check gets_bind [OF gets_take] gets_return)
    (simp_all add: native_cid_ok_def parse_symbol_native [OF assms])

lemma gets_nc_head:
  assumes "kernel_symbol_law K"
  shows "gets (nc_head K) (native_head_ok K) (id_room + 8)"
  unfolding nc_head_def [abs_def]
  by (intro gets_bind [OF gets_nc_u64] gets_bind [OF gets_nc_id [OF assms]] gets_return)
    (simp_all add: native_head_ok_def)

lemma gets_option:
  assumes p: "\<And>c. p c = res_bind (nc_byte c) (\<lambda>(b, c). if b = 0 then Ok (None, c)
      else if b = 1 then res_bind (q c) (\<lambda>(x, c). Ok (Some x, c)) else Err e)" and q: "gets q Q n"
  shows "gets p (pred_option Q) (n + 1)"
proof -
  have "gets (\<lambda>c. res_bind (nc_byte c) (\<lambda>(b, c). if b = 0 then Ok (None, c)
      else if b = 1 then res_bind (q c) (\<lambda>(x, c). Ok (Some x, c)) else Err e)) (pred_option Q) (n + 1)"
    by (intro gets_bind [OF gets_nc_byte] gets_if gets_fail gets_bind [OF q] gets_return) simp_all
  then show ?thesis using p by (simp add: gets_def)
qed

lemma gets_nc_optional_head:
  "kernel_symbol_law K \<Longrightarrow> gets (nc_optional_head K) (pred_option (native_head_ok K)) (id_room + 9)"
  using gets_option [OF nc_optional_head_def gets_nc_head] by simp

lemma gets_nc_location:
  assumes "kernel_symbol_law K"
  shows "gets (nc_location K) (native_location_ok K) (3 * id_room)"
  unfolding nc_location_def [abs_def]
  by (intro gets_bind [OF gets_nc_text] gets_bind [OF gets_nc_u64] gets_bind [OF gets_nc_id [OF assms]]
      gets_return) (simp_all add: native_location_ok_def)

lemma gets_nc_optional_location:
  "kernel_symbol_law K \<Longrightarrow> gets (nc_optional_location K) (pred_option (native_location_ok K)) (3 * id_room + 1)"
  using gets_option [OF nc_optional_location_def gets_nc_location] by simp

lemma gets_nc_prefix:
  assumes "kernel_symbol_law K"
  shows "gets (nc_prefix K) (pred_option (native_prefix_ok K)) (4 * id_room)"
  unfolding nc_prefix_def [abs_def]
  by (intro gets_bind [OF gets_nc_byte] gets_if gets_fail gets_bind [OF gets_nc_u64]
      gets_bind [OF gets_nc_head [OF assms]] gets_bind [OF gets_nc_id [OF assms]] gets_return)
    (simp_all add: native_prefix_ok_def)

text \<open>A whole file: its parts, and the bound on its length.\<close>

lemma nc_open_at: "nc_open magic m bytes = Ok c \<Longrightarrow> cur_bytes c = bytes \<and> cur_at c = length magic"
  using cursor_take_step unfolding nc_open_def new_cursor_def cursor_step_def
  by (fastforce simp: res_bind_Ok split: if_splits)

lemma file_gets:
  assumes "nc_open magic m bytes = Ok c" and "p c = Ok (v, c')" and "nc_end c' = Ok ()" and "gets p P n"
  shows "P v \<and> length bytes \<le> length magic + n"
  using getsD [OF assms(4,2)] nc_open_at [OF assms(1)] assms(3) by (auto simp: nc_end_def split: if_splits)

definition nc_envelope_ok :: "kernel \<Rightarrow> native_envelope \<Rightarrow> bool" where
  "nc_envelope_ok K v \<longleftrightarrow>
     ev_format v = V2 \<and> text_fits (ns_text (ev_namespace v)) \<and>
     pred_option (native_prefix_ok K) (ev_prefix v) \<and> pred_option (native_head_ok K) (ev_head v) \<and>
     pred_option (native_location_ok K) (ev_head_location v)"

lemma gets_nc_envelope:
  assumes "kernel_symbol_law K"
  shows "gets (nc_envelope K) (nc_envelope_ok K) (12 * id_room)"
  unfolding nc_envelope_def [abs_def]
  by (intro gets_bind [OF gets_nc_u64] gets_bind [OF gets_nc_text] gets_bind [OF gets_nc_prefix [OF assms]]
      gets_bind [OF gets_nc_optional_head [OF assms]] gets_bind [OF gets_nc_optional_location [OF assms]] gets_return)
    (simp_all add: nc_envelope_ok_def)

lemma decode_envelope_accepts:
  assumes "kernel_symbol_law K" and "decode_envelope K bytes = Ok v"
  shows "envelope_ok K v"
proof -
  obtain c c' where "nc_open ''SIMJSTATE2'' ''state format'' bytes = Ok c" "nc_envelope K c = Ok (v, c')" "nc_end c' = Ok ()"
    and located: "\<not> (ev_prefix v = None \<and> ev_head v \<noteq> None \<and> ev_head_location v = None)"
    using assms(2) by (auto simp: decode_envelope_def res_bind_Ok split: if_splits)
  from file_gets [OF this(1-3) gets_nc_envelope [OF assms(1)]] located
  show ?thesis by (simp add: envelope_ok_def nc_envelope_ok_def)
qed

lemma decode_v1_state_accepts:
  assumes "kernel_symbol_law K" and "decode_v1_state K bytes = Ok (f, h)"
  shows "pred_option (native_head_ok K) h" "length bytes \<le> 2 * id_room"
proof -
  obtain c c' where o: "nc_open ''SIMJSTATE1'' ''state format'' bytes = Ok c"
      "res_bind (nc_u64 c) (\<lambda>(fence, c). res_bind (nc_optional_head K c) (\<lambda>(head, c). Ok ((fence, head), c))) = Ok ((f, h), c')"
      "nc_end c' = Ok ()"
    using assms(2) by (auto simp: decode_v1_state_def res_bind_Ok)
  have "gets (\<lambda>c. res_bind (nc_u64 c) (\<lambda>(fence, c). res_bind (nc_optional_head K c) (\<lambda>(head, c). Ok ((fence, head), c))))
      (\<lambda>(f, h). pred_option (native_head_ok K) h) (id_room + 17)"
    by (intro gets_bind [OF gets_nc_u64] gets_bind [OF gets_nc_optional_head [OF assms(1)]] gets_return) simp_all
  from file_gets [OF o(1) o(2) o(3) this]
  show "pred_option (native_head_ok K) h" "length bytes \<le> 2 * id_room" by simp_all
qed

section \<open>What the writers can need\<close>

lemma length_text_bytes: "text_fits t \<Longrightarrow> length (text_bytes t) \<le> 2 ^ 32 + 4"
  by (simp add: text_bytes_def text_fits_def)

lemma length_id_bytes: "native_cid_ok K i \<Longrightarrow> length (id_bytes K i) \<le> id_room"
  using length_text_bytes [of "as_qualified_str K (cid_alg i)"]
  by (simp add: id_bytes_def native_cid_ok_def native_symbol_ok_def)

lemma length_head_bytes: "native_head_ok K h \<Longrightarrow> length (head_bytes K h) \<le> id_room + 8"
  using length_id_bytes [of K "head_entry h"] by (simp add: head_bytes_def native_head_ok_def)

lemma length_location_bytes: "native_location_ok K l \<Longrightarrow> length (location_bytes K l) \<le> 3 * id_room"
  using length_text_bytes [of "ns_text (el_namespace l)"] length_id_bytes [of K "el_entry l"] length_id_bytes [of K "el_storage l"]
  by (simp add: location_bytes_def native_location_ok_def)

lemma length_prefix_bytes: "native_prefix_ok K p \<Longrightarrow> length (prefix_bytes K p) \<le> 4 * id_room"
  using length_head_bytes [of K "pr_physical_head p"] length_head_bytes [of K "pr_canonical_head p"]
    length_id_bytes [of K "pr_descriptor p"]
  by (simp add: prefix_bytes_def native_prefix_ok_def)

lemma length_option_bytes:
  "pred_option Q x \<Longrightarrow> (\<And>y. Q y \<Longrightarrow> length (f y) \<le> n) \<Longrightarrow> length (option_bytes f x) \<le> n + 1"
  by (cases x) (simp_all add: option_bytes_def)

lemma length_optional_parts:
  "pred_option (native_prefix_ok K) x \<Longrightarrow> length (option_bytes (prefix_bytes K) x) \<le> 4 * id_room + 1"
  "pred_option (native_head_ok K) y \<Longrightarrow> length (option_bytes (head_bytes K) y) \<le> id_room + 8 + 1"
  "pred_option (native_location_ok K) z \<Longrightarrow> length (option_bytes (location_bytes K) z) \<le> 3 * id_room + 1"
  by (erule length_option_bytes, erule length_prefix_bytes)
    (erule length_option_bytes, erule length_head_bytes, erule length_option_bytes, erule length_location_bytes)

lemma length_encode_envelope:
  assumes "envelope_ok K v"
  shows "length (encode_envelope K v) < usize_bound"
  using assms length_text_bytes [of "ns_text (ev_namespace v)"] length_optional_parts(1) [of K "ev_prefix v"]
    length_optional_parts(2) [of K "ev_head v"] length_optional_parts(3) [of K "ev_head_location v"]
  by (simp add: envelope_ok_def encode_envelope_eq usize_bound_def)

lemma envelope_back: "envelope_ok K v \<Longrightarrow> decode_envelope K (encode_envelope K v) = Ok v"
  by (rule decode_encode_envelope [OF _ length_encode_envelope])

lemma length_encode_descriptor:
  assumes "native_head_ok K h" and "length st \<le> 2 * id_room"
  shows "length (encode_descriptor K st h) < usize_bound"
  using length_head_bytes [OF assms(1)] assms(2) by (simp add: encode_descriptor_def put_eqs usize_bound_def)

lemma length_references:
  "\<forall>r\<in>set rs. native_cid_ok K (sr_meaning r) \<and> native_cid_ok K (sr_storage r) \<Longrightarrow>
     length (concat (map (\<lambda>r. id_bytes K (sr_meaning r) @ id_bytes K (sr_storage r)) rs)) \<le> length rs * (2 * id_room)"
proof (induction rs)
  case (Cons r rs)
  then show ?case
    using length_id_bytes [of K "sr_meaning r"] length_id_bytes [of K "sr_storage r"] by simp
qed simp

lemma length_encode_v2_entry:
  assumes "encode_v2_entry K v = Ok bytes" and "encode K (canonical_datum (pe_entry v)) = Ok datum" and "physical_ok K v"
  shows "length bytes \<le> length datum + length (pe_payloads v) * (2 * id_room) + 4 * id_room"
proof -
  have "length (option_bytes (location_bytes K) (pe_previous_location v)) \<le> 3 * id_room + 1"
    using assms(3) by (intro length_optional_parts) (simp add: physical_ok_def)
  moreover have "length (concat (map (\<lambda>r. id_bytes K (sr_meaning r) @ id_bytes K (sr_storage r)) (pe_payloads v)))
      \<le> length (pe_payloads v) * (2 * id_room)"
    using assms(3) by (intro length_references) (simp add: physical_ok_def)
  ultimately show ?thesis
    using assms(1,2) by (auto simp: encode_v2_entry_def put_eqs Let_def)
qed

end
