(* ===== verification/Journal_Host_Write.thy ===== *)
theory Journal_Host_Write
  imports Journal_Host_Log Native_Bounds
begin

text \<open>
  What the writers of the durable backend do to the files of a port that keeps its contract: everything
  before the exchange of the state file only adds leaves, under canonical names, and what a writer
  reports as published is there to be read.
\<close>

text \<open>The names of object files are keys of native ids.\<close>

definition named :: "kernel \<Rightarrow> string \<Rightarrow> bool" where
  "named K n \<longleftrightarrow> (\<exists>i. native_cid_ok K i \<and> n = id_key K i)"

definition names_ok :: "kernel \<Rightarrow> ('p \<Rightarrow> path \<Rightarrow> u8 list option) \<Rightarrow> 'p \<Rightarrow> bool" where
  "names_ok K files p \<longleftrightarrow> (\<forall>m n. files p [''objects-v2'', m, n] \<noteq> None \<longrightarrow> named K n)"

context journal_on_port
begin

section \<open>Growth\<close>

definition grown :: "'p \<Rightarrow> 'p \<Rightarrow> bool" where
  "grown p p' \<longleftrightarrow> leaves_kept p p' \<and> files p' state_path = files p state_path \<and>
     (\<forall>m n. files p' [''objects-v2'', m, n] \<noteq> None \<longrightarrow> files p [''objects-v2'', m, n] \<noteq> None \<or> named K n)"

definition grows :: "'p host_state \<Rightarrow> 'p host_state \<Rightarrow> bool" where
  "grows s s' \<longleftrightarrow> grown (hs_port s) (hs_port s')"

lemma grown_refl: "grown p p"
  by (simp add: grown_def leaves_kept_refl)

lemma grown_trans: "grown p q \<Longrightarrow> grown q r \<Longrightarrow> grown p r"
  unfolding grown_def by (elim conjE, intro conjI) (erule (1) leaves_kept_trans, simp, blast)

lemma grows_order: "reflp grows" "transp grows"
  using grown_refl grown_trans by (auto simp: grows_def reflp_def transp_def)

lemma grown_same: "files p' = files p \<Longrightarrow> grown p p'"
  by (simp add: grown_def leaves_kept_def)

lemma grown_new:
  assumes "files p path = None" and "files p' = file_update (files p) path v" and "path \<noteq> state_path"
    and "\<And>m n. path = [''objects-v2'', m, n] \<Longrightarrow> named K n"
  shows "grown p p'"
  using assms by (auto simp: grown_def leaves_kept_def file_update_def)

lemmas grows_intros = op_keeps_pure [OF grows_order(1)] op_keeps_bind [OF grows_order(2)]
  op_keeps_each [OF grows_order] op_keeps_cases

lemma keeps_dir: "op_keeps grows (host_dir C path)"
proof -
  have "grows s (fst (host_dir C path s))" for s
  proof -
    obtain p' r where call: "hp_create_dir P path (hs_port s) = (p', r)" by (metis surj_pair)
    with create_dir [OF call] show ?thesis
      by (simp add: host_dir_def on_port_def port grows_def grown_same)
  qed
  then show ?thesis by (simp add: op_keeps_def)
qed

lemma cas_call:
  obtains p' r where "hp_compare_exchange P path expected replacement never_cancel (hs_port s) = (p', r)"
    "host_cas C path expected replacement s = (s\<lparr>hs_port := p'\<rparr>, map_err port_error r)"
  by (cases "hp_compare_exchange P path expected replacement never_cancel (hs_port s)")
    (simp add: host_cas_def on_port_def port)

lemma cas_files:
  assumes "hp_compare_exchange P path expected replacement never_cancel p = (p', r)"
  shows "files p' = files p \<or> (files p path = expected \<and> files p' = file_update (files p) path replacement)"
proof (cases r)
  case (Ok x)
  then show ?thesis using exchange_Ok assms by (metis (no_types, lifting))
next
  case (Err e)
  then have "\<not> is_ok r" by simp
  from exchange_fail [OF assms this] show ?thesis by blast
next
  case (Panic m)
  then have "\<not> is_ok r" by simp
  from exchange_fail [OF assms this] show ?thesis by blast
qed

lemma cas_Ok:
  assumes "host_cas C path expected replacement s = (s', Ok x)"
  shows "hx_observed x = files (hs_port s) path" "hx_exchanged x \<longleftrightarrow> files (hs_port s) path = expected"
    "files (hs_port s') = (if files (hs_port s) path = expected then file_update (files (hs_port s)) path replacement
       else files (hs_port s))"
proof -
  obtain p' r where c: "hp_compare_exchange P path expected replacement never_cancel (hs_port s) = (p', r)"
    "host_cas C path expected replacement s = (s\<lparr>hs_port := p'\<rparr>, map_err port_error r)" by (rule cas_call)
  with assms have "r = Ok x" "s' = s\<lparr>hs_port := p'\<rparr>" by (auto simp: map_err_Ok)
  with exchange_Ok c(1) show "hx_observed x = files (hs_port s) path" "hx_exchanged x \<longleftrightarrow> files (hs_port s) path = expected"
    "files (hs_port s') = (if files (hs_port s) path = expected then file_update (files (hs_port s)) path replacement
       else files (hs_port s))" by auto
qed

lemma keeps_new:
  assumes "path \<noteq> state_path" and "\<And>m n. path = [''objects-v2'', m, n] \<Longrightarrow> named K n"
  shows "op_keeps grows (host_cas C path None (Some b))"
proof -
  have "grows s (fst (host_cas C path None (Some b) s))" for s
  proof -
    obtain p' r where c: "hp_compare_exchange P path None (Some b) never_cancel (hs_port s) = (p', r)"
      "host_cas C path None (Some b) s = (s\<lparr>hs_port := p'\<rparr>, map_err port_error r)" by (rule cas_call)
    from cas_files [OF c(1)] have "grown (hs_port s) p'"
      using grown_same grown_new assms by blast
    then show ?thesis by (simp add: c(2) grows_def)
  qed
  then show ?thesis by (simp add: op_keeps_def)
qed

lemma keeps_confirm: "op_keeps grows (host_cas C path (Some b) (Some b))"
proof -
  have "grows s (fst (host_cas C path (Some b) (Some b) s))" for s
  proof -
    obtain p' r where c: "hp_compare_exchange P path (Some b) (Some b) never_cancel (hs_port s) = (p', r)"
      "host_cas C path (Some b) (Some b) s = (s\<lparr>hs_port := p'\<rparr>, map_err port_error r)" by (rule cas_call)
    from cas_files [OF c(1)] have "files p' = files (hs_port s)"
      by (auto simp: file_update_def fun_eq_iff)
    then show ?thesis by (simp add: c(2) grows_def grown_same)
  qed
  then show ?thesis by (simp add: op_keeps_def)
qed

lemma keeps_put:
  "path \<noteq> state_path \<Longrightarrow> (\<And>m n. path = [''objects-v2'', m, n] \<Longrightarrow> named K n) \<Longrightarrow> op_keeps grows (put_immutable C path b)"
  unfolding put_immutable_def by (intro grows_intros keeps_new) auto

lemma put_immutable_Ok:
  assumes "put_immutable C path b s = (s', Ok u)"
  shows "files (hs_port s') path = Some b"
proof -
  obtain t x where t: "host_cas C path None (Some b) s = (t, Ok x)"
    and x: "hx_exchanged x \<or> hx_observed x = Some b" "s' = t"
    using assms by (auto simp: put_immutable_def op_bind_Ok op_simps split: if_splits)
  from x cas_Ok [OF t] show ?thesis by (auto simp: file_update_def)
qed

section \<open>The parts\<close>

lemma native_storage_id: "native_cid_ok K (storage_id K b)"
proof -
  have "native_symbol_ok K (sym_qualified ''journal'' ''sha256-storage-v1'')"
    by (rule native_symbol_okI [OF symbol_law]) (simp_all add: text_fits_def qualified_str_def str_ok_ascii)
  then show ?thesis using digest_law by (simp add: native_cid_ok_def storage_id_def kernel_digest_law_def)
qed

lemma named_storage: "named K (id_key K (storage_id K b))"
  using native_storage_id named_def by blast

lemma keeps_layout: "op_keeps grows (ensure_layout C)"
  unfolding ensure_layout_def by (intro grows_intros keeps_dir)

lemma keeps_entry_dirs: "op_keeps grows (ensure_entry_dirs K C l)"
  unfolding ensure_entry_dirs_def Let_def by (intro grows_intros keeps_dir)

lemma keeps_nonce: "op_keeps grows next_nonce"
  by (simp add: op_keeps_def next_nonce_def grows_def grown_refl)

lemma keeps_reserve: "op_keeps grows (reserve_attempts K C seed n)"
proof (induction n)
  case (Suc n)
  have "op_keeps grows (host_cas C (namespace_root ns @ [''format'']) None (Some b))" for ns b
    by (rule keeps_new) (simp_all add: namespace_root_def state_path_def)
  then show ?case
    unfolding reserve_attempts.simps Let_def by (intro grows_intros keeps_nonce keeps_dir Suc.IH)
qed (simp add: grows_intros)

lemma keeps_put_object: "op_keeps grows (put_object K C ob)"
  unfolding put_object_def Let_def
  by (intro grows_intros keeps_dir keeps_put) (auto simp: state_path_def named_storage)

lemma keeps_publish_objects: "op_keeps grows (publish_objects K C obs refs)"
  by (induction obs arbitrary: refs) (simp_all add: grows_intros keeps_put_object)

lemma keeps_put_entry: "op_keeps grows (put_immutable C (entry_path K l) b)"
  by (rule keeps_put) (simp_all add: entry_path_def state_path_def)

lemma keeps_put_descriptor: "op_keeps grows (put_immutable C (descriptor_path K i) b)"
  by (rule keeps_put) (simp_all add: descriptor_path_def state_path_def)

lemma keeps_publish_entries: "op_keeps grows (publish_entries K C ns refs es prev loc)"
proof (induction es arbitrary: prev loc)
  case (Cons e es)
  then show ?case
    unfolding publish_entries.simps Let_def by (intro grows_intros keeps_entry_dirs keeps_put_entry)
qed (simp add: grows_intros)

lemma keeps_redelivery: "op_keeps grows (confirm_redelivery K C ad observed v)"
  unfolding confirm_redelivery_def Let_def by (intro grows_intros keeps_confirm)

lemma keeps_prepare: "op_keeps grows (prepare_admission K C g ad)"
  unfolding prepare_admission_def Let_def
  by (intro grows_intros keeps_layout keeps_redelivery keeps_publish_objects keeps_publish_entries)

lemma keeps_install_prefix: "op_keeps grows (install_prefix K C observed)"
  unfolding install_prefix_def Let_def by (intro grows_intros keeps_put_descriptor)

lemma keeps_put_datum: "op_keeps grows (host_put_datum K C ob)"
  unfolding host_put_datum_def by (intro grows_intros keeps_layout keeps_put_object)

end

end
