(* ===== verification/Journal_Host_Publish.thy ===== *)
theory Journal_Host_Publish
  imports Journal_Host_Write
begin

text \<open>
  Publication: the objects and entry leaves that an admission reports as written are readable, so the
  chain of leaves from the location it returns extends the chain of the current head.
\<close>

text \<open>What a backend can hold: objects and entries whose byte forms can be decoded again.\<close>

definition object_fits :: "kernel \<Rightarrow> journal_object \<Rightarrow> bool" where
  "object_fits K ob \<longleftrightarrow> datum_ok K (jo_datum ob) \<and> (\<forall>bs. storage_bytes K ob = Ok bs \<longrightarrow> length bs < usize_bound)"

definition entry_fits :: "kernel \<Rightarrow> journal_entry \<Rightarrow> bool" where
  "entry_fits K e \<longleftrightarrow> datum_ok K (canonical_datum e) \<and> length (en_payloads e) * (2 * size_of_cid K) \<le> isize_max \<and>
     (\<forall>enc. encode K (canonical_datum e) = Ok enc \<longrightarrow>
        length enc + length (en_payloads e) * (2 * id_room) + 4 * id_room < usize_bound)"

context journal_on_port
begin

lemma content_native: "content_id K d = Some c \<Longrightarrow> native_cid_ok K c"
  using native_law by (simp add: kernel_native_law_def)

lemma canonical_native: "canonical_id K e = Ok i \<Longrightarrow> native_cid_ok K i"
  by (rule content_native) (simp add: canonical_id_def ok_or_Ok)

section \<open>Objects\<close>

lemma names_grown: "names_ok K files p \<Longrightarrow> grown p p' \<Longrightarrow> names_ok K files p'"
  unfolding names_ok_def grown_def by blast

definition readable :: "'p \<Rightarrow> stored_datum_ref \<Rightarrow> bool" where
  "readable p r \<longleftrightarrow> native_cid_ok K (sr_meaning r) \<and> native_cid_ok K (sr_storage r) \<and>
     (\<exists>ob. load_object_ref K C r p = Ok ob)"

lemma readable_grown: "readable p r \<Longrightarrow> grown p p' \<Longrightarrow> readable p' r"
  using ok_leD [OF load_object_ref_mono] unfolding readable_def grown_def by blast

lemma put_object_Ok:
  assumes "put_object K C ob s = (s', Ok r)" and fits: "object_fits K ob"
  shows "readable (hs_port s') r \<and> sr_meaning r = jo_id ob"
proof -
  obtain bytes t u where verified: "object_verify K ob = Ok ()" and bytes: "storage_bytes K ob = Ok bytes"
    and put: "put_immutable C [''objects-v2'', id_key K (jo_id ob), id_key K (storage_id K bytes)] bytes t = (s', Ok u)"
    and r: "r = \<lparr>sr_meaning = jo_id ob, sr_storage = storage_id K bytes\<rparr>"
    using assms(1) by (auto simp: put_object_def Let_def op_bind_Ok op_simps)
  have "host_load C (object_path K r) (hs_port s') = Ok bytes"
    using put_immutable_Ok [OF put] by (simp add: load_Ok r object_path_def)
  moreover have "from_storage_bytes K bytes = Ok (ob\<lparr>jo_datum := norm_datum K (jo_datum ob)\<rparr>)"
    using fits bytes by (intro stored_object_back [OF bytes verified _ _ order_law]) (simp_all add: object_fits_def)
  ultimately have "load_object_ref K C r (hs_port s') = Ok (ob\<lparr>jo_datum := norm_datum K (jo_datum ob)\<rparr>)"
    by (simp add: load_object_ref_def r)
  moreover have "native_cid_ok K (jo_id ob)"
    using verified by (intro content_native [of "jo_datum ob"]) (simp add: object_verify_Ok)
  ultimately show ?thesis using native_storage_id by (simp add: readable_def r)
qed

definition refs_ok :: "'p \<Rightarrow> (cid, stored_datum_ref) btree_map \<Rightarrow> bool" where
  "refs_ok p refs \<longleftrightarrow> (\<forall>m r. bget refs m = Some r \<longrightarrow> readable p r \<and> sr_meaning r = m)"

lemma refs_grown: "refs_ok p refs \<Longrightarrow> grown p p' \<Longrightarrow> refs_ok p' refs"
  using readable_grown unfolding refs_ok_def by blast

lemma publish_objects_Ok:
  "publish_objects K C obs refs s = (s', Ok refs') \<Longrightarrow> list_all (object_fits K) obs \<Longrightarrow> refs_ok (hs_port s) refs \<Longrightarrow>
     refs_ok (hs_port s') refs'"
proof (induction obs arbitrary: refs s)
  case Nil
  then show ?case by (simp add: op_simps)
next
  case (Cons ob obs)
  obtain t r where put: "put_object K C ob s = (t, Ok r)"
    and rest: "publish_objects K C obs (binsert (sr_meaning r) r refs) t = (s', Ok refs')"
    using Cons.prems(1) by (auto simp: op_bind_Ok)
  have "grown (hs_port s) (hs_port t)"
    using op_keepsD [OF keeps_put_object put] by (simp add: grows_def)
  then have "refs_ok (hs_port t) refs" using Cons.prems(3) refs_grown by blast
  moreover have "readable (hs_port t) r" using put_object_Ok [OF put] Cons.prems(2) by simp
  ultimately have "refs_ok (hs_port t) (binsert (sr_meaning r) r refs)" by (auto simp: refs_ok_def)
  with Cons.IH [OF rest] Cons.prems(2) show ?case by simp
qed

lemma find_object_Ok:
  assumes "find_object K C m p = Ok (r, ob)" and names: "names_ok K files p" and m: "native_cid_ok K m"
  shows "readable p r \<and> sr_meaning r = m"
proof -
  let ?dir = "[''objects-v2'', id_key K m]"
  obtain entries storage bytes where list: "hp_list P ?dir p = Ok entries"
    and one: "filter (\<lambda>e. hn_kind e = HostFile) entries \<noteq> []"
    and parsed: "parse_id_key K (hn_name (hd (filter (\<lambda>e. hn_kind e = HostFile) entries))) = Ok storage"
    and load: "host_load C (?dir @ [hn_name (hd (filter (\<lambda>e. hn_kind e = HostFile) entries))]) p = Ok bytes"
    and id: "storage_id K bytes = storage" and ob: "from_storage_bytes K bytes = Ok ob" "jo_id ob = m"
    and r: "r = \<lparr>sr_meaning = m, sr_storage = storage\<rparr>"
    using assms(1) unfolding find_object_def Let_def port
    by (simp only: res_bind_Ok check_Ok map_err_Ok split_paired_Ex prod.case) blast
  let ?e = "hd (filter (\<lambda>e. hn_kind e = HostFile) entries)"
  have "?e \<in> set (filter (\<lambda>e. hn_kind e = HostFile) entries)" using one by (rule hd_in_set)
  then have "hn_name ?e \<in> hn_name ` {e \<in> set entries. hn_kind e = HostFile}" by auto
  then have "hn_name ?e \<in> {n. files p (?dir @ [n]) \<noteq> None}" using list_files [OF list] by blast
  then have "named K (hn_name ?e)" using names by (simp add: names_ok_def)
  then obtain i where i: "native_cid_ok K i" "hn_name ?e = id_key K i" by (auto simp: named_def)
  then have s: "storage = i" using parsed by (simp add: parse_id_key_of_id_key)
  have "load_object_ref K C r p = Ok ob"
    using load id ob i(2) s by (simp add: load_object_ref_def r object_path_def)
  then show ?thesis using m i(1) s by (simp add: readable_def r)
qed

lemma resolve_payload_Ok:
  assumes "resolve_payload K C refs p m = Ok r" and "refs_ok p refs" and "names_ok K files p" and "native_cid_ok K m"
  shows "readable p r \<and> sr_meaning r = m"
proof (cases "bget refs m")
  case None
  then obtain ob where "find_object K C m p = Ok (r, ob)"
    using assms(1) by (auto simp: resolve_payload_def res_bind_Ok)
  from find_object_Ok [OF this assms(3,4)] show ?thesis .
next
  case (Some x)
  then show ?thesis using assms(1,2) by (simp add: resolve_payload_def refs_ok_def)
qed

lemma resolve_payloads_Ok:
  assumes "res_map (resolve_payload K C refs p) ms = Ok rs" and "refs_ok p refs" and "names_ok K files p"
    and "\<forall>m\<in>set ms. native_cid_ok K m"
  shows "map sr_meaning rs = ms \<and> (\<forall>r\<in>set rs. readable p r)"
proof -
  have all: "list_all2 (\<lambda>m r. resolve_payload K C refs p m = Ok r) ms rs" using assms(1) by (simp add: res_map_Ok)
  then have len: "length rs = length ms" by (simp add: list_all2_lengthD)
  have "readable p (rs ! i) \<and> sr_meaning (rs ! i) = ms ! i" if "i < length ms" for i
    using resolve_payload_Ok [OF _ assms(2,3), of "ms ! i" "rs ! i"] all that assms(4) by (simp add: list_all2_conv_all_nth)
  with len show ?thesis by (auto simp: in_set_conv_nth intro: nth_equalityI)
qed

lemma readable_objects:
  "\<forall>r\<in>set rs. readable p r \<Longrightarrow> \<exists>obs. list_all2 (\<lambda>r ob. load_object_ref K C r p = Ok ob) rs obs"
proof (induction rs)
  case (Cons r rs)
  then obtain ob obs where "load_object_ref K C r p = Ok ob" "list_all2 (\<lambda>r ob. load_object_ref K C r p = Ok ob) rs obs"
    by (auto simp: readable_def)
  then show ?case by (intro exI [of _ "ob # obs"]) simp
qed auto

section \<open>Entries\<close>

definition publishable :: "journal_entry \<Rightarrow> bool" where
  "publishable e \<longleftrightarrow> entry_fits K e \<and> canonical_id K e = Ok (en_id e) \<and> pred_option (native_cid_ok K) (en_previous e) \<and>
     (\<forall>m\<in>set (en_payloads e). native_cid_ok K m)"

lemma publishable_physical:
  assumes "publishable e" and "map sr_meaning rs = en_payloads e" and "\<forall>r\<in>set rs. readable p r"
    and "pred_option (native_location_ok K) prev"
  shows "physical_ok K \<lparr>pe_entry = e, pe_previous_location = prev, pe_payloads = rs\<rparr>"
proof -
  have "entry_ids_ok e"
    using assms(1) by (auto simp: publishable_def entry_ids_ok_def native_cid_ok_def list_all_iff pred_option_def)
  moreover have "length rs = length (en_payloads e)" using assms(2) by (metis length_map)
  ultimately show ?thesis
    using assms(1,3,4) by (simp add: physical_ok_def publishable_def entry_fits_def readable_def)
qed

lemma leaf_back:
  assumes e: "publishable e" and rs: "map sr_meaning rs = en_payloads e" "\<forall>r\<in>set rs. readable p r"
    and prev: "pred_option (native_location_ok K) prev"
    and bytes: "encode_v2_entry K \<lparr>pe_entry = e, pe_previous_location = prev, pe_payloads = rs\<rparr> = Ok bytes"
  shows "decode_v2_entry K bytes = Ok \<lparr>pe_entry = e, pe_previous_location = prev, pe_payloads = rs\<rparr>"
proof -
  let ?ph = "\<lparr>pe_entry = e, pe_previous_location = prev, pe_payloads = rs\<rparr>"
  have ok: "physical_ok K ?ph" by (rule publishable_physical [OF e rs prev])
  obtain enc where enc: "encode K (canonical_datum e) = Ok enc"
    using bytes by (auto simp: encode_v2_entry_def res_bind_Ok res_expect_Ok)
  have n: "length rs = length (en_payloads e)" using rs(1) by (metis length_map)
  have room: "length enc + length rs * (2 * id_room) + 4 * id_room < usize_bound"
    using e enc n by (simp add: publishable_def entry_fits_def)
  have "length bytes < usize_bound" using length_encode_v2_entry [OF bytes _ ok] enc room by simp
  moreover have "length rs < 2 ^ 64" using room by (simp add: usize_bound_def)
  ultimately show ?thesis by (intro decode_encode_v2_entry [OF bytes ok order_law]) simp_all
qed

lemma put_entry_leaf:
  assumes e: "publishable e" and ns: "text_fits (ns_text ns)"
    and rs: "map sr_meaning rs = en_payloads e" "\<forall>r\<in>set rs. readable p r" and kept: "leaves_kept p p'"
    and prev: "pred_option (native_location_ok K) prev"
    and bytes: "encode_v2_entry K \<lparr>pe_entry = e, pe_previous_location = prev, pe_payloads = rs\<rparr> = Ok bytes"
    and l: "l = \<lparr>el_namespace = ns, el_sequence = en_sequence e, el_entry = en_id e, el_storage = storage_id K bytes\<rparr>"
    and stored: "files p' (entry_path K l) = Some bytes"
  shows "\<exists>obs. leaf_ok K C p' l \<lparr>pe_entry = e, pe_previous_location = prev, pe_payloads = rs\<rparr> obs"
    and "native_location_ok K l"
proof -
  obtain obs where "list_all2 (\<lambda>r ob. load_object_ref K C r p = Ok ob) rs obs" using readable_objects [OF rs(2)] by blast
  then have "list_all2 (\<lambda>r ob. load_object_ref K C r p' = Ok ob) rs obs"
    by (rule list_all2_mono) (rule ok_leD [OF load_object_ref_mono [OF kept]])
  then have "leaf_ok K C p' l \<lparr>pe_entry = e, pe_previous_location = prev, pe_payloads = rs\<rparr> obs"
    using leaf_back [OF e rs prev bytes] stored e rs(1) by (simp add: leaf_ok_def load_Ok publishable_def l)
  then show "\<exists>obs. leaf_ok K C p' l \<lparr>pe_entry = e, pe_previous_location = prev, pe_payloads = rs\<rparr> obs" by blast
  show "native_location_ok K l"
    using e ns native_storage_id canonical_native [of e "en_id e"] by (simp add: native_location_ok_def l publishable_def)
qed

text \<open>The chain of leaves after the loop, newest first.\<close>

lemma publish_entries_Ok:
  assumes "publish_entries K C ns refs es prev lst s = (s', Ok loc)" and "list_all publishable es"
    and "refs_ok (hs_port s) refs" and "names_ok K files (hs_port s)" and "text_fits (ns_text ns)"
    and "pred_option (native_location_ok K) prev" and "leaf_chain K C (hs_port s) ns prev xs"
  shows "(es = [] \<longrightarrow> loc = lst) \<and> (es \<noteq> [] \<longrightarrow> loc \<noteq> None) \<and>
     pred_option (native_location_ok K) (if es = [] then prev else loc) \<and>
     (\<exists>ys. leaf_chain K C (hs_port s') ns (if es = [] then prev else loc) (ys @ xs) \<and> map pe_entry (chain_entries ys) = es)"
  using assms
proof (induction es arbitrary: prev lst s xs)
  case Nil
  then show ?case by (auto simp: op_simps intro: exI [of _ "[]"])
next
  case (Cons e es)
  obtain t u rs bytes l v where rs: "res_map (resolve_payload K C refs (hs_port s)) (en_payloads e) = Ok rs"
    and bytes: "encode_v2_entry K \<lparr>pe_entry = e, pe_previous_location = prev, pe_payloads = rs\<rparr> = Ok bytes"
    and l: "l = \<lparr>el_namespace = ns, el_sequence = en_sequence e, el_entry = en_id e, el_storage = storage_id K bytes\<rparr>"
    and dirs: "ensure_entry_dirs K C l s = (t, Ok ())"
    and put: "put_immutable C (entry_path K l) bytes t = (u, Ok v)"
    and rest: "publish_entries K C ns refs es (Some l) (Some l) u = (s', Ok loc)"
    using Cons.prems(1) by (auto simp: op_bind_Ok op_simps Let_def)
  have grown: "grown (hs_port s) (hs_port u)"
    using op_keepsD [OF keeps_entry_dirs dirs] op_keepsD [OF keeps_put_entry put] grown_trans by (auto simp: grows_def)
  then have kept: "leaves_kept (hs_port s) (hs_port u)" by (simp add: grown_def)
  have e: "publishable e" and es: "list_all publishable es" using Cons.prems(2) by simp_all
  then have "\<forall>m\<in>set (en_payloads e). native_cid_ok K m" by (simp add: publishable_def)
  then have r: "map sr_meaning rs = en_payloads e" "\<forall>r\<in>set rs. readable (hs_port s) r"
    using resolve_payloads_Ok [OF rs Cons.prems(3,4)] by simp_all
  obtain obs where leaf: "leaf_ok K C (hs_port u) l \<lparr>pe_entry = e, pe_previous_location = prev, pe_payloads = rs\<rparr> obs"
    and native: "native_location_ok K l"
    using put_entry_leaf [OF e Cons.prems(5) r kept Cons.prems(6) bytes l put_immutable_Ok [OF put]] by blast
  let ?x = "(l, \<lparr>pe_entry = e, pe_previous_location = prev, pe_payloads = rs\<rparr>, obs)"
  have chain: "leaf_chain K C (hs_port u) ns (Some l) (?x # xs)"
    using leaf leaf_chain_mono [OF Cons.prems(7) kept] by (simp add: l)
  have "pred_option (native_location_ok K) (Some l)" using native by simp
  from Cons.IH [OF rest es refs_grown [OF Cons.prems(3) grown] names_grown [OF Cons.prems(4) grown] Cons.prems(5) this chain]
  obtain ys where ys: "es = [] \<longrightarrow> loc = Some l" "es \<noteq> [] \<longrightarrow> loc \<noteq> None"
      "pred_option (native_location_ok K) (if es = [] then Some l else loc)"
      "leaf_chain K C (hs_port s') ns (if es = [] then Some l else loc) (ys @ ?x # xs)" "map pe_entry (chain_entries ys) = es"
    by blast
  then have same: "(if es = [] then Some l else loc) = loc" by auto
  have "loc \<noteq> None" using ys(1,2) by (cases "es = []") simp_all
  moreover have "leaf_chain K C (hs_port s') ns loc ((ys @ [?x]) @ xs)" using ys(4) same by simp
  moreover have "map pe_entry (chain_entries (ys @ [?x])) = e # es" using ys(5) by simp
  ultimately show ?case using ys(3) same by (intro conjI impI exI [of _ "ys @ [?x]"]) simp_all
qed

end

end
