(* ===== verification/Journal_Host_Commit.thy ===== *)
theory Journal_Host_Commit
  imports Journal_Host_Publish
begin

text \<open>
  The commit point: when the state file is exchanged for the envelope that admission prepared, what is
  read is the old history with the admitted entries appended.
\<close>

section \<open>A longer chain is accepted\<close>

lemma insert_objects_contains:
  "bcontains (st_objects (insert_objects obs st)) p \<longleftrightarrow> p \<in> jo_id ` set obs \<or> bcontains (st_objects st) p"
  by (induction obs arbitrary: st) (auto simp: insert_object_def)

lemma objects_inv_insert_objects:
  "objects_inv K st \<Longrightarrow> list_all (object_sound K) obs \<Longrightarrow> objects_inv K (insert_objects obs st)"
proof (induction obs arbitrary: st)
  case (Cons ob obs)
  then show ?case using objects_inv_insert [of K st ob] by (simp add: insert_object_def)
qed simp

lemma payload_ok_cong: "st_objects s' = st_objects s \<Longrightarrow> st_datums s' = st_datums s \<Longrightarrow> payload_ok K s' p = payload_ok K s p"
  by (simp add: payload_ok_def)

lemma objects_inv_chain_state: "objects_inv K (chain_state xs m h st0) \<longleftrightarrow> objects_inv K (insert_objects (chain_objects xs) st0)"
  using payload_ok_cong [of "chain_state xs m h st0" "insert_objects (chain_objects xs) st0" K]
  by (simp add: objects_inv_def chain_state_def)

lemma chain_state_simps [simp]:
  "st_entries (chain_state xs m h st0) = m" "st_head (chain_state xs m h st0) = h"
  "bcontains (st_objects (chain_state xs m h st0)) p \<longleftrightarrow> p \<in> jo_id ` set (chain_objects xs) \<or> bcontains (st_objects st0) p"
  by (simp_all add: chain_state_def insert_objects_contains)

lemma leaf_chain_sound:
  "leaf_chain K C p ns loc xs \<Longrightarrow> list_all (object_sound K) (chain_objects xs)"
proof (induction xs arbitrary: loc)
  case (Cons x xs)
  obtain l ph obs where x: "x = (l, ph, obs)" by (cases x)
  have "list_all2 (\<lambda>r ob. load_object_ref K C r p = Ok ob) (pe_payloads ph) obs"
    using Cons.prems x by (simp add: leaf_ok_def)
  then have "list_all (object_sound K) obs"
    by (auto simp: list_all2_conv_all_nth list_all_length dest: load_object_ref_Ok)
  with Cons x show ?case by auto
qed simp

lemma leaf_chain_prefix: "leaf_chain K C p ns loc (ys @ xs) \<Longrightarrow> \<exists>loc'. leaf_chain K C p ns loc' xs"
  by (induction ys arbitrary: loc) auto

lemma leaf_chain_sequences:
  "leaf_chain K C p ns loc xs \<Longrightarrow> map (\<lambda>x. el_sequence (fst x)) xs = map en_sequence (rev (map pe_entry (chain_entries xs)))"
proof (induction xs arbitrary: loc)
  case (Cons x xs)
  obtain l ph obs where "x = (l, ph, obs)" by (cases x)
  with Cons show ?case by (auto simp: leaf_ok_def)
qed simp

text \<open>Entries numbered on from the end of a log append to its map.\<close>

lemma entry_map_append_new:
  "bkeys m = map word_of_nat [0 ..< n] \<Longrightarrow> map (\<lambda>ph. en_sequence (pe_entry ph)) phs = map word_of_nat [n ..< n + length phs] \<Longrightarrow>
     n + length phs \<le> 2 ^ 64 \<Longrightarrow>
     entry_map phs m = Some (m @ map (\<lambda>ph. (en_sequence (pe_entry ph), pe_entry ph)) phs)"
proof (induction phs arbitrary: m n)
  case (Cons ph phs)
  have up: "[n ..< n + length (ph # phs)] = n # [Suc n ..< Suc n + length phs]"
    by (simp add: upt_conv_Cons del: upt_Suc)
  have seq: "en_sequence (pe_entry ph) = word_of_nat n"
    and rest: "map (\<lambda>ph. en_sequence (pe_entry ph)) phs = map word_of_nat [Suc n ..< Suc n + length phs]"
    using Cons.prems(2) unfolding up by (simp_all del: upt_Suc)
  have above: "\<forall>k\<in>set (bkeys m). k < word_of_nat n"
    using Cons.prems(1,3) word_of_nat_less by auto
  then have "\<not> bcontains m (word_of_nat n)" by (auto simp: bcontains_iff)
  moreover have "binsert (word_of_nat n) (pe_entry ph) m = m @ [(word_of_nat n, pe_entry ph)]"
    by (rule binsert_above [OF above])
  moreover have "bkeys (m @ [(word_of_nat n, pe_entry ph)]) = map word_of_nat [0 ..< Suc n]"
    using Cons.prems(1) by (simp add: bkeys_def)
  ultimately show ?case
    using Cons.IH [of "m @ [(word_of_nat n, pe_entry ph)]" "Suc n", OF _ rest] Cons.prems(3) seq by simp
qed simp

lemma entry_map_length: "entry_map phs m = Some m' \<Longrightarrow> bsorted m \<Longrightarrow> length m' = length m + length phs \<and> bsorted m'"
proof (induction phs arbitrary: m)
  case (Cons ph phs)
  have fresh: "\<not> bcontains m (en_sequence (pe_entry ph))"
    and rest: "entry_map phs (binsert (en_sequence (pe_entry ph)) (pe_entry ph) m) = Some m'"
    using Cons.prems(1) by (auto split: if_splits)
  have "length (binsert k v m) = Suc (length m)" if "\<not> bcontains m k" for k v and m :: "(u64, journal_entry) btree_map"
    using that by (induction m) (auto simp: bcontains_def bget_def split: if_splits)
  with Cons.IH [OF rest] fresh Cons.prems(2) show ?case by simp
qed simp

lemma entry_map_distinct:
  "entry_map phs m = Some m' \<Longrightarrow>
     distinct (map (\<lambda>ph. en_sequence (pe_entry ph)) phs) \<and> (\<forall>ph\<in>set phs. \<not> bcontains m (en_sequence (pe_entry ph)))"
proof (induction phs arbitrary: m)
  case (Cons ph phs)
  have "\<not> bcontains m (en_sequence (pe_entry ph))"
    and "entry_map phs (binsert (en_sequence (pe_entry ph)) (pe_entry ph) m) = Some m'"
    using Cons.prems by (auto split: if_splits)
  with Cons.IH [OF this(2)] show ?case by auto
qed simp

lemma entry_chain_payloads_in:
  "entry_chain K P n prev es \<Longrightarrow> \<forall>e\<in>set es. list_all Q (en_payloads e) \<Longrightarrow> entry_chain K Q n prev es"
  by (induction es arbitrary: n prev) auto

lemma chain_locations_distinct:
  assumes "leaf_chain K C p ns loc xs" and "entry_map (chain_entries xs) m = Some m'"
  shows "distinct (map fst xs)"
proof -
  have "distinct (map en_sequence (map pe_entry (chain_entries xs)))"
    using entry_map_distinct [OF assms(2)] by (simp add: comp_def)
  then have "distinct (map el_sequence (map fst xs))"
    using leaf_chain_sequences [OF assms(1)] by (simp add: comp_def flip: rev_map)
  then show ?thesis by (simp add: distinct_map del: map_map)
qed

text \<open>The chain \<open>ys\<close> of new leaves on top of an accepted one.\<close>

lemma v2_accepts_append:
  assumes acc: "v2_accepts K C v p st0 xs m" and chain: "leaf_chain K C p (ev_namespace v) (Some l) (ys @ xs)"
    and es: "map pe_entry (chain_entries ys) = es" "es \<noteq> []"
    and entries: "entry_chain K (\<lambda>_. True) (length m) (map_option head_entry (ev_head v)) es"
    and room: "length m + length es \<le> 2 ^ 64" "length m + length es \<le> hb_work_bound C"
    and v': "v' = v\<lparr>ev_head := Some (head_of (last es)), ev_head_location := Some l\<rparr>"
    and m': "m' = m @ map (\<lambda>e. (en_sequence e, e)) es"
  shows "v2_accepts K C v' p st0 (ys @ xs) m'"
    and "contained (chain_state xs m (ev_head v) st0) (chain_state (ys @ xs) m' (ev_head v') st0)"
proof -
  let ?st = "chain_state xs m (ev_head v) st0" and ?st' = "chain_state (ys @ xs) m' (ev_head v') st0"
  have inv: "state_inv K ?st" and vals: "set (bvalues m) = set (bvalues (st_entries st0)) \<union> pe_entry ` set (chain_entries xs)"
    using v2_accepts_inv [OF acc] by simp_all
  have "v2_base K C v p = Ok st0" using acc by (simp add: v2_accepts_def)
  from v2_base_inv [OF this] have base: "objects_inv K st0" "bsorted (st_entries st0)"
    by (simp_all add: state_inv_def read_shape_def)
  have old: "leaf_chain K C p (ev_namespace v) (ev_head_location v) xs" "distinct (map fst xs)"
      "entry_map (chain_entries xs) (st_entries st0) = Some m"
    using acc by (simp_all add: v2_accepts_def)
  have len: "length (chain_entries ys) = length es" using es(1) by (metis length_map)
  have keys: "bkeys m = map word_of_nat [0 ..< length m]" using state_inv_keys [OF inv] by simp
  have seqs: "map en_sequence es = map word_of_nat [length m ..< length m + length es]"
    by (rule entry_chain_sequences [OF entries])
  have "entry_map (chain_entries ys) m = Some (m @ map (\<lambda>ph. (en_sequence (pe_entry ph), pe_entry ph)) (chain_entries ys))"
  proof (rule entry_map_append_new [OF keys])
    have "map (\<lambda>ph. en_sequence (pe_entry ph)) (chain_entries ys) = map en_sequence es"
      by (simp add: es(1) [symmetric] comp_def)
    then show "map (\<lambda>ph. en_sequence (pe_entry ph)) (chain_entries ys) =
        map word_of_nat [length m ..< length m + length (chain_entries ys)]"
      unfolding len using seqs by (rule trans)
    show "length m + length (chain_entries ys) \<le> 2 ^ 64" unfolding len by (rule room(1))
  qed
  then have emap: "entry_map (chain_entries (ys @ xs)) (st_entries st0) = Some m'"
    unfolding m' es(1) [symmetric] by (simp add: entry_map_append old(3) comp_def)
  have "length m = length (st_entries st0) + length xs"
    using entry_map_length [OF old(3) base(2)] by (simp add: chain_entries_def)
  then have bound: "length (st_entries st0) + length (ys @ xs) \<le> hb_work_bound C"
    using room(2) len by (simp add: chain_entries_def)
  have more: "contained ?st ?st'" by (auto simp: contained_def)
  have "list_all (bcontains (st_objects ?st')) (en_payloads e)" if "e \<in> set es" for e
    using that es(1) leaf_chain_objects [OF chain] by (auto simp: list_all_iff)
  then have pays: "entry_chain K (bcontains (st_objects ?st')) (length (st_entries ?st)) (map_option head_entry (st_head ?st)) es"
    using entry_chain_payloads_in [OF entries] by simp
  have "objects_inv K ?st'"
    unfolding objects_inv_chain_state by (rule objects_inv_insert_objects [OF base(1) leaf_chain_sound [OF chain]])
  then have "state_inv K ?st'"
    by (rule state_inv_append [OF inv _ _ _ es(2) _ _ pays])
      (use room(1) in \<open>auto simp: m' v'\<close>)
  from state_inv_verified [OF this] have verified: "is_ok (verify_state K ?st')" by (simp add: is_ok_iff)
  have shorter: "length m < length m'" using es(2) by (simp add: m')
  have "length (st_entries st0) \<le> length m" using \<open>length m = _\<close> by simp
  then show "v2_accepts K C v' p st0 (ys @ xs) m'"
    using acc chain chain_locations_distinct [OF chain emap] bound emap verified shorter
    unfolding v2_accepts_def v2_base_def by (simp add: v')
  show "contained ?st ?st'" by (rule more)
qed

end
