(* ===== verification/Journal_Host_Admit.thy ===== *)
theory Journal_Host_Admit
  imports Journal_Host_Commit Journal
begin

text \<open>
  The durable backend is a journal log. Its invariant is that the committed closure verifies and object
  files are named by the backend's keys, its view is what a read returns, and its room is the work bound
  and the sizes the byte formats can hold.
\<close>

definition host_view :: "kernel \<Rightarrow> ('p, 'w) host_backend \<Rightarrow> 'p \<Rightarrow> stored_state" where
  "host_view K C p = (case host_read_state K C p of Ok st \<Rightarrow> st | _ \<Rightarrow> empty_state)"

definition host_inv :: "kernel \<Rightarrow> ('p, 'w) host_backend \<Rightarrow> ('p \<Rightarrow> path \<Rightarrow> u8 list option) \<Rightarrow> 'p \<Rightarrow> bool" where
  "host_inv K C files p \<longleftrightarrow> is_ok (host_read_state K C p) \<and> names_ok K files p"

definition host_room :: "kernel \<Rightarrow> ('p, 'w) host_backend \<Rightarrow> 'p \<Rightarrow> admission \<Rightarrow> bool" where
  "host_room K C p ad \<longleftrightarrow> sequences_left (host_view K C p) ad \<and>
     length (st_entries (host_view K C p)) + length (ad_entries ad) \<le> hb_work_bound C \<and>
     list_all (object_fits K) (ad_objects ad) \<and> list_all (entry_fits K) (ad_entries ad)"

lemma host_inv_read: "host_inv K C files p \<Longrightarrow> host_read_state K C p = Ok (host_view K C p)"
  by (auto simp: host_inv_def host_view_def is_ok_iff)

lemma host_view_read: "host_read_state K C p = Ok st \<Longrightarrow> host_view K C p = st"
  by (simp add: host_view_def)

lemma is_v1_envelope [simp]: "\<not> is_v1 (encode_envelope K v)"
  by (simp add: is_v1_def encode_envelope_eq as_bytes_def byte_of_char_def)

text \<open>The room in terms of the log.\<close>

definition room_for :: "kernel \<Rightarrow> ('p, 'w) host_backend \<Rightarrow> stored_state \<Rightarrow> admission \<Rightarrow> bool" where
  "room_for K C st ad \<longleftrightarrow> sequences_left st ad \<and>
     length (st_entries st) + length (ad_entries ad) \<le> hb_work_bound C \<and>
     list_all (object_fits K) (ad_objects ad) \<and> list_all (entry_fits K) (ad_entries ad)"

lemma host_room_for: "host_room K C p ad \<longleftrightarrow> room_for K C (host_view K C p) ad"
  by (simp add: host_room_def room_for_def)

context journal_on_port
begin

section \<open>Growth keeps the view\<close>

lemma grown_inv:
  assumes "host_inv K C files p" and "grown p p'"
  shows "host_inv K C files p' \<and> host_view K C p' = host_view K C p"
proof -
  have "host_read_state K C p' = Ok (host_view K C p)"
    by (rule ok_leD [OF read_state_mono host_inv_read [OF assms(1)]]) (use assms(2) in \<open>simp_all add: grown_def\<close>)
  then show ?thesis
    using assms names_grown by (auto simp: host_inv_def host_view_def)
qed

lemma grows_inv: "host_inv K C files (hs_port s) \<Longrightarrow> grows s s' \<Longrightarrow>
   host_inv K C files (hs_port s') \<and> host_view K C (hs_port s') = host_view K C (hs_port s)"
  unfolding grows_def by (rule grown_inv)

lemma read_of_envelope:
  "files p state_path = Some b \<Longrightarrow> \<not> is_v1 b \<Longrightarrow> decode_envelope K b = Ok v \<Longrightarrow> host_read_state K C p = read_v2 K C v p"
  by (simp add: read_state_eq)

text \<open>Reading a port as if the state file held the given bytes.\<close>

definition reads_as :: "u8 list option \<Rightarrow> 'p \<Rightarrow> (journal_error, stored_state) res" where
  "reads_as b p =
     (case b of
        None \<Rightarrow> Ok empty_state
      | Some bytes \<Rightarrow>
          if is_v1 bytes then
            res_bind (decode_v1_state K bytes) (\<lambda>(_, head).
            case head of
              Some _ \<Rightarrow> res_bind (read_v1 K C bytes p) (\<lambda>(st, _). Ok st)
            | None \<Rightarrow> Ok empty_state)
          else res_bind (decode_envelope K bytes) (\<lambda>v. read_v2 K C v p))"

lemma reads_as_file: "host_read_state K C p = reads_as (files p state_path) p"
  by (simp add: read_state_eq reads_as_def)

lemma reads_as_mono: "leaves_kept p q \<Longrightarrow> ok_le (reads_as b p) (reads_as b q)"
  unfolding reads_as_def by (intro ok_le_intros read_v1_mono read_v2_mono)

lemma reads_as_kept: "leaves_kept p q \<Longrightarrow> reads_as b p = Ok st \<Longrightarrow> reads_as b q = Ok st"
  by (rule ok_leD [OF reads_as_mono])

lemma reads_as_envelope: "\<not> is_v1 b \<Longrightarrow> decode_envelope K b = Ok v \<Longrightarrow> reads_as (Some b) p = read_v2 K C v p"
  by (simp add: reads_as_def)

lemma reads_as_encoded: "envelope_ok K v \<Longrightarrow> reads_as (Some (encode_envelope K v)) p = read_v2 K C v p"
  by (rule reads_as_envelope [OF is_v1_envelope envelope_back])

section \<open>What admission prepares\<close>

lemma prepare_cases:
  assumes "prepare_admission K C g ad s = (s', Ok pr)"
  obtains
    (redelivered) t :: "'p host_state" and observed v st h where "grown (hs_port s) (hs_port t)" "files (hs_port t) state_path = Some observed"
      "\<not> is_v1 observed" "decode_envelope K observed = Ok v" "read_v2 K C v (hs_port t) = Ok st" "ev_fence v = ad_fence ad"
      "\<forall>e\<in>set (ad_entries ad). bget (st_entries st) (en_sequence e) = Some e" "ev_head v = Some h"
      "pr = Redelivered \<lparr>ga_head = h, ga_disposition = AlreadyCommittedActionNotInvoked\<rparr>"
  | (prepared) t u observed v refs loc where "grown (hs_port s) (hs_port t)" "files (hs_port t) state_path = Some observed"
      "\<not> is_v1 observed" "decode_envelope K observed = Ok v" "ev_fence v = ad_fence ad" "ev_head v = ad_expected ad"
      "publish_objects K C (ad_objects ad) [] t = (u, Ok refs)"
      "publish_entries K C (ev_namespace v) refs (ad_entries ad) (ev_head_location v) None u = (s', Ok loc)"
      "ad_entries ad \<noteq> []"
      "pr = Prepared observed (encode_envelope K (v\<lparr>ev_head := Some (head_of (last (ad_entries ad))), ev_head_location := loc\<rparr>))
         (head_of (last (ad_entries ad)))"
proof -
  obtain t observed v where layout: "ensure_layout C s = (t, Ok ())"
    and state: "state_bytes C (hs_port t) = Ok (Some observed)" and v1: "\<not> is_v1 observed"
    and v: "decode_envelope K observed = Ok v" and fence: "ev_fence v = ad_fence ad"
    and rest: "(if ev_head v \<noteq> ad_expected ad then confirm_redelivery K C ad observed v
          else
            op_bind (op_res (trip_admission C BeforeObjectPublish ad)) (\<lambda>_.
            op_bind (publish_objects K C (ad_objects ad) []) (\<lambda>references.
            op_bind (op_res (trip_admission C AfterObjectPublish ad)) (\<lambda>_.
            op_bind (publish_entries K C (ev_namespace v) references (ad_entries ad) (ev_head_location v) None) (\<lambda>last_location.
            op_bind (op_res (trip_admission C AfterDurabilityReceipt ad)) (\<lambda>_.
            if ad_entries ad = [] then op_fail EmptyBatch
            else
              let new_head = head_of (last (ad_entries ad)) in
              op_bind (op_res (trip_admission C BeforeCas ad)) (\<lambda>_.
              op_return (Prepared observed
                (encode_envelope K (v\<lparr>ev_head := Some new_head, ev_head_location := last_location\<rparr>)) new_head))))))))
         t = (s', Ok pr)"
    using assms unfolding prepare_admission_def op_Ok ok_or_Ok by (elim conjE exE, intro that) simp_all
  have grown: "grown (hs_port s) (hs_port t)"
    using op_keepsD [OF keeps_layout layout] by (simp add: grows_def)
  have bytes: "files (hs_port t) state_path = Some observed" using state by (simp add: state_bytes_eq)
  show thesis
  proof (cases "ev_head v = ad_expected ad")
    case True
    obtain u refs loc where pub: "publish_objects K C (ad_objects ad) [] t = (u, Ok refs)"
        "publish_entries K C (ev_namespace v) refs (ad_entries ad) (ev_head_location v) None u = (s', Ok loc)"
        "ad_entries ad \<noteq> []"
        "pr = Prepared observed (encode_envelope K (v\<lparr>ev_head := Some (head_of (last (ad_entries ad))), ev_head_location := loc\<rparr>))
           (head_of (last (ad_entries ad)))"
      using rest True by (auto simp: op_Ok Let_def)
    then show thesis by (rule prepared [OF grown bytes v1 v fence True])
  next
    case False
    then have c: "confirm_redelivery K C ad observed v t = (s', Ok pr)" using rest by simp
    obtain st h where redo: "read_v2 K C v (hs_port t) = Ok st" "ev_fence v = ad_fence ad"
        "\<forall>e\<in>set (ad_entries ad). bget (st_entries st) (en_sequence e) = Some e" "ev_head v = Some h"
        "pr = Redelivered \<lparr>ga_head = h, ga_disposition = AlreadyCommittedActionNotInvoked\<rparr>"
      using c fence by (auto simp: confirm_redelivery_def op_Ok ok_or_Ok list_all_iff)
    then show thesis by (rule redelivered [OF grown bytes v1 v])
  qed
qed

section \<open>The commit\<close>

lemma view_state_inv: "host_inv K C files p \<Longrightarrow> state_inv K (host_view K C p)"
  using host_read_state_inv [OF host_inv_read] .

lemma entry_chain_previous:
  "entry_chain K Q n prev es \<Longrightarrow> pred_option (native_cid_ok K) prev \<Longrightarrow>
     \<forall>e\<in>set es. canonical_id K e = Ok (en_id e) \<and> pred_option (native_cid_ok K) (en_previous e)"
  by (induction es arbitrary: n prev) (auto simp: canonical_native)

lemma state_head_native:
  assumes "state_inv K st"
  shows "pred_option (native_cid_ok K) (map_option head_entry (st_head st))"
proof -
  have "pred_option (native_cid_ok K) (chain_end None (bvalues (st_entries st)))"
  proof (cases "bvalues (st_entries st)" rule: rev_cases)
    case (snoc es e)
    have "entry_chain K (bcontains (st_objects st)) 0 None (bvalues (st_entries st))" using assms by (simp add: state_inv_def)
    with entry_chain_previous have "canonical_id K e = Ok (en_id e)" unfolding snoc by fastforce
    then show ?thesis using snoc by (simp add: chain_end_def canonical_native)
  qed (simp add: chain_end_def)
  then show ?thesis using state_inv_next(2) [OF assms] by simp
qed

lemma admissible_publishable:
  assumes inv: "state_inv K st" and adm: "admissible K st ad" and head: "st_head st = ad_expected ad"
    and fits: "list_all (entry_fits K) (ad_entries ad)"
  shows "list_all publishable (ad_entries ad)"
proof -
  let ?Q = "\<lambda>p. bcontains (st_objects st) p \<or> p \<in> jo_id ` set (ad_objects ad)"
  have chain: "entry_chain K ?Q (unat (next_sequence (ad_expected ad))) (map_option head_entry (ad_expected ad)) (ad_entries ad)"
    and objects: "list_all (object_sound K) (ad_objects ad)"
    using adm by (simp_all add: admissible_def)
  have payload: "native_cid_ok K p" if "?Q p" for p
    using that
  proof
    assume "bcontains (st_objects st) p"
    then have "payload_ok K st p" using inv by (simp add: state_inv_def objects_inv_def)
    then obtain d where "content_id K d = Some p" by (auto simp: payload_ok_def object_from_datum_Ok)
    then show ?thesis by (rule content_native)
  next
    assume "p \<in> jo_id ` set (ad_objects ad)"
    then obtain ob where "ob \<in> set (ad_objects ad)" "p = jo_id ob" by blast
    then have "content_id K (jo_datum ob) = Some p"
      using objects by (auto simp: list_all_iff object_sound_def object_verify_Ok)
    then show ?thesis by (rule content_native)
  qed
  have "pred_option (native_cid_ok K) (map_option head_entry (ad_expected ad))"
    using state_head_native [OF inv] head by simp
  from entry_chain_previous [OF chain this] entry_chain_payloads [OF chain] payload fits
  show ?thesis by (auto simp: list_all_iff publishable_def)
qed

text \<open>The envelope over a chain of new leaves, before it is in the state file.\<close>

lemma ready_reads:
  assumes acc: "v2_accepts K C v p st0 xs m" and st: "st = chain_state xs m (ev_head v) st0"
    and ok: "envelope_ok K v" and head: "ev_head v = ad_expected ad"
    and adm: "admissible K st ad" and room: "room_for K C st ad"
    and chain: "leaf_chain K C p (ev_namespace v) (Some l) (ys @ xs)" "map pe_entry (chain_entries ys) = ad_entries ad"
    and l: "native_location_ok K l"
    and v': "v' = v\<lparr>ev_head := Some (head_of (last (ad_entries ad))), ev_head_location := Some l\<rparr>"
  shows "\<exists>st'. envelope_ok K v' \<and> read_v2 K C v' p = Ok st' \<and> contained st st' \<and>
    admitted ad st st' (head_of (last (ad_entries ad))) CommittedActionInvoked"
proof -
  let ?es = "ad_entries ad" and ?m = "m @ map (\<lambda>e. (en_sequence e, e)) (ad_entries ad)"
  have ne: "?es \<noteq> []" using adm by (simp add: admissible_def)
  have sinv: "state_inv K st" using v2_accepts_inv [OF acc] st by simp
  have sthead: "st_head st = ad_expected ad" and len: "length (st_entries st) = length m" using st head by simp_all
  have entries: "entry_chain K (\<lambda>p. bcontains (st_objects st) p \<or> p \<in> jo_id ` set (ad_objects ad))
      (unat (next_sequence (ad_expected ad))) (map_option head_entry (ad_expected ad)) ?es"
    using adm by (simp add: admissible_def)
  have fits: "length m + length ?es \<le> 2 ^ 64" "length m + length ?es \<le> hb_work_bound C"
    using room len by (simp_all add: room_for_def sequences_left_def)
  have "length m < 2 ^ 64" using fits(1) ne by (cases ?es) auto
  then have n: "unat (next_sequence (ad_expected ad)) = length m"
    using state_inv_next(1) [OF sinv] sthead len by (simp add: unat_of_nat)
  have "entry_chain K (\<lambda>_. True) (length m) (map_option head_entry (ev_head v)) ?es"
    using entry_chain_mono [OF entries] n head by simp
  note new = v2_accepts_append [OF acc chain ne this fits v' refl]
  have "list_all publishable ?es"
    using admissible_publishable [OF sinv adm sthead] room by (simp add: room_for_def)
  then have "canonical_id K (last ?es) = Ok (en_id (last ?es))"
    using ne by (simp add: list_all_iff publishable_def)
  then have "envelope_ok K v'"
    using ok l by (simp add: envelope_ok_def native_head_ok_def head_of_def canonical_native v')
  moreover have "read_v2 K C v' p = Ok (chain_state (ys @ xs) ?m (ev_head v') st0)"
    using new(1) by (auto simp: read_v2_Ok)
  ultimately show ?thesis
    using new(2) st sthead v' by (auto simp: bvalues_def comp_def)
qed

text \<open>The state file after the exchange.\<close>

lemma commit_view:
  assumes inv: "host_inv K C files (hs_port s)" and adm: "admissible K (host_view K C (hs_port s)) ad"
    and room: "host_room K C (hs_port s) ad"
    and prep: "prepare_admission K C g ad s = (s', Ok (Prepared observed replacement h))"
    and committed: "files p = file_update (files (hs_port s')) state_path (Some replacement)"
  shows "host_inv K C files p \<and> contained (host_view K C (hs_port s)) (host_view K C p) \<and>
    admitted ad (host_view K C (hs_port s)) (host_view K C p) h CommittedActionInvoked"
  using prep
proof (cases rule: prepare_cases)
  case (prepared t u observed' v refs loc)
  let ?st = "host_view K C (hs_port s)"
  have tu: "grown (hs_port t) (hs_port u)" and us: "grown (hs_port u) (hs_port s')"
    using op_keepsD [OF keeps_publish_objects prepared(7)] op_keepsD [OF keeps_publish_entries prepared(8)]
    by (simp_all add: grows_def)
  have st: "host_inv K C files (hs_port t)" "host_view K C (hs_port t) = ?st"
    using grown_inv [OF inv prepared(1)] by simp_all
  then have "read_v2 K C v (hs_port t) = Ok ?st"
    using host_inv_read [OF st(1)] read_of_envelope [OF prepared(2-4)] by simp
  then obtain st0 xs m where acc: "v2_accepts K C v (hs_port t) st0 xs m" and view: "?st = chain_state xs m (ev_head v) st0"
    by (auto simp: read_v2_Ok)
  have ok: "envelope_ok K v" by (rule decode_envelope_accepts [OF symbol_law prepared(4)])
  have sinv: "state_inv K ?st" by (rule view_state_inv [OF inv])
  have refs: "refs_ok (hs_port u) refs"
    using publish_objects_Ok [OF prepared(7)] room by (simp add: host_room_def refs_ok_def)
  have names: "names_ok K files (hs_port u)"
    using names_grown [OF _ tu] st(1) by (simp add: host_inv_def)
  have pub: "list_all publishable (ad_entries ad)"
    using admissible_publishable [OF sinv adm] view prepared(6) room by (simp add: host_room_def)
  have old: "leaf_chain K C (hs_port u) (ev_namespace v) (ev_head_location v) xs"
    by (rule leaf_chain_mono [where p = "hs_port t"]) (use acc tu in \<open>simp_all add: v2_accepts_def grown_def\<close>)
  have "text_fits (ns_text (ev_namespace v))" "pred_option (native_location_ok K) (ev_head_location v)"
    using ok by (simp_all add: envelope_ok_def)
  from publish_entries_Ok [OF prepared(8) pub refs names this old] prepared(9)
  obtain l ys where l: "loc = Some l" "native_location_ok K l"
    and ys: "leaf_chain K C (hs_port s') (ev_namespace v) (Some l) (ys @ xs)" "map pe_entry (chain_entries ys) = ad_entries ad"
    by auto
  let ?v = "v\<lparr>ev_head := Some (head_of (last (ad_entries ad))), ev_head_location := Some l\<rparr>"
  have acc': "v2_accepts K C v (hs_port s') st0 xs m"
    by (rule v2_accepts_mono [OF acc]) (use tu us leaves_kept_trans in \<open>auto simp: grown_def\<close>)
  from ready_reads [OF acc' view ok prepared(6) adm room [unfolded host_room_for] ys l(2) refl] obtain st' where
    st': "envelope_ok K ?v" "read_v2 K C ?v (hs_port s') = Ok st'" "contained ?st st'"
      "admitted ad ?st st' (head_of (last (ad_entries ad))) CommittedActionInvoked" by blast
  have kept: "leaves_kept (hs_port s') p" using committed by (simp add: leaves_kept_def file_update_def)
  have "files p state_path = Some (encode_envelope K ?v)" using prepared(10) l(1) committed by (simp add: file_update_def)
  then have read: "host_read_state K C p = Ok st'"
    using reads_as_encoded [OF st'(1)] ok_leD [OF read_v2_mono [OF kept] st'(2)] by (simp add: reads_as_file)
  have "names_ok K files p"
    using names_grown [OF names us] committed by (auto simp: names_ok_def file_update_def state_path_def)
  then have "host_inv K C files p" using read by (simp add: host_inv_def)
  then show ?thesis using host_view_read [OF read] st'(3,4) prepared(10) by simp
qed simp

end

section \<open>Admission\<close>

definition run_action :: "('w \<Rightarrow> 'w) option \<Rightarrow> 'w \<Rightarrow> 'w" where
  "run_action act w = (case act of Some f \<Rightarrow> f w | None \<Rightarrow> w)"

text \<open>What an admission leaves behind: log and world before, log and world after, and the result.\<close>

definition admit_post ::
    "admission \<Rightarrow> ('w \<Rightarrow> 'w) option \<Rightarrow> stored_state \<Rightarrow> 'w \<Rightarrow> stored_state \<Rightarrow> 'w \<Rightarrow> (journal_error, guarded_admission) res \<Rightarrow> bool" where
  "admit_post ad act st w st' w' r \<longleftrightarrow>
     contained st st' \<and>
     (case r of
        Ok g \<Rightarrow> admitted ad st st' (ga_head g) (ga_disposition g) \<and>
          w' = (if ga_disposition g = CommittedActionInvoked then run_action act w else w)
      | _ \<Rightarrow> (st' = st \<and> w' = w) \<or> (appended ad st st' \<and> (w' = w \<or> w' = run_action act w)))"

text \<open>The world of the port carries the caller's world, whether the continuation ran, and what it refused.\<close>

locale host_admission = journal_on_port P files K C
  for P :: "('p, 'w \<times> bool \<times> journal_error option) host_port"
    and files :: "'p \<Rightarrow> path \<Rightarrow> u8 list option"
    and K :: kernel
    and C :: "('p, 'w \<times> bool \<times> journal_error option) host_backend"
begin

definition exchanged :: "'p \<Rightarrow> 'p \<Rightarrow> u8 list \<Rightarrow> bool" where
  "exchanged p p' replacement \<longleftrightarrow> files p' = file_update (files p) state_path (Some replacement)"

lemma continuation_run:
  "continuation C ad f (w, False, None) = (w', called, err) \<Longrightarrow> called \<and> w' = (if err = None then f w else w)"
  by (auto simp: continuation_def split: res.splits)

lemma commit_action:
  assumes "commit_prepared C ad (Some f) observed replacement (s, w) = ((s', w'), rc)"
    and current: "files (hs_port s) state_path = Some observed"
  shows "case rc of
      Ok (ex, err) \<Rightarrow> ex \<and> exchanged (hs_port s) (hs_port s') replacement \<and> w' = (if err = None then f w else w)
    | _ \<Rightarrow> (files (hs_port s') = files (hs_port s) \<and> w' = w) \<or>
        (exchanged (hs_port s) (hs_port s') replacement \<and> (w' = w \<or> w' = f w))"
proof -
  obtain p called err r where call: "hp_compare_exchange_then P state_path (Some observed) (Some replacement) never_cancel
      (continuation C ad f) (hs_port s, (w, False, None)) = ((p, (w', called, err)), r)"
    and s': "s' = s\<lparr>hs_port := p\<rparr>"
    and rc: "rc = res_bind (map_err port_error r) (\<lambda>result.
      if hx_exchanged result \<and> \<not> called then Err (WriteRefused ''guarded commit acknowledgement is incomplete'')
      else Ok (hx_exchanged result, err))"
    using assms(1) by (auto simp: commit_prepared_def port split: prod.splits)
  show ?thesis
  proof (cases r)
    case (Ok x)
    have "hx_exchanged x" "files p = file_update (files (hs_port s)) state_path (Some replacement)"
        "(w', called, err) = continuation C ad f (w, False, None)"
      using guarded_Ok [OF call [unfolded Ok]] current by auto
    moreover from this(3) have "called \<and> w' = (if err = None then f w else w)" by (metis continuation_run)
    ultimately show ?thesis using rc Ok s' by (simp add: exchanged_def)
  next
    case (Err e)
    obtain w1 c1 e1 where cont: "continuation C ad f (w, False, None) = (w1, c1, e1)" by (metis prod_cases3)
    have "\<not> is_ok r" using Err by simp
    from guarded_fail [OF call this] cont continuation_run [OF cont] show ?thesis
      using rc Err s' by (auto simp: exchanged_def split: if_splits)
  next
    case (Panic m)
    then have "\<not> is_ok r" by simp
    from guarded_fail [OF call this] show ?thesis using Panic by simp
  qed
qed

lemma commit_plain:
  assumes "commit_prepared C ad None observed replacement (s, w) = ((s', w'), rc)"
    and current: "files (hs_port s) state_path = Some observed"
  shows "w' = w \<and> (case rc of
      Ok (ex, err) \<Rightarrow> ex \<and> err = None \<and> exchanged (hs_port s) (hs_port s') replacement
    | _ \<Rightarrow> files (hs_port s') = files (hs_port s) \<or> exchanged (hs_port s) (hs_port s') replacement)"
proof -
  obtain p r where call: "hp_compare_exchange P state_path (Some observed) (Some replacement) never_cancel (hs_port s) = (p, r)"
    "host_cas C state_path (Some observed) (Some replacement) s = (s\<lparr>hs_port := p\<rparr>, map_err port_error r)" by (rule cas_call)
  have s': "s' = s\<lparr>hs_port := p\<rparr>" "w' = w"
    and rc: "rc = res_bind (map_err port_error r) (\<lambda>result.
      res_bind (if hx_exchanged result then trip_admission C AfterCas ad else Ok ()) (\<lambda>_. Ok (hx_exchanged result, None)))"
    using assms(1) call(2) by (auto simp: commit_prepared_def)
  have outcome: "files p = files (hs_port s) \<or> files p = file_update (files (hs_port s)) state_path (Some replacement)"
    using cas_files [OF call(1)] by blast
  show ?thesis
  proof (cases r)
    case (Ok x)
    have x: "hx_exchanged x" "files p = file_update (files (hs_port s)) state_path (Some replacement)"
      using exchange_Ok [OF call(1) [unfolded Ok]] current by simp_all
    show ?thesis using s' rc Ok x by (cases "trip_admission C AfterCas ad") (simp_all add: exchanged_def)
  qed (use s' rc outcome in \<open>simp_all add: exchanged_def\<close>)
qed

lemma commit_any:
  assumes "commit_prepared C ad act observed replacement (s, w) = ((s', w'), rc)"
    and "files (hs_port s) state_path = Some observed"
  shows "case rc of
      Ok (ex, err) \<Rightarrow> ex \<and> exchanged (hs_port s) (hs_port s') replacement \<and> w' = (if err = None then run_action act w else w)
    | _ \<Rightarrow> (files (hs_port s') = files (hs_port s) \<and> w' = w) \<or>
        (exchanged (hs_port s) (hs_port s') replacement \<and> (w' = w \<or> w' = run_action act w))"
proof (cases act)
  case None
  then show ?thesis using commit_plain [of ad observed replacement s w s' w' rc] assms
    by (auto simp: run_action_def split: res.splits)
next
  case (Some f)
  then have "run_action act w = f w" by (simp add: run_action_def)
  show ?thesis unfolding \<open>run_action act w = f w\<close> by (rule commit_action [OF assms [unfolded Some]])
qed

lemma admit_post_same: "\<not> is_ok r \<Longrightarrow> admit_post ad act st w st w r"
  by (cases r) (simp_all add: admit_post_def)

lemma admit_spec:
  assumes call: "admit_with_action K C ad act (s, w) = ((s', w'), r)" and inv: "host_inv K C files (hs_port s)"
    and adm: "admissible K (host_view K C (hs_port s)) ad" and room: "host_room K C (hs_port s) ad"
  shows "host_inv K C files (hs_port s') \<and>
    admit_post ad act (host_view K C (hs_port s)) w (host_view K C (hs_port s')) w' r"
proof -
  obtain t rp where prep: "prepare_admission K C (act \<noteq> None) ad s = (t, rp)" by (metis surj_pair)
  have grows: "grows s t" by (rule op_keepsD [OF keeps_prepare prep])
  from grows_inv [OF inv this] have t: "host_inv K C files (hs_port t)" "host_view K C (hs_port t) = host_view K C (hs_port s)"
    by simp_all
  have failed: ?thesis if "s' = t" "w' = w" "\<not> is_ok r"
    using that t admit_post_same by simp
  show ?thesis
  proof (cases rp)
    case (Err e)
    have "s' = t" "w' = w" "r = Err e" using call prep Err by (simp_all add: admit_with_action_def)
    then show ?thesis using failed by simp
  next
    case (Panic m)
    have "s' = t" "w' = w" "r = Panic m" using call prep Panic by (simp_all add: admit_with_action_def)
    then show ?thesis using failed by simp
  next
    case (Ok pr)
    from prep [unfolded Ok] show ?thesis
    proof (cases rule: prepare_cases)
      case (redelivered u observed v st h)
      have s': "s' = t" "w' = w" "r = Ok \<lparr>ga_head = h, ga_disposition = AlreadyCommittedActionNotInvoked\<rparr>"
        using call prep Ok redelivered(9) by (simp_all add: admit_with_action_def)
      have "host_view K C (hs_port u) = st"
        using read_of_envelope [OF redelivered(2-4)] redelivered(5) by (simp add: host_view_def)
      then have st: "host_view K C (hs_port s) = st" using grown_inv [OF inv redelivered(1)] by simp
      have "st_head st = Some h" using redelivered(5,8) by (auto simp: read_v2_Ok)
      moreover have "set (ad_entries ad) \<subseteq> set (bvalues (st_entries st))"
        using redelivered(7) by (force simp: bvalues_def dest: bget_Some_mem)
      ultimately show ?thesis using s' t st by (simp add: admit_post_def)
    next
      case (prepared u x observed v refs loc)
      let ?new = "encode_envelope K (v\<lparr>ev_head := Some (head_of (last (ad_entries ad))), ev_head_location := loc\<rparr>)"
      let ?h = "head_of (last (ad_entries ad))"
      have "grown (hs_port u) (hs_port t)"
        using op_keepsD [OF keeps_publish_objects prepared(7)] op_keepsD [OF keeps_publish_entries prepared(8)] grown_trans
        by (auto simp: grows_def)
      then have current: "files (hs_port t) state_path = Some observed" using prepared(2) by (simp add: grown_def)
      obtain s2 w2 rc where commit: "commit_prepared C ad act observed ?new (t, w) = ((s2, w2), rc)" by (metis surj_pair)
      have s': "s' = s2" "w' = w2"
        and r: "r = res_bind rc (\<lambda>(ex, err). if \<not> ex then Err WrongHead else
           case err of Some e \<Rightarrow> Err e | None \<Rightarrow> res_bind (trip_admission C BeforeAcknowledgement ad)
             (\<lambda>_. Ok \<lparr>ga_head = ?h, ga_disposition = CommittedActionInvoked\<rparr>))"
        using call prep Ok prepared(10) commit
        by (auto simp: admit_with_action_def op_bind_def op_simps split: res.splits option.splits prod.splits if_splits)
      have same: "host_inv K C files (hs_port s') \<and> host_view K C (hs_port s') = host_view K C (hs_port s)"
        if "files (hs_port s2) = files (hs_port t)"
        using grown_inv [OF t(1) grown_same [OF that]] t(2) s'(1) by simp
      have moved: "host_inv K C files (hs_port s') \<and> contained (host_view K C (hs_port s)) (host_view K C (hs_port s')) \<and>
          admitted ad (host_view K C (hs_port s)) (host_view K C (hs_port s')) ?h CommittedActionInvoked"
        if "exchanged (hs_port t) (hs_port s2) ?new"
        using commit_view [OF inv adm room prep [unfolded Ok prepared(10)] that [unfolded exchanged_def]] s'(1) by simp
      note outcome = commit_any [OF commit current]
      show ?thesis
      proof (cases rc)
        case (Ok y)
        obtain ex err where y: "y = (ex, err)" by (cases y)
        then have ex: "ex" "exchanged (hs_port t) (hs_port s2) ?new" "w2 = (if err = None then run_action act w else w)"
          using outcome Ok by simp_all
        note d = moved [OF ex(2)]
        have "admit_post ad act (host_view K C (hs_port s)) w (host_view K C (hs_port s')) w' r"
          using d r Ok y ex s'(2)
          by (cases err; cases "trip_admission C BeforeAcknowledgement ad") (auto simp: admit_post_def appended_def)
        then show ?thesis using d by simp
      next
        case (Err e)
        then show ?thesis using outcome same moved s'(2) r
          by (auto simp: admit_post_def appended_def)
      next
        case (Panic m)
        then show ?thesis using outcome same moved s'(2) r
          by (auto simp: admit_post_def appended_def)
      qed
    qed
  qed
qed

end

end
