(* ===== verification/Journal_Host_Lease.thy ===== *)
theory Journal_Host_Lease
  imports Journal_Host_Admit
begin

text \<open>
  Leases: taking one writes a state file with a higher fence, converting an absent or version 1 state to
  version 2 on the way, and what a read returns stays the same.
\<close>

context journal_on_port
begin

section \<open>The parts of a conversion\<close>

lemma install_prefix_Ok:
  assumes call: "install_prefix K C observed s = (s', Ok (fence, pfx, head))"
    and reads: "reads_as observed (hs_port s) = Ok st" and v1: "\<forall>b. observed = Some b \<longrightarrow> is_v1 b"
  shows "(case pfx of Some pr \<Rightarrow> read_prefix K C pr (hs_port s') = Ok st | None \<Rightarrow> st = empty_state) \<and>
    head = st_head st \<and> pred_option (native_prefix_ok K) pfx"
proof (cases observed)
  case None
  then have "st = empty_state" using reads by (simp add: reads_as_def)
  then show ?thesis using call None by (simp add: install_prefix_def op_simps empty_state_def)
next
  case (Some bytes)
  obtain f h where dec: "decode_v1_state K bytes = Ok (f, h)"
    using call Some by (auto simp: install_prefix_def op_Ok)
  have read: "(case h of Some _ \<Rightarrow> res_bind (read_v1 K C bytes (hs_port s)) (\<lambda>(st, _). Ok st) | None \<Rightarrow> Ok empty_state) = Ok st"
    using reads Some v1 dec by (simp add: reads_as_def)
  show ?thesis
  proof (cases h)
    case None
    then have "st = empty_state" using read by simp
    then show ?thesis using call Some dec None by (auto simp: install_prefix_def op_bind_def op_simps empty_state_def)
  next
    case h: (Some ph)
    obtain st1 ch t u where v1r: "read_v1 K C bytes (hs_port s) = Ok (st1, ch)"
      and put: "put_immutable C (descriptor_path K (storage_id K (encode_descriptor K bytes ch))) (encode_descriptor K bytes ch) t = (s', Ok u)"
      and t: "t = s" and res: "head = Some ch"
        "pfx = Some \<lparr>pr_entries = head_sequence ch + 1, pr_physical_head = ph, pr_canonical_head = ch,
           pr_descriptor = storage_id K (encode_descriptor K bytes ch)\<rparr>"
      using call Some dec h by (auto simp: install_prefix_def op_Ok Let_def)
    have "st1 = st" using read h v1r by simp
    note v1r = v1r [unfolded this]
    note r = read_v1_inv [OF v1r]
    have native: "native_head_ok K ch" using state_head_native [OF r(1)] r(2) by (simp add: native_head_ok_def)
    have accepted: "pred_option (native_head_ok K) h" "length bytes \<le> 2 * id_room"
      using decode_v1_state_accepts [OF symbol_law dec] by simp_all
    have "head_sequence ch + 1 \<noteq> 0"
    proof -
      have "head_sequence ch + 1 = word_of_nat (length (st_entries st))"
        using state_inv_next(1) [OF r(1)] r(2) by (simp add: next_sequence_def)
      moreover have "unat (word_of_nat (length (st_entries st)) :: u64) = length (st_entries st)"
        using r(6) by (simp add: unat_of_nat)
      ultimately show ?thesis using r(4) by (metis length_0_conv unat_0)
    qed
    then have seq: "saturating_succ (head_sequence ch) = head_sequence ch + 1" by (auto simp: saturating_succ_def)
    have "host_load C (descriptor_path K (storage_id K (encode_descriptor K bytes ch))) (hs_port s') = Ok (encode_descriptor K bytes ch)"
      using put_immutable_Ok [OF put] by (simp add: load_Ok)
    moreover have "decode_descriptor K (encode_descriptor K bytes ch) = Ok (bytes, ch)"
      by (rule decode_encode_descriptor [OF native length_encode_descriptor [OF native accepted(2)]])
    moreover have "read_v1 K C bytes (hs_port s') = Ok (st, ch)"
      by (rule ok_leD [OF read_v1_mono v1r])
        (use op_keepsD [OF keeps_put_descriptor put] t in \<open>simp add: grows_def grown_def\<close>)
    ultimately have "read_prefix K C (the pfx) (hs_port s') = Ok st"
      using dec h res(2) seq by (simp add: read_prefix_def)
    moreover have "native_prefix_ok K (the pfx)"
      using native accepted(1) h native_storage_id res(2) by (simp add: native_prefix_ok_def)
    ultimately show ?thesis using res r(2) by simp
  qed
qed

lemma hex_digit_ascii: "d < 16 \<Longrightarrow> (of_char (hex_digit d) :: nat) < 128"
  by (simp add: hex_digit_def of_char_of)

lemma hex_text_fits: "length bs < 2 ^ 31 \<Longrightarrow> text_fits (hex bs)"
proof -
  assume "length bs < 2 ^ 31"
  moreover have "unat b div 16 < 16" for b :: u8
    using unat_u8_bound [of b] by (simp add: less_mult_imp_div_less)
  then have "str_ok (hex bs)"
    by (intro str_ok_ascii) (auto simp: hex_def hex_byte_def hex_digit_ascii)
  ultimately show ?thesis by (simp add: text_fits_def length_hex)
qed

lemma reserve_Ok:
  "reserve_attempts K C seed n s = (s', Ok ns) \<Longrightarrow>
     files (hs_port s') (namespace_root ns @ [''format'']) = Some (as_bytes ''SIMJNAMESPACE2'') \<and> text_fits (ns_text ns)"
proof (induction n arbitrary: s)
  case (Suc n)
  obtain nonce now t u x where now: "hb_clock C nonce = Some now"
    and cas: "host_cas C (namespace_root (EntryNamespace (namespace_token K C seed now nonce)) @ [''format'']) None
       (Some (as_bytes ''SIMJNAMESPACE2'')) t = (u, Ok x)"
    and rest: "(if hx_exchanged x then op_bind (host_dir C (namespace_root (EntryNamespace (namespace_token K C seed now nonce)) @ [''entries'']))
         (\<lambda>_. op_return (EntryNamespace (namespace_token K C seed now nonce))) else reserve_attempts K C seed n) u = (s', Ok ns)"
    using Suc.prems by (auto simp: op_Ok Let_def ok_or_Ok)
  let ?ns = "EntryNamespace (namespace_token K C seed now nonce)"
  show ?case
  proof (cases "hx_exchanged x")
    case True
    then obtain y where dir: "host_dir C (namespace_root ?ns @ [''entries'']) u = (s', Ok y)" and ns: "ns = ?ns"
      using rest by (auto simp: op_Ok)
    have "files (hs_port u) (namespace_root ?ns @ [''format'']) = Some (as_bytes ''SIMJNAMESPACE2'')"
      using cas_Ok [OF cas] True by (simp add: file_update_def)
    moreover have "leaves_kept (hs_port u) (hs_port s')"
      using op_keepsD [OF keeps_dir dir] by (simp add: grows_def grown_def)
    moreover have "text_fits (ns_text ?ns)"
      using digest_law by (simp add: namespace_token_def kernel_digest_law_def hex_text_fits)
    ultimately show ?thesis using leaf_paths(6) [of ?ns] ns by (auto simp: leaves_kept_def)
  next
    case False
    then show ?thesis using rest Suc.IH by simp
  qed
qed (simp add: op_simps)

section \<open>The exchange of the state file\<close>

lemma swap_keeps:
  assumes cas: "host_cas C state_path observed (Some new) s = (s', r)" and inv: "host_inv K C files (hs_port s)"
    and new: "\<And>p. files p = file_update (files (hs_port s)) state_path (Some new) \<Longrightarrow>
       host_inv K C files p \<and> host_view K C p = host_view K C (hs_port s)"
  shows "host_inv K C files (hs_port s') \<and> host_view K C (hs_port s') = host_view K C (hs_port s)"
proof -
  obtain p' q where c: "hp_compare_exchange P state_path observed (Some new) never_cancel (hs_port s) = (p', q)"
    "host_cas C state_path observed (Some new) s = (s\<lparr>hs_port := p'\<rparr>, map_err port_error q)" by (rule cas_call)
  with cas have s': "hs_port s' = p'" by auto
  from cas_files [OF c(1)] show ?thesis
    using new grown_inv [OF inv grown_same] unfolding s' by blast
qed

lemma update_kept: "files p' = file_update (files p) state_path v \<Longrightarrow> leaves_kept p p'"
  by (simp add: leaves_kept_def file_update_def)

lemma update_names: "files p' = file_update (files p) state_path v \<Longrightarrow> names_ok K files p \<Longrightarrow> names_ok K files p'"
  by (auto simp: names_ok_def file_update_def state_path_def)

lemma update_view:
  assumes upd: "files p' = file_update (files p) state_path (Some (encode_envelope K v))" and ok: "envelope_ok K v"
    and acc: "read_v2 K C v p = Ok st" and names: "names_ok K files p"
  shows "host_inv K C files p' \<and> host_view K C p' = st"
proof -
  have "host_read_state K C p' = read_v2 K C v p'"
    by (rule read_of_envelope [OF _ is_v1_envelope envelope_back [OF ok]]) (simp add: upd file_update_def)
  also have "\<dots> = Ok st" by (rule ok_leD [OF read_v2_mono [OF update_kept [OF upd]] acc])
  finally show ?thesis using update_names [OF upd names] by (simp add: host_inv_def host_view_def)
qed

lemma read_fresh:
  assumes marker: "files p (namespace_root ns @ [''format'']) = Some (as_bytes ''SIMJNAMESPACE2'')"
    and base: "v2_base K C v p = Ok st" and inv: "state_inv K st"
    and v: "ev_format v = V2" "ev_namespace v = ns" "ev_head v = st_head st" "ev_head_location v = None"
  shows "read_v2 K C v p = Ok st"
proof -
  have st: "chain_state [] (st_entries st) (st_head st) st = st" by (simp add: chain_state_def)
  have "v2_accepts K C v p st [] (st_entries st)"
    using assms state_inv_verified [OF inv] by (simp add: v2_accepts_def load_Ok st is_ok_iff)
  then show ?thesis using st v(3) unfolding read_v2_Ok by metis
qed

lemma install_envelope:
  assumes sinv: "state_inv K st"
    and parts: "(case pfx of Some pr \<Rightarrow> read_prefix K C pr (hs_port t) = Ok st | None \<Rightarrow> st = empty_state) \<and>
      head = st_head st \<and> pred_option (native_prefix_ok K) pfx"
    and reserved: "files (hs_port u) (namespace_root ns @ [''format'']) = Some (as_bytes ''SIMJNAMESPACE2'') \<and>
      text_fits (ns_text ns)"
    and kept: "leaves_kept (hs_port t) (hs_port u)"
    and v: "v = \<lparr>ev_format = V2, ev_fence = fence, ev_namespace = ns, ev_prefix = pfx, ev_head = head, ev_head_location = None\<rparr>"
  shows "envelope_ok K v" and "read_v2 K C v (hs_port u) = Ok st"
proof -
  have "v2_base K C v (hs_port u) = Ok st"
    using parts ok_leD [OF read_prefix_mono [OF kept]] by (cases pfx) (simp_all add: v2_base_def v)
  then show "read_v2 K C v (hs_port u) = Ok st"
    using reserved sinv parts by (intro read_fresh [where ns = ns]) (simp_all add: v)
  have "pred_option (native_head_ok K) (st_head st)"
    using state_head_native [OF sinv] by (cases "st_head st") (simp_all add: native_head_ok_def)
  moreover have "pfx = None \<Longrightarrow> head = None" using parts by (simp add: empty_state_def)
  ultimately show "envelope_ok K v" using reserved parts by (cases pfx) (auto simp: envelope_ok_def v)
qed

lemma install_Ok:
  assumes call: "install_v2 K C observed s = (s', Ok x)" and state: "files (hs_port s) state_path = observed"
    and v1: "\<forall>b. observed = Some b \<longrightarrow> is_v1 b" and inv: "host_inv K C files (hs_port s)"
  shows "\<exists>v. x = Some \<lparr>lease_fence = ev_fence v\<rparr> \<and> envelope_ok K v \<and>
    files (hs_port s') state_path = Some (encode_envelope K v)"
proof -
  obtain t old pfx head fence u ns w z where px: "install_prefix K C observed s = (t, Ok (old, pfx, head))"
    and res: "reserve_attempts K C (case observed of Some b \<Rightarrow> b | None \<Rightarrow> []) 128 t = (u, Ok ns)"
    and cas: "host_cas C state_path observed (Some (encode_envelope K \<lparr>ev_format = V2, ev_fence = fence, ev_namespace = ns,
       ev_prefix = pfx, ev_head = head, ev_head_location = None\<rparr>)) u = (w, Ok z)"
    and rest: "(if \<not> hx_exchanged z then op_return None
       else op_bind (op_res (trip C AfterFormatCas)) (\<lambda>_. op_return (Some \<lparr>lease_fence = fence\<rparr>))) w = (s', Ok x)"
    using call by (simp only: install_v2_def reserve_namespace_def op_Ok Let_def split_paired_Ex prod.case) blast
  let ?v = "\<lparr>ev_format = V2, ev_fence = fence, ev_namespace = ns, ev_prefix = pfx, ev_head = head, ev_head_location = None\<rparr>"
  have view_reads: "reads_as observed (hs_port s) = Ok (host_view K C (hs_port s))"
    using host_inv_read [OF inv] state by (simp add: reads_as_file)
  have g: "grows s t" "grows t u" by (rule op_keepsD [OF keeps_install_prefix px]) (rule op_keepsD [OF keeps_reserve res])
  then have "files (hs_port u) state_path = observed" using state by (simp add: grows_def grown_def)
  with cas_Ok [OF cas] have z: "hx_exchanged z" "files (hs_port w) state_path = Some (encode_envelope K ?v)"
    by (simp_all add: file_update_def)
  then have "x = Some \<lparr>lease_fence = fence\<rparr>" "s' = w" using rest by (auto simp: op_Ok)
  moreover have "envelope_ok K ?v"
    using install_envelope(1) [OF view_state_inv [OF inv] install_prefix_Ok [OF px view_reads v1] reserve_Ok [OF res] _ refl] g(2)
    by (simp add: grows_def grown_def)
  ultimately show ?thesis using z(2) by (intro exI [of _ ?v]) simp
qed

lemma install_keeps:
  assumes call: "install_v2 K C observed s = (s', r)" and state: "files (hs_port s) state_path = observed"
    and v1: "\<forall>b. observed = Some b \<longrightarrow> is_v1 b" and inv: "host_inv K C files (hs_port s)"
  shows "host_inv K C files (hs_port s') \<and> host_view K C (hs_port s') = host_view K C (hs_port s)"
proof -
  let ?st = "host_view K C (hs_port s)"
  have same: ?thesis if "grows s s'" using grows_inv [OF inv that] .
  obtain t rp where px: "install_prefix K C observed s = (t, rp)" by (metis surj_pair)
  have gt: "grows s t" by (rule op_keepsD [OF keeps_install_prefix px])
  show ?thesis
  proof (cases rp)
    case (Ok x)
    obtain old pfx head where x: "x = (old, pfx, head)" by (metis prod_cases3)
    have "reads_as observed (hs_port s) = Ok ?st" using host_inv_read [OF inv] state by (simp add: reads_as_file)
    note parts = install_prefix_Ok [OF px [unfolded Ok x] this v1]
    show ?thesis
    proof (cases "checked_add_u64 old 1")
      case None
      then have "s' = t" using call px Ok x by (auto simp: install_v2_def op_bind_def op_simps)
      then show ?thesis using same gt by simp
    next
      case (Some fence)
      let ?seed = "case observed of Some b \<Rightarrow> b | None \<Rightarrow> []"
      obtain u rn where res: "reserve_attempts K C ?seed 128 t = (u, rn)" by (metis surj_pair)
      have gu: "grows s u"
        using gt op_keepsD [OF keeps_reserve res] grows_order(2) by (blast dest: transpD)
      show ?thesis
      proof (cases rn)
        case rn: (Ok ns)
        let ?v = "\<lparr>ev_format = V2, ev_fence = fence, ev_namespace = ns, ev_prefix = pfx, ev_head = head,
            ev_head_location = None\<rparr>"
        have rest: "op_bind (op_res (trip C AfterNamespaceReservation)) (\<lambda>_.
            op_bind (op_res (trip C BeforeFormatCas)) (\<lambda>_.
            op_bind (host_cas C state_path observed (Some (encode_envelope K ?v))) (\<lambda>result.
            if \<not> hx_exchanged result then op_return None
            else op_bind (op_res (trip C AfterFormatCas)) (\<lambda>_. op_return (Some \<lparr>lease_fence = fence\<rparr>))))) u = (s', r)"
          using call px Ok x Some res rn by (simp add: install_v2_def reserve_namespace_def op_bind_def op_simps Let_def)
        obtain w rc where cas: "host_cas C state_path observed (Some (encode_envelope K ?v)) u = (w, rc)" by (metis surj_pair)
        have s': "s' = u \<or> s' = w"
          using rest cas by (auto simp: op_bind_def op_simps split: res.splits if_splits)
        from grows_inv [OF inv gu] have iu: "host_inv K C files (hs_port u)" "host_view K C (hs_port u) = ?st" by simp_all
        have tu: "leaves_kept (hs_port t) (hs_port u)"
          using op_keepsD [OF keeps_reserve res] by (simp add: grows_def grown_def)
        note ready = install_envelope [OF view_state_inv [OF inv] parts reserve_Ok [OF res [unfolded rn]] tu, of ?v, OF refl]
        have "host_inv K C files (hs_port w) \<and> host_view K C (hs_port w) = host_view K C (hs_port u)"
          using update_view [OF _ ready] iu by (intro swap_keeps [OF cas iu(1)]) (simp add: host_inv_def)
        then show ?thesis using s' iu by auto
      next
        case (Err e)
        then have "s' = u" using call px Ok x Some res
          by (auto simp: install_v2_def reserve_namespace_def op_bind_def op_simps)
        then show ?thesis using same gu by simp
      next
        case (Panic m)
        then have "s' = u" using call px Ok x Some res
          by (auto simp: install_v2_def reserve_namespace_def op_bind_def op_simps)
        then show ?thesis using same gu by simp
      qed
    qed
  next
    case (Err e)
    then have "s' = t" using call px by (auto simp: install_v2_def op_bind_def op_simps)
    then show ?thesis using same gt by simp
  next
    case (Panic m)
    then have "s' = t" using call px by (auto simp: install_v2_def op_bind_def op_simps)
    then show ?thesis using same gt by simp
  qed
qed

section \<open>The loop\<close>

lemma read_v2_fence: "read_v2 K C (v\<lparr>ev_fence := f\<rparr>) p = read_v2 K C v p"
  by (simp add: read_v2_def cong: if_cong)

lemma round_keeps:
  assumes call: "acquire_round K C s = (s', r)" and inv: "host_inv K C files (hs_port s)"
  shows "host_inv K C files (hs_port s') \<and> host_view K C (hs_port s') = host_view K C (hs_port s)"
proof (cases "files (hs_port s) state_path")
  case None
  then have "install_v2 K C None s = (s', r)" using call by (simp add: acquire_round_def op_bind_def op_simps state_bytes_eq)
  from install_keeps [OF this None _ inv] show ?thesis by simp
next
  case (Some bytes)
  show ?thesis
  proof (cases "is_v1 bytes")
    case True
    then have "install_v2 K C (Some bytes) s = (s', r)"
      using call Some by (simp add: acquire_round_def op_bind_def op_simps state_bytes_eq)
    from install_keeps [OF this Some _ inv] True show ?thesis by simp
  next
    case v2: False
    obtain v where v: "decode_envelope K bytes = Ok v" "read_v2 K C v (hs_port s) = Ok (host_view K C (hs_port s))"
      using host_inv_read [OF inv] Some v2 by (auto simp: read_state_eq res_bind_Ok)
    show ?thesis
    proof (cases "checked_add_u64 (ev_fence v) 1")
      case None
      then have "s' = s" using call Some v2 v
        by (auto simp: acquire_round_def op_bind_def op_simps state_bytes_eq)
      then show ?thesis using inv by simp
    next
      case f: (Some fence)
      let ?v = "v\<lparr>ev_fence := fence\<rparr>"
      obtain w rc where cas: "host_cas C state_path (Some bytes) (Some (encode_envelope K ?v)) s = (w, rc)" by (metis surj_pair)
      have "s' = w" using call Some v2 v f cas
        by (auto simp: acquire_round_def op_bind_def op_simps state_bytes_eq split: res.splits)
      moreover have "envelope_ok K ?v"
        using decode_envelope_accepts [OF symbol_law v(1)] by (simp add: envelope_ok_def)
      moreover have "read_v2 K C ?v (hs_port s) = Ok (host_view K C (hs_port s))" using v(2) by (simp add: read_v2_fence)
      ultimately show ?thesis
        using update_view inv by (intro swap_keeps [OF cas [folded \<open>s' = w\<close>] inv]) (simp add: host_inv_def)
    qed
  qed
qed

text \<open>A round that succeeds has a lease, and the state file carries its fence: nothing comes in between.\<close>

definition fenced :: "'p \<Rightarrow> u64 \<Rightarrow> bool" where
  "fenced p fence \<longleftrightarrow> (\<exists>v. files p state_path = Some (encode_envelope K v) \<and> envelope_ok K v \<and> ev_fence v = fence)"

lemma round_Ok:
  assumes call: "acquire_round K C s = (s', Ok x)" and inv: "host_inv K C files (hs_port s)"
  shows "\<exists>l. x = Some l \<and> fenced (hs_port s') (lease_fence l)"
proof (cases "files (hs_port s) state_path")
  case None
  then have "install_v2 K C None s = (s', Ok x)" using call by (simp add: acquire_round_def op_bind_def op_simps state_bytes_eq)
  from install_Ok [OF this None _ inv] show ?thesis by (auto simp: fenced_def)
next
  case (Some bytes)
  show ?thesis
  proof (cases "is_v1 bytes")
    case True
    then have "install_v2 K C (Some bytes) s = (s', Ok x)"
      using call Some by (simp add: acquire_round_def op_bind_def op_simps state_bytes_eq)
    from install_Ok [OF this Some _ inv] True show ?thesis by (auto simp: fenced_def)
  next
    case v2: False
    obtain v fence z where v: "decode_envelope K bytes = Ok v"
      and cas: "host_cas C state_path (Some bytes) (Some (encode_envelope K (v\<lparr>ev_fence := fence\<rparr>))) s = (s', Ok z)"
      and x: "x = (if hx_exchanged z then Some \<lparr>lease_fence = fence\<rparr> else None)"
      using call Some v2 by (auto simp: acquire_round_def op_Ok state_bytes_eq)
    have "envelope_ok K (v\<lparr>ev_fence := fence\<rparr>)"
      using decode_envelope_accepts [OF symbol_law v] by (simp add: envelope_ok_def)
    moreover have "hx_exchanged z" "files (hs_port s') state_path = Some (encode_envelope K (v\<lparr>ev_fence := fence\<rparr>))"
      using cas_Ok [OF cas] Some by (simp_all add: file_update_def)
    ultimately show ?thesis using x by (auto simp: fenced_def)
  qed
qed

lemma rounds_one:
  assumes "host_inv K C files (hs_port s)"
  shows "acquire_rounds K C (Suc n) s = acquire_rounds K C 1 s"
proof -
  obtain t r where round: "acquire_round K C s = (t, r)" by (metis surj_pair)
  show ?thesis
  proof (cases r)
    case (Ok x)
    then show ?thesis using round_Ok [OF round [unfolded Ok] assms] round by (auto simp: op_bind_def)
  qed (simp_all add: op_bind_def round)
qed

lemma rounds_Ok:
  assumes "acquire_rounds K C (Suc n) s = (s', Ok l)" and "host_inv K C files (hs_port s)"
  shows "fenced (hs_port s') (lease_fence l)"
proof -
  obtain t x where round: "acquire_round K C s = (t, Ok x)"
    and rest: "(case x of Some l \<Rightarrow> op_return l | None \<Rightarrow> acquire_rounds K C n) t = (s', Ok l)"
    using assms(1) by (auto simp: op_Ok)
  from round_Ok [OF round assms(2)] rest show ?thesis by (auto simp: op_Ok)
qed

lemma rounds_keep:
  "acquire_rounds K C n s = (s', r) \<Longrightarrow> host_inv K C files (hs_port s) \<Longrightarrow>
     host_inv K C files (hs_port s') \<and> host_view K C (hs_port s') = host_view K C (hs_port s)"
proof (induction n arbitrary: s)
  case (Suc n)
  obtain t rl where round: "acquire_round K C s = (t, rl)" by (metis surj_pair)
  note t = round_keeps [OF round Suc.prems(2)]
  have "s' = t \<or> acquire_rounds K C n t = (s', r)"
    using Suc.prems(1) round by (auto simp: op_bind_def op_simps split: res.splits option.splits)
  then show ?case using Suc.IH t by auto
qed (simp add: op_simps)

lemma acquire_keeps:
  assumes "host_acquire_lease K C n s = (s', r)" and "host_inv K C files (hs_port s)"
  shows "host_inv K C files (hs_port s') \<and> host_view K C (hs_port s') = host_view K C (hs_port s)"
proof -
  obtain t rl where layout: "ensure_layout C s = (t, rl)" by (metis surj_pair)
  note t = grows_inv [OF assms(2) op_keepsD [OF keeps_layout layout]]
  have "s' = s \<or> s' = t \<or> acquire_rounds K C n t = (s', r)"
    using assms(1) layout by (auto simp: host_acquire_lease_def op_bind_def op_simps split: res.splits)
  then show ?thesis using t rounds_keep assms(2) by metis
qed

lemma acquire_Ok:
  assumes "host_acquire_lease K C (Suc n) s = (s', Ok l)" and "host_inv K C files (hs_port s)"
  shows "fenced (hs_port s') (lease_fence l)"
proof -
  obtain t u where layout: "ensure_layout C s = (t, Ok u)" and rounds: "acquire_rounds K C (Suc n) t = (s', Ok l)"
    using assms(1) by (auto simp: host_acquire_lease_def op_Ok)
  note t = grows_inv [OF assms(2) op_keepsD [OF keeps_layout layout]]
  from rounds_Ok [OF rounds] t show ?thesis by blast
qed

lemma acquire_one:
  assumes "host_inv K C files (hs_port s)"
  shows "host_acquire_lease K C (Suc n) s = host_acquire_lease K C 1 s"
proof -
  obtain t r where layout: "ensure_layout C s = (t, r)" by (metis surj_pair)
  note t = grows_inv [OF assms op_keepsD [OF keeps_layout layout]]
  then have one: "acquire_rounds K C (Suc n) t = acquire_rounds K C 1 t" using rounds_one by blast
  show ?thesis
    by (cases r; cases "write_capable C")
      (simp_all only: host_acquire_lease_def op_bind_def op_simps layout one prod.case res.case)
qed

text \<open>A writer with another fence is refused before it touches the log.\<close>

lemma stale_refused:
  assumes fence: "fenced (hs_port s) fence" and other: "ad_fence ad \<noteq> fence"
    and prep: "prepare_admission K C g ad s = (s', r)"
  shows "\<not> is_ok r"
proof
  assume "is_ok r"
  then obtain pr where "prepare_admission K C g ad s = (s', Ok pr)" using prep by (auto simp: is_ok_iff)
  then obtain t :: "'p host_state" and observed v where t: "grown (hs_port s) (hs_port t)"
      "files (hs_port t) state_path = Some observed" "decode_envelope K observed = Ok v" "ev_fence v = ad_fence ad"
    by (cases rule: prepare_cases) blast+
  obtain v0 where v0: "files (hs_port s) state_path = Some (encode_envelope K v0)" "envelope_ok K v0" "ev_fence v0 = fence"
    using fence by (auto simp: fenced_def)
  have "observed = encode_envelope K v0" using t(1,2) v0(1) by (simp add: grown_def)
  then have "v = v0" using t(3) envelope_back [OF v0(2)] by simp
  with t(4) v0(3) other show False by simp
qed

end

section \<open>The log\<close>

context host_admission
begin

lemma admit_then_log:
  assumes "host_admit_then K C ad act (s, w) = ((s', w'), rg)" and "host_inv K C files (hs_port s)"
    and "admissible K (host_view K C (hs_port s)) ad" and "host_room K C (hs_port s) ad"
  shows "host_inv K C files (hs_port s') \<and>
    admit_post ad (Some act) (host_view K C (hs_port s)) w (host_view K C (hs_port s')) w' rg"
  using admit_spec [OF assms(1) [unfolded host_admit_then_def] assms(2-4)] .

lemma admit_log:
  assumes "host_admit K C w ad s = (s', rh)" and "host_inv K C files (hs_port s)"
    and "admissible K (host_view K C (hs_port s)) ad" and "host_room K C (hs_port s) ad"
  shows "host_inv K C files (hs_port s') \<and>
    contained (host_view K C (hs_port s)) (host_view K C (hs_port s')) \<and>
    (case rh of Ok h \<Rightarrow> \<exists>d. admitted ad (host_view K C (hs_port s)) (host_view K C (hs_port s')) h d
      | _ \<Rightarrow> host_view K C (hs_port s') = host_view K C (hs_port s) \<or>
          appended ad (host_view K C (hs_port s)) (host_view K C (hs_port s')))"
proof -
  obtain w' rg where call: "admit_with_action K C ad None (s, w) = ((s', w'), rg)"
    and rh: "rh = res_bind rg (\<lambda>g. Ok (ga_head g))"
    using assms(1) by (auto simp: host_admit_def split: prod.splits)
  from admit_spec [OF call assms(2-4)] rh show ?thesis
    by (cases rg) (auto simp: admit_post_def)
qed

lemma put_datum_log:
  "host_put_datum K C ob s = (s', rp) \<Longrightarrow> host_inv K C files (hs_port s) \<Longrightarrow>
     host_inv K C files (hs_port s') \<and> host_view K C (hs_port s') = host_view K C (hs_port s)"
  using grows_inv op_keepsD [OF keeps_put_datum] by blast

end

text \<open>An admission that fails before the exchange leaves the log alone; one that fails after it has appended.\<close>

sublocale host_admission \<subseteq> host: journal_log K "host_journal K C fuel w" "\<lambda>s. host_inv K C files (hs_port s)"
  "\<lambda>s. host_view K C (hs_port s)" "\<lambda>s. host_room K C (hs_port s)" for fuel w
proof unfold_locales
  fix s s' :: "'p host_state" and rl
  assume "host_inv K C files (hs_port s)" "be_acquire_lease (host_journal K C fuel w) s = (s', rl)"
  then show "host_inv K C files (hs_port s') \<and> host_view K C (hs_port s') = host_view K C (hs_port s)"
    using acquire_keeps by (simp add: host_journal_def)
next
  fix s s' :: "'p host_state" and ad act w0 w' rg
  assume a: "host_inv K C files (hs_port s)" "admissible K (host_view K C (hs_port s)) ad" "host_room K C (hs_port s) ad"
    and call: "be_admit_then (host_journal K C fuel w) ad act (s, w0) = ((s', w'), rg)"
  have "host_admit_then K C ad act (s, w0) = ((s', w'), rg)" using call by (simp add: host_journal_def)
  from admit_then_log [OF this a]
  show "host_inv K C files (hs_port s') \<and> contained (host_view K C (hs_port s)) (host_view K C (hs_port s'))"
    by (simp add: admit_post_def)
next
  fix s s' :: "'p host_state" and ad act w0 w' g
  assume a: "host_inv K C files (hs_port s)" "admissible K (host_view K C (hs_port s)) ad" "host_room K C (hs_port s) ad"
    and call: "be_admit_then (host_journal K C fuel w) ad act (s, w0) = ((s', w'), Ok g)"
  have "host_admit_then K C ad act (s, w0) = ((s', w'), Ok g)" using call by (simp add: host_journal_def)
  from admit_then_log [OF this a]
  show "admitted ad (host_view K C (hs_port s)) (host_view K C (hs_port s')) (ga_head g) (ga_disposition g) \<and>
      w' = (if ga_disposition g = CommittedActionInvoked then act w0 else w0)"
    by (simp add: admit_post_def run_action_def)
next
  fix s s' :: "'p host_state" and ad act w0 w' rg
  assume a: "host_inv K C files (hs_port s)" "admissible K (host_view K C (hs_port s)) ad" "host_room K C (hs_port s) ad"
    and call: "be_admit_then (host_journal K C fuel w) ad act (s, w0) = ((s', w'), rg)" and "\<not> is_ok rg"
  have "host_admit_then K C ad act (s, w0) = ((s', w'), rg)" using call by (simp add: host_journal_def)
  from admit_then_log [OF this a] \<open>\<not> is_ok rg\<close>
  show "(log_kept (host_view K C (hs_port s)) (host_view K C (hs_port s')) \<and> w' = w0) \<or>
      (appended ad (host_view K C (hs_port s)) (host_view K C (hs_port s')) \<and> (w' = w0 \<or> w' = act w0))"
    by (cases rg) (auto simp: admit_post_def run_action_def)
next
  fix s s' :: "'p host_state" and ad rh
  assume a: "host_inv K C files (hs_port s)" "admissible K (host_view K C (hs_port s)) ad" "host_room K C (hs_port s) ad"
    and call: "be_admit (host_journal K C fuel w) ad s = (s', rh)"
  have c: "host_admit K C w ad s = (s', rh)" using call by (simp add: host_journal_def)
  from admit_log [OF c a]
  show "host_inv K C files (hs_port s') \<and> contained (host_view K C (hs_port s)) (host_view K C (hs_port s'))"
    by simp
next
  fix s s' :: "'p host_state" and ad h
  assume a: "host_inv K C files (hs_port s)" "admissible K (host_view K C (hs_port s)) ad" "host_room K C (hs_port s) ad"
    and call: "be_admit (host_journal K C fuel w) ad s = (s', Ok h)"
  have c: "host_admit K C w ad s = (s', Ok h)" using call by (simp add: host_journal_def)
  from admit_log [OF c a]
  show "\<exists>d. admitted ad (host_view K C (hs_port s)) (host_view K C (hs_port s')) h d" by simp
next
  fix s s' :: "'p host_state" and ad rh
  assume a: "host_inv K C files (hs_port s)" "admissible K (host_view K C (hs_port s)) ad" "host_room K C (hs_port s) ad"
    and call: "be_admit (host_journal K C fuel w) ad s = (s', rh)" and "\<not> is_ok rh"
  have c: "host_admit K C w ad s = (s', rh)" using call by (simp add: host_journal_def)
  from admit_log [OF c a] \<open>\<not> is_ok rh\<close>
  show "log_kept (host_view K C (hs_port s)) (host_view K C (hs_port s')) \<or>
      appended ad (host_view K C (hs_port s)) (host_view K C (hs_port s'))"
    by (cases rh) auto
next
  fix s s' :: "'p host_state" and ob rp
  assume "host_inv K C files (hs_port s)" "be_put_datum (host_journal K C fuel w) ob s = (s', rp)"
  then have "host_inv K C files (hs_port s') \<and> host_view K C (hs_port s') = host_view K C (hs_port s)"
    using put_datum_log by (simp add: host_journal_def)
  then show "host_inv K C files (hs_port s') \<and> contained (host_view K C (hs_port s)) (host_view K C (hs_port s')) \<and>
      log_kept (host_view K C (hs_port s)) (host_view K C (hs_port s'))"
    by simp
qed (simp_all add: host_journal_def host_inv_read view_state_inv)

context host_admission
begin

lemma log_contract: "journal_log K (host_journal K C fuel w) (\<lambda>s. host_inv K C files (hs_port s))
    (\<lambda>s. host_view K C (hs_port s)) (\<lambda>s. host_room K C (hs_port s))"
  by (rule host.journal_log_axioms)

end

lemma host_log:
  assumes "host_admission P files K C"
  shows "journal_log K (host_journal K C fuel w) (\<lambda>s. host_inv K C files (hs_port s))
    (\<lambda>s. host_view K C (hs_port s)) (\<lambda>s. host_room K C (hs_port s))"
  by (rule host_admission.log_contract [OF assms])

end
