(* ===== verification/Journal_Host_Turns.thy ===== *)
theory Journal_Host_Turns
  imports Journal_Host_Lease
begin

text \<open>
  An admission (\<open>admit_with_action\<close>) and a lease (\<open>acquire_lease\<close>) of
  \<open>crates/sim-lib-journal/src/host.rs\<close> and \<open>host/admission.rs\<close> are cut into turns, each of which reads
  the state file at most once and writes at most one file: other holders may do anything between two
  turns, so the exchange of the state file meets what they have left there. The turns of one call with
  nothing in between are the whole operation of \<open>Journal_Host\<close>.
\<close>

section \<open>The turns of an admission\<close>

text \<open>Where a call is: the bytes of the state file it has seen, the envelope in them, what is published.\<close>

datatype admit_phase =
    Entered
  | Redelivering "u8 list" native_envelope
  | Confirming "u8 list" native_envelope
  | PublishingObjects "u8 list" native_envelope "journal_object list" "(cid, stored_datum_ref) btree_map"
  | PublishingEntries "u8 list" native_envelope "(cid, stored_datum_ref) btree_map" "journal_entry list"
      "entry_location option" "entry_location option"
  | Committing "u8 list" "u8 list" journal_head

text \<open>Up to the reading of the state file and the checks against it.\<close>

definition enter_admission :: "kernel \<Rightarrow> ('p, 'w) host_backend \<Rightarrow> bool \<Rightarrow> admission \<Rightarrow> ('p, admit_phase) host_op" where
  "enter_admission K C guarded ad =
     (if guarded \<and> \<not> hp_supports_guarded (hb_port C) then op_fail (WriteRefused ''guarded host admission unsupported'')
      else
        op_bind (op_res (write_capable C)) (\<lambda>_.
        op_bind (ensure_layout C) (\<lambda>_.
        op_bind (op_read (\<lambda>s. state_bytes C (hs_port s))) (\<lambda>observed.
        op_bind (op_res (ok_or observed (WriteRefused ''acquire a v2 lease before append''))) (\<lambda>observed.
        if is_v1 observed then op_fail (WriteRefused ''acquire a v2 lease before append'')
        else
          op_bind (op_res (decode_envelope K observed)) (\<lambda>envelope.
          if ev_fence envelope \<noteq> ad_fence ad then op_fail StaleLease
          else if ev_head envelope \<noteq> ad_expected ad then op_return (Redelivering observed envelope)
          else
            op_bind (op_res (trip_admission C BeforeObjectPublish ad)) (\<lambda>_.
            op_return (PublishingObjects observed envelope (ad_objects ad) []))))))))"

text \<open>A turn before the exchange that moves the head: the next phase, or the answer of a redelivery.\<close>

fun prepare_turn ::
    "kernel \<Rightarrow> ('p, 'w) host_backend \<Rightarrow> bool \<Rightarrow> admission \<Rightarrow> admit_phase \<Rightarrow> ('p, admit_phase + guarded_admission) host_op" where
  "prepare_turn K C guarded ad Entered =
     op_bind (enter_admission K C guarded ad) (\<lambda>phase. op_return (Inl phase))"
| "prepare_turn K C guarded ad (Redelivering observed envelope) =
     op_bind (op_read (\<lambda>s. read_v2 K C envelope (hs_port s))) (\<lambda>st.
     if ad_entries ad = [] \<or> \<not> list_all (\<lambda>e. bget (st_entries st) (en_sequence e) = Some e) (ad_entries ad)
     then op_fail WrongHead
     else op_return (Inl (Confirming observed envelope)))"
| "prepare_turn K C guarded ad (Confirming observed envelope) =
     op_bind (host_cas C state_path (Some observed) (Some observed)) (\<lambda>confirmation.
     if \<not> hx_exchanged confirmation then op_fail WrongHead
     else
       op_bind (op_res (ok_or (ev_head envelope) WrongHead)) (\<lambda>h.
       op_return (Inr \<lparr>ga_head = h, ga_disposition = AlreadyCommittedActionNotInvoked\<rparr>)))"
| "prepare_turn K C guarded ad (PublishingObjects observed envelope (ob # obs) references) =
     op_bind (publish_objects K C [ob] references) (\<lambda>references.
     op_return (Inl (PublishingObjects observed envelope obs references)))"
| "prepare_turn K C guarded ad (PublishingObjects observed envelope [] references) =
     op_bind (op_res (trip_admission C AfterObjectPublish ad)) (\<lambda>_.
     op_return (Inl (PublishingEntries observed envelope references (ad_entries ad) (ev_head_location envelope) None)))"
| "prepare_turn K C guarded ad (PublishingEntries observed envelope references (e # es) previous_location last_location) =
     op_bind (publish_entries K C (ev_namespace envelope) references [e] previous_location last_location) (\<lambda>location.
     op_return (Inl (PublishingEntries observed envelope references es location location)))"
| "prepare_turn K C guarded ad (PublishingEntries observed envelope references [] previous_location last_location) =
     op_bind (op_res (trip_admission C AfterDurabilityReceipt ad)) (\<lambda>_.
     if ad_entries ad = [] then op_fail EmptyBatch
     else
       let new_head = head_of (last (ad_entries ad)) in
       op_bind (op_res (trip_admission C BeforeCas ad)) (\<lambda>_.
       op_return (Inl (Committing observed
         (encode_envelope K (envelope\<lparr>ev_head := Some new_head, ev_head_location := last_location\<rparr>)) new_head))))"
| "prepare_turn K C guarded ad (Committing observed replacement new_head) =
     op_return (Inl (Committing observed replacement new_head))"

definition on_host :: "('p, 'a) host_op \<Rightarrow> ('p host_state \<times> 'w, journal_error, 'a) op" where
  "on_host m sw = (case m (fst sw) of (s, r) \<Rightarrow> ((s, snd sw), r))"

text \<open>Any turn; the last one is the exchange, and what it reports decides the answer.\<close>

definition commit_turn ::
    "('p, 'w \<times> bool \<times> journal_error option) host_backend \<Rightarrow> admission \<Rightarrow> ('w \<Rightarrow> 'w) option \<Rightarrow> u8 list \<Rightarrow> u8 list \<Rightarrow> journal_head \<Rightarrow>
     ('p host_state \<times> 'w, journal_error, guarded_admission) op" where
  "commit_turn C ad act observed replacement new_head =
     op_bind (commit_prepared C ad act observed replacement) (\<lambda>(exchanged, post_commit_error).
     if \<not> exchanged then op_fail WrongHead
     else
       (case post_commit_error of
          Some e \<Rightarrow> op_fail e
        | None \<Rightarrow>
            op_bind (op_res (trip_admission C BeforeAcknowledgement ad)) (\<lambda>_.
            op_return \<lparr>ga_head = new_head, ga_disposition = CommittedActionInvoked\<rparr>)))"

definition admit_turn ::
    "kernel \<Rightarrow> ('p, 'w \<times> bool \<times> journal_error option) host_backend \<Rightarrow> admission \<Rightarrow> ('w \<Rightarrow> 'w) option \<Rightarrow> admit_phase \<Rightarrow>
     ('p host_state \<times> 'w, journal_error, admit_phase + guarded_admission) op" where
  "admit_turn K C ad act phase =
     (case phase of
        Committing observed replacement new_head \<Rightarrow>
          op_bind (commit_turn C ad act observed replacement new_head) (\<lambda>g. op_return (Inr g))
      | _ \<Rightarrow> on_host (prepare_turn K C (act \<noteq> None) ad phase))"

section \<open>The turns of a lease\<close>

datatype lease_phase =
    LeaseEntered
  | LeaseLooking
  | LeaseDescribing "u8 list option"
  | LeaseReserving "u8 list option" u64 "native_prefix_ref option" "journal_head option"
  | LeaseSwapping "u8 list option" "u8 list" u64 bool

text \<open>A lost exchange sends the loop back to look at the state file again.\<close>

fun lease_turn :: "kernel \<Rightarrow> ('p, 'w) host_backend \<Rightarrow> lease_phase \<Rightarrow> ('p, lease_phase + lease) host_op" where
  "lease_turn K C LeaseEntered =
     op_bind (op_res (write_capable C)) (\<lambda>_. op_bind (ensure_layout C) (\<lambda>_. op_return (Inl LeaseLooking)))"
| "lease_turn K C LeaseLooking =
     op_bind (op_read (\<lambda>s. state_bytes C (hs_port s))) (\<lambda>observed.
     case observed of
       None \<Rightarrow> op_return (Inl (LeaseDescribing None))
     | Some bytes \<Rightarrow>
         if is_v1 bytes then op_return (Inl (LeaseDescribing (Some bytes)))
         else
           op_bind (op_res (decode_envelope K bytes)) (\<lambda>envelope.
           op_bind (op_read (\<lambda>s. read_v2 K C envelope (hs_port s))) (\<lambda>_.
           op_bind (op_res (ok_or (checked_add_u64 (ev_fence envelope) 1) (Backend ''fence exhausted''))) (\<lambda>fence.
           op_return (Inl (LeaseSwapping (Some bytes) (encode_envelope K (envelope\<lparr>ev_fence := fence\<rparr>)) fence False))))))"
| "lease_turn K C (LeaseDescribing observed) =
     op_bind (install_prefix K C observed) (\<lambda>(old_fence, pfx, canonical_head).
     op_bind (op_res (ok_or (checked_add_u64 old_fence 1) (Backend ''fence exhausted''))) (\<lambda>fence.
     op_return (Inl (LeaseReserving observed fence pfx canonical_head))))"
| "lease_turn K C (LeaseReserving observed fence pfx canonical_head) =
     op_bind (reserve_namespace K C (case observed of Some b \<Rightarrow> b | None \<Rightarrow> [])) (\<lambda>namespace.
     op_bind (op_res (trip C AfterNamespaceReservation)) (\<lambda>_.
     let envelope = \<lparr>ev_format = V2, ev_fence = fence, ev_namespace = namespace, ev_prefix = pfx,
                     ev_head = canonical_head, ev_head_location = None\<rparr> in
     op_bind (op_res (trip C BeforeFormatCas)) (\<lambda>_.
     op_return (Inl (LeaseSwapping observed (encode_envelope K envelope) fence True)))))"
| "lease_turn K C (LeaseSwapping observed replacement fence installing) =
     op_bind (host_cas C state_path observed (Some replacement)) (\<lambda>result.
     if \<not> hx_exchanged result then op_return (Inl LeaseLooking)
     else
       op_bind (op_res (if installing then trip C AfterFormatCas else Ok ())) (\<lambda>_.
       op_return (Inr \<lparr>lease_fence = fence\<rparr>)))"

section \<open>Turns with nothing in between\<close>

fun run_turns :: "('ph \<Rightarrow> ('s, 'e, 'ph + 'a) op) \<Rightarrow> nat \<Rightarrow> 'ph \<Rightarrow> ('s, 'e, 'a) op" where
  "run_turns turn 0 ph = op_res (Panic ''fuel'')"
| "run_turns turn (Suc n) ph =
     op_bind (turn ph) (\<lambda>x. case x of Inl ph' \<Rightarrow> run_turns turn n ph' | Inr a \<Rightarrow> op_return a)"

lemma op_bind_assoc: "op_bind (op_bind m f) g = op_bind m (\<lambda>x. op_bind (f x) g)"
  by (auto simp: op_bind_def fun_eq_iff split: prod.split res.split)

lemma op_bind_return [simp]: "op_bind (op_return x) f = f x" "op_bind m op_return = m"
  by (auto simp: op_bind_def op_simps fun_eq_iff split: prod.split res.split)

lemma op_bind_fail [simp]: "op_bind (op_fail e) f = op_fail e"
  by (auto simp: op_bind_def op_simps fun_eq_iff)

lemma on_host_bind: "on_host (op_bind m f) = op_bind (on_host m) (\<lambda>x. on_host (f x))"
  by (auto simp: on_host_def op_bind_def fun_eq_iff split: prod.split res.split)

lemma on_host_pure [simp]:
  "on_host (op_return x) = op_return x" "on_host (op_fail e) = op_fail e" "on_host (op_res r) = op_res r"
  by (auto simp: on_host_def op_simps fun_eq_iff)

lemma on_host_if [simp]: "on_host (if b then m else n) = (if b then on_host m else on_host n)"
  by simp

lemma op_bind_if: "op_bind (if b then m else n) f = (if b then op_bind m f else op_bind n f)"
  by simp

lemma admit_turn_simps:
  "admit_turn K C ad act (Committing observed replacement h) =
     op_bind (commit_turn C ad act observed replacement h) (\<lambda>g. op_return (Inr g))"
  "admit_turn K C ad act Entered = on_host (prepare_turn K C (act \<noteq> None) ad Entered)"
  "admit_turn K C ad act (Redelivering observed v) = on_host (prepare_turn K C (act \<noteq> None) ad (Redelivering observed v))"
  "admit_turn K C ad act (Confirming observed v) = on_host (prepare_turn K C (act \<noteq> None) ad (Confirming observed v))"
  "admit_turn K C ad act (PublishingObjects observed v obs refs) =
     on_host (prepare_turn K C (act \<noteq> None) ad (PublishingObjects observed v obs refs))"
  "admit_turn K C ad act (PublishingEntries observed v refs es prev lst) =
     on_host (prepare_turn K C (act \<noteq> None) ad (PublishingEntries observed v refs es prev lst))"
  by (simp_all add: admit_turn_def)

lemma admit_with_action_bind:
  "admit_with_action K C ad act =
     op_bind (on_host (prepare_admission K C (act \<noteq> None) ad)) (\<lambda>pr.
       case pr of Redelivered g \<Rightarrow> op_return g | Prepared observed replacement h \<Rightarrow> commit_turn C ad act observed replacement h)"
  by (auto simp: admit_with_action_def commit_turn_def op_bind_def on_host_def op_simps fun_eq_iff
      split: prod.split res.split prepared.split option.split)

lemma publish_objects_cons:
  "publish_objects K C (ob # obs) refs = op_bind (publish_objects K C [ob] refs) (publish_objects K C obs)"
  by (simp add: op_bind_assoc)

lemma publish_entries_cons:
  "publish_entries K C ns refs (e # es) prev lst =
     op_bind (publish_entries K C ns refs [e] prev lst) (\<lambda>loc. publish_entries K C ns refs es loc loc)"
  by (simp add: op_bind_assoc Let_def)

lemma objects_turns:
  "run_turns (admit_turn K C ad act) (length obs + n) (PublishingObjects observed v obs refs) =
     op_bind (on_host (publish_objects K C obs refs)) (\<lambda>refs.
       run_turns (admit_turn K C ad act) n (PublishingObjects observed v [] refs))"
proof (induction obs arbitrary: refs)
  case (Cons ob obs)
  then show ?case
    by (simp add: admit_turn_simps publish_objects_cons [of K C ob obs] on_host_bind op_bind_assoc del: publish_objects.simps)
qed simp

lemma entries_end:
  "run_turns (admit_turn K C ad act) n (PublishingEntries observed v refs [] prev lst) =
     run_turns (admit_turn K C ad act) n (PublishingEntries observed v refs [] lst lst)"
  by (cases n) (simp_all add: admit_turn_simps)

lemma entries_turns:
  "run_turns (admit_turn K C ad act) (length es + n) (PublishingEntries observed v refs es prev lst) =
     op_bind (on_host (publish_entries K C (ev_namespace v) refs es prev lst)) (\<lambda>loc.
       run_turns (admit_turn K C ad act) n (PublishingEntries observed v refs [] loc loc))"
proof (induction es arbitrary: prev lst)
  case Nil
  show ?case using entries_end by simp
next
  case (Cons e es)
  then show ?case
    by (simp add: admit_turn_simps publish_entries_cons [of K C "ev_namespace v" refs e es] on_host_bind op_bind_assoc
        del: publish_entries.simps)
qed

text \<open>The turns of one admission, run to the end, are the admission.\<close>

lemma redelivery_turns:
  "run_turns (admit_turn K C ad act) (Suc (Suc n)) (Redelivering observed v) =
     op_bind (on_host (confirm_redelivery K C ad observed v)) (\<lambda>pr.
       case pr of Redelivered g \<Rightarrow> op_return g | Prepared observed replacement h \<Rightarrow> commit_turn C ad act observed replacement h)"
  by (simp add: admit_turn_simps confirm_redelivery_def on_host_bind op_bind_assoc op_bind_if cong: if_cong)

lemma last_turns:
  "run_turns (admit_turn K C ad act) (Suc n) (PublishingObjects observed v [] refs) =
     op_bind (op_res (trip_admission C AfterObjectPublish ad)) (\<lambda>_.
       run_turns (admit_turn K C ad act) n (PublishingEntries observed v refs (ad_entries ad) (ev_head_location v) None))"
  "run_turns (admit_turn K C ad act) (Suc (Suc n)) (PublishingEntries observed v refs [] prev lst) =
     op_bind (op_res (trip_admission C AfterDurabilityReceipt ad)) (\<lambda>_.
     if ad_entries ad = [] then op_fail EmptyBatch
     else
       op_bind (op_res (trip_admission C BeforeCas ad)) (\<lambda>_.
       commit_turn C ad act observed
         (encode_envelope K (v\<lparr>ev_head := Some (head_of (last (ad_entries ad))), ev_head_location := lst\<rparr>))
         (head_of (last (ad_entries ad)))))"
  by (simp_all add: admit_turn_simps on_host_bind op_bind_assoc op_bind_if Let_def cong: if_cong)

lemma publishing_turns:
  "run_turns (admit_turn K C ad act) (length (ad_objects ad) + (length (ad_entries ad) + 3 + n))
       (PublishingObjects observed v (ad_objects ad) []) =
     op_bind (on_host
       (op_bind (publish_objects K C (ad_objects ad) []) (\<lambda>references.
        op_bind (op_res (trip_admission C AfterObjectPublish ad)) (\<lambda>_.
        op_bind (publish_entries K C (ev_namespace v) references (ad_entries ad) (ev_head_location v) None) (\<lambda>last_location.
        op_bind (op_res (trip_admission C AfterDurabilityReceipt ad)) (\<lambda>_.
        if ad_entries ad = [] then op_fail EmptyBatch
        else
          let new_head = head_of (last (ad_entries ad)) in
          op_bind (op_res (trip_admission C BeforeCas ad)) (\<lambda>_.
          op_return (Prepared observed
            (encode_envelope K (v\<lparr>ev_head := Some new_head, ev_head_location := last_location\<rparr>)) new_head))))))))
       (\<lambda>pr. case pr of Redelivered g \<Rightarrow> op_return g | Prepared observed replacement h \<Rightarrow> commit_turn C ad act observed replacement h)"
proof -
  have n: "length (ad_entries ad) + 3 + n = Suc (length (ad_entries ad) + Suc (Suc n))" by simp
  show ?thesis
    unfolding objects_turns n last_turns(1) entries_turns last_turns(2)
    by (simp add: on_host_bind op_bind_assoc op_bind_if Let_def cong: if_cong del: publish_objects.simps publish_entries.simps)
qed

lemma entered_turn:
  "run_turns (admit_turn K C ad act) (Suc n) Entered =
     op_bind (on_host (enter_admission K C (act \<noteq> None) ad)) (run_turns (admit_turn K C ad act) n)"
  by (simp add: admit_turn_simps on_host_bind op_bind_assoc)

lemma admit_turns_whole:
  "run_turns (admit_turn K C ad act) (Suc (length (ad_objects ad) + (length (ad_entries ad) + 3 + n))) Entered =
     admit_with_action K C ad act"
proof -
  obtain k where k: "length (ad_objects ad) + (length (ad_entries ad) + 3 + n) = Suc (Suc k)" by (metis add_Suc_right add_Suc numeral_3_eq_3)
  note pub = publishing_turns [of K C ad act n, unfolded k]
  show ?thesis
    unfolding admit_with_action_bind k prepare_admission_def entered_turn enter_admission_def
    by (simp add: on_host_bind op_bind_assoc op_bind_if redelivery_turns pub Let_def cong: if_cong split del: if_split
       del: run_turns.simps(2) publish_objects.simps publish_entries.simps)
qed

text \<open>The turns from one look at the state file to the next are one round of the loop.\<close>

definition round_turn :: "kernel \<Rightarrow> ('p, 'w) host_backend \<Rightarrow> lease_phase \<Rightarrow> ('p, lease_phase + lease option) host_op" where
  "round_turn K C ph =
     op_bind (lease_turn K C ph) (\<lambda>x. op_return
       (case x of Inl ph' \<Rightarrow> if ph' = LeaseLooking then Inr None else Inl ph' | Inr l \<Rightarrow> Inr (Some l)))"

lemma round_run:
  "run_turns (round_turn K C) (Suc n) ph =
     op_bind (lease_turn K C ph) (\<lambda>x. case x of
        Inl ph' \<Rightarrow> if ph' = LeaseLooking then op_return None else run_turns (round_turn K C) n ph'
      | Inr l \<Rightarrow> op_return (Some l))"
proof -
  have "(case (case x of Inl ph' \<Rightarrow> if ph' = LeaseLooking then Inr None else Inl ph' | Inr l \<Rightarrow> Inr (Some l)) of
        Inl ph' \<Rightarrow> run_turns (round_turn K C) n ph' | Inr a \<Rightarrow> op_return a) =
      (case x of Inl ph' \<Rightarrow> if ph' = LeaseLooking then op_return None else run_turns (round_turn K C) n ph'
       | Inr l \<Rightarrow> op_return (Some l))" for x :: "lease_phase + lease"
    by (simp split: sum.split)
  then show ?thesis by (simp add: round_turn_def op_bind_assoc)
qed

lemma op_bind_res_if:
  "op_bind (op_res (if b then r else Ok x)) f = (if b then op_bind (op_res r) f else f x)"
  by (auto simp: op_bind_def op_simps fun_eq_iff)

lemma lease_turns_round: "run_turns (round_turn K C) 4 LeaseLooking = acquire_round K C"
proof -
  have n: "(4 :: nat) = Suc (Suc (Suc (Suc 0)))" by simp
  have install: "run_turns (round_turn K C) (Suc (Suc (Suc 0))) (LeaseDescribing observed) = install_v2 K C observed" for observed
    by (simp add: round_run install_v2_def op_bind_assoc op_bind_if op_bind_res_if split_def Let_def cong: if_cong
        del: run_turns.simps(2))
  have "acquire_round K C s = run_turns (round_turn K C) (Suc (Suc (Suc (Suc 0)))) LeaseLooking s" for s
    unfolding round_run [of K C "Suc (Suc (Suc 0))"]
    using install
    by (auto simp: acquire_round_def round_run [of K C "Suc (Suc 0)"] op_bind_def op_simps
        split: option.split res.split prod.split simp del: run_turns.simps(2))
  then show ?thesis unfolding n by (intro ext) simp
qed

end
