(* ===== verification/Journal_Host_Race.thy ===== *)
theory Journal_Host_Race
  imports Journal_Host_Turns
begin

text \<open>
  Lease holders that race over the durable backend: any number of calls in flight, each at some turn, and
  a step is the next turn of any of them. Before its exchange a call only adds leaves; the exchange moves
  the state file if it still holds what the call has seen, and is reported as lost otherwise. So what
  holds of a call between two of its turns is that the bytes it has seen, and those it will write, read
  as two logs of which the second extends the first.
\<close>

section \<open>Holders in a race\<close>

datatype 'w holder_call = Admitting admission "('w \<Rightarrow> 'w) option" admit_phase | Leasing lease_phase

text \<open>
  What a finished call leaves on record: the log, the fence in the state file and the caller's world
  just before and just after its last turn, and its answer.
\<close>

datatype 'w report =
    AdmitReport admission "('w \<Rightarrow> 'w) option" u64 stored_state 'w stored_state 'w "(journal_error, guarded_admission) res"
  | LeaseReport u64 stored_state u64 stored_state "(journal_error, lease) res"

record ('p, 'w) race =
  rc_state :: "'p host_state"
  rc_world :: 'w
  rc_verified :: "admission list"
  rc_calls :: "'w holder_call list"
  rc_reports :: "'w report list"

definition race_start :: "'p host_state \<Rightarrow> 'w \<Rightarrow> ('p, 'w) race" where
  "race_start s w = \<lparr>rc_state = s, rc_world = w, rc_verified = [], rc_calls = [], rc_reports = []\<rparr>"

text \<open>The fence of the state file: none yet, the one of version 1, or the one of the envelope.\<close>

definition fence_of :: "kernel \<Rightarrow> u8 list option \<Rightarrow> u64" where
  "fence_of K b =
     (case b of
        None \<Rightarrow> 0
      | Some bytes \<Rightarrow>
          if is_v1 bytes then (case decode_v1_state K bytes of Ok (f, _) \<Rightarrow> f | _ \<Rightarrow> 0)
          else (case decode_envelope K bytes of Ok v \<Rightarrow> ev_fence v | _ \<Rightarrow> 0))"

definition host_fence :: "kernel \<Rightarrow> ('p, 'w) host_backend \<Rightarrow> 'p \<Rightarrow> u64" where
  "host_fence K C p = (case state_bytes C p of Ok b \<Rightarrow> fence_of K b | _ \<Rightarrow> 0)"

fun finished :: "('e, 'ph + 'a) res \<Rightarrow> ('e, 'a) res option" where
  "finished (Ok (Inl ph)) = None"
| "finished (Ok (Inr a)) = Some (Ok a)"
| "finished (Err e) = Some (Err e)"
| "finished (Panic m) = Some (Panic m)"

fun unfinished :: "('ph \<Rightarrow> 'c) \<Rightarrow> ('e, 'ph + 'a) res \<Rightarrow> 'c list" where
  "unfinished f (Ok (Inl ph)) = [f ph]"
| "unfinished f _ = []"

definition reports_of :: "(('e, 'a) res \<Rightarrow> 'w report) \<Rightarrow> ('e, 'ph + 'a) res \<Rightarrow> 'w report list" where
  "reports_of f r = (case finished r of None \<Rightarrow> [] | Some a \<Rightarrow> [f a])"

text \<open>
  A step: a holder verifies a batch against what it reads, calls an admission it has verified (at any
  later time, and as often as it likes) or asks for a lease, stores a value, takes the next turn of any
  call, or dies in the middle of one. An admission reads the state file only while the log has room for
  its batch.
\<close>

inductive race_step ::
    "kernel \<Rightarrow> ('p, 'w \<times> bool \<times> journal_error option) host_backend \<Rightarrow> ('p, 'w) race \<Rightarrow> ('p, 'w) race \<Rightarrow> bool"
  for K C where
  race_verify: "verified_admission K (host_journal K C 1 (rc_world c)) l expected objects entries (rc_state c) = Ok ad \<Longrightarrow>
     list_all (\<lambda>ob. length (jo_bytes ob) < usize_bound) objects \<Longrightarrow>
     race_step K C c (c\<lparr>rc_verified := ad # rc_verified c\<rparr>)"
| race_admit: "ad \<in> set (rc_verified c) \<Longrightarrow>
     race_step K C c (c\<lparr>rc_calls := Admitting ad act Entered # rc_calls c\<rparr>)"
| race_lease: "race_step K C c (c\<lparr>rc_calls := Leasing LeaseEntered # rc_calls c\<rparr>)"
| race_put: "host_put_datum K C ob (rc_state c) = (s', rp) \<Longrightarrow> race_step K C c (c\<lparr>rc_state := s'\<rparr>)"
| race_admit_turn: "rc_calls c = xs @ Admitting ad act phase # ys \<Longrightarrow>
     (phase = Entered \<longrightarrow> host_room K C (hs_port (rc_state c)) ad) \<Longrightarrow>
     admit_turn K C ad act phase (rc_state c, rc_world c) = ((s', w'), r) \<Longrightarrow>
     race_step K C c (c\<lparr>rc_state := s', rc_world := w', rc_calls := xs @ unfinished (Admitting ad act) r @ ys,
       rc_reports := reports_of (AdmitReport ad act (host_fence K C (hs_port (rc_state c))) (host_view K C (hs_port (rc_state c)))
         (rc_world c) (host_view K C (hs_port s')) w') r @ rc_reports c\<rparr>)"
| race_lease_turn: "rc_calls c = xs @ Leasing phase # ys \<Longrightarrow>
     lease_turn K C phase (rc_state c) = (s', r) \<Longrightarrow>
     race_step K C c (c\<lparr>rc_state := s', rc_calls := xs @ unfinished Leasing r @ ys,
       rc_reports := reports_of (LeaseReport (host_fence K C (hs_port (rc_state c))) (host_view K C (hs_port (rc_state c)))
         (host_fence K C (hs_port s')) (host_view K C (hs_port s'))) r @ rc_reports c\<rparr>)"
| race_crash: "rc_calls c = xs @ x # ys \<Longrightarrow> race_step K C c (c\<lparr>rc_calls := xs @ ys\<rparr>)"

inductive_cases race_stepE: "race_step K C c c'"

text \<open>What the record of an admission shows: it is the specification of an undisturbed admission, taken at the last turn.\<close>

fun report_ok :: "'w report \<Rightarrow> bool" where
  "report_ok (AdmitReport ad act fence st w st' w' r) \<longleftrightarrow>
     admit_post ad act st w st' w' r \<and> (is_ok r \<or> st' \<noteq> st \<longrightarrow> fence = ad_fence ad)"
| "report_ok (LeaseReport fence st fence' st' r) \<longleftrightarrow>
     st' = st \<and> (case r of Ok l \<Rightarrow> fence < lease_fence l \<and> fence' = lease_fence l | _ \<Rightarrow> True)"

fun report_batch :: "'w report \<Rightarrow> journal_entry list" where
  "report_batch (AdmitReport ad act fence st w st' w' r) = (if st' = st then [] else ad_entries ad)"
| "report_batch (LeaseReport fence st fence' st' r) = []"

fun report_fences :: "'w report \<Rightarrow> u64 list" where
  "report_fences (AdmitReport ad act fence st w st' w' r) = []"
| "report_fences (LeaseReport fence st fence' st' r) = (case r of Ok l \<Rightarrow> [lease_fence l] | _ \<Rightarrow> [])"

text \<open>The batches on record in the order they were committed, and the fences granted, the latest first.\<close>

definition committed :: "'w report list \<Rightarrow> journal_entry list" where
  "committed rs = concat (map report_batch (rev rs))"

definition granted :: "'w report list \<Rightarrow> u64 list" where
  "granted rs = concat (map report_fences rs)"

lemma committed_simps [simp]: "committed [] = []" "committed [r] = report_batch r" "committed (rs @ qs) = committed qs @ committed rs"
  by (simp_all add: committed_def)

lemma granted_simps [simp]: "granted [] = []" "granted [r] = report_fences r" "granted (rs @ qs) = granted rs @ granted qs"
  by (simp_all add: granted_def)

context journal_on_port
begin

section \<open>What holds of a call between its turns\<close>

lemma fence_of_encoded: "envelope_ok K v \<Longrightarrow> fence_of K (Some (encode_envelope K v)) = ev_fence v"
  by (simp add: fence_of_def envelope_back)

text \<open>The call has seen the bytes of an envelope that reads as a log the batch extends.\<close>

definition extends_seen :: "'p \<Rightarrow> admission \<Rightarrow> u8 list \<Rightarrow> native_envelope \<Rightarrow> stored_state \<Rightarrow> bool" where
  "extends_seen p ad observed v st \<longleftrightarrow> \<not> is_v1 observed \<and> decode_envelope K observed = Ok v \<and> ev_fence v = ad_fence ad \<and>
     ev_head v = ad_expected ad \<and> read_v2 K C v p = Ok st \<and> admissible K st ad \<and> room_for K C st ad"

definition entries_out :: "'p \<Rightarrow> admission \<Rightarrow> native_envelope \<Rightarrow> stored_state \<Rightarrow> journal_entry list \<Rightarrow> entry_location option \<Rightarrow>
    entry_location option \<Rightarrow> bool" where
  "entries_out p ad v st es prev lst \<longleftrightarrow>
     (\<exists>out ys xs st0 m. ad_entries ad = out @ es \<and> v2_accepts K C v p st0 xs m \<and> st = chain_state xs m (ev_head v) st0 \<and>
        leaf_chain K C p (ev_namespace v) prev (ys @ xs) \<and> map pe_entry (chain_entries ys) = out \<and>
        pred_option (native_location_ok K) prev \<and> (out \<noteq> [] \<longrightarrow> lst = prev \<and> prev \<noteq> None))"

definition swaps :: "'p \<Rightarrow> admission \<Rightarrow> u8 list \<Rightarrow> u8 list \<Rightarrow> journal_head \<Rightarrow> bool" where
  "swaps p ad observed replacement h \<longleftrightarrow>
     (\<exists>st st'. reads_as (Some observed) p = Ok st \<and> reads_as (Some replacement) p = Ok st' \<and> contained st st' \<and>
        admitted ad st st' h CommittedActionInvoked) \<and>
     fence_of K (Some observed) = ad_fence ad \<and> fence_of K (Some replacement) = ad_fence ad"

fun phase_ok :: "'p \<Rightarrow> admission \<Rightarrow> admit_phase \<Rightarrow> bool" where
  "phase_ok p ad Entered \<longleftrightarrow> True"
| "phase_ok p ad (Redelivering observed v) \<longleftrightarrow>
     \<not> is_v1 observed \<and> decode_envelope K observed = Ok v \<and> ev_fence v = ad_fence ad"
| "phase_ok p ad (Confirming observed v) \<longleftrightarrow>
     \<not> is_v1 observed \<and> decode_envelope K observed = Ok v \<and> ev_fence v = ad_fence ad \<and>
     (\<exists>st. read_v2 K C v p = Ok st \<and> (\<forall>e\<in>set (ad_entries ad). bget (st_entries st) (en_sequence e) = Some e))"
| "phase_ok p ad (PublishingObjects observed v obs refs) \<longleftrightarrow>
     (\<exists>st. extends_seen p ad observed v st) \<and> refs_ok p refs \<and> list_all (object_fits K) obs"
| "phase_ok p ad (PublishingEntries observed v refs es prev lst) \<longleftrightarrow>
     (\<exists>st. extends_seen p ad observed v st \<and> entries_out p ad v st es prev lst) \<and> refs_ok p refs"
| "phase_ok p ad (Committing observed replacement h) \<longleftrightarrow> swaps p ad observed replacement h"

text \<open>Other holders keep the leaves, so it stays true.\<close>

lemma refs_kept: "refs_ok p refs \<Longrightarrow> leaves_kept p q \<Longrightarrow> refs_ok q refs"
  using ok_leD [OF load_object_ref_mono] unfolding refs_ok_def readable_def by blast

lemma extends_kept: "extends_seen p ad observed v st \<Longrightarrow> leaves_kept p q \<Longrightarrow> extends_seen q ad observed v st"
  unfolding extends_seen_def using ok_leD [OF read_v2_mono] by blast

lemma entries_kept: "entries_out p ad v st es prev lst \<Longrightarrow> leaves_kept p q \<Longrightarrow> entries_out q ad v st es prev lst"
  unfolding entries_out_def using v2_accepts_mono leaf_chain_mono by blast

lemma swaps_kept: "swaps p ad observed replacement h \<Longrightarrow> leaves_kept p q \<Longrightarrow> swaps q ad observed replacement h"
  unfolding swaps_def using reads_as_kept by blast

lemma phase_kept: "phase_ok p ad ph \<Longrightarrow> leaves_kept p q \<Longrightarrow> phase_ok q ad ph"
proof (cases ph)
  case (Confirming observed v)
  assume "phase_ok p ad ph" "leaves_kept p q"
  then show ?thesis using ok_leD [OF read_v2_mono] Confirming by simp blast
qed (auto intro: extends_kept entries_kept swaps_kept refs_kept)

section \<open>A turn before the exchange\<close>

lemma phase_cases:
  obtains (entered) "ph = Entered" | (redelivering) observed v where "ph = Redelivering observed v"
    | (confirming) observed v where "ph = Confirming observed v"
    | (object_left) observed v ob obs refs where "ph = PublishingObjects observed v (ob # obs) refs"
    | (objects_out) observed v refs where "ph = PublishingObjects observed v [] refs"
    | (entry_left) observed v refs e es prev lst where "ph = PublishingEntries observed v refs (e # es) prev lst"
    | (entries_out) observed v refs prev lst where "ph = PublishingEntries observed v refs [] prev lst"
    | (committing) observed replacement h where "ph = Committing observed replacement h"
proof (cases ph)
  case (PublishingObjects observed v obs refs)
  then show ?thesis using object_left objects_out by (cases obs) simp_all
next
  case (PublishingEntries observed v refs es prev lst)
  then show ?thesis using entry_left entries_out by (cases es) simp_all
qed (use that in simp_all)

lemma keeps_enter: "op_keeps grows (enter_admission K C g ad)"
  unfolding enter_admission_def by (intro grows_intros keeps_layout)

lemma keeps_prepare_turn: "op_keeps grows (prepare_turn K C g ad ph)"
proof (cases ph)
  case (PublishingObjects observed v obs refs)
  show ?thesis unfolding PublishingObjects
    by (cases obs) (simp_all only: prepare_turn.simps, (intro grows_intros keeps_publish_objects)+)
next
  case (PublishingEntries observed v refs es prev lst)
  show ?thesis unfolding PublishingEntries
    by (cases es) (simp_all only: prepare_turn.simps Let_def, (intro grows_intros keeps_publish_entries)+)
qed (simp_all only: prepare_turn.simps, (intro grows_intros keeps_enter keeps_confirm)+)

lemma enter_Ok:
  assumes call: "enter_admission K C g ad s = (s', Ok ph)" and inv: "host_inv K C files (hs_port s)"
    and adm: "admissible K (host_view K C (hs_port s)) ad" and room: "host_room K C (hs_port s) ad"
  shows "phase_ok (hs_port s') ad ph"
proof -
  obtain observed v where state: "state_bytes C (hs_port s') = Ok (Some observed)" and v1: "\<not> is_v1 observed"
    and v: "decode_envelope K observed = Ok v" and fence: "ev_fence v = ad_fence ad"
    and ph: "if ev_head v \<noteq> ad_expected ad then ph = Redelivering observed v
       else ph = PublishingObjects observed v (ad_objects ad) []"
    using call unfolding enter_admission_def by (auto simp: op_Ok ok_or_Ok split: if_splits)
  have "grows s s'" by (rule op_keepsD [OF keeps_enter call])
  from grows_inv [OF inv this] have s': "host_inv K C files (hs_port s')" "host_view K C (hs_port s') = host_view K C (hs_port s)"
    by simp_all
  have "files (hs_port s') state_path = Some observed" using state by (simp add: state_bytes_eq)
  then have read: "read_v2 K C v (hs_port s') = Ok (host_view K C (hs_port s))"
    using read_of_envelope [OF _ v1 v] host_inv_read [OF s'(1)] s'(2) by simp
  show ?thesis
  proof (cases "ev_head v = ad_expected ad")
    case True
    have "extends_seen (hs_port s') ad observed v (host_view K C (hs_port s))"
      using v1 v fence True read adm room by (simp add: extends_seen_def host_room_for)
    moreover have "list_all (object_fits K) (ad_objects ad)" using room by (simp add: host_room_def)
    ultimately show ?thesis using ph True by (auto simp: refs_ok_def)
  next
    case False
    then show ?thesis using ph v1 v fence by simp
  qed
qed

lemma entries_start:
  assumes seen: "extends_seen p ad observed v st"
  shows "entries_out p ad v st (ad_entries ad) (ev_head_location v) None"
proof -
  obtain st0 xs m where acc: "v2_accepts K C v p st0 xs m" and st: "st = chain_state xs m (ev_head v) st0"
    using seen by (auto simp: extends_seen_def read_v2_Ok)
  have "envelope_ok K v" using seen decode_envelope_accepts [OF symbol_law] by (auto simp: extends_seen_def)
  then have "pred_option (native_location_ok K) (ev_head_location v)" by (simp add: envelope_ok_def)
  moreover have "leaf_chain K C p (ev_namespace v) (ev_head_location v) xs" using acc by (simp add: v2_accepts_def)
  ultimately show ?thesis using acc st unfolding entries_out_def
    by (intro exI [of _ "[]"] exI [of _ xs] exI [of _ st0] exI [of _ m]) simp
qed

lemma entries_turn:
  assumes pub: "publish_entries K C (ev_namespace v) refs [e] prev lst s = (s', Ok loc)"
    and seen: "extends_seen (hs_port s) ad observed v st" and out: "entries_out (hs_port s) ad v st (e # es) prev lst"
    and refs: "refs_ok (hs_port s) refs" and names: "names_ok K files (hs_port s)"
  shows "entries_out (hs_port s') ad v st es loc loc"
proof -
  obtain out ys xs st0 m where parts: "ad_entries ad = out @ e # es" "v2_accepts K C v (hs_port s) st0 xs m"
      "st = chain_state xs m (ev_head v) st0" "leaf_chain K C (hs_port s) (ev_namespace v) prev (ys @ xs)"
      "map pe_entry (chain_entries ys) = out" "pred_option (native_location_ok K) prev"
    using out unfolding entries_out_def by blast
  have kept: "leaves_kept (hs_port s) (hs_port s')"
    using op_keepsD [OF keeps_publish_entries pub] by (simp add: grows_def grown_def)
  have "state_inv K st" using v2_accepts_inv [OF parts(2)] parts(3) by simp
  moreover have "st_head st = ad_expected ad" using parts(3) seen by (simp add: extends_seen_def)
  ultimately have "list_all publishable (ad_entries ad)"
    using admissible_publishable seen by (simp add: extends_seen_def room_for_def)
  then have e: "list_all publishable [e]" using parts(1) by simp
  have "envelope_ok K v" using seen decode_envelope_accepts [OF symbol_law] by (auto simp: extends_seen_def)
  then have "text_fits (ns_text (ev_namespace v))" by (simp add: envelope_ok_def)
  from publish_entries_Ok [OF pub e refs names this parts(6,4)] obtain zs where
    zs: "loc \<noteq> None" "pred_option (native_location_ok K) loc"
      "leaf_chain K C (hs_port s') (ev_namespace v) loc (zs @ ys @ xs)" "map pe_entry (chain_entries zs) = [e]"
    by auto
  have "map pe_entry (chain_entries (zs @ ys)) = out @ [e]" using zs(4) parts(5) by simp
  moreover have "leaf_chain K C (hs_port s') (ev_namespace v) loc ((zs @ ys) @ xs)" using zs(3) by simp
  ultimately show ?thesis
    unfolding entries_out_def using parts(1,3) v2_accepts_mono [OF parts(2) kept] zs(1,2)
    by (intro exI [of _ "out @ [e]"] exI [of _ "zs @ ys"] exI [of _ xs] exI [of _ st0] exI [of _ m]) simp
qed

lemma entries_swap:
  assumes seen: "extends_seen p ad observed v st" and out: "entries_out p ad v st [] prev lst"
  shows "swaps p ad observed
    (encode_envelope K (v\<lparr>ev_head := Some (head_of (last (ad_entries ad))), ev_head_location := lst\<rparr>))
    (head_of (last (ad_entries ad)))"
proof -
  obtain ys xs st0 m where parts: "v2_accepts K C v p st0 xs m"
      "st = chain_state xs m (ev_head v) st0" "leaf_chain K C p (ev_namespace v) prev (ys @ xs)"
      "map pe_entry (chain_entries ys) = ad_entries ad" "pred_option (native_location_ok K) prev"
      "ad_entries ad \<noteq> [] \<longrightarrow> lst = prev \<and> prev \<noteq> None"
    using out by (auto simp: entries_out_def)
  have adm: "admissible K st ad" "room_for K C st ad" and s: "\<not> is_v1 observed" "decode_envelope K observed = Ok v"
      "ev_fence v = ad_fence ad" "ev_head v = ad_expected ad" "read_v2 K C v p = Ok st"
    using seen by (simp_all add: extends_seen_def)
  have "ad_entries ad \<noteq> []" using adm by (simp add: admissible_def)
  then obtain l where l: "prev = Some l" "lst = Some l" "native_location_ok K l" using parts(5,6) by auto
  have ok: "envelope_ok K v" by (rule decode_envelope_accepts [OF symbol_law s(2)])
  let ?v = "v\<lparr>ev_head := Some (head_of (last (ad_entries ad))), ev_head_location := Some l\<rparr>"
  from ready_reads [OF parts(1,2) ok s(4) adm parts(3)[unfolded l(1)] parts(4) l(3) refl]
  obtain st' where st': "envelope_ok K ?v" "read_v2 K C ?v p = Ok st'" "contained st st'"
      "admitted ad st st' (head_of (last (ad_entries ad))) CommittedActionInvoked" by blast
  have "reads_as (Some observed) p = Ok st" using reads_as_envelope [OF s(1,2)] s(5) by simp
  moreover have "fence_of K (Some observed) = ad_fence ad" using s(1-3) by (simp add: fence_of_def)
  moreover have "fence_of K (Some (encode_envelope K ?v)) = ad_fence ad" using fence_of_encoded [OF st'(1)] s(3) by simp
  ultimately show ?thesis
    using st' reads_as_encoded [OF st'(1)] unfolding swaps_def l(2) by auto
qed

lemma prepare_turn_phase:
  assumes call: "prepare_turn K C g ad ph s = (s', Ok (Inl ph'))" and inv: "host_inv K C files (hs_port s)"
    and adm: "admissible K (host_view K C (hs_port s)) ad" and room: "ph = Entered \<longrightarrow> host_room K C (hs_port s) ad"
    and ok: "phase_ok (hs_port s) ad ph"
  shows "phase_ok (hs_port s') ad ph'"
proof -
  have kept: "leaves_kept (hs_port s) (hs_port s')"
    using op_keepsD [OF keeps_prepare_turn call] by (simp add: grows_def grown_def)
  note ok' = phase_kept [OF ok kept]
  show ?thesis
  proof (cases ph rule: phase_cases)
    case entered
    then have "enter_admission K C g ad s = (s', Ok ph')" using call by (auto simp: op_Ok)
    from enter_Ok [OF this inv adm] room entered show ?thesis by simp
  next
    case (redelivering observed v)
    then show ?thesis using call ok by (auto simp: op_Ok list_all_iff)
  next
    case (confirming observed v)
    then show ?thesis using call by (auto simp: op_Ok)
  next
    case (object_left observed v ob obs refs)
    obtain refs' where pub: "publish_objects K C [ob] refs s = (s', Ok refs')" and ph': "ph' = PublishingObjects observed v obs refs'"
      using call object_left by (auto simp: op_Ok simp del: publish_objects.simps)
    have "refs_ok (hs_port s') refs'" using publish_objects_Ok [OF pub] ok object_left by simp
    then show ?thesis using ok' object_left ph' by auto
  next
    case (objects_out observed v refs)
    then have "ph' = PublishingEntries observed v refs (ad_entries ad) (ev_head_location v) None" using call by (auto simp: op_Ok)
    then show ?thesis using ok' objects_out entries_start by auto
  next
    case (entry_left observed v refs e es prev lst)
    obtain loc where pub: "publish_entries K C (ev_namespace v) refs [e] prev lst s = (s', Ok loc)"
      and ph': "ph' = PublishingEntries observed v refs es loc loc"
      using call entry_left by (auto simp: op_Ok simp del: publish_entries.simps)
    obtain st where st: "extends_seen (hs_port s) ad observed v st" "entries_out (hs_port s) ad v st (e # es) prev lst"
      and refs: "refs_ok (hs_port s) refs"
      using ok entry_left by auto
    have "entries_out (hs_port s') ad v st es loc loc"
      using entries_turn [OF pub st refs] inv by (simp add: host_inv_def)
    then show ?thesis using extends_kept [OF st(1) kept] refs_kept [OF refs kept] ph' by auto
  next
    case (entries_out observed v refs prev lst)
    have "ph' = Committing observed
        (encode_envelope K (v\<lparr>ev_head := Some (head_of (last (ad_entries ad))), ev_head_location := lst\<rparr>))
        (head_of (last (ad_entries ad)))"
      using call entries_out by (auto simp: op_Ok Let_def)
    then show ?thesis using ok' entries_out entries_swap by auto
  next
    case (committing observed replacement h)
    then show ?thesis using call ok' by (auto simp: op_Ok)
  qed
qed

lemma prepare_turn_answer:
  assumes call: "prepare_turn K C g ad ph s = (s', Ok (Inr x))" and ok: "phase_ok (hs_port s) ad ph"
    and inv: "host_inv K C files (hs_port s)"
  shows "host_fence K C (hs_port s) = ad_fence ad \<and> ga_disposition x = AlreadyCommittedActionNotInvoked \<and>
    admitted ad (host_view K C (hs_port s)) (host_view K C (hs_port s)) (ga_head x) AlreadyCommittedActionNotInvoked"
proof -
  obtain observed v z where ph: "ph = Confirming observed v"
    and cas: "host_cas C state_path (Some observed) (Some observed) s = (s', Ok z)" and z: "hx_exchanged z"
    and x: "ev_head v = Some (ga_head x)" "ga_disposition x = AlreadyCommittedActionNotInvoked"
    using call by (cases ph rule: phase_cases)
      (auto simp: op_Ok ok_or_Ok Let_def simp del: publish_objects.simps publish_entries.simps)
  have current: "files (hs_port s) state_path = Some observed" using cas_Ok(2) [OF cas] z by simp
  obtain st where st: "\<not> is_v1 observed" "decode_envelope K observed = Ok v" "ev_fence v = ad_fence ad"
      "read_v2 K C v (hs_port s) = Ok st" "\<forall>e\<in>set (ad_entries ad). bget (st_entries st) (en_sequence e) = Some e"
    using ok ph by auto
  have view: "host_view K C (hs_port s) = st"
    using read_of_envelope [OF current st(1,2)] st(4) by (simp add: host_view_def)
  have "st_head st = Some (ga_head x)" using st(4) x(1) by (auto simp: read_v2_Ok)
  moreover have "set (ad_entries ad) \<subseteq> set (bvalues (st_entries st))"
    using st(5) by (force simp: bvalues_def dest: bget_Some_mem)
  moreover have "host_fence K C (hs_port s) = ad_fence ad"
    using current st(1-3) by (simp add: host_fence_def state_bytes_eq fence_of_def)
  ultimately show ?thesis using x(2) view by simp
qed

section \<open>An exchange of the state file\<close>

text \<open>What changes between two states of the port: leaves stay, and the state file with what it reads as.\<close>

definition moves :: "'p \<Rightarrow> 'p \<Rightarrow> bool" where
  "moves p q \<longleftrightarrow> leaves_kept p q \<and> host_inv K C files q \<and> contained (host_view K C p) (host_view K C q)"

definition stays :: "'p \<Rightarrow> 'p \<Rightarrow> bool" where
  "stays p q \<longleftrightarrow> leaves_kept p q \<and> host_inv K C files q \<and> host_view K C q = host_view K C p \<and>
     files q state_path = files p state_path"

lemma stays_moves: "stays p q \<Longrightarrow> moves p q"
  by (simp add: stays_def moves_def)

lemma grown_stays: "host_inv K C files p \<Longrightarrow> grown p q \<Longrightarrow> stays p q"
  using grown_inv by (simp add: stays_def grown_def)

lemma host_fence_eq: "host_fence K C p = fence_of K (files p state_path)"
  by (simp add: host_fence_def state_bytes_eq)

lemma stays_fence: "stays p q \<Longrightarrow> host_fence K C q = host_fence K C p"
  by (simp add: stays_def host_fence_eq)

lemma view_reads_as: "host_inv K C files p \<Longrightarrow> reads_as (files p state_path) p = Ok st \<Longrightarrow> host_view K C p = st"
  using host_inv_read [of K C files p] by (simp add: reads_as_file)

lemma exchange_moves:
  assumes inv: "host_inv K C files p" and upd: "files q = file_update (files p) state_path (Some new)"
    and new: "reads_as (Some new) p = Ok st'"
  shows "leaves_kept p q" "host_inv K C files q" "host_view K C q = st'" "host_fence K C q = fence_of K (Some new)"
proof -
  show kept: "leaves_kept p q" by (rule update_kept [OF upd])
  have f: "files q state_path = Some new" using upd by (simp add: file_update_def)
  have "host_read_state K C q = Ok st'" using reads_as_kept [OF kept new] by (simp add: reads_as_file f)
  then show "host_inv K C files q" "host_view K C q = st'"
    using update_names [OF upd] inv by (simp_all add: host_inv_def host_view_def)
  show "host_fence K C q = fence_of K (Some new)" by (simp add: host_fence_eq f)
qed

end

context host_admission
begin

section \<open>The exchange that moves the head\<close>

lemma commit_miss:
  assumes call: "commit_prepared C ad act observed replacement (s, w) = ((s', w'), rc)"
    and other: "files (hs_port s) state_path \<noteq> Some observed"
  shows "files (hs_port s') = files (hs_port s) \<and> w' = w \<and> (\<forall>ex err. rc = Ok (ex, err) \<longrightarrow> \<not> ex)"
proof (cases act)
  case None
  obtain p r where c: "hp_compare_exchange P state_path (Some observed) (Some replacement) never_cancel (hs_port s) = (p, r)"
    "host_cas C state_path (Some observed) (Some replacement) s = (s\<lparr>hs_port := p\<rparr>, map_err port_error r)" by (rule cas_call)
  have s': "s' = s\<lparr>hs_port := p\<rparr>" "w' = w"
    and rc: "rc = res_bind (map_err port_error r) (\<lambda>result.
      res_bind (if hx_exchanged result then trip_admission C AfterCas ad else Ok ()) (\<lambda>_. Ok (hx_exchanged result, None)))"
    using call c(2) None by (auto simp: commit_prepared_def)
  have "files p = files (hs_port s)" using cas_files [OF c(1)] other by blast
  moreover have "\<not> hx_exchanged x" if "r = Ok x" for x using exchange_Ok [OF c(1) [unfolded that]] other by simp
  ultimately show ?thesis using s' rc by (cases r) auto
next
  case (Some f)
  obtain p called err r where c: "hp_compare_exchange_then P state_path (Some observed) (Some replacement) never_cancel
      (continuation C ad f) (hs_port s, (w, False, None)) = ((p, (w', called, err)), r)"
    and s': "s' = s\<lparr>hs_port := p\<rparr>"
    and rc: "rc = res_bind (map_err port_error r) (\<lambda>result.
      if hx_exchanged result \<and> \<not> called then Err (WriteRefused ''guarded commit acknowledgement is incomplete'')
      else Ok (hx_exchanged result, err))"
    using call Some by (auto simp: commit_prepared_def port split: prod.splits)
  show ?thesis
  proof (cases r)
    case (Ok x)
    from guarded_Ok [OF c [unfolded Ok]] other show ?thesis using s' rc Ok by simp
  next
    case (Err e)
    have "\<not> is_ok r" using Err by simp
    from guarded_fail [OF c this] other show ?thesis using s' rc Err by auto
  next
    case (Panic m)
    have "\<not> is_ok r" using Panic by simp
    from guarded_fail [OF c this] show ?thesis using Panic by simp
  qed
qed

lemma commit_turn_spec:
  assumes call: "commit_turn C ad act observed replacement h (s, w) = ((s', w'), r)"
    and inv: "host_inv K C files (hs_port s)" and swap: "swaps (hs_port s) ad observed replacement h"
  shows "moves (hs_port s) (hs_port s') \<and>
    admit_post ad act (host_view K C (hs_port s)) w (host_view K C (hs_port s')) w' r \<and>
    host_fence K C (hs_port s') = host_fence K C (hs_port s) \<and>
    (is_ok r \<or> host_view K C (hs_port s') \<noteq> host_view K C (hs_port s) \<longrightarrow> host_fence K C (hs_port s) = ad_fence ad)"
proof -
  obtain s2 w2 rc where commit: "commit_prepared C ad act observed replacement (s, w) = ((s2, w2), rc)" by (metis surj_pair)
  have s': "s' = s2" "w' = w2"
    and r: "r = res_bind rc (\<lambda>(ex, err). if \<not> ex then Err WrongHead else
       case err of Some e \<Rightarrow> Err e | None \<Rightarrow> res_bind (trip_admission C BeforeAcknowledgement ad)
         (\<lambda>_. Ok \<lparr>ga_head = h, ga_disposition = CommittedActionInvoked\<rparr>))"
    using call commit
    by (auto simp: commit_turn_def op_bind_def op_simps split: res.splits option.splits prod.splits if_splits)
  have same: "stays (hs_port s) (hs_port s')" if "files (hs_port s2) = files (hs_port s)"
    using grown_stays [OF inv grown_same [OF that]] s'(1) by simp
  show ?thesis
  proof (cases "files (hs_port s) state_path = Some observed")
    case False
    note miss = commit_miss [OF commit False]
    have st: "stays (hs_port s) (hs_port s')" using same miss by blast
    have "\<forall>y. rc = Ok y \<longrightarrow> \<not> fst y" using miss by auto
    then have "\<not> is_ok r" unfolding r by (cases rc) (simp_all add: split_def)
    then show ?thesis
      using stays_moves [OF st] stays_fence [OF st] st miss s'(2) by (cases r) (simp_all add: admit_post_def stays_def)
  next
    case True
    obtain st st' where sw: "reads_as (Some observed) (hs_port s) = Ok st" "reads_as (Some replacement) (hs_port s) = Ok st'"
        "contained st st'" "admitted ad st st' h CommittedActionInvoked"
        "fence_of K (Some observed) = ad_fence ad" "fence_of K (Some replacement) = ad_fence ad"
      using swap by (auto simp: swaps_def)
    have view: "host_view K C (hs_port s) = st" using view_reads_as [OF inv] sw(1) True by simp
    have fence: "host_fence K C (hs_port s) = ad_fence ad" using True sw(5) by (simp add: host_fence_eq)
    have moved: "moves (hs_port s) (hs_port s') \<and> host_view K C (hs_port s') = st' \<and> host_fence K C (hs_port s') = ad_fence ad"
      if "exchanged (hs_port s) (hs_port s2) replacement"
      using exchange_moves [OF inv that [unfolded exchanged_def] sw(2)] sw(3,6) view s'(1) by (simp add: moves_def)
    note outcome = commit_any [OF commit True]
    have failed: ?thesis
      if "\<not> is_ok r" and "(files (hs_port s2) = files (hs_port s) \<and> w2 = w) \<or>
        (exchanged (hs_port s) (hs_port s2) replacement \<and> (w2 = w \<or> w2 = run_action act w))"
      using that(2)
    proof
      assume a: "files (hs_port s2) = files (hs_port s) \<and> w2 = w"
      then have st: "stays (hs_port s) (hs_port s')" using same by blast
      have "admit_post ad act st w st w' r" using a s'(2) admit_post_same [OF that(1)] by simp
      then show ?thesis using stays_moves [OF st] stays_fence [OF st] st view by (simp add: stays_def fence)
    next
      assume a: "exchanged (hs_port s) (hs_port s2) replacement \<and> (w2 = w \<or> w2 = run_action act w)"
      have "appended ad st st'" using sw(4) by (auto simp: appended_def simp del: admitted.simps)
      then have "admit_post ad act st w st' w' r" using a s'(2) sw(3) that(1) by (cases r) (simp_all add: admit_post_def)
      then show ?thesis using moved a view fence by simp
    qed
    show ?thesis
    proof (cases rc)
      case (Ok y)
      obtain ex err where y: "y = (ex, err)" by (cases y)
      then have ex: "ex" "exchanged (hs_port s) (hs_port s2) replacement" "w2 = (if err = None then run_action act w else w)"
        using outcome Ok by simp_all
      note m = moved [OF ex(2)]
      have "admit_post ad act st w st' w' r"
        using r Ok y ex s'(2) sw(3,4)
        by (cases err; cases "trip_admission C BeforeAcknowledgement ad") (auto simp: admit_post_def appended_def)
      then show ?thesis using m view fence by simp
    next
      case (Err e)
      then show ?thesis using failed outcome r by simp
    next
      case (Panic m)
      then show ?thesis using failed outcome r by simp
    qed
  qed
qed

text \<open>Any turn of an admission.\<close>

definition turn_post where
  "turn_post ad act p w q w' r \<longleftrightarrow> moves p q \<and> host_fence K C q = host_fence K C p \<and>
     (case finished r of
        None \<Rightarrow> host_view K C q = host_view K C p \<and> w' = w
      | Some a \<Rightarrow> report_ok (AdmitReport ad act (host_fence K C p) (host_view K C p) w (host_view K C q) w' a))"

lemma admit_turn_early:
  "\<nexists>observed replacement h. ph = Committing observed replacement h \<Longrightarrow>
     admit_turn K C ad act ph = on_host (prepare_turn K C (act \<noteq> None) ad ph)"
  by (cases ph) (simp_all only: admit_turn_def admit_phase.case, blast)

lemma admit_turn_spec:
  assumes call: "admit_turn K C ad act ph (s, w) = ((s', w'), r)" and inv: "host_inv K C files (hs_port s)"
    and adm: "admissible K (host_view K C (hs_port s)) ad" and room: "ph = Entered \<longrightarrow> host_room K C (hs_port s) ad"
    and ok: "phase_ok (hs_port s) ad ph"
  shows "turn_post ad act (hs_port s) w (hs_port s') w' r \<and> (\<forall>ph'. r = Ok (Inl ph') \<longrightarrow> phase_ok (hs_port s') ad ph')"
proof (cases "\<exists>observed replacement h. ph = Committing observed replacement h")
  case True
  then obtain observed replacement h where ph: "ph = Committing observed replacement h" by blast
  obtain t x a where c: "commit_turn C ad act observed replacement h (s, w) = ((t, x), a)" by (metis surj_pair)
  have r: "s' = t" "w' = x" and ra: "r = (case a of Ok g \<Rightarrow> Ok (Inr g) | Err e \<Rightarrow> Err e | Panic m \<Rightarrow> Panic m)"
    using call c by (auto simp: ph admit_turn_simps op_bind_def op_simps split: res.splits)
  have fin: "finished r = Some a" "\<And>ph'. r \<noteq> Ok (Inl ph')" unfolding ra by (cases a, simp_all)+
  from commit_turn_spec [OF c inv] ok show ?thesis by (simp add: turn_post_def ph r fin)
next
  case False
  obtain t a where c: "prepare_turn K C (act \<noteq> None) ad ph s = (t, a)" by (metis surj_pair)
  have r: "s' = t" "w' = w" "r = a"
    using call c admit_turn_early [of ph ad act] False by (auto simp: on_host_def)
  have st: "stays (hs_port s) (hs_port t)"
    using grown_stays [OF inv] op_keepsD [OF keeps_prepare_turn c] by (simp add: grows_def)
  have "turn_post ad act (hs_port s) w (hs_port s') w' r"
  proof (cases a)
    case (Ok x)
    show ?thesis
    proof (cases x)
      case (Inl ph')
      then show ?thesis using st stays_moves [OF st] stays_fence [OF st] r Ok by (simp add: turn_post_def stays_def)
    next
      case (Inr g)
      note ans = prepare_turn_answer [OF c [unfolded Ok Inr] ok inv]
      then show ?thesis using st stays_moves [OF st] stays_fence [OF st] r Ok Inr
        by (simp add: turn_post_def stays_def admit_post_def)
    qed
  qed (use st stays_moves [OF st] stays_fence [OF st] r in \<open>simp_all add: turn_post_def stays_def admit_post_def\<close>)
  moreover have "phase_ok (hs_port s') ad ph'" if "r = Ok (Inl ph')" for ph'
    using prepare_turn_phase [OF _ inv adm room ok] c that r by simp
  ultimately show ?thesis by blast
qed

section \<open>The turns of a lease\<close>

lemma keeps_install_reserve: "op_keeps grows (reserve_namespace K C seed)"
  unfolding reserve_namespace_def by (rule keeps_reserve)

definition lease_swaps :: "'p \<Rightarrow> u8 list option \<Rightarrow> u8 list \<Rightarrow> u64 \<Rightarrow> bool" where
  "lease_swaps p observed new fence \<longleftrightarrow>
     (\<exists>st. reads_as observed p = Ok st \<and> reads_as (Some new) p = Ok st) \<and>
     fence_of K observed < fence \<and> fence_of K (Some new) = fence"

fun lease_phase_ok :: "'p \<Rightarrow> lease_phase \<Rightarrow> bool" where
  "lease_phase_ok p LeaseEntered \<longleftrightarrow> True"
| "lease_phase_ok p LeaseLooking \<longleftrightarrow> True"
| "lease_phase_ok p (LeaseDescribing observed) \<longleftrightarrow>
     (\<forall>b. observed = Some b \<longrightarrow> is_v1 b) \<and> (\<exists>st. reads_as observed p = Ok st \<and> state_inv K st)"
| "lease_phase_ok p (LeaseReserving observed fence pfx head) \<longleftrightarrow>
     fence_of K observed < fence \<and>
     (\<exists>st. reads_as observed p = Ok st \<and> state_inv K st \<and>
        (case pfx of Some pr \<Rightarrow> read_prefix K C pr p = Ok st | None \<Rightarrow> st = empty_state) \<and>
        head = st_head st \<and> pred_option (native_prefix_ok K) pfx)"
| "lease_phase_ok p (LeaseSwapping observed new fence installing) \<longleftrightarrow> lease_swaps p observed new fence"

lemma described_kept:
  "(case pfx of Some pr \<Rightarrow> read_prefix K C pr p = Ok st | None \<Rightarrow> st = empty_state) \<Longrightarrow> leaves_kept p q \<Longrightarrow>
     (case pfx of Some pr \<Rightarrow> read_prefix K C pr q = Ok st | None \<Rightarrow> st = empty_state)"
  by (cases pfx) (simp_all add: ok_leD [OF read_prefix_mono])

lemma lease_phase_kept:
  assumes "lease_phase_ok p ph" and kept: "leaves_kept p q"
  shows "lease_phase_ok q ph"
proof (cases ph)
  case (LeaseReserving observed fence pfx head)
  then obtain st where "reads_as observed p = Ok st" "state_inv K st" "fence_of K observed < fence"
      "case pfx of Some pr \<Rightarrow> read_prefix K C pr p = Ok st | None \<Rightarrow> st = empty_state"
      "head = st_head st" "pred_option (native_prefix_ok K) pfx"
    using assms(1) by auto
  then show ?thesis using reads_as_kept [OF kept] described_kept [OF _ kept] LeaseReserving by auto
qed (use assms reads_as_kept in \<open>auto simp: lease_swaps_def\<close>)

lemma checked_add_less: "checked_add_u64 f 1 = Some g \<Longrightarrow> f < g"
  by (auto simp: checked_add_u64_def word_less_nat_alt unat_word_ariths split: if_splits)

lemma install_prefix_fence:
  "install_prefix K C observed s = (s', Ok (old, pfx, head)) \<Longrightarrow> \<forall>b. observed = Some b \<longrightarrow> is_v1 b \<Longrightarrow> old = fence_of K observed"
  by (cases observed) (auto simp: install_prefix_def op_Ok fence_of_def Let_def split: option.splits)

lemma lease_looking_Ok:
  assumes call: "lease_turn K C LeaseLooking s = (s', Ok (Inl ph))" and inv: "host_inv K C files (hs_port s)"
  shows "lease_phase_ok (hs_port s') ph"
proof -
  have reads: "reads_as (files (hs_port s) state_path) (hs_port s) = Ok (host_view K C (hs_port s))"
    using host_inv_read [OF inv] by (simp add: reads_as_file)
  have sinv: "state_inv K (host_view K C (hs_port s))" by (rule view_state_inv [OF inv])
  show ?thesis
  proof (cases "\<exists>b. files (hs_port s) state_path = Some b \<and> \<not> is_v1 b")
    case False
    then have "ph = LeaseDescribing (files (hs_port s) state_path)" "s' = s"
      using call by (auto simp: op_Ok state_bytes_eq split: option.splits if_splits)
    then show ?thesis using False reads sinv by auto
  next
    case True
    then obtain b where b: "files (hs_port s) state_path = Some b" "\<not> is_v1 b" by blast
    obtain v st fence where v: "decode_envelope K b = Ok v" "read_v2 K C v (hs_port s) = Ok st"
        "checked_add_u64 (ev_fence v) 1 = Some fence" and s': "s' = s"
      and ph: "ph = LeaseSwapping (Some b) (encode_envelope K (v\<lparr>ev_fence := fence\<rparr>)) fence False"
      using call b by (auto simp: op_Ok state_bytes_eq ok_or_Ok)
    have ok: "envelope_ok K (v\<lparr>ev_fence := fence\<rparr>)"
      using decode_envelope_accepts [OF symbol_law v(1)] by (simp add: envelope_ok_def)
    have "reads_as (Some b) (hs_port s) = Ok st" using reads_as_envelope [OF b(2) v(1)] v(2) by simp
    moreover have "reads_as (Some (encode_envelope K (v\<lparr>ev_fence := fence\<rparr>))) (hs_port s) = Ok st"
      using reads_as_encoded [OF ok] v(2) by (simp add: read_v2_fence)
    moreover have "fence_of K (Some b) < fence" using b(2) v(1) checked_add_less [OF v(3)] by (simp add: fence_of_def)
    ultimately show ?thesis using fence_of_encoded [OF ok] ph s' by (auto simp: lease_swaps_def)
  qed
qed

lemma lease_describing_Ok:
  assumes call: "lease_turn K C (LeaseDescribing observed) s = (s', Ok (Inl ph))" and ok: "lease_phase_ok (hs_port s) (LeaseDescribing observed)"
  shows "lease_phase_ok (hs_port s') ph"
proof -
  obtain old pfx head fence where px: "install_prefix K C observed s = (s', Ok (old, pfx, head))"
    and fence: "checked_add_u64 old 1 = Some fence" and ph: "ph = LeaseReserving observed fence pfx head"
    using call by (auto simp: op_Ok ok_or_Ok)
  obtain st where st: "\<forall>b. observed = Some b \<longrightarrow> is_v1 b" "reads_as observed (hs_port s) = Ok st" "state_inv K st"
    using ok by auto
  have kept: "leaves_kept (hs_port s) (hs_port s')"
    using op_keepsD [OF keeps_install_prefix px] by (simp add: grows_def grown_def)
  show ?thesis
    using install_prefix_Ok [OF px st(2,1)] reads_as_kept [OF kept st(2)] st(3)
      install_prefix_fence [OF px st(1)] checked_add_less [OF fence] ph by auto
qed

lemma lease_reserving_Ok:
  assumes call: "lease_turn K C (LeaseReserving observed fence pfx head) s = (s', Ok (Inl ph))"
    and ok: "lease_phase_ok (hs_port s) (LeaseReserving observed fence pfx head)"
  shows "lease_phase_ok (hs_port s') ph"
proof -
  obtain ns where res: "reserve_attempts K C (case observed of Some b \<Rightarrow> b | None \<Rightarrow> []) 128 s = (s', Ok ns)"
    and ph: "ph = LeaseSwapping observed (encode_envelope K \<lparr>ev_format = V2, ev_fence = fence, ev_namespace = ns,
       ev_prefix = pfx, ev_head = head, ev_head_location = None\<rparr>) fence True"
    using call by (auto simp: op_Ok Let_def reserve_namespace_def)
  let ?v = "\<lparr>ev_format = V2, ev_fence = fence, ev_namespace = ns, ev_prefix = pfx, ev_head = head, ev_head_location = None\<rparr>"
  obtain st where st: "reads_as observed (hs_port s) = Ok st" "state_inv K st"
      "(case pfx of Some pr \<Rightarrow> read_prefix K C pr (hs_port s) = Ok st | None \<Rightarrow> st = empty_state) \<and>
        head = st_head st \<and> pred_option (native_prefix_ok K) pfx"
    using ok by auto
  have kept: "leaves_kept (hs_port s) (hs_port s')"
    using op_keepsD [OF keeps_reserve res] by (simp add: grows_def grown_def)
  note env = install_envelope [OF st(2,3) reserve_Ok [OF res] kept, of ?v, OF refl]
  show ?thesis
    using reads_as_kept [OF kept st(1)] reads_as_encoded [OF env(1)] env(2) fence_of_encoded [OF env(1)] ok ph
    by (auto simp: lease_swaps_def)
qed

text \<open>The exchange: it changes the fence and no entry, or another holder was there first.\<close>

definition lease_post :: "'p \<Rightarrow> 'p \<Rightarrow> (journal_error, lease_phase + lease) res \<Rightarrow> bool" where
  "lease_post p q r \<longleftrightarrow> moves p q \<and> host_view K C q = host_view K C p \<and> host_fence K C p \<le> host_fence K C q \<and>
     (\<forall>l. r = Ok (Inr l) \<longrightarrow> host_fence K C p < lease_fence l \<and> host_fence K C q = lease_fence l) \<and>
     (\<forall>ph. r = Ok (Inl ph) \<longrightarrow> lease_phase_ok q ph)"

lemma stays_lease:
  "stays p q \<Longrightarrow> (\<And>l. r \<noteq> Ok (Inr l)) \<Longrightarrow> (\<And>ph. r = Ok (Inl ph) \<Longrightarrow> lease_phase_ok q ph) \<Longrightarrow> lease_post p q r"
  using stays_moves [of p q] stays_fence [of p q] by (simp add: lease_post_def) (simp add: stays_def)

lemma lease_swap_spec:
  assumes call: "lease_turn K C (LeaseSwapping observed new fence installing) s = (s', r)"
    and inv: "host_inv K C files (hs_port s)" and swap: "lease_swaps (hs_port s) observed new fence"
  shows "lease_post (hs_port s) (hs_port s') r"
proof -
  obtain p x where c: "hp_compare_exchange P state_path observed (Some new) never_cancel (hs_port s) = (p, x)"
    "host_cas C state_path observed (Some new) s = (s\<lparr>hs_port := p\<rparr>, map_err port_error x)" by (rule cas_call)
  have s': "hs_port s' = p"
    using call c(2) by (auto simp: op_bind_def op_simps split: res.splits if_splits)
  obtain st where st: "reads_as observed (hs_port s) = Ok st" "reads_as (Some new) (hs_port s) = Ok st"
      "fence_of K observed < fence" "fence_of K (Some new) = fence"
    using swap by (auto simp: lease_swaps_def)
  have r: "r = res_bind (map_err port_error x) (\<lambda>result. if \<not> hx_exchanged result then Ok (Inl LeaseLooking)
      else res_bind (if installing then trip C AfterFormatCas else Ok ()) (\<lambda>_. Ok (Inr \<lparr>lease_fence = fence\<rparr>)))"
    using call c(2) by (cases x) (auto simp: op_bind_def op_simps split: res.splits if_splits)
  from cas_files [OF c(1)] show ?thesis
  proof
    assume same: "files p = files (hs_port s)"
    show ?thesis
    proof (cases "files (hs_port s) state_path = observed \<and> is_ok x")
      case False
      have "stays (hs_port s) (hs_port s')" using grown_stays [OF inv grown_same [OF same]] s' by simp
      moreover have "\<not> hx_exchanged z" if "x = Ok z" for z
        using exchange_Ok [OF c(1) [unfolded that]] False that by simp
      then have "r \<noteq> Ok (Inr l)" "r = Ok (Inl ph) \<Longrightarrow> ph = LeaseLooking" for l ph
        unfolding r by (cases x; simp)+
      ultimately show ?thesis by (intro stays_lease) auto
    next
      case True
      then obtain z where z: "x = Ok z" by (auto simp: is_ok_iff)
      have "files p = file_update (files (hs_port s)) state_path (Some new)"
        using exchange_Ok [OF c(1) [unfolded z]] True by simp
      then have "observed = Some new" using same True by (simp add: file_update_def fun_eq_iff) metis
      then show ?thesis using st(3,4) by simp
    qed
  next
    assume "files (hs_port s) state_path = observed \<and> files p = file_update (files (hs_port s)) state_path (Some new)"
    then have b: "files (hs_port s) state_path = observed" and u: "files p = file_update (files (hs_port s)) state_path (Some new)"
      by simp_all
    have view: "host_view K C (hs_port s) = st" using view_reads_as [OF inv] st(1) b by simp
    have fence: "host_fence K C (hs_port s) < fence" using st(3) b by (simp add: host_fence_eq)
    have "hx_exchanged z" if "x = Ok z" for z using exchange_Ok [OF c(1) [unfolded that]] b by simp
    then have "r \<noteq> Ok (Inl ph)" "r = Ok (Inr l) \<Longrightarrow> lease_fence l = fence" for l ph
      unfolding r by (cases x; cases "trip C AfterFormatCas"; auto split: if_splits)+
    then show ?thesis
      using exchange_moves [OF inv u st(2)] st(4) view fence s' by (auto simp: lease_post_def moves_def)
  qed
qed

lemma lease_turn_spec:
  assumes call: "lease_turn K C ph s = (s', r)" and inv: "host_inv K C files (hs_port s)"
    and ok: "lease_phase_ok (hs_port s) ph"
  shows "lease_post (hs_port s) (hs_port s') r"
proof -
  have quiet: ?thesis if "op_keeps grows (lease_turn K C ph)" and "\<And>l. r \<noteq> Ok (Inr l)"
      and "\<And>ph'. r = Ok (Inl ph') \<Longrightarrow> lease_phase_ok (hs_port s') ph'"
    using stays_lease [OF grown_stays [OF inv] that(2,3)] op_keepsD [OF that(1) call] by (simp add: grows_def)
  show ?thesis
  proof (cases ph)
    case LeaseEntered
    show ?thesis
    proof (rule quiet)
      show "op_keeps grows (lease_turn K C ph)"
        unfolding LeaseEntered lease_turn.simps by (intro grows_intros keeps_layout)
    qed (use call LeaseEntered in \<open>auto simp: op_Ok\<close>)
  next
    case LeaseLooking
    show ?thesis
    proof (rule quiet)
      show "op_keeps grows (lease_turn K C ph)"
        unfolding LeaseLooking lease_turn.simps by (intro grows_intros)
      show "lease_phase_ok (hs_port s') ph'" if "r = Ok (Inl ph')" for ph'
        using lease_looking_Ok [OF _ inv] call that LeaseLooking by simp
    qed (use call LeaseLooking in \<open>auto simp: op_Ok split: option.splits if_splits\<close>)
  next
    case (LeaseDescribing observed)
    show ?thesis
    proof (rule quiet)
      show "op_keeps grows (lease_turn K C ph)"
        unfolding LeaseDescribing lease_turn.simps by (intro grows_intros keeps_install_prefix)
      show "lease_phase_ok (hs_port s') ph'" if "r = Ok (Inl ph')" for ph'
        using lease_describing_Ok call ok that LeaseDescribing by simp
    qed (use call LeaseDescribing in \<open>auto simp: op_Ok\<close>)
  next
    case (LeaseReserving observed fence pfx head)
    show ?thesis
    proof (rule quiet)
      show "op_keeps grows (lease_turn K C ph)"
        unfolding LeaseReserving lease_turn.simps Let_def by (intro grows_intros keeps_install_reserve)
      show "lease_phase_ok (hs_port s') ph'" if "r = Ok (Inl ph')" for ph'
        using lease_reserving_Ok call ok that LeaseReserving by simp
    qed (use call LeaseReserving in \<open>auto simp: op_Ok Let_def\<close>)
  next
    case (LeaseSwapping observed new fence installing)
    show ?thesis using lease_swap_spec [OF call [unfolded LeaseSwapping] inv] ok LeaseSwapping by simp
  qed
qed

section \<open>The race\<close>

fun call_ok :: "'p \<Rightarrow> 'w holder_call \<Rightarrow> bool" where
  "call_ok p (Admitting ad act ph) \<longleftrightarrow> admissible K (host_view K C p) ad \<and> phase_ok p ad ph"
| "call_ok p (Leasing ph) \<longleftrightarrow> lease_phase_ok p ph"

definition race_ok :: "journal_entry list \<Rightarrow> ('p, 'w) race \<Rightarrow> bool" where
  "race_ok es c \<longleftrightarrow> host_inv K C files (hs_port (rc_state c)) \<and>
     (\<forall>ad\<in>set (rc_verified c). admissible K (host_view K C (hs_port (rc_state c))) ad) \<and>
     (\<forall>x\<in>set (rc_calls c). call_ok (hs_port (rc_state c)) x) \<and>
     (\<forall>rp\<in>set (rc_reports c). report_ok rp) \<and>
     bvalues (st_entries (host_view K C (hs_port (rc_state c)))) = es @ committed (rc_reports c) \<and>
     sorted_wrt (>) (granted (rc_reports c)) \<and>
     (\<forall>f\<in>set (granted (rc_reports c)). f \<le> host_fence K C (hs_port (rc_state c)))"

lemma call_moves: "call_ok p x \<Longrightarrow> moves p q \<Longrightarrow> call_ok q x"
  using phase_kept lease_phase_kept admissible_mono by (cases x) (auto simp: moves_def)

lemma report_grows:
  assumes "report_ok (AdmitReport ad act f st w st' w' a)" and "ad_entries ad \<noteq> []"
  shows "bvalues (st_entries st') = bvalues (st_entries st) @ report_batch (AdmitReport ad act f st w st' w' a)"
proof (cases a)
  case (Ok g)
  then show ?thesis using assms by (cases "ga_disposition g") (auto simp: admit_post_def)
next
  case (Err e)
  then show ?thesis using assms by (auto simp: admit_post_def appended_def)
next
  case (Panic m)
  then show ?thesis using assms by (auto simp: admit_post_def appended_def)
qed

text \<open>One turn of an admission, with what it reports.\<close>

lemma turn_log:
  assumes "turn_post ad act p w q w' r" and "ad_entries ad \<noteq> []"
  defines "rs \<equiv> reports_of (AdmitReport ad act (host_fence K C p) (host_view K C p) w (host_view K C q) w') r"
  shows "(\<forall>rp\<in>set rs. report_ok rp) \<and> granted rs = [] \<and>
    bvalues (st_entries (host_view K C q)) = bvalues (st_entries (host_view K C p)) @ committed rs"
proof (cases "finished r")
  case None
  then show ?thesis using assms(1) by (simp add: rs_def reports_of_def turn_post_def)
next
  case (Some a)
  let ?rp = "AdmitReport ad act (host_fence K C p) (host_view K C p) w (host_view K C q) w' a"
  have ok: "report_ok ?rp" using assms(1) Some by (simp add: turn_post_def)
  have rs: "rs = [?rp]" using Some by (simp add: rs_def reports_of_def)
  show ?thesis using report_grows [OF ok assms(2)] ok unfolding rs by simp
qed

lemma lease_log:
  assumes "lease_post p q r"
    and rs_def: "rs = reports_of (LeaseReport (host_fence K C p) (host_view K C p) (host_fence K C q) (host_view K C q)) r"
  shows "(\<forall>rp\<in>set rs. report_ok rp) \<and> committed rs = [] \<and>
    sorted_wrt (>) (granted rs) \<and>
    (\<forall>f\<in>set (granted rs). host_fence K C p < f \<and> f = host_fence K C q)"
proof (cases "finished r")
  case None
  then show ?thesis by (simp add: rs_def reports_of_def)
next
  case (Some a)
  have rs: "rs = [LeaseReport (host_fence K C p) (host_view K C p) (host_fence K C q) (host_view K C q) a]"
    using Some by (simp add: rs_def reports_of_def)
  have "host_fence K C p < lease_fence l \<and> host_fence K C q = lease_fence l" if "a = Ok l" for l
    using assms(1) Some that by (cases r rule: finished.cases) (auto simp: lease_post_def)
  then show ?thesis using assms(1) unfolding rs by (cases a) (simp_all add: lease_post_def)
qed

lemma unfinished_mem: "x \<in> set (unfinished f r) \<longleftrightarrow> (\<exists>ph. r = Ok (Inl ph) \<and> x = f ph)"
  by (cases "(f, r)" rule: unfinished.cases) auto

lemma race_keeps:
  assumes "race_step K C c c'" and ok: "race_ok es c"
  shows "race_ok es c'"
proof -
  let ?p = "hs_port (rc_state c)"
  have inv: "host_inv K C files ?p" using ok by (simp add: race_ok_def)
  have ne: "admissible K st ad \<Longrightarrow> ad_entries ad \<noteq> []" for st ad by (simp add: admissible_def)
  have verified: "\<forall>ad\<in>set (rc_verified c). admissible K (host_view K C q) ad" if "moves ?p q" for q
    using ok that admissible_mono by (auto simp: race_ok_def moves_def)
  have called: "\<forall>x\<in>set (rc_calls c). call_ok q x" if "moves ?p q" for q
    using ok that call_moves by (auto simp: race_ok_def)
  show ?thesis
    using assms(1)
  proof cases
    case (race_verify l expected objects entries ad)
    have "be_read_state (host_journal K C 1 (rc_world c)) (rc_state c) = Ok (host_view K C ?p)"
      using host_inv_read [OF inv] by (simp add: host_journal_def)
    from verified_admission_admissible [OF race_verify(2) this content_law race_verify(3)]
    show ?thesis using ok race_verify(1) by (simp add: race_ok_def)
  next
    case (race_admit ad act)
    then show ?thesis using ok by (simp add: race_ok_def)
  next
    case race_lease
    then show ?thesis using ok by (simp add: race_ok_def)
  next
    case (race_put ob s' rp)
    have st: "stays ?p (hs_port s')"
      using grown_stays [OF inv] op_keepsD [OF keeps_put_datum race_put(2)] by (simp add: grows_def)
    show ?thesis
      using ok verified [OF stays_moves [OF st]] called [OF stays_moves [OF st]] stays_fence [OF st] st race_put(1)
      by (simp add: race_ok_def stays_def)
  next
    case (race_admit_turn xs ad act ph ys s' w' r)
    have this_call: "admissible K (host_view K C ?p) ad" "phase_ok ?p ad ph"
      using ok race_admit_turn(2) by (simp_all add: race_ok_def)
    note turn = admit_turn_spec [OF race_admit_turn(4) inv this_call(1) race_admit_turn(3) this_call(2)]
    have m: "moves ?p (hs_port s')" and f: "host_fence K C (hs_port s') = host_fence K C ?p"
      using turn by (simp_all add: turn_post_def)
    have "call_ok (hs_port s') x" if "x \<in> set (unfinished (Admitting ad act) r)" for x
      using that turn admissible_mono [OF this_call(1)] m by (auto simp: unfinished_mem moves_def)
    then have calls: "\<forall>x\<in>set (xs @ unfinished (Admitting ad act) r @ ys). call_ok (hs_port s') x"
      using called [OF m] race_admit_turn(2) by auto
    define rs where "rs = reports_of (AdmitReport ad act (host_fence K C ?p) (host_view K C ?p) (rc_world c)
        (host_view K C (hs_port s')) w') r"
    note log = turn_log [OF conjunct1 [OF turn] ne [OF this_call(1)], folded rs_def]
    have fences: "granted rs = []" using log by simp
    have "bvalues (st_entries (host_view K C (hs_port s'))) = es @ committed (rs @ rc_reports c)"
      using log ok by (simp add: race_ok_def)
    moreover have "\<forall>rp\<in>set (rs @ rc_reports c). report_ok rp" using log ok by (auto simp: race_ok_def)
    ultimately show ?thesis
      using ok verified [OF m] calls m f
      unfolding race_admit_turn(1) race_ok_def rs_def [symmetric] by (simp add: moves_def fences)
  next
    case (race_lease_turn xs ph ys s' r)
    have this_call: "lease_phase_ok ?p ph" using ok race_lease_turn(2) by (simp add: race_ok_def)
    note turn = lease_turn_spec [OF race_lease_turn(3) inv this_call]
    have m: "moves ?p (hs_port s')" and view: "host_view K C (hs_port s') = host_view K C ?p"
      and f: "host_fence K C ?p \<le> host_fence K C (hs_port s')"
      using turn by (simp_all add: lease_post_def)
    have "call_ok (hs_port s') x" if "x \<in> set (unfinished Leasing r)" for x
      using that turn by (auto simp: unfinished_mem lease_post_def)
    then have calls: "\<forall>x\<in>set (xs @ unfinished Leasing r @ ys). call_ok (hs_port s') x"
      using called [OF m] race_lease_turn(2) by auto
    define rs :: "'w report list" where "rs = reports_of (LeaseReport (host_fence K C ?p) (host_view K C ?p) (host_fence K C (hs_port s'))
        (host_view K C (hs_port s'))) r"
    note log = lease_log [OF turn rs_def]
    have old: "\<forall>g\<in>set (granted (rc_reports c)). g \<le> host_fence K C ?p"
      and sorted: "sorted_wrt (>) (granted (rc_reports c))"
      using ok by (simp_all add: race_ok_def)
    have "sorted_wrt (>) (granted (rs @ rc_reports c))"
      unfolding granted_simps sorted_wrt_append using log sorted old by fastforce
    moreover have "\<forall>g\<in>set (granted (rs @ rc_reports c)). g \<le> host_fence K C (hs_port s')"
      unfolding granted_simps set_append using log old f by fastforce
    ultimately show ?thesis
      using ok verified [OF m] calls log m view
      unfolding race_lease_turn(1) race_ok_def rs_def [symmetric] by (simp add: moves_def ball_Un)
  next
    case (race_crash xs x ys)
    then show ?thesis using ok by (simp add: race_ok_def)
  qed
qed

lemma race_reaches:
  assumes "(race_step K C)\<^sup>*\<^sup>* (race_start s w) c" and "host_inv K C files (hs_port s)"
  shows "race_ok (bvalues (st_entries (host_view K C (hs_port s)))) c"
  using assms(1)
proof (induction rule: rtranclp_induct)
  case base
  then show ?case using assms(2) by (simp add: race_ok_def race_start_def)
next
  case (step c c')
  show ?case by (rule race_keeps [OF step.hyps(2) step.IH])
qed

end

section \<open>The loop with nobody else\<close>

text \<open>\<open>calm m s\<close>: the operation ends in a value or an error.\<close>

definition calm :: "('s, 'e, 'a) op \<Rightarrow> 's \<Rightarrow> bool" where
  "calm m s \<longleftrightarrow> \<not> is_panic (snd (m s))"

lemma calm_bind: "calm m s \<Longrightarrow> (\<And>t x. m s = (t, Ok x) \<Longrightarrow> calm (f x) t) \<Longrightarrow> calm (op_bind m f) s"
  by (auto simp: calm_def op_bind_def split: prod.split res.split)

lemma calm_pure [simp]:
  "calm (op_return x) s" "calm (op_fail e) s" "calm (op_res r) s \<longleftrightarrow> \<not> is_panic r" "calm (op_read f) s \<longleftrightarrow> \<not> is_panic (f s)"
  by (simp_all add: calm_def op_simps)

lemma calm_each: "(\<And>x t. calm (f x) t) \<Longrightarrow> calm (op_each f xs) s"
  by (induction xs arbitrary: s) (auto intro: calm_bind)

lemma ok_or_calm [simp]: "\<not> is_panic (ok_or m e)"
  by (cases m) simp_all

lemma trip_calm [simp]: "\<not> is_panic (trip C point)" "\<not> is_panic (write_capable C)"
  by (simp_all add: trip_def write_capable_def)

context journal_on_port
begin

lemma calm_dir: "calm (host_dir C path) s"
proof -
  obtain p' r where call: "hp_create_dir P path (hs_port s) = (p', r)" by (metis surj_pair)
  from create_dir [OF call] show ?thesis
    by (cases r) (simp_all add: calm_def host_dir_def on_port_def port call)
qed

lemma calm_cas: "calm (host_cas C path expected replacement) s"
proof -
  obtain p' r where c: "hp_compare_exchange P path expected replacement never_cancel (hs_port s) = (p', r)"
    "host_cas C path expected replacement s = (s\<lparr>hs_port := p'\<rparr>, map_err port_error r)" by (rule cas_call)
  from exchange_fail [OF c(1)] show ?thesis by (cases r) (simp_all add: calm_def c(2))
qed

lemma calm_layout: "calm (ensure_layout C) s"
  unfolding ensure_layout_def by (intro calm_each calm_dir)

lemma calm_put: "calm (put_immutable C path b) s"
  unfolding put_immutable_def by (intro calm_bind calm_cas) simp

lemma calm_nonce: "calm next_nonce s"
  by (simp add: calm_def next_nonce_def)

lemma calm_reserve: "calm (reserve_attempts K C seed n) s"
proof (induction n arbitrary: s)
  case (Suc n)
  show ?case
    unfolding reserve_attempts.simps Let_def
    by (intro calm_bind calm_nonce calm_dir calm_cas) (auto intro: calm_bind calm_dir Suc.IH)
qed simp

lemma calm_prefix:
  assumes reads: "reads_as observed (hs_port s) = Ok st" and v1: "\<forall>b. observed = Some b \<longrightarrow> is_v1 b"
  shows "calm (install_prefix K C observed) s"
proof (cases observed)
  case None
  then show ?thesis by (simp add: install_prefix_def)
next
  case (Some bytes)
  obtain f h where dec: "decode_v1_state K bytes = Ok (f, h)" using reads Some v1 by (auto simp: reads_as_def res_bind_Ok)
  show ?thesis
  proof (cases h)
    case None
    then show ?thesis using dec by (simp add: install_prefix_def Some calm_def op_bind_def op_simps)
  next
    case h: (Some ph)
    obtain st' ch where "read_v1 K C bytes (hs_port s) = Ok (st', ch)"
      using reads Some v1 dec h by (auto simp: reads_as_def res_bind_Ok)
    then show ?thesis
      unfolding install_prefix_def Some option.case Let_def
      by (intro calm_bind) (auto simp: dec h op_simps split_def intro!: calm_bind calm_put)
  qed
qed

lemma calm_install:
  assumes "reads_as observed (hs_port s) = Ok st" and "\<forall>b. observed = Some b \<longrightarrow> is_v1 b"
  shows "calm (install_v2 K C observed) s"
  unfolding install_v2_def Let_def split_def reserve_namespace_def
  by (intro calm_bind calm_prefix [OF assms]) (auto intro!: calm_bind calm_reserve calm_cas)

lemma calm_round:
  assumes inv: "host_inv K C files (hs_port s)"
  shows "calm (acquire_round K C) s"
proof -
  have reads: "reads_as (files (hs_port s) state_path) (hs_port s) = Ok (host_view K C (hs_port s))"
    using host_inv_read [OF inv] by (simp add: reads_as_file)
  have look: "acquire_round K C s = (case files (hs_port s) state_path of
       None \<Rightarrow> install_v2 K C None
     | Some bytes \<Rightarrow>
         if is_v1 bytes then install_v2 K C (Some bytes)
         else
           op_bind (op_res (decode_envelope K bytes)) (\<lambda>envelope.
           op_bind (op_read (\<lambda>s. read_v2 K C envelope (hs_port s))) (\<lambda>_.
           op_bind (op_res (ok_or (checked_add_u64 (ev_fence envelope) 1) (Backend ''fence exhausted''))) (\<lambda>fence.
           op_bind (host_cas C state_path (Some bytes) (Some (encode_envelope K (envelope\<lparr>ev_fence := fence\<rparr>)))) (\<lambda>result.
           op_return (if hx_exchanged result then Some \<lparr>lease_fence = fence\<rparr> else None)))))) s"
    unfolding acquire_round_def op_bind_def [of "op_read (\<lambda>s. state_bytes C (hs_port s))"] by (simp add: op_simps state_bytes_eq)
  show ?thesis
  proof (cases "files (hs_port s) state_path")
    case None
    then show ?thesis using calm_install [of None s] reads look by (simp add: calm_def)
  next
    case (Some b)
    show ?thesis
    proof (cases "is_v1 b")
      case True
      then show ?thesis using calm_install [of "Some b" s] reads look Some by (simp add: calm_def)
    next
      case False
      obtain v where v: "decode_envelope K b = Ok v" "read_v2 K C v (hs_port s) = Ok (host_view K C (hs_port s))"
        using reads Some False by (auto simp: reads_as_def res_bind_Ok)
      have "calm (op_bind (op_res (decode_envelope K b)) (\<lambda>envelope.
           op_bind (op_read (\<lambda>s. read_v2 K C envelope (hs_port s))) (\<lambda>_.
           op_bind (op_res (ok_or (checked_add_u64 (ev_fence envelope) 1) (Backend ''fence exhausted''))) (\<lambda>fence.
           op_bind (host_cas C state_path (Some b) (Some (encode_envelope K (envelope\<lparr>ev_fence := fence\<rparr>)))) (\<lambda>result.
           op_return (if hx_exchanged result then Some \<lparr>lease_fence = fence\<rparr> else None)))))) s"
        by (intro calm_bind) (auto simp: v op_simps intro!: calm_bind calm_cas)
      then show ?thesis using look Some False by (simp add: calm_def)
    qed
  qed
qed

end

context host_admission
begin

text \<open>A round that grants a lease raises the fence.\<close>

lemma round_turns_fence:
  "run_turns (round_turn K C) n ph s = (s', Ok (Some l)) \<Longrightarrow> host_inv K C files (hs_port s) \<Longrightarrow> lease_phase_ok (hs_port s) ph \<Longrightarrow>
     host_fence K C (hs_port s) < lease_fence l \<and> host_fence K C (hs_port s') = lease_fence l"
proof (induction n arbitrary: ph s)
  case (Suc n)
  obtain t x where turn: "lease_turn K C ph s = (t, Ok x)"
    and rest: "(case x of Inl ph' \<Rightarrow> if ph' = LeaseLooking then op_return None else run_turns (round_turn K C) n ph'
      | Inr l \<Rightarrow> op_return (Some l)) t = (s', Ok (Some l))"
    using Suc.prems(1) unfolding round_run op_Ok by blast
  note spec = lease_turn_spec [OF turn Suc.prems(2,3)]
  show ?case
  proof (cases x)
    case (Inl ph')
    then have "run_turns (round_turn K C) n ph' t = (s', Ok (Some l))" using rest by (auto simp: op_simps split: if_splits)
    from Suc.IH [OF this] spec Inl show ?thesis by (auto simp: lease_post_def moves_def)
  next
    case (Inr l')
    then show ?thesis using rest spec by (auto simp: op_simps lease_post_def)
  qed
qed (simp add: op_simps)

lemma lease_alone:
  assumes call: "host_acquire_lease K C (Suc n) s = (s', r)" and inv: "host_inv K C files (hs_port s)"
  shows "case r of
      Ok l \<Rightarrow> host_fence K C (hs_port s) < lease_fence l \<and> host_fence K C (hs_port s') = lease_fence l
    | Err e \<Rightarrow> True
    | Panic m \<Rightarrow> False"
proof -
  obtain t rt where layout: "ensure_layout C s = (t, rt)" by (metis surj_pair)
  have st: "stays (hs_port s) (hs_port t)"
    using grown_stays [OF inv] op_keepsD [OF keeps_layout layout] by (simp add: grows_def)
  then have invt: "host_inv K C files (hs_port t)" by (simp add: stays_def)
  obtain u x where round: "acquire_round K C t = (u, x)" by (metis surj_pair)
  have calm: "\<not> is_panic x" "\<not> is_panic rt" using calm_round [OF invt] calm_layout [of s] round layout by (simp_all add: calm_def)
  show ?thesis
  proof (cases "write_capable C = Ok () \<and> rt = Ok ()")
    case False
    then show ?thesis using call layout calm(2) trip_calm(2) [of C] by (cases "write_capable C"; cases rt) (auto simp: host_acquire_lease_def op_bind_def op_simps)
  next
    case True
    then have "acquire_rounds K C (Suc n) t = (s', r)" using call layout by (simp add: host_acquire_lease_def op_bind_def op_simps)
    then have run: "op_bind (acquire_round K C) (\<lambda>l. case l of Some l \<Rightarrow> op_return l | None \<Rightarrow> acquire_rounds K C n) t = (s', r)" by simp
    show ?thesis
    proof (cases x)
      case (Ok y)
      obtain l where l: "y = Some l" using round_Ok [OF round [unfolded Ok] invt] by blast
      have r: "r = Ok l" "s' = u" using run round Ok l by (simp_all add: op_bind_def op_simps)
      have "run_turns (round_turn K C) 4 LeaseLooking t = (u, Ok (Some l))" using round Ok l lease_turns_round by metis
      from round_turns_fence [OF this invt] show ?thesis using r stays_fence [OF st] by simp
    next
      case (Err e)
      then show ?thesis using run round by (auto simp: op_bind_def)
    next
      case (Panic m)
      then show ?thesis using calm by simp
    qed
  qed
qed

end

end
