(* ===== verification/Journal_Host_Safety.thy ===== *)
theory Journal_Host_Safety
  imports Journal_Host_Race Journal_Memory
begin

text \<open>
  The properties of the durable backend: what any accepted read guarantees, that an admission takes the
  log from one verified history to its extension or leaves it alone wherever it stops, and that leases
  fence. The port is any port that keeps the contract of \<open>Host_Port\<close>; the in-memory adapter is one.
\<close>

section \<open>Bounds of a read\<close>

lemma read_prefix_bound: "read_prefix K C pr p = Ok st \<Longrightarrow> length (st_entries st) \<le> hb_work_bound C"
  by (auto simp: read_prefix_def res_simps split: if_splits dest: read_v1_inv(5))

lemma read_v2_bound:
  assumes "read_v2 K C v p = Ok st"
  shows "length (st_entries st) \<le> hb_work_bound C"
proof -
  obtain st0 xs m where a: "v2_accepts K C v p st0 xs m" and st: "st = chain_state xs m (ev_head v) st0"
    using assms by (auto simp: read_v2_Ok)
  have base: "v2_base K C v p = Ok st0" using a by (simp add: v2_accepts_def)
  then have "length (st_entries st0) \<le> hb_work_bound C"
    using read_prefix_bound by (auto simp: v2_base_def empty_state_def split: option.splits)
  moreover have "bsorted (st_entries st0)" using v2_base_inv [OF base] unfolding read_shape_def by blast
  with entry_map_length [of "chain_entries xs" "st_entries st0" m]
  have "length m = length (st_entries st0) + length xs" using a by (simp add: v2_accepts_def chain_entries_def)
  moreover have "xs = [] \<or> length (st_entries st0) + length xs \<le> hb_work_bound C" using a by (simp add: v2_accepts_def)
  ultimately show ?thesis using st by auto
qed

lemma host_read_cases:
  assumes "host_read_state K C p = Ok st"
  obtains "st = empty_state" | bytes h where "read_v1 K C bytes p = Ok (st, h)" | v where "read_v2 K C v p = Ok st"
  using assms by (auto simp: host_read_state_def res_bind_Ok split: option.splits if_splits)

lemma host_read_bound: "host_read_state K C p = Ok st \<Longrightarrow> length (st_entries st) \<le> hb_work_bound C"
  by (erule host_read_cases) (auto simp: empty_state_def dest: read_v1_inv(5) read_v2_bound)

section \<open>Reopening\<close>

text \<open>A read looks at the port and the work bound only, so a reopened backend reads the same.\<close>

definition same_reader :: "('p, 'w) host_backend \<Rightarrow> ('p, 'w) host_backend \<Rightarrow> bool" where
  "same_reader C D \<longleftrightarrow> hb_port D = hb_port C \<and> hb_work_bound D = hb_work_bound C"

lemma same_reader_load:
  assumes "same_reader C D"
  shows "host_load D = host_load C" "state_bytes D = state_bytes C"
  using assms by (intro ext, simp add: same_reader_def host_load_def, intro ext, simp add: same_reader_def state_bytes_def)

lemma same_reader_parts:
  assumes "same_reader C D"
  shows "v1_payload K D = v1_payload K C" "load_object_ref K D = load_object_ref K C"
  by (intro ext, unfold v1_payload_def same_reader_load [OF assms], rule refl)
    (intro ext, unfold load_object_ref_def same_reader_load [OF assms], rule refl)

lemma same_reader_steps:
  assumes "same_reader C D"
  shows "v1_step K D = v1_step K C" "v2_payload K D = v2_payload K C"
  by (intro ext, unfold v1_step_def same_reader_load [OF assms] same_reader_parts [OF assms], rule refl)
    (intro ext, unfold v2_payload_def same_reader_parts [OF assms], rule refl)

lemma same_reader_v1:
  assumes "same_reader C D"
  shows "read_v1 K D = read_v1 K C"
proof -
  have "hb_work_bound D = hb_work_bound C" using assms by (simp add: same_reader_def)
  then show ?thesis by (intro ext) (unfold read_v1_def same_reader_steps [OF assms], simp only:)
qed

lemma same_reader_prefix:
  assumes "same_reader C D"
  shows "read_prefix K D = read_prefix K C" "v2_leaf K D = v2_leaf K C"
  by (intro ext, unfold read_prefix_def same_reader_load [OF assms] same_reader_v1 [OF assms], rule refl)
    (intro ext, unfold v2_leaf_def same_reader_load [OF assms] same_reader_steps [OF assms], rule refl)

lemma same_reader_walk:
  "same_reader C D \<Longrightarrow> v2_walk K D p ns n loc seen sfx st = v2_walk K C p ns n loc seen sfx st"
proof (induction K C p ns n loc seen sfx st rule: v2_walk.induct)
  case (2 K C p ns n l seen sfx st)
  have "hb_work_bound D = hb_work_bound C" using "2.prems" by (simp add: same_reader_def)
  then show ?case using "2.IH" [OF _ _ _ _ "2.prems"] same_reader_prefix(2) [OF "2.prems"]
    by (cases "v2_leaf K C p l st") auto
qed simp

lemma same_reader_read:
  assumes "same_reader C D"
  shows "host_read_state K D = host_read_state K C"
proof -
  have "v2_walk K D = v2_walk K C" using same_reader_walk [OF assms] by (intro ext)
  then have "read_v2 K D = read_v2 K C"
    by (intro ext) (unfold read_v2_def same_reader_load [OF assms] same_reader_prefix [OF assms], simp only:)
  then show ?thesis
    by (intro ext) (unfold host_read_state_def same_reader_load [OF assms] same_reader_v1 [OF assms], simp only:)
qed

lemma host_open_reads:
  assumes "host_read_state K C p = Ok st" and "hb_work_bound C \<noteq> 0"
  obtains D where "host_open K (hb_port C) caps (hb_work_bound C) pid clock p = Ok D" "host_read_state K D p = Ok st"
proof -
  let ?D = "\<lparr>hb_port = hb_port C, hb_capabilities = caps, hb_work_bound = hb_work_bound C, hb_fail = None,
     hb_admission_fail = None, hb_pid = pid, hb_clock = clock\<rparr>"
  have "host_read_state K ?D p = Ok st"
    using same_reader_read [of C ?D K] assms(1) by (simp add: same_reader_def)
  with assms(2) show thesis by (intro that [of ?D]) (simp_all add: host_open_def Let_def)
qed

section \<open>The in-memory adapter\<close>

lemma sample_native_law: "kernel_native_law sample_kernel"
proof -
  have "native_symbol_ok sample_kernel (sym_qualified ''core'' ''sample'')"
    by (rule native_symbol_okI [OF sample_kernel_laws(3)]) (simp_all add: text_fits_def qualified_str_def str_ok_ascii)
  then show ?thesis
    by (auto simp: kernel_native_law_def native_cid_ok_def sample_kernel_def sample_digest_def)
qed

interpretation memory_port: host_admission "test_port_ops guarded" tp_file_map sample_kernel "C\<lparr>hb_port := test_port_ops guarded\<rparr>"
  for guarded C
  by unfold_locales
    (simp_all add: sample_kernel_laws sample_kernel_order_law sample_native_law)

definition sample_host :: "(test_port, nat \<times> bool \<times> journal_error option) host_backend" where
  "sample_host = \<lparr>hb_port = test_port_ops True, hb_capabilities = \<lparr>bc_linearizable_cas = True, bc_durable_publish = True\<rparr>,
     hb_work_bound = 10, hb_fail = None, hb_admission_fail = None, hb_pid = 7, hb_clock = (\<lambda>_. Some 1)\<rparr>"

lemma sample_host_fields: "hb_port sample_host = test_port_ops True" "hb_work_bound sample_host = 10"
  by (simp_all add: sample_host_def)

lemma sample_host_admission: "host_admission (hb_port sample_host) tp_file_map sample_kernel sample_host"
proof -
  have eq: "sample_host\<lparr>hb_port := test_port_ops True\<rparr> = sample_host" by (simp add: sample_host_def)
  show ?thesis
    using memory_port.host_admission_axioms [where guarded = True and C = sample_host]
    unfolding eq sample_host_fields(1) .
qed

definition sample_host_state :: "test_port host_state" where
  "sample_host_state = \<lparr>hs_port = test_port_empty, hs_nonce = 0\<rparr>"

lemma sample_host_empty:
  "host_read_state sample_kernel sample_host test_port_empty = Ok empty_state"
  "names_ok sample_kernel tp_file_map test_port_empty"
  by (simp_all add: host_read_state_def state_bytes_def sample_host_def test_port_ops_def tp_read_def test_port_empty_def
      host_error_new_def names_ok_def tp_file_map_def)

lemma sample_host_inv:
  "host_inv sample_kernel sample_host tp_file_map (hs_port sample_host_state)"
  "host_view sample_kernel sample_host (hs_port sample_host_state) = empty_state"
  using sample_host_empty by (simp_all add: host_inv_def host_view_def sample_host_state_def)

text \<open>Taking a lease on the empty port succeeds.\<close>

lemma reserve_first:
  "reserve_attempts K C seed 128 =
     op_bind next_nonce (\<lambda>nonce.
     op_bind (op_res (ok_or (hb_clock C nonce) (Backend ''system time before epoch''))) (\<lambda>now.
     let namespace = EntryNamespace (namespace_token K C seed now nonce); root = namespace_root namespace in
     op_bind (host_dir C root) (\<lambda>_.
     op_bind (host_cas C (root @ [''format'']) None (Some (as_bytes ''SIMJNAMESPACE2''))) (\<lambda>result.
     if hx_exchanged result then op_bind (host_dir C (root @ [''entries''])) (\<lambda>_. op_return namespace)
     else reserve_attempts K C seed 127))))"
  using reserve_attempts.simps(2) [of K C seed 127] by (simp only: Suc_numeral) simp

lemma sample_dir:
  "host_dir sample_host path s = (s\<lparr>hs_port := (hs_port s)\<lparr>tp_dirs := sinsert path (tp_dirs (hs_port s))\<rparr>\<rparr>, Ok ())"
  by (simp add: host_dir_def on_port_def sample_host_def test_port_ops_def tp_create_dir_def)

lemma sample_cas_new:
  "bget (tp_files (hs_port s)) path = None \<Longrightarrow> host_cas sample_host path None (Some b) s =
     (s\<lparr>hs_port := (hs_port s)\<lparr>tp_files := binsert path b (tp_files (hs_port s))\<rparr>\<rparr>, Ok \<lparr>hx_exchanged = True, hx_observed = None\<rparr>)"
  by (simp add: host_cas_def on_port_def sample_host_def test_port_ops_def tp_exchange_def)

lemma sample_state_absent: "state_bytes sample_host p = Ok None" if "bget (tp_files p) state_path = None"
  using that by (simp add: state_bytes_def sample_host_def test_port_ops_def tp_read_def host_error_new_def)

lemma sample_hooks: "trip sample_host point = Ok ()" "write_capable sample_host = Ok ()" "hb_clock sample_host n = Some 1"
  by (simp_all add: trip_def write_capable_def sample_host_def)

lemma sample_host_lease:
  "\<exists>s'. host_acquire_lease sample_kernel sample_host (Suc 0) sample_host_state = (s', Ok \<lparr>lease_fence = 1\<rparr>)"
  by (simp add: host_acquire_lease_def op_bind_def op_simps sample_hooks ensure_layout_def sample_dir sample_host_state_def
      test_port_empty_def acquire_round_def sample_state_absent install_v2_def install_prefix_def checked_add_u64_def
      reserve_namespace_def reserve_first next_nonce_def Let_def sample_cas_new state_path_def namespace_root_def bget_def)

text \<open>After a lease has been taken.\<close>

definition sample_leased :: "test_port host_state" where
  "sample_leased = fst (host_acquire_lease sample_kernel sample_host 1 sample_host_state)"

lemma sample_leased_inv:
  "host_inv sample_kernel sample_host tp_file_map (hs_port sample_leased)"
  "host_view sample_kernel sample_host (hs_port sample_leased) = empty_state"
proof -
  obtain r where call: "host_acquire_lease sample_kernel sample_host 1 sample_host_state = (sample_leased, r)"
    unfolding sample_leased_def by (metis prod.collapse)
  have "journal_on_port (hb_port sample_host) tp_file_map sample_kernel sample_host"
    by (rule host_admission.axioms [OF sample_host_admission])
  from journal_on_port.acquire_keeps [OF this call sample_host_inv(1)] sample_host_inv(2)
  show "host_inv sample_kernel sample_host tp_file_map (hs_port sample_leased)"
    "host_view sample_kernel sample_host (hs_port sample_leased) = empty_state" by simp_all
qed

lemma sample_admissible: "admissible sample_kernel empty_state sample_admission"
  by (simp add: admissible_def sample_admission_def next_sequence_def sample_entry_fields sample_entry_id)

lemma sample_room: "host_room sample_kernel sample_host (hs_port sample_leased) sample_admission"
proof -
  obtain datum where datum: "encode sample_kernel (canonical_datum sample_entry) = Ok datum" "length datum < 2 ^ 32"
    by (simp add: encode_def sample_kernel_def canonical_datum_def sample_entry_def Let_def put_symbol_def
        put_bytes_def put_len_def sort_fields_def symbol_key_def u64_to_string_def nat_to_string.simps)
  moreover have "datum_ok sample_kernel (canonical_datum sample_entry)"
    using sample_physical_ok by (simp add: physical_ok_def sample_physical_def)
  ultimately have "entry_fits sample_kernel sample_entry"
    by (simp add: entry_fits_def sample_entry_fields usize_bound_def)
  then show ?thesis
    by (simp add: host_room_def sample_leased_inv sequences_left_def empty_state_def sample_admission_def sample_host_fields)
qed

section \<open>A sample admission, turn by turn\<close>

definition leased_namespace :: entry_namespace where
  "leased_namespace = EntryNamespace (namespace_token sample_kernel sample_host [] 1 0)"

definition leased_envelope :: native_envelope where
  "leased_envelope = \<lparr>ev_format = V2, ev_fence = 1, ev_namespace = leased_namespace, ev_prefix = None, ev_head = None,
     ev_head_location = None\<rparr>"

lemma sample_leased_files:
  "tp_files (hs_port sample_leased) =
     binsert state_path (encode_envelope sample_kernel leased_envelope)
       (binsert (namespace_root leased_namespace @ [''format'']) (as_bytes ''SIMJNAMESPACE2'') [])"
  by (simp add: sample_leased_def host_acquire_lease_def op_bind_def op_simps sample_hooks ensure_layout_def sample_dir sample_host_state_def
      test_port_empty_def acquire_round_def sample_state_absent install_v2_def install_prefix_def checked_add_u64_def
      reserve_namespace_def reserve_first next_nonce_def Let_def sample_cas_new state_path_def namespace_root_def bget_def
      leased_envelope_def leased_namespace_def)

lemma leased_envelope_ok: "envelope_ok sample_kernel leased_envelope"
proof -
  have "text_fits (ns_text leased_namespace)"
    using journal_on_port.hex_text_fits [OF host_admission.axioms [OF sample_host_admission]] sample_kernel_laws
    by (simp add: leased_namespace_def namespace_token_def kernel_digest_law_def)
  then show ?thesis by (simp add: envelope_ok_def leased_envelope_def)
qed

definition sample_leaf :: "physical_entry" where
  "sample_leaf = \<lparr>pe_entry = sample_entry, pe_previous_location = None, pe_payloads = []\<rparr>"

lemma sample_leaf_bytes: "\<exists>bytes. encode_v2_entry sample_kernel sample_leaf = Ok bytes"
proof -
  obtain datum where datum: "encode sample_kernel (canonical_datum sample_entry) = Ok datum"
    by (simp add: encode_def sample_kernel_def canonical_datum_def sample_entry_def Let_def put_symbol_def
        put_bytes_def put_len_def sort_fields_def symbol_key_def u64_to_string_def nat_to_string.simps)
  then show ?thesis by (simp add: encode_v2_entry_def sample_leaf_def)
qed

definition sample_location :: "u8 list \<Rightarrow> entry_location" where
  "sample_location bytes = \<lparr>el_namespace = leased_namespace, el_sequence = 0, el_entry = en_id sample_entry,
     el_storage = storage_id sample_kernel bytes\<rparr>"

definition sample_moved :: "u8 list \<Rightarrow> native_envelope" where
  "sample_moved bytes = leased_envelope\<lparr>ev_head := Some (head_of sample_entry), ev_head_location := Some (sample_location bytes)\<rparr>"

text \<open>The state file is the one the lease wrote, and the leaf is absent or written by another call.\<close>

definition sample_ready :: "u8 list \<Rightarrow> test_port host_state \<Rightarrow> bool" where
  "sample_ready bytes s \<longleftrightarrow>
     bget (tp_files (hs_port s)) state_path = Some (encode_envelope sample_kernel leased_envelope) \<and>
     bget (tp_files (hs_port s)) (entry_path sample_kernel (sample_location bytes)) \<in> {None, Some bytes}"

lemma sample_leased_ready: "sample_ready bytes sample_leased"
  by (simp add: sample_ready_def sample_leased_files state_path_def entry_path_def namespace_root_def bget_def)

lemma sample_cas:
  "host_cas sample_host path expected (Some b) s =
     (s\<lparr>hs_port := (hs_port s)\<lparr>tp_files := if bget (tp_files (hs_port s)) path = expected then binsert path b (tp_files (hs_port s)) else tp_files (hs_port s)\<rparr>\<rparr>,
      Ok \<lparr>hx_exchanged = (bget (tp_files (hs_port s)) path = expected), hx_observed = bget (tp_files (hs_port s)) path\<rparr>)"
  by (simp add: host_cas_def on_port_def sample_host_def test_port_ops_def tp_exchange_def Let_def)

lemma sample_state_bytes: "state_bytes sample_host p = Ok (bget (tp_files p) state_path)"
  by (cases "bget (tp_files p) state_path") (simp_all add: state_bytes_def sample_host_def test_port_ops_def tp_read_def host_error_new_def)

lemma sample_trip: "trip_admission sample_host point ad = Ok ()"
  by (simp add: trip_admission_def trip_def sample_host_def)

lemma sample_guarded: "hp_supports_guarded (hb_port sample_host)"
  by (simp add: sample_host_def test_port_ops_def)

lemma sample_write_capable: "write_capable sample_host = Ok ()"
  by (simp add: write_capable_def sample_host_def)

text \<open>The first four turns.\<close>

lemma sample_enter:
  assumes "sample_ready bytes s"
  shows "\<exists>s'. tp_files (hs_port s') = tp_files (hs_port s) \<and>
    admit_turn sample_kernel sample_host sample_admission (Some act) Entered (s, w) =
      ((s', w), Ok (Inl (PublishingObjects (encode_envelope sample_kernel leased_envelope) leased_envelope [] [])))"
proof -
  have "decode_envelope sample_kernel (encode_envelope sample_kernel leased_envelope) = Ok leased_envelope"
    by (rule envelope_back [OF leased_envelope_ok])
  moreover have "ev_fence leased_envelope = 1" "ev_head leased_envelope = None" by (simp_all add: leased_envelope_def)
  ultimately show ?thesis
    using assms
    by (simp add: admit_turn_simps on_host_def enter_admission_def op_bind_def op_simps sample_guarded sample_write_capable
      ensure_layout_def sample_dir sample_state_bytes sample_ready_def sample_trip sample_admission_def)
qed

lemma sample_objects:
  "admit_turn sample_kernel sample_host sample_admission (Some act) (PublishingObjects b v [] refs) (s, w) =
     ((s, w), Ok (Inl (PublishingEntries b v refs [sample_entry] (ev_head_location v) None)))"
  by (simp add: admit_turn_simps on_host_def op_bind_def op_simps sample_trip) (simp add: sample_admission_def)

lemma sample_entry_turn:
  assumes "sample_ready bytes s" and "encode_v2_entry sample_kernel sample_leaf = Ok bytes"
  shows "\<exists>s'. sample_ready bytes s' \<and>
    admit_turn sample_kernel sample_host sample_admission (Some act) (PublishingEntries b leased_envelope [] [sample_entry] None None) (s, w) =
      ((s', w), Ok (Inl (PublishingEntries b leased_envelope [] [] (Some (sample_location bytes)) (Some (sample_location bytes)))))"
proof -
  have l: "\<lparr>el_namespace = ev_namespace leased_envelope, el_sequence = en_sequence sample_entry, el_entry = en_id sample_entry,
      el_storage = storage_id sample_kernel bytes\<rparr> = sample_location bytes"
    by (simp add: sample_location_def leased_envelope_def sample_entry_fields)
  have "entry_path sample_kernel (sample_location bytes) \<noteq> state_path"
    by (simp add: entry_path_def state_path_def)
  then show ?thesis
    using assms(1)
    by (simp add: admit_turn_simps on_host_def op_bind_def op_simps sample_entry_fields assms(2)[unfolded sample_leaf_def] Let_def l
       [unfolded sample_entry_fields] ensure_entry_dirs_def sample_dir put_immutable_def sample_cas sample_ready_def)
qed

lemma sample_last:
  "admit_turn sample_kernel sample_host sample_admission (Some act)
      (PublishingEntries b leased_envelope [] [] loc (Some (sample_location bytes))) (s, w) =
     ((s, w), Ok (Inl (Committing b (encode_envelope sample_kernel (sample_moved bytes)) (head_of sample_entry))))"
  by (simp add: admit_turn_simps on_host_def op_bind_def op_simps sample_trip Let_def sample_moved_def) (simp add: sample_admission_def)

text \<open>The exchange, won and lost.\<close>

lemma sample_moved_other: "encode_envelope sample_kernel (sample_moved bytes) \<noteq> encode_envelope sample_kernel leased_envelope"
  by (simp add: encode_envelope_eq sample_moved_def leased_envelope_def option_bytes_def)

lemma sample_guarded_exchange:
  "hp_compare_exchange_then (hb_port sample_host) path expected (Some b) never_cancel act (p, w) =
     (if bget (tp_files p) path = expected
      then ((p\<lparr>tp_files := binsert path b (tp_files p)\<rparr>, act w), Ok \<lparr>hx_exchanged = True, hx_observed = expected\<rparr>)
      else ((p, w), Ok \<lparr>hx_exchanged = False, hx_observed = bget (tp_files p) path\<rparr>))"
  by (auto simp: sample_host_def test_port_ops_def tp_exchange_then_def tp_exchange_def Let_def)

lemma sample_won:
  assumes "bget (tp_files (hs_port s)) state_path = Some b"
  shows "admit_turn sample_kernel sample_host sample_admission (Some act) (Committing b new h) (s, w) =
    ((s\<lparr>hs_port := (hs_port s)\<lparr>tp_files := binsert state_path new (tp_files (hs_port s))\<rparr>\<rparr>, act w),
     Ok (Inr \<lparr>ga_head = h, ga_disposition = CommittedActionInvoked\<rparr>))"
  by (simp add: admit_turn_simps commit_turn_def commit_prepared_def op_bind_def op_simps sample_guarded_exchange assms continuation_def sample_trip)

lemma sample_lost:
  assumes "bget (tp_files (hs_port s)) state_path \<noteq> Some b"
  shows "admit_turn sample_kernel sample_host sample_admission (Some act) (Committing b new h) (s, w) = ((s, w), Err WrongHead)"
  by (simp add: admit_turn_simps commit_turn_def commit_prepared_def op_bind_def op_simps sample_guarded_exchange assms)

text \<open>All of them, and what the log is then.\<close>

lemma sample_admission_runs:
  "\<exists>s' st. admit_with_action sample_kernel sample_host sample_admission (Some act) (sample_leased, w) =
      ((s', act w), Ok \<lparr>ga_head = head_of sample_entry, ga_disposition = CommittedActionInvoked\<rparr>) \<and>
    host_read_state sample_kernel sample_host (hs_port s') = Ok st \<and> bvalues (st_entries st) = [sample_entry]"
proof -
  let ?b = "encode_envelope sample_kernel leased_envelope"
  obtain bytes where bytes: "encode_v2_entry sample_kernel sample_leaf = Ok bytes" using sample_leaf_bytes by blast
  obtain s1 where s1: "tp_files (hs_port s1) = tp_files (hs_port sample_leased)"
    "admit_turn sample_kernel sample_host sample_admission (Some act) Entered (sample_leased, w) =
      ((s1, w), Ok (Inl (PublishingObjects ?b leased_envelope [] [])))"
    using sample_enter [OF sample_leased_ready [of bytes]] by blast
  have "sample_ready bytes s1" using sample_leased_ready [of bytes] s1(1) by (simp add: sample_ready_def)
  from sample_entry_turn [OF this bytes] obtain s2 where s2: "sample_ready bytes s2"
    "admit_turn sample_kernel sample_host sample_admission (Some act) (PublishingEntries ?b leased_envelope [] [sample_entry] None None) (s1, w) =
      ((s2, w), Ok (Inl (PublishingEntries ?b leased_envelope [] [] (Some (sample_location bytes)) (Some (sample_location bytes)))))"
    by blast
  have state: "bget (tp_files (hs_port s2)) state_path = Some ?b" using s2(1) by (simp add: sample_ready_def)
  have n: "Suc (length (ad_objects sample_admission) + (length (ad_entries sample_admission) + 3 + 0)) = Suc (Suc (Suc (Suc (Suc 0))))"
    by (simp add: sample_admission_def)
  have none: "ev_head_location leased_envelope = None" by (simp add: leased_envelope_def)
  obtain s' where run: "admit_with_action sample_kernel sample_host sample_admission (Some act) (sample_leased, w) =
      ((s', act w), Ok \<lparr>ga_head = head_of sample_entry, ga_disposition = CommittedActionInvoked\<rparr>)"
    unfolding admit_turns_whole [of sample_kernel sample_host sample_admission "Some act" 0, symmetric] n
    by (simp add: op_bind_def s1(2) sample_objects none s2(2) sample_last sample_won [OF state] op_simps)
  have adm: "admissible sample_kernel (host_view sample_kernel sample_host (hs_port sample_leased)) sample_admission"
    by (simp add: sample_leased_inv sample_admissible)
  from host_admission.admit_spec [OF sample_host_admission run sample_leased_inv(1) adm sample_room]
  have "host_inv sample_kernel sample_host tp_file_map (hs_port s')"
    "bvalues (st_entries (host_view sample_kernel sample_host (hs_port s'))) = [sample_entry]"
    by (simp_all add: admit_post_def sample_leased_inv) (simp_all add: sample_admission_def empty_state_def bvalues_def)
  then show ?thesis using run host_inv_read [of sample_kernel sample_host tp_file_map "hs_port s'"] by blast
qed

section \<open>Properties\<close>

text \<open>C3: whatever bytes a port returns, a state that the durable backend accepts is a well-formed journal: a
  chain from sequence 0 with verified payloads and the head of its last entry, no longer than the work bound.\<close>

theorem host_read_verified:
  assumes "host_read_state K C p = Ok st"
  shows "state_inv K st \<and> verify_state K st = Ok (state_verification st) \<and> length (st_entries st) \<le> hb_work_bound C"
  using host_read_state_inv [OF assms] host_read_bound [OF assms] state_inv_verified by blast

theorem host_read_verified_witness:
  "\<exists>s' st. admit_with_action sample_kernel sample_host sample_admission (Some Suc) (sample_leased, 5) =
      ((s', 6), Ok \<lparr>ga_head = head_of sample_entry, ga_disposition = CommittedActionInvoked\<rparr>) \<and>
    host_read_state sample_kernel sample_host (hs_port s') = Ok st \<and> bvalues (st_entries st) = [sample_entry] \<and>
    state_inv sample_kernel st \<and> verify_state sample_kernel st = Ok (state_verification st) \<and> length (st_entries st) \<le> 10"
proof -
  obtain s' st where run: "admit_with_action sample_kernel sample_host sample_admission (Some Suc) (sample_leased, 5) =
      ((s', 6), Ok \<lparr>ga_head = head_of sample_entry, ga_disposition = CommittedActionInvoked\<rparr>)"
    and read: "host_read_state sample_kernel sample_host (hs_port s') = Ok st" and st: "bvalues (st_entries st) = [sample_entry]"
    using sample_admission_runs [of Suc 5] by auto
  from host_read_verified [OF read] run read st show ?thesis by (auto simp: sample_host_fields)
qed

text \<open>C1: an admission to the durable backend, plain (no continuation) or guarded, is atomic over any port that keeps
  its contract. The batch is one the journal has checked and it fits: log and batch together stay within the
  backend's work bound and the byte formats (\<open>host_room\<close>; past the work bound an admission still commits, and
  every later read fails). Whatever hook or port error stops it, reopening reads a verified state that has
  either the old history or the old history followed by the whole batch; success reports the new head and
  ran the continuation exactly once, or found the whole batch already committed and did not run it; after a
  failure the continuation has run at most once, and only if the batch is committed.\<close>

theorem host_admit_atomic:
  assumes "host_admission P files K C" and "host_inv K C files (hs_port s)"
    and "admissible K (host_view K C (hs_port s)) ad" and "host_room K C (hs_port s) ad"
    and "admit_with_action K C ad act (s, w) = ((s', w'), r)" and "hb_work_bound C \<noteq> 0"
  shows "\<exists>D st'. host_open K P caps (hb_work_bound C) pid clock (hs_port s') = Ok D \<and>
    host_read_state K D (hs_port s') = Ok st' \<and> state_inv K st' \<and> contained (host_view K C (hs_port s)) st' \<and>
    (case r of
       Ok g \<Rightarrow> admitted ad (host_view K C (hs_port s)) st' (ga_head g) (ga_disposition g) \<and>
         w' = (if ga_disposition g = CommittedActionInvoked then run_action act w else w)
     | _ \<Rightarrow> (st' = host_view K C (hs_port s) \<and> w' = w) \<or>
         (appended ad (host_view K C (hs_port s)) st' \<and> (w' = w \<or> w' = run_action act w)))"
proof -
  have P: "P = hb_port C" using host_admission.axioms [OF assms(1)] by (simp add: journal_on_port_def journal_on_port_axioms_def)
  from host_admission.admit_spec [OF assms(1,5,2,3,4)]
  have inv: "host_inv K C files (hs_port s')"
    and post: "contained (host_view K C (hs_port s)) (host_view K C (hs_port s')) \<and>
      (case r of
         Ok g \<Rightarrow> admitted ad (host_view K C (hs_port s)) (host_view K C (hs_port s')) (ga_head g) (ga_disposition g) \<and>
           w' = (if ga_disposition g = CommittedActionInvoked then run_action act w else w)
       | _ \<Rightarrow> (host_view K C (hs_port s') = host_view K C (hs_port s) \<and> w' = w) \<or>
           (appended ad (host_view K C (hs_port s)) (host_view K C (hs_port s')) \<and> (w' = w \<or> w' = run_action act w)))"
    unfolding admit_post_def by blast+
  from host_open_reads [OF host_inv_read [OF inv] assms(6)] obtain D where
    "host_open K (hb_port C) caps (hb_work_bound C) pid clock (hs_port s') = Ok D"
    "host_read_state K D (hs_port s') = Ok (host_view K C (hs_port s'))" .
  moreover have "state_inv K (host_view K C (hs_port s'))"
    by (rule host_read_state_inv [OF host_inv_read [OF inv]])
  ultimately show ?thesis using post P by blast
qed

theorem host_admit_atomic_witness:
  "\<exists>s' D st'. admit_with_action sample_kernel sample_host sample_admission (Some Suc) (sample_leased, 5) =
      ((s', 6), Ok \<lparr>ga_head = head_of sample_entry, ga_disposition = CommittedActionInvoked\<rparr>) \<and>
    host_open sample_kernel (hb_port sample_host) (hb_capabilities sample_host) 10 7 (\<lambda>_. Some 1) (hs_port s') = Ok D \<and>
    host_read_state sample_kernel D (hs_port s') = Ok st' \<and> state_inv sample_kernel st' \<and>
    bvalues (st_entries st') = [sample_entry] \<and> st_head st' = Some (head_of sample_entry)"
proof -
  obtain s' where run: "admit_with_action sample_kernel sample_host sample_admission (Some Suc) (sample_leased, 5) =
      ((s', 6), Ok \<lparr>ga_head = head_of sample_entry, ga_disposition = CommittedActionInvoked\<rparr>)"
    using sample_admission_runs [of Suc 5] by auto
  have adm: "admissible sample_kernel (host_view sample_kernel sample_host (hs_port sample_leased)) sample_admission"
    by (simp add: sample_leased_inv sample_admissible)
  have nz: "hb_work_bound sample_host \<noteq> 0" by (simp add: sample_host_fields)
  from host_admit_atomic [OF sample_host_admission sample_leased_inv(1) adm sample_room run nz,
      where caps = "hb_capabilities sample_host" and pid = 7 and clock = "\<lambda>_. Some 1",
      unfolded sample_host_fields(2) sample_leased_inv(2)]
  obtain D st' where "host_open sample_kernel (hb_port sample_host) (hb_capabilities sample_host) 10 7 (\<lambda>_. Some 1) (hs_port s') = Ok D"
     "host_read_state sample_kernel D (hs_port s') = Ok st'" "state_inv sample_kernel st'"
     "admitted sample_admission empty_state st' (head_of sample_entry) CommittedActionInvoked"
    by auto
  moreover from this(4) have "bvalues (st_entries st') = [sample_entry]" "st_head st' = Some (head_of sample_entry)"
    by (simp_all add: sample_admission_def empty_state_def bvalues_def)
  ultimately show ?thesis using run by blast
qed

text \<open>C2: lease holders race over the durable backend. Any number of admissions and leases are in flight, each cut
  into turns that read the state file at most once and write at most one file, and any of them takes the
  next turn or dies between two turns, with every hook and every error of the port; a port call is one step,
  and an admission reads the state file only while log and batch fit (\<open>host_room\<close>). Then the journal
  verifies, and its log is the old log followed by exactly the batches on record as committed, in order. The
  record of every admission is right against what the others left: success with a commit means its batch went
  on the log in its last turn, under the fence it was checked for, and the continuation ran once; an exchange
  lost to another holder is reported as a failure, and neither the log nor the caller's world changed. Leases
  are granted with strictly increasing fences.\<close>

theorem host_journal_safe:
  assumes "host_admission P files K C" and "host_inv K C files (hs_port s)"
    and "(race_step K C)\<^sup>*\<^sup>* (race_start s w) c"
  shows "\<exists>v v'. journal_verify K (host_journal K C fuel w0) s = Ok v \<and>
    journal_verify K (host_journal K C fuel w0) (rc_state c) = Ok v' \<and>
    vf_entries v' = vf_entries v @ committed (rc_reports c) \<and>
    (\<forall>rp\<in>set (rc_reports c). report_ok rp) \<and> sorted_wrt (>) (granted (rc_reports c))"
proof -
  note ok = host_admission.race_reaches [OF assms(1,3,2), unfolded host_admission.race_ok_def [OF assms(1)]]
  have read: "journal_verify K (host_journal K C fuel w0) t = Ok (state_verification (host_view K C (hs_port t)))"
    if inv: "host_inv K C files (hs_port t)" for t
    using host_inv_read [OF inv] state_inv_verified [OF host_read_state_inv [OF host_inv_read [OF inv]]]
    by (simp add: journal_verify_def host_journal_def)
  show ?thesis using ok read [OF assms(2)] read [of "rc_state c"] by (simp add: state_verification_def)
qed

lemma race_turn:
  assumes "admit_turn K C ad act ph (s, w) = ((s', w'), Ok (Inl ph'))" and "ph = Entered \<longrightarrow> host_room K C (hs_port s) ad"
  shows "race_step K C \<lparr>rc_state = s, rc_world = w, rc_verified = V, rc_calls = xs @ Admitting ad act ph # ys, rc_reports = R\<rparr>
    \<lparr>rc_state = s', rc_world = w', rc_verified = V, rc_calls = xs @ Admitting ad act ph' # ys, rc_reports = R\<rparr>"
  using race_admit_turn [of "\<lparr>rc_state = s, rc_world = w, rc_verified = V, rc_calls = xs @ Admitting ad act ph # ys, rc_reports = R\<rparr>"
    xs ad act ph ys K C s' w' "Ok (Inl ph')"] assms
  by (simp add: reports_of_def)

lemma race_last:
  assumes "admit_turn K C ad act ph (s, w) = ((s', w'), r)" and "ph \<noteq> Entered" and "finished r = Some a"
  shows "race_step K C \<lparr>rc_state = s, rc_world = w, rc_verified = V, rc_calls = xs @ Admitting ad act ph # ys, rc_reports = R\<rparr>
    \<lparr>rc_state = s', rc_world = w', rc_verified = V, rc_calls = xs @ ys,
      rc_reports = AdmitReport ad act (host_fence K C (hs_port s)) (host_view K C (hs_port s)) w (host_view K C (hs_port s')) w' a # R\<rparr>"
proof -
  have "unfinished (Admitting ad act) r = []" using assms(3) by (cases r rule: finished.cases) simp_all
  then show ?thesis
    using race_admit_turn [of "\<lparr>rc_state = s, rc_world = w, rc_verified = V, rc_calls = xs @ Admitting ad act ph # ys, rc_reports = R\<rparr>"
      xs ad act ph ys K C s' w' r] assms
    by (simp add: reports_of_def)
qed

text \<open>Two admissions of one batch race: both enter, both publish the leaf, the first exchange wins.\<close>

definition sample_race where
  "sample_race f g s w ph ph' = \<lparr>rc_state = s, rc_world = w, rc_verified = [sample_admission],
     rc_calls = [Admitting sample_admission (Some f) ph, Admitting sample_admission (Some g) ph'], rc_reports = []\<rparr>"

lemma sample_race_first:
  "admit_turn sample_kernel sample_host sample_admission (Some f) ph (s, w) = ((s', w), Ok (Inl ph1)) \<Longrightarrow>
     ph = Entered \<longrightarrow> host_room sample_kernel sample_host (hs_port s) sample_admission \<Longrightarrow>
     race_step sample_kernel sample_host (sample_race f g s w ph ph') (sample_race f g s' w ph1 ph')"
  unfolding sample_race_def using race_turn [where xs = "[]"] by fastforce

lemma sample_race_second:
  "admit_turn sample_kernel sample_host sample_admission (Some g) ph' (s, w) = ((s', w), Ok (Inl ph1)) \<Longrightarrow>
     ph' = Entered \<longrightarrow> host_room sample_kernel sample_host (hs_port s) sample_admission \<Longrightarrow>
     race_step sample_kernel sample_host (sample_race f g s w ph ph') (sample_race f g s' w ph ph1)"
  unfolding sample_race_def using race_turn [where xs = "[Admitting sample_admission (Some f) ph]" and ys = "[]"] by fastforce

lemma sample_race_start:
  "(race_step sample_kernel sample_host)\<^sup>*\<^sup>* (race_start sample_leased w) (sample_race f g sample_leased w Entered Entered)"
proof -
  let ?c = "race_start sample_leased w"
  let ?c1 = "?c\<lparr>rc_verified := [sample_admission]\<rparr>"
  let ?c2 = "?c1\<lparr>rc_calls := [Admitting sample_admission (Some g) Entered]\<rparr>"
  have "be_read_state (host_journal sample_kernel sample_host 1 w) sample_leased = Ok empty_state"
    using host_inv_read [OF sample_leased_inv(1)] sample_leased_inv(2) by (simp add: host_journal_def)
  then have "verified_admission sample_kernel (host_journal sample_kernel sample_host 1 w) \<lparr>lease_fence = 1\<rparr> None [] [sample_entry]
      sample_leased = Ok sample_admission"
    by (simp add: verified_admission_def state_inv_verified state_inv_empty
      verify_batch_def Let_def sample_entry_id sample_entry_fields sample_admission_def)
      (simp add: empty_state_def)
  then have 1: "race_step sample_kernel sample_host ?c ?c1"
    using race_verify [of sample_kernel sample_host ?c "\<lparr>lease_fence = 1\<rparr>" None "[]" "[sample_entry]" sample_admission]
    by (simp add: race_start_def)
  have 2: "race_step sample_kernel sample_host ?c1 ?c2"
    using race_admit [of sample_admission ?c1 sample_kernel sample_host "Some g"] by (simp add: race_start_def)
  have 3: "race_step sample_kernel sample_host ?c2 (sample_race f g sample_leased w Entered Entered)"
    using race_admit [of sample_admission ?c2 sample_kernel sample_host "Some f"] by (simp add: race_start_def sample_race_def)
  from 1 2 3 show ?thesis by simp
qed

lemma sample_race_prepared:
  "\<exists>bytes s. sample_ready bytes s \<and> (race_step sample_kernel sample_host)\<^sup>*\<^sup>* (race_start sample_leased w)
     (let ph = Committing (encode_envelope sample_kernel leased_envelope) (encode_envelope sample_kernel (sample_moved bytes)) (head_of sample_entry)
      in sample_race f g s w ph ph)"
proof -
  let ?b = "encode_envelope sample_kernel leased_envelope"
  obtain bytes where bytes: "encode_v2_entry sample_kernel sample_leaf = Ok bytes" using sample_leaf_bytes by blast
  let ?l = "Some (sample_location bytes)"
  have none: "ev_head_location leased_envelope = None" by (simp add: leased_envelope_def)
  have ready: "sample_ready bytes t" if "sample_ready bytes u" "tp_files (hs_port t) = tp_files (hs_port u)" for t u
    using that by (simp add: sample_ready_def)
  obtain s1 where s1: "tp_files (hs_port s1) = tp_files (hs_port sample_leased)"
    "admit_turn sample_kernel sample_host sample_admission (Some f) Entered (sample_leased, w) =
      ((s1, w), Ok (Inl (PublishingObjects ?b leased_envelope [] [])))"
    using sample_enter [OF sample_leased_ready [of bytes]] by blast
  note r1 = ready [OF sample_leased_ready s1(1)]
  note J = host_admission.axioms [OF sample_host_admission]
  have "tp_file_map (hs_port s1) = tp_file_map (hs_port sample_leased)" by (simp add: tp_file_map_def s1(1))
  from journal_on_port.grown_inv [OF J sample_leased_inv(1) journal_on_port.grown_same [OF J this]]
  have room: "host_room sample_kernel sample_host (hs_port s1) sample_admission" using sample_room by (simp add: host_room_for)
  obtain s2 where s2: "tp_files (hs_port s2) = tp_files (hs_port s1)"
    "admit_turn sample_kernel sample_host sample_admission (Some g) Entered (s1, w) =
      ((s2, w), Ok (Inl (PublishingObjects ?b leased_envelope [] [])))"
    using sample_enter [OF r1] by blast
  obtain s3 where s3: "sample_ready bytes s3"
    "admit_turn sample_kernel sample_host sample_admission (Some f) (PublishingEntries ?b leased_envelope [] [sample_entry] None None) (s2, w) =
      ((s3, w), Ok (Inl (PublishingEntries ?b leased_envelope [] [] ?l ?l)))"
    using sample_entry_turn [OF ready [OF r1 s2(1)] bytes] by blast
  obtain s4 where s4: "sample_ready bytes s4"
    "admit_turn sample_kernel sample_host sample_admission (Some g) (PublishingEntries ?b leased_envelope [] [sample_entry] None None) (s3, w) =
      ((s4, w), Ok (Inl (PublishingEntries ?b leased_envelope [] [] ?l ?l)))"
    using sample_entry_turn [OF s3(1) bytes] by blast
  note objects = sample_objects [where v = leased_envelope, unfolded none]
  let ?O = "PublishingObjects ?b leased_envelope [] []" and ?E = "PublishingEntries ?b leased_envelope [] [sample_entry] None None"
    and ?L = "PublishingEntries ?b leased_envelope [] [] ?l ?l"
    and ?C = "Committing ?b (encode_envelope sample_kernel (sample_moved bytes)) (head_of sample_entry)"
  let ?step = "race_step sample_kernel sample_host"
  have "?step (sample_race f g sample_leased w Entered Entered) (sample_race f g s1 w ?O Entered)"
    by (rule sample_race_first [OF s1(2)]) (simp add: sample_room)
  moreover have "?step (sample_race f g s1 w ?O Entered) (sample_race f g s2 w ?O ?O)"
    by (rule sample_race_second [OF s2(2)]) (simp add: room)
  moreover have "?step (sample_race f g s2 w ?O ?O) (sample_race f g s2 w ?E ?O)"
    by (rule sample_race_first [OF objects]) simp
  moreover have "?step (sample_race f g s2 w ?E ?O) (sample_race f g s2 w ?E ?E)"
    by (rule sample_race_second [OF objects]) simp
  moreover have "?step (sample_race f g s2 w ?E ?E) (sample_race f g s3 w ?L ?E)"
    by (rule sample_race_first [OF s3(2)]) simp
  moreover have "?step (sample_race f g s3 w ?L ?E) (sample_race f g s4 w ?L ?L)"
    by (rule sample_race_second [OF s4(2)]) simp
  moreover have "?step (sample_race f g s4 w ?L ?L) (sample_race f g s4 w ?C ?L)"
    by (rule sample_race_first [OF sample_last]) simp
  moreover have "?step (sample_race f g s4 w ?C ?L) (sample_race f g s4 w ?C ?C)"
    by (rule sample_race_second [OF sample_last]) simp
  ultimately have "?step\<^sup>*\<^sup>* (race_start sample_leased w) (sample_race f g s4 w ?C ?C)"
    using sample_race_start [of w f g] by (meson rtranclp.rtrancl_into_rtrancl)
  then show ?thesis using s4(1) unfolding Let_def by blast
qed

lemma sample_leased_verified:
  "journal_verify sample_kernel (host_journal sample_kernel sample_host n w) sample_leased = Ok v \<Longrightarrow> vf_entries v = []"
  using host_inv_read [OF sample_leased_inv(1)] state_inv_verified [OF state_inv_empty, of sample_kernel]
  by (auto simp: journal_verify_def host_journal_def sample_leased_inv state_verification_def)
    (simp add: empty_state_def bvalues_def)

text \<open>The first admission commits; the second has seen the same state file, and its exchange is lost.\<close>

theorem host_journal_safe_witness:
  "\<exists>c f st st' v. (race_step sample_kernel sample_host)\<^sup>*\<^sup>* (race_start sample_leased 5) c \<and> rc_world c = 6 \<and>
    rc_reports c =
      [AdmitReport sample_admission (Some (\<lambda>x. x + 10)) f st' 6 st' 6 (Err WrongHead),
       AdmitReport sample_admission (Some Suc) 1 st 5 st' 6
         (Ok \<lparr>ga_head = head_of sample_entry, ga_disposition = CommittedActionInvoked\<rparr>)] \<and>
    journal_verify sample_kernel (host_journal sample_kernel sample_host 1 (5 :: nat)) (rc_state c) = Ok v \<and> vf_entries v = [sample_entry]"
proof -
  let ?b = "encode_envelope sample_kernel leased_envelope" and ?step = "race_step sample_kernel sample_host"
  let ?g = "\<lambda>x. x + 10 :: nat" and ?ad = sample_admission
  obtain bytes s where s: "sample_ready bytes s"
    and run: "?step\<^sup>*\<^sup>* (race_start sample_leased 5) (sample_race Suc ?g s 5
      (Committing ?b (encode_envelope sample_kernel (sample_moved bytes)) (head_of sample_entry))
      (Committing ?b (encode_envelope sample_kernel (sample_moved bytes)) (head_of sample_entry)))"
    using sample_race_prepared [of 5 Suc ?g] unfolding Let_def by blast
  let ?new = "encode_envelope sample_kernel (sample_moved bytes)"
  let ?ph = "Committing ?b ?new (head_of sample_entry)"
  let ?s' = "s\<lparr>hs_port := (hs_port s)\<lparr>tp_files := binsert state_path ?new (tp_files (hs_port s))\<rparr>\<rparr>"
  let ?st = "host_view sample_kernel sample_host (hs_port s)" and ?st' = "host_view sample_kernel sample_host (hs_port ?s')"
    and ?f = "host_fence sample_kernel sample_host"
  let ?won = "AdmitReport ?ad (Some Suc) (?f (hs_port s)) ?st 5 ?st' 6
      (Ok \<lparr>ga_head = head_of sample_entry, ga_disposition = CommittedActionInvoked\<rparr>)"
  let ?lost = "AdmitReport ?ad (Some ?g) (?f (hs_port ?s')) ?st' 6 ?st' 6 (Err WrongHead)"
  let ?c = "\<lparr>rc_state = ?s', rc_world = 6, rc_verified = [?ad], rc_calls = [], rc_reports = [?lost, ?won]\<rparr>"
  have state: "bget (tp_files (hs_port s)) state_path = Some ?b" using s by (simp add: sample_ready_def)
  have fence: "?f (hs_port s) = 1"
    using journal_on_port.fence_of_encoded [OF host_admission.axioms [OF sample_host_admission] leased_envelope_ok]
    by (simp add: host_fence_def sample_state_bytes state leased_envelope_def)
  have "?new \<noteq> ?b" by (rule sample_moved_other)
  then have lost: "bget (tp_files (hs_port ?s')) state_path \<noteq> Some ?b" by simp
  have "?step (sample_race Suc ?g s 5 ?ph ?ph) \<lparr>rc_state = ?s', rc_world = 6, rc_verified = [?ad], rc_calls = [Admitting ?ad (Some ?g) ?ph],
      rc_reports = [?won]\<rparr>"
    using race_last [OF sample_won [OF state, where act = Suc and new = ?new and h = "head_of sample_entry" and w = 5],
      where xs = "[]" and V = "[?ad]" and R = "[]" and ys = "[Admitting ?ad (Some ?g) ?ph]"] by (simp add: sample_race_def)
  moreover have "?step \<lparr>rc_state = ?s', rc_world = 6, rc_verified = [?ad], rc_calls = [Admitting ?ad (Some ?g) ?ph],
      rc_reports = [?won]\<rparr> ?c"
    using race_last [OF sample_lost [OF lost, where act = ?g and new = ?new and h = "head_of sample_entry" and w = 6],
      where xs = "[]" and ys = "[]" and V = "[?ad]" and R = "[?won]"] by simp
  ultimately have all: "?step\<^sup>*\<^sup>* (race_start sample_leased 5) ?c" using run by (meson rtranclp.rtrancl_into_rtrancl)
  obtain v v' where "journal_verify sample_kernel (host_journal sample_kernel sample_host 1 (5 :: nat)) sample_leased = Ok v"
    and v': "journal_verify sample_kernel (host_journal sample_kernel sample_host 1 (5 :: nat)) ?s' = Ok v'"
      "vf_entries v' = vf_entries v @ committed [?lost, ?won]" "report_ok ?won"
    using host_journal_safe [OF sample_host_admission sample_leased_inv(1) all, of 1 5] by auto
  then have "vf_entries v = []" using sample_leased_verified by simp
  moreover have "?st' \<noteq> ?st" using v'(3) by (auto simp: admit_post_def sample_admission_def)
  then have "committed [?lost, ?won] = [sample_entry]" by (simp add: committed_def) (simp add: sample_admission_def)
  ultimately have "vf_entries v' = [sample_entry]" using v'(2) by simp
  then show ?thesis using all v'(1) fence
    by (intro exI [of _ ?c] exI [of _ "?f (hs_port ?s')"] exI [of _ ?st] exI [of _ ?st'] exI [of _ v']) simp
qed

text \<open>taking a lease changes no history, whichever of the three formats it finds and wherever it stops:
  the first version 2 lease keeps every entry of a version 1 log. When it succeeds the state file is a
  version 2 envelope that carries the fence of the lease.\<close>

theorem host_lease_keeps_history:
  assumes "host_admission P files K C" and "host_inv K C files (hs_port s)"
    and "host_acquire_lease K C (Suc n) s = (s', r)"
  shows "host_read_state K C (hs_port s') = host_read_state K C (hs_port s) \<and>
    (\<forall>l. r = Ok l \<longrightarrow> (\<exists>bytes v. files (hs_port s') state_path = Some bytes \<and> decode_envelope K bytes = Ok v \<and>
       ev_format v = V2 \<and> ev_fence v = lease_fence l))"
proof -
  note J = host_admission.axioms [OF assms(1)]
  from journal_on_port.acquire_keeps [OF J assms(3,2)]
  have "host_read_state K C (hs_port s') = host_read_state K C (hs_port s)"
    using host_inv_read [of K C files "hs_port s'"] host_inv_read [OF assms(2)] by simp
  moreover have "\<exists>bytes v. files (hs_port s') state_path = Some bytes \<and> decode_envelope K bytes = Ok v \<and>
       ev_format v = V2 \<and> ev_fence v = lease_fence l" if "r = Ok l" for l
  proof -
    have call: "host_acquire_lease K C (Suc n) s = (s', Ok l)" using assms(3) that by simp
    obtain v where "files (hs_port s') state_path = Some (encode_envelope K v)" "envelope_ok K v" "ev_fence v = lease_fence l"
      using journal_on_port.acquire_Ok [OF J call assms(2)] by (auto simp: journal_on_port.fenced_def [OF J])
    then show ?thesis using envelope_back by (auto simp: envelope_ok_def)
  qed
  ultimately show ?thesis by blast
qed

theorem host_lease_keeps_history_witness:
  "\<exists>s' r. host_acquire_lease sample_kernel sample_host (Suc 0) sample_host_state = (s', r) \<and>
     host_read_state sample_kernel sample_host (hs_port s') = Ok empty_state"
proof -
  obtain s' r where call: "host_acquire_lease sample_kernel sample_host (Suc 0) sample_host_state = (s', r)"
    by (metis surj_pair)
  with host_lease_keeps_history [OF sample_host_admission sample_host_inv(1) call] sample_host_empty(1)
  show ?thesis by (auto simp: sample_host_state_def)
qed

text \<open>a lease fences: once it has been granted, an admission under any other fence fails, runs no
  continuation and changes no history.\<close>

theorem host_stale_refused:
  assumes "host_admission P files K C" and "host_inv K C files (hs_port s)"
    and "host_acquire_lease K C (Suc n) s = (s', Ok l)" and "ad_fence ad \<noteq> lease_fence l"
    and "host_admit_then K C ad act (s', w) = ((s'', w'), r)"
  shows "\<not> is_ok r \<and> w' = w \<and> host_read_state K C (hs_port s'') = host_read_state K C (hs_port s')"
proof -
  note J = host_admission.axioms [OF assms(1)]
  have inv: "host_inv K C files (hs_port s')" using journal_on_port.acquire_keeps [OF J assms(3,2)] by simp
  obtain t rp where prep: "prepare_admission K C True ad s' = (t, rp)" by (metis surj_pair)
  have no: "\<not> is_ok rp"
    by (rule journal_on_port.stale_refused [OF J journal_on_port.acquire_Ok [OF J assms(3,2)] assms(4) prep])
  have "s'' = t \<and> w' = w \<and> \<not> is_ok r"
  proof (cases rp)
    case (Ok x)
    then show ?thesis using no by simp
  qed (use assms(5) prep in \<open>auto simp: host_admit_then_def admit_with_action_def\<close>)
  moreover have "host_inv K C files (hs_port t) \<and> host_view K C (hs_port t) = host_view K C (hs_port s')"
    by (rule journal_on_port.grows_inv [OF J inv op_keepsD [OF journal_on_port.keeps_prepare [OF J] prep]])
  ultimately show ?thesis
    using host_inv_read [of K C files "hs_port t"] host_inv_read [OF inv] by simp
qed

theorem host_stale_refused_witness:
  "\<exists>s' s'' w' r. host_acquire_lease sample_kernel sample_host (Suc 0) sample_host_state = (s', Ok \<lparr>lease_fence = 1\<rparr>) \<and>
     host_admit_then sample_kernel sample_host (sample_admission\<lparr>ad_fence := 9\<rparr>) Suc (s', 5) = ((s'', w'), r) \<and>
     \<not> is_ok r \<and> w' = 5"
proof -
  obtain s' where lease: "host_acquire_lease sample_kernel sample_host (Suc 0) sample_host_state = (s', Ok \<lparr>lease_fence = 1\<rparr>)"
    using sample_host_lease by blast
  obtain s'' w' r where call: "host_admit_then sample_kernel sample_host (sample_admission\<lparr>ad_fence := 9\<rparr>) Suc (s', 5) = ((s'', w'), r)"
    by (metis prod_cases3 prod.collapse)
  from host_stale_refused [OF sample_host_admission sample_host_inv(1) lease _ call] lease call show ?thesis by auto
qed

text \<open>C4: without another writer the loop of a lease acquisition ends in its first round, whatever number of rounds it
  is allowed: it never runs out of them and never panics. It answers with a lease whose fence is above every
  fence of the state file before and is the fence of the state file after, or with an error of the port, of a
  hook or of an exhausted counter, and the history is the same. (Against other writers a lost exchange sends
  the loop round again: the turns of \<open>lease_turn\<close>.)\<close>

theorem host_lease_one_round:
  assumes "host_admission P files K C" and "host_inv K C files (hs_port s)"
    and "host_acquire_lease K C (Suc n) s = (s', r)"
  shows "host_acquire_lease K C 1 s = (s', r) \<and> host_read_state K C (hs_port s') = host_read_state K C (hs_port s) \<and>
    (case r of
       Ok l \<Rightarrow> host_fence K C (hs_port s) < lease_fence l \<and> host_fence K C (hs_port s') = lease_fence l
     | Err e \<Rightarrow> True
     | Panic m \<Rightarrow> False)"
proof -
  note J = host_admission.axioms [OF assms(1)]
  have "host_acquire_lease K C 1 s = (s', r)" using journal_on_port.acquire_one [OF J assms(2), of n] assms(3) by simp
  moreover have "host_read_state K C (hs_port s') = host_read_state K C (hs_port s)"
    using journal_on_port.acquire_keeps [OF J assms(3,2)] host_inv_read [of K C files] assms(2) by simp
  ultimately show ?thesis using host_admission.lease_alone [OF assms(1,3,2)] by blast
qed

theorem host_lease_one_round_witness:
  "\<exists>s'. host_acquire_lease sample_kernel sample_host (Suc 99) sample_host_state = (s', Ok \<lparr>lease_fence = 1\<rparr>) \<and>
     host_acquire_lease sample_kernel sample_host 1 sample_host_state = (s', Ok \<lparr>lease_fence = 1\<rparr>) \<and>
     host_fence sample_kernel sample_host (hs_port sample_host_state) < 1 \<and> host_fence sample_kernel sample_host (hs_port s') = 1"
proof -
  obtain s' r where call: "host_acquire_lease sample_kernel sample_host (Suc 99) sample_host_state = (s', r)" by (metis surj_pair)
  note one = host_lease_one_round [OF sample_host_admission sample_host_inv(1) call]
  obtain s1 where "host_acquire_lease sample_kernel sample_host 1 sample_host_state = (s1, Ok \<lparr>lease_fence = 1\<rparr>)"
    using sample_host_lease by auto
  then have "r = Ok \<lparr>lease_fence = 1\<rparr>" using one by simp
  then show ?thesis using one call by auto
qed

end
