(* ===== verification/Table_Iface.thy ===== *)
theory Table_Iface
  imports Kernel_Iface
begin

text \<open>
  The table interface of \<open>sim_kernel\<close> as the table crates use it: errors, expressions, the evaluation
  context, the trait \<open>Table\<close> as a record of operations over a world \<open>'w\<close> that holds everything the
  objects share, and the compare-exchange types. The context's factory and a value's expression are
  members of the record \<open>cx\<close>; the effects of evaluation on the context are not modelled, and an error
  text is its constant part. The locales state the contract of a table against a finite map, and the
  refinement that follows from it for every sequence of calls.
\<close>

section \<open>Types\<close>

datatype table_error =
    Eval string
  | CapabilityDenied string
  | TypeMismatch string string
  | HostError string

datatype expr =
    ENil
  | EBool bool
  | EString string
  | ESymbol symbol
  | EBytes "u8 list"
  | EList "expr list"
  | EMap "(expr \<times> expr) list"

datatype table_expected = ExpectAbsent | ExpectValue expr
datatype table_observed = SeenAbsent | SeenValue expr
datatype 'v table_replacement = ReplaceDelete | ReplaceValue 'v

record table_exchange =
  tx_exchanged :: bool
  tx_observed :: table_observed

record 'v cx =
  cx_granted :: "string \<Rightarrow> bool"
  cx_nil :: "(table_error, 'v) res"
  cx_string :: "string \<Rightarrow> (table_error, 'v) res"
  cx_bytes :: "u8 list \<Rightarrow> (table_error, 'v) res"
  cx_expr :: "expr \<Rightarrow> (table_error, 'v) res"
  as_expr :: "'v \<Rightarrow> (table_error, expr) res"
  legal_segment :: "string \<Rightarrow> bool"

definition cx_require :: "'v cx \<Rightarrow> string \<Rightarrow> (table_error, unit) res" where
  "cx_require C cap = (if cx_granted C cap then Ok () else Err (CapabilityDenied cap))"

lemma cx_require_Ok: "cx_require C cap = Ok () \<longleftrightarrow> cx_granted C cap"
  by (simp add: cx_require_def)

record ('w, 'v) table =
  tb_get :: "symbol \<Rightarrow> ('w, table_error, 'v) op"
  tb_set :: "symbol \<Rightarrow> 'v \<Rightarrow> ('w, table_error, unit) op"
  tb_has :: "symbol \<Rightarrow> ('w, table_error, bool) op"
  tb_del :: "symbol \<Rightarrow> ('w, table_error, 'v) op"
  tb_keys :: "('w, table_error, symbol list) op"
  tb_entries :: "('w, table_error, (symbol \<times> 'v) list) op"
  tb_len :: "('w, table_error, nat) op"
  tb_clear :: "('w, table_error, unit) op"
  tb_compare_exchange ::
    "symbol \<Rightarrow> table_expected \<Rightarrow> 'v table_replacement \<Rightarrow> ('w, table_error, table_exchange) op"

text \<open>The trait \<open>Dir\<close>; opening and making a directory answer with a directory value.\<close>

record ('w, 'v) dir =
  dr_mkdir :: "symbol \<Rightarrow> ('w, table_error, 'v) op"
  dr_opendir :: "symbol \<Rightarrow> ('w, table_error, 'v option) op"
  dr_rmdir :: "symbol \<Rightarrow> ('w, table_error, 'v) op"
  dr_is_dir :: "symbol \<Rightarrow> ('w, table_error, bool) op"

text \<open>An absent key reads as the context's nil.\<close>

definition value_or_nil :: "'v cx \<Rightarrow> 'v option \<Rightarrow> (table_error, 'v) res" where
  "value_or_nil C m = (case m of Some v \<Rightarrow> Ok v | None \<Rightarrow> cx_nil C)"

text \<open>The comparison of a compare-exchange, and the replacement whose value must be representable.\<close>

fun replacement_value :: "'v cx \<Rightarrow> 'v table_replacement \<Rightarrow> (table_error, 'v option) res" where
  "replacement_value C ReplaceDelete = Ok None"
| "replacement_value C (ReplaceValue v) = res_bind (as_expr C v) (\<lambda>_. Ok (Some v))"

fun observe_value :: "'v cx \<Rightarrow> 'v option \<Rightarrow> (table_error, table_observed) res" where
  "observe_value C (Some v) = res_bind (as_expr C v) (\<lambda>e. Ok (SeenValue e))"
| "observe_value C None = Ok SeenAbsent"

fun expectation_met :: "table_expected \<Rightarrow> table_observed \<Rightarrow> bool" where
  "expectation_met ExpectAbsent SeenAbsent = True"
| "expectation_met (ExpectValue a) (SeenValue b) = (a = b)"
| "expectation_met _ _ = False"

section \<open>The contract of a table\<close>

text \<open>
  \<open>table_base\<close>: in every good world the table shows exactly the finite map \<open>content\<close>, and its writes
  update that map. \<open>table_contract\<close> adds what a deletion returns.
\<close>

locale table_base =
  fixes C :: "'v cx"
    and t :: "('w, 'v) table"
    and inv :: "'w \<Rightarrow> bool"
    and legal :: "symbol \<Rightarrow> bool"
    and content :: "'w \<Rightarrow> symbol \<Rightarrow> 'v option"
  assumes get: "inv w \<Longrightarrow> legal k \<Longrightarrow> tb_get t k w = (w, value_or_nil C (content w k))"
    and has: "inv w \<Longrightarrow> legal k \<Longrightarrow> tb_has t k w = (w, Ok (content w k \<noteq> None))"
    and keys: "inv w \<Longrightarrow> \<exists>ks. tb_keys t w = (w, Ok ks) \<and> distinct ks \<and> set ks = dom (content w)"
    and entries: "inv w \<Longrightarrow> \<exists>es. tb_entries t w = (w, Ok es) \<and> distinct (map fst es) \<and> map_of es = content w"
    and len: "inv w \<Longrightarrow> tb_len t w = (w, Ok (card (dom (content w))))"
    and set: "inv w \<Longrightarrow> legal k \<Longrightarrow>
      \<exists>w'. tb_set t k v w = (w', Ok ()) \<and> inv w' \<and> content w' = (content w)(k \<mapsto> v)"
    and del: "inv w \<Longrightarrow> legal k \<Longrightarrow>
      \<exists>w' r. tb_del t k w = (w', r) \<and> inv w' \<and> content w' = (content w)(k := None)"
    and clear: "inv w \<Longrightarrow> \<exists>w'. tb_clear t w = (w', Ok ()) \<and> inv w' \<and> content w' = Map.empty"

locale table_contract = table_base +
  assumes del_value: "inv w \<Longrightarrow> legal k \<Longrightarrow> snd (tb_del t k w) = value_or_nil C (content w k)"

section \<open>Sequences of calls\<close>

datatype 'v call =
    CallGet symbol
  | CallSet symbol 'v
  | CallHas symbol
  | CallDel symbol
  | CallKeys
  | CallEntries
  | CallLen
  | CallClear

fun call_legal :: "(symbol \<Rightarrow> bool) \<Rightarrow> 'v call \<Rightarrow> bool" where
  "call_legal l (CallGet k) = l k"
| "call_legal l (CallSet k v) = l k"
| "call_legal l (CallHas k) = l k"
| "call_legal l (CallDel k) = l k"
| "call_legal l _ = True"

text \<open>What a caller observes: values and failures of reads and deletions as they are, with the order of an enumeration left out.\<close>

datatype 'v observation =
    ObsValue "(table_error, 'v) res"
  | ObsDone
  | ObsFailed
  | ObsBool bool
  | ObsKeys "symbol set"
  | ObsEntries "(symbol \<times> 'v) set"
  | ObsLen nat

fun obs_of :: "('a \<Rightarrow> 'v observation) \<Rightarrow> (table_error, 'a) res \<Rightarrow> 'v observation" where
  "obs_of f (Ok x) = f x"
| "obs_of f _ = ObsFailed"

fun table_call :: "('w, 'v) table \<Rightarrow> 'v call \<Rightarrow> 'w \<Rightarrow> 'w \<times> 'v observation" where
  "table_call t (CallGet k) w = (let (w', r) = tb_get t k w in (w', ObsValue r))"
| "table_call t (CallSet k v) w = (let (w', r) = tb_set t k v w in (w', obs_of (\<lambda>_. ObsDone) r))"
| "table_call t (CallHas k) w = (let (w', r) = tb_has t k w in (w', obs_of ObsBool r))"
| "table_call t (CallDel k) w = (let (w', r) = tb_del t k w in (w', ObsValue r))"
| "table_call t CallKeys w = (let (w', r) = tb_keys t w in (w', obs_of (\<lambda>ks. ObsKeys (set ks)) r))"
| "table_call t CallEntries w = (let (w', r) = tb_entries t w in (w', obs_of (\<lambda>es. ObsEntries (set es)) r))"
| "table_call t CallLen w = (let (w', r) = tb_len t w in (w', obs_of ObsLen r))"
| "table_call t CallClear w = (let (w', r) = tb_clear t w in (w', obs_of (\<lambda>_. ObsDone) r))"

fun table_run :: "('w, 'v) table \<Rightarrow> 'v call list \<Rightarrow> 'w \<Rightarrow> 'w \<times> 'v observation list" where
  "table_run t [] w = (w, [])"
| "table_run t (c # cs) w =
     (let (w', ob) = table_call t c w; (w'', obs) = table_run t cs w' in (w'', ob # obs))"

text \<open>The specification: the same calls on a finite map.\<close>

fun map_call :: "'v cx \<Rightarrow> 'v call \<Rightarrow> (symbol \<Rightarrow> 'v option) \<Rightarrow> (symbol \<Rightarrow> 'v option) \<times> 'v observation" where
  "map_call C (CallGet k) m = (m, ObsValue (value_or_nil C (m k)))"
| "map_call C (CallSet k v) m = (m(k \<mapsto> v), ObsDone)"
| "map_call C (CallHas k) m = (m, ObsBool (m k \<noteq> None))"
| "map_call C (CallDel k) m = (m(k := None), ObsValue (value_or_nil C (m k)))"
| "map_call C CallKeys m = (m, ObsKeys (dom m))"
| "map_call C CallEntries m = (m, ObsEntries (Map.graph m))"
| "map_call C CallLen m = (m, ObsLen (card (dom m)))"
| "map_call C CallClear m = (Map.empty, ObsDone)"

fun map_run :: "'v cx \<Rightarrow> 'v call list \<Rightarrow> (symbol \<Rightarrow> 'v option) \<Rightarrow> (symbol \<Rightarrow> 'v option) \<times> 'v observation list" where
  "map_run C [] m = (m, [])"
| "map_run C (c # cs) m =
     (let (m', ob) = map_call C c m; (m'', obs) = map_run C cs m' in (m'', ob # obs))"

context table_base begin

lemma call_refines_but_del:
  assumes "inv w" and "call_legal legal c" and "\<forall>k. c \<noteq> CallDel k"
  shows "\<exists>w'. table_call t c w = (w', snd (map_call C c (content w))) \<and> inv w' \<and>
           content w' = fst (map_call C c (content w))"
proof (cases c)
  case (CallGet k)
  then show ?thesis using assms by (simp add: get)
next
  case (CallSet k v)
  then show ?thesis using set [OF assms(1), of k v] assms(2) by auto
next
  case (CallHas k)
  then show ?thesis using assms by (simp add: has)
next
  case (CallDel k)
  then show ?thesis using assms(3) by simp
next
  case CallKeys
  then show ?thesis using keys [OF assms(1)] assms by auto
next
  case CallEntries
  obtain es where es: "tb_entries t w = (w, Ok es)" "distinct (map fst es)" "map_of es = content w"
    using entries [OF assms(1)] by blast
  have "set es = Map.graph (content w)"
    using graph_map_of_if_distinct_dom [OF es(2)] es(3) by simp
  then show ?thesis using CallEntries es assms by simp
next
  case CallLen
  then show ?thesis using assms by (simp add: len)
next
  case CallClear
  then show ?thesis using clear [OF assms(1)] by auto
qed

end

context table_contract begin

lemma call_refines:
  assumes "inv w" and "call_legal legal c"
  shows "\<exists>w'. table_call t c w = (w', snd (map_call C c (content w))) \<and> inv w' \<and>
           content w' = fst (map_call C c (content w))"
proof (cases "\<exists>k. c = CallDel k")
  case True
  then obtain k where c: "c = CallDel k" by blast
  then show ?thesis using del [OF assms(1), of k] del_value [OF assms(1), of k] assms(2) by auto
next
  case False
  then show ?thesis using call_refines_but_del assms by blast
qed

theorem run_refines:
  assumes "inv w" and "list_all (call_legal legal) cs"
  shows "\<exists>w'. table_run t cs w = (w', snd (map_run C cs (content w))) \<and> inv w' \<and>
           content w' = fst (map_run C cs (content w))"
  using assms
proof (induction cs arbitrary: w)
  case Nil
  then show ?case by simp
next
  case (Cons c cs)
  obtain w1 where w1: "table_call t c w = (w1, snd (map_call C c (content w)))" "inv w1"
      "content w1 = fst (map_call C c (content w))"
    using call_refines [OF Cons.prems(1), of c] Cons.prems(2) by auto
  obtain w2 where "table_run t cs w1 = (w2, snd (map_run C cs (content w1)))" "inv w2"
      "content w2 = fst (map_run C cs (content w1))"
    using Cons.IH [OF w1(2)] Cons.prems(2) by auto
  then show ?case
    using w1 by (auto simp: Let_def split: prod.splits)
qed

end

end
