(* ===== verification/Table_Hash.thy ===== *)
theory Table_Hash
  imports Table_Iface "HOL-Library.AList"
begin

text \<open>
  The in-memory table, \<open>crates/sim-table-hash/src/hash.rs\<close>. The \<open>HashMap\<close> is an association list with
  distinct keys whose order stands for the unspecified iteration order; enumerations sort it. The
  \<open>RwLock\<close> makes each operation one step; its poisoning is not modelled.
\<close>

type_synonym 'v hash_table = "(symbol \<times> 'v) list"

section \<open>Operations\<close>

definition hash_new :: "'v hash_table" where
  "hash_new = []"

definition hash_with_entries :: "(symbol \<times> 'v) list \<Rightarrow> 'v hash_table" where
  "hash_with_entries es = foldl (\<lambda>h (k, v). AList.update k v h) [] es"

definition hash_get :: "'v cx \<Rightarrow> symbol \<Rightarrow> ('v hash_table, table_error, 'v) op" where
  "hash_get C k h = (h, case map_of h k of Some v \<Rightarrow> Ok v | None \<Rightarrow> cx_nil C)"

definition hash_set :: "symbol \<Rightarrow> 'v \<Rightarrow> ('v hash_table, table_error, unit) op" where
  "hash_set k v h = (AList.update k v h, Ok ())"

definition hash_has :: "symbol \<Rightarrow> ('v hash_table, table_error, bool) op" where
  "hash_has k h = (h, Ok (map_of h k \<noteq> None))"

definition hash_del :: "'v cx \<Rightarrow> symbol \<Rightarrow> ('v hash_table, table_error, 'v) op" where
  "hash_del C k h = (AList.delete k h, case map_of h k of Some v \<Rightarrow> Ok v | None \<Rightarrow> cx_nil C)"

definition hash_keys :: "('v hash_table, table_error, symbol list) op" where
  "hash_keys h = (h, Ok (sort (map fst h)))"

definition hash_entries :: "('v hash_table, table_error, (symbol \<times> 'v) list) op" where
  "hash_entries h = (h, Ok (sort_key fst h))"

definition hash_len :: "('v hash_table, table_error, nat) op" where
  "hash_len h = (h, Ok (length h))"

definition hash_clear :: "('v hash_table, table_error, unit) op" where
  "hash_clear h = ([], Ok ())"

definition hash_compare_exchange ::
    "'v cx \<Rightarrow> symbol \<Rightarrow> table_expected \<Rightarrow> 'v table_replacement \<Rightarrow> ('v hash_table, table_error, table_exchange) op" where
  "hash_compare_exchange C k expected replacement =
     op_bind (op_res (replacement_value C replacement)) (\<lambda>new.
     op_bind (op_read (\<lambda>h. observe_value C (map_of h k))) (\<lambda>observed.
     \<lambda>h. let exchanged = expectation_met expected observed in
       (if exchanged
        then (case new of Some v \<Rightarrow> AList.update k v h | None \<Rightarrow> AList.delete k h)
        else h,
        Ok \<lparr>tx_exchanged = exchanged, tx_observed = observed\<rparr>)))"

definition hash_descriptor_entries :: "'v cx \<Rightarrow> 'v hash_table \<Rightarrow> (table_error, (symbol \<times> expr) list) res" where
  "hash_descriptor_entries C h =
     res_bind (res_map (\<lambda>(k, v). res_bind (as_expr C v) (\<lambda>e. Ok (k, e))) h) (\<lambda>es. Ok (sort_key fst es))"

definition hash_truth :: "'v hash_table \<Rightarrow> (table_error, bool) res" where
  "hash_truth h = Ok (h \<noteq> [])"

definition hash_table_impl :: "'v cx \<Rightarrow> ('v hash_table, 'v) table" where
  "hash_table_impl C =
     \<lparr>tb_get = hash_get C, tb_set = hash_set, tb_has = hash_has, tb_del = hash_del C, tb_keys = hash_keys,
      tb_entries = hash_entries, tb_len = hash_len, tb_clear = hash_clear,
      tb_compare_exchange = hash_compare_exchange C\<rparr>"

lemma hash_table_impl_sels [simp]:
  "tb_get (hash_table_impl C) = hash_get C" "tb_set (hash_table_impl C) = hash_set"
  "tb_has (hash_table_impl C) = hash_has" "tb_del (hash_table_impl C) = hash_del C"
  "tb_keys (hash_table_impl C) = hash_keys" "tb_entries (hash_table_impl C) = hash_entries"
  "tb_len (hash_table_impl C) = hash_len" "tb_clear (hash_table_impl C) = hash_clear"
  "tb_compare_exchange (hash_table_impl C) = hash_compare_exchange C"
  by (simp_all add: hash_table_impl_def)

section \<open>The table is its finite map\<close>

definition hash_inv :: "'v hash_table \<Rightarrow> bool" where
  "hash_inv h \<longleftrightarrow> distinct (map fst h)"

lemma hash_inv_new: "hash_inv hash_new"
  by (simp add: hash_inv_def hash_new_def)

lemma hash_inv_with_entries: "hash_inv (hash_with_entries es)"
proof -
  have "distinct (map fst h) \<Longrightarrow> distinct (map fst (foldl (\<lambda>h (k, v). AList.update k v h) h es))"
    for h :: "(symbol \<times> 'a) list"
    by (induction es arbitrary: h) (auto simp: distinct_update)
  then show ?thesis by (simp add: hash_inv_def hash_with_entries_def)
qed

lemma hash_content_with_entries: "map_of (hash_with_entries es) k = map_of (rev es) k"
proof -
  have "map_of (foldl (\<lambda>h (k, v). AList.update k v h) h es) = map_of h ++ map_of (rev es)"
    for h :: "(symbol \<times> 'a) list"
    by (induction es arbitrary: h) (auto simp: update_conv')
  then show ?thesis by (simp add: hash_with_entries_def)
qed

lemma hash_keys_sorted:
  assumes "hash_inv h"
  shows "hash_keys h = (h, Ok (sorted_list_of_set (dom (map_of h))))"
proof -
  have "sort (map fst h) = sorted_list_of_set (dom (map_of h))"
    using assms by (intro sorted_distinct_set_unique)
      (simp_all add: hash_inv_def dom_map_of_conv_image_fst)
  then show ?thesis by (simp add: hash_keys_def)
qed

lemma hash_card: "hash_inv h \<Longrightarrow> card (dom (map_of h)) = length h"
  by (metis hash_inv_def distinct_card dom_map_of_conv_image_fst length_map set_map)

lemma distinct_fst_sort_key: "distinct (map fst (sort_key fst h)) \<longleftrightarrow> distinct (map fst h)"
  by (simp add: distinct_map)

lemma hash_sorted_entries: "hash_inv h \<Longrightarrow> map_of (sort_key fst h) = map_of h"
  unfolding hash_inv_def by (subst map_of_inject_set) (simp_all add: distinct_fst_sort_key)

interpretation hash: table_contract C "hash_table_impl C" hash_inv "\<lambda>_. True" map_of
proof
  fix w :: "'a hash_table" and k and v :: 'a
  assume w: "hash_inv w"
  show "tb_get (hash_table_impl C) k w = (w, value_or_nil C (map_of w k))"
    by (simp add: hash_get_def value_or_nil_def)
  show "tb_has (hash_table_impl C) k w = (w, Ok (map_of w k \<noteq> None))"
    by (simp add: hash_has_def)
  show "\<exists>ks. tb_keys (hash_table_impl C) w = (w, Ok ks) \<and> distinct ks \<and> set ks = dom (map_of w)"
    using w by (simp add: hash_keys_def hash_inv_def dom_map_of_conv_image_fst)
  show "\<exists>es. tb_entries (hash_table_impl C) w = (w, Ok es) \<and> distinct (map fst es) \<and> map_of es = map_of w"
    using w hash_sorted_entries [OF w]
    by (simp add: hash_entries_def hash_inv_def distinct_fst_sort_key del: distinct_map)
  show "tb_len (hash_table_impl C) w = (w, Ok (card (dom (map_of w))))"
    using w by (simp add: hash_len_def hash_card)
  show "\<exists>w'. tb_set (hash_table_impl C) k v w = (w', Ok ()) \<and> hash_inv w' \<and> map_of w' = (map_of w)(k \<mapsto> v)"
    using w by (simp add: hash_set_def hash_inv_def distinct_update update_conv')
  show "\<exists>w' r. tb_del (hash_table_impl C) k w = (w', r) \<and> hash_inv w' \<and> map_of w' = (map_of w)(k := None)"
    using w by (simp add: hash_del_def hash_inv_def distinct_delete delete_conv')
  show "\<exists>w'. tb_clear (hash_table_impl C) w = (w', Ok ()) \<and> hash_inv w' \<and> map_of w' = Map.empty"
    by (simp add: hash_clear_def hash_inv_def)
  show "snd (tb_del (hash_table_impl C) k w) = value_or_nil C (map_of w k)"
    by (simp add: hash_del_def value_or_nil_def)
qed

end
