(* ===== verification/Table_Override.thy ===== *)
theory Table_Override
  imports Table_Hash
begin

text \<open>
  The overlay table, \<open>crates/sim-table-override/src/override_table.rs\<close> and its constructor in
  \<open>class.rs\<close>. The layers are values; \<open>tbl\<close> is \<open>as_table_impl\<close>, the table a value is, and all layers
  act on one shared world. The overlay's own state is its mask set, an ordered set beside the world.
  The trait's default \<open>compare_exchange\<close>, which the overlay inherits, is the kernel's and an argument.
  The locale \<open>table_heap\<close> is what the layers promise; over it the overlay is a table again.
\<close>

section \<open>Operations\<close>

record 'v override_table =
  ot_layers :: "'v list"

type_synonym 'w override_world = "symbol list \<times> 'w"

definition override_new ::
    "('v \<Rightarrow> ('w, 'v) table option) \<Rightarrow> 'v list \<Rightarrow> (table_error, 'v override_table \<times> symbol list) res" where
  "override_new tbl layers =
     (if layers = [] then Err (Eval ''table/override: expected at least one table layer'')
      else if list_ex (\<lambda>l. tbl l = None) layers then Err (Eval ''table/override: every layer must be a table'')
      else Ok (\<lparr>ot_layers = layers\<rparr>, []))"

definition on_world :: "('w, table_error, 'a) op \<Rightarrow> ('w override_world, table_error, 'a) op" where
  "on_world m mw = (let (w', r) = m (snd mw) in ((fst mw, w'), r))"

definition layer_table ::
    "('v \<Rightarrow> ('w, 'v) table option) \<Rightarrow> 'v \<Rightarrow> (('w, 'v) table \<Rightarrow> ('w, table_error, 'a) op) \<Rightarrow>
     ('w override_world, table_error, 'a) op" where
  "layer_table tbl l f =
     (case tbl l of Some t \<Rightarrow> on_world (f t) | None \<Rightarrow> op_res (Panic ''validated table layer''))"

definition override_front :: "'v override_table \<Rightarrow> 'v" where
  "override_front o1 = hd (ot_layers o1)"

definition with_masked :: "(symbol list \<Rightarrow> symbol list) \<Rightarrow> ('w override_world, table_error, unit) op" where
  "with_masked f mw = ((f (fst mw), snd mw), Ok ())"

definition masked_snapshot :: "('w override_world, table_error, symbol list) op" where
  "masked_snapshot = op_read (\<lambda>mw. Ok (fst mw))"

definition is_masked :: "symbol \<Rightarrow> ('w override_world, table_error, bool) op" where
  "is_masked k = op_read (\<lambda>mw. Ok (k \<in> set (fst mw)))"

fun get_layers ::
    "'v cx \<Rightarrow> ('v \<Rightarrow> ('w, 'v) table option) \<Rightarrow> symbol \<Rightarrow> 'v list \<Rightarrow> ('w override_world, table_error, 'v) op" where
  "get_layers C tbl k [] = op_res (cx_nil C)"
| "get_layers C tbl k (l # ls) =
     op_bind (layer_table tbl l (\<lambda>t. tb_has t k)) (\<lambda>present.
       if present then layer_table tbl l (\<lambda>t. tb_get t k) else get_layers C tbl k ls)"

definition override_get ::
    "'v cx \<Rightarrow> ('v \<Rightarrow> ('w, 'v) table option) \<Rightarrow> 'v override_table \<Rightarrow> symbol \<Rightarrow> ('w override_world, table_error, 'v) op" where
  "override_get C tbl o1 k =
     op_bind (is_masked k) (\<lambda>m. if m then op_res (cx_nil C) else get_layers C tbl k (ot_layers o1))"

definition override_set ::
    "('v \<Rightarrow> ('w, 'v) table option) \<Rightarrow> 'v override_table \<Rightarrow> symbol \<Rightarrow> 'v \<Rightarrow> ('w override_world, table_error, unit) op" where
  "override_set tbl o1 k v =
     op_bind (layer_table tbl (override_front o1) (\<lambda>t. tb_set t k v)) (\<lambda>_.
       with_masked (filter (\<lambda>k'. k' \<noteq> k)))"

fun has_layers ::
    "('v \<Rightarrow> ('w, 'v) table option) \<Rightarrow> symbol \<Rightarrow> 'v list \<Rightarrow> ('w override_world, table_error, bool) op" where
  "has_layers tbl k [] = op_return False"
| "has_layers tbl k (l # ls) =
     op_bind (layer_table tbl l (\<lambda>t. tb_has t k)) (\<lambda>present.
       if present then op_return True else has_layers tbl k ls)"

definition override_has ::
    "('v \<Rightarrow> ('w, 'v) table option) \<Rightarrow> 'v override_table \<Rightarrow> symbol \<Rightarrow> ('w override_world, table_error, bool) op" where
  "override_has tbl o1 k =
     op_bind (is_masked k) (\<lambda>m. if m then op_return False else has_layers tbl k (ot_layers o1))"

definition override_del ::
    "('v \<Rightarrow> ('w, 'v) table option) \<Rightarrow> 'v override_table \<Rightarrow> symbol \<Rightarrow> ('w override_world, table_error, 'v) op" where
  "override_del tbl o1 k =
     op_bind (layer_table tbl (override_front o1) (\<lambda>t. tb_del t k)) (\<lambda>removed.
     op_bind (with_masked (sinsert k)) (\<lambda>_. op_return removed))"

text \<open>The loop over one layer's rows: a masked or an already seen key is skipped.\<close>

fun collect_visible ::
    "('a \<Rightarrow> symbol) \<Rightarrow> symbol list \<Rightarrow> 'a list \<Rightarrow> symbol list \<times> 'a list \<Rightarrow> symbol list \<times> 'a list" where
  "collect_visible key masked [] acc = acc"
| "collect_visible key masked (x # xs) acc =
     collect_visible key masked xs
       (if key x \<in> set masked \<or> key x \<in> set (fst acc) then acc
        else (sinsert (key x) (fst acc), snd acc @ [x]))"

fun rows_layers ::
    "('v \<Rightarrow> ('w, 'v) table option) \<Rightarrow> (('w, 'v) table \<Rightarrow> ('w, table_error, 'a list) op) \<Rightarrow> ('a \<Rightarrow> symbol) \<Rightarrow>
     symbol list \<Rightarrow> 'v list \<Rightarrow> symbol list \<times> 'a list \<Rightarrow> ('w override_world, table_error, 'a list) op" where
  "rows_layers tbl rows key masked [] acc = op_return (snd acc)"
| "rows_layers tbl rows key masked (l # ls) acc =
     op_bind (layer_table tbl l rows) (\<lambda>xs.
       rows_layers tbl rows key masked ls (collect_visible key masked xs acc))"

definition override_keys ::
    "('v \<Rightarrow> ('w, 'v) table option) \<Rightarrow> 'v override_table \<Rightarrow> ('w override_world, table_error, symbol list) op" where
  "override_keys tbl o1 =
     op_bind masked_snapshot (\<lambda>masked. rows_layers tbl tb_keys (\<lambda>k. k) masked (ot_layers o1) ([], []))"

definition override_entries ::
    "('v \<Rightarrow> ('w, 'v) table option) \<Rightarrow> 'v override_table \<Rightarrow> ('w override_world, table_error, (symbol \<times> 'v) list) op" where
  "override_entries tbl o1 =
     op_bind masked_snapshot (\<lambda>masked. rows_layers tbl tb_entries fst masked (ot_layers o1) ([], []))"

definition override_len ::
    "('v \<Rightarrow> ('w, 'v) table option) \<Rightarrow> 'v override_table \<Rightarrow> ('w override_world, table_error, nat) op" where
  "override_len tbl o1 = op_bind (override_keys tbl o1) (\<lambda>ks. op_return (length ks))"

definition override_clear ::
    "('v \<Rightarrow> ('w, 'v) table option) \<Rightarrow> 'v override_table \<Rightarrow> ('w override_world, table_error, unit) op" where
  "override_clear tbl o1 =
     op_bind (override_keys tbl o1) (\<lambda>visible_keys.
     op_bind (layer_table tbl (override_front o1) tb_clear) (\<lambda>_.
       with_masked (\<lambda>masked. foldl (\<lambda>s k. sinsert k s) masked visible_keys)))"

definition override_table_impl ::
    "'v cx \<Rightarrow> ('v \<Rightarrow> ('w, 'v) table option) \<Rightarrow>
     (symbol \<Rightarrow> table_expected \<Rightarrow> 'v table_replacement \<Rightarrow> ('w override_world, table_error, table_exchange) op) \<Rightarrow>
     'v override_table \<Rightarrow> ('w override_world, 'v) table" where
  "override_table_impl C tbl default_exchange o1 =
     \<lparr>tb_get = override_get C tbl o1, tb_set = override_set tbl o1, tb_has = override_has tbl o1,
      tb_del = override_del tbl o1, tb_keys = override_keys tbl o1, tb_entries = override_entries tbl o1,
      tb_len = override_len tbl o1, tb_clear = override_clear tbl o1,
      tb_compare_exchange = default_exchange\<rparr>"

lemma override_table_impl_sels [simp]:
  "tb_get (override_table_impl C tbl d o1) = override_get C tbl o1"
  "tb_set (override_table_impl C tbl d o1) = override_set tbl o1"
  "tb_has (override_table_impl C tbl d o1) = override_has tbl o1"
  "tb_del (override_table_impl C tbl d o1) = override_del tbl o1"
  "tb_keys (override_table_impl C tbl d o1) = override_keys tbl o1"
  "tb_entries (override_table_impl C tbl d o1) = override_entries tbl o1"
  "tb_len (override_table_impl C tbl d o1) = override_len tbl o1"
  "tb_clear (override_table_impl C tbl d o1) = override_clear tbl o1"
  by (simp_all add: override_table_impl_def)

section \<open>Layers\<close>

text \<open>
  The factory makes nil; every value that is a table keeps the contract over the shared world, and a write to one table
  leaves the others alone. One value may stand for several layers.
\<close>

locale table_heap =
  fixes C :: "'v cx"
    and tbl :: "'v \<Rightarrow> ('w, 'v) table option"
    and inv :: "'w \<Rightarrow> bool"
    and legal :: "symbol \<Rightarrow> bool"
    and content :: "'v \<Rightarrow> 'w \<Rightarrow> symbol \<Rightarrow> 'v option"
  assumes nil: "\<exists>n. cx_nil C = Ok n"
    and layer: "tbl l = Some t \<Longrightarrow> table_contract C t inv legal (content l)"
    and set_other: "tbl l = Some t \<Longrightarrow> inv w \<Longrightarrow> legal k \<Longrightarrow> l' \<noteq> l \<Longrightarrow> content l' (fst (tb_set t k v w)) = content l' w"
    and del_other: "tbl l = Some t \<Longrightarrow> inv w \<Longrightarrow> legal k \<Longrightarrow> l' \<noteq> l \<Longrightarrow> content l' (fst (tb_del t k w)) = content l' w"
    and clear_other: "tbl l = Some t \<Longrightarrow> inv w \<Longrightarrow> l' \<noteq> l \<Longrightarrow> content l' (fst (tb_clear t w)) = content l' w"

text \<open>What an overlay shows: the first layer that has the key, unless the key is masked.\<close>

fun layered :: "('v \<Rightarrow> 'w \<Rightarrow> symbol \<Rightarrow> 'v option) \<Rightarrow> 'v list \<Rightarrow> 'w \<Rightarrow> symbol \<Rightarrow> 'v option" where
  "layered content [] w k = None"
| "layered content (l # ls) w k =
     (case content l w k of Some v \<Rightarrow> Some v | None \<Rightarrow> layered content ls w k)"

definition visible ::
    "('v \<Rightarrow> 'w \<Rightarrow> symbol \<Rightarrow> 'v option) \<Rightarrow> 'v override_table \<Rightarrow> 'w override_world \<Rightarrow> symbol \<Rightarrow> 'v option" where
  "visible content o1 mw k = (if k \<in> set (fst mw) then None else layered content (ot_layers o1) (snd mw) k)"

lemma on_world_run: "on_world m (ms, w) = (case m w of (w', r) \<Rightarrow> ((ms, w'), r))"
  by (simp add: on_world_def Let_def split: prod.split)

lemma layer_table_run: "tbl l = Some t \<Longrightarrow> layer_table tbl l f (ms, w) = (case f t w of (w', r) \<Rightarrow> ((ms, w'), r))"
  by (simp add: layer_table_def on_world_run)

lemma collect_visible_keys:
  assumes "collect_visible (\<lambda>k. k) masked ks (seen, out) = (seen', out')" and "set seen = set out" "distinct out"
  shows "set seen' = set out' \<and> distinct out' \<and> set out' = set out \<union> (set ks - set masked)"
  using assms by (induction ks arbitrary: seen out) (auto split: if_splits)

lemma collect_visible_entries:
  assumes "collect_visible fst masked es (seen, out) = (seen', out')"
    and "set seen = fst ` set out" "distinct (map fst out)"
  shows "set seen' = fst ` set out' \<and> distinct (map fst out') \<and>
    (\<forall>k. map_of out' k = (case map_of out k of Some v \<Rightarrow> Some v
                           | None \<Rightarrow> if k \<in> set masked then None else map_of es k))"
  using assms
proof (induction es arbitrary: seen out)
  case Nil
  then show ?case by (auto split: option.splits)
next
  case (Cons e es)
  obtain k0 v0 where e: "e = (k0, v0)" by (cases e)
  show ?case
  proof (cases "k0 \<in> set masked \<or> k0 \<in> set seen")
    case True
    then have "collect_visible fst masked es (seen, out) = (seen', out')" using Cons.prems(1) e by auto
    from Cons.IH [OF this Cons.prems(2,3)] True show ?thesis
      using Cons.prems(2) e by (auto split: option.splits simp: map_of_eq_None_iff)
  next
    case False
    have new: "map_of out k0 = None" using False Cons.prems(2) by (auto simp: map_of_eq_None_iff)
    have step: "collect_visible fst masked es (sinsert k0 seen, out @ [(k0, v0)]) = (seen', out')"
      using Cons.prems(1) e False by simp
    have IH: "set seen' = fst ` set out' \<and> distinct (map fst out') \<and>
        (\<forall>k. map_of out' k = (case map_of (out @ [(k0, v0)]) k of Some v \<Rightarrow> Some v
                           | None \<Rightarrow> if k \<in> set masked then None else map_of es k))"
      by (rule Cons.IH [OF step]) (use Cons.prems(2,3) False in auto)
    then show ?thesis using e False new by (auto split: option.splits)
  qed
qed

locale overlay = table_heap C tbl inv legal content
  for C :: "'v cx" and tbl :: "'v \<Rightarrow> ('w, 'v) table option" and inv legal content +
  fixes o1 :: "'v override_table"
    and d :: "symbol \<Rightarrow> table_expected \<Rightarrow> 'v table_replacement \<Rightarrow> ('w override_world, table_error, table_exchange) op"
  assumes layers: "ot_layers o1 \<noteq> []" "list_all (\<lambda>l. tbl l \<noteq> None) (ot_layers o1)"

context table_heap begin

lemma layer_reads:
  assumes "tbl l = Some t" "inv w" "legal k"
  shows "layer_table tbl l (\<lambda>t. tb_has t k) (ms, w) = ((ms, w), Ok (content l w k \<noteq> None))"
    and "layer_table tbl l (\<lambda>t. tb_get t k) (ms, w) = ((ms, w), value_or_nil C (content l w k))"
  using table_base.has [OF table_contract.axioms(1) [OF layer]] table_base.get [OF table_contract.axioms(1) [OF layer]] assms
  by (simp_all add: layer_table_run)

lemma get_layers_value:
  "list_all (\<lambda>l. tbl l \<noteq> None) ls \<Longrightarrow> inv w \<Longrightarrow> legal k \<Longrightarrow>
     get_layers C tbl k ls (ms, w) = ((ms, w), value_or_nil C (layered content ls w k))"
proof (induction ls)
  case Nil
  then show ?case by (simp add: op_simps value_or_nil_def)
next
  case (Cons l ls)
  then show ?case by (auto simp: op_bind_def layer_reads split: option.split)
qed

lemma has_layers_value:
  "list_all (\<lambda>l. tbl l \<noteq> None) ls \<Longrightarrow> inv w \<Longrightarrow> legal k \<Longrightarrow>
     has_layers tbl k ls (ms, w) = ((ms, w), Ok (layered content ls w k \<noteq> None))"
proof (induction ls)
  case Nil
  then show ?case by (simp add: op_simps)
next
  case (Cons l ls)
  then show ?case by (auto simp: op_bind_def layer_reads op_simps split: option.split)
qed

lemma keys_layers_value:
  assumes "list_all (\<lambda>l. tbl l \<noteq> None) ls" "inv w" "set seen = set out" "distinct out"
  shows "\<exists>ks. rows_layers tbl tb_keys (\<lambda>k. k) masked ls (seen, out) (ms, w) = ((ms, w), Ok ks) \<and> distinct ks \<and>
           set ks = set out \<union> (dom (layered content ls w) - set masked)"
  using assms
proof (induction ls arbitrary: seen out)
  case Nil
  then show ?case by (auto simp: op_simps)
next
  case (Cons l ls)
  from Cons.prems(1) obtain t where t: "tbl l = Some t" by auto
  obtain ks where ks: "tb_keys t w = (w, Ok ks)" "set ks = dom (content l w)"
    using table_base.keys [OF table_contract.axioms(1) [OF layer [OF t]] Cons.prems(2)] by blast
  obtain seen' out' where acc: "collect_visible (\<lambda>k. k) masked ks (seen, out) = (seen', out')"
    by (cases "collect_visible (\<lambda>k. k) masked ks (seen, out)")
  note acc' = collect_visible_keys [OF acc Cons.prems(3,4)]
  obtain ks' where ks': "rows_layers tbl tb_keys (\<lambda>k. k) masked ls (seen', out') (ms, w) = ((ms, w), Ok ks')"
      "distinct ks'" "set ks' = set out' \<union> (dom (layered content ls w) - set masked)"
    using Cons.IH [of seen' out'] Cons.prems(1,2) acc' by auto
  have "dom (layered content (l # ls) w) = dom (content l w) \<union> dom (layered content ls w)"
    by (auto split: option.splits)
  then have "set ks' = set out \<union> (dom (layered content (l # ls) w) - set masked)"
    using ks'(3) acc' ks(2) by blast
  moreover have "rows_layers tbl tb_keys (\<lambda>k. k) masked (l # ls) (seen, out) (ms, w) = ((ms, w), Ok ks')"
    using ks(1) ks'(1) acc by (simp add: op_bind_def layer_table_run t)
  ultimately show ?case using ks'(2) by blast
qed

lemma entries_layers_value:
  assumes "list_all (\<lambda>l. tbl l \<noteq> None) ls" "inv w" "set seen = fst ` set out" "distinct (map fst out)"
  shows "\<exists>es. rows_layers tbl tb_entries fst masked ls (seen, out) (ms, w) = ((ms, w), Ok es) \<and> distinct (map fst es) \<and>
           (\<forall>k. map_of es k = (case map_of out k of Some v \<Rightarrow> Some v
                  | None \<Rightarrow> if k \<in> set masked then None else layered content ls w k))"
  using assms
proof (induction ls arbitrary: seen out)
  case Nil
  then show ?case by (auto simp: op_simps split: option.split)
next
  case (Cons l ls)
  from Cons.prems(1) obtain t where t: "tbl l = Some t" by auto
  obtain es where es: "tb_entries t w = (w, Ok es)" "map_of es = content l w"
    using table_base.entries [OF table_contract.axioms(1) [OF layer [OF t]] Cons.prems(2)] by blast
  obtain seen' out' where acc: "collect_visible fst masked es (seen, out) = (seen', out')"
    by (cases "collect_visible fst masked es (seen, out)")
  note acc' = collect_visible_entries [OF acc Cons.prems(3,4)]
  obtain es' where es': "rows_layers tbl tb_entries fst masked ls (seen', out') (ms, w) = ((ms, w), Ok es')"
      "distinct (map fst es')"
      "\<forall>k. map_of es' k = (case map_of out' k of Some v \<Rightarrow> Some v
                  | None \<Rightarrow> if k \<in> set masked then None else layered content ls w k)"
    using Cons.IH [of seen' out'] Cons.prems(1,2) acc' by auto
  have "rows_layers tbl tb_entries fst masked (l # ls) (seen, out) (ms, w) = ((ms, w), Ok es')"
    using es(1) es'(1) acc by (simp add: op_bind_def layer_table_run t)
  moreover have "map_of es' k = (case map_of out k of Some v \<Rightarrow> Some v
                  | None \<Rightarrow> if k \<in> set masked then None else layered content (l # ls) w k)" for k
    using es'(3) acc' es(2) by (auto split: option.splits)
  ultimately show ?case using es'(2) by blast
qed

lemma layered_cong: "(\<And>l. l \<in> set ls \<Longrightarrow> content l w k = content l w' k) \<Longrightarrow> layered content ls w k = layered content ls w' k"
proof (induction ls)
  case (Cons l ls)
  then have "content l w k = content l w' k" "layered content ls w k = layered content ls w' k" by simp_all
  then show ?case by (simp split: option.split)
qed simp

lemma layered_None: "layered content ls w k = None \<longleftrightarrow> (\<forall>l\<in>set ls. content l w k = None)"
  by (induction ls) (auto split: option.splits)

end

text \<open>
  The specification of an overlay: the map it shows and the map of its front layer. A deletion removes the
  key from both and answers with what the front layer had, nil for a key that only a lower layer has.
\<close>

fun overlay_call ::
    "'v cx \<Rightarrow> 'v call \<Rightarrow> (symbol \<Rightarrow> 'v option) \<times> (symbol \<Rightarrow> 'v option) \<Rightarrow>
     ((symbol \<Rightarrow> 'v option) \<times> (symbol \<Rightarrow> 'v option)) \<times> 'v observation" where
  "overlay_call C (CallSet k v) (m, f) = ((m(k \<mapsto> v), f(k \<mapsto> v)), ObsDone)"
| "overlay_call C (CallDel k) (m, f) = ((m(k := None), f(k := None)), ObsValue (value_or_nil C (f k)))"
| "overlay_call C CallClear (m, f) = ((Map.empty, Map.empty), ObsDone)"
| "overlay_call C c (m, f) = ((m, f), snd (map_call C c m))"

fun overlay_run ::
    "'v cx \<Rightarrow> 'v call list \<Rightarrow> (symbol \<Rightarrow> 'v option) \<times> (symbol \<Rightarrow> 'v option) \<Rightarrow>
     ((symbol \<Rightarrow> 'v option) \<times> (symbol \<Rightarrow> 'v option)) \<times> 'v observation list" where
  "overlay_run C [] mf = (mf, [])"
| "overlay_run C (c # cs) mf =
     (let (mf', ob) = overlay_call C c mf; (mf'', obs) = overlay_run C cs mf' in (mf'', ob # obs))"

text \<open>The overlay keeps the base contract of a table for the map it shows.\<close>

context overlay begin

lemma front_layer:
  obtains f t where "override_front o1 = f" "f \<in> set (ot_layers o1)" "tbl f = Some t"
    "ot_layers o1 = f # tl (ot_layers o1)"
proof -
  have "override_front o1 \<in> set (ot_layers o1)" "ot_layers o1 = override_front o1 # tl (ot_layers o1)"
    using layers(1) by (simp_all add: override_front_def)
  moreover from this obtain t where "tbl (override_front o1) = Some t"
    using layers(2) by (auto simp: list_all_iff)
  ultimately show ?thesis using that by blast
qed

lemma visible_dom: "dom (visible content o1 (ms, w)) = dom (layered content (ot_layers o1) w) - set ms"
  by (auto simp: visible_def split: if_splits)

lemma override_keys_value:
  assumes "inv w"
  shows "\<exists>ks. override_keys tbl o1 (ms, w) = ((ms, w), Ok ks) \<and> distinct ks \<and>
           set ks = dom (visible content o1 (ms, w))"
  using keys_layers_value [OF layers(2) assms, of "[]" "[]" ms ms]
  by (simp add: override_keys_def masked_snapshot_def op_bind_def op_simps visible_dom)

lemma override_entries_value:
  assumes "inv w"
  shows "\<exists>es. override_entries tbl o1 (ms, w) = ((ms, w), Ok es) \<and> distinct (map fst es) \<and>
           map_of es = visible content o1 (ms, w)"
  using entries_layers_value [OF layers(2) assms, of "[]" "[]" ms ms]
  by (auto simp: override_entries_def masked_snapshot_def op_bind_def op_simps visible_def fun_eq_iff)

lemma visible_after_set:
  assumes "inv w" "legal k"
  shows "\<exists>w'. override_set tbl o1 k v (ms, w) = ((filter (\<lambda>k'. k' \<noteq> k) ms, w'), Ok ()) \<and> inv w' \<and>
           visible content o1 (filter (\<lambda>k'. k' \<noteq> k) ms, w') = (visible content o1 (ms, w))(k \<mapsto> v) \<and>
           content (override_front o1) w' = (content (override_front o1) w)(k \<mapsto> v)"
proof -
  obtain f t where f: "override_front o1 = f" "f \<in> set (ot_layers o1)" "tbl f = Some t"
    "ot_layers o1 = f # tl (ot_layers o1)" by (rule front_layer)
  obtain w' where w': "tb_set t k v w = (w', Ok ())" "inv w'" "content f w' = (content f w)(k \<mapsto> v)"
    using table_base.set [OF table_contract.axioms(1) [OF layer [OF f(3)]] assms] by blast
  have other: "content l w' = content l w" if "l \<noteq> f" for l
    using set_other [OF f(3) assms that, of v] w'(1) by simp
  have at_k: "layered content (ot_layers o1) w' k = Some v"
    by (subst f(4)) (simp add: w'(3))
  have "layered content (ot_layers o1) w' k' = layered content (ot_layers o1) w k'" if "k' \<noteq> k" for k'
    by (rule layered_cong) (metis fun_upd_other other that w'(3))
  then have "visible content o1 (filter (\<lambda>k'. k' \<noteq> k) ms, w') = (visible content o1 (ms, w))(k \<mapsto> v)"
    using at_k by (auto simp: visible_def fun_eq_iff)
  moreover have "override_set tbl o1 k v (ms, w) = ((filter (\<lambda>k'. k' \<noteq> k) ms, w'), Ok ())"
    using w'(1) f(1,3) by (simp add: override_set_def op_bind_def layer_table_run with_masked_def)
  ultimately show ?thesis using w'(2,3) f(1) by blast
qed

lemma visible_after_del:
  assumes "inv w" "legal k"
  shows "\<exists>w'. override_del tbl o1 k (ms, w) = ((sinsert k ms, w'), value_or_nil C (content (override_front o1) w k)) \<and>
           inv w' \<and> visible content o1 (sinsert k ms, w') = (visible content o1 (ms, w))(k := None) \<and>
           content (override_front o1) w' = (content (override_front o1) w)(k := None)"
proof -
  obtain f t where f: "override_front o1 = f" "f \<in> set (ot_layers o1)" "tbl f = Some t"
    "ot_layers o1 = f # tl (ot_layers o1)" by (rule front_layer)
  obtain w' where w': "tb_del t k w = (w', value_or_nil C (content f w k))" "inv w'" "content f w' = (content f w)(k := None)"
    using table_base.del [OF table_contract.axioms(1) [OF layer [OF f(3)]] assms]
      table_contract.del_value [OF layer [OF f(3)] assms] by force
  have other: "content l w' = content l w" if "l \<noteq> f" for l
    using del_other [OF f(3) assms that] w'(1) by simp
  have "layered content (ot_layers o1) w' k' = layered content (ot_layers o1) w k'" if "k' \<noteq> k" for k'
    by (rule layered_cong) (metis fun_upd_other other that w'(3))
  then have "visible content o1 (sinsert k ms, w') = (visible content o1 (ms, w))(k := None)"
    by (auto simp: visible_def fun_eq_iff)
  moreover obtain r where "value_or_nil C (content f w k) = Ok r"
    using nil by (cases "content f w k") (auto simp: value_or_nil_def)
  then have "override_del tbl o1 k (ms, w) = ((sinsert k ms, w'), value_or_nil C (content f w k))"
    using w'(1) f(1,3) by (simp add: override_del_def op_bind_def layer_table_run with_masked_def op_simps)
  ultimately show ?thesis using w'(2,3) f(1) by simp
qed

lemma visible_after_clear:
  assumes "inv w"
  shows "\<exists>ms' w'. override_clear tbl o1 (ms, w) = ((ms', w'), Ok ()) \<and> inv w' \<and>
           visible content o1 (ms', w') = Map.empty \<and> content (override_front o1) w' = Map.empty \<and>
           set ms' = set ms \<union> dom (layered content (ot_layers o1) w)"
proof -
  obtain f t where f: "override_front o1 = f" "f \<in> set (ot_layers o1)" "tbl f = Some t"
    "ot_layers o1 = f # tl (ot_layers o1)" by (rule front_layer)
  obtain ks where ks: "override_keys tbl o1 (ms, w) = ((ms, w), Ok ks)" "set ks = dom (visible content o1 (ms, w))"
    using override_keys_value [OF assms] by blast
  obtain w' where w': "tb_clear t w = (w', Ok ())" "inv w'" "content f w' = Map.empty"
    using table_base.clear [OF table_contract.axioms(1) [OF layer [OF f(3)]] assms] by blast
  have other: "content l w' = content l w" if "l \<noteq> f" for l
    using clear_other [OF f(3) assms that] w'(1) by simp
  let ?ms = "foldl (\<lambda>s k. sinsert k s) ms ks"
  have ms: "set ?ms = set ms \<union> dom (layered content (ot_layers o1) w)"
    using ks(2) by (auto simp: foldl_sinsert visible_dom)
  have "layered content (ot_layers o1) w' k = None" if "layered content (ot_layers o1) w k = None" for k
    using that by (auto simp: layered_None) (metis other w'(3))
  then have "visible content o1 (?ms, w') k = None" for k
    by (cases "layered content (ot_layers o1) w k") (auto simp: visible_def ms)
  then have "visible content o1 (?ms, w') = Map.empty" by (simp add: fun_eq_iff)
  moreover have "override_clear tbl o1 (ms, w) = ((?ms, w'), Ok ())"
    using ks(1) w'(1) f(1,3) by (simp add: override_clear_def op_bind_def layer_table_run with_masked_def)
  ultimately show ?thesis using w'(2,3) f(1) ms by blast
qed

end

sublocale overlay \<subseteq> over: table_base C "override_table_impl C tbl d o1" "\<lambda>mw. inv (snd mw)" legal "visible content o1"
proof
  fix mw :: "'w override_world" and k and v :: 'v
  obtain ms w where mw: "mw = (ms, w)" by (cases mw)
  assume inv: "inv (snd mw)"
  then have w: "inv w" by (simp add: mw)
  show "\<exists>ks. tb_keys (override_table_impl C tbl d o1) mw = (mw, Ok ks) \<and> distinct ks \<and> set ks = dom (visible content o1 mw)"
    using override_keys_value [OF w] by (simp add: mw)
  then show "tb_len (override_table_impl C tbl d o1) mw = (mw, Ok (card (dom (visible content o1 mw))))"
    by (auto simp: override_len_def op_bind_def op_simps distinct_card [symmetric])
  show "\<exists>es. tb_entries (override_table_impl C tbl d o1) mw = (mw, Ok es) \<and> distinct (map fst es) \<and> map_of es = visible content o1 mw"
    using override_entries_value [OF w] by (simp add: mw)
  show "\<exists>mw'. tb_clear (override_table_impl C tbl d o1) mw = (mw', Ok ()) \<and> inv (snd mw') \<and> visible content o1 mw' = Map.empty"
    using visible_after_clear [OF w, of ms] by (fastforce simp: mw)
  assume k: "legal k"
  show "tb_get (override_table_impl C tbl d o1) k mw = (mw, value_or_nil C (visible content o1 mw k))"
    using get_layers_value [OF layers(2) w k]
    by (simp add: mw override_get_def is_masked_def op_bind_def op_simps visible_def value_or_nil_def)
  show "tb_has (override_table_impl C tbl d o1) k mw = (mw, Ok (visible content o1 mw k \<noteq> None))"
    using has_layers_value [OF layers(2) w k]
    by (simp add: mw override_has_def is_masked_def op_bind_def op_simps visible_def)
  show "\<exists>mw'. tb_set (override_table_impl C tbl d o1) k v mw = (mw', Ok ()) \<and> inv (snd mw') \<and>
      visible content o1 mw' = (visible content o1 mw)(k \<mapsto> v)"
    using visible_after_set [OF w k, where v = v and ms = ms] by (fastforce simp: mw)
  show "\<exists>mw' r. tb_del (override_table_impl C tbl d o1) k mw = (mw', r) \<and> inv (snd mw') \<and>
      visible content o1 mw' = (visible content o1 mw)(k := None)"
    using visible_after_del [OF w k, where ms = ms] by (fastforce simp: mw)
qed

context overlay begin

text \<open>Every call other than a deletion is that call on the map the overlay shows; a deletion answers for the front layer.\<close>

lemma overlay_call_refines:
  assumes "inv (snd mw)" and "call_legal legal c"
  shows "\<exists>mw'. table_call (override_table_impl C tbl d o1) c mw =
      (mw', snd (overlay_call C c (visible content o1 mw, content (override_front o1) (snd mw)))) \<and> inv (snd mw') \<and>
    (visible content o1 mw', content (override_front o1) (snd mw')) =
      fst (overlay_call C c (visible content o1 mw, content (override_front o1) (snd mw)))"
proof -
  obtain ms w where mw: "mw = (ms, w)" by (cases mw)
  have w: "inv w" using assms(1) mw by simp
  have reads: ?thesis if "table_call (override_table_impl C tbl d o1) c mw = (mw, snd (map_call C c (visible content o1 mw)))"
    and "overlay_call C c (visible content o1 mw, content (override_front o1) (snd mw)) =
      ((visible content o1 mw, content (override_front o1) (snd mw)), snd (map_call C c (visible content o1 mw)))"
    using that assms(1) by simp
  show ?thesis
  proof (cases c)
    case (CallGet k)
    show ?thesis by (rule reads) (use over.get [OF assms(1), of k] assms(2) CallGet in simp_all)
  next
    case (CallSet k v)
    then show ?thesis using visible_after_set [OF w, of k v ms] assms(2) mw by auto
  next
    case (CallHas k)
    show ?thesis by (rule reads) (use over.has [OF assms(1), of k] assms(2) CallHas in simp_all)
  next
    case (CallDel k)
    then show ?thesis using visible_after_del [OF w, of k ms] assms(2) mw by auto
  next
    case CallKeys
    show ?thesis by (rule reads) (use over.keys [OF assms(1)] CallKeys in auto)
  next
    case CallEntries
    obtain es where es: "override_entries tbl o1 mw = (mw, Ok es)" "distinct (map fst es)" "map_of es = visible content o1 mw"
      using over.entries [OF assms(1)] by auto
    have "set es = Map.graph (visible content o1 mw)"
      using graph_map_of_if_distinct_dom [OF es(2)] es(3) by simp
    then show ?thesis using CallEntries es(1) by (intro reads) simp_all
  next
    case CallLen
    show ?thesis by (rule reads) (use over.len [OF assms(1)] CallLen in simp_all)
  next
    case CallClear
    then show ?thesis using visible_after_clear [OF w, of ms] mw by auto
  qed
qed

text \<open>Hence every sequence of calls.\<close>

lemma overlay_run_refines:
  "inv (snd mw) \<Longrightarrow> list_all (call_legal legal) cs \<Longrightarrow>
     \<exists>mw'. table_run (override_table_impl C tbl d o1) cs mw =
         (mw', snd (overlay_run C cs (visible content o1 mw, content (override_front o1) (snd mw)))) \<and>
       inv (snd mw') \<and> (visible content o1 mw', content (override_front o1) (snd mw')) =
         fst (overlay_run C cs (visible content o1 mw, content (override_front o1) (snd mw)))"
proof (induction cs arbitrary: mw)
  case (Cons c cs)
  obtain mw1 where 1: "table_call (override_table_impl C tbl d o1) c mw =
      (mw1, snd (overlay_call C c (visible content o1 mw, content (override_front o1) (snd mw))))" "inv (snd mw1)"
    "fst (overlay_call C c (visible content o1 mw, content (override_front o1) (snd mw))) =
      (visible content o1 mw1, content (override_front o1) (snd mw1))"
    using overlay_call_refines [OF Cons.prems(1), of c] Cons.prems(2) by auto
  obtain mw2 where 2: "table_run (override_table_impl C tbl d o1) cs mw1 =
      (mw2, snd (overlay_run C cs (visible content o1 mw1, content (override_front o1) (snd mw1))))" "inv (snd mw2)"
    "(visible content o1 mw2, content (override_front o1) (snd mw2)) =
      fst (overlay_run C cs (visible content o1 mw1, content (override_front o1) (snd mw1)))"
    using Cons.IH [OF 1(2)] Cons.prems(2) by auto
  show ?case using 1 2 by (simp add: Let_def split_def)
qed simp

end

section \<open>A heap of in-memory tables\<close>

text \<open>
  Layers made by \<open>HashBackend::new_table\<close>: a value is a handle to a hash table of a shared heap or
  plain data. Such a heap keeps the laws of \<open>table_heap\<close>, and overlays of its handles those of \<open>overlay\<close>.
\<close>

datatype 'a cell = TableCell nat | PlainCell 'a

type_synonym 'a heap = "nat \<Rightarrow> 'a cell hash_table"

definition at_cell :: "nat \<Rightarrow> ('a cell hash_table, 'e, 'b) op \<Rightarrow> ('a heap, 'e, 'b) op" where
  "at_cell i m h = (let (t', r) = m (h i) in (h(i := t'), r))"

definition cell_table :: "'a cell cx \<Rightarrow> nat \<Rightarrow> ('a heap, 'a cell) table" where
  "cell_table C i =
     \<lparr>tb_get = \<lambda>k. at_cell i (hash_get C k), tb_set = \<lambda>k v. at_cell i (hash_set k v),
      tb_has = \<lambda>k. at_cell i (hash_has k), tb_del = \<lambda>k. at_cell i (hash_del C k),
      tb_keys = at_cell i hash_keys, tb_entries = at_cell i hash_entries, tb_len = at_cell i hash_len,
      tb_clear = at_cell i hash_clear, tb_compare_exchange = \<lambda>k e r. at_cell i (hash_compare_exchange C k e r)\<rparr>"

fun cell_as_table :: "'a cell cx \<Rightarrow> 'a cell \<Rightarrow> ('a heap, 'a cell) table option" where
  "cell_as_table C (TableCell i) = Some (cell_table C i)"
| "cell_as_table C (PlainCell x) = None"

fun cell_content :: "'a cell \<Rightarrow> 'a heap \<Rightarrow> symbol \<Rightarrow> 'a cell option" where
  "cell_content (TableCell i) h = map_of (h i)"
| "cell_content (PlainCell x) h = Map.empty"

definition heap_inv :: "'a heap \<Rightarrow> bool" where
  "heap_inv h \<longleftrightarrow> (\<forall>i. hash_inv (h i))"

lemma at_cell_run: "m (h i) = (t', r) \<Longrightarrow> at_cell i m h = (h(i := t'), r)"
  by (simp add: at_cell_def)

lemma heap_inv_upd: "heap_inv h \<Longrightarrow> hash_inv t' \<Longrightarrow> heap_inv (h(i := t'))"
  by (simp add: heap_inv_def)

lemma cell_table_contract: "table_contract C (cell_table C i) heap_inv (\<lambda>_. True) (cell_content (TableCell i))"
proof
  fix h :: "'a heap" and k and v :: "'a cell"
  assume h: "heap_inv h"
  then have hi: "hash_inv (h i)" by (simp add: heap_inv_def)
  note step = at_cell_run heap_inv_upd [OF h]
  show "tb_get (cell_table C i) k h = (h, value_or_nil C (cell_content (TableCell i) h k))"
    using hash.get [OF hi, where k = k] by (simp add: cell_table_def at_cell_run)
  show "tb_has (cell_table C i) k h = (h, Ok (cell_content (TableCell i) h k \<noteq> None))"
    using hash.has [OF hi, where k = k] by (simp add: cell_table_def at_cell_run)
  show "\<exists>ks. tb_keys (cell_table C i) h = (h, Ok ks) \<and> distinct ks \<and> set ks = dom (cell_content (TableCell i) h)"
    using hash.keys [OF hi] by (auto simp: cell_table_def at_cell_run)
  show "\<exists>es. tb_entries (cell_table C i) h = (h, Ok es) \<and> distinct (map fst es) \<and> map_of es = cell_content (TableCell i) h"
    using hash.entries [OF hi] by (auto simp: cell_table_def at_cell_run)
  show "tb_len (cell_table C i) h = (h, Ok (card (dom (cell_content (TableCell i) h))))"
    using hash.len [OF hi] by (simp add: cell_table_def at_cell_run)
  show "\<exists>w'. tb_set (cell_table C i) k v h = (w', Ok ()) \<and> heap_inv w' \<and>
      cell_content (TableCell i) w' = (cell_content (TableCell i) h)(k \<mapsto> v)"
    using hash.set [OF hi, where k = k and v = v] by (auto simp: cell_table_def step)
  show "\<exists>w' r. tb_del (cell_table C i) k h = (w', r) \<and> heap_inv w' \<and>
      cell_content (TableCell i) w' = (cell_content (TableCell i) h)(k := None)"
    using hash.del [OF hi, where k = k and C = C] by (auto simp: cell_table_def step)
  show "\<exists>w'. tb_clear (cell_table C i) h = (w', Ok ()) \<and> heap_inv w' \<and> cell_content (TableCell i) w' = Map.empty"
    using hash.clear [OF hi] by (auto simp: cell_table_def step)
  show "snd (tb_del (cell_table C i) k h) = value_or_nil C (cell_content (TableCell i) h k)"
    using hash.del_value [OF hi, where k = k and C = C] by (simp add: cell_table_def at_cell_def Let_def split_def)
qed

lemma at_cell_other: "l \<noteq> TableCell i \<Longrightarrow> cell_content l (fst (at_cell i m h)) = cell_content l h"
  by (cases l) (auto simp: at_cell_def split: prod.split)

interpretation cells: table_heap "C\<lparr>cx_nil := Ok n\<rparr>" "cell_as_table (C\<lparr>cx_nil := Ok n\<rparr>)" heap_inv "\<lambda>_. True" cell_content
  for C :: "'a cell cx" and n
proof (rule table_heap.intro, goal_cases)
  case 1
  show ?case by simp
next
  case (2 l t)
  then obtain i where "l = TableCell i" "t = cell_table (C\<lparr>cx_nil := Ok n\<rparr>) i" by (cases l) auto
  then show ?case by (simp only: cell_table_contract)
next
  case (3 l t w k l' v)
  then show ?case by (cases l) (auto simp: cell_table_def at_cell_other)
next
  case (4 l t w k l')
  then show ?case by (cases l) (auto simp: cell_table_def at_cell_other)
next
  case (5 l t w l')
  then show ?case by (cases l) (auto simp: cell_table_def at_cell_other)
qed

interpretation cell_overlay: overlay "C\<lparr>cx_nil := Ok n\<rparr>" "cell_as_table (C\<lparr>cx_nil := Ok n\<rparr>)" heap_inv "\<lambda>_. True"
    cell_content "\<lparr>ot_layers = map TableCell (i # js)\<rparr>" d
  for C :: "'a cell cx" and n i js d
  by unfold_locales (simp_all add: list_all_iff)

section \<open>The overlay refines a finite map\<close>

lemma override_new_Ok:
  "override_new tbl layers = Ok (o1, ms) \<longleftrightarrow>
     layers \<noteq> [] \<and> list_all (\<lambda>l. tbl l \<noteq> None) layers \<and> o1 = \<lparr>ot_layers = layers\<rparr> \<and> ms = []"
  by (auto simp: override_new_def list_all_iff list_ex_iff)

lemma override_new_overlay:
  "table_heap C tbl I legal content \<Longrightarrow> override_new tbl layers = Ok (o1, ms) \<Longrightarrow>
     overlay C tbl I legal content o1"
  by (simp add: overlay_def overlay_axioms_def override_new_Ok)

text \<open>C18: over any layers that keep the table contract, an overlay answers every sequence of calls as its
  specification does. Reads, enumerations, writes and clears are those of one finite map that starts as the
  layered view (the first layer that has a key gives its value). A deletion removes the key from that map and
  answers with what the front layer had under it, so nil when only a lower layer has the key; a write puts
  the value in the front layer, a clear empties it. The layers stay in a good state.\<close>

theorem override_refines_map:
  assumes "table_heap C tbl I legal content"
    and "override_new tbl layers = Ok (o1, ms)"
    and "I w" and "list_all (call_legal legal) cs"
  shows "\<exists>ms' w'. table_run (override_table_impl C tbl d o1) cs (ms, w) =
             ((ms', w'), snd (overlay_run C cs (layered content layers w, content (hd layers) w))) \<and>
           I w' \<and> (visible content o1 (ms', w'), content (hd layers) w') =
             fst (overlay_run C cs (layered content layers w, content (hd layers) w))"
proof -
  have start: "visible content o1 (ms, w) = layered content layers w" "override_front o1 = hd layers"
    using assms(2) by (auto simp: override_new_Ok visible_def override_front_def)
  show ?thesis
    using overlay.overlay_run_refines [OF override_new_overlay [OF assms(1,2)], of "(ms, w)" cs d]
      assms(3,4) by (auto simp: start)
qed

text \<open>Two tables over a small value type for the witnesses: the front has \<open>a\<close>, the back \<open>a\<close> and \<open>b\<close>.\<close>

definition sample_cx :: "string cell cx" where
  "sample_cx =
     \<lparr>cx_granted = \<lambda>_. True, cx_nil = Ok (PlainCell ''nil''), cx_string = \<lambda>s. Ok (PlainCell s),
      cx_bytes = \<lambda>bs. Ok (PlainCell (from_bytes bs)), cx_expr = \<lambda>e. Ok (PlainCell ''expr''),
      as_expr = (\<lambda>v. case v of PlainCell s \<Rightarrow> Ok (EString s) | TableCell i \<Rightarrow> Err (Eval ''table'')),
      legal_segment = \<lambda>s. s \<noteq> []\<rparr>"

definition sample_exchange ::
    "symbol \<Rightarrow> table_expected \<Rightarrow> string cell table_replacement \<Rightarrow>
     (string heap override_world, table_error, table_exchange) op" where
  "sample_exchange k e r = op_fail (Eval ''unsupported'')"

definition sample_heap :: "string heap" where
  "sample_heap i =
     (if i = 0 then hash_with_entries [(sym_new ''a'', PlainCell ''front'')]
      else hash_with_entries [(sym_new ''a'', PlainCell ''back''), (sym_new ''b'', PlainCell ''low'')])"

lemma sample_cells: "table_heap sample_cx (cell_as_table sample_cx) heap_inv (\<lambda>_. True) cell_content"
proof -
  have "sample_cx\<lparr>cx_nil := Ok (PlainCell ''nil'')\<rparr> = sample_cx" by (simp add: sample_cx_def)
  then show ?thesis using cells.table_heap_axioms [where C = sample_cx and n = "PlainCell ''nil''"] by simp
qed

lemma sample_heap_inv: "heap_inv sample_heap"
  by (simp add: heap_inv_def sample_heap_def hash_inv_with_entries)

theorem override_refines_map_witness:
  "\<exists>o1. override_new (cell_as_table sample_cx) [TableCell 0, TableCell 1] = Ok (o1, []) \<and>
     snd (table_run (override_table_impl sample_cx (cell_as_table sample_cx) sample_exchange o1)
       [CallGet (sym_new ''b''), CallDel (sym_new ''b''), CallGet (sym_new ''b''), CallDel (sym_new ''a''), CallKeys] ([], sample_heap)) =
       [ObsValue (Ok (PlainCell ''low'')), ObsValue (Ok (PlainCell ''nil'')), ObsValue (Ok (PlainCell ''nil'')),
        ObsValue (Ok (PlainCell ''front'')), ObsKeys {}]"
proof -
  let ?cs = "[CallGet (sym_new ''b''), CallDel (sym_new ''b''), CallGet (sym_new ''b''), CallDel (sym_new ''a''), CallKeys]"
  let ?L = "[TableCell 0, TableCell 1]" and ?obs = "[ObsValue (Ok (PlainCell ''low'')), ObsValue (Ok (PlainCell ''nil'')),
    ObsValue (Ok (PlainCell ''nil'')), ObsValue (Ok (PlainCell ''front'')), ObsKeys {}]"
  have new: "override_new (cell_as_table sample_cx) ?L = Ok (\<lparr>ot_layers = ?L\<rparr>, [])"
    by (simp add: override_new_Ok)
  have b: "layered cell_content ?L sample_heap (sym_new ''b'') = Some (PlainCell ''low'')"
    "cell_content (hd ?L) sample_heap (sym_new ''b'') = None"
    "cell_content (hd ?L) sample_heap (sym_new ''a'') = Some (PlainCell ''front'')"
    by (simp_all add: sample_heap_def hash_content_with_entries)
  have keys: "dom (layered cell_content ?L sample_heap) = {sym_new ''a'', sym_new ''b''}"
    by (auto simp: sample_heap_def hash_content_with_entries split: if_splits option.splits)
  have spec: "snd (overlay_run sample_cx ?cs (m, f)) = ?obs"
    if "m (sym_new ''b'') = Some (PlainCell ''low'')" "f (sym_new ''b'') = None" "f (sym_new ''a'') = Some (PlainCell ''front'')"
      "dom m = {sym_new ''a'', sym_new ''b''}" for m f
    using that by (simp add: value_or_nil_def sample_cx_def insert_Diff_if)
  obtain ms' w' where "table_run (override_table_impl sample_cx (cell_as_table sample_cx) sample_exchange \<lparr>ot_layers = ?L\<rparr>) ?cs ([], sample_heap) =
      ((ms', w'), snd (overlay_run sample_cx ?cs (layered cell_content ?L sample_heap, cell_content (hd ?L) sample_heap)))"
    using override_refines_map [OF sample_cells new, OF sample_heap_inv, of ?cs sample_exchange] by auto
  then show ?thesis using new spec [OF b keys] by simp
qed

section \<open>A deleted key stays hidden\<close>

text \<open>
  A history of an overlay: calls on it, and changes of the layers by others, which may leave any world.
\<close>

datatype ('w, 'v) overlay_event = Inside "'v call" | Outside 'w

fun overlay_history :: "('w override_world, 'v) table \<Rightarrow> ('w, 'v) overlay_event list \<Rightarrow> 'w override_world \<Rightarrow> 'w override_world" where
  "overlay_history t [] mw = mw"
| "overlay_history t (Inside c # es) mw = overlay_history t es (fst (table_call t c mw))"
| "overlay_history t (Outside w # es) mw = overlay_history t es (fst mw, w)"

fun sets_key :: "symbol \<Rightarrow> ('w, 'v) overlay_event \<Rightarrow> bool" where
  "sets_key k (Inside (CallSet k' v)) = (k' = k)"
| "sets_key k _ = False"

definition keeps_mask :: "symbol \<Rightarrow> 'w override_world \<Rightarrow> 'w override_world \<Rightarrow> bool" where
  "keeps_mask k mw mw' \<longleftrightarrow> (k \<in> set (fst mw) \<longrightarrow> k \<in> set (fst mw'))"

lemma keeps_mask_order: "reflp (keeps_mask k)" "transp (keeps_mask k)"
  by (auto simp: keeps_mask_def intro: reflpI transpI)

lemma keeps_mask_layer: "op_keeps (keeps_mask k) (layer_table tbl l f)"
  by (auto simp: op_keeps_def layer_table_def on_world_def keeps_mask_def op_simps Let_def split: option.split prod.split)

lemmas keeps_mask_rules = op_keeps_pure [OF keeps_mask_order(1)] op_keeps_bind [OF keeps_mask_order(2)]
  keeps_mask_layer op_keeps_cases(1)

lemma keeps_mask_loops:
  "op_keeps (keeps_mask k) (get_layers C tbl k' ls)"
  "op_keeps (keeps_mask k) (has_layers tbl k' ls)"
  "op_keeps (keeps_mask k) (rows_layers tbl rows key masked ls acc)"
  by (induction ls arbitrary: acc) (simp_all add: keeps_mask_rules)

lemma keeps_mask_keys: "op_keeps (keeps_mask k) (override_keys tbl o1)"
  unfolding override_keys_def masked_snapshot_def by (intro keeps_mask_rules keeps_mask_loops)

lemma keeps_mask_del: "op_keeps (keeps_mask k) (override_del tbl o1 k')"
  unfolding override_del_def
  by (intro keeps_mask_rules) (simp add: op_keeps_def with_masked_def keeps_mask_def)

lemma keeps_mask_set: "k' \<noteq> k \<Longrightarrow> op_keeps (keeps_mask k) (override_set tbl o1 k' v)"
  unfolding override_set_def
  by (intro keeps_mask_rules) (simp add: op_keeps_def with_masked_def keeps_mask_def)

lemma keeps_mask_clear: "op_keeps (keeps_mask k) (override_clear tbl o1)"
  unfolding override_clear_def
  by (intro keeps_mask_rules keeps_mask_keys) (simp add: op_keeps_def with_masked_def keeps_mask_def foldl_sinsert)

lemma keeps_mask_reads:
  "op_keeps (keeps_mask k) (override_get C tbl o1 k')"
  "op_keeps (keeps_mask k) (override_has tbl o1 k')"
  "op_keeps (keeps_mask k) (override_entries tbl o1)"
  "op_keeps (keeps_mask k) (override_len tbl o1)"
  unfolding override_get_def override_has_def override_entries_def override_len_def masked_snapshot_def is_masked_def
  by (intro keeps_mask_rules keeps_mask_loops keeps_mask_keys)+

lemma op_keeps_fst: "op_keeps R m \<Longrightarrow> R s (fst (m s))"
  by (simp add: op_keeps_def)

lemmas keeps_mask_fst = keeps_mask_reads [THEN op_keeps_fst] keeps_mask_keys [THEN op_keeps_fst]
  keeps_mask_clear [THEN op_keeps_fst] keeps_mask_del [THEN op_keeps_fst]

lemma keeps_mask_call:
  assumes "\<not> sets_key k (Inside c)"
  shows "keeps_mask k mw (fst (table_call (override_table_impl C tbl d o1) c mw))"
  using assms
proof (cases c)
  case (CallSet k' v)
  then show ?thesis using assms keeps_mask_set [THEN op_keeps_fst] by (simp add: Let_def split_def)
qed (simp_all add: Let_def split_def keeps_mask_fst)

lemma history_masked:
  "k \<in> set (fst mw) \<Longrightarrow> list_all (\<lambda>e. \<not> sets_key k e) es \<Longrightarrow>
     k \<in> set (fst (overlay_history (override_table_impl C tbl d o1) es mw))"
proof (induction es arbitrary: mw)
  case Nil
  then show ?case by simp
next
  case (Cons e es)
  then show ?case
  proof (cases e)
    case (Inside c)
    then have "k \<in> set (fst (fst (table_call (override_table_impl C tbl d o1) c mw)))"
      using keeps_mask_call Cons.prems unfolding keeps_mask_def by fastforce
    then show ?thesis using Cons Inside by simp
  qed simp
qed

lemma collect_visible_unmasked:
  "k \<in> set masked \<Longrightarrow> k \<notin> set (snd acc) \<Longrightarrow> k \<notin> set (snd (collect_visible (\<lambda>k. k) masked ks acc))"
proof (induction ks arbitrary: acc)
  case (Cons k' ks)
  show ?case
    unfolding collect_visible.simps by (rule Cons.IH) (use Cons.prems in auto)
qed simp

lemma rows_layers_unmasked:
  "rows_layers tbl tb_keys (\<lambda>k. k) masked ls acc mw = (mw', Ok ks) \<Longrightarrow> k \<in> set masked \<Longrightarrow> k \<notin> set (snd acc) \<Longrightarrow>
     k \<notin> set ks"
proof (induction ls arbitrary: acc mw)
  case Nil
  then show ?case by (simp add: op_simps)
next
  case (Cons l ls)
  from Cons.prems(1) obtain mw1 xs where
    "rows_layers tbl tb_keys (\<lambda>k. k) masked ls (collect_visible (\<lambda>k. k) masked xs acc) mw1 = (mw', Ok ks)"
    by (auto simp: op_Ok)
  from Cons.IH [OF this] Cons.prems(2,3) show ?case by (simp add: collect_visible_unmasked)
qed

text \<open>Once a deletion through an overlay has succeeded, the key stays hidden: whatever is done through the
  overlay other than setting this key, and whatever others do to the layers meanwhile, the overlay
  does not have the key, reads nil for it and does not list it.\<close>

theorem override_hidden_until_set:
  assumes "override_del tbl o1 k mw = (mw1, Ok v)"
    and "list_all (\<lambda>e. \<not> sets_key k e) es"
    and "overlay_history (override_table_impl C tbl d o1) es mw1 = mw2"
  shows "override_has tbl o1 k mw2 = (mw2, Ok False) \<and> override_get C tbl o1 k mw2 = (mw2, cx_nil C) \<and>
    (\<forall>mw3 ks. override_keys tbl o1 mw2 = (mw3, Ok ks) \<longrightarrow> k \<notin> set ks)"
proof -
  have "k \<in> set (fst mw1)"
    using assms(1) by (auto simp: override_del_def op_Ok with_masked_def)
  then have k: "k \<in> set (fst mw2)"
    using history_masked [OF _ assms(2)] assms(3) by blast
  have "k \<notin> set ks" if "override_keys tbl o1 mw2 = (mw3, Ok ks)" for mw3 ks
    using that k rows_layers_unmasked by (fastforce simp: override_keys_def masked_snapshot_def op_Ok)
  then show ?thesis
    using k by (simp add: override_has_def override_get_def is_masked_def op_bind_def op_simps)
qed

theorem override_hidden_until_set_witness:
  "override_get sample_cx (cell_as_table sample_cx) \<lparr>ot_layers = [TableCell 0, TableCell 1]\<rparr> (sym_new ''a'')
     (overlay_history (override_table_impl sample_cx (cell_as_table sample_cx) sample_exchange \<lparr>ot_layers = [TableCell 0, TableCell 1]\<rparr>)
       [Outside sample_heap, Inside (CallSet (sym_new ''b'') (PlainCell ''x''))]
       (fst (override_del (cell_as_table sample_cx) \<lparr>ot_layers = [TableCell 0, TableCell 1]\<rparr> (sym_new ''a'') ([], sample_heap)))) =
   (overlay_history (override_table_impl sample_cx (cell_as_table sample_cx) sample_exchange \<lparr>ot_layers = [TableCell 0, TableCell 1]\<rparr>)
       [Outside sample_heap, Inside (CallSet (sym_new ''b'') (PlainCell ''x''))]
       (fst (override_del (cell_as_table sample_cx) \<lparr>ot_layers = [TableCell 0, TableCell 1]\<rparr> (sym_new ''a'') ([], sample_heap))),
    Ok (PlainCell ''nil''))"
proof -
  let ?o = "\<lparr>ot_layers = [TableCell 0, TableCell 1]\<rparr>"
  obtain mw1 v where del: "override_del (cell_as_table sample_cx) ?o (sym_new ''a'') ([], sample_heap) = (mw1, Ok v)"
    by (simp add: override_del_def override_front_def op_bind_def layer_table_run cell_table_def at_cell_def hash_del_def
        hash_content_with_entries sample_heap_def with_masked_def op_simps)
  show ?thesis
    using override_hidden_until_set [OF del, of "[Outside sample_heap, Inside (CallSet (sym_new ''b'') (PlainCell ''x''))]"
        sample_cx sample_exchange] del
    by (simp add: sample_cx_def del: overlay_history.simps)
qed

end
