(* ===== verification/Table_Db.thy ===== *)
theory Table_Db
  imports Table_Hash Std_Text
begin

text \<open>
  The directory tree of values, \<open>crates/sim-table-db/src/db_dir.rs\<close> and \<open>capabilities.rs\<close>. A \<open>DbDir\<close> is a
  path into a shared store; its operations take that path and act on the store, which the mutex makes
  one step each. \<open>mk\<close> is the factory call that wraps a new directory handle as a value.
\<close>

section \<open>Operations\<close>

record 'v db_store =
  db_values :: "(string \<times> symbol, 'v) btree_map"
  db_dirs :: "string list"

definition table_db_capability :: string where
  "table_db_capability = ''table.db''"

definition table_db_read_capability :: string where
  "table_db_read_capability = ''table.db.read''"

definition table_db_write_capability :: string where
  "table_db_write_capability = ''table.db.write''"

definition table_db_mkdir_capability :: string where
  "table_db_mkdir_capability = ''table.db.mkdir''"

definition table_db_rmdir_capability :: string where
  "table_db_rmdir_capability = ''table.db.rmdir''"

definition db_open :: "'v db_store" where
  "db_open = \<lparr>db_values = [], db_dirs = [[]]\<rparr>"

definition install_db_dir_lib :: "'v cx \<Rightarrow> (table_error, 'v db_store \<times> string) res" where
  "install_db_dir_lib C = res_bind (cx_require C table_db_capability) (\<lambda>_. Ok (db_open, []))"

definition child_join :: "string \<Rightarrow> string \<Rightarrow> string" where
  "child_join p seg = (if p = [] then seg else p @ CHR ''/'' # seg)"

definition child_path :: "'v cx \<Rightarrow> string \<Rightarrow> symbol \<Rightarrow> (table_error, string) res" where
  "child_path C p name =
     (if \<not> legal_segment C (sym_name name) then Err (Eval ''table/db: illegal name'')
      else Ok (child_join p (sym_name name)))"

text \<open>The name of the direct subdirectory of \<open>p\<close> that a directory path lies in.\<close>

definition subdir_name :: "string \<Rightarrow> string \<Rightarrow> symbol option" where
  "subdir_name p path =
     (if path = [] \<or> path = p then None
      else case (if p = [] then Some path else strip_prefix (p @ ''/'') path) of
        None \<Rightarrow> None
      | Some rest \<Rightarrow>
          (case split_once (CHR ''/'') rest of
             Some (head, tail) \<Rightarrow> if head \<noteq> [] \<and> tail \<noteq> [] then Some (sym_new head) else None
           | None \<Rightarrow> if rest \<noteq> [] then Some (sym_new rest) else None))"

definition direct_subdirs :: "string \<Rightarrow> 'v db_store \<Rightarrow> symbol list" where
  "direct_subdirs p s = scollect (List.map_filter (subdir_name p) (db_dirs s))"

definition db_descriptor_path :: "string \<Rightarrow> string list" where
  "db_descriptor_path p = (if p = [] then [] else split_on (CHR ''/'') p)"

definition db_get :: "'v cx \<Rightarrow> string \<Rightarrow> symbol \<Rightarrow> ('v db_store, table_error, 'v) op" where
  "db_get C p k =
     op_bind (op_res (cx_require C table_db_read_capability)) (\<lambda>_.
       op_read (\<lambda>s. value_or_nil C (bget (db_values s) (p, k))))"

definition db_set :: "'v cx \<Rightarrow> string \<Rightarrow> symbol \<Rightarrow> 'v \<Rightarrow> ('v db_store, table_error, unit) op" where
  "db_set C p k v =
     op_bind (op_res (cx_require C table_db_write_capability)) (\<lambda>_.
     op_bind (op_res (child_path C p k)) (\<lambda>path.
     \<lambda>s. if path \<in> set (db_dirs s) then (s, Err (Eval ''table/db: is a directory''))
         else (s\<lparr>db_values := binsert (p, k) v (db_values s)\<rparr>, Ok ())))"

definition db_has :: "'v cx \<Rightarrow> string \<Rightarrow> symbol \<Rightarrow> ('v db_store, table_error, bool) op" where
  "db_has C p k =
     op_bind (op_res (cx_require C table_db_read_capability)) (\<lambda>_.
     op_bind (op_res (child_path C p k)) (\<lambda>path.
       op_read (\<lambda>s. Ok (bcontains (db_values s) (p, k) \<or> path \<in> set (db_dirs s)))))"

definition db_del :: "'v cx \<Rightarrow> string \<Rightarrow> symbol \<Rightarrow> ('v db_store, table_error, 'v) op" where
  "db_del C p k =
     op_bind (op_res (cx_require C table_db_write_capability)) (\<lambda>_.
     \<lambda>s. (s\<lparr>db_values := bremove (p, k) (db_values s)\<rparr>, value_or_nil C (bget (db_values s) (p, k))))"

definition db_keys :: "'v cx \<Rightarrow> string \<Rightarrow> ('v db_store, table_error, symbol list) op" where
  "db_keys C p =
     op_bind (op_res (cx_require C table_db_read_capability)) (\<lambda>_.
       op_read (\<lambda>s. Ok (scollect (map snd (filter (\<lambda>(path, k). path = p) (bkeys (db_values s))) @ direct_subdirs p s))))"

definition db_entries :: "'v cx \<Rightarrow> string \<Rightarrow> ('v db_store, table_error, (symbol \<times> 'v) list) op" where
  "db_entries C p =
     op_bind (op_res (cx_require C table_db_read_capability)) (\<lambda>_.
       op_read (\<lambda>s. Ok (map (\<lambda>((path, k), v). (k, v)) (filter (\<lambda>((path, k), v). path = p) (db_values s)))))"

definition db_len :: "'v cx \<Rightarrow> string \<Rightarrow> ('v db_store, table_error, nat) op" where
  "db_len C p = op_bind (db_entries C p) (\<lambda>es. op_return (length es))"

definition db_clear :: "'v cx \<Rightarrow> string \<Rightarrow> ('v db_store, table_error, unit) op" where
  "db_clear C p =
     op_bind (op_res (cx_require C table_db_write_capability)) (\<lambda>_.
     \<lambda>s. (s\<lparr>db_values := bretain (\<lambda>(path, k) v. path \<noteq> p) (db_values s)\<rparr>, Ok ()))"

definition db_compare_exchange ::
    "'v cx \<Rightarrow> string \<Rightarrow> symbol \<Rightarrow> table_expected \<Rightarrow> 'v table_replacement \<Rightarrow> ('v db_store, table_error, table_exchange) op" where
  "db_compare_exchange C p k expected replacement =
     op_bind (op_res (cx_require C table_db_write_capability)) (\<lambda>_.
     op_bind (op_res (replacement_value C replacement)) (\<lambda>new.
     op_bind (op_res (child_path C p k)) (\<lambda>path.
     op_bind (op_read (\<lambda>s. if path \<in> set (db_dirs s) then Err (Eval ''table/db: is a directory'')
                           else observe_value C (bget (db_values s) (p, k)))) (\<lambda>observed.
     \<lambda>s. let exchanged = expectation_met expected observed in
       (if exchanged
        then s\<lparr>db_values := (case new of Some v \<Rightarrow> binsert (p, k) v (db_values s) | None \<Rightarrow> bremove (p, k) (db_values s))\<rparr>
        else s,
        Ok \<lparr>tx_exchanged = exchanged, tx_observed = observed\<rparr>)))))"

definition db_mkdir ::
    "'v cx \<Rightarrow> (string \<Rightarrow> (table_error, 'v) res) \<Rightarrow> string \<Rightarrow> symbol \<Rightarrow> ('v db_store, table_error, 'v) op" where
  "db_mkdir C mk p name =
     op_bind (op_res (cx_require C table_db_mkdir_capability)) (\<lambda>_.
     op_bind (op_res (child_path C p name)) (\<lambda>path.
     \<lambda>s. if bcontains (db_values s) (p, name) then (s, Err (Eval ''table/db: is a file''))
         else (s\<lparr>db_dirs := sinsert path (db_dirs s)\<rparr>, mk path)))"

definition db_opendir ::
    "'v cx \<Rightarrow> (string \<Rightarrow> (table_error, 'v) res) \<Rightarrow> string \<Rightarrow> symbol \<Rightarrow> ('v db_store, table_error, 'v option) op" where
  "db_opendir C mk p name =
     op_bind (op_res (cx_require C table_db_read_capability)) (\<lambda>_.
     op_bind (op_res (child_path C p name)) (\<lambda>path.
       op_read (\<lambda>s.
         if path \<in> set (db_dirs s) then res_bind (mk path) (\<lambda>v. Ok (Some v))
         else if bcontains (db_values s) (p, name) then Err (Eval ''table/db: is not a directory'')
         else Ok None)))"

definition db_rmdir :: "'v cx \<Rightarrow> string \<Rightarrow> symbol \<Rightarrow> ('v db_store, table_error, 'v) op" where
  "db_rmdir C p name =
     op_bind (op_res (cx_require C table_db_rmdir_capability)) (\<lambda>_.
     op_bind (op_res (child_path C p name)) (\<lambda>path.
     \<lambda>s. if path \<notin> set (db_dirs s) then (s, Err (Eval ''table/db: is not a directory''))
         else (let below = path @ ''/'' in
           (s\<lparr>db_values := bretain (\<lambda>(entry_path, k) v. entry_path \<noteq> path \<and> \<not> starts_with below entry_path) (db_values s),
              db_dirs := filter (\<lambda>d. d \<noteq> path \<and> \<not> starts_with below d) (db_dirs s)\<rparr>,
            cx_nil C))))"

definition db_is_dir :: "'v cx \<Rightarrow> string \<Rightarrow> symbol \<Rightarrow> ('v db_store, table_error, bool) op" where
  "db_is_dir C p name =
     op_bind (op_res (cx_require C table_db_read_capability)) (\<lambda>_.
     op_bind (op_res (child_path C p name)) (\<lambda>path. op_read (\<lambda>s. Ok (path \<in> set (db_dirs s)))))"

definition db_table :: "'v cx \<Rightarrow> string \<Rightarrow> ('v db_store, 'v) table" where
  "db_table C p =
     \<lparr>tb_get = db_get C p, tb_set = db_set C p, tb_has = db_has C p, tb_del = db_del C p, tb_keys = db_keys C p,
      tb_entries = db_entries C p, tb_len = db_len C p, tb_clear = db_clear C p,
      tb_compare_exchange = db_compare_exchange C p\<rparr>"

lemma db_table_sels [simp]:
  "tb_get (db_table C p) = db_get C p" "tb_set (db_table C p) = db_set C p" "tb_has (db_table C p) = db_has C p"
  "tb_del (db_table C p) = db_del C p" "tb_keys (db_table C p) = db_keys C p"
  "tb_entries (db_table C p) = db_entries C p" "tb_len (db_table C p) = db_len C p"
  "tb_clear (db_table C p) = db_clear C p" "tb_compare_exchange (db_table C p) = db_compare_exchange C p"
  by (simp_all add: db_table_def)

section \<open>Paths\<close>

text \<open>What a legal segment is for the path arithmetic: not empty and without the separator.\<close>

definition segment_law :: "'v cx \<Rightarrow> bool" where
  "segment_law C \<longleftrightarrow> (\<forall>seg. legal_segment C seg \<longrightarrow> seg \<noteq> [] \<and> CHR ''/'' \<notin> set seg)"

text \<open>The string at or below a directory path, by segments.\<close>

definition under :: "string \<Rightarrow> string \<Rightarrow> bool" where
  "under d t \<longleftrightarrow> t = d \<or> (\<exists>r. t = d @ CHR ''/'' # r)"

lemma under_iff: "under d t \<longleftrightarrow> t = d \<or> starts_with (d @ ''/'') t"
  by (auto simp: under_def starts_with_iff)

lemma under_refl [simp]: "under d d"
  by (simp add: under_def)

lemma under_trans: "under a b \<Longrightarrow> under b c \<Longrightarrow> under a c"
  by (auto simp: under_def)

lemma child_join_inj:
  assumes "child_join p a = child_join q b" "CHR ''/'' \<notin> set a" "CHR ''/'' \<notin> set b"
  shows "p = q \<and> a = b"
proof -
  have eq: "p @ CHR ''/'' # a = q @ CHR ''/'' # b \<Longrightarrow> p = q \<and> a = b"
    using assms(2,3) by (auto simp: append_eq_append_conv2 append_eq_Cons_conv Cons_eq_append_conv)
  show ?thesis
    using assms eq by (auto simp: child_join_def split: if_splits)
qed

lemma under_child: "under (child_join p a) (child_join (child_join p a) b)" if "a \<noteq> []"
  using that by (auto simp: under_def child_join_def)

lemma child_path_Ok: "child_path C p k = Ok path \<longleftrightarrow> legal_segment C (sym_name k) \<and> path = child_join p (sym_name k)"
  by (auto simp: child_path_def)

section \<open>The invariant of a store\<close>

text \<open>
  Values and directories are ordered, the root is a directory, every key is legal, and every directory
  but the root is the child of a directory path by a legal name.
\<close>

definition db_inv :: "'v cx \<Rightarrow> 'v db_store \<Rightarrow> bool" where
  "db_inv C s \<longleftrightarrow>
     bsorted (db_values s) \<and> ssorted (db_dirs s) \<and> [] \<in> set (db_dirs s) \<and>
     (\<forall>p k. bcontains (db_values s) (p, k) \<longrightarrow> legal_segment C (sym_name k)) \<and>
     (\<forall>d\<in>set (db_dirs s). d \<noteq> [] \<longrightarrow> (\<exists>p seg. legal_segment C seg \<and> d = child_join p seg))"

definition db_content :: "string \<Rightarrow> 'v db_store \<Rightarrow> symbol \<Rightarrow> 'v option" where
  "db_content p s k = bget (db_values s) (p, k)"

text \<open>A plain table: no directory below it, and both table capabilities granted.\<close>

definition db_plain :: "'v cx \<Rightarrow> string \<Rightarrow> 'v db_store \<Rightarrow> bool" where
  "db_plain C p s \<longleftrightarrow>
     cx_granted C table_db_read_capability \<and> cx_granted C table_db_write_capability \<and>
     bsorted (db_values s) \<and> direct_subdirs p s = [] \<and>
     (\<forall>k. legal_segment C (sym_name k) \<longrightarrow> child_join p (sym_name k) \<notin> set (db_dirs s))"

lemma db_path_keys:
  "set (map snd (filter (\<lambda>(path, k). path = p) (bkeys (db_values s)))) = dom (db_content p s)"
proof -
  have "k \<in> set (map snd (filter (\<lambda>(path, k). path = p) (bkeys (db_values s)))) \<longleftrightarrow> bcontains (db_values s) (p, k)" for k
    by (force simp: bcontains_iff)
  then show ?thesis by (intro set_eqI) (simp only: dom_def mem_Collect_eq db_content_def bcontains_def)
qed

lemma distinct_drop_path:
  "distinct (map fst m) \<Longrightarrow> \<forall>x\<in>set m. fst (fst x) = p \<Longrightarrow> distinct (map fst (map (\<lambda>((path, k), v). (k, v)) m))"
proof (induction m)
  case (Cons x m)
  obtain k v where x: "x = ((p, k), v)" using Cons.prems(2) by (cases x) auto
  have "k \<notin> fst ` set (map (\<lambda>((path, k), v). (k, v)) m)"
    using Cons.prems x by force
  then show ?case using Cons x by (simp add: image_image comp_def)
qed simp

lemma option_eqI: "(\<And>v. a = Some v \<longleftrightarrow> b = Some v) \<Longrightarrow> a = b"
  by (cases a; cases b) auto

lemma db_path_entries:
  assumes "bsorted (db_values s)"
  shows "distinct (map fst (map (\<lambda>((path, k), v). (k, v)) (filter (\<lambda>((path, k), v). path = p) (db_values s))))"
    and "map_of (map (\<lambda>((path, k), v). (k, v)) (filter (\<lambda>((path, k), v). path = p) (db_values s))) = db_content p s"
proof -
  let ?es = "map (\<lambda>((path, k), v). (k, v)) (filter (\<lambda>((path, k), v). path = p) (db_values s))"
  have "distinct (map fst (filter (\<lambda>((path, k), v). path = p) (db_values s)))"
    using bsorted_distinct [OF bsorted_filter [OF assms]] .
  then show d: "distinct (map fst ?es)"
    by (rule distinct_drop_path) auto
  have "(k, v) \<in> set ?es \<longleftrightarrow> db_content p s k = Some v" for k v
    using bget_mem [OF assms, of "(p, k)" v] by (force simp: db_content_def)
  then show "map_of ?es = db_content p s"
    by (intro ext option_eqI) (simp only: map_of_eq_Some_iff [OF d])
qed

lemma db_content_set: "db_content p (s\<lparr>db_values := binsert (q, k) v (db_values s)\<rparr>) =
    (if p = q then (db_content p s)(k \<mapsto> v) else db_content p s)"
  by (auto simp: db_content_def fun_eq_iff)

lemma db_content_del: "db_content p (s\<lparr>db_values := bremove (q, k) (db_values s)\<rparr>) =
    (if p = q then (db_content p s)(k := None) else db_content p s)"
  by (auto simp: db_content_def fun_eq_iff)

lemma db_content_retain:
  "bsorted (db_values s) \<Longrightarrow> db_content p (s\<lparr>db_values := bretain (\<lambda>(path, k) v. keep path) (db_values s)\<rparr>) =
    (if keep p then db_content p s else Map.empty)"
  by (auto simp: db_content_def fun_eq_iff bget_bretain split: option.split)

lemma db_plain_update:
  "db_plain C p s \<Longrightarrow> bsorted m \<Longrightarrow> db_plain C p (s\<lparr>db_values := m\<rparr>)"
  by (simp add: db_plain_def direct_subdirs_def)

lemma db_granted: "db_plain C p s \<Longrightarrow> cx_require C table_db_read_capability = Ok ()"
    "db_plain C p s \<Longrightarrow> cx_require C table_db_write_capability = Ok ()"
  by (simp_all add: db_plain_def cx_require_def)

text \<open>A plain directory is a table: it keeps the contract for the values at its path.\<close>

interpretation db: table_contract C "db_table C p" "db_plain C p" "\<lambda>k. legal_segment C (sym_name k)" "db_content p"
  for C p
proof
  fix s :: "'a db_store" and k and v :: 'a
  assume s: "db_plain C p s"
  then have sorted: "bsorted (db_values s)" and nosub: "direct_subdirs p s = []" by (simp_all add: db_plain_def)
  note g = db_granted [OF s] op_bind_def op_simps
  show "\<exists>ks. tb_keys (db_table C p) s = (s, Ok ks) \<and> distinct ks \<and> set ks = dom (db_content p s)"
    by (simp add: db_keys_def g nosub ssorted_distinct db_path_keys del: set_map)
  have "length (map (\<lambda>((path, k), v). (k, v)) (filter (\<lambda>((path, k), v). path = p) (db_values s))) =
      card (dom (db_content p s))"
    using db_path_entries [OF sorted, of p] by (metis distinct_card dom_map_of_conv_image_fst length_map list.set_map)
  then show "tb_len (db_table C p) s = (s, Ok (card (dom (db_content p s))))"
    by (simp add: db_len_def db_entries_def g)
  show "\<exists>es. tb_entries (db_table C p) s = (s, Ok es) \<and> distinct (map fst es) \<and> map_of es = db_content p s"
    using db_path_entries [OF sorted, of p] by (simp add: db_entries_def g)
  show "\<exists>s'. tb_clear (db_table C p) s = (s', Ok ()) \<and> db_plain C p s' \<and> db_content p s' = Map.empty"
    using db_plain_update [OF s] db_content_retain [OF sorted, of p "\<lambda>q. q \<noteq> p"] sorted by (simp add: db_clear_def g bsorted_bretain)
  assume k: "legal_segment C (sym_name k)"
  then have nodir: "child_join p (sym_name k) \<notin> set (db_dirs s)" using s by (simp add: db_plain_def)
  show "tb_get (db_table C p) k s = (s, value_or_nil C (db_content p s k))"
    by (simp add: db_get_def g db_content_def)
  show "tb_has (db_table C p) k s = (s, Ok (db_content p s k \<noteq> None))"
    using k nodir by (simp add: db_has_def g child_path_def db_content_def bcontains_def)
  show "\<exists>s'. tb_set (db_table C p) k v s = (s', Ok ()) \<and> db_plain C p s' \<and> db_content p s' = (db_content p s)(k \<mapsto> v)"
    using k nodir db_plain_update [OF s] sorted by (simp add: db_set_def g child_path_def db_content_set bsorted_binsert)
  show "\<exists>s' r. tb_del (db_table C p) k s = (s', r) \<and> db_plain C p s' \<and> db_content p s' = (db_content p s)(k := None)"
    using db_plain_update [OF s] sorted by (simp add: db_del_def g db_content_del bsorted_bremove)
  show "snd (tb_del (db_table C p) k s) = value_or_nil C (db_content p s k)"
    by (simp add: db_del_def g db_content_def)
qed

section \<open>Histories\<close>

text \<open>The operations that change the store, each through the handle of some path.\<close>

datatype 'v db_event =
    DbSet string symbol 'v
  | DbDel string symbol
  | DbClear string
  | DbExchange string symbol table_expected "'v table_replacement"
  | DbMkdir string symbol
  | DbRmdir string symbol

fun db_apply :: "'v cx \<Rightarrow> (string \<Rightarrow> (table_error, 'v) res) \<Rightarrow> 'v db_event \<Rightarrow> 'v db_store \<Rightarrow> 'v db_store" where
  "db_apply C mk (DbSet p k v) s = fst (db_set C p k v s)"
| "db_apply C mk (DbDel p k) s = fst (db_del C p k s)"
| "db_apply C mk (DbClear p) s = fst (db_clear C p s)"
| "db_apply C mk (DbExchange p k e r) s = fst (db_compare_exchange C p k e r s)"
| "db_apply C mk (DbMkdir p k) s = fst (db_mkdir C mk p k s)"
| "db_apply C mk (DbRmdir p k) s = fst (db_rmdir C p k s)"

fun db_event_key :: "'v db_event \<Rightarrow> symbol option" where
  "db_event_key (DbSet p k v) = Some k"
| "db_event_key (DbDel p k) = Some k"
| "db_event_key (DbClear p) = None"
| "db_event_key (DbExchange p k e r) = Some k"
| "db_event_key (DbMkdir p k) = Some k"
| "db_event_key (DbRmdir p k) = Some k"

text \<open>What an operation does to the store, whatever it answers.\<close>

lemma db_set_store:
  "fst (db_set C p k v s) = s \<or>
   legal_segment C (sym_name k) \<and> child_join p (sym_name k) \<notin> set (db_dirs s) \<and>
     fst (db_set C p k v s) = s\<lparr>db_values := binsert (p, k) v (db_values s)\<rparr>"
  by (auto simp: db_set_def op_bind_def op_simps child_path_def cx_require_def)

lemma db_del_store:
  "fst (db_del C p k s) = s \<or> fst (db_del C p k s) = s\<lparr>db_values := bremove (p, k) (db_values s)\<rparr>"
  by (auto simp: db_del_def op_bind_def op_simps cx_require_def)

lemma db_clear_store:
  "fst (db_clear C p s) = s \<or> fst (db_clear C p s) = s\<lparr>db_values := bretain (\<lambda>(path, k) v. path \<noteq> p) (db_values s)\<rparr>"
  by (auto simp: db_clear_def op_bind_def op_simps cx_require_def)

lemma db_mkdir_store:
  "fst (db_mkdir C mk p k s) = s \<or>
   legal_segment C (sym_name k) \<and> \<not> bcontains (db_values s) (p, k) \<and>
     fst (db_mkdir C mk p k s) = s\<lparr>db_dirs := sinsert (child_join p (sym_name k)) (db_dirs s)\<rparr>"
  by (auto simp: db_mkdir_def op_bind_def op_simps child_path_def cx_require_def)

lemma db_exchange_run:
  "db_compare_exchange C p k e r s =
     (if \<not> cx_granted C table_db_write_capability then (s, Err (CapabilityDenied table_db_write_capability))
      else case replacement_value C r of Err x \<Rightarrow> (s, Err x) | Panic m \<Rightarrow> (s, Panic m)
      | Ok new \<Rightarrow>
        if \<not> legal_segment C (sym_name k) then (s, Err (Eval ''table/db: illegal name''))
        else if child_join p (sym_name k) \<in> set (db_dirs s) then (s, Err (Eval ''table/db: is a directory''))
        else case observe_value C (db_content p s k) of Err x \<Rightarrow> (s, Err x) | Panic m \<Rightarrow> (s, Panic m)
        | Ok observed \<Rightarrow>
          (if expectation_met e observed
           then s\<lparr>db_values := (case new of Some v \<Rightarrow> binsert (p, k) v (db_values s) | None \<Rightarrow> bremove (p, k) (db_values s))\<rparr>
           else s, Ok \<lparr>tx_exchanged = expectation_met e observed, tx_observed = observed\<rparr>))"
  by (simp add: db_compare_exchange_def op_bind_def op_simps cx_require_def child_path_def db_content_def Let_def
      split: res.split)

lemma db_exchange_store:
  "fst (db_compare_exchange C p k e r s) = s \<or>
   fst (db_compare_exchange C p k e r s) = s\<lparr>db_values := bremove (p, k) (db_values s)\<rparr> \<or>
   legal_segment C (sym_name k) \<and> child_join p (sym_name k) \<notin> set (db_dirs s) \<and>
     (\<exists>v. fst (db_compare_exchange C p k e r s) = s\<lparr>db_values := binsert (p, k) v (db_values s)\<rparr>)"
  unfolding db_exchange_run by (auto split: res.split option.split)

lemma db_exchange_OkE:
  assumes "db_compare_exchange C p k e r s = (s', Ok x)"
  obtains new where "replacement_value C r = Ok new" "observe_value C (db_content p s k) = Ok (tx_observed x)"
    "tx_exchanged x = expectation_met e (tx_observed x)"
    "s' = (if tx_exchanged x then s\<lparr>db_values := (case new of Some v \<Rightarrow> binsert (p, k) v (db_values s)
                                                | None \<Rightarrow> bremove (p, k) (db_values s))\<rparr> else s)"
  using assms that unfolding db_exchange_run by (auto split: if_split_asm res.split_asm)

definition db_remove_tree :: "string \<Rightarrow> 'v db_store \<Rightarrow> 'v db_store" where
  "db_remove_tree d s =
     s\<lparr>db_values := bretain (\<lambda>(q, k) v. \<not> under d q) (db_values s), db_dirs := filter (\<lambda>q. \<not> under d q) (db_dirs s)\<rparr>"

lemma db_rmdir_run:
  "db_rmdir C p k s =
     (if \<not> cx_granted C table_db_rmdir_capability then (s, Err (CapabilityDenied table_db_rmdir_capability))
      else if \<not> legal_segment C (sym_name k) then (s, Err (Eval ''table/db: illegal name''))
      else if child_join p (sym_name k) \<notin> set (db_dirs s) then (s, Err (Eval ''table/db: is not a directory''))
      else (db_remove_tree (child_join p (sym_name k)) s, cx_nil C))"
  by (simp add: db_rmdir_def op_bind_def op_simps cx_require_def child_path_def db_remove_tree_def under_iff Let_def
      split_def)

lemma db_rmdir_store:
  "fst (db_rmdir C p k s) = s \<or>
   legal_segment C (sym_name k) \<and> fst (db_rmdir C p k s) = db_remove_tree (child_join p (sym_name k)) s"
  by (simp add: db_rmdir_run)

lemma ssorted_filter: "ssorted s \<Longrightarrow> ssorted (filter f s)"
  by (simp add: ssorted_def sorted_wrt_filter)

lemma db_inv_open: "db_inv C db_open"
  by (simp add: db_inv_def db_open_def ssorted_def)

lemma db_inv_insert:
  "db_inv C s \<Longrightarrow> legal_segment C (sym_name k) \<Longrightarrow> db_inv C (s\<lparr>db_values := binsert (p, k) v (db_values s)\<rparr>)"
  by (auto simp: db_inv_def bsorted_binsert)

lemma db_inv_remove: "db_inv C s \<Longrightarrow> db_inv C (s\<lparr>db_values := bremove q (db_values s)\<rparr>)"
  by (auto simp: db_inv_def bsorted_bremove)

lemma bcontains_bretain: "bsorted m \<Longrightarrow> bcontains (bretain f m) k \<Longrightarrow> bcontains m k"
  by (auto simp: bcontains_def bget_bretain split: option.splits if_splits)

lemma db_inv_retain: "db_inv C s \<Longrightarrow> db_inv C (s\<lparr>db_values := bretain f (db_values s)\<rparr>)"
  unfolding db_inv_def by (auto simp: bsorted_bretain dest: bcontains_bretain)

lemma db_inv_tree: "db_inv C s \<Longrightarrow> d \<noteq> [] \<Longrightarrow> db_inv C (db_remove_tree d s)"
  unfolding db_inv_def db_remove_tree_def by (auto simp: bsorted_bretain ssorted_filter under_def dest: bcontains_bretain)

lemma db_inv_mkdir:
  "db_inv C s \<Longrightarrow> legal_segment C (sym_name k) \<Longrightarrow>
     db_inv C (s\<lparr>db_dirs := sinsert (child_join p (sym_name k)) (db_dirs s)\<rparr>)"
  by (auto simp: db_inv_def)

lemma child_join_ne: "seg \<noteq> [] \<Longrightarrow> child_join p seg \<noteq> []"
  by (simp add: child_join_def)

lemma segment_lawD: "segment_law C \<Longrightarrow> legal_segment C seg \<Longrightarrow> seg \<noteq> [] \<and> CHR ''/'' \<notin> set seg"
  by (simp add: segment_law_def)

lemma db_inv_apply:
  assumes "segment_law C" and "db_inv C s"
  shows "db_inv C (db_apply C mk e s)"
proof (cases e)
  case (DbSet p k v)
  then show ?thesis using db_set_store [of C p k v s] assms by (auto simp: db_inv_insert)
next
  case (DbDel p k)
  then show ?thesis using db_del_store [of C p k s] assms by (auto simp: db_inv_remove)
next
  case (DbClear p)
  then show ?thesis using db_clear_store [of C p s] assms by (auto simp: db_inv_retain)
next
  case (DbExchange p k ex r)
  then show ?thesis using db_exchange_store [of C p k ex r s] assms by (auto simp: db_inv_insert db_inv_remove)
next
  case (DbMkdir p k)
  then show ?thesis using db_mkdir_store [of C mk p k s] assms by (auto simp: db_inv_mkdir)
next
  case (DbRmdir p k)
  then show ?thesis
    using assms segment_lawD [OF assms(1)] by (auto simp: db_rmdir_run db_inv_tree child_join_ne)
qed

text \<open>No name of a directory is both a file and a directory.\<close>

definition db_no_clash :: "'v db_store \<Rightarrow> bool" where
  "db_no_clash s \<longleftrightarrow>
     (\<forall>p k. bcontains (db_values s) (p, k) \<longrightarrow> sym_ns k = None \<and> child_join p (sym_name k) \<notin> set (db_dirs s))"

lemma db_no_clash_fewer:
  "db_no_clash s \<Longrightarrow> (\<And>q. bcontains (db_values s') q \<Longrightarrow> bcontains (db_values s) q) \<Longrightarrow>
     set (db_dirs s') \<subseteq> set (db_dirs s) \<Longrightarrow> db_no_clash s'"
  unfolding db_no_clash_def by blast

lemma db_no_clash_apply:
  assumes law: "segment_law C" and inv: "db_inv C s" and clash: "db_no_clash s"
    and name: "\<forall>k. db_event_key e = Some k \<longrightarrow> sym_ns k = None"
  shows "db_no_clash (db_apply C mk e s)"
proof (cases e)
  case (DbSet p k v)
  then show ?thesis using db_set_store [of C p k v s] clash name by (auto simp: db_no_clash_def)
next
  case (DbDel p k)
  then show ?thesis using db_del_store [of C p k s] clash by (auto simp: db_no_clash_def)
next
  case (DbClear p)
  have "bcontains (db_values (db_apply C mk e s)) q \<Longrightarrow> bcontains (db_values s) q" for q
    using db_clear_store [of C p s] DbClear inv bcontains_bretain by (force simp: db_inv_def)
  then show ?thesis
    using db_clear_store [of C p s] DbClear by (intro db_no_clash_fewer [OF clash]) auto
next
  case (DbExchange p k ex r)
  then show ?thesis using db_exchange_store [of C p k ex r s] clash name by (auto simp: db_no_clash_def)
next
  case (DbMkdir p k)
  show ?thesis
  proof (cases "db_apply C mk e s = s")
    case False
    then have k: "legal_segment C (sym_name k)" "\<not> bcontains (db_values s) (p, k)"
      and eq: "db_apply C mk e s = s\<lparr>db_dirs := sinsert (child_join p (sym_name k)) (db_dirs s)\<rparr>"
      using db_mkdir_store [of C mk p k s] DbMkdir by auto
    have "child_join q (sym_name j) \<noteq> child_join p (sym_name k)" if j: "bcontains (db_values s) (q, j)" for q j
    proof
      assume "child_join q (sym_name j) = child_join p (sym_name k)"
      then have "q = p \<and> sym_name j = sym_name k"
        using child_join_inj segment_lawD [OF law] k(1) inv j unfolding db_inv_def by metis
      moreover have "sym_ns j = None" "sym_ns k = None"
        using clash j name DbMkdir by (auto simp: db_no_clash_def)
      ultimately show False using k(2) j by (metis symbol.expand)
    qed
    then show ?thesis using clash eq by (auto simp: db_no_clash_def)
  qed (use clash in simp)
next
  case (DbRmdir p k)
  have "db_no_clash (db_remove_tree d s)" for d
    using inv by (intro db_no_clash_fewer [OF clash])
      (auto simp: db_remove_tree_def db_inv_def dest: bcontains_bretain)
  then show ?thesis using db_rmdir_store [of C p k s] DbRmdir clash by auto
qed

lemma db_no_clash_open: "db_no_clash db_open"
  by (simp add: db_no_clash_def db_open_def)

lemma db_history:
  assumes "segment_law C" and "list_all (\<lambda>e. \<forall>k. db_event_key e = Some k \<longrightarrow> sym_ns k = None) es"
  shows "db_inv C s \<Longrightarrow> db_no_clash s \<Longrightarrow> db_inv C (fold (db_apply C mk) es s) \<and> db_no_clash (fold (db_apply C mk) es s)"
  using assms(2)
proof (induction es arbitrary: s)
  case (Cons e es)
  then show ?case using db_inv_apply [OF assms(1)] db_no_clash_apply [OF assms(1)] by simp
qed simp

section \<open>Properties\<close>

text \<open>A store for the witnesses: any non-empty name without a separator is legal.\<close>

definition sample_db_cx :: "string cx" where
  "sample_db_cx =
     \<lparr>cx_granted = \<lambda>_. True, cx_nil = Ok ''nil'', cx_string = Ok, cx_bytes = \<lambda>bs. Ok (from_bytes bs),
      cx_expr = \<lambda>e. Ok ''expr'', as_expr = \<lambda>v. Ok (EString v),
      legal_segment = \<lambda>seg. seg \<noteq> [] \<and> CHR ''/'' \<notin> set seg\<rparr>"

lemma sample_db_law: "segment_law sample_db_cx"
  by (simp add: segment_law_def sample_db_cx_def)

text \<open>C19: After any history of operations through any handles, with plain (unqualified) names, the store is
  well formed: values and directories stay ordered, the root stays a directory, every stored key is
  a legal segment, and no name of a directory is at once a file and a directory.\<close>

theorem db_tree_invariant:
  assumes "segment_law C"
    and "list_all (\<lambda>e. \<forall>k. db_event_key e = Some k \<longrightarrow> sym_ns k = None) es"
  shows "db_inv C (fold (db_apply C mk) es db_open) \<and> db_no_clash (fold (db_apply C mk) es db_open)"
  by (rule db_history [OF assms db_inv_open db_no_clash_open])

theorem db_tree_invariant_witness:
  "db_no_clash (fold (db_apply sample_db_cx Ok)
      [DbMkdir [] (sym_new ''a''), DbSet [] (sym_new ''a'') ''v'', DbSet ''a'' (sym_new ''b'') ''w'', DbRmdir [] (sym_new ''a'')]
      db_open)"
  by (rule conjunct2 [OF db_tree_invariant [OF sample_db_law]]) simp

lemma under_siblings:
  assumes "under (child_join p a) q" "under (child_join p b) q" "CHR ''/'' \<notin> set a" "CHR ''/'' \<notin> set b"
  shows "a = b"
proof -
  have "a = b" if "a @ x = b @ y" "x = [] \<or> (\<exists>r. x = CHR ''/'' # r)" "y = [] \<or> (\<exists>r. y = CHR ''/'' # r)" for x y
    using that assms(3,4) by (auto simp: append_eq_append_conv2 append_eq_Cons_conv Cons_eq_append_conv)
  moreover have "\<exists>x. q = (if p = [] then [] else p @ ''/'') @ a @ x \<and> (x = [] \<or> (\<exists>r. x = CHR ''/'' # r))"
    using assms(1) by (auto simp: under_def child_join_def)
  moreover have "\<exists>y. q = (if p = [] then [] else p @ ''/'') @ b @ y \<and> (y = [] \<or> (\<exists>r. y = CHR ''/'' # r))"
    using assms(2) by (auto simp: under_def child_join_def)
  ultimately show ?thesis by (metis same_append_eq)
qed

text \<open>Removing a directory removes its whole subtree, values and directories, and nothing else: every
  value and directory outside it stays, in particular the subtrees of its siblings, also those whose
  names start alike. A refused removal changes nothing.\<close>

theorem db_rmdir_subtree:
  assumes "segment_law C" and "db_inv C s" and "db_rmdir C p k s = (s', r)"
  shows "(is_ok r \<longrightarrow>
      (\<forall>q j. bget (db_values s') (q, j) = (if under (child_join p (sym_name k)) q then None else bget (db_values s) (q, j))) \<and>
      (\<forall>q. q \<in> set (db_dirs s') \<longleftrightarrow> q \<in> set (db_dirs s) \<and> \<not> under (child_join p (sym_name k)) q) \<and>
      (\<forall>seg q j. legal_segment C seg \<and> seg \<noteq> sym_name k \<and> under (child_join p seg) q \<longrightarrow>
         bget (db_values s') (q, j) = bget (db_values s) (q, j) \<and> (q \<in> set (db_dirs s') \<longleftrightarrow> q \<in> set (db_dirs s)))) \<and>
    (is_ok (cx_nil C) \<and> \<not> is_ok r \<longrightarrow> s' = s) \<and> db_inv C s'"
proof -
  let ?d = "child_join p (sym_name k)"
  have inv: "db_inv C s'"
    using db_inv_apply [OF assms(1,2), of mk "DbRmdir p k"] assms(3) by simp
  have fail: "is_ok (cx_nil C) \<and> \<not> is_ok r \<longrightarrow> s' = s"
    using assms(3) by (auto simp: db_rmdir_run split: if_splits)
  have sorted: "bsorted (db_values s)" using assms(2) by (simp add: db_inv_def)
  {
    assume "is_ok r"
    then have s': "s' = db_remove_tree ?d s" and legal: "legal_segment C (sym_name k)"
      using assms(3) by (auto simp: db_rmdir_run split: if_splits)
    have vals: "bget (db_values s') (q, j) = (if under ?d q then None else bget (db_values s) (q, j))" for q j
      using sorted by (auto simp: s' db_remove_tree_def bget_bretain split: option.split)
    have dirs: "q \<in> set (db_dirs s') \<longleftrightarrow> q \<in> set (db_dirs s) \<and> \<not> under ?d q" for q
      by (auto simp: s' db_remove_tree_def)
    have "\<not> under ?d q" if "legal_segment C seg" "seg \<noteq> sym_name k" "under (child_join p seg) q" for seg q
      using under_siblings that segment_lawD [OF assms(1)] legal by blast
    note vals dirs this
  }
  then show ?thesis using inv fail by (simp; blast)
qed

theorem db_rmdir_subtree_witness:
  "bget (db_values (fst (db_rmdir sample_db_cx [] (sym_new ''a'')
      (fold (db_apply sample_db_cx Ok)
        [DbMkdir [] (sym_new ''a''), DbMkdir [] (sym_new ''ab''), DbSet ''ab'' (sym_new ''x'') ''w''] db_open))))
     (''ab'', sym_new ''x'') = Some ''w''"
proof -
  let ?es = "[DbMkdir [] (sym_new ''a''), DbMkdir [] (sym_new ''ab''), DbSet ''ab'' (sym_new ''x'') ''w'']"
  let ?s = "fold (db_apply sample_db_cx Ok) ?es db_open"
  have inv: "db_inv sample_db_cx ?s"
    by (rule conjunct1 [OF db_history [OF sample_db_law _ db_inv_open db_no_clash_open]]) simp
  have s: "bget (db_values ?s) (''ab'', sym_new ''x'') = Some ''w''" "''a'' \<in> set (db_dirs ?s)"
    by code_simp+
  obtain s' where run: "db_rmdir sample_db_cx [] (sym_new ''a'') ?s = (s', Ok ''nil'')"
    using s(2) by (simp add: db_rmdir_run sample_db_cx_def child_join_def del: fold_simps)
  have "under (child_join [] ''ab'') ''ab''" by (simp add: child_join_def)
  moreover have "legal_segment sample_db_cx ''ab''" by (simp add: sample_db_cx_def)
  ultimately have "bget (db_values s') (''ab'', sym_new ''x'') = bget (db_values ?s) (''ab'', sym_new ''x'')"
    using db_rmdir_subtree [OF sample_db_law inv run] by fastforce
  then show ?thesis using run s(1) by simp
qed

text \<open>A compare-exchange is exact: an answer reports the comparison with the current value; exactly when it
  matched, the key now has the replacement and nothing else changed; otherwise, and after an error,
  the store is as before. So of two exchanges that expect the same value the second one fails, unless
  the first one installed an equal value.\<close>

theorem db_exchange_exact:
  assumes "db_compare_exchange C p k e r s = (s', Ok x)"
  shows "observe_value C (db_content p s k) = Ok (tx_observed x) \<and>
    (tx_exchanged x \<longleftrightarrow> expectation_met e (tx_observed x)) \<and>
    (tx_exchanged x \<longrightarrow> replacement_value C r = Ok (db_content p s' k)) \<and>
    (\<not> tx_exchanged x \<longrightarrow> s' = s) \<and>
    (\<forall>q j. (q, j) \<noteq> (p, k) \<longrightarrow> db_content q s' j = db_content q s j) \<and> db_dirs s' = db_dirs s \<and>
    (\<forall>r' s2 y. tx_exchanged x \<and> observe_value C (db_content p s' k) \<noteq> Ok (tx_observed x) \<and>
       db_compare_exchange C p k e r' s' = (s2, Ok y) \<longrightarrow> \<not> tx_exchanged y \<and> s2 = s')"
proof -
  obtain new where new: "replacement_value C r = Ok new" "observe_value C (db_content p s k) = Ok (tx_observed x)"
      "tx_exchanged x = expectation_met e (tx_observed x)"
      "s' = (if tx_exchanged x then s\<lparr>db_values := (case new of Some v \<Rightarrow> binsert (p, k) v (db_values s)
                                                  | None \<Rightarrow> bremove (p, k) (db_values s))\<rparr> else s)"
    using assms by (rule db_exchange_OkE)
  have det: "expectation_met e a \<Longrightarrow> expectation_met e b \<Longrightarrow> a = b" for a b
    by (cases "(e, a)" rule: expectation_met.cases; cases b) auto
  have again: "\<not> tx_exchanged y \<and> s2 = s'"
    if "tx_exchanged x" "observe_value C (db_content p s' k) \<noteq> Ok (tx_observed x)"
      "db_compare_exchange C p k e r' s' = (s2, Ok y)" for r' s2 y
    using that(3) by (rule db_exchange_OkE) (use that det new(3) in auto)
  have "db_content p s' k = new" if "tx_exchanged x"
    using that new(4) by (simp add: db_content_set db_content_del split: option.split)
  moreover have "db_content q s' j = db_content q s j" if "(q, j) \<noteq> (p, k)" for q j
    using that new(4) by (auto simp: db_content_set db_content_del split: option.split)
  moreover have "db_dirs s' = db_dirs s" by (simp add: new(4))
  ultimately show ?thesis using new(1,2,3,4) again by (simp; blast)
qed

theorem db_exchange_exact_witness:
  "\<exists>s' s2. db_compare_exchange sample_db_cx [] (sym_new ''head'') ExpectAbsent (ReplaceValue ''1'') db_open =
       (s', Ok \<lparr>tx_exchanged = True, tx_observed = SeenAbsent\<rparr>) \<and>
     db_compare_exchange sample_db_cx [] (sym_new ''head'') ExpectAbsent (ReplaceValue ''2'') s' =
       (s2, Ok \<lparr>tx_exchanged = False, tx_observed = SeenValue (EString ''1'')\<rparr>) \<and>
     db_content [] s2 (sym_new ''head'') = Some ''1''"
proof -
  obtain s' where s': "db_compare_exchange sample_db_cx [] (sym_new ''head'') ExpectAbsent (ReplaceValue ''1'') db_open =
       (s', Ok \<lparr>tx_exchanged = True, tx_observed = SeenAbsent\<rparr>)"
    by (simp add: db_exchange_run sample_db_cx_def db_open_def db_content_def child_join_def)
  note one = db_exchange_exact [OF s']
  have now: "db_content [] s' (sym_new ''head'') = Some ''1''"
    using one by (simp add: sample_db_cx_def)
  have "child_join [] ''head'' \<notin> set (db_dirs s')"
    using one by (simp add: db_open_def child_join_def)
  then obtain s2 where s2: "db_compare_exchange sample_db_cx [] (sym_new ''head'') ExpectAbsent (ReplaceValue ''2'') s' =
       (s2, Ok \<lparr>tx_exchanged = False, tx_observed = SeenValue (EString ''1'')\<rparr>)"
    using now by (simp add: db_exchange_run sample_db_cx_def)
  then have "s2 = s'" using db_exchange_exact [OF s2] by simp
  then show ?thesis using s' s2 now by blast
qed

section \<open>Where names are not plain\<close>

text \<open>
  \<open>child_path\<close> drops the namespace of a symbol, but \<open>mkdir\<close> looks for a file under the full symbol: a
  qualified name makes a directory over an existing file of the same name, after which that file can
  be read but not replaced. And a handle to a removed directory still writes: the value is invisible
  until a directory of that name is made again, which then is not empty.
\<close>

lemma db_mkdir_over_file:
  "let s = fold (db_apply sample_db_cx Ok) [DbSet [] (sym_new ''x'') ''v'', DbMkdir [] (sym_qualified ''a'' ''x'')] db_open
   in snd (db_is_dir sample_db_cx [] (sym_new ''x'') s) = Ok True \<and>
      snd (db_get sample_db_cx [] (sym_new ''x'') s) = Ok ''v'' \<and>
      snd (db_set sample_db_cx [] (sym_new ''x'') ''w'' s) = Err (Eval ''table/db: is a directory'')"
  by code_simp

lemma db_orphan_value:
  "let s = fold (db_apply sample_db_cx Ok)
     [DbMkdir [] (sym_new ''d''), DbRmdir [] (sym_new ''d''), DbSet ''d'' (sym_new ''x'') ''v'', DbMkdir [] (sym_new ''d'')] db_open
   in snd (db_get sample_db_cx ''d'' (sym_new ''x'') s) = Ok ''v''"
  by code_simp

end
