(* ===== verification/Sealed_Format.thy ===== *)
theory Sealed_Format
  imports Table_Iface Std_Text
begin

text \<open>
  The pure part of the sealed table, \<open>crates/sim-table-sealed/src\<close>: errors (\<open>error.rs\<close>), the sealed-object
  wire format and the authenticated binding (\<open>format.rs\<close>), the payload (\<open>codec.rs\<close>) and the blinded names
  (\<open>blind.rs\<close>). \<open>ring\<close>'s HMAC and ChaCha20-Poly1305 and the portable codec are members of the record
  \<open>crypto\<close>.
\<close>

section \<open>Errors\<close>

datatype sealed_error =
    GrantUnavailable
  | Authentication
  | NonceReuse
  | NonceBudgetExhausted
  | Oversized
  | UnsupportedValue

fun sealed_error_text :: "sealed_error \<Rightarrow> string" where
  "sealed_error_text GrantUnavailable = ''sealed object grant unavailable''"
| "sealed_error_text Authentication = ''sealed object authentication failed''"
| "sealed_error_text NonceReuse = ''sealed object nonce reuse refused''"
| "sealed_error_text NonceBudgetExhausted = ''sealed object nonce budget exhausted''"
| "sealed_error_text Oversized = ''sealed object size limit exceeded''"
| "sealed_error_text UnsupportedValue = ''sealed table accepts portable data values only''"

section \<open>External functions\<close>

text \<open>
  \<open>seal key nonce aad plaintext\<close> is the ciphertext and its tag, \<open>open_sealed\<close> the plaintext of an
  authentic ciphertext-and-tag.
\<close>

record crypto =
  hmac :: "u8 list \<Rightarrow> u8 list \<Rightarrow> u8 list"
  aead_seal :: "u8 list \<Rightarrow> u8 list \<Rightarrow> u8 list \<Rightarrow> u8 list \<Rightarrow> (u8 list \<times> u8 list) option"
  aead_open :: "u8 list \<Rightarrow> u8 list \<Rightarrow> u8 list \<Rightarrow> u8 list \<Rightarrow> u8 list option"
  encode_portable :: "expr \<Rightarrow> string option"
  decode_portable :: "string \<Rightarrow> expr option"

section \<open>Wire format\<close>

definition sealed_version :: u8 where
  "sealed_version = 1"

definition suite_chacha20_poly1305 :: u8 where
  "suite_chacha20_poly1305 = 1"

definition nonce_len :: nat where
  "nonce_len = 12"

definition tag_len :: nat where
  "tag_len = 16"

definition header_len :: nat where
  "header_len = 2 + nonce_len + 4"

record binding =
  bi_lane :: "u8 list"
  bi_generation :: u64
  bi_physical_key :: string
  bi_metadata_class :: string

definition put_sized :: "u8 list \<Rightarrow> u8 list" where
  "put_sized bs = u64_to_be (word_of_nat (length bs)) @ bs"

definition binding_aad :: "binding \<Rightarrow> u8 list" where
  "binding_aad b =
     as_bytes (''sim-table-sealed'') @ [0] @ [sealed_version] @ [suite_chacha20_poly1305] @
     put_sized (bi_lane b) @ u64_to_be (bi_generation b) @ put_sized (as_bytes (bi_physical_key b)) @
     put_sized (as_bytes (bi_metadata_class b))"

record sealed_object =
  so_suite :: u8
  so_nonce :: "u8 list"
  so_ciphertext_and_tag :: "u8 list"

definition try_u32 :: "nat \<Rightarrow> u32 option" where
  "try_u32 n = (if n < 2 ^ 32 then Some (word_of_nat n) else None)"

definition sealed_object_encode :: "sealed_object \<Rightarrow> (sealed_error, u8 list) res" where
  "sealed_object_encode ob =
     res_bind (ok_or (try_u32 (length (so_ciphertext_and_tag ob))) Oversized) (\<lambda>len.
       Ok ([sealed_version] @ [so_suite ob] @ so_nonce ob @ u32_to_be len @ so_ciphertext_and_tag ob))"

definition byte_range :: "nat \<Rightarrow> nat \<Rightarrow> 'a list \<Rightarrow> 'a list" where
  "byte_range a b xs = take (b - a) (drop a xs)"

definition sealed_object_decode :: "u8 list \<Rightarrow> nat \<Rightarrow> (sealed_error, sealed_object) res" where
  "sealed_object_decode bs max_object_bytes =
     (if length bs > max_object_bytes \<or> length bs < header_len + tag_len then
        Err (if length bs > max_object_bytes then Oversized else Authentication)
      else if bs ! 0 \<noteq> sealed_version \<or> bs ! 1 \<noteq> suite_chacha20_poly1305 then Err Authentication
      else
        let nonce = byte_range 2 (2 + nonce_len) bs;
            len = unat (u32_from_be (byte_range 14 18 bs))
        in if len < tag_len \<or> checked_add_usize header_len len \<noteq> Some (length bs) then Err Authentication
           else Ok \<lparr>so_suite = bs ! 1, so_nonce = nonce, so_ciphertext_and_tag = drop header_len bs\<rparr>)"

section \<open>Payload\<close>

definition payload_encode :: "crypto \<Rightarrow> string \<Rightarrow> expr \<Rightarrow> nat \<Rightarrow> (sealed_error, u8 list) res" where
  "payload_encode X key e max_bytes =
     res_bind (ok_or (encode_portable X e) UnsupportedValue) (\<lambda>value.
     res_bind (ok_or (try_u32 (length key)) Oversized) (\<lambda>key_len.
       let out = u32_to_be key_len @ as_bytes key @ as_bytes value
       in if length out > max_bytes then Err Oversized else Ok out))"

definition get_range :: "nat \<Rightarrow> nat \<Rightarrow> 'a list \<Rightarrow> 'a list option" where
  "get_range a b xs = (if a \<le> b \<and> b \<le> length xs then Some (byte_range a b xs) else None)"

definition payload_decode :: "crypto \<Rightarrow> u8 list \<Rightarrow> nat \<Rightarrow> (sealed_error, string \<times> expr) res" where
  "payload_decode X bs max_bytes =
     (if length bs > max_bytes \<or> length bs < 4 then Err Authentication
      else
        let key_len = unat (u32_from_be (take 4 bs)) in
        res_bind (ok_or (checked_add_usize 4 key_len) Authentication) (\<lambda>split.
        res_bind (ok_or (get_range 4 split bs) Authentication) (\<lambda>key_bytes.
        res_bind (ok_or (from_utf8 key_bytes) Authentication) (\<lambda>key.
        res_bind (ok_or (get_range split (length bs) bs) Authentication) (\<lambda>text_bytes.
        res_bind (ok_or (from_utf8 text_bytes) Authentication) (\<lambda>text.
        res_bind (ok_or (decode_portable X text) Authentication) (\<lambda>e.
          Ok (key, e))))))))"

section \<open>Blinded names\<close>

definition hex_text :: "u8 list \<Rightarrow> string" where
  "hex_text bs = concat (map hex_byte bs)"

definition blind_key :: "crypto \<Rightarrow> u8 list \<Rightarrow> u8 list \<Rightarrow> string \<Rightarrow> string" where
  "blind_key X key lane logical =
     hex_text (hmac X key (as_bytes ''sim-table-sealed/key/v1'' @ [0] @
       u64_to_be (word_of_nat (length lane)) @ lane @ as_bytes logical))"

definition blind_lane :: "crypto \<Rightarrow> u8 list \<Rightarrow> u8 list \<Rightarrow> string" where
  "blind_lane X key lane =
     hex_text (hmac X key (as_bytes ''sim-table-sealed/lane/v1'' @ [0] @
       u64_to_be (word_of_nat (length lane)) @ lane))"

section \<open>The wire format is strict\<close>

definition sealed_object_ok :: "sealed_object \<Rightarrow> bool" where
  "sealed_object_ok ob \<longleftrightarrow>
     so_suite ob = suite_chacha20_poly1305 \<and> length (so_nonce ob) = nonce_len \<and>
     tag_len \<le> length (so_ciphertext_and_tag ob) \<and> length (so_ciphertext_and_tag ob) < 2 ^ 32"

lemma unat_u32_of_nat: "n < 2 ^ 32 \<Longrightarrow> unat (word_of_nat n :: u32) = n"
  by (simp add: unat_of_nat)

lemma be_nat_nat_be: "be_nat (length bs) (nat_be bs) = bs"
proof (induction bs rule: rev_induct)
  case (snoc b bs)
  have "unat b < 256" by (rule unat_u8_bound)
  then show ?case using snoc by (simp add: nat_be_append1)
qed simp

lemma u32_to_from_be: "length bs = 4 \<Longrightarrow> u32_to_be (u32_from_be bs) = bs"
  using nat_be_bound [of bs] be_nat_nat_be [of bs]
  by (simp add: u32_to_be_def u32_from_be_def unat_u32_of_nat)

lemma sealed_object_encode_Ok:
  "sealed_object_encode ob = Ok bs \<longleftrightarrow>
     length (so_ciphertext_and_tag ob) < 2 ^ 32 \<and>
     bs = [sealed_version, so_suite ob] @ so_nonce ob @ u32_to_be (word_of_nat (length (so_ciphertext_and_tag ob))) @
          so_ciphertext_and_tag ob"
  by (auto simp: sealed_object_encode_def res_simps try_u32_def)

lemma sealed_object_decode_encode:
  assumes "sealed_object_encode ob = Ok bs" and "sealed_object_ok ob" and "length bs \<le> m"
  shows "sealed_object_decode bs m = Ok ob"
proof -
  obtain c where ob: "ob = \<lparr>so_suite = suite_chacha20_poly1305, so_nonce = so_nonce ob, so_ciphertext_and_tag = c\<rparr>"
    and c: "tag_len \<le> length c" "length c < 2 ^ 32" and n: "length (so_nonce ob) = 12"
    using assms(2) by (cases ob) (auto simp: sealed_object_ok_def nonce_len_def)
  have bs: "bs = [sealed_version, suite_chacha20_poly1305] @ so_nonce ob @ u32_to_be (word_of_nat (length c)) @ c"
    using assms(1) ob by (auto simp: sealed_object_encode_Ok) (metis sealed_object.select_convs)+
  have len: "length bs = 18 + length c" using n by (simp add: bs)
  have parts: "byte_range 2 14 bs = so_nonce ob" "byte_range 14 18 bs = u32_to_be (word_of_nat (length c))" "drop 18 bs = c"
    using n by (simp_all add: bs byte_range_def)
  show ?thesis
    using c assms(3) len n parts ob
    by (simp add: sealed_object_decode_def header_len_def nonce_len_def tag_len_def Let_def unat_u32_of_nat
        checked_add_usize_def usize_bound_def bs)
qed

lemma drop_range: "a \<le> b \<Longrightarrow> drop a xs = byte_range a b xs @ drop b xs"
  unfolding byte_range_def by (metis append_take_drop_id drop_drop le_add_diff_inverse2)

lemma sealed_object_decode_Ok:
  assumes "sealed_object_decode bs m = Ok ob"
  shows "length bs \<le> m \<and> sealed_object_ok ob \<and> sealed_object_encode ob = Ok bs"
proof -
  let ?len = "unat (u32_from_be (byte_range 14 18 bs))"
  have m: "length bs \<le> m" "34 \<le> length bs" and ver: "bs ! 0 = sealed_version" "bs ! 1 = suite_chacha20_poly1305"
    and len: "16 \<le> ?len" "18 + ?len = length bs"
    and ob: "ob = \<lparr>so_suite = suite_chacha20_poly1305, so_nonce = byte_range 2 14 bs, so_ciphertext_and_tag = drop 18 bs\<rparr>"
    using assms by (auto simp: sealed_object_decode_def header_len_def nonce_len_def tag_len_def Let_def
        checked_add_usize_def split: if_splits)
  have bound: "?len < 2 ^ 32" using unsigned_less [of "u32_from_be (byte_range 14 18 bs)"] by simp
  have field: "u32_to_be (word_of_nat ?len) = byte_range 14 18 bs"
    using m(2) by (simp add: u32_to_from_be byte_range_def)
  have "drop 14 bs = byte_range 14 18 bs @ drop 18 bs" "drop 2 bs = byte_range 2 14 bs @ drop 14 bs"
    by (rule drop_range, simp)+
  then have "bs = take 2 bs @ byte_range 2 14 bs @ byte_range 14 18 bs @ drop 18 bs"
    by (metis append_take_drop_id)
  moreover have "take 2 bs = [sealed_version, suite_chacha20_poly1305]"
    using ver m(2) by (cases bs; cases "tl bs") auto
  ultimately have "bs = [sealed_version, suite_chacha20_poly1305] @ byte_range 2 14 bs @ byte_range 14 18 bs @ drop 18 bs"
    by metis
  moreover have drop_len: "length (drop 18 bs) = ?len" using len(2) by simp
  ultimately have enc: "sealed_object_encode ob = Ok bs"
    using bound field by (simp add: sealed_object_encode_Ok ob)
  have "length (byte_range 2 14 bs) = 12" using m(2) by (simp add: byte_range_def)
  then have "sealed_object_ok ob"
    unfolding sealed_object_ok_def ob nonce_len_def tag_len_def using drop_len bound len(1)
    by (simp del: length_drop)
  then show ?thesis using enc m(1) by blast
qed

text \<open>The wire format of a sealed object is strict: decoding accepts a byte string exactly when it is the
  encoding of a well-formed object (right version and suite, a whole nonce, at least a tag of
  ciphertext) within the size limit, and then returns that object; no other input is accepted and
  none panics.\<close>

theorem sealed_object_strict:
  "(sealed_object_decode bs m = Ok ob \<longleftrightarrow>
     length bs \<le> m \<and> sealed_object_ok ob \<and> sealed_object_encode ob = Ok bs) \<and>
   \<not> is_panic (sealed_object_decode bs m)"
proof -
  have "\<not> is_panic (sealed_object_decode bs m)"
    by (simp add: sealed_object_decode_def Let_def)
  then show ?thesis using sealed_object_decode_Ok sealed_object_decode_encode by blast
qed

section \<open>What is authenticated\<close>

lemma put_sized_inj:
  assumes "put_sized a @ x = put_sized b @ y" "length a < 2 ^ 64" "length b < 2 ^ 64"
  shows "a = b \<and> x = y"
proof -
  have eq: "u64_to_be (word_of_nat (length a)) = u64_to_be (word_of_nat (length b)) \<and> a @ x = b @ y"
    using assms(1) unfolding put_sized_def append_assoc by (subst (asm) append_eq_append_conv) simp_all
  then have "(word_of_nat (length a) :: u64) = word_of_nat (length b)"
    by (metis u64_from_to_be)
  then have "unat (word_of_nat (length a) :: u64) = unat (word_of_nat (length b) :: u64)" by simp
  then have "length a = length b" using assms(2,3) by (simp add: unat_of_nat)
  then show ?thesis using eq by simp
qed

definition binding_small :: "binding \<Rightarrow> bool" where
  "binding_small b \<longleftrightarrow>
     length (bi_lane b) < 2 ^ 64 \<and> length (bi_physical_key b) < 2 ^ 64 \<and> length (bi_metadata_class b) < 2 ^ 64"

lemma binding_aad_inj:
  assumes "binding_aad a = binding_aad b" "binding_small a" "binding_small b"
  shows "a = b"
proof -
  have eq: "put_sized (bi_lane a) @ u64_to_be (bi_generation a) @ put_sized (as_bytes (bi_physical_key a)) @
        put_sized (as_bytes (bi_metadata_class a)) =
      put_sized (bi_lane b) @ u64_to_be (bi_generation b) @ put_sized (as_bytes (bi_physical_key b)) @
        put_sized (as_bytes (bi_metadata_class b))"
    using assms(1) by (simp add: binding_aad_def)
  then have lane: "bi_lane a = bi_lane b" and
    eq2: "u64_to_be (bi_generation a) @ put_sized (as_bytes (bi_physical_key a)) @ put_sized (as_bytes (bi_metadata_class a)) =
      u64_to_be (bi_generation b) @ put_sized (as_bytes (bi_physical_key b)) @ put_sized (as_bytes (bi_metadata_class b))"
    using put_sized_inj [OF eq] assms(2,3) by (simp_all add: binding_small_def)
  then have gen: "bi_generation a = bi_generation b" and
    eq3: "put_sized (as_bytes (bi_physical_key a)) @ put_sized (as_bytes (bi_metadata_class a)) =
      put_sized (as_bytes (bi_physical_key b)) @ put_sized (as_bytes (bi_metadata_class b))"
    by (simp_all add: append_eq_append_conv) (metis u64_from_to_be)
  then have key: "bi_physical_key a = bi_physical_key b" and
    eq4: "put_sized (as_bytes (bi_metadata_class a)) @ [] = put_sized (as_bytes (bi_metadata_class b)) @ []"
    using put_sized_inj [OF eq3] assms(2,3) by (simp_all add: binding_small_def as_bytes_inj)
  then have "bi_metadata_class a = bi_metadata_class b"
    using put_sized_inj [OF eq4] assms(2,3) by (simp add: binding_small_def as_bytes_inj)
  then show ?thesis using lane gen key by simp
qed

section \<open>The payload round trip\<close>

definition portable_law :: "crypto \<Rightarrow> bool" where
  "portable_law X \<longleftrightarrow> (\<forall>e t. encode_portable X e = Some t \<longrightarrow> str_ok t \<and> decode_portable X t = Some e)"

lemma payload_round_trip:
  assumes "portable_law X" and "payload_encode X key e m = Ok bs" and "str_ok key"
    and "length bs < usize_bound"
  shows "length bs \<le> m \<and> payload_decode X bs m = Ok (key, e)"
proof -
  obtain t where t: "encode_portable X e = Some t" "length key < 2 ^ 32"
      "bs = u32_to_be (word_of_nat (length key)) @ as_bytes key @ as_bytes t" "length bs \<le> m"
    using assms(2) by (auto simp: payload_encode_def res_simps try_u32_def Let_def split: if_splits)
  have law: "str_ok t" "decode_portable X t = Some e" using assms(1) t(1) by (auto simp: portable_law_def)
  have len: "length bs = 4 + length key + length t" by (simp add: t(3))
  have n: "unat (u32_from_be (take 4 bs)) = length key"
    using t(2) by (simp add: t(3) unat_u32_of_nat)
  have key: "get_range 4 (4 + length key) bs = Some (as_bytes key)"
    by (simp add: get_range_def byte_range_def t(3))
  have valu: "get_range (4 + length key) (length bs) bs = Some (as_bytes t)"
    by (simp add: get_range_def byte_range_def t(3))
  show ?thesis
    using t(4) len n key valu law assms(3,4)
    by (simp add: payload_decode_def Let_def checked_add_usize_def from_utf8_as_bytes)
qed

end
