(* ===== verification/Table_Sealed.thy ===== *)
theory Table_Sealed
  imports Sealed_Format
begin

text \<open>
  The sealing decorator, \<open>crates/sim-table-sealed/src/table.rs\<close>. The backend is a value; \<open>tbl\<close> and \<open>dirs\<close>
  are \<open>as_table_impl\<close> and \<open>as_dir\<close>. The set of used nonces is a shared object of the source
  (\<open>Arc<Mutex<HashSet<_>>>\<close>): the world of the decorators holds a store of such sets, a decorator holds
  the handle of one (\<open>sl_used\<close>), \<open>SealedTable::new\<close> allocates an empty one and a child directory copies
  its parent's handle. The world also holds the state of the injected nonce source and the backend's
  world. \<open>mk\<close> is the factory call that wraps a child decorator. Zeroization is not modelled.
\<close>

section \<open>Configuration\<close>

record secret_key =
  sk_id :: string
  sk_aead :: "u8 list"
  sk_blinding :: "u8 list"

record 'n sealed_config =
  sc_grant :: string
  sc_key_id :: string
  sc_lane :: "u8 list"
  sc_generation :: u64
  sc_max_plaintext_bytes :: nat
  sc_max_object_bytes :: nat
  sc_metadata_class :: string
  sc_nonce_budget :: nat
  sc_keys :: "string \<Rightarrow> secret_key option"
  sc_fill :: "'n \<Rightarrow> 'n \<times> (sealed_error, u8 list) res"

record ('n, 'v) sealed_table =
  sl_backend :: 'v
  sl_config :: "'n sealed_config"
  sl_used :: nat

record ('n, 'w) sealed_world =
  sw_used :: "nat \<Rightarrow> u8 list list"
  sw_fresh :: nat
  sw_nonces :: 'n
  sw_backend :: 'w

definition failure :: "sealed_error \<Rightarrow> table_error" where
  "failure e = Eval (''table/sealed: '' @ sealed_error_text e)"

text \<open>The addition in the size check wraps around in a release build.\<close>

definition sealed_new ::
    "('v \<Rightarrow> ('w, 'v) table option) \<Rightarrow> 'v \<Rightarrow> 'n sealed_config \<Rightarrow>
     (('n, 'w) sealed_world, table_error, ('n, 'v) sealed_table) op" where
  "sealed_new tbl backend config sw =
     (if tbl backend = None then (sw, Err (Eval ''table/sealed: backend must implement Table''))
      else if sc_max_plaintext_bytes config = 0 \<or>
              sc_max_object_bytes config < (sc_max_plaintext_bytes config + 34) mod usize_bound \<or>
              sc_metadata_class config = [] \<or> sc_key_id config = [] \<or> sc_nonce_budget config = 0
      then (sw, Err (Eval ''table/sealed: invalid size policy''))
      else (sw\<lparr>sw_used := (sw_used sw)(sw_fresh sw := []), sw_fresh := Suc (sw_fresh sw)\<rparr>,
            Ok \<lparr>sl_backend = backend, sl_config = config, sl_used = sw_fresh sw\<rparr>))"

section \<open>Names and bindings\<close>

definition sealed_key :: "('n, 'v) sealed_table \<Rightarrow> (table_error, secret_key) res" where
  "sealed_key T =
     res_bind (ok_or (sc_keys (sl_config T) (sc_grant (sl_config T))) (failure GrantUnavailable)) (\<lambda>key.
       if sk_id key \<noteq> sc_key_id (sl_config T) then Err (failure Authentication) else Ok key)"

definition lane_prefix :: "crypto \<Rightarrow> ('n, 'v) sealed_table \<Rightarrow> secret_key \<Rightarrow> string" where
  "lane_prefix X T key = blind_lane X (sk_blinding key) (sc_lane (sl_config T))"

definition physical :: "crypto \<Rightarrow> ('n, 'v) sealed_table \<Rightarrow> secret_key \<Rightarrow> symbol \<Rightarrow> symbol" where
  "physical X T key logical =
     sym_new (lane_prefix X T key @ ''-'' @ blind_key X (sk_blinding key) (sc_lane (sl_config T)) (sym_name logical))"

definition belongs_to_lane :: "crypto \<Rightarrow> ('n, 'v) sealed_table \<Rightarrow> secret_key \<Rightarrow> symbol \<Rightarrow> bool" where
  "belongs_to_lane X T key phys =
     (case strip_prefix (lane_prefix X T key) (sym_name phys) of Some rest \<Rightarrow> starts_with ''-'' rest | None \<Rightarrow> False)"

definition sealed_binding :: "('n, 'v) sealed_table \<Rightarrow> symbol \<Rightarrow> binding" where
  "sealed_binding T phys =
     \<lparr>bi_lane = sc_lane (sl_config T), bi_generation = sc_generation (sl_config T),
      bi_physical_key = sym_name phys, bi_metadata_class = sc_metadata_class (sl_config T)\<rparr>"

section \<open>Sealing and opening\<close>

definition fill_nonce :: "('n, 'v) sealed_table \<Rightarrow> (('n, 'w) sealed_world, table_error, u8 list) op" where
  "fill_nonce T sw =
     (let (n', r) = sc_fill (sl_config T) (sw_nonces sw) in (sw\<lparr>sw_nonces := n'\<rparr>, map_err failure r))"

definition claim_nonce :: "('n, 'v) sealed_table \<Rightarrow> u8 list \<Rightarrow> (('n, 'w) sealed_world, table_error, unit) op" where
  "claim_nonce T nonce sw =
     (let used = sw_used sw (sl_used T) in
      if length used \<ge> sc_nonce_budget (sl_config T) then (sw, Err (failure NonceBudgetExhausted))
      else if nonce \<in> set used then (sw, Err (failure NonceReuse))
      else (sw\<lparr>sw_used := (sw_used sw)(sl_used T := nonce # used)\<rparr>, Ok ()))"

definition seal_value ::
    "'v cx \<Rightarrow> crypto \<Rightarrow> ('n, 'v) sealed_table \<Rightarrow> symbol \<Rightarrow> symbol \<Rightarrow> 'v \<Rightarrow> secret_key \<Rightarrow>
     (('n, 'w) sealed_world, table_error, 'v) op" where
  "seal_value C X T logical phys v key =
     op_bind (op_res (as_expr C v)) (\<lambda>e.
     op_bind (op_res (map_err failure (payload_encode X (sym_name logical) e (sc_max_plaintext_bytes (sl_config T))))) (\<lambda>plaintext.
     op_bind (fill_nonce T) (\<lambda>nonce.
     op_bind (claim_nonce T nonce) (\<lambda>_.
     op_bind (op_res (ok_or (aead_seal X (sk_aead key) nonce (binding_aad (sealed_binding T phys)) plaintext)
                            (failure Authentication))) (\<lambda>(ciphertext, tag).
     op_bind (op_res (map_err failure (sealed_object_encode
                \<lparr>so_suite = suite_chacha20_poly1305, so_nonce = nonce, so_ciphertext_and_tag = ciphertext @ tag\<rparr>))) (\<lambda>bytes.
       op_res (if length bytes > sc_max_object_bytes (sl_config T) then Err (failure Oversized)
               else cx_bytes C bytes)))))))"

definition open_value ::
    "'v cx \<Rightarrow> crypto \<Rightarrow> ('n, 'v) sealed_table \<Rightarrow> symbol option \<Rightarrow> symbol \<Rightarrow> 'v \<Rightarrow> secret_key \<Rightarrow>
     (table_error, symbol \<times> 'v) res" where
  "open_value C X T logical phys stored key =
     res_bind (as_expr C stored) (\<lambda>e.
     res_bind (case e of EBytes bs \<Rightarrow> Ok bs | _ \<Rightarrow> Err (failure Authentication)) (\<lambda>bytes.
     res_bind (map_err failure (sealed_object_decode bytes (sc_max_object_bytes (sl_config T)))) (\<lambda>ob.
     res_bind (ok_or (aead_open X (sk_aead key) (so_nonce ob) (binding_aad (sealed_binding T phys)) (so_ciphertext_and_tag ob))
                     (failure Authentication)) (\<lambda>plaintext.
     res_bind (map_err failure (payload_decode X plaintext (sc_max_plaintext_bytes (sl_config T)))) (\<lambda>(name, decoded_expr).
       if (case logical of Some expected \<Rightarrow> expected \<noteq> sym_new name | None \<Rightarrow> False) \<or>
          physical X T key (sym_new name) \<noteq> phys
       then Err (failure Authentication)
       else res_bind (cx_expr C decoded_expr) (\<lambda>v. Ok (sym_new name, v)))))))"

section \<open>Table operations\<close>

definition sealed_backend ::
    "('v \<Rightarrow> ('w, 'v) table option) \<Rightarrow> ('n, 'v) sealed_table \<Rightarrow> (('w, 'v) table \<Rightarrow> ('w, table_error, 'a) op) \<Rightarrow>
     (('n, 'w) sealed_world, table_error, 'a) op" where
  "sealed_backend tbl T f sw =
     (case tbl (sl_backend T) of
        Some t \<Rightarrow> (let (w', r) = f t (sw_backend sw) in (sw\<lparr>sw_backend := w'\<rparr>, r))
      | None \<Rightarrow> (sw, Panic ''validated table''))"

definition sealed_get ::
    "'v cx \<Rightarrow> crypto \<Rightarrow> ('v \<Rightarrow> ('w, 'v) table option) \<Rightarrow> ('n, 'v) sealed_table \<Rightarrow> symbol \<Rightarrow>
     (('n, 'w) sealed_world, table_error, 'v) op" where
  "sealed_get C X tbl T logical =
     op_bind (op_res (sealed_key T)) (\<lambda>key.
     op_bind (sealed_backend tbl T (\<lambda>t. tb_has t (physical X T key logical))) (\<lambda>present.
       if \<not> present then op_res (cx_nil C)
       else op_bind (sealed_backend tbl T (\<lambda>t. tb_get t (physical X T key logical))) (\<lambda>stored.
         op_res (res_bind (open_value C X T (Some logical) (physical X T key logical) stored key) (\<lambda>(k, v). Ok v)))))"

definition sealed_set ::
    "'v cx \<Rightarrow> crypto \<Rightarrow> ('v \<Rightarrow> ('w, 'v) table option) \<Rightarrow> ('n, 'v) sealed_table \<Rightarrow> symbol \<Rightarrow> 'v \<Rightarrow>
     (('n, 'w) sealed_world, table_error, unit) op" where
  "sealed_set C X tbl T logical v =
     op_bind (op_res (sealed_key T)) (\<lambda>key.
     op_bind (seal_value C X T logical (physical X T key logical) v key) (\<lambda>sealed_v.
       sealed_backend tbl T (\<lambda>t. tb_set t (physical X T key logical) sealed_v)))"

definition sealed_has ::
    "'v cx \<Rightarrow> crypto \<Rightarrow> ('v \<Rightarrow> ('w, 'v) table option) \<Rightarrow> ('n, 'v) sealed_table \<Rightarrow> symbol \<Rightarrow>
     (('n, 'w) sealed_world, table_error, bool) op" where
  "sealed_has C X tbl T logical =
     op_bind (op_res (sealed_key T)) (\<lambda>key.
     op_bind (sealed_backend tbl T (\<lambda>t. tb_has t (physical X T key logical))) (\<lambda>present.
       if \<not> present then op_return False
       else op_bind (sealed_backend tbl T (\<lambda>t. tb_get t (physical X T key logical))) (\<lambda>stored.
         op_res (res_bind (open_value C X T (Some logical) (physical X T key logical) stored key) (\<lambda>_. Ok True)))))"

definition sealed_del ::
    "'v cx \<Rightarrow> crypto \<Rightarrow> ('v \<Rightarrow> ('w, 'v) table option) \<Rightarrow> ('n, 'v) sealed_table \<Rightarrow> symbol \<Rightarrow>
     (('n, 'w) sealed_world, table_error, 'v) op" where
  "sealed_del C X tbl T logical =
     op_bind (sealed_get C X tbl T logical) (\<lambda>prior.
     op_bind (op_res (sealed_key T)) (\<lambda>key.
     op_bind (sealed_backend tbl T (\<lambda>t. tb_del t (physical X T key logical))) (\<lambda>_. op_return prior)))"

text \<open>\<open>map(..).collect::<Result<Vec<_>>>()\<close> with a step that works on the world.\<close>

fun op_collect :: "('a \<Rightarrow> ('s, 'e, 'b) op) \<Rightarrow> 'a list \<Rightarrow> ('s, 'e, 'b list) op" where
  "op_collect f [] = op_return []"
| "op_collect f (x # xs) = op_bind (f x) (\<lambda>y. op_bind (op_collect f xs) (\<lambda>ys. op_return (y # ys)))"

definition lane_keys ::
    "crypto \<Rightarrow> ('v \<Rightarrow> ('w, 'v) table option) \<Rightarrow> ('n, 'v) sealed_table \<Rightarrow> secret_key \<Rightarrow>
     (('n, 'w) sealed_world, table_error, symbol list) op" where
  "lane_keys X tbl T key =
     op_bind (sealed_backend tbl T tb_keys) (\<lambda>ks. op_return (filter (belongs_to_lane X T key) ks))"

definition open_at ::
    "'v cx \<Rightarrow> crypto \<Rightarrow> ('v \<Rightarrow> ('w, 'v) table option) \<Rightarrow> ('n, 'v) sealed_table \<Rightarrow> secret_key \<Rightarrow> symbol \<Rightarrow>
     (('n, 'w) sealed_world, table_error, symbol \<times> 'v) op" where
  "open_at C X tbl T key phys =
     op_bind (sealed_backend tbl T (\<lambda>t. tb_get t phys)) (\<lambda>stored. op_res (open_value C X T None phys stored key))"

definition sealed_keys ::
    "'v cx \<Rightarrow> crypto \<Rightarrow> ('v \<Rightarrow> ('w, 'v) table option) \<Rightarrow> ('n, 'v) sealed_table \<Rightarrow>
     (('n, 'w) sealed_world, table_error, symbol list) op" where
  "sealed_keys C X tbl T =
     op_bind (op_res (sealed_key T)) (\<lambda>key.
     op_bind (lane_keys X tbl T key) (\<lambda>ks.
       op_collect (\<lambda>phys. op_bind (open_at C X tbl T key phys) (\<lambda>(logical, v). op_return logical)) ks))"

definition sealed_entries ::
    "'v cx \<Rightarrow> crypto \<Rightarrow> ('v \<Rightarrow> ('w, 'v) table option) \<Rightarrow> ('n, 'v) sealed_table \<Rightarrow>
     (('n, 'w) sealed_world, table_error, (symbol \<times> 'v) list) op" where
  "sealed_entries C X tbl T =
     op_bind (op_res (sealed_key T)) (\<lambda>key.
     op_bind (lane_keys X tbl T key) (\<lambda>ks. op_collect (open_at C X tbl T key) ks))"

definition sealed_len ::
    "'v cx \<Rightarrow> crypto \<Rightarrow> ('v \<Rightarrow> ('w, 'v) table option) \<Rightarrow> ('n, 'v) sealed_table \<Rightarrow>
     (('n, 'w) sealed_world, table_error, nat) op" where
  "sealed_len C X tbl T = op_bind (sealed_keys C X tbl T) (\<lambda>ks. op_return (length ks))"

definition sealed_clear ::
    "crypto \<Rightarrow> ('v \<Rightarrow> ('w, 'v) table option) \<Rightarrow> ('n, 'v) sealed_table \<Rightarrow> (('n, 'w) sealed_world, table_error, unit) op" where
  "sealed_clear X tbl T =
     op_bind (op_res (sealed_key T)) (\<lambda>key.
     op_bind (lane_keys X tbl T key) (\<lambda>ks.
       op_each (\<lambda>phys. op_bind (sealed_backend tbl T (\<lambda>t. tb_del t phys)) (\<lambda>_. op_return ())) ks))"

definition sealed_table_impl ::
    "'v cx \<Rightarrow> crypto \<Rightarrow> ('v \<Rightarrow> ('w, 'v) table option) \<Rightarrow>
     (symbol \<Rightarrow> table_expected \<Rightarrow> 'v table_replacement \<Rightarrow> (('n, 'w) sealed_world, table_error, table_exchange) op) \<Rightarrow>
     ('n, 'v) sealed_table \<Rightarrow> (('n, 'w) sealed_world, 'v) table" where
  "sealed_table_impl C X tbl default_exchange T =
     \<lparr>tb_get = sealed_get C X tbl T, tb_set = sealed_set C X tbl T, tb_has = sealed_has C X tbl T,
      tb_del = sealed_del C X tbl T, tb_keys = sealed_keys C X tbl T, tb_entries = sealed_entries C X tbl T,
      tb_len = sealed_len C X tbl T, tb_clear = sealed_clear X tbl T, tb_compare_exchange = default_exchange\<rparr>"

section \<open>Directory operations\<close>

definition sealed_child :: "('n, 'v) sealed_table \<Rightarrow> 'v \<Rightarrow> symbol \<Rightarrow> ('n, 'v) sealed_table" where
  "sealed_child T backend name =
     \<lparr>sl_backend = backend,
      sl_config = (sl_config T)\<lparr>sc_lane := sc_lane (sl_config T) @
        u64_to_be (word_of_nat (length (sym_name name))) @ as_bytes (sym_name name)\<rparr>,
      sl_used = sl_used T\<rparr>"

definition sealed_dir ::
    "('v \<Rightarrow> ('w, 'v) dir option) \<Rightarrow> ('n, 'v) sealed_table \<Rightarrow> (('w, 'v) dir \<Rightarrow> ('w, table_error, 'a) op) \<Rightarrow>
     (('n, 'w) sealed_world, table_error, 'a) op" where
  "sealed_dir dirs T f sw =
     (case dirs (sl_backend T) of
        Some t \<Rightarrow> (let (w', r) = f t (sw_backend sw) in (sw\<lparr>sw_backend := w'\<rparr>, r))
      | None \<Rightarrow> (sw, Err (Eval ''table/sealed: backend does not implement Dir'')))"

definition sealed_mkdir ::
    "crypto \<Rightarrow> ('v \<Rightarrow> ('w, 'v) dir option) \<Rightarrow> (('n, 'v) sealed_table \<Rightarrow> (table_error, 'v) res) \<Rightarrow>
     ('n, 'v) sealed_table \<Rightarrow> symbol \<Rightarrow> (('n, 'w) sealed_world, table_error, 'v) op" where
  "sealed_mkdir X dirs mk T name =
     op_bind (op_res (sealed_key T)) (\<lambda>key.
     op_bind (sealed_dir dirs T (\<lambda>t. dr_mkdir t (physical X T key name))) (\<lambda>backend.
       op_res (mk (sealed_child T backend name))))"

definition sealed_opendir ::
    "crypto \<Rightarrow> ('v \<Rightarrow> ('w, 'v) dir option) \<Rightarrow> (('n, 'v) sealed_table \<Rightarrow> (table_error, 'v) res) \<Rightarrow>
     ('n, 'v) sealed_table \<Rightarrow> symbol \<Rightarrow> (('n, 'w) sealed_world, table_error, 'v option) op" where
  "sealed_opendir X dirs mk T name =
     op_bind (op_res (sealed_key T)) (\<lambda>key.
     op_bind (sealed_dir dirs T (\<lambda>t. dr_opendir t (physical X T key name))) (\<lambda>found.
       case found of None \<Rightarrow> op_return None
       | Some backend \<Rightarrow> op_bind (op_res (mk (sealed_child T backend name))) (\<lambda>v. op_return (Some v))))"

definition sealed_rmdir ::
    "crypto \<Rightarrow> ('v \<Rightarrow> ('w, 'v) dir option) \<Rightarrow> ('n, 'v) sealed_table \<Rightarrow> symbol \<Rightarrow>
     (('n, 'w) sealed_world, table_error, 'v) op" where
  "sealed_rmdir X dirs T name =
     op_bind (op_res (sealed_key T)) (\<lambda>key. sealed_dir dirs T (\<lambda>t. dr_rmdir t (physical X T key name)))"

definition sealed_is_dir ::
    "crypto \<Rightarrow> ('v \<Rightarrow> ('w, 'v) dir option) \<Rightarrow> ('n, 'v) sealed_table \<Rightarrow> symbol \<Rightarrow>
     (('n, 'w) sealed_world, table_error, bool) op" where
  "sealed_is_dir X dirs T name =
     op_bind (op_res (sealed_key T)) (\<lambda>key. sealed_dir dirs T (\<lambda>t. dr_is_dir t (physical X T key name)))"

end
