(* ===== verification/Sealed_Laws.thy ===== *)
theory Sealed_Laws
  imports Table_Sealed Table_Db
begin

text \<open>
  What the sealing decorator guarantees over any backend that keeps the table contract: a value that was
  set under a plain name can be read back, an object moved to another place is refused unless that very
  ciphertext is also a sealing for the other place, and no nonce is used twice by the decorators that
  share a nonce set. The laws of the external cipher, codec and factory are named
  predicates.
\<close>

section \<open>Laws of the external functions\<close>

text \<open>
  The cipher is exact: exactly the outputs of sealing open, to the plaintext that was sealed, with a
  tag of fixed length and a ciphertext as long as the plaintext.
\<close>

definition aead_law :: "crypto \<Rightarrow> bool" where
  "aead_law X \<longleftrightarrow>
     (\<forall>k n a p c t. aead_seal X k n a p = Some (c, t) \<longrightarrow> length c = length p \<and> length t = tag_len) \<and>
     (\<forall>k n a p ct. aead_open X k n a ct = Some p \<longleftrightarrow>
        (\<exists>c t. ct = c @ t \<and> length t = tag_len \<and> aead_seal X k n a p = Some (c, t)))"

definition bytes_law :: "'v cx \<Rightarrow> bool" where
  "bytes_law C \<longleftrightarrow> (\<forall>bs v. cx_bytes C bs = Ok v \<longrightarrow> as_expr C v = Ok (EBytes bs))"

definition fill_law :: "'n sealed_config \<Rightarrow> bool" where
  "fill_law c \<longleftrightarrow> (\<forall>s s' n. sc_fill c s = (s', Ok n) \<longrightarrow> length n = nonce_len)"

section \<open>Sealing one value\<close>

lemma fill_nonce_Ok:
  "fill_nonce T sw = (sw', Ok n) \<longleftrightarrow>
     (\<exists>s. sc_fill (sl_config T) (sw_nonces sw) = (s, Ok n) \<and> sw' = sw\<lparr>sw_nonces := s\<rparr>)"
  by (auto simp: fill_nonce_def map_err_Ok split: prod.splits)

lemma claim_nonce_Ok:
  "claim_nonce T n sw = (sw', Ok ()) \<longleftrightarrow>
     length (sw_used sw (sl_used T)) < sc_nonce_budget (sl_config T) \<and> n \<notin> set (sw_used sw (sl_used T)) \<and>
     sw' = sw\<lparr>sw_used := (sw_used sw)(sl_used T := n # sw_used sw (sl_used T))\<rparr>"
  by (auto simp: claim_nonce_def Let_def)

lemma seal_value_OkE:
  assumes "seal_value C X T logical phys v key sw = (sw', Ok sv)"
  obtains e pt n c t bs u where
    "as_expr C v = Ok e"
    "payload_encode X (sym_name logical) e (sc_max_plaintext_bytes (sl_config T)) = Ok pt"
    "sc_fill (sl_config T) (sw_nonces sw) = (u, Ok n)"
    "length (sw_used sw (sl_used T)) < sc_nonce_budget (sl_config T)" "n \<notin> set (sw_used sw (sl_used T))"
    "sw_used sw' = (sw_used sw)(sl_used T := n # sw_used sw (sl_used T))" "sw_backend sw' = sw_backend sw"
    "aead_seal X (sk_aead key) n (binding_aad (sealed_binding T phys)) pt = Some (c, t)"
    "sealed_object_encode \<lparr>so_suite = suite_chacha20_poly1305, so_nonce = n, so_ciphertext_and_tag = c @ t\<rparr> = Ok bs"
    "length bs \<le> sc_max_object_bytes (sl_config T)" "cx_bytes C bs = Ok sv"
proof -
  obtain e pt n c t bs u where *:
    "as_expr C v = Ok e"
    "payload_encode X (sym_name logical) e (sc_max_plaintext_bytes (sl_config T)) = Ok pt"
    "sc_fill (sl_config T) (sw_nonces sw) = (u, Ok n)"
    "length (sw_used sw (sl_used T)) < sc_nonce_budget (sl_config T)" "n \<notin> set (sw_used sw (sl_used T))"
    "sw' = sw\<lparr>sw_nonces := u, sw_used := (sw_used sw)(sl_used T := n # sw_used sw (sl_used T))\<rparr>"
    "aead_seal X (sk_aead key) n (binding_aad (sealed_binding T phys)) pt = Some (c, t)"
    "sealed_object_encode \<lparr>so_suite = suite_chacha20_poly1305, so_nonce = n, so_ciphertext_and_tag = c @ t\<rparr> = Ok bs"
    "length bs \<le> sc_max_object_bytes (sl_config T)" "cx_bytes C bs = Ok sv"
    using assms
    by (auto simp: seal_value_def op_Ok fill_nonce_Ok claim_nonce_Ok map_err_Ok ok_or_Ok not_less split: if_splits prod.splits)
  have "sw_used sw' = (sw_used sw)(sl_used T := n # sw_used sw (sl_used T))" "sw_backend sw' = sw_backend sw"
    using *(6) by simp_all
  with * that show thesis by blast
qed

lemma sealed_object_of_seal:
  assumes "aead_law X" and "length n = nonce_len" and "aead_seal X k n a p = Some (c, t)"
    and "sealed_object_encode \<lparr>so_suite = suite_chacha20_poly1305, so_nonce = n, so_ciphertext_and_tag = c @ t\<rparr> = Ok bs"
  shows "sealed_object_ok \<lparr>so_suite = suite_chacha20_poly1305, so_nonce = n, so_ciphertext_and_tag = c @ t\<rparr>"
    and "aead_open X k n a (c @ t) = Some p" and "length p < 2 ^ 32"
proof -
  have len: "length c = length p" "length t = tag_len"
    using assms(1,3) unfolding aead_law_def by blast+
  have small: "length (c @ t) < 2 ^ 32" using assms(4) by (simp add: sealed_object_encode_Ok)
  then show "sealed_object_ok \<lparr>so_suite = suite_chacha20_poly1305, so_nonce = n, so_ciphertext_and_tag = c @ t\<rparr>"
    using assms(2) len by (simp add: sealed_object_ok_def)
  show "aead_open X k n a (c @ t) = Some p" using assms(1,3) len unfolding aead_law_def by blast
  show "length p < 2 ^ 32" using small len by simp
qed

text \<open>What was sealed for a plain name opens at its place to the same name and expression.\<close>

lemma open_sealed:
  assumes laws: "aead_law X" "portable_law X" "bytes_law C" "fill_law (sl_config T)"
    and logical: "sym_ns logical = None" "str_ok (sym_name logical)"
    and seal: "seal_value C X T logical (physical X T key logical) v key sw = (sw', Ok sv)"
    and ask: "ask = Some logical \<or> ask = None"
  shows "\<exists>e. as_expr C v = Ok e \<and>
    open_value C X T ask (physical X T key logical) sv key = res_bind (cx_expr C e) (\<lambda>v. Ok (logical, v))"
proof -
  let ?phys = "physical X T key logical"
  obtain e pt n c t bs u where s:
    "as_expr C v = Ok e"
    "payload_encode X (sym_name logical) e (sc_max_plaintext_bytes (sl_config T)) = Ok pt"
    "sc_fill (sl_config T) (sw_nonces sw) = (u, Ok n)"
    "aead_seal X (sk_aead key) n (binding_aad (sealed_binding T ?phys)) pt = Some (c, t)"
    "sealed_object_encode \<lparr>so_suite = suite_chacha20_poly1305, so_nonce = n, so_ciphertext_and_tag = c @ t\<rparr> = Ok bs"
    "length bs \<le> sc_max_object_bytes (sl_config T)" "cx_bytes C bs = Ok sv"
    using seal by (rule seal_value_OkE)
  have n: "length n = nonce_len" using laws(4) s(3) unfolding fill_law_def by blast
  note ob = sealed_object_of_seal [OF laws(1) n s(4,5)]
  have decode: "sealed_object_decode bs (sc_max_object_bytes (sl_config T)) =
      Ok \<lparr>so_suite = suite_chacha20_poly1305, so_nonce = n, so_ciphertext_and_tag = c @ t\<rparr>"
    by (rule sealed_object_decode_encode [OF s(5) ob(1) s(6)])
  have payload: "payload_decode X pt (sc_max_plaintext_bytes (sl_config T)) = Ok (sym_name logical, e)"
    using payload_round_trip [OF laws(2) s(2) logical(2)] ob(3) by (simp add: usize_bound_def)
  have name: "sym_new (sym_name logical) = logical" using logical(1) by (metis symbol.collapse)
  have "as_expr C sv = Ok (EBytes bs)" using laws(3) s(7) unfolding bytes_law_def by blast
  then have "open_value C X T ask ?phys sv key = res_bind (cx_expr C e) (\<lambda>v. Ok (logical, v))"
    using ask by (auto simp: open_value_def decode ob(2) payload name)
  then show ?thesis using s(1) by blast
qed

section \<open>Over a backend that is a table\<close>

lemma sealed_backend_run:
  "tbl (sl_backend T) = Some t \<Longrightarrow>
     sealed_backend tbl T f sw = (case f t (sw_backend sw) of (w', r) \<Rightarrow> (sw\<lparr>sw_backend := w'\<rparr>, r))"
  by (simp add: sealed_backend_def Let_def split_def)

lemma sealed_backend_Ok:
  "tbl (sl_backend T) = Some t \<Longrightarrow>
     sealed_backend tbl T f sw = (sw', Ok x) \<longleftrightarrow>
       (\<exists>w. f t (sw_backend sw) = (w, Ok x) \<and> sw' = sw\<lparr>sw_backend := w\<rparr>)"
  by (auto simp: sealed_backend_run split: prod.splits)

lemma sealed_get_run:
  assumes "table_contract C t I legal content" and "tbl (sl_backend T) = Some t" and "I (sw_backend sw)"
    and "sealed_key T = Ok key" and "legal (physical X T key logical)"
  shows "sealed_get C X tbl T logical sw =
    (sw, case content (sw_backend sw) (physical X T key logical) of
           None \<Rightarrow> cx_nil C
         | Some sv \<Rightarrow> res_bind (open_value C X T (Some logical) (physical X T key logical) sv key) (\<lambda>(k, v). Ok v))"
    and "sealed_has C X tbl T logical sw =
    (sw, case content (sw_backend sw) (physical X T key logical) of
           None \<Rightarrow> Ok False
         | Some sv \<Rightarrow> res_bind (open_value C X T (Some logical) (physical X T key logical) sv key) (\<lambda>_. Ok True))"
  using table_base.has [OF table_contract.axioms(1) [OF assms(1)] assms(3,5)]
    table_base.get [OF table_contract.axioms(1) [OF assms(1)] assms(3,5)]
  by (simp_all add: sealed_get_def sealed_has_def op_bind_def op_simps assms(4) sealed_backend_run [of tbl T, OF assms(2)]
      value_or_nil_def split: option.split)

lemma sealed_set_OkE:
  assumes "sealed_set C X tbl T logical v sw = (sw', Ok ())" and "sealed_key T = Ok key"
    and "tbl (sl_backend T) = Some t"
  obtains sw1 sv w where "seal_value C X T logical (physical X T key logical) v key sw = (sw1, Ok sv)"
    "tb_set t (physical X T key logical) sv (sw_backend sw1) = (w, Ok ())" "sw' = sw1\<lparr>sw_backend := w\<rparr>"
  using assms by (auto simp: sealed_set_def op_Ok sealed_backend_Ok)

text \<open>When sealing succeeds: a representable value within the sizes, a fresh nonce and budget left.\<close>

lemma seal_value_succeeds:
  assumes "aead_law X"
    and "as_expr C v = Ok e" "encode_portable X e = Some text_e" "length (sym_name logical) < 2 ^ 32"
    and "4 + length (sym_name logical) + length text_e \<le> sc_max_plaintext_bytes (sl_config T)"
    and "sc_fill (sl_config T) (sw_nonces sw) = (u, Ok n)" "length n = nonce_len" "n \<notin> set (sw_used sw (sl_used T))"
    and "length (sw_used sw (sl_used T)) < sc_nonce_budget (sl_config T)"
    and "\<And>n a p. length p < 2 ^ 32 \<Longrightarrow> aead_seal X (sk_aead key) n a p \<noteq> None"
    and "sc_max_plaintext_bytes (sl_config T) + 34 \<le> sc_max_object_bytes (sl_config T)"
    and "sc_max_object_bytes (sl_config T) < 2 ^ 32" and "\<And>bs. is_ok (cx_bytes C bs)"
  shows "\<exists>sv. seal_value C X T logical phys v key sw =
    (sw\<lparr>sw_nonces := u, sw_used := (sw_used sw)(sl_used T := n # sw_used sw (sl_used T))\<rparr>, Ok sv)"
proof -
  let ?pt = "u32_to_be (word_of_nat (length (sym_name logical))) @ as_bytes (sym_name logical) @ as_bytes text_e"
  have pt: "payload_encode X (sym_name logical) e (sc_max_plaintext_bytes (sl_config T)) = Ok ?pt"
    using assms(3,4,5) by (simp add: payload_encode_def try_u32_def)
  have pt_len: "length ?pt \<le> sc_max_plaintext_bytes (sl_config T)" using assms(5) by simp
  then obtain c g where seal: "aead_seal X (sk_aead key) n (binding_aad (sealed_binding T phys)) ?pt = Some (c, g)"
    using assms(10) [of ?pt n] assms(11,12) by fastforce
  have len: "length c = length ?pt" "length g = 16"
    using assms(1) seal unfolding aead_law_def tag_len_def by blast+
  let ?bs = "[sealed_version, suite_chacha20_poly1305] @ n @ u32_to_be (word_of_nat (length (c @ g))) @ c @ g"
  have enc: "sealed_object_encode \<lparr>so_suite = suite_chacha20_poly1305, so_nonce = n, so_ciphertext_and_tag = c @ g\<rparr> = Ok ?bs"
    using len pt_len assms(11,12) by (simp add: sealed_object_encode_Ok)
  have bs_len: "length ?bs \<le> sc_max_object_bytes (sl_config T)"
    using len pt_len assms(7,11) by (simp add: nonce_len_def)
  obtain sv where sv: "cx_bytes C ?bs = Ok sv" using assms(13) [of ?bs] unfolding is_ok_iff by blast
  show ?thesis
    using assms(2,6,8,9) pt seal enc bs_len sv
    by (simp add: seal_value_def op_bind_def op_simps fill_nonce_def claim_nonce_def)
qed

text \<open>Blinded names are legal path segments for any rule that only excludes the empty one and the separator.\<close>

lemma hex_text_no_slash: "CHR ''/'' \<notin> set (hex_text bs)"
proof -
  have ne: "CHR ''/'' \<noteq> hex_digit d" if "d < 16" for d
  proof
    assume "CHR ''/'' = hex_digit d"
    then have "to_digit16 (CHR ''/'') = Some d" using to_digit16_hex_digit [OF that] by simp
    then show False by (simp add: to_digit16_def)
  qed
  have "unat (b :: u8) div 16 < 16" for b using unat_u8_bound [of b] by simp
  then have "CHR ''/'' \<notin> set (hex_byte b)" for b
    using ne by (simp add: hex_byte_def)
  then show ?thesis by (simp add: hex_text_def)
qed

lemma physical_segment: "sym_name (physical X T key k) \<noteq> [] \<and> CHR ''/'' \<notin> set (sym_name (physical X T key k))"
  by (simp add: physical_def lane_prefix_def blind_lane_def blind_key_def hex_text_no_slash)


section \<open>Moved objects\<close>

lemma open_value_OkE:
  assumes "open_value C X T ask phys sv key = Ok r" and "as_expr C sv = Ok (EBytes bs)"
    and "sealed_object_decode bs (sc_max_object_bytes (sl_config T)) = Ok ob"
  obtains p where "aead_open X (sk_aead key) (so_nonce ob) (binding_aad (sealed_binding T phys)) (so_ciphertext_and_tag ob) = Some p"
  using assms by (auto simp: open_value_def res_bind_Ok ok_or_Ok map_err_Ok split: prod.splits)

text \<open>The place of an object: the lane, the generation, the physical name and the metadata class.\<close>

definition sealed_place :: "('n, 'v) sealed_table \<Rightarrow> symbol \<Rightarrow> u8 list \<times> u64 \<times> string \<times> string" where
  "sealed_place T phys =
     (sc_lane (sl_config T), sc_generation (sl_config T), sym_name phys, sc_metadata_class (sl_config T))"

text \<open>
  \<open>sealed_for\<close>: the stored value is the frame that was sealed, under this key, for this table, name and
  value, with this nonce, ciphertext and tag.
\<close>

definition sealed_for ::
    "'v cx \<Rightarrow> crypto \<Rightarrow> ('n, 'v) sealed_table \<Rightarrow> symbol \<Rightarrow> symbol \<Rightarrow> 'v \<Rightarrow> secret_key \<Rightarrow> 'v \<Rightarrow>
     u8 list \<Rightarrow> u8 list \<Rightarrow> u8 list \<Rightarrow> bool" where
  "sealed_for C X T logical phys v key sv n c t \<longleftrightarrow>
     (\<exists>e pt bs. as_expr C v = Ok e \<and>
        payload_encode X (sym_name logical) e (sc_max_plaintext_bytes (sl_config T)) = Ok pt \<and>
        aead_seal X (sk_aead key) n (binding_aad (sealed_binding T phys)) pt = Some (c, t) \<and>
        sealed_object_encode \<lparr>so_suite = suite_chacha20_poly1305, so_nonce = n, so_ciphertext_and_tag = c @ t\<rparr> = Ok bs \<and>
        cx_bytes C bs = Ok sv)"

text \<open>C21: A sealed object is bound to its place: when the backend holds, under the blinded name of some key of
  a second decorator with the same cipher key, an object that was sealed for another lane,
  generation, metadata class or physical name, reading it is refused. The only other case is a forgery
  of that very object: the nonce, ciphertext and tag that were sealed for the first place are also what
  sealing some plaintext for the second place gives, the authenticated data of the two places being
  different.\<close>

theorem sealed_moved_refused:
  assumes "table_contract C t I legal content" and "tbl (sl_backend T2) = Some t" and "I (sw_backend sw2)"
    and "aead_law X" "bytes_law C" "fill_law (sl_config T1)"
    and "seal_value C X T1 logical1 phys1 v key1 sw = (sw1, Ok sv)"
    and "sealed_key T2 = Ok key2" and "sk_aead key2 = sk_aead key1"
    and "legal (physical X T2 key2 logical2)"
    and "content (sw_backend sw2) (physical X T2 key2 logical2) = Some sv"
    and "sealed_place T2 (physical X T2 key2 logical2) \<noteq> sealed_place T1 phys1"
    and "binding_small (sealed_binding T1 phys1)" "binding_small (sealed_binding T2 (physical X T2 key2 logical2))"
  shows "(\<not> is_ok (snd (sealed_get C X tbl T2 logical2 sw2)) \<and> \<not> is_ok (snd (sealed_has C X tbl T2 logical2 sw2))) \<or>
    (\<exists>n c u p2. sealed_for C X T1 logical1 phys1 v key1 sv n c u \<and>
       aead_seal X (sk_aead key1) n (binding_aad (sealed_binding T2 (physical X T2 key2 logical2))) p2 = Some (c, u) \<and>
       binding_aad (sealed_binding T2 (physical X T2 key2 logical2)) \<noteq> binding_aad (sealed_binding T1 phys1))"
proof (cases "is_ok (open_value C X T2 (Some logical2) (physical X T2 key2 logical2) sv key2)")
  case False
  then show ?thesis
    using sealed_get_run [where tbl = tbl and T = T2, OF assms(1,2,3,8,10)] assms(11)
    by (auto simp: is_ok_iff res_bind_Ok)
next
  case True
  let ?b2 = "sealed_binding T2 (physical X T2 key2 logical2)"
  obtain e pt n c u bs x where s:
    "as_expr C v = Ok e"
    "payload_encode X (sym_name logical1) e (sc_max_plaintext_bytes (sl_config T1)) = Ok pt"
    "sc_fill (sl_config T1) (sw_nonces sw) = (x, Ok n)"
    "aead_seal X (sk_aead key1) n (binding_aad (sealed_binding T1 phys1)) pt = Some (c, u)"
    "sealed_object_encode \<lparr>so_suite = suite_chacha20_poly1305, so_nonce = n, so_ciphertext_and_tag = c @ u\<rparr> = Ok bs"
    "cx_bytes C bs = Ok sv"
    using assms(7) by (rule seal_value_OkE)
  let ?ob = "\<lparr>so_suite = suite_chacha20_poly1305, so_nonce = n, so_ciphertext_and_tag = c @ u\<rparr>"
  have n: "length n = nonce_len" using assms(6) s(3) unfolding fill_law_def by blast
  have bs: "as_expr C sv = Ok (EBytes bs)" using assms(5) s(6) unfolding bytes_law_def by blast
  obtain r where r: "open_value C X T2 (Some logical2) (physical X T2 key2 logical2) sv key2 = Ok r"
    using True by (auto simp: is_ok_iff)
  then obtain ob where "sealed_object_decode bs (sc_max_object_bytes (sl_config T2)) = Ok ob"
    using bs by (auto simp: open_value_def res_bind_Ok map_err_Ok)
  moreover from this have "ob = ?ob"
    using sealed_object_decode_Ok sealed_object_decode_encode [OF s(5) sealed_object_of_seal(1) [OF assms(4) n s(4,5)]]
    by (metis res.inject(1))
  ultimately have dec: "sealed_object_decode bs (sc_max_object_bytes (sl_config T2)) = Ok ?ob" by simp
  obtain p2 where p2: "aead_open X (sk_aead key2) n (binding_aad ?b2) (c @ u) = Some p2"
    using open_value_OkE [OF r bs dec] by auto
  have tag: "length u = tag_len" using assms(4) s(4) unfolding aead_law_def by blast
  obtain c' u' where "c @ u = c' @ u'" "length u' = tag_len" "aead_seal X (sk_aead key1) n (binding_aad ?b2) p2 = Some (c', u')"
    using assms(4) p2 unfolding aead_law_def assms(9) by blast
  then have "aead_seal X (sk_aead key1) n (binding_aad ?b2) p2 = Some (c, u)" using tag by simp
  moreover have "?b2 \<noteq> sealed_binding T1 phys1"
    using assms(12) by (auto simp: sealed_place_def sealed_binding_def)
  then have "binding_aad ?b2 \<noteq> binding_aad (sealed_binding T1 phys1)"
    using binding_aad_inj assms(13,14) by blast
  moreover have "sealed_for C X T1 logical1 phys1 v key1 sv n c u"
    using s unfolding sealed_for_def by blast
  ultimately show ?thesis by blast
qed

section \<open>Nonces\<close>

text \<open>Sealing does not touch the backend, the backend does not touch the nonces.\<close>

lemma seal_value_backend: "seal_value C X T k p v key sw = (sw', r) \<Longrightarrow> sw_backend sw' = sw_backend sw"
proof -
  let ?R = "\<lambda>sw sw'. sw_backend sw' = sw_backend sw"
  have R: "reflp ?R" "transp ?R" by (auto intro: reflpI transpI)
  have "op_keeps ?R (fill_nonce T)" "op_keeps ?R (claim_nonce T n)" for n
    by (auto simp: op_keeps_def fill_nonce_def claim_nonce_def Let_def split_def)
  then have "op_keeps ?R (seal_value C X T k p v key)"
    unfolding seal_value_def by (intro op_keeps_pure [OF R(1)] op_keeps_bind [OF R(2)] op_keeps_cases)
  then show "seal_value C X T k p v key sw = (sw', r) \<Longrightarrow> sw_backend sw' = sw_backend sw"
    by (rule op_keepsD)
qed

lemma sealed_backend_used: "sealed_backend tbl T f sw = (sw', r) \<Longrightarrow> sw_used sw' = sw_used sw"
  by (auto simp: sealed_backend_def split: option.splits prod.splits)

text \<open>
  What the decorators hand to the backend is observed at the backend itself: \<open>recording t\<close> is the backend
  \<open>t\<close> with a log of the values it is asked to store.
\<close>

definition on_fst :: "('w, 'e, 'a) op \<Rightarrow> ('w \<times> 'l, 'e, 'a) op" where
  "on_fst m s = (let (w, r) = m (fst s) in ((w, snd s), r))"

definition recording :: "('w, 'v) table \<Rightarrow> ('w \<times> (symbol \<times> 'v) list, 'v) table" where
  "recording t =
     \<lparr>tb_get = \<lambda>k. on_fst (tb_get t k),
      tb_set = \<lambda>k v s. (let (w, r) = tb_set t k v (fst s) in ((w, snd s @ [(k, v)]), r)),
      tb_has = \<lambda>k. on_fst (tb_has t k), tb_del = \<lambda>k. on_fst (tb_del t k), tb_keys = on_fst (tb_keys t),
      tb_entries = on_fst (tb_entries t), tb_len = on_fst (tb_len t), tb_clear = on_fst (tb_clear t),
      tb_compare_exchange = \<lambda>k e n. on_fst (tb_compare_exchange t k e n)\<rparr>"

definition recorded :: "('v \<Rightarrow> ('w, 'v) table option) \<Rightarrow> 'v \<Rightarrow> ('w \<times> (symbol \<times> 'v) list, 'v) table option" where
  "recorded tbl v = map_option recording (tbl v)"

text \<open>A decorator and the child directories opened or made through it, at any depth.\<close>

inductive sealed_family :: "('n, 'v) sealed_table \<Rightarrow> ('n, 'v) sealed_table \<Rightarrow> bool" for root where
  family_root: "sealed_family root root"
| family_child: "sealed_family root T \<Longrightarrow> sealed_family root (sealed_child T b name)"

lemma family_policy:
  "sealed_family root T \<Longrightarrow> sl_used T = sl_used root \<and>
     sc_nonce_budget (sl_config T) = sc_nonce_budget (sl_config root)"
  by (induction rule: sealed_family.induct) (simp_all add: sealed_child_def)

text \<open>A history of calls through the decorators of one family.\<close>

definition sealed_call ::
    "'v cx \<Rightarrow> crypto \<Rightarrow> ('v \<Rightarrow> ('w, 'v) table option) \<Rightarrow> ('n, 'v) sealed_table \<Rightarrow> 'v call \<Rightarrow>
     ('n, 'w) sealed_world \<Rightarrow> ('n, 'w) sealed_world" where
  "sealed_call C X tbl T c sw =
     fst (table_call (sealed_table_impl C X tbl (\<lambda>k e r. op_fail (Eval ''unsupported'')) T) c sw)"

definition sealed_history ::
    "'v cx \<Rightarrow> crypto \<Rightarrow> ('v \<Rightarrow> ('w, 'v) table option) \<Rightarrow> (('n, 'v) sealed_table \<times> 'v call) list \<Rightarrow>
     ('n, 'w) sealed_world \<Rightarrow> ('n, 'w) sealed_world" where
  "sealed_history C X tbl evs sw = fold (\<lambda>(T, c). sealed_call C X tbl T c) evs sw"

text \<open>
  \<open>sealed_with n\<close>: the value handed to the backend is a frame that carries the nonce \<open>n\<close> and whose
  ciphertext and tag the cipher made with that nonce, for a decorator of the family and this name.
\<close>

definition sealed_with ::
    "'v cx \<Rightarrow> crypto \<Rightarrow> ('n, 'v) sealed_table \<Rightarrow> u8 list \<Rightarrow> symbol \<times> 'v \<Rightarrow> bool" where
  "sealed_with C X root n = (\<lambda>(phys, sv).
     \<exists>T key logical v c t. sealed_family root T \<and> sealed_key T = Ok key \<and> phys = physical X T key logical \<and>
       sealed_for C X T logical phys v key sv n c t)"

definition nonces_inv ::
    "'v cx \<Rightarrow> crypto \<Rightarrow> ('n, 'v) sealed_table \<Rightarrow> ('n, 'w \<times> (symbol \<times> 'v) list) sealed_world \<Rightarrow> bool" where
  "nonces_inv C X root sw \<longleftrightarrow>
     distinct (sw_used sw (sl_used root)) \<and>
     length (sw_used sw (sl_used root)) \<le> sc_nonce_budget (sl_config root) \<and>
     (\<exists>ns. distinct ns \<and> set ns \<subseteq> set (sw_used sw (sl_used root)) \<and>
        list_all2 (sealed_with C X root) ns (snd (sw_backend sw)))"

text \<open>Every operation but \<open>set\<close> leaves the nonce sets and the log alone.\<close>

definition quiet :: "('n, 'w \<times> 'l) sealed_world \<Rightarrow> ('n, 'w \<times> 'l) sealed_world \<Rightarrow> bool" where
  "quiet sw sw' \<longleftrightarrow> sw_used sw' = sw_used sw \<and> snd (sw_backend sw') = snd (sw_backend sw)"

lemma quiet_order: "reflp quiet" "transp quiet"
  unfolding quiet_def by (auto intro!: reflpI transpI)

lemma quiet_inv: "quiet sw sw' \<Longrightarrow> nonces_inv C X root sw \<Longrightarrow> nonces_inv C X root sw'"
  by (simp add: quiet_def nonces_inv_def)

lemma on_fst_snd: "snd (fst (on_fst m s)) = snd s"
  by (simp add: on_fst_def Let_def split_def)

lemma quiet_backend:
  "(\<And>t s. snd (fst (f (recording t) s)) = snd s) \<Longrightarrow> op_keeps quiet (sealed_backend (recorded tbl) T f)"
  unfolding op_keeps_def
  by (auto simp: quiet_def sealed_backend_def recorded_def Let_def split_def split: option.split)

lemma quiet_backend_calls:
  "op_keeps quiet (sealed_backend (recorded tbl) T (\<lambda>t. tb_get t k))"
  "op_keeps quiet (sealed_backend (recorded tbl) T (\<lambda>t. tb_has t k))"
  "op_keeps quiet (sealed_backend (recorded tbl) T (\<lambda>t. tb_del t k))"
  "op_keeps quiet (sealed_backend (recorded tbl) T tb_keys)"
  by (auto intro!: quiet_backend simp: recording_def on_fst_snd)

lemmas quiet_rules = op_keeps_pure [OF quiet_order(1)] op_keeps_bind [OF quiet_order(2)]
  op_keeps_each [OF quiet_order] quiet_backend_calls op_keeps_cases

lemma quiet_collect: "(\<And>x. op_keeps quiet (f x)) \<Longrightarrow> op_keeps quiet (op_collect f xs)"
  by (induction xs) (simp_all add: quiet_rules)

lemma quiet_reads:
  "op_keeps quiet (sealed_get C X (recorded tbl) T k)"
  "op_keeps quiet (sealed_has C X (recorded tbl) T k)"
  "op_keeps quiet (sealed_del C X (recorded tbl) T k)"
  "op_keeps quiet (sealed_keys C X (recorded tbl) T)"
  "op_keeps quiet (sealed_entries C X (recorded tbl) T)"
  "op_keeps quiet (sealed_len C X (recorded tbl) T)"
  "op_keeps quiet (sealed_clear X (recorded tbl) T)"
  unfolding sealed_get_def sealed_has_def sealed_del_def sealed_keys_def sealed_entries_def sealed_len_def
    sealed_clear_def lane_keys_def open_at_def
  by (intro quiet_rules quiet_collect)+

text \<open>Sealing claims at most one nonce, which was not there, and keeps the budget; when it succeeds it has claimed one.\<close>

lemma seal_value_claims:
  assumes "seal_value C X T k p v key sw = (sw', r)"
  shows "sw_used sw' = sw_used sw \<or>
    (\<exists>n. n \<notin> set (sw_used sw (sl_used T)) \<and> length (sw_used sw (sl_used T)) < sc_nonce_budget (sl_config T) \<and>
       sw_used sw' = (sw_used sw)(sl_used T := n # sw_used sw (sl_used T)))"
  using assms
  by (auto simp: seal_value_def op_bind_def op_simps fill_nonce_def claim_nonce_def Let_def
      split: res.splits if_splits prod.splits)

lemma nonces_inv_seal:
  assumes "seal_value C X T k p v key sw = (sw', r)" and "sealed_family root T" and "nonces_inv C X root sw"
  shows "nonces_inv C X root sw'"
proof -
  have pol: "sl_used T = sl_used root" "sc_nonce_budget (sl_config T) = sc_nonce_budget (sl_config root)"
    using family_policy [OF assms(2)] by simp_all
  obtain ns where ns: "distinct ns" "set ns \<subseteq> set (sw_used sw (sl_used root))"
      "list_all2 (sealed_with C X root) ns (snd (sw_backend sw))"
    using assms(3) unfolding nonces_inv_def by blast
  have used: "distinct (sw_used sw' (sl_used root))" "length (sw_used sw' (sl_used root)) \<le> sc_nonce_budget (sl_config root)"
      "set (sw_used sw (sl_used root)) \<subseteq> set (sw_used sw' (sl_used root))"
    using seal_value_claims [OF assms(1)] assms(3) unfolding nonces_inv_def pol by auto
  have "set ns \<subseteq> set (sw_used sw' (sl_used root))" using ns(2) used(3) by blast
  then show ?thesis
    using ns(1,3) used(1,2) seal_value_backend [OF assms(1)] unfolding nonces_inv_def by auto
qed

lemma nonces_inv_set:
  assumes "sealed_family root T" and "nonces_inv C X root sw"
    and "sealed_set C X (recorded tbl) T logical v sw = (sw', r)"
  shows "nonces_inv C X root sw'"
proof (cases "sealed_key T")
  case (Ok key)
  let ?p = "physical X T key logical"
  obtain sw1 q where q: "seal_value C X T logical ?p v key sw = (sw1, q)"
    by (cases "seal_value C X T logical ?p v key sw")
  note inv1 = nonces_inv_seal [OF q assms(1,2)]
  show ?thesis
  proof (cases "\<exists>sv t. q = Ok sv \<and> tbl (sl_backend T) = Some t")
    case False
    then have "sw' = sw1"
      using assms(3) Ok q
      by (cases q) (auto simp: sealed_set_def op_bind_def op_simps sealed_backend_def recorded_def split: option.splits)
    then show ?thesis using inv1 by simp
  next
    case True
    then obtain sv t where sv: "q = Ok sv" "tbl (sl_backend T) = Some t" by blast
    obtain e pt n c g bs u where s:
      "as_expr C v = Ok e"
      "payload_encode X (sym_name logical) e (sc_max_plaintext_bytes (sl_config T)) = Ok pt"
      "n \<notin> set (sw_used sw (sl_used T))"
      "sw_used sw1 = (sw_used sw)(sl_used T := n # sw_used sw (sl_used T))" "sw_backend sw1 = sw_backend sw"
      "aead_seal X (sk_aead key) n (binding_aad (sealed_binding T ?p)) pt = Some (c, g)"
      "sealed_object_encode \<lparr>so_suite = suite_chacha20_poly1305, so_nonce = n, so_ciphertext_and_tag = c @ g\<rparr> = Ok bs"
      "cx_bytes C bs = Ok sv"
      using q unfolding sv(1) by (rule seal_value_OkE)
    have with_n: "sealed_with C X root n (?p, sv)"
      using assms(1) Ok s(1,2,6,7,8) unfolding sealed_with_def sealed_for_def prod.case by blast
    have pol: "sl_used T = sl_used root" using family_policy [OF assms(1)] by simp
    obtain ns where ns: "distinct ns" "set ns \<subseteq> set (sw_used sw (sl_used root))"
        "list_all2 (sealed_with C X root) ns (snd (sw_backend sw))"
      using assms(2) unfolding nonces_inv_def by blast
    have log: "sw_used sw' = sw_used sw1" "snd (sw_backend sw') = snd (sw_backend sw) @ [(?p, sv)]"
      using assms(3) Ok q sv s(5)
      by (auto simp: sealed_set_def op_bind_def op_simps sealed_backend_def recorded_def recording_def Let_def split_def)
    have "list_all2 (sealed_with C X root) (ns @ [n]) (snd (sw_backend sw'))"
      unfolding log(2) by (rule list_all2_appendI [OF ns(3)]) (simp add: with_n)
    moreover have "distinct (ns @ [n])" "set (ns @ [n]) \<subseteq> set (sw_used sw' (sl_used root))"
      using ns(1,2) s(3,4) log(1) pol by auto
    moreover have "distinct (sw_used sw' (sl_used root))"
      "length (sw_used sw' (sl_used root)) \<le> sc_nonce_budget (sl_config root)"
      using inv1 log(1) unfolding nonces_inv_def by simp_all
    ultimately show ?thesis unfolding nonces_inv_def by blast
  qed
qed (use assms(2,3) in \<open>auto simp: sealed_set_def op_bind_def op_simps\<close>)

lemma nonces_inv_call:
  assumes "sealed_family root T" and "nonces_inv C X root sw"
  shows "nonces_inv C X root (sealed_call C X (recorded tbl) T c sw)"
proof -
  have keeps: "op_keeps quiet m \<Longrightarrow> nonces_inv C X root (fst (m sw))" for m :: "(_, table_error, 'z) op"
    by (rule quiet_inv [OF _ assms(2)]) (simp add: op_keeps_def)
  have set: "nonces_inv C X root (fst (sealed_set C X (recorded tbl) T k v sw))" for k v
    by (rule nonces_inv_set [OF assms]) (rule surjective_pairing)
  show ?thesis
    by (cases c) (simp_all add: sealed_call_def sealed_table_impl_def Let_def split_def keeps quiet_reads set)
qed

lemma nonces_inv_history:
  "list_all (\<lambda>(T, c). sealed_family root T) evs \<Longrightarrow> nonces_inv C X root sw \<Longrightarrow>
     nonces_inv C X root (sealed_history C X (recorded tbl) evs sw)"
  by (induction evs arbitrary: sw) (auto simp: sealed_history_def nonces_inv_call)

lemma sealed_set_exhausted:
  assumes "sealed_set C X tbl T logical v sw = (sw', r)"
    and "sc_nonce_budget (sl_config T) \<le> length (sw_used sw (sl_used T))"
  shows "\<not> is_ok r \<and> sw_backend sw' = sw_backend sw"
proof (cases "sealed_key T")
  case (Ok key)
  obtain sw1 q where q: "seal_value C X T logical (physical X T key logical) v key sw = (sw1, q)"
    by (cases "seal_value C X T logical (physical X T key logical) v key sw")
  have "q \<noteq> Ok sv" for sv
  proof
    assume "q = Ok sv"
    then show False using q assms(2) by (auto elim: seal_value_OkE)
  qed
  then show ?thesis
    using assms(1) Ok q seal_value_backend [OF q]
    by (cases q) (auto simp: sealed_set_def op_bind_def op_simps)
qed (use assms(1) in \<open>auto simp: sealed_set_def op_bind_def op_simps\<close>)

text \<open>C22: No nonce seals two stored objects: after any history of calls through a decorator made by
  \<open>SealedTable::new\<close> and through its child directories at any depth, every value that was handed to the
  backend is a frame whose ciphertext and tag the cipher made with the nonce the frame carries, and
  these nonces are pairwise different and recorded in the nonce set that the decorators share. The set
  has no duplicates and never exceeds the budget of the policy, and once the budget is used up every
  further set fails and hands nothing to the backend. (Two decorators made by \<open>SealedTable::new\<close> for
  one key have two nonce sets, and nothing is claimed between them.)\<close>

theorem sealed_nonces_fresh:
  assumes "sealed_new (recorded tbl) backend config
      \<lparr>sw_used = U, sw_fresh = i, sw_nonces = s0, sw_backend = (w0, [])\<rparr> = (sw0, Ok root)"
    and "list_all (\<lambda>(T, c). sealed_family root T) evs"
    and "sealed_history C X (recorded tbl) evs sw0 = sw"
    and "sealed_family root T"
  shows "(\<exists>ns. distinct ns \<and> set ns \<subseteq> set (sw_used sw (sl_used root)) \<and>
       list_all2 (sealed_with C X root) ns (snd (sw_backend sw))) \<and>
    distinct (sw_used sw (sl_used root)) \<and> length (sw_used sw (sl_used root)) \<le> sc_nonce_budget config \<and>
    (length (sw_used sw (sl_used root)) = sc_nonce_budget config \<longrightarrow>
       \<not> is_ok (snd (sealed_set C X (recorded tbl) T logical v sw)) \<and>
       sw_backend (fst (sealed_set C X (recorded tbl) T logical v sw)) = sw_backend sw)"
proof -
  have new: "sl_config root = config" "sw_used sw0 (sl_used root) = []" "snd (sw_backend sw0) = []"
    using assms(1) by (auto simp: sealed_new_def split: if_splits)
  have "nonces_inv C X root sw0" using new by (simp add: nonces_inv_def)
  then have inv: "nonces_inv C X root sw"
    using nonces_inv_history [OF assms(2)] assms(3) by blast
  have pol: "sl_used T = sl_used root" "sc_nonce_budget (sl_config T) = sc_nonce_budget config"
    using family_policy [OF assms(4)] new(1) by simp_all
  have "length (sw_used sw (sl_used root)) = sc_nonce_budget config \<Longrightarrow>
      \<not> is_ok (snd (sealed_set C X (recorded tbl) T logical v sw)) \<and>
      sw_backend (fst (sealed_set C X (recorded tbl) T logical v sw)) = sw_backend sw"
    using sealed_set_exhausted [OF surjective_pairing, where T = T and sw = sw] pol by simp
  then show ?thesis using inv new(1) unfolding nonces_inv_def by simp
qed

section \<open>A sample: a sealed directory tree\<close>

datatype sealed_sample = SampleNil | SampleDir string | SampleBytes "u8 list" | SampleExpr expr

fun sample_value_expr :: "sealed_sample \<Rightarrow> (table_error, expr) res" where
  "sample_value_expr SampleNil = Ok ENil"
| "sample_value_expr (SampleDir p) = Ok (EMap [])"
| "sample_value_expr (SampleBytes bs) = Ok (EBytes bs)"
| "sample_value_expr (SampleExpr e) = Ok e"

definition sample_seal_cx :: "sealed_sample cx" where
  "sample_seal_cx =
     \<lparr>cx_granted = \<lambda>_. True, cx_nil = Ok SampleNil, cx_string = \<lambda>s. Ok (SampleExpr (EString s)),
      cx_bytes = \<lambda>bs. Ok (SampleBytes bs), cx_expr = \<lambda>e. Ok (SampleExpr e), as_expr = sample_value_expr,
      legal_segment = \<lambda>seg. seg \<noteq> [] \<and> CHR ''/'' \<notin> set seg\<rparr>"

definition sample_tag :: "u8 list \<Rightarrow> u8 list" where
  "sample_tag bs = be_nat 16 (foldl (\<lambda>a b. a * 5 + unat b) 3 bs)"

fun sample_encode :: "expr \<Rightarrow> string option" where
  "sample_encode (EString s) = (if str_ok s then Some s else None)"
| "sample_encode _ = None"

definition sample_crypto :: crypto where
  "sample_crypto =
     \<lparr>hmac = \<lambda>k m. be_nat 2 (foldl (\<lambda>a b. a * 3 + unat b) 1 (k @ m)),
      aead_seal = \<lambda>k n a p. Some (p, sample_tag (k @ n @ a @ p)),
      aead_open = \<lambda>k n a ct. (let p = take (length ct - 16) ct in
        if 16 \<le> length ct \<and> drop (length ct - 16) ct = sample_tag (k @ n @ a @ p) then Some p else None),
      encode_portable = sample_encode, decode_portable = \<lambda>t. Some (EString t)\<rparr>"

definition sample_sealed_config :: "u64 \<Rightarrow> nat sealed_config" where
  "sample_sealed_config g =
     \<lparr>sc_grant = ''g'', sc_key_id = ''k'', sc_lane = [7], sc_generation = g, sc_max_plaintext_bytes = 64,
      sc_max_object_bytes = 128, sc_metadata_class = ''m'', sc_nonce_budget = 3,
      sc_keys = \<lambda>_. Some \<lparr>sk_id = ''k'', sk_aead = [1], sk_blinding = [2]\<rparr>,
      sc_fill = \<lambda>n. (Suc n, Ok (be_nat 12 n))\<rparr>"

fun sample_seal_tbl :: "sealed_sample \<Rightarrow> (sealed_sample db_store, sealed_sample) table option" where
  "sample_seal_tbl (SampleDir p) = Some (db_table sample_seal_cx p)"
| "sample_seal_tbl _ = None"

fun sample_seal_dirs :: "sealed_sample \<Rightarrow> (sealed_sample db_store, sealed_sample) dir option" where
  "sample_seal_dirs (SampleDir p) =
     Some \<lparr>dr_mkdir = db_mkdir sample_seal_cx (\<lambda>q. Ok (SampleDir q)) p,
           dr_opendir = db_opendir sample_seal_cx (\<lambda>q. Ok (SampleDir q)) p,
           dr_rmdir = db_rmdir sample_seal_cx p, dr_is_dir = db_is_dir sample_seal_cx p\<rparr>"
| "sample_seal_dirs _ = None"

definition sample_sealed :: "u64 \<Rightarrow> (nat, sealed_sample) sealed_table" where
  "sample_sealed g = \<lparr>sl_backend = SampleDir [], sl_config = sample_sealed_config g, sl_used = 0\<rparr>"

definition sample_sealed_world :: "(nat, sealed_sample db_store) sealed_world" where
  "sample_sealed_world = \<lparr>sw_used = \<lambda>_. [], sw_fresh = 1, sw_nonces = 0, sw_backend = db_open\<rparr>"

lemma sample_aead: "aead_law sample_crypto"
proof -
  have len: "length (sample_tag bs) = 16" for bs by (simp add: sample_tag_def)
  have "aead_open sample_crypto k n a ct = Some p \<longleftrightarrow> ct = p @ sample_tag (k @ n @ a @ p)" for k n a ct p
  proof
    assume "aead_open sample_crypto k n a ct = Some p"
    then have "p = take (length ct - 16) ct" "drop (length ct - 16) ct = sample_tag (k @ n @ a @ p)"
      by (auto simp: sample_crypto_def Let_def split: if_splits)
    then show "ct = p @ sample_tag (k @ n @ a @ p)" by (metis append_take_drop_id)
  qed (simp add: sample_crypto_def Let_def len)
  moreover have "aead_seal sample_crypto k n a p = Some (c, t) \<longleftrightarrow> c = p \<and> t = sample_tag (k @ n @ a @ p)" for k n a p c t
    by (auto simp: sample_crypto_def)
  ultimately show ?thesis by (auto simp: aead_law_def tag_len_def len)
qed

lemma sample_portable: "portable_law sample_crypto"
  by (auto simp: portable_law_def sample_crypto_def elim!: sample_encode.elims split: if_splits)

lemma sample_bytes_law: "bytes_law sample_seal_cx"
  by (auto simp: bytes_law_def sample_seal_cx_def)

lemma sample_fill: "fill_law (sl_config (sample_sealed g))"
  by (auto simp: fill_law_def sample_sealed_def sample_sealed_config_def nonce_len_def)

lemma sample_plain: "db_plain sample_seal_cx [] db_open"
  by (auto simp: db_plain_def sample_seal_cx_def db_open_def direct_subdirs_def scollect_def subdir_name_def
      map_filter_def child_join_def)

lemmas sample_sealed_contract = db.table_contract_axioms [where C = sample_seal_cx and p = "[]"]

lemma sample_seal_tbl_root: "sample_seal_tbl (sl_backend (sample_sealed g)) = Some (db_table sample_seal_cx [])"
  by (simp add: sample_sealed_def)

definition sample_key :: secret_key where
  "sample_key = \<lparr>sk_id = ''k'', sk_aead = [1], sk_blinding = [2]\<rparr>"

lemma sample_sealed_key: "sealed_key (sample_sealed g) = Ok sample_key"
  by (simp add: sealed_key_def sample_sealed_def sample_sealed_config_def sample_key_def)

lemma sample_legal: "legal_segment sample_seal_cx (sym_name (physical sample_crypto T key k))"
  using physical_segment by (simp add: sample_seal_cx_def)

lemma sample_seals:
  assumes "sl_config T = (sample_sealed_config g)\<lparr>sc_lane := l\<rparr>" and "length (sw_used sw (sl_used T)) < 3"
    and "be_nat 12 (sw_nonces sw) \<notin> set (sw_used sw (sl_used T))" and "str_ok t" "length (sym_name k) + length t \<le> 60"
  shows "\<exists>sv. seal_value sample_seal_cx sample_crypto T k phys (SampleExpr (EString t)) key sw =
    (sw\<lparr>sw_nonces := Suc (sw_nonces sw),
        sw_used := (sw_used sw)(sl_used T := be_nat 12 (sw_nonces sw) # sw_used sw (sl_used T))\<rparr>, Ok sv)"
proof (rule seal_value_succeeds [OF sample_aead])
  show "as_expr sample_seal_cx (SampleExpr (EString t)) = Ok (EString t)" by (simp add: sample_seal_cx_def)
  show "encode_portable sample_crypto (EString t) = Some t" using assms(4) by (simp add: sample_crypto_def)
  show "length (sym_name k) < 2 ^ 32" using assms(5) by simp
  show "sc_fill (sl_config T) (sw_nonces sw) = (Suc (sw_nonces sw), Ok (be_nat 12 (sw_nonces sw)))"
    by (simp add: assms(1) sample_sealed_config_def)
qed (use assms(2-) in \<open>simp_all add: assms(1) sample_sealed_config_def nonce_len_def sample_crypto_def sample_seal_cx_def\<close>)

lemma sample_root_config: "sl_config (sample_sealed g) = (sample_sealed_config g)\<lparr>sc_lane := [7]\<rparr>"
  by (simp add: sample_sealed_def sample_sealed_config_def)

lemma sample_first_seal:
  assumes "str_ok t" "length (sym_name k) + length t \<le> 60"
  obtains sv sw1 where "seal_value sample_seal_cx sample_crypto (sample_sealed g) k phys (SampleExpr (EString t)) key
    sample_sealed_world = (sw1, Ok sv)"
  using sample_seals [OF sample_root_config, of sample_sealed_world g t k phys key] assms
  by (auto simp: sample_sealed_world_def)

lemma sample_first_set:
  assumes "str_ok t" "length (sym_name k) + length t \<le> 60"
  obtains sw' where "sealed_set sample_seal_cx sample_crypto sample_seal_tbl (sample_sealed g) k (SampleExpr (EString t))
    sample_sealed_world = (sw', Ok ())"
proof -
  let ?p = "physical sample_crypto (sample_sealed g) sample_key k"
  obtain sv sw1 where seal: "seal_value sample_seal_cx sample_crypto (sample_sealed g) k ?p (SampleExpr (EString t))
      sample_key sample_sealed_world = (sw1, Ok sv)"
    by (rule sample_first_seal [OF assms])
  have "sw_backend sw1 = db_open" using seal_value_backend [OF seal] by (simp add: sample_sealed_world_def)
  then obtain w where "tb_set (db_table sample_seal_cx []) ?p sv (sw_backend sw1) = (w, Ok ())"
    using db.set [OF sample_plain sample_legal [where T = "sample_sealed g" and key = sample_key and k = k], where v = sv] by auto
  then have "sealed_set sample_seal_cx sample_crypto sample_seal_tbl (sample_sealed g) k (SampleExpr (EString t))
      sample_sealed_world = (sw1\<lparr>sw_backend := w\<rparr>, Ok ())"
    using seal sample_sealed_key [of g]
    by (simp add: sealed_set_def op_bind_def op_simps sealed_backend_run [of sample_seal_tbl, OF sample_seal_tbl_root])
  then show thesis by (rule that)
qed

lemma sample_texts: "str_ok ''a''" "str_ok ''v''" "str_ok ''w''"
  by (auto intro: str_ok_ascii)


text \<open>
  An object sealed in generation 1 and read in generation 2. The sample tag keeps the parity of what it
  tags, so that no plaintext has this ciphertext and tag in the other generation.
\<close>

lemma last_be_nat: "0 < n \<Longrightarrow> last (be_nat n x) = word_of_nat (x mod 256)"
  by (cases n) simp_all

lemma sample_tag_parity: "even (unat (last (sample_tag bs))) \<longleftrightarrow> odd (sum_list (map unat bs))"
proof -
  have fold: "even (foldl (\<lambda>a b. a * 5 + unat b) x bs) \<longleftrightarrow> even (x + sum_list (map unat bs))" for x
    by (induction bs arbitrary: x) (simp, auto)
  have byte: "unat (word_of_nat (x mod 256) :: u8) = x mod 256" for x
    by (simp add: unat_of_nat)
  have tag: "even (unat (last (be_nat 16 x))) \<longleftrightarrow> even x" for x
  proof -
    have "unat (last (be_nat 16 x)) = x mod 256" using byte [of x] by (subst last_be_nat) simp_all
    moreover have "even (x mod 256) \<longleftrightarrow> even x" by (rule dvd_mod_iff) simp
    ultimately show ?thesis by simp
  qed
  show ?thesis unfolding sample_tag_def tag fold by simp
qed

lemma sample_no_forgery:
  assumes "sealed_for sample_seal_cx sample_crypto (sample_sealed 1) k phys v key sv n c u"
    and "aead_seal sample_crypto (sk_aead key) n (binding_aad (sealed_binding (sample_sealed 2) phys)) p2 = Some (c, u)"
  shows False
proof -
  obtain pt where "aead_seal sample_crypto (sk_aead key) n (binding_aad (sealed_binding (sample_sealed 1) phys)) pt = Some (c, u)"
    using assms(1) unfolding sealed_for_def by blast
  then have tag: "u = sample_tag (sk_aead key @ n @ binding_aad (sealed_binding (sample_sealed 1) phys) @ c)"
    by (auto simp: sample_crypto_def)
  have tag2: "u = sample_tag (sk_aead key @ n @ binding_aad (sealed_binding (sample_sealed 2) phys) @ c)"
    using assms(2) by (auto simp: sample_crypto_def)
  have gen: "sum_list (map unat (u64_to_be (1 :: u64))) = 1" "sum_list (map unat (u64_to_be (2 :: u64))) = 2"
    by code_simp+
  have "odd (sum_list (map unat (binding_aad (sealed_binding (sample_sealed 1) phys)))) \<longleftrightarrow>
      even (sum_list (map unat (binding_aad (sealed_binding (sample_sealed 2) phys))))"
    by (simp add: binding_aad_def sealed_binding_def sample_sealed_def sample_sealed_config_def gen)
  moreover have "even (unat (last u)) \<longleftrightarrow>
      odd (sum_list (map unat (sk_aead key @ n @ binding_aad (sealed_binding (sample_sealed 1) phys) @ c)))"
    unfolding tag by (rule sample_tag_parity)
  moreover have "even (unat (last u)) \<longleftrightarrow>
      odd (sum_list (map unat (sk_aead key @ n @ binding_aad (sealed_binding (sample_sealed 2) phys) @ c)))"
    unfolding tag2 by (rule sample_tag_parity)
  ultimately show False by auto
qed

lemma sample_physical: "physical sample_crypto (sample_sealed g) key k = physical sample_crypto (sample_sealed 1) key k"
  by (simp add: physical_def lane_prefix_def sample_sealed_def sample_sealed_config_def)

lemma sample_small: "binding_small (sealed_binding (sample_sealed g) (physical sample_crypto (sample_sealed h) sample_key k))"
proof -
  have hexlen: "length (hex_text bs) = 2 * length bs" for bs
    by (induction bs) (simp_all add: hex_text_def hex_byte_def)
  have "length (sym_name (physical sample_crypto (sample_sealed h) sample_key k)) < 2 ^ 64"
    by (simp add: physical_def lane_prefix_def blind_lane_def blind_key_def hexlen sample_crypto_def)
  then show ?thesis
    by (simp add: binding_small_def sealed_binding_def) (simp add: sample_sealed_def sample_sealed_config_def)
qed

theorem sealed_moved_refused_witness:
  "\<exists>sv sw1 sw2. seal_value sample_seal_cx sample_crypto (sample_sealed 1) (sym_new ''a'')
      (physical sample_crypto (sample_sealed 1) sample_key (sym_new ''a'')) (SampleExpr (EString ''v'')) sample_key
      sample_sealed_world = (sw1, Ok sv) \<and>
    db_content [] (sw_backend sw2) (physical sample_crypto (sample_sealed 2) sample_key (sym_new ''a'')) = Some sv \<and>
    \<not> is_ok (snd (sealed_get sample_seal_cx sample_crypto sample_seal_tbl (sample_sealed 2) (sym_new ''a'') sw2)) \<and>
    \<not> is_ok (snd (sealed_has sample_seal_cx sample_crypto sample_seal_tbl (sample_sealed 2) (sym_new ''a'') sw2))"
proof -
  let ?a = "sym_new ''a''"
  let ?p = "physical sample_crypto (sample_sealed 1) sample_key ?a"
  have phys: "physical sample_crypto (sample_sealed 2) sample_key ?a = ?p" by (rule sample_physical)
  obtain sv sw1 where seal: "seal_value sample_seal_cx sample_crypto (sample_sealed 1) ?a ?p
      (SampleExpr (EString ''v'')) sample_key sample_sealed_world = (sw1, Ok sv)"
    by (rule sample_first_seal [of "''v''" ?a 1]) (simp_all add: sample_texts)
  obtain w where w: "db_plain sample_seal_cx [] w" "db_content [] w ?p = Some sv"
    using db.set [OF sample_plain sample_legal [where T = "sample_sealed 1" and key = sample_key and k = ?a], where v = sv] by auto
  let ?sw = "sw1\<lparr>sw_backend := w\<rparr>"
  have held: "db_plain sample_seal_cx [] (sw_backend ?sw)"
      "db_content [] (sw_backend ?sw) (physical sample_crypto (sample_sealed 2) sample_key ?a) = Some sv"
    using w phys by simp_all
  have differ: "sealed_place (sample_sealed 2) (physical sample_crypto (sample_sealed 2) sample_key ?a) \<noteq>
      sealed_place (sample_sealed 1) ?p"
    by (simp add: sealed_place_def sample_sealed_def sample_sealed_config_def)
  have "\<not> is_ok (snd (sealed_get sample_seal_cx sample_crypto sample_seal_tbl (sample_sealed 2) ?a ?sw)) \<and>
      \<not> is_ok (snd (sealed_has sample_seal_cx sample_crypto sample_seal_tbl (sample_sealed 2) ?a ?sw))"
    using sealed_moved_refused [where tbl = sample_seal_tbl and ?T2.0 = "sample_sealed 2" and ?T1.0 = "sample_sealed 1"
          and X = sample_crypto and ?logical2.0 = ?a and ?key2.0 = sample_key and ?sw2.0 = ?sw,
          OF sample_sealed_contract, OF sample_seal_tbl_root held(1) sample_aead sample_bytes_law
          sample_fill seal sample_sealed_key refl sample_legal held(2) differ sample_small sample_small]
      sample_no_forgery [where phys = ?p] phys by auto
  then show ?thesis using seal held(2) by blast
qed

text \<open>A set through a decorator and one through a child directory of it.\<close>

definition sample_child :: "(nat, sealed_sample) sealed_table" where
  "sample_child = sealed_child (sample_sealed 1) (SampleDir ''c'') (sym_new ''c'')"

lemma sample_call:
  assumes "sl_config T = (sample_sealed_config 1)\<lparr>sc_lane := l\<rparr>" and "sl_backend T = SampleDir d" and "sl_used T = 0"
    and "length (sw_used sw 0) < 3" "be_nat 12 (sw_nonces sw) \<notin> set (sw_used sw 0)"
    and "str_ok t" "length (sym_name k) + length t \<le> 60"
  shows "\<exists>e. snd (sw_backend (sealed_call sample_seal_cx sample_crypto (recorded sample_seal_tbl) T (CallSet k (SampleExpr (EString t))) sw)) =
      snd (sw_backend sw) @ [e] \<and>
    sw_used (sealed_call sample_seal_cx sample_crypto (recorded sample_seal_tbl) T (CallSet k (SampleExpr (EString t))) sw) 0 =
      be_nat 12 (sw_nonces sw) # sw_used sw 0 \<and>
    sw_nonces (sealed_call sample_seal_cx sample_crypto (recorded sample_seal_tbl) T (CallSet k (SampleExpr (EString t))) sw) =
      Suc (sw_nonces sw)"
proof -
  have key: "sealed_key T = Ok sample_key"
    by (simp add: sealed_key_def assms(1) sample_sealed_config_def sample_key_def)
  obtain sv where "seal_value sample_seal_cx sample_crypto T k (physical sample_crypto T sample_key k)
      (SampleExpr (EString t)) sample_key sw =
      (sw\<lparr>sw_nonces := Suc (sw_nonces sw), sw_used := (sw_used sw)(sl_used T := be_nat 12 (sw_nonces sw) # sw_used sw (sl_used T))\<rparr>, Ok sv)"
    using sample_seals [OF assms(1), of sw t k "physical sample_crypto T sample_key k" sample_key] assms(3-) by auto
  then show ?thesis
    by (simp add: sealed_call_def sealed_table_impl_def sealed_set_def op_bind_def op_simps key sealed_backend_def
        recorded_def assms(2,3) recording_def Let_def split_def)
qed

theorem sealed_nonces_fresh_witness:
  "\<exists>sw0 sw e1 e2 n1 n2.
     sealed_new (recorded sample_seal_tbl) (SampleDir []) (sample_sealed_config 1)
       \<lparr>sw_used = \<lambda>_. [], sw_fresh = 0, sw_nonces = 0, sw_backend = (db_open, [])\<rparr> = (sw0, Ok (sample_sealed 1)) \<and>
     sealed_history sample_seal_cx sample_crypto (recorded sample_seal_tbl)
       [(sample_sealed 1, CallSet (sym_new ''a'') (SampleExpr (EString ''v''))),
        (sample_child, CallSet (sym_new ''b'') (SampleExpr (EString ''w'')))] sw0 = sw \<and>
     snd (sw_backend sw) = [e1, e2] \<and> n1 \<noteq> n2 \<and>
     sealed_with sample_seal_cx sample_crypto (sample_sealed 1) n1 e1 \<and>
     sealed_with sample_seal_cx sample_crypto (sample_sealed 1) n2 e2"
proof -
  let ?start = "\<lparr>sw_used = \<lambda>_. [], sw_fresh = 0, sw_nonces = 0, sw_backend = (db_open, [])\<rparr>
      :: (nat, sealed_sample db_store \<times> (symbol \<times> sealed_sample) list) sealed_world"
  let ?sw0 = "?start\<lparr>sw_used := (sw_used ?start)(0 := []), sw_fresh := Suc 0\<rparr>"
  let ?evs = "[(sample_sealed 1, CallSet (sym_new ''a'') (SampleExpr (EString ''v''))),
        (sample_child, CallSet (sym_new ''b'') (SampleExpr (EString ''w'')))]"
  let ?call = "sealed_call sample_seal_cx sample_crypto (recorded sample_seal_tbl)"
  have new: "sealed_new (recorded sample_seal_tbl) (SampleDir []) (sample_sealed_config 1) ?start = (?sw0, Ok (sample_sealed 1))"
    by (simp add: sealed_new_def recorded_def sample_sealed_config_def sample_sealed_def usize_bound_def)
  have family: "list_all (\<lambda>(T, c). sealed_family (sample_sealed 1) T) ?evs"
    using family_root [of "sample_sealed 1"] family_child [OF family_root [of "sample_sealed 1"]]
    by (simp add: sample_child_def)
  define sw1 where "sw1 = ?call (sample_sealed 1) (CallSet (sym_new ''a'') (SampleExpr (EString ''v''))) ?sw0"
  define sw2 where "sw2 = ?call sample_child (CallSet (sym_new ''b'') (SampleExpr (EString ''w''))) sw1"
  obtain e1 where e1: "snd (sw_backend sw1) = [e1]" "sw_used sw1 0 = [be_nat 12 0]" "sw_nonces sw1 = 1"
    using sample_call [OF sample_root_config, of "[]" ?sw0 "''v''" "sym_new ''a''"] sample_texts
    by (auto simp: sw1_def sample_sealed_def)
  have child: "sl_config sample_child = (sample_sealed_config 1)\<lparr>sc_lane := sc_lane (sl_config sample_child)\<rparr>"
      "sl_backend sample_child = SampleDir ''c''" "sl_used sample_child = 0"
    by (simp_all add: sample_child_def sealed_child_def sample_sealed_def)
  have "last (be_nat 12 1) \<noteq> last (be_nat 12 0)" by (simp add: last_be_nat)
  then have "be_nat 12 1 \<noteq> be_nat 12 0" by auto
  then obtain e2 where e2: "snd (sw_backend sw2) = [e1, e2]"
    using sample_call [OF child, of sw1 "''w''" "sym_new ''b''"] sample_texts e1 by (auto simp: sw2_def)
  have history: "sealed_history sample_seal_cx sample_crypto (recorded sample_seal_tbl) ?evs ?sw0 = sw2"
    by (simp add: sealed_history_def sw1_def sw2_def)
  obtain ns where ns: "distinct ns"
      "list_all2 (sealed_with sample_seal_cx sample_crypto (sample_sealed 1)) ns (snd (sw_backend sw2))"
    using sealed_nonces_fresh [OF new family history family_root] by blast
  obtain n1 n2 where "ns = [n1, n2]"
    using list_all2_lengthD [OF ns(2)] e2 by (auto simp: length_Suc_conv)
  then have "n1 \<noteq> n2" "sealed_with sample_seal_cx sample_crypto (sample_sealed 1) n1 e1"
      "sealed_with sample_seal_cx sample_crypto (sample_sealed 1) n2 e2"
    using ns unfolding e2 by simp_all
  then show ?thesis using new history e2 by blast
qed

section \<open>Where the decorator does not compose\<close>

text \<open>
  Names are blinded and decoded without their namespace, and an opened name is compared with the whole
  symbol: what was set under a qualified name stays in the backend but can neither be read nor deleted.
\<close>

lemma open_value_qualified: "sym_ns k \<noteq> None \<Longrightarrow> open_value C X T (Some k) phys sv key \<noteq> Ok r"
  by (auto simp: open_value_def res_bind_Ok split: prod.splits if_splits)

lemma sealed_qualified_unreadable:
  assumes "table_contract C t I legal content" and "tbl (sl_backend T) = Some t" and "I (sw_backend sw)"
    and "sealed_key T = Ok key" and "legal (physical X T key logical)" and "sym_ns logical \<noteq> None"
    and "sealed_set C X tbl T logical v sw = (sw', Ok ())"
  shows "\<not> is_ok (snd (sealed_get C X tbl T logical sw')) \<and>
    sealed_del C X tbl T logical sw' = (sw', snd (sealed_del C X tbl T logical sw')) \<and>
    content (sw_backend sw') (physical X T key logical) \<noteq> None"
proof -
  obtain sw1 sv w where s: "seal_value C X T logical (physical X T key logical) v key sw = (sw1, Ok sv)"
    "tb_set t (physical X T key logical) sv (sw_backend sw1) = (w, Ok ())" "sw' = sw1\<lparr>sw_backend := w\<rparr>"
    using assms(7,4,2) by (rule sealed_set_OkE)
  have w: "I w" "content w = (content (sw_backend sw))(physical X T key logical \<mapsto> sv)"
    using table_base.set [OF table_contract.axioms(1) [OF assms(1)] assms(3,5), of sv] s(2) seal_value_backend [OF s(1)]
    by auto
  then have I': "I (sw_backend sw')" using s(3) by simp
  have get: "sealed_get C X tbl T logical sw' =
      (sw', res_bind (open_value C X T (Some logical) (physical X T key logical) sv key) (\<lambda>(k, v). Ok v))"
    using sealed_get_run(1) [where tbl = tbl and T = T, OF assms(1,2) I' assms(4,5)] w(2) s(3) by simp
  then have bad: "\<not> is_ok (snd (sealed_get C X tbl T logical sw'))"
    using open_value_qualified [OF assms(6), of C X T "physical X T key logical" sv key] by (auto simp: is_ok_iff res_bind_Ok)
  then have "fst (sealed_del C X tbl T logical sw') = sw'"
    using get by (cases "open_value C X T (Some logical) (physical X T key logical) sv key")
      (auto simp: sealed_del_def op_bind_def)
  then show ?thesis using bad w(2) s(3) by (simp add: prod_eq_iff)
qed

text \<open>
  Over a directory tree, a child directory is listed under its blinded name among the backend's keys but
  reads as nil, so that once a sealed directory has a subdirectory its keys cannot be listed.
\<close>

lemma op_collect_all:
  assumes "op_collect f xs s = (s', Ok ys)" and "\<And>x u. fst (f x u) = u" and "x \<in> set xs"
  shows "is_ok (snd (f x s))"
  using assms(1,3)
proof (induction xs arbitrary: ys s')
  case Nil
  then show ?case by simp
next
  case (Cons a xs)
  obtain u y z where a: "f a s = (u, Ok y)" "op_collect f xs u = z" "is_ok (snd z)"
    using Cons.prems(1) by (auto simp: op_Ok is_ok_iff)
  have "u = s" using assms(2) [of a s] a(1) by simp
  then show ?case
    using Cons.IH [of "fst z"] a Cons.prems(2) by (cases z) (auto simp: is_ok_iff)
qed

lemma subdir_of_join:
  "seg \<noteq> [] \<Longrightarrow> CHR ''/'' \<notin> set seg \<Longrightarrow> subdir_name p (child_join p seg) = Some (sym_new seg)"
proof -
  assume seg: "seg \<noteq> []" "CHR ''/'' \<notin> set seg"
  have "strip_prefix (p @ ''/'') (p @ CHR ''/'' # seg) = Some seg" by (simp add: strip_prefix_Some)
  moreover have "split_once (CHR ''/'') seg = None" using seg by (simp add: split_once_None)
  ultimately show ?thesis using seg by (auto simp: subdir_name_def child_join_def)
qed

lemma db_get_state: "fst (db_get C p k s) = s"
  by (simp add: db_get_def op_bind_def op_simps cx_require_def)

lemma sealed_mkdir_breaks_listing:
  assumes "tbl (sl_backend T) = Some (db_table C p)" and "dirs (sl_backend T) = Some dd" "dr_mkdir dd = db_mkdir C mk0 p"
    and "cx_nil C = Ok nilv" "as_expr C nilv = Ok ENil"
    and "sealed_mkdir X dirs mk T name sw = (sw', Ok v)"
  shows "\<not> is_ok (snd (sealed_keys C X tbl T sw'))"
proof
  assume "is_ok (snd (sealed_keys C X tbl T sw'))"
  then obtain key ks names swk where key: "sealed_key T = Ok key"
    and ks: "sealed_backend tbl T tb_keys sw' = (swk, Ok ks)"
    and col: "op_collect (\<lambda>phys. op_bind (open_at C X tbl T key phys) (\<lambda>(logical, v). op_return logical))
        (filter (belongs_to_lane X T key) ks) swk = names" "is_ok (snd names)"
    by (cases "sealed_keys C X tbl T sw'") (auto simp: is_ok_iff sealed_keys_def lane_keys_def op_Ok)
  let ?p = "physical X T key name"
  obtain s' d where mk: "db_mkdir C mk0 p ?p (sw_backend sw) = (s', Ok d)" and sw': "sw_backend sw' = s'"
    using assms(2,3,6) key by (auto simp: sealed_mkdir_def op_Ok sealed_dir_def split: prod.splits)
  have s': "s' = (sw_backend sw)\<lparr>db_dirs := sinsert (child_join p (sym_name ?p)) (db_dirs (sw_backend sw))\<rparr>"
    and absent: "bget (db_values (sw_backend sw)) (p, ?p) = None"
    using mk by (auto simp: db_mkdir_def op_Ok child_path_Ok bcontains_def split: if_splits)
  have keys: "db_keys C p s' = (sw_backend swk, Ok ks)" and swk: "swk = sw'\<lparr>sw_backend := sw_backend swk\<rparr>"
    using ks assms(1) sw' by (auto simp: sealed_backend_Ok)
  have same: "sw_backend swk = s'" using keys by (auto simp: db_keys_def op_Ok)
  have "subdir_name p (child_join p (sym_name ?p)) = Some ?p"
    using subdir_of_join physical_segment by (metis physical_def symbol.sel(2))
  then have "?p \<in> set (direct_subdirs p s')"
    by (force simp: direct_subdirs_def s' map_filter_def)
  then have "?p \<in> set ks" using keys by (auto simp: db_keys_def op_Ok)
  moreover have "belongs_to_lane X T key ?p"
    by (simp add: belongs_to_lane_def physical_def strip_prefix_def starts_with_def)
  ultimately have mem: "?p \<in> set (filter (belongs_to_lane X T key) ks)" by simp
  let ?f = "\<lambda>phys. op_bind (open_at C X tbl T key phys) (\<lambda>(logical, v). op_return logical)"
  have open_at: "open_at C X tbl T key q u =
      (u, res_bind (snd (db_get C p q (sw_backend u))) (\<lambda>stored. open_value C X T None q stored key))" for q u
    using db_get_state [of C p q "sw_backend u"]
    by (cases "db_get C p q (sw_backend u)"; cases "snd (db_get C p q (sw_backend u))")
      (simp_all add: open_at_def op_bind_def sealed_backend_run [of tbl T, OF assms(1)] op_simps)
  have state: "fst (?f q u) = u" for q u
    by (cases "res_bind (snd (db_get C p q (sw_backend u))) (\<lambda>stored. open_value C X T None q stored key)")
      (auto simp: op_bind_def open_at op_simps)
  obtain sn ys where "op_collect ?f (filter (belongs_to_lane X T key) ks) swk = (sn, Ok ys)"
    using col by (cases names) (auto simp: is_ok_iff)
  then have "is_ok (snd (?f ?p swk))" by (rule op_collect_all [OF _ state mem])
  moreover have "snd (db_get C p ?p (sw_backend swk)) = Ok nilv \<or> \<not> is_ok (snd (db_get C p ?p (sw_backend swk)))"
    using absent s' same assms(4) by (simp add: db_get_def op_bind_def op_simps cx_require_def value_or_nil_def)
  ultimately show False
    using assms(5) by (auto simp: op_bind_def open_at is_ok_iff open_value_def res_bind_Ok split: res.splits)
qed

end
