(* ===== verification/Sealed_Generation.thy ===== *)
theory Sealed_Generation
  imports Std_Collections Std_Text "HOL-Library.AList"
begin

text \<open>
  The managed generations of sealed storage, \<open>crates/sim-table-sealed/src\<close>: \<open>generation.rs\<close>,
  \<open>key_provider.rs\<close>, \<open>backup.rs\<close> and \<open>destroy.rs\<close>. The key provider and the generation store are traits without
  an implementation in the library: records of operations on a world \<open>'w\<close>. The locale
  \<open>generation_store\<close> is the documented contract of the store, with every operation free to fail, and
  the store of \<open>lifecycle_tests.rs\<close> keeps it. The build callback of a rotation is a function of the key. The rotation guard of a lane lets one rotation run at a
  time; a crash is a failing operation after which nothing runs. \<open>KeyGrant\<close>, \<open>KeyRef\<close> and \<open>ManagedError\<close> are
  their strings, \<open>GenerationId\<close> its number.
\<close>

section \<open>Types\<close>

datatype lane = Ordinary | Finance | PrivateObservation

fun lane_rank :: "lane \<Rightarrow> nat" where
  "lane_rank Ordinary = 0"
| "lane_rank Finance = 1"
| "lane_rank PrivateObservation = 2"

lemma lane_rank_inj: "lane_rank a = lane_rank b \<longleftrightarrow> a = b"
  by (cases a; cases b) simp_all

instantiation lane :: linorder
begin

definition less_eq_lane :: "lane \<Rightarrow> lane \<Rightarrow> bool" where
  "less_eq_lane a b \<longleftrightarrow> lane_rank a \<le> lane_rank b"

definition less_lane :: "lane \<Rightarrow> lane \<Rightarrow> bool" where
  "less_lane a b \<longleftrightarrow> lane_rank a < lane_rank b"

instance
  by standard (auto simp: less_eq_lane_def less_lane_def lane_rank_inj)

end

record generation_manifest =
  gm_lane :: lane
  gm_generation :: u64
  gm_key :: string
  gm_record_ids :: "string list"
  gm_authentication :: "u8 list"

record generation =
  ge_manifest :: generation_manifest
  ge_ciphertext :: "(string, u8 list) btree_map"

record recovery_report =
  rr_selected :: "u64 option"
  rr_ignored_incomplete :: "u64 list"

record provider_receipt =
  pr_id :: string
  pr_action :: string
  pr_key :: string

record wrapped_key =
  wk_policy :: string
  wk_envelope :: "u8 list"

record backup_envelope =
  be_generation :: generation
  be_wrapped_key :: wrapped_key

record leakage_declaration =
  ld_residual :: "string list"
  ld_unmanaged_plaintext_statement :: string

record destruction_evidence =
  de_lane :: lane
  de_generation :: u64
  de_provider_receipts :: "provider_receipt list"
  de_removed_envelopes :: nat
  de_negative_probes :: nat
  de_leakage :: leakage_declaration

section \<open>The traits\<close>

record 'w key_provider =
  kp_create :: "lane \<Rightarrow> u64 \<Rightarrow> string \<Rightarrow> ('w, string, string \<times> provider_receipt) op"
  kp_wrap :: "string \<Rightarrow> string \<Rightarrow> string \<Rightarrow> ('w, string, wrapped_key \<times> provider_receipt) op"
  kp_unwrap :: "wrapped_key \<Rightarrow> string \<Rightarrow> string \<Rightarrow> ('w, string, string \<times> provider_receipt) op"
  kp_revoke :: "string \<Rightarrow> string \<Rightarrow> ('w, string, provider_receipt) op"
  kp_destroy :: "string \<Rightarrow> ('w, string, provider_receipt) op"
  kp_probe :: "string \<Rightarrow> u8 list \<Rightarrow> 'w \<Rightarrow> (string, unit) res"

record 'w generation_ops =
  gs_stage_records :: "generation \<Rightarrow> ('w, string, unit) op"
  gs_complete_manifest :: "generation_manifest \<Rightarrow> ('w, string, unit) op"
  gs_select :: "lane \<Rightarrow> u64 \<Rightarrow> ('w, string, unit) op"
  gs_complete :: "lane \<Rightarrow> u64 \<Rightarrow> 'w \<Rightarrow> generation option"
  gs_selected :: "lane \<Rightarrow> 'w \<Rightarrow> u64 option"
  gs_staged :: "lane \<Rightarrow> 'w \<Rightarrow> u64 list"
  gs_remove_generation :: "lane \<Rightarrow> u64 \<Rightarrow> ('w, string, unit) op"

text \<open>\<open>ProviderError\<close> as the text of a managed error.\<close>

definition provider_refused :: "string \<Rightarrow> string" where
  "provider_refused e = ''generation key provider refused '' @ e"

definition provider_op :: "('w, string, 'a) op \<Rightarrow> ('w, string, 'a) op" where
  "provider_op m w = (let (w', r) = m w in (w', map_err provider_refused r))"

section \<open>The manager\<close>

record 'w generation_manager =
  mg_provider :: "'w key_provider"
  mg_store :: "'w generation_ops"
  mg_grants :: "(lane, string) btree_map"

definition generation_manager_new ::
    "'w key_provider \<Rightarrow> 'w generation_ops \<Rightarrow> (lane \<times> string) list \<Rightarrow> (string, 'w generation_manager) res" where
  "generation_manager_new provider store grant_list =
     (let grants = bcollect grant_list in
      if length grants \<noteq> 3 \<or> list_ex (\<lambda>g. g = []) (bvalues grants) then
        Err ''each lane requires one non-empty grant''
      else let identities = remdups_adj (sort (bvalues grants)) in
      if length identities \<noteq> 3 then Err ''lane grants must be independent''
      else Ok \<lparr>mg_provider = provider, mg_store = store, mg_grants = grants\<rparr>)"

text \<open>Indexing the map panics on a missing lane.\<close>

definition lane_grant :: "'w generation_manager \<Rightarrow> lane \<Rightarrow> (string, string) res" where
  "lane_grant M lane = opt_expect (bget (mg_grants M) lane) ''no entry found for key''"

definition generation_accepted :: "lane \<Rightarrow> u64 \<Rightarrow> string \<Rightarrow> generation \<Rightarrow> bool" where
  "generation_accepted lane gid key g \<longleftrightarrow>
     \<not> (gm_lane (ge_manifest g) \<noteq> lane \<or> gm_generation (ge_manifest g) \<noteq> gid \<or> gm_key (ge_manifest g) \<noteq> key \<or>
        gm_authentication (ge_manifest g) = [] \<or>
        length (gm_record_ids (ge_manifest g)) \<noteq> length (ge_ciphertext g) \<or>
        list_ex (\<lambda>r. \<not> bcontains (ge_ciphertext g) r) (gm_record_ids (ge_manifest g)))"

definition publish_generation :: "'w generation_manager \<Rightarrow> generation \<Rightarrow> ('w, string, unit) op" where
  "publish_generation M g =
     op_bind (gs_stage_records (mg_store M) g) (\<lambda>_.
     op_bind (gs_complete_manifest (mg_store M) (ge_manifest g)) (\<lambda>_.
       gs_select (mg_store M) (gm_lane (ge_manifest g)) (gm_generation (ge_manifest g))))"

definition rotate_generation ::
    "'w generation_manager \<Rightarrow> lane \<Rightarrow> u64 \<Rightarrow> (string \<Rightarrow> (string, generation) res) \<Rightarrow>
     ('w, string, generation \<times> provider_receipt) op" where
  "rotate_generation M lane gid build =
     op_bind (op_read (\<lambda>w. if (case gs_selected (mg_store M) lane w of Some current \<Rightarrow> gid \<le> current | None \<Rightarrow> False)
                           then Err ''rollback generation refused'' else Ok ())) (\<lambda>_.
     op_bind (op_res (lane_grant M lane)) (\<lambda>grant.
     op_bind (provider_op (kp_create (mg_provider M) lane gid grant)) (\<lambda>(key, receipt).
     op_bind (op_res (build key)) (\<lambda>g.
     op_bind (op_res (if generation_accepted lane gid key g then Ok ()
                      else Err ''incomplete or mismatched generation'')) (\<lambda>_.
     op_bind (publish_generation M g) (\<lambda>_. op_return (g, receipt)))))))"

fun max_generation :: "u64 list \<Rightarrow> u64 option" where
  "max_generation [] = None"
| "max_generation (x # xs) = (case max_generation xs of None \<Rightarrow> Some x | Some y \<Rightarrow> Some (max x y))"

definition recover_generation :: "'w generation_manager \<Rightarrow> lane \<Rightarrow> ('w, string, recovery_report) op" where
  "recover_generation M lane =
     op_bind (op_read (\<lambda>w. Ok (gs_staged (mg_store M) lane w))) (\<lambda>staged.
     op_bind (op_read (\<lambda>w. Ok (filter (\<lambda>gid. gs_complete (mg_store M) lane gid w = None) staged))) (\<lambda>ignored.
     op_bind (op_read (\<lambda>w. Ok (max_generation (filter (\<lambda>gid. gs_complete (mg_store M) lane gid w \<noteq> None) staged)))) (\<lambda>selected.
     op_bind (op_read (\<lambda>w. Ok (gs_selected (mg_store M) lane w))) (\<lambda>current.
     op_bind (case selected of Some s \<Rightarrow> if current \<noteq> Some s then gs_select (mg_store M) lane s else op_return ()
              | None \<Rightarrow> op_return ()) (\<lambda>_.
       op_return \<lparr>rr_selected = selected, rr_ignored_incomplete = ignored\<rparr>)))))"

section \<open>Backup and destruction\<close>

definition backup_generation :: "'w generation_manager \<Rightarrow> generation \<Rightarrow> string \<Rightarrow> ('w, string, backup_envelope) op" where
  "backup_generation M g policy =
     (if policy = [] \<or> gm_authentication (ge_manifest g) = [] then op_fail ''backup policy or authentication missing''
      else
        op_bind (op_res (lane_grant M (gm_lane (ge_manifest g)))) (\<lambda>grant.
        op_bind (provider_op (kp_wrap (mg_provider M) (gm_key (ge_manifest g)) grant policy)) (\<lambda>(wrapped, receipt).
          op_return \<lparr>be_generation = g, be_wrapped_key = wrapped\<rparr>)))"

definition restore_generation :: "'w generation_manager \<Rightarrow> backup_envelope \<Rightarrow> string \<Rightarrow> ('w, string, string) op" where
  "restore_generation M backup policy =
     (if wk_policy (be_wrapped_key backup) \<noteq> policy \<or> gm_authentication (ge_manifest (be_generation backup)) = [] \<or>
         length (ge_ciphertext (be_generation backup)) \<noteq> length (gm_record_ids (ge_manifest (be_generation backup)))
      then op_fail ''backup is incomplete or policy mismatched''
      else
        op_bind (op_res (lane_grant M (gm_lane (ge_manifest (be_generation backup))))) (\<lambda>grant.
        op_bind (provider_op (kp_unwrap (mg_provider M) (be_wrapped_key backup) grant policy)) (\<lambda>(key, receipt).
          if key \<noteq> gm_key (ge_manifest (be_generation backup)) then op_fail ''stale generation envelope''
          else op_return key)))"

text \<open>The probes of a destroyed key: each must be refused; the count of refusals.\<close>

fun probe_all :: "'w key_provider \<Rightarrow> string \<Rightarrow> u8 list list \<Rightarrow> 'w \<Rightarrow> nat \<Rightarrow> (string, nat) res" where
  "probe_all P key [] w n = Ok n"
| "probe_all P key (c # cs) w n =
     (if is_ok (kp_probe P key c w) then Err ''destroyed key still decrypts ciphertext''
      else probe_all P key cs w (n + 1))"

definition on_world :: "('w, string, 'a) op \<Rightarrow> ('w \<times> 'b, string, 'a) op" where
  "on_world m wb = (let (w', r) = m (fst wb) in ((w', snd wb), r))"

definition forget_backups :: "lane \<Rightarrow> u64 \<Rightarrow> backup_envelope list \<Rightarrow> backup_envelope list" where
  "forget_backups lane gid = filter (\<lambda>b. gm_lane (ge_manifest (be_generation b)) \<noteq> lane \<or>
                                        gm_generation (ge_manifest (be_generation b)) \<noteq> gid)"

definition destroy_generation ::
    "'w generation_manager \<Rightarrow> generation \<Rightarrow> string list \<Rightarrow>
     ('w \<times> backup_envelope list, string, destruction_evidence) op" where
  "destroy_generation M g residual wb =
     (let lane = gm_lane (ge_manifest g); gid = gm_generation (ge_manifest g); key = gm_key (ge_manifest g)
      in op_bind (op_res (lane_grant M lane)) (\<lambda>grant.
         op_bind (on_world (provider_op (kp_revoke (mg_provider M) key grant))) (\<lambda>revoke.
         op_bind (on_world (gs_remove_generation (mg_store M) lane gid)) (\<lambda>_.
         op_bind (\<lambda>wb. ((fst wb, forget_backups lane gid (snd wb)),
                          Ok (1 + length (snd wb) - length (forget_backups lane gid (snd wb))))) (\<lambda>removed.
         op_bind (on_world (provider_op (kp_destroy (mg_provider M) key))) (\<lambda>destroy.
         op_bind (op_read (\<lambda>wb. probe_all (mg_provider M) key (bvalues (ge_ciphertext g)) (fst wb) 0)) (\<lambda>probes.
           op_return
             \<lparr>de_lane = lane, de_generation = gid, de_provider_receipts = [revoke, destroy],
              de_removed_envelopes = removed, de_negative_probes = probes,
              de_leakage = \<lparr>ld_residual = residual,
                ld_unmanaged_plaintext_statement =
                  ''exported or otherwise unmanaged plaintext is outside this destruction claim''\<rparr>\<rparr>)))))) wb)"

section \<open>The contract of a store\<close>

text \<open>
  Every operation may fail, and then leaves the complete generations and the heads as they were;
  staging never touches a complete generation of another number, completing the manifest of what was
  staged last makes exactly that generation complete, selecting moves the head of one lane to a
  complete generation, and every complete generation is listed as staged.
\<close>

locale generation_store =
  fixes S :: "'w generation_ops"
    and good :: "'w \<Rightarrow> bool"
  assumes stage: "good w \<Longrightarrow> gs_stage_records S g w = (w', r) \<Longrightarrow>
      good w' \<and> (\<forall>l. gs_selected S l w' = gs_selected S l w) \<and>
      (\<forall>l i. (l, i) \<noteq> (gm_lane (ge_manifest g), gm_generation (ge_manifest g)) \<longrightarrow>
         gs_complete S l i w' = gs_complete S l i w)"
    and complete: "good w \<Longrightarrow> gs_stage_records S g w = (w1, Ok ()) \<Longrightarrow>
      gs_complete_manifest S (ge_manifest g) w1 = (w', r) \<Longrightarrow>
      good w' \<and> (\<forall>l. gs_selected S l w' = gs_selected S l w1) \<and>
      (\<forall>l i. (l, i) \<noteq> (gm_lane (ge_manifest g), gm_generation (ge_manifest g)) \<longrightarrow>
         gs_complete S l i w' = gs_complete S l i w1) \<and>
      (r = Ok () \<longrightarrow> gs_complete S (gm_lane (ge_manifest g)) (gm_generation (ge_manifest g)) w' = Some g)"
    and select: "good w \<Longrightarrow> gs_select S l i w = (w', r) \<Longrightarrow>
      good w' \<and> (\<forall>l' i'. gs_complete S l' i' w' = gs_complete S l' i' w) \<and>
      (\<forall>l'. gs_selected S l' w' = (if l' = l \<and> r = Ok () then Some i else gs_selected S l' w)) \<and>
      (r = Ok () \<longrightarrow> gs_complete S l i w \<noteq> None)"
    and staged: "good w \<Longrightarrow> gs_complete S l i w \<noteq> None \<Longrightarrow> i \<in> set (gs_staged S l w)"

text \<open>The provider's own operations do not touch the store.\<close>

definition provider_apart :: "'w key_provider \<Rightarrow> 'w generation_ops \<Rightarrow> ('w \<Rightarrow> bool) \<Rightarrow> bool" where
  "provider_apart P S good \<longleftrightarrow>
     (\<forall>l i gr w w' r. good w \<and> kp_create P l i gr w = (w', r) \<longrightarrow>
        good w' \<and> (\<forall>l. gs_selected S l w' = gs_selected S l w) \<and> (\<forall>l i. gs_complete S l i w' = gs_complete S l i w))"

definition heads_complete :: "'w generation_ops \<Rightarrow> 'w \<Rightarrow> bool" where
  "heads_complete S w \<longleftrightarrow> (\<forall>l i. gs_selected S l w = Some i \<longrightarrow> gs_complete S l i w \<noteq> None)"

text \<open>What a failed or unfinished rotation may not do to a store.\<close>

definition store_kept :: "'w generation_ops \<Rightarrow> lane \<Rightarrow> u64 \<Rightarrow> 'w \<Rightarrow> 'w \<Rightarrow> bool" where
  "store_kept S lane gid w w' \<longleftrightarrow>
     (\<forall>l. gs_selected S l w' = gs_selected S l w) \<and>
     (\<forall>l i. (l, i) \<noteq> (lane, gid) \<longrightarrow> gs_complete S l i w' = gs_complete S l i w)"

definition store_published :: "'w generation_ops \<Rightarrow> generation \<Rightarrow> 'w \<Rightarrow> 'w \<Rightarrow> bool" where
  "store_published S g w w' \<longleftrightarrow>
     (let lane = gm_lane (ge_manifest g); gid = gm_generation (ge_manifest g) in
      gs_complete S lane gid w' = Some g \<and>
      (\<forall>l. gs_selected S l w' = (if l = lane then Some gid else gs_selected S l w)) \<and>
      (\<forall>l i. (l, i) \<noteq> (lane, gid) \<longrightarrow> gs_complete S l i w' = gs_complete S l i w))"

context generation_store begin

lemma publish_cases:
  assumes "good w" and "mg_store M = S" and "publish_generation M g w = (w', r)"
  shows "good w' \<and> (if r = Ok () then store_published S g w w'
                    else store_kept S (gm_lane (ge_manifest g)) (gm_generation (ge_manifest g)) w w')"
proof -
  let ?l = "gm_lane (ge_manifest g)" and ?i = "gm_generation (ge_manifest g)"
  obtain w1 r1 where s1: "gs_stage_records S g w = (w1, r1)" by (cases "gs_stage_records S g w")
  note l1 = stage [OF assms(1) s1]
  show ?thesis
  proof (cases "r1 = Ok ()")
    case False
    then have "w' = w1" "r \<noteq> Ok ()" using assms(2,3) s1 by (auto simp: publish_generation_def op_bind_def split: res.splits)
    then show ?thesis using l1 by (simp add: store_kept_def)
  next
    case True
    obtain w2 r2 where s2: "gs_complete_manifest S (ge_manifest g) w1 = (w2, r2)"
      by (cases "gs_complete_manifest S (ge_manifest g) w1")
    note l2 = complete [OF assms(1) _ s2]
    show ?thesis
    proof (cases "r2 = Ok ()")
      case False
      then have "w' = w2" "r \<noteq> Ok ()"
        using assms(2,3) s1 s2 True by (auto simp: publish_generation_def op_bind_def split: res.splits)
      then show ?thesis using l1 l2 s1 True by (simp add: store_kept_def)
    next
      case ok2: True
      obtain w3 r3 where s3: "gs_select S ?l ?i w2 = (w3, r3)" by (cases "gs_select S ?l ?i w2")
      then have "w' = w3" "r = r3"
        using assms(2,3) s1 s2 True ok2 by (auto simp: publish_generation_def op_bind_def split: res.splits)
      moreover have "good w2" using l2 s1 True by blast
      ultimately show ?thesis
        using select [OF _ s3] l1 l2 s1 True ok2 by (auto simp: store_kept_def store_published_def)
    qed
  qed
qed

end

section \<open>Rotation and recovery\<close>

lemma max_generation_None: "max_generation xs = None \<longleftrightarrow> xs = []"
  by (cases xs) (auto split: option.split)

lemma max_generation_Some: "max_generation xs = Some m \<Longrightarrow> m \<in> set xs \<and> (\<forall>x\<in>set xs. x \<le> m)"
proof (induction xs arbitrary: m)
  case (Cons x xs)
  then show ?case
    by (cases "max_generation xs") (auto simp: max_generation_None max_def split: if_splits)
qed simp

lemma max_generation_eq:
  assumes "m \<in> set xs" "\<forall>x\<in>set xs. x \<le> m"
  shows "max_generation xs = Some m"
proof -
  obtain m' where "max_generation xs = Some m'"
    using assms(1) by (metis max_generation_None empty_iff empty_set not_None_eq)
  then show ?thesis using max_generation_Some assms by (metis order_antisym)
qed

lemma provider_op_run: "provider_op m w = (w', r) \<Longrightarrow> \<exists>q. m w = (w', q) \<and> (r = Ok x \<longleftrightarrow> q = Ok x)"
  by (auto simp: provider_op_def map_err_Ok split: prod.splits)

context generation_store begin

lemma rotate_cases:
  assumes good: "good w" and M: "mg_store M = S" and apart: "provider_apart (mg_provider M) S good"
    and run: "rotate_generation M lane gid build w = (w', r)"
  shows "good w' \<and>
    (w' = w \<and> \<not> is_ok r \<or>
     (\<forall>i. gs_selected S lane w = Some i \<longrightarrow> i < gid) \<and>
       (if is_ok r then \<exists>g rc key. r = Ok (g, rc) \<and> build key = Ok g \<and> generation_accepted lane gid key g \<and>
                           store_published S g w w'
        else store_kept S lane gid w w'))"
proof (cases "case gs_selected S lane w of Some current \<Rightarrow> gid \<le> current | None \<Rightarrow> False")
  case True
  then have "w' = w" "\<not> is_ok r" using run M by (auto simp: rotate_generation_def op_bind_def op_simps)
  then show ?thesis using good by blast
next
  case False
  then have newer: "\<forall>i. gs_selected S lane w = Some i \<longrightarrow> i < gid" by auto
  show ?thesis
  proof (cases "lane_grant M lane")
    case (Ok grant)
    obtain w1 q where q: "provider_op (kp_create (mg_provider M) lane gid grant) w = (w1, q)"
      by (cases "provider_op (kp_create (mg_provider M) lane gid grant) w")
    then have w1: "good w1" "\<forall>l. gs_selected S l w1 = gs_selected S l w" "\<forall>l i. gs_complete S l i w1 = gs_complete S l i w"
      using apart good provider_op_run [OF q] unfolding provider_apart_def by blast+
    then have kept1: "store_kept S lane gid w w1" by (simp add: store_kept_def)
    have run': "(w', r) = (case q of Ok (key, receipt) \<Rightarrow>
        op_bind (op_res (build key)) (\<lambda>g.
        op_bind (op_res (if generation_accepted lane gid key g then Ok ()
                      else Err ''incomplete or mismatched generation'')) (\<lambda>_.
        op_bind (publish_generation M g) (\<lambda>_. op_return (g, receipt)))) w1
      | Err e \<Rightarrow> (w1, Err e) | Panic p \<Rightarrow> (w1, Panic p))"
      using run M False Ok q by (cases q) (auto simp: rotate_generation_def op_bind_def op_simps split: option.splits)
    show ?thesis
    proof (cases q)
      case q: (Ok kr)
      obtain key receipt where kr: "kr = (key, receipt)" by (cases kr)
      show ?thesis
      proof (cases "\<exists>g. build key = Ok g \<and> generation_accepted lane gid key g")
        case False
        then have "w' = w1" "\<not> is_ok r"
          using run' q kr by (cases "build key"; auto simp: op_bind_def op_simps)+
        then show ?thesis using w1 newer kept1 by simp
      next
        case True
        then obtain g where g: "build key = Ok g" "generation_accepted lane gid key g" by blast
        obtain w2 p where p: "publish_generation M g w1 = (w2, p)" by (cases "publish_generation M g w1")
        have eq: "w' = w2" "is_ok r \<longleftrightarrow> p = Ok ()" "p = Ok () \<Longrightarrow> r = Ok (g, receipt)"
          using run' q kr g p by (cases p; simp add: op_bind_def op_simps)+
        have own: "gm_lane (ge_manifest g) = lane" "gm_generation (ge_manifest g) = gid"
          using g(2) by (simp_all add: generation_accepted_def)
        note pub = publish_cases [OF w1(1) M p, unfolded own]
        have "store_published S g w1 w2 \<Longrightarrow> store_published S g w w2" "store_kept S lane gid w1 w2 \<Longrightarrow> store_kept S lane gid w w2"
          using w1 by (auto simp: store_published_def store_kept_def Let_def)
        then show ?thesis using pub eq newer g by (auto split: if_splits)
      qed
    next
      case (Err e)
      then show ?thesis using run' w1 newer kept1 by simp
    next
      case (Panic e)
      then show ?thesis using run' w1 newer kept1 by simp
    qed
  next
    case (Err e)
    then show ?thesis using run M False good by (auto simp: rotate_generation_def op_bind_def op_simps split: option.splits)
  next
    case (Panic e)
    then show ?thesis using run M False good by (auto simp: rotate_generation_def op_bind_def op_simps split: option.splits)
  qed
qed

end


text \<open>The staged numbers of a lane, split as recovery splits them.\<close>

definition complete_staged :: "'w generation_ops \<Rightarrow> lane \<Rightarrow> 'w \<Rightarrow> u64 list" where
  "complete_staged S lane w = filter (\<lambda>gid. gs_complete S lane gid w \<noteq> None) (gs_staged S lane w)"

lemma recover_run:
  assumes "mg_store M = S"
  shows "recover_generation M lane w =
    (let report = \<lparr>rr_selected = max_generation (complete_staged S lane w),
                   rr_ignored_incomplete = filter (\<lambda>gid. gs_complete S lane gid w = None) (gs_staged S lane w)\<rparr> in
     case max_generation (complete_staged S lane w) of
       None \<Rightarrow> (w, Ok report)
     | Some s \<Rightarrow> if gs_selected S lane w = Some s then (w, Ok report)
                 else (case gs_select S lane s w of (w', Ok _) \<Rightarrow> (w', Ok report)
                       | (w', Err e) \<Rightarrow> (w', Err e) | (w', Panic p) \<Rightarrow> (w', Panic p)))"
  using assms by (auto simp: recover_generation_def complete_staged_def op_bind_def op_simps Let_def split: option.split prod.split res.split)

context generation_store begin

lemma complete_staged_iff: "good w \<Longrightarrow> i \<in> set (complete_staged S lane w) \<longleftrightarrow> gs_complete S lane i w \<noteq> None"
  using staged by (auto simp: complete_staged_def)

lemma recover_keeps:
  assumes "good w" and "mg_store M = S" and "recover_generation M lane w = (w', r)"
  shows "good w' \<and> (\<forall>l i. gs_complete S l i w' = gs_complete S l i w) \<and>
    (\<forall>l. gs_selected S l w' =
       (if l = lane \<and> is_ok r \<and> complete_staged S lane w \<noteq> [] then max_generation (complete_staged S lane w)
        else gs_selected S l w))"
proof (cases "max_generation (complete_staged S lane w)")
  case None
  then show ?thesis using assms(1,3) by (auto simp: recover_run [OF assms(2)] Let_def max_generation_None)
next
  case (Some s)
  then have ne: "complete_staged S lane w \<noteq> []" by auto
  show ?thesis
  proof (cases "gs_selected S lane w = Some s")
    case True
    then show ?thesis using assms(1,3) Some by (auto simp: recover_run [OF assms(2)] Let_def)
  next
    case False
    obtain w1 q where q: "gs_select S lane s w = (w1, q)" by (cases "gs_select S lane s w")
    have "w' = w1" "is_ok r \<longleftrightarrow> q = Ok ()"
      using assms(3) Some False q by (auto simp: recover_run [OF assms(2)] Let_def split: res.splits)
    then show ?thesis using select [OF assms(1) q] Some ne by auto
  qed
qed

end

text \<open>Recovery of a lane mixes nothing: no complete generation and no other lane's head changes, and
  when it fails neither does the lane's own. When it succeeds the head is the reported selection, the
  greatest complete generation of the lane, none exactly when there is none, never behind the head
  there was; the generations it ignores are the staged ones that are incomplete.\<close>

theorem recover_exact:
  assumes "generation_store S good" and "mg_store M = S" and "good w" and "heads_complete S w"
    and "recover_generation M lane w = (w', r)"
  shows "good w' \<and> heads_complete S w' \<and> (\<forall>l i. gs_complete S l i w' = gs_complete S l i w) \<and>
    (\<forall>l. l \<noteq> lane \<longrightarrow> gs_selected S l w' = gs_selected S l w) \<and>
    (case r of
       Ok report \<Rightarrow> gs_selected S lane w' = rr_selected report \<and>
         (\<forall>i. gs_complete S lane i w \<noteq> None \<longrightarrow> (\<exists>s. rr_selected report = Some s \<and> i \<le> s)) \<and>
         (\<forall>s. rr_selected report = Some s \<longrightarrow> gs_complete S lane s w \<noteq> None) \<and>
         (\<forall>i. gs_selected S lane w = Some i \<longrightarrow> (\<exists>s. rr_selected report = Some s \<and> i \<le> s)) \<and>
         set (rr_ignored_incomplete report) = {i \<in> set (gs_staged S lane w). gs_complete S lane i w = None}
     | _ \<Rightarrow> gs_selected S lane w' = gs_selected S lane w)"
proof -
  note keeps = generation_store.recover_keeps [OF assms(1,3,2,5)]
  note iff = generation_store.complete_staged_iff [OF assms(1,3)]
  let ?m = "max_generation (complete_staged S lane w)"
  have top: "\<exists>s. ?m = Some s \<and> i \<le> s" if "gs_complete S lane i w \<noteq> None" for i
    using that iff [of i lane] max_generation_Some max_generation_None by (metis empty_iff empty_set not_None_eq)
  have sel: "gs_complete S lane s w \<noteq> None" if "?m = Some s" for s
    using that iff [of s lane] max_generation_Some by blast
  have head: "?m = gs_selected S lane w" if "complete_staged S lane w = []"
    using that assms(4) top by (cases "gs_selected S lane w") (auto simp: heads_complete_def)
  have "heads_complete S w'"
    using keeps sel assms(4) by (auto simp: heads_complete_def split: if_splits)
  moreover have "\<exists>s. ?m = Some s \<and> i \<le> s" if "gs_selected S lane w = Some i" for i
    using that top assms(4) by (auto simp: heads_complete_def)
  moreover have "rr_selected report = ?m \<and>
      set (rr_ignored_incomplete report) = {i \<in> set (gs_staged S lane w). gs_complete S lane i w = None}"
    if "r = Ok report" for report
    using assms(5) that by (auto simp: recover_run [OF assms(2)] Let_def split: option.splits if_splits prod.splits res.splits)
  ultimately show ?thesis
    using keeps top sel head by (cases r) auto
qed

section \<open>The store and provider of the tests\<close>

text \<open>
  The in-memory store and provider of \<open>lifecycle_tests.rs\<close>, with their injected failures: a torn manifest,
  a selection refused once, an action the provider refuses.
\<close>

record test_generations =
  ts_staged :: "((lane \<times> u64) \<times> generation) list"
  ts_complete :: "(lane \<times> u64) list"
  ts_selected :: "(lane, u64) btree_map"
  ts_tear_manifest :: bool
  ts_refuse_select_once :: bool
  ts_live :: "string list"
  ts_refused :: "string list"

fun lane_debug :: "lane \<Rightarrow> string" where
  "lane_debug Ordinary = ''Ordinary''"
| "lane_debug Finance = ''Finance''"
| "lane_debug PrivateObservation = ''PrivateObservation''"

definition test_receipt :: "string \<Rightarrow> string \<Rightarrow> provider_receipt" where
  "test_receipt action key = \<lparr>pr_id = action @ ''-'' @ key, pr_action = action, pr_key = key\<rparr>"

definition test_allowed :: "string \<Rightarrow> test_generations \<Rightarrow> (string, unit) res" where
  "test_allowed action w = (if action \<in> set (ts_refused w) then Err action else Ok ())"

definition test_create :: "lane \<Rightarrow> u64 \<Rightarrow> string \<Rightarrow> (test_generations, string, string \<times> provider_receipt) op" where
  "test_create lane gid grant w =
     (case test_allowed ''create'' w of
        Err e \<Rightarrow> (w, Err e) | Panic p \<Rightarrow> (w, Panic p)
      | Ok _ \<Rightarrow> let key = lane_debug lane @ ''-'' @ u64_to_string gid @ ''-'' @ grant in
          (w\<lparr>ts_live := key # ts_live w\<rparr>, Ok (key, test_receipt ''create'' key)))"

definition ends_with :: "string \<Rightarrow> string \<Rightarrow> bool" where
  "ends_with s t \<longleftrightarrow> length t \<le> length s \<and> drop (length s - length t) s = t"

definition test_wrap :: "string \<Rightarrow> string \<Rightarrow> string \<Rightarrow> (test_generations, string, wrapped_key \<times> provider_receipt) op" where
  "test_wrap key grant policy =
     op_bind (op_read (test_allowed ''wrap'')) (\<lambda>_.
     op_bind (op_read (\<lambda>w. if key \<notin> set (ts_live w) \<or> \<not> ends_with key grant then Err ''grant'' else Ok ())) (\<lambda>_.
       op_return (\<lparr>wk_policy = policy, wk_envelope = as_bytes key\<rparr>, test_receipt ''wrap'' key)))"

definition test_unwrap :: "wrapped_key \<Rightarrow> string \<Rightarrow> string \<Rightarrow> (test_generations, string, string \<times> provider_receipt) op" where
  "test_unwrap wrapped grant policy =
     op_bind (op_read (test_allowed ''unwrap'')) (\<lambda>_.
       if wk_policy wrapped \<noteq> policy then op_fail ''policy''
       else op_bind (op_res (ok_or (from_utf8 (wk_envelope wrapped)) ''envelope'')) (\<lambda>key.
            op_bind (op_read (\<lambda>w. if \<not> ends_with key grant \<or> key \<notin> set (ts_live w) then Err ''grant'' else Ok ())) (\<lambda>_.
              op_return (key, test_receipt ''unwrap'' key))))"

definition test_forget :: "string \<Rightarrow> string \<Rightarrow> (test_generations, string, provider_receipt) op" where
  "test_forget action key =
     op_bind (op_read (test_allowed action)) (\<lambda>_ w.
       (w\<lparr>ts_live := filter (\<lambda>k. k \<noteq> key) (ts_live w)\<rparr>, Ok (test_receipt action key)))"

definition test_provider :: "test_generations key_provider" where
  "test_provider =
     \<lparr>kp_create = test_create, kp_wrap = test_wrap, kp_unwrap = test_unwrap,
      kp_revoke = (\<lambda>key _. test_forget ''revoke'' key), kp_destroy = test_forget ''destroy'',
      kp_probe = (\<lambda>key _ w. if key \<in> set (ts_live w) then Ok () else Err ''decrypt'')\<rparr>"

definition test_stage_records :: "generation \<Rightarrow> (test_generations, string, unit) op" where
  "test_stage_records g w =
     (w\<lparr>ts_staged := AList.update (gm_lane (ge_manifest g), gm_generation (ge_manifest g)) g (ts_staged w)\<rparr>, Ok ())"

definition test_complete_manifest :: "generation_manifest \<Rightarrow> (test_generations, string, unit) op" where
  "test_complete_manifest m w =
     (if ts_tear_manifest w then (w\<lparr>ts_tear_manifest := False\<rparr>, Err ''injected torn manifest'')
      else (w\<lparr>ts_complete := List.insert (gm_lane m, gm_generation m) (ts_complete w)\<rparr>, Ok ()))"

definition test_select :: "lane \<Rightarrow> u64 \<Rightarrow> (test_generations, string, unit) op" where
  "test_select lane gid w =
     (if ts_refuse_select_once w then (w\<lparr>ts_refuse_select_once := False\<rparr>, Err ''injected torn selection'')
      else if (lane, gid) \<notin> set (ts_complete w) then (w, Err ''incomplete selection'')
      else (w\<lparr>ts_selected := binsert lane gid (ts_selected w)\<rparr>, Ok ()))"

definition test_remove_generation :: "lane \<Rightarrow> u64 \<Rightarrow> (test_generations, string, unit) op" where
  "test_remove_generation lane gid w =
     (w\<lparr>ts_staged := AList.delete (lane, gid) (ts_staged w),
        ts_complete := filter (\<lambda>k. k \<noteq> (lane, gid)) (ts_complete w),
        ts_selected := (if bget (ts_selected w) lane = Some gid then bremove lane (ts_selected w) else ts_selected w)\<rparr>, Ok ())"

definition test_store :: "test_generations generation_ops" where
  "test_store =
     \<lparr>gs_stage_records = test_stage_records, gs_complete_manifest = test_complete_manifest, gs_select = test_select,
      gs_complete = (\<lambda>lane gid w. if (lane, gid) \<in> set (ts_complete w) then map_of (ts_staged w) (lane, gid) else None),
      gs_selected = (\<lambda>lane w. bget (ts_selected w) lane),
      gs_staged = (\<lambda>lane w. map snd (filter (\<lambda>k. fst k = lane) (map fst (ts_staged w)))),
      gs_remove_generation = test_remove_generation\<rparr>"

text \<open>Every number marked complete has its records staged.\<close>

definition test_good :: "test_generations \<Rightarrow> bool" where
  "test_good w \<longleftrightarrow> set (ts_complete w) \<subseteq> set (map fst (ts_staged w))"

interpretation test: generation_store test_store test_good
proof (rule generation_store.intro, goal_cases)
  case (1 w g w' r)
  then show ?case by (auto simp: test_store_def test_stage_records_def test_good_def update_conv dom_update)
next
  case (2 w g w1 w' r)
  then show ?case
    by (auto simp: test_store_def test_stage_records_def test_complete_manifest_def test_good_def update_conv dom_update
        split: if_splits)
next
  case (3 w l i w' r)
  then have "(l, i) \<in> set (ts_complete w) \<Longrightarrow> map_of (ts_staged w) (l, i) \<noteq> None"
    by (auto simp: test_good_def map_of_eq_None_iff)
  then show ?case using 3 by (auto simp: test_store_def test_select_def test_good_def split: if_splits)
next
  case (4 w l i)
  then show ?case by (force simp: test_store_def split: if_splits dest: map_of_SomeD)
qed

lemma test_provider_apart: "provider_apart test_provider test_store test_good"
  by (auto simp: provider_apart_def test_provider_def test_create_def test_store_def test_good_def test_allowed_def Let_def)

text \<open>Every lane with its grant, and the generation with one record that the tests build.\<close>

definition test_manager :: "test_generations generation_manager" where
  "test_manager =
     \<lparr>mg_provider = test_provider, mg_store = test_store,
      mg_grants = [(Ordinary, ''ordinary-grant''), (Finance, ''finance-grant''), (PrivateObservation, ''private-grant'')]\<rparr>"

lemma test_manager_new:
  "generation_manager_new test_provider test_store
     [(Ordinary, ''ordinary-grant''), (Finance, ''finance-grant''), (PrivateObservation, ''private-grant'')] = Ok test_manager"
proof -
  have "bcollect [(Ordinary, ''ordinary-grant''), (Finance, ''finance-grant''), (PrivateObservation, ''private-grant'')] =
        mg_grants test_manager"
    "list_ex (\<lambda>g. g = []) (bvalues (mg_grants test_manager)) = False"
    "length (remdups_adj (sort (bvalues (mg_grants test_manager)))) = 3" "length (mg_grants test_manager) = 3"
    by code_simp+
  then show ?thesis by (simp add: generation_manager_new_def Let_def test_manager_def)
qed

definition test_generation :: "lane \<Rightarrow> u64 \<Rightarrow> u8 \<Rightarrow> string \<Rightarrow> (string, generation) res" where
  "test_generation lane gid v key =
     Ok \<lparr>ge_manifest = \<lparr>gm_lane = lane, gm_generation = gid, gm_key = key, gm_record_ids = [''record''],
                        gm_authentication = [v, 0xa5]\<rparr>,
         ge_ciphertext = [(''record'', [v, 0x5a])]\<rparr>"

definition test_empty :: test_generations where
  "test_empty = \<lparr>ts_staged = [], ts_complete = [], ts_selected = [], ts_tear_manifest = False,
                 ts_refuse_select_once = False, ts_live = [], ts_refused = []\<rparr>"

text \<open>Generation 1 of the finance lane is selected, and the next manifest will tear.\<close>

definition test_torn :: test_generations where
  "test_torn = (fst (rotate_generation test_manager Finance 1 (test_generation Finance 1 1) test_empty))\<lparr>ts_tear_manifest := True\<rparr>"

lemma test_torn_facts:
  "test_good test_torn" "gs_selected test_store Finance test_torn = Some 1"
  "ts_tear_manifest test_torn" "ts_selected test_torn = [(Finance, 1)]" "ts_complete test_torn = [(Finance, 1)]"
  by code_simp+

lemma test_heads:
  assumes "test_good w" and "set (ts_selected w) \<subseteq> set (ts_complete w)"
  shows "heads_complete test_store w"
proof -
  have "gs_complete test_store l i w \<noteq> None" if "gs_selected test_store l w = Some i" for l i
  proof -
    have "(l, i) \<in> set (ts_complete w)" using that assms(2) by (auto simp: test_store_def dest: bget_Some_mem)
    moreover have "map_of (ts_staged w) (l, i) \<noteq> None"
      using calculation assms(1) by (auto simp: test_good_def map_of_eq_None_iff)
    ultimately show ?thesis by (simp add: test_store_def)
  qed
  then show ?thesis by (simp add: heads_complete_def)
qed

lemma test_torn_heads: "heads_complete test_store test_torn"
  by (rule test_heads) (simp_all add: test_torn_facts)

lemma test_manager_store [simp]: "mg_store test_manager = test_store" "mg_provider test_manager = test_provider"
  by (simp_all add: test_manager_def)


definition test_after_tear :: test_generations where
  "test_after_tear = fst (rotate_generation test_manager Finance 2 (test_generation Finance 2 2) test_torn)"

lemma test_after_tear_facts:
  "test_good test_after_tear" "ts_selected test_after_tear = [(Finance, 1)]" "ts_complete test_after_tear = [(Finance, 1)]"
  "gs_selected test_store Finance test_after_tear = Some 1"
  by code_simp+

lemma test_after_tear_heads: "heads_complete test_store test_after_tear"
  by (rule test_heads) (simp_all add: test_after_tear_facts)

theorem recover_exact_witness:
  "\<exists>w' report. recover_generation test_manager Finance test_after_tear = (w', Ok report) \<and>
     gs_selected test_store Finance w' = Some 1 \<and> rr_selected report = Some 1 \<and>
     set (rr_ignored_incomplete report) = {2} \<and> heads_complete test_store w'"
proof -
  obtain w' r where run: "recover_generation test_manager Finance test_after_tear = (w', r)"
    by (cases "recover_generation test_manager Finance test_after_tear")
  have "snd (recover_generation test_manager Finance test_after_tear) = Ok \<lparr>rr_selected = Some 1, rr_ignored_incomplete = [2]\<rparr>"
    by code_simp
  then have r: "r = Ok \<lparr>rr_selected = Some 1, rr_ignored_incomplete = [2]\<rparr>" using run by simp
  show ?thesis
    using recover_exact [OF test.generation_store_axioms test_manager_store(1) test_after_tear_facts(1)
        test_after_tear_heads run] run r by simp
qed

section \<open>Backup, restore and destruction\<close>

text \<open>What wrapping and unwrapping a key promise of each other, for one grant and policy.\<close>

definition unwraps_wrapped :: "'w key_provider \<Rightarrow> string \<Rightarrow> string \<Rightarrow> string \<Rightarrow> 'w \<Rightarrow> bool" where
  "unwraps_wrapped P key grant policy w \<longleftrightarrow>
     (\<forall>w' wrapped receipt. kp_wrap P key grant policy w = (w', Ok (wrapped, receipt)) \<longrightarrow>
        wk_policy wrapped = policy \<and> (\<exists>w'' receipt'. kp_unwrap P wrapped grant policy w' = (w'', Ok (key, receipt'))))"

lemma provider_op_Ok: "provider_op m w = (w', Ok x) \<longleftrightarrow> m w = (w', Ok x)"
  by (auto simp: provider_op_def map_err_Ok split: prod.splits)

lemma backup_run:
  "backup_generation M g policy w = (w', Ok b) \<longleftrightarrow>
     policy \<noteq> [] \<and> gm_authentication (ge_manifest g) \<noteq> [] \<and>
     (\<exists>grant wrapped receipt. lane_grant M (gm_lane (ge_manifest g)) = Ok grant \<and>
        kp_wrap (mg_provider M) (gm_key (ge_manifest g)) grant policy w = (w', Ok (wrapped, receipt)) \<and>
        b = \<lparr>be_generation = g, be_wrapped_key = wrapped\<rparr>)"
  by (auto simp: backup_generation_def op_Ok op_simps provider_op_Ok split: prod.splits)

lemma restore_run:
  "restore_generation M b policy w = (w', Ok key) \<longleftrightarrow>
     wk_policy (be_wrapped_key b) = policy \<and> gm_authentication (ge_manifest (be_generation b)) \<noteq> [] \<and>
     length (ge_ciphertext (be_generation b)) = length (gm_record_ids (ge_manifest (be_generation b))) \<and>
     key = gm_key (ge_manifest (be_generation b)) \<and>
     (\<exists>grant receipt. lane_grant M (gm_lane (ge_manifest (be_generation b))) = Ok grant \<and>
        kp_unwrap (mg_provider M) (be_wrapped_key b) grant policy w = (w', Ok (key, receipt)))"
  by (auto simp: restore_generation_def op_Ok op_simps provider_op_Ok split: prod.splits if_splits)

text \<open>A backup of an accepted generation restores to the generation's own key, under the policy it was
  made for and under no other, whenever the provider unwraps what it wrapped.\<close>

theorem backup_restore:
  assumes accepted: "generation_accepted lane gid key g"
    and grant: "lane_grant M lane = Ok grant"
    and law: "unwraps_wrapped (mg_provider M) key grant policy w"
    and backup: "backup_generation M g policy w = (w', Ok b)"
  shows "be_generation b = g \<and> (\<exists>w''. restore_generation M b policy w' = (w'', Ok key)) \<and>
    (\<forall>policy'. policy' \<noteq> policy \<longrightarrow> \<not> is_ok (snd (restore_generation M b policy' w')))"
proof -
  have own: "gm_lane (ge_manifest g) = lane" "gm_key (ge_manifest g) = key"
      "length (gm_record_ids (ge_manifest g)) = length (ge_ciphertext g)" "gm_authentication (ge_manifest g) \<noteq> []"
    using accepted by (simp_all add: generation_accepted_def)
  obtain wrapped receipt where b: "b = \<lparr>be_generation = g, be_wrapped_key = wrapped\<rparr>"
      "kp_wrap (mg_provider M) key grant policy w = (w', Ok (wrapped, receipt))"
    using backup own grant by (auto simp: backup_run)
  obtain w'' receipt' where u: "wk_policy wrapped = policy"
      "kp_unwrap (mg_provider M) wrapped grant policy w' = (w'', Ok (key, receipt'))"
    using law b(2) unfolding unwraps_wrapped_def by blast
  have "restore_generation M b policy w' = (w'', Ok key)"
    using own grant b(1) u by (simp add: restore_run)
  moreover have "\<not> is_ok (snd (restore_generation M b policy' w'))" if "policy' \<noteq> policy" for policy'
    using that b(1) u(1) by (auto simp: restore_generation_def op_simps)
  ultimately show ?thesis using b(1) by auto
qed

lemma probe_all_Ok: "probe_all P key cs w n = Ok m \<longleftrightarrow> m = n + length cs \<and> (\<forall>c\<in>set cs. \<not> is_ok (kp_probe P key c w))"
  by (induction cs arbitrary: n) auto

lemma on_world_Ok: "on_world m (w, b) = ((w', b'), Ok x) \<longleftrightarrow> m w = (w', Ok x) \<and> b' = b"
  by (auto simp: on_world_def split: prod.splits)

text \<open>What the evidence of a destruction rests on, step by step.\<close>

lemma destroy_run:
  assumes "destroy_generation M g residual (w, backups) = ((w', backups'), Ok ev)"
  shows "\<exists>grant w1 w2 revoke destroy.
    lane_grant M (gm_lane (ge_manifest g)) = Ok grant \<and>
    kp_revoke (mg_provider M) (gm_key (ge_manifest g)) grant w = (w1, Ok revoke) \<and>
    gs_remove_generation (mg_store M) (gm_lane (ge_manifest g)) (gm_generation (ge_manifest g)) w1 = (w2, Ok ()) \<and>
    kp_destroy (mg_provider M) (gm_key (ge_manifest g)) w2 = (w', Ok destroy) \<and>
    backups' = forget_backups (gm_lane (ge_manifest g)) (gm_generation (ge_manifest g)) backups \<and>
    probe_all (mg_provider M) (gm_key (ge_manifest g)) (bvalues (ge_ciphertext g)) w' 0 = Ok (de_negative_probes ev) \<and>
    de_lane ev = gm_lane (ge_manifest g) \<and> de_generation ev = gm_generation (ge_manifest g) \<and>
    de_provider_receipts ev = [revoke, destroy] \<and>
    de_removed_envelopes ev = 1 + length backups - length backups'"
  using assms
  by (auto simp: destroy_generation_def Let_def op_Ok op_simps on_world_Ok provider_op_Ok)

text \<open>The evidence of a destruction is true: if destroying a generation succeeds then in the state it leaves
  the provider refuses to decrypt every one of the generation's ciphertexts with its key, as many as
  the evidence counts; no tracked backup of the generation is left, every other backup is, and the
  evidence counts the live envelope and the backups removed; and the evidence carries the two
  receipts the provider gave for this key.\<close>

theorem destruction_evidence_true:
  assumes "destroy_generation M g residual (w, backups) = ((w', backups'), Ok ev)"
  shows "(\<forall>c\<in>set (bvalues (ge_ciphertext g)). \<not> is_ok (kp_probe (mg_provider M) (gm_key (ge_manifest g)) c w')) \<and>
    de_negative_probes ev = length (ge_ciphertext g) \<and>
    set backups' = {b \<in> set backups. (gm_lane (ge_manifest (be_generation b)), gm_generation (ge_manifest (be_generation b))) \<noteq>
                                    (de_lane ev, de_generation ev)} \<and>
    de_removed_envelopes ev = 1 + (length backups - length backups') \<and>
    (\<exists>grant w1 revoke w2 destroy.
       kp_revoke (mg_provider M) (gm_key (ge_manifest g)) grant w = (w1, Ok revoke) \<and>
       kp_destroy (mg_provider M) (gm_key (ge_manifest g)) w2 = (w', Ok destroy) \<and>
       de_provider_receipts ev = [revoke, destroy])"
proof -
  obtain grant w1 w2 revoke destroy where run:
      "kp_revoke (mg_provider M) (gm_key (ge_manifest g)) grant w = (w1, Ok revoke)"
      "kp_destroy (mg_provider M) (gm_key (ge_manifest g)) w2 = (w', Ok destroy)"
      "backups' = forget_backups (gm_lane (ge_manifest g)) (gm_generation (ge_manifest g)) backups"
      "probe_all (mg_provider M) (gm_key (ge_manifest g)) (bvalues (ge_ciphertext g)) w' 0 = Ok (de_negative_probes ev)"
      "de_lane ev = gm_lane (ge_manifest g)" "de_generation ev = gm_generation (ge_manifest g)"
      "de_provider_receipts ev = [revoke, destroy]" "de_removed_envelopes ev = 1 + length backups - length backups'"
    using destroy_run [OF assms] by blast
  have "length backups' \<le> length backups" by (simp add: run(3) forget_backups_def)
  then have "de_removed_envelopes ev = 1 + (length backups - length backups')" using run(8) by simp
  moreover have "set backups' = {b \<in> set backups.
      (gm_lane (ge_manifest (be_generation b)), gm_generation (ge_manifest (be_generation b))) \<noteq> (de_lane ev, de_generation ev)}"
    using run(3,5,6) by (auto simp: forget_backups_def)
  moreover have "(\<forall>c\<in>set (bvalues (ge_ciphertext g)). \<not> is_ok (kp_probe (mg_provider M) (gm_key (ge_manifest g)) c w')) \<and>
      de_negative_probes ev = length (ge_ciphertext g)"
    using run(4) by (simp add: probe_all_Ok bvalues_def)
  ultimately show ?thesis using run(1,2,7) by blast
qed

text \<open>A finance generation in the tests' store, its key, and its backup under a policy.\<close>

definition test_key :: string where
  "test_key = ''Finance-1-finance-grant''"

definition test_built :: generation where
  "test_built = \<lparr>ge_manifest = \<lparr>gm_lane = Finance, gm_generation = 1, gm_key = test_key, gm_record_ids = [''record''],
                               gm_authentication = [1, 0xa5]\<rparr>,
                ge_ciphertext = [(''record'', [1, 0x5a])]\<rparr>"

definition test_rotated :: test_generations where
  "test_rotated = \<lparr>ts_staged = [((Finance, 1), test_built)], ts_complete = [(Finance, 1)], ts_selected = [(Finance, 1)],
                  ts_tear_manifest = False, ts_refuse_select_once = False, ts_live = [test_key], ts_refused = []\<rparr>"

lemma test_rotated_by_rotation:
  "fst (rotate_generation test_manager Finance 1 (test_generation Finance 1 1) test_empty) = test_rotated"
  by code_simp

definition test_wrapped :: wrapped_key where
  "test_wrapped = \<lparr>wk_policy = ''vault'', wk_envelope = as_bytes test_key\<rparr>"

lemma test_grant: "lane_grant test_manager Finance = Ok ''finance-grant''"
  by code_simp

lemma test_rotated_facts:
  "ends_with test_key ''finance-grant''" "from_utf8 (as_bytes test_key) = Some test_key"
  "ts_live test_rotated = [test_key]" "ts_refused test_rotated = []"
  by code_simp+

lemma test_wrap_run:
  "kp_wrap test_provider test_key ''finance-grant'' policy test_rotated =
     (test_rotated, Ok (\<lparr>wk_policy = policy, wk_envelope = as_bytes test_key\<rparr>, test_receipt ''wrap'' test_key))"
  using test_rotated_facts by (simp add: test_provider_def test_wrap_def op_bind_def op_simps test_allowed_def)

lemma test_unwraps: "unwraps_wrapped test_provider test_key ''finance-grant'' policy test_rotated"
proof -
  have "kp_unwrap test_provider \<lparr>wk_policy = policy, wk_envelope = as_bytes test_key\<rparr> ''finance-grant'' policy test_rotated =
          (test_rotated, Ok (test_key, test_receipt ''unwrap'' test_key))"
    using test_rotated_facts by (simp add: test_provider_def test_unwrap_def op_bind_def op_simps test_allowed_def)
  then show ?thesis by (auto simp: unwraps_wrapped_def test_wrap_run)
qed

lemma test_accepted: "generation_accepted Finance 1 test_key test_built"
  by code_simp

lemma test_backup_run:
  "backup_generation test_manager test_built ''vault'' test_rotated =
     (test_rotated, Ok \<lparr>be_generation = test_built, be_wrapped_key = test_wrapped\<rparr>)"
  using test_grant test_wrap_run [of "''vault''"] by (auto simp: backup_run test_built_def test_wrapped_def)

theorem backup_restore_witness:
  "\<exists>w''. restore_generation test_manager \<lparr>be_generation = test_built, be_wrapped_key = test_wrapped\<rparr> ''vault'' test_rotated =
            (w'', Ok test_key)"
  using backup_restore [OF test_accepted test_grant _ test_backup_run] test_unwraps by simp

lemma test_destroy_run:
  "\<exists>w' ev. destroy_generation test_manager test_built [''lane identity'']
     (test_rotated, [\<lparr>be_generation = test_built, be_wrapped_key = test_wrapped\<rparr>]) = ((w', []), Ok ev) \<and> ts_live w' = [] \<and>
     de_lane ev = Finance \<and> de_removed_envelopes ev = 2"
proof -
  let ?run = "destroy_generation test_manager test_built [''lane identity'']
     (test_rotated, [\<lparr>be_generation = test_built, be_wrapped_key = test_wrapped\<rparr>])"
  have "snd (fst ?run) = []" "ts_live (fst (fst ?run)) = []"
    "(case snd ?run of Ok ev \<Rightarrow> de_lane ev = Finance \<and> de_removed_envelopes ev = 2 | _ \<Rightarrow> False)"
    by code_simp+
  then show ?thesis by (cases ?run) (auto split: res.splits)
qed

theorem destruction_evidence_true_witness:
  "\<exists>w' ev. destroy_generation test_manager test_built [''lane identity'']
     (test_rotated, [\<lparr>be_generation = test_built, be_wrapped_key = test_wrapped\<rparr>]) = ((w', []), Ok ev) \<and>
     \<not> is_ok (kp_probe test_provider test_key [1, 0x5a] w') \<and> de_negative_probes ev = 1"
proof -
  obtain w' ev where run: "destroy_generation test_manager test_built [''lane identity'']
     (test_rotated, [\<lparr>be_generation = test_built, be_wrapped_key = test_wrapped\<rparr>]) = ((w', []), Ok ev)"
    using test_destroy_run by blast
  show ?thesis
    using destruction_evidence_true [OF run] run by (simp add: test_built_def bvalues_def)
qed

text \<open>Equal lengths and no missing identifier do not make the identifiers distinct: a manifest that names one
  record twice is accepted though it leaves another record out.\<close>

lemma accepted_unlisted_record:
  "generation_accepted Finance 1 ''k''
     \<lparr>ge_manifest = \<lparr>gm_lane = Finance, gm_generation = 1, gm_key = ''k'', gm_record_ids = [''a'', ''a''], gm_authentication = [1]\<rparr>,
      ge_ciphertext = [(''a'', [1]), (''b'', [2])]\<rparr>"
  by code_simp

end
