(* ===== verification/Table_Lazy.thy ===== *)
theory Table_Lazy
  imports Table_Hash Std_Text
begin

text \<open>
  The loaded table, \<open>crates/sim-table-lazy/src/lazy.rs\<close>: values produced on demand by loaders and
  memoized. An \<open>Arc<LazyEntry>\<close> is an index into the cells of a shared world, so the entries that a clone
  of a table shares with it are the same cells; a table is an index into the tables of that world, with
  its map in the order conventions of \<open>Table_Hash\<close> and the poison flag of its lock. A loader is an
  operation on an environment \<open>'e\<close>, the part of the context it may change; it does not reach the tables:
  \<open>get\<close> and \<open>del\<close> hold the lock of the table while they force (the guard is a temporary of the matched
  expression), so a loader that called back into a \<open>del\<close> of its own table would wait for itself.
  A loader may panic; then nothing is cached, and a \<open>del\<close> poisons the lock it holds for writing.
  The member \<open>lz_runs\<close> is not in the code: it records which loader ran with what outcome.
\<close>

section \<open>Entries\<close>

record ('e, 'v) lazy_entry =
  le_loader :: "('e, table_error, 'v) op"
  le_cache :: "(table_error, 'v) res option"

record lazy_table =
  lt_entries :: "(symbol \<times> nat) list"
  lt_poisoned :: bool

record ('e, 'v) lazy_world =
  lz_env :: 'e
  lz_cells :: "('e, 'v) lazy_entry list"
  lz_tables :: "lazy_table list"
  lz_runs :: "(nat \<times> (table_error, 'v) res) list"

definition lazy_eager :: "'v \<Rightarrow> ('e, 'v) lazy_entry" where
  "lazy_eager v = \<lparr>le_loader = (\<lambda>e. (e, Ok v)), le_cache = Some (Ok v)\<rparr>"

definition lazy_unforced :: "('e, table_error, 'v) op \<Rightarrow> ('e, 'v) lazy_entry" where
  "lazy_unforced loader = \<lparr>le_loader = loader, le_cache = None\<rparr>"

definition lazy_force :: "nat \<Rightarrow> (('e, 'v) lazy_world, table_error, 'v) op" where
  "lazy_force i w =
     (case le_cache (lz_cells w ! i) of
        Some cached \<Rightarrow> (w, cached)
      | None \<Rightarrow>
          let (e, result) = le_loader (lz_cells w ! i) (lz_env w);
              w' = w\<lparr>lz_env := e, lz_runs := lz_runs w @ [(i, result)]\<rparr>
          in if is_panic result then (w', result)
             else (w'\<lparr>lz_cells := (lz_cells w)[i := (lz_cells w ! i)\<lparr>le_cache := Some result\<rparr>]\<rparr>, result))"

section \<open>Tables\<close>

definition lazy_read :: "nat \<Rightarrow> (('e, 'v) lazy_world, table_error, (symbol \<times> nat) list) op" where
  "lazy_read t = op_read (\<lambda>w. if lt_poisoned (lz_tables w ! t) then Err (Eval ''table/lazy lock poisoned'')
                            else Ok (lt_entries (lz_tables w ! t)))"

definition lazy_put :: "nat \<Rightarrow> (symbol \<times> nat) list \<Rightarrow> ('e, 'v) lazy_world \<Rightarrow> ('e, 'v) lazy_world" where
  "lazy_put t m w = w\<lparr>lz_tables := (lz_tables w)[t := (lz_tables w ! t)\<lparr>lt_entries := m\<rparr>]\<rparr>"

definition lazy_poison :: "nat \<Rightarrow> ('e, 'v) lazy_world \<Rightarrow> ('e, 'v) lazy_world" where
  "lazy_poison t w = w\<lparr>lz_tables := (lz_tables w)[t := (lz_tables w ! t)\<lparr>lt_poisoned := True\<rparr>]\<rparr>"

text \<open>\<open>Arc::new\<close>, the constructors and \<open>clone\<close>; a new table is the next index.\<close>

definition lazy_alloc :: "('e, 'v) lazy_entry \<Rightarrow> ('e, 'v) lazy_world \<Rightarrow> ('e, 'v) lazy_world \<times> nat" where
  "lazy_alloc c w = (w\<lparr>lz_cells := lz_cells w @ [c]\<rparr>, length (lz_cells w))"

fun lazy_collect ::
    "(symbol \<times> ('e, 'v) lazy_entry) list \<Rightarrow> (symbol \<times> nat) list \<Rightarrow> ('e, 'v) lazy_world \<Rightarrow>
     ('e, 'v) lazy_world \<times> (symbol \<times> nat) list" where
  "lazy_collect [] m w = (w, m)"
| "lazy_collect ((k, c) # ps) m w = (let (w', i) = lazy_alloc c w in lazy_collect ps (AList.update k i m) w')"

definition lazy_table_of :: "(symbol \<times> nat) list \<Rightarrow> ('e, 'v) lazy_world \<Rightarrow> ('e, 'v) lazy_world \<times> nat" where
  "lazy_table_of m w =
     (w\<lparr>lz_tables := lz_tables w @ [\<lparr>lt_entries = m, lt_poisoned = False\<rparr>]\<rparr>, length (lz_tables w))"

definition lazy_new :: "('e, 'v) lazy_world \<Rightarrow> ('e, 'v) lazy_world \<times> nat" where
  "lazy_new = lazy_table_of []"

definition with_loaders ::
    "(symbol \<times> ('e, table_error, 'v) op) list \<Rightarrow> ('e, 'v) lazy_world \<Rightarrow> ('e, 'v) lazy_world \<times> nat" where
  "with_loaders ps w =
     (let (w', m) = lazy_collect (map (\<lambda>(k, l). (k, lazy_unforced l)) ps) [] w in lazy_table_of m w')"

definition lazy_with_entries :: "(symbol \<times> 'v) list \<Rightarrow> ('e, 'v) lazy_world \<Rightarrow> ('e, 'v) lazy_world \<times> nat" where
  "lazy_with_entries es w =
     (let (w', m) = lazy_collect (map (\<lambda>(k, v). (k, lazy_eager v)) es) [] w in lazy_table_of m w')"

definition lazy_clone :: "nat \<Rightarrow> ('e, 'v) lazy_world \<Rightarrow> ('e, 'v) lazy_world \<times> nat" where
  "lazy_clone t w = lazy_table_of (lt_entries (lz_tables w ! t)) w"

definition put_lazy :: "nat \<Rightarrow> symbol \<Rightarrow> ('e, table_error, 'v) op \<Rightarrow> ('e, 'v) lazy_world \<Rightarrow> ('e, 'v) lazy_world" where
  "put_lazy t k loader w =
     (let (w', i) = lazy_alloc (lazy_unforced loader) w
      in lazy_put t (AList.update k i (lt_entries (lz_tables w ! t))) w')"

section \<open>The operations of the table\<close>

definition lazy_get :: "'v cx \<Rightarrow> nat \<Rightarrow> symbol \<Rightarrow> (('e, 'v) lazy_world, table_error, 'v) op" where
  "lazy_get C t k = op_bind (lazy_read t) (\<lambda>m.
     case map_of m k of Some i \<Rightarrow> lazy_force i | None \<Rightarrow> op_res (cx_nil C))"

definition lazy_set :: "nat \<Rightarrow> symbol \<Rightarrow> 'v \<Rightarrow> (('e, 'v) lazy_world, table_error, unit) op" where
  "lazy_set t k v = op_bind (lazy_read t) (\<lambda>m w.
     let (w', i) = lazy_alloc (lazy_eager v) w in (lazy_put t (AList.update k i m) w', Ok ()))"

definition lazy_has :: "nat \<Rightarrow> symbol \<Rightarrow> (('e, 'v) lazy_world, table_error, bool) op" where
  "lazy_has t k = op_bind (lazy_read t) (\<lambda>m. op_return (map_of m k \<noteq> None))"

definition lazy_del :: "'v cx \<Rightarrow> nat \<Rightarrow> symbol \<Rightarrow> (('e, 'v) lazy_world, table_error, 'v) op" where
  "lazy_del C t k = op_bind (lazy_read t) (\<lambda>m w.
     let w = lazy_put t (AList.delete k m) w in
     case map_of m k of
       Some i \<Rightarrow> let (w', r) = lazy_force i w in ((if is_panic r then lazy_poison t w' else w'), r)
     | None \<Rightarrow> (w, cx_nil C))"

definition lazy_keys :: "nat \<Rightarrow> (('e, 'v) lazy_world, table_error, symbol list) op" where
  "lazy_keys t = op_bind (lazy_read t) (\<lambda>m. op_return (sort (map fst m)))"

fun force_all :: "(symbol \<times> nat) list \<Rightarrow> (('e, 'v) lazy_world, table_error, (symbol \<times> 'v) list) op" where
  "force_all [] = op_return []"
| "force_all ((k, i) # m) = op_bind (lazy_force i) (\<lambda>v. op_bind (force_all m) (\<lambda>out. op_return ((k, v) # out)))"

definition lazy_entries :: "nat \<Rightarrow> (('e, 'v) lazy_world, table_error, (symbol \<times> 'v) list) op" where
  "lazy_entries t = op_bind (lazy_read t) (\<lambda>m. force_all (sort_key fst m))"

definition lazy_len :: "nat \<Rightarrow> (('e, 'v) lazy_world, table_error, nat) op" where
  "lazy_len t = op_bind (lazy_read t) (\<lambda>m. op_return (length m))"

definition lazy_clear :: "nat \<Rightarrow> (('e, 'v) lazy_world, table_error, unit) op" where
  "lazy_clear t = op_bind (lazy_read t) (\<lambda>_ w. (lazy_put t [] w, Ok ()))"

definition lazy_truth :: "nat \<Rightarrow> (('e, 'v) lazy_world, table_error, bool) op" where
  "lazy_truth t = op_bind (lazy_read t) (\<lambda>m. op_return (m \<noteq> []))"

definition lazy_descriptor_entries :: "'v cx \<Rightarrow> nat \<Rightarrow> (('e, 'v) lazy_world, table_error, (symbol \<times> expr) list) op" where
  "lazy_descriptor_entries C t = op_bind (lazy_entries t) (\<lambda>es.
     op_bind (op_res (res_map (\<lambda>(k, v). res_bind (as_expr C v) (\<lambda>e. Ok (k, e))) es)) (\<lambda>ds.
       op_return (sort_key fst ds)))"

text \<open>The trait implementation; \<open>compare_exchange\<close> is the trait's own default, a parameter.\<close>

definition lazy_table_impl ::
    "'v cx \<Rightarrow> (symbol \<Rightarrow> table_expected \<Rightarrow> 'v table_replacement \<Rightarrow> (('e, 'v) lazy_world, table_error, table_exchange) op) \<Rightarrow>
     nat \<Rightarrow> (('e, 'v) lazy_world, 'v) table" where
  "lazy_table_impl C exchange t =
     \<lparr>tb_get = lazy_get C t, tb_set = lazy_set t, tb_has = lazy_has t, tb_del = lazy_del C t, tb_keys = lazy_keys t,
      tb_entries = lazy_entries t, tb_len = lazy_len t, tb_clear = lazy_clear t, tb_compare_exchange = exchange\<rparr>"

section \<open>Histories\<close>

datatype ('e, 'v) lazy_call =
    LazyNew
  | LazyLoaders "(symbol \<times> ('e, table_error, 'v) op) list"
  | LazyValues "(symbol \<times> 'v) list"
  | LazyClone nat
  | LazyPut nat symbol "('e, table_error, 'v) op"
  | LazyGet nat symbol
  | LazySet nat symbol 'v
  | LazyHas nat symbol
  | LazyDel nat symbol
  | LazyKeys nat
  | LazyEntries nat
  | LazyLen nat
  | LazyClear nat

fun lazy_target :: "('e, 'v) lazy_call \<Rightarrow> nat option" where
  "lazy_target (LazyClone t) = Some t"
| "lazy_target (LazyPut t k l) = Some t"
| "lazy_target (LazyGet t k) = Some t"
| "lazy_target (LazySet t k v) = Some t"
| "lazy_target (LazyHas t k) = Some t"
| "lazy_target (LazyDel t k) = Some t"
| "lazy_target (LazyKeys t) = Some t"
| "lazy_target (LazyEntries t) = Some t"
| "lazy_target (LazyLen t) = Some t"
| "lazy_target (LazyClear t) = Some t"
| "lazy_target _ = None"

fun lazy_exec :: "'v cx \<Rightarrow> ('e, 'v) lazy_call \<Rightarrow> ('e, 'v) lazy_world \<Rightarrow> ('e, 'v) lazy_world" where
  "lazy_exec C LazyNew w = fst (lazy_new w)"
| "lazy_exec C (LazyLoaders ps) w = fst (with_loaders ps w)"
| "lazy_exec C (LazyValues es) w = fst (lazy_with_entries es w)"
| "lazy_exec C (LazyClone t) w = fst (lazy_clone t w)"
| "lazy_exec C (LazyPut t k l) w = put_lazy t k l w"
| "lazy_exec C (LazyGet t k) w = fst (lazy_get C t k w)"
| "lazy_exec C (LazySet t k v) w = fst (lazy_set t k v w)"
| "lazy_exec C (LazyHas t k) w = fst (lazy_has t k w)"
| "lazy_exec C (LazyDel t k) w = fst (lazy_del C t k w)"
| "lazy_exec C (LazyKeys t) w = fst (lazy_keys t w)"
| "lazy_exec C (LazyEntries t) w = fst (lazy_entries t w)"
| "lazy_exec C (LazyLen t) w = fst (lazy_len t w)"
| "lazy_exec C (LazyClear t) w = fst (lazy_clear t w)"

text \<open>A call on a table that does not exist cannot be written; it is skipped.\<close>

definition lazy_step :: "'v cx \<Rightarrow> ('e, 'v) lazy_call \<Rightarrow> ('e, 'v) lazy_world \<Rightarrow> ('e, 'v) lazy_world" where
  "lazy_step C c w =
     (case lazy_target c of
        Some t \<Rightarrow> if t < length (lz_tables w) then lazy_exec C c w else w
      | None \<Rightarrow> lazy_exec C c w)"

definition lazy_start :: "'e \<Rightarrow> ('e, 'v) lazy_world" where
  "lazy_start e = \<lparr>lz_env = e, lz_cells = [], lz_tables = [], lz_runs = []\<rparr>"

section \<open>Invariant\<close>

text \<open>
  Every entry of a table is a cell; the runs that came to an end were of different cells, and the
  outcome of each is what its cell has cached.
\<close>

definition completed_runs :: "(nat \<times> (table_error, 'v) res) list \<Rightarrow> (nat \<times> (table_error, 'v) res) list" where
  "completed_runs rs = filter (\<lambda>(i, r). \<not> is_panic r) rs"

definition lazy_ok :: "('e, 'v) lazy_world \<Rightarrow> bool" where
  "lazy_ok w \<longleftrightarrow>
     (\<forall>T\<in>set (lz_tables w). distinct (map fst (lt_entries T)) \<and> snd ` set (lt_entries T) \<subseteq> {..<length (lz_cells w)}) \<and>
     fst ` set (lz_runs w) \<subseteq> {..<length (lz_cells w)} \<and>
     (\<forall>(i, r)\<in>set (completed_runs (lz_runs w)). le_cache (lz_cells w ! i) = Some r) \<and>
     distinct (map fst (completed_runs (lz_runs w)))"

text \<open>Cells are only added, keep their loader, and what is cached stays.\<close>

definition lazy_le :: "('e, 'v) lazy_world \<Rightarrow> ('e, 'v) lazy_world \<Rightarrow> bool" where
  "lazy_le w w' \<longleftrightarrow> length (lz_cells w) \<le> length (lz_cells w') \<and> length (lz_tables w) \<le> length (lz_tables w') \<and>
     (\<forall>i<length (lz_cells w). le_loader (lz_cells w' ! i) = le_loader (lz_cells w ! i) \<and>
        (\<forall>r. le_cache (lz_cells w ! i) = Some r \<longrightarrow> le_cache (lz_cells w' ! i) = Some r))"

lemma lazy_le_refl [simp, intro]: "lazy_le w w"
  by (simp add: lazy_le_def)

lemma lazy_le_trans: "lazy_le u v \<Longrightarrow> lazy_le v w \<Longrightarrow> lazy_le u w"
  unfolding lazy_le_def by (auto dest: less_le_trans)

lemma lazy_ok_start: "lazy_ok (lazy_start e)"
  by (simp add: lazy_ok_def lazy_start_def completed_runs_def)

lemma lazy_force_ok:
  assumes "lazy_ok w" and "i < length (lz_cells w)" and "lazy_force i w = (w', r)"
  shows "lazy_ok w' \<and> lazy_le w w' \<and> lz_tables w' = lz_tables w \<and> length (lz_cells w') = length (lz_cells w) \<and>
    (\<not> is_panic r \<longrightarrow> le_cache (lz_cells w' ! i) = Some r)"
proof (cases "le_cache (lz_cells w ! i)")
  case (Some c)
  then show ?thesis using assms by (auto simp: lazy_force_def)
next
  case None
  obtain e q where run: "le_loader (lz_cells w ! i) (lz_env w) = (e, q)" by (cases "le_loader (lz_cells w ! i) (lz_env w)")
  show ?thesis
  proof (cases "is_panic q")
    case True
    then have w': "w' = w\<lparr>lz_env := e, lz_runs := lz_runs w @ [(i, q)]\<rparr>" "r = q"
      using assms None run by (auto simp: lazy_force_def)
    have "completed_runs (lz_runs w') = completed_runs (lz_runs w)"
      using True by (simp add: w' completed_runs_def)
    then have "lazy_ok w'" using assms(1,2) by (simp add: lazy_ok_def w')
    then show ?thesis using True by (simp add: lazy_le_def w')
  next
    case False
    have fresh: "(i, q') \<notin> set (completed_runs (lz_runs w))" for q'
      using assms(1) None by (auto simp: lazy_ok_def)
    then have new: "i \<notin> fst ` set (completed_runs (lz_runs w))" by auto
    have w': "w' = w\<lparr>lz_env := e, lz_runs := lz_runs w @ [(i, q)],
               lz_cells := (lz_cells w)[i := (lz_cells w ! i)\<lparr>le_cache := Some q\<rparr>]\<rparr>" "r = q"
      using assms None run False by (auto simp: lazy_force_def)
    have runs: "completed_runs (lz_runs w') = completed_runs (lz_runs w) @ [(i, q)]"
      using False by (simp add: w' completed_runs_def)
    have caches: "\<forall>(j, r)\<in>set (completed_runs (lz_runs w)). le_cache (lz_cells w' ! j) = Some r"
    proof (clarify)
      fix j r assume j: "(j, r) \<in> set (completed_runs (lz_runs w))"
      then have "j \<noteq> i" "le_cache (lz_cells w ! j) = Some r"
        using assms(1) fresh by (auto simp: lazy_ok_def)
      then show "le_cache (lz_cells w' ! j) = Some r" by (simp add: w')
    qed
    then have "lazy_ok w'"
      using assms(1,2) new unfolding lazy_ok_def runs by (simp add: w')
    moreover have "lazy_le w w'"
      using assms(2) None by (auto simp: w' lazy_le_def nth_list_update)
    ultimately show ?thesis using assms(2) by (simp add: w')
  qed
qed

lemma force_all_ok:
  assumes "lazy_ok w" and "snd ` set m \<subseteq> {..<length (lz_cells w)}" and "force_all m w = (w', r)"
  shows "lazy_ok w' \<and> lazy_le w w' \<and> lz_tables w' = lz_tables w"
  using assms
proof (induction m arbitrary: w w' r)
  case Nil
  then show ?case by (simp add: op_simps)
next
  case (Cons ki m)
  obtain k i where ki: "ki = (k, i)" by (cases ki)
  obtain w1 r1 where f: "lazy_force i w = (w1, r1)" by (cases "lazy_force i w")
  note f1 = lazy_force_ok [OF Cons.prems(1) _ f]
  have bound: "i < length (lz_cells w)" using Cons.prems(2) ki by simp
  show ?case
  proof (cases r1)
    case (Ok v)
    obtain w2 r2 where g: "force_all m w1 = (w2, r2)" by (cases "force_all m w1")
    have "lazy_ok w2 \<and> lazy_le w1 w2 \<and> lz_tables w2 = lz_tables w1"
      using Cons.IH [OF _ _ g] f1 bound Cons.prems(2) by auto
    moreover have "w' = w2" using Cons.prems(3) ki f Ok g by (cases r2) (simp_all add: op_bind_def op_simps)
    ultimately show ?thesis using f1 bound lazy_le_trans by auto
  next
    case (Err e)
    then show ?thesis using Cons.prems(3) ki f f1 bound by (simp add: op_bind_def)
  next
    case (Panic p)
    then show ?thesis using Cons.prems(3) ki f f1 bound by (simp add: op_bind_def)
  qed
qed

text \<open>Maps whose keys are distinct and whose entries are cells.\<close>

definition map_ok :: "('e, 'v) lazy_world \<Rightarrow> (symbol \<times> nat) list \<Rightarrow> bool" where
  "map_ok w m \<longleftrightarrow> distinct (map fst m) \<and> snd ` set m \<subseteq> {..<length (lz_cells w)}"

lemma map_ok_Nil: "map_ok w []"
  by (simp add: map_ok_def)

lemma snd_set_update: "snd ` set (AList.update k i m) \<subseteq> insert i (snd ` set m)"
  by (induction m) auto

lemma map_ok_update: "map_ok w m \<Longrightarrow> i < length (lz_cells w) \<Longrightarrow> map_ok w (AList.update k i m)"
  using snd_set_update [of k i m] by (auto simp: map_ok_def distinct_update)

lemma set_delete_sub: "set (AList.delete k m) \<subseteq> set m"
  by (auto simp: AList.delete_eq)

lemma map_ok_delete: "map_ok w m \<Longrightarrow> map_ok w (AList.delete k m)"
  using set_delete_sub [of k m] by (auto simp: map_ok_def distinct_delete)

lemma map_ok_le: "map_ok w m \<Longrightarrow> lazy_le w w' \<Longrightarrow> map_ok w' m"
  by (auto simp: map_ok_def lazy_le_def)

lemma map_ok_get: "map_ok w m \<Longrightarrow> map_of m k = Some i \<Longrightarrow> i < length (lz_cells w)"
  by (auto simp: map_ok_def dest!: map_of_SomeD)

lemma lazy_ok_map: "lazy_ok w \<Longrightarrow> t < length (lz_tables w) \<Longrightarrow> map_ok w (lt_entries (lz_tables w ! t))"
  by (simp add: lazy_ok_def map_ok_def)

lemma lazy_alloc_ok:
  "lazy_ok w \<Longrightarrow> lazy_ok (w\<lparr>lz_cells := lz_cells w @ [c]\<rparr>) \<and> lazy_le w (w\<lparr>lz_cells := lz_cells w @ [c]\<rparr>)"
proof -
  assume ok: "lazy_ok w"
  let ?w = "w\<lparr>lz_cells := lz_cells w @ [c]\<rparr>"
  have "j < length (lz_cells w)" if "(j, r) \<in> set (completed_runs (lz_runs w))" for j r
    using ok that by (auto simp: lazy_ok_def completed_runs_def)
  then have "\<forall>(j, r)\<in>set (completed_runs (lz_runs w)). le_cache (lz_cells ?w ! j) = Some r"
    using ok by (auto simp: lazy_ok_def nth_append)
  moreover have "snd ` set (lt_entries T) \<subseteq> {..<length (lz_cells ?w)}" if "T \<in> set (lz_tables w)" for T
    using ok that by (force simp: lazy_ok_def)
  moreover have "fst ` set (lz_runs w) \<subseteq> {..<length (lz_cells ?w)}"
    using ok by (force simp: lazy_ok_def)
  ultimately have "lazy_ok ?w" using ok by (simp add: lazy_ok_def)
  then show ?thesis by (auto simp: lazy_le_def nth_append)
qed

lemma lazy_tables_ok:
  assumes "lazy_ok w" and "length (lz_tables w) \<le> length ts" and "\<forall>T\<in>set ts. T \<in> set (lz_tables w) \<or> map_ok w (lt_entries T)"
  shows "lazy_ok (w\<lparr>lz_tables := ts\<rparr>) \<and> lazy_le w (w\<lparr>lz_tables := ts\<rparr>)"
proof -
  have "\<forall>T\<in>set ts. distinct (map fst (lt_entries T)) \<and> snd ` set (lt_entries T) \<subseteq> {..<length (lz_cells w)}"
    using assms(1,3) unfolding lazy_ok_def map_ok_def by blast
  then show ?thesis using assms(1,2) by (simp add: lazy_ok_def lazy_le_def)
qed

lemma lazy_put_ok:
  assumes "lazy_ok w" and "map_ok w m"
  shows "lazy_ok (lazy_put t m w) \<and> lazy_le w (lazy_put t m w)"
  unfolding lazy_put_def
  by (rule lazy_tables_ok) (use assms set_update_subset_insert in \<open>fastforce+\<close>)

lemma lazy_poison_ok:
  assumes "lazy_ok w" and "t < length (lz_tables w)"
  shows "lazy_ok (lazy_poison t w) \<and> lazy_le w (lazy_poison t w)"
  unfolding lazy_poison_def
  by (rule lazy_tables_ok) (use assms lazy_ok_map [OF assms] set_update_subset_insert in \<open>fastforce+\<close>)

lemma lazy_table_of_ok:
  assumes "lazy_ok w" and "map_ok w m"
  shows "lazy_ok (fst (lazy_table_of m w)) \<and> lazy_le w (fst (lazy_table_of m w))"
  unfolding lazy_table_of_def fst_conv by (rule lazy_tables_ok) (use assms in auto)

lemma lazy_collect_ok:
  assumes "lazy_ok w" and "map_ok w m" and "lazy_collect ps m w = (w', m')"
  shows "lazy_ok w' \<and> lazy_le w w' \<and> map_ok w' m' \<and> lz_tables w' = lz_tables w"
  using assms
proof (induction ps arbitrary: m w)
  case (Cons p ps)
  obtain k c where p: "p = (k, c)" by (cases p)
  let ?w = "w\<lparr>lz_cells := lz_cells w @ [c]\<rparr>" and ?i = "length (lz_cells w)"
  note a = lazy_alloc_ok [OF Cons.prems(1), of c]
  have "map_ok ?w (AList.update k ?i m)"
    using map_ok_le [OF Cons.prems(2) conjunct2 [OF a]] by (rule map_ok_update) simp
  then have "lazy_ok w' \<and> lazy_le ?w w' \<and> map_ok w' m' \<and> lz_tables w' = lz_tables ?w"
    using Cons.IH [of ?w "AList.update k ?i m"] a Cons.prems(3) p by (simp add: lazy_alloc_def)
  then show ?case using a lazy_le_trans by auto
qed auto

lemma lazy_read_run:
  "op_bind (lazy_read t) f w =
     (if lt_poisoned (lz_tables w ! t) then (w, Err (Eval ''table/lazy lock poisoned''))
      else f (lt_entries (lz_tables w ! t)) w)"
  by (simp add: lazy_read_def op_bind_def op_simps)

lemmas lazy_op_defs = lazy_get_def lazy_set_def lazy_has_def lazy_keys_def lazy_entries_def lazy_len_def
  lazy_clear_def lazy_read_run op_simps

lemma lazy_del_ok:
  assumes "lazy_ok w" and "t < length (lz_tables w)"
  shows "lazy_ok (fst (lazy_del C t k w)) \<and> lazy_le w (fst (lazy_del C t k w))"
proof (cases "lt_poisoned (lz_tables w ! t)")
  case True
  then show ?thesis using assms(1) by (simp add: lazy_del_def lazy_read_run)
next
  case False
  let ?m = "lt_entries (lz_tables w ! t)" and ?w = "lazy_put t (AList.delete k (lt_entries (lz_tables w ! t))) w"
  note m = lazy_ok_map [OF assms]
  note p = lazy_put_ok [OF assms(1) map_ok_delete [OF m], of t k]
  have len: "length (lz_tables ?w) = length (lz_tables w)" by (simp add: lazy_put_def)
  show ?thesis
  proof (cases "map_of ?m k")
    case None
    then show ?thesis using False p by (simp add: lazy_del_def lazy_read_run Let_def)
  next
    case (Some i)
    obtain w' r where f: "lazy_force i ?w = (w', r)" by (cases "lazy_force i ?w")
    have "i < length (lz_cells ?w)" using map_ok_get [OF m Some] by (simp add: lazy_put_def)
    then have w': "lazy_ok w'" "lazy_le ?w w'" "lz_tables w' = lz_tables ?w"
      using lazy_force_ok [OF conjunct1 [OF p] _ f] by auto
    then have "lazy_ok (lazy_poison t w') \<and> lazy_le w' (lazy_poison t w')"
      using lazy_poison_ok [OF w'(1), of t] assms(2) len by simp
    then show ?thesis
      using False Some f p w' by (auto simp: lazy_del_def lazy_read_run Let_def intro: lazy_le_trans)
  qed
qed

lemma lazy_write_ok:
  assumes "lazy_ok w" and "map_ok w m"
  shows "lazy_ok (lazy_put t (AList.update k (length (lz_cells w)) m) (w\<lparr>lz_cells := lz_cells w @ [c]\<rparr>)) \<and>
    lazy_le w (lazy_put t (AList.update k (length (lz_cells w)) m) (w\<lparr>lz_cells := lz_cells w @ [c]\<rparr>))"
proof -
  let ?w = "w\<lparr>lz_cells := lz_cells w @ [c]\<rparr>"
  note a = lazy_alloc_ok [OF assms(1), of c]
  have "map_ok ?w (AList.update k (length (lz_cells w)) m)"
    using map_ok_le [OF assms(2) conjunct2 [OF a]] by (rule map_ok_update) simp
  then show ?thesis using lazy_put_ok a lazy_le_trans by blast
qed

lemma lazy_build_ok:
  assumes "lazy_ok w"
  shows "lazy_ok (fst (let (w', m) = lazy_collect ps [] w in lazy_table_of m w')) \<and>
    lazy_le w (fst (let (w', m) = lazy_collect ps [] w in lazy_table_of m w'))"
proof (cases "lazy_collect ps [] w")
  case (Pair w' m)
  then show ?thesis
    using lazy_collect_ok [OF assms map_ok_Nil Pair] lazy_table_of_ok [of w' m] lazy_le_trans by auto
qed

lemma lazy_read_ok:
  assumes "lazy_ok w" and "t < length (lz_tables w)"
  shows "lazy_ok (fst (lazy_get C t k w)) \<and> lazy_le w (fst (lazy_get C t k w))"
    and "lazy_ok (fst (lazy_entries t w)) \<and> lazy_le w (fst (lazy_entries t w))"
proof -
  note m = lazy_ok_map [OF assms]
  show "lazy_ok (fst (lazy_get C t k w)) \<and> lazy_le w (fst (lazy_get C t k w))"
  proof (cases "map_of (lt_entries (lz_tables w ! t)) k")
    case None
    then show ?thesis using assms(1) by (simp add: lazy_op_defs)
  next
    case (Some i)
    then show ?thesis
      using assms(1) lazy_force_ok [OF assms(1) map_ok_get [OF m Some] prod.collapse [symmetric]]
      by (simp add: lazy_op_defs)
  qed
  have "snd ` set (sort_key fst (lt_entries (lz_tables w ! t))) \<subseteq> {..<length (lz_cells w)}"
    using m by (simp add: map_ok_def)
  then show "lazy_ok (fst (lazy_entries t w)) \<and> lazy_le w (fst (lazy_entries t w))"
    using assms(1) force_all_ok [OF assms(1) _ prod.collapse [symmetric]] by (simp add: lazy_op_defs)
qed

lemma lazy_exec_ok:
  assumes "lazy_ok w" and "\<And>t. lazy_target c = Some t \<Longrightarrow> t < length (lz_tables w)"
  shows "lazy_ok (lazy_exec C c w) \<and> lazy_le w (lazy_exec C c w)"
proof (cases c)
  case (LazyClone t)
  then show ?thesis using lazy_table_of_ok [OF assms(1)] lazy_ok_map [OF assms(1)] assms(2) by (simp add: lazy_clone_def)
next
  case (LazyPut t k l)
  then show ?thesis using lazy_write_ok [OF assms(1) lazy_ok_map [OF assms(1)]] assms(2)
    by (simp add: put_lazy_def lazy_alloc_def)
next
  case (LazySet t k v)
  then show ?thesis using lazy_write_ok [OF assms(1) lazy_ok_map [OF assms(1)]] assms
    by (simp add: lazy_op_defs lazy_alloc_def)
next
  case (LazyClear t)
  then show ?thesis using lazy_put_ok [OF assms(1) map_ok_Nil] assms(1) by (simp add: lazy_op_defs)
next
  case LazyNew
  then show ?thesis using lazy_table_of_ok [OF assms(1) map_ok_Nil] by (simp add: lazy_new_def)
next
  case (LazyLoaders ps)
  then show ?thesis using lazy_build_ok [OF assms(1)] by (simp only: lazy_exec.simps with_loaders_def)
next
  case (LazyValues es)
  then show ?thesis using lazy_build_ok [OF assms(1)] by (simp only: lazy_exec.simps lazy_with_entries_def)
next
  case (LazyGet t k)
  then show ?thesis using lazy_read_ok(1) [OF assms(1)] assms(2) by simp
next
  case (LazyDel t k)
  then show ?thesis using lazy_del_ok [OF assms(1)] assms(2) by simp
next
  case (LazyEntries t)
  then show ?thesis using lazy_read_ok(2) [OF assms(1)] assms(2) by simp
qed (use assms(1) in \<open>simp_all add: lazy_op_defs\<close>)

lemma lazy_step_ok: "lazy_ok w \<Longrightarrow> lazy_ok (lazy_step C c w) \<and> lazy_le w (lazy_step C c w)"
  using lazy_exec_ok [of w c C] by (auto simp: lazy_step_def split: option.split)

definition lazy_run :: "'v cx \<Rightarrow> ('e, 'v) lazy_call list \<Rightarrow> ('e, 'v) lazy_world \<Rightarrow> ('e, 'v) lazy_world" where
  "lazy_run C cs w = foldl (\<lambda>w c. lazy_step C c w) w cs"

lemma lazy_run_simps [simp]:
  "lazy_run C [] w = w" "lazy_run C (c # cs) w = lazy_run C cs (lazy_step C c w)"
  by (simp_all add: lazy_run_def)

lemma lazy_run_ok: "lazy_ok w \<Longrightarrow> lazy_ok (lazy_run C cs w) \<and> lazy_le w (lazy_run C cs w)"
proof (induction cs arbitrary: w)
  case (Cons c cs)
  then show ?case using lazy_step_ok [OF Cons.prems, of C c] by (auto intro: lazy_le_trans)
qed simp

section \<open>What callers observe\<close>


text \<open>Calls that replace or remove the entry of a key.\<close>

fun lazy_touches :: "nat \<Rightarrow> symbol \<Rightarrow> ('e, 'v) lazy_call \<Rightarrow> bool" where
  "lazy_touches t k (LazyPut t' k' l) \<longleftrightarrow> t' = t \<and> k' = k"
| "lazy_touches t k (LazySet t' k' v) \<longleftrightarrow> t' = t \<and> k' = k"
| "lazy_touches t k (LazyDel t' k') \<longleftrightarrow> t' = t \<and> k' = k"
| "lazy_touches t k (LazyClear t') \<longleftrightarrow> t' = t"
| "lazy_touches t k _ \<longleftrightarrow> False"

definition lazy_slot :: "('e, 'v) lazy_world \<Rightarrow> nat \<Rightarrow> symbol \<Rightarrow> nat option" where
  "lazy_slot w t k = map_of (lt_entries (lz_tables w ! t)) k"

lemma lazy_force_tables: "lz_tables (fst (lazy_force i w)) = lz_tables w"
  by (auto simp: lazy_force_def Let_def split: option.split prod.split)

lemma force_all_tables: "lz_tables (fst (force_all m w)) = lz_tables w"
proof (induction m arbitrary: w)
  case (Cons ki m)
  obtain k i where ki: "ki = (k, i)" by (cases ki)
  obtain w1 r where f: "lazy_force i w = (w1, r)" by (cases "lazy_force i w")
  obtain w2 q where g: "force_all m w1 = (w2, q)" by (cases "force_all m w1")
  have "lz_tables w1 = lz_tables w" "lz_tables w2 = lz_tables w1"
    using lazy_force_tables [of i w] Cons.IH [of w1] f g by simp_all
  then show ?case using ki f g by (cases r; cases q) (simp_all add: op_bind_def op_simps)
qed (simp add: op_simps)

lemma lazy_collect_tables: "lz_tables (fst (lazy_collect ps m w)) = lz_tables w"
  by (induction ps arbitrary: m w) (auto simp: lazy_alloc_def)

lemma lazy_slot_append: "t < length (lz_tables w) \<Longrightarrow> lz_tables w' = lz_tables w @ Ts \<Longrightarrow> lazy_slot w' t k = lazy_slot w t k"
  by (simp add: lazy_slot_def nth_append)

lemma lazy_slot_put:
  "t < length (lz_tables w) \<Longrightarrow> lazy_slot (lazy_put t' m w) t k = (if t = t' then map_of m k else lazy_slot w t k)"
  by (auto simp: lazy_slot_def lazy_put_def nth_list_update)

lemma lazy_slot_poison: "lazy_slot (lazy_poison t' w) t k = lazy_slot w t k"
  by (cases "t' < length (lz_tables w)")
    (auto simp: lazy_slot_def lazy_poison_def nth_list_update list_update_beyond)

lemma lazy_slot_tables: "lz_tables w' = lz_tables w \<Longrightarrow> lazy_slot w' t k = lazy_slot w t k"
  by (simp add: lazy_slot_def)

lemma lazy_build_slot:
  assumes "t < length (lz_tables w)"
  shows "lazy_slot (fst (let (w', m) = lazy_collect ps [] w in lazy_table_of m w')) t k = lazy_slot w t k"
proof (cases "lazy_collect ps [] w")
  case (Pair w' m)
  then have "lz_tables w' = lz_tables w" using lazy_collect_tables [of ps "[]" w] by simp
  then show ?thesis using Pair assms by (simp add: lazy_table_of_def lazy_slot_def nth_append)
qed

lemma lazy_del_slot:
  assumes "t < length (lz_tables w)" and "t' \<noteq> t \<or> k' \<noteq> k"
  shows "lazy_slot (fst (lazy_del C t' k' w)) t k = lazy_slot w t k"
proof (cases "lt_poisoned (lz_tables w ! t')")
  case False
  let ?m = "lt_entries (lz_tables w ! t')"
  have put: "lazy_slot (lazy_put t' (AList.delete k' ?m) w) t k = lazy_slot w t k"
    using assms by (cases "t = t'") (simp_all add: lazy_slot_put delete_conv', simp add: lazy_slot_def)
  show ?thesis
  proof (cases "map_of ?m k'")
    case (Some i)
    obtain w' r where f: "lazy_force i (lazy_put t' (AList.delete k' ?m) w) = (w', r)"
      by (cases "lazy_force i (lazy_put t' (AList.delete k' ?m) w)")
    then have "lz_tables w' = lz_tables (lazy_put t' (AList.delete k' ?m) w)"
      using lazy_force_tables [of i "lazy_put t' (AList.delete k' ?m) w"] by simp
    then have "lazy_slot w' t k = lazy_slot w t k" using put lazy_slot_tables by metis
    then show ?thesis
      using False Some f by (simp add: lazy_del_def lazy_read_run Let_def lazy_slot_poison)
  qed (use False put in \<open>simp add: lazy_del_def lazy_read_run Let_def\<close>)
qed (simp add: lazy_del_def lazy_read_run)

lemma lazy_exec_slot:
  assumes "t < length (lz_tables w)" and "\<not> lazy_touches t k c"
  shows "lazy_slot (lazy_exec C c w) t k = lazy_slot w t k"
proof (cases c)
  case LazyNew
  then show ?thesis using assms(1) by (simp add: lazy_new_def lazy_table_of_def lazy_slot_def nth_append)
next
  case (LazyLoaders ps)
  then show ?thesis using lazy_build_slot [OF assms(1)] by (simp only: lazy_exec.simps with_loaders_def)
next
  case (LazyValues es)
  then show ?thesis using lazy_build_slot [OF assms(1)] by (simp only: lazy_exec.simps lazy_with_entries_def)
next
  case (LazyClone t')
  then show ?thesis using assms(1) by (simp add: lazy_clone_def lazy_table_of_def lazy_slot_def nth_append)
next
  case (LazyPut t' k' l)
  then show ?thesis using assms
    by (simp add: put_lazy_def lazy_alloc_def lazy_slot_put update_conv') (auto simp: lazy_slot_def)
next
  case (LazyGet t' k')
  then show ?thesis
    using lazy_force_tables by (auto simp: lazy_op_defs intro!: lazy_slot_tables split: option.split)
next
  case (LazySet t' k' v)
  then show ?thesis using assms
    by (simp add: lazy_op_defs lazy_alloc_def lazy_slot_put update_conv') (auto simp: lazy_slot_def)
next
  case (LazyDel t' k')
  then show ?thesis using lazy_del_slot [OF assms(1)] assms(2) by simp
next
  case (LazyEntries t')
  then show ?thesis using force_all_tables by (auto simp: lazy_op_defs intro!: lazy_slot_tables)
next
  case (LazyClear t')
  then show ?thesis using assms by (simp add: lazy_op_defs lazy_slot_put)
qed (simp_all add: lazy_op_defs)

lemma lazy_run_slot:
  assumes "lazy_ok w" and "t < length (lz_tables w)" and "list_all (\<lambda>c. \<not> lazy_touches t k c) cs"
  shows "lazy_slot (lazy_run C cs w) t k = lazy_slot w t k"
  using assms
proof (induction cs arbitrary: w)
  case (Cons c cs)
  have "lazy_slot (lazy_step C c w) t k = lazy_slot w t k"
    using lazy_exec_slot [OF Cons.prems(2), of k c C] Cons.prems(3) by (simp add: lazy_step_def split: option.split)
  moreover have "lazy_ok (lazy_step C c w)" "t < length (lz_tables (lazy_step C c w))"
    using lazy_step_ok [OF Cons.prems(1), of C c] Cons.prems(2) by (auto simp: lazy_le_def)
  ultimately show ?case using Cons.IH [of "lazy_step C c w"] Cons.prems(3) by simp
qed simp

lemma lazy_get_slot:
  "lazy_get C t k w =
     (if lt_poisoned (lz_tables w ! t) then (w, Err (Eval ''table/lazy lock poisoned''))
      else (case lazy_slot w t k of Some i \<Rightarrow> lazy_force i w | None \<Rightarrow> (w, cx_nil C)))"
  by (simp add: lazy_op_defs lazy_slot_def split: option.split)

lemma lazy_get_tables: "lz_tables (fst (lazy_get C t k w)) = lz_tables w"
  by (auto simp: lazy_get_slot lazy_force_tables split: option.split)

text \<open>A value, or an error, once read under a key is what every later read of the key answers without running
  a loader or changing anything, whatever was called in between on this table, its clones and other
  tables, until the key is set, deleted, loaded anew or the table cleared; only a lock poisoned by a
  panicking deletion stops it.\<close>

theorem lazy_get_stable:
  assumes "lazy_ok w" and "t < length (lz_tables w)" and "\<not> lt_poisoned (lz_tables w ! t)"
    and "lazy_get C t k w = (w1, r)" and "\<not> is_panic r"
    and "list_all (\<lambda>c. \<not> lazy_touches t k c) cs"
  shows "let w2 = lazy_run C cs w1 in lazy_get C t k w2 = (w2, r) \<or> lt_poisoned (lz_tables w2 ! t)"
proof -
  let ?w2 = "lazy_run C cs w1"
  have w1: "lazy_ok w1" "lz_tables w1 = lz_tables w"
    using lazy_read_ok(1) [OF assms(1,2), of C k] lazy_get_tables [of C t k w] assms(4) by auto
  then have le: "lazy_le w1 ?w2" and slot: "lazy_slot ?w2 t k = lazy_slot w t k"
    using lazy_run_ok lazy_run_slot [OF w1(1) _ assms(6)] lazy_slot_tables [OF w1(2)] assms(2) by auto
  show ?thesis
  proof (cases "lazy_slot w t k")
    case None
    then show ?thesis using assms(3,4) slot by (simp add: lazy_get_slot Let_def)
  next
    case (Some i)
    then have i: "i < length (lz_cells w)" using map_ok_get [OF lazy_ok_map [OF assms(1,2)]] by (simp add: lazy_slot_def)
    have "lazy_force i w = (w1, r)" using Some assms(3,4) by (simp add: lazy_get_slot)
    then have "le_cache (lz_cells w1 ! i) = Some r" "i < length (lz_cells w1)"
      using lazy_force_ok [OF assms(1) i] assms(5) i by auto
    then have "le_cache (lz_cells ?w2 ! i) = Some r" using le by (simp add: lazy_le_def)
    then show ?thesis using Some slot by (simp add: lazy_get_slot Let_def lazy_force_def)
  qed
qed

text \<open>Two loaders that count their runs in the environment: one gives the count, one fails.\<close>

definition count_loader :: "(nat, table_error, string) op" where
  "count_loader n = (n + 1, Ok (u64_to_string (of_nat n)))"

definition failing_loader :: "(nat, table_error, string) op" where
  "failing_loader n = (n + 1, Err (Eval ''no value''))"

definition lazy_sample_cx :: "string cx" where
  "lazy_sample_cx =
     \<lparr>cx_granted = \<lambda>_. True, cx_nil = Ok ''nil'', cx_string = Ok, cx_bytes = \<lambda>bs. Ok (from_bytes bs),
      cx_expr = \<lambda>_. Ok ''expr'', as_expr = \<lambda>v. Ok (EString v), legal_segment = \<lambda>_. True\<rparr>"

definition lazy_sample :: "(nat, string) lazy_world" where
  "lazy_sample = fst (with_loaders [(sym_new ''a'', count_loader), (sym_new ''b'', failing_loader)] (lazy_start 7))"

lemma lazy_sample_facts:
  "lazy_ok lazy_sample" "length (lz_tables lazy_sample) = 1" "lt_poisoned (lz_tables lazy_sample ! 0) = False"
  "snd (lazy_get lazy_sample_cx 0 (sym_new ''b'') lazy_sample) = Err (Eval ''no value'')"
proof -
  show "lazy_ok lazy_sample"
    using lazy_exec_ok [OF lazy_ok_start, of "LazyLoaders [(sym_new ''a'', count_loader), (sym_new ''b'', failing_loader)]" 7]
    by (simp add: lazy_sample_def)
qed code_simp+

theorem lazy_get_stable_witness:
  "let w1 = fst (lazy_get lazy_sample_cx 0 (sym_new ''b'') lazy_sample);
       w2 = lazy_run lazy_sample_cx [LazyClone 0, LazyEntries 1, LazySet 1 (sym_new ''b'') ''x'', LazyDel 0 (sym_new ''a'')] w1 in
   lazy_get lazy_sample_cx 0 (sym_new ''b'') w2 = (w2, Err (Eval ''no value''))"
proof -
  obtain w1 r where g: "lazy_get lazy_sample_cx 0 (sym_new ''b'') lazy_sample = (w1, r)"
    by (cases "lazy_get lazy_sample_cx 0 (sym_new ''b'') lazy_sample")
  let ?cs = "[LazyClone 0, LazyEntries 1, LazySet 1 (sym_new ''b'') ''x'', LazyDel 0 (sym_new ''a'')] :: (nat, string) lazy_call list"
  have r: "r = Err (Eval ''no value'')" using g lazy_sample_facts(4) by simp
  have "lt_poisoned (lz_tables (lazy_run lazy_sample_cx ?cs (fst (lazy_get lazy_sample_cx 0 (sym_new ''b'') lazy_sample))) ! 0) = False"
    by code_simp
  then show ?thesis
    using lazy_get_stable [OF lazy_sample_facts(1) _ _ g, of ?cs] lazy_sample_facts(2,3) r g
    by (simp add: Let_def)
qed

section \<open>Concurrent forces\<close>

text \<open>
  \<open>get\<close> forces under a read guard, which other threads may hold too, so forces of one entry interleave.
  The steps of \<open>force\<close> are reading the cell, running the loader, and setting the cell, which keeps what is
  there already; the answer is the thread's own result.
\<close>

datatype 'v force_thread =
    Checking
  | Running
  | Storing "(table_error, 'v) res"
  | Answered "(table_error, 'v) res"

record ('e, 'v) force_state =
  fs_env :: 'e
  fs_cache :: "(table_error, 'v) res option"
  fs_threads :: "'v force_thread list"

inductive force_step :: "('e, table_error, 'v) op \<Rightarrow> ('e, 'v) force_state \<Rightarrow> ('e, 'v) force_state \<Rightarrow> bool"
  for loader where
    force_hit: "i < length (fs_threads s) \<Longrightarrow> fs_threads s ! i = Checking \<Longrightarrow> fs_cache s = Some r \<Longrightarrow>
      force_step loader s (s\<lparr>fs_threads := (fs_threads s)[i := Answered r]\<rparr>)"
  | force_miss: "i < length (fs_threads s) \<Longrightarrow> fs_threads s ! i = Checking \<Longrightarrow> fs_cache s = None \<Longrightarrow>
      force_step loader s (s\<lparr>fs_threads := (fs_threads s)[i := Running]\<rparr>)"
  | force_load: "i < length (fs_threads s) \<Longrightarrow> fs_threads s ! i = Running \<Longrightarrow> loader (fs_env s) = (e, r) \<Longrightarrow>
      force_step loader s (s\<lparr>fs_env := e, fs_threads := (fs_threads s)[i := if is_panic r then Answered r else Storing r]\<rparr>)"
  | force_store: "i < length (fs_threads s) \<Longrightarrow> fs_threads s ! i = Storing r \<Longrightarrow>
      force_step loader s (s\<lparr>fs_cache := (case fs_cache s of None \<Rightarrow> Some r | Some c \<Rightarrow> Some c),
                           fs_threads := (fs_threads s)[i := Answered r]\<rparr>)"

text \<open>What a thread answers once the cell is set to \<open>r\<close>: threads that had not looked yet have no other choice.\<close>

definition force_settled :: "(table_error, 'v) res \<Rightarrow> nat \<Rightarrow> ('e, 'v) force_state \<Rightarrow> bool" where
  "force_settled r i s \<longleftrightarrow> fs_cache s = Some r \<and> (fs_threads s ! i = Checking \<or> fs_threads s ! i = Answered r)"

lemma force_step_settled:
  "force_step loader s s' \<Longrightarrow> force_settled r i s \<Longrightarrow> force_settled r i s'"
proof (induction rule: force_step.induct)
  case (force_hit j s q)
  then show ?case by (cases "i = j") (auto simp: force_settled_def)
next
  case (force_miss j s)
  then show ?case by (auto simp: force_settled_def)
next
  case (force_load j s e q)
  then show ?case by (cases "i = j") (auto simp: force_settled_def)
next
  case (force_store j s q)
  then show ?case by (cases "i = j") (auto simp: force_settled_def)
qed

text \<open>However forces of one entry interleave, what is once cached stays cached, and a thread that had not yet
  looked when the cell was set answers the cached result or has not answered.\<close>

theorem force_race_settled:
  assumes "(force_step loader)\<^sup>*\<^sup>* s s'" and "fs_cache s = Some r" and "fs_threads s ! i = Checking"
  shows "fs_cache s' = Some r \<and> (fs_threads s' ! i = Checking \<or> fs_threads s' ! i = Answered r)"
proof -
  have "force_settled r i s" using assms(2,3) by (simp add: force_settled_def)
  with assms(1) have "force_settled r i s'"
    by (induction rule: rtranclp_induct) (auto intro: force_step_settled)
  then show ?thesis by (simp add: force_settled_def)
qed

definition race_at :: "nat \<Rightarrow> (table_error, string) res option \<Rightarrow> string force_thread list \<Rightarrow> (nat, string) force_state" where
  "race_at e c ths = \<lparr>fs_env = e, fs_cache = c, fs_threads = ths\<rparr>"

theorem force_race_settled_witness:
  "fs_threads (race_at 1 (Some (Ok ''0'')) [Answered (Ok ''0''), Answered (Ok ''0'')]) ! 1 = Answered (Ok ''0'')"
proof -
  have "force_step count_loader (race_at 1 (Some (Ok ''0'')) [Answered (Ok ''0''), Checking])
      ((race_at 1 (Some (Ok ''0'')) [Answered (Ok ''0''), Checking])\<lparr>fs_threads :=
         (fs_threads (race_at 1 (Some (Ok ''0'')) [Answered (Ok ''0''), Checking]))[1 := Answered (Ok ''0'')]\<rparr>)"
    by (rule force_hit) (simp_all add: race_at_def)
  then have "(force_step count_loader)\<^sup>*\<^sup>* (race_at 1 (Some (Ok ''0'')) [Answered (Ok ''0''), Checking])
      (race_at 1 (Some (Ok ''0'')) [Answered (Ok ''0''), Answered (Ok ''0'')])"
    by (simp add: race_at_def)
  from force_race_settled [OF this, of "Ok ''0''" 1] show ?thesis by (simp add: race_at_def)
qed

text \<open>
  But two threads that both find the cell empty both run the loader, and the second answers its own
  result though the first is the one cached.
\<close>

lemma force_race_runs_twice:
  "(force_step count_loader)\<^sup>*\<^sup>* (race_at 0 None [Checking, Checking])
     (race_at 2 (Some (Ok ''0'')) [Answered (Ok ''0''), Answered (Ok ''1'')])"
proof -
  have texts: "u64_to_string 0 = ''0''" "u64_to_string 1 = ''1''" by code_simp+
  have 1: "force_step count_loader (race_at 0 None [Checking, Checking]) (race_at 0 None [Running, Checking])"
    using force_miss [of 0 "race_at 0 None [Checking, Checking]" count_loader] by (simp add: race_at_def)
  have 2: "force_step count_loader (race_at 0 None [Running, Checking]) (race_at 0 None [Running, Running])"
    using force_miss [of 1 "race_at 0 None [Running, Checking]" count_loader] by (simp add: race_at_def)
  have 3: "force_step count_loader (race_at 0 None [Running, Running]) (race_at 1 None [Storing (Ok ''0''), Running])"
    using force_load [of 0 "race_at 0 None [Running, Running]" count_loader] texts by (simp add: race_at_def count_loader_def)
  have 4: "force_step count_loader (race_at 1 None [Storing (Ok ''0''), Running])
      (race_at 2 None [Storing (Ok ''0''), Storing (Ok ''1'')])"
    using force_load [of 1 "race_at 1 None [Storing (Ok ''0''), Running]" count_loader] texts
    by (simp add: race_at_def count_loader_def numeral_2_eq_2)
  have 5: "force_step count_loader (race_at 2 None [Storing (Ok ''0''), Storing (Ok ''1'')])
      (race_at 2 (Some (Ok ''0'')) [Answered (Ok ''0''), Storing (Ok ''1'')])"
    using force_store [of 0 "race_at 2 None [Storing (Ok ''0''), Storing (Ok ''1'')]" "Ok ''0''" count_loader]
    by (simp add: race_at_def)
  have 6: "force_step count_loader (race_at 2 (Some (Ok ''0'')) [Answered (Ok ''0''), Storing (Ok ''1'')])
      (race_at 2 (Some (Ok ''0'')) [Answered (Ok ''0''), Answered (Ok ''1'')])"
    using force_store [of 1 "race_at 2 (Some (Ok ''0'')) [Answered (Ok ''0''), Storing (Ok ''1'')]" "Ok ''1''" count_loader]
    by (simp add: race_at_def)
  from 1 2 3 4 5 6 show ?thesis by (meson rtranclp.rtrancl_into_rtrancl rtranclp.rtrancl_refl)
qed


section \<open>A loaded table is its finite map\<close>

text \<open>
  When every entry holds a value, as in the tables \<open>LazyBackend\<close> makes and after a successful
  enumeration, the table is a plain table: no call runs a loader.
\<close>

definition cell_value :: "('e, 'v) lazy_world \<Rightarrow> nat \<Rightarrow> 'v option" where
  "cell_value w i = (case le_cache (lz_cells w ! i) of Some (Ok v) \<Rightarrow> Some v | _ \<Rightarrow> None)"

definition lazy_loaded :: "nat \<Rightarrow> ('e, 'v) lazy_world \<Rightarrow> bool" where
  "lazy_loaded t w \<longleftrightarrow> lazy_ok w \<and> t < length (lz_tables w) \<and> \<not> lt_poisoned (lz_tables w ! t) \<and>
     (\<forall>i\<in>snd ` set (lt_entries (lz_tables w ! t)). cell_value w i \<noteq> None)"

definition lazy_content :: "nat \<Rightarrow> ('e, 'v) lazy_world \<Rightarrow> symbol \<Rightarrow> 'v option" where
  "lazy_content t w k = Option.bind (lazy_slot w t k) (cell_value w)"

lemma cell_value_force: "cell_value w i = Some v \<Longrightarrow> lazy_force i w = (w, Ok v)"
  by (auto simp: cell_value_def lazy_force_def split: option.splits res.splits)

lemma lazy_loaded_slot:
  assumes "lazy_loaded t w"
  shows "lazy_slot w t k = Some i \<Longrightarrow> \<exists>v. cell_value w i = Some v \<and> lazy_content t w k = Some v"
    and "lazy_slot w t k = None \<Longrightarrow> lazy_content t w k = None"
proof -
  assume "lazy_slot w t k = Some i"
  then have "i \<in> snd ` set (lt_entries (lz_tables w ! t))"
    unfolding lazy_slot_def by (force dest: map_of_SomeD)
  then show "\<exists>v. cell_value w i = Some v \<and> lazy_content t w k = Some v"
    using assms \<open>lazy_slot w t k = Some i\<close> by (auto simp: lazy_loaded_def lazy_content_def)
qed (simp add: lazy_content_def)

lemma lazy_content_dom: "lazy_loaded t w \<Longrightarrow> lazy_content t w k \<noteq> None \<longleftrightarrow> lazy_slot w t k \<noteq> None"
  using lazy_loaded_slot by (cases "lazy_slot w t k") fastforce+

lemma lazy_loaded_keys:
  assumes "lazy_loaded t w"
  shows "distinct (map fst (lt_entries (lz_tables w ! t)))" "dom (lazy_content t w) = fst ` set (lt_entries (lz_tables w ! t))"
proof -
  show "distinct (map fst (lt_entries (lz_tables w ! t)))"
    using assms lazy_ok_map by (auto simp: lazy_loaded_def map_ok_def)
  show "dom (lazy_content t w) = fst ` set (lt_entries (lz_tables w ! t))"
    using lazy_content_dom [OF assms] by (auto simp: dom_def lazy_slot_def map_of_eq_None_iff)
qed

lemma force_all_loaded:
  "\<forall>i\<in>snd ` set m. cell_value w i \<noteq> None \<Longrightarrow> force_all m w = (w, Ok (map (\<lambda>(k, i). (k, the (cell_value w i))) m))"
  by (induction m) (auto simp: op_bind_def op_simps cell_value_force)

lemma lazy_entries_loaded:
  assumes "lazy_loaded t w"
  shows "\<exists>es. lazy_entries t w = (w, Ok es) \<and> distinct (map fst es) \<and> map_of es = lazy_content t w"
proof -
  let ?m = "lt_entries (lz_tables w ! t)"
  let ?es = "map (\<lambda>(k, i). (k, the (cell_value w i))) (sort_key fst ?m)"
  note d = lazy_loaded_keys(1) [OF assms]
  have "force_all (sort_key fst ?m) w = (w, Ok ?es)"
    using assms by (intro force_all_loaded) (simp add: lazy_loaded_def)
  then have run: "lazy_entries t w = (w, Ok ?es)" using assms by (simp add: lazy_op_defs lazy_loaded_def)
  have fst: "map fst ?es = map fst (sort_key fst ?m)" by (simp add: comp_def split_def)
  have "map_of (sort_key fst ?m) = map_of ?m"
    using d by (subst map_of_inject_set) (simp_all add: distinct_fst_sort_key)
  then have "map_of ?es k = lazy_content t w k" for k
    using lazy_loaded_slot [OF assms, of k] by (cases "map_of ?m k") (auto simp: map_of_map lazy_slot_def)
  moreover have "distinct (map fst ?es)" unfolding fst by (simp only: distinct_fst_sort_key d)
  ultimately show ?thesis using run by blast
qed

text \<open>Writing a map of entries that all hold values.\<close>

lemma lazy_put_loaded:
  assumes "lazy_loaded t w" and "map_ok w m" and "\<forall>i\<in>snd ` set m. cell_value w i \<noteq> None"
  shows "lazy_loaded t (lazy_put t m w)" "lazy_content t (lazy_put t m w) k = Option.bind (map_of m k) (cell_value w)"
proof -
  have "cell_value (lazy_put t m w) = cell_value w" by (rule ext) (simp add: cell_value_def lazy_put_def)
  then show "lazy_loaded t (lazy_put t m w)" "lazy_content t (lazy_put t m w) k = Option.bind (map_of m k) (cell_value w)"
    using assms lazy_put_ok [of w m t]
    by (simp_all add: lazy_loaded_def lazy_content_def lazy_slot_put) (simp add: lazy_put_def)
qed

lemma lazy_loaded_alloc:
  assumes "lazy_loaded t w"
  shows "lazy_loaded t (w\<lparr>lz_cells := lz_cells w @ [c]\<rparr>)"
    "i < length (lz_cells w) \<Longrightarrow> cell_value (w\<lparr>lz_cells := lz_cells w @ [c]\<rparr>) i = cell_value w i"
proof -
  show eq: "cell_value (w\<lparr>lz_cells := lz_cells w @ [c]\<rparr>) i = cell_value w i" if "i < length (lz_cells w)" for i
    using that by (simp add: cell_value_def nth_append)
  have "i < length (lz_cells w)" if "i \<in> snd ` set (lt_entries (lz_tables w ! t))" for i
    using assms that lazy_ok_map [of w t] by (auto simp: lazy_loaded_def map_ok_def)
  then show "lazy_loaded t (w\<lparr>lz_cells := lz_cells w @ [c]\<rparr>)"
    using assms eq lazy_alloc_ok [of w c] by (auto simp: lazy_loaded_def)
qed

lemma lazy_set_loaded:
  assumes "lazy_loaded t w"
  shows "\<exists>w'. lazy_set t k v w = (w', Ok ()) \<and> lazy_loaded t w' \<and> lazy_content t w' = (lazy_content t w)(k \<mapsto> v)"
proof -
  let ?w = "w\<lparr>lz_cells := lz_cells w @ [lazy_eager v]\<rparr>" and ?i = "length (lz_cells w)"
  let ?m = "AList.update k ?i (lt_entries (lz_tables w ! t))"
  note a = lazy_loaded_alloc [where c = "lazy_eager v", OF assms]
  have new: "cell_value ?w ?i = Some v" by (simp add: cell_value_def lazy_eager_def)
  have m: "map_ok ?w (lt_entries (lz_tables w ! t))" using a(1) lazy_ok_map [of ?w t] by (simp add: lazy_loaded_def)
  have vals: "\<forall>i\<in>snd ` set ?m. cell_value ?w i \<noteq> None"
  proof
    fix i assume "i \<in> snd ` set ?m"
    then consider "i = ?i" | "i \<in> snd ` set (lt_entries (lz_tables ?w ! t))"
      using snd_set_update [of k ?i "lt_entries (lz_tables w ! t)"] by auto
    then show "cell_value ?w i \<noteq> None" using new a(1) by cases (auto simp: lazy_loaded_def)
  qed
  have "map_ok ?w ?m" by (rule map_ok_update [OF m]) simp
  note p = lazy_put_loaded [OF a(1) this vals]
  have old: "Option.bind (lazy_slot w t k') (cell_value ?w) = lazy_content t w k'" for k'
    using a(2) lazy_ok_map [of w t] map_ok_get [of w "lt_entries (lz_tables w ! t)" k'] assms
    by (cases "lazy_slot w t k'") (auto simp: lazy_content_def lazy_loaded_def lazy_slot_def)
  have "lazy_content t (lazy_put t ?m ?w) = (lazy_content t w)(k \<mapsto> v)"
    using p(2) new old by (auto simp: update_conv' lazy_slot_def)
  then show ?thesis using p(1) assms by (simp add: lazy_op_defs lazy_alloc_def lazy_loaded_def)
qed

lemma lazy_del_loaded:
  assumes "lazy_loaded t w"
  shows "\<exists>w'. lazy_del C t k w = (w', value_or_nil C (lazy_content t w k)) \<and> lazy_loaded t w' \<and>
    lazy_content t w' = (lazy_content t w)(k := None)"
proof -
  let ?m = "lt_entries (lz_tables w ! t)"
  let ?w = "lazy_put t (AList.delete k ?m) w"
  have m: "map_ok w ?m" using assms lazy_ok_map [of w t] by (simp add: lazy_loaded_def)
  have "\<forall>i\<in>snd ` set (AList.delete k ?m). cell_value w i \<noteq> None"
    using assms set_delete_sub [of k ?m] by (auto simp: lazy_loaded_def)
  note p = lazy_put_loaded [OF assms map_ok_delete [OF m] this]
  have content: "lazy_content t ?w = (lazy_content t w)(k := None)"
    using p(2) by (auto simp: delete_conv' lazy_content_def lazy_slot_def)
  have same: "cell_value ?w = cell_value w" by (rule ext) (simp add: cell_value_def lazy_put_def)
  have "lazy_del C t k w = (?w, value_or_nil C (lazy_content t w k))"
  proof (cases "map_of ?m k")
    case None
    then show ?thesis using assms
      by (simp add: lazy_del_def lazy_read_run Let_def lazy_loaded_def value_or_nil_def lazy_content_def lazy_slot_def)
  next
    case (Some i)
    then obtain v where v: "cell_value w i = Some v" "lazy_content t w k = Some v"
      using lazy_loaded_slot(1) [OF assms, of k i] by (auto simp: lazy_slot_def)
    then have "lazy_force i ?w = (?w, Ok v)" by (simp add: cell_value_force same)
    then show ?thesis using assms Some v
      by (simp add: lazy_del_def lazy_read_run Let_def lazy_loaded_def value_or_nil_def)
  qed
  then show ?thesis using p(1) content by blast
qed

interpretation lazy: table_contract C "lazy_table_impl C exchange t" "lazy_loaded t" "\<lambda>_. True" "lazy_content t"
  for C :: "'v cx" and exchange :: "symbol \<Rightarrow> table_expected \<Rightarrow> 'v table_replacement \<Rightarrow> (('e, 'v) lazy_world, table_error, table_exchange) op"
    and t :: nat
proof
  fix w :: "('e, 'v) lazy_world" and k and v :: 'v
  assume w: "lazy_loaded t w"
  note keys = lazy_loaded_keys [OF w]
  show "tb_get (lazy_table_impl C exchange t) k w = (w, value_or_nil C (lazy_content t w k))"
  proof (cases "lazy_slot w t k")
    case None
    then show ?thesis using w lazy_loaded_slot(2) [OF w None]
      by (simp add: lazy_table_impl_def lazy_get_slot lazy_loaded_def value_or_nil_def)
  next
    case (Some i)
    then obtain u where "cell_value w i = Some u" "lazy_content t w k = Some u" using lazy_loaded_slot(1) [OF w Some] by blast
    then show ?thesis using w Some
      by (simp add: lazy_table_impl_def lazy_get_slot lazy_loaded_def value_or_nil_def cell_value_force)
  qed
  show "tb_has (lazy_table_impl C exchange t) k w = (w, Ok (lazy_content t w k \<noteq> None))"
    using w lazy_content_dom [OF w, of k] by (simp add: lazy_table_impl_def lazy_op_defs lazy_loaded_def lazy_slot_def)
  show "\<exists>ks. tb_keys (lazy_table_impl C exchange t) w = (w, Ok ks) \<and> distinct ks \<and> set ks = dom (lazy_content t w)"
    using w keys by (simp add: lazy_table_impl_def lazy_op_defs lazy_loaded_def)
  show "\<exists>es. tb_entries (lazy_table_impl C exchange t) w = (w, Ok es) \<and> distinct (map fst es) \<and> map_of es = lazy_content t w"
    using lazy_entries_loaded [OF w] by (simp add: lazy_table_impl_def)
  show "tb_len (lazy_table_impl C exchange t) w = (w, Ok (card (dom (lazy_content t w))))"
    using w keys distinct_card [OF keys(1)] by (simp add: lazy_table_impl_def lazy_op_defs lazy_loaded_def)
  show "\<exists>w'. tb_set (lazy_table_impl C exchange t) k v w = (w', Ok ()) \<and> lazy_loaded t w' \<and>
      lazy_content t w' = (lazy_content t w)(k \<mapsto> v)"
    using lazy_set_loaded [OF w] by (simp add: lazy_table_impl_def)
  show "\<exists>w' r. tb_del (lazy_table_impl C exchange t) k w = (w', r) \<and> lazy_loaded t w' \<and>
      lazy_content t w' = (lazy_content t w)(k := None)"
    using lazy_del_loaded [OF w] by (fastforce simp: lazy_table_impl_def)
  show "\<exists>w'. tb_clear (lazy_table_impl C exchange t) w = (w', Ok ()) \<and> lazy_loaded t w' \<and> lazy_content t w' = Map.empty"
    using w lazy_put_loaded [OF w map_ok_Nil] by (auto simp: lazy_table_impl_def lazy_op_defs lazy_loaded_def)
  show "snd (tb_del (lazy_table_impl C exchange t) k w) = value_or_nil C (lazy_content t w k)"
    using lazy_del_loaded [OF w, of C k] by (auto simp: lazy_table_impl_def)
qed

text \<open>The tables of the backend are loaded: \<open>LazyBackend::new_table\<close> builds them from values.\<close>

lemma lazy_collect_loaded:
  assumes "lazy_ok w" and "map_ok w m" and "\<forall>i\<in>snd ` set m. cell_value w i \<noteq> None"
    and "lazy_collect (map (\<lambda>(k, v). (k, lazy_eager v)) es) m w = (w', m')"
  shows "\<forall>i\<in>snd ` set m'. cell_value w' i \<noteq> None"
  using assms
proof (induction es arbitrary: m w)
  case (Cons kv es)
  obtain k v where kv: "kv = (k, v)" by (cases kv)
  let ?w = "w\<lparr>lz_cells := lz_cells w @ [lazy_eager v]\<rparr>" and ?i = "length (lz_cells w)"
  note a = lazy_alloc_ok [where c = "lazy_eager v", OF Cons.prems(1)]
  have ok: "map_ok ?w (AList.update k ?i m)"
    using map_ok_le [OF Cons.prems(2) conjunct2 [OF a]] by (rule map_ok_update) simp
  have "cell_value ?w ?i = Some v" by (simp add: cell_value_def lazy_eager_def)
  moreover have "cell_value ?w i = cell_value w i" if "i \<in> snd ` set m" for i
    using that Cons.prems(2) by (auto simp: cell_value_def nth_append map_ok_def)
  ultimately have each: "cell_value ?w i \<noteq> None" if "i \<in> insert ?i (snd ` set m)" for i
    using that Cons.prems(3) by (metis insertE option.simps(3))
  then have "\<forall>i\<in>snd ` set (AList.update k ?i m). cell_value ?w i \<noteq> None"
    using snd_set_update [of k ?i m] by blast
  then show ?case using Cons.IH [OF conjunct1 [OF a] ok] Cons.prems(4) kv by (simp add: lazy_alloc_def)
qed simp

lemma lazy_with_entries_loaded:
  assumes "lazy_ok w" and "lazy_with_entries es w = (w', t)"
  shows "lazy_loaded t w'"
proof -
  obtain w1 m where c: "lazy_collect (map (\<lambda>(k, v). (k, lazy_eager v)) es) [] w = (w1, m)"
    by (cases "lazy_collect (map (\<lambda>(k, v). (k, lazy_eager v)) es) [] w")
  have "lazy_ok w1 \<and> map_ok w1 m" using lazy_collect_ok [OF assms(1) map_ok_Nil c] by simp
  then have "lazy_ok w'" and w': "w' = fst (lazy_table_of m w1)" "t = length (lz_tables w1)"
    using assms(2) c lazy_table_of_ok [of w1 m] by (auto simp: lazy_with_entries_def lazy_table_of_def)
  moreover have "\<forall>i\<in>snd ` set m. cell_value w1 i \<noteq> None"
    using lazy_collect_loaded [OF assms(1) map_ok_Nil _ c] by simp
  ultimately show ?thesis by (simp add: lazy_loaded_def lazy_table_of_def cell_value_def)
qed

end
