(* ===== verification/Table_Mount.thy ===== *)
theory Table_Mount
  imports Table_Db
begin

text \<open>
  The mounted namespace, \<open>crates/sim-table-mount/src\<close>: \<open>mount_dir.rs\<close>, \<open>routing.rs\<close>, \<open>ops.rs\<close> and
  \<open>capabilities.rs\<close>. A \<open>MountedDir\<close> is a root value, the index of a registry shared with the handles made
  from it, and a path. The world is that of the backends and the registries. How a value is seen as a
  table or a directory, the factory call that wraps a handle and its downcast, and the parser of
  absolute paths belong to the kernel and \<open>sim_table_core\<close>: members of \<open>mount_cx\<close>; the views act on the
  backends' world, so a namespace mounted in another is not expressed. A \<open>TablePath\<close> is its segments. No
  panic can happen while the registry's mutex is held, so it is never poisoned.
\<close>

section \<open>Types\<close>

datatype mount_kind = TableMount | DirMount

record 'v mount_target =
  mt_kind :: mount_kind
  mt_value :: 'v

record mount_inspection =
  mi_path :: string
  mi_kind :: mount_kind

type_synonym mount_path = "string list"
type_synonym 'v mount_registry = "(mount_path, 'v mount_target) btree_map"

record 'v mounted_dir =
  md_root :: 'v
  md_registry :: nat
  md_path :: mount_path

datatype 'v resolved_node = Backed 'v | Virtual

record ('w, 'v) mount_world =
  mw_base :: 'w
  mw_registries :: "'v mount_registry list"

record ('w, 'v) mount_cx =
  mc_cx :: "'v cx"
  mc_table :: "'v \<Rightarrow> ('w, 'v) table option"
  mc_dir :: "'v \<Rightarrow> ('w, 'v) dir option"
  mc_opaque :: "'v mounted_dir \<Rightarrow> (table_error, 'v) res"
  mc_namespace :: "'v \<Rightarrow> 'v mounted_dir option"
  mc_parse_absolute :: "string \<Rightarrow> mount_path option"

definition table_mount_capability :: string where
  "table_mount_capability = ''table.mount''"

fun mount_label :: "mount_kind \<Rightarrow> string" where
  "mount_label TableMount = ''table''"
| "mount_label DirMount = ''dir''"

section \<open>Routing\<close>

definition require_table_value :: "('w, 'v) mount_cx \<Rightarrow> 'v \<Rightarrow> string \<Rightarrow> (table_error, ('w, 'v) table) res" where
  "require_table_value M v message = ok_or (mc_table M v) (Eval message)"

definition require_dir_value :: "('w, 'v) mount_cx \<Rightarrow> 'v \<Rightarrow> string \<Rightarrow> (table_error, ('w, 'v) dir) res" where
  "require_dir_value M v message = ok_or (mc_dir M v) (Eval message)"

definition check_segment :: "('w, 'v) mount_cx \<Rightarrow> symbol \<Rightarrow> (table_error, unit) res" where
  "check_segment M name =
     (if legal_segment (mc_cx M) (sym_name name) then Ok () else Err (Eval ''table/mount: illegal path segment''))"

definition mount_prefix :: "mount_path \<Rightarrow> mount_path \<Rightarrow> bool" where
  "mount_prefix p q \<longleftrightarrow> length p \<le> length q \<and> list_all (\<lambda>(l, r). l = r) (zip q p)"

fun join_with :: "string \<Rightarrow> string list \<Rightarrow> string" where
  "join_with sep [] = []"
| "join_with sep [s] = s"
| "join_with sep (s # t # ss) = s @ sep @ join_with sep (t # ss)"

definition format_path :: "mount_path \<Rightarrow> string" where
  "format_path p = (if p = [] then ''/'' else ''/'' @ join_with ''/'' p)"

definition join_child :: "mount_path \<Rightarrow> symbol \<Rightarrow> string" where
  "join_child p name = format_path (p @ [sym_name name])"

text \<open>An operation of a backend, in the whole world.\<close>

definition on_base :: "('w, table_error, 'a) op \<Rightarrow> (('w, 'v) mount_world, table_error, 'a) op" where
  "on_base m w = (let (b, r) = m (mw_base w) in (w\<lparr>mw_base := b\<rparr>, r))"

fun traverse_dir_path ::
    "('w, 'v) mount_cx \<Rightarrow> 'v \<Rightarrow> mount_path \<Rightarrow> (('w, 'v) mount_world, table_error, 'v option) op" where
  "traverse_dir_path M current [] = op_return (Some current)"
| "traverse_dir_path M current (segment # path) =
     op_bind (op_res (require_dir_value M current ''table/mount: path component is not a Dir'')) (\<lambda>dir.
     op_bind (on_base (dr_opendir dir (sym_new segment))) (\<lambda>opened.
       case opened of None \<Rightarrow> op_return None | Some child \<Rightarrow> traverse_dir_path M child path))"

text \<open>\<open>max_by_key\<close> keeps the last of the longest.\<close>

definition longer_mount ::
    "(nat \<times> 'v mount_target) option \<Rightarrow> mount_path \<times> 'v mount_target \<Rightarrow> (nat \<times> 'v mount_target) option" where
  "longer_mount best m =
     (case best of Some (n, t) \<Rightarrow> if n \<le> length (fst m) then Some (length (fst m), snd m) else Some (n, t)
      | None \<Rightarrow> Some (length (fst m), snd m))"

definition longest_mount :: "'v mount_registry \<Rightarrow> mount_path \<Rightarrow> (nat \<times> 'v mount_target) option" where
  "longest_mount mounts path = foldl longer_mount None (filter (\<lambda>m. mount_prefix (fst m) path) mounts)"

definition has_mount_descendant :: "'v mount_registry \<Rightarrow> mount_path \<Rightarrow> bool" where
  "has_mount_descendant mounts path \<longleftrightarrow> list_ex (\<lambda>p. length p > length path \<and> mount_prefix path p) (bkeys mounts)"

definition resolve_mounted_target ::
    "('w, 'v) mount_cx \<Rightarrow> 'v mount_target \<Rightarrow> mount_path \<Rightarrow> (('w, 'v) mount_world, table_error, 'v resolved_node) op" where
  "resolve_mounted_target M target suffix =
     (case mt_kind target of
        TableMount \<Rightarrow> if suffix = [] then op_return (Backed (mt_value target))
                      else op_fail (Eval ''table/mount: cannot traverse below a table mount'')
      | DirMount \<Rightarrow> op_bind (traverse_dir_path M (mt_value target) suffix) (\<lambda>found.
          op_res (ok_or (map_option Backed found) (Eval ''table/mount: mounted directory path is missing''))))"

section \<open>The registry\<close>

definition lock_mounts :: "'v mounted_dir \<Rightarrow> (('w, 'v) mount_world, table_error, 'v mount_registry) op" where
  "lock_mounts d = op_read (\<lambda>w. Ok (mw_registries w ! md_registry d))"

definition put_mounts :: "'v mounted_dir \<Rightarrow> 'v mount_registry \<Rightarrow> (('w, 'v) mount_world, table_error, unit) op" where
  "put_mounts d mounts w = (w\<lparr>mw_registries := (mw_registries w)[md_registry d := mounts]\<rparr>, Ok ())"

definition mount_new :: "('w, 'v) mount_cx \<Rightarrow> 'v \<Rightarrow> (('w, 'v) mount_world, table_error, 'v mounted_dir) op" where
  "mount_new M root = op_bind (op_res (require_dir_value M root ''table/mount: root must be a Dir'')) (\<lambda>_ w.
     (w\<lparr>mw_registries := mw_registries w @ [[]]\<rparr>,
      Ok \<lparr>md_root = root, md_registry = length (mw_registries w), md_path = []\<rparr>))"

definition at_path :: "'v mounted_dir \<Rightarrow> mount_path \<Rightarrow> 'v mounted_dir" where
  "at_path d path = d\<lparr>md_path := path\<rparr>"

definition root_exact_kind ::
    "('w, 'v) mount_cx \<Rightarrow> 'v mounted_dir \<Rightarrow> mount_path \<Rightarrow> (('w, 'v) mount_world, table_error, mount_kind option) op" where
  "root_exact_kind M d path =
     (if path = [] then op_return (Some DirMount)
      else op_bind (traverse_dir_path M (md_root d) (butlast path)) (\<lambda>found.
        case found of None \<Rightarrow> op_return None
        | Some parent \<Rightarrow>
            op_bind (op_res (require_dir_value M parent ''table/mount: root path parent is not a Dir'')) (\<lambda>dir.
            op_bind (op_res (require_table_value M parent ''table/mount: root path parent is not a Table'')) (\<lambda>table.
            op_bind (on_base (dr_is_dir dir (sym_new (last path)))) (\<lambda>is_dir.
              if is_dir then op_return (Some DirMount)
              else op_bind (on_base (tb_has table (sym_new (last path)))) (\<lambda>has.
                op_return (if has then Some TableMount else None)))))))"

fun mount_conflict :: "mount_path \<Rightarrow> mount_kind \<Rightarrow> 'v mount_registry \<Rightarrow> (table_error, unit) res" where
  "mount_conflict path kind [] = Ok ()"
| "mount_conflict path kind ((p, existing) # mounts) =
     (if mount_prefix p path \<and> mt_kind existing = TableMount \<and> length p < length path
      then Err (Eval ''table/mount: cannot mount below table leaf'')
      else if mount_prefix path p \<and> kind = TableMount
      then Err (Eval ''table/mount: table mount would parent existing mount'')
      else mount_conflict path kind mounts)"

definition insert_mount ::
    "('w, 'v) mount_cx \<Rightarrow> 'v mounted_dir \<Rightarrow> mount_path \<Rightarrow> mount_kind \<Rightarrow> 'v \<Rightarrow> (('w, 'v) mount_world, table_error, unit) op" where
  "insert_mount M d path kind target =
     (if path = [] then op_fail (Eval ''table/mount: cannot mount root'')
      else op_bind (root_exact_kind M d path) (\<lambda>exact.
        if exact \<noteq> None then op_fail (Eval ''table/mount: mount point shadows an existing root node'')
        else op_bind (lock_mounts d) (\<lambda>mounts.
          if bcontains mounts path then op_fail (Eval ''table/mount: duplicate mount point'')
          else op_bind (op_res (mount_conflict path kind mounts)) (\<lambda>_.
            put_mounts d (binsert path \<lparr>mt_kind = kind, mt_value = target\<rparr> mounts)))))"

definition mount_dir ::
    "('w, 'v) mount_cx \<Rightarrow> 'v mounted_dir \<Rightarrow> mount_path \<Rightarrow> 'v \<Rightarrow> (('w, 'v) mount_world, table_error, unit) op" where
  "mount_dir M d path target =
     op_bind (op_res (cx_require (mc_cx M) table_mount_capability)) (\<lambda>_.
     op_bind (op_res (require_dir_value M target ''table/mount: Dir mount target must be a Dir'')) (\<lambda>_.
       insert_mount M d path DirMount target))"

definition mount_table ::
    "('w, 'v) mount_cx \<Rightarrow> 'v mounted_dir \<Rightarrow> mount_path \<Rightarrow> 'v \<Rightarrow> (('w, 'v) mount_world, table_error, unit) op" where
  "mount_table M d path target =
     op_bind (op_res (cx_require (mc_cx M) table_mount_capability)) (\<lambda>_.
     op_bind (op_res (require_table_value M target ''table/mount: table mount target must be a Table'')) (\<lambda>_.
       insert_mount M d path TableMount target))"

definition mount_remove ::
    "('w, 'v) mount_cx \<Rightarrow> 'v mounted_dir \<Rightarrow> mount_path \<Rightarrow> (('w, 'v) mount_world, table_error, 'v option) op" where
  "mount_remove M d path =
     op_bind (op_res (cx_require (mc_cx M) table_mount_capability)) (\<lambda>_.
       if path = [] then op_fail (Eval ''table/mount: cannot unmount root'')
       else op_bind (lock_mounts d) (\<lambda>mounts.
         op_bind (put_mounts d (bremove path mounts)) (\<lambda>_. op_return (map_option mt_value (bget mounts path)))))"

definition mount_inspect :: "'v mounted_dir \<Rightarrow> (('w, 'v) mount_world, table_error, mount_inspection list) op" where
  "mount_inspect d = op_bind (lock_mounts d) (\<lambda>mounts.
     op_return (map (\<lambda>(p, t). \<lparr>mi_path = format_path p, mi_kind = mt_kind t\<rparr>) mounts))"

section \<open>Looking up a node\<close>

definition resolve_current ::
    "('w, 'v) mount_cx \<Rightarrow> 'v mounted_dir \<Rightarrow> (('w, 'v) mount_world, table_error, 'v resolved_node) op" where
  "resolve_current M d = op_bind (lock_mounts d) (\<lambda>mounts.
     case longest_mount mounts (md_path d) of
       Some (prefix_len, target) \<Rightarrow> resolve_mounted_target M target (drop prefix_len (md_path d))
     | None \<Rightarrow> op_bind (traverse_dir_path M (md_root d) (md_path d)) (\<lambda>found.
         case found of
           Some v \<Rightarrow> op_return (Backed v)
         | None \<Rightarrow> if has_mount_descendant mounts (md_path d) then op_return Virtual
                   else op_fail (Eval ''table/mount: no backing directory'')))"

definition mount_child :: "mount_path \<Rightarrow> (symbol, mount_kind) btree_map \<Rightarrow> mount_path \<times> 'v mount_target \<Rightarrow>
    (symbol, mount_kind) btree_map" where
  "mount_child own children m =
     (if length (fst m) \<le> length own \<or> \<not> mount_prefix own (fst m) then children
      else bor_insert (sym_new (fst m ! length own))
             (if length (fst m) = length own + 1 then mt_kind (snd m) else DirMount) children)"

definition direct_mount_children ::
    "'v mounted_dir \<Rightarrow> (('w, 'v) mount_world, table_error, (symbol, mount_kind) btree_map) op" where
  "direct_mount_children d = op_bind (lock_mounts d) (\<lambda>mounts.
     op_return (foldl (mount_child (md_path d)) [] mounts))"

definition child_has_mount :: "'v mounted_dir \<Rightarrow> symbol \<Rightarrow> (('w, 'v) mount_world, table_error, bool) op" where
  "child_has_mount d name = op_bind (lock_mounts d) (\<lambda>mounts.
     op_return (list_ex (mount_prefix (md_path d @ [sym_name name])) (bkeys mounts)))"

definition direct_mount_value ::
    "'v mounted_dir \<Rightarrow> symbol \<Rightarrow> (('w, 'v) mount_world, table_error, 'v mount_target option) op" where
  "direct_mount_value d name = op_bind (lock_mounts d) (\<lambda>mounts.
     op_return (bget mounts (md_path d @ [sym_name name])))"

definition check_no_mount_child :: "'v mounted_dir \<Rightarrow> symbol \<Rightarrow> (('w, 'v) mount_world, table_error, unit) op" where
  "check_no_mount_child d name = op_bind (child_has_mount d name) (\<lambda>mounted.
     if mounted then op_fail (Eval ''table/mount: cannot change a name while a mount exists there'') else op_return ())"

definition backed_table ::
    "('w, 'v) mount_cx \<Rightarrow> 'v resolved_node \<Rightarrow> (table_error, ('w, 'v) table option) res" where
  "backed_table M node =
     (case node of
        Backed v \<Rightarrow> res_bind (require_table_value M v ''table/mount: backing node is not a Table'') (\<lambda>t. Ok (Some t))
      | Virtual \<Rightarrow> Ok None)"

text \<open>The backing table of the current node; every operation below starts from it.\<close>

definition mount_backing ::
    "('w, 'v) mount_cx \<Rightarrow> 'v mounted_dir \<Rightarrow> (('w, 'v) mount_world, table_error, ('w, 'v) table option) op" where
  "mount_backing M d = op_bind (resolve_current M d) (\<lambda>node. op_res (backed_table M node))"

section \<open>The namespace as a table\<close>

definition mount_get :: "('w, 'v) mount_cx \<Rightarrow> 'v mounted_dir \<Rightarrow> symbol \<Rightarrow> (('w, 'v) mount_world, table_error, 'v) op" where
  "mount_get M d key = op_bind (direct_mount_value d key) (\<lambda>direct.
     case direct of
       Some target \<Rightarrow> (case mt_kind target of TableMount \<Rightarrow> op_return (mt_value target) | DirMount \<Rightarrow> op_res (cx_nil (mc_cx M)))
     | None \<Rightarrow> op_bind (mount_backing M d) (\<lambda>backing.
         case backing of Some t \<Rightarrow> on_base (tb_get t key) | None \<Rightarrow> op_res (cx_nil (mc_cx M))))"

definition mount_set :: "('w, 'v) mount_cx \<Rightarrow> 'v mounted_dir \<Rightarrow> symbol \<Rightarrow> 'v \<Rightarrow> (('w, 'v) mount_world, table_error, unit) op" where
  "mount_set M d key v = op_bind (check_no_mount_child d key) (\<lambda>_.
     op_bind (mount_backing M d) (\<lambda>backing.
       case backing of Some t \<Rightarrow> on_base (tb_set t key v)
       | None \<Rightarrow> op_fail (Eval ''table/mount: no writable backing table'')))"

definition mount_has :: "('w, 'v) mount_cx \<Rightarrow> 'v mounted_dir \<Rightarrow> symbol \<Rightarrow> (('w, 'v) mount_world, table_error, bool) op" where
  "mount_has M d key = op_bind (child_has_mount d key) (\<lambda>mounted.
     if mounted then op_return True
     else op_bind (mount_backing M d) (\<lambda>backing.
       case backing of Some t \<Rightarrow> on_base (tb_has t key) | None \<Rightarrow> op_return False))"

definition mount_del :: "('w, 'v) mount_cx \<Rightarrow> 'v mounted_dir \<Rightarrow> symbol \<Rightarrow> (('w, 'v) mount_world, table_error, 'v) op" where
  "mount_del M d key = op_bind (check_no_mount_child d key) (\<lambda>_.
     op_bind (mount_backing M d) (\<lambda>backing.
       case backing of Some t \<Rightarrow> on_base (tb_del t key) | None \<Rightarrow> op_res (cx_nil (mc_cx M))))"

definition mount_compare_exchange ::
    "('w, 'v) mount_cx \<Rightarrow> 'v mounted_dir \<Rightarrow> symbol \<Rightarrow> table_expected \<Rightarrow> 'v table_replacement \<Rightarrow>
     (('w, 'v) mount_world, table_error, table_exchange) op" where
  "mount_compare_exchange M d key expected replacement = op_bind (check_no_mount_child d key) (\<lambda>_.
     op_bind (mount_backing M d) (\<lambda>backing.
       case backing of Some t \<Rightarrow> on_base (tb_compare_exchange t key expected replacement)
       | None \<Rightarrow> op_fail (Eval ''table/mount: no writable backing table'')))"

definition mount_keys :: "('w, 'v) mount_cx \<Rightarrow> 'v mounted_dir \<Rightarrow> (('w, 'v) mount_world, table_error, symbol list) op" where
  "mount_keys M d = op_bind (mount_backing M d) (\<lambda>backing.
     op_bind (case backing of Some t \<Rightarrow> on_base (tb_keys t) | None \<Rightarrow> op_return []) (\<lambda>keys.
     op_bind (direct_mount_children d) (\<lambda>children.
       op_return (scollect (keys @ bkeys children)))))"

fun backing_entries ::
    "(symbol, mount_kind) btree_map \<Rightarrow> (symbol \<times> 'v) list \<Rightarrow> (table_error, (symbol \<times> 'v) list) res" where
  "backing_entries children [] = Ok []"
| "backing_entries children ((key, v) # es) =
     (if bcontains children key then Err (Eval ''table/mount: backing entry conflicts with a mount'')
      else res_bind (backing_entries children es) (\<lambda>out. Ok ((key, v) # out)))"

fun mount_entries_of ::
    "'v mounted_dir \<Rightarrow> symbol list \<Rightarrow> (symbol, mount_kind) btree_map \<Rightarrow>
     (('w, 'v) mount_world, table_error, (symbol \<times> 'v) list) op" where
  "mount_entries_of d seen [] = op_return []"
| "mount_entries_of d seen ((key, kind) # children) =
     (if kind = TableMount \<and> key \<notin> set seen then
        op_bind (direct_mount_value d key) (\<lambda>direct.
        op_bind (op_res (opt_expect direct ''mount child collected from registry'')) (\<lambda>target.
        op_bind (mount_entries_of d (key # seen) children) (\<lambda>out. op_return ((key, mt_value target) # out))))
      else mount_entries_of d seen children)"

definition mount_entries ::
    "('w, 'v) mount_cx \<Rightarrow> 'v mounted_dir \<Rightarrow> (('w, 'v) mount_world, table_error, (symbol \<times> 'v) list) op" where
  "mount_entries M d = op_bind (direct_mount_children d) (\<lambda>children.
     op_bind (mount_backing M d) (\<lambda>backing.
     op_bind (case backing of Some t \<Rightarrow> op_bind (on_base (tb_entries t)) (\<lambda>es. op_res (backing_entries children es))
              | None \<Rightarrow> op_return []) (\<lambda>out.
     op_bind (mount_entries_of d (map fst out) children) (\<lambda>mounted. op_return (out @ mounted)))))"

definition mount_len :: "('w, 'v) mount_cx \<Rightarrow> 'v mounted_dir \<Rightarrow> (('w, 'v) mount_world, table_error, nat) op" where
  "mount_len M d = op_bind (mount_entries M d) (\<lambda>es. op_return (length es))"

definition mount_clear :: "('w, 'v) mount_cx \<Rightarrow> 'v mounted_dir \<Rightarrow> (('w, 'v) mount_world, table_error, unit) op" where
  "mount_clear M d = op_bind (direct_mount_children d) (\<lambda>children.
     if children \<noteq> [] then op_fail (Eval ''table/mount: cannot clear while a mount child exists'')
     else op_bind (mount_backing M d) (\<lambda>backing.
       case backing of Some t \<Rightarrow> on_base (tb_clear t) | None \<Rightarrow> op_return ()))"

definition mount_table_impl :: "('w, 'v) mount_cx \<Rightarrow> 'v mounted_dir \<Rightarrow> (('w, 'v) mount_world, 'v) table" where
  "mount_table_impl M d =
     \<lparr>tb_get = mount_get M d, tb_set = mount_set M d, tb_has = mount_has M d, tb_del = mount_del M d,
      tb_keys = mount_keys M d, tb_entries = mount_entries M d, tb_len = mount_len M d, tb_clear = mount_clear M d,
      tb_compare_exchange = mount_compare_exchange M d\<rparr>"

section \<open>The namespace as a directory\<close>

definition mount_mkdir :: "('w, 'v) mount_cx \<Rightarrow> 'v mounted_dir \<Rightarrow> symbol \<Rightarrow> (('w, 'v) mount_world, table_error, 'v) op" where
  "mount_mkdir M d name = op_bind (op_res (check_segment M name)) (\<lambda>_.
     op_bind (check_no_mount_child d name) (\<lambda>_.
     op_bind (resolve_current M d) (\<lambda>node.
       case node of
         Virtual \<Rightarrow> op_fail (Eval ''table/mount: no backing directory'')
       | Backed v \<Rightarrow> op_bind (op_res (require_dir_value M v ''table/mount: backing node is not a Dir'')) (\<lambda>dir.
           on_base (dr_mkdir dir name)))))"

definition open_child :: "('w, 'v) mount_cx \<Rightarrow> 'v mounted_dir \<Rightarrow> symbol \<Rightarrow> (table_error, 'v option) res" where
  "open_child M d name = res_bind (mc_opaque M (at_path d (md_path d @ [sym_name name]))) (\<lambda>v. Ok (Some v))"

definition mount_opendir ::
    "('w, 'v) mount_cx \<Rightarrow> 'v mounted_dir \<Rightarrow> symbol \<Rightarrow> (('w, 'v) mount_world, table_error, 'v option) op" where
  "mount_opendir M d name = op_bind (op_res (check_segment M name)) (\<lambda>_.
     op_bind (direct_mount_value d name) (\<lambda>direct.
     case direct of
       Some target \<Rightarrow> (case mt_kind target of DirMount \<Rightarrow> op_res (open_child M d name)
                       | TableMount \<Rightarrow> op_fail (Eval ''table/mount: a table mount, not a directory''))
     | None \<Rightarrow> op_bind (child_has_mount d name) (\<lambda>mounted.
         if mounted then op_res (open_child M d name)
         else op_bind (resolve_current M d) (\<lambda>node.
           case node of
             Virtual \<Rightarrow> op_return None
           | Backed v \<Rightarrow> op_bind (op_res (require_dir_value M v ''table/mount: backing node is not a Dir'')) (\<lambda>dir.
               op_bind (on_base (dr_opendir dir name)) (\<lambda>opened.
                 if opened \<noteq> None then op_res (open_child M d name) else op_return None))))))"

definition mount_rmdir :: "('w, 'v) mount_cx \<Rightarrow> 'v mounted_dir \<Rightarrow> symbol \<Rightarrow> (('w, 'v) mount_world, table_error, 'v) op" where
  "mount_rmdir M d name = op_bind (op_res (check_segment M name)) (\<lambda>_.
     op_bind (check_no_mount_child d name) (\<lambda>_.
     op_bind (resolve_current M d) (\<lambda>node.
       case node of
         Virtual \<Rightarrow> op_res (cx_nil (mc_cx M))
       | Backed v \<Rightarrow> op_bind (op_res (require_dir_value M v ''table/mount: backing node is not a Dir'')) (\<lambda>dir.
           on_base (dr_rmdir dir name)))))"

definition mount_is_dir :: "('w, 'v) mount_cx \<Rightarrow> 'v mounted_dir \<Rightarrow> symbol \<Rightarrow> (('w, 'v) mount_world, table_error, bool) op" where
  "mount_is_dir M d name = op_bind (op_res (check_segment M name)) (\<lambda>_.
     op_bind (direct_mount_value d name) (\<lambda>direct.
     case direct of
       Some target \<Rightarrow> op_return (mt_kind target = DirMount)
     | None \<Rightarrow> op_bind (child_has_mount d name) (\<lambda>mounted.
         if mounted then op_return True
         else op_bind (resolve_current M d) (\<lambda>node.
           case node of
             Virtual \<Rightarrow> op_return False
           | Backed v \<Rightarrow> op_bind (op_res (require_dir_value M v ''table/mount: backing node is not a Dir'')) (\<lambda>dir.
               on_base (dr_is_dir dir name))))))"

definition mount_dir_impl :: "('w, 'v) mount_cx \<Rightarrow> 'v mounted_dir \<Rightarrow> (('w, 'v) mount_world, 'v) dir" where
  "mount_dir_impl M d =
     \<lparr>dr_mkdir = mount_mkdir M d, dr_opendir = mount_opendir M d, dr_rmdir = mount_rmdir M d, dr_is_dir = mount_is_dir M d\<rparr>"

section \<open>The exported functions\<close>

definition inspection_expr :: "mount_inspection list \<Rightarrow> expr" where
  "inspection_expr rows = EList (map (\<lambda>row. EMap
     [(ESymbol (sym_new ''path''), EString (mi_path row)),
      (ESymbol (sym_new ''kind''), ESymbol (sym_qualified ''table/mount'' (mount_label (mi_kind row))))]) rows)"

definition namespace_ref :: "('w, 'v) mount_cx \<Rightarrow> 'v \<Rightarrow> (table_error, 'v mounted_dir) res" where
  "namespace_ref M v = ok_or (mc_namespace M v) (Eval ''table/mount: expected MountedDir namespace'')"

definition path_arg :: "('w, 'v) mount_cx \<Rightarrow> 'v \<Rightarrow> (table_error, mount_path) res" where
  "path_arg M v = res_bind (as_expr (mc_cx M) v) (\<lambda>e.
     res_bind (case e of EString text \<Rightarrow> Ok text | ESymbol s \<Rightarrow> Ok (qualified_str s)
               | _ \<Rightarrow> Err (Eval ''table/mount: path argument must be a string or symbol'')) (\<lambda>text.
       ok_or (mc_parse_absolute M text) (Eval ''table/mount: invalid mount path'')))"

text \<open>One function per exported symbol; any other number of arguments is an error.\<close>

definition mount_function ::
    "('w, 'v) mount_cx \<Rightarrow> string \<Rightarrow> 'v list \<Rightarrow> (('w, 'v) mount_world, table_error, 'v) op" where
  "mount_function M f args =
     (if f = ''table/mount/create'' then
        op_bind (op_res (cx_require (mc_cx M) table_mount_capability)) (\<lambda>_.
        case args of
          [root] \<Rightarrow> op_bind (mount_new M root) (\<lambda>d. op_res (mc_opaque M d))
        | _ \<Rightarrow> op_fail (Eval ''expects 1 argument(s)''))
      else if f = ''table/mount/dir'' then
        (case args of
           [namespace, path, target] \<Rightarrow>
             op_bind (op_res (namespace_ref M namespace)) (\<lambda>d.
             op_bind (op_res (path_arg M path)) (\<lambda>p.
             op_bind (mount_dir M d p target) (\<lambda>_. op_return namespace)))
         | _ \<Rightarrow> op_fail (Eval ''expects 3 argument(s)''))
      else if f = ''table/mount/table'' then
        (case args of
           [namespace, path, target] \<Rightarrow>
             op_bind (op_res (namespace_ref M namespace)) (\<lambda>d.
             op_bind (op_res (path_arg M path)) (\<lambda>p.
             op_bind (mount_table M d p target) (\<lambda>_. op_return namespace)))
         | _ \<Rightarrow> op_fail (Eval ''expects 3 argument(s)''))
      else if f = ''table/mount/unmount'' then
        (case args of
           [namespace, path] \<Rightarrow>
             op_bind (op_res (namespace_ref M namespace)) (\<lambda>d.
             op_bind (op_res (path_arg M path)) (\<lambda>p.
             op_bind (mount_remove M d p) (\<lambda>removed.
               op_res (case removed of Some v \<Rightarrow> Ok v | None \<Rightarrow> cx_nil (mc_cx M)))))
         | _ \<Rightarrow> op_fail (Eval ''expects 2 argument(s)''))
      else if f = ''table/mount/inspect'' then
        (case args of
           [namespace] \<Rightarrow>
             op_bind (op_res (namespace_ref M namespace)) (\<lambda>d.
             op_bind (mount_inspect d) (\<lambda>rows. op_res (cx_expr (mc_cx M) (inspection_expr rows))))
         | _ \<Rightarrow> op_fail (Eval ''expects 1 argument(s)''))
      else op_fail (Eval ''table/mount: unknown function''))"

section \<open>Routing finds the longest mount\<close>

lemma mount_prefix_iff: "mount_prefix p q \<longleftrightarrow> (\<exists>s. q = p @ s)"
proof -
  have zip_all: "length p \<le> length q \<Longrightarrow> list_all (\<lambda>(l, r). l = r) (zip q p) \<longleftrightarrow> take (length p) q = p"
  proof (induction p arbitrary: q)
    case (Cons x p)
    then show ?case by (cases q) auto
  qed simp
  show ?thesis
  proof
    assume "mount_prefix p q"
    then have "q = p @ drop (length p) q"
      using zip_all by (metis append_take_drop_id mount_prefix_def)
    then show "\<exists>s. q = p @ s" by blast
  next
    assume "\<exists>s. q = p @ s"
    then show "mount_prefix p q" using zip_all by (auto simp: mount_prefix_def)
  qed
qed

lemma mount_prefix_take: "mount_prefix p q \<longleftrightarrow> length p \<le> length q \<and> take (length p) q = p"
  unfolding mount_prefix_iff by (metis append_eq_conv_conj append_take_drop_id length_append le_add1)

lemma mount_prefix_refl [simp]: "mount_prefix p p"
  by (simp add: mount_prefix_iff)

lemma mount_prefix_trans: "mount_prefix p q \<Longrightarrow> mount_prefix q r \<Longrightarrow> mount_prefix p r"
  by (auto simp: mount_prefix_iff)

lemma mount_prefix_same_length: "mount_prefix p r \<Longrightarrow> mount_prefix q r \<Longrightarrow> length p = length q \<Longrightarrow> p = q"
  by (auto simp: mount_prefix_iff)

text \<open>The reference: try the whole path, then ever shorter prefixes.\<close>

fun mount_route :: "'v mount_registry \<Rightarrow> mount_path \<Rightarrow> nat \<Rightarrow> (nat \<times> 'v mount_target) option" where
  "mount_route mounts path 0 = map_option (Pair 0) (bget mounts [])"
| "mount_route mounts path (Suc n) =
     (case bget mounts (take (Suc n) path) of Some t \<Rightarrow> Some (Suc n, t) | None \<Rightarrow> mount_route mounts path n)"

lemma mount_route_Some:
  "mount_route mounts path n = Some (k, t) \<longleftrightarrow>
     k \<le> n \<and> bget mounts (take k path) = Some t \<and> (\<forall>j. k < j \<and> j \<le> n \<longrightarrow> bget mounts (take j path) = None)"
proof (induction n)
  case 0
  then show ?case by auto
next
  case (Suc n)
  then show ?case by (auto simp: le_Suc_eq split: option.splits)
qed

lemma mount_route_None: "mount_route mounts path n = None \<longleftrightarrow> (\<forall>j\<le>n. bget mounts (take j path) = None)"
  by (induction n) (auto simp: le_Suc_eq split: option.splits)

lemma longer_mount_fold:
  "foldl longer_mount best ms =
     (case best of None \<Rightarrow> (if ms = [] then None else Some (foldl (\<lambda>(n, t) m. if n \<le> length (fst m) then (length (fst m), snd m) else (n, t))
                                                       (length (fst (hd ms)), snd (hd ms)) (tl ms)))
      | Some nt \<Rightarrow> Some (foldl (\<lambda>(n, t) m. if n \<le> length (fst m) then (length (fst m), snd m) else (n, t)) nt ms))"
proof -
  have some: "foldl longer_mount (Some nt) ms =
      Some (foldl (\<lambda>(n, t) m. if n \<le> length (fst m) then (length (fst m), snd m) else (n, t)) nt ms)" for nt and ms :: "(mount_path \<times> 'a mount_target) list"
    by (induction ms arbitrary: nt) (auto simp: longer_mount_def split: prod.split)
  show ?thesis
    using some by (cases best; cases ms) (auto simp: longer_mount_def)
qed

lemma longest_fold_spec:
  "foldl (\<lambda>(n, t) m. if n \<le> length (fst m) then (length (fst m), snd m) else (n, t)) (n, t) ms = (k, u) \<Longrightarrow>
     n \<le> k \<and> (\<forall>m\<in>set ms. length (fst m) \<le> k) \<and> ((k, u) = (n, t) \<or> (\<exists>m\<in>set ms. k = length (fst m) \<and> u = snd m))"
proof (induction ms arbitrary: n t)
  case (Cons m ms)
  show ?case
  proof (cases "n \<le> length (fst m)")
    case True
    then show ?thesis using Cons.IH [of "length (fst m)" "snd m"] Cons.prems by fastforce
  next
    case False
    then show ?thesis using Cons.IH [of n t] Cons.prems by fastforce
  qed
qed simp

lemma longest_mount_Some:
  assumes "longest_mount mounts path = Some (k, t)"
  shows "\<exists>p. (p, t) \<in> set mounts \<and> mount_prefix p path \<and> length p = k \<and>
    (\<forall>(q, u)\<in>set mounts. mount_prefix q path \<longrightarrow> length q \<le> k)"
proof -
  let ?ms = "filter (\<lambda>m. mount_prefix (fst m) path) mounts"
  obtain m ms where ms: "?ms = m # ms" using assms by (cases ?ms) (auto simp: longest_mount_def)
  have "foldl (\<lambda>(n, t) m. if n \<le> length (fst m) then (length (fst m), snd m) else (n, t)) (length (fst m), snd m) ms = (k, t)"
    using assms ms by (simp add: longest_mount_def longer_mount_fold longer_mount_def)
  from longest_fold_spec [OF this] have spec: "\<forall>m\<in>set ?ms. length (fst m) \<le> k"
      "\<exists>m\<in>set ?ms. k = length (fst m) \<and> t = snd m"
    using ms by auto
  then show ?thesis by auto
qed

lemma longest_mount_None: "longest_mount mounts path = None \<longleftrightarrow> (\<forall>(p, t)\<in>set mounts. \<not> mount_prefix p path)"
  by (auto simp: longest_mount_def longer_mount_fold filter_empty_conv split: if_splits)

text \<open>The longest-prefix search over the registry finds the mount that trying the whole path and then every
  shorter prefix finds first.\<close>

theorem longest_is_route:
  assumes "bsorted mounts"
  shows "longest_mount mounts path = mount_route mounts path (length path)"
proof (cases "longest_mount mounts path")
  case None
  have "bget mounts (take j path) = None" if "j \<le> length path" for j
  proof (rule ccontr)
    assume "bget mounts (take j path) \<noteq> None"
    then obtain t where "(take j path, t) \<in> set mounts" by (auto dest: bget_Some_mem)
    moreover have "mount_prefix (take j path) path" by (simp add: mount_prefix_take that)
    ultimately show False using None by (auto simp: longest_mount_None)
  qed
  then have "mount_route mounts path (length path) = None" by (simp add: mount_route_None)
  then show ?thesis using None by simp
next
  case (Some kt)
  obtain k t where kt: "kt = (k, t)" by (cases kt)
  then obtain p where p: "(p, t) \<in> set mounts" "mount_prefix p path" "length p = k"
      "\<forall>(q, u)\<in>set mounts. mount_prefix q path \<longrightarrow> length q \<le> k"
    using longest_mount_Some Some by blast
  then have "take k path = p" "k \<le> length path" by (auto simp: mount_prefix_take)
  moreover have "bget mounts p = Some t" using p(1) assms by (simp add: bget_mem)
  moreover have "bget mounts (take j path) = None" if "k < j" "j \<le> length path" for j
  proof (rule ccontr)
    assume "bget mounts (take j path) \<noteq> None"
    then obtain u where "(take j path, u) \<in> set mounts" by (auto dest: bget_Some_mem)
    moreover have "mount_prefix (take j path) path" by (simp add: mount_prefix_take that(2))
    ultimately show False using p(4) that by fastforce
  qed
  ultimately have "mount_route mounts path (length path) = Some (k, t)" by (simp add: mount_route_Some)
  then show ?thesis using Some kt by simp
qed

section \<open>The registries over every history\<close>

text \<open>Mount points are not the root, and nothing is mounted below a table.\<close>

definition mounts_ok :: "'v mount_registry \<Rightarrow> bool" where
  "mounts_ok mounts \<longleftrightarrow> bsorted mounts \<and> [] \<notin> set (bkeys mounts) \<and>
     (\<forall>(p, t)\<in>set mounts. \<forall>q\<in>set (bkeys mounts). mount_prefix p q \<and> p \<noteq> q \<longrightarrow> mt_kind t = DirMount)"

lemma lock_mounts_run: "op_bind (lock_mounts d) f w = f (mw_registries w ! md_registry d) w"
  by (simp add: lock_mounts_def op_bind_def op_simps)

definition keeps_registries :: "('w, 'v) mount_world \<Rightarrow> ('w, 'v) mount_world \<Rightarrow> bool" where
  "keeps_registries w w' \<longleftrightarrow> mw_registries w' = mw_registries w"

lemma keeps_registries_order: "reflp keeps_registries" "transp keeps_registries"
  by (auto simp: keeps_registries_def intro: reflpI transpI)

lemma on_base_keeps [intro]: "op_keeps keeps_registries (on_base m)"
  by (simp add: op_keeps_def keeps_registries_def on_base_def split: prod.split)

lemma lock_mounts_keeps: "op_keeps keeps_registries (lock_mounts d)"
  by (simp add: lock_mounts_def op_keeps_pure keeps_registries_order)

lemmas keeps_rules = op_keeps_bind [OF keeps_registries_order(2)] op_keeps_pure [OF keeps_registries_order(1)]
  on_base_keeps lock_mounts_keeps op_keeps_cases

lemma traverse_keeps: "op_keeps keeps_registries (traverse_dir_path M v path)"
  by (induction path arbitrary: v) (auto intro!: keeps_rules)

lemma root_exact_kind_keeps: "op_keeps keeps_registries (root_exact_kind M d path)"
  unfolding root_exact_kind_def by (auto intro!: keeps_rules traverse_keeps)

lemma resolve_current_keeps: "op_keeps keeps_registries (resolve_current M d)"
  unfolding resolve_current_def resolve_mounted_target_def
  by (auto intro!: keeps_rules traverse_keeps split: mount_kind.split)

lemma mount_backing_keeps: "op_keeps keeps_registries (mount_backing M d)"
  unfolding mount_backing_def by (intro keeps_rules resolve_current_keeps)

lemma check_keeps:
  "op_keeps keeps_registries (child_has_mount d k)" "op_keeps keeps_registries (direct_mount_value d k)"
  "op_keeps keeps_registries (direct_mount_children d)" "op_keeps keeps_registries (check_no_mount_child d k)"
  unfolding child_has_mount_def direct_mount_value_def direct_mount_children_def check_no_mount_child_def
  by (auto intro!: keeps_rules)

lemma resolved_keeps:
  "(\<And>v. op_keeps R (f v)) \<Longrightarrow> op_keeps R g \<Longrightarrow> op_keeps R (case node of Backed v \<Rightarrow> f v | Virtual \<Rightarrow> g)"
  "op_keeps R h \<Longrightarrow> op_keeps R g \<Longrightarrow> op_keeps R (case kind of TableMount \<Rightarrow> h | DirMount \<Rightarrow> g)"
  by (simp_all split: resolved_node.split mount_kind.split)

lemma mount_entries_of_keeps: "op_keeps keeps_registries (mount_entries_of d seen children)"
  by (induction d seen children rule: mount_entries_of.induct) (auto intro!: keeps_rules check_keeps)

lemmas mount_keeps_rules = keeps_rules check_keeps mount_backing_keeps resolve_current_keeps resolved_keeps mount_entries_of_keeps

text \<open>No operation of the table or of the directory touches a registry.\<close>

lemma mount_ops_keep:
  "op_keeps keeps_registries (mount_get M d k)" "op_keeps keeps_registries (mount_set M d k v)"
  "op_keeps keeps_registries (mount_has M d k)" "op_keeps keeps_registries (mount_del M d k)"
  "op_keeps keeps_registries (mount_compare_exchange M d k x y)" "op_keeps keeps_registries (mount_keys M d)"
  "op_keeps keeps_registries (mount_entries M d)" "op_keeps keeps_registries (mount_len M d)"
  "op_keeps keeps_registries (mount_clear M d)" "op_keeps keeps_registries (mount_mkdir M d k)"
  "op_keeps keeps_registries (mount_opendir M d k)" "op_keeps keeps_registries (mount_rmdir M d k)"
  "op_keeps keeps_registries (mount_is_dir M d k)"
  unfolding mount_get_def mount_set_def mount_has_def mount_del_def mount_compare_exchange_def mount_keys_def
    mount_entries_def mount_len_def mount_clear_def mount_mkdir_def mount_opendir_def mount_rmdir_def mount_is_dir_def
  by (auto intro!: mount_keeps_rules)

lemma mount_conflict_Ok:
  "mount_conflict path kind mounts = Ok () \<Longrightarrow> (p, t) \<in> set mounts \<Longrightarrow>
     (mount_prefix p path \<and> p \<noteq> path \<longrightarrow> mt_kind t = DirMount) \<and> (mount_prefix path p \<longrightarrow> kind = DirMount)"
proof (induction mounts)
  case (Cons m mounts)
  obtain q u where m: "m = (q, u)" by (cases m)
  have len: "length q < length path" if "mount_prefix q path" "q \<noteq> path"
    using that by (auto simp: mount_prefix_iff)
  show ?case using Cons.prems Cons.IH m len by (cases "mt_kind t"; cases kind) (auto split: if_splits)
qed simp

lemma mounts_ok_insert:
  assumes "mounts_ok mounts" and "path \<noteq> []" and "mount_conflict path kind mounts = Ok ()" and "\<not> bcontains mounts path"
  shows "mounts_ok (binsert path \<lparr>mt_kind = kind, mt_value = v\<rparr> mounts)"
proof -
  let ?m = "binsert path \<lparr>mt_kind = kind, mt_value = v\<rparr> mounts"
  have sorted: "bsorted mounts" "bsorted ?m" using assms(1) by (simp_all add: mounts_ok_def bsorted_binsert)
  have "mt_kind t = DirMount" if t: "(p, t) \<in> set ?m" and q: "q \<in> set (bkeys ?m)" "mount_prefix p q" "p \<noteq> q" for p t q
  proof (cases "p = path")
    case True
    then have "mt_kind t = kind" using t sorted(2) by (auto simp: bget_mem)
    moreover have "q \<in> set (bkeys mounts)" using q True by auto
    then obtain u where "(q, u) \<in> set mounts" by (auto simp: bkeys_def)
    ultimately show ?thesis using mount_conflict_Ok [OF assms(3)] q(2) True by auto
  next
    case False
    then have old: "(p, t) \<in> set mounts" using t sorted by (auto simp: bget_mem)
    show ?thesis
    proof (cases "q = path")
      case True
      then show ?thesis using mount_conflict_Ok [OF assms(3) old] q by auto
    next
      case False
      then show ?thesis using assms(1) old q by (fastforce simp: mounts_ok_def)
    qed
  qed
  then show ?thesis using sorted(2) assms(1,2) by (auto simp: mounts_ok_def)
qed

lemma mounts_ok_below:
  "mounts_ok mounts \<Longrightarrow> (p, t) \<in> set mounts \<Longrightarrow> q \<in> set (bkeys mounts) \<Longrightarrow> mount_prefix p q \<Longrightarrow> p \<noteq> q \<Longrightarrow> mt_kind t = DirMount"
  unfolding mounts_ok_def by blast

lemma mounts_ok_remove:
  assumes "mounts_ok mounts"
  shows "mounts_ok (bremove path mounts)"
proof -
  have sub: "set (bremove path mounts) \<subseteq> set mounts" "set (bkeys (bremove path mounts)) \<subseteq> set (bkeys mounts)"
    by (auto simp: bremove_def bkeys_def)
  have "bsorted (bremove path mounts)" "[] \<notin> set (bkeys mounts)" using assms by (simp_all add: mounts_ok_def bsorted_bremove)
  then show ?thesis using sub mounts_ok_below [OF assms] unfolding mounts_ok_def by blast
qed

lemma insert_mount_cases:
  assumes "insert_mount M d path kind v w = (w', r)"
  shows "(mw_registries w' = mw_registries w \<and> r \<noteq> Ok ()) \<or>
    (path \<noteq> [] \<and> r = Ok () \<and>
     (let mounts = mw_registries w ! md_registry d in
      mount_conflict path kind mounts = Ok () \<and> \<not> bcontains mounts path \<and>
      mw_registries w' = (mw_registries w)[md_registry d := binsert path \<lparr>mt_kind = kind, mt_value = v\<rparr> mounts]))"
proof -
  obtain w1 q where k: "root_exact_kind M d path w = (w1, q)" by (cases "root_exact_kind M d path w")
  then have w1: "mw_registries w1 = mw_registries w"
    using op_keepsD [OF root_exact_kind_keeps] by (simp add: keeps_registries_def)
  have bind: "op_bind (root_exact_kind M d path) f w =
      (case q of Ok x \<Rightarrow> f x w1 | Err e \<Rightarrow> (w1, Err e) | Panic p \<Rightarrow> (w1, Panic p))" for f
    using k by (simp add: op_bind_def)
  show ?thesis
  proof (cases "path \<noteq> [] \<and> q = Ok None")
    case False
    then show ?thesis using assms w1
      by (auto simp: insert_mount_def bind op_simps split: if_splits res.splits)
  next
    case True
    let ?mounts = "mw_registries w ! md_registry d"
    have run: "insert_mount M d path kind v w = (if bcontains ?mounts path then op_fail (Eval ''table/mount: duplicate mount point'')
          else op_bind (op_res (mount_conflict path kind ?mounts)) (\<lambda>_.
            put_mounts d (binsert path \<lparr>mt_kind = kind, mt_value = v\<rparr> ?mounts))) w1"
      using True w1 by (simp add: insert_mount_def bind lock_mounts_run)
    then show ?thesis
      using True w1 assms
      by (cases "mount_conflict path kind ?mounts") (auto simp: op_bind_def op_simps put_mounts_def Let_def split: if_splits)
  qed
qed

datatype 'v mount_call =
    CallNew 'v
  | CallMountDir "'v mounted_dir" mount_path 'v
  | CallMountTable "'v mounted_dir" mount_path 'v
  | CallUnmount "'v mounted_dir" mount_path
  | CallInspect "'v mounted_dir"
  | CallTable "'v mounted_dir" "'v call"
  | CallExchange "'v mounted_dir" symbol table_expected "'v table_replacement"
  | CallMkdir "'v mounted_dir" symbol
  | CallOpendir "'v mounted_dir" symbol
  | CallRmdir "'v mounted_dir" symbol
  | CallIsDir "'v mounted_dir" symbol

fun mount_exec :: "('w, 'v) mount_cx \<Rightarrow> 'v mount_call \<Rightarrow> ('w, 'v) mount_world \<Rightarrow> ('w, 'v) mount_world" where
  "mount_exec M (CallNew v) w = fst (mount_new M v w)"
| "mount_exec M (CallMountDir d p v) w = fst (mount_dir M d p v w)"
| "mount_exec M (CallMountTable d p v) w = fst (mount_table M d p v w)"
| "mount_exec M (CallUnmount d p) w = fst (mount_remove M d p w)"
| "mount_exec M (CallInspect d) w = fst (mount_inspect d w)"
| "mount_exec M (CallTable d c) w = fst (table_call (mount_table_impl M d) c w)"
| "mount_exec M (CallExchange d k x y) w = fst (mount_compare_exchange M d k x y w)"
| "mount_exec M (CallMkdir d k) w = fst (mount_mkdir M d k w)"
| "mount_exec M (CallOpendir d k) w = fst (mount_opendir M d k w)"
| "mount_exec M (CallRmdir d k) w = fst (mount_rmdir M d k w)"
| "mount_exec M (CallIsDir d k) w = fst (mount_is_dir M d k w)"

definition mount_history :: "('w, 'v) mount_cx \<Rightarrow> 'v mount_call list \<Rightarrow> ('w, 'v) mount_world \<Rightarrow> ('w, 'v) mount_world" where
  "mount_history M cs w = foldl (\<lambda>w c. mount_exec M c w) w cs"

text \<open>Registries stay well formed, and without the capability those that exist do not change.\<close>

definition registries_step :: "bool \<Rightarrow> 'v mount_registry list \<Rightarrow> 'v mount_registry list \<Rightarrow> bool" where
  "registries_step granted rs rs' \<longleftrightarrow>
     ((\<forall>m\<in>set rs. mounts_ok m) \<longrightarrow> (\<forall>m\<in>set rs'. mounts_ok m)) \<and>
     (granted \<or> (\<exists>new. rs' = rs @ new))"

lemma registries_step_refl: "registries_step g rs rs"
  by (simp add: registries_step_def)

lemma registries_step_trans: "registries_step g rs rs' \<Longrightarrow> registries_step g rs' rs'' \<Longrightarrow> registries_step g rs rs''"
  by (auto simp: registries_step_def)

lemma registries_update:
  assumes "i < length rs \<Longrightarrow> mounts_ok (rs ! i) \<Longrightarrow> mounts_ok m"
  shows "registries_step True rs (rs[i := m])"
proof (cases "i < length rs")
  case True
  then show ?thesis using assms set_update_subset_insert [of rs i m] by (auto simp: registries_step_def)
qed (simp add: registries_step_def list_update_beyond)

lemma insert_mount_step: "registries_step True (mw_registries w) (mw_registries (fst (insert_mount M d path kind v w)))"
proof (cases "insert_mount M d path kind v w")
  case (Pair w' r)
  from insert_mount_cases [OF this] consider "mw_registries w' = mw_registries w"
    | "path \<noteq> []" "mount_conflict path kind (mw_registries w ! md_registry d) = Ok ()"
      "\<not> bcontains (mw_registries w ! md_registry d) path"
      "mw_registries w' = (mw_registries w)[md_registry d :=
         binsert path \<lparr>mt_kind = kind, mt_value = v\<rparr> (mw_registries w ! md_registry d)]"
    by (auto simp: Let_def)
  then show ?thesis
  proof cases
    case 2
    then show ?thesis using Pair mounts_ok_insert registries_update by (metis fst_conv)
  qed (simp add: Pair registries_step_refl)
qed

lemma granted_step: "registries_step True rs rs' \<Longrightarrow> registries_step g rs rs' \<or> \<not> g"
  by (cases g) simp_all

lemma mount_exec_step:
  fixes M :: "('w, 'v) mount_cx"
  shows "registries_step (cx_granted (mc_cx M) table_mount_capability) (mw_registries w) (mw_registries (mount_exec M c w))"
proof -
  let ?g = "cx_granted (mc_cx M) table_mount_capability"
  have keep: "registries_step ?g (mw_registries w) (mw_registries (fst (m w)))" if "op_keeps keeps_registries m"
    for m :: "(('w, 'v) mount_world, table_error, 'c) op"
    using that by (simp add: op_keeps_def keeps_registries_def registries_step_refl)
  have guard: "registries_step ?g (mw_registries w) (mw_registries (fst (op_bind (op_res (cx_require (mc_cx M) table_mount_capability)) m w)))"
    if "registries_step True (mw_registries w) (mw_registries (fst (m () w)))" for m :: "unit \<Rightarrow> (('w, 'v) mount_world, table_error, 'c) op"
    using that by (cases ?g) (simp_all add: cx_require_def op_bind_def op_simps registries_step_refl)
  show ?thesis
  proof (cases c)
    case (CallNew v)
    have "mw_registries (fst (mount_new M v w)) = mw_registries w \<or> mw_registries (fst (mount_new M v w)) = mw_registries w @ [[]]"
      by (cases "require_dir_value M v ''table/mount: root must be a Dir''") (simp_all add: mount_new_def op_bind_def op_simps)
    moreover have "mounts_ok []" by (simp add: mounts_ok_def)
    ultimately show ?thesis using CallNew by (auto simp: registries_step_def)
  next
    case (CallMountDir d p v)
    have "registries_step True (mw_registries w) (mw_registries (fst (op_bind
        (op_res (require_dir_value M v ''table/mount: Dir mount target must be a Dir'')) (\<lambda>_. insert_mount M d p DirMount v) w)))"
      using insert_mount_step
      by (cases "require_dir_value M v ''table/mount: Dir mount target must be a Dir''") (simp_all add: op_bind_def op_simps registries_step_refl)
    then show ?thesis using guard CallMountDir by (simp add: mount_dir_def)
  next
    case (CallMountTable d p v)
    have "registries_step True (mw_registries w) (mw_registries (fst (op_bind
        (op_res (require_table_value M v ''table/mount: table mount target must be a Table'')) (\<lambda>_. insert_mount M d p TableMount v) w)))"
      using insert_mount_step
      by (cases "require_table_value M v ''table/mount: table mount target must be a Table''") (simp_all add: op_bind_def op_simps registries_step_refl)
    then show ?thesis using guard CallMountTable by (simp add: mount_table_def)
  next
    case (CallUnmount d p)
    have "registries_step True (mw_registries w) ((mw_registries w)[md_registry d := bremove p (mw_registries w ! md_registry d)])"
      by (rule registries_update) (simp add: mounts_ok_remove)
    then show ?thesis using CallUnmount
      by (auto simp: mount_remove_def intro!: guard) (simp_all add: op_bind_def op_simps lock_mounts_def put_mounts_def registries_step_refl)
  next
    case (CallInspect d)
    then show ?thesis by (simp add: mount_inspect_def lock_mounts_run op_simps registries_step_refl)
  next
    case (CallTable d t)
    have "mw_registries (fst (table_call (mount_table_impl M d) t w)) = mw_registries w"
      using mount_ops_keep [of M d, unfolded op_keeps_def keeps_registries_def]
      by (cases t) (simp_all add: mount_table_impl_def split: prod.split, (metis fst_conv)+)
    then show ?thesis using CallTable by (simp add: registries_step_refl)
  qed (simp_all add: keep mount_ops_keep)
qed

text \<open>C26: In every history of mounts, unmounts, table and directory calls on any number of namespaces every
  registry stays well formed: sorted, without a mount at the root, and with nothing mounted below a
  table mount; and without the mount capability no registry that exists changes.\<close>

theorem mount_registries_invariant:
  assumes "\<forall>m\<in>set (mw_registries w). mounts_ok m"
  shows "(\<forall>m\<in>set (mw_registries (mount_history M cs w)). mounts_ok m) \<and>
    (cx_granted (mc_cx M) table_mount_capability \<or>
     (\<exists>new. mw_registries (mount_history M cs w) = mw_registries w @ new))"
proof -
  have "registries_step (cx_granted (mc_cx M) table_mount_capability) (mw_registries w) (mw_registries (mount_history M cs w))"
  proof (induction cs arbitrary: w)
    case (Cons c cs)
    then show ?case using registries_step_trans [OF mount_exec_step Cons.IH] by (simp add: mount_history_def)
  qed (simp add: mount_history_def registries_step_refl)
  then show ?thesis using assms by (simp add: registries_step_def)
qed

section \<open>What a mount protects\<close>

lemma mount_children_fold:
  "bcontains (foldl (mount_child own) children mounts) k \<longleftrightarrow>
     bcontains children k \<or>
     (\<exists>(p, t)\<in>set mounts. length own < length p \<and> mount_prefix own p \<and> k = sym_new (p ! length own))"
proof (induction mounts arbitrary: children)
  case (Cons m mounts)
  have one: "bcontains (mount_child own children m) k \<longleftrightarrow>
      bcontains children k \<or> (length own < length (fst m) \<and> mount_prefix own (fst m) \<and> k = sym_new (fst m ! length own))"
    by (auto simp: mount_child_def bcontains_def)
  show ?case unfolding foldl_Cons Cons.IH one by (cases m) auto
qed simp

lemma mount_below_child:
  "mount_prefix (own @ [n]) p \<longleftrightarrow> length own < length p \<and> mount_prefix own p \<and> p ! length own = n"
proof
  assume "mount_prefix (own @ [n]) p"
  then obtain s where "p = own @ n # s" by (auto simp: mount_prefix_iff)
  then show "length own < length p \<and> mount_prefix own p \<and> p ! length own = n" by (simp add: mount_prefix_iff nth_append)
next
  assume l: "length own < length p \<and> mount_prefix own p \<and> p ! length own = n"
  then obtain s where "p = own @ s" by (auto simp: mount_prefix_iff)
  with l show "mount_prefix (own @ [n]) p" by (cases s) (auto simp: mount_prefix_iff nth_append)
qed

lemma children_none:
  "foldl (mount_child own) [] mounts = [] \<longleftrightarrow> (\<forall>n. \<not> list_ex (mount_prefix (own @ [n])) (bkeys mounts))"
proof -
  let ?c = "foldl (mount_child own) [] mounts"
  have "?c = [] \<longleftrightarrow> (\<forall>k. \<not> bcontains ?c k)"
    by (cases ?c) (auto simp: bcontains_iff)
  also have "\<dots> \<longleftrightarrow> (\<forall>m\<in>set mounts. \<not> (length own < length (fst m) \<and> mount_prefix own (fst m)))"
    unfolding mount_children_fold by (simp add: split_def) blast
  also have "\<dots> \<longleftrightarrow> (\<forall>n. \<not> list_ex (mount_prefix (own @ [n])) (bkeys mounts))"
    unfolding mount_below_child list_ex_iff bkeys_def by (simp add: image_iff) blast
  finally show ?thesis .
qed

lemma child_check_run:
  "check_no_mount_child d k w =
     (w, if list_ex (mount_prefix (md_path d @ [sym_name k])) (bkeys (mw_registries w ! md_registry d))
         then Err (Eval ''table/mount: cannot change a name while a mount exists there'') else Ok ())"
  "child_has_mount d k w =
     (w, Ok (list_ex (mount_prefix (md_path d @ [sym_name k])) (bkeys (mw_registries w ! md_registry d))))"
  "direct_mount_value d k w = (w, Ok (bget (mw_registries w ! md_registry d) (md_path d @ [sym_name k])))"
  "direct_mount_children d w = (w, Ok (foldl (mount_child (md_path d)) [] (mw_registries w ! md_registry d)))"
  by (simp_all add: check_no_mount_child_def child_has_mount_def direct_mount_value_def direct_mount_children_def
      op_bind_def op_simps lock_mounts_def)

text \<open>A name at or above a mount point is protected: setting, deleting, exchanging, making or removing it
  through the namespace, and clearing the directory around it, is an error that changes nothing, in the
  backends and in the registries, and the name is reported as present.\<close>

theorem mount_names_protected:
  assumes "list_ex (mount_prefix (md_path d @ [sym_name k])) (bkeys (mw_registries w ! md_registry d))"
  shows "(\<exists>e. mount_set M d k v w = (w, Err e)) \<and> (\<exists>e. mount_del M d k w = (w, Err e)) \<and>
    (\<exists>e. mount_compare_exchange M d k x y w = (w, Err e)) \<and> (\<exists>e. mount_mkdir M d k w = (w, Err e)) \<and>
    (\<exists>e. mount_rmdir M d k w = (w, Err e)) \<and> (\<exists>e. mount_clear M d w = (w, Err e)) \<and> mount_has M d k w = (w, Ok True)"
proof -
  have "foldl (mount_child (md_path d)) [] (mw_registries w ! md_registry d) \<noteq> []"
    using assms children_none by blast
  then show ?thesis
    using assms
    by (auto simp: mount_set_def mount_del_def mount_compare_exchange_def mount_mkdir_def mount_rmdir_def mount_clear_def
        mount_has_def op_bind_def op_simps child_check_run check_segment_def)
qed

lemma mount_dir_Ok:
  "mount_dir M d path v w = (w', Ok ()) \<Longrightarrow>
     cx_granted (mc_cx M) table_mount_capability \<and> insert_mount M d path DirMount v w = (w', Ok ())"
  by (auto simp: mount_dir_def op_Ok cx_require_def split: if_splits)

text \<open>Unmounting right after mounting a directory gives the mounted value back and restores the registries.\<close>

theorem mount_unmount:
  assumes "mounts_ok (mw_registries w ! md_registry d)" and "md_registry d < length (mw_registries w)"
    and "mount_dir M d path v w = (w', Ok ())"
  shows "mount_remove M d path w' = (w'\<lparr>mw_registries := mw_registries w\<rparr>, Ok (Some v))"
proof -
  let ?m = "mw_registries w ! md_registry d" and ?t = "\<lparr>mt_kind = DirMount, mt_value = v\<rparr>"
  have granted: "cx_granted (mc_cx M) table_mount_capability" and ins: "insert_mount M d path DirMount v w = (w', Ok ())"
    using mount_dir_Ok [OF assms(3)] by simp_all
  from insert_mount_cases [OF ins] have new: "path \<noteq> []" "\<not> bcontains ?m path"
      "mw_registries w' = (mw_registries w)[md_registry d := binsert path ?t ?m]"
    by (auto simp: Let_def)
  have "bremove path (binsert path ?t ?m) = ?m"
    using assms(1) new(2) by (intro bsorted_ext) (auto simp: mounts_ok_def bcontains_def)
  then show ?thesis
    using granted new assms(2)
    by (simp add: mount_remove_def op_bind_def op_simps cx_require_def lock_mounts_def put_mounts_def)
qed

text \<open>Reading and writing a name of a mounted directory is reading and writing the backend: when the longest
  mount on a handle's path is a directory, and opening the rest of the path inside it gives a table,
  then a get, a set and a deletion of a name with no mount at or below it are exactly that table's own,
  the root is not consulted.\<close>

theorem mount_routed:
  assumes "bsorted (mw_registries w ! md_registry d)"
    and "md_path d = p @ rest" and "bget (mw_registries w ! md_registry d) p = Some target" and "mt_kind target = DirMount"
    and "\<And>n. length p < n \<Longrightarrow> n \<le> length (md_path d) \<Longrightarrow> bget (mw_registries w ! md_registry d) (take n (md_path d)) = None"
    and "traverse_dir_path M (mt_value target) rest w = (w1, Ok (Some b))" and "mc_table M b = Some t"
    and "\<not> list_ex (mount_prefix (md_path d @ [sym_name k])) (bkeys (mw_registries w ! md_registry d))"
  shows "mount_get M d k w = on_base (tb_get t k) w1 \<and> mount_set M d k v w = on_base (tb_set t k v) w1 \<and>
    mount_del M d k w = on_base (tb_del t k) w1 \<and> mount_has M d k w = on_base (tb_has t k) w1"
proof -
  let ?m = "mw_registries w ! md_registry d"
  have "mount_route ?m (md_path d) (length (md_path d)) = Some (length p, target)"
    using assms(2,3,5) by (simp add: mount_route_Some)
  then have "longest_mount ?m (md_path d) = Some (length p, target)"
    using longest_is_route [OF assms(1)] by simp
  then have backing: "op_bind (mount_backing M d) f w = f (Some t) w1" for f :: "_ \<Rightarrow> (_, _, 'c) op"
    using assms(2,4,6,7)
    by (simp add: mount_backing_def resolve_current_def resolve_mounted_target_def lock_mounts_def op_bind_def op_simps
        backed_table_def require_table_value_def)
  have "bget ?m (md_path d @ [sym_name k]) = None"
    using assms(8) by (auto simp: bget_None_iff list_ex_iff)
  then show ?thesis
    using assms(8)
    by (simp add: mount_get_def mount_set_def mount_del_def mount_has_def op_bind_def [of "direct_mount_value d k"]
        op_bind_def [of "check_no_mount_child d k"] op_bind_def [of "child_has_mount d k"] child_check_run backing)
qed

section \<open>A directory without mounts below it is its backing table\<close>

definition mount_good :: "('w \<Rightarrow> bool) \<Rightarrow> 'v mount_registry list \<Rightarrow> ('w, 'v) mount_world \<Rightarrow> bool" where
  "mount_good good regs w \<longleftrightarrow> mw_registries w = regs \<and> good (mw_base w)"

locale mounted_backing = table_contract C t inv legal content
  for C :: "'v cx" and t :: "('w, 'v) table" and inv legal content +
  fixes M :: "('w, 'v) mount_cx" and d :: "'v mounted_dir" and b :: 'v and regs :: "'v mount_registry list"
  assumes same_cx: "mc_cx M = C"
    and view: "mc_table M b = Some t"
    and resolves: "mount_good inv regs w \<Longrightarrow> resolve_current M d w = (w, Ok (Backed b))"
    and childless: "foldl (mount_child (md_path d)) [] (regs ! md_registry d) = []"

lemma on_base_run: "m (mw_base w) = (x, r) \<Longrightarrow> on_base m w = (w\<lparr>mw_base := x\<rparr>, r)"
  by (simp add: on_base_def)

lemma mount_good_base: "mount_good good regs w \<Longrightarrow> good x \<Longrightarrow> mount_good good regs (w\<lparr>mw_base := x\<rparr>)"
  by (simp add: mount_good_def)

context mounted_backing begin

lemma free_name: "mount_good inv regs w \<Longrightarrow> \<not> list_ex (mount_prefix (md_path d @ [n])) (bkeys (mw_registries w ! md_registry d))"
  using childless by (simp add: mount_good_def children_none)

lemma backing_run: "mount_good inv regs w \<Longrightarrow> op_bind (mount_backing M d) f w = f (Some t) w"
  by (simp add: mount_backing_def op_bind_def op_simps resolves backed_table_def require_table_value_def view)

lemma ops_run:
  assumes "mount_good inv regs w"
  shows "mount_get M d k w = on_base (tb_get t k) w" "mount_set M d k v w = on_base (tb_set t k v) w"
    "mount_has M d k w = on_base (tb_has t k) w" "mount_del M d k w = on_base (tb_del t k) w"
    "mount_clear M d w = on_base (tb_clear t) w"
proof -
  have "bget (mw_registries w ! md_registry d) (md_path d @ [sym_name k]) = None"
    using free_name [OF assms, of "sym_name k"] by (auto simp: bget_None_iff list_ex_iff)
  then show "mount_get M d k w = on_base (tb_get t k) w" "mount_set M d k v w = on_base (tb_set t k v) w"
    "mount_has M d k w = on_base (tb_has t k) w" "mount_del M d k w = on_base (tb_del t k) w"
    using free_name [OF assms, of "sym_name k"]
    by (simp_all add: mount_get_def mount_set_def mount_del_def mount_has_def op_bind_def [of "direct_mount_value d k"]
        op_bind_def [of "check_no_mount_child d k"] op_bind_def [of "child_has_mount d k"] child_check_run backing_run assms)
  show "mount_clear M d w = on_base (tb_clear t) w"
    using assms childless
    by (simp add: mount_clear_def op_bind_def [of "direct_mount_children d"] child_check_run backing_run)
      (simp add: mount_good_def)
qed

lemma keys_run:
  assumes "mount_good inv regs w" and "tb_keys t (mw_base w) = (mw_base w, Ok ks)"
  shows "mount_keys M d w = (w, Ok (scollect ks))"
  using assms childless on_base_run [where m = "tb_keys t", OF assms(2)]
  by (simp add: mount_keys_def backing_run) (simp add: op_bind_def op_simps child_check_run mount_good_def)

lemma entries_run:
  assumes "mount_good inv regs w" and "tb_entries t (mw_base w) = (mw_base w, Ok es)"
  shows "mount_entries M d w = (w, Ok es)"
proof -
  have all: "backing_entries [] es' = Ok es'" for es' :: "(symbol \<times> 'v) list"
    by (induction es') (auto simp: bcontains_def)
  have "mount_entries M d w = op_bind (mount_backing M d) (\<lambda>backing.
     op_bind (case backing of Some t \<Rightarrow> op_bind (on_base (tb_entries t)) (\<lambda>es. op_res (backing_entries [] es))
              | None \<Rightarrow> op_return []) (\<lambda>out.
     op_bind (mount_entries_of d (map fst out) []) (\<lambda>mounted. op_return (out @ mounted)))) w"
    using assms(1) childless by (simp add: mount_entries_def op_bind_def [of "direct_mount_children d"] child_check_run mount_good_def)
  then show ?thesis
    using on_base_run [where m = "tb_entries t", OF assms(2)] by (simp add: backing_run [OF assms(1)]) (simp add: op_bind_def op_simps all)
qed

end

sublocale mounted_backing \<subseteq> through: table_contract C "mount_table_impl M d" "mount_good inv regs" legal
  "\<lambda>w. content (mw_base w)"
proof
  fix w :: "('w, 'v) mount_world" and k and v :: 'v
  assume w: "mount_good inv regs w"
  then have base: "inv (mw_base w)" by (simp add: mount_good_def)
  note run = ops_run [OF w] on_base_run mount_table_impl_def
  show "\<exists>ks. tb_keys (mount_table_impl M d) w = (w, Ok ks) \<and> distinct ks \<and> set ks = dom (content (mw_base w))"
    using keys [OF base] keys_run [OF w] by (auto simp: mount_table_impl_def ssorted_distinct)
  obtain es where es: "tb_entries t (mw_base w) = (mw_base w, Ok es)" "distinct (map fst es)" "map_of es = content (mw_base w)"
    using entries [OF base] by blast
  show "\<exists>es. tb_entries (mount_table_impl M d) w = (w, Ok es) \<and> distinct (map fst es) \<and> map_of es = content (mw_base w)"
    using es entries_run [OF w es(1)] by (simp add: mount_table_impl_def)
  have "card (dom (content (mw_base w))) = length es"
    using es(2,3) by (metis distinct_card dom_map_of_conv_image_fst length_map list.set_map)
  then show "tb_len (mount_table_impl M d) w = (w, Ok (card (dom (content (mw_base w)))))"
    using entries_run [OF w es(1)] by (simp add: mount_table_impl_def mount_len_def op_bind_def op_simps)
  show "\<exists>w'. tb_clear (mount_table_impl M d) w = (w', Ok ()) \<and> mount_good inv regs w' \<and> content (mw_base w') = Map.empty"
    using clear [OF base] by (force simp: run intro: mount_good_base [OF w])
  assume legal: "legal k"
  show "tb_get (mount_table_impl M d) k w = (w, value_or_nil C (content (mw_base w) k))"
    by (simp add: get [OF base legal] on_base_run mount_table_impl_def ops_run [OF w])
  show "tb_has (mount_table_impl M d) k w = (w, Ok (content (mw_base w) k \<noteq> None))"
    by (simp add: has [OF base legal] on_base_run mount_table_impl_def ops_run [OF w])
  show "\<exists>w'. tb_set (mount_table_impl M d) k v w = (w', Ok ()) \<and> mount_good inv regs w' \<and>
      content (mw_base w') = (content (mw_base w))(k \<mapsto> v)"
    using set [OF base legal, of v] by (force simp: run intro: mount_good_base [OF w])
  show "\<exists>w' r. tb_del (mount_table_impl M d) k w = (w', r) \<and> mount_good inv regs w' \<and>
      content (mw_base w') = (content (mw_base w))(k := None)"
    using del [OF base legal] by (force simp: run intro: mount_good_base [OF w])
  obtain x r where "tb_del t k (mw_base w) = (x, r)" by (cases "tb_del t k (mw_base w)")
  then show "snd (tb_del (mount_table_impl M d) k w) = value_or_nil C (content (mw_base w) k)"
    using del_value [OF base legal] by (simp add: run)
qed

context mounted_backing begin

lemma through_run_refines:
  assumes "mount_good inv regs w" and "list_all (call_legal legal) cs"
  shows "\<exists>w'. table_run (mount_table_impl M d) cs w = (w', snd (map_run C cs (content (mw_base w)))) \<and>
    mount_good inv regs w' \<and> content (mw_base w') = fst (map_run C cs (content (mw_base w)))"
  using assms by (rule through.run_refines)

end

text \<open>C25: A namespace handle whose path resolves to one backend table, with no mount below it, is that table: every
  sequence of calls through the namespace is observed as the same calls on the table's finite map, and
  afterwards the backend holds the resulting map.\<close>

theorem mount_refines_map:
  assumes "mounted_backing C t good legal content M d b regs" and "mount_good good regs w" and "list_all (call_legal legal) cs"
  shows "\<exists>w'. table_run (mount_table_impl M d) cs w = (w', snd (map_run C cs (content (mw_base w)))) \<and>
    mount_good good regs w' \<and> content (mw_base w') = fst (map_run C cs (content (mw_base w)))"
  using mounted_backing.through_run_refines [OF assms] .

section \<open>A directory of the store mounted in a namespace\<close>

text \<open>Values are strings, directory handles of one store, and namespace handles over its root.\<close>

datatype mount_value = Leaf string | DbAt string | NamespaceAt nat "string list"

definition mount_sample_cx :: "mount_value cx" where
  "mount_sample_cx =
     \<lparr>cx_granted = \<lambda>_. True, cx_nil = Ok (Leaf ''nil''), cx_string = \<lambda>s. Ok (Leaf s), cx_bytes = \<lambda>bs. Ok (Leaf (from_bytes bs)),
      cx_expr = \<lambda>_. Ok (Leaf ''expr''),
      as_expr = \<lambda>v. (case v of Leaf s \<Rightarrow> Ok (EString s) | _ \<Rightarrow> Err (Eval ''no expression'')),
      legal_segment = \<lambda>s. s \<noteq> [] \<and> CHR ''/'' \<notin> set s\<rparr>"

definition db_view :: "string \<Rightarrow> (mount_value db_store, mount_value) dir" where
  "db_view p =
     \<lparr>dr_mkdir = db_mkdir mount_sample_cx (\<lambda>q. Ok (DbAt q)) p, dr_opendir = db_opendir mount_sample_cx (\<lambda>q. Ok (DbAt q)) p,
      dr_rmdir = db_rmdir mount_sample_cx p, dr_is_dir = db_is_dir mount_sample_cx p\<rparr>"

definition mount_sample :: "(mount_value db_store, mount_value) mount_cx" where
  "mount_sample =
     \<lparr>mc_cx = mount_sample_cx,
      mc_table = \<lambda>v. (case v of DbAt p \<Rightarrow> Some (db_table mount_sample_cx p) | _ \<Rightarrow> None),
      mc_dir = \<lambda>v. (case v of DbAt p \<Rightarrow> Some (db_view p) | _ \<Rightarrow> None),
      mc_opaque = \<lambda>d. Ok (NamespaceAt (md_registry d) (md_path d)),
      mc_namespace = \<lambda>v. (case v of NamespaceAt r p \<Rightarrow> Some \<lparr>md_root = DbAt [], md_registry = r, md_path = p\<rparr> | _ \<Rightarrow> None),
      mc_parse_absolute = \<lambda>s. (case s of [] \<Rightarrow> None | c # t \<Rightarrow> if c = CHR ''/'' then Some (split_on (CHR ''/'') t) else None)\<rparr>"

definition sample_handle :: "mount_path \<Rightarrow> mount_value mounted_dir" where
  "sample_handle p = \<lparr>md_root = DbAt [], md_registry = 0, md_path = p\<rparr>"

definition sample_registry :: "mount_value mount_registry" where
  "sample_registry = [([''m''], \<lparr>mt_kind = DirMount, mt_value = DbAt ''x''\<rparr>)]"

definition sample_mounts :: "(mount_value db_store, mount_value) mount_world" where
  "sample_mounts =
     \<lparr>mw_base = \<lparr>db_values = [((''x'', sym_new ''a''), Leaf ''1'')], db_dirs = [[], ''x'']\<rparr>, mw_registries = [sample_registry]\<rparr>"

text \<open>Any directory of the store, mounted at \<open>/m\<close>, is a table through the namespace.\<close>

interpretation mounted_db: mounted_backing mount_sample_cx "db_table mount_sample_cx p" "db_plain mount_sample_cx p"
    "\<lambda>k. legal_segment mount_sample_cx (sym_name k)" "db_content p" mount_sample "sample_handle [''m'']" "DbAt p"
    "[[([''m''], \<lparr>mt_kind = DirMount, mt_value = DbAt p\<rparr>)]]"
  for p
proof (unfold_locales)
  show "mc_cx mount_sample = mount_sample_cx" "mc_table mount_sample (DbAt p) = Some (db_table mount_sample_cx p)"
    by (simp_all add: mount_sample_def)
  show "foldl (mount_child (md_path (sample_handle [''m'']))) []
      ([[([''m''], \<lparr>mt_kind = DirMount, mt_value = DbAt p\<rparr>)]] ! md_registry (sample_handle [''m''])) = []"
    by (simp add: sample_handle_def mount_child_def)
  fix w :: "(mount_value db_store, mount_value) mount_world"
  assume "mount_good (db_plain mount_sample_cx p) [[([''m''], \<lparr>mt_kind = DirMount, mt_value = DbAt p\<rparr>)]] w"
  then show "resolve_current mount_sample (sample_handle [''m'']) w = (w, Ok (Backed (DbAt p)))"
    by (simp add: mount_good_def resolve_current_def lock_mounts_def sample_handle_def longest_mount_def longer_mount_def
        resolve_mounted_target_def op_bind_def op_simps)
qed

lemma sample_mounts_plain: "mount_good (db_plain mount_sample_cx ''x'') [sample_registry] sample_mounts"
proof -
  have "direct_subdirs ''x'' (mw_base sample_mounts) = []" by code_simp
  moreover have "child_join ''x'' s \<notin> set (db_dirs (mw_base sample_mounts))" for s
    by (simp add: sample_mounts_def child_join_def)
  moreover have "bsorted (db_values (mw_base sample_mounts))" by (simp add: sample_mounts_def bsorted_def)
  ultimately show ?thesis
    by (simp add: mount_good_def db_plain_def mount_sample_cx_def) (simp add: sample_mounts_def)
qed

theorem mount_refines_map_witness:
  "snd (table_run (mount_table_impl mount_sample (sample_handle [''m'']))
     [CallGet (sym_new ''a''), CallSet (sym_new ''b'') (Leaf ''2''), CallLen] sample_mounts) =
   [ObsValue (Ok (Leaf ''1'')), ObsDone, ObsLen 2]"
proof -
  let ?cs = "[CallGet (sym_new ''a''), CallSet (sym_new ''b'') (Leaf ''2''), CallLen]"
  have legal: "list_all (call_legal (\<lambda>k. legal_segment mount_sample_cx (sym_name k))) ?cs"
    by (simp add: mount_sample_cx_def)
  have content: "db_content ''x'' (mw_base sample_mounts) = [sym_new ''a'' \<mapsto> Leaf ''1'']"
    by (auto simp: db_content_def sample_mounts_def bget_def fun_eq_iff)
  have "snd (map_run mount_sample_cx ?cs [sym_new ''a'' \<mapsto> Leaf ''1'']) = [ObsValue (Ok (Leaf ''1'')), ObsDone, ObsLen 2]"
    by (simp add: value_or_nil_def)
  then show ?thesis
    using mount_refines_map [OF mounted_db.mounted_backing_axioms sample_mounts_plain [unfolded sample_registry_def] legal]
      content by auto
qed


lemma sample_registry_ok: "mounts_ok sample_registry"
  by (simp add: mounts_ok_def sample_registry_def bsorted_def)

text \<open>Opening a directory inside a mount, and one step of a history.\<close>

theorem mount_registries_invariant_witness:
  "list_all mounts_ok (mw_registries (mount_history mount_sample
       [CallMountDir (sample_handle []) [''q'', ''r''] (DbAt ''x''), CallMountTable (sample_handle []) [''q'', ''r'', ''s''] (DbAt ''x''),
        CallUnmount (sample_handle []) [''m''], CallNew (DbAt [])] sample_mounts))"
proof -
  have "\<forall>m\<in>set (mw_registries sample_mounts). mounts_ok m"
    using sample_registry_ok by (simp add: sample_mounts_def)
  from mount_registries_invariant [OF this, THEN conjunct1] show ?thesis by (simp only: list_all_iff)
qed

theorem mount_names_protected_witness:
  "\<exists>e. mount_set mount_sample (sample_handle []) (sym_new ''m'') (Leaf ''v'') sample_mounts = (sample_mounts, Err e)"
proof -
  have "list_ex (mount_prefix (md_path (sample_handle []) @ [sym_name (sym_new ''m'')]))
      (bkeys (mw_registries sample_mounts ! md_registry (sample_handle [])))"
    by (simp add: sample_handle_def sample_mounts_def sample_registry_def bkeys_def)
  from mount_names_protected [OF this] show ?thesis by blast
qed

theorem mount_unmount_witness:
  "\<exists>w'. mount_dir mount_sample (sample_handle []) [''q''] (DbAt ''x'') sample_mounts = (w', Ok ()) \<and>
     snd (mount_remove mount_sample (sample_handle []) [''q''] w') = Ok (Some (DbAt ''x''))"
proof -
  have "snd (mount_dir mount_sample (sample_handle []) [''q''] (DbAt ''x'') sample_mounts) = Ok ()"
    by code_simp
  then obtain w' where run: "mount_dir mount_sample (sample_handle []) [''q''] (DbAt ''x'') sample_mounts = (w', Ok ())"
    by (cases "mount_dir mount_sample (sample_handle []) [''q''] (DbAt ''x'') sample_mounts") simp
  have "mw_registries sample_mounts ! md_registry (sample_handle []) = sample_registry"
      "md_registry (sample_handle []) < length (mw_registries sample_mounts)"
    by (simp_all add: sample_handle_def sample_mounts_def)
  then show ?thesis using mount_unmount [OF _ _ run] sample_registry_ok run by simp
qed

theorem mount_routed_witness:
  "snd (mount_get mount_sample (sample_handle [''m'']) (sym_new ''a'') sample_mounts) = Ok (Leaf ''1'')"
proof -
  have "mount_get mount_sample (sample_handle [''m'']) (sym_new ''a'') sample_mounts =
      on_base (tb_get (db_table mount_sample_cx ''x'') (sym_new ''a'')) sample_mounts"
  proof (rule mount_routed [THEN conjunct1])
    show "md_path (sample_handle [''m'']) = [''m''] @ []" by (simp add: sample_handle_def)
    show "bget (mw_registries sample_mounts ! md_registry (sample_handle [''m''])) [''m''] =
        Some \<lparr>mt_kind = DirMount, mt_value = DbAt ''x''\<rparr>"
      by (simp add: sample_handle_def sample_mounts_def sample_registry_def bget_def)
    show "traverse_dir_path mount_sample (mt_value \<lparr>mt_kind = DirMount, mt_value = DbAt ''x''\<rparr>) [] sample_mounts =
        (sample_mounts, Ok (Some (DbAt ''x'')))"
      by (simp add: op_simps)
    show "mc_table mount_sample (DbAt ''x'') = Some (db_table mount_sample_cx ''x'')" by (simp add: mount_sample_def)
  qed (simp_all add: sample_handle_def sample_mounts_def sample_registry_def bsorted_def bkeys_def mount_prefix_def)
  moreover have "snd (on_base (tb_get (db_table mount_sample_cx ''x'') (sym_new ''a'')) sample_mounts) = Ok (Leaf ''1'')"
    by code_simp
  ultimately show ?thesis by simp
qed

section \<open>Where names and mounts disagree\<close>

text \<open>
  A mount is looked up by the name of a symbol alone, so a key of another namespace is taken for the
  mount: it is reported present though it is not listed.
\<close>

lemma mount_qualified_alias:
  "snd (mount_has mount_sample (sample_handle []) (sym_qualified ''ns'' ''m'') sample_mounts) = Ok True"
  "snd (mount_keys mount_sample (sample_handle []) sample_mounts) = Ok [sym_new ''m'', sym_new ''x'']"
  by code_simp+

text \<open>
  Only the root is asked whether a mount point shadows a node. Mounting over the entry \<open>a\<close> of the mounted
  directory \<open>/m\<close> succeeds, and then its entries and its length are errors.
\<close>

lemma mount_shadows_mounted_entry:
  "snd (mount_dir mount_sample (sample_handle []) [''m'', ''a''] (DbAt ''x'') sample_mounts) = Ok ()"
  "snd (mount_entries mount_sample (sample_handle [''m''])
      (fst (mount_dir mount_sample (sample_handle []) [''m'', ''a''] (DbAt ''x'') sample_mounts))) =
     Err (Eval ''table/mount: backing entry conflicts with a mount'')"
  by code_simp+

text \<open>
  A deeper mount makes its missing parents directories, but not inside another mount: there the parent
  is a directory, opens, and then every listing of it is an error.
\<close>

lemma mount_virtual_parent_in_mount:
  "let w = fst (mount_dir mount_sample (sample_handle []) [''m'', ''q'', ''r''] (DbAt ''x'') sample_mounts) in
     snd (mount_is_dir mount_sample (sample_handle [''m'']) (sym_new ''q'') w) = Ok True \<and>
     snd (mount_opendir mount_sample (sample_handle [''m'']) (sym_new ''q'') w) = Ok (Some (NamespaceAt 0 [''m'', ''q''])) \<and>
     snd (mount_keys mount_sample (sample_handle [''m'', ''q'']) w) =
       Err (Eval ''table/mount: mounted directory path is missing'')"
  "let w = fst (mount_dir mount_sample (sample_handle []) [''q'', ''r''] (DbAt ''x'') sample_mounts) in
     snd (mount_keys mount_sample (sample_handle [''q'']) w) = Ok [sym_new ''r'']"
  by code_simp+

end
