(* ===== verification/Table_Relation.thy ===== *)
theory Table_Relation
  imports Table_Hash Std_Text
begin

text \<open>
  The relation directory, \<open>crates/sim-table-relation/src/backend.rs\<close>: a tree of node rows behind a mutex, a
  generation counter, and an optional head slot in another table that publishes the generation by
  compare-exchange. The world is the backends' and the one shared state; a \<open>RelationDir\<close> is its path,
  codec and head. The value codec is a trait: a record of functions. How a value is seen as a table and
  the factory call that wraps a handle are parameters. The mutex makes each call one step; the head
  table does not reach the state, whose lock is held during the exchange. \<open>next_id\<close> and \<open>generation\<close> wrap
  in a release build. The checked query and rows of the view are external: a record of the functions used.
\<close>

section \<open>Rows\<close>

datatype node_kind = DirNode | ValueNode

record 'v node =
  nd_id :: u64
  nd_parent :: u64
  nd_name :: symbol
  nd_kind :: node_kind
  nd_bytes :: "u8 list"
  nd_codec :: symbol
  nd_value :: "'v option"

record 'v relation_state =
  rs_nodes :: "(u64, 'v node) btree_map"
  rs_next_id :: u64
  rs_generation :: u64

record 'v value_codec =
  vc_identity :: symbol
  vc_encode :: "'v \<Rightarrow> (table_error, u8 list) res"
  vc_decode :: "u8 list \<Rightarrow> (table_error, 'v) res"

datatype 'v relation_plan =
    PlanSet "string list" symbol 'v "u8 list"
  | PlanDelete "string list" symbol
  | PlanMkdir "string list" symbol
  | PlanRmdir "string list" symbol
  | PlanClear "string list"

record 'v relation_dir =
  rd_path :: "string list"
  rd_codec :: "'v value_codec"
  rd_head :: "('v \<times> symbol) option"

record ('w, 'v) relation_world =
  rw_base :: 'w
  rw_state :: "'v relation_state"

record ('w, 'v) relation_cx =
  rc_cx :: "'v cx"
  rc_table :: "'v \<Rightarrow> ('w, 'v) table option"
  rc_opaque :: "'v relation_dir \<Rightarrow> (table_error, 'v) res"

definition relation_namespace_capability :: string where
  "relation_namespace_capability = ''relation.namespace''"

definition relation_table_read_capability :: string where
  "relation_table_read_capability = ''table.relation.read''"

definition relation_table_write_capability :: string where
  "relation_table_write_capability = ''table.relation.write''"

definition relation_open :: "'v value_codec \<Rightarrow> 'v relation_state \<times> 'v relation_dir" where
  "relation_open codec =
     (\<lparr>rs_nodes = [(0, \<lparr>nd_id = 0, nd_parent = 0, nd_name = sym_new [], nd_kind = DirNode, nd_bytes = [],
                       nd_codec = vc_identity codec, nd_value = None\<rparr>)],
       rs_next_id = 1, rs_generation = 0\<rparr>,
      \<lparr>rd_path = [], rd_codec = codec, rd_head = None\<rparr>)"

definition with_head :: "('w, 'v) relation_cx \<Rightarrow> 'v relation_dir \<Rightarrow> 'v \<Rightarrow> symbol \<Rightarrow> (table_error, 'v relation_dir) res" where
  "with_head R d head key =
     (if rc_table R head = None then Err (Eval ''table/relation: head is not a Table'')
      else Ok (d\<lparr>rd_head := Some (head, key)\<rparr>))"

section \<open>Looking up rows\<close>

fun resolve_from :: "'v relation_state \<Rightarrow> u64 \<Rightarrow> string list \<Rightarrow> (table_error, u64) res" where
  "resolve_from s i [] = Ok i"
| "resolve_from s i (part # path) =
     (case List.find (\<lambda>n. nd_parent n = i \<and> sym_name (nd_name n) = part) (bvalues (rs_nodes s)) of
        Some n \<Rightarrow> resolve_from s (nd_id n) path
      | None \<Rightarrow> Err (Eval ''table/relation: missing path''))"

definition resolve_id :: "'v relation_state \<Rightarrow> string list \<Rightarrow> (table_error, u64) res" where
  "resolve_id s path = resolve_from s 0 path"

definition node_child :: "'v relation_state \<Rightarrow> u64 \<Rightarrow> symbol \<Rightarrow> 'v node option" where
  "node_child s parent name = List.find (\<lambda>n. nd_parent n = parent \<and> nd_name n = name) (bvalues (rs_nodes s))"

definition lock_state :: "(('w, 'v) relation_world, table_error, 'v relation_state) op" where
  "lock_state = op_read (\<lambda>w. Ok (rw_state w))"

definition relation_resolve ::
    "('w, 'v) relation_cx \<Rightarrow> 'v relation_dir \<Rightarrow> string list \<Rightarrow> (('w, 'v) relation_world, table_error, 'v relation_dir) op" where
  "relation_resolve R d path =
     (if \<not> list_all (legal_segment (rc_cx R)) path then op_fail (Eval ''table/relation: illegal path'')
      else op_bind lock_state (\<lambda>s.
        op_bind (op_res (resolve_id s path)) (\<lambda>i.
        op_bind (op_res (opt_expect (bget (rs_nodes s) i) ''no entry found for key'')) (\<lambda>n.
          if nd_kind n \<noteq> DirNode then op_fail (Eval ''table/relation: path is not a directory'')
          else op_return (d\<lparr>rd_path := path\<rparr>)))))"

definition relation_nodes :: "(('w, 'v) relation_world, table_error, 'v node list) op" where
  "relation_nodes = op_bind lock_state (\<lambda>s. op_return (bvalues (rs_nodes s)))"

section \<open>Plans\<close>

fun plan_path :: "'v relation_plan \<Rightarrow> string list" where
  "plan_path (PlanSet p k v b) = p"
| "plan_path (PlanDelete p k) = p"
| "plan_path (PlanMkdir p k) = p"
| "plan_path (PlanRmdir p k) = p"
| "plan_path (PlanClear p) = p"

text \<open>A row under the next identity.\<close>

definition add_node :: "'v relation_state \<Rightarrow> (u64 \<Rightarrow> 'v node) \<Rightarrow> 'v relation_state" where
  "add_node s mk = s\<lparr>rs_next_id := rs_next_id s + 1, rs_nodes := binsert (rs_next_id s) (mk (rs_next_id s)) (rs_nodes s)\<rparr>"

definition remove_node :: "'v relation_state \<Rightarrow> u64 \<Rightarrow> 'v relation_state" where
  "remove_node s i = s\<lparr>rs_nodes := bremove i (rs_nodes s)\<rparr>"

text \<open>The effect of a plan on a copy of the state: the new state and its result, or nothing to do.\<close>

fun apply_plan ::
    "'v cx \<Rightarrow> 'v value_codec \<Rightarrow> u64 \<Rightarrow> 'v relation_plan \<Rightarrow> 'v relation_state \<Rightarrow>
     (table_error, ('v relation_state \<times> 'v option) option) res" where
  "apply_plan C codec parent (PlanSet p name v bytes) s =
     (if \<not> legal_segment C (sym_name name) then Err (Eval ''table/relation: illegal name'')
      else case node_child s parent name of
        Some n \<Rightarrow>
          if nd_kind n = DirNode then Err (Eval ''table/relation: name is a directory'')
          else (case bget (rs_nodes s) (nd_id n) of
            None \<Rightarrow> Panic ''node''
          | Some m \<Rightarrow> Ok (Some (s\<lparr>rs_nodes := binsert (nd_id n)
              (m\<lparr>nd_bytes := bytes, nd_codec := vc_identity codec, nd_value := Some v\<rparr>) (rs_nodes s)\<rparr>, None)))
      | None \<Rightarrow> Ok (Some (add_node s (\<lambda>i. \<lparr>nd_id = i, nd_parent = parent, nd_name = name, nd_kind = ValueNode,
          nd_bytes = bytes, nd_codec = vc_identity codec, nd_value = Some v\<rparr>), None)))"
| "apply_plan C codec parent (PlanDelete p name) s =
     (case node_child s parent name of
        None \<Rightarrow> Ok None
      | Some n \<Rightarrow>
          if nd_kind n = DirNode then Err (Eval ''table/relation: delete cannot remove directory'')
          else Ok (Some (remove_node s (nd_id n), Option.bind (bget (rs_nodes s) (nd_id n)) nd_value)))"
| "apply_plan C codec parent (PlanMkdir p name) s =
     (if \<not> legal_segment C (sym_name name) then Err (Eval ''table/relation: illegal name'')
      else if node_child s parent name \<noteq> None then Err (Eval ''table/relation: duplicate sibling name'')
      else Ok (Some (add_node s (\<lambda>i. \<lparr>nd_id = i, nd_parent = parent, nd_name = name, nd_kind = DirNode, nd_bytes = [],
          nd_codec = vc_identity codec, nd_value = None\<rparr>), None)))"
| "apply_plan C codec parent (PlanRmdir p name) s =
     (case node_child s parent name of
        None \<Rightarrow> Err (Eval ''table/relation: directory absent'')
      | Some n \<Rightarrow>
          if nd_id n = 0 then Err (Eval ''table/relation: root cannot be removed'')
          else if nd_kind n \<noteq> DirNode then Err (Eval ''table/relation: not a directory'')
          else if list_ex (\<lambda>c. nd_parent c = nd_id n \<and> nd_id c \<noteq> nd_id n) (bvalues (rs_nodes s))
          then Err (Eval ''table/relation: directory not empty'')
          else Ok (Some (remove_node s (nd_id n), None)))"
| "apply_plan C codec parent (PlanClear p) s =
     Ok (Some (foldl remove_node s (map nd_id (filter (\<lambda>n. nd_parent n = parent \<and> nd_kind n = ValueNode) (bvalues (rs_nodes s)))),
               None))"

definition relation_on_base :: "('w, table_error, 'a) op \<Rightarrow> (('w, 'v) relation_world, table_error, 'a) op" where
  "relation_on_base m w = (let (b, r) = m (rw_base w) in (w\<lparr>rw_base := b\<rparr>, r))"

text \<open>Publishing the generation in the head slot; a head in the way is stale.\<close>

definition publish_head ::
    "('w, 'v) relation_cx \<Rightarrow> 'v relation_dir \<Rightarrow> u64 \<Rightarrow> u64 \<Rightarrow> (('w, 'v) relation_world, table_error, unit) op" where
  "publish_head R d old new =
     (case rd_head d of
        None \<Rightarrow> op_return ()
      | Some (head, key) \<Rightarrow>
          op_bind (op_res (opt_expect (rc_table R head) ''checked'')) (\<lambda>table.
          op_bind (op_res (cx_string (rc_cx R) (u64_to_string new))) (\<lambda>replacement.
          op_bind (relation_on_base (tb_compare_exchange table key
              (if old = 0 then ExpectAbsent else ExpectValue (EString (u64_to_string old)))
              (ReplaceValue replacement))) (\<lambda>exchange.
            if \<not> tx_exchanged exchange then op_fail (Eval ''table/relation: stale namespace head'') else op_return ()))))"

definition relation_execute ::
    "('w, 'v) relation_cx \<Rightarrow> 'v relation_dir \<Rightarrow> 'v relation_plan \<Rightarrow> (('w, 'v) relation_world, table_error, 'v option) op" where
  "relation_execute R d plan =
     op_bind (op_res (cx_require (rc_cx R) relation_namespace_capability)) (\<lambda>_.
     op_bind (op_res (cx_require (rc_cx R) relation_table_write_capability)) (\<lambda>_.
     op_bind lock_state (\<lambda>original.
     op_bind (op_res (resolve_id original (plan_path plan))) (\<lambda>parent.
     op_bind (op_res (apply_plan (rc_cx R) (rd_codec d) parent plan original)) (\<lambda>applied.
       case applied of
         None \<Rightarrow> op_return None
       | Some (s, result) \<Rightarrow>
           op_bind (publish_head R d (rs_generation original) (rs_generation s + 1)) (\<lambda>_ w.
             (w\<lparr>rw_state := s\<lparr>rs_generation := rs_generation s + 1\<rparr>\<rparr>, Ok result)))))))"

section \<open>The table and the directory\<close>

definition relation_require_read :: "('w, 'v) relation_cx \<Rightarrow> (('w, 'v) relation_world, table_error, unit) op" where
  "relation_require_read R =
     op_bind (op_res (cx_require (rc_cx R) relation_namespace_capability)) (\<lambda>_.
       op_res (cx_require (rc_cx R) relation_table_read_capability))"

definition relation_get :: "('w, 'v) relation_cx \<Rightarrow> 'v relation_dir \<Rightarrow> symbol \<Rightarrow> (('w, 'v) relation_world, table_error, 'v) op" where
  "relation_get R d key =
     op_bind (relation_require_read R) (\<lambda>_.
     op_bind lock_state (\<lambda>s.
     op_bind (op_res (resolve_id s (rd_path d))) (\<lambda>p.
       case node_child s p key of
         None \<Rightarrow> op_res (cx_nil (rc_cx R))
       | Some n \<Rightarrow>
           if nd_kind n = DirNode then op_fail (Eval ''table/relation: key is directory'')
           else if nd_codec n \<noteq> vc_identity (rd_codec d) then op_fail (Eval ''table/relation: codec identity mismatch'')
           else op_res (vc_decode (rd_codec d) (nd_bytes n)))))"

definition relation_set ::
    "('w, 'v) relation_cx \<Rightarrow> 'v relation_dir \<Rightarrow> symbol \<Rightarrow> 'v \<Rightarrow> (('w, 'v) relation_world, table_error, unit) op" where
  "relation_set R d key v =
     op_bind (op_res (vc_encode (rd_codec d) v)) (\<lambda>bytes.
     op_bind (relation_execute R d (PlanSet (rd_path d) key v bytes)) (\<lambda>_. op_return ()))"

definition relation_has :: "('w, 'v) relation_cx \<Rightarrow> 'v relation_dir \<Rightarrow> symbol \<Rightarrow> (('w, 'v) relation_world, table_error, bool) op" where
  "relation_has R d key =
     op_bind (relation_require_read R) (\<lambda>_.
     op_bind lock_state (\<lambda>s.
     op_bind (op_res (resolve_id s (rd_path d))) (\<lambda>p. op_return (node_child s p key \<noteq> None))))"

definition relation_del :: "('w, 'v) relation_cx \<Rightarrow> 'v relation_dir \<Rightarrow> symbol \<Rightarrow> (('w, 'v) relation_world, table_error, 'v) op" where
  "relation_del R d key =
     op_bind (relation_execute R d (PlanDelete (rd_path d) key)) (\<lambda>removed.
       op_res (case removed of Some v \<Rightarrow> Ok v | None \<Rightarrow> cx_nil (rc_cx R)))"

definition relation_keys :: "('w, 'v) relation_cx \<Rightarrow> 'v relation_dir \<Rightarrow> (('w, 'v) relation_world, table_error, symbol list) op" where
  "relation_keys R d =
     op_bind (relation_require_read R) (\<lambda>_.
     op_bind lock_state (\<lambda>s.
     op_bind (op_res (resolve_id s (rd_path d))) (\<lambda>p.
       op_return (scollect (map nd_name (filter (\<lambda>n. nd_parent n = p \<and> nd_id n \<noteq> p) (bvalues (rs_nodes s))))))))"

text \<open>The entries are those of the keys that can be read; the others are left out.\<close>

fun readable_entries ::
    "('w, 'v) relation_cx \<Rightarrow> 'v relation_dir \<Rightarrow> symbol list \<Rightarrow> (('w, 'v) relation_world, table_error, (symbol \<times> 'v) list) op" where
  "readable_entries R d [] = op_return []"
| "readable_entries R d (k # ks) = (\<lambda>w.
     case relation_get R d k w of
       (w', Ok v) \<Rightarrow> op_bind (readable_entries R d ks) (\<lambda>es. op_return ((k, v) # es)) w'
     | (w', Err e) \<Rightarrow> readable_entries R d ks w'
     | (w', Panic p) \<Rightarrow> (w', Panic p))"

definition relation_entries ::
    "('w, 'v) relation_cx \<Rightarrow> 'v relation_dir \<Rightarrow> (('w, 'v) relation_world, table_error, (symbol \<times> 'v) list) op" where
  "relation_entries R d = op_bind (relation_keys R d) (readable_entries R d)"

definition relation_len :: "('w, 'v) relation_cx \<Rightarrow> 'v relation_dir \<Rightarrow> (('w, 'v) relation_world, table_error, nat) op" where
  "relation_len R d = op_bind (relation_entries R d) (\<lambda>es. op_return (length es))"

definition relation_clear :: "('w, 'v) relation_cx \<Rightarrow> 'v relation_dir \<Rightarrow> (('w, 'v) relation_world, table_error, unit) op" where
  "relation_clear R d = op_bind (relation_execute R d (PlanClear (rd_path d))) (\<lambda>_. op_return ())"

definition relation_compare_exchange ::
    "symbol \<Rightarrow> table_expected \<Rightarrow> 'v table_replacement \<Rightarrow> (('w, 'v) relation_world, table_error, table_exchange) op" where
  "relation_compare_exchange k expected replacement = op_fail (Eval ''table/relation: use structured transaction'')"

definition relation_table :: "('w, 'v) relation_cx \<Rightarrow> 'v relation_dir \<Rightarrow> (('w, 'v) relation_world, 'v) table" where
  "relation_table R d =
     \<lparr>tb_get = relation_get R d, tb_set = relation_set R d, tb_has = relation_has R d, tb_del = relation_del R d,
      tb_keys = relation_keys R d, tb_entries = relation_entries R d, tb_len = relation_len R d,
      tb_clear = relation_clear R d, tb_compare_exchange = relation_compare_exchange\<rparr>"

definition relation_child :: "'v relation_dir \<Rightarrow> symbol \<Rightarrow> 'v relation_dir" where
  "relation_child d name = d\<lparr>rd_path := rd_path d @ [sym_name name]\<rparr>"

definition relation_mkdir :: "('w, 'v) relation_cx \<Rightarrow> 'v relation_dir \<Rightarrow> symbol \<Rightarrow> (('w, 'v) relation_world, table_error, 'v) op" where
  "relation_mkdir R d name =
     op_bind (relation_execute R d (PlanMkdir (rd_path d) name)) (\<lambda>_. op_res (rc_opaque R (relation_child d name)))"

definition relation_opendir ::
    "('w, 'v) relation_cx \<Rightarrow> 'v relation_dir \<Rightarrow> symbol \<Rightarrow> (('w, 'v) relation_world, table_error, 'v option) op" where
  "relation_opendir R d name =
     op_bind (relation_require_read R) (\<lambda>_.
     op_bind lock_state (\<lambda>s.
     op_bind (op_res (resolve_id s (rd_path d))) (\<lambda>p.
       case node_child s p name of
         None \<Rightarrow> op_return None
       | Some n \<Rightarrow>
           if nd_kind n \<noteq> DirNode then op_fail (Eval ''table/relation: not a directory'')
           else op_bind (op_res (rc_opaque R (relation_child d name))) (\<lambda>v. op_return (Some v)))))"

definition relation_rmdir :: "('w, 'v) relation_cx \<Rightarrow> 'v relation_dir \<Rightarrow> symbol \<Rightarrow> (('w, 'v) relation_world, table_error, 'v) op" where
  "relation_rmdir R d name =
     op_bind (relation_execute R d (PlanRmdir (rd_path d) name)) (\<lambda>_. op_res (cx_nil (rc_cx R)))"

definition relation_is_dir :: "('w, 'v) relation_cx \<Rightarrow> 'v relation_dir \<Rightarrow> symbol \<Rightarrow> (('w, 'v) relation_world, table_error, bool) op" where
  "relation_is_dir R d name =
     op_bind (relation_require_read R) (\<lambda>_.
     op_bind lock_state (\<lambda>s.
     op_bind (op_res (resolve_id s (rd_path d))) (\<lambda>p.
       op_return (case node_child s p name of Some n \<Rightarrow> nd_kind n = DirNode | None \<Rightarrow> False))))"

section \<open>The view of query rows\<close>

record ('q, 't, 'r) query_ops =
  qo_output :: "'q \<Rightarrow> 't"
  qo_fields :: "'t \<Rightarrow> (symbol \<times> bool) list"
  qo_row_type :: "'r \<Rightarrow> 't"
  qo_cells :: "'r \<Rightarrow> datum option list"

fun field_position :: "symbol \<Rightarrow> (symbol \<times> bool) list \<Rightarrow> nat option" where
  "field_position f [] = None"
| "field_position f ((name, nullable) # fs) = (if name = f then Some 0 else map_option Suc (field_position f fs))"

definition projection_admit :: "('q, 't, 'r) query_ops \<Rightarrow> 'q \<Rightarrow> symbol \<Rightarrow> (table_error, nat) res" where
  "projection_admit Q query f =
     res_bind (ok_or (field_position f (qo_fields Q (qo_output Q query))) (Eval ''table/relation-view: keyless plan'')) (\<lambda>i.
       if snd (qo_fields Q (qo_output Q query) ! i) then Err (Eval ''table/relation-view: nullable key'') else Ok i)"

record ('q, 'v) relation_view =
  rv_query :: 'q
  rv_rows :: "(symbol, 'v) btree_map"

text \<open>The key of a row: indexing past its cells panics.\<close>

definition view_key :: "('q, 't, 'r) query_ops \<Rightarrow> nat \<Rightarrow> 'r \<Rightarrow> (table_error, symbol) res" where
  "view_key Q i row =
     (if i \<ge> length (qo_cells Q row) then Panic ''index out of bounds''
      else case qo_cells Q row ! i of
        Some (DString v) \<Rightarrow> Ok (sym_new v)
      | Some (DSymbol s) \<Rightarrow> Ok s
      | _ \<Rightarrow> Err (Eval ''table/relation-view: key is not symbolic''))"

fun view_rows ::
    "('q, 't, 'r) query_ops \<Rightarrow> 'q \<Rightarrow> nat \<Rightarrow> ('r \<times> 'v) list \<Rightarrow> (symbol, 'v) btree_map \<Rightarrow> (table_error, (symbol, 'v) btree_map) res" where
  "view_rows Q query i [] out = Ok out"
| "view_rows Q query i ((row, v) # rows) out =
     (if qo_row_type Q row \<noteq> qo_output Q query then Err (Eval ''table/relation-view: row type mismatch'')
      else res_bind (view_key Q i row) (\<lambda>k.
        if bcontains out k then Err (Eval ''table/relation-view: duplicate key'')
        else view_rows Q query i rows (binsert k v out)))"

definition view_new ::
    "('q, 't, 'r) query_ops \<Rightarrow> 'q \<Rightarrow> nat \<Rightarrow> ('r \<times> 'v) list \<Rightarrow> (table_error, ('q, 'v) relation_view) res" where
  "view_new Q query i rows =
     res_bind (view_rows Q query i rows []) (\<lambda>out. Ok \<lparr>rv_query = query, rv_rows = out\<rparr>)"

definition view_get :: "('q, 'v) relation_view \<Rightarrow> symbol \<Rightarrow> (table_error, 'v) res" where
  "view_get V k = ok_or (bget (rv_rows V) k) (Eval ''table/relation-view: missing key'')"

definition view_read_only :: "(table_error, 'a) res" where
  "view_read_only = Err (Eval ''table/relation-view is read-only'')"

text \<open>The view as a table over any world; \<open>compare_exchange\<close> is the trait's default, a parameter.\<close>

definition view_table ::
    "(symbol \<Rightarrow> table_expected \<Rightarrow> 'v table_replacement \<Rightarrow> ('w, table_error, table_exchange) op) \<Rightarrow>
     ('q, 'v) relation_view \<Rightarrow> ('w, 'v) table" where
  "view_table exchange V =
     \<lparr>tb_get = (\<lambda>k. op_res (view_get V k)), tb_set = (\<lambda>k v. op_res view_read_only),
      tb_has = (\<lambda>k. op_return (bcontains (rv_rows V) k)), tb_del = (\<lambda>k. op_res view_read_only),
      tb_keys = op_return (bkeys (rv_rows V)), tb_entries = op_return (rv_rows V),
      tb_len = op_return (length (rv_rows V)), tb_clear = op_res view_read_only,
      tb_compare_exchange = exchange\<rparr>"

section \<open>The tree of rows\<close>

definition relation_inv :: "'v relation_state \<Rightarrow> bool" where
  "relation_inv s \<longleftrightarrow>
     bsorted (rs_nodes s) \<and>
     (\<forall>i n. (i, n) \<in> set (rs_nodes s) \<longrightarrow> nd_id n = i \<and> i < rs_next_id s \<and> (i \<noteq> 0 \<longrightarrow> nd_parent n < i)) \<and>
     (\<forall>i n j m. (i, n) \<in> set (rs_nodes s) \<longrightarrow> (j, m) \<in> set (rs_nodes s) \<longrightarrow>
        nd_parent n = nd_parent m \<longrightarrow> nd_name n = nd_name m \<longrightarrow> i = j) \<and>
     (\<exists>r. bget (rs_nodes s) 0 = Some r \<and> nd_kind r = DirNode)"

lemma relation_invI:
  assumes "bsorted (rs_nodes s)"
    and "\<And>i n. (i, n) \<in> set (rs_nodes s) \<Longrightarrow> nd_id n = i \<and> i < rs_next_id s \<and> (i \<noteq> 0 \<longrightarrow> nd_parent n < i)"
    and "\<And>i n j m. (i, n) \<in> set (rs_nodes s) \<Longrightarrow> (j, m) \<in> set (rs_nodes s) \<Longrightarrow>
        nd_parent n = nd_parent m \<Longrightarrow> nd_name n = nd_name m \<Longrightarrow> i = j"
    and "\<exists>r. bget (rs_nodes s) 0 = Some r \<and> nd_kind r = DirNode"
  shows "relation_inv s"
  unfolding relation_inv_def using assms by simp

lemma relation_invD:
  assumes "relation_inv s"
  shows "bsorted (rs_nodes s)" "(i, n) \<in> set (rs_nodes s) \<Longrightarrow> nd_id n = i" "(i, n) \<in> set (rs_nodes s) \<Longrightarrow> i < rs_next_id s"
    "(i, n) \<in> set (rs_nodes s) \<Longrightarrow> (j, m) \<in> set (rs_nodes s) \<Longrightarrow> nd_parent n = nd_parent m \<Longrightarrow> nd_name n = nd_name m \<Longrightarrow> i = j"
    "(i, n) \<in> set (rs_nodes s) \<Longrightarrow> i \<noteq> 0 \<Longrightarrow> nd_parent n < i"
    "\<exists>r. bget (rs_nodes s) 0 = Some r \<and> nd_kind r = DirNode"
  using assms by (simp_all add: relation_inv_def)

lemma relation_inv_open: "relation_inv (fst (relation_open codec))"
  by (simp add: relation_inv_def relation_open_def bsorted_def bget_def)

lemma in_values:
  assumes "relation_inv s"
  shows "n \<in> set (bvalues (rs_nodes s)) \<longleftrightarrow> (nd_id n, n) \<in> set (rs_nodes s)"
proof -
  have "n \<in> set (bvalues (rs_nodes s)) \<longleftrightarrow> (\<exists>i. (i, n) \<in> set (rs_nodes s))"
    unfolding bvalues_def by force
  then show ?thesis using relation_invD(2) [OF assms] by metis
qed

lemma find_Some_in: "List.find P xs = Some x \<Longrightarrow> x \<in> set xs \<and> P x"
  by (auto simp: find_Some_iff)

lemma find_unique:
  assumes "x \<in> set xs" and "P x" and "\<And>y. y \<in> set xs \<Longrightarrow> P y \<Longrightarrow> y = x"
  shows "List.find P xs = Some x"
proof (cases "List.find P xs")
  case None
  then show ?thesis using assms(1,2) by (auto simp: find_None_iff)
next
  case (Some y)
  then show ?thesis using find_Some_in assms(3) by metis
qed

lemma node_child_iff:
  assumes "relation_inv s"
  shows "node_child s p k = Some n \<longleftrightarrow> (nd_id n, n) \<in> set (rs_nodes s) \<and> nd_parent n = p \<and> nd_name n = k"
proof
  assume "node_child s p k = Some n"
  then show "(nd_id n, n) \<in> set (rs_nodes s) \<and> nd_parent n = p \<and> nd_name n = k"
    using find_Some_in [of _ "bvalues (rs_nodes s)" n] in_values [OF assms, of n] unfolding node_child_def by blast
next
  assume n: "(nd_id n, n) \<in> set (rs_nodes s) \<and> nd_parent n = p \<and> nd_name n = k"
  show "node_child s p k = Some n"
    unfolding node_child_def
  proof (rule find_unique)
    show "n \<in> set (bvalues (rs_nodes s))" using n in_values [OF assms] by blast
    fix m assume m: "m \<in> set (bvalues (rs_nodes s))" "nd_parent m = p \<and> nd_name m = k"
    then have "(nd_id m, m) \<in> set (rs_nodes s)" using in_values [OF assms] by blast
    moreover from this have "nd_id m = nd_id n" using relation_invD(4) [OF assms, of "nd_id m" m "nd_id n" n] n m by auto
    ultimately show "m = n" using n relation_invD(1) [OF assms] by (metis bget_mem option.inject)
  qed (use n in blast)
qed

lemma node_child_None:
  "node_child s p k = None \<longleftrightarrow> (\<forall>(i, n)\<in>set (rs_nodes s). \<not> (nd_parent n = p \<and> nd_name n = k))"
  by (auto simp: node_child_def find_None_iff bvalues_def)

text \<open>Adding a row that is a sibling of none, changing the content of a row, and removing a row keep the tree.\<close>

lemma relation_inv_add:
  assumes "relation_inv s" and "rs_next_id s + 1 > rs_next_id s" and "node_child s p k = None" and "p < rs_next_id s"
    and "\<And>i. nd_id (mk i) = i" "\<And>i. nd_parent (mk i) = p" "\<And>i. nd_name (mk i) = k"
  shows "relation_inv (add_node s mk)"
proof -
  let ?i = "rs_next_id s" and ?nodes = "binsert (rs_next_id s) (mk (rs_next_id s)) (rs_nodes s)"
  note inv = relation_invD [OF assms(1)]
  have sorted: "bsorted ?nodes" using inv(1) by (rule bsorted_binsert)
  have mem: "(i, n) \<in> set ?nodes \<longleftrightarrow> (i = ?i \<and> n = mk ?i) \<or> (i, n) \<in> set (rs_nodes s)" for i n
  proof -
    have "(i, n) \<in> set ?nodes \<longleftrightarrow> (if i = ?i then n = mk ?i else (i, n) \<in> set (rs_nodes s))"
      using sorted inv(1) by (auto simp: bget_mem)
    then show ?thesis using inv(3) [of i n] by auto
  qed
  have new: "nd_parent n = p \<Longrightarrow> nd_name n = k \<Longrightarrow> (i, n) \<notin> set (rs_nodes s)" for i n
    using assms(3) by (auto simp: node_child_None)
  have "?i \<noteq> 0" using assms(4) by auto
  show ?thesis
  proof (rule relation_invI)
    show "bsorted (rs_nodes (add_node s mk))" using sorted by (simp add: add_node_def)
    show "\<exists>r. bget (rs_nodes (add_node s mk)) 0 = Some r \<and> nd_kind r = DirNode"
      using inv(6) \<open>?i \<noteq> 0\<close> by (simp add: add_node_def)
  next
    fix i n assume "(i, n) \<in> set (rs_nodes (add_node s mk))"
    then consider "i = ?i" "n = mk ?i" | "(i, n) \<in> set (rs_nodes s)" by (auto simp: add_node_def mem)
    then show "nd_id n = i \<and> i < rs_next_id (add_node s mk) \<and> (i \<noteq> 0 \<longrightarrow> nd_parent n < i)"
    proof cases
      case 1
      then show ?thesis using assms(2,4,5,6) by (simp add: add_node_def)
    next
      case 2
      then show ?thesis using inv(2,3,5) assms(2) by (force simp: add_node_def dest: less_trans)
    qed
  next
    fix i n j m
    assume "(i, n) \<in> set (rs_nodes (add_node s mk))" "(j, m) \<in> set (rs_nodes (add_node s mk))"
      and same: "nd_parent n = nd_parent m" "nd_name n = nd_name m"
    then have "i = ?i \<and> n = mk ?i \<or> (i, n) \<in> set (rs_nodes s)" "j = ?i \<and> m = mk ?i \<or> (j, m) \<in> set (rs_nodes s)"
      by (simp_all add: add_node_def mem)
    then show "i = j" using same new assms(6,7) inv(4) by metis
  qed
qed

lemma relation_inv_remove:
  assumes "relation_inv s" and "i \<noteq> 0"
  shows "relation_inv (remove_node s i)"
proof (rule relation_invI)
  note inv = relation_invD [OF assms(1)]
  have sub: "(j, n) \<in> set (bremove i (rs_nodes s)) \<Longrightarrow> (j, n) \<in> set (rs_nodes s)" for j n
    by (simp add: bremove_def)
  show "bsorted (rs_nodes (remove_node s i))" using inv(1) by (simp add: remove_node_def bsorted_bremove)
  show "\<exists>r. bget (rs_nodes (remove_node s i)) 0 = Some r \<and> nd_kind r = DirNode"
    using inv(6) assms(2) by (simp add: remove_node_def)
  show "nd_id n = j \<and> j < rs_next_id (remove_node s i) \<and> (j \<noteq> 0 \<longrightarrow> nd_parent n < j)"
    if "(j, n) \<in> set (rs_nodes (remove_node s i))" for j n
  proof -
    have "(j, n) \<in> set (rs_nodes s)" using that sub by (simp add: remove_node_def)
    then show ?thesis using inv(2) inv(3) [of j n] inv(5) by (simp add: remove_node_def)
  qed
  show "j = k" if "(j, n) \<in> set (rs_nodes (remove_node s i))" "(k, m) \<in> set (rs_nodes (remove_node s i))"
      "nd_parent n = nd_parent m" "nd_name n = nd_name m" for j n k m
    using inv(4) [OF sub sub, of j n k m] that by (simp add: remove_node_def)
qed

lemma relation_inv_remove_all: "relation_inv s \<Longrightarrow> 0 \<notin> set is \<Longrightarrow> relation_inv (foldl remove_node s is)"
  by (induction "is" arbitrary: s) (auto simp: relation_inv_remove)

lemma remove_all_next: "rs_next_id (foldl remove_node s is) = rs_next_id s \<and> rs_generation (foldl remove_node s is) = rs_generation s \<and>
    set (rs_nodes (foldl remove_node s is)) \<subseteq> set (rs_nodes s)"
proof (induction "is" arbitrary: s)
  case (Cons i "is")
  have "set (rs_nodes (remove_node s i)) \<subseteq> set (rs_nodes s)" by (auto simp: remove_node_def bremove_def)
  then show ?case using Cons.IH [of "remove_node s i"] by (auto simp: remove_node_def)
qed simp

definition put_node :: "'v relation_state \<Rightarrow> u64 \<Rightarrow> 'v node \<Rightarrow> 'v relation_state" where
  "put_node s i n = s\<lparr>rs_nodes := binsert i n (rs_nodes s)\<rparr>"

lemma put_node_mem:
  assumes "relation_inv s"
  shows "(j, n') \<in> set (rs_nodes (put_node s i n)) \<longleftrightarrow> (if j = i then n' = n else (j, n') \<in> set (rs_nodes s))"
  using relation_invD(1) [OF assms] bsorted_binsert [of "rs_nodes s" i n] by (auto simp: put_node_def bget_mem)

text \<open>New content for a row that keeps its place.\<close>

lemma relation_inv_put:
  assumes "relation_inv s" and "(i, m) \<in> set (rs_nodes s)"
    and "nd_id n = i" "nd_parent n = nd_parent m" "nd_name n = nd_name m" "nd_kind n = nd_kind m"
  shows "relation_inv (put_node s i n)"
proof -
  note inv = relation_invD [OF assms(1)]
  have old: "\<exists>m'. (j, m') \<in> set (rs_nodes s) \<and> nd_parent m' = nd_parent n' \<and> nd_name m' = nd_name n'"
    if "(j, n') \<in> set (rs_nodes (put_node s i n))" for j n'
    using that assms(2,4,5) by (auto simp: put_node_mem [OF assms(1)] split: if_splits)
  show ?thesis
  proof (rule relation_invI)
    show "bsorted (rs_nodes (put_node s i n))" using inv(1) by (simp add: put_node_def bsorted_binsert)
    obtain r where "bget (rs_nodes s) 0 = Some r" "nd_kind r = DirNode" using inv(6) by blast
    moreover have "i = 0 \<Longrightarrow> bget (rs_nodes s) 0 = Some m" using assms(2) inv(1) by (simp add: bget_mem)
    ultimately show "\<exists>r. bget (rs_nodes (put_node s i n)) 0 = Some r \<and> nd_kind r = DirNode"
      using assms(6) by (auto simp: put_node_def)
  next
    fix j n' assume n': "(j, n') \<in> set (rs_nodes (put_node s i n))"
    then obtain m' where "(j, m') \<in> set (rs_nodes s)" "nd_parent m' = nd_parent n'" using old by blast
    then have "j < rs_next_id s" "j \<noteq> 0 \<longrightarrow> nd_parent n' < j" using inv(3) [of j m'] inv(5) [of j m'] by auto
    moreover have "nd_id n' = j" using n' inv(2) assms(3) by (auto simp: put_node_mem [OF assms(1)] split: if_splits)
    ultimately show "nd_id n' = j \<and> j < rs_next_id (put_node s i n) \<and> (j \<noteq> 0 \<longrightarrow> nd_parent n' < j)"
      by (simp add: put_node_def)
  next
    fix j n1 k n2
    assume "(j, n1) \<in> set (rs_nodes (put_node s i n))" "(k, n2) \<in> set (rs_nodes (put_node s i n))"
      "nd_parent n1 = nd_parent n2" "nd_name n1 = nd_name n2"
    then show "j = k" using old inv(4) by metis
  qed
qed

text \<open>Rows of an earlier state keep their place, their name and their kind as long as they live.\<close>

definition rows_kept :: "'v relation_state \<Rightarrow> 'v relation_state \<Rightarrow> bool" where
  "rows_kept s s' \<longleftrightarrow> rs_next_id s \<le> rs_next_id s' \<and>
     (\<forall>i n'. (i, n') \<in> set (rs_nodes s') \<longrightarrow> i < rs_next_id s \<longrightarrow>
        (\<exists>n. (i, n) \<in> set (rs_nodes s) \<and> nd_parent n' = nd_parent n \<and> nd_name n' = nd_name n \<and> nd_kind n' = nd_kind n))"

lemma rows_kept_refl: "rows_kept s s"
  by (auto simp: rows_kept_def)

lemma rows_kept_trans:
  assumes "rows_kept s t" and "rows_kept t u"
  shows "rows_kept s u"
  unfolding rows_kept_def
proof (intro conjI allI impI)
  show "rs_next_id s \<le> rs_next_id u" using assms by (auto simp: rows_kept_def)
  fix i n'' assume i: "(i, n'') \<in> set (rs_nodes u)" "i < rs_next_id s"
  moreover have "i < rs_next_id t" using i(2) assms(1) by (auto simp: rows_kept_def)
  ultimately obtain n' where n': "(i, n') \<in> set (rs_nodes t)" "nd_parent n'' = nd_parent n'" "nd_name n'' = nd_name n'"
      "nd_kind n'' = nd_kind n'"
    using assms(2) unfolding rows_kept_def by blast
  then obtain n where "(i, n) \<in> set (rs_nodes s)" "nd_parent n' = nd_parent n" "nd_name n' = nd_name n" "nd_kind n' = nd_kind n"
    using assms(1) i(2) unfolding rows_kept_def by blast
  then show "\<exists>n. (i, n) \<in> set (rs_nodes s) \<and> nd_parent n'' = nd_parent n \<and> nd_name n'' = nd_name n \<and> nd_kind n'' = nd_kind n"
    using n' by auto
qed

lemma resolve_bound:
  assumes "relation_inv s"
  shows "i < rs_next_id s \<Longrightarrow> resolve_from s i path = Ok j \<Longrightarrow> j < rs_next_id s"
proof (induction path arbitrary: i)
  case (Cons part path)
  then obtain n where "List.find (\<lambda>n. nd_parent n = i \<and> sym_name (nd_name n) = part) (bvalues (rs_nodes s)) = Some n"
      "resolve_from s (nd_id n) path = Ok j"
    by (auto split: option.splits)
  moreover from this have "n \<in> set (bvalues (rs_nodes s))" using find_Some_in by fast
  then have "nd_id n < rs_next_id s" using in_values [OF assms] relation_invD(3) [OF assms] by blast
  ultimately show ?case using Cons.IH by blast
qed simp

lemma root_bound:
  assumes "relation_inv s"
  shows "0 < rs_next_id s"
proof -
  obtain r where "bget (rs_nodes s) 0 = Some r" using relation_invD(6) [OF assms] by blast
  then show ?thesis using relation_invD(3) [OF assms] bget_Some_mem by fast
qed

lemma resolve_id_bound: "relation_inv s \<Longrightarrow> resolve_id s path = Ok j \<Longrightarrow> j < rs_next_id s"
  unfolding resolve_id_def using resolve_bound root_bound by blast

lemma value_not_root:
  assumes "relation_inv s" and "(i, n) \<in> set (rs_nodes s)" and "nd_kind n \<noteq> DirNode"
  shows "i \<noteq> 0"
proof -
  have "bget (rs_nodes s) i = Some n" using assms(2) relation_invD(1) [OF assms(1)] by (simp add: bget_mem)
  then show ?thesis using relation_invD(6) [OF assms(1)] assms(3) by auto
qed

lemma add_node_rows:
  assumes "relation_inv s" and "rs_next_id s + 1 > rs_next_id s"
  shows "rows_kept s (add_node s mk)"
proof -
  have "(i, n) \<in> set (rs_nodes s)" if "(i, n) \<in> set (rs_nodes (add_node s mk))" "i < rs_next_id s" for i n
    using that relation_invD(1) [OF assms(1)] bsorted_binsert [of "rs_nodes s"] by (auto simp: add_node_def bget_mem split: if_splits)
  then show ?thesis using assms(2) by (force simp: rows_kept_def add_node_def)
qed

lemma remove_rows: "set (rs_nodes s') \<subseteq> set (rs_nodes s) \<Longrightarrow> rs_next_id s' = rs_next_id s \<Longrightarrow> rows_kept s s'"
  by (auto simp: rows_kept_def)

lemma apply_plan_inv:
  assumes inv: "relation_inv s" and room: "rs_next_id s + 1 > rs_next_id s" and parent: "parent < rs_next_id s"
    and run: "apply_plan C codec parent plan s = Ok (Some (s', r))"
  shows "relation_inv s' \<and> rows_kept s s' \<and> rs_generation s' = rs_generation s \<and> rs_next_id s' \<le> rs_next_id s + 1"
proof (cases plan)
  case (PlanSet p name v bytes)
  show ?thesis
  proof (cases "node_child s parent name")
    case None
    then have s': "s' = add_node s (\<lambda>i. \<lparr>nd_id = i, nd_parent = parent, nd_name = name, nd_kind = ValueNode,
          nd_bytes = bytes, nd_codec = vc_identity codec, nd_value = Some v\<rparr>)"
      using run PlanSet by (simp split: if_splits)
    have "relation_inv s'" unfolding s' by (rule relation_inv_add [OF inv room None parent]) simp_all
    then show ?thesis using add_node_rows [OF inv room] by (simp add: s') (simp add: add_node_def)
  next
    case (Some n)
    then have n: "(nd_id n, n) \<in> set (rs_nodes s)" using node_child_iff [OF inv] by blast
    then have "bget (rs_nodes s) (nd_id n) = Some n" using relation_invD(1) [OF inv] by (simp add: bget_mem)
    then have s': "s' = put_node s (nd_id n) (n\<lparr>nd_bytes := bytes, nd_codec := vc_identity codec, nd_value := Some v\<rparr>)"
      using run PlanSet Some by (simp add: put_node_def split: if_splits)
    have "relation_inv s'" unfolding s' by (rule relation_inv_put [OF inv n]) simp_all
    moreover have "rows_kept s s'"
      using n by (auto simp: s' rows_kept_def put_node_mem [OF inv]) (auto simp: put_node_def)
    ultimately show ?thesis using room by (simp add: s' put_node_def)
  qed
next
  case (PlanDelete p name)
  then obtain n where n: "node_child s parent name = Some n" "nd_kind n \<noteq> DirNode" "s' = remove_node s (nd_id n)"
    using run by (auto split: option.splits if_splits)
  then have "nd_id n \<noteq> 0" using value_not_root [OF inv] node_child_iff [OF inv] by blast
  moreover have "rows_kept s s'" unfolding n(3) by (rule remove_rows) (auto simp: remove_node_def bremove_def)
  ultimately show ?thesis using relation_inv_remove [OF inv] n(3) room by (simp add: remove_node_def)
next
  case (PlanMkdir p name)
  then have s': "s' = add_node s (\<lambda>i. \<lparr>nd_id = i, nd_parent = parent, nd_name = name, nd_kind = DirNode,
        nd_bytes = [], nd_codec = vc_identity codec, nd_value = None\<rparr>)" and None: "node_child s parent name = None"
    using run by (auto split: if_splits)
  have "relation_inv s'" unfolding s' by (rule relation_inv_add [OF inv room None parent]) simp_all
  then show ?thesis using add_node_rows [OF inv room] by (simp add: s') (simp add: add_node_def)
next
  case (PlanRmdir p name)
  then obtain n where n: "node_child s parent name = Some n" "nd_id n \<noteq> 0" "s' = remove_node s (nd_id n)"
    using run by (auto split: option.splits if_splits)
  have "rows_kept s s'" unfolding n(3) by (rule remove_rows) (auto simp: remove_node_def bremove_def)
  then show ?thesis using relation_inv_remove [OF inv n(2)] n(3) room by (simp add: remove_node_def)
next
  case (PlanClear p)
  let ?is = "map nd_id (filter (\<lambda>n. nd_parent n = parent \<and> nd_kind n = ValueNode) (bvalues (rs_nodes s)))"
  have s': "s' = foldl remove_node s ?is" using run PlanClear by simp
  have "0 \<notin> set ?is"
  proof
    assume "0 \<in> set ?is"
    then obtain n where "n \<in> set (bvalues (rs_nodes s))" "nd_kind n = ValueNode" "nd_id n = 0" by auto
    then show False using value_not_root [OF inv, of "nd_id n" n] in_values [OF inv, of n] by simp
  qed
  then show ?thesis
    using relation_inv_remove_all [OF inv] remove_all_next [of s ?is] remove_rows [of s' s] s' room by simp
qed

section \<open>Commits\<close>

lemma publish_keeps_state: "rw_state (fst (publish_head R d old new w)) = rw_state w"
proof -
  have "op_keeps (\<lambda>u v. rw_state v = rw_state u) (publish_head R d old new)"
    unfolding publish_head_def
    by (auto intro!: op_keeps_bind op_keeps_pure op_keeps_cases reflpI transpI
        simp: op_keeps_def [of _ "relation_on_base _"] relation_on_base_def split: option.split prod.split)
  then show ?thesis by (simp add: op_keeps_def)
qed

lemma execute_cases:
  assumes "relation_execute R d plan w = (w', r)"
  shows "(w' = w \<and> (is_ok r \<longrightarrow> r = Ok None)) \<or>
    (\<exists>new q. publish_head R d (rs_generation (rw_state w)) new w = (w', q) \<and> \<not> is_ok q \<and> \<not> is_ok r) \<or>
    (\<exists>parent s x w1. resolve_id (rw_state w) (plan_path plan) = Ok parent \<and>
       apply_plan (rc_cx R) (rd_codec d) parent plan (rw_state w) = Ok (Some (s, x)) \<and>
       publish_head R d (rs_generation (rw_state w)) (rs_generation s + 1) w = (w1, Ok ()) \<and>
       w' = w1\<lparr>rw_state := s\<lparr>rs_generation := rs_generation s + 1\<rparr>\<rparr> \<and> r = Ok x)"
proof -
  let ?s = "rw_state w"
  show ?thesis
  proof (cases "cx_granted (rc_cx R) relation_namespace_capability \<and> cx_granted (rc_cx R) relation_table_write_capability")
    case False
    then have "w' = w" "\<not> is_ok r"
      using assms by (auto simp: relation_execute_def op_bind_def op_simps cx_require_def split: if_splits)
    then show ?thesis by simp
  next
    case granted: True
    have run: "(w', r) = op_bind (op_res (resolve_id ?s (plan_path plan))) (\<lambda>parent.
       op_bind (op_res (apply_plan (rc_cx R) (rd_codec d) parent plan ?s)) (\<lambda>applied.
         case applied of
           None \<Rightarrow> op_return None
         | Some (s, result) \<Rightarrow>
             op_bind (publish_head R d (rs_generation ?s) (rs_generation s + 1)) (\<lambda>_ w.
               (w\<lparr>rw_state := s\<lparr>rs_generation := rs_generation s + 1\<rparr>\<rparr>, Ok result)))) w"
      using assms granted by (simp add: relation_execute_def lock_state_def op_bind_def op_simps cx_require_def)
    show ?thesis
    proof (cases "\<exists>parent s x. resolve_id ?s (plan_path plan) = Ok parent \<and>
        apply_plan (rc_cx R) (rd_codec d) parent plan ?s = Ok (Some (s, x))")
      case False
      then have "w' = w \<and> (is_ok r \<longrightarrow> r = Ok None)"
        using run by (auto simp: op_bind_def op_simps split: res.splits option.splits)
      then show ?thesis by simp
    next
      case True
      then obtain parent s x where p: "resolve_id ?s (plan_path plan) = Ok parent"
          "apply_plan (rc_cx R) (rd_codec d) parent plan ?s = Ok (Some (s, x))" by blast
      obtain w1 q where q: "publish_head R d (rs_generation ?s) (rs_generation s + 1) w = (w1, q)"
        by (cases "publish_head R d (rs_generation ?s) (rs_generation s + 1) w")
      have finish: "(w', r) = (case q of Ok _ \<Rightarrow> (w1\<lparr>rw_state := s\<lparr>rs_generation := rs_generation s + 1\<rparr>\<rparr>, Ok x)
          | Err e \<Rightarrow> (w1, Err e) | Panic e \<Rightarrow> (w1, Panic e))"
        using run p q by (cases q) (simp_all add: op_bind_def op_simps)
      show ?thesis
      proof (cases "is_ok q")
        case True
        then show ?thesis using finish p q by (auto simp: is_ok_iff)
      next
        case False
        then have "w' = w1" "\<not> is_ok r" using finish by (cases q; simp)+
        then show ?thesis using False q by blast
      qed
    qed
  qed
qed

text \<open>The calls that write; the others only read the state.\<close>

datatype 'v relation_call =
    RelSet symbol 'v
  | RelDel symbol
  | RelClear
  | RelMkdir symbol
  | RelRmdir symbol

fun relation_exec ::
    "('w, 'v) relation_cx \<Rightarrow> 'v relation_dir \<times> 'v relation_call \<Rightarrow> ('w, 'v) relation_world \<Rightarrow> ('w, 'v) relation_world" where
  "relation_exec R (d, RelSet k v) w = fst (relation_set R d k v w)"
| "relation_exec R (d, RelDel k) w = fst (relation_del R d k w)"
| "relation_exec R (d, RelClear) w = fst (relation_clear R d w)"
| "relation_exec R (d, RelMkdir k) w = fst (relation_mkdir R d k w)"
| "relation_exec R (d, RelRmdir k) w = fst (relation_rmdir R d k w)"

definition relation_history ::
    "('w, 'v) relation_cx \<Rightarrow> ('v relation_dir \<times> 'v relation_call) list \<Rightarrow> ('w, 'v) relation_world \<Rightarrow> ('w, 'v) relation_world" where
  "relation_history R cs w = foldl (\<lambda>w c. relation_exec R c w) w cs"

lemma bind_read_world: "(\<And>x w. fst (f x w) = w) \<Longrightarrow> fst (op_bind m f w) = fst (m w)"
  by (auto simp: op_bind_def split: prod.split res.split)

text \<open>Every write is a plan, and its world is the world the plan leaves.\<close>

lemma relation_exec_plan: "relation_exec R (d, c) w = w \<or> (\<exists>plan. relation_exec R (d, c) w = fst (relation_execute R d plan w))"
proof (cases c)
  case (RelSet k v)
  show ?thesis
  proof (cases "vc_encode (rd_codec d) v")
    case (Ok bytes)
    then have "relation_exec R (d, c) w = fst (relation_execute R d (PlanSet (rd_path d) k v bytes) w)"
      using RelSet bind_read_world [of "\<lambda>_. op_return ()"] by (simp add: relation_set_def op_bind_def [of "op_res _"] op_simps)
    then show ?thesis by blast
  qed (use RelSet in \<open>simp_all add: relation_set_def op_bind_def op_simps\<close>)
qed (auto simp: relation_del_def relation_clear_def relation_mkdir_def relation_rmdir_def bind_read_world op_simps)

lemma relation_reads_pure:
  "fst (relation_get R d k w) = w" "fst (relation_has R d k w) = w" "fst (relation_keys R d w) = w"
  "fst (relation_opendir R d k w) = w" "fst (relation_is_dir R d k w) = w"
proof -
  have pure: "op_keeps (\<lambda>u v. v = u) m \<Longrightarrow> fst (m w) = w" for m :: "(('a, 'b) relation_world, table_error, 'c) op"
    by (simp add: op_keeps_def)
  note defs = relation_get_def relation_has_def relation_keys_def relation_opendir_def relation_is_dir_def
    relation_require_read_def lock_state_def
  show "fst (relation_get R d k w) = w" "fst (relation_has R d k w) = w" "fst (relation_keys R d w) = w"
      "fst (relation_opendir R d k w) = w" "fst (relation_is_dir R d k w) = w"
    unfolding defs by (rule pure, auto intro!: op_keeps_bind op_keeps_pure op_keeps_cases reflpI transpI)+
qed

definition relation_room :: "'v relation_state \<Rightarrow> nat \<Rightarrow> bool" where
  "relation_room s n \<longleftrightarrow> unat (rs_next_id s) + n < 2 ^ 64 \<and> unat (rs_generation s) + n < 2 ^ 64"

lemma u64_succ: "unat (x :: u64) + Suc n < 2 ^ 64 \<Longrightarrow> unat (x + 1) = Suc (unat x) \<and> x + 1 > x"
  by (simp add: unat_word_ariths word_less_nat_alt)

lemma execute_inv:
  assumes "relation_inv (rw_state w)" and "relation_room (rw_state w) (Suc n)" and "relation_execute R d plan w = (w', r)"
  shows "relation_inv (rw_state w') \<and> rows_kept (rw_state w) (rw_state w') \<and> relation_room (rw_state w') n"
  using execute_cases [OF assms(3)]
proof (elim disjE exE conjE)
  assume "w' = w"
  then show ?thesis using assms(1,2) by (simp add: rows_kept_refl relation_room_def)
next
  fix new q assume "publish_head R d (rs_generation (rw_state w)) new w = (w', q)"
  then have "rw_state w' = rw_state w" using publish_keeps_state [of R d _ new w] by (metis fst_conv)
  then show ?thesis using assms(1,2) by (simp add: rows_kept_refl relation_room_def)
next
  fix parent s x w1
  assume p: "resolve_id (rw_state w) (plan_path plan) = Ok parent"
    and a: "apply_plan (rc_cx R) (rd_codec d) parent plan (rw_state w) = Ok (Some (s, x))"
    and w': "w' = w1\<lparr>rw_state := s\<lparr>rs_generation := rs_generation s + 1\<rparr>\<rparr>"
  have next_id: "unat (rs_next_id (rw_state w) + 1) = Suc (unat (rs_next_id (rw_state w)))"
      "rs_next_id (rw_state w) + 1 > rs_next_id (rw_state w)"
    using assms(2) u64_succ unfolding relation_room_def by blast+
  have gen: "unat (rs_generation (rw_state w) + 1) = Suc (unat (rs_generation (rw_state w)))"
    using assms(2) u64_succ unfolding relation_room_def by blast
  note i = apply_plan_inv [OF assms(1) next_id(2) resolve_id_bound [OF assms(1) p] a]
  have "relation_inv (rw_state w')" "rows_kept (rw_state w) (rw_state w')"
    using i by (simp_all add: w' relation_inv_def rows_kept_def)
  moreover have "unat (rs_next_id s) \<le> Suc (unat (rs_next_id (rw_state w)))"
    using i next_id(1) by (simp add: word_le_nat_alt)
  ultimately show ?thesis using i gen assms(2) by (simp add: w' relation_room_def)
qed

lemma relation_history_step: "relation_history R (c # cs) w = relation_history R cs (relation_exec R c w)"
  by (simp add: relation_history_def)


section \<open>The head slot\<close>

text \<open>
  What the table of the head promises for its slot: a compare-exchange compares the slot as an
  expression and writes the replacement when they agree, failing or not it does nothing else to the
  slot; and the text the factory makes reads back as that text.
\<close>

definition slot_met :: "table_expected \<Rightarrow> expr option \<Rightarrow> bool" where
  "slot_met expected slot = (case expected of ExpectAbsent \<Rightarrow> slot = None | ExpectValue e \<Rightarrow> slot = Some e)"

definition head_law :: "'v cx \<Rightarrow> ('w, 'v) table \<Rightarrow> symbol \<Rightarrow> ('w \<Rightarrow> expr option) \<Rightarrow> bool" where
  "head_law C t key slot \<longleftrightarrow>
     (\<forall>expected v b b' r. tb_compare_exchange t key expected (ReplaceValue v) b = (b', r) \<longrightarrow>
        (case r of
           Ok x \<Rightarrow> tx_exchanged x = slot_met expected (slot b) \<and>
             (\<forall>e. as_expr C v = Ok e \<longrightarrow> slot b' = (if tx_exchanged x then Some e else slot b))
         | _ \<Rightarrow> slot b' = slot b)) \<and>
     (\<forall>s v. cx_string C s = Ok v \<longrightarrow> as_expr C v = Ok (EString s))"

definition head_text :: "u64 \<Rightarrow> expr option" where
  "head_text g = (if g = 0 then None else Some (EString (u64_to_string g)))"

lemma head_text_expected: "slot_met (if g = 0 then ExpectAbsent else ExpectValue (EString (u64_to_string g))) slot \<longleftrightarrow> slot = head_text g"
  by (auto simp: slot_met_def head_text_def)

lemma publish_head_cases:
  assumes "head_law (rc_cx R) t key slot" and "rc_table R head = Some t" and "rd_head d = Some (head, key)"
    and "publish_head R d old new w = (w', r)"
  shows "(r = Ok () \<longrightarrow> slot (rw_base w) = head_text old \<and> slot (rw_base w') = Some (EString (u64_to_string new))) \<and>
    (\<not> is_ok r \<longrightarrow> slot (rw_base w') = slot (rw_base w))"
proof (cases "cx_string (rc_cx R) (u64_to_string new)")
  case (Ok v)
  let ?e = "if old = 0 then ExpectAbsent else ExpectValue (EString (u64_to_string old))"
  obtain b q where q: "tb_compare_exchange t key ?e (ReplaceValue v) (rw_base w) = (b, q)"
    by (cases "tb_compare_exchange t key ?e (ReplaceValue v) (rw_base w)")
  have v: "as_expr (rc_cx R) v = Ok (EString (u64_to_string new))" using assms(1) Ok by (simp add: head_law_def)
  have run: "(w', r) = (case q of Ok x \<Rightarrow> (w\<lparr>rw_base := b\<rparr>, if tx_exchanged x then Ok () else Err (Eval ''table/relation: stale namespace head''))
        | Err e \<Rightarrow> (w\<lparr>rw_base := b\<rparr>, Err e) | Panic p \<Rightarrow> (w\<lparr>rw_base := b\<rparr>, Panic p))"
    using assms(2,3,4) Ok q by (cases q) (auto simp: publish_head_def op_bind_def op_simps relation_on_base_def)
  have law: "case q of Ok x \<Rightarrow> tx_exchanged x = slot_met ?e (slot (rw_base w)) \<and>
        slot b = (if tx_exchanged x then Some (EString (u64_to_string new)) else slot (rw_base w))
      | _ \<Rightarrow> slot b = slot (rw_base w)"
    using assms(1) q v unfolding head_law_def by (cases q) fastforce+
  then show ?thesis
    using run head_text_expected [of old "slot (rw_base w)"] by (cases q) (auto split: if_splits)
qed (use assms in \<open>auto simp: publish_head_def op_bind_def op_simps\<close>)

lemma execute_head:
  assumes law: "head_law (rc_cx R) t key slot" "rc_table R head = Some t" "rd_head d = Some (head, key)"
    and inv: "relation_inv (rw_state w)" and room: "relation_room (rw_state w) (Suc n)"
    and run: "relation_execute R d plan w = (w', r)"
  shows "(rw_state w' = rw_state w \<and> slot (rw_base w') = slot (rw_base w) \<and> (is_ok r \<longrightarrow> w' = w)) \<or>
    (slot (rw_base w) = head_text (rs_generation (rw_state w)) \<and> rs_generation (rw_state w') = rs_generation (rw_state w) + 1 \<and>
     slot (rw_base w') = head_text (rs_generation (rw_state w')))"
  using execute_cases [OF run]
proof (elim disjE exE conjE)
  fix new q assume q: "publish_head R d (rs_generation (rw_state w)) new w = (w', q)" "\<not> is_ok q" "\<not> is_ok r"
  then have "rw_state w' = rw_state w" using publish_keeps_state [of R d _ new w] by (metis fst_conv)
  then show ?thesis using publish_head_cases [OF law q(1)] q(2,3) by simp
next
  fix parent s x w1
  assume p: "resolve_id (rw_state w) (plan_path plan) = Ok parent"
    and a: "apply_plan (rc_cx R) (rd_codec d) parent plan (rw_state w) = Ok (Some (s, x))"
    and pub: "publish_head R d (rs_generation (rw_state w)) (rs_generation s + 1) w = (w1, Ok ())"
    and w': "w' = w1\<lparr>rw_state := s\<lparr>rs_generation := rs_generation s + 1\<rparr>\<rparr>"
  have "rs_next_id (rw_state w) + 1 > rs_next_id (rw_state w)" "unat (rs_generation (rw_state w) + 1) = Suc (unat (rs_generation (rw_state w)))"
    using room u64_succ unfolding relation_room_def by blast+
  then have gen: "rs_generation s = rs_generation (rw_state w)" "rs_generation (rw_state w) + 1 \<noteq> 0"
    using apply_plan_inv [OF inv _ resolve_id_bound [OF inv p] a] by auto
  then show ?thesis using publish_head_cases [OF law pub] w' by (simp add: head_text_def)
qed simp

text \<open>C28: With a head slot the slot always shows the generation of the state: through every history of writes by
  handles with that head the slot holds the text of the current generation, or nothing at generation
  zero. The exchange and the commit are one: no commit without it, and no exchange without a commit.\<close>

theorem relation_head_tracks:
  assumes "head_law (rc_cx R) t key slot" and "rc_table R head = Some t"
    and "list_all (\<lambda>(d, c). rd_head d = Some (head, key)) cs"
    and "relation_inv (rw_state w)" and "relation_room (rw_state w) (length cs)"
    and "slot (rw_base w) = head_text (rs_generation (rw_state w))"
  shows "slot (rw_base (relation_history R cs w)) = head_text (rs_generation (rw_state (relation_history R cs w)))"
  using assms(3-)
proof (induction cs arbitrary: w)
  case Nil
  then show ?case by (simp add: relation_history_def)
next
  case (Cons c cs)
  let ?w = "relation_exec R c w"
  obtain d call where c: "c = (d, call)" by (cases c)
  have "relation_inv (rw_state ?w) \<and> relation_room (rw_state ?w) (length cs) \<and> slot (rw_base ?w) = head_text (rs_generation (rw_state ?w))"
  proof (cases "?w = w")
    case True
    then show ?thesis using Cons.prems by (simp add: relation_room_def)
  next
    case False
    then obtain plan where "?w = fst (relation_execute R d plan w)" using relation_exec_plan c by metis
    then obtain r where run: "relation_execute R d plan w = (?w, r)" by (metis prod.collapse)
    have room: "relation_room (rw_state w) (Suc (length cs))" and d: "rd_head d = Some (head, key)"
      using Cons.prems(1,3) c by simp_all
    from execute_head [OF assms(1,2) d Cons.prems(2) room run] execute_inv [OF Cons.prems(2) room run]
    show ?thesis using Cons.prems(4) by auto
  qed
  then show ?case using Cons.IH [of ?w] Cons.prems(1) by (simp add: relation_history_step)
qed

text \<open>A state whose head slot was moved by another writer commits nothing: while the slot differs from its
  generation every write leaves the rows and the slot as they are, and reports success only where there
  was nothing to do.\<close>

theorem relation_stale_refused:
  assumes "head_law (rc_cx R) t key slot" and "rc_table R head = Some t" and "rd_head d = Some (head, key)"
    and "relation_inv (rw_state w)" and "relation_room (rw_state w) 1"
    and "slot (rw_base w) \<noteq> head_text (rs_generation (rw_state w))"
    and "relation_execute R d plan w = (w', r)"
  shows "rw_state w' = rw_state w \<and> slot (rw_base w') = slot (rw_base w) \<and> (is_ok r \<longrightarrow> w' = w \<and> r = Ok None)"
proof -
  have still: "rw_state w' = rw_state w" "slot (rw_base w') = slot (rw_base w)" "is_ok r \<Longrightarrow> w' = w"
    using execute_head [OF assms(1-4) _ assms(7), of 0] assms(5,6) by auto
  moreover have "r = Ok None" if "is_ok r"
    using execute_cases [OF assms(7)]
  proof (elim disjE exE conjE)
    fix parent s x w1
    assume "publish_head R d (rs_generation (rw_state w)) (rs_generation s + 1) w = (w1, Ok ())"
    then show ?thesis using publish_head_cases [OF assms(1-3)] assms(6) by blast
  qed (use that in auto)
  ultimately show ?thesis by blast
qed

section \<open>Writing and reading a key\<close>

lemma binsert_present:
  "bsorted m \<Longrightarrow> bget m i = Some x \<Longrightarrow> binsert i y m = map (\<lambda>(j, z). (j, if j = i then y else z)) m"
proof (induction m)
  case (Cons kv m)
  obtain j z where kv: "kv = (j, z)" by (cases kv)
  have above: "\<forall>k\<in>set (bkeys m). j < k" and sorted: "bsorted m" using Cons.prems(1) kv by (simp_all add: bsorted_Cons)
  show ?case
  proof (cases "i = j")
    case True
    have "map (\<lambda>(l, u). (l, if l = i then y else u)) m = m"
      using above True by (intro map_idI) (auto simp: bkeys_def)
    then show ?thesis using kv True by simp
  next
    case False
    then have "bget m i = Some x" using Cons.prems(2) kv by (simp add: bget_def)
    moreover from this have "j < i" using above bget_None_iff by (metis option.simps(3))
    ultimately show ?thesis using Cons.IH sorted kv False by auto
  qed
qed (simp add: bget_def)

lemma find_map: "List.find P (map f xs) = map_option f (List.find (P \<circ> f) xs)"
  by (induction xs) auto

lemma find_append: "List.find P xs = Some x \<Longrightarrow> List.find P (xs @ ys) = Some x"
  by (induction xs) auto

text \<open>A state in which every row that a path step finds is still found at the same identity.\<close>

definition steps_kept :: "'v relation_state \<Rightarrow> 'v relation_state \<Rightarrow> bool" where
  "steps_kept s s' \<longleftrightarrow> (\<forall>i part n. List.find (\<lambda>n. nd_parent n = i \<and> sym_name (nd_name n) = part) (bvalues (rs_nodes s)) = Some n \<longrightarrow>
     (\<exists>n'. List.find (\<lambda>n. nd_parent n = i \<and> sym_name (nd_name n) = part) (bvalues (rs_nodes s')) = Some n' \<and> nd_id n' = nd_id n))"

lemma resolve_kept: "steps_kept s s' \<Longrightarrow> resolve_from s i path = Ok j \<Longrightarrow> resolve_from s' i path = Ok j"
proof (induction path arbitrary: i)
  case (Cons part path)
  obtain n where n: "List.find (\<lambda>n. nd_parent n = i \<and> sym_name (nd_name n) = part) (bvalues (rs_nodes s)) = Some n"
      "resolve_from s (nd_id n) path = Ok j"
    using Cons.prems(2) by (auto split: option.splits)
  then obtain n' where "List.find (\<lambda>n. nd_parent n = i \<and> sym_name (nd_name n) = part) (bvalues (rs_nodes s')) = Some n'"
      "nd_id n' = nd_id n"
    using Cons.prems(1) unfolding steps_kept_def by blast
  then show ?case using Cons.IH [OF Cons.prems(1) n(2)] by simp
qed simp

lemma add_steps:
  assumes "relation_inv s"
  shows "steps_kept s (add_node s mk)"
proof -
  have "binsert (rs_next_id s) (mk (rs_next_id s)) (rs_nodes s) = rs_nodes s @ [(rs_next_id s, mk (rs_next_id s))]"
    using relation_invD(3) [OF assms] by (intro binsert_above) (auto simp: bkeys_def)
  then have "bvalues (rs_nodes (add_node s mk)) = bvalues (rs_nodes s) @ [mk (rs_next_id s)]"
    by (simp add: add_node_def bvalues_def)
  then show ?thesis using find_append by (fastforce simp: steps_kept_def)
qed

lemma put_steps:
  assumes "relation_inv s" and "(i, m) \<in> set (rs_nodes s)"
    and "nd_id n = i" "nd_parent n = nd_parent m" "nd_name n = nd_name m"
  shows "steps_kept s (put_node s i n)"
proof -
  note inv = relation_invD [OF assms(1)]
  have get: "bget (rs_nodes s) i = Some m" using assms(2) inv(1) by (simp add: bget_mem)
  let ?f = "\<lambda>x. if nd_id x = i then n else x"
  have "bvalues (rs_nodes (put_node s i n)) = map ?f (bvalues (rs_nodes s))"
    using inv(2) by (auto simp: put_node_def binsert_present [OF inv(1) get] bvalues_def)
  moreover have same: "nd_parent (?f x) = nd_parent x \<and> nd_name (?f x) = nd_name x \<and> nd_id (?f x) = nd_id x"
    if "x \<in> set (bvalues (rs_nodes s))" for x
  proof -
    have "(nd_id x, x) \<in> set (rs_nodes s)" using that in_values [OF assms(1)] by blast
    then have "bget (rs_nodes s) (nd_id x) = Some x" using inv(1) by (simp add: bget_mem)
    then have "nd_id x = i \<Longrightarrow> x = m" using get by auto
    then show ?thesis using assms(3-5) by auto
  qed
  moreover have "List.find (\<lambda>x. nd_parent (?f x) = j \<and> sym_name (nd_name (?f x)) = part) (bvalues (rs_nodes s)) =
      List.find (\<lambda>x. nd_parent x = j \<and> sym_name (nd_name x) = part) (bvalues (rs_nodes s))" for j part
  proof (rule List.find_cong [OF refl])
    fix x assume "x \<in> set (bvalues (rs_nodes s))"
    from same [OF this] show "(nd_parent (?f x) = j \<and> sym_name (nd_name (?f x)) = part) \<longleftrightarrow>
        (nd_parent x = j \<and> sym_name (nd_name x) = part)" by simp
  qed
  ultimately have step: "List.find (\<lambda>n. nd_parent n = j \<and> sym_name (nd_name n) = part) (bvalues (rs_nodes (put_node s i n))) =
      map_option ?f (List.find (\<lambda>n. nd_parent n = j \<and> sym_name (nd_name n) = part) (bvalues (rs_nodes s)))" for j part
    by (simp only: find_map comp_def)
  show ?thesis
    unfolding steps_kept_def step
  proof (intro allI impI)
    fix j part x
    assume x: "List.find (\<lambda>n. nd_parent n = j \<and> sym_name (nd_name n) = part) (bvalues (rs_nodes s)) = Some x"
    then have "x \<in> set (bvalues (rs_nodes s))" using find_Some_in by fast
    then have "nd_id (?f x) = nd_id x" using same by blast
    then show "\<exists>n'. map_option ?f (List.find (\<lambda>n. nd_parent n = j \<and> sym_name (nd_name n) = part) (bvalues (rs_nodes s))) = Some n' \<and>
        nd_id n' = nd_id x"
      using x by simp
  qed
qed

lemma some_ext: "(\<And>x. a = Some x \<longleftrightarrow> b = Some x) \<Longrightarrow> a = b"
  by (cases a; cases b) auto

lemma apply_set:
  assumes inv: "relation_inv s" and room: "rs_next_id s + 1 > rs_next_id s" and parent: "parent < rs_next_id s"
    and run: "apply_plan C codec parent (PlanSet p k v bytes) s = Ok (Some (s', r))"
  shows "steps_kept s s' \<and> (\<exists>n. node_child s' parent k = Some n \<and> nd_kind n = ValueNode \<and> nd_bytes n = bytes \<and>
      nd_codec n = vc_identity codec) \<and> (\<forall>q k'. (q, k') \<noteq> (parent, k) \<longrightarrow> node_child s' q k' = node_child s q k')"
proof -
  have inv': "relation_inv s'" using apply_plan_inv [OF inv room parent run] by blast
  have ext: "node_child s' q k' = node_child s q k'"
    if "\<And>n. (nd_id n, n) \<in> set (rs_nodes s') \<and> nd_parent n = q \<and> nd_name n = k' \<longleftrightarrow>
            (nd_id n, n) \<in> set (rs_nodes s) \<and> nd_parent n = q \<and> nd_name n = k'" for q k'
    by (rule some_ext) (simp only: node_child_iff [OF inv] node_child_iff [OF inv'] that)
  show ?thesis
  proof (cases "node_child s parent k")
    case None
    let ?mk = "\<lambda>i. \<lparr>nd_id = i, nd_parent = parent, nd_name = k, nd_kind = ValueNode,
          nd_bytes = bytes, nd_codec = vc_identity codec, nd_value = Some v\<rparr>"
    have s': "s' = add_node s ?mk" using run None by (simp split: if_splits)
    have mem: "(i, n) \<in> set (rs_nodes s') \<longleftrightarrow> (if i = rs_next_id s then n = ?mk i else (i, n) \<in> set (rs_nodes s))" for i n
      using relation_invD(1) [OF inv] bsorted_binsert [of "rs_nodes s"] by (auto simp: s' add_node_def bget_mem)
    have "(rs_next_id s, n) \<notin> set (rs_nodes s)" for n using relation_invD(3) [OF inv] by blast
    then have "node_child s' q k' = node_child s q k'" if "(q, k') \<noteq> (parent, k)" for q k'
      using that by (intro ext) (auto simp: mem split: if_splits)
    moreover have "node_child s' parent k = Some (?mk (rs_next_id s))"
      by (simp add: node_child_iff [OF inv'] mem)
    ultimately show ?thesis using add_steps [OF inv] s' by auto
  next
    case (Some m)
    let ?n = "m\<lparr>nd_bytes := bytes, nd_codec := vc_identity codec, nd_value := Some v\<rparr>"
    have m: "(nd_id m, m) \<in> set (rs_nodes s)" "nd_parent m = parent" "nd_name m = k" using Some node_child_iff [OF inv] by blast+
    then have "bget (rs_nodes s) (nd_id m) = Some m" using relation_invD(1) [OF inv] by (simp add: bget_mem)
    then have s': "s' = put_node s (nd_id m) ?n" and kind: "nd_kind m = ValueNode"
      using run Some by (cases "nd_kind m"; simp add: put_node_def split: if_splits)+
    have "node_child s' q k' = node_child s q k'" if "(q, k') \<noteq> (parent, k)" for q k'
    proof (rule ext)
      have "x = m" if "(nd_id m, x) \<in> set (rs_nodes s)" for x
        using that m(1) relation_invD(1) [OF inv] by (auto simp: bget_mem)
      then show "(nd_id n, n) \<in> set (rs_nodes s') \<and> nd_parent n = q \<and> nd_name n = k' \<longleftrightarrow>
          (nd_id n, n) \<in> set (rs_nodes s) \<and> nd_parent n = q \<and> nd_name n = k'" for n
        using that m by (auto simp: s' put_node_mem [OF inv] split: if_splits)
    qed
    moreover have "node_child s' parent k = Some ?n"
      unfolding node_child_iff [OF inv'] using m by (simp add: s' put_node_mem [OF inv])
    moreover have "steps_kept s s'" unfolding s' by (rule put_steps [OF inv m(1)]) simp_all
    ultimately show ?thesis using kind by auto
  qed
qed

lemma execute_Ok:
  assumes "relation_execute R d plan w = (w', Ok r)"
    and "\<And>t. apply_plan (rc_cx R) (rd_codec d) t plan (rw_state w) \<noteq> Ok None"
  shows "\<exists>p s. resolve_id (rw_state w) (plan_path plan) = Ok p \<and>
      apply_plan (rc_cx R) (rd_codec d) p plan (rw_state w) = Ok (Some (s, r)) \<and>
      rw_state w' = s\<lparr>rs_generation := rs_generation s + 1\<rparr>"
proof -
  obtain p applied where p: "resolve_id (rw_state w) (plan_path plan) = Ok p"
      and a: "apply_plan (rc_cx R) (rd_codec d) p plan (rw_state w) = Ok applied"
      and rest: "(case applied of
           None \<Rightarrow> op_return None
         | Some (s, result) \<Rightarrow>
             op_bind (publish_head R d (rs_generation (rw_state w)) (rs_generation s + 1)) (\<lambda>_ w.
               (w\<lparr>rw_state := s\<lparr>rs_generation := rs_generation s + 1\<rparr>\<rparr>, Ok result))) w = (w', Ok r)"
    using assms(1) by (auto simp: relation_execute_def op_Ok lock_state_def)
  obtain s result where s: "applied = Some (s, result)" using a assms(2) by (cases applied) auto
  have "result = r \<and> rw_state w' = s\<lparr>rs_generation := rs_generation s + 1\<rparr>"
    using rest by (auto simp: s op_Ok)
  then show ?thesis using p a s by auto
qed

lemma relation_get_run:
  assumes "cx_granted (rc_cx R) relation_namespace_capability" and "cx_granted (rc_cx R) relation_table_read_capability"
    and "resolve_id (rw_state w) (rd_path d) = Ok p"
  shows "relation_get R d k w = (w, case node_child (rw_state w) p k of
      None \<Rightarrow> cx_nil (rc_cx R)
    | Some n \<Rightarrow> if nd_kind n = DirNode then Err (Eval ''table/relation: key is directory'')
        else if nd_codec n \<noteq> vc_identity (rd_codec d) then Err (Eval ''table/relation: codec identity mismatch'')
        else vc_decode (rd_codec d) (nd_bytes n))"
  using assms by (simp add: relation_get_def relation_require_read_def lock_state_def op_bind_def op_simps cx_require_def
      split: option.split)

text \<open>C29: A value set under a name reads back: after a successful set the same handle gets the value, whenever the
  codec decodes what it encoded, and every other name of the directory reads as before, with the same
  answer or the same error.\<close>

theorem relation_set_get:
  assumes "relation_inv (rw_state w)" and "relation_room (rw_state w) 1"
    and "cx_granted (rc_cx R) relation_table_read_capability"
    and "\<And>bytes. vc_encode (rd_codec d) v = Ok bytes \<Longrightarrow> vc_decode (rd_codec d) bytes = Ok v"
    and "relation_set R d k v w = (w', Ok ())"
  shows "relation_get R d k w' = (w', Ok v) \<and>
    (\<forall>k'. k' \<noteq> k \<longrightarrow> relation_get R d k' w' = (w', snd (relation_get R d k' w)))"
proof -
  obtain bytes r where b: "vc_encode (rd_codec d) v = Ok bytes"
      and run: "relation_execute R d (PlanSet (rd_path d) k v bytes) w = (w', Ok r)"
    using assms(5) by (auto simp: relation_set_def op_Ok)
  have ns: "cx_granted (rc_cx R) relation_namespace_capability"
    using run by (auto simp: relation_execute_def op_Ok cx_require_def split: if_splits)
  have committed: "\<nexists>t. apply_plan (rc_cx R) (rd_codec d) t (PlanSet (rd_path d) k v bytes) (rw_state w) = Ok None"
    by (auto split: option.splits if_splits)
  have room: "rs_next_id (rw_state w) + 1 > rs_next_id (rw_state w)"
    using assms(2) u64_succ [of _ 0] by (simp add: relation_room_def)
  obtain p s where p: "resolve_id (rw_state w) (rd_path d) = Ok p"
      and a: "apply_plan (rc_cx R) (rd_codec d) p (PlanSet (rd_path d) k v bytes) (rw_state w) = Ok (Some (s, r))"
      and w': "rw_state w' = s\<lparr>rs_generation := rs_generation s + 1\<rparr>"
    using execute_Ok [OF run] committed by auto
  note set = apply_set [OF assms(1) room resolve_id_bound [OF assms(1) p] a]
  have child: "node_child (rw_state w') q k' = node_child s q k'" for q k'
    by (simp add: w' node_child_def)
  have "steps_kept (rw_state w) (rw_state w')" using set by (simp add: w' steps_kept_def)
  then have p': "resolve_id (rw_state w') (rd_path d) = Ok p"
    using p resolve_kept by (simp add: resolve_id_def)
  have "relation_get R d k w' = (w', Ok v)"
    using set assms(4) [OF b] by (auto simp: relation_get_run [OF ns assms(3) p'] child)
  moreover have "relation_get R d k' w' = (w', snd (relation_get R d k' w))" if "k' \<noteq> k" for k'
    using set that by (simp add: relation_get_run [OF ns assms(3) p'] relation_get_run [OF ns assms(3) p] child)
  ultimately show ?thesis by blast
qed

section \<open>Samples\<close>

datatype relation_value = RText string | RHead | RDir "string list"

definition relation_sample_cx :: "relation_value cx" where
  "relation_sample_cx =
     \<lparr>cx_granted = \<lambda>_. True, cx_nil = Ok (RText ''nil''), cx_string = \<lambda>s. Ok (RText s), cx_bytes = \<lambda>bs. Ok (RText (from_bytes bs)),
      cx_expr = \<lambda>_. Ok (RText ''expr''),
      as_expr = \<lambda>v. (case v of RText s \<Rightarrow> Ok (EString s) | _ \<Rightarrow> Err (Eval ''no expression'')),
      legal_segment = \<lambda>s. s \<noteq> [] \<and> CHR ''/'' \<notin> set s\<rparr>"

definition relation_sample_codec :: "relation_value value_codec" where
  "relation_sample_codec =
     \<lparr>vc_identity = sym_new ''text'', vc_encode = \<lambda>v. (case v of RText s \<Rightarrow> Ok (as_bytes s) | _ \<Rightarrow> Err (Eval ''not text'')),
      vc_decode = \<lambda>bs. Ok (RText (from_bytes bs))\<rparr>"

definition relation_sample :: "(relation_value hash_table, relation_value) relation_cx" where
  "relation_sample =
     \<lparr>rc_cx = relation_sample_cx, rc_table = \<lambda>v. (if v = RHead then Some (hash_table_impl relation_sample_cx) else None),
      rc_opaque = \<lambda>d. Ok (RDir (rd_path d))\<rparr>"

definition relation_sample_dir :: "string list \<Rightarrow> relation_value relation_dir" where
  "relation_sample_dir p = \<lparr>rd_path = p, rd_codec = relation_sample_codec, rd_head = None\<rparr>"

definition relation_headed_dir :: "relation_value relation_dir" where
  "relation_headed_dir = \<lparr>rd_path = [], rd_codec = relation_sample_codec, rd_head = Some (RHead, sym_new ''head'')\<rparr>"

definition relation_sample_world :: "(relation_value hash_table, relation_value) relation_world" where
  "relation_sample_world = \<lparr>rw_base = [], rw_state = fst (relation_open relation_sample_codec)\<rparr>"

lemma relation_sample_good: "relation_inv (rw_state relation_sample_world)" "n < 2 ^ 64 - 1 \<Longrightarrow> relation_room (rw_state relation_sample_world) n"
  by (simp_all add: relation_sample_world_def relation_inv_open) (simp add: relation_open_def relation_room_def)

text \<open>The in-memory table keeps the law of a head.\<close>

definition hash_slot :: "'v cx \<Rightarrow> symbol \<Rightarrow> 'v hash_table \<Rightarrow> expr option" where
  "hash_slot C k h = (case map_of h k of None \<Rightarrow> None | Some v \<Rightarrow> (case as_expr C v of Ok e \<Rightarrow> Some e | _ \<Rightarrow> None))"

lemma hash_head_law:
  assumes "\<And>s v. cx_string C s = Ok v \<Longrightarrow> as_expr C v = Ok (EString s)"
  shows "head_law C (hash_table_impl C) key (hash_slot C key)"
  unfolding head_law_def
proof (intro conjI allI impI)
  fix expected v b b' r
  assume run: "tb_compare_exchange (hash_table_impl C) key expected (ReplaceValue v) b = (b', r)"
  show "case r of
           Ok x \<Rightarrow> tx_exchanged x = slot_met expected (hash_slot C key b) \<and>
             (\<forall>e. as_expr C v = Ok e \<longrightarrow> hash_slot C key b' = (if tx_exchanged x then Some e else hash_slot C key b))
         | _ \<Rightarrow> hash_slot C key b' = hash_slot C key b"
    using run
    by (cases "as_expr C v"; cases "map_of b key"; cases expected)
      (auto simp: hash_compare_exchange_def op_bind_def op_simps hash_slot_def slot_met_def update_conv' Let_def split: res.splits if_splits)
qed (use assms in auto)

lemma sample_head_law: "head_law relation_sample_cx (hash_table_impl relation_sample_cx) key (hash_slot relation_sample_cx key)"
  by (rule hash_head_law) (auto simp: relation_sample_cx_def)


theorem relation_head_tracks_witness:
  "hash_slot relation_sample_cx (sym_new ''head'') (rw_base (relation_history relation_sample
       [(relation_headed_dir, RelMkdir (sym_new ''d''))] relation_sample_world)) =
     head_text (rs_generation (rw_state (relation_history relation_sample
       [(relation_headed_dir, RelMkdir (sym_new ''d''))] relation_sample_world)))"
proof (rule relation_head_tracks [where t = "hash_table_impl relation_sample_cx"])
  show "relation_room (rw_state relation_sample_world) (length [(relation_headed_dir, RelMkdir (sym_new ''d'') :: relation_value relation_call)])"
    by (rule relation_sample_good) simp
  show "head_law (rc_cx relation_sample) (hash_table_impl relation_sample_cx) (sym_new ''head'')
      (hash_slot relation_sample_cx (sym_new ''head''))"
    by (simp add: relation_sample_def sample_head_law)
  show "hash_slot relation_sample_cx (sym_new ''head'') (rw_base relation_sample_world) =
      head_text (rs_generation (rw_state relation_sample_world))"
    by (simp add: relation_sample_world_def relation_open_def hash_slot_def head_text_def)
qed (simp_all add: relation_sample_def relation_headed_dir_def relation_sample_good(1))

theorem relation_stale_refused_witness:
  "rw_state (fst (relation_execute relation_sample relation_headed_dir (PlanMkdir [] (sym_new ''d''))
     (relation_sample_world\<lparr>rw_base := [(sym_new ''head'', RText ''7'')]\<rparr>))) = rw_state relation_sample_world"
proof -
  let ?w = "relation_sample_world\<lparr>rw_base := [(sym_new ''head'', RText ''7'')]\<rparr>"
  let ?run = "relation_execute relation_sample relation_headed_dir (PlanMkdir [] (sym_new ''d'')) ?w"
  have "rw_state (fst ?run) = rw_state ?w \<and>
      hash_slot relation_sample_cx (sym_new ''head'') (rw_base (fst ?run)) = hash_slot relation_sample_cx (sym_new ''head'') (rw_base ?w) \<and>
      (is_ok (snd ?run) \<longrightarrow> fst ?run = ?w \<and> snd ?run = Ok None)"
  proof (rule relation_stale_refused [where t = "hash_table_impl relation_sample_cx" and head = RHead and key = "sym_new ''head''"
        and R = relation_sample])
    show "head_law (rc_cx relation_sample) (hash_table_impl relation_sample_cx) (sym_new ''head'')
        (hash_slot relation_sample_cx (sym_new ''head''))"
      by (simp add: relation_sample_def sample_head_law)
    show "hash_slot relation_sample_cx (sym_new ''head'') (rw_base ?w) \<noteq> head_text (rs_generation (rw_state ?w))"
      by (simp add: relation_sample_world_def relation_open_def hash_slot_def head_text_def relation_sample_cx_def)
    show "relation_execute relation_sample relation_headed_dir (PlanMkdir [] (sym_new ''d'')) ?w = (fst ?run, snd ?run)"
      by simp
  qed (use relation_sample_good in \<open>simp_all add: relation_sample_def relation_headed_dir_def\<close>)
  then show ?thesis by simp
qed

theorem relation_set_get_witness:
  "\<exists>w'. relation_set relation_sample (relation_sample_dir []) (sym_new ''k'') (RText ''v'') relation_sample_world = (w', Ok ()) \<and>
     relation_get relation_sample (relation_sample_dir []) (sym_new ''k'') w' = (w', Ok (RText ''v''))"
proof -
  let ?set = "relation_set relation_sample (relation_sample_dir []) (sym_new ''k'') (RText ''v'') relation_sample_world"
  have "snd ?set = Ok ()"
    by (simp add: relation_set_def relation_execute_def relation_sample_def relation_sample_dir_def relation_sample_codec_def
        relation_sample_cx_def relation_sample_world_def relation_open_def lock_state_def cx_require_def op_bind_def op_simps
        resolve_id_def publish_head_def node_child_def bvalues_def)
  then obtain w' where run: "?set = (w', Ok ())" by (metis prod.collapse)
  have "relation_room (rw_state relation_sample_world) 1" by (rule relation_sample_good) simp
  from relation_set_get [OF relation_sample_good(1) this _ _ run] show ?thesis
    using run by (auto simp: relation_sample_def relation_sample_cx_def relation_sample_dir_def relation_sample_codec_def)
qed

section \<open>The rows of a view\<close>

lemma length_binsert_new: "\<not> bcontains m k \<Longrightarrow> length (binsert k v m) = Suc (length m)"
  by (induction k v m rule: binsert.induct) (auto simp: bcontains_def bget_def split: if_splits)

lemma view_rows_exact:
  "view_rows Q query i rows out = Ok out' \<Longrightarrow> bsorted out \<Longrightarrow>
     bsorted out' \<and> length out' = length out + length rows \<and>
     (\<forall>k v. bget out' k = Some v \<longleftrightarrow> bget out k = Some v \<or> (\<exists>row. (row, v) \<in> set rows \<and> view_key Q i row = Ok k))"
proof (induction Q query i rows out rule: view_rows.induct)
  case (2 Q query i row v rows out)
  obtain k where k: "view_key Q i row = Ok k" "\<not> bcontains out k" "view_rows Q query i rows (binsert k v out) = Ok out'"
    and type: "qo_row_type Q row = qo_output Q query"
    using "2.prems"(1) by (auto simp: res_bind_Ok split: if_splits)
  have sorted: "bsorted (binsert k v out)" using "2.prems"(2) by (rule bsorted_binsert)
  have "\<not> qo_row_type Q row \<noteq> qo_output Q query" using type by simp
  note IH = "2.IH" [OF this k(1-3) sorted]
  have none: "bget out k = None" using k(2) by (simp add: bcontains_def)
  show ?case
    using IH k(1) none length_binsert_new [OF k(2)] "2.prems"(2)
    by (auto simp: bget_binsert split: if_splits)
qed auto

text \<open>A view holds exactly its rows: when it is built, each row is under its key and nothing else is, keys are
  sorted without repetition and there are as many entries as rows.\<close>

theorem relation_view_exact:
  assumes "view_new Q query i rows = Ok V"
  shows "bsorted (rv_rows V) \<and> length (rv_rows V) = length rows \<and>
    (\<forall>k v. view_get V k = Ok v \<longleftrightarrow> (\<exists>row. (row, v) \<in> set rows \<and> view_key Q i row = Ok k))"
  using assms view_rows_exact [of Q query i rows "[]"]
  by (auto simp: view_new_def res_bind_Ok view_get_def ok_or_Ok bget_def bsorted_def split: option.splits)

section \<open>Where the tree departs from its path\<close>

text \<open>
  A handle keeps the name of its directory without the namespace of its symbol: of two directories
  \<open>a/x\<close> and \<open>b/x\<close>, which the state keeps apart, opening the second gives the path of the first.
\<close>

definition two_spaces :: "relation_value relation_state" where
  "two_spaces = rw_state (relation_history relation_sample
     [(relation_sample_dir [], RelMkdir (Symbol (Some ''a'') ''x'')), (relation_sample_dir [], RelMkdir (Symbol (Some ''b'') ''x''))]
     relation_sample_world)"

lemmas relation_run = relation_history_def relation_mkdir_def relation_set_def relation_rmdir_def relation_execute_def relation_sample_def
  relation_sample_dir_def relation_sample_codec_def relation_sample_cx_def relation_sample_world_def relation_open_def lock_state_def
  cx_require_def op_bind_def op_simps resolve_id_def publish_head_def node_child_def bvalues_def add_node_def remove_node_def
  bget_def relation_child_def bremove_def

lemma relation_qualified_alias:
  "node_child two_spaces 0 (Symbol (Some ''b'') ''x'') \<noteq> None \<and>
   map_option nd_id (node_child two_spaces 0 (Symbol (Some ''b'') ''x'')) = Some 2 \<and>
   resolve_id two_spaces (rd_path (relation_child (relation_sample_dir []) (Symbol (Some ''b'') ''x''))) = Ok 1"
  by (simp add: two_spaces_def relation_run)

text \<open>
  A handle outlives its directory: after the directory is removed and its name set, writing through
  the handle puts a row under a value row, which listings of the root never show.
\<close>

lemma relation_child_of_value:
  "list_all (\<lambda>(i, p, kind). i = 0 \<or> p = 0 \<and> kind = ValueNode \<or> i = 3 \<and> p = 2)
     (map (\<lambda>n. (nd_id n, nd_parent n, nd_kind n)) (bvalues (rs_nodes (rw_state (relation_history relation_sample
       [(relation_sample_dir [], RelMkdir (sym_new ''x'')), (relation_sample_dir [], RelRmdir (sym_new ''x'')),
        (relation_sample_dir [], RelSet (sym_new ''x'') (RText ''v'')),
        (relation_sample_dir [''x''], RelSet (sym_new ''y'') (RText ''u''))] relation_sample_world)))))"
  by (simp add: relation_run)


text \<open>
  Entries and length leave out what cannot be read: a value written under one codec and a directory
  are listed among the keys, but through a handle with another codec the length is zero.
\<close>

lemma relation_len_skips:
  "snd (relation_len relation_sample ((relation_sample_dir [])\<lparr>rd_codec := relation_sample_codec\<lparr>vc_identity := sym_new ''other''\<rparr>\<rparr>)
     (relation_history relation_sample
       [(relation_sample_dir [], RelSet (sym_new ''k'') (RText ''v'')), (relation_sample_dir [], RelMkdir (sym_new ''d''))]
       relation_sample_world)) = Ok 0"
  by (simp add: relation_run relation_len_def relation_entries_def relation_keys_def relation_require_read_def relation_get_def scollect_def)

definition view_sample :: "(unit, unit, datum option list) query_ops" where
  "view_sample = \<lparr>qo_output = \<lambda>_. (), qo_fields = \<lambda>_. [(sym_new ''name'', False)], qo_row_type = \<lambda>_. (), qo_cells = \<lambda>r. r\<rparr>"

theorem relation_view_exact_witness:
  "\<exists>V. view_new view_sample () 0 [([Some (DString ''b'')], RText ''1''), ([Some (DString ''a'')], RText ''2'')] = Ok V \<and>
     view_get V (sym_new ''a'') = Ok (RText ''2'')"
proof -
  let ?rows = "[([Some (DString ''b'')], RText ''1''), ([Some (DString ''a'')], RText ''2'')]"
  have "is_ok (view_new view_sample () 0 ?rows)"
    by (simp add: view_new_def view_sample_def view_key_def bcontains_def bget_def)
  then obtain V where V: "view_new view_sample () 0 ?rows = Ok V" by (auto simp: is_ok_iff)
  have key: "view_key view_sample 0 [Some (DString ''a'')] = Ok (sym_new ''a'')"
    by (simp add: view_key_def view_sample_def)
  have "view_get V (sym_new ''a'') = Ok (RText ''2'') \<longleftrightarrow>
      (\<exists>row. (row, RText ''2'') \<in> set ?rows \<and> view_key view_sample 0 row = Ok (sym_new ''a''))"
    using relation_view_exact [OF V] by blast
  then show ?thesis using V key by (metis list.set_intros(1,2))
qed

end
