(* ===== verification/Relation_Cli.thy ===== *)
theory Relation_Cli
  imports Table_Iface Std_Text
begin

text \<open>
  The command surface of the relation tools, \<open>crates/sim-lib-relation-cli/src/command.rs\<close> and the call of
  its entry point in \<open>lib.rs\<close>: the grammar of \<open>sim relation\<close>, its options, and the way from an envelope
  of arguments to the backend. The backend is a trait, an operation on the world; the tables and
  expressions of values are functions. The section on well-formed commands is the specification.
\<close>

section \<open>Commands\<close>

definition default_row_limit :: u64 where
  "default_row_limit = 100"

datatype read_action = ReadList | ReadShow
datatype schema_action = SchemaInspect | SchemaAdopt | SchemaApply
datatype apply_action = ApplyPlan | ApplyApply

datatype authority = Authority (au_product: string) (au_expected_plan: string)

datatype relation_command =
    CmdSite read_action "string option"
  | CmdSchema schema_action string "string option" "authority option"
  | CmdMigration apply_action string string "authority option"
  | CmdQuery string string u64
  | CmdMutation string string u64 authority
  | CmdMount string

section \<open>Options\<close>

type_synonym cli_options = "(string \<times> string) list"

fun options_from :: "cli_options \<Rightarrow> string list \<Rightarrow> (string, cli_options) res" where
  "options_from out (k # v # args) =
     (if \<not> starts_with ''--'' k then Err (''unexpected argument: '' @ k)
      else if list_ex (\<lambda>kv. fst kv = k) out then Err (''duplicate option: '' @ k)
      else options_from (out @ [(k, v)]) args)"
| "options_from out args = Ok out"

definition options_parse :: "string list \<Rightarrow> (string, cli_options) res" where
  "options_parse args =
     (if length args mod 2 \<noteq> 0 then Err ''every relation option requires one value'' else options_from [] args)"

definition option_get :: "cli_options \<Rightarrow> string \<Rightarrow> string option" where
  "option_get opts key = map_option snd (List.find (\<lambda>kv. fst kv = key) opts)"

definition option_required :: "cli_options \<Rightarrow> string \<Rightarrow> (string, string) res" where
  "option_required opts key =
     (case option_get opts key of
        Some v \<Rightarrow> if v \<noteq> [] then Ok v else Err (''missing '' @ key)
      | None \<Rightarrow> Err (''missing '' @ key))"

definition option_limit :: "cli_options \<Rightarrow> (string, u64) res" where
  "option_limit opts =
     (case option_get opts ''--limit'' of
        None \<Rightarrow> Ok default_row_limit
      | Some v \<Rightarrow>
          (case parse_u64 v of
             Some n \<Rightarrow> if n > 0 then Ok n else Err ''--limit must be a positive integer''
           | None \<Rightarrow> Err ''--limit must be a positive integer''))"

definition option_authority :: "cli_options \<Rightarrow> (string, authority) res" where
  "option_authority opts =
     res_bind (option_required opts ''--authorize'') (\<lambda>product.
     res_bind (option_required opts ''--expect-plan'') (\<lambda>plan. Ok (Authority product plan)))"

definition options_reject_all :: "cli_options \<Rightarrow> (string, unit) res" where
  "options_reject_all opts = (if opts = [] then Ok () else Err ''site list accepts no options'')"

section \<open>The grammar\<close>

definition usage :: string where
  "usage = ''usage: sim relation {site list|show|schema inspect|adopt|apply|migration plan|apply|query run|mutation run|mount explain}''"

definition raw_sql :: "string \<Rightarrow> bool" where
  "raw_sql v \<longleftrightarrow> v = ''--sql'' \<or> starts_with ''--sql='' v"

text \<open>The arms of the match on family and action.\<close>

definition command_of :: "string \<Rightarrow> string \<Rightarrow> cli_options \<Rightarrow> (string, relation_command) res" where
  "command_of family action opts =
     (if (family, action) = (''site'', ''list'') then
        res_bind (options_reject_all opts) (\<lambda>_. Ok (CmdSite ReadList None))
      else if (family, action) = (''site'', ''show'') then
        res_bind (option_required opts ''--site'') (\<lambda>s. Ok (CmdSite ReadShow (Some s)))
      else if (family, action) = (''schema'', ''inspect'') then
        res_bind (option_required opts ''--site'') (\<lambda>t. Ok (CmdSchema SchemaInspect t None None))
      else if (family, action) = (''schema'', ''adopt'') then
        res_bind (option_required opts ''--site'') (\<lambda>t.
        res_bind (option_required opts ''--schema'') (\<lambda>a.
        res_bind (option_authority opts) (\<lambda>u. Ok (CmdSchema SchemaAdopt t (Some a) (Some u)))))
      else if (family, action) = (''schema'', ''apply'') then
        res_bind (option_required opts ''--site'') (\<lambda>t.
        res_bind (option_required opts ''--schema'') (\<lambda>a.
        res_bind (option_authority opts) (\<lambda>u. Ok (CmdSchema SchemaApply t (Some a) (Some u)))))
      else if (family, action) = (''migration'', ''plan'') then
        res_bind (option_required opts ''--site'') (\<lambda>t.
        res_bind (option_required opts ''--migration'') (\<lambda>a. Ok (CmdMigration ApplyPlan t a None)))
      else if (family, action) = (''migration'', ''apply'') then
        res_bind (option_required opts ''--site'') (\<lambda>t.
        res_bind (option_required opts ''--migration'') (\<lambda>a.
        res_bind (option_authority opts) (\<lambda>u. Ok (CmdMigration ApplyApply t a (Some u)))))
      else if (family, action) = (''query'', ''run'') then
        res_bind (option_required opts ''--site'') (\<lambda>t.
        res_bind (option_required opts ''--plan'') (\<lambda>p.
        res_bind (option_limit opts) (\<lambda>n. Ok (CmdQuery t p n))))
      else if (family, action) = (''mutation'', ''run'') then
        res_bind (option_required opts ''--site'') (\<lambda>t.
        res_bind (option_required opts ''--plan'') (\<lambda>p.
        res_bind (option_limit opts) (\<lambda>n.
        res_bind (option_authority opts) (\<lambda>u. Ok (CmdMutation t p n u)))))
      else if (family, action) = (''mount'', ''explain'') then
        res_bind (option_required opts ''--mount'') (\<lambda>m. Ok (CmdMount m))
      else Err usage)"

definition relation_parse :: "string list \<Rightarrow> (string, relation_command) res" where
  "relation_parse argv =
     (let args = (case argv of v # r \<Rightarrow> if v = ''relation'' then r else argv | [] \<Rightarrow> argv) in
      if list_ex raw_sql args then Err ''raw SQL is not an admitted relation command''
      else case args of
        family # action # rest \<Rightarrow> res_bind (options_parse rest) (command_of family action)
      | _ \<Rightarrow> Err usage)"

section \<open>The entry point\<close>

text \<open>The commands behind the entry point, and what printing a text does to the world.\<close>

record ('w, 'v) relation_cli =
  cli_cx :: "'v cx"
  cli_table :: "'v \<Rightarrow> ('w, 'v) table option"
  cli_execute :: "relation_command \<Rightarrow> ('w, string, string) op"
  cli_print :: "string \<Rightarrow> 'w \<Rightarrow> 'w"
  cli_bool :: "bool \<Rightarrow> (table_error, 'v) res"

fun string_items :: "expr list \<Rightarrow> (table_error, string list) res" where
  "string_items [] = Ok []"
| "string_items (EString s # es) = res_bind (string_items es) (\<lambda>ss. Ok (s # ss))"
| "string_items (e # es) = Err (TypeMismatch ''string argument'' ''non-string'')"

definition envelope_args :: "('w, 'v) relation_cli \<Rightarrow> 'v \<Rightarrow> ('w, table_error, string list) op" where
  "envelope_args L envelope =
     op_bind (op_res (ok_or (cli_table L envelope) (Eval ''relation CLI envelope is not a table''))) (\<lambda>t.
     op_bind (tb_get t (sym_new ''args'')) (\<lambda>v.
     op_bind (op_res (as_expr (cli_cx L) v)) (\<lambda>e.
       case e of
         EList items \<Rightarrow> op_res (string_items items)
       | _ \<Rightarrow> op_fail (TypeMismatch ''argument list'' ''non-list''))))"

definition op_map_err :: "('e \<Rightarrow> 'f) \<Rightarrow> ('w, 'e, 'a) op \<Rightarrow> ('w, 'f, 'a) op" where
  "op_map_err g m w = (case m w of (w', r) \<Rightarrow> (w', map_err g r))"

definition entrypoint_call :: "('w, 'v) relation_cli \<Rightarrow> 'v list \<Rightarrow> ('w, table_error, 'v) op" where
  "entrypoint_call L args =
     (case args of
        [] \<Rightarrow> op_fail (Eval ''missing relation envelope'')
      | envelope # _ \<Rightarrow>
          op_bind (envelope_args L envelope) (\<lambda>argv.
          op_bind (op_res (map_err Eval (relation_parse argv))) (\<lambda>c.
          op_bind (op_map_err Eval (cli_execute L c)) (\<lambda>output w.
            (cli_print L output w, cli_bool L True)))))"

section \<open>Well-formed commands\<close>

definition authority_ok :: "authority \<Rightarrow> bool" where
  "authority_ok u \<longleftrightarrow> au_product u \<noteq> [] \<and> au_expected_plan u \<noteq> []"

text \<open>What a command promises its backend: names are there and not empty, a limit is positive, and everything
  that can alter a store carries the authority of a product.\<close>

fun command_ok :: "relation_command \<Rightarrow> bool" where
  "command_ok (CmdSite ReadList i) \<longleftrightarrow> i = None"
| "command_ok (CmdSite ReadShow i) \<longleftrightarrow> (case i of None \<Rightarrow> False | Some s \<Rightarrow> s \<noteq> [])"
| "command_ok (CmdSchema SchemaInspect t a u) \<longleftrightarrow> t \<noteq> [] \<and> a = None \<and> u = None"
| "command_ok (CmdSchema _ t a u) \<longleftrightarrow>
     t \<noteq> [] \<and> (case a of None \<Rightarrow> False | Some s \<Rightarrow> s \<noteq> []) \<and> (case u of None \<Rightarrow> False | Some x \<Rightarrow> authority_ok x)"
| "command_ok (CmdMigration ApplyPlan t a u) \<longleftrightarrow> t \<noteq> [] \<and> a \<noteq> [] \<and> u = None"
| "command_ok (CmdMigration ApplyApply t a u) \<longleftrightarrow>
     t \<noteq> [] \<and> a \<noteq> [] \<and> (case u of None \<Rightarrow> False | Some x \<Rightarrow> authority_ok x)"
| "command_ok (CmdQuery t p n) \<longleftrightarrow> t \<noteq> [] \<and> p \<noteq> [] \<and> n > 0"
| "command_ok (CmdMutation t p n u) \<longleftrightarrow> t \<noteq> [] \<and> p \<noteq> [] \<and> n > 0 \<and> authority_ok u"
| "command_ok (CmdMount m) \<longleftrightarrow> m \<noteq> []"

definition authority_texts :: "authority \<Rightarrow> string list" where
  "authority_texts u = [au_product u, au_expected_plan u]"

definition opt_list :: "'a option \<Rightarrow> 'a list" where
  "opt_list x = (case x of None \<Rightarrow> [] | Some y \<Rightarrow> [y])"

fun command_texts :: "relation_command \<Rightarrow> string list" where
  "command_texts (CmdSite a i) = opt_list i"
| "command_texts (CmdSchema s t a u) = t # opt_list a @ concat (map authority_texts (opt_list u))"
| "command_texts (CmdMigration s t a u) = t # a # concat (map authority_texts (opt_list u))"
| "command_texts (CmdQuery t p n) = [t, p]"
| "command_texts (CmdMutation t p n u) = t # p # authority_texts u"
| "command_texts (CmdMount m) = [m]"

text \<open>The arguments a command is written as.\<close>

definition authority_args :: "authority \<Rightarrow> string list" where
  "authority_args u = [''--authorize'', au_product u, ''--expect-plan'', au_expected_plan u]"

fun command_args :: "relation_command \<Rightarrow> string list" where
  "command_args (CmdSite ReadList i) = [''site'', ''list'']"
| "command_args (CmdSite ReadShow i) = ''site'' # ''show'' # concat (map (\<lambda>s. [''--site'', s]) (opt_list i))"
| "command_args (CmdSchema s t a u) =
     ''schema'' # (case s of SchemaInspect \<Rightarrow> ''inspect'' | SchemaAdopt \<Rightarrow> ''adopt'' | SchemaApply \<Rightarrow> ''apply'') # ''--site'' # t #
     concat (map (\<lambda>x. [''--schema'', x]) (opt_list a)) @ concat (map authority_args (opt_list u))"
| "command_args (CmdMigration s t a u) =
     ''migration'' # (case s of ApplyPlan \<Rightarrow> ''plan'' | ApplyApply \<Rightarrow> ''apply'') # ''--site'' # t # ''--migration'' # a #
     concat (map authority_args (opt_list u))"
| "command_args (CmdQuery t p n) = [''query'', ''run'', ''--site'', t, ''--plan'', p, ''--limit'', u64_to_string n]"
| "command_args (CmdMutation t p n u) =
     [''mutation'', ''run'', ''--site'', t, ''--plan'', p, ''--limit'', u64_to_string n] @ authority_args u"
| "command_args (CmdMount m) = [''mount'', ''explain'', ''--mount'', m]"

section \<open>What the grammar accepts\<close>

lemma options_from_values:
  "options_from out args = Ok opts \<Longrightarrow> (k, v) \<in> set opts \<Longrightarrow> (k, v) \<in> set out \<or> v \<in> set args"
  by (induction out args rule: options_from.induct) (auto split: if_splits)

lemma option_get_in: "option_get opts k = Some v \<Longrightarrow> (k, v) \<in> set opts"
  by (induction opts) (auto simp: option_get_def split: if_splits)

lemma option_required_Ok: "option_required opts k = Ok v \<longleftrightarrow> option_get opts k = Some v \<and> v \<noteq> []"
  by (auto simp: option_required_def split: option.splits)

lemma option_limit_Ok: "option_limit opts = Ok n \<Longrightarrow> n > 0"
  by (auto simp: option_limit_def default_row_limit_def split: option.splits if_splits)

lemma option_authority_Ok:
  "option_authority opts = Ok u \<longleftrightarrow>
     option_get opts ''--authorize'' = Some (au_product u) \<and> option_get opts ''--expect-plan'' = Some (au_expected_plan u) \<and>
     authority_ok u"
  by (cases u) (auto simp: option_authority_def res_simps option_required_Ok authority_ok_def)

lemma either_arm: "(if b then x else y) = z \<Longrightarrow> (x = z \<Longrightarrow> R) \<Longrightarrow> (y = z \<Longrightarrow> R) \<Longrightarrow> R"
  by (cases b) simp_all

lemma command_of_ok:
  assumes "command_of family action opts = Ok c"
  shows "command_ok c \<and> set (command_texts c) \<subseteq> snd ` set opts"
proof -
  have get: "option_get opts k = Some v \<Longrightarrow> v \<in> snd ` set opts" for k v
    using option_get_in by force
  from assms [unfolded command_of_def] show ?thesis
    by (elim either_arm)
      (auto simp: res_simps option_required_Ok option_authority_Ok opt_list_def authority_texts_def dest: option_limit_Ok intro: get)
qed


lemma relation_parse_Ok:
  assumes "relation_parse argv = Ok c"
  shows "command_ok c \<and> \<not> list_ex raw_sql (command_texts c)"
proof -
  define args where "args = (case argv of v # r \<Rightarrow> if v = ''relation'' then r else argv | [] \<Rightarrow> argv)"
  have clean: "\<not> list_ex raw_sql args"
      and run: "(case args of family # action # rest \<Rightarrow> res_bind (options_parse rest) (command_of family action) | _ \<Rightarrow> Err usage) = Ok c"
    using assms by (auto simp: relation_parse_def args_def [symmetric] Let_def split: if_splits)
  from run obtain family action rest where args: "args = family # action # rest"
    by (auto split: list.splits)
  then obtain opts where opts: "options_parse rest = Ok opts" "command_of family action opts = Ok c"
    using run by (auto simp: res_simps)
  have "snd ` set opts \<subseteq> set rest"
    using opts(1) options_from_values [of "[]" rest opts] by (auto simp: options_parse_def split: if_splits)
  then have "set (command_texts c) \<subseteq> set rest" using command_of_ok [OF opts(2)] by blast
  moreover have "\<forall>x\<in>set rest. \<not> raw_sql x" using clean args by (simp add: list_ex_iff)
  ultimately have "\<not> list_ex raw_sql (command_texts c)" unfolding list_ex_iff by blast
  then show ?thesis using command_of_ok [OF opts(2)] by blast
qed

lemma raw_sql_text: "raw_sql v \<Longrightarrow> take 5 v = ''--sql''"
  by (auto simp: raw_sql_def starts_with_iff)

lemma number_not_sql: "\<not> raw_sql (u64_to_string n)"
proof
  assume "raw_sql (u64_to_string n)"
  then have "take 5 (u64_to_string n) = ''--sql''" by (rule raw_sql_text)
  then have "CHR ''s'' \<in> set (u64_to_string n)"
    by (metis in_set_takeD list.set_intros(1,2))
  then show False
    using nat_to_string_digits [of "unat n"] by (auto simp: u64_to_string_def list_all_iff is_digit_char_def)
qed

lemmas parse_run = relation_parse_def options_parse_def command_of_def option_get_def option_required_def option_limit_def
  option_authority_def options_reject_all_def raw_sql_def starts_with_def strip_prefix_def authority_args_def authority_ok_def
  authority_texts_def opt_list_def

lemma relation_parse_args:
  "command_ok c \<Longrightarrow> \<not> list_ex raw_sql (command_texts c) \<Longrightarrow> relation_parse (command_args c) = Ok c"
  using number_not_sql
  by (cases c rule: command_ok.cases) (auto simp: parse_run split: option.splits)


text \<open>C32: The commands the grammar accepts are exactly the well-formed ones: some arguments are parsed as a command
  if and only if its names are not empty, its limit is positive, it carries the authority of a product
  where it can alter a store, and none of its texts is raw SQL; and such a command is parsed from the
  arguments it is written as.\<close>

theorem cli_commands_exact:
  "((\<exists>argv. relation_parse argv = Ok c) \<longleftrightarrow> command_ok c \<and> list_ex raw_sql (command_texts c) = False) \<and>
   (relation_parse (command_args c) = Ok c \<longleftrightarrow> (\<exists>argv. relation_parse argv = Ok c))"
  using relation_parse_Ok relation_parse_args by metis

text \<open>
  The grammar is not closed under its options: a command other than \<open>site list\<close> takes any option it
  does not know, so that a limit under a misspelt name is dropped and the default bounds the query.
\<close>

lemma cli_ignores_options:
  "relation_parse [''query'', ''run'', ''--site'', ''s'', ''--plan'', ''p'', ''--limits'', ''0''] = Ok (CmdQuery ''s'' ''p'' 100)"
  by (simp add: parse_run default_row_limit_def)

lemma entrypoint_run:
  assumes "cli_table L envelope = Some t" and "tb_get t (sym_new ''args'') w = (w, Ok v)"
    and "as_expr (cli_cx L) v = Ok (EList (map EString argv))"
  shows "entrypoint_call L (envelope # others) w =
    (case relation_parse argv of
       Ok c \<Rightarrow> (case cli_execute L c w of
           (w', Ok output) \<Rightarrow> (cli_print L output w', cli_bool L True)
         | (w', Err e) \<Rightarrow> (w', Err (Eval e))
         | (w', Panic p) \<Rightarrow> (w', Panic p))
     | Err e \<Rightarrow> (w, Err (Eval e))
     | Panic p \<Rightarrow> (w, Panic p))"
proof -
  have "string_items (map EString argv) = Ok argv" by (induction argv) simp_all
  then show ?thesis
    using assms
    by (simp add: entrypoint_call_def envelope_args_def op_bind_def op_simps op_map_err_def split: res.split prod.split)
qed

end
