(* ===== verification/Relation_Site.thy ===== *)
theory Relation_Site
  imports Kernel_Iface Std_Text
begin

text \<open>
  The bounded relation site, \<open>crates/sim-relation-site/src/contract.rs\<close> and \<open>site.rs\<close>: limits, locators,
  operations and receipts, and the site that runs a provider's session inside a kernel effect with a
  sink that counts. Drivers, sessions, plans, rows and the kernel's effect resolution are external:
  records of functions. A provider that pushes rows is the tree of its pushes and of the answers it may
  get, so that every provider that returns is covered and none can reach past the sink. What a call
  keeps in captured variables (counts, statistics, the error of the operation) is part of the world.
\<close>

section \<open>The contract\<close>

datatype storage_access = ReadOnlyAccess | ReadWriteAccess
datatype storage_locator = MemoryStorage | PreopenedStorage symbol storage_access

datatype limit_kind = LimitRows | LimitCells | LimitBytes | LimitWork | LimitDeadline

datatype site_error =
    InvalidLimits
  | BindingsError string
  | RowTypeError
  | LimitError limit_kind
  | LocatorError
  | RegistrationError
  | ConstraintError
  | LockedError
  | ReadOnlyError
  | InterruptedError
  | CorruptionError
  | ConversionError
  | DriftError
  | ProviderError
  | KernelError string

definition locator_field :: "(symbol \<times> datum) list \<Rightarrow> string \<Rightarrow> datum option" where
  "locator_field fs name = map_option snd (List.find (\<lambda>kv. fst kv = sym_new name) fs)"

definition locator_from_datum :: "datum \<Rightarrow> (site_error, storage_locator) res" where
  "locator_from_datum value =
     (case value of
        DNode tag fs \<Rightarrow>
          if tag = sym_qualified ''relation'' ''memory'' \<and> fs = [] then Ok MemoryStorage
          else if tag \<noteq> sym_qualified ''relation'' ''preopened'' then Err LocatorError
          else if length fs \<noteq> 2 then Err LocatorError
          else (case locator_field fs ''ref'' of
            Some (DSymbol reference) \<Rightarrow>
              (case locator_field fs ''access'' of
                 Some (DSymbol a) \<Rightarrow>
                   if a = sym_new ''read-only'' then Ok (PreopenedStorage reference ReadOnlyAccess)
                   else if a = sym_new ''read-write'' then Ok (PreopenedStorage reference ReadWriteAccess)
                   else Err LocatorError
               | _ \<Rightarrow> Err LocatorError)
          | _ \<Rightarrow> Err LocatorError)
      | _ \<Rightarrow> Err LocatorError)"

record driver_manifest =
  dm_site :: symbol
  dm_provider :: symbol

definition manifest_sqlite :: "symbol \<Rightarrow> symbol \<Rightarrow> (site_error, driver_manifest) res" where
  "manifest_sqlite site provider =
     (if site \<noteq> sym_qualified ''relation/site'' ''sqlite'' \<or> provider \<noteq> sym_qualified ''relation/provider'' ''sqlite''
      then Err RegistrationError else Ok \<lparr>dm_site = site, dm_provider = provider\<rparr>)"

record relation_placement =
  pl_site :: symbol
  pl_locator :: datum

text \<open>A deadline is in nanoseconds.\<close>

record limits =
  li_rows :: u64
  li_cells :: u64
  li_bytes :: u64
  li_work :: u64
  li_deadline :: "nat option"
  li_buffer_bytes :: "u64 option"

definition limits_new :: "u64 \<Rightarrow> u64 \<Rightarrow> u64 \<Rightarrow> u64 \<Rightarrow> (site_error, limits) res" where
  "limits_new rows cells bytes work =
     (if 0 \<in> set [rows, cells, bytes, work] then Err InvalidLimits
      else Ok \<lparr>li_rows = rows, li_cells = cells, li_bytes = bytes, li_work = work, li_deadline = None, li_buffer_bytes = None\<rparr>)"

text \<open>The rows of \<open>sim_relation_core\<close>: their type, cells, the printed datum, and the checked constructor.\<close>

record ('r, 't, 'c) row_ops =
  ro_type :: "'r \<Rightarrow> 't"
  ro_cells :: "'r \<Rightarrow> 'c list"
  ro_debug :: "'r \<Rightarrow> string"
  ro_new :: "'t \<Rightarrow> 'c list \<Rightarrow> (string, 'r) res"

definition bindings_new :: "('r, 't, 'c) row_ops \<Rightarrow> 't \<Rightarrow> 'c list \<Rightarrow> (site_error, 'r) res" where
  "bindings_new RO expected cells = map_err BindingsError (ro_new RO expected cells)"

record provider_stats =
  ps_work :: u64
  ps_affected :: u64

definition provider_stats_default :: provider_stats where
  "provider_stats_default = \<lparr>ps_work = 0, ps_affected = 0\<rparr>"

datatype operation = OpRead | OpWrite | OpSchema | OpMigrate | OpTransaction | OpAttach

fun operation_label :: "operation \<Rightarrow> string" where
  "operation_label OpRead = ''read''"
| "operation_label OpWrite = ''write''"
| "operation_label OpSchema = ''schema''"
| "operation_label OpMigrate = ''migrate''"
| "operation_label OpTransaction = ''transaction''"
| "operation_label OpAttach = ''attach''"

definition operation_capability :: "operation \<Rightarrow> string" where
  "operation_capability op = ''relation.'' @ operation_label op"

definition operation_effect :: "operation \<Rightarrow> symbol" where
  "operation_effect op = sym_qualified ''effect/relation'' (operation_label op)"

record site_receipt =
  rc_operation_id :: string
  rc_operation :: operation
  rc_rows :: u64
  rc_cells :: u64
  rc_bytes :: u64
  rc_work :: u64
  rc_affected :: u64

text \<open>The in-memory sink.\<close>

definition vec_push :: "'r \<Rightarrow> 'r list \<Rightarrow> 'r list \<times> (site_error, unit) res" where
  "vec_push row rows = (rows @ [row], Ok ())"

section \<open>Providers\<close>

datatype ('r, 'd) provider_run =
    RunDone 'd "(site_error, provider_stats) res"
  | RunPush 'd 'r "site_error option \<Rightarrow> ('r, 'd) provider_run"

text \<open>A run against a sink: the answer to each push is what the provider goes on with; a panic unwinds it.\<close>

primrec run_provider ::
    "('r \<Rightarrow> 's \<Rightarrow> 's \<times> (site_error, unit) res) \<Rightarrow> ('r, 'd) provider_run \<Rightarrow> 's \<Rightarrow>
     's \<times> 'd \<times> (site_error, provider_stats) res" where
  "run_provider push (RunDone d r) = (\<lambda>s. (s, d, r))"
| "run_provider push (RunPush d row k) = (\<lambda>s.
     case push row s of
       (s', Ok _) \<Rightarrow> run_provider push (k None) s'
     | (s', Err e) \<Rightarrow> run_provider push (k (Some e)) s'
     | (s', Panic p) \<Rightarrow> (s', d, Panic p))"

record ('q, 'm, 'p, 'x, 'r, 'd) session =
  se_query :: "'q \<Rightarrow> 'r \<Rightarrow> limits \<Rightarrow> 'd \<Rightarrow> ('r, 'd) provider_run"
  se_mutate :: "'m \<Rightarrow> 'r \<Rightarrow> limits \<Rightarrow> 'd \<Rightarrow> ('r, 'd) provider_run"
  se_migrate :: "'p \<Rightarrow> limits \<Rightarrow> ('d, site_error, provider_stats) op"
  se_schema :: "'p \<Rightarrow> limits \<Rightarrow> ('d, site_error, provider_stats) op"
  se_transaction :: "'x \<Rightarrow> ('d, site_error, unit) op"
  se_attach :: "datum \<Rightarrow> limits \<Rightarrow> ('d, site_error, provider_stats) op"

record ('q, 'm, 'p, 'x, 'r, 'd) driver =
  dv_connect :: "datum \<Rightarrow> limits \<Rightarrow> ('d, site_error, ('q, 'm, 'p, 'x, 'r, 'd) session) op"
  dv_now :: "'d \<Rightarrow> nat"

record ('q, 'm, 't) plan_ops =
  po_query_id :: "'q \<Rightarrow> cid"
  po_query_output :: "'q \<Rightarrow> 't"
  po_mutation_id :: "'m \<Rightarrow> cid"
  po_mutation_output :: "'m \<Rightarrow> 't"

section \<open>The kernel's effects\<close>

datatype reference = RefContent cid | RefSymbol symbol
datatype kernel_error = KernelEval string | KernelOther string

record effect_request =
  ef_handle :: u64
  ef_kind :: symbol
  ef_target :: reference
  ef_input :: reference
  ef_output :: reference
  ef_resume :: symbol
  ef_abort :: symbol
  ef_requires :: "string list"

record counts =
  ct_rows :: u64
  ct_cells :: u64
  ct_bytes :: u64

definition counts_zero :: counts where
  "counts_zero = \<lparr>ct_rows = 0, ct_cells = 0, ct_bytes = 0\<rparr>"

record ('k, 'd, 'i) site_world =
  sw_kernel :: 'k
  sw_driver :: 'd
  sw_sink :: 'i
  sw_counts :: counts
  sw_stats :: "provider_stats option"
  sw_error :: "site_error option"

record ('k, 'd, 'i) effect_kernel =
  ek_intern :: "datum \<Rightarrow> ('k, kernel_error, cid) op"
  ek_fresh :: "'k \<Rightarrow> 'k \<times> u64"
  ek_resolve :: "effect_request \<Rightarrow> (('k, 'd, 'i) site_world, kernel_error, reference) op \<Rightarrow>
     (('k, 'd, 'i) site_world, kernel_error, reference) op"
  ek_granted :: "'k \<Rightarrow> string \<Rightarrow> bool"
  ek_resume :: symbol
  ek_abort :: symbol
  ek_text :: "kernel_error \<Rightarrow> string"
  ek_debug :: "site_error \<Rightarrow> string"
  ek_symbol_text :: "symbol \<Rightarrow> string"

section \<open>The site\<close>

record ('q, 'm, 'p, 'x, 'r, 'd) relation_site =
  rs_placement :: relation_placement
  rs_driver :: "('q, 'm, 'p, 'x, 'r, 'd) driver"

text \<open>A step of the kernel, of the driver, and a reading of the driver's clock.\<close>

definition site_kernel :: "('k, 'd, 'i) effect_kernel \<Rightarrow> ('k, kernel_error, 'a) op \<Rightarrow> (('k, 'd, 'i) site_world, site_error, 'a) op" where
  "site_kernel E m w =
     (case m (sw_kernel w) of (k, r) \<Rightarrow> (w\<lparr>sw_kernel := k\<rparr>, map_err (\<lambda>e. KernelError (ek_text E e)) r))"

definition site_driver :: "('d, 'e, 'a) op \<Rightarrow> (('k, 'd, 'i) site_world, 'e, 'a) op" where
  "site_driver m w = (case m (sw_driver w) of (d, r) \<Rightarrow> (w\<lparr>sw_driver := d\<rparr>, r))"

definition site_now :: "('q, 'm, 'p, 'x, 'r, 'd) relation_site \<Rightarrow> (('k, 'd, 'i) site_world, site_error, nat) op" where
  "site_now S = op_read (\<lambda>w. Ok (dv_now (rs_driver S) (sw_driver w)))"

definition enforce_work :: "limits \<Rightarrow> u64 \<Rightarrow> (site_error, unit) res" where
  "enforce_work l work = (if work > li_work l then Err (LimitError LimitWork) else Ok ())"

definition enforce_deadline :: "limits \<Rightarrow> nat \<Rightarrow> (site_error, unit) res" where
  "enforce_deadline l elapsed =
     (case li_deadline l of
        Some deadline \<Rightarrow> if elapsed > deadline then Err (LimitError LimitDeadline) else Ok ()
      | None \<Rightarrow> Ok ())"

definition content_id_text :: "('k, 'd, 'i) effect_kernel \<Rightarrow> cid \<Rightarrow> string" where
  "content_id_text E c = ek_symbol_text E (cid_alg c) @ '':'' @ concat (map hex_byte (cid_bytes c))"

definition site_connect ::
    "('q, 'm, 'p, 'x, 'r, 'd) relation_site \<Rightarrow> limits \<Rightarrow>
     (('k, 'd, 'i) site_world, site_error, ('q, 'm, 'p, 'x, 'r, 'd) session) op" where
  "site_connect S limits w =
     (case site_driver (dv_connect (rs_driver S) (pl_locator (rs_placement S)) limits) w of
        (w', r) \<Rightarrow> (w', map_err (\<lambda>_. LocatorError) r))"

text \<open>The sink that counts: a row passes only when its type is the plan's and no bound is exceeded with it.\<close>

definition bounded_push ::
    "('r, 't, 'c) row_ops \<Rightarrow> ('r \<Rightarrow> 'i \<Rightarrow> 'i \<times> (site_error, unit) res) \<Rightarrow> limits \<Rightarrow> 't \<Rightarrow> 'r \<Rightarrow> 'i \<times> counts \<Rightarrow>
     ('i \<times> counts) \<times> (site_error, unit) res" where
  "bounded_push RO push limits expected row =
     op_bind (if ro_type RO row \<noteq> expected then op_fail RowTypeError else op_return ()) (\<lambda>_.
     op_bind (op_read (\<lambda>(i, c). ok_or (checked_add_u64 (ct_rows c) 1) (LimitError LimitRows))) (\<lambda>rows.
     op_bind (op_read (\<lambda>(i, c). ok_or (checked_add_u64 (ct_cells c) (word_of_nat (length (ro_cells RO row)))) (LimitError LimitCells))) (\<lambda>cells.
     op_bind (op_read (\<lambda>(i, c). ok_or (checked_add_u64 (ct_bytes c) (word_of_nat (length (ro_debug RO row)))) (LimitError LimitBytes))) (\<lambda>bytes.
       if rows > li_rows limits then op_fail (LimitError LimitRows)
       else if cells > li_cells limits then op_fail (LimitError LimitCells)
       else if bytes > li_bytes limits then op_fail (LimitError LimitBytes)
       else op_bind (\<lambda>(i, c). case push row i of (i', r) \<Rightarrow> ((i', c), r)) (\<lambda>_ (i, c).
         ((i, \<lparr>ct_rows = rows, ct_cells = cells, ct_bytes = bytes\<rparr>), Ok ()))))))"

definition run_bounded ::
    "('r, 't, 'c) row_ops \<Rightarrow> ('r \<Rightarrow> 'i \<Rightarrow> 'i \<times> (site_error, unit) res) \<Rightarrow> limits \<Rightarrow> 't \<Rightarrow> ('d \<Rightarrow> ('r, 'd) provider_run) \<Rightarrow>
     (('k, 'd, 'i) site_world, site_error, provider_stats) op" where
  "run_bounded RO push limits expected run w =
     (case run_provider (bounded_push RO push limits expected) (run (sw_driver w)) (sw_sink w, sw_counts w) of
        ((i, c), d, r) \<Rightarrow> (w\<lparr>sw_sink := i, sw_counts := c, sw_driver := d\<rparr>, r))"

text \<open>One effect: the request is interned, the kernel resolves it with the operation as handler, and an error
  of the operation goes before the kernel's.\<close>

definition effect_handler ::
    "('k, 'd, 'i) effect_kernel \<Rightarrow> (('k, 'd, 'i) site_world, site_error, reference) op \<Rightarrow>
     (('k, 'd, 'i) site_world, kernel_error, reference) op" where
  "effect_handler E perform w =
     (case perform w of
        (w', Ok v) \<Rightarrow> (w', Ok v)
      | (w', Err e) \<Rightarrow> (w'\<lparr>sw_error := Some e\<rparr>, Err (KernelEval (ek_debug E e)))
      | (w', Panic p) \<Rightarrow> (w', Panic p))"

definition request_of :: "('q, 'm, 'p, 'x, 'r, 'd) relation_site \<Rightarrow> ('k, 'd, 'i) effect_kernel \<Rightarrow> operation \<Rightarrow> u64 \<Rightarrow> cid \<Rightarrow> effect_request" where
  "request_of S E op handle input =
     \<lparr>ef_handle = handle, ef_kind = operation_effect op, ef_target = RefSymbol (pl_site (rs_placement S)),
      ef_input = RefContent input, ef_output = RefSymbol (sym_qualified ''core'' ''Any''),
      ef_resume = ek_resume E, ef_abort = ek_abort E, ef_requires = [operation_capability op]\<rparr>"

definition effect_outcome ::
    "('k, 'd, 'i) effect_kernel \<Rightarrow> ('k, 'd, 'i) site_world \<times> (kernel_error, reference) res \<Rightarrow>
     ('k, 'd, 'i) site_world \<times> (site_error, unit) res" where
  "effect_outcome E x =
     (case x of
        (w', Ok _) \<Rightarrow> (w', Ok ())
      | (w', Err e) \<Rightarrow> (w', Err (case sw_error w' of Some x \<Rightarrow> x | None \<Rightarrow> KernelError (ek_text E e)))
      | (w', Panic p) \<Rightarrow> (w', Panic p))"

definition site_effect ::
    "('q, 'm, 'p, 'x, 'r, 'd) relation_site \<Rightarrow> ('k, 'd, 'i) effect_kernel \<Rightarrow> operation \<Rightarrow>
     (('k, 'd, 'i) site_world, site_error, reference) op \<Rightarrow> (('k, 'd, 'i) site_world, site_error, unit) op" where
  "site_effect S E op perform =
     op_bind (site_kernel E (ek_intern E
       (DNode (sym_qualified ''relation'' ''request'') [(sym_new ''site'', DSymbol (pl_site (rs_placement S)))]))) (\<lambda>input.
     op_bind (site_kernel E (\<lambda>k. case ek_fresh E k of (k', h) \<Rightarrow> (k', Ok h))) (\<lambda>handle w.
       effect_outcome E (ek_resolve E (request_of S E op handle input) (effect_handler E perform) (w\<lparr>sw_error := None\<rparr>))))"

text \<open>What both kinds of operation run inside the effect.\<close>

definition record_stats :: "provider_stats \<Rightarrow> (('k, 'd, 'i) site_world, site_error, unit) op" where
  "record_stats got w = (w\<lparr>sw_stats := Some got\<rparr>, Ok ())"

definition attempt ::
    "('q, 'm, 'p, 'x, 'r, 'd) relation_site \<Rightarrow> ('k, 'd, 'i) effect_kernel \<Rightarrow> limits \<Rightarrow>
     (('q, 'm, 'p, 'x, 'r, 'd) session \<Rightarrow> (('k, 'd, 'i) site_world, site_error, provider_stats) op) \<Rightarrow>
     (('k, 'd, 'i) site_world, site_error, reference) op" where
  "attempt S E limits perform =
     op_bind (site_connect S limits) (\<lambda>session.
     op_bind (site_now S) (\<lambda>started.
     op_bind (perform session) (\<lambda>got.
     op_bind (site_now S) (\<lambda>ended.
     op_bind (op_res (enforce_deadline limits (ended - started))) (\<lambda>_.
     op_bind (op_res (enforce_work limits (ps_work got))) (\<lambda>_.
     op_bind (record_stats got) (\<lambda>_.
     op_bind (site_kernel E (ek_intern E (DSymbol (sym_new ''ok'')))) (\<lambda>c. op_return (RefContent c)))))))))"

definition receipt_of :: "string \<Rightarrow> operation \<Rightarrow> counts \<Rightarrow> provider_stats option \<Rightarrow> site_receipt" where
  "receipt_of i op c stats =
     (let got = (case stats of Some s \<Rightarrow> s | None \<Rightarrow> provider_stats_default) in
      \<lparr>rc_operation_id = i, rc_operation = op, rc_rows = ct_rows c, rc_cells = ct_cells c, rc_bytes = ct_bytes c,
       rc_work = ps_work got, rc_affected = ps_affected got\<rparr>)"

definition simple_effect ::
    "('q, 'm, 'p, 'x, 'r, 'd) relation_site \<Rightarrow> ('k, 'd, 'i) effect_kernel \<Rightarrow> operation \<Rightarrow> string \<Rightarrow> limits \<Rightarrow>
     (('q, 'm, 'p, 'x, 'r, 'd) session \<Rightarrow> ('d, site_error, provider_stats) op) \<Rightarrow>
     (('k, 'd, 'i) site_world, site_error, site_receipt) op" where
  "simple_effect S E op i limits perform w =
     op_bind (site_effect S E op (attempt S E limits (\<lambda>session. site_driver (perform session))))
       (\<lambda>_. op_read (\<lambda>w. Ok (receipt_of i op counts_zero (sw_stats w)))) (w\<lparr>sw_stats := None\<rparr>)"

definition rows_effect ::
    "('r, 't, 'c) row_ops \<Rightarrow> ('r \<Rightarrow> 'i \<Rightarrow> 'i \<times> (site_error, unit) res) \<Rightarrow>
     ('q, 'm, 'p, 'x, 'r, 'd) relation_site \<Rightarrow> ('k, 'd, 'i) effect_kernel \<Rightarrow> operation \<Rightarrow> string \<Rightarrow> 't \<Rightarrow> limits \<Rightarrow>
     (('q, 'm, 'p, 'x, 'r, 'd) session \<Rightarrow> 'd \<Rightarrow> ('r, 'd) provider_run) \<Rightarrow>
     (('k, 'd, 'i) site_world, site_error, site_receipt) op" where
  "rows_effect RO push S E op i expected limits run w =
     op_bind (site_effect S E op (attempt S E limits (\<lambda>session. run_bounded RO push limits expected (run session))))
       (\<lambda>_. op_read (\<lambda>w. Ok (receipt_of i op (sw_counts w) (sw_stats w)))) (w\<lparr>sw_counts := counts_zero, sw_stats := None\<rparr>)"

section \<open>The operations\<close>

definition site_query where
  "site_query RO PO push S E plan bindings limits =
     rows_effect RO push S E OpRead (content_id_text E (po_query_id PO plan)) (po_query_output PO plan) limits
       (\<lambda>session. se_query session plan bindings limits)"

definition site_mutate where
  "site_mutate RO PO push S E plan bindings limits =
     rows_effect RO push S E OpWrite (content_id_text E (po_mutation_id PO plan)) (po_mutation_output PO plan) limits
       (\<lambda>session. se_mutate session plan bindings limits)"

definition site_migrate where
  "site_migrate S E program limits =
     simple_effect S E OpMigrate ''checked-migration'' limits (\<lambda>session. se_migrate session program limits)"

definition site_schema where
  "site_schema S E program limits =
     simple_effect S E OpSchema ''checked-schema'' limits (\<lambda>session. se_schema session program limits)"

definition site_attach where
  "site_attach S E locator limits =
     simple_effect S E OpAttach ''attach'' limits (\<lambda>session. se_attach session locator limits)"

definition site_transaction where
  "site_transaction S E body limits =
     simple_effect S E OpTransaction ''transaction'' limits
       (\<lambda>session. op_bind (se_transaction session body) (\<lambda>_. op_return provider_stats_default))"

text \<open>A call of the site, the operation it is, and the type its rows must have.\<close>

datatype ('q, 'm, 'p, 'x, 'r) site_call =
    CallQuery 'q 'r
  | CallMutate 'm 'r
  | CallMigrate 'p
  | CallSchema 'p
  | CallAttach datum
  | CallTransaction 'x

fun call_operation :: "('q, 'm, 'p, 'x, 'r) site_call \<Rightarrow> operation" where
  "call_operation (CallQuery q b) = OpRead"
| "call_operation (CallMutate m b) = OpWrite"
| "call_operation (CallMigrate p) = OpMigrate"
| "call_operation (CallSchema p) = OpSchema"
| "call_operation (CallAttach l) = OpAttach"
| "call_operation (CallTransaction x) = OpTransaction"

fun call_output :: "('q, 'm, 't) plan_ops \<Rightarrow> ('q, 'm, 'p, 'x, 'r) site_call \<Rightarrow> 't option" where
  "call_output PO (CallQuery q b) = Some (po_query_output PO q)"
| "call_output PO (CallMutate m b) = Some (po_mutation_output PO m)"
| "call_output PO _ = None"

fun site_exec ::
    "('r, 't, 'c) row_ops \<Rightarrow> ('q, 'm, 't) plan_ops \<Rightarrow> ('r \<Rightarrow> 'i \<Rightarrow> 'i \<times> (site_error, unit) res) \<Rightarrow>
     ('q, 'm, 'p, 'x, 'r, 'd) relation_site \<Rightarrow> ('k, 'd, 'i) effect_kernel \<Rightarrow> limits \<Rightarrow> ('q, 'm, 'p, 'x, 'r) site_call \<Rightarrow>
     (('k, 'd, 'i) site_world, site_error, site_receipt) op" where
  "site_exec RO PO push S E limits (CallQuery q b) = site_query RO PO push S E q b limits"
| "site_exec RO PO push S E limits (CallMutate m b) = site_mutate RO PO push S E m b limits"
| "site_exec RO PO push S E limits (CallMigrate p) = site_migrate S E p limits"
| "site_exec RO PO push S E limits (CallSchema p) = site_schema S E p limits"
| "site_exec RO PO push S E limits (CallAttach l) = site_attach S E l limits"
| "site_exec RO PO push S E limits (CallTransaction x) = site_transaction S E x limits"

section \<open>What the site relies on\<close>

text \<open>
  The kernel resolves an effect by running its handler once, if the capabilities it requires are
  granted, and answers with a value only when the handler did; otherwise it fails. It does nothing
  else to what the site holds. Numbers of cells and bytes are a \<open>usize\<close>.
\<close>

definition resolve_law :: "('k, 'd, 'i) effect_kernel \<Rightarrow> bool" where
  "resolve_law E \<longleftrightarrow>
     (\<forall>eff h w w' r. ek_resolve E eff h w = (w', r) \<longrightarrow>
        (\<not> is_ok r \<and> (\<exists>k. w' = w\<lparr>sw_kernel := k\<rparr>)) \<or>
        (list_all (ek_granted E (sw_kernel w)) (ef_requires eff) \<and>
         (\<exists>k k' w2 q. h (w\<lparr>sw_kernel := k\<rparr>) = (w2, q) \<and> w' = w2\<lparr>sw_kernel := k'\<rparr> \<and> (is_ok r \<longrightarrow> is_ok q))))"

definition grants_kept :: "('k, 'd, 'i) effect_kernel \<Rightarrow> bool" where
  "grants_kept E \<longleftrightarrow>
     (\<forall>k d. ek_granted E (fst (ek_intern E d k)) = ek_granted E k) \<and> (\<forall>k. ek_granted E (fst (ek_fresh E k)) = ek_granted E k)"

definition rows_fit :: "('r, 't, 'c) row_ops \<Rightarrow> bool" where
  "rows_fit RO \<longleftrightarrow> (\<forall>row. length (ro_cells RO row) < 2 ^ 64 \<and> length (ro_debug RO row) < 2 ^ 64)"

text \<open>A sink keeps the rows it accepts, in order, and none it refuses.\<close>

locale row_sink =
  fixes push :: "'r \<Rightarrow> 'i \<Rightarrow> 'i \<times> (site_error, unit) res"
    and seen :: "'i \<Rightarrow> 'r list"
  assumes push_seen: "push row i = (i', r) \<Longrightarrow> seen i' = (if is_ok r then seen i @ [row] else seen i)"

interpretation vec_sink: row_sink vec_push "\<lambda>rows. rows"
  by unfold_locales (auto simp: vec_push_def)

section \<open>Counting\<close>

definition within :: "limits \<Rightarrow> counts \<Rightarrow> bool" where
  "within l c \<longleftrightarrow> ct_rows c \<le> li_rows l \<and> ct_cells c \<le> li_cells l \<and> ct_bytes c \<le> li_bytes l"

definition tally :: "('r, 't, 'c) row_ops \<Rightarrow> 'r list \<Rightarrow> counts \<Rightarrow> bool" where
  "tally RO rs c \<longleftrightarrow> unat (ct_rows c) = length rs \<and>
     unat (ct_cells c) = sum_list (map (\<lambda>r. length (ro_cells RO r)) rs) \<and>
     unat (ct_bytes c) = sum_list (map (\<lambda>r. length (ro_debug RO r)) rs)"

context row_sink
begin

definition delivered :: "('r, 't, 'c) row_ops \<Rightarrow> limits \<Rightarrow> 't option \<Rightarrow> 'r list \<Rightarrow> 'i \<times> counts \<Rightarrow> bool" where
  "delivered RO l expected before s \<longleftrightarrow>
     (\<exists>rs. seen (fst s) = before @ rs \<and> list_all (\<lambda>r. Some (ro_type RO r) = expected) rs \<and> tally RO rs (snd s) \<and> within l (snd s))"

lemma bounded_push_delivered:
  assumes fit: "rows_fit RO" and before: "delivered RO l (Some t) before s"
    and run: "bounded_push RO push l t row s = (s', r)"
  shows "delivered RO l (Some t) before s'"
proof (cases "is_ok r")
  case False
  have "seen (fst s') = seen (fst s) \<and> snd s' = snd s"
    using run False
    by (cases s) (auto simp: bounded_push_def op_bind_def op_simps split: res.splits prod.splits if_splits dest: push_seen)
  then show ?thesis using before by (simp add: delivered_def)
next
  case True
  obtain i c where s: "s = (i, c)" by (cases s)
  obtain rows cells bytes i' u where type: "ro_type RO row = t"
    and rows: "checked_add_u64 (ct_rows c) 1 = Some rows" "rows \<le> li_rows l"
    and cells: "checked_add_u64 (ct_cells c) (word_of_nat (length (ro_cells RO row))) = Some cells" "cells \<le> li_cells l"
    and bytes: "checked_add_u64 (ct_bytes c) (word_of_nat (length (ro_debug RO row))) = Some bytes" "bytes \<le> li_bytes l"
    and push: "push row i = (i', Ok u)" and s': "s' = (i', \<lparr>ct_rows = rows, ct_cells = cells, ct_bytes = bytes\<rparr>)"
    using run True s
    by (auto simp: is_ok_iff bounded_push_def op_Ok res_simps split: prod.splits if_splits)
  obtain rs where rs: "seen i = before @ rs" "list_all (\<lambda>r. Some (ro_type RO r) = Some t) rs" "tally RO rs c"
    using before s by (auto simp: delivered_def)
  have "unat (word_of_nat (length (ro_cells RO row)) :: u64) = length (ro_cells RO row)"
      "unat (word_of_nat (length (ro_debug RO row)) :: u64) = length (ro_debug RO row)"
    using fit by (simp_all add: rows_fit_def unat_of_nat)
  then have "tally RO (rs @ [row]) (snd s')"
    using rs(3) checked_add_u64_unat [OF rows(1)] checked_add_u64_unat [OF cells(1)] checked_add_u64_unat [OF bytes(1)]
    by (simp add: tally_def s')
  moreover have "seen i' = before @ (rs @ [row])" using push_seen [OF push] rs(1) by simp
  ultimately show ?thesis
    using rs(2) type rows(2) cells(2) bytes(2) unfolding delivered_def by (intro exI [of _ "rs @ [row]"]) (auto simp: s' within_def)
qed

lemma run_provider_delivered:
  assumes fit: "rows_fit RO"
  shows "delivered RO l (Some t) before s \<Longrightarrow> run_provider (bounded_push RO push l t) run s = (s', d, r) \<Longrightarrow>
    delivered RO l (Some t) before s'"
proof (induction run arbitrary: s)
  case (RunPush d0 row k)
  obtain s1 q where push: "bounded_push RO push l t row s = (s1, q)" by (cases "bounded_push RO push l t row s")
  have s1: "delivered RO l (Some t) before s1" by (rule bounded_push_delivered [OF fit RunPush.prems(1) push])
  show ?case
  proof (cases q)
    case (Panic p)
    then show ?thesis using RunPush.prems(2) push s1 by simp
  qed (use RunPush.prems(2) push RunPush.IH [OF rangeI s1] in auto)
qed simp

end


section \<open>Effects\<close>

text \<open>What holds of sink and counts through an operation.\<close>

definition sink_step :: "('i \<times> counts \<Rightarrow> bool) \<Rightarrow> ('k, 'd, 'i) site_world \<Rightarrow> ('k, 'd, 'i) site_world \<Rightarrow> bool" where
  "sink_step P u v \<longleftrightarrow> P (sw_sink u, sw_counts u) \<longrightarrow> P (sw_sink v, sw_counts v)"

lemma sink_step_order [simp]: "reflp (sink_step P)" "transp (sink_step P)"
  by (auto simp: sink_step_def intro: reflpI transpI)

lemma sink_step_parts:
  "op_keeps (sink_step P) (site_kernel E m)" "op_keeps (sink_step P) (site_driver n)" "op_keeps (sink_step P) (site_now S)"
  "op_keeps (sink_step P) (site_connect S l)" "op_keeps (sink_step P) (record_stats got)"
  by (auto simp: op_keeps_def sink_step_def site_kernel_def site_driver_def site_now_def site_connect_def record_stats_def op_simps split: prod.split)

lemma attempt_keeps:
  "(\<And>session. op_keeps (sink_step P) (perform session)) \<Longrightarrow> op_keeps (sink_step P) (attempt S E l perform)"
  unfolding attempt_def by (intro op_keeps_bind sink_step_order sink_step_parts op_keeps_pure)

lemma handler_keeps: "op_keeps (sink_step P) perform \<Longrightarrow> op_keeps (sink_step P) (effect_handler E perform)"
  unfolding op_keeps_def sink_step_def effect_handler_def by (force split: prod.split res.split)

lemma resolve_keeps:
  assumes "resolve_law E" and "op_keeps (sink_step P) h"
  shows "op_keeps (sink_step P) (ek_resolve E eff h)"
proof -
  have "sink_step P w w'" if run: "ek_resolve E eff h w = (w', r)" for w w' r
  proof -
    consider k where "w' = w\<lparr>sw_kernel := k\<rparr>"
      | k k' w2 q where "h (w\<lparr>sw_kernel := k\<rparr>) = (w2, q)" "w' = w2\<lparr>sw_kernel := k'\<rparr>"
      using assms(1) run unfolding resolve_law_def by blast
    then show ?thesis
    proof cases
      case 2
      then show ?thesis using op_keepsD [OF assms(2) 2(1)] by (simp add: sink_step_def)
    qed (simp add: sink_step_def)
  qed
  then show ?thesis unfolding op_keeps_def by (metis prod.collapse)
qed

lemma fst_effect_outcome: "fst (effect_outcome E x) = fst x"
  by (cases x; cases "snd x") (auto simp: effect_outcome_def)

lemma effect_outcome_Ok: "effect_outcome E x = (w', Ok u) \<longleftrightarrow> (\<exists>v. x = (w', Ok v))"
  by (cases x; cases "snd x") (auto simp: effect_outcome_def)

lemma effect_keeps:
  assumes "resolve_law E" and "op_keeps (sink_step P) perform"
  shows "op_keeps (sink_step P) (site_effect S E op perform)"
proof -
  have "op_keeps (sink_step P) (\<lambda>w. effect_outcome E (ek_resolve E eff (effect_handler E perform) (w\<lparr>sw_error := None\<rparr>)))" for eff
  proof -
    have "sink_step P (w\<lparr>sw_error := None\<rparr>) (fst (ek_resolve E eff (effect_handler E perform) (w\<lparr>sw_error := None\<rparr>)))" for w
      using resolve_keeps [OF assms(1) handler_keeps [OF assms(2)], of eff] unfolding op_keeps_def by blast
    then show ?thesis by (simp add: op_keeps_def sink_step_def fst_effect_outcome)
  qed
  then show ?thesis
    unfolding site_effect_def by (intro op_keeps_bind sink_step_order sink_step_parts)
qed

text \<open>An effect that gives a value ran its operation to its end.\<close>

lemma effect_Ok:
  assumes "resolve_law E" and "site_effect S E op perform w = (w', Ok u)"
  shows "\<exists>w1 w2 k v. perform w1 = (w2, Ok v) \<and> w' = w2\<lparr>sw_kernel := k\<rparr>"
proof -
  obtain eff w0 v where run: "ek_resolve E eff (effect_handler E perform) w0 = (w', Ok v)"
    using assms(2) by (auto simp: site_effect_def op_bind_Ok effect_outcome_Ok)
  then obtain k k' w2 q where h: "effect_handler E perform (w0\<lparr>sw_kernel := k\<rparr>) = (w2, q)" "w' = w2\<lparr>sw_kernel := k'\<rparr>" "is_ok q"
    using assms(1) unfolding resolve_law_def by (metis is_ok.simps(1))
  then obtain x where "perform (w0\<lparr>sw_kernel := k\<rparr>) = (w2, Ok x)"
    by (auto simp: effect_handler_def is_ok_iff split: prod.splits res.splits)
  then show ?thesis using h(2) by blast
qed

lemma enforce_work_Ok: "enforce_work l work = Ok u \<longleftrightarrow> work \<le> li_work l"
  by (auto simp: enforce_work_def)

lemma attempt_Ok:
  assumes "attempt S E l perform w = (w', Ok v)"
  shows "\<exists>got. sw_stats w' = Some got \<and> ps_work got \<le> li_work l"
  using assms
proof -
  obtain u got c where "record_stats got u = (fst (record_stats got u), Ok ())" "ps_work got \<le> li_work l"
      "site_kernel E (ek_intern E (DSymbol (sym_new ''ok''))) (fst (record_stats got u)) = (w', Ok c)"
    using assms by (fastforce simp: attempt_def op_Ok enforce_work_Ok record_stats_def)
  then show ?thesis
    by (cases "ek_intern E (DSymbol (sym_new ''ok'')) (sw_kernel u)") (auto simp: record_stats_def site_kernel_def)
qed


lemma effect_attempt_stats:
  assumes "resolve_law E" and "site_effect S E op (attempt S E l perform) w = (w', Ok u)"
  shows "\<exists>got. sw_stats w' = Some got \<and> ps_work got \<le> li_work l"
proof -
  obtain w1 w2 k v where "attempt S E l perform w1 = (w2, Ok v)" and w': "w' = w2\<lparr>sw_kernel := k\<rparr>"
    using effect_Ok [OF assms] by blast
  from attempt_Ok [OF this(1)] show ?thesis by (simp add: w')
qed

section \<open>Every call is bounded\<close>

definition call_bounded ::
    "('r, 't, 'c) row_ops \<Rightarrow> limits \<Rightarrow> 't option \<Rightarrow> operation \<Rightarrow> 'r list \<Rightarrow> (site_error, site_receipt) res \<Rightarrow> bool" where
  "call_bounded RO l expected op rs r \<longleftrightarrow>
     list_all (\<lambda>row. Some (ro_type RO row) = expected) rs \<and>
     length rs \<le> unat (li_rows l) \<and>
     sum_list (map (\<lambda>row. length (ro_cells RO row)) rs) \<le> unat (li_cells l) \<and>
     sum_list (map (\<lambda>row. length (ro_debug RO row)) rs) \<le> unat (li_bytes l) \<and>
     (case r of
        Ok rc \<Rightarrow> rc_operation rc = op \<and> rc_work rc \<le> li_work l \<and>
          tally RO rs \<lparr>ct_rows = rc_rows rc, ct_cells = rc_cells rc, ct_bytes = rc_bytes rc\<rparr>
      | _ \<Rightarrow> True)"

lemma receipt_bounded:
  "tally RO rs c \<Longrightarrow> list_all (\<lambda>row. Some (ro_type RO row) = expected) rs \<Longrightarrow> within l c \<Longrightarrow>
   (\<And>rc. r = Ok rc \<Longrightarrow> \<exists>got i. ps_work got \<le> li_work l \<and> rc = receipt_of i op c (Some got)) \<Longrightarrow>
   call_bounded RO l expected op rs r"
  by (cases r) (auto simp: call_bounded_def tally_def within_def word_le_nat_alt receipt_of_def)

context row_sink
begin

lemma run_bounded_keeps:
  fixes run :: "'d \<Rightarrow> ('r, 'd) provider_run"
  assumes "rows_fit RO"
  shows "op_keeps (sink_step (delivered RO l (Some t) before))
    (run_bounded RO push l t run :: (('k, 'd, 'i) site_world, site_error, provider_stats) op)"
proof -
  have "delivered RO l (Some t) before (sw_sink (fst (run_bounded RO push l t run w)), sw_counts (fst (run_bounded RO push l t run w)))"
    if "delivered RO l (Some t) before (sw_sink w, sw_counts w)" for w :: "('k, 'd, 'i) site_world"
  proof -
    obtain i c d r where run: "run_provider (bounded_push RO push l t) (run (sw_driver w)) (sw_sink w, sw_counts w) = ((i, c), d, r)"
      by (metis prod.collapse)
    from run_provider_delivered [OF assms that this] show ?thesis by (simp add: run_bounded_def run)
  qed
  then show ?thesis by (simp add: op_keeps_def sink_step_def)
qed

lemma rows_effect_bounded:
  assumes fit: "rows_fit RO" and law: "resolve_law E" and run: "rows_effect RO push S E op i t l provider w = (w', r)"
  shows "\<exists>rs. seen (sw_sink w') = seen (sw_sink w) @ rs \<and> call_bounded RO l (Some t) op rs r"
proof -
  let ?w = "w\<lparr>sw_counts := counts_zero, sw_stats := None\<rparr>"
  let ?m = "site_effect S E op (attempt S E l (\<lambda>session. run_bounded RO push l t (provider session)))"
  let ?P = "delivered RO l (Some t) (seen (sw_sink w))"
  obtain q where q: "?m ?w = (w', q)" and r: "r = (res_bind q (\<lambda>_. Ok (receipt_of i op (sw_counts w') (sw_stats w'))))"
    using run by (cases "?m ?w"; cases "snd (?m ?w)") (auto simp: rows_effect_def op_bind_def op_simps)
  have "op_keeps (sink_step ?P) ?m"
    by (rule effect_keeps [OF law attempt_keeps [OF run_bounded_keeps [OF fit]]])
  then have "sink_step ?P ?w w'" using q by (rule op_keepsD)
  moreover have "?P (sw_sink w, counts_zero)"
    by (auto simp: delivered_def tally_def within_def counts_zero_def)
  ultimately have "?P (sw_sink w', sw_counts w')" by (simp add: sink_step_def)
  then obtain rs where rs: "seen (sw_sink w') = seen (sw_sink w) @ rs" "list_all (\<lambda>r. Some (ro_type RO r) = Some t) rs"
      "tally RO rs (sw_counts w')" "within l (sw_counts w')"
    by (auto simp: delivered_def)
  have "\<exists>got i. ps_work got \<le> li_work l \<and> rc = receipt_of i op (sw_counts w') (Some got)" if "r = Ok rc" for rc
  proof -
    have m: "?m ?w = (w', Ok ())" and rc: "rc = receipt_of i op (sw_counts w') (sw_stats w')" using q r that by (cases q; simp)+
    from effect_attempt_stats [OF law m] obtain got where "sw_stats w' = Some got" "ps_work got \<le> li_work l" by blast
    then show ?thesis unfolding rc by (intro exI [of _ got] exI [of _ i]) simp
  qed
  from receipt_bounded [OF rs(3,2,4) this] rs(1) show ?thesis by blast
qed

end

lemma simple_effect_bounded:
  assumes law: "resolve_law E" and run: "simple_effect S E op i l perform w = (w', r)"
  shows "sw_sink w' = sw_sink w \<and> call_bounded RO l None op [] r"
proof -
  let ?w = "w\<lparr>sw_stats := None\<rparr>"
  let ?m = "site_effect S E op (attempt S E l (\<lambda>session. site_driver (perform session)))"
  obtain q where q: "?m ?w = (w', q)" and r: "r = (res_bind q (\<lambda>_. Ok (receipt_of i op counts_zero (sw_stats w'))))"
    using run by (cases "?m ?w"; cases "snd (?m ?w)") (auto simp: simple_effect_def op_bind_def op_simps)
  have "op_keeps (sink_step (\<lambda>(i, c). i = sw_sink w)) ?m"
    by (rule effect_keeps [OF law attempt_keeps [OF sink_step_parts(2)]])
  then have "sw_sink w' = sw_sink w" using q op_keepsD by (fastforce simp: sink_step_def)
  moreover have "\<exists>got i. ps_work got \<le> li_work l \<and> rc = receipt_of i op counts_zero (Some got)" if "r = Ok rc" for rc
  proof -
    have m: "?m ?w = (w', Ok ())" and rc: "rc = receipt_of i op counts_zero (sw_stats w')" using q r that by (cases q; simp)+
    from effect_attempt_stats [OF law m] obtain got where "sw_stats w' = Some got" "ps_work got \<le> li_work l" by blast
    then show ?thesis unfolding rc by (intro exI [of _ got] exI [of _ i]) simp
  qed
  ultimately show ?thesis
    by (auto intro!: receipt_bounded [where c = counts_zero] simp: tally_def within_def counts_zero_def)
qed


lemma site_exec_bounded:
  assumes "row_sink push seen" and "rows_fit RO" and "resolve_law E" and "site_exec RO PO push S E l call w = (w', r)"
  shows "\<exists>rs. seen (sw_sink w') = seen (sw_sink w) @ rs \<and> call_bounded RO l (call_output PO call) (call_operation call) rs r"
proof -
  have simple: "\<exists>rs. seen (sw_sink w') = seen (sw_sink w) @ rs \<and> call_bounded RO l None op rs r"
    if "simple_effect S E op i l perform w = (w', r)" for op i perform
    using simple_effect_bounded [OF assms(3) that, of RO] by (intro exI [of _ "[]"]) simp
  note rows = row_sink.rows_effect_bounded [OF assms(1-3)]
  from assms(4) show ?thesis
    by (cases call) (simp_all add: site_query_def site_mutate_def site_migrate_def site_schema_def site_attach_def
        site_transaction_def simple rows)
qed

text \<open>C30: Whatever a provider does, a call of the site hands its sink only rows of the plan's type, within the
  bounds on rows, cells and bytes, also when it fails; a call that is no query or mutation hands it none;
  and a receipt counts exactly the rows, cells and bytes handed over and work within its bound.\<close>

theorem site_calls_bounded:
  assumes "row_sink push seen" and "rows_fit RO" and "resolve_law E" and "site_exec RO PO push S E l call w = (w', r)"
  shows "\<exists>rs. seen (sw_sink w') = seen (sw_sink w) @ rs \<and>
    list_all (\<lambda>row. Some (ro_type RO row) = call_output PO call) rs \<and>
    length rs \<le> unat (li_rows l) \<and>
    sum_list (map (\<lambda>row. length (ro_cells RO row)) rs) \<le> unat (li_cells l) \<and>
    sum_list (map (\<lambda>row. length (ro_debug RO row)) rs) \<le> unat (li_bytes l) \<and>
    (case r of
       Ok rc \<Rightarrow> rc_operation rc = call_operation call \<and> rc_work rc \<le> li_work l \<and>
         tally RO rs \<lparr>ct_rows = rc_rows rc, ct_cells = rc_cells rc, ct_bytes = rc_bytes rc\<rparr>
     | _ \<Rightarrow> True)"
  using site_exec_bounded [OF assms] by (simp add: call_bounded_def)

section \<open>Capabilities\<close>

lemma effect_denied:
  assumes "resolve_law E" and "grants_kept E" and "\<not> ek_granted E (sw_kernel w) (operation_capability op)"
    and "site_effect S E op perform w = (w', r)"
  shows "sw_driver w' = sw_driver w \<and> sw_sink w' = sw_sink w \<and> \<not> is_ok r"
proof -
  let ?intern = "site_kernel E (ek_intern E (DNode (sym_qualified ''relation'' ''request'') [(sym_new ''site'', DSymbol (pl_site (rs_placement S)))]))"
  let ?fresh = "site_kernel E (\<lambda>k. case ek_fresh E k of (k', h) \<Rightarrow> (k', Ok h)) :: (('a, 'b, 'c) site_world, site_error, u64) op"
  have parts: "sw_driver (fst (?intern u)) = sw_driver u \<and> sw_sink (fst (?intern u)) = sw_sink u \<and>
      ek_granted E (sw_kernel (fst (?intern u))) = ek_granted E (sw_kernel u)"
      "sw_driver (fst (?fresh u)) = sw_driver u \<and> sw_sink (fst (?fresh u)) = sw_sink u \<and>
      ek_granted E (sw_kernel (fst (?fresh u))) = ek_granted E (sw_kernel u)" for u
    using assms(2) by (auto simp: site_kernel_def grants_kept_def split: prod.split) (metis fst_conv)+
  have resolve: "sw_driver u' = sw_driver u \<and> sw_sink u' = sw_sink u \<and> \<not> is_ok q"
    if denied: "\<not> ek_granted E (sw_kernel u) (operation_capability op)"
      and run: "effect_outcome E (ek_resolve E (request_of S E op h i) (effect_handler E perform) (u\<lparr>sw_error := None\<rparr>)) = (u', q)" for u u' q h i
  proof -
    obtain x where x: "ek_resolve E (request_of S E op h i) (effect_handler E perform) (u\<lparr>sw_error := None\<rparr>) = (u', x)"
      using run fst_effect_outcome by (metis fst_conv prod.collapse)
    then have "\<not> is_ok x \<and> (\<exists>k. u' = u\<lparr>sw_error := None\<rparr>\<lparr>sw_kernel := k\<rparr>)"
      using assms(1) denied unfolding resolve_law_def by (fastforce simp: request_of_def)
    then show ?thesis using run x by (cases x) (auto simp: effect_outcome_def)
  qed
  obtain u a where a: "?intern w = (u, a)" by (cases "?intern w")
  show ?thesis
  proof (cases a)
    case (Ok input)
    obtain v b where b: "?fresh u = (v, b)" by (cases "?fresh u")
    show ?thesis
    proof (cases b)
      case (Ok handle)
      then show ?thesis
        using assms(3,4) a b \<open>a = Ok input\<close> parts(1) [of w] parts(2) [of u] resolve [of v handle input w' r]
        by (simp add: site_effect_def op_bind_def)
    qed (use assms(4) a b Ok parts(1) [of w] parts(2) [of u] in \<open>auto simp: site_effect_def op_bind_def\<close>)
  qed (use assms(4) a parts(1) [of w] in \<open>auto simp: site_effect_def op_bind_def\<close>)
qed

text \<open>C31: Without its capability a call reaches nothing: each of the six operations fails, and neither the driver
  nor the sink has changed.\<close>

theorem site_denied_untouched:
  assumes "resolve_law E" and "grants_kept E" and "\<not> ek_granted E (sw_kernel w) (operation_capability (call_operation call))"
    and "site_exec RO PO push S E l call w = (w', r)"
  shows "sw_driver w' = sw_driver w \<and> sw_sink w' = sw_sink w \<and> \<not> is_ok r"
proof -
  have simple: "sw_driver w' = sw_driver w \<and> sw_sink w' = sw_sink w \<and> \<not> is_ok r"
    if run: "simple_effect S E (call_operation call) i l perform w = (w', r)" for i perform
  proof -
    obtain q where "site_effect S E (call_operation call) (attempt S E l (\<lambda>session. site_driver (perform session)))
        (w\<lparr>sw_stats := None\<rparr>) = (w', q)" and r: "is_ok r \<longrightarrow> is_ok q"
      using run by (auto simp: simple_effect_def op_bind_def op_simps split: prod.splits res.splits)
    from effect_denied [OF assms(1,2) _ this(1)] show ?thesis using assms(3) r by simp
  qed
  have rows: "sw_driver w' = sw_driver w \<and> sw_sink w' = sw_sink w \<and> \<not> is_ok r"
    if run: "rows_effect RO push S E (call_operation call) i t l provider w = (w', r)" for i t provider
  proof -
    obtain q where "site_effect S E (call_operation call) (attempt S E l (\<lambda>session. run_bounded RO push l t (provider session)))
        (w\<lparr>sw_counts := counts_zero, sw_stats := None\<rparr>) = (w', q)" and r: "is_ok r \<longrightarrow> is_ok q"
      using run by (auto simp: rows_effect_def op_bind_def op_simps split: prod.splits res.splits)
    from effect_denied [OF assms(1,2) _ this(1)] show ?thesis using assms(3) r by simp
  qed
  show ?thesis
    using assms(4) simple rows
    by (cases call) (auto simp: site_query_def site_mutate_def site_migrate_def site_schema_def site_attach_def site_transaction_def)
qed

section \<open>Locators\<close>

text \<open>The datums of a locator: the two fields of a preopened reference in either order.\<close>

fun access_symbol :: "storage_access \<Rightarrow> symbol" where
  "access_symbol ReadOnlyAccess = sym_new ''read-only''"
| "access_symbol ReadWriteAccess = sym_new ''read-write''"

fun locator_data :: "storage_locator \<Rightarrow> datum list" where
  "locator_data MemoryStorage = [DNode (sym_qualified ''relation'' ''memory'') []]"
| "locator_data (PreopenedStorage r a) =
     [DNode (sym_qualified ''relation'' ''preopened'') [(sym_new ''ref'', DSymbol r), (sym_new ''access'', DSymbol (access_symbol a))],
      DNode (sym_qualified ''relation'' ''preopened'') [(sym_new ''access'', DSymbol (access_symbol a)), (sym_new ''ref'', DSymbol r)]]"

text \<open>The grammar of locators is closed: a datum is read as a locator exactly when it is one of the forms of that
  locator, so no field is missing, repeated, unknown or of another type.\<close>

theorem locator_forms_exact:
  "locator_from_datum v = Ok l \<longleftrightarrow> v \<in> set (locator_data l)"
proof
  assume "v \<in> set (locator_data l)"
  then show "locator_from_datum v = Ok l"
    by (cases l; cases "(case l of PreopenedStorage r a \<Rightarrow> a | _ \<Rightarrow> ReadOnlyAccess)")
      (auto simp: locator_from_datum_def locator_field_def)
next
  assume run: "locator_from_datum v = Ok l"
  then obtain tag fs where v: "v = DNode tag fs" by (auto simp: locator_from_datum_def split: datum.splits)
  show "v \<in> set (locator_data l)"
  proof (cases "tag = sym_qualified ''relation'' ''memory'' \<and> fs = []")
    case True
    then show ?thesis using run v by (auto simp: locator_from_datum_def)
  next
    case False
    then obtain k x k' x' where fs: "fs = [(k, x), (k', x')]" and tag: "tag = sym_qualified ''relation'' ''preopened''"
      using run v by (auto simp: locator_from_datum_def length_Suc_conv numeral_2_eq_2 split: if_splits)
    then show ?thesis
      using run v by (auto simp: locator_from_datum_def locator_field_def split: if_splits option.splits datum.splits)
  qed
qed


section \<open>Samples\<close>

text \<open>A kernel whose state is the list of granted capabilities, and a provider that pushes three rows.\<close>

definition sample_effects :: "(string list, 'd, 'i) effect_kernel" where
  "sample_effects =
     \<lparr>ek_intern = \<lambda>d k. (k, Ok (Cid (sym_new ''sha256'') [])), ek_fresh = \<lambda>k. (k, 7),
      ek_resolve = \<lambda>eff h w. (if list_all (\<lambda>c. c \<in> set (sw_kernel w)) (ef_requires eff) then h w else (w, Err (KernelOther ''denied''))),
      ek_granted = \<lambda>k c. c \<in> set k, ek_resume = sym_new ''resume'', ek_abort = sym_new ''abort'',
      ek_text = \<lambda>e. ''error'', ek_debug = \<lambda>e. ''error'', ek_symbol_text = qualified_str\<rparr>"

definition sample_rows :: "(bool, unit, unit) row_ops" where
  "sample_rows = \<lparr>ro_type = \<lambda>_. (), ro_cells = \<lambda>_. [()], ro_debug = \<lambda>b. if b then ''t'' else ''f'', ro_new = \<lambda>_ _. Ok True\<rparr>"

definition sample_plans :: "(unit, unit, unit) plan_ops" where
  "sample_plans = \<lparr>po_query_id = \<lambda>_. Cid (sym_new ''q'') [], po_query_output = \<lambda>_. (),
     po_mutation_id = \<lambda>_. Cid (sym_new ''m'') [], po_mutation_output = \<lambda>_. ()\<rparr>"

definition sample_session :: "(unit, unit, unit, unit, bool, nat) session" where
  "sample_session =
     \<lparr>se_query = \<lambda>_ _ _ d. RunPush d True (\<lambda>_. RunPush d False (\<lambda>_. RunPush d True (\<lambda>_. RunDone (d + 1) (Ok provider_stats_default)))),
      se_mutate = \<lambda>_ _ _ d. RunDone d (Ok provider_stats_default), se_migrate = \<lambda>_ _ d. (d, Err LockedError),
      se_schema = \<lambda>_ _ d. (d, Ok provider_stats_default), se_transaction = \<lambda>_ d. (d, Ok ()), se_attach = \<lambda>_ _ d. (d, Ok provider_stats_default)\<rparr>"

definition sample_relation_site :: "(unit, unit, unit, unit, bool, nat) relation_site" where
  "sample_relation_site =
     \<lparr>rs_placement = \<lparr>pl_site = sym_new ''site'', pl_locator = DNil\<rparr>,
      rs_driver = \<lparr>dv_connect = \<lambda>_ _ d. (d, Ok sample_session), dv_now = \<lambda>d. d\<rparr>\<rparr>"

definition sample_limits :: limits where
  "sample_limits = \<lparr>li_rows = 2, li_cells = 9, li_bytes = 9, li_work = 1, li_deadline = None, li_buffer_bytes = None\<rparr>"

definition sample_site_world :: "string list \<Rightarrow> (string list, nat, bool list) site_world" where
  "sample_site_world caps = \<lparr>sw_kernel = caps, sw_driver = 0, sw_sink = [], sw_counts = counts_zero, sw_stats = None, sw_error = None\<rparr>"

lemma sample_resolve_law: "resolve_law sample_effects"
  unfolding resolve_law_def
proof (intro allI impI)
  fix eff h and w w' :: "(string list, 'd, 'i) site_world" and r
  assume run: "ek_resolve sample_effects eff h w = (w', r)"
  show "(\<not> is_ok r \<and> (\<exists>k. w' = w\<lparr>sw_kernel := k\<rparr>)) \<or>
        (list_all (ek_granted sample_effects (sw_kernel w)) (ef_requires eff) \<and>
         (\<exists>k k' w2 q. h (w\<lparr>sw_kernel := k\<rparr>) = (w2, q) \<and> w' = w2\<lparr>sw_kernel := k'\<rparr> \<and> (is_ok r \<longrightarrow> is_ok q)))"
  proof (cases "list_all (\<lambda>c. c \<in> set (sw_kernel w)) (ef_requires eff)")
    case True
    then have "h (w\<lparr>sw_kernel := sw_kernel w\<rparr>) = (w', r)" "w' = w'\<lparr>sw_kernel := sw_kernel w'\<rparr>"
      using run by (simp_all add: sample_effects_def)
    moreover have "list_all (ek_granted sample_effects (sw_kernel w)) (ef_requires eff)"
      using True by (simp add: sample_effects_def)
    ultimately show ?thesis by blast
  next
    case False
    then have "w' = w\<lparr>sw_kernel := sw_kernel w\<rparr>" "\<not> is_ok r" using run by (auto simp: sample_effects_def)
    then show ?thesis by blast
  qed
qed

lemma sample_site_laws: "grants_kept sample_effects" "rows_fit sample_rows"
  by (simp_all add: grants_kept_def sample_effects_def rows_fit_def sample_rows_def)

theorem site_calls_bounded_witness:
  "length (sw_sink (fst (site_exec sample_rows sample_plans vec_push sample_relation_site sample_effects sample_limits
     (CallQuery () True) (sample_site_world [''relation.read''])))) \<le> 2"
proof -
  let ?run = "site_exec sample_rows sample_plans vec_push sample_relation_site sample_effects sample_limits
     (CallQuery () True) (sample_site_world [''relation.read''])"
  have "?run = (fst ?run, snd ?run)" by simp
  from site_calls_bounded [OF vec_sink.row_sink_axioms sample_site_laws(2) sample_resolve_law this]
  show ?thesis by (auto simp: sample_site_world_def sample_limits_def)
qed

theorem site_denied_untouched_witness:
  "sw_driver (fst (site_exec sample_rows sample_plans vec_push sample_relation_site sample_effects sample_limits
     (CallAttach DNil) (sample_site_world [''relation.read'']))) = 0"
proof -
  let ?run = "site_exec sample_rows sample_plans vec_push sample_relation_site sample_effects sample_limits
     (CallAttach DNil) (sample_site_world [''relation.read''])"
  have "?run = (fst ?run, snd ?run)" by simp
  moreover have "\<not> ek_granted (sample_effects :: (string list, nat, bool list) effect_kernel)
      (sw_kernel (sample_site_world [''relation.read'']))
      (operation_capability (call_operation (CallAttach DNil :: (unit, unit, unit, unit, bool) site_call)))"
    by (simp add: sample_effects_def sample_site_world_def operation_capability_def)
  ultimately have "sw_driver (fst ?run) = sw_driver (sample_site_world [''relation.read''])"
    using site_denied_untouched [OF sample_resolve_law sample_site_laws(1)] by blast
  then show ?thesis by (simp add: sample_site_world_def)
qed

text \<open>The third row of the sample is refused, the provider goes on, and the call still gives a receipt for two rows.\<close>

lemma site_swallowed_limit:
  "map_prod sw_sink (\<lambda>r. case r of Ok rc \<Rightarrow> Some (rc_rows rc) | _ \<Rightarrow> None)
     (site_exec sample_rows sample_plans vec_push sample_relation_site sample_effects sample_limits
        (CallQuery () True) (sample_site_world [''relation.read''])) = ([True, False], Some 2)"
  by (simp add: site_query_def rows_effect_def site_effect_def attempt_def site_kernel_def site_connect_def site_driver_def site_now_def
      run_bounded_def bounded_push_def effect_handler_def effect_outcome_def request_of_def record_stats_def enforce_work_def
      enforce_deadline_def receipt_of_def op_bind_def op_simps sample_effects_def sample_rows_def sample_plans_def sample_session_def
      sample_relation_site_def sample_limits_def sample_site_world_def counts_zero_def checked_add_u64_def vec_push_def
      operation_capability_def provider_stats_default_def)

end
