(* ===== verification/Table_Http.thy ===== *)
theory Table_Http
  imports Table_Iface Std_Text
begin

text \<open>
  The HTTP directory, \<open>crates/sim-table-http/src\<close>: options and their normal form, the address of a key, the
  request of every table operation and what its answer means. The HTTP client \<open>sim_lib_net_http\<close> and the
  codecs are parameters: parsing of methods, headers and addresses, the execution of a request on the
  world, and coding of expressions. An error text is its constant part, with the status of a response;
  the detail taken from the response's reason and body is left out.
\<close>

section \<open>Options\<close>

datatype http_write_method = HttpPut | HttpPost

fun write_method_str :: "http_write_method \<Rightarrow> string" where
  "write_method_str HttpPut = ''PUT''"
| "write_method_str HttpPost = ''POST''"

definition write_method_from_str :: "string \<Rightarrow> (table_error, http_write_method) res" where
  "write_method_from_str s =
     (if s = ''PUT'' then Ok HttpPut else if s = ''POST'' then Ok HttpPost
      else Err (Eval ''table/http: unsupported write method''))"

record http_options =
  ho_base_url :: string
  ho_codec :: symbol
  ho_write_method :: http_write_method
  ho_timeout_ms :: nat
  ho_max_body_bytes :: nat

definition http_options_new :: "string \<Rightarrow> http_options" where
  "http_options_new base =
     \<lparr>ho_base_url = base, ho_codec = sym_qualified ''codec'' ''lisp'', ho_write_method = HttpPut, ho_timeout_ms = 5000,
      ho_max_body_bytes = 1024 * 1024\<rparr>"

definition with_codec :: "http_options \<Rightarrow> symbol \<Rightarrow> http_options" where
  "with_codec opts codec = opts\<lparr>ho_codec := codec\<rparr>"

definition with_write_method :: "http_options \<Rightarrow> http_write_method \<Rightarrow> http_options" where
  "with_write_method opts m = opts\<lparr>ho_write_method := m\<rparr>"

definition with_timeout_ms :: "http_options \<Rightarrow> nat \<Rightarrow> http_options" where
  "with_timeout_ms opts t = opts\<lparr>ho_timeout_ms := t\<rparr>"

definition with_max_body_bytes :: "http_options \<Rightarrow> nat \<Rightarrow> http_options" where
  "with_max_body_bytes opts n = opts\<lparr>ho_max_body_bytes := n\<rparr>"

record http_descriptor =
  hd_base_url :: string
  hd_codec :: symbol
  hd_write_method :: string
  hd_timeout_ms :: nat
  hd_max_body_bytes :: nat

definition http_descriptor_default :: http_descriptor where
  "http_descriptor_default =
     \<lparr>hd_base_url = [], hd_codec = sym_qualified ''codec'' ''lisp'', hd_write_method = ''PUT'', hd_timeout_ms = 5000,
      hd_max_body_bytes = 1024 * 1024\<rparr>"

definition http_options_try_from :: "http_descriptor \<Rightarrow> (table_error, http_options) res" where
  "http_options_try_from d =
     res_bind (write_method_from_str (hd_write_method d)) (\<lambda>m.
       Ok \<lparr>ho_base_url = hd_base_url d, ho_codec = hd_codec d, ho_write_method = m, ho_timeout_ms = hd_timeout_ms d,
           ho_max_body_bytes = hd_max_body_bytes d\<rparr>)"

text \<open>\<open>str::trim\<close>: the white space characters of Unicode, in UTF-8.\<close>

definition white_space :: "string list" where
  "white_space =
     map (map char_of)
       ([[9], [10], [11], [12], [13], [32], [194, 133], [194, 160], [225, 154, 128]] @
        map (\<lambda>b. [226, 128, b]) [128..<139] @
        [[226, 128, 168], [226, 128, 169], [226, 128, 175], [226, 129, 159], [227, 128, 128 :: nat]])"

function trim_start :: "string list \<Rightarrow> string \<Rightarrow> string" where
  "trim_start ws s =
     (case find (\<lambda>p. p \<noteq> [] \<and> starts_with p s) ws of
        Some p \<Rightarrow> trim_start ws (drop (length p) s)
      | None \<Rightarrow> s)"
  by pat_completeness auto
termination
  by (relation "measure (\<lambda>(_, s). length s)") (auto simp: find_Some_iff starts_with_iff)

declare trim_start.simps [simp del]

definition str_trim :: "string \<Rightarrow> string" where
  "str_trim s = rev (trim_start (map rev white_space) (rev (trim_start white_space s)))"

definition trim_end_matches :: "char \<Rightarrow> string \<Rightarrow> string" where
  "trim_end_matches c s = rev (dropWhile (\<lambda>x. x = c) (rev s))"

section \<open>The client\<close>

datatype net_error =
    ResponseTooLarge nat
  | InvalidUrl
  | UserInfoForbidden
  | UnsupportedScheme
  | InvalidMethod
  | InvalidHeaderName
  | InvalidHeaderValue
  | AmbiguousHeader
  | UnsupportedTransferFraming
  | RequestTooLarge
  | OtherNetError

record net_policy =
  np_connect_timeout :: nat
  np_read_timeout :: nat
  np_write_timeout :: nat
  np_total_timeout :: nat
  np_max_request :: nat
  np_max_response :: nat
  np_max_decompressed :: nat

datatype request_body = BodyEmpty | BodyBytes "u8 list"

record ('m, 'u, 'h) net_request =
  nr_method :: 'm
  nr_url :: 'u
  nr_headers :: "'h list"
  nr_body :: request_body

record net_response =
  ns_status :: nat
  ns_reason :: string
  ns_body :: "u8 list"

datatype codec_output = OutText string | OutBytes "u8 list"

record ('w, 'm, 'u, 'h) http_net =
  nc_method :: "string \<Rightarrow> (net_error, 'm) res"
  nc_url :: "string \<Rightarrow> (net_error, 'u) res"
  nc_header :: "string \<Rightarrow> string \<Rightarrow> (net_error, 'h) res"
  nc_execute :: "net_policy \<Rightarrow> ('m, 'u, 'h) net_request \<Rightarrow> ('w, net_error, net_response) op"
  nc_decode :: "symbol \<Rightarrow> u8 list \<Rightarrow> (table_error, expr) res"
  nc_encode :: "symbol \<Rightarrow> expr \<Rightarrow> (table_error, codec_output) res"

record http_request =
  hq_method :: string
  hq_url :: string
  hq_headers :: "(string \<times> string) list"
  hq_body :: "u8 list"
  hq_timeout :: nat
  hq_max_body_bytes :: nat

record http_response =
  hs_status :: nat
  hs_reason :: "string option"
  hs_body :: "u8 list"

fun net_map_error :: "net_error \<Rightarrow> table_error" where
  "net_map_error (ResponseTooLarge cap) = Eval (''table/http: response exceeded max body bytes '' @ nat_to_string cap)"
| "net_map_error OtherNetError = HostError ''table/http''"
| "net_map_error _ = Eval ''table/http''"

definition request_policy :: "http_request \<Rightarrow> net_policy" where
  "request_policy q =
     \<lparr>np_connect_timeout = hq_timeout q, np_read_timeout = hq_timeout q, np_write_timeout = hq_timeout q,
      np_total_timeout = hq_timeout q, np_max_request = max (length (hq_body q)) 1, np_max_response = hq_max_body_bytes q,
      np_max_decompressed = hq_max_body_bytes q\<rparr>"

definition http_send :: "('w, 'm, 'u, 'h) http_net \<Rightarrow> http_request \<Rightarrow> ('w, table_error, http_response) op" where
  "http_send N q =
     (op_bind (op_res (map_err net_map_error (nc_method N (hq_method q)))) (\<lambda>method.
      op_bind (op_res (map_err net_map_error (nc_url N (hq_url q)))) (\<lambda>url.
      op_bind (op_res (res_map (\<lambda>(n, v). map_err net_map_error (nc_header N n v)) (hq_headers q))) (\<lambda>headers.
      op_bind (\<lambda>w. case nc_execute N (request_policy q)
           \<lparr>nr_method = method, nr_url = url, nr_headers = headers,
            nr_body = (if hq_body q = [] then BodyEmpty else BodyBytes (hq_body q))\<rparr> w of
             (w', r) \<Rightarrow> (w', map_err net_map_error r)) (\<lambda>response.
      op_return \<lparr>hs_status = ns_status response, hs_reason = Some (ns_reason response), hs_body = ns_body response\<rparr>)))))"

section \<open>The directory\<close>

definition validate_options :: "('w, 'm, 'u, 'h) http_net \<Rightarrow> http_options \<Rightarrow> (table_error, unit) res" where
  "validate_options N opts =
     (if ho_timeout_ms opts = 0 then Err (Eval ''table/http: timeout_ms must be non-zero'')
      else if str_trim (ho_base_url opts) = [] then Err (Eval ''table/http: base_url is empty'')
      else res_bind (map_err (\<lambda>_. Eval ''table/http'') (nc_url N (str_trim (ho_base_url opts)))) (\<lambda>_. Ok ()))"

definition normalize_options :: "http_options \<Rightarrow> http_options" where
  "normalize_options opts = opts\<lparr>ho_base_url := trim_end_matches (CHR ''/'') (str_trim (ho_base_url opts))\<rparr>"

definition http_new :: "('w, 'm, 'u, 'h) http_net \<Rightarrow> http_options \<Rightarrow> (table_error, http_options) res" where
  "http_new N opts = res_bind (validate_options N opts) (\<lambda>_. Ok (normalize_options opts))"

definition is_unreserved_path_byte :: "char \<Rightarrow> bool" where
  "is_unreserved_path_byte c =
     (let b = (of_char c :: nat) in
      65 \<le> b \<and> b \<le> 90 \<or> 97 \<le> b \<and> b \<le> 122 \<or> 48 \<le> b \<and> b \<le> 57 \<or> c = CHR ''-'' \<or> c = CHR ''.'' \<or> c = CHR ''_'' \<or> c = CHR ''~'')"

definition encode_path_segment :: "string \<Rightarrow> string" where
  "encode_path_segment s =
     concat (map (\<lambda>c. let hex = ''0123456789ABCDEF'' in
       if is_unreserved_path_byte c then [c]
       else [CHR ''%'', hex ! (of_char c div 16), hex ! (of_char c mod 16)]) s)"

definition http_url_for_key :: "'v cx \<Rightarrow> http_options \<Rightarrow> symbol \<Rightarrow> (table_error, string) res" where
  "http_url_for_key C opts key =
     (let segment = sym_name key in
      if \<not> legal_segment C segment then Err (Eval ''table/http: illegal name'')
      else Ok (ho_base_url opts @ ''/'' @ encode_path_segment segment))"

definition http_request_of :: "http_options \<Rightarrow> string \<Rightarrow> string \<Rightarrow> u8 list \<Rightarrow> http_request" where
  "http_request_of opts method url body =
     \<lparr>hq_method = method, hq_url = url, hq_headers = [], hq_body = body, hq_timeout = ho_timeout_ms opts,
      hq_max_body_bytes = ho_max_body_bytes opts\<rparr>"

definition http_decode_body :: "('w, 'm, 'u, 'h) http_net \<Rightarrow> 'v cx \<Rightarrow> http_options \<Rightarrow> u8 list \<Rightarrow> (table_error, 'v) res" where
  "http_decode_body N C opts body = res_bind (nc_decode N (ho_codec opts) body) (cx_expr C)"

definition http_encode_value :: "('w, 'm, 'u, 'h) http_net \<Rightarrow> 'v cx \<Rightarrow> http_options \<Rightarrow> 'v \<Rightarrow> (table_error, u8 list) res" where
  "http_encode_value N C opts v =
     res_bind (as_expr C v) (\<lambda>e.
     res_bind (nc_encode N (ho_codec opts) e) (\<lambda>out.
       case out of OutText t \<Rightarrow> Ok (as_bytes t) | OutBytes bs \<Rightarrow> Ok bs))"

definition net_http_aliases :: "string list" where
  "net_http_aliases = [''net.http'', ''net-connect'', ''network'']"

definition require_table_http :: "'v cx \<Rightarrow> (table_error, unit) res" where
  "require_table_http C =
     (if cx_granted C ''net/http'' \<or> list_ex (cx_granted C) net_http_aliases then Ok ()
      else Err (CapabilityDenied ''net/http''))"

definition is_success :: "nat \<Rightarrow> bool" where
  "is_success status \<longleftrightarrow> 200 \<le> status \<and> status < 300"

definition status_error :: "nat \<Rightarrow> table_error" where
  "status_error status = HostError (''table/http: http '' @ nat_to_string status)"

definition ensure_success :: "nat \<Rightarrow> (table_error, unit) res" where
  "ensure_success status = (if is_success status then Ok () else Err (status_error status))"

text \<open>The operations of the table, each one request.\<close>

definition http_get :: "('w, 'm, 'u, 'h) http_net \<Rightarrow> 'v cx \<Rightarrow> http_options \<Rightarrow> symbol \<Rightarrow> ('w, table_error, 'v) op" where
  "http_get N C opts key =
     op_bind (op_res (require_table_http C)) (\<lambda>_.
     op_bind (op_res (http_url_for_key C opts key)) (\<lambda>url.
     op_bind (http_send N (http_request_of opts ''GET'' url [])) (\<lambda>response.
     op_bind (op_res (ensure_success (hs_status response))) (\<lambda>_.
       op_res (http_decode_body N C opts (hs_body response))))))"

definition http_set :: "('w, 'm, 'u, 'h) http_net \<Rightarrow> 'v cx \<Rightarrow> http_options \<Rightarrow> symbol \<Rightarrow> 'v \<Rightarrow> ('w, table_error, unit) op" where
  "http_set N C opts key v =
     op_bind (op_res (require_table_http C)) (\<lambda>_.
     op_bind (op_res (http_encode_value N C opts v)) (\<lambda>body.
     op_bind (op_res (http_url_for_key C opts key)) (\<lambda>url.
     op_bind (http_send N (http_request_of opts (write_method_str (ho_write_method opts)) url body)) (\<lambda>response.
     op_bind (op_res (ensure_success (hs_status response))) (\<lambda>_. op_return ())))))"

definition http_has :: "('w, 'm, 'u, 'h) http_net \<Rightarrow> 'v cx \<Rightarrow> http_options \<Rightarrow> symbol \<Rightarrow> ('w, table_error, bool) op" where
  "http_has N C opts key =
     op_bind (op_res (require_table_http C)) (\<lambda>_.
     op_bind (op_res (http_url_for_key C opts key)) (\<lambda>url.
     op_bind (http_send N (http_request_of opts ''HEAD'' url [])) (\<lambda>response.
       let status = hs_status response in
       if is_success status then op_return True
       else if status = 404 then op_return False
       else op_fail (status_error status))))"

definition http_del :: "('w, 'm, 'u, 'h) http_net \<Rightarrow> 'v cx \<Rightarrow> http_options \<Rightarrow> symbol \<Rightarrow> ('w, table_error, 'v) op" where
  "http_del N C opts key =
     op_bind (op_res (require_table_http C)) (\<lambda>_.
     op_bind (op_res (http_url_for_key C opts key)) (\<lambda>url.
     op_bind (http_send N (http_request_of opts ''DELETE'' url [])) (\<lambda>response.
       let status = hs_status response in
       if is_success status \<or> status = 404 then op_res (cx_nil C)
       else op_fail (status_error status))))"

definition http_keys :: "('w, table_error, symbol list) op" where
  "http_keys = op_fail (Eval ''table/http: keys are not available without an index resource'')"

definition http_entries :: "('w, table_error, (symbol \<times> 'v) list) op" where
  "http_entries = op_fail (Eval ''table/http: entries are not available without an index resource'')"

definition http_len :: "('w, table_error, nat) op" where
  "http_len = op_fail (Eval ''table/http: len is not available without an index resource'')"

definition http_clear :: "('w, table_error, unit) op" where
  "http_clear = op_fail (Eval ''table/http: clear is not available without an index resource'')"

text \<open>Directories need an index resource: what is asked is checked, then refused.\<close>

definition index_resource_error :: "string \<Rightarrow> table_error" where
  "index_resource_error operation = Eval (''table/http: '' @ operation @ '' requires an index resource'')"

definition http_refused :: "'v cx \<Rightarrow> http_options \<Rightarrow> string \<Rightarrow> symbol \<Rightarrow> ('w, table_error, 'a) op" where
  "http_refused C opts operation name =
     op_bind (op_res (require_table_http C)) (\<lambda>_.
     op_bind (op_res (http_url_for_key C opts name)) (\<lambda>_. op_fail (index_resource_error operation)))"

definition http_dir :: "'v cx \<Rightarrow> http_options \<Rightarrow> ('w, 'v) dir" where
  "http_dir C opts =
     \<lparr>dr_mkdir = http_refused C opts ''mkdir'', dr_opendir = http_refused C opts ''opendir'', dr_rmdir = http_refused C opts ''rmdir'',
      dr_is_dir = http_refused C opts ''is_dir''\<rparr>"


section \<open>Addresses\<close>

text \<open>The reference: decoding of a path segment, RFC 3986.\<close>

fun percent_decode :: "string \<Rightarrow> string option" where
  "percent_decode [] = Some []"
| "percent_decode (c # s) =
     (if c = CHR ''%'' then
        (case s of
           a # b # r \<Rightarrow>
             (case (to_digit16 a, to_digit16 b) of
                (Some h, Some l) \<Rightarrow> map_option (\<lambda>t. char_of (16 * h + l) # t) (percent_decode r)
              | _ \<Rightarrow> None)
         | _ \<Rightarrow> None)
      else map_option (\<lambda>t. c # t) (percent_decode s))"

lemma hex_upper:
  assumes "d < 16"
  shows "to_digit16 (''0123456789ABCDEF'' ! d) = Some d \<and> is_unreserved_path_byte (''0123456789ABCDEF'' ! d)"
proof -
  have "list_all (\<lambda>d. to_digit16 (''0123456789ABCDEF'' ! d) = Some d \<and> is_unreserved_path_byte (''0123456789ABCDEF'' ! d)) [0..<16]"
    by code_simp
  then show ?thesis using assms by (simp add: list_all_iff)
qed

lemma encode_path_Cons:
  "encode_path_segment (c # s) =
     (if is_unreserved_path_byte c then [c]
      else [CHR ''%'', ''0123456789ABCDEF'' ! (of_char c div 16), ''0123456789ABCDEF'' ! (of_char c mod 16)]) @ encode_path_segment s"
  by (simp add: encode_path_segment_def Let_def)

lemma char_halves: "(of_char c :: nat) div 16 < 16" "(of_char c :: nat) mod 16 < 16"
proof -
  have "(of_char c :: nat) < 256" by simp
  then show "(of_char c :: nat) div 16 < 16" "(of_char c :: nat) mod 16 < 16" by (simp_all add: less_mult_imp_div_less)
qed

lemma percent_decode_encode: "percent_decode (encode_path_segment s) = Some s"
proof (induction s)
  case Nil
  then show ?case by (simp add: encode_path_segment_def)
next
  case (Cons c s)
  have "\<not> is_unreserved_path_byte (CHR ''%'')" by (simp add: is_unreserved_path_byte_def Let_def)
  moreover have "char_of (16 * (of_char c div 16) + of_char c mod (16::nat)) = c" by (simp only: mult_div_mod_eq char_of_char)
  ultimately show ?case
    using Cons hex_upper [OF char_halves(1) [of c]] hex_upper [OF char_halves(2) [of c]] by (auto simp: encode_path_Cons)
qed

lemma encode_path_chars: "list_all (\<lambda>c. is_unreserved_path_byte c \<or> c = CHR ''%'') (encode_path_segment s)"
proof (induction s)
  case Nil
  then show ?case by (simp add: encode_path_segment_def)
next
  case (Cons c s)
  then show ?case using hex_upper [OF char_halves(1) [of c]] hex_upper [OF char_halves(2) [of c]] by (simp add: encode_path_Cons)
qed

lemma encode_path_eq: "encode_path_segment s = encode_path_segment t \<longleftrightarrow> s = t"
  using percent_decode_encode by (metis option.inject)

text \<open>C34: The address of a key is its name below the base: what is put behind the base decodes to the name, has no
  character that ends a path segment, and two keys share an address exactly when they share their name.\<close>

theorem http_address_exact:
  "percent_decode (encode_path_segment s) = Some s \<and>
   list_all (\<lambda>c. is_unreserved_path_byte c \<or> c = CHR ''%'') (encode_path_segment s) \<and>
   (http_url_for_key C opts j = http_url_for_key C opts k \<longleftrightarrow>
      (if legal_segment C (sym_name j) then legal_segment C (sym_name k) \<and> sym_name j = sym_name k
       else \<not> legal_segment C (sym_name k)))"
  using percent_decode_encode encode_path_chars by (auto simp: http_url_for_key_def Let_def encode_path_eq)

text \<open>The namespace of a key is no part of its address.\<close>

lemma http_namespaces_share: "http_url_for_key C opts (Symbol (Some ns) name) = http_url_for_key C opts (Symbol None name)"
  by (simp add: http_url_for_key_def)

section \<open>Over a server that keeps resources\<close>

text \<open>
  What the directory relies on: each address holds a resource or none, which \<open>GET\<close> answers, the write method
  replaces, \<open>DELETE\<close> removes and \<open>HEAD\<close> finds; different addresses are different resources.
\<close>

definition net_request_of :: "(string \<Rightarrow> 'm) \<Rightarrow> string \<Rightarrow> 'u \<Rightarrow> u8 list \<Rightarrow> ('m, 'u, 'h) net_request" where
  "net_request_of meth m u body =
     \<lparr>nr_method = meth m, nr_url = u, nr_headers = [], nr_body = (if body = [] then BodyEmpty else BodyBytes body)\<rparr>"

definition http_get_law :: "('w, 'm, 'u, 'h) http_net \<Rightarrow> (string \<Rightarrow> 'm) \<Rightarrow> ('w \<Rightarrow> 'u \<Rightarrow> u8 list option) \<Rightarrow> bool" where
  "http_get_law N meth store \<longleftrightarrow>
     (\<forall>p u w. case store w u of
        None \<Rightarrow> \<exists>r. nc_execute N p (net_request_of meth ''GET'' u []) w = (w, Ok r) \<and> ns_status r = 404
      | Some b \<Rightarrow>
          if length b \<le> np_max_response p
          then \<exists>r. nc_execute N p (net_request_of meth ''GET'' u []) w = (w, Ok r) \<and> ns_status r = 200 \<and> ns_body r = b
          else nc_execute N p (net_request_of meth ''GET'' u []) w = (w, Err (ResponseTooLarge (np_max_response p))))"

definition http_head_law :: "('w, 'm, 'u, 'h) http_net \<Rightarrow> (string \<Rightarrow> 'm) \<Rightarrow> ('w \<Rightarrow> 'u \<Rightarrow> u8 list option) \<Rightarrow> bool" where
  "http_head_law N meth store \<longleftrightarrow>
     (\<forall>p u w. \<exists>r. nc_execute N p (net_request_of meth ''HEAD'' u []) w = (w, Ok r) \<and> ns_status r = (if store w u = None then 404 else 200))"

definition http_delete_law :: "('w, 'm, 'u, 'h) http_net \<Rightarrow> (string \<Rightarrow> 'm) \<Rightarrow> ('w \<Rightarrow> 'u \<Rightarrow> u8 list option) \<Rightarrow> bool" where
  "http_delete_law N meth store \<longleftrightarrow>
     (\<forall>p u w. \<exists>w' r. nc_execute N p (net_request_of meth ''DELETE'' u []) w = (w', Ok r) \<and>
        ns_status r = (if store w u = None then 404 else 204) \<and> store w' = (store w)(u := None))"

definition http_write_law :: "('w, 'm, 'u, 'h) http_net \<Rightarrow> (string \<Rightarrow> 'm) \<Rightarrow> ('w \<Rightarrow> 'u \<Rightarrow> u8 list option) \<Rightarrow> string \<Rightarrow> bool" where
  "http_write_law N meth store m \<longleftrightarrow>
     (\<forall>p u body w. length body \<le> np_max_request p \<longrightarrow>
        (\<exists>w' r. nc_execute N p (net_request_of meth m u body) w = (w', Ok r) \<and> is_success (ns_status r) \<and> store w' = (store w)(u := Some body)))"

definition http_address_law :: "('w, 'm, 'u, 'h) http_net \<Rightarrow> 'v cx \<Rightarrow> http_options \<Rightarrow> bool" where
  "http_address_law N C opts \<longleftrightarrow>
     (\<forall>k url. http_url_for_key C opts k = Ok url \<longrightarrow> is_ok (nc_url N url)) \<and>
     (\<forall>j k a b u. http_url_for_key C opts j = Ok a \<longrightarrow> http_url_for_key C opts k = Ok b \<longrightarrow> nc_url N a = Ok u \<longrightarrow> nc_url N b = Ok u \<longrightarrow> a = b)"

definition resource_server ::
    "('w, 'm, 'u, 'h) http_net \<Rightarrow> (string \<Rightarrow> 'm) \<Rightarrow> ('w \<Rightarrow> 'u \<Rightarrow> u8 list option) \<Rightarrow> 'v cx \<Rightarrow> http_options \<Rightarrow> bool" where
  "resource_server N meth store C opts \<longleftrightarrow>
     list_all (\<lambda>s. nc_method N s = Ok (meth s)) [''GET'', ''HEAD'', ''DELETE'', write_method_str (ho_write_method opts)] \<and>
     http_address_law N C opts \<and> http_get_law N meth store \<and> http_head_law N meth store \<and> http_delete_law N meth store \<and>
     http_write_law N meth store (write_method_str (ho_write_method opts))"

lemma resource_serverD:
  assumes "resource_server N meth store C opts"
  shows "http_address_law N C opts" "http_get_law N meth store" "http_head_law N meth store" "http_delete_law N meth store"
    "http_write_law N meth store (write_method_str (ho_write_method opts))"
  using assms by (simp_all add: resource_server_def)

text \<open>The resource of a key.\<close>

definition resource_of :: "('w, 'm, 'u, 'h) http_net \<Rightarrow> 'v cx \<Rightarrow> http_options \<Rightarrow> symbol \<Rightarrow> 'u option" where
  "resource_of N C opts k =
     (case http_url_for_key C opts k of Ok url \<Rightarrow> (case nc_url N url of Ok u \<Rightarrow> Some u | _ \<Rightarrow> None) | _ \<Rightarrow> None)"

lemma resource_of_legal:
  assumes "resource_server N meth store C opts" and "legal_segment C (sym_name k)"
  obtains url u where "http_url_for_key C opts k = Ok url" "nc_url N url = Ok u" "resource_of N C opts k = Some u"
proof -
  have url: "http_url_for_key C opts k = Ok (ho_base_url opts @ ''/'' @ encode_path_segment (sym_name k))"
    using assms(2) by (simp add: http_url_for_key_def)
  then have "is_ok (nc_url N (ho_base_url opts @ ''/'' @ encode_path_segment (sym_name k)))"
    using resource_serverD(1) [OF assms(1)] unfolding http_address_law_def by blast
  then show ?thesis using url that by (auto simp: is_ok_iff resource_of_def)
qed

lemma resources_differ:
  assumes server: "resource_server N meth store C opts"
    and legal: "legal_segment C (sym_name j)" "legal_segment C (sym_name k)" and names: "sym_name j \<noteq> sym_name k"
  shows "resource_of N C opts j \<noteq> resource_of N C opts k"
proof
  assume same: "resource_of N C opts j = resource_of N C opts k"
  obtain a u where a: "http_url_for_key C opts j = Ok a" "nc_url N a = Ok u" "resource_of N C opts j = Some u"
    by (rule resource_of_legal [OF server legal(1)])
  obtain b t where b: "http_url_for_key C opts k = Ok b" "nc_url N b = Ok t" "resource_of N C opts k = Some t"
    by (rule resource_of_legal [OF server legal(2)])
  have "a = b" using resource_serverD(1) [OF server] a b same unfolding http_address_law_def by (metis option.inject)
  then have "http_url_for_key C opts j = http_url_for_key C opts k" using a b by simp
  then show False using legal names by (simp add: http_url_for_key_def encode_path_eq)
qed


definition policy_of :: "http_options \<Rightarrow> u8 list \<Rightarrow> net_policy" where
  "policy_of opts body =
     \<lparr>np_connect_timeout = ho_timeout_ms opts, np_read_timeout = ho_timeout_ms opts, np_write_timeout = ho_timeout_ms opts,
      np_total_timeout = ho_timeout_ms opts, np_max_request = max (length body) 1, np_max_response = ho_max_body_bytes opts,
      np_max_decompressed = ho_max_body_bytes opts\<rparr>"

lemma request_policy_of [simp]: "request_policy (http_request_of opts m url body) = policy_of opts body"
  by (simp add: request_policy_def policy_of_def http_request_of_def)

lemma request_fields [simp]:
  "hq_method (http_request_of opts m url body) = m" "hq_url (http_request_of opts m url body) = url"
  "hq_headers (http_request_of opts m url body) = []" "hq_body (http_request_of opts m url body) = body"
  by (simp_all add: http_request_of_def)

lemma http_send_run:
  assumes "nc_method N m = Ok (meth m)" and "nc_url N url = Ok u"
    and "nc_execute N (policy_of opts body) (net_request_of meth m u body) w = (w', r)"
  shows "http_send N (http_request_of opts m url body) w =
    (w', case r of Ok a \<Rightarrow> Ok \<lparr>hs_status = ns_status a, hs_reason = Some (ns_reason a), hs_body = ns_body a\<rparr>
      | Err e \<Rightarrow> Err (net_map_error e) | Panic p \<Rightarrow> Panic p)"
proof -
  have "http_send N (http_request_of opts m url body) w =
      op_bind (\<lambda>w. case nc_execute N (policy_of opts body) (net_request_of meth m u body) w of (w', r) \<Rightarrow> (w', map_err net_map_error r))
        (\<lambda>response. op_return \<lparr>hs_status = ns_status response, hs_reason = Some (ns_reason response), hs_body = ns_body response\<rparr>) w"
    using assms(1,2) by (simp add: http_send_def op_bind_def op_simps net_request_of_def split: prod.split res.split)
  then show ?thesis using assms(3) by (cases r) (simp_all add: op_bind_def op_simps)
qed

text \<open>What reading a resource answers.\<close>

definition http_reads :: "('w, 'm, 'u, 'h) http_net \<Rightarrow> 'v cx \<Rightarrow> http_options \<Rightarrow> u8 list option \<Rightarrow> (table_error, 'v) res" where
  "http_reads N C opts resource =
     (case resource of
        None \<Rightarrow> Err (status_error 404)
      | Some b \<Rightarrow>
          if length b \<le> ho_max_body_bytes opts then http_decode_body N C opts b
          else Err (net_map_error (ResponseTooLarge (ho_max_body_bytes opts))))"

lemma http_methods:
  assumes server: "resource_server N meth store C opts"
  shows
  "nc_method N ''GET'' = Ok (meth ''GET'')" "nc_method N ''HEAD'' = Ok (meth ''HEAD'')" "nc_method N ''DELETE'' = Ok (meth ''DELETE'')"
  "nc_method N (write_method_str (ho_write_method opts)) = Ok (meth (write_method_str (ho_write_method opts)))"
  using server by (simp_all add: resource_server_def)

lemma http_policy_bounds [simp]: "np_max_response (policy_of opts body) = ho_max_body_bytes opts" "length body \<le> np_max_request (policy_of opts body)"
  by (simp_all add: policy_of_def)

lemma http_get_runs:
  assumes server: "resource_server N meth store C opts" and granted: "require_table_http C = Ok ()"
    and url: "http_url_for_key C opts k = Ok url" and u: "nc_url N url = Ok u"
  shows "http_get N C opts k w = (w, http_reads N C opts (store w u))"
proof -
  note law = resource_serverD(2) [OF server, unfolded http_get_law_def, THEN spec, THEN spec, THEN spec, of "policy_of opts []" u w, unfolded http_policy_bounds]
  note send = http_send_run [where meth = meth and m = "''GET''", OF http_methods(1) [OF server] u, of opts "[]"]
  show ?thesis
  proof (cases "store w u")
    case None
    then obtain r where r: "nc_execute N (policy_of opts []) (net_request_of meth ''GET'' u []) w = (w, Ok r)" "ns_status r = 404" using law by auto
    show ?thesis using send [OF r(1)] r(2) granted url None
      by (simp add: http_get_def op_bind_def op_simps http_reads_def ensure_success_def is_success_def)
  next
    case (Some b)
    show ?thesis
    proof (cases "length b \<le> ho_max_body_bytes opts")
      case True
      then obtain r where r: "nc_execute N (policy_of opts []) (net_request_of meth ''GET'' u []) w = (w, Ok r)" "ns_status r = 200" "ns_body r = b"
        using law Some by auto
      show ?thesis using send [OF r(1)] r(2,3) granted url Some True
        by (simp add: http_get_def op_bind_def op_simps http_reads_def ensure_success_def is_success_def)
    next
      case False
      then have r: "nc_execute N (policy_of opts []) (net_request_of meth ''GET'' u []) w = (w, Err (ResponseTooLarge (ho_max_body_bytes opts)))"
        using law Some by simp
      show ?thesis using send [OF r] granted url Some False by (simp add: http_get_def op_bind_def op_simps http_reads_def)
    qed
  qed
qed

lemma http_has_runs:
  assumes server: "resource_server N meth store C opts" and granted: "require_table_http C = Ok ()"
    and url: "http_url_for_key C opts k = Ok url" and u: "nc_url N url = Ok u"
  shows "http_has N C opts k w = (w, Ok (store w u \<noteq> None))"
proof -
  obtain r where r: "nc_execute N (policy_of opts []) (net_request_of meth ''HEAD'' u []) w = (w, Ok r)"
      "ns_status r = (if store w u = None then 404 else 200)"
    using resource_serverD(3) [OF server] unfolding http_head_law_def by blast
  show ?thesis using http_send_run [where meth = meth and m = "''HEAD''", OF http_methods(2) [OF server] u r(1)] r(2) granted url
    by (simp add: http_has_def op_bind_def op_simps Let_def is_success_def)
qed

lemma http_del_runs:
  assumes server: "resource_server N meth store C opts" and granted: "require_table_http C = Ok ()"
    and url: "http_url_for_key C opts k = Ok url" and u: "nc_url N url = Ok u"
  shows "\<exists>w'. http_del N C opts k w = (w', cx_nil C) \<and> store w' = (store w)(u := None)"
proof -
  obtain w' r where r: "nc_execute N (policy_of opts []) (net_request_of meth ''DELETE'' u []) w = (w', Ok r)"
      "ns_status r = (if store w u = None then 404 else 204)" "store w' = (store w)(u := None)"
    using resource_serverD(4) [OF server] unfolding http_delete_law_def by blast
  show ?thesis using http_send_run [where meth = meth and m = "''DELETE''", OF http_methods(3) [OF server] u r(1)] r(2,3) granted url
    by (simp add: http_del_def op_bind_def op_simps Let_def is_success_def)
qed

lemma http_set_runs:
  assumes server: "resource_server N meth store C opts" and granted: "require_table_http C = Ok ()"
    and url: "http_url_for_key C opts k = Ok url" and u: "nc_url N url = Ok u"
    and "http_encode_value N C opts v = Ok body"
  shows "\<exists>w'. http_set N C opts k v w = (w', Ok ()) \<and> store w' = (store w)(u := Some body)"
proof -
  have "length body \<le> np_max_request (policy_of opts body)" by simp
  then obtain w' r where r: "nc_execute N (policy_of opts body) (net_request_of meth (write_method_str (ho_write_method opts)) u body) w = (w', Ok r)"
      "is_success (ns_status r)" "store w' = (store w)(u := Some body)"
    using resource_serverD(5) [OF server] unfolding http_write_law_def by blast
  show ?thesis using http_send_run [where meth = meth and m = "write_method_str (ho_write_method opts)", OF http_methods(4) [OF server] u r(1)] r(2,3) granted url assms(5)
    by (simp add: http_set_def op_bind_def op_simps ensure_success_def)
qed

text \<open>C33: Over a server that keeps resources, the directory is a table of them: each key has a resource of its own, by
  its name, which \<open>get\<close> reads through the codec within the bound on bodies, \<open>has\<close> finds, \<open>set\<close> replaces by
  the encoded value and \<open>del\<close> removes, and no operation touches the resource of another name.\<close>

theorem http_refines_resources:
  assumes "resource_server N meth store C opts" and "require_table_http C = Ok ()" and "legal_segment C (sym_name k)"
  shows "\<exists>u. resource_of N C opts k = Some u \<and>
    (\<forall>j. legal_segment C (sym_name j) \<longrightarrow> resource_of N C opts j = Some u \<longrightarrow> sym_name j = sym_name k) \<and>
    http_get N C opts k w = (w, http_reads N C opts (store w u)) \<and>
    http_has N C opts k w = (w, Ok (store w u \<noteq> None)) \<and>
    (\<forall>v body. http_encode_value N C opts v = Ok body \<longrightarrow>
       (\<exists>w'. http_set N C opts k v w = (w', Ok ()) \<and> store w' = (store w)(u := Some body))) \<and>
    (\<exists>w'. http_del N C opts k w = (w', cx_nil C) \<and> store w' = (store w)(u := None))"
proof -
  obtain url u where u: "http_url_for_key C opts k = Ok url" "nc_url N url = Ok u" "resource_of N C opts k = Some u"
    by (rule resource_of_legal [OF assms(1,3)])
  note runs = http_get_runs [OF assms(1,2) u(1,2)] http_has_runs [OF assms(1,2) u(1,2)] http_set_runs [OF assms(1,2) u(1,2)] http_del_runs [OF assms(1,2) u(1,2)]
  have "sym_name j = sym_name k" if "legal_segment C (sym_name j)" "resource_of N C opts j = Some u" for j
    using resources_differ [OF assms(1) that(1) assms(3)] that(2) u(3) by auto
  then show ?thesis using runs u(3) by blast
qed

text \<open>Without the capability, or for a name that is no segment, nothing is sent.\<close>

lemma http_silent:
  assumes "\<not> (is_ok (require_table_http C) \<and> legal_segment C (sym_name k))"
  shows "fst (http_get N C opts k w) = w \<and> fst (http_set N C opts k v w) = w \<and> fst (http_has N C opts k w) = w \<and>
    fst (http_del N C opts k w) = w"
  using assms
  by (cases "require_table_http C"; cases "http_encode_value N C opts v")
    (auto simp: http_get_def http_set_def http_has_def http_del_def http_url_for_key_def op_bind_def op_simps Let_def)

section \<open>A server\<close>

text \<open>Resources by address, text by its bytes.\<close>

definition http_sample_net :: "((string \<Rightarrow> u8 list option), string, string, unit) http_net" where
  "http_sample_net =
     \<lparr>nc_method = Ok, nc_url = Ok, nc_header = \<lambda>_ _. Err InvalidHeaderName,
      nc_execute = (\<lambda>p q w.
        let u = nr_url q; answer = (\<lambda>w status body. (w, Ok \<lparr>ns_status = status, ns_reason = [], ns_body = body\<rparr>)) in
        if nr_method q = ''GET'' then
          (case w u of None \<Rightarrow> answer w 404 []
           | Some b \<Rightarrow> if length b \<le> np_max_response p then answer w 200 b else (w, Err (ResponseTooLarge (np_max_response p))))
        else if nr_method q = ''HEAD'' then answer w (if w u = None then 404 else 200) []
        else if nr_method q = ''DELETE'' then answer (w(u := None)) (if w u = None then 404 else 204) []
        else answer (w(u := Some (case nr_body q of BodyEmpty \<Rightarrow> [] | BodyBytes b \<Rightarrow> b))) 204 []),
      nc_decode = \<lambda>_ b. Ok (EBytes b), nc_encode = \<lambda>_ e. (case e of EBytes b \<Rightarrow> Ok (OutBytes b) | _ \<Rightarrow> Err (Eval ''codec''))\<rparr>"

definition http_sample_cx :: "expr cx" where
  "http_sample_cx =
     \<lparr>cx_granted = \<lambda>c. c = ''network'', cx_nil = Ok ENil, cx_string = \<lambda>s. Ok (EString s), cx_bytes = \<lambda>b. Ok (EBytes b), cx_expr = Ok,
      as_expr = Ok, legal_segment = \<lambda>s. s \<noteq> [] \<and> CHR ''/'' \<notin> set s\<rparr>"

definition http_sample_dir :: http_options where
  "http_sample_dir = normalize_options (http_options_new ''http://example.test/root/'')"

lemma http_sample_serves: "resource_server http_sample_net (\<lambda>s. s) (\<lambda>w. w) http_sample_cx http_sample_dir"
proof -
  have "ho_write_method http_sample_dir = HttpPut" by (simp add: http_sample_dir_def normalize_options_def http_options_new_def)
  moreover have "http_address_law http_sample_net http_sample_cx http_sample_dir" by (simp add: http_address_law_def http_sample_net_def)
  moreover have "http_get_law http_sample_net (\<lambda>s. s) (\<lambda>w. w)" by (simp add: http_get_law_def http_sample_net_def net_request_of_def split: option.split)
  moreover have "http_head_law http_sample_net (\<lambda>s. s) (\<lambda>w. w)" by (simp add: http_head_law_def http_sample_net_def net_request_of_def)
  moreover have "http_delete_law http_sample_net (\<lambda>s. s) (\<lambda>w. w)" by (simp add: http_delete_law_def http_sample_net_def net_request_of_def)
  moreover have "http_write_law http_sample_net (\<lambda>s. s) (\<lambda>w. w) ''PUT''"
    by (simp add: http_write_law_def http_sample_net_def net_request_of_def is_success_def)
  ultimately show ?thesis by (simp add: resource_server_def) (simp add: http_sample_net_def)
qed

theorem http_refines_resources_witness:
  "\<exists>w'. http_set http_sample_net http_sample_cx http_sample_dir (Symbol None ''a b'') (EBytes [7]) Map.empty = (w', Ok ()) \<and>
     http_get http_sample_net http_sample_cx http_sample_dir (Symbol None ''a b'') w' = (w', Ok (EBytes [7]))"
proof -
  have granted: "require_table_http http_sample_cx = Ok ()" by (simp add: require_table_http_def net_http_aliases_def http_sample_cx_def)
  have legal: "legal_segment http_sample_cx (sym_name (Symbol None ''a b''))" by (simp add: http_sample_cx_def)
  note law = http_refines_resources [OF http_sample_serves granted legal]
  have enc: "http_encode_value http_sample_net http_sample_cx http_sample_dir (EBytes [7]) = Ok [7]"
    by (simp add: http_encode_value_def http_sample_net_def http_sample_cx_def)
  obtain u where u: "resource_of http_sample_net http_sample_cx http_sample_dir (Symbol None ''a b'') = Some u" using law by blast
  obtain w' where w': "http_set http_sample_net http_sample_cx http_sample_dir (Symbol None ''a b'') (EBytes [7]) Map.empty = (w', Ok ())"
      "w' = Map.empty(u := Some [7])"
    using law [of Map.empty] u enc by auto
  have "http_get http_sample_net http_sample_cx http_sample_dir (Symbol None ''a b'') w' = (w', http_reads http_sample_net http_sample_cx http_sample_dir (w' u))"
    using law [of w'] u by auto
  moreover have "http_reads http_sample_net http_sample_cx http_sample_dir (Some [7]) = Ok (EBytes [7])"
    by (simp add: http_reads_def http_decode_body_def http_sample_dir_def normalize_options_def http_options_new_def http_sample_net_def http_sample_cx_def)
  ultimately show ?thesis using w' by simp
qed

end
