(* ===== verification/List_Iface.thy ===== *)
theory List_Iface
  imports Table_Iface
begin

text \<open>
  The list interface of \<open>sim_kernel\<close> as the list crates use it: the trait \<open>ListValue\<close> as a record of
  operations over a world, what a value is as a list, and the release of a reference to a value. The
  visitor of \<open>for_each\<close> is the trace of the elements it is called with, in front of which the world
  goes; a walk that may not end is an option, and \<open>None\<close> is a walk that does not. The two lazy lists
  share the text of \<open>get\<close> and \<open>for_each\<close>, which is here, over any list. The locale states the
  contract of a list against the elements it stands for. Releasing an element is not modelled.
\<close>

section \<open>Types\<close>

datatype length_result = Known nat | Unknown
datatype ordering = OrdLess | OrdEqual | OrdGreater

definition nat_cmp :: "nat \<Rightarrow> nat \<Rightarrow> ordering" where
  "nat_cmp a b = (if a < b then OrdLess else if a = b then OrdEqual else OrdGreater)"

type_synonym ('w, 'v) walk = "'w \<times> 'v list \<Rightarrow> (('w \<times> 'v list) \<times> (table_error, unit) res) option"

record ('w, 'v) list_value =
  lv_is_empty :: "('w, table_error, bool) op"
  lv_car :: "('w, table_error, 'v option) op"
  lv_cdr :: "('w, table_error, 'v option) op"
  lv_len :: "('w, table_error, length_result) op"
  lv_len_cmp :: "nat \<Rightarrow> ('w, table_error, ordering) op"
  lv_get :: "nat \<Rightarrow> ('w, table_error, 'v option) op"
  lv_for_each :: "nat option \<Rightarrow> ('w, 'v) walk"

record ('w, 'v) list_kernel =
  lk_as_list :: "'v \<Rightarrow> ('w, 'v) list_value option"
  lk_drop :: "'v \<Rightarrow> 'w \<Rightarrow> 'w"

definition drop_opt :: "('w, 'v) list_kernel \<Rightarrow> 'v option \<Rightarrow> 'w \<Rightarrow> 'w" where
  "drop_opt K x w = (case x of None \<Rightarrow> w | Some v \<Rightarrow> lk_drop K v w)"

text \<open>An operation after which a local variable goes out of scope.\<close>

definition releasing :: "('w, 'v) list_kernel \<Rightarrow> 'v option \<Rightarrow> ('w, 'e, 'a) op \<Rightarrow> ('w, 'e, 'a) op" where
  "releasing K x m w = (case m w of (w', r) \<Rightarrow> (drop_opt K x w', r))"

text \<open>The check the lazy backends make before a list is put behind a head.\<close>

definition ensure_list_tail :: "('w, 'v) list_kernel \<Rightarrow> 'v \<Rightarrow> (table_error, unit) res" where
  "ensure_list_tail K v = (if lk_as_list K v = None then Err (TypeMismatch ''list'' ''non-list'') else Ok ())"

section \<open>The loops the lazy lists share\<close>

text \<open>From a node to the head and tail of the next one; \<open>None\<close> at the end of the list.\<close>

definition next_node ::
    "('w, 'v) list_kernel \<Rightarrow> 'v option \<Rightarrow> ('w, table_error, ('v option \<times> 'v option) option) op" where
  "next_node K tail =
     releasing K tail (case Option.bind tail (lk_as_list K) of
        None \<Rightarrow> op_return None
      | Some l \<Rightarrow>
          op_bind (lv_is_empty l) (\<lambda>e.
            if e then op_return None
            else op_bind (lv_car l) (\<lambda>head. op_bind (lv_cdr l) (\<lambda>tail. op_return (Some (head, tail))))))"

fun spine_get_loop :: "('w, 'v) list_kernel \<Rightarrow> nat \<Rightarrow> 'v option \<Rightarrow> 'v option \<Rightarrow> ('w, table_error, 'v option) op" where
  "spine_get_loop K i None tail = releasing K tail (op_return None)"
| "spine_get_loop K 0 (Some v) tail = releasing K tail (op_return (Some v))"
| "spine_get_loop K (Suc i) (Some v) tail =
     op_bind (next_node K tail) (\<lambda>next.
       case next of None \<Rightarrow> op_return None | Some (head, tail) \<Rightarrow> spine_get_loop K i head tail)"

definition spine_get ::
    "('w, 'v) list_kernel \<Rightarrow> ('w, table_error, 'v option) op \<Rightarrow> ('w, table_error, 'v option) op \<Rightarrow> nat \<Rightarrow>
     ('w, table_error, 'v option) op" where
  "spine_get K car cdr i = op_bind car (\<lambda>head. op_bind cdr (\<lambda>tail. spine_get_loop K i head tail))"

text \<open>The walk: visit, then move on; the count is asked before each visit.\<close>

partial_function (option) spine_walk ::
    "('w, 'v) list_kernel \<Rightarrow> nat option \<Rightarrow> nat \<Rightarrow> 'v option \<Rightarrow> 'v option \<Rightarrow> ('w, 'v) walk" where
  "spine_walk K limit count head tail wt =
     (case head of
        None \<Rightarrow> Some ((drop_opt K tail (fst wt), snd wt), Ok ())
      | Some v \<Rightarrow>
          if (case limit of None \<Rightarrow> False | Some most \<Rightarrow> count \<ge> most) then Some ((drop_opt K tail (fst wt), snd wt), Ok ())
          else (case next_node K tail (fst wt) of
            (w, Ok None) \<Rightarrow> Some ((w, snd wt @ [v]), Ok ())
          | (w, Ok (Some (head', tail'))) \<Rightarrow> spine_walk K limit (Suc count) head' tail' (w, snd wt @ [v])
          | (w, Err e) \<Rightarrow> Some ((w, snd wt @ [v]), Err e)
          | (w, Panic p) \<Rightarrow> Some ((w, snd wt @ [v]), Panic p)))"

definition spine_for_each ::
    "('w, 'v) list_kernel \<Rightarrow> ('w, table_error, 'v option) op \<Rightarrow> ('w, table_error, 'v option) op \<Rightarrow> nat option \<Rightarrow> ('w, 'v) walk" where
  "spine_for_each K car cdr limit wt =
     (if limit = Some 0 then Some (wt, Ok ())
      else case op_bind car (\<lambda>head. op_bind cdr (\<lambda>tail. op_return (head, tail))) (fst wt) of
        (w, Ok (head, tail)) \<Rightarrow> spine_walk K limit 0 head tail (w, snd wt)
      | (w, Err e) \<Rightarrow> Some ((w, snd wt), Err e)
      | (w, Panic p) \<Rightarrow> Some ((w, snd wt), Panic p))"

text \<open>A walk with a limit ends, on every list: also on one that never does.\<close>

lemma spine_walk_limited: "spine_walk K (Some most) count head tail wt \<noteq> None"
proof (induction "most - count" arbitrary: count head tail wt)
  case 0
  then show ?case by (subst spine_walk.simps) (simp split: option.split)
next
  case (Suc n)
  then have "n = most - Suc count" by simp
  note IH = Suc.hyps(1) [OF this]
  show ?case by (subst spine_walk.simps) (simp add: IH del: not_None_eq split: option.split prod.split res.split)
qed

lemma spine_for_each_limited: "spine_for_each K car cdr (Some most) wt \<noteq> None"
  by (simp add: spine_for_each_def spine_walk_limited del: not_None_eq split: prod.split res.split)

text \<open>The node after the last one wanted is read before the limit is asked, and its error is the walk's.\<close>

lemma limit_reads_ahead:
  "car w = (u, Ok (Some v)) \<Longrightarrow> cdr u = (u', Ok tail) \<Longrightarrow> next_node K tail u' = (w', Err e) \<Longrightarrow>
     spine_for_each K car cdr (Some 1) (w, t) = Some ((w', t @ [v]), Err e)"
  by (simp add: spine_for_each_def op_bind_def op_simps spine_walk.simps)

text \<open>An invariant of the loops: \<open>I\<close> while the tail is held, \<open>J\<close> when it is released.\<close>

lemma get_loop_invariant:
  assumes step: "\<And>tail w w' r. I tail w \<Longrightarrow> next_node K tail w = (w', r) \<Longrightarrow> (case r of Ok (Some (h, t)) \<Rightarrow> I t w' | _ \<Rightarrow> J w')"
    and drop: "\<And>tail w. I tail w \<Longrightarrow> J (drop_opt K tail w)"
  shows "I tail w \<Longrightarrow> J (fst (spine_get_loop K i head tail w))"
proof (induction i arbitrary: head tail w)
  case 0
  then show ?case using drop by (cases head) (simp_all add: releasing_def op_simps)
next
  case (Suc i)
  show ?case
  proof (cases head)
    case None
    then show ?thesis using drop [OF Suc.prems] by (simp add: releasing_def op_simps)
  next
    case (Some v)
    obtain u q where q: "next_node K tail w = (u, q)" by (cases "next_node K tail w")
    show ?thesis using step [OF Suc.prems q] Suc.IH q Some by (auto simp: op_bind_def op_simps split: res.splits option.splits)
  qed
qed

lemma walk_invariant:
  fixes K :: "('w, 'v) list_kernel"
  assumes step: "\<And>tail w w' r. I tail w \<Longrightarrow> next_node K tail w = (w', r) \<Longrightarrow> (case r of Ok (Some (h, t)) \<Rightarrow> I t w' | _ \<Rightarrow> J w')"
    and drop: "\<And>tail w. I tail w \<Longrightarrow> J (drop_opt K tail w)"
    and run: "spine_walk K limit count head tail wt = Some y" and start: "I tail (fst wt)"
  shows "J (fst (fst y))"
proof -
  have "K' = K \<longrightarrow> I tail (fst wt) \<longrightarrow> J (fst (fst y))" if "spine_walk K' limit count head tail wt = Some y" for K' limit count head tail wt y
  proof (rule spine_walk.raw_induct [where P = "\<lambda>K' limit count head tail wt y. K' = K \<longrightarrow> I tail (fst wt) \<longrightarrow> J (fst (fst y))", OF _ that])
    fix walk K' limit count head tail and wt :: "'w \<times> 'v list" and y
    assume IH: "\<And>K' limit count head tail wt y. walk K' limit count head tail wt = Some y \<Longrightarrow> K' = K \<longrightarrow> I tail (fst wt) \<longrightarrow> J (fst (fst y))"
      and body: "(case head of
        None \<Rightarrow> Some ((drop_opt K' tail (fst wt), snd wt), Ok ())
      | Some v \<Rightarrow>
          if (case limit of None \<Rightarrow> False | Some most \<Rightarrow> count \<ge> most) then Some ((drop_opt K' tail (fst wt), snd wt), Ok ())
          else (case next_node K' tail (fst wt) of
            (w, Ok None) \<Rightarrow> Some ((w, snd wt @ [v]), Ok ())
          | (w, Ok (Some (head', tail'))) \<Rightarrow> walk K' limit (Suc count) head' tail' (w, snd wt @ [v])
          | (w, Err e) \<Rightarrow> Some ((w, snd wt @ [v]), Err e)
          | (w, Panic p) \<Rightarrow> Some ((w, snd wt @ [v]), Panic p))) = Some y"
    obtain u q where q: "next_node K tail (fst wt) = (u, q)" by (cases "next_node K tail (fst wt)")
    show "K' = K \<longrightarrow> I tail (fst wt) \<longrightarrow> J (fst (fst y))"
    proof (intro impI)
      assume K: "K' = K" and I: "I tail (fst wt)"
      show "J (fst (fst y))"
        using body drop [OF I] step [OF I q] q IH [of K] K
        by (auto split: option.splits if_splits res.splits prod.splits)
    qed
  qed
  then show ?thesis using run start by blast
qed

section \<open>The contract of a list\<close>

definition upto_limit :: "nat option \<Rightarrow> 'a list \<Rightarrow> 'a list" where
  "upto_limit limit xs = (case limit of None \<Rightarrow> xs | Some n \<Rightarrow> take n xs)"

definition nth_opt :: "'a list \<Rightarrow> nat \<Rightarrow> 'a option" where
  "nth_opt xs i = (if i < length xs then Some (xs ! i) else None)"

lemma nth_opt_simps [simp]: "nth_opt [] i = None" "nth_opt (x # xs) 0 = Some x" "nth_opt (x # xs) (Suc i) = nth_opt xs i"
  by (simp_all add: nth_opt_def)

text \<open>
  In every good world a list stands for its elements, and answering keeps the world good. The comparison
  of the length stands apart: a list may leave it to the kernel.
\<close>

locale list_walks =
  fixes l :: "('w, 'v) list_value" and good :: "'w \<Rightarrow> bool" and items :: "'v list"
  assumes list_is_empty: "good w \<Longrightarrow> \<exists>w'. lv_is_empty l w = (w', Ok (items = [])) \<and> good w'"
    and list_car: "good w \<Longrightarrow> \<exists>w'. lv_car l w = (w', Ok (nth_opt items 0)) \<and> good w'"
    and list_len: "good w \<Longrightarrow> \<exists>w' r. lv_len l w = (w', Ok r) \<and> (r = Known (length items) \<or> r = Unknown) \<and> good w'"
    and list_get: "good w \<Longrightarrow> \<exists>w'. lv_get l i w = (w', Ok (nth_opt items i)) \<and> good w'"
    and list_for_each: "good w \<Longrightarrow> \<exists>w'. lv_for_each l limit (w, t) = Some ((w', t @ upto_limit limit items), Ok ()) \<and> good w'"

locale list_contract = list_walks +
  assumes list_len_cmp: "good w \<Longrightarrow> \<exists>w'. lv_len_cmp l n w = (w', Ok (nat_cmp (length items) n)) \<and> good w'"

text \<open>
  A family of nodes the shared loops walk: in a world, besides a frame, the loop owns its tail, which
  stands for the elements that follow. Moving on takes the next element; dropping the tail leaves the
  frame. The loops then compute what the elements say.
\<close>

locale list_nodes =
  fixes K :: "('w, 'v) list_kernel"
    and owns :: "'f \<Rightarrow> 'v option \<Rightarrow> 'v list \<Rightarrow> 'w \<Rightarrow> bool"
    and framed :: "'f \<Rightarrow> 'w \<Rightarrow> bool"
  assumes node_end: "owns f tail [] w \<Longrightarrow> \<exists>w'. next_node K tail w = (w', Ok None) \<and> framed f w'"
    and node_next: "owns f tail (x # xs) w \<Longrightarrow> \<exists>w' tail'. next_node K tail w = (w', Ok (Some (Some x, tail'))) \<and> owns f tail' xs w'"
    and node_drop: "owns f tail xs w \<Longrightarrow> framed f (drop_opt K tail w)"
begin

lemma get_loop_nodes:
  "owns f tail xs w \<Longrightarrow> \<exists>w'. spine_get_loop K i (Some x) tail w = (w', Ok (nth_opt (x # xs) i)) \<and> framed f w'"
proof (induction i arbitrary: x tail xs w)
  case 0
  then show ?case using node_drop by (simp add: releasing_def op_simps)
next
  case (Suc i)
  show ?case
  proof (cases xs)
    case Nil
    then show ?thesis using node_end Suc.prems by (fastforce simp: op_bind_def op_simps)
  next
    case (Cons y ys)
    then obtain w' tail' where run: "next_node K tail w = (w', Ok (Some (Some y, tail')))" "owns f tail' ys w'"
      using node_next Suc.prems by blast
    from Suc.IH [OF run(2), of y] run(1) show ?thesis by (simp add: op_bind_def Cons)
  qed
qed

lemma walk_nodes:
  "owns f tail xs w \<Longrightarrow>
     \<exists>w'. spine_walk K limit count (Some x) tail (w, t) =
       Some ((w', t @ upto_limit (map_option (\<lambda>most. most - count) limit) (x # xs)), Ok ()) \<and> framed f w'"
proof (induction xs arbitrary: count x tail w t)
  case Nil
  show ?case
  proof (cases "case limit of None \<Rightarrow> False | Some most \<Rightarrow> count \<ge> most")
    case True
    then show ?thesis using node_drop [OF Nil] by (subst spine_walk.simps) (auto simp: upto_limit_def split: option.splits)
  next
    case False
    obtain w' where "next_node K tail w = (w', Ok None)" "framed f w'" using node_end [OF Nil] by blast
    then show ?thesis using False by (subst spine_walk.simps) (auto simp: upto_limit_def take_Cons' split: option.splits)
  qed
next
  case (Cons y ys)
  show ?case
  proof (cases "case limit of None \<Rightarrow> False | Some most \<Rightarrow> count \<ge> most")
    case True
    then show ?thesis using node_drop [OF Cons.prems] by (subst spine_walk.simps) (auto simp: upto_limit_def split: option.splits)
  next
    case False
    obtain w' tail' where run: "next_node K tail w = (w', Ok (Some (Some y, tail')))" "owns f tail' ys w'"
      using node_next [OF Cons.prems] by blast
    have "upto_limit (map_option (\<lambda>most. most - count) limit) (x # y # ys) =
        x # upto_limit (map_option (\<lambda>most. most - Suc count) limit) (y # ys)"
      using False by (auto simp: upto_limit_def take_Cons' split: option.splits)
    then show ?thesis
      using Cons.IH [OF run(2), of "Suc count" y "t @ [x]"] run(1) False by (subst spine_walk.simps) simp
  qed
qed

end

end
