(* ===== verification/List_Cons.thy ===== *)
theory List_Cons
  imports List_Iface
begin

text \<open>
  The cons list, \<open>crates/sim-list-cell/src/cons.rs\<close> and its backend: a cell holds an element and a rest
  that is another cell or a foreign list, which is kept as it is. A cell is immutable, so a list is a
  datatype and sharing does not show. The loops over the cells are recursions on the rest. Numbers of
  elements are \<open>usize\<close>: a sum with the length a foreign list claims wraps.
\<close>

section \<open>Cells\<close>

datatype 'v cons_list = ConsList (cl_car: "'v option") (cl_cdr: "'v cons_rest option")
  and 'v cons_rest = RestCons "'v cons_list" | RestForeign 'v

definition cons_empty :: "'v cons_list" where
  "cons_empty = ConsList None None"

definition cons_cell :: "'v \<Rightarrow> 'v cons_list \<Rightarrow> 'v cons_list" where
  "cons_cell car cdr = ConsList (Some car) (Some (RestCons cdr))"

definition cell_foreign :: "'v \<Rightarrow> 'v \<Rightarrow> 'v cons_list" where
  "cell_foreign car tail = ConsList (Some car) (Some (RestForeign tail))"

definition cons_from_vec :: "'v list \<Rightarrow> 'v cons_list" where
  "cons_from_vec items = foldl (\<lambda>acc item. cons_cell item acc) cons_empty (rev items)"

definition cons_truth :: "'v cons_list \<Rightarrow> bool" where
  "cons_truth c \<longleftrightarrow> cl_car c \<noteq> None"

definition foreign_as_list :: "('w, 'v) list_kernel \<Rightarrow> 'v \<Rightarrow> (table_error, ('w, 'v) list_value) res" where
  "foreign_as_list K v = ok_or (lk_as_list K v) (TypeMismatch ''list'' ''non-list'')"

section \<open>The list value\<close>

definition cons_is_empty :: "'v cons_list \<Rightarrow> ('w, table_error, bool) op" where
  "cons_is_empty c = op_return (cl_car c = None)"

definition cons_car :: "'v cons_list \<Rightarrow> ('w, table_error, 'v option) op" where
  "cons_car c = op_return (cl_car c)"

definition cons_cdr :: "('v cons_list \<Rightarrow> (table_error, 'v) res) \<Rightarrow> 'v cons_list \<Rightarrow> ('w, table_error, 'v option) op" where
  "cons_cdr opaque c =
     (case cl_cdr c of
        Some (RestCons next) \<Rightarrow> op_bind (op_res (opaque next)) (\<lambda>v. op_return (Some v))
      | Some (RestForeign tail) \<Rightarrow> op_return (Some tail)
      | None \<Rightarrow> op_return None)"

fun add_length :: "nat \<Rightarrow> length_result \<Rightarrow> length_result" where
  "add_length count (Known k) = Known ((count + k) mod usize_bound)"
| "add_length count Unknown = Unknown"

fun cons_len_loop ::
    "('w, 'v) list_kernel \<Rightarrow> nat \<Rightarrow> 'v cons_rest option \<Rightarrow> ('w, table_error, length_result) op" where
  "cons_len_loop K count None = op_return (Known count)"
| "cons_len_loop K count (Some (RestCons (ConsList None rest))) = op_return (Known count)"
| "cons_len_loop K count (Some (RestCons (ConsList (Some v) rest))) = cons_len_loop K (count + 1) rest"
| "cons_len_loop K count (Some (RestForeign tail)) =
     op_bind (op_res (foreign_as_list K tail)) (\<lambda>l.
     op_bind (lv_len l) (\<lambda>n. op_return (add_length count n)))"

definition cons_len :: "('w, 'v) list_kernel \<Rightarrow> 'v cons_list \<Rightarrow> ('w, table_error, length_result) op" where
  "cons_len K c = (if cl_car c = None then op_return (Known 0) else cons_len_loop K 1 (cl_cdr c))"

fun cons_len_cmp_loop ::
    "('w, 'v) list_kernel \<Rightarrow> nat \<Rightarrow> nat \<Rightarrow> 'v cons_rest option \<Rightarrow> ('w, table_error, ordering) op" where
  "cons_len_cmp_loop K n count None = op_return (nat_cmp count n)"
| "cons_len_cmp_loop K n count (Some (RestCons (ConsList None rest))) = op_return (nat_cmp count n)"
| "cons_len_cmp_loop K n count (Some (RestCons (ConsList (Some v) rest))) =
     (if count + 1 > n then op_return OrdGreater else cons_len_cmp_loop K n (count + 1) rest)"
| "cons_len_cmp_loop K n count (Some (RestForeign tail)) =
     op_bind (op_res (foreign_as_list K tail)) (\<lambda>l. lv_len_cmp l (n - count))"

definition cons_len_cmp :: "('w, 'v) list_kernel \<Rightarrow> 'v cons_list \<Rightarrow> nat \<Rightarrow> ('w, table_error, ordering) op" where
  "cons_len_cmp K c n =
     (if cl_car c = None then op_return (nat_cmp 0 n)
      else if 1 > n then op_return OrdGreater
      else cons_len_cmp_loop K n 1 (cl_cdr c))"

fun cons_get_loop ::
    "('w, 'v) list_kernel \<Rightarrow> nat \<Rightarrow> 'v option \<Rightarrow> 'v cons_rest option \<Rightarrow> ('w, table_error, 'v option) op" where
  "cons_get_loop K i None rest = op_return None"
| "cons_get_loop K 0 (Some car) rest = op_return (Some car)"
| "cons_get_loop K (Suc i) (Some car) None = op_return None"
| "cons_get_loop K (Suc i) (Some car) (Some (RestCons (ConsList v rest))) = cons_get_loop K i v rest"
| "cons_get_loop K (Suc i) (Some car) (Some (RestForeign tail)) =
     op_bind (op_res (foreign_as_list K tail)) (\<lambda>l. lv_get l i)"

definition cons_get :: "('w, 'v) list_kernel \<Rightarrow> 'v cons_list \<Rightarrow> nat \<Rightarrow> ('w, table_error, 'v option) op" where
  "cons_get K c i = cons_get_loop K i (cl_car c) (cl_cdr c)"

fun cons_walk ::
    "('w, 'v) list_kernel \<Rightarrow> nat option \<Rightarrow> nat \<Rightarrow> 'v option \<Rightarrow> 'v cons_rest option \<Rightarrow> ('w, 'v) walk" where
  "cons_walk K limit count None rest wt = Some (wt, Ok ())"
| "cons_walk K limit count (Some car) rest wt =
     (if (case limit of None \<Rightarrow> False | Some most \<Rightarrow> count \<ge> most) then Some (wt, Ok ())
      else (case rest of
        None \<Rightarrow> Some ((fst wt, snd wt @ [car]), Ok ())
      | Some (RestCons (ConsList v r)) \<Rightarrow> cons_walk K limit (count + 1) v r (fst wt, snd wt @ [car])
      | Some (RestForeign tail) \<Rightarrow>
          (case foreign_as_list K tail of
             Ok l \<Rightarrow> lv_for_each l (map_option (\<lambda>most. most - (count + 1)) limit) (fst wt, snd wt @ [car])
           | Err e \<Rightarrow> Some ((fst wt, snd wt @ [car]), Err e)
           | Panic p \<Rightarrow> Some ((fst wt, snd wt @ [car]), Panic p))))"

definition cons_for_each :: "('w, 'v) list_kernel \<Rightarrow> 'v cons_list \<Rightarrow> nat option \<Rightarrow> ('w, 'v) walk" where
  "cons_for_each K c limit wt =
     (if limit = Some 0 then Some (wt, Ok ()) else cons_walk K limit 0 (cl_car c) (cl_cdr c) wt)"

definition cons_list_value ::
    "('w, 'v) list_kernel \<Rightarrow> ('v cons_list \<Rightarrow> (table_error, 'v) res) \<Rightarrow> 'v cons_list \<Rightarrow> ('w, 'v) list_value" where
  "cons_list_value K opaque c =
     \<lparr>lv_is_empty = cons_is_empty c, lv_car = cons_car c, lv_cdr = cons_cdr opaque c, lv_len = cons_len K c,
      lv_len_cmp = cons_len_cmp K c, lv_get = cons_get K c, lv_for_each = cons_for_each K c\<rparr>"

text \<open>The backend: a tail that is a cons list is shared, any other list is kept as a foreign tail.\<close>

definition cons_new_list :: "('v cons_list \<Rightarrow> (table_error, 'v) res) \<Rightarrow> 'v list \<Rightarrow> (table_error, 'v) res" where
  "cons_new_list opaque items = opaque (cons_from_vec items)"

definition cons_new_cons ::
    "('w, 'v) list_kernel \<Rightarrow> ('v cons_list \<Rightarrow> (table_error, 'v) res) \<Rightarrow> ('v \<Rightarrow> 'v cons_list option) \<Rightarrow> 'v \<Rightarrow> 'v \<Rightarrow>
     (table_error, 'v) res" where
  "cons_new_cons K opaque downcast car cdr =
     (case downcast cdr of
        Some c \<Rightarrow> opaque (cons_cell car c)
      | None \<Rightarrow>
          if lk_as_list K cdr = None then Err (TypeMismatch ''list'' ''non-list'')
          else opaque (cell_foreign car cdr))"

section \<open>What a cons list stands for\<close>

text \<open>The elements in its cells and the foreign tail after them.\<close>

fun rest_spine :: "'v cons_rest option \<Rightarrow> 'v list \<times> 'v option" where
  "rest_spine None = ([], None)"
| "rest_spine (Some (RestCons (ConsList None rest))) = ([], None)"
| "rest_spine (Some (RestCons (ConsList (Some v) rest))) = (v # fst (rest_spine rest), snd (rest_spine rest))"
| "rest_spine (Some (RestForeign t)) = ([], Some t)"

fun cons_spine :: "'v cons_list \<Rightarrow> 'v list \<times> 'v option" where
  "cons_spine (ConsList None rest) = ([], None)"
| "cons_spine (ConsList (Some v) rest) = (v # fst (rest_spine rest), snd (rest_spine rest))"

lemma spine_of_cells [simp]:
  "cons_spine cons_empty = ([], None)"
  "cons_spine (cons_cell v c) = (v # fst (cons_spine c), snd (cons_spine c))"
  "cons_spine (cell_foreign v t) = ([v], Some t)"
  by (simp_all add: cons_empty_def cons_cell_def cell_foreign_def) (cases c rule: cons_spine.cases; simp)+

lemma spine_from_vec [simp]: "cons_spine (cons_from_vec items) = (items, None)"
proof -
  have "cons_spine (foldl (\<lambda>acc item. cons_cell item acc) c xs) = (rev xs @ fst (cons_spine c), snd (cons_spine c))" for xs and c :: "'a cons_list"
    by (induction xs arbitrary: c) simp_all
  then show ?thesis by (simp add: cons_from_vec_def)
qed

text \<open>Within the cells no operation asks the tail.\<close>

lemma get_loop_cells:
  "i < length (fst (cons_spine (ConsList v rest))) \<Longrightarrow>
     cons_get_loop K i v rest = op_return (Some (fst (cons_spine (ConsList v rest)) ! i))"
proof (induction K i v rest rule: cons_get_loop.induct)
  case (4 K i car v rest)
  then show ?case by (cases v) simp_all
qed simp_all

lemma len_cmp_loop_cells:
  "count \<le> n \<Longrightarrow> n < count + length (fst (rest_spine rest)) \<Longrightarrow> cons_len_cmp_loop K n count rest = op_return OrdGreater"
  by (induction K n count rest rule: cons_len_cmp_loop.induct) auto

lemma walk_cells:
  "count + length (fst (cons_spine (ConsList v rest))) > most \<Longrightarrow> count \<le> most \<Longrightarrow>
     cons_walk K (Some most) count v rest wt = Some ((fst wt, snd wt @ take (most - count) (fst (cons_spine (ConsList v rest)))), Ok ())"
proof (induction K "Some most" count v rest wt rule: cons_walk.induct)
  case (2 K count car rest wt)
  show ?case
  proof (cases "count = most")
    case False
    then obtain v r where rest: "rest = Some (RestCons (ConsList v r))"
      using "2.prems" by (cases rest rule: rest_spine.cases) auto
    have "take (most - count) (car # ys) = car # take (most - Suc count) ys" for ys
    proof -
      have "most - count = Suc (most - Suc count)" using False "2.prems"(2) by simp
      then show ?thesis by simp
    qed
    then show ?thesis
      using "2.hyps" [of "RestCons (ConsList v r)" "ConsList v r" v r] "2.prems" False rest
      by (cases v) auto
  qed simp
qed simp

text \<open>After the cells the tail is asked for the rest.\<close>

lemma get_loop_tail:
  "length (fst (cons_spine (ConsList v rest))) \<le> i \<Longrightarrow>
     cons_get_loop K i v rest =
       (case snd (cons_spine (ConsList v rest)) of
          None \<Rightarrow> op_return None
        | Some t \<Rightarrow> op_bind (op_res (foreign_as_list K t)) (\<lambda>l. lv_get l (i - length (fst (cons_spine (ConsList v rest))))))"
proof (induction K i v rest rule: cons_get_loop.induct)
  case (4 K i car v rest)
  then show ?case by (cases v) (simp_all split: option.splits)
qed simp_all

lemma len_cmp_loop_tail:
  "count + length (fst (rest_spine rest)) \<le> n \<Longrightarrow>
     cons_len_cmp_loop K n count rest =
       (case snd (rest_spine rest) of
          None \<Rightarrow> op_return (nat_cmp (count + length (fst (rest_spine rest))) n)
        | Some t \<Rightarrow> op_bind (op_res (foreign_as_list K t)) (\<lambda>l. lv_len_cmp l (n - (count + length (fst (rest_spine rest))))))"
  by (induction K n count rest rule: cons_len_cmp_loop.induct) (auto split: option.splits)

lemma len_loop_tail:
  "cons_len_loop K count rest =
     (case snd (rest_spine rest) of
        None \<Rightarrow> op_return (Known (count + length (fst (rest_spine rest))))
      | Some t \<Rightarrow> op_bind (op_res (foreign_as_list K t)) (\<lambda>l.
          op_bind (lv_len l) (\<lambda>n. op_return (add_length (count + length (fst (rest_spine rest))) n))))"
  by (induction K count rest rule: cons_len_loop.induct) (auto split: option.splits)


lemma walk_tail:
  "(case limit of None \<Rightarrow> True | Some most \<Rightarrow> count + length (fst (cons_spine (ConsList v rest))) \<le> most) \<Longrightarrow>
     cons_walk K limit count v rest wt =
       (case snd (cons_spine (ConsList v rest)) of
          None \<Rightarrow> Some ((fst wt, snd wt @ fst (cons_spine (ConsList v rest))), Ok ())
        | Some t \<Rightarrow>
            (case foreign_as_list K t of
               Ok l \<Rightarrow> lv_for_each l (map_option (\<lambda>most. most - (count + length (fst (cons_spine (ConsList v rest))))) limit)
                 (fst wt, snd wt @ fst (cons_spine (ConsList v rest)))
             | Err e \<Rightarrow> Some ((fst wt, snd wt @ fst (cons_spine (ConsList v rest))), Err e)
             | Panic p \<Rightarrow> Some ((fst wt, snd wt @ fst (cons_spine (ConsList v rest))), Panic p)))"
proof (induction K limit count v rest wt rule: cons_walk.induct)
  case (2 K limit count car rest wt)
  have go: "\<not> (case limit of None \<Rightarrow> False | Some most \<Rightarrow> count \<ge> most)"
    using "2.prems" by (auto split: option.splits)
  show ?case
  proof (cases rest rule: rest_spine.cases)
    case (3 v r)
    from "2.IH" [OF go, of "RestCons (ConsList (Some v) r)" "ConsList (Some v) r" "Some v" r] 3 "2.prems" go
    show ?thesis by (simp split: option.splits res.splits)
  qed (use go in \<open>simp_all split: option.splits res.splits\<close>)
qed simp

text \<open>The operations by their cells and tail.\<close>

lemma cons_len_spine:
  "cons_spine c = (xs, tail) \<Longrightarrow>
     cons_len K c =
       (case tail of
          None \<Rightarrow> op_return (Known (length xs))
        | Some t \<Rightarrow> op_bind (op_res (foreign_as_list K t)) (\<lambda>l. op_bind (lv_len l) (\<lambda>n. op_return (add_length (length xs) n))))"
  by (cases c rule: cons_spine.cases) (auto simp: cons_len_def len_loop_tail split: option.split)

lemma cons_len_cmp_spine:
  "cons_spine c = (xs, tail) \<Longrightarrow>
     cons_len_cmp K c n =
       (if n < length xs then op_return OrdGreater
        else case tail of
          None \<Rightarrow> op_return (nat_cmp (length xs) n)
        | Some t \<Rightarrow> op_bind (op_res (foreign_as_list K t)) (\<lambda>l. lv_len_cmp l (n - length xs)))"
  by (cases c rule: cons_spine.cases)
    (auto simp: cons_len_cmp_def len_cmp_loop_cells len_cmp_loop_tail not_less split: option.split)

lemma cons_get_spine:
  "cons_spine c = (xs, tail) \<Longrightarrow>
     cons_get K c i =
       (if i < length xs then op_return (Some (xs ! i))
        else case tail of
          None \<Rightarrow> op_return None
        | Some t \<Rightarrow> op_bind (op_res (foreign_as_list K t)) (\<lambda>l. lv_get l (i - length xs)))"
  using get_loop_cells [of i "cl_car c" "cl_cdr c" K, unfolded cons_list.collapse]
    get_loop_tail [of "cl_car c" "cl_cdr c" i K, unfolded cons_list.collapse]
  by (simp add: cons_get_def cong: option.case_cong)

lemma cons_for_each_spine:
  assumes "cons_spine c = (xs, tail)"
  shows "cons_for_each K c limit wt =
       (if (case limit of None \<Rightarrow> False | Some most \<Rightarrow> most < length xs) then Some ((fst wt, snd wt @ upto_limit limit xs), Ok ())
        else case tail of
          None \<Rightarrow> Some ((fst wt, snd wt @ xs), Ok ())
        | Some t \<Rightarrow>
            (case foreign_as_list K t of
               Ok l \<Rightarrow> lv_for_each l (map_option (\<lambda>most. most - length xs) limit) (fst wt, snd wt @ xs)
             | Err e \<Rightarrow> Some ((fst wt, snd wt @ xs), Err e)
             | Panic p \<Rightarrow> Some ((fst wt, snd wt @ xs), Panic p)))"
proof (cases "limit = Some 0")
  case True
  then show ?thesis
    using assms by (cases c rule: cons_spine.cases) (auto simp: cons_for_each_def upto_limit_def)
next
  case False
  then show ?thesis
    using walk_cells [where count = 0 and v = "cl_car c" and rest = "cl_cdr c" and K = K and wt = wt, unfolded cons_list.collapse]
      walk_tail [where limit = limit and count = 0 and v = "cl_car c" and rest = "cl_cdr c" and K = K and wt = wt, unfolded cons_list.collapse] assms
    by (cases limit) (auto simp: cons_for_each_def upto_limit_def not_less cong: option.case_cong res.case_cong)
qed

text \<open>C35: The loops of a cons list compute what its cells and its foreign tail say: within the cells an index, a
  comparison of the length or a walk with a limit is answered from the cells, and the tail is not
  touched, whatever it is; beyond them exactly the rest is asked of the tail, after all cells were visited.\<close>

theorem cons_ops_exact:
  "cons_get K c i =
     (if i < length (fst (cons_spine c)) then op_return (Some (fst (cons_spine c) ! i))
      else case snd (cons_spine c) of
        None \<Rightarrow> op_return None
      | Some t \<Rightarrow> op_bind (op_res (foreign_as_list K t)) (\<lambda>l. lv_get l (i - length (fst (cons_spine c))))) \<and>
   cons_len_cmp K c n =
     (if n < length (fst (cons_spine c)) then op_return OrdGreater
      else case snd (cons_spine c) of
        None \<Rightarrow> op_return (nat_cmp (length (fst (cons_spine c))) n)
      | Some t \<Rightarrow> op_bind (op_res (foreign_as_list K t)) (\<lambda>l. lv_len_cmp l (n - length (fst (cons_spine c))))) \<and>
   cons_for_each K c limit (w, visited) =
     (if (case limit of None \<Rightarrow> False | Some most \<Rightarrow> most < length (fst (cons_spine c)))
      then Some ((w, visited @ upto_limit limit (fst (cons_spine c))), Ok ())
      else case snd (cons_spine c) of
        None \<Rightarrow> Some ((w, visited @ fst (cons_spine c)), Ok ())
      | Some t \<Rightarrow>
          (case foreign_as_list K t of
             Ok l \<Rightarrow> lv_for_each l (map_option (\<lambda>most. most - length (fst (cons_spine c))) limit) (w, visited @ fst (cons_spine c))
           | Err e \<Rightarrow> Some ((w, visited @ fst (cons_spine c)), Err e)
           | Panic p \<Rightarrow> Some ((w, visited @ fst (cons_spine c)), Panic p)))"
proof -
  have c: "cons_spine c = (fst (cons_spine c), snd (cons_spine c))" by simp
  show ?thesis
    unfolding cons_get_spine [OF c] cons_len_cmp_spine [OF c] cons_for_each_spine [OF c] fst_conv snd_conv by (intro conjI refl)
qed

definition tail_contract ::
    "('w, 'v) list_kernel \<Rightarrow> ('w \<Rightarrow> bool) \<Rightarrow> 'v option \<Rightarrow> 'v list \<Rightarrow> bool" where
  "tail_contract K good tail ys \<longleftrightarrow>
     (case tail of None \<Rightarrow> ys = [] | Some t \<Rightarrow> \<exists>l. foreign_as_list K t = Ok l \<and> list_contract l good ys)"

lemma nth_opt_append: "nth_opt (xs @ ys) i = (if i < length xs then Some (xs ! i) else nth_opt ys (i - length xs))"
  by (auto simp: nth_opt_def nth_append)

lemma spine_ends: "cons_spine c = (xs, tail) \<Longrightarrow> cl_car c = nth_opt xs 0 \<and> (xs = [] \<longrightarrow> tail = None)"
  by (cases c rule: cons_spine.cases) auto

text \<open>A list of cells alone.\<close>

lemma cons_closed_contract:
  assumes "cons_spine c = (xs, None)"
  shows "list_contract (cons_list_value K opaque c) good xs"
  using spine_ends [OF assms]
  by unfold_locales
    (auto simp: cons_list_value_def cons_is_empty_def cons_car_def op_simps cons_len_spine [OF assms] cons_len_cmp_spine [OF assms]
      cons_get_spine [OF assms] cons_for_each_spine [OF assms] nth_opt_def nat_cmp_def upto_limit_def split: option.splits)

interpretation cons_vec: list_contract "cons_list_value K opaque (cons_from_vec items)" "\<lambda>_. True" items for K opaque items
  by (rule cons_closed_contract [OF spine_from_vec])

text \<open>A cons list stands for the elements of its cells followed by those of its foreign tail: when the tail keeps
  the contract of lists, so does the whole, for its length, comparisons of its length, every index and
  every walk, with or without a limit.\<close>

theorem cons_stands_for:
  assumes "cons_spine c = (xs, tail)" and "tail_contract K good tail ys" and "length xs + length ys < usize_bound"
  shows "list_contract (cons_list_value K opaque c) good (xs @ ys)"
proof (cases tail)
  case None
  then have "ys = []" using assms(2) by (simp add: tail_contract_def)
  then show ?thesis using cons_closed_contract [of c xs] assms(1) None by simp
next
  case (Some t)
  then obtain l where l: "foreign_as_list K t = Ok l" and contract: "list_contract l good ys"
    using assms(2) by (auto simp: tail_contract_def)
  note walks = list_contract.axioms(1) [OF contract]
  note lists = list_walks.list_is_empty [OF walks] list_walks.list_car [OF walks] list_walks.list_len [OF walks]
    list_contract.list_len_cmp [OF contract] list_walks.list_get [OF walks] list_walks.list_for_each [OF walks]
  have ne: "xs \<noteq> []" using spine_ends [OF assms(1)] Some by auto
  then have head: "(xs @ ys) ! 0 = xs ! 0" by (simp add: nth_append)
  show ?thesis
  proof
    fix w assume w: "good w"
    show "\<exists>w'. lv_is_empty (cons_list_value K opaque c) w = (w', Ok (xs @ ys = [])) \<and> good w'"
      "\<exists>w'. lv_car (cons_list_value K opaque c) w = (w', Ok (nth_opt (xs @ ys) 0)) \<and> good w'"
      using spine_ends [OF assms(1)] ne w head by (simp_all add: cons_list_value_def cons_is_empty_def cons_car_def op_simps nth_opt_def)
    show "\<exists>w' r. lv_len (cons_list_value K opaque c) w = (w', Ok r) \<and> (r = Known (length (xs @ ys)) \<or> r = Unknown) \<and> good w'"
      using lists(3) [OF w] assms(3) Some l
      by (auto simp: cons_list_value_def cons_len_spine [OF assms(1)] op_bind_def op_simps)
    show "\<exists>w'. lv_len_cmp (cons_list_value K opaque c) n w = (w', Ok (nat_cmp (length (xs @ ys)) n)) \<and> good w'" for n
      using lists(4) [OF w, of "n - length xs"] Some l w
      by (auto simp: cons_list_value_def cons_len_cmp_spine [OF assms(1)] op_bind_def op_simps nat_cmp_def)
    show "\<exists>w'. lv_get (cons_list_value K opaque c) i w = (w', Ok (nth_opt (xs @ ys) i)) \<and> good w'" for i
      using lists(5) [OF w, of "i - length xs"] Some l w
      by (auto simp: cons_list_value_def cons_get_spine [OF assms(1)] op_bind_def op_simps nth_opt_append)
    show "\<exists>w'. lv_for_each (cons_list_value K opaque c) limit (w, t) = Some ((w', t @ upto_limit limit (xs @ ys)), Ok ()) \<and> good w'"
      for limit t
      using lists(6) [OF w, of "map_option (\<lambda>most. most - length xs) limit" "t @ xs"] Some l w
      by (auto simp: cons_list_value_def cons_for_each_spine [OF assms(1)] upto_limit_def split: option.splits)
  qed
qed

section \<open>A sample\<close>

datatype list_sample = Elem nat | Items "nat list"

definition list_sample_kernel :: "(unit, list_sample) list_kernel" where
  "list_sample_kernel =
     \<lparr>lk_as_list = \<lambda>v. (case v of
         Items ns \<Rightarrow> Some (cons_list_value \<lparr>lk_as_list = \<lambda>_. None, lk_drop = \<lambda>_ w. w\<rparr> (\<lambda>_. Ok (Elem 0)) (cons_from_vec (map Elem ns)))
       | Elem n \<Rightarrow> None), lk_drop = \<lambda>_ w. w\<rparr>"

theorem cons_stands_for_witness:
  "\<exists>w'. lv_get (cons_list_value list_sample_kernel (\<lambda>_. Ok (Elem 0)) (cell_foreign (Elem 1) (Items [2, 3]))) 2 () = (w', Ok (Some (Elem 3)))"
proof -
  have "tail_contract list_sample_kernel (\<lambda>_. True) (Some (Items [2, 3])) [Elem 2, Elem 3]"
    using cons_vec.list_contract_axioms by (auto simp: tail_contract_def foreign_as_list_def list_sample_kernel_def)
  from cons_stands_for [OF spine_of_cells(3) this]
  have "list_contract (cons_list_value list_sample_kernel (\<lambda>_. Ok (Elem 0)) (cell_foreign (Elem 1) (Items [2, 3]))) (\<lambda>_. True)
      ([Elem 1] @ [Elem 2, Elem 3])" by (simp add: usize_bound_def)
  from list_walks.list_get [OF list_contract.axioms(1) [OF this], where w = "()" and i = 2] show ?thesis by (auto simp: nth_opt_def)
qed

end
