(* ===== verification/List_Iter.thy ===== *)
theory List_Iter
  imports List_Iface "HOL-Library.Multiset"
begin

text \<open>
  The iterator list, \<open>crates/sim-list-lazy/src/iter.rs\<close> and its backend in \<open>backend.rs\<close>: views of one shared
  state, which pulls elements from an iterator or from another list, keeps those a live view may still
  need and counts the live views. A view is its offset; making, cloning and dropping one are steps of
  the state. The world is the outside, where iterators and other lists live, and the one state. A
  boxed iterator is an operation on the outside; the factory and the views of values are functions.
  The mutex makes each locked section one step; its poisoning, and a list that reaches itself while
  its state is locked, are not modelled.
\<close>

section \<open>The shared state\<close>

text \<open>A driver is the boxed iterator or a cursor over the nodes of a list.\<close>

datatype 'v iter_driver = DriverIter | DriverList "'v option"

record 'v iter_state =
  it_driver :: "'v iter_driver"
  it_buffer :: "'v list"
  it_base :: nat
  it_live :: "(nat, nat) btree_map"
  it_done :: bool

record ('w, 'v) iter_world =
  iw_base :: 'w
  iw_state :: "'v iter_state"

text \<open>The outside: other lists, the iterator, values of views, and what such a value is as a list.\<close>

record ('w, 'v) iter_cx =
  ic_kernel :: "('w, 'v) list_kernel"
  ic_next :: "('w, table_error, 'v option) op"
  ic_opaque :: "nat \<Rightarrow> (table_error, 'v) res"
  ic_views :: "(('w, 'v) iter_world, 'v) list_kernel"

definition cursor_read :: "('w, 'v) list_value \<Rightarrow> ('w, table_error, ('v \<times> 'v option) option) op" where
  "cursor_read l =
     op_bind (lv_is_empty l) (\<lambda>e.
       if e then op_return None
       else op_bind (lv_car l) (\<lambda>car.
         op_bind (op_res (ok_or car (Eval ''list car missing for non-empty list''))) (\<lambda>head.
         op_bind (lv_cdr l) (\<lambda>tail. op_return (Some (head, tail))))))"

text \<open>The cursor is taken first: whatever goes wrong afterwards, it is gone.\<close>

definition cursor_next :: "('w, 'v) list_kernel \<Rightarrow> 'v option \<Rightarrow> 'w \<Rightarrow> ('w \<times> 'v option) \<times> (table_error, 'v option) res" where
  "cursor_next K cursor w =
     (case cursor of
        None \<Rightarrow> ((w, None), Ok None)
      | Some node \<Rightarrow>
          (case lk_as_list K node of
             None \<Rightarrow> ((lk_drop K node w, None), Err (Eval ''list cdr did not yield a list''))
           | Some l \<Rightarrow>
               (case releasing K (Some node) (cursor_read l) w of
                  (w', Ok None) \<Rightarrow> ((w', None), Ok None)
                | (w', Ok (Some (head, tail))) \<Rightarrow> ((w', tail), Ok (Some head))
                | (w', Err e) \<Rightarrow> ((w', None), Err e)
                | (w', Panic p) \<Rightarrow> ((w', None), Panic p))))"

definition next_value :: "('w, 'v) iter_cx \<Rightarrow> (('w, 'v) iter_world, table_error, 'v option) op" where
  "next_value R w =
     (case it_driver (iw_state w) of
        DriverIter \<Rightarrow> (case ic_next R (iw_base w) of (b, r) \<Rightarrow> (w\<lparr>iw_base := b\<rparr>, r))
      | DriverList cursor \<Rightarrow>
          (case cursor_next (ic_kernel R) cursor (iw_base w) of
             ((b, c), r) \<Rightarrow> (w\<lparr>iw_base := b, iw_state := (iw_state w)\<lparr>it_driver := DriverList c\<rparr>\<rparr>, r)))"

definition iter_filled :: "'v iter_state \<Rightarrow> nat" where
  "iter_filled s = it_base s + length (it_buffer s)"

definition push_item :: "'v \<Rightarrow> ('w, 'v) iter_world \<Rightarrow> ('w, 'v) iter_world" where
  "push_item x w = w\<lparr>iw_state := (iw_state w)\<lparr>it_buffer := it_buffer (iw_state w) @ [x]\<rparr>\<rparr>"

definition mark_done :: "('w, 'v) iter_world \<Rightarrow> ('w, 'v) iter_world" where
  "mark_done w = w\<lparr>iw_state := (iw_state w)\<lparr>it_done := True\<rparr>\<rparr>"

lemma next_value_keeps:
  "next_value R w = (w', r) \<Longrightarrow>
     it_buffer (iw_state w') = it_buffer (iw_state w) \<and> it_base (iw_state w') = it_base (iw_state w) \<and>
     it_live (iw_state w') = it_live (iw_state w) \<and> it_done (iw_state w') = it_done (iw_state w)"
  by (auto simp: next_value_def split: iter_driver.splits prod.splits)

text \<open>The loop of \<open>fill_to\<close>: each round adds an element or finds the end.\<close>

function fill_to :: "('w, 'v) iter_cx \<Rightarrow> nat \<Rightarrow> (('w, 'v) iter_world, table_error, nat) op" where
  "fill_to R need w =
     (if iter_filled (iw_state w) < need \<and> \<not> it_done (iw_state w) then
        (case next_value R w of
           (w', Ok (Some x)) \<Rightarrow> fill_to R need (push_item x w')
         | (w', Ok None) \<Rightarrow> fill_to R need (mark_done w')
         | (w', Err e) \<Rightarrow> (w', Err e)
         | (w', Panic p) \<Rightarrow> (w', Panic p))
      else (w, Ok (iter_filled (iw_state w))))"
  by pat_completeness auto
termination
  by (relation "measure (\<lambda>(R, need, w). if it_done (iw_state w) then 0 else Suc (need - iter_filled (iw_state w)))")
    (auto simp: push_item_def mark_done_def iter_filled_def dest!: next_value_keeps [OF sym])

declare fill_to.simps [simp del]

section \<open>The census of views\<close>

definition view_register :: "nat \<Rightarrow> ('w, 'v) iter_world \<Rightarrow> ('w, 'v) iter_world" where
  "view_register start w =
     (let s = iw_state w; views = (case bget (it_live s) start of Some c \<Rightarrow> c | None \<Rightarrow> 0) in
      w\<lparr>iw_state := s\<lparr>it_live := binsert start (views + 1) (it_live s)\<rparr>\<rparr>)"

definition uncount :: "nat \<Rightarrow> (nat, nat) btree_map \<Rightarrow> (nat, nat) btree_map" where
  "uncount start live =
     (case bget live start of
        Some views \<Rightarrow> if views - 1 = 0 then bremove start live else binsert start (views - 1) live
      | None \<Rightarrow> live)"

definition reclaim :: "'v iter_state \<Rightarrow> 'v iter_state" where
  "reclaim s =
     (let floor = (case it_live s of (k, _) # _ \<Rightarrow> k | [] \<Rightarrow> iter_filled s);
          drop_n = min (floor - it_base s) (length (it_buffer s)) in
      if drop_n > 0 then s\<lparr>it_buffer := drop drop_n (it_buffer s), it_base := it_base s + drop_n\<rparr> else s)"

definition view_unregister :: "nat \<Rightarrow> ('w, 'v) iter_world \<Rightarrow> ('w, 'v) iter_world" where
  "view_unregister start w =
     (let s = iw_state w in w\<lparr>iw_state := reclaim (s\<lparr>it_live := uncount start (it_live s)\<rparr>)\<rparr>)"

definition iter_state_new :: "'v iter_state" where
  "iter_state_new = \<lparr>it_driver = DriverIter, it_buffer = [], it_base = 0, it_live = [], it_done = False\<rparr>"

definition iter_state_prefix :: "'v \<Rightarrow> 'v \<Rightarrow> 'v iter_state" where
  "iter_state_prefix first tail =
     \<lparr>it_driver = DriverList (Some tail), it_buffer = [first], it_base = 0, it_live = [], it_done = False\<rparr>"

definition iter_new :: "'w \<Rightarrow> ('w, 'v) iter_world" where
  "iter_new b = view_register 0 \<lparr>iw_base = b, iw_state = iter_state_new\<rparr>"

definition iter_prepend :: "'v \<Rightarrow> 'v \<Rightarrow> 'w \<Rightarrow> ('w, 'v) iter_world" where
  "iter_prepend first tail b = view_register 0 \<lparr>iw_base = b, iw_state = iter_state_prefix first tail\<rparr>"

section \<open>The list value of a view\<close>

definition iter_is_empty :: "('w, 'v) iter_cx \<Rightarrow> nat \<Rightarrow> (('w, 'v) iter_world, table_error, bool) op" where
  "iter_is_empty R start = op_bind (fill_to R (start + 1)) (\<lambda>have. op_return (have \<le> start))"

definition iter_truth :: "('w, 'v) iter_cx \<Rightarrow> nat \<Rightarrow> (('w, 'v) iter_world, table_error, bool) op" where
  "iter_truth R start = op_bind (iter_is_empty R start) (\<lambda>e. op_return (\<not> e))"

definition iter_car :: "('w, 'v) iter_cx \<Rightarrow> nat \<Rightarrow> (('w, 'v) iter_world, table_error, 'v option) op" where
  "iter_car R start =
     op_bind (fill_to R (start + 1)) (\<lambda>have.
       if have \<le> start then op_return None
       else op_read (\<lambda>w. let s = iw_state w in
         if start < it_base s then Panic ''attempt to subtract with overflow''
         else if start - it_base s \<ge> length (it_buffer s) then Panic ''index out of bounds''
         else Ok (Some (it_buffer s ! (start - it_base s)))))"

definition iter_cdr :: "('w, 'v) iter_cx \<Rightarrow> nat \<Rightarrow> (('w, 'v) iter_world, table_error, 'v option) op" where
  "iter_cdr R start =
     op_bind (iter_is_empty R start) (\<lambda>e.
       if e then op_return None
       else (\<lambda>w.
         let w' = view_register (start + 1) w in
         (case ic_opaque R (start + 1) of
            Ok v \<Rightarrow> (w', Ok (Some v))
          | Err x \<Rightarrow> (view_unregister (start + 1) w', Err x)
          | Panic p \<Rightarrow> (view_unregister (start + 1) w', Panic p))))"

definition iter_len :: "(('w, 'v) iter_world, table_error, length_result) op" where
  "iter_len = op_return Unknown"

definition iter_len_cmp :: "('w, 'v) iter_cx \<Rightarrow> nat \<Rightarrow> nat \<Rightarrow> (('w, 'v) iter_world, table_error, ordering) op" where
  "iter_len_cmp R start n =
     op_bind (fill_to R (min (start + n + 1) (usize_bound - 1))) (\<lambda>have.
       let remaining = have - start in
       op_return (if remaining > n then OrdGreater else nat_cmp remaining n))"

definition iter_get :: "('w, 'v) iter_cx \<Rightarrow> nat \<Rightarrow> nat \<Rightarrow> (('w, 'v) iter_world, table_error, 'v option) op" where
  "iter_get R start = spine_get (ic_views R) (iter_car R start) (iter_cdr R start)"

definition iter_for_each :: "('w, 'v) iter_cx \<Rightarrow> nat \<Rightarrow> nat option \<Rightarrow> (('w, 'v) iter_world, 'v) walk" where
  "iter_for_each R start = spine_for_each (ic_views R) (iter_car R start) (iter_cdr R start)"

definition iter_list_value :: "('w, 'v) iter_cx \<Rightarrow> nat \<Rightarrow> (('w, 'v) iter_world, 'v) list_value" where
  "iter_list_value R start =
     \<lparr>lv_is_empty = iter_is_empty R start, lv_car = iter_car R start, lv_cdr = iter_cdr R start, lv_len = iter_len,
      lv_len_cmp = iter_len_cmp R start, lv_get = iter_get R start, lv_for_each = iter_for_each R start\<rparr>"

text \<open>The backend: the iterator of given items, and a head before a list that is kept as it is.\<close>

definition items_next :: "('v list, table_error, 'v option) op" where
  "items_next xs = (case xs of [] \<Rightarrow> ([], Ok None) | x # r \<Rightarrow> (r, Ok (Some x)))"

definition iter_new_list :: "'v list \<Rightarrow> ('v list, 'v) iter_world" where
  "iter_new_list items = iter_new items"

definition iter_new_cons :: "('w, 'v) iter_cx \<Rightarrow> 'v \<Rightarrow> 'v \<Rightarrow> 'w \<Rightarrow> (table_error, ('w, 'v) iter_world) res" where
  "iter_new_cons R car cdr b = res_bind (ensure_list_tail (ic_kernel R) cdr) (\<lambda>_. Ok (iter_prepend car cdr b))"

section \<open>The census\<close>

text \<open>
  For the live views \<open>V\<close>: the census counts them exactly, each lies between the first kept and the first
  missing element, and nothing below the lowest view is kept.
\<close>

definition iter_inv :: "nat multiset \<Rightarrow> ('w, 'v) iter_world \<Rightarrow> bool" where
  "iter_inv V w \<longleftrightarrow>
     bsorted (it_live (iw_state w)) \<and>
     (\<forall>s. bget (it_live (iw_state w)) s = (if s \<in># V then Some (count V s) else None)) \<and>
     (\<forall>s. s \<in># V \<longrightarrow> it_base (iw_state w) \<le> s \<and> s \<le> iter_filled (iw_state w)) \<and>
     (if V = {#} then it_buffer (iw_state w) = [] else it_base (iw_state w) \<in># V)"

lemma iter_invD:
  assumes "iter_inv V w"
  shows "bsorted (it_live (iw_state w))" "bget (it_live (iw_state w)) s = (if s \<in># V then Some (count V s) else None)"
    "s \<in># V \<Longrightarrow> it_base (iw_state w) \<le> s" "s \<in># V \<Longrightarrow> s \<le> iter_filled (iw_state w)"
    "V = {#} \<Longrightarrow> it_buffer (iw_state w) = []" "V \<noteq> {#} \<Longrightarrow> it_base (iw_state w) \<in># V"
  using assms by (auto simp: iter_inv_def)

lemma iter_inv_new: "iter_inv {#0#} (iter_new b)" "iter_inv {#0#} (iter_prepend x t b)"
  by (auto simp: iter_inv_def iter_new_def iter_prepend_def view_register_def iter_state_new_def iter_state_prefix_def Let_def
      bsorted_def bget_def iter_filled_def)

lemma register_inv:
  assumes inv: "iter_inv V w" and "V \<noteq> {#}" and "it_base (iw_state w) \<le> s" and "s \<le> iter_filled (iw_state w)"
  shows "iter_inv (add_mset s V) (view_register s w)"
  using iter_invD [OF inv] assms(2-4)
  by (auto simp: iter_inv_def view_register_def Let_def iter_filled_def not_in_iff split: option.splits)

lemma uncount_bget:
  "bget (uncount s live) k =
     (if k = s then (case bget live s of Some c \<Rightarrow> if c - 1 = 0 then None else Some (c - 1) | None \<Rightarrow> None) else bget live k)"
  by (auto simp: uncount_def split: option.splits)

lemma uncount_sorted: "bsorted live \<Longrightarrow> bsorted (uncount s live)"
  by (auto simp: uncount_def split: option.splits)

lemma filled_live [simp]: "iter_filled (s\<lparr>it_live := x\<rparr>) = iter_filled s"
  by (simp add: iter_filled_def)

lemma reclaim_keeps [simp]:
  "iter_filled (reclaim s) = iter_filled s" "it_live (reclaim s) = it_live s" "it_done (reclaim s) = it_done s"
  "it_driver (reclaim s) = it_driver s" "it_base s \<le> it_base (reclaim s)"
  by (auto simp: reclaim_def Let_def iter_filled_def)

lemma reclaim_base:
  "it_base (reclaim s) = it_base s + min ((case it_live s of (k, _) # _ \<Rightarrow> k | [] \<Rightarrow> iter_filled s) - it_base s) (length (it_buffer s))"
  "it_buffer (reclaim s) = drop (it_base (reclaim s) - it_base s) (it_buffer s)"
  by (auto simp: reclaim_def Let_def)

lemma unregister_inv:
  assumes inv: "iter_inv (add_mset s V) w"
  shows "iter_inv V (view_unregister s w)"
proof -
  let ?s = "iw_state w"
  let ?live = "uncount s (it_live ?s)"
  note i = iter_invD [OF inv]
  have live: "bget ?live k = (if k \<in># V then Some (count V k) else None)" for k
  proof (cases "k = s")
    case True
    have "bget (it_live ?s) s = Some (Suc (count V s))" using i(2) [of s] by simp
    then show ?thesis using True by (simp add: uncount_bget not_in_iff)
  next
    case False
    then show ?thesis using i(2) [of k] by (simp add: uncount_bget)
  qed
  have sorted: "bsorted ?live" by (rule uncount_sorted [OF i(1)])
  let ?r = "reclaim (?s\<lparr>it_live := ?live\<rparr>)"
  have world: "iw_state (view_unregister s w) = ?r" by (simp add: view_unregister_def Let_def)
  show ?thesis
  proof (cases ?live)
    case Nil
    then have V: "V = {#}" using live by (metis bget_Nil multiset_nonemptyE option.distinct(1))
    then have "it_buffer ?r = []" using Nil by (simp add: reclaim_base iter_filled_def)
    then show ?thesis using sorted live V by (simp add: iter_inv_def world)
  next
    case (Cons kv rest)
    obtain k c where kv: "kv = (k, c)" by (cases kv)
    have k: "k \<in># V" using live [of k] Cons kv by (auto simp: bget_def split: if_splits)
    have least: "k \<le> j" if "j \<in># V" for j
    proof -
      have "bget ?live j \<noteq> None" using that live by simp
      then have "j \<in> set (bkeys ?live)" by (simp add: bget_None_iff)
      then have "j = k \<or> j \<in> set (bkeys rest)" unfolding Cons kv by simp
      then show ?thesis using sorted Cons kv by (auto simp: bsorted_Cons)
    qed
    have "it_base ?s \<le> k" "k \<le> iter_filled ?s" using i(3,4) [of k] k by auto
    then have base: "it_base ?r = k" using Cons kv by (simp add: reclaim_base iter_filled_def)
    have "j \<le> iter_filled ?s" if "j \<in># V" for j using i(4) [of j] that by simp
    then show ?thesis using sorted live base k least by (auto simp: iter_inv_def world)
  qed
qed


section \<open>What the steps keep\<close>

text \<open>Filling only adds elements, and after the end nothing is added.\<close>

definition fills :: "('w, 'v) iter_world \<Rightarrow> ('w, 'v) iter_world \<Rightarrow> bool" where
  "fills w w' \<longleftrightarrow> (\<exists>xs. it_buffer (iw_state w') = it_buffer (iw_state w) @ xs \<and> (it_done (iw_state w) \<longrightarrow> xs = [])) \<and>
     it_base (iw_state w') = it_base (iw_state w) \<and> it_live (iw_state w') = it_live (iw_state w) \<and>
     (it_done (iw_state w) \<longrightarrow> it_done (iw_state w'))"

lemma fills_refl [simp]: "fills w w"
  by (simp add: fills_def)

lemma fills_trans: "fills u v \<Longrightarrow> fills v w \<Longrightarrow> fills u w"
  unfolding fills_def by (elim conjE exE) auto

lemma fill_to_run:
  "fill_to R need w = (w', r) \<Longrightarrow>
     fills w w' \<and> (\<forall>n. r = Ok n \<longrightarrow> n = iter_filled (iw_state w') \<and> (n \<ge> need \<or> it_done (iw_state w')))"
proof (induction R need w rule: fill_to.induct)
  case (1 R need w)
  show ?case
  proof (cases "iter_filled (iw_state w) < need \<and> \<not> it_done (iw_state w)")
    case False
    then show ?thesis using "1.prems" by (subst (asm) fill_to.simps) auto
  next
    case True
    obtain u q where u: "next_value R w = (u, q)" by (cases "next_value R w")
    have step: "fills w (push_item x u)" "fills w (mark_done u)" "fills w u" for x
      using next_value_keeps [OF u] True by (auto simp: fills_def push_item_def mark_done_def)
    show ?thesis
    proof (cases q)
      case (Ok y)
      then show ?thesis
      proof (cases y)
        case None
        then have "fill_to R need (mark_done u) = (w', r)" using "1.prems" True u Ok by (subst (asm) fill_to.simps) simp
        from "1.IH"(1) [OF True u [symmetric] Ok None this] show ?thesis using step(2) fills_trans by blast
      next
        case (Some x)
        then have "fill_to R need (push_item x u) = (w', r)" using "1.prems" True u Ok by (subst (asm) fill_to.simps) simp
        from "1.IH"(2) [OF True u [symmetric] Ok Some this] show ?thesis using step(1) fills_trans by blast
      qed
    qed (use "1.prems" True u step(3) in \<open>subst (asm) fill_to.simps, auto\<close>)+
  qed
qed

lemma fill_to_done: "it_done (iw_state w) \<or> need \<le> iter_filled (iw_state w) \<Longrightarrow> fill_to R need w = (w, Ok (iter_filled (iw_state w)))"
  by (subst fill_to.simps) auto

lemma fills_inv: "fills w w' \<Longrightarrow> iter_inv V w \<Longrightarrow> V \<noteq> {#} \<Longrightarrow> iter_inv V w'"
  unfolding fills_def iter_inv_def iter_filled_def by (elim conjE exE) force

text \<open>
  What the views of \<open>V\<close> may rely on: an element at or above a view stays at its place, and an end that
  was found stays where it is.
\<close>

definition elem_at :: "('w, 'v) iter_world \<Rightarrow> nat \<Rightarrow> 'v option" where
  "elem_at w j =
     (if it_base (iw_state w) \<le> j \<and> j < iter_filled (iw_state w) then Some (it_buffer (iw_state w) ! (j - it_base (iw_state w))) else None)"

definition kept :: "nat multiset \<Rightarrow> ('w, 'v) iter_world \<Rightarrow> ('w, 'v) iter_world \<Rightarrow> bool" where
  "kept V w w' \<longleftrightarrow>
     (\<forall>s j x. s \<in># V \<longrightarrow> s \<le> j \<longrightarrow> elem_at w j = Some x \<longrightarrow> elem_at w' j = Some x) \<and>
     (it_done (iw_state w) \<longrightarrow> it_done (iw_state w') \<and> iter_filled (iw_state w') = iter_filled (iw_state w))"

lemma kept_refl [simp]: "kept V w w"
  by (simp add: kept_def)

lemma kept_trans: "kept V u v \<Longrightarrow> kept V v w \<Longrightarrow> kept V u w"
  unfolding kept_def by metis

lemma kept_mono: "kept V w w' \<Longrightarrow> set_mset U \<subseteq> set_mset V \<Longrightarrow> kept U w w'"
  unfolding kept_def by blast

lemma fills_kept: "fills w w' \<Longrightarrow> kept V w w'"
  unfolding fills_def kept_def elem_at_def iter_filled_def
  by (elim conjE exE) (auto simp: nth_append)

lemma register_kept: "kept V w (view_register s w)"
  by (simp add: kept_def elem_at_def view_register_def Let_def)

lemma unregister_kept:
  assumes "iter_inv (add_mset s V) w"
  shows "kept V w (view_unregister s w)"
proof -
  let ?r = "reclaim ((iw_state w)\<lparr>it_live := uncount s (it_live (iw_state w))\<rparr>)"
  have world: "iw_state (view_unregister s w) = ?r" by (simp add: view_unregister_def Let_def)
  have "elem_at (view_unregister s w) j = Some x" if v: "v \<in># V" "v \<le> j" and x: "elem_at w j = Some x" for v j x
  proof -
    have "it_base ?r \<le> v" using unregister_inv [OF assms] v(1) by (simp add: iter_inv_def world)
    moreover have "it_base (iw_state w) \<le> it_base ?r" by (rule order_trans [OF _ reclaim_keeps(5)]) simp
    moreover have "it_buffer ?r = drop (it_base ?r - it_base (iw_state w)) (it_buffer (iw_state w))" by (simp add: reclaim_base)
    ultimately show ?thesis
      using x v(2) by (auto simp: elem_at_def world iter_filled_def split: if_splits)
  qed
  then show ?thesis by (simp add: kept_def world)
qed


section \<open>Calls on a view\<close>

definition views_law :: "('w, 'v) iter_cx \<Rightarrow> bool" where
  "views_law R \<longleftrightarrow>
     (\<forall>s v. ic_opaque R s = Ok v \<longrightarrow> lk_drop (ic_views R) v = view_unregister s \<and>
        (\<exists>l. lk_as_list (ic_views R) v = Some l \<and> lv_is_empty l = iter_is_empty R s \<and> lv_car l = iter_car R s \<and> lv_cdr l = iter_cdr R s))"

definition tail_views :: "('w, 'v) iter_cx \<Rightarrow> 'v option \<Rightarrow> nat multiset \<Rightarrow> bool" where
  "tail_views R tail T \<longleftrightarrow> tail = None \<and> T = {#} \<or> (\<exists>s v. tail = Some v \<and> ic_opaque R s = Ok v \<and> T = {#s#})"

lemma is_empty_step:
  assumes "iter_is_empty R s w = (w', r)"
  shows "fills w w' \<and> (\<forall>e. r = Ok e \<longrightarrow> (if e then it_done (iw_state w') \<and> iter_filled (iw_state w') \<le> s else s < iter_filled (iw_state w')))"
proof -
  obtain q where q: "fill_to R (s + 1) w = (w', q)" "r = (case q of Ok n \<Rightarrow> Ok (n \<le> s) | Err e \<Rightarrow> Err e | Panic p \<Rightarrow> Panic p)"
    using assms by (cases "fill_to R (s + 1) w"; cases "snd (fill_to R (s + 1) w)") (auto simp: iter_is_empty_def op_bind_def op_simps)
  then show ?thesis using fill_to_run [OF q(1)] by (cases q) auto
qed

lemma car_step:
  assumes "iter_car R s w = (w', r)" and "iter_inv V w" and "s \<in># V"
  shows "fills w w' \<and> (\<forall>x. r = Ok x \<longrightarrow> x = elem_at w' s \<and> (x = None \<longrightarrow> it_done (iw_state w') \<and> iter_filled (iw_state w') \<le> s))"
proof -
  obtain u q where q: "fill_to R (s + 1) w = (u, q)" by (cases "fill_to R (s + 1) w")
  have base: "it_base (iw_state u) \<le> s"
    using fill_to_run [OF q] iter_invD(3) [OF assms(2,3)] by (simp add: fills_def)
  show ?thesis
    using assms(1) q fill_to_run [OF q] base
    by (cases q) (auto simp: iter_car_def op_bind_def op_simps Let_def elem_at_def iter_filled_def split: if_splits)
qed

lemma car_runs:
  assumes "iter_inv V w" and "s \<in># V" and "s < iter_filled (iw_state w)"
  shows "iter_car R s w = (w, Ok (elem_at w s))"
  using assms fill_to_done [of w "s + 1" R] iter_invD(3) [OF assms(1,2)]
  by (auto simp: iter_car_def op_bind_def op_simps Let_def elem_at_def iter_filled_def)

lemma cdr_step:
  assumes run: "iter_cdr R s w = (w', r)" and inv: "iter_inv V w" and s: "s \<in># V"
  shows "kept V w w' \<and> (case r of
      Ok tail \<Rightarrow> \<exists>T. tail_views R tail T \<and> iter_inv (V + T) w' \<and> T = (if tail = None then {#} else {#s + 1#})
    | _ \<Rightarrow> iter_inv V w')"
proof -
  obtain u q where q: "iter_is_empty R s w = (u, q)" by (cases "iter_is_empty R s w")
  note e = is_empty_step [OF q]
  have "V \<noteq> {#}" using s by auto
  then have u: "iter_inv V u" "kept V w u" using e fills_inv [of w u V] inv fills_kept by auto
  consider "q = Ok False" | "w' = u" "r = Ok None" | "w' = u" "\<not> is_ok r"
    using run q by (cases q) (auto simp: iter_cdr_def op_bind_def op_simps split: if_splits)
  then show ?thesis
  proof cases
    case 1
    let ?u = "view_register (s + 1) u"
    have below: "it_base (iw_state u) \<le> s + 1" "s + 1 \<le> iter_filled (iw_state u)"
      using 1 e iter_invD(3) [OF u(1) s] by auto
    have reg: "iter_inv (add_mset (s + 1) V) ?u" by (rule register_inv [OF u(1) _ below]) (use s in auto)
    have k: "kept V w ?u" using kept_trans [OF u(2) register_kept] .
    have k': "kept V w (view_unregister (s + 1) ?u)" using kept_trans [OF k unregister_kept [OF reg]] .
    have r: "(w', r) = (case ic_opaque R (s + 1) of Ok v \<Rightarrow> (?u, Ok (Some v)) | Err x \<Rightarrow> (view_unregister (s + 1) ?u, Err x)
        | Panic p \<Rightarrow> (view_unregister (s + 1) ?u, Panic p))"
      using run q 1 by (cases "ic_opaque R (Suc s)") (simp_all add: iter_cdr_def op_bind_def op_simps Let_def)
    show ?thesis
    proof (cases "ic_opaque R (s + 1)")
      case (Ok v)
      then have "tail_views R (Some v) {#s + 1#}" unfolding tail_views_def by blast
      then show ?thesis using r Ok k reg by auto
    qed (use r k' unregister_inv [OF reg] in auto)
  next
    case 2
    then show ?thesis using u by (auto simp: tail_views_def)
  next
    case 3
    then show ?thesis using u by (cases r) auto
  qed
qed

lemma drop_tail:
  assumes "views_law R" and "tail_views R tail T" and "iter_inv (V + T) w"
  shows "iter_inv V (drop_opt (ic_views R) tail w) \<and> kept V w (drop_opt (ic_views R) tail w)"
  using assms unregister_inv unregister_kept
  by (auto simp: tail_views_def drop_opt_def views_law_def)

text \<open>Moving on: the old tail is released after the new one is there.\<close>

lemma next_node_step:
  assumes law: "views_law R" and tail: "tail_views R tail T" and inv: "iter_inv (V + T) w"
    and run: "next_node (ic_views R) tail w = (w', r)"
  shows "kept V w w' \<and> (case r of Ok (Some (h, t)) \<Rightarrow> \<exists>T'. tail_views R t T' \<and> iter_inv (V + T') w' | _ \<Rightarrow> iter_inv V w')"
proof (cases tail)
  case None
  then show ?thesis using run tail inv by (auto simp: next_node_def releasing_def op_simps drop_opt_def tail_views_def)
next
  case (Some v)
  then obtain s where s: "ic_opaque R s = Ok v" "T = {#s#}" using tail by (auto simp: tail_views_def)
  then obtain l where l: "lk_as_list (ic_views R) v = Some l" "lv_is_empty l = iter_is_empty R s" "lv_car l = iter_car R s"
      "lv_cdr l = iter_cdr R s" and drop: "lk_drop (ic_views R) v = view_unregister s"
    using law unfolding views_law_def by blast
  let ?m = "op_bind (iter_is_empty R s) (\<lambda>e. if e then op_return None
      else op_bind (iter_car R s) (\<lambda>head. op_bind (iter_cdr R s) (\<lambda>tail. op_return (Some (head, tail)))))"
  have "next_node (ic_views R) tail = releasing (ic_views R) tail ?m"
    by (simp add: next_node_def Some l cong: if_cong)
  then obtain u where m: "?m w = (u, r)" and w': "w' = view_unregister s u"
    using run Some drop by (cases "?m w") (auto simp: releasing_def drop_opt_def)
  let ?W = "V + {#s#}"
  have inv: "iter_inv ?W w" and mem: "s \<in># ?W" using inv s by auto
  have core: "kept ?W w u \<and> (case r of Ok (Some (h, t)) \<Rightarrow> \<exists>T'. tail_views R t T' \<and> iter_inv (?W + T') u | _ \<Rightarrow> iter_inv ?W u)"
  proof -
    obtain a q where a: "iter_is_empty R s w = (a, q)" by (cases "iter_is_empty R s w")
    have a': "iter_inv ?W a" "kept ?W w a"
      using is_empty_step [OF a] fills_inv [of w a ?W] fills_kept inv by auto
    show ?thesis
    proof (cases "q = Ok False")
      case False
      then have "u = a" "r = Ok None \<or> \<not> is_ok r"
        using m a by (cases q; auto simp: op_bind_def op_simps split: if_splits)+
      then show ?thesis using a' by (cases r) auto
    next
      case True
      obtain b x where b: "iter_car R s a = (b, x)" by (cases "iter_car R s a")
      have b': "iter_inv ?W b" "kept ?W w b"
        using car_step [OF b a'(1) mem] fills_inv [of a b ?W] fills_kept [of a b ?W] kept_trans [OF a'(2)] a'(1) by auto
      show ?thesis
      proof (cases x)
        case (Ok h)
        obtain c y where c: "iter_cdr R s b = (c, y)" by (cases "iter_cdr R s b")
        have "u = c" "r = (case y of Ok t \<Rightarrow> Ok (Some (h, t)) | Err e \<Rightarrow> Err e | Panic p \<Rightarrow> Panic p)"
          using m a b c True Ok by (cases y; simp add: op_bind_def op_simps)+
        then show ?thesis using cdr_step [OF c b'(1) mem] kept_trans [OF b'(2)] by (cases y) auto
      qed (use m a b True b' in \<open>auto simp: op_bind_def op_simps\<close>)
    qed
  qed
  have finish: "kept V w w' \<and> iter_inv (V + T') w'" if "iter_inv (?W + T') u" for T'
  proof -
    have "iter_inv (add_mset s (V + T')) u" using that by simp
    from unregister_inv [OF this] unregister_kept [OF this]
    have "iter_inv (V + T') w'" "kept (V + T') u w'" unfolding w' by blast+
    moreover have "kept V w u" using core kept_mono [of ?W w u V] by auto
    ultimately show ?thesis using kept_mono [of "V + T'" u w' V] kept_trans [of V w u w'] by simp
  qed
  show ?thesis
  proof (cases "\<exists>h t. r = Ok (Some (h, t))")
    case True
    then obtain h t T' where "r = Ok (Some (h, t))" "tail_views R t T'" "iter_inv (?W + T') u" using core by auto
    then show ?thesis using finish by auto
  next
    case False
    then have "iter_inv (?W + {#}) u" using core by (auto split: res.splits option.splits)
    then show ?thesis using finish [of "{#}"] False by (auto split: res.splits option.splits)
  qed
qed



lemma loops_keep:
  assumes law: "views_law R" and inv: "iter_inv (V + T) w" and tail: "tail_views R tail T"
  shows "iter_inv V (fst (spine_get_loop (ic_views R) i head tail w)) \<and> kept V w (fst (spine_get_loop (ic_views R) i head tail w))"
    and "spine_walk (ic_views R) limit k head tail (w, t) = Some y \<Longrightarrow> iter_inv V (fst (fst y)) \<and> kept V w (fst (fst y))"
proof -
  let ?I = "\<lambda>tail u. (\<exists>T. tail_views R tail T \<and> iter_inv (V + T) u) \<and> kept V w u"
  let ?J = "\<lambda>u. iter_inv V u \<and> kept V w u"
  have step: "case r of Ok (Some (h, t)) \<Rightarrow> ?I t u' | _ \<Rightarrow> ?J u'"
    if "?I tail u" "next_node (ic_views R) tail u = (u', r)" for tail u u' r
    using that next_node_step [OF law _ _ that(2)] kept_trans [of V w u u'] by (fastforce split: res.splits option.splits)
  have drop: "?J (drop_opt (ic_views R) tail u)" if "?I tail u" for tail u
    using that drop_tail [OF law] kept_trans [of V w u] by blast
  have start: "?I tail w" using inv tail by auto
  show "?J (fst (spine_get_loop (ic_views R) i head tail w))"
    by (rule get_loop_invariant [where I = ?I and J = ?J, OF step drop start])
  show "?J (fst (fst y))" if "spine_walk (ic_views R) limit k head tail (w, t) = Some y"
    by (rule walk_invariant [where I = ?I and J = ?J, OF step drop that]) (use start in simp_all)
qed

lemma head_tail_step:
  assumes inv: "iter_inv V w" and s: "s \<in># V"
    and run: "op_bind (iter_car R s) (\<lambda>head. op_bind (iter_cdr R s) (\<lambda>tail. op_return (head, tail))) w = (u, q)"
  shows "kept V w u \<and> (case q of Ok (head, tail) \<Rightarrow> \<exists>T. tail_views R tail T \<and> iter_inv (V + T) u | _ \<Rightarrow> iter_inv V u)"
proof -
  have ne: "V \<noteq> {#}" using s by auto
  obtain a x where a: "iter_car R s w = (a, x)" by (cases "iter_car R s w")
  have a': "iter_inv V a" "kept V w a" using car_step [OF a inv s] fills_inv [OF _ inv ne] fills_kept by auto
  show ?thesis
  proof (cases x)
    case (Ok h)
    obtain b y where b: "iter_cdr R s a = (b, y)" by (cases "iter_cdr R s a")
    have "u = b" "q = (case y of Ok t \<Rightarrow> Ok (h, t) | Err e \<Rightarrow> Err e | Panic p \<Rightarrow> Panic p)"
      using run a b Ok by (cases y; simp add: op_bind_def op_simps)+
    then show ?thesis using cdr_step [OF b a'(1) s] kept_trans [OF a'(2)] by (cases y) auto
  qed (use run a a' in \<open>auto simp: op_bind_def op_simps\<close>)
qed

lemma get_step:
  assumes law: "views_law R" and inv: "iter_inv V w" and s: "s \<in># V" and run: "iter_get R s i w = (w', r)"
  shows "iter_inv V w' \<and> kept V w w'"
proof -
  obtain u q where q: "op_bind (iter_car R s) (\<lambda>head. op_bind (iter_cdr R s) (\<lambda>tail. op_return (head, tail))) w = (u, q)"
    by (cases "op_bind (iter_car R s) (\<lambda>head. op_bind (iter_cdr R s) (\<lambda>tail. op_return (head, tail))) w")
  note step = head_tail_step [OF inv s q]
  have w': "(w', r) = (case q of Ok (head, tail) \<Rightarrow> spine_get_loop (ic_views R) i head tail u | Err e \<Rightarrow> (u, Err e) | Panic p \<Rightarrow> (u, Panic p))"
    using run q by (auto simp: iter_get_def spine_get_def op_bind_def op_simps split: prod.splits res.splits)
  show ?thesis
  proof (cases q)
    case (Ok ht)
    obtain h t where ht: "ht = (h, t)" by (cases ht)
    then obtain T where "tail_views R t T" "iter_inv (V + T) u" using step Ok by auto
    from loops_keep(1) [OF law this(2,1), of i h] show ?thesis using w' Ok ht step kept_trans [of V w u w'] by (metis case_prod_conv fst_conv res.simps(10))
  qed (use w' step in auto)
qed

lemma for_each_step:
  assumes law: "views_law R" and inv: "iter_inv V w" and s: "s \<in># V" and run: "iter_for_each R s limit (w, t) = Some ((w', t'), r)"
  shows "iter_inv V w' \<and> kept V w w'"
proof (cases "limit = Some 0")
  case True
  then show ?thesis using run inv by (simp add: iter_for_each_def spine_for_each_def)
next
  case False
  obtain u q where q: "op_bind (iter_car R s) (\<lambda>head. op_bind (iter_cdr R s) (\<lambda>tail. op_return (head, tail))) w = (u, q)"
    by (cases "op_bind (iter_car R s) (\<lambda>head. op_bind (iter_cdr R s) (\<lambda>tail. op_return (head, tail))) w")
  note step = head_tail_step [OF inv s q]
  show ?thesis
  proof (cases q)
    case (Ok ht)
    obtain h tl where ht: "ht = (h, tl)" by (cases ht)
    then obtain T where T: "tail_views R tl T" "iter_inv (V + T) u" using step Ok by auto
    have "spine_walk (ic_views R) limit 0 h tl (u, t) = Some ((w', t'), r)"
      using run False q Ok ht by (simp add: iter_for_each_def spine_for_each_def)
    from loops_keep(2) [OF law T(2,1) this] show ?thesis using step kept_trans [of V w u w'] by simp
  qed (use run False q step in \<open>auto simp: iter_for_each_def spine_for_each_def\<close>)
qed


section \<open>Every history of calls\<close>

text \<open>Calls on live views, clones and drops; a successful \<open>cdr\<close> and a clone add a view.\<close>

inductive iter_step ::
    "('w, 'v) iter_cx \<Rightarrow> nat multiset \<times> ('w, 'v) iter_world \<Rightarrow> nat multiset \<times> ('w, 'v) iter_world \<Rightarrow> bool"
  for R :: "('w, 'v) iter_cx" where
  step_is_empty: "s \<in># V \<Longrightarrow> iter_is_empty R s w = (w', r) \<Longrightarrow> iter_step R (V, w) (V, w')"
| step_car: "s \<in># V \<Longrightarrow> iter_car R s w = (w', r) \<Longrightarrow> iter_step R (V, w) (V, w')"
| step_cdr: "s \<in># V \<Longrightarrow> iter_cdr R s w = (w', Ok (Some v)) \<Longrightarrow> iter_step R (V, w) (add_mset (s + 1) V, w')"
| step_cdr_none: "s \<in># V \<Longrightarrow> iter_cdr R s w = (w', r) \<Longrightarrow> \<nexists>v. r = Ok (Some v) \<Longrightarrow> iter_step R (V, w) (V, w')"
| step_len_cmp: "s \<in># V \<Longrightarrow> iter_len_cmp R s n w = (w', r) \<Longrightarrow> iter_step R (V, w) (V, w')"
| step_get: "s \<in># V \<Longrightarrow> iter_get R s i w = (w', r) \<Longrightarrow> iter_step R (V, w) (V, w')"
| step_for_each: "s \<in># V \<Longrightarrow> iter_for_each R s limit (w, t) = Some ((w', t'), r) \<Longrightarrow> iter_step R (V, w) (V, w')"
| step_clone: "s \<in># V \<Longrightarrow> iter_step R (V, w) (add_mset s V, view_register s w)"
| step_drop: "iter_step R (add_mset s V, w) (V, view_unregister s w)"

inductive iter_reachable :: "('w, 'v) iter_cx \<Rightarrow> nat multiset \<times> ('w, 'v) iter_world \<Rightarrow> bool" for R :: "('w, 'v) iter_cx" where
  reach_new: "iter_reachable R ({#0#}, iter_new b)"
| reach_prepend: "iter_reachable R ({#0#}, iter_prepend x t b)"
| reach_step: "iter_reachable R c \<Longrightarrow> iter_step R c d \<Longrightarrow> iter_reachable R d"

lemma len_cmp_step: "iter_len_cmp R s n w = (w', r) \<Longrightarrow> fills w w'"
  using fill_to_run [of R "min (s + n + 1) (usize_bound - 1)" w]
  by (cases "fill_to R (min (s + n + 1) (usize_bound - 1)) w"; cases "snd (fill_to R (min (s + n + 1) (usize_bound - 1)) w)")
    (auto simp: iter_len_cmp_def op_bind_def op_simps Let_def split: if_splits)

lemma iter_step_inv:
  assumes law: "views_law R" and step: "iter_step R (V, w) (V', w')" and inv: "iter_inv V w"
  shows "iter_inv V' w' \<and> (\<forall>s. s \<in># V \<longrightarrow> s \<in># V' \<longrightarrow> kept {#s#} w w')"
proof -
  have filled: "iter_inv V w' \<and> kept V w w'" if "fills w w'" "s \<in># V" for s
  proof -
    have "V \<noteq> {#}" using that(2) by auto
    then show ?thesis using fills_inv [OF that(1) inv] fills_kept [OF that(1)] by blast
  qed
  have done_with: "?thesis" if "iter_inv V' w' \<and> kept V w w'"
    using that kept_mono by (metis set_mset_single singletonD subsetI)
  from step show ?thesis
  proof cases
    case (step_is_empty s r)
    then show ?thesis using is_empty_step [OF step_is_empty(3)] filled done_with by blast
  next
    case (step_car s r)
    then show ?thesis using car_step [OF step_car(3) inv step_car(2)] filled done_with by blast
  next
    case (step_cdr s v)
    then show ?thesis using cdr_step [OF step_cdr(3) inv step_cdr(2)] done_with by auto
  next
    case (step_cdr_none s r)
    then show ?thesis using cdr_step [OF step_cdr_none(3) inv step_cdr_none(2)] done_with by (auto split: res.splits)
  next
    case (step_len_cmp s n r)
    then show ?thesis using len_cmp_step [OF step_len_cmp(3)] filled done_with by blast
  next
    case (step_get s i r)
    then show ?thesis using get_step [OF law inv step_get(2,3)] done_with by blast
  next
    case (step_for_each s limit t t' r)
    then show ?thesis using for_each_step [OF law inv step_for_each(2,3)] done_with by blast
  next
    case (step_clone s)
    have "iter_inv (add_mset s V) (view_register s w)"
      by (rule register_inv [OF inv]) (use step_clone(3) iter_invD(3,4) [OF inv] in auto)
    then show ?thesis using step_clone register_kept done_with by blast
  next
    case (step_drop s)
    then have "iter_inv (add_mset s V') w" using inv by simp
    then show ?thesis using step_drop unregister_inv unregister_kept kept_mono
      by (metis set_mset_single singletonD subsetI)
  qed
qed

lemma iter_reachable_inv:
  assumes "views_law R" and "iter_reachable R c"
  shows "iter_inv (fst c) (snd c)"
  using assms(2)
proof induction
  case (reach_step c d)
  then show ?case using iter_step_inv [OF assms(1), of "fst c" "snd c" "fst d" "snd d"] by simp
qed (simp_all add: iter_inv_new)

text \<open>C36: The census of a shared iterator is exact through every history of calls, clones and drops of its views:
  it counts the live views at each offset, every live view lies between the first kept and the first
  missing element, so reading never underflows, and what is kept starts at the lowest live view, or
  is nothing when no view is left.\<close>

theorem iter_views_invariant:
  assumes "views_law R" and "iter_reachable R (V, w)"
  shows "(\<forall>s. bget (it_live (iw_state w)) s = (if s \<in># V then Some (count V s) else None)) \<and>
    (\<forall>s. s \<in># V \<longrightarrow> it_base (iw_state w) \<le> s \<and> s \<le> iter_filled (iw_state w)) \<and>
    (if V = {#} then it_buffer (iw_state w) = [] else it_base (iw_state w) = Min (set_mset V))"
proof -
  note inv = iter_reachable_inv [OF assms, simplified]
  have "it_base (iw_state w) = Min (set_mset V)" if "V \<noteq> {#}"
    using iter_invD(3,6) [OF inv] that by (intro Min_eqI [symmetric]) auto
  then show ?thesis using iter_invD [OF inv] by auto
qed

text \<open>What a view has read it reads again: once \<open>car\<close> of a view gave an element, or the end, it gives the same
  without pulling from the source, whatever other views do meanwhile, as long as the view lives.\<close>

theorem iter_view_stable:
  assumes "views_law R" and "iter_reachable R (V, w)" and "s \<in># V" and "iter_car R s w = (w1, Ok x)"
    and "(\<lambda>a b. iter_step R a b \<and> s \<in># fst a \<and> s \<in># fst b)\<^sup>*\<^sup>* (V, w1) (V', w')"
  shows "iter_car R s w' = (w', Ok x)"
proof -
  have inv: "iter_inv V w" using iter_reachable_inv [OF assms(1,2)] by simp
  note car = car_step [OF assms(4) inv assms(3)]
  have ne: "V \<noteq> {#}" using assms(3) by auto
  have "iter_inv (fst c) (snd c) \<and> kept {#s#} w1 (snd c) \<and> s \<in># fst c"
    if "(\<lambda>a b. iter_step R a b \<and> s \<in># fst a \<and> s \<in># fst b)\<^sup>*\<^sup>* (V, w1) c" for c
    using that
  proof (induction rule: rtranclp_induct)
    case base
    then show ?case using car fills_inv [OF _ inv ne] assms(3) by simp
  next
    case (step c d)
    then have "iter_inv (fst d) (snd d)" "kept {#s#} (snd c) (snd d)"
      using iter_step_inv [OF assms(1), of "fst c" "snd c" "fst d" "snd d"] by auto
    then show ?case using step kept_trans by blast
  qed
  from this [OF assms(5)] have w': "iter_inv V' w'" "kept {#s#} w1 w'" "s \<in># V'" by simp_all
  show ?thesis
  proof (cases x)
    case None
    then have "it_done (iw_state w')" "iter_filled (iw_state w') \<le> s" using car w'(2) by (auto simp: kept_def)
    then show ?thesis using None fill_to_done [of w' "s + 1" R] by (simp add: iter_car_def op_bind_def op_simps)
  next
    case (Some y)
    then have "elem_at w1 s = Some y" using car by simp
    then have at: "elem_at w' s = Some y" using w'(2) by (auto simp: kept_def)
    then have "s < iter_filled (iw_state w')" by (auto simp: elem_at_def split: if_splits)
    from car_runs [OF w'(1,3) this] show ?thesis using at Some by simp
  qed
qed


section \<open>The values of views\<close>

text \<open>A value that holds a view is that view as a list. The lists do not look at the views' values but through
  the shared loops, so the kernel that has them exists.\<close>

definition iter_closed :: "('v \<Rightarrow> nat option) \<Rightarrow> ('w, 'v) iter_cx \<Rightarrow> ('w, 'v) iter_cx" where
  "iter_closed view R = R\<lparr>ic_views :=
     \<lparr>lk_as_list = \<lambda>v. map_option (iter_list_value R) (view v),
      lk_drop = \<lambda>v w. (case view v of Some s \<Rightarrow> view_unregister s w | None \<Rightarrow> w)\<rparr>\<rparr>"

lemma fill_to_views: "fill_to (R\<lparr>ic_views := k\<rparr>) need w = fill_to R need w"
proof (induction R need w rule: fill_to.induct)
  case (1 R need w)
  have "next_value (R\<lparr>ic_views := k\<rparr>) w = next_value R w"
    by (simp add: next_value_def split: iter_driver.split prod.split)
  then show ?case
    using 1 by (subst (1 2) fill_to.simps) (auto split: prod.split res.split option.split)
qed

lemma closed_ops [simp]:
  "iter_is_empty (iter_closed view R) = iter_is_empty R" "iter_car (iter_closed view R) = iter_car R"
  "iter_cdr (iter_closed view R) = iter_cdr R" "ic_opaque (iter_closed view R) = ic_opaque R"
proof -
  have fill: "fill_to (iter_closed view R) need = fill_to R need" for need by (rule ext) (simp add: iter_closed_def fill_to_views)
  show e: "iter_is_empty (iter_closed view R) = iter_is_empty R" by (rule ext) (simp add: iter_is_empty_def fill)
  show "iter_car (iter_closed view R) = iter_car R" by (rule ext) (simp add: iter_car_def fill)
  show o: "ic_opaque (iter_closed view R) = ic_opaque R" by (simp add: iter_closed_def)
  show "iter_cdr (iter_closed view R) = iter_cdr R" unfolding fun_eq_iff iter_cdr_def e o by simp
qed

lemma closed_views_law: "(\<And>s v. ic_opaque R s = Ok v \<Longrightarrow> view v = Some s) \<Longrightarrow> views_law (iter_closed view R)"
  by (auto simp: views_law_def fun_eq_iff) (auto simp: iter_closed_def iter_list_value_def)

section \<open>A list of given items\<close>

definition items_driven :: "('v list, 'v) iter_cx \<Rightarrow> bool" where
  "items_driven R \<longleftrightarrow> ic_next R = items_next \<and> (\<forall>s. \<exists>v. ic_opaque R s = Ok v)"

text \<open>The elements from an offset on: those kept and those still to come.\<close>

definition iter_rest :: "('v list, 'v) iter_world \<Rightarrow> nat \<Rightarrow> 'v list" where
  "iter_rest w s = drop (s - it_base (iw_state w)) (it_buffer (iw_state w)) @ (if it_done (iw_state w) then [] else iw_base w)"

text \<open>The live views stand for the lists \<open>f\<close>.\<close>

definition views_hold :: "nat multiset \<Rightarrow> (nat \<Rightarrow> 'v list) \<Rightarrow> ('v list, 'v) iter_world \<Rightarrow> bool" where
  "views_hold V f w \<longleftrightarrow> iter_inv V w \<and> it_driver (iw_state w) = DriverIter \<and> (\<forall>s. s \<in># V \<longrightarrow> iter_rest w s = f s)"

lemma fill_items:
  "items_driven R \<Longrightarrow> it_driver (iw_state w) = DriverIter \<Longrightarrow>
    \<exists>w'. fill_to R need w = (w', Ok (iter_filled (iw_state w'))) \<and> it_driver (iw_state w') = DriverIter \<and>
      (\<forall>s. it_base (iw_state w) \<le> s \<longrightarrow> s \<le> iter_filled (iw_state w) \<longrightarrow> iter_rest w' s = iter_rest w s) \<and>
      (need \<le> iter_filled (iw_state w') \<or> it_done (iw_state w'))"
proof (induction R need w rule: fill_to.induct)
  case (1 R need w)
  show ?case
  proof (cases "iter_filled (iw_state w) < need \<and> \<not> it_done (iw_state w)")
    case False
    then show ?thesis using "1.prems" by (subst fill_to.simps) auto
  next
    case True
    have pull: "next_value R w = (case iw_base w of [] \<Rightarrow> (w\<lparr>iw_base := []\<rparr>, Ok None) | x # r \<Rightarrow> (w\<lparr>iw_base := r\<rparr>, Ok (Some x)))"
    proof -
      have "ic_next R (iw_base w) = items_next (iw_base w)" using "1.prems"(1) by (simp add: items_driven_def)
      then show ?thesis using "1.prems"(2) by (cases "iw_base w") (simp_all add: next_value_def items_next_def)
    qed
    show ?thesis
    proof (cases "iw_base w")
      case Nil
      let ?u = "mark_done (w\<lparr>iw_base := []\<rparr>)"
      have "fill_to R need w = (?u, Ok (iter_filled (iw_state ?u)))"
        using True pull Nil fill_to_done [of ?u need R] by (subst fill_to.simps) (simp add: mark_done_def)
      then show ?thesis using "1.prems" True Nil by (auto simp: mark_done_def iter_rest_def iter_filled_def)
    next
      case (Cons x r)
      let ?u = "push_item x (w\<lparr>iw_base := r\<rparr>)"
      have run: "fill_to R need w = fill_to R need ?u" using True pull Cons by (subst fill_to.simps) simp
      have u: "it_driver (iw_state ?u) = DriverIter" "it_base (iw_state ?u) = it_base (iw_state w)"
          "iter_filled (iw_state ?u) = Suc (iter_filled (iw_state w))"
        using "1.prems" by (simp_all add: push_item_def iter_filled_def)
      have rest: "iter_rest ?u s = iter_rest w s" if "it_base (iw_state w) \<le> s" "s \<le> iter_filled (iw_state w)" for s
        using that True Cons by (simp add: iter_rest_def push_item_def iter_filled_def)
      have n: "(w\<lparr>iw_base := r\<rparr>, Ok (Some x)) = next_value R w" using pull Cons by simp
      from "1.IH"(2) [OF True n refl refl "1.prems"(1) u(1)] show ?thesis using u rest run by auto
    qed
  qed
qed

lemma fill_holds:
  assumes "items_driven R" and "views_hold V f w" and "s \<in># V"
  shows "\<exists>w'. fill_to R need w = (w', Ok (iter_filled (iw_state w'))) \<and> views_hold V f w' \<and>
    (need \<le> iter_filled (iw_state w') \<or> it_done (iw_state w'))"
proof -
  obtain w' where w': "fill_to R need w = (w', Ok (iter_filled (iw_state w')))" "it_driver (iw_state w') = DriverIter"
      "\<forall>s. it_base (iw_state w) \<le> s \<longrightarrow> s \<le> iter_filled (iw_state w) \<longrightarrow> iter_rest w' s = iter_rest w s"
      "need \<le> iter_filled (iw_state w') \<or> it_done (iw_state w')"
    using fill_items [OF assms(1)] assms(2) unfolding views_hold_def by blast
  have inv: "iter_inv V w" "V \<noteq> {#}" using assms(2,3) by (auto simp: views_hold_def)
  then have "iter_inv V w'" using fills_inv fill_to_run [OF w'(1)] by blast
  moreover have "iter_rest w' j = iter_rest w j" if "j \<in># V" for j using w'(3) iter_invD(3,4) [OF inv(1) that] by blast
  ultimately show ?thesis using w' assms(2) by (auto simp: views_hold_def)
qed

lemma rest_length:
  assumes "iter_inv V w" and "s \<in># V"
  shows "iter_filled (iw_state w) - s \<le> length (iter_rest w s)"
    and "it_done (iw_state w) \<Longrightarrow> length (iter_rest w s) = iter_filled (iw_state w) - s"
    and "s < iter_filled (iw_state w) \<Longrightarrow> elem_at w s = nth_opt (iter_rest w s) 0"
  using iter_invD(3,4) [OF assms] by (auto simp: iter_rest_def iter_filled_def elem_at_def nth_opt_def nth_append)

lemma is_empty_holds:
  assumes "items_driven R" and "views_hold V f w" and "s \<in># V"
  shows "\<exists>w'. iter_is_empty R s w = (w', Ok (f s = [])) \<and> views_hold V f w'"
proof -
  obtain w' where w': "fill_to R (s + 1) w = (w', Ok (iter_filled (iw_state w')))" "views_hold V f w'"
      "s + 1 \<le> iter_filled (iw_state w') \<or> it_done (iw_state w')"
    using fill_holds [OF assms] by blast
  have "iter_filled (iw_state w') \<le> s \<longleftrightarrow> f s = []"
    using w'(2,3) rest_length [of V w' s] assms(3) by (auto simp: views_hold_def)
  then show ?thesis using w' by (auto simp: iter_is_empty_def op_bind_def op_simps)
qed

lemma car_holds:
  assumes "items_driven R" and "views_hold V f w" and "s \<in># V"
  shows "\<exists>w'. iter_car R s w = (w', Ok (nth_opt (f s) 0)) \<and> views_hold V f w'"
proof -
  obtain w' where w': "fill_to R (s + 1) w = (w', Ok (iter_filled (iw_state w')))" "views_hold V f w'"
      "s + 1 \<le> iter_filled (iw_state w') \<or> it_done (iw_state w')"
    using fill_holds [OF assms] by blast
  have inv: "iter_inv V w'" "iter_rest w' s = f s" using w'(2) assms(3) by (simp_all add: views_hold_def)
  note r = rest_length [OF inv(1) assms(3)] inv(2)
  have "iter_car R s w = (w', Ok (nth_opt (f s) 0))"
  proof (cases "iter_filled (iw_state w') \<le> s")
    case True
    then have "f s = []" using w'(3) r by auto
    then show ?thesis using True w'(1) by (simp add: iter_car_def op_bind_def op_simps)
  next
    case False
    then have "iter_car R s w' = (w', Ok (nth_opt (f s) 0))" using car_runs [OF inv(1) assms(3)] r by simp
    then show ?thesis using False w'(1) fill_to_done [of w' "s + 1" R] by (simp add: iter_car_def op_bind_def)
  qed
  then show ?thesis using w'(2) by blast
qed

text \<open>A held tail is a view of its own; the other views stay what they are.\<close>

definition view_owns ::
    "('v list, 'v) iter_cx \<Rightarrow> nat multiset \<times> (nat \<Rightarrow> 'v list) \<Rightarrow> 'v option \<Rightarrow> 'v list \<Rightarrow> ('v list, 'v) iter_world \<Rightarrow> bool" where
  "view_owns R c tail xs w \<longleftrightarrow>
     (\<exists>j v. tail = Some v \<and> ic_opaque R j = Ok v \<and> views_hold (add_mset j (fst c)) (iter_rest w) w \<and> iter_rest w j = xs \<and>
        (\<forall>s. s \<in># fst c \<longrightarrow> iter_rest w s = snd c s))"

definition view_framed :: "nat multiset \<times> (nat \<Rightarrow> 'v list) \<Rightarrow> ('v list, 'v) iter_world \<Rightarrow> bool" where
  "view_framed c w = views_hold (fst c) (snd c) w"

lemma cdr_holds:
  assumes "items_driven R" and "views_hold V f w" and "s \<in># V" and "f s = x # xs"
  shows "\<exists>w' v. iter_cdr R s w = (w', Ok (Some v)) \<and> ic_opaque R (s + 1) = Ok v \<and> iter_rest w' (s + 1) = xs \<and>
    views_hold (add_mset (s + 1) V) (iter_rest w') w' \<and> (\<forall>j. j \<in># V \<longrightarrow> iter_rest w' j = f j)"
proof -
  obtain u where u: "iter_is_empty R s w = (u, Ok False)" "views_hold V f u"
    using is_empty_holds [OF assms(1-3)] assms(4) by auto
  obtain v where v: "ic_opaque R (s + 1) = Ok v" using assms(1) by (auto simp: items_driven_def)
  let ?w = "view_register (s + 1) u"
  have inv: "iter_inv V u" and rest: "iter_rest u s = x # xs" using u(2) assms(3,4) by (simp_all add: views_hold_def)
  have below: "it_base (iw_state u) \<le> s" "s < iter_filled (iw_state u)"
    using iter_invD(3) [OF inv assms(3)] is_empty_step [OF u(1)] by auto
  have "iter_inv (add_mset (s + 1) V) ?w" by (rule register_inv [OF inv]) (use assms(3) below in auto)
  moreover have same: "iter_rest ?w j = iter_rest u j" for j by (simp add: iter_rest_def view_register_def Let_def)
  moreover have "iter_rest u (s + 1) = tl (iter_rest u s)"
    using below by (simp add: iter_rest_def iter_filled_def drop_Suc [symmetric] Suc_diff_le tl_drop drop_tl)
  moreover have "iter_cdr R s w = (?w, Ok (Some v))" using u(1) v by (simp add: iter_cdr_def op_bind_def Let_def)
  moreover have "it_driver (iw_state ?w) = it_driver (iw_state u)" by (simp add: view_register_def Let_def)
  ultimately show ?thesis using u(2) v rest by (auto simp: views_hold_def)
qed

lemma unregister_rest:
  assumes "iter_inv (add_mset s V) w" and "j \<in># V"
  shows "iter_rest (view_unregister s w) j = iter_rest w j"
proof -
  let ?r = "reclaim ((iw_state w)\<lparr>it_live := uncount s (it_live (iw_state w))\<rparr>)"
  have world: "iw_state (view_unregister s w) = ?r" "iw_base (view_unregister s w) = iw_base w"
    by (simp_all add: view_unregister_def Let_def)
  have "it_base ?r \<le> j" using iter_invD(3) [OF unregister_inv [OF assms(1)] assms(2)] by (simp add: world)
  moreover have "it_base (iw_state w) \<le> it_base ?r" by (rule order_trans [OF _ reclaim_keeps(5)]) simp
  ultimately show ?thesis by (simp add: iter_rest_def world reclaim_base(2))
qed

lemma drop_holds: "views_hold (add_mset j V) f w \<Longrightarrow> views_hold V f (view_unregister j w)"
  using unregister_inv [of j V w] unregister_rest [of j V w]
  by (auto simp: views_hold_def view_unregister_def Let_def)

lemma holds_cong: "views_hold V f w \<Longrightarrow> (\<And>s. s \<in># V \<Longrightarrow> f s = g s) \<Longrightarrow> views_hold V g w"
  by (auto simp: views_hold_def)

lemma views_lawD:
  assumes "views_law R" and "ic_opaque R s = Ok v"
  obtains l where "lk_as_list (ic_views R) v = Some l" "lv_is_empty l = iter_is_empty R s" "lv_car l = iter_car R s"
    "lv_cdr l = iter_cdr R s" "lk_drop (ic_views R) v = view_unregister s"
  using assms unfolding views_law_def by blast

lemma view_nodes:
  fixes R :: "('v list, 'v) iter_cx"
  assumes law: "views_law R" and driven: "items_driven R"
  shows "list_nodes (ic_views R) (view_owns R) view_framed"
proof
  fix c :: "nat multiset \<times> (nat \<Rightarrow> 'v list)" and tail :: "'v option" and xs w
  assume owns: "view_owns R c tail xs w"
  then obtain j v where o: "tail = Some v" "ic_opaque R j = Ok v" "views_hold (add_mset j (fst c)) (iter_rest w) w"
      "\<forall>s. s \<in># fst c \<longrightarrow> iter_rest w s = snd c s" by (auto simp: view_owns_def)
  have "lk_drop (ic_views R) v = view_unregister j" using views_lawD [OF law o(2)] by blast
  then show "view_framed c (drop_opt (ic_views R) tail w)"
    using o(1,4) holds_cong [OF drop_holds [OF o(3)]] by (simp add: view_framed_def drop_opt_def)
next
  fix c :: "nat multiset \<times> (nat \<Rightarrow> 'v list)" and tail :: "'v option" and w
  assume owns: "view_owns R c tail [] w"
  then obtain j v where o: "tail = Some v" "ic_opaque R j = Ok v" "views_hold (add_mset j (fst c)) (iter_rest w) w"
      "\<forall>s. s \<in># fst c \<longrightarrow> iter_rest w s = snd c s" "iter_rest w j = []" by (auto simp: view_owns_def)
  obtain l where l: "lk_as_list (ic_views R) v = Some l" "lv_is_empty l = iter_is_empty R j" "lk_drop (ic_views R) v = view_unregister j"
    by (rule views_lawD [OF law o(2)])
  obtain u where u: "iter_is_empty R j w = (u, Ok True)" "views_hold (add_mset j (fst c)) (iter_rest w) u"
    using is_empty_holds [OF driven o(3), of j] o(5) by auto
  have "view_framed c (view_unregister j u)"
    using o(4) holds_cong [OF drop_holds [OF u(2)]] by (simp add: view_framed_def)
  then show "\<exists>w'. next_node (ic_views R) tail w = (w', Ok None) \<and> view_framed c w'"
    using o(1) l u(1) by (auto simp: next_node_def releasing_def op_bind_def op_simps drop_opt_def)
next
  fix c :: "nat multiset \<times> (nat \<Rightarrow> 'v list)" and tail :: "'v option" and x xs w
  assume owns: "view_owns R c tail (x # xs) w"
  then obtain j v where o: "tail = Some v" "ic_opaque R j = Ok v" "views_hold (add_mset j (fst c)) (iter_rest w) w"
      "\<forall>s. s \<in># fst c \<longrightarrow> iter_rest w s = snd c s" "iter_rest w j = x # xs" by (auto simp: view_owns_def)
  obtain l where l: "lk_as_list (ic_views R) v = Some l" "lv_is_empty l = iter_is_empty R j" "lv_car l = iter_car R j"
      "lv_cdr l = iter_cdr R j" "lk_drop (ic_views R) v = view_unregister j"
    by (rule views_lawD [OF law o(2)])
  have j: "j \<in># add_mset j (fst c)" by simp
  obtain a where a: "iter_is_empty R j w = (a, Ok False)" "views_hold (add_mset j (fst c)) (iter_rest w) a"
    using is_empty_holds [OF driven o(3) j] o(5) by auto
  obtain b where b: "iter_car R j a = (b, Ok (Some x))" "views_hold (add_mset j (fst c)) (iter_rest w) b"
    using car_holds [OF driven a(2) j] o(5) by auto
  obtain d t where d: "iter_cdr R j b = (d, Ok (Some t))" "ic_opaque R (j + 1) = Ok t" "iter_rest d (j + 1) = xs"
      "views_hold (add_mset (j + 1) (add_mset j (fst c))) (iter_rest d) d" "\<forall>k. k \<in># add_mset j (fst c) \<longrightarrow> iter_rest d k = iter_rest w k"
    using cdr_holds [OF driven b(2) j o(5)] by blast
  let ?e = "view_unregister j d"
  have "views_hold (add_mset (j + 1) (fst c)) (iter_rest d) ?e"
    by (rule drop_holds) (use d(4) in \<open>simp add: add_mset_commute\<close>)
  then have "view_owns R c (Some t) xs ?e" using d(2,3,5) o(4) by (auto simp: view_owns_def views_hold_def)
  then show "\<exists>w' tail'. next_node (ic_views R) tail w = (w', Ok (Some (Some x, tail'))) \<and> view_owns R c tail' xs w'"
    using o(1) l a(1) b(1) d(1) by (auto simp: next_node_def releasing_def op_bind_def op_simps drop_opt_def)
qed

lemma head_tail_holds:
  assumes "items_driven R" and "views_hold V f w" and "s \<in># V"
  shows "\<exists>w' tail. op_bind (iter_car R s) (\<lambda>head. op_bind (iter_cdr R s) (\<lambda>tail. op_return (head, tail))) w = (w', Ok (nth_opt (f s) 0, tail)) \<and>
    (case f s of [] \<Rightarrow> tail = None \<and> views_hold V f w' | x # xs \<Rightarrow> view_owns R (V, f) tail xs w')"
proof -
  obtain u where u: "iter_car R s w = (u, Ok (nth_opt (f s) 0))" "views_hold V f u" using car_holds [OF assms] by blast
  show ?thesis
  proof (cases "f s")
    case Nil
    obtain w' where "iter_is_empty R s u = (w', Ok True)" "views_hold V f w'"
      using is_empty_holds [OF assms(1) u(2) assms(3)] Nil by auto
    then show ?thesis using u(1) Nil by (simp add: op_bind_def op_simps iter_cdr_def)
  next
    case (Cons x xs)
    obtain w' v where w': "iter_cdr R s u = (w', Ok (Some v))" "ic_opaque R (s + 1) = Ok v" "iter_rest w' (s + 1) = xs"
        "views_hold (add_mset (s + 1) V) (iter_rest w') w'" "\<forall>j. j \<in># V \<longrightarrow> iter_rest w' j = f j"
      using cdr_holds [OF assms(1) u(2) assms(3) Cons] by blast
    then have "view_owns R (V, f) (Some v) xs w'" by (auto simp: view_owns_def)
    then show ?thesis using u(1) w'(1) Cons by (auto simp: op_bind_def op_simps)
  qed
qed

lemma len_cmp_holds:
  assumes "items_driven R" and "views_hold V f w" and "s \<in># V" and "s + length (f s) + 1 < usize_bound"
  shows "\<exists>w'. iter_len_cmp R s n w = (w', Ok (nat_cmp (length (f s)) n)) \<and> views_hold V f w'"
proof -
  let ?need = "min (s + n + 1) (usize_bound - 1)"
  obtain w' where w': "fill_to R ?need w = (w', Ok (iter_filled (iw_state w')))" "views_hold V f w'"
      "?need \<le> iter_filled (iw_state w') \<or> it_done (iw_state w')"
    using fill_holds [OF assms(1-3)] by blast
  then have at: "iter_inv V w'" "iter_rest w' s = f s" using assms(3) by (simp_all add: views_hold_def)
  note r = rest_length(1,2) [OF at(1) assms(3)] at(2)
  have "(if iter_filled (iw_state w') - s > n then OrdGreater else nat_cmp (iter_filled (iw_state w') - s) n) = nat_cmp (length (f s)) n"
    using w'(3) r assms(4) by (auto simp: nat_cmp_def)
  then show ?thesis using w' by (simp add: iter_len_cmp_def op_bind_def op_simps Let_def)
qed

lemma iter_contract:
  fixes R :: "('v list, 'v) iter_cx"
  assumes law: "views_law R" and driven: "items_driven R" and s: "s \<in># V" and bound: "s + length (f s) + 1 < usize_bound"
  shows "list_contract (iter_list_value R s) (views_hold V f) (f s)"
proof -
  note nodes = view_nodes [OF law driven]
  show ?thesis
  proof
    fix w assume w: "views_hold V f w"
    show "\<exists>w'. lv_is_empty (iter_list_value R s) w = (w', Ok (f s = [])) \<and> views_hold V f w'"
      using is_empty_holds [OF driven w s] by (simp add: iter_list_value_def)
    show "\<exists>w'. lv_car (iter_list_value R s) w = (w', Ok (nth_opt (f s) 0)) \<and> views_hold V f w'"
      using car_holds [OF driven w s] by (simp add: iter_list_value_def)
    show "\<exists>w' r. lv_len (iter_list_value R s) w = (w', Ok r) \<and> (r = Known (length (f s)) \<or> r = Unknown) \<and> views_hold V f w'"
      using w by (simp add: iter_list_value_def iter_len_def op_simps)
    show "\<exists>w'. lv_len_cmp (iter_list_value R s) n w = (w', Ok (nat_cmp (length (f s)) n)) \<and> views_hold V f w'" for n
      using len_cmp_holds [OF driven w s bound] by (simp add: iter_list_value_def)
    obtain u tail where u: "op_bind (iter_car R s) (\<lambda>head. op_bind (iter_cdr R s) (\<lambda>tail. op_return (head, tail))) w = (u, Ok (nth_opt (f s) 0, tail))"
        "case f s of [] \<Rightarrow> tail = None \<and> views_hold V f u | x # xs \<Rightarrow> view_owns R (V, f) tail xs u"
      using head_tail_holds [OF driven w s] by blast
    have get: "iter_get R s i w = spine_get_loop (ic_views R) i (nth_opt (f s) 0) tail u" for i
      using u(1) by (auto simp: iter_get_def spine_get_def op_bind_def op_simps split: prod.splits res.splits)
    have walk: "iter_for_each R s limit (w, t) =
        (if limit = Some 0 then Some ((w, t), Ok ()) else spine_walk (ic_views R) limit 0 (nth_opt (f s) 0) tail (u, t))" for limit t
      using u(1) by (simp add: iter_for_each_def spine_for_each_def)
    show "\<exists>w'. lv_get (iter_list_value R s) i w = (w', Ok (nth_opt (f s) i)) \<and> views_hold V f w'" for i
    proof (cases "f s")
      case Nil
      then show ?thesis using get u(2) by (simp add: iter_list_value_def releasing_def drop_opt_def op_simps)
    next
      case (Cons x xs)
      then show ?thesis
        using list_nodes.get_loop_nodes [OF nodes, of "(V, f)" tail xs u i x] get u(2)
        by (auto simp: iter_list_value_def view_framed_def)
    qed
    show "\<exists>w'. lv_for_each (iter_list_value R s) limit (w, t) = Some ((w', t @ upto_limit limit (f s)), Ok ()) \<and> views_hold V f w'" for limit t
    proof (cases "f s")
      case Nil
      then show ?thesis using walk u(2) w
        by (auto simp: iter_list_value_def drop_opt_def upto_limit_def spine_walk.simps split: option.splits)
    next
      case (Cons x xs)
      then show ?thesis using list_nodes.walk_nodes [OF nodes, of "(V, f)" tail xs u limit 0 x t] walk [of limit t] u(2) w
        by (cases limit) (auto simp: iter_list_value_def view_framed_def upto_limit_def)
    qed
  qed
qed

section \<open>Lists of items in a kernel of views\<close>

text \<open>Values are items or views of the list; the outside holds what the iterator still has.\<close>

datatype 'a iter_value = IterItem 'a | IterView nat

definition iter_view_of :: "'a iter_value \<Rightarrow> nat option" where
  "iter_view_of v = (case v of IterView s \<Rightarrow> Some s | IterItem _ \<Rightarrow> None)"

definition items_cx :: "('a iter_value list, 'a iter_value) iter_cx" where
  "items_cx = iter_closed iter_view_of
     \<lparr>ic_kernel = \<lparr>lk_as_list = \<lambda>_. None, lk_drop = \<lambda>_ w. w\<rparr>, ic_next = items_next, ic_opaque = \<lambda>s. Ok (IterView s),
      ic_views = \<lparr>lk_as_list = \<lambda>_. None, lk_drop = \<lambda>_ w. w\<rparr>\<rparr>"

lemma items_cx_laws: "views_law items_cx" "items_driven items_cx"
  unfolding items_cx_def by (rule closed_views_law) (auto simp: items_driven_def iter_view_of_def iter_closed_def)

interpretation iter_nodes: list_nodes "ic_views items_cx" "view_owns items_cx" view_framed
  by (rule view_nodes [OF items_cx_laws])



definition view_good :: "nat \<Rightarrow> 'v list \<Rightarrow> ('v list, 'v) iter_world \<Rightarrow> bool" where
  "view_good s xs w \<longleftrightarrow> s + length xs + 1 < usize_bound \<and> (\<exists>V f. s \<in># V \<and> f s = xs \<and> views_hold V f w)"

lemma view_contract:
  fixes R :: "('v list, 'v) iter_cx"
  assumes law: "views_law R" and driven: "items_driven R"
  shows "list_contract (iter_list_value R s) (view_good s xs) xs"
proof
  fix w :: "('v list, 'v) iter_world" assume "view_good s xs w"
  then obtain V f where v: "s \<in># V" "f s = xs" "views_hold V f w" "s + length (f s) + 1 < usize_bound"
    by (auto simp: view_good_def)
  note c = iter_contract [where f = f and s = s, OF law driven v(1,4)]
  note walks = list_contract.axioms(1) [OF c]
  have good: "view_good s xs u" if "views_hold V f u" for u using that v by (auto simp: view_good_def)
  show "\<exists>w'. lv_is_empty (iter_list_value R s) w = (w', Ok (xs = [])) \<and> view_good s xs w'"
    using list_walks.list_is_empty [OF walks v(3)] v(2) good by auto
  show "\<exists>w'. lv_car (iter_list_value R s) w = (w', Ok (nth_opt xs 0)) \<and> view_good s xs w'"
    using list_walks.list_car [OF walks v(3)] v(2) good by auto
  show "\<exists>w' r. lv_len (iter_list_value R s) w = (w', Ok r) \<and> (r = Known (length xs) \<or> r = Unknown) \<and> view_good s xs w'"
    using list_walks.list_len [OF walks v(3)] v(2) good by auto
  show "\<exists>w'. lv_len_cmp (iter_list_value R s) n w = (w', Ok (nat_cmp (length xs) n)) \<and> view_good s xs w'" for n
    using list_contract.list_len_cmp [OF c v(3)] v(2) good by auto
  show "\<exists>w'. lv_get (iter_list_value R s) i w = (w', Ok (nth_opt xs i)) \<and> view_good s xs w'" for i
    using list_walks.list_get [OF walks v(3)] v(2) good by auto
  show "\<exists>w'. lv_for_each (iter_list_value R s) limit (w, t) = Some ((w', t @ upto_limit limit xs), Ok ()) \<and> view_good s xs w'" for limit t
    using list_walks.list_for_each [OF walks v(3), of limit t] v(2) good by auto
qed

interpretation iter_vec: list_contract "iter_list_value items_cx s" "view_good s xs" xs for s xs
  by (rule view_contract [OF items_cx_laws])

lemma new_list_holds: "views_hold {#0#} (\<lambda>_. items) (iter_new_list items)"
  using iter_inv_new(1) [of items]
  by (simp add: views_hold_def iter_new_list_def iter_new_def view_register_def iter_state_new_def iter_rest_def Let_def)

section \<open>Witnesses\<close>

definition two_items :: "(nat iter_value list, nat iter_value) iter_world" where
  "two_items = iter_new_list [IterItem 7, IterItem 8]"

lemma two_items_reach: "iter_reachable items_cx ({#0#}, two_items)"
  unfolding two_items_def iter_new_list_def by (rule reach_new)

lemma two_items_holds: "views_hold {#0#} (\<lambda>_. [IterItem 7, IterItem 8]) two_items"
  unfolding two_items_def by (rule new_list_holds)

lemma two_items_cdr:
  "\<exists>w v. iter_cdr items_cx 0 two_items = (w, Ok (Some v)) \<and> views_hold {#1, 0#} (iter_rest w) w \<and> iter_rest w 1 = [IterItem 8]"
  using cdr_holds [OF items_cx_laws(2) two_items_holds, of 0 "IterItem 7" "[IterItem 8]"]
  by auto

theorem iter_views_invariant_witness:
  "\<exists>w v. iter_cdr items_cx 0 two_items = (w, Ok (Some v)) \<and> bget (it_live (iw_state (view_unregister 0 w))) 1 = Some 1 \<and>
     it_base (iw_state (view_unregister 0 w)) = 1"
proof -
  obtain w v where w: "iter_cdr items_cx 0 two_items = (w, Ok (Some v))" using two_items_cdr by blast
  have "iter_step items_cx ({#0#}, two_items) (add_mset (0 + 1) {#0#}, w)" by (rule step_cdr [OF _ w]) simp
  from reach_step [OF two_items_reach this] have "iter_reachable items_cx (add_mset 0 {#1#}, w)" by (simp add: add_mset_commute)
  from reach_step [OF this step_drop] have "iter_reachable items_cx ({#1#}, view_unregister 0 w)" .
  from iter_views_invariant [OF items_cx_laws(1) this] w show ?thesis by simp
qed

theorem iter_view_stable_witness:
  "\<exists>w1 w2 v. iter_car items_cx 0 two_items = (w1, Ok (Some (IterItem 7))) \<and> iter_cdr items_cx 0 w1 = (w2, Ok (Some v)) \<and>
     iter_car items_cx 0 w2 = (w2, Ok (Some (IterItem 7)))"
proof -
  obtain w1 where w1: "iter_car items_cx 0 two_items = (w1, Ok (Some (IterItem 7)))" "views_hold {#0#} (\<lambda>_. [IterItem 7, IterItem 8]) w1"
    using car_holds [OF items_cx_laws(2) two_items_holds, of 0] by auto
  obtain w2 v where w2: "iter_cdr items_cx 0 w1 = (w2, Ok (Some v))"
    using cdr_holds [OF items_cx_laws(2) w1(2), of 0 "IterItem 7" "[IterItem 8]"] by auto
  have "iter_step items_cx ({#0#}, w1) (add_mset (0 + 1) {#0#}, w2)" by (rule step_cdr [OF _ w2]) simp
  then have "(\<lambda>a b. iter_step items_cx a b \<and> 0 \<in># fst a \<and> 0 \<in># fst b)\<^sup>*\<^sup>* ({#0#}, w1) (add_mset (0 + 1) {#0#}, w2)" by auto
  from iter_view_stable [OF items_cx_laws(1) two_items_reach _ w1(1) this] have "iter_car items_cx 0 w2 = (w2, Ok (Some (IterItem 7)))"
    by simp
  then show ?thesis using w1(1) w2 by blast
qed


section \<open>An error ends a list over a list\<close>

text \<open>After an error of the list behind it, the cursor is gone, and the next call finds the end.\<close>

lemma cursor_error_lost: "cursor_next K cursor w = ((w', c), Err e) \<Longrightarrow> c = None"
  by (auto simp: cursor_next_def split: option.splits prod.splits res.splits)

lemma next_value_error:
  "next_value R w = (w', Err e) \<Longrightarrow> it_driver (iw_state w) = DriverList c \<Longrightarrow> it_driver (iw_state w') = DriverList None"
  using cursor_error_lost by (fastforce simp: next_value_def split: prod.splits)

lemma next_value_driver:
  "next_value R w = (w', r) \<Longrightarrow> it_driver (iw_state w) = DriverList c \<Longrightarrow> \<exists>c'. it_driver (iw_state w') = DriverList c'"
  by (auto simp: next_value_def split: prod.splits)

lemma fill_error:
  "fill_to R need w = (w', Err e) \<Longrightarrow> it_driver (iw_state w) = DriverList c \<Longrightarrow>
     it_driver (iw_state w') = DriverList None \<and> iter_filled (iw_state w') < need \<and> \<not> it_done (iw_state w')"
proof (induction R need w arbitrary: c rule: fill_to.induct)
  case (1 R need w)
  have more: "iter_filled (iw_state w) < need \<and> \<not> it_done (iw_state w)"
    using "1.prems"(1) by (subst (asm) fill_to.simps) (auto split: if_splits)
  obtain u q where u: "next_value R w = (u, q)" by (cases "next_value R w")
  obtain c' where c': "it_driver (iw_state u) = DriverList c'" using next_value_driver [OF u "1.prems"(2)] by blast
  show ?case
  proof (cases q)
    case (Ok y)
    show ?thesis
    proof (cases y)
      case None
      then have "fill_to R need (mark_done u) = (w', Err e)" using "1.prems"(1) more u Ok by (subst (asm) fill_to.simps) simp
      then show ?thesis using fill_to_done [of "mark_done u" need R] by (simp add: mark_done_def)
    next
      case (Some x)
      have "fill_to R need (push_item x u) = (w', Err e)" using "1.prems"(1) more u Ok Some by (subst (asm) fill_to.simps) simp
      from "1.IH"(2) [OF more u [symmetric] Ok Some this, of c'] c' show ?thesis by (simp add: push_item_def)
    qed
  qed (use "1.prems" more u next_value_error [of R w u e c] next_value_keeps [OF u] in \<open>subst (asm) fill_to.simps, auto simp: iter_filled_def\<close>)+
qed

text \<open>An error of \<open>car\<close> on a list put before another one turns into the end of the list at the next call.\<close>

lemma error_then_end:
  assumes "it_driver (iw_state w) = DriverList c" and "iter_car R s w = (w', Err e)"
  shows "\<exists>u. iter_car R s w' = (u, Ok None)"
proof -
  have "fill_to R (s + 1) w = (w', Err e)"
    using assms(2) by (cases "fill_to R (s + 1) w"; cases "snd (fill_to R (s + 1) w)")
      (auto simp: iter_car_def op_bind_def op_simps Let_def split: if_splits)
  from fill_error [OF this assms(1)] have w': "it_driver (iw_state w') = DriverList None" "iter_filled (iw_state w') < s + 1"
      "\<not> it_done (iw_state w')" by blast+
  let ?u = "w'\<lparr>iw_state := (iw_state w')\<lparr>it_driver := DriverList None\<rparr>\<rparr>"
  have "fill_to R (s + 1) w' = fill_to R (s + 1) (mark_done ?u)"
    using w' by (subst fill_to.simps) (simp add: next_value_def cursor_next_def)
  also have "\<dots> = (mark_done ?u, Ok (iter_filled (iw_state (mark_done ?u))))" by (rule fill_to_done) (simp add: mark_done_def)
  finally have "fill_to R (s + 1) w' = (mark_done ?u, Ok (iter_filled (iw_state w')))" by (simp add: mark_done_def iter_filled_def)
  then show ?thesis using w'(2) by (simp add: iter_car_def op_bind_def op_simps)
qed

end
