(* ===== verification/List_Lazy.thy ===== *)
theory List_Lazy
  imports List_Iface
begin

text \<open>
  The lazy cons list, \<open>crates/sim-list-lazy/src/lazy.rs\<close> and its backend in \<open>backend.rs\<close>: nodes whose head
  and tail are closures, forced on first use and remembered, errors included. A node is its place in the
  world's heap, where the shared nodes live; a closure is the code that makes it, with what it captures,
  and \<open>Closure\<close> is one given from outside. What those do, the step of \<open>unfold\<close>, the factory and the
  kernel's comparison of lengths are parameters, and may call any list. A closure that comes back to its
  own cell has no result (the standard library leaves open whether it hangs or panics): a panic here.
  Released nodes stay in the heap, where nothing sees them.
\<close>

section \<open>Nodes\<close>

datatype ('v, 's, 'c) thunk = Given 'v | Chain "'v list" nat | Unfold 's | Closure 'c

record ('v, 's, 'c) lcons_node =
  ln_empty :: bool
  ln_head_fn :: "('v, 's, 'c) thunk option"
  ln_tail_fn :: "('v, 's, 'c) thunk option"
  ln_head_cache :: "(table_error, 'v) res option"
  ln_tail_cache :: "(table_error, 'v option) res option"

record ('w, 'v, 's, 'c) lcons_world =
  lw_base :: 'w
  lw_nodes :: "('v, 's, 'c) lcons_node list"

record ('w, 'v, 's, 'c) lcons_cx =
  lc_step :: "'s \<Rightarrow> (('w, 'v, 's, 'c) lcons_world, table_error, 'v \<times> 's) op"
  lc_head :: "'c \<Rightarrow> (('w, 'v, 's, 'c) lcons_world, table_error, 'v) op"
  lc_tail :: "'c \<Rightarrow> (('w, 'v, 's, 'c) lcons_world, table_error, 'v option) op"
  lc_opaque :: "nat \<Rightarrow> (table_error, 'v) res"
  lc_views :: "(('w, 'v, 's, 'c) lcons_world, 'v) list_kernel"
  lc_len_cmp :: "nat \<Rightarrow> nat \<Rightarrow> (('w, 'v, 's, 'c) lcons_world, table_error, ordering) op"

definition lcons_empty :: "('v, 's, 'c) lcons_node" where
  "lcons_empty = \<lparr>ln_empty = True, ln_head_fn = None, ln_tail_fn = None, ln_head_cache = None, ln_tail_cache = None\<rparr>"

definition lcons_cell :: "('v, 's, 'c) thunk \<Rightarrow> ('v, 's, 'c) thunk \<Rightarrow> ('v, 's, 'c) lcons_node" where
  "lcons_cell head_fn tail_fn =
     \<lparr>ln_empty = False, ln_head_fn = Some head_fn, ln_tail_fn = Some tail_fn, ln_head_cache = None, ln_tail_cache = None\<rparr>"

text \<open>A clone shares the closures and takes over what was forced so far.\<close>

definition lcons_clone :: "('v, 's, 'c) lcons_node \<Rightarrow> ('v, 's, 'c) lcons_node" where
  "lcons_clone node =
     (let head_cache = (case ln_head_cache node of Some r \<Rightarrow> Some r | None \<Rightarrow> None);
          tail_cache = (case ln_tail_cache node of Some r \<Rightarrow> Some r | None \<Rightarrow> None) in
      \<lparr>ln_empty = ln_empty node, ln_head_fn = ln_head_fn node, ln_tail_fn = ln_tail_fn node,
       ln_head_cache = head_cache, ln_tail_cache = tail_cache\<rparr>)"

text \<open>The factory takes a new node.\<close>

definition lcons_opaque :: "('w, 'v, 's, 'c) lcons_cx \<Rightarrow> ('v, 's, 'c) lcons_node \<Rightarrow> (('w, 'v, 's, 'c) lcons_world, table_error, 'v) op" where
  "lcons_opaque R node w =
     (case lc_opaque R (length (lw_nodes w)) of
        Ok v \<Rightarrow> (w\<lparr>lw_nodes := lw_nodes w @ [node]\<rparr>, Ok v)
      | Err e \<Rightarrow> (w, Err e)
      | Panic p \<Rightarrow> (w, Panic p))"

definition chain_from :: "'v list \<Rightarrow> nat \<Rightarrow> ('v, 's, 'c) lcons_node" where
  "chain_from items i = (if i \<ge> length items then lcons_empty else lcons_cell (Chain items i) (Chain items i))"

definition finite_chain :: "'v list \<Rightarrow> ('v, 's, 'c) lcons_node" where
  "finite_chain items = chain_from items 0"

definition lcons_unfold :: "'s \<Rightarrow> ('v, 's, 'c) lcons_node" where
  "lcons_unfold seed = lcons_cell (Unfold seed) (Unfold seed)"

section \<open>Forcing\<close>

text \<open>What the closures of heads and of tails do.\<close>

fun run_head :: "('w, 'v, 's, 'c) lcons_cx \<Rightarrow> ('v, 's, 'c) thunk \<Rightarrow> (('w, 'v, 's, 'c) lcons_world, table_error, 'v) op" where
  "run_head R (Given v) = op_return v"
| "run_head R (Chain items i) = op_res (if i < length items then Ok (items ! i) else Panic ''index out of bounds'')"
| "run_head R (Unfold seed) = op_bind (lc_step R seed) (\<lambda>(item, _). op_return item)"
| "run_head R (Closure c) = lc_head R c"

fun run_tail :: "('w, 'v, 's, 'c) lcons_cx \<Rightarrow> ('v, 's, 'c) thunk \<Rightarrow> (('w, 'v, 's, 'c) lcons_world, table_error, 'v option) op" where
  "run_tail R (Given v) = op_return (Some v)"
| "run_tail R (Chain items i) =
     (let i' = i + 1 in
      if i' \<ge> length items then op_return None
      else op_bind (lcons_opaque R (chain_from items i')) (\<lambda>v. op_return (Some v)))"
| "run_tail R (Unfold seed) =
     op_bind (lc_step R seed) (\<lambda>(_, seed').
       op_bind (lcons_opaque R (lcons_unfold seed')) (\<lambda>v. op_return (Some v)))"
| "run_tail R (Closure c) = lc_tail R c"

definition set_head :: "nat \<Rightarrow> (table_error, 'v) res \<Rightarrow> ('w, 'v, 's, 'c) lcons_world \<Rightarrow> ('w, 'v, 's, 'c) lcons_world" where
  "set_head n r w = w\<lparr>lw_nodes := (lw_nodes w)[n := (lw_nodes w ! n)\<lparr>ln_head_cache := Some r\<rparr>]\<rparr>"

definition set_tail :: "nat \<Rightarrow> (table_error, 'v option) res \<Rightarrow> ('w, 'v, 's, 'c) lcons_world \<Rightarrow> ('w, 'v, 's, 'c) lcons_world" where
  "set_tail n r w = w\<lparr>lw_nodes := (lw_nodes w)[n := (lw_nodes w ! n)\<lparr>ln_tail_cache := Some r\<rparr>]\<rparr>"

text \<open>A cell that is set once: a panic leaves it unset.\<close>

definition once ::
    "('w \<Rightarrow> (table_error, 'a) res option) \<Rightarrow> ((table_error, 'a) res \<Rightarrow> 'w \<Rightarrow> 'w) \<Rightarrow> ('w, table_error, 'a) op \<Rightarrow> ('w, table_error, 'a) op" where
  "once cell put f w =
     (case cell w of
        Some r \<Rightarrow> (w, r)
      | None \<Rightarrow>
          (case f w of
             (w', Panic p) \<Rightarrow> (w', Panic p)
           | (w', r) \<Rightarrow> if cell w' = None then (put r w', r) else (w', Panic ''reentrant initialization'')))"

definition cached_head :: "('w, 'v, 's, 'c) lcons_cx \<Rightarrow> nat \<Rightarrow> (('w, 'v, 's, 'c) lcons_world, table_error, 'v) op" where
  "cached_head R n w =
     (case ln_head_fn (lw_nodes w ! n) of
        None \<Rightarrow> (w, Err (Eval ''lazy list head missing''))
      | Some f \<Rightarrow> once (\<lambda>w. ln_head_cache (lw_nodes w ! n)) (set_head n) (run_head R f) w)"

definition cached_tail :: "('w, 'v, 's, 'c) lcons_cx \<Rightarrow> nat \<Rightarrow> (('w, 'v, 's, 'c) lcons_world, table_error, 'v option) op" where
  "cached_tail R n w =
     (case ln_tail_fn (lw_nodes w ! n) of
        None \<Rightarrow> (w, Err (Eval ''lazy list tail missing''))
      | Some f \<Rightarrow> once (\<lambda>w. ln_tail_cache (lw_nodes w ! n)) (set_tail n) (run_tail R f) w)"

section \<open>The list value of a node\<close>

definition lcons_is_empty :: "nat \<Rightarrow> (('w, 'v, 's, 'c) lcons_world, table_error, bool) op" where
  "lcons_is_empty n = op_read (\<lambda>w. Ok (ln_empty (lw_nodes w ! n)))"

definition lcons_truth :: "nat \<Rightarrow> (('w, 'v, 's, 'c) lcons_world, table_error, bool) op" where
  "lcons_truth n = op_read (\<lambda>w. Ok (\<not> ln_empty (lw_nodes w ! n)))"

definition lcons_car :: "('w, 'v, 's, 'c) lcons_cx \<Rightarrow> nat \<Rightarrow> (('w, 'v, 's, 'c) lcons_world, table_error, 'v option) op" where
  "lcons_car R n w =
     (if ln_empty (lw_nodes w ! n) then (w, Ok None)
      else op_bind (cached_head R n) (\<lambda>v. op_return (Some v)) w)"

definition lcons_cdr :: "('w, 'v, 's, 'c) lcons_cx \<Rightarrow> nat \<Rightarrow> (('w, 'v, 's, 'c) lcons_world, table_error, 'v option) op" where
  "lcons_cdr R n w = (if ln_empty (lw_nodes w ! n) then (w, Ok None) else cached_tail R n w)"

definition lcons_len :: "(('w, 'v, 's, 'c) lcons_world, table_error, length_result) op" where
  "lcons_len = op_return Unknown"

definition lcons_get :: "('w, 'v, 's, 'c) lcons_cx \<Rightarrow> nat \<Rightarrow> nat \<Rightarrow> (('w, 'v, 's, 'c) lcons_world, table_error, 'v option) op" where
  "lcons_get R n = spine_get (lc_views R) (lcons_car R n) (lcons_cdr R n)"

definition lcons_for_each :: "('w, 'v, 's, 'c) lcons_cx \<Rightarrow> nat \<Rightarrow> nat option \<Rightarrow> (('w, 'v, 's, 'c) lcons_world, 'v) walk" where
  "lcons_for_each R n = spine_for_each (lc_views R) (lcons_car R n) (lcons_cdr R n)"

definition lcons_list_value :: "('w, 'v, 's, 'c) lcons_cx \<Rightarrow> nat \<Rightarrow> (('w, 'v, 's, 'c) lcons_world, 'v) list_value" where
  "lcons_list_value R n =
     \<lparr>lv_is_empty = lcons_is_empty n, lv_car = lcons_car R n, lv_cdr = lcons_cdr R n, lv_len = lcons_len,
      lv_len_cmp = lc_len_cmp R n, lv_get = lcons_get R n, lv_for_each = lcons_for_each R n\<rparr>"

text \<open>The backend.\<close>

definition lcons_new_list :: "('w, 'v, 's, 'c) lcons_cx \<Rightarrow> 'v list \<Rightarrow> (('w, 'v, 's, 'c) lcons_world, table_error, 'v) op" where
  "lcons_new_list R items = lcons_opaque R (finite_chain items)"

definition lcons_new_cons :: "('w, 'v, 's, 'c) lcons_cx \<Rightarrow> 'v \<Rightarrow> 'v \<Rightarrow> (('w, 'v, 's, 'c) lcons_world, table_error, 'v) op" where
  "lcons_new_cons R car cdr =
     op_bind (op_res (ensure_list_tail (lc_views R) cdr)) (\<lambda>_. lcons_opaque R (lcons_cell (Given car) (Given cdr)))"

section \<open>Forced at most once\<close>

text \<open>Nodes stay what they are, and what was forced stays forced.\<close>

definition node_le :: "('v, 's, 'c) lcons_node \<Rightarrow> ('v, 's, 'c) lcons_node \<Rightarrow> bool" where
  "node_le a b \<longleftrightarrow> ln_empty b = ln_empty a \<and> ln_head_fn b = ln_head_fn a \<and> ln_tail_fn b = ln_tail_fn a \<and>
     (ln_head_cache a \<noteq> None \<longrightarrow> ln_head_cache b = ln_head_cache a) \<and>
     (ln_tail_cache a \<noteq> None \<longrightarrow> ln_tail_cache b = ln_tail_cache a)"

definition lcons_le :: "('w, 'v, 's, 'c) lcons_world \<Rightarrow> ('w, 'v, 's, 'c) lcons_world \<Rightarrow> bool" where
  "lcons_le w w' \<longleftrightarrow> length (lw_nodes w) \<le> length (lw_nodes w') \<and>
     (\<forall>n. n < length (lw_nodes w) \<longrightarrow> node_le (lw_nodes w ! n) (lw_nodes w' ! n))"

lemma node_le_refl [simp]: "node_le a a"
  by (simp add: node_le_def)

lemma node_le_trans: "node_le a b \<Longrightarrow> node_le b c \<Longrightarrow> node_le a c"
  unfolding node_le_def by metis

lemma lcons_le_refl [simp]: "lcons_le w w"
  by (simp add: lcons_le_def)

lemma lcons_le_trans: "lcons_le u v \<Longrightarrow> lcons_le v w \<Longrightarrow> lcons_le u w"
  unfolding lcons_le_def using node_le_trans by (meson order_less_le_trans order_trans)

lemma lcons_le_order: "reflp lcons_le" "transp lcons_le"
  using lcons_le_trans by (auto intro: reflpI transpI)

lemma lcons_leD: "lcons_le w w' \<Longrightarrow> n < length (lw_nodes w) \<Longrightarrow> node_le (lw_nodes w ! n) (lw_nodes w' ! n)"
  by (simp add: lcons_le_def)

text \<open>What runs outside does not take anything back: it reaches the nodes only through their operations.\<close>

definition outside_law :: "('w, 'v, 's, 'c) lcons_cx \<Rightarrow> bool" where
  "outside_law R \<longleftrightarrow>
     (\<forall>s. op_keeps lcons_le (lc_step R s)) \<and> (\<forall>c. op_keeps lcons_le (lc_head R c)) \<and> (\<forall>c. op_keeps lcons_le (lc_tail R c)) \<and>
     (\<forall>n k. op_keeps lcons_le (lc_len_cmp R n k)) \<and>
     (\<forall>v w. lcons_le w (lk_drop (lc_views R) v w)) \<and>
     (\<forall>v l. lk_as_list (lc_views R) v = Some l \<longrightarrow>
        op_keeps lcons_le (lv_is_empty l) \<and> op_keeps lcons_le (lv_car l) \<and> op_keeps lcons_le (lv_cdr l))"

lemma opaque_keeps: "op_keeps lcons_le (lcons_opaque R node)"
  by (auto simp: op_keeps_def lcons_opaque_def lcons_le_def nth_append split: res.split)

lemma run_keeps:
  assumes "outside_law R"
  shows "op_keeps lcons_le (run_head R f)" and "op_keeps lcons_le (run_tail R f)"
  using assms opaque_keeps
  by (cases f; auto simp: outside_law_def Let_def intro!: op_keeps_pure op_keeps_bind lcons_le_order op_keeps_cases)+

lemma set_le:
  "ln_head_cache (lw_nodes w ! n) = None \<Longrightarrow> lcons_le w (set_head n r w)"
  "ln_tail_cache (lw_nodes w ! n) = None \<Longrightarrow> lcons_le w (set_tail n q w)"
  by (cases "n < length (lw_nodes w)"; simp add: lcons_le_def set_head_def set_tail_def nth_list_update node_le_def)+

lemma once_keeps:
  assumes "op_keeps lcons_le f" and "\<And>w r. cell w = None \<Longrightarrow> lcons_le w (put r w)"
  shows "op_keeps lcons_le (once cell put f)"
  unfolding op_keeps_def
proof
  fix w
  obtain u q where u: "f w = (u, q)" by (cases "f w")
  then have "lcons_le w u" by (rule op_keepsD [OF assms(1)])
  then show "lcons_le w (fst (once cell put f w))"
    using u assms(2) [of u] lcons_le_trans by (auto simp: once_def split: option.split res.split)
qed

lemma force_keeps:
  assumes "outside_law R"
  shows "op_keeps lcons_le (cached_head R n)" and "op_keeps lcons_le (cached_tail R n)"
proof -
  have head: "op_keeps lcons_le (once (\<lambda>w. ln_head_cache (lw_nodes w ! n)) (set_head n) (run_head R f))" for f
    by (rule once_keeps [OF run_keeps(1) [OF assms]]) (simp add: set_le)
  have tail: "op_keeps lcons_le (once (\<lambda>w. ln_tail_cache (lw_nodes w ! n)) (set_tail n) (run_tail R f))" for f
    by (rule once_keeps [OF run_keeps(2) [OF assms]]) (simp add: set_le)
  show "op_keeps lcons_le (cached_head R n)" "op_keeps lcons_le (cached_tail R n)"
    using head tail by (simp_all add: op_keeps_def cached_head_def cached_tail_def split: option.split)
qed

lemma car_cdr_keep:
  assumes "outside_law R"
  shows "op_keeps lcons_le (lcons_car R n)" and "op_keeps lcons_le (lcons_cdr R n)"
proof -
  have "op_keeps lcons_le (op_bind (cached_head R n) (\<lambda>v. op_return (Some v)))"
    using force_keeps(1) [OF assms] by (intro op_keeps_bind op_keeps_pure lcons_le_order)
  then show "op_keeps lcons_le (lcons_car R n)" "op_keeps lcons_le (lcons_cdr R n)"
    using force_keeps(2) [OF assms, of n] by (simp_all add: op_keeps_def lcons_car_def lcons_cdr_def)
qed


lemma once_sets:
  assumes run: "once cell put f w = (w1, r)" and "\<nexists>p. r = Panic p" and keeps: "op_keeps lcons_le f"
    and put: "\<And>u q. lcons_le w u \<Longrightarrow> cell (put q u) = Some q"
  shows "cell w1 = Some r"
proof -
  obtain u q where u: "f w = (u, q)" by (cases "f w")
  then have "lcons_le w u" by (rule op_keepsD [OF keeps])
  then show ?thesis using run assms(2) u put by (auto simp: once_def split: option.splits res.splits if_splits)
qed

lemma set_cell:
  "n < length (lw_nodes w) \<Longrightarrow> lcons_le w u \<Longrightarrow> ln_head_cache (lw_nodes (set_head n q u) ! n) = Some q"
  "n < length (lw_nodes w) \<Longrightarrow> lcons_le w u \<Longrightarrow> ln_tail_cache (lw_nodes (set_tail n t u) ! n) = Some t"
  by (simp_all add: set_head_def set_tail_def lcons_le_def)

lemma head_forced:
  assumes law: "outside_law R" and n: "n < length (lw_nodes w)" and run: "cached_head R n w = (w1, r)" and r: "\<nexists>p. r = Panic p"
    and le: "lcons_le w1 w2"
  shows "cached_head R n w2 = (w2, r)"
proof -
  have w1: "lcons_le w w1" using op_keepsD [OF force_keeps(1) [OF law] run] .
  then have n1: "n < length (lw_nodes w1)" using n by (simp add: lcons_le_def)
  note same = lcons_leD [OF w1 n] lcons_leD [OF le n1]
  show ?thesis
  proof (cases "ln_head_fn (lw_nodes w ! n)")
    case None
    then show ?thesis using run same by (simp add: cached_head_def node_le_def)
  next
    case (Some f)
    then have "once (\<lambda>w. ln_head_cache (lw_nodes w ! n)) (set_head n) (run_head R f) w = (w1, r)" using run by (simp add: cached_head_def)
    from once_sets [OF this r run_keeps(1) [OF law] set_cell(1) [OF n]] show ?thesis
      using Some same by (simp add: cached_head_def node_le_def once_def)
  qed
qed

lemma tail_forced:
  assumes law: "outside_law R" and n: "n < length (lw_nodes w)" and run: "cached_tail R n w = (w1, r)" and r: "\<nexists>p. r = Panic p"
    and le: "lcons_le w1 w2"
  shows "cached_tail R n w2 = (w2, r)"
proof -
  have w1: "lcons_le w w1" using op_keepsD [OF force_keeps(2) [OF law] run] .
  then have n1: "n < length (lw_nodes w1)" using n by (simp add: lcons_le_def)
  note same = lcons_leD [OF w1 n] lcons_leD [OF le n1]
  show ?thesis
  proof (cases "ln_tail_fn (lw_nodes w ! n)")
    case None
    then show ?thesis using run same by (simp add: cached_tail_def node_le_def)
  next
    case (Some f)
    then have "once (\<lambda>w. ln_tail_cache (lw_nodes w ! n)) (set_tail n) (run_tail R f) w = (w1, r)" using run by (simp add: cached_tail_def)
    from once_sets [OF this r run_keeps(2) [OF law] set_cell(2) [OF n]] show ?thesis
      using Some same by (simp add: cached_tail_def node_le_def once_def)
  qed
qed

lemma car_forced:
  assumes law: "outside_law R" and n: "n < length (lw_nodes w)" and run: "lcons_car R n w = (w1, r)" and r: "\<nexists>p. r = Panic p"
    and le: "lcons_le w1 w2"
  shows "lcons_car R n w2 = (w2, r)"
proof -
  have w1: "lcons_le w w1" using op_keepsD [OF car_cdr_keep(1) [OF law] run] .
  then have "n < length (lw_nodes w1)" using n by (simp add: lcons_le_def)
  then have e: "ln_empty (lw_nodes w2 ! n) = ln_empty (lw_nodes w ! n)"
    using lcons_leD [OF w1 n] lcons_leD [OF le] by (simp add: node_le_def)
  show ?thesis
  proof (cases "ln_empty (lw_nodes w ! n)")
    case True
    then show ?thesis using run e by (simp add: lcons_car_def)
  next
    case False
    then obtain q where q: "cached_head R n w = (w1, q)"
      using run by (cases "cached_head R n w"; cases "snd (cached_head R n w)") (auto simp: lcons_car_def op_bind_def op_simps)
    then have "\<nexists>p. q = Panic p" using run r False by (auto simp: lcons_car_def op_bind_def)
    from head_forced [OF law n q this le] show ?thesis
      using run q False e by (cases q) (auto simp: lcons_car_def op_bind_def op_simps)
  qed
qed

lemma cdr_forced:
  assumes law: "outside_law R" and n: "n < length (lw_nodes w)" and run: "lcons_cdr R n w = (w1, r)" and r: "\<nexists>p. r = Panic p"
    and le: "lcons_le w1 w2"
  shows "lcons_cdr R n w2 = (w2, r)"
proof -
  have w1: "lcons_le w w1" using op_keepsD [OF car_cdr_keep(2) [OF law] run] .
  then have "n < length (lw_nodes w1)" using n by (simp add: lcons_le_def)
  then have e: "ln_empty (lw_nodes w2 ! n) = ln_empty (lw_nodes w ! n)"
    using lcons_leD [OF w1 n] lcons_leD [OF le] by (simp add: node_le_def)
  then show ?thesis using tail_forced [OF law n _ r le] run by (auto simp: lcons_cdr_def split: if_splits)
qed

section \<open>Every history\<close>

inductive lcons_step ::
    "('w, 'v, 's, 'c) lcons_cx \<Rightarrow> ('w, 'v, 's, 'c) lcons_world \<Rightarrow> ('w, 'v, 's, 'c) lcons_world \<Rightarrow> bool" for R :: "('w, 'v, 's, 'c) lcons_cx" where
  lcons_step_car: "lcons_car R n w = (w', r) \<Longrightarrow> lcons_step R w w'"
| lcons_step_cdr: "lcons_cdr R n w = (w', r) \<Longrightarrow> lcons_step R w w'"
| lcons_step_len_cmp: "lc_len_cmp R n k w = (w', r) \<Longrightarrow> lcons_step R w w'"
| lcons_step_get: "lcons_get R n i w = (w', r) \<Longrightarrow> lcons_step R w w'"
| lcons_step_for_each: "lcons_for_each R n limit (w, t) = Some ((w', t'), r) \<Longrightarrow> lcons_step R w w'"
| lcons_step_new: "lcons_opaque R node w = (w', r) \<Longrightarrow> lcons_step R w w'"
| lcons_step_clone: "lcons_opaque R (lcons_clone (lw_nodes w ! n)) w = (w', r) \<Longrightarrow> lcons_step R w w'"

lemma releasing_keeps:
  assumes "outside_law R" and "op_keeps lcons_le m"
  shows "op_keeps lcons_le (releasing (lc_views R) x m)"
  unfolding op_keeps_def
proof
  fix w
  obtain u r where u: "m w = (u, r)" by (cases "m w")
  then have "lcons_le w u" by (rule op_keepsD [OF assms(2)])
  then show "lcons_le w (fst (releasing (lc_views R) x m w))"
    using assms(1) u lcons_le_trans [of w u] by (auto simp: releasing_def drop_opt_def outside_law_def split: option.split)
qed

lemma next_node_keeps:
  assumes "outside_law R"
  shows "op_keeps lcons_le (next_node (lc_views R) tail)"
  unfolding next_node_def
proof (rule releasing_keeps [OF assms], cases "Option.bind tail (lk_as_list (lc_views R))")
  case None
  then show "op_keeps lcons_le (case Option.bind tail (lk_as_list (lc_views R)) of None \<Rightarrow> op_return None
      | Some l \<Rightarrow> op_bind (lv_is_empty l) (\<lambda>e. if e then op_return None
          else op_bind (lv_car l) (\<lambda>head. op_bind (lv_cdr l) (\<lambda>tail. op_return (Some (head, tail))))))"
    by (simp add: op_keeps_pure lcons_le_order)
next
  case (Some l)
  then have "op_keeps lcons_le (lv_is_empty l)" "op_keeps lcons_le (lv_car l)" "op_keeps lcons_le (lv_cdr l)"
    using assms by (auto simp: outside_law_def bind_eq_Some_conv)
  then show "op_keeps lcons_le (case Option.bind tail (lk_as_list (lc_views R)) of None \<Rightarrow> op_return None
      | Some l \<Rightarrow> op_bind (lv_is_empty l) (\<lambda>e. if e then op_return None
          else op_bind (lv_car l) (\<lambda>head. op_bind (lv_cdr l) (\<lambda>tail. op_return (Some (head, tail))))))"
    unfolding Some option.simps by (intro op_keeps_bind op_keeps_pure op_keeps_cases lcons_le_order)
qed

lemma loops_grow:
  assumes law: "outside_law R"
  shows "lcons_le w (fst (spine_get_loop (lc_views R) i head tail w))"
    and "spine_walk (lc_views R) limit k head tail (w, t) = Some y \<Longrightarrow> lcons_le w (fst (fst y))"
proof -
  have step: "case r of Ok (Some (h, t)) \<Rightarrow> lcons_le w u' | _ \<Rightarrow> lcons_le w u'"
    if "lcons_le w u" "next_node (lc_views R) tail u = (u', r)" for tail u u' r
    using lcons_le_trans [OF that(1) op_keepsD [OF next_node_keeps [OF law] that(2)]] by (auto split: res.split option.split)
  have drop: "lcons_le w (drop_opt (lc_views R) tail u)" if "lcons_le w u" for tail u
    using law that lcons_le_trans [of w u] by (auto simp: outside_law_def drop_opt_def split: option.split)
  show "lcons_le w (fst (spine_get_loop (lc_views R) i head tail w))"
    by (rule get_loop_invariant [where I = "\<lambda>_. lcons_le w" and J = "lcons_le w", OF step drop]) simp_all
  show "lcons_le w (fst (fst y))" if "spine_walk (lc_views R) limit k head tail (w, t) = Some y"
    by (rule walk_invariant [where I = "\<lambda>_. lcons_le w" and J = "lcons_le w", OF step drop that]) simp_all
qed

lemma head_tail_keeps:
  assumes "outside_law R"
  shows "op_keeps lcons_le (op_bind (lcons_car R n) (\<lambda>head. op_bind (lcons_cdr R n) (\<lambda>tail. op_return (head, tail))))"
  using car_cdr_keep [OF assms] by (intro op_keeps_bind op_keeps_pure lcons_le_order)

lemma get_keeps: "outside_law R \<Longrightarrow> op_keeps lcons_le (lcons_get R n i)"
  unfolding lcons_get_def spine_get_def
  by (intro op_keeps_bind lcons_le_order car_cdr_keep; simp add: op_keeps_def loops_grow(1))

lemma for_each_grows:
  assumes law: "outside_law R" and run: "lcons_for_each R n limit (w, t) = Some ((w', t'), r)"
  shows "lcons_le w w'"
proof -
  obtain u q where q: "op_bind (lcons_car R n) (\<lambda>head. op_bind (lcons_cdr R n) (\<lambda>tail. op_return (head, tail))) w = (u, q)"
    by (cases "op_bind (lcons_car R n) (\<lambda>head. op_bind (lcons_cdr R n) (\<lambda>tail. op_return (head, tail))) w")
  have u: "lcons_le w u" using op_keepsD [OF head_tail_keeps [OF law] q] .
  show ?thesis
  proof (cases "limit = Some 0")
    case True
    then show ?thesis using run by (simp add: lcons_for_each_def spine_for_each_def)
  next
    case False
    then show ?thesis using run q u loops_grow(2) [OF law] lcons_le_trans [OF u]
      by (cases q) (fastforce simp: lcons_for_each_def spine_for_each_def)+
  qed
qed

lemma step_grows:
  assumes law: "outside_law R" and step: "lcons_step R w w'"
  shows "lcons_le w w'"
proof -
  have "op_keeps lcons_le (lc_len_cmp R n k)" for n k using law by (simp add: outside_law_def)
  from step op_keepsD [OF this] show ?thesis
    by cases
      (auto intro: op_keepsD [OF car_cdr_keep(1) [OF law]] op_keepsD [OF car_cdr_keep(2) [OF law]] op_keepsD [OF get_keeps [OF law]]
        op_keepsD [OF opaque_keeps] for_each_grows [OF law])
qed

lemma steps_grow:
  assumes law: "outside_law R"
  shows "(lcons_step R)\<^sup>*\<^sup>* w w' \<Longrightarrow> lcons_le w w'"
proof (induction rule: rtranclp_induct)
  case (step y z)
  then show ?case using lcons_le_trans step_grows [OF law] by blast
qed simp

text \<open>C38: The head and the tail of a node are forced at most once: the first answer, an element, the end or an error,
  is the answer of every later call, which changes nothing, whatever happened in between.\<close>

theorem lcons_forced_once:
  assumes "outside_law R" and "n < length (lw_nodes w)"
  shows "(\<forall>w1 r w2. lcons_car R n w = (w1, r) \<longrightarrow> (\<nexists>p. r = Panic p) \<longrightarrow> (lcons_step R)\<^sup>*\<^sup>* w1 w2 \<longrightarrow> lcons_car R n w2 = (w2, r)) \<and>
    (\<forall>w1 r w2. lcons_cdr R n w = (w1, r) \<longrightarrow> (\<nexists>p. r = Panic p) \<longrightarrow> (lcons_step R)\<^sup>*\<^sup>* w1 w2 \<longrightarrow> lcons_cdr R n w2 = (w2, r))"
  using car_forced [OF assms] cdr_forced [OF assms] steps_grow [OF assms(1)] by blast


section \<open>Chains of given items\<close>

definition lcons_views_law :: "('w, 'v, 's, 'c) lcons_cx \<Rightarrow> bool" where
  "lcons_views_law R \<longleftrightarrow>
     (\<forall>m. \<exists>v. lc_opaque R m = Ok v) \<and>
     (\<forall>m v. lc_opaque R m = Ok v \<longrightarrow> lk_drop (lc_views R) v = (\<lambda>w. w) \<and>
        (\<exists>l. lk_as_list (lc_views R) v = Some l \<and> lv_is_empty l = lcons_is_empty m \<and> lv_car l = lcons_car R m \<and> lv_cdr l = lcons_cdr R m))"

text \<open>A node that \<open>chain_from\<close> made, whatever was forced since, and what may be remembered in it.\<close>

definition chain_at :: "('w, 'v, 's, 'c) lcons_world \<Rightarrow> nat \<Rightarrow> 'v list \<Rightarrow> nat \<Rightarrow> bool" where
  "chain_at w n items i \<longleftrightarrow> n < length (lw_nodes w) \<and> node_le (chain_from items i) (lw_nodes w ! n)"

definition tail_at :: "('w, 'v, 's, 'c) lcons_cx \<Rightarrow> ('w, 'v, 's, 'c) lcons_world \<Rightarrow> 'v list \<Rightarrow> nat \<Rightarrow> 'v option \<Rightarrow> bool" where
  "tail_at R w items i tail \<longleftrightarrow>
     (if i \<ge> length items then tail = None else \<exists>m v. tail = Some v \<and> lc_opaque R m = Ok v \<and> chain_at w m items i)"

definition chains_ok :: "('w, 'v, 's, 'c) lcons_cx \<Rightarrow> ('w, 'v, 's, 'c) lcons_world \<Rightarrow> bool" where
  "chains_ok R w \<longleftrightarrow>
     (\<forall>n items i r. chain_at w n items i \<longrightarrow> i < length items \<longrightarrow> ln_head_cache (lw_nodes w ! n) = Some r \<longrightarrow> r = Ok (items ! i)) \<and>
     (\<forall>n items i r. chain_at w n items i \<longrightarrow> i < length items \<longrightarrow> ln_tail_cache (lw_nodes w ! n) = Some r \<longrightarrow>
        (\<exists>tail. r = Ok tail \<and> tail_at R w items (i + 1) tail))"

lemma chain_at_mono: "lcons_le w w' \<Longrightarrow> chain_at w n items i \<Longrightarrow> chain_at w' n items i"
  unfolding chain_at_def lcons_le_def using node_le_trans by (meson order_less_le_trans)

lemma tail_at_mono: "lcons_le w w' \<Longrightarrow> tail_at R w items i tail \<Longrightarrow> tail_at R w' items i tail"
  using chain_at_mono by (fastforce simp: tail_at_def)

lemma chain_atD:
  assumes "chain_at w n items i"
  shows "ln_empty (lw_nodes w ! n) \<longleftrightarrow> length items \<le> i"
    and "i < length items \<Longrightarrow> ln_head_fn (lw_nodes w ! n) = Some (Chain items i)"
    and "i < length items \<Longrightarrow> ln_tail_fn (lw_nodes w ! n) = Some (Chain items i)"
  using assms by (auto simp: chain_at_def chain_from_def node_le_def lcons_empty_def lcons_cell_def split: if_splits)

lemma chain_at_same:
  "chain_at w n items i \<Longrightarrow> i < length items \<Longrightarrow> chain_at w n items' i' \<Longrightarrow> i' < length items' \<Longrightarrow> items' = items \<and> i' = i"
  using chain_atD(2) [of w n items i] chain_atD(2) [of w n items' i'] by simp

lemma chain_at_set [simp]:
  "chain_at (set_head k r w) n items i \<longleftrightarrow> chain_at w n items i"
  "chain_at (set_tail k q w) n items i \<longleftrightarrow> chain_at w n items i"
  by (cases "k < length (lw_nodes w)";
    auto simp: chain_at_def set_head_def set_tail_def nth_list_update node_le_def chain_from_def lcons_empty_def lcons_cell_def)+

lemma tail_at_set [simp]:
  "tail_at R (set_head k r w) items i tail \<longleftrightarrow> tail_at R w items i tail"
  "tail_at R (set_tail k q w) items i tail \<longleftrightarrow> tail_at R w items i tail"
  by (simp_all add: tail_at_def)

lemma set_caches:
  "n < length (lw_nodes w) \<Longrightarrow> ln_head_cache (lw_nodes (set_head k r w) ! n) = (if k = n then Some r else ln_head_cache (lw_nodes w ! n))"
  "n < length (lw_nodes w) \<Longrightarrow> ln_tail_cache (lw_nodes (set_head k r w) ! n) = ln_tail_cache (lw_nodes w ! n)"
  "n < length (lw_nodes w) \<Longrightarrow> ln_tail_cache (lw_nodes (set_tail k q w) ! n) = (if k = n then Some q else ln_tail_cache (lw_nodes w ! n))"
  "n < length (lw_nodes w) \<Longrightarrow> ln_head_cache (lw_nodes (set_tail k q w) ! n) = ln_head_cache (lw_nodes w ! n)"
  by (cases "k = n"; simp add: set_head_def set_tail_def)+

lemma chain_at_bound: "chain_at w n items i \<Longrightarrow> n < length (lw_nodes w)"
  by (simp add: chain_at_def)

lemma chains_ok_set_head:
  assumes ok: "chains_ok R w" and at: "chain_at w k items i" "i < length items"
  shows "chains_ok R (set_head k (Ok (items ! i)) w)"
  unfolding chains_ok_def chain_at_set tail_at_set
proof (intro conjI allI impI)
  fix n items' i' r
  assume n: "chain_at w n items' i'" "i' < length items'"
  show "ln_head_cache (lw_nodes (set_head k (Ok (items ! i)) w) ! n) = Some r \<Longrightarrow> r = Ok (items' ! i')"
    using ok n chain_at_same [OF at] set_caches(1) [OF chain_at_bound [OF n(1)]] by (auto simp: chains_ok_def split: if_splits)
next
  fix n items' i' r
  assume n: "chain_at w n items' i'" "i' < length items'" and "ln_tail_cache (lw_nodes (set_head k (Ok (items ! i)) w) ! n) = Some r"
  then show "\<exists>tail. r = Ok tail \<and> tail_at R w items' (i' + 1) tail"
    using ok set_caches(2) [OF chain_at_bound [OF n(1)]] by (auto simp: chains_ok_def)
qed

lemma chains_ok_set_tail:
  assumes ok: "chains_ok R w" and at: "chain_at w k items i" "i < length items" and tail: "tail_at R w items (i + 1) tail"
  shows "chains_ok R (set_tail k (Ok tail) w)"
  unfolding chains_ok_def chain_at_set tail_at_set
proof (intro conjI allI impI)
  fix n items' i' r
  assume n: "chain_at w n items' i'" "i' < length items'" and "ln_head_cache (lw_nodes (set_tail k (Ok tail) w) ! n) = Some r"
  then show "r = Ok (items' ! i')"
    using ok set_caches(4) [OF chain_at_bound [OF n(1)]] by (auto simp: chains_ok_def)
next
  fix n items' i' r
  assume n: "chain_at w n items' i'" "i' < length items'" and "ln_tail_cache (lw_nodes (set_tail k (Ok tail) w) ! n) = Some r"
  then show "\<exists>tail. r = Ok tail \<and> tail_at R w items' (i' + 1) tail"
    using ok tail chain_at_same [OF at] set_caches(3) [OF chain_at_bound [OF n(1)]] by (auto simp: chains_ok_def split: if_splits)
qed

lemma chains_ok_new:
  assumes ok: "chains_ok R w" and fresh: "ln_head_cache node = None" "ln_tail_cache node = None"
  shows "chains_ok R (w\<lparr>lw_nodes := lw_nodes w @ [node]\<rparr>)"
proof -
  let ?w = "w\<lparr>lw_nodes := lw_nodes w @ [node]\<rparr>"
  have le: "lcons_le w ?w" by (simp add: lcons_le_def nth_append)
  have old: "chain_at w n items i \<or> lw_nodes ?w ! n = node" if "chain_at ?w n items i" for n items i
    using that by (auto simp: chain_at_def nth_append less_Suc_eq)
  have same: "lw_nodes ?w ! n = lw_nodes w ! n" if "chain_at w n items i" for n items i
    using that by (simp add: chain_at_def nth_append)
  show ?thesis
    unfolding chains_ok_def
  proof (intro conjI allI impI)
    fix n items i r
    assume n: "chain_at ?w n items i" "i < length items" and c: "ln_head_cache (lw_nodes ?w ! n) = Some r"
    from old [OF n(1)] c fresh have at: "chain_at w n items i" by auto
    then show "r = Ok (items ! i)" using ok c n(2) same [OF at] unfolding chains_ok_def by metis
  next
    fix n items i r
    assume n: "chain_at ?w n items i" "i < length items" and c: "ln_tail_cache (lw_nodes ?w ! n) = Some r"
    from old [OF n(1)] c fresh have at: "chain_at w n items i" by auto
    then have "\<exists>tail. r = Ok tail \<and> tail_at R w items (i + 1) tail" using ok c n(2) same [OF at] unfolding chains_ok_def by metis
    then show "\<exists>tail. r = Ok tail \<and> tail_at R ?w items (i + 1) tail" using tail_at_mono [OF le] by blast
  qed
qed

text \<open>Forcing a chain.\<close>

lemma chain_car:
  assumes ok: "chains_ok R w" and at: "chain_at w n items i"
  shows "\<exists>w'. lcons_car R n w = (w', Ok (nth_opt (drop i items) 0)) \<and> chains_ok R w' \<and> lcons_le w w'"
proof (cases "i < length items")
  case False
  then show ?thesis using ok chain_atD(1) [OF at] by (simp add: lcons_car_def)
next
  case True
  note d = chain_atD [OF at]
  have head: "nth_opt (drop i items) 0 = Some (items ! i)" using True by (simp add: nth_opt_def)
  show ?thesis
  proof (cases "ln_head_cache (lw_nodes w ! n)")
    case None
    then show ?thesis using d True head chains_ok_set_head [OF ok at True] set_le(1) [OF None]
      by (simp add: lcons_car_def cached_head_def once_def op_bind_def op_simps)
  next
    case (Some r)
    moreover from this have "r = Ok (items ! i)" using ok at True unfolding chains_ok_def by metis
    ultimately show ?thesis using d True head ok by (simp add: lcons_car_def cached_head_def once_def op_bind_def op_simps)
  qed
qed

lemma chain_cdr:
  assumes law: "lcons_views_law R" and ok: "chains_ok R w" and at: "chain_at w n items i" and i: "i < length items"
  shows "\<exists>w' tail. lcons_cdr R n w = (w', Ok tail) \<and> chains_ok R w' \<and> lcons_le w w' \<and> tail_at R w' items (i + 1) tail"
proof -
  note d = chain_atD [OF at]
  show ?thesis
  proof (cases "ln_tail_cache (lw_nodes w ! n)")
    case (Some r)
    moreover from this obtain tail where "r = Ok tail" "tail_at R w items (i + 1) tail" using ok at i unfolding chains_ok_def by metis
    ultimately show ?thesis using d i ok by (simp add: lcons_cdr_def cached_tail_def once_def)
  next
    case None
    show ?thesis
    proof (cases "i + 1 < length items")
      case False
      then have "tail_at R w items (i + 1) None" by (simp add: tail_at_def)
      then show ?thesis using d i False None chains_ok_set_tail [OF ok at i] set_le(2) [OF None]
        by (simp add: lcons_cdr_def cached_tail_def once_def op_simps)
    next
      case True
      let ?node = "chain_from items (i + 1)"
      let ?u = "w\<lparr>lw_nodes := lw_nodes w @ [?node]\<rparr>"
      obtain v where v: "lc_opaque R (length (lw_nodes w)) = Ok v" using law unfolding lcons_views_law_def by blast
      have n: "n < length (lw_nodes w)" using at by (simp add: chain_at_def)
      have le: "lcons_le w ?u" by (simp add: lcons_le_def nth_append)
      have u: "chains_ok R ?u"
        by (rule chains_ok_new [OF ok]) (simp_all add: chain_from_def lcons_empty_def lcons_cell_def)
      have "chain_at ?u (length (lw_nodes w)) items (i + 1)" by (simp add: chain_at_def)
      then have tail: "tail_at R ?u items (i + 1) (Some v)" using True v by (auto simp: tail_at_def)
      have none: "ln_tail_cache (lw_nodes ?u ! n) = None" using None n by (simp add: nth_append)
      have "lcons_cdr R n w = (set_tail n (Ok (Some v)) ?u, Ok (Some v))"
        using d i True v None none by (simp add: lcons_cdr_def cached_tail_def once_def op_simps op_bind_def lcons_opaque_def Let_def)
      then show ?thesis
        using chains_ok_set_tail [OF u chain_at_mono [OF le at] i tail] lcons_le_trans [OF le set_le(2) [OF none]] tail by auto
    qed
  qed
qed

section \<open>The loops over a chain\<close>

text \<open>From a world on, where everything stays forced, the loop holds the rest of a chain, or nothing.\<close>

definition chain_owns ::
    "('w, 'v, 's, 'c) lcons_cx \<Rightarrow> ('w, 'v, 's, 'c) lcons_world \<Rightarrow> 'v option \<Rightarrow> 'v list \<Rightarrow> ('w, 'v, 's, 'c) lcons_world \<Rightarrow> bool" where
  "chain_owns R start tail xs w \<longleftrightarrow>
     chains_ok R w \<and> lcons_le start w \<and> (\<exists>items i. drop i items = xs \<and> tail_at R w items i tail)"

definition chain_framed :: "('w, 'v, 's, 'c) lcons_cx \<Rightarrow> ('w, 'v, 's, 'c) lcons_world \<Rightarrow> ('w, 'v, 's, 'c) lcons_world \<Rightarrow> bool" where
  "chain_framed R start w \<longleftrightarrow> chains_ok R w \<and> lcons_le start w"

lemma lcons_views_lawD:
  assumes "lcons_views_law R" and "lc_opaque R m = Ok v"
  obtains l where "lk_as_list (lc_views R) v = Some l" "lv_is_empty l = lcons_is_empty m" "lv_car l = lcons_car R m"
    "lv_cdr l = lcons_cdr R m" "lk_drop (lc_views R) v = (\<lambda>w. w)"
  using assms unfolding lcons_views_law_def by blast

lemma chain_nodes:
  fixes R :: "('w, 'v, 's, 'c) lcons_cx"
  assumes law: "lcons_views_law R"
  shows "list_nodes (lc_views R) (chain_owns R) (chain_framed R)"
proof
  fix start w and tail :: "'v option" and xs
  assume owns: "chain_owns R start tail xs w"
  then have "drop_opt (lc_views R) tail w = w"
    using lcons_views_lawD [OF law] by (fastforce simp: chain_owns_def tail_at_def drop_opt_def split: if_splits)
  then show "chain_framed R start (drop_opt (lc_views R) tail w)" using owns by (simp add: chain_owns_def chain_framed_def)
next
  fix start w and tail :: "'v option"
  assume owns: "chain_owns R start tail [] w"
  then have "tail = None" by (auto simp: chain_owns_def tail_at_def)
  then show "\<exists>w'. next_node (lc_views R) tail w = (w', Ok None) \<and> chain_framed R start w'"
    using owns by (simp add: next_node_def releasing_def op_simps drop_opt_def chain_owns_def chain_framed_def)
next
  fix start w and tail :: "'v option" and x xs
  assume owns: "chain_owns R start tail (x # xs) w"
  then obtain items i where i: "chains_ok R w" "lcons_le start w" "drop i items = x # xs" "tail_at R w items i tail"
    by (auto simp: chain_owns_def)
  have less: "i < length items" using i(3) by (metis drop_all linorder_not_less list.distinct(1))
  then obtain m v where v: "tail = Some v" "lc_opaque R m = Ok v" "chain_at w m items i" using i(4) by (auto simp: tail_at_def)
  obtain l where l: "lk_as_list (lc_views R) v = Some l" "lv_is_empty l = lcons_is_empty m" "lv_car l = lcons_car R m"
      "lv_cdr l = lcons_cdr R m" "lk_drop (lc_views R) v = (\<lambda>w. w)"
    by (rule lcons_views_lawD [OF law v(2)])
  have e: "lcons_is_empty m w = (w, Ok False)" using chain_atD(1) [OF v(3)] less by (simp add: lcons_is_empty_def op_simps)
  obtain a where a: "lcons_car R m w = (a, Ok (Some x))" "chains_ok R a" "lcons_le w a" using chain_car [OF i(1) v(3)] i(3) by auto
  obtain b t where b: "lcons_cdr R m a = (b, Ok t)" "chains_ok R b" "lcons_le a b" "tail_at R b items (i + 1) t"
    using chain_cdr [OF law a(2) chain_at_mono [OF a(3) v(3)] less] by blast
  have "drop (i + 1) items = xs" using i(3) by (metis Suc_eq_plus1 drop_Suc list.sel(3) tl_drop)
  then have "chain_owns R start t xs b"
    using b(2,4) lcons_le_trans [OF i(2) lcons_le_trans [OF a(3) b(3)]] by (auto simp: chain_owns_def)
  then show "\<exists>w' tail'. next_node (lc_views R) tail w = (w', Ok (Some (Some x, tail'))) \<and> chain_owns R start tail' xs w'"
    using v(1) l e a(1) b(1) by (auto simp: next_node_def releasing_def op_bind_def op_simps drop_opt_def)
qed


definition chain_good :: "('w, 'v, 's, 'c) lcons_cx \<Rightarrow> nat \<Rightarrow> 'v list \<Rightarrow> ('w, 'v, 's, 'c) lcons_world \<Rightarrow> bool" where
  "chain_good R n xs w \<longleftrightarrow> chains_ok R w \<and> (\<exists>items i. drop i items = xs \<and> chain_at w n items i)"

lemma chain_good_framed: "chain_good R n xs w \<Longrightarrow> chain_framed R w w' \<Longrightarrow> chain_good R n xs w'"
  unfolding chain_good_def chain_framed_def using chain_at_mono by blast

lemma chain_head_tail:
  assumes law: "lcons_views_law R" and good: "chain_good R n xs w"
  shows "\<exists>w' tail. op_bind (lcons_car R n) (\<lambda>head. op_bind (lcons_cdr R n) (\<lambda>tail. op_return (head, tail))) w = (w', Ok (nth_opt xs 0, tail)) \<and>
    (case xs of [] \<Rightarrow> tail = None \<and> chain_framed R w w' | x # ys \<Rightarrow> chain_owns R w tail ys w')"
proof -
  obtain items i where i: "chains_ok R w" "drop i items = xs" "chain_at w n items i" using good by (auto simp: chain_good_def)
  obtain a where a: "lcons_car R n w = (a, Ok (nth_opt xs 0))" "chains_ok R a" "lcons_le w a" using chain_car [OF i(1,3)] i(2) by auto
  note at = chain_at_mono [OF a(3) i(3)]
  show ?thesis
  proof (cases xs)
    case Nil
    then have "ln_empty (lw_nodes a ! n)" using chain_atD(1) [OF at] i(2) by simp
    then show ?thesis using a Nil by (simp add: op_bind_def op_simps lcons_cdr_def chain_framed_def)
  next
    case (Cons x ys)
    have less: "i < length items" using i(2) Cons by (metis drop_all linorder_not_less list.distinct(1))
    obtain b t where b: "lcons_cdr R n a = (b, Ok t)" "chains_ok R b" "lcons_le a b" "tail_at R b items (i + 1) t"
      using chain_cdr [OF law a(2) at less] by blast
    have "drop (i + 1) items = ys" using i(2) Cons by (metis Suc_eq_plus1 drop_Suc list.sel(3) tl_drop)
    then have "chain_owns R w t ys b" using b(2,4) lcons_le_trans [OF a(3) b(3)] by (auto simp: chain_owns_def)
    then show ?thesis using a(1) b(1) Cons by (auto simp: op_bind_def op_simps)
  qed
qed

lemma chain_walks:
  fixes R :: "('w, 'v, 's, 'c) lcons_cx"
  assumes law: "lcons_views_law R"
  shows "list_walks (lcons_list_value R n) (chain_good R n xs) xs"
proof
  note nodes = chain_nodes [OF law]
  fix w assume w: "chain_good R n xs w"
  then obtain items i where i: "chains_ok R w" "drop i items = xs" "chain_at w n items i" by (auto simp: chain_good_def)
  show "\<exists>w'. lv_is_empty (lcons_list_value R n) w = (w', Ok (xs = [])) \<and> chain_good R n xs w'"
    using w chain_atD(1) [OF i(3)] i(2) by (auto simp: lcons_list_value_def lcons_is_empty_def op_simps)
  show "\<exists>w'. lv_car (lcons_list_value R n) w = (w', Ok (nth_opt xs 0)) \<and> chain_good R n xs w'"
    using chain_car [OF i(1,3)] i(2) chain_good_framed [OF w] by (auto simp: lcons_list_value_def chain_framed_def)
  show "\<exists>w' r. lv_len (lcons_list_value R n) w = (w', Ok r) \<and> (r = Known (length xs) \<or> r = Unknown) \<and> chain_good R n xs w'"
    using w by (simp add: lcons_list_value_def lcons_len_def op_simps)
  obtain u tail where u: "op_bind (lcons_car R n) (\<lambda>head. op_bind (lcons_cdr R n) (\<lambda>tail. op_return (head, tail))) w = (u, Ok (nth_opt xs 0, tail))"
      "case xs of [] \<Rightarrow> tail = None \<and> chain_framed R w u | x # ys \<Rightarrow> chain_owns R w tail ys u"
    using chain_head_tail [OF law w] by blast
  have get: "lcons_get R n i w = spine_get_loop (lc_views R) i (nth_opt xs 0) tail u" for i
    using u(1) by (auto simp: lcons_get_def spine_get_def op_bind_def op_simps split: prod.splits res.splits)
  have walk: "lcons_for_each R n limit (w, t) =
      (if limit = Some 0 then Some ((w, t), Ok ()) else spine_walk (lc_views R) limit 0 (nth_opt xs 0) tail (u, t))" for limit t
    using u(1) by (simp add: lcons_for_each_def spine_for_each_def)
  show "\<exists>w'. lv_get (lcons_list_value R n) i w = (w', Ok (nth_opt xs i)) \<and> chain_good R n xs w'" for i
  proof (cases xs)
    case Nil
    then show ?thesis using get u(2) chain_good_framed [OF w] by (simp add: lcons_list_value_def releasing_def drop_opt_def op_simps)
  next
    case (Cons x ys)
    then obtain w' where "spine_get_loop (lc_views R) i (Some x) tail u = (w', Ok (nth_opt xs i))" "chain_framed R w w'"
      using list_nodes.get_loop_nodes [OF nodes, of w tail ys u i x] u(2) by auto
    then show ?thesis using get chain_good_framed [OF w] Cons by (simp add: lcons_list_value_def)
  qed
  show "\<exists>w'. lv_for_each (lcons_list_value R n) limit (w, t) = Some ((w', t @ upto_limit limit xs), Ok ()) \<and> chain_good R n xs w'" for limit t
  proof (cases xs)
    case Nil
    then show ?thesis using walk u(2) w chain_good_framed [OF w]
      by (auto simp: lcons_list_value_def drop_opt_def upto_limit_def spine_walk.simps split: option.splits)
  next
    case (Cons x ys)
    obtain w' where "spine_walk (lc_views R) limit 0 (Some x) tail (u, t) =
        Some ((w', t @ upto_limit (map_option (\<lambda>most. most - 0) limit) (x # ys)), Ok ())" "chain_framed R w w'"
      using list_nodes.walk_nodes [OF nodes, of w tail ys u limit 0 x t] u(2) Cons by auto
    then show ?thesis using walk [of limit t] w chain_good_framed [OF w] Cons
      by (cases limit) (auto simp: lcons_list_value_def upto_limit_def)
  qed
qed

text \<open>C39: The lazy list of given items stands for them: from any world where chains are sound, its value answers
  \<open>is_empty\<close>, \<open>car\<close>, every index and every walk, with or without a limit, as the items do, however
  much of it was forced before, and keeps the chains sound.\<close>

theorem lcons_stands_for:
  fixes R :: "('w, 'v, 's, 'c) lcons_cx"
  assumes "lcons_views_law R" and "chains_ok R w"
  shows "\<exists>w' v n. lcons_new_list R items w = (w', Ok v) \<and> lc_opaque R n = Ok v \<and> chain_good R n items w' \<and>
    list_walks (lcons_list_value R n) (chain_good R n items) items"
proof -
  obtain v where v: "lc_opaque R (length (lw_nodes w)) = Ok v" using assms(1) unfolding lcons_views_law_def by blast
  let ?u = "w\<lparr>lw_nodes := lw_nodes w @ [chain_from items 0]\<rparr>"
  have "chains_ok R ?u" by (rule chains_ok_new [OF assms(2)]) (simp_all add: chain_from_def lcons_empty_def lcons_cell_def)
  moreover have "chain_at ?u (length (lw_nodes w)) items 0" by (simp add: chain_at_def)
  ultimately have "chain_good R (length (lw_nodes w)) items ?u" unfolding chain_good_def by (metis drop0)
  moreover have "lcons_new_list R items w = (?u, Ok v)" using v by (simp add: lcons_new_list_def lcons_opaque_def finite_chain_def)
  ultimately show ?thesis using v chain_walks [OF assms(1)] by blast
qed

section \<open>Unbounded lists\<close>

text \<open>Nodes of a list that goes on: element \<open>k\<close> is \<open>elem k\<close>.\<close>

locale stream_nodes =
  fixes K :: "('w, 'v) list_kernel" and elem :: "nat \<Rightarrow> 'v" and ahead :: "nat \<Rightarrow> 'v option \<Rightarrow> 'w \<Rightarrow> bool"
  assumes stream_next: "ahead k tail w \<Longrightarrow> \<exists>w' tail'. next_node K tail w = (w', Ok (Some (Some (elem k), tail'))) \<and> ahead (Suc k) tail' w'"
begin

lemma get_loop_stream: "ahead (Suc k) tail w \<Longrightarrow> \<exists>w'. spine_get_loop K i (Some (elem k)) tail w = (w', Ok (Some (elem (k + i))))"
proof (induction i arbitrary: k tail w)
  case 0
  then show ?case by (simp add: releasing_def op_simps)
next
  case (Suc i)
  obtain w' tail' where "next_node K tail w = (w', Ok (Some (Some (elem (Suc k)), tail')))" "ahead (Suc (Suc k)) tail' w'"
    using stream_next [OF Suc.prems] by blast
  then show ?case using Suc.IH [of "Suc k" tail' w'] by (simp add: op_bind_def)
qed

lemma walk_stream:
  "ahead (Suc k) tail w \<Longrightarrow>
     \<exists>w'. spine_walk K (Some (c + m)) c (Some (elem k)) tail (w, t) = Some ((w', t @ map elem [k..<k + m]), Ok ())"
proof (induction m arbitrary: c k tail w t)
  case 0
  then show ?case by (subst spine_walk.simps) simp
next
  case (Suc m)
  obtain w' tail' where s: "next_node K tail w = (w', Ok (Some (Some (elem (Suc k)), tail')))" "ahead (Suc (Suc k)) tail' w'"
    using stream_next [OF Suc.prems] by blast
  have "map elem [k..<k + Suc m] = elem k # map elem [Suc k..<Suc k + m]" by (simp add: upt_conv_Cons del: upt_Suc)
  then show ?case using s Suc.IH [OF s(2), of "Suc c" "t @ [elem k]"] by (subst spine_walk.simps) simp
qed

end

text \<open>A step that depends on the seed alone, and the seeds it goes through.\<close>

definition pure_step :: "('w, 'v, 's, 'c) lcons_cx \<Rightarrow> ('s \<Rightarrow> 'v \<times> 's) \<Rightarrow> bool" where
  "pure_step R g \<longleftrightarrow> (\<forall>s w. lc_step R s w = (w, Ok (g s)))"

definition seed_at :: "('s \<Rightarrow> 'v \<times> 's) \<Rightarrow> 's \<Rightarrow> nat \<Rightarrow> 's" where
  "seed_at g s k = ((snd \<circ> g) ^^ k) s"

lemma seed_at_simps [simp]: "seed_at g s 0 = s" "snd (g (seed_at g s k)) = seed_at g s (Suc k)"
  by (simp_all add: seed_at_def)

definition unfold_at :: "('w, 'v, 's, 'c) lcons_world \<Rightarrow> nat \<Rightarrow> 's \<Rightarrow> bool" where
  "unfold_at w n s \<longleftrightarrow> n < length (lw_nodes w) \<and> node_le (lcons_unfold s) (lw_nodes w ! n)"

text \<open>What nodes of \<open>unfold\<close> remember is right.\<close>

definition unfolds_ok :: "('w, 'v, 's, 'c) lcons_cx \<Rightarrow> ('s \<Rightarrow> 'v \<times> 's) \<Rightarrow> ('w, 'v, 's, 'c) lcons_world \<Rightarrow> bool" where
  "unfolds_ok R g w \<longleftrightarrow>
     (\<forall>n s r. unfold_at w n s \<longrightarrow> ln_head_cache (lw_nodes w ! n) = Some r \<longrightarrow> r = Ok (fst (g s))) \<and>
     (\<forall>n s r. unfold_at w n s \<longrightarrow> ln_tail_cache (lw_nodes w ! n) = Some r \<longrightarrow>
        (\<exists>m v. r = Ok (Some v) \<and> lc_opaque R m = Ok v \<and> unfold_at w m (snd (g s))))"

lemma unfold_at_mono: "lcons_le w w' \<Longrightarrow> unfold_at w n s \<Longrightarrow> unfold_at w' n s"
  unfolding unfold_at_def lcons_le_def using node_le_trans by (meson order_less_le_trans)

lemma unfold_atD:
  assumes "unfold_at w n s"
  shows "n < length (lw_nodes w)" "\<not> ln_empty (lw_nodes w ! n)" "ln_head_fn (lw_nodes w ! n) = Some (Unfold s)"
    "ln_tail_fn (lw_nodes w ! n) = Some (Unfold s)"
  using assms by (auto simp: unfold_at_def lcons_unfold_def node_le_def lcons_cell_def)

lemma unfold_at_same: "unfold_at w n s \<Longrightarrow> unfold_at w n s' \<Longrightarrow> s' = s"
  using unfold_atD(3) [of w n s] unfold_atD(3) [of w n s'] by simp

lemma unfold_at_set [simp]:
  "unfold_at (set_head k r w) n s \<longleftrightarrow> unfold_at w n s"
  "unfold_at (set_tail k q w) n s \<longleftrightarrow> unfold_at w n s"
  by (cases "k < length (lw_nodes w)";
    auto simp: unfold_at_def set_head_def set_tail_def nth_list_update node_le_def lcons_unfold_def lcons_cell_def)+

lemma unfolds_ok_set_head:
  assumes ok: "unfolds_ok R g w" and at: "unfold_at w k s"
  shows "unfolds_ok R g (set_head k (Ok (fst (g s))) w)"
  unfolding unfolds_ok_def unfold_at_set
proof (intro conjI allI impI)
  fix n s' r
  assume n: "unfold_at w n s'" and c: "ln_head_cache (lw_nodes (set_head k (Ok (fst (g s))) w) ! n) = Some r"
  show "r = Ok (fst (g s'))"
  proof (cases "k = n")
    case True
    then show ?thesis using c unfold_at_same [OF at, of s'] n set_caches(1) [OF unfold_atD(1) [OF n]] by simp
  qed (use ok n c set_caches(1) [OF unfold_atD(1) [OF n]] in \<open>simp add: unfolds_ok_def\<close>)
next
  fix n s' r
  assume n: "unfold_at w n s'" and "ln_tail_cache (lw_nodes (set_head k (Ok (fst (g s))) w) ! n) = Some r"
  then show "\<exists>m v. r = Ok (Some v) \<and> lc_opaque R m = Ok v \<and> unfold_at w m (snd (g s'))"
    using ok set_caches(2) [OF unfold_atD(1) [OF n]] by (simp add: unfolds_ok_def)
qed

lemma unfolds_ok_set_tail:
  assumes ok: "unfolds_ok R g w" and at: "unfold_at w k s" and tail: "lc_opaque R m = Ok v" "unfold_at w m (snd (g s))"
  shows "unfolds_ok R g (set_tail k (Ok (Some v)) w)"
  unfolding unfolds_ok_def unfold_at_set
proof (intro conjI allI impI)
  fix n s' r
  assume n: "unfold_at w n s'" and "ln_head_cache (lw_nodes (set_tail k (Ok (Some v)) w) ! n) = Some r"
  then show "r = Ok (fst (g s'))" using ok set_caches(4) [OF unfold_atD(1) [OF n]] by (simp add: unfolds_ok_def)
next
  fix n s' r
  assume n: "unfold_at w n s'" and c: "ln_tail_cache (lw_nodes (set_tail k (Ok (Some v)) w) ! n) = Some r"
  show "\<exists>m v. r = Ok (Some v) \<and> lc_opaque R m = Ok v \<and> unfold_at w m (snd (g s'))"
  proof (cases "k = n")
    case True
    then show ?thesis using c unfold_at_same [OF at, of s'] n set_caches(3) [OF unfold_atD(1) [OF n]] tail by auto
  qed (use ok n c set_caches(3) [OF unfold_atD(1) [OF n]] in \<open>simp add: unfolds_ok_def\<close>)
qed

lemma unfolds_ok_new:
  assumes ok: "unfolds_ok R g w" and fresh: "ln_head_cache node = None" "ln_tail_cache node = None"
  shows "unfolds_ok R g (w\<lparr>lw_nodes := lw_nodes w @ [node]\<rparr>)"
proof -
  let ?w = "w\<lparr>lw_nodes := lw_nodes w @ [node]\<rparr>"
  have le: "lcons_le w ?w" by (simp add: lcons_le_def nth_append)
  have old: "unfold_at w n s \<or> lw_nodes ?w ! n = node" if "unfold_at ?w n s" for n s
    using that by (auto simp: unfold_at_def nth_append less_Suc_eq)
  have same: "lw_nodes ?w ! n = lw_nodes w ! n" if "unfold_at w n s" for n s
    using that by (simp add: unfold_at_def nth_append)
  show ?thesis
    unfolding unfolds_ok_def
  proof (intro conjI allI impI)
    fix n s r
    assume n: "unfold_at ?w n s" and c: "ln_head_cache (lw_nodes ?w ! n) = Some r"
    from old [OF n] c fresh have at: "unfold_at w n s" by auto
    then show "r = Ok (fst (g s))" using ok c same [OF at] unfolding unfolds_ok_def by metis
  next
    fix n s r
    assume n: "unfold_at ?w n s" and c: "ln_tail_cache (lw_nodes ?w ! n) = Some r"
    from old [OF n] c fresh have at: "unfold_at w n s" by auto
    then have "\<exists>m v. r = Ok (Some v) \<and> lc_opaque R m = Ok v \<and> unfold_at w m (snd (g s))"
      using ok c same [OF at] unfolding unfolds_ok_def by metis
    then show "\<exists>m v. r = Ok (Some v) \<and> lc_opaque R m = Ok v \<and> unfold_at ?w m (snd (g s))" using unfold_at_mono [OF le] by blast
  qed
qed

lemma unfold_car:
  assumes pure: "pure_step R g" and ok: "unfolds_ok R g w" and at: "unfold_at w n s"
  shows "\<exists>w'. lcons_car R n w = (w', Ok (Some (fst (g s)))) \<and> unfolds_ok R g w' \<and> lcons_le w w'"
proof -
  note d = unfold_atD [OF at]
  obtain x s' where g: "g s = (x, s')" by (cases "g s")
  have run: "run_head R (Unfold s) w = (w, Ok x)" using pure g by (simp add: pure_step_def op_bind_def op_simps)
  show ?thesis
  proof (cases "ln_head_cache (lw_nodes w ! n)")
    case None
    then show ?thesis using d run g unfolds_ok_set_head [OF ok at] set_le(1) [OF None]
      by (simp add: lcons_car_def cached_head_def once_def op_bind_def op_simps del: run_head.simps)
  next
    case (Some r)
    moreover from this have "r = Ok (fst (g s))" using ok at unfolding unfolds_ok_def by metis
    ultimately show ?thesis using d ok by (simp add: lcons_car_def cached_head_def once_def op_bind_def op_simps)
  qed
qed

lemma unfold_cdr:
  assumes law: "lcons_views_law R" and pure: "pure_step R g" and ok: "unfolds_ok R g w" and at: "unfold_at w n s"
  shows "\<exists>w' m v. lcons_cdr R n w = (w', Ok (Some v)) \<and> unfolds_ok R g w' \<and> lcons_le w w' \<and> lc_opaque R m = Ok v \<and> unfold_at w' m (snd (g s))"
proof -
  note d = unfold_atD [OF at]
  show ?thesis
  proof (cases "ln_tail_cache (lw_nodes w ! n)")
    case (Some r)
    moreover from this obtain m v where "r = Ok (Some v)" "lc_opaque R m = Ok v" "unfold_at w m (snd (g s))"
      using ok at unfolding unfolds_ok_def by metis
    ultimately show ?thesis using d ok by (auto simp: lcons_cdr_def cached_tail_def once_def)
  next
    case None
    obtain x s' where g: "g s = (x, s')" by (cases "g s")
    let ?u = "w\<lparr>lw_nodes := lw_nodes w @ [lcons_unfold s']\<rparr>"
    obtain v where v: "lc_opaque R (length (lw_nodes w)) = Ok v" using law unfolding lcons_views_law_def by blast
    have run: "run_tail R (Unfold s) w = (?u, Ok (Some v))"
      using pure g v by (simp add: pure_step_def op_bind_def op_simps lcons_opaque_def)
    have le: "lcons_le w ?u" by (simp add: lcons_le_def nth_append)
    have u: "unfolds_ok R g ?u" by (rule unfolds_ok_new [OF ok]) (simp_all add: lcons_unfold_def lcons_cell_def)
    have tail: "unfold_at ?u (length (lw_nodes w)) (snd (g s))" by (simp add: unfold_at_def g)
    have none: "ln_tail_cache (lw_nodes ?u ! n) = None" using None d(1) by (simp add: nth_append)
    have "lcons_cdr R n w = (set_tail n (Ok (Some v)) ?u, Ok (Some v))"
      using d None none run by (simp add: lcons_cdr_def cached_tail_def once_def del: run_tail.simps)
    then show ?thesis
      using unfolds_ok_set_tail [OF u unfold_at_mono [OF le at] v tail] lcons_le_trans [OF le set_le(2) [OF none]] v tail by auto
  qed
qed

definition unfold_ahead :: "('w, 'v, 's, 'c) lcons_cx \<Rightarrow> ('s \<Rightarrow> 'v \<times> 's) \<Rightarrow> 's \<Rightarrow> nat \<Rightarrow> 'v option \<Rightarrow> ('w, 'v, 's, 'c) lcons_world \<Rightarrow> bool" where
  "unfold_ahead R g s k tail w \<longleftrightarrow>
     unfolds_ok R g w \<and> (\<exists>m v. tail = Some v \<and> lc_opaque R m = Ok v \<and> unfold_at w m (seed_at g s k))"

lemma unfold_stream:
  fixes R :: "('w, 'v, 's, 'c) lcons_cx"
  assumes law: "lcons_views_law R" and pure: "pure_step R g"
  shows "stream_nodes (lc_views R) (\<lambda>k. fst (g (seed_at g s k))) (unfold_ahead R g s)"
proof
  fix k w and tail :: "'v option"
  assume "unfold_ahead R g s k tail w"
  then obtain m v where v: "unfolds_ok R g w" "tail = Some v" "lc_opaque R m = Ok v" "unfold_at w m (seed_at g s k)"
    by (auto simp: unfold_ahead_def)
  obtain l where l: "lk_as_list (lc_views R) v = Some l" "lv_is_empty l = lcons_is_empty m" "lv_car l = lcons_car R m"
      "lv_cdr l = lcons_cdr R m" "lk_drop (lc_views R) v = (\<lambda>w. w)"
    by (rule lcons_views_lawD [OF law v(3)])
  have e: "lcons_is_empty m w = (w, Ok False)" using unfold_atD(2) [OF v(4)] by (simp add: lcons_is_empty_def op_simps)
  obtain a where a: "lcons_car R m w = (a, Ok (Some (fst (g (seed_at g s k)))))" "unfolds_ok R g a" "lcons_le w a"
    using unfold_car [OF pure v(1,4)] by blast
  obtain b m' t where b: "lcons_cdr R m a = (b, Ok (Some t))" "unfolds_ok R g b" "lc_opaque R m' = Ok t" "unfold_at b m' (seed_at g s (Suc k))"
    using unfold_cdr [OF law pure a(2) unfold_at_mono [OF a(3) v(4)]] by auto
  then show "\<exists>w' tail'. next_node (lc_views R) tail w = (w', Ok (Some (Some (fst (g (seed_at g s k))), tail'))) \<and> unfold_ahead R g s (Suc k) tail' w'"
    using v(2) l e a(1) by (auto simp: unfold_ahead_def next_node_def releasing_def op_bind_def op_simps drop_opt_def)
qed



section \<open>Nodes as values\<close>

text \<open>A kernel whose values are items and nodes, for a step of \<open>unfold\<close>; the lists do not look at the values of
  nodes but through the shared loops, so the kernel that has them exists.\<close>

datatype 'a lcons_value = LazyItem 'a | LazyRef nat

definition lcons_open :: "('s \<Rightarrow> 'a lcons_value \<times> 's) \<Rightarrow> (unit, 'a lcons_value, 's, unit) lcons_cx" where
  "lcons_open g =
     \<lparr>lc_step = \<lambda>s w. (w, Ok (g s)), lc_head = \<lambda>_. op_fail (Eval ''closure''), lc_tail = \<lambda>_. op_fail (Eval ''closure''),
      lc_opaque = \<lambda>n. Ok (LazyRef n), lc_views = \<lparr>lk_as_list = \<lambda>_. None, lk_drop = \<lambda>_ w. w\<rparr>,
      lc_len_cmp = \<lambda>_ _. op_fail (Eval ''length'')\<rparr>"

definition lcons_closed :: "('s \<Rightarrow> 'a lcons_value \<times> 's) \<Rightarrow> (unit, 'a lcons_value, 's, unit) lcons_cx" where
  "lcons_closed g = (lcons_open g)\<lparr>lc_views :=
     \<lparr>lk_as_list = \<lambda>v. (case v of LazyItem _ \<Rightarrow> None | LazyRef n \<Rightarrow> Some (lcons_list_value (lcons_open g) n)), lk_drop = \<lambda>_ w. w\<rparr>\<rparr>"

lemma run_views:
  "run_head (R\<lparr>lc_views := k\<rparr>) f = run_head R f" "run_tail (R\<lparr>lc_views := k\<rparr>) f = run_tail R f"
proof -
  have "lcons_opaque (R\<lparr>lc_views := k\<rparr>) node = lcons_opaque R node" for node by (rule ext) (simp add: lcons_opaque_def)
  then show "run_head (R\<lparr>lc_views := k\<rparr>) f = run_head R f" "run_tail (R\<lparr>lc_views := k\<rparr>) f = run_tail R f"
    by (cases f; simp add: Let_def)+
qed

lemma car_cdr_views:
  "lcons_car (R\<lparr>lc_views := k\<rparr>) n = lcons_car R n" "lcons_cdr (R\<lparr>lc_views := k\<rparr>) n = lcons_cdr R n"
proof -
  have "cached_head (R\<lparr>lc_views := k\<rparr>) n = cached_head R n" "cached_tail (R\<lparr>lc_views := k\<rparr>) n = cached_tail R n"
    unfolding fun_eq_iff cached_head_def cached_tail_def run_views by simp_all
  then show "lcons_car (R\<lparr>lc_views := k\<rparr>) n = lcons_car R n" "lcons_cdr (R\<lparr>lc_views := k\<rparr>) n = lcons_cdr R n"
    unfolding fun_eq_iff lcons_car_def lcons_cdr_def by (simp_all add: op_bind_def)
qed

lemma lcons_closed_views: "lcons_views_law (lcons_closed g)"
  unfolding lcons_views_law_def lcons_closed_def car_cdr_views
  by (auto simp: lcons_open_def lcons_list_value_def)

lemma lcons_open_outside: "outside_law (lcons_open g)"
  by (auto simp: outside_law_def lcons_open_def op_keeps_def op_simps)

lemma lcons_closed_outside: "outside_law (lcons_closed g)"
proof -
  note keep = car_cdr_keep [OF lcons_open_outside]
  have "op_keeps lcons_le (lcons_is_empty n)" for n by (simp add: op_keeps_def lcons_is_empty_def op_simps)
  then show ?thesis
    using keep [of g] by (auto simp: outside_law_def lcons_closed_def lcons_list_value_def split: lcons_value.splits)
      (auto simp: lcons_open_def op_keeps_def op_simps)
qed

lemma lcons_closed_pure: "pure_step (lcons_closed g) g"
  by (simp add: pure_step_def lcons_closed_def lcons_open_def)

interpretation lcons_chain: list_nodes "lc_views (lcons_closed g)" "chain_owns (lcons_closed g)" "chain_framed (lcons_closed g)" for g
  by (rule chain_nodes [OF lcons_closed_views])

interpretation lcons_vec: list_walks "lcons_list_value (lcons_closed g) n" "chain_good (lcons_closed g) n xs" xs for g n xs
  by (rule chain_walks [OF lcons_closed_views])

interpretation lcons_stream: stream_nodes "lc_views (lcons_closed g)" "\<lambda>k. fst (g (seed_at g s k))" "unfold_ahead (lcons_closed g) g s" for g s
  by (rule unfold_stream [OF lcons_closed_views lcons_closed_pure])

section \<open>Witnesses\<close>

definition nats_step :: "nat \<Rightarrow> nat lcons_value \<times> nat" where
  "nats_step s = (LazyItem s, s + 1)"

definition nats_from :: "nat \<Rightarrow> (unit, nat lcons_value, nat, unit) lcons_world" where
  "nats_from s = \<lparr>lw_base = (), lw_nodes = [lcons_unfold s]\<rparr>"

lemma nats_from_sound: "unfolds_ok (lcons_closed nats_step) nats_step (nats_from s)" "unfold_at (nats_from s) 0 s"
  by (auto simp: unfolds_ok_def unfold_at_def nats_from_def lcons_unfold_def lcons_cell_def)

theorem lcons_forced_once_witness:
  "\<exists>w1 w2 t. lcons_car (lcons_closed nats_step) 0 (nats_from 5) = (w1, Ok (Some (LazyItem 5))) \<and>
     lcons_cdr (lcons_closed nats_step) 0 w1 = (w2, Ok t) \<and> lcons_car (lcons_closed nats_step) 0 w2 = (w2, Ok (Some (LazyItem 5)))"
proof -
  let ?R = "lcons_closed nats_step"
  obtain w1 where w1: "lcons_car ?R 0 (nats_from 5) = (w1, Ok (Some (LazyItem 5)))" "unfolds_ok ?R nats_step w1" "lcons_le (nats_from 5) w1"
    using unfold_car [OF lcons_closed_pure nats_from_sound] by (auto simp: nats_step_def)
  obtain w2 v where w2: "lcons_cdr ?R 0 w1 = (w2, Ok (Some v))"
    using unfold_cdr [OF lcons_closed_views lcons_closed_pure w1(2) unfold_at_mono [OF w1(3) nats_from_sound(2)]] by blast
  have steps: "(lcons_step ?R)\<^sup>*\<^sup>* w1 w2" using lcons_step_cdr [OF w2] by blast
  have "0 < length (lw_nodes (nats_from 5))" by (simp add: nats_from_def)
  from lcons_forced_once [OF lcons_closed_outside this] w1(1) steps
  have "lcons_car ?R 0 w2 = (w2, Ok (Some (LazyItem 5)))" by blast
  then show ?thesis using w1(1) w2 by blast
qed

theorem lcons_stands_for_witness:
  "\<exists>w w' v n. lcons_new_list (lcons_closed nats_step) [LazyItem 7, LazyItem 8] \<lparr>lw_base = (), lw_nodes = []\<rparr> = (w, Ok v) \<and>
     lcons_get (lcons_closed nats_step) n 1 w = (w', Ok (Some (LazyItem 8)))"
proof -
  let ?R = "lcons_closed nats_step"
  let ?xs = "[LazyItem 7, LazyItem 8 :: nat lcons_value]"
  have "chains_ok ?R \<lparr>lw_base = (), lw_nodes = []\<rparr>" by (simp add: chains_ok_def chain_at_def)
  from lcons_stands_for [OF lcons_closed_views this, of ?xs] obtain w v n where
      w: "lcons_new_list ?R ?xs \<lparr>lw_base = (), lw_nodes = []\<rparr> = (w, Ok v)" "chain_good ?R n ?xs w"
        "list_walks (lcons_list_value ?R n) (chain_good ?R n ?xs) ?xs" by blast
  from list_walks.list_get [OF w(3,2), of 1] w(1) show ?thesis by (auto simp: lcons_list_value_def nth_opt_def)
qed


section \<open>What is forced beyond what is asked\<close>

text \<open>The tail is forced before the index is looked at: its error hides the element that is there.\<close>

lemma get_first_needs_tail:
  "lcons_car R n w = (u, Ok (Some v)) \<Longrightarrow> lcons_cdr R n u = (w', Err e) \<Longrightarrow> lcons_get R n 0 w = (w', Err e)"
  by (simp add: lcons_get_def spine_get_def op_bind_def)

text \<open>The step of \<open>unfold\<close> runs twice for each cell, once for its element and once for the next seed, so that with
  a step that acts on the outside the two come from different runs.\<close>

lemma unfold_steps_twice:
  assumes "lc_step R = (\<lambda>s w. (w\<lparr>lw_base := lw_base w + (1::nat)\<rparr>, Ok (item, s)))" and "lc_opaque R 1 = Ok v"
    and "lw_nodes w = [lcons_unfold s]"
  shows "\<exists>u u'. lcons_car R 0 w = (u, Ok (Some item)) \<and> lcons_cdr R 0 u = (u', Ok (Some v)) \<and> lw_base u' = lw_base w + 2"
  using assms
  by (simp add: lcons_car_def lcons_cdr_def cached_head_def cached_tail_def once_def op_bind_def op_simps lcons_opaque_def
      lcons_unfold_def lcons_cell_def set_head_def set_tail_def)

end
