(* ===== verification/Spec2Isabelle.thy ===== *)
theory Spec2Isabelle
  imports Journal_Memory Native_Codec Facet_Merge Porch_Consent Journal_Host_Safety Table_Override Table_Db Sealed_Laws Sealed_Generation Table_Lazy Table_Mount Table_Relation Relation_Cli Relation_Site Table_Http List_Cons List_Iter List_Lazy
begin

text \<open>
  A verification development for sim-storage, a Rust workspace of storage libraries for the SIM
  runtime. Source names below are under \<open>src/crates/\<close>.

  \<^bold>\<open>The program.\<close> Five groups of crates are modelled. The journal (\<open>sim-lib-journal\<close>) is an append-only,
  content-addressed log of entries and objects behind a lease: a backend trait with an in-memory and a
  host-directory implementation, the latter over the storage port (\<open>sim-storage-port\<close>) and with its own
  wire format. The table crates (\<open>sim-table-hash\<close>, \<open>sim-table-override\<close>, \<open>sim-table-db\<close>,
  \<open>sim-table-lazy\<close>, \<open>sim-table-mount\<close>, \<open>sim-table-relation\<close>, \<open>sim-table-http\<close>, \<open>sim-table-sealed\<close>)
  implement the kernel's \<open>Table\<close> and \<open>Dir\<close> traits and decorate one another. The list crates
  (\<open>sim-list-cell\<close>, \<open>sim-list-lazy\<close>) implement its \<open>ListValue\<close>, each over tails that may be lists of another.
  The relation site and its command line (\<open>sim-relation-site\<close>, \<open>sim-lib-relation-cli\<close>) put a boundary
  before database drivers. Two libraries stand beside them: facets with a three-way merge
  (\<open>sim-artifact-facet\<close>) and the porch, a consent protocol for mutual projection
  (\<open>sim-mutual-projection\<close>).

  \<^bold>\<open>Shared vocabulary.\<close> \<open>Prelude\<close>, \<open>Std_Collections\<close> and \<open>Std_Text\<close> hold the parts of the Rust standard
  library the code uses: the result type (value, error, panic), operations on a state, strings as
  UTF-8 byte lists, big-endian integers, ordered maps and sets, decimal and hexadecimal text.
  \<open>Kernel_Iface\<close> is the interface of the external crate \<open>sim_kernel\<close>: symbols, content ids, datums and
  the record \<open>kernel\<close> of its functions; what the code relies on are the predicates
  \<open>kernel_content_law\<close>, \<open>kernel_digest_law\<close> and \<open>kernel_symbol_law\<close>, hypotheses where they are used.

  \<^bold>\<open>Journal.\<close> \<open>Journal_Types\<close> (\<open>head.rs\<close>, \<open>lease.rs\<close>, the errors of \<open>verify.rs\<close>), \<open>Datum_Codec\<close>
  (\<open>datum_codec.rs\<close>), \<open>Journal_Object\<close> (\<open>object.rs\<close>, \<open>entry.rs\<close>), \<open>Journal_Verify\<close> (\<open>verify.rs\<close>),
  \<open>Journal_Backend\<close> (\<open>backend.rs\<close>, the locales \<open>journal_log\<close> and \<open>journal_backend\<close>), \<open>Journal\<close>
  (\<open>admission.rs\<close>, \<open>persistent.rs\<close>, \<open>projection.rs\<close>, \<open>replay.rs\<close>, \<open>snapshot.rs\<close>, proved once inside the
  locales), \<open>Journal_Memory\<close> (\<open>memory.rs\<close>, the interpretation). Proved: the codec round trip and that it accepts
  exactly the encodings; that verification accepts exactly the well-formed states and that a verified
  history is unique; that every action keeps the log well formed and append-only, that publication is
  atomic, redelivery idempotent, and that a stale lease is refused. The decoder's fuel is twice the
  input length plus one, enough because every call consumes a byte or descends once.

  \<^bold>\<open>Host directory backend.\<close> \<open>Native_Codec\<close> and \<open>Native_Bounds\<close> (\<open>native_codec.rs\<close>), \<open>Host_Port\<close>
  (\<open>sim-storage-port\<close>, the contract as the locale \<open>host_port\<close>, kept by the in-memory port of
  \<open>tests.rs\<close>), \<open>Journal_Host\<close> (\<open>host.rs\<close>, \<open>admission.rs\<close>) and its proofs: \<open>Journal_Host_Read\<close>, \<open>_Write\<close>,
  \<open>_Publish\<close>, \<open>_Commit\<close>, \<open>_Log\<close>, \<open>_Admit\<close>, \<open>_Lease\<close>, \<open>_Safety\<close>. The refinement: the state read from the port is
  the abstract log, an admission is one atomic step of it whatever objects and entries were written
  before the exchange of the head file. One operation runs without interference between its port calls;
  races are the failing compare-exchange, a branch of the model. \<open>host_room\<close>, \<open>object_fits\<close> and
  \<open>entry_fits\<close> are the size assumptions (sequence numbers below \<open>2 ^ 64\<close>, buffers below the address
  space); \<open>sequence + 1\<close> wraps in a release build and is written so. \<open>acquire_lease\<close> loops at most a given
  number of rounds; one suffices without interference.

  \<^bold>\<open>Tables.\<close> \<open>Table_Iface\<close> has the traits as records of operations over a world that holds everything the
  objects share, the locales \<open>table_base\<close> and \<open>table_contract\<close> (a table is its finite map), and the
  refinement of every sequence of calls by that map. \<open>Table_Hash\<close> and \<open>Table_Db\<close> are interpretations;
  \<open>Table_Override\<close> is a client, with the locales \<open>table_heap\<close> (layers in a shared world) and \<open>overlay\<close>, and
  by \<open>sublocale\<close> again a table. \<open>Table_Db\<close> also has the directory operations, the invariant of the tree
  over every history and the exactness of removal and compare-exchange. \<open>Sealed_Format\<close> (\<open>format.rs\<close>,
  \<open>codec.rs\<close>, \<open>blind.rs\<close>), \<open>Table_Sealed\<close> (\<open>table.rs\<close>) and \<open>Sealed_Laws\<close>: the wire format is strict, set and get
  are a round trip over any contract backend, a moved object is refused up to a collision of the
  cipher, nonces are fresh and bounded. \<open>Sealed_Generation\<close> (\<open>generation.rs\<close>, \<open>key_provider.rs\<close>, \<open>backup.rs\<close>,
  \<open>destroy.rs\<close>) has the lifecycle of keys: the locale \<open>generation_store\<close>, kept by the store of \<open>tests.rs\<close>, a rotation
  that either happened or left everything, recovery of an interrupted one, the round trip of a backup and the
  evidence of a destruction.

  \<^bold>\<open>More tables.\<close> \<open>Table_Lazy\<close> (\<open>sim-table-lazy/src/lazy.rs\<close>): a loader of an entry runs to an end at most once over
  every history, answers are remembered, and a table whose entries are loaded keeps \<open>table_contract\<close>; forces of
  two threads are interleaved steps. \<open>Table_Mount\<close> (\<open>mount_dir.rs\<close>, \<open>routing.rs\<close>, \<open>ops.rs\<close>, \<open>capabilities.rs\<close>):
  routing by the longest prefix, the invariant of the registries over every history of mounting, the names of mounts
  protected, and the locale \<open>mounted_backing\<close>, by \<open>sublocale\<close> a table and interpreted on \<open>Table_Db\<close>. \<open>Table_Relation\<close>
  (\<open>sim-table-relation/src/backend.rs\<close>): the rows form a tree over every history, the head slot shows the
  generation of the state, a stale exchange is refused and what is set reads back; the head slot and the codec are
  parameters with their laws. \<open>Table_Http\<close> (\<open>sim-table-http\<close>): options, addresses and requests over a client and codecs that are
  parameters; the address of a key is a round trip of its name, and over a server that keeps resources the
  directory is a table of them. The context's own evaluation effects are not modelled, an error
  text is its constant part, and a poisoned lock does not occur.

  \<^bold>\<open>Lists.\<close> \<open>List_Iface\<close> has \<open>ListValue\<close> as a record of operations and the loops of \<open>get\<close> and \<open>for_each\<close> that the lazy
  lists share; a walk is an option and \<open>None\<close> is a walk without end, and a walk with a limit is proved to end on
  every list. Its locales are \<open>list_walks\<close> and \<open>list_contract\<close> (a list stands for its elements in every good world) and
  \<open>list_nodes\<close> (nodes the loops can walk, with what they leave alone). \<open>List_Cons\<close> (\<open>cons.rs\<close>): cells and a foreign
  tail; what lies within the cells never asks the tail. \<open>List_Iter\<close> (\<open>iter.rs\<close>): views of one shared iterator, a
  view being its offset; the live views are a multiset, the census in the state counts them exactly through every
  history of calls, clones and drops, what a view has read stays, and a view of given items stands for them.
  \<open>List_Lazy\<close> (\<open>lazy.rs\<close>): a heap of nodes with closures and caches; a closure is the code that makes it with what it
  captures; a node is forced at most once, errors included, a chain of given items stands for them, and a
  list of \<open>unfold\<close>, which never ends, answers every index and every limited walk (the locale \<open>stream_nodes\<close>).
  Each locale is interpreted on the model's lists, in a kernel whose values are items and those lists.

  \<^bold>\<open>Relation site.\<close> \<open>Relation_Site\<close> (\<open>contract.rs\<close>, \<open>site.rs\<close>): a provider is the tree of its pushes, drivers and
  sessions are records of functions; whatever a provider does, the sink behind the bound (locale \<open>row_sink\<close>, kept by
  the vector sink) gets rows of the plan's type within the limits, and without its capability no operation reaches
  a driver. \<open>Relation_Cli\<close> (\<open>command.rs\<close>, \<open>lib.rs\<close>): the grammar accepts exactly the well-formed commands.

  \<^bold>\<open>Facets and porch.\<close> \<open>Facet\<close> and \<open>Facet_Merge\<close> (\<open>sim-artifact-facet\<close>): identities, images, the line
  difference and the three-way merge; \<open>Porch\<close> and \<open>Porch_Consent\<close> (\<open>sim-mutual-projection\<close>): the porch as a
  state machine with reachability, consent, finality and the audit log.

  \<^bold>\<open>Not modelled.\<close> Class wiring, library registration, display and encoding of objects call the external
  kernel only. The build tooling \<open>xtask\<close> checks file sizes and documentation and has no storage behaviour.
  Within the modelled parts: poisoning of locks, except where a loader panics; a list that reaches
  itself while its own state is locked; the failpoints of tests; relations between threads beyond the
  steps named above; and what the database driver, the cipher, the digest and the http client do.
\<close>

end
